(* ===== verification/Prelude.thy ===== *)
theory Prelude
  imports Main "HOL-Library.Word" "HOL-Library.Signed_Division" "HOL-Library.Multiset"
begin

text \<open>
  Shared vocabulary of the development: the machine integer types of the C code, the
  three-way comparison interface, and generic lemmas on words, lists and maps that the
  component theories use.
\<close>

unbundle bit_operations_syntax

section \<open>Machine integers\<close>

type_synonym u8 = "8 word"
type_synonym u16 = "16 word"
type_synonym u32 = "32 word"
type_synonym u64 = "64 word"

named_theorems word_bounds \<open>ranges of the values of fixed-width words\<close>
named_theorems word_vals \<open>values of word operations as operations on naturals\<close>

lemma unat_u8_lt [word_bounds]: "unat (w :: u8) < 256"
  by (rule order_less_le_trans [OF unsigned_less]) simp

lemma unat_u16_lt [word_bounds]: "unat (w :: u16) < 65536"
  by (rule order_less_le_trans [OF unsigned_less]) simp

lemma unat_u32_lt [word_bounds]: "unat (w :: u32) < 4294967296"
  by (rule order_less_le_trans [OF unsigned_less]) simp

lemma unat_add_mod [word_vals]:
  "unat (a + b :: 'a::len word) = (unat a + unat b) mod 2 ^ LENGTH('a)"
  by (simp add: unat_word_ariths)

lemma unat_mult_mod [word_vals]:
  "unat (a * b :: 'a::len word) = (unat a * unat b) mod 2 ^ LENGTH('a)"
  by (simp add: unat_word_ariths)

lemma unat_drop_bit_div [word_vals]:
  "unat (drop_bit n w :: 'a::len word) = unat w div 2 ^ n"
  unfolding unat_drop_bit_eq by (rule drop_bit_eq_div)

lemma ucast_u16_u32_id [simp]: "ucast (ucast (w :: u16) :: u32) = w"
  by (rule bit_word_eqI) (simp add: bit_unsigned_iff)

lemma unat_and_mask_mod:
  "unat (w AND mask n :: 'a::len word) = unat w mod 2 ^ n"
  unfolding take_bit_eq_mask [symmetric] unsigned_take_bit_eq by (rule take_bit_eq_mod)

lemma ucast_of_int: "(ucast (word_of_int x :: u64) :: u32) = word_of_int x"
  by transfer simp

lemma uint_small: "0 \<le> x \<Longrightarrow> x < 4294967296 \<Longrightarrow> uint (word_of_int x :: u32) = x"
  by (simp add: uint_word_of_int)

lemma uint_u32: "0 \<le> uint (w :: u32)" "uint (w :: u32) < 4294967296"
  using unsigned_less [where ?'a = int, of w] by simp_all

lemma pow2_vals: "(2 :: int) ^ 30 = 1073741824" "(2 :: int) ^ 31 = 2147483648" "(2 :: int) ^ 32 = 4294967296"
  "(2 :: int) ^ 63 = 9223372036854775808" "(2 :: int) ^ 64 = 18446744073709551616"
  by simp_all

section \<open>Positional numbers\<close>

lemma unat_eq_iff: "unat a = unat b \<longleftrightarrow> a = b" for a b :: "'a::len word"
  by (simp add: word_eq_iff_unsigned [where ?'a = nat])

lemma div_add_lt: "b < m \<Longrightarrow> (a * m + b) div m = a" for a b m :: nat
  by simp

lemma eq_split: "b < m \<Longrightarrow> b' < m \<Longrightarrow> a * m + b = a' * m + b' \<longleftrightarrow> a = a' \<and> b = b'" for a a' b b' m :: nat
  by (metis div_add_lt add_left_cancel)

lemma lex_sgn:
  fixes a a' b b' m :: nat
  assumes "b < m" "b' < m"
  shows "sgn (int (a * m + b) - int (a' * m + b'))
     = (if a = a' then sgn (int b - int b') else sgn (int a - int a'))"
proof (cases a a' rule: linorder_cases)
  case less
  then have "Suc a * m \<le> a' * m" by (intro mult_le_mono1) simp
  then have "a * m + b < a' * m + b'" using assms by simp
  with less show ?thesis by (simp add: sgn_if del: of_nat_add of_nat_mult)
next
  case greater
  then have "Suc a' * m \<le> a * m" by (intro mult_le_mono1) simp
  then have "a' * m + b' < a * m + b" using assms by simp
  with greater show ?thesis by (simp add: sgn_if del: of_nat_add of_nat_mult)
qed simp

lemma sgn_word:
  "sgn (uint a - uint b) = (if a = b then 0 else if a < b then -1 else 1)"
  for a b :: "'a::len word"
  by (auto simp: sgn_if word_less_def) (simp add: word_eq_iff_unsigned [where ?'a = int])

section \<open>Three-way comparison routines\<close>

text \<open>
  The contract of a C comparison routine returning a negative, zero or positive result: it
  is the order of a numeric key, which determines the value.
\<close>

locale keyed_order =
  fixes cmp :: "'a \<Rightarrow> 'a \<Rightarrow> int" and key :: "'a \<Rightarrow> nat" and valid :: "'a \<Rightarrow> bool"
  assumes cmp_key: "valid a \<Longrightarrow> valid b \<Longrightarrow> cmp a b = sgn (int (key a) - int (key b))"
    and key_inj: "valid a \<Longrightarrow> valid b \<Longrightarrow> key a = key b \<Longrightarrow> a = b"
begin

lemma cmp_range: "valid a \<Longrightarrow> valid b \<Longrightarrow> cmp a b \<in> {-1, 0, 1}"
  by (auto simp: cmp_key sgn_if)

lemma cmp_eq: "valid a \<Longrightarrow> valid b \<Longrightarrow> cmp a b = 0 \<longleftrightarrow> a = b"
  by (auto simp: cmp_key sgn_if dest: key_inj)

lemma cmp_antisym: "valid a \<Longrightarrow> valid b \<Longrightarrow> cmp b a = - cmp a b"
  by (auto simp: cmp_key sgn_if)

lemma cmp_trans:
  "valid a \<Longrightarrow> valid b \<Longrightarrow> valid c \<Longrightarrow> cmp a b \<le> 0 \<Longrightarrow> cmp b c \<le> 0 \<Longrightarrow> cmp a c \<le> 0"
  by (auto simp: cmp_key sgn_if split: if_splits)

lemma cmp_less: "valid a \<Longrightarrow> valid b \<Longrightarrow> cmp a b = -1 \<longleftrightarrow> key a < key b"
  by (auto simp: cmp_key sgn_if)

end

end
