(* ===== verification/Uuid.thy ===== *)
theory Uuid
  imports Prelude
begin

text \<open>
  The UUID module, \<^verbatim>\<open>src/freedce/uuid/uuid.c\<close>, with its 64-bit arithmetic macros
  (\<^verbatim>\<open>uuid_i.h\<close>) and its operating system wrappers (\<^verbatim>\<open>uuidsys.c\<close>), compiled as on a POSIX
  host: no \<^verbatim>\<open>HAVE_OS_WIN32\<close>, no \<^verbatim>\<open>UUID_NONVOLATILE_CLOCK\<close>, no \<^verbatim>\<open>DEBUG\<close>.

  The static variables of \<^verbatim>\<open>uuid.c\<close> are the record \<open>uuid_state\<close>. The operating system
  (clock readings, process id, hardware address, whether an allocation succeeds) is the
  record \<open>uuid_env\<close>; the ghost counter \<open>clock_reads\<close> says how many readings were taken.
\<close>

section \<open>Data\<close>

record uuid =
  time_low :: u32
  time_mid :: u16
  time_hi_and_version :: u16
  clock_seq_hi_and_reserved :: u8
  clock_seq_low :: u8
  uuid_node :: "u8 list"

record uuid_old =
  old_time_high :: u32
  old_time_low :: u16
  old_reserved :: u16
  old_family :: u8
  old_host :: "u8 list"

text \<open>The node of a \<open>uuid_t\<close> is an array of six bytes.\<close>

definition uuid_wf :: "uuid \<Rightarrow> bool" where
  "uuid_wf u \<longleftrightarrow> length (uuid_node u) = 6"

text \<open>\<open>(uuid_p_t) &uuid_old\<close>: both structures have the layout 4, 2, 2, 1, 7 bytes.\<close>

definition uuid_of_old :: "uuid_old \<Rightarrow> uuid" where
  "uuid_of_old o1 = \<lparr>
     time_low = old_time_high o1,
     time_mid = old_time_low o1,
     time_hi_and_version = old_reserved o1,
     clock_seq_hi_and_reserved = old_family o1,
     clock_seq_low = hd (old_host o1),
     uuid_node = tl (old_host o1)\<rparr>"

record uuid_time =
  t_lo :: u32
  t_hi :: u32

datatype uuid_status =
    uuid_s_ok
  | uuid_s_bad_version
  | uuid_s_invalid_string_uuid
  | uuid_s_no_memory
  | uuid_s_no_address
  | uuid_s_internal_error
  | uuid_s_os u32

datatype uuid_compval = uuid_e_less_than | uuid_e_equal_to | uuid_e_greater_than

record uuid_state =
  uuid_init_done :: bool
  got_address :: bool
  saved_addr :: "u8 list"
  saved_st :: uuid_status
  time_now :: uuid_time
  time_adjust :: u16
  time_last :: uuid_time
  clock_seq :: u16
  rand_m :: u32
  rand_ia :: u32
  rand_ib :: u32
  rand_irand :: u32
  clock_reads :: nat

record uuid_env =
  os_timeofday :: "nat \<Rightarrow> (int \<times> int) option"
  os_pid :: int
  os_802_addr :: "u8 list \<times> u32"
  os_malloc_ok :: bool

text \<open>
  How a call ends: it returns a value and leaves a state; the process exits (a failed
  \<open>gettimeofday\<close>); or the fuel of its loop is used up.
\<close>

datatype 'a run = Done 'a uuid_state | Exited | OutOfFuel

definition uuid_g_nil_uuid :: uuid where
  "uuid_g_nil_uuid = \<lparr>time_low = 0, time_mid = 0, time_hi_and_version = 0,
     clock_seq_hi_and_reserved = 0, clock_seq_low = 0, uuid_node = replicate 6 0\<rparr>"

section \<open>64-bit arithmetic on pairs of longwords\<close>

definition UADD_UVLW_2_UVLW :: "uuid_time \<Rightarrow> uuid_time \<Rightarrow> uuid_time" where
  "UADD_UVLW_2_UVLW add1 add2 =
     (if \<not> ((t_lo add1 AND 0x80000000) XOR (t_lo add2 AND 0x80000000) \<noteq> 0)
      then if t_lo add1 AND 0x80000000 \<noteq> 0
           then \<lparr>t_lo = t_lo add1 + t_lo add2, t_hi = t_hi add1 + t_hi add2 + 1\<rparr>
           else \<lparr>t_lo = t_lo add1 + t_lo add2, t_hi = t_hi add1 + t_hi add2\<rparr>
      else let lo = t_lo add1 + t_lo add2; hi = t_hi add1 + t_hi add2
           in if \<not> (lo AND 0x80000000 \<noteq> 0)
              then \<lparr>t_lo = lo, t_hi = hi + 1\<rparr>
              else \<lparr>t_lo = lo, t_hi = hi\<rparr>)"

definition UADD_ULW_2_UVLW :: "u32 \<Rightarrow> uuid_time \<Rightarrow> uuid_time" where
  "UADD_ULW_2_UVLW add1 add2 =
     (if add1 AND t_lo add2 AND 0x80000000 \<noteq> 0
      then \<lparr>t_lo = add1 + t_lo add2, t_hi = t_hi add2 + 1\<rparr>
      else let lo = add1 + t_lo add2
           in if \<not> (lo AND 0x80000000 \<noteq> 0)
              then \<lparr>t_lo = lo, t_hi = t_hi add2 + 1\<rparr>
              else \<lparr>t_lo = lo, t_hi = t_hi add2\<rparr>)"

definition UADD_UW_2_UVLW :: "u16 \<Rightarrow> uuid_time \<Rightarrow> uuid_time" where
  "UADD_UW_2_UVLW add1 add2 =
     (if t_lo add2 AND 0x80000000 \<noteq> 0
      then let lo = ucast add1 + t_lo add2
           in if \<not> (lo AND 0x80000000 \<noteq> 0)
              then \<lparr>t_lo = lo, t_hi = t_hi add2 + 1\<rparr>
              else \<lparr>t_lo = lo, t_hi = t_hi add2\<rparr>
      else \<lparr>t_lo = ucast add1 + t_lo add2, t_hi = t_hi add2\<rparr>)"

definition uuid__uemul :: "u32 \<Rightarrow> u32 \<Rightarrow> uuid_time" where
  "uuid__uemul u v =
     (let u1 = drop_bit 16 u; u2 = u AND 0xffff;
          v1 = drop_bit 16 v; v2 = v AND 0xffff;
          temp = u2 * v2;
          lo = temp AND 0xffff;
          temp = u1 * v2 + drop_bit 16 temp;
          hi = drop_bit 16 temp;
          temp = u2 * v1 + (temp AND 0xffff);
          lo = lo + push_bit 16 (temp AND 0xffff);
          hi = hi + (u1 * v1 + drop_bit 16 temp)
      in \<lparr>t_lo = lo, t_hi = hi\<rparr>)"

definition time_cmp :: "uuid_time \<Rightarrow> uuid_time \<Rightarrow> uuid_compval" where
  "time_cmp time1 time2 =
     (if t_hi time1 < t_hi time2 then uuid_e_less_than
      else if t_hi time1 > t_hi time2 then uuid_e_greater_than
      else if t_lo time1 < t_lo time2 then uuid_e_less_than
      else if t_lo time1 > t_lo time2 then uuid_e_greater_than
      else uuid_e_equal_to)"

section \<open>Operating system wrappers\<close>

definition uuid__get_os_time :: "uuid_env \<Rightarrow> uuid_state \<Rightarrow> uuid_time run" where
  "uuid__get_os_time env s =
     (case os_timeofday env (clock_reads s) of
        None \<Rightarrow> Exited
      | Some (tv_sec, tv_usec) \<Rightarrow>
          let utc = uuid__uemul (word_of_int tv_sec) 10000000;
              usecs = uuid__uemul (word_of_int tv_usec) 10;
              utc = UADD_UVLW_2_UVLW usecs utc;
              os_basetime_diff = \<lparr>t_lo = 0x13814000, t_hi = 0x01B21DD2\<rparr>
          in Done (UADD_UVLW_2_UVLW utc os_basetime_diff)
               (s\<lparr>clock_reads := Suc (clock_reads s)\<rparr>))"

definition uuid__get_os_pid :: "uuid_env \<Rightarrow> u32" where
  "uuid__get_os_pid env = word_of_int (os_pid env)"

definition uuid__get_os_address :: "uuid_env \<Rightarrow> u8 list \<times> uuid_status" where
  "uuid__get_os_address env =
     (case os_802_addr env of (addr, status) \<Rightarrow>
        (addr, if status = 0 then uuid_s_ok else uuid_s_os status))"

definition uuid_get_address ::
  "uuid_env \<Rightarrow> uuid_state \<Rightarrow> (u8 list \<times> uuid_status) \<times> uuid_state" where
  "uuid_get_address env s =
     (if got_address s then ((saved_addr s, saved_st s), s)
      else case uuid__get_os_address env of (addr, status) \<Rightarrow>
        if status = uuid_s_ok
        then ((addr, status), s\<lparr>got_address := True, saved_addr := addr\<rparr>)
        else ((addr, uuid_s_no_address), s))"

section \<open>Random numbers and the clock sequence\<close>

definition HI_WORD :: "u32 \<Rightarrow> u32" where
  "HI_WORD w = drop_bit 16 w"

text \<open>The seed folds the four halfwords of the time; in either byte order.\<close>

definition true_random_init :: "uuid_env \<Rightarrow> uuid_state \<Rightarrow> unit run" where
  "true_random_init env s =
     (let s = s\<lparr>rand_m := 971, rand_ia := 11113, rand_ib := 104322, rand_irand := 4181\<rparr>
      in case uuid__get_os_time env s of
           Done t s \<Rightarrow>
             let seed = (0 :: u16) XOR ucast (t_lo t) XOR ucast (drop_bit 16 (t_lo t))
                          XOR ucast (t_hi t) XOR ucast (drop_bit 16 (t_hi t))
             in Done () (s\<lparr>rand_irand := rand_irand s + (ucast seed + uuid__get_os_pid env)\<rparr>)
         | Exited \<Rightarrow> Exited
         | OutOfFuel \<Rightarrow> OutOfFuel)"

definition true_random :: "uuid_state \<Rightarrow> u16 \<times> uuid_state" where
  "true_random s =
     (let m = rand_m s + 7;
          ia = rand_ia s + 1907;
          ib = rand_ib s + 73939;
          m = (if m \<ge> 9973 then m - 9871 else m);
          ia = (if ia \<ge> 99991 then ia - 89989 else ia);
          ib = (if ib \<ge> 224729 then ib - 96233 else ib);
          r = rand_irand s * m + ia + ib
      in (ucast (HI_WORD r XOR (r AND 0x3fff)),
          s\<lparr>rand_m := m, rand_ia := ia, rand_ib := ib, rand_irand := r\<rparr>))"

definition CLOCK_SEQ_BUMP :: "u16 \<Rightarrow> u16" where
  "CLOCK_SEQ_BUMP seq = ucast ((ucast seq + 1 :: u32) AND 0x3fff)"

definition new_clock_seq :: "uuid_state \<Rightarrow> uuid_state" where
  "new_clock_seq s =
     (let s = (if clock_seq s = 0
               then case true_random s of (r, s') \<Rightarrow> s'\<lparr>clock_seq := r\<rparr>
               else s);
          c = CLOCK_SEQ_BUMP (clock_seq s)
      in s\<lparr>clock_seq := (if c = 0 then c + 1 else c)\<rparr>)"

section \<open>Initialisation and creation\<close>

text \<open>The statics as the loader leaves them.\<close>

definition uuid_statics :: uuid_state where
  "uuid_statics = \<lparr>uuid_init_done = False, got_address = False, saved_addr = replicate 6 0,
     saved_st = uuid_s_ok, time_now = \<lparr>t_lo = 0, t_hi = 0\<rparr>, time_adjust = 0,
     time_last = \<lparr>t_lo = 0, t_hi = 0\<rparr>, clock_seq = 0, rand_m = 0, rand_ia = 0, rand_ib = 0,
     rand_irand = 0, clock_reads = 0\<rparr>"

definition uuid_init :: "uuid_env \<Rightarrow> uuid_state \<Rightarrow> uuid_status run" where
  "uuid_init env s =
     (case true_random_init env s of
        Done _ s \<Rightarrow>
          (case uuid__get_os_time env s of
             Done t s \<Rightarrow>
               (case true_random (s\<lparr>time_last := t\<rparr>) of (r, s) \<Rightarrow>
                  Done uuid_s_ok (s\<lparr>clock_seq := r, uuid_init_done := True\<rparr>))
           | Exited \<Rightarrow> Exited
           | OutOfFuel \<Rightarrow> OutOfFuel)
      | Exited \<Rightarrow> Exited
      | OutOfFuel \<Rightarrow> OutOfFuel)"

text \<open>
  \<open>UUID_VERIFY_INIT (Arg)\<close>: the rest of the routine is the continuation \<open>k\<close>, \<open>arg\<close> is
  what the routine returns, with \<open>*status\<close>, when the initialisation fails.
\<close>

definition UUID_VERIFY_INIT ::
  "uuid_env \<Rightarrow> (uuid_status \<Rightarrow> 'a) \<Rightarrow> uuid_state \<Rightarrow> (uuid_state \<Rightarrow> 'a run) \<Rightarrow> 'a run" where
  "UUID_VERIFY_INIT env arg s k =
     (if \<not> uuid_init_done s
      then case uuid_init env s of
             Done status s' \<Rightarrow> if status \<noteq> uuid_s_ok then Done (arg status) s' else k s'
           | Exited \<Rightarrow> Exited
           | OutOfFuel \<Rightarrow> OutOfFuel
      else k s)"

text \<open>The \<open>do ... while (got_no_time)\<close> loop of \<open>uuid_create\<close>; each turn uses one unit of fuel.\<close>

fun uuid_create_loop :: "nat \<Rightarrow> uuid_env \<Rightarrow> bool \<Rightarrow> uuid_state \<Rightarrow> unit run" where
  "uuid_create_loop 0 env got_no_time s = OutOfFuel"
| "uuid_create_loop (Suc fuel) env got_no_time s =
     (case uuid__get_os_time env s of
        Done t s1 \<Rightarrow>
          (let s2 = s1\<lparr>time_now := t\<rparr>;
               (got_no_time', s3) =
                 (case time_cmp (time_now s2) (time_last s2) of
                    uuid_e_less_than \<Rightarrow> (got_no_time, (new_clock_seq s2)\<lparr>time_adjust := 0\<rparr>)
                  | uuid_e_greater_than \<Rightarrow> (got_no_time, s2\<lparr>time_adjust := 0\<rparr>)
                  | uuid_e_equal_to \<Rightarrow>
                      if time_adjust s2 = 0x7fff then (True, s2)
                      else (got_no_time, s2\<lparr>time_adjust := time_adjust s2 + 1\<rparr>))
           in if got_no_time' then uuid_create_loop fuel env got_no_time' s3 else Done () s3)
      | Exited \<Rightarrow> Exited
      | OutOfFuel \<Rightarrow> OutOfFuel)"

definition uuid_build :: "uuid_time \<Rightarrow> u16 \<Rightarrow> u8 list \<Rightarrow> uuid" where
  "uuid_build t cseq eaddr = \<lparr>
     time_low = t_lo t,
     time_mid = ucast (t_hi t AND 0x0000ffff),
     time_hi_and_version =
       ucast (drop_bit 16 (t_hi t AND 0x0fff0000)) OR push_bit 12 1,
     clock_seq_hi_and_reserved = ucast (drop_bit 8 (cseq AND 0x3f00)) OR 0x80,
     clock_seq_low = ucast (cseq AND 0xff),
     uuid_node = eaddr\<rparr>"

definition uuid_create ::
  "nat \<Rightarrow> uuid_env \<Rightarrow> uuid_state \<Rightarrow> (uuid option \<times> uuid_status) run" where
  "uuid_create fuel env s =
     UUID_VERIFY_INIT env (\<lambda>status. (None, status)) s (\<lambda>s.
       case uuid_get_address env s of ((eaddr, status), s) \<Rightarrow>
         if status \<noteq> uuid_s_ok then Done (None, status) s
         else case uuid_create_loop fuel env False s of
             Done _ s \<Rightarrow>
               (let s = s\<lparr>time_last := time_now s\<rparr>;
                    s = (if time_adjust s \<noteq> 0
                         then s\<lparr>time_now := UADD_UW_2_UVLW (time_adjust s) (time_now s)\<rparr>
                         else s)
                in Done (Some (uuid_build (time_now s) (clock_seq s) eaddr), uuid_s_ok) s)
           | Exited \<Rightarrow> Exited
           | OutOfFuel \<Rightarrow> OutOfFuel)"

definition uuid_create_nil :: "uuid_env \<Rightarrow> uuid_state \<Rightarrow> (uuid option \<times> uuid_status) run" where
  "uuid_create_nil env s =
     UUID_VERIFY_INIT env (\<lambda>status. (None, status)) s (\<lambda>s.
       Done (Some \<lparr>time_low = 0, time_mid = 0, time_hi_and_version = 0,
          clock_seq_hi_and_reserved = 0, clock_seq_low = 0, uuid_node = replicate 6 0\<rparr>,
          uuid_s_ok) s)"

section \<open>Comparison and hashing\<close>

definition CHECK_STRUCTURE :: "uuid \<Rightarrow> bool" where
  "CHECK_STRUCTURE u \<longleftrightarrow>
     (clock_seq_hi_and_reserved u AND 0x80 = 0x00) \<or>
     (clock_seq_hi_and_reserved u AND 0xc0 = 0x80) \<or>
     (clock_seq_hi_and_reserved u AND 0xe0 = 0xc0) \<or>
     (clock_seq_hi_and_reserved u AND 0xe0 = 0xe0)"

definition uuid_equal ::
  "uuid_env \<Rightarrow> uuid \<Rightarrow> uuid \<Rightarrow> uuid_state \<Rightarrow> (bool \<times> uuid_status) run" where
  "uuid_equal env uuid1 uuid2 s =
     UUID_VERIFY_INIT env (\<lambda>status. (False, status)) s (\<lambda>s.
       if \<not> CHECK_STRUCTURE uuid1 then Done (False, uuid_s_bad_version) s
       else if \<not> CHECK_STRUCTURE uuid2 then Done (False, uuid_s_bad_version) s
       else if time_low uuid1 = time_low uuid2 \<and>
               time_mid uuid1 = time_mid uuid2 \<and>
               time_hi_and_version uuid1 = time_hi_and_version uuid2 \<and>
               clock_seq_hi_and_reserved uuid1 = clock_seq_hi_and_reserved uuid2 \<and>
               clock_seq_low uuid1 = clock_seq_low uuid2 \<and>
               take 6 (uuid_node uuid1) = take 6 (uuid_node uuid2)
       then Done (True, uuid_s_ok) s
       else Done (False, uuid_s_ok) s)"

text \<open>The sixteen bytes of a \<open>uuid_t\<close> in memory, on a little or a big endian host.\<close>

definition host_bytes16 :: "bool \<Rightarrow> u16 \<Rightarrow> u8 list" where
  "host_bytes16 le w = (let bs = [ucast w, ucast (drop_bit 8 w)] in if le then bs else rev bs)"

definition host_bytes32 :: "bool \<Rightarrow> u32 \<Rightarrow> u8 list" where
  "host_bytes32 le w =
     (let bs = [ucast w, ucast (drop_bit 8 w), ucast (drop_bit 16 w), ucast (drop_bit 24 w)]
      in if le then bs else rev bs)"

definition uuid_bytes :: "bool \<Rightarrow> uuid \<Rightarrow> u8 list" where
  "uuid_bytes le u =
     host_bytes32 le (time_low u) @ host_bytes16 le (time_mid u) @
     host_bytes16 le (time_hi_and_version u) @
     [clock_seq_hi_and_reserved u, clock_seq_low u] @ uuid_node u"

definition uuid_is_nil ::
  "bool \<Rightarrow> uuid_env \<Rightarrow> uuid \<Rightarrow> uuid_state \<Rightarrow> (bool \<times> uuid_status) run" where
  "uuid_is_nil le env u s =
     UUID_VERIFY_INIT env (\<lambda>status. (False, status)) s (\<lambda>s.
       if \<not> CHECK_STRUCTURE u then Done (False, uuid_s_bad_version) s
       else if uuid_bytes le u = uuid_bytes le uuid_g_nil_uuid then Done (True, uuid_s_ok) s
       else Done (False, uuid_s_ok) s)"

fun node_compare :: "u8 list \<Rightarrow> u8 list \<Rightarrow> int" where
  "node_compare (a # as) (b # bs) =
     (if a < b then -1 else if a > b then 1 else node_compare as bs)"
| "node_compare _ _ = 0"

definition uuid_compare_fields :: "uuid \<Rightarrow> uuid \<Rightarrow> int" where
  "uuid_compare_fields uuid1 uuid2 =
     (if time_low uuid1 = time_low uuid2 then
        if time_mid uuid1 = time_mid uuid2 then
          if time_hi_and_version uuid1 = time_hi_and_version uuid2 then
            if clock_seq_hi_and_reserved uuid1 = clock_seq_hi_and_reserved uuid2 then
              if clock_seq_low uuid1 = clock_seq_low uuid2
              then node_compare (take 6 (uuid_node uuid1)) (take 6 (uuid_node uuid2))
              else if clock_seq_low uuid1 < clock_seq_low uuid2 then -1 else 1
            else if clock_seq_hi_and_reserved uuid1 < clock_seq_hi_and_reserved uuid2
                 then -1 else 1
          else if time_hi_and_version uuid1 < time_hi_and_version uuid2 then -1 else 1
        else if time_mid uuid1 < time_mid uuid2 then -1 else 1
      else if time_low uuid1 < time_low uuid2 then -1 else 1)"

text \<open>A NULL argument is \<open>None\<close>.\<close>

definition uuid_compare ::
  "bool \<Rightarrow> uuid_env \<Rightarrow> uuid option \<Rightarrow> uuid option \<Rightarrow> uuid_state \<Rightarrow> (int \<times> uuid_status) run" where
  "uuid_compare le env p1 p2 s =
     UUID_VERIFY_INIT env (\<lambda>status. (0, status)) s (\<lambda>s.
       case p1 of
         None \<Rightarrow>
           (case p2 of
              None \<Rightarrow> Done (0, uuid_s_ok) s
            | Some u2 \<Rightarrow>
                if \<not> CHECK_STRUCTURE u2 then Done (-1, uuid_s_bad_version) s
                else (case uuid_is_nil le env u2 s of
                        Done (b, status) s \<Rightarrow> Done (if b then 0 else -1, status) s
                      | Exited \<Rightarrow> Exited
                      | OutOfFuel \<Rightarrow> OutOfFuel))
       | Some u1 \<Rightarrow>
           (case p2 of
              None \<Rightarrow>
                if \<not> CHECK_STRUCTURE u1 then Done (-1, uuid_s_bad_version) s
                else (case uuid_is_nil le env u1 s of
                        Done (b, status) s \<Rightarrow> Done (if b then 0 else 1, status) s
                      | Exited \<Rightarrow> Exited
                      | OutOfFuel \<Rightarrow> OutOfFuel)
            | Some u2 \<Rightarrow>
                if \<not> CHECK_STRUCTURE u1 then Done (-1, uuid_s_bad_version) s
                else if \<not> CHECK_STRUCTURE u2 then Done (-1, uuid_s_bad_version) s
                else Done (uuid_compare_fields u1 u2, uuid_s_ok) s))"

text \<open>
  \<open>c0 = c0 + *next_uuid++; c1 = c1 + c0;\<close>, sixteen times on \<open>short\<close>s, whose conversion
  from \<open>int\<close> wraps.
\<close>

definition uuid_hash_sums :: "u8 list \<Rightarrow> u16 \<times> u16" where
  "uuid_hash_sums bs =
     foldl (\<lambda>(c0, c1) b. let c0 = c0 + ucast b in (c0, c1 + c0)) (0, 0) (take 16 bs)"

definition uuid_hash :: "bool \<Rightarrow> uuid_env \<Rightarrow> uuid \<Rightarrow> uuid_state \<Rightarrow> (u16 \<times> uuid_status) run" where
  "uuid_hash le env u s =
     UUID_VERIFY_INIT env (\<lambda>status. (0, status)) s (\<lambda>s.
       if \<not> CHECK_STRUCTURE u then Done (0, uuid_s_bad_version) s
       else case uuid_hash_sums (uuid_bytes le u) of (c0, c1) \<Rightarrow>
         (let x = (- sint c1) smod 255;
              x = (if x < 0 then x + 255 else x);
              y = (sint c1 - sint c0) smod 255;
              y = (if y < 0 then y + 255 else y)
          in Done (word_of_int (y * 256 + x), uuid_s_ok) s))"

section \<open>The 64-bit arithmetic is exact\<close>

text \<open>The number a pair of longwords stands for.\<close>

definition time_val :: "uuid_time \<Rightarrow> nat" where
  "time_val t = unat (t_lo t) + 4294967296 * unat (t_hi t)"

text \<open>Helper lemmas on the top bit and on halves of longwords.\<close>

lemma bit31_u32: "bit (w :: u32) 31 \<longleftrightarrow> 2147483648 \<le> unat w"
proof -
  have "unat w div 2 ^ 31 = (if 2147483648 \<le> unat w then 1 else 0)"
    using unat_u32_lt [of w] by (simp add: div_nat_eqI)
  moreover have "bit w 31 = odd (unat w div 2 ^ 31)"
    using bit_unsigned_iff [of w 31, where ?'a = nat] by (simp add: bit_iff_odd)
  ultimately show ?thesis by simp
qed

lemma and_top_bit_u32:
  "(w :: u32) AND 0x80000000 = (if 2147483648 \<le> unat w then 0x80000000 else 0)"
proof -
  have B: "bit (0x80000000 :: u32) n \<longleftrightarrow> n = 31" for n
  proof -
    have "bit (push_bit 31 1 :: u32) n \<longleftrightarrow> n = 31"
      by (simp only: bit_push_bit_iff bit_1_iff) auto
    then show ?thesis by simp
  qed
  have "w AND 0x80000000 = (if bit w 31 then 0x80000000 else 0)"
  proof (rule bit_word_eqI)
    fix n assume "n < LENGTH(32)"
    show "bit (w AND 0x80000000) n = bit (if bit w 31 then 0x80000000 else 0 :: u32) n"
      unfolding bit_and_iff B by (cases "n = 31"; cases "bit w 31") (simp_all only: B if_True if_False bit_0_eq bot_apply simp_thms bot_bool_def)
  qed
  then show ?thesis by (simp add: bit31_u32)
qed

lemma two_longwords:
  "(lo + 4294967296 * hi) mod 18446744073709551616
     = lo mod 4294967296 + 4294967296 * ((lo div 4294967296 + hi) mod 4294967296)" for lo hi :: nat
  using mod_mult2_eq [of "lo + 4294967296 * hi" 4294967296 4294967296]
  by (simp add: add.commute)

lemma carry_longword:
  "a < 4294967296 \<Longrightarrow> b < 4294967296 \<Longrightarrow>
   (a + b) div 4294967296 = (if 4294967296 \<le> a + b then 1 else 0)" for a b :: nat
  by (simp add: div_nat_eqI)

lemma UADD_UVLW_2_UVLW_val:
  "time_val (UADD_UVLW_2_UVLW a b) = (time_val a + time_val b) mod 2 ^ 64"
proof -
  let ?A = "unat (t_lo a)" and ?B = "unat (t_lo b)"
  have lt: "?A < 4294967296" "?B < 4294967296" by (simp_all add: word_bounds)
  have R: "(time_val a + time_val b) mod 2 ^ 64 = (?A + ?B) mod 4294967296
     + 4294967296 * (((if 4294967296 \<le> ?A + ?B then 1 else 0) + (unat (t_hi a) + unat (t_hi b))) mod 4294967296)"
    using two_longwords [of "?A + ?B" "unat (t_hi a) + unat (t_hi b)"] carry_longword [OF lt]
    by (simp add: time_val_def algebra_simps)
  show ?thesis unfolding R using lt
    by (cases "2147483648 \<le> ?A"; cases "2147483648 \<le> ?B"; cases "4294967296 \<le> ?A + ?B")
      (simp_all add: UADD_UVLW_2_UVLW_def time_val_def and_top_bit_u32 Let_def word_vals mod_simps le_mod_geq)
qed

lemma UADD_UW_2_UVLW_val:
  "time_val (UADD_UW_2_UVLW a b) = (unat a + time_val b) mod 2 ^ 64"
proof -
  let ?A = "unat a" and ?B = "unat (t_lo b)"
  have lt: "?A < 65536" "?B < 4294967296" by (simp_all add: word_bounds)
  have t: "unat (ucast a :: u32) = unat a" using lt by (simp add: unsigned_ucast_eq take_bit_nat_eq_self)
  have R: "(unat a + time_val b) mod 2 ^ 64 = (?A + ?B) mod 4294967296
     + 4294967296 * (((if 4294967296 \<le> ?A + ?B then 1 else 0) + unat (t_hi b)) mod 4294967296)"
    using two_longwords [of "?A + ?B" "unat (t_hi b)"] carry_longword [of ?A ?B] lt
    by (simp add: time_val_def algebra_simps)
  show ?thesis unfolding R using lt unat_u32_lt [of "t_hi b"]
    by (cases "2147483648 \<le> ?B"; cases "4294967296 \<le> ?A + ?B")
      (simp_all add: UADD_UW_2_UVLW_def time_val_def and_top_bit_u32 Let_def word_vals mod_simps le_mod_geq t)
qed
lemma and_ffff: "unat ((w :: u32) AND 0xffff) = unat w mod 65536"
  using unat_and_mask_mod [of w 16] by (simp add: mask_eq_exp_minus_1)

lemma unat_push16: "unat (push_bit 16 (w :: u32)) = (unat w * 65536) mod 4294967296"
  by (simp add: push_bit_eq_mult word_vals mult.commute)

lemma halves_mult_lt:
  "a < 65536 \<Longrightarrow> b < 65536 \<Longrightarrow> c < 65536 \<Longrightarrow> a * b + c < 4294967296" for a b c :: nat
proof -
  assume "a < 65536" "b < 65536" "c < 65536"
  then have "a * b \<le> 65535 * 65535" by (intro mult_mono) auto
  with \<open>c < 65536\<close> show ?thesis by simp
qed

lemma uemul_nat:
  fixes u1 u2 v1 v2 :: nat
  defines "t \<equiv> u2 * v2" defines "t' \<equiv> u1 * v2 + t div 65536" defines "t'' \<equiv> u2 * v1 + t' mod 65536"
  shows "(t mod 65536 + (t'' mod 65536) * 65536)
           + 4294967296 * (t' div 65536 + (u1 * v1 + t'' div 65536))
         = (u1 * 65536 + u2) * (v1 * 65536 + v2)"
proof -
  have t: "t mod 65536 = t - 65536 * (t div 65536)" "65536 * (t div 65536) \<le> t" for t :: nat
    by (simp_all add: minus_mult_div_eq_mod)
  have "int (t mod 65536) = int t - 65536 * int (t div 65536)"
       "int (t' mod 65536) = int t' - 65536 * int (t' div 65536)"
       "int (t'' mod 65536) = int t'' - 65536 * int (t'' div 65536)"
    by (simp_all add: t)
  moreover have "int t = int u2 * int v2" "int t' = int u1 * int v2 + int (t div 65536)"
    "int t'' = int u2 * int v1 + int (t' mod 65536)" by (simp_all add: t_def t'_def t''_def)
  ultimately have "int ((t mod 65536 + (t'' mod 65536) * 65536)
           + 4294967296 * (t' div 65536 + (u1 * v1 + t'' div 65536)))
         = int ((u1 * 65536 + u2) * (v1 * 65536 + v2))"
    by (simp only: of_nat_add of_nat_mult of_nat_numeral) (simp add: algebra_simps)
  then show ?thesis by (simp only: of_nat_eq_iff)
qed

lemma uuid__uemul_val: "time_val (uuid__uemul u v) = unat u * unat v"
proof -
  define u1 u2 v1 v2 where "u1 = unat u div 65536" and "u2 = unat u mod 65536"
    and "v1 = unat v div 65536" and "v2 = unat v mod 65536"
  note uv = this
  have lt: "u1 < 65536" "u2 < 65536" "v1 < 65536" "v2 < 65536"
    using unat_u32_lt [of u] unat_u32_lt [of v] by (simp_all add: uv less_mult_imp_div_less)
  define t where "t = u2 * v2"
  define t' where "t' = u1 * v2 + t div 65536"
  define t'' where "t'' = u2 * v1 + t' mod 65536"
  have tl: "t < 4294967296" using halves_mult_lt [OF lt(2) lt(4), of 0] by (simp add: t_def)
  then have "t div 65536 < 65536" by auto
  from halves_mult_lt [OF lt(1) lt(4) this] have tl': "t' < 4294967296" by (simp add: t'_def)
  have tl'': "t'' < 4294967296" unfolding t''_def by (rule halves_mult_lt) (use lt in auto)
  have vals: "unat u = u1 * 65536 + u2" "unat v = v1 * 65536 + v2" by (simp_all add: uv)
  have P: "(u1 * 65536 + u2) * (v1 * 65536 + v2) < 4294967296 * 4294967296"
    using mult_strict_mono' [OF unat_u32_lt [of u] unat_u32_lt [of v]] vals by simp
  have low: "t mod 65536 + (t'' mod 65536) * 65536 < 4294967296"
    using mod_less_divisor [of 65536 t] mod_less_divisor [of 65536 t''] by linarith
  have hi: "t' div 65536 + (u1 * v1 + t'' div 65536) < 4294967296"
  proof -
    have "4294967296 * (t' div 65536 + (u1 * v1 + t'' div 65536))
            \<le> (u1 * 65536 + u2) * (v1 * 65536 + v2)"
      unfolding t'_def t''_def t_def by (subst uemul_nat [symmetric]) (rule le_add2)
    from le_less_trans [OF this P] show ?thesis by (simp only: mult_less_cancel1)
  qed
  define w where "w = (u AND 0xffff) * (v AND 0xffff)"
  define w' where "w' = drop_bit 16 u * (v AND 0xffff) + drop_bit 16 w"
  define w'' where "w'' = (u AND 0xffff) * drop_bit 16 v + (w' AND 0xffff)"
  have T: "unat w = t" using tl by (simp add: w_def word_vals and_ffff uv t_def)
  then have T': "unat w' = t'"
    using tl' by (simp add: w'_def word_vals and_ffff mod_simps) (simp add: uv t'_def)
  then have T'': "unat w'' = t''"
    using tl'' by (simp add: w''_def word_vals and_ffff mod_simps) (simp add: uv t''_def)
  have E: "uuid__uemul u v = \<lparr>t_lo = (w AND 0xffff) + push_bit 16 (w'' AND 0xffff),
      t_hi = drop_bit 16 w' + (drop_bit 16 u * drop_bit 16 v + drop_bit 16 w'')\<rparr>"
    by (simp add: uuid__uemul_def Let_def w_def w'_def w''_def)
  have "unat (t_lo (uuid__uemul u v)) = t mod 65536 + (t'' mod 65536) * 65536"
    using low by (simp only: E uuid_time.select_convs word_vals(1) unat_push16 and_ffff T T'')
      (simp add: mod_simps)
  moreover have "unat (t_hi (uuid__uemul u v)) = t' div 65536 + (u1 * v1 + t'' div 65536)"
    using hi by (simp add: E word_vals T' T'' mod_simps) (simp add: uv)
  ultimately show ?thesis
    using uemul_nat [of u2 v2 v1 u1] by (simp add: time_val_def vals t_def t'_def t''_def)
qed

section \<open>Comparison is the order of the 128-bit number\<close>

fun node_val :: "u8 list \<Rightarrow> nat" where
  "node_val [] = 0"
| "node_val (b # bs) = unat b * 256 ^ length bs + node_val bs"

lemma node_val_lt: "node_val bs < 256 ^ length bs"
proof (induction bs)
  case (Cons b bs)
  have "unat b * 256 ^ length bs \<le> 255 * 256 ^ length bs"
    using unat_u8_lt [of b] by (intro mult_le_mono1) simp
  then have "unat b * 256 ^ length bs + node_val bs < 255 * 256 ^ length bs + 256 ^ length bs"
    using Cons by (rule add_le_less_mono)
  then show ?case by simp
qed simp

lemma node_compare_val:
  "length as = length bs \<Longrightarrow> node_compare as bs = sgn (int (node_val as) - int (node_val bs))"
proof (induction as bs rule: node_compare.induct)
  case (1 a as b bs)
  then have "length as = length bs" by simp
  from lex_sgn [of "node_val as" "256 ^ length as" "node_val bs" "unat a" "unat b"] node_val_lt [of as] node_val_lt [of bs] this
  have "sgn (int (node_val (a # as)) - int (node_val (b # bs)))
     = (if a = b then sgn (int (node_val as) - int (node_val bs)) else sgn (int (unat a) - int (unat b)))"
    by (simp add: unat_eq_iff)
  with 1 \<open>length as = length bs\<close> sgn_word [of a b] show ?case by auto
qed auto

lemma node_val_inj: "length as = length bs \<Longrightarrow> node_val as = node_val bs \<Longrightarrow> as = bs"
proof (induction as bs rule: list_induct2)
  case (Cons a as b bs)
  let ?m = "256 ^ length bs :: nat"
  have "node_val as < ?m" "node_val bs < ?m" using node_val_lt [of as] node_val_lt [of bs] Cons by simp_all
  moreover from Cons have "unat a * ?m + node_val as = unat b * ?m + node_val bs" by simp
  ultimately have "unat a = unat b" "node_val as = node_val bs" by (simp_all only: eq_split)
  with Cons show ?case by (simp add: unat_eq_iff)
qed simp

definition uuid_key :: "uuid \<Rightarrow> nat" where
  "uuid_key u = ((((unat (time_low u) * 65536 + unat (time_mid u)) * 65536
      + unat (time_hi_and_version u)) * 256 + unat (clock_seq_hi_and_reserved u)) * 256
      + unat (clock_seq_low u)) * 281474976710656 + node_val (uuid_node u)"

interpretation uuid_ord: keyed_order uuid_compare_fields uuid_key uuid_wf
proof
  fix u v assume wf: "uuid_wf u" "uuid_wf v"
  then have n: "node_val (uuid_node u) < 281474976710656" "node_val (uuid_node v) < 281474976710656"
    "length (uuid_node u) = 6" "length (uuid_node v) = 6"
    using node_val_lt [of "uuid_node u"] node_val_lt [of "uuid_node v"] by (simp_all add: uuid_wf_def)
  show "uuid_compare_fields u v = sgn (int (uuid_key u) - int (uuid_key v))"
    unfolding uuid_key_def
    by (simp only: lex_sgn eq_split n unat_u8_lt unat_u16_lt)
      (auto simp: uuid_compare_fields_def node_compare_val unat_eq_iff sgn_word n)
  assume "uuid_key u = uuid_key v"
  then show "u = v"
    unfolding uuid_key_def
    by (simp only: eq_split n unat_u8_lt unat_u16_lt) (auto simp: unat_eq_iff n intro!: uuid.equality node_val_inj)
qed

end
