(* ===== verification/UuidCreate.thy ===== *)
theory UuidCreate
  imports Uuid
begin

text \<open>
  What \<open>uuid_create\<close> of \<^verbatim>\<open>src/freedce/uuid/uuid.c\<close> promises: the layout of the identifiers,
  the clock sequence, the time stamps of a run of creations, and when the loop that waits
  for the clock returns. The definitions of the code are those of \<open>Uuid\<close>; here are the
  measures the statements use and the lemmas that lead to them.
\<close>

section \<open>Time comparison is the order of the 64-bit number\<close>

primrec compval_int :: "uuid_compval \<Rightarrow> int" where
  "compval_int uuid_e_less_than = -1"
| "compval_int uuid_e_equal_to = 0"
| "compval_int uuid_e_greater_than = 1"

lemma time_val_alt: "time_val t = unat (t_hi t) * 4294967296 + unat (t_lo t)"
  by (simp add: time_val_def)

interpretation time_ord: keyed_order "\<lambda>a b. compval_int (time_cmp a b)" time_val "\<lambda>_. True"
proof
  fix a b
  show "compval_int (time_cmp a b) = sgn (int (time_val a) - int (time_val b))"
    unfolding time_val_alt
    by (simp only: lex_sgn unat_u32_lt) (auto simp: time_cmp_def unat_eq_iff sgn_word)
  assume "time_val a = time_val b"
  then show "a = b"
    unfolding time_val_alt by (simp only: eq_split unat_u32_lt) (simp add: unat_eq_iff)
qed

lemma time_cmp_simps:
  "time_val a < time_val b \<Longrightarrow> time_cmp a b = uuid_e_less_than"
  "time_val b < time_val a \<Longrightarrow> time_cmp a b = uuid_e_greater_than"
  "time_cmp a b = uuid_e_equal_to \<longleftrightarrow> a = b"
  using time_ord.cmp_key [of a b] time_ord.cmp_eq [of a b]
  by (cases "time_cmp a b"; simp add: sgn_if split: if_splits)+

lemma and_exp_if: "(w :: 'a::len word) AND 2 ^ n = (if bit w n then 2 ^ n else 0)"
  by (rule bit_eqI) (auto simp: bit_and_iff bit_exp_iff)

lemma and_c0: "(w :: u8) AND 0xc0 = (if bit w 7 then 0x80 else 0) + (if bit w 6 then 0x40 else 0)"
proof -
  have "w AND (2 ^ 7 OR 2 ^ 6) = (w AND 2 ^ 7) OR (w AND 2 ^ 6)" by (rule bit.conj_disj_distrib)
  then show ?thesis by (simp only: and_exp_if) (auto split: if_splits)
qed

lemma and_e0: "(w :: u8) AND 0xe0
   = (if bit w 7 then 0x80 else 0) + (if bit w 6 then 0x40 else 0) + (if bit w 5 then 0x20 else 0)"
proof -
  have "w AND ((2 ^ 7 OR 2 ^ 6) OR 2 ^ 5) = (w AND (2 ^ 7 OR 2 ^ 6)) OR (w AND 2 ^ 5)" by (rule bit.conj_disj_distrib)
  then show ?thesis
    by (simp only: and_exp_if) (simp add: and_c0 split: if_splits)
qed

lemma structure_always_known: "CHECK_STRUCTURE u"
  using and_exp_if [of "clock_seq_hi_and_reserved u" 7]
  by (simp add: CHECK_STRUCTURE_def and_c0 and_e0)

lemma or_exp_add: "x < 2 ^ n \<Longrightarrow> x OR 2 ^ n = x + 2 ^ n" for x :: nat
proof -
  assume "x < 2 ^ n"
  then have "\<not> bit x n" by (simp add: bit_iff_odd)
  then have "x AND 2 ^ n = 0" by (simp add: and_exp_eq_0_iff_not_bit)
  then show ?thesis by (simp add: disjunctive_add_eq_or)
qed

definition uuid_stamp :: "uuid \<Rightarrow> nat" where
  "uuid_stamp u = unat (time_low u) + 4294967296 * unat (time_mid u)
     + 281474976710656 * (unat (time_hi_and_version u) mod 4096)"

definition uuid_clock_seq :: "uuid \<Rightarrow> nat" where
  "uuid_clock_seq u = unat (clock_seq_low u) + 256 * (unat (clock_seq_hi_and_reserved u) mod 64)"

lemma unat_and_0fff0000: "unat ((w::u32) AND 0x0fff0000) div 65536 = unat w div 65536 mod 4096"
proof -
  have "unat (w AND 0x0fff0000) div 2 ^ 16 = unat (drop_bit 16 w AND mask 12)"
    by (simp only: unat_drop_bit_div [symmetric] drop_bit_and) (simp add: mask_eq_exp_minus_1)
  then show ?thesis by (simp add: unat_and_mask_mod unat_drop_bit_div)
qed

lemma unat_and_3f00: "unat ((w::u16) AND 0x3f00) div 256 = unat w div 256 mod 64"
proof -
  have "unat (w AND 0x3f00) div 2 ^ 8 = unat (drop_bit 8 w AND mask 6)"
    by (simp only: unat_drop_bit_div [symmetric] drop_bit_and) (simp add: mask_eq_exp_minus_1)
  then show ?thesis by (simp add: unat_and_mask_mod unat_drop_bit_div)
qed

lemma time_hi_build: "unat (time_hi_and_version (uuid_build t c e)) = unat (t_hi t) div 65536 mod 4096 + 4096"
proof -
  have "unat (time_hi_and_version (uuid_build t c e))
     = take_bit 16 (unat (t_hi t AND 0x0fff0000) div 2 ^ 16) OR 4096"
    by (simp only: uuid_build_def uuid.select_convs unsigned_or_eq unsigned_ucast_eq unat_drop_bit_div) simp
  also have "\<dots> = unat (t_hi t) div 65536 mod 4096 OR 2 ^ 12"
    using unat_and_0fff0000 [of "t_hi t"]
    by (simp add: take_bit_eq_mod)
  also have "\<dots> = unat (t_hi t) div 65536 mod 4096 + 2 ^ 12" by (rule or_exp_add) simp
  finally show ?thesis by simp
qed

lemma clock_hi_build:
  "unat (clock_seq_hi_and_reserved (uuid_build t c e)) = unat c div 256 mod 64 + 128"
proof -
  have "unat (clock_seq_hi_and_reserved (uuid_build t c e))
     = take_bit 8 (unat (c AND 0x3f00) div 2 ^ 8) OR 128"
    by (simp only: uuid_build_def uuid.select_convs unsigned_or_eq unsigned_ucast_eq unat_drop_bit_div) simp
  also have "\<dots> = unat c div 256 mod 64 OR 2 ^ 7"
    using unat_and_3f00 [of c] by (simp add: take_bit_eq_mod)
  also have "\<dots> = unat c div 256 mod 64 + 2 ^ 7"
    by (rule or_exp_add, rule less_trans [of _ 64]) simp_all
  finally show ?thesis by simp
qed

lemma low_build:
  "unat (time_low (uuid_build t c e)) = unat (t_lo t)"
  "unat (time_mid (uuid_build t c e)) = unat (t_hi t) mod 65536"
  "unat (clock_seq_low (uuid_build t c e)) = unat c mod 256"
  "uuid_node (uuid_build t c e) = e"
  using and_ffff [of "t_hi t"] unat_and_mask_mod [of c 8]
  by (simp_all add: uuid_build_def unsigned_ucast_eq take_bit_eq_mod mask_eq_exp_minus_1)

lemma mod_60: "(lo + 4294967296 * hi) mod 1152921504606846976
    = lo + 4294967296 * (hi mod 65536) + 281474976710656 * (hi div 65536 mod 4096)"
  if "lo < 4294967296" for lo hi :: nat
proof -
  have "(hi * 4294967296 + lo) mod (4294967296 * 268435456) = hi mod 268435456 * 4294967296 + lo"
    using that by (subst mod_mult2_eq) simp
  moreover have "hi mod (65536 * 4096) = 65536 * (hi div 65536 mod 4096) + hi mod 65536"
    by (rule mod_mult2_eq)
  ultimately show ?thesis by (simp add: algebra_simps)
qed

lemma uuid_stamp_build: "uuid_stamp (uuid_build t c e) = time_val t mod 2 ^ 60"
  using mod_60 [OF unat_u32_lt, of "t_lo t" "unat (t_hi t)"]
  by (simp add: uuid_stamp_def low_build time_hi_build time_val_def mod_simps)

lemma uuid_clock_seq_build: "uuid_clock_seq (uuid_build t c e) = unat c mod 16384"
proof -
  have "unat c mod (256 * 64) = 256 * (unat c div 256 mod 64) + unat c mod 256" by (rule mod_mult2_eq)
  moreover have "(unat c div 256 mod 64 + 2 * 64) mod 64 = unat c div 256 mod 64"
    by (simp only: mod_mult_self1 mod_mod_trivial)
  ultimately show ?thesis by (simp add: uuid_clock_seq_def low_build clock_hi_build)
qed

lemma uuid_build_format:
  "drop_bit 12 (time_hi_and_version (uuid_build t c e)) = 1"
  "drop_bit 6 (clock_seq_hi_and_reserved (uuid_build t c e)) = 2"
proof -
  have "unat (drop_bit 12 (time_hi_and_version (uuid_build t c e))) = 1"
    by (simp only: unat_drop_bit_div time_hi_build) simp
  then show "drop_bit 12 (time_hi_and_version (uuid_build t c e)) = 1"
    by (simp flip: unat_eq_iff)
  have "unat (drop_bit 6 (clock_seq_hi_and_reserved (uuid_build t c e)))
     = (unat c div 256 mod 64 + 2 * 64) div 64"
    by (simp only: unat_drop_bit_div clock_hi_build) simp
  then have "unat (drop_bit 6 (clock_seq_hi_and_reserved (uuid_build t c e))) = 2"
    by (simp only: div_mult_self1 zero_neq_numeral [symmetric] simp_thms)
  then show "drop_bit 6 (clock_seq_hi_and_reserved (uuid_build t c e)) = 2"
    by (simp flip: unat_eq_iff)
qed

text \<open>The clock sequence\<close>

lemma CLOCK_SEQ_BUMP_val: "unat (CLOCK_SEQ_BUMP c) = (unat c + 1) mod 16384"
proof -
  have "(ucast c + 1 :: u32) AND 0x3fff = (ucast c + 1) AND mask 14" by (simp add: mask_eq_exp_minus_1)
  then have "unat ((ucast c + 1 :: u32) AND 0x3fff) = (unat c + 1) mod 16384"
    using unat_u16_lt [of c]
    by (simp only: unat_and_mask_mod unat_add_mod unsigned_ucast_eq) (simp add: take_bit_eq_mod)
  then show ?thesis by (simp add: CLOCK_SEQ_BUMP_def unsigned_ucast_eq take_bit_eq_mod)
qed

lemma new_clock_seq_val:
  "\<exists>c. (clock_seq s \<noteq> 0 \<longrightarrow> c = clock_seq s) \<and>
     unat (clock_seq (new_clock_seq s)) = (if (unat c + 1) mod 16384 = 0 then 1 else (unat c + 1) mod 16384)"
proof -
  define s1 where "s1 = (if clock_seq s = 0 then case true_random s of (r, s') \<Rightarrow> s'\<lparr>clock_seq := r\<rparr> else s)"
  let ?c = "CLOCK_SEQ_BUMP (clock_seq s1)"
  have "clock_seq (new_clock_seq s) = (if ?c = 0 then 1 else ?c)"
    by (simp add: new_clock_seq_def Let_def s1_def [symmetric])
  moreover have "?c = 0 \<longleftrightarrow> (unat (clock_seq s1) + 1) mod 16384 = 0"
    using CLOCK_SEQ_BUMP_val [of "clock_seq s1"] by (simp flip: unat_eq_iff)
  ultimately have "unat (clock_seq (new_clock_seq s)) = (if (unat (clock_seq s1) + 1) mod 16384 = 0 then 1 else (unat (clock_seq s1) + 1) mod 16384)"
    by (simp add: CLOCK_SEQ_BUMP_val)
  then show ?thesis by (intro exI [of _ "clock_seq s1"]) (simp add: s1_def)
qed

lemma new_clock_seq_range:
  "1 \<le> unat (clock_seq (new_clock_seq s)) \<and> unat (clock_seq (new_clock_seq s)) \<le> 16383"
proof -
  have lt: "x mod 16384 \<le> 16383" for x :: nat using mod_less_divisor [of 16384 x] by simp
  from new_clock_seq_val [of s] obtain c :: u16 where
    "unat (clock_seq (new_clock_seq s)) = (if (unat c + 1) mod 16384 = 0 then 1 else (unat c + 1) mod 16384)"
    by blast
  then show ?thesis using lt [of "unat c + 1"] by (auto split: if_splits)
qed

lemma new_clock_seq_changes: "unat (clock_seq (new_clock_seq s)) \<noteq> unat (clock_seq s) mod 16384"
proof (cases "clock_seq s = 0")
  case True
  then show ?thesis using new_clock_seq_range [of s] by simp
next
  case False
  with new_clock_seq_val [of s] show ?thesis
    by (auto simp: mod_Suc split: if_splits)
qed

lemma new_clock_seq_frame:
  "time_last (new_clock_seq s) = time_last s" "time_now (new_clock_seq s) = time_now s"
  "uuid_init_done (new_clock_seq s) = uuid_init_done s" "got_address (new_clock_seq s) = got_address s"
  "saved_addr (new_clock_seq s) = saved_addr s" "saved_st (new_clock_seq s) = saved_st s"
  "clock_reads (new_clock_seq s) = clock_reads s"
  by (auto simp: new_clock_seq_def true_random_def Let_def split: prod.splits)

text \<open>Time readings\<close>

definition os_tick :: "int \<times> int \<Rightarrow> uuid_time" where
  "os_tick tv = UADD_UVLW_2_UVLW
     (UADD_UVLW_2_UVLW (uuid__uemul (word_of_int (snd tv)) 10) (uuid__uemul (word_of_int (fst tv)) 10000000))
     \<lparr>t_lo = 0x13814000, t_hi = 0x01B21DD2\<rparr>"

lemma uuid__get_os_time_eq:
  "uuid__get_os_time env s =
     (case os_timeofday env (clock_reads s) of
        None \<Rightarrow> Exited
      | Some tv \<Rightarrow> Done (os_tick tv) (s\<lparr>clock_reads := Suc (clock_reads s)\<rparr>))"
  by (simp add: uuid__get_os_time_def os_tick_def Let_def split: option.splits prod.splits)

lemma base_time_diff_val: "time_val \<lparr>t_lo = 0x13814000, t_hi = 0x01B21DD2\<rparr> = 0x01B21DD213814000"
  by (simp add: time_val_def)

lemma os_tick_val:
  assumes "0 \<le> sec" "sec < 2 ^ 32" "0 \<le> usec" "usec < 1000000"
  shows "time_val (os_tick (sec, usec)) = nat sec * 10000000 + nat usec * 10 + 0x01B21DD213814000"
proof -
  have "unat (word_of_int sec :: u32) = nat sec" "unat (word_of_int usec :: u32) = nat usec"
    using assms by (simp_all add: unsigned_of_int take_bit_int_eq_self)
  moreover have "nat sec < 4294967296" "nat usec < 1000000" using assms by auto
  ultimately show ?thesis
    by (simp add: os_tick_def UADD_UVLW_2_UVLW_val uuid__uemul_val base_time_diff_val)
qed

definition ready :: "uuid_state \<Rightarrow> bool" where
  "ready s \<longleftrightarrow> uuid_init_done s \<and> (got_address s \<longrightarrow> saved_st s = uuid_s_ok)"

lemma uuid_create_loop_turn:
  assumes "os_timeofday env (clock_reads s) = Some tv"
  shows "uuid_create_loop (Suc fuel) env False s =
    (let t = os_tick tv; s1 = s\<lparr>clock_reads := Suc (clock_reads s), time_now := t\<rparr> in
     if time_val t < time_val (time_last s) then Done () ((new_clock_seq s1)\<lparr>time_adjust := 0\<rparr>)
     else if time_val (time_last s) < time_val t then Done () (s1\<lparr>time_adjust := 0\<rparr>)
     else if time_adjust s \<noteq> 0x7fff then Done () (s1\<lparr>time_adjust := time_adjust s + 1\<rparr>)
     else uuid_create_loop fuel env True s1)"
proof -
  consider "time_val (os_tick tv) < time_val (time_last s)" | "time_val (time_last s) < time_val (os_tick tv)"
    | "time_val (time_last s) = time_val (os_tick tv)" by linarith
  then show ?thesis
  proof cases
    case 3
    then have "os_tick tv = time_last s" using time_ord.key_inj by auto
    moreover then have "time_cmp (os_tick tv) (time_last s) = uuid_e_equal_to" by (simp add: time_cmp_simps)
    ultimately show ?thesis using assms by (simp add: uuid__get_os_time_eq Let_def)
  qed (use assms in \<open>simp_all add: uuid__get_os_time_eq Let_def time_cmp_simps\<close>)
qed

declare uuid_create_loop.simps(2) [simp del]

lemma got_no_time_forever:
  "(\<And>i. os_timeofday env i \<noteq> None) \<Longrightarrow> uuid_create_loop fuel env True s = OutOfFuel"
proof (induction fuel arbitrary: s)
  case (Suc fuel)
  then obtain tv where "os_timeofday env (clock_reads s) = Some tv" by blast
  with Suc show ?case
    by (simp add: uuid_create_loop.simps(2) uuid__get_os_time_eq Let_def split: uuid_compval.splits)
qed simp

lemma got_no_time_never_done: "uuid_create_loop fuel env True s \<noteq> Done x s'"
proof (induction fuel arbitrary: s)
  case (Suc fuel)
  then show ?case
    by (simp add: uuid_create_loop.simps(2) uuid__get_os_time_eq Let_def split: uuid_compval.splits option.splits)
qed simp

definition last_tick :: "uuid_state \<Rightarrow> nat" where "last_tick s = time_val (time_last s)"

lemma uuid_create_loop_done:
  assumes "uuid_create_loop fuel env False s = Done x s'"
  obtains tv where "os_timeofday env (clock_reads s) = Some tv"
    "clock_reads s' = Suc (clock_reads s)" "time_now s' = os_tick tv" "time_last s' = time_last s"
    "uuid_init_done s' = uuid_init_done s" "got_address s' = got_address s"
    "saved_addr s' = saved_addr s" "saved_st s' = saved_st s"
    "time_val (os_tick tv) < last_tick s \<longrightarrow> time_adjust s' = 0 \<and> unat (clock_seq s') \<noteq> unat (clock_seq s) mod 16384 \<and> unat (clock_seq s') < 16384"
    "last_tick s \<le> time_val (os_tick tv) \<longrightarrow> clock_seq s' = clock_seq s"
    "last_tick s < time_val (os_tick tv) \<longrightarrow> time_adjust s' = 0"
    "time_val (os_tick tv) = last_tick s \<longrightarrow> time_adjust s \<noteq> 0x7fff \<and> time_adjust s' = time_adjust s + 1"
proof -
  obtain n where f: "fuel = Suc n" using assms by (cases fuel) auto
  obtain tv where tv: "os_timeofday env (clock_reads s) = Some tv"
    using assms by (cases "os_timeofday env (clock_reads s)") (auto simp: f uuid_create_loop.simps(2) uuid__get_os_time_eq)
  define s1 where "s1 = s\<lparr>clock_reads := Suc (clock_reads s), time_now := os_tick tv\<rparr>"
  note run = assms [unfolded f uuid_create_loop_turn [OF tv] Let_def, folded s1_def]
  note fr = new_clock_seq_frame [of s1] new_clock_seq_changes [of s1] new_clock_seq_range [of s1]
  consider "time_val (os_tick tv) < last_tick s" "s' = (new_clock_seq s1)\<lparr>time_adjust := 0\<rparr>"
    | "last_tick s < time_val (os_tick tv)" "s' = s1\<lparr>time_adjust := 0\<rparr>"
    | "time_val (os_tick tv) = last_tick s" "time_adjust s \<noteq> 0x7fff" "s' = s1\<lparr>time_adjust := time_adjust s + 1\<rparr>"
    using run by (auto simp: last_tick_def got_no_time_never_done split: if_splits)
  then show ?thesis
    by cases (rule that [OF tv]; use fr in \<open>simp add: s1_def\<close>)+
qed

lemma time_val_lt: "time_val t < 18446744073709551616"
  using unat_u32_lt [of "t_lo t"] unat_u32_lt [of "t_hi t"] by (simp add: time_val_def)

text \<open>What a successful creation leaves\<close>

lemma uuid_get_address_frame:
  "uuid_get_address env s = (r, s') \<Longrightarrow>
   time_last s' = time_last s \<and> time_adjust s' = time_adjust s \<and> clock_seq s' = clock_seq s \<and>
   clock_reads s' = clock_reads s \<and> uuid_init_done s' = uuid_init_done s \<and> time_now s' = time_now s"
  by (auto simp: uuid_get_address_def split: if_splits prod.splits)

lemma uuid_create_cases:
  assumes "uuid_init_done s" "uuid_create fuel env s = Done (Some u, st) s'"
  obtains e sa sl where "uuid_get_address env s = ((e, uuid_s_ok), sa)"
    "uuid_create_loop fuel env False sa = Done () sl" "st = uuid_s_ok"
    "u = uuid_build (if time_adjust sl \<noteq> 0 then UADD_UW_2_UVLW (time_adjust sl) (time_now sl) else time_now sl) (clock_seq sl) e"
    "time_last s' = time_now sl" "time_adjust s' = time_adjust sl" "clock_seq s' = clock_seq sl"
    "clock_reads s' = clock_reads sl" "uuid_init_done s' = uuid_init_done sl"
  using assms
  by (auto simp: uuid_create_def UUID_VERIFY_INIT_def Let_def split: prod.splits if_splits run.splits)

lemma uuid_create_done:
  assumes "uuid_init_done s" "uuid_create fuel env s = Done (Some u, st) s'"
  obtains tv where "os_timeofday env (clock_reads s) = Some tv" "st = uuid_s_ok"
    "clock_reads s' = Suc (clock_reads s)" "uuid_init_done s'"
    "last_tick s' = time_val (os_tick tv)"
    "uuid_stamp u = (last_tick s' + unat (time_adjust s')) mod 2 ^ 64 mod 2 ^ 60"
    "uuid_clock_seq u = unat (clock_seq s') mod 16384"
    "last_tick s' < last_tick s \<longrightarrow> time_adjust s' = 0 \<and> unat (clock_seq s') \<noteq> unat (clock_seq s) mod 16384 \<and> unat (clock_seq s') < 16384"
    "last_tick s \<le> last_tick s' \<longrightarrow> clock_seq s' = clock_seq s"
    "last_tick s < last_tick s' \<longrightarrow> time_adjust s' = 0"
    "last_tick s' = last_tick s \<longrightarrow> time_adjust s \<noteq> 0x7fff \<and> time_adjust s' = time_adjust s + 1"
proof -
  from uuid_create_cases [OF assms] obtain e sa sl where c:
    "uuid_get_address env s = ((e, uuid_s_ok), sa)"
    "uuid_create_loop fuel env False sa = Done () sl" "st = uuid_s_ok"
    "u = uuid_build (if time_adjust sl \<noteq> 0 then UADD_UW_2_UVLW (time_adjust sl) (time_now sl) else time_now sl) (clock_seq sl) e"
    "time_last s' = time_now sl" "time_adjust s' = time_adjust sl" "clock_seq s' = clock_seq sl"
    "clock_reads s' = clock_reads sl" "uuid_init_done s' = uuid_init_done sl" .
  note fr = uuid_get_address_frame [OF c(1)]
  have lt: "last_tick sa = last_tick s" using fr by (simp add: last_tick_def)
  have lt': "last_tick s' = time_val (time_now sl)" using c by (simp add: last_tick_def)
  have st: "uuid_stamp u = (last_tick s' + unat (time_adjust s')) mod 2 ^ 64 mod 2 ^ 60"
    using c(4) lt' c(6) time_val_lt [of "time_now sl"]
    by (cases "time_adjust sl = 0")
      (simp_all add: uuid_stamp_build UADD_UW_2_UVLW_val add.commute)
  have cs: "uuid_clock_seq u = unat (clock_seq sl) mod 16384" by (simp only: c(4) uuid_clock_seq_build)
  from c(2) show ?thesis
  proof (rule uuid_create_loop_done)
    fix tv
    assume l: "os_timeofday env (clock_reads sa) = Some tv" "clock_reads sl = Suc (clock_reads sa)"
      "time_now sl = os_tick tv" "uuid_init_done sl = uuid_init_done sa"
      "time_val (os_tick tv) < last_tick sa \<longrightarrow> time_adjust sl = 0 \<and> unat (clock_seq sl) \<noteq> unat (clock_seq sa) mod 16384 \<and> unat (clock_seq sl) < 16384"
      "last_tick sa \<le> time_val (os_tick tv) \<longrightarrow> clock_seq sl = clock_seq sa"
      "last_tick sa < time_val (os_tick tv) \<longrightarrow> time_adjust sl = 0"
      "time_val (os_tick tv) = last_tick sa \<longrightarrow> time_adjust sa \<noteq> 0x7fff \<and> time_adjust sl = time_adjust sa + 1"
    have n: "last_tick s' = time_val (os_tick tv)" using l lt' by simp
    show ?thesis
      by (rule that [of tv]) (use l n fr lt c(3,6-9) st cs assms(1) in simp_all)
  qed
qed

text \<open>Creating \<open>n\<close> identifiers in a row.\<close>

fun uuid_creates :: "nat \<Rightarrow> nat \<Rightarrow> uuid_env \<Rightarrow> uuid_state \<Rightarrow> (uuid list) run" where
  "uuid_creates 0 fuel env s = Done [] s"
| "uuid_creates (Suc n) fuel env s =
     (case uuid_create fuel env s of
        Done (Some u, st) s' \<Rightarrow>
          (case uuid_creates n fuel env s' of
             Done us s'' \<Rightarrow> Done (u # us) s''
           | Exited \<Rightarrow> Exited | OutOfFuel \<Rightarrow> OutOfFuel)
      | Done (None, st) s' \<Rightarrow> Done [] s'
      | Exited \<Rightarrow> Exited | OutOfFuel \<Rightarrow> OutOfFuel)"

definition tick :: "uuid_env \<Rightarrow> nat \<Rightarrow> nat" where
  "tick env i = (case os_timeofday env i of Some tv \<Rightarrow> time_val (os_tick tv) | None \<Rightarrow> 0)"

lemma adjust_bound: "a \<le> 0x7fff \<Longrightarrow> a \<noteq> 0x7fff \<Longrightarrow> a + 1 \<le> 0x7fff \<and> unat (a + 1) = unat a + 1" for a :: u16
  by (simp add: word_le_nat_alt unat_eq_iff [symmetric] word_vals)

section \<open>Initialisation, and runs within one clock tick\<close>

lemma uuid_create_after_init:
  assumes "\<not> uuid_init_done s" "uuid_init env s = Done st s1"
  shows "uuid_create fuel env s = uuid_create fuel env s1"
proof -
  have "st = uuid_s_ok" "uuid_init_done s1"
    using assms(2) by (auto simp: uuid_init_def split: run.splits prod.splits)
  with assms show ?thesis by (simp add: uuid_create_def UUID_VERIFY_INIT_def)
qed

lemma uuid_init_done_state:
  assumes "uuid_init env s = Done st s1"
  shows "uuid_init_done s1" "clock_reads s1 = clock_reads s + 2" "last_tick s1 = tick env (clock_reads s + 1)"
    "time_adjust s1 = time_adjust s" "got_address s1 = got_address s" "saved_st s1 = saved_st s"
    "st = uuid_s_ok"
  using assms
  by (auto simp: uuid_init_def true_random_init_def true_random_def Let_def uuid__get_os_time_eq
      last_tick_def tick_def split: run.splits prod.splits option.splits)

lemma uuid_init_total:
  assumes "\<And>i. os_timeofday env i \<noteq> None"
  obtains s1 where "uuid_init env s = Done uuid_s_ok s1"
proof -
  obtain a b where "os_timeofday env (clock_reads s) = Some a" "os_timeofday env (Suc (clock_reads s)) = Some b"
    using assms by blast
  then show ?thesis using that
    by (auto simp: uuid_init_def true_random_init_def true_random_def Let_def uuid__get_os_time_eq)
qed

lemma uuid_get_address_ok:
  assumes "snd (os_802_addr env) = 0" "saved_st s = uuid_s_ok"
  obtains e sa where "uuid_get_address env s = ((e, uuid_s_ok), sa)" "saved_st sa = uuid_s_ok"
  using assms
  by (cases "got_address s"; cases "os_802_addr env")
    (auto simp: uuid_get_address_def uuid__get_os_address_def)

lemma uuid_create_spins:
  assumes "uuid_init_done s" "\<And>i. os_timeofday env i \<noteq> None"
    "snd (os_802_addr env) = 0" "saved_st s = uuid_s_ok"
    "tick env (clock_reads s) = last_tick s" "time_adjust s = 0x7fff"
  shows "uuid_create fuel env s = OutOfFuel"
proof -
  obtain e sa where a: "uuid_get_address env s = ((e, uuid_s_ok), sa)"
    using uuid_get_address_ok assms by blast
  note fr = uuid_get_address_frame [OF a]
  obtain tv where tv: "os_timeofday env (clock_reads sa) = Some tv" using assms by blast
  have "uuid_create_loop fuel env False sa = OutOfFuel"
    using assms fr tv
    by (cases fuel) (simp_all add: uuid_create_loop_turn [OF tv] Let_def got_no_time_forever tick_def last_tick_def)
  with a assms(1) show ?thesis by (simp add: uuid_create_def UUID_VERIFY_INIT_def)
qed

lemma uuid_create_same_tick:
  assumes "uuid_init_done s" "os_timeofday env (clock_reads s) \<noteq> None"
    "snd (os_802_addr env) = 0" "saved_st s = uuid_s_ok"
    "tick env (clock_reads s) = last_tick s" "time_adjust s \<noteq> 0x7fff"
  obtains u s' where "uuid_create (Suc f) env s = Done (Some u, uuid_s_ok) s'"
    "uuid_init_done s'" "saved_st s' = uuid_s_ok" "last_tick s' = last_tick s"
    "time_adjust s' = time_adjust s + 1" "clock_reads s' = Suc (clock_reads s)"
proof -
  obtain e sa where a: "uuid_get_address env s = ((e, uuid_s_ok), sa)" "saved_st sa = uuid_s_ok"
    using uuid_get_address_ok assms by blast
  note fr = uuid_get_address_frame [OF a(1)]
  obtain tv where tv: "os_timeofday env (clock_reads sa) = Some tv" using assms fr by auto
  have "uuid_create_loop (Suc f) env False sa
      = Done () (sa\<lparr>clock_reads := Suc (clock_reads sa), time_now := os_tick tv, time_adjust := time_adjust sa + 1\<rparr>)"
    using assms fr tv
    by (simp add: uuid_create_loop_turn [OF tv] Let_def tick_def last_tick_def)
  moreover have "time_val (os_tick tv) = last_tick s" using tv fr assms by (simp add: tick_def)
  ultimately show ?thesis using that a assms fr
    by (simp add: uuid_create_def UUID_VERIFY_INIT_def Let_def last_tick_def)
qed

lemma uuid_creates_same_tick:
  assumes "\<And>i. os_timeofday env i \<noteq> None" "snd (os_802_addr env) = 0"
  shows "uuid_init_done s \<Longrightarrow> saved_st s = uuid_s_ok \<Longrightarrow>
    (\<forall>i < n. tick env (clock_reads s + i) = last_tick s) \<Longrightarrow>
    unat (time_adjust s) + n \<le> 0x7fff \<Longrightarrow>
    \<exists>us s'. uuid_creates n (Suc f) env s = Done us s' \<and> length us = n \<and> uuid_init_done s' \<and>
      (saved_st s' = uuid_s_ok) \<and> last_tick s' = last_tick s \<and>
      unat (time_adjust s') = unat (time_adjust s) + n \<and> clock_reads s' = clock_reads s + n"
proof (induction n arbitrary: s)
  case (Suc n)
  have "time_adjust s \<noteq> 0x7fff" "tick env (clock_reads s) = last_tick s"
    using Suc.prems(3) [rule_format, of 0] Suc.prems(4) by auto
  with uuid_create_same_tick [of s env f] Suc.prems assms obtain u s1 where
    c: "uuid_create (Suc f) env s = Done (Some u, uuid_s_ok) s1"
    "uuid_init_done s1" "saved_st s1 = uuid_s_ok" "last_tick s1 = last_tick s"
    "time_adjust s1 = time_adjust s + 1" "clock_reads s1 = Suc (clock_reads s)"
    by metis
  have adj: "unat (time_adjust s1) = Suc (unat (time_adjust s))"
    using Suc.prems(4) c(5) by (simp add: word_vals)
  have "\<forall>i<n. tick env (clock_reads s1 + i) = last_tick s1"
    using Suc.prems(3) c(4,6) by (metis add_Suc add_Suc_right Suc_mono)
  from Suc.IH [OF c(2,3) this] adj Suc.prems(4) c show ?case by auto
qed simp

lemma uuid_creates_after_init:
  assumes "\<not> uuid_init_done s" "uuid_init env s = Done st s1"
  shows "uuid_creates (Suc n) fuel env s = uuid_creates (Suc n) fuel env s1"
  by (simp add: uuid_create_after_init [OF assms])

lemma uuid_statics_simps [simp]:
  "uuid_init_done uuid_statics = False" "clock_reads uuid_statics = 0" "time_adjust uuid_statics = 0"
  "saved_st uuid_statics = uuid_s_ok"
  by (simp_all add: uuid_statics_def)

lemma uuid_create_init_done:
  assumes "uuid_create fuel env s = Done p s'" "\<not> uuid_init_done s"
  obtains s1 where "uuid_init env s = Done uuid_s_ok s1"
proof (cases "uuid_init env s")
  case (Done st s1)
  with uuid_init_done_state [OF Done] that show ?thesis by simp
qed (use assms in \<open>simp_all add: uuid_create_def UUID_VERIFY_INIT_def\<close>)

text \<open>The environment of the witnesses: a clock that does not move and a working adapter.\<close>

definition still_env :: uuid_env where
  "still_env = \<lparr>os_timeofday = (\<lambda>_. Some (1000, 0)), os_pid = 1, os_802_addr = ([1,2,3,4,5,6], 0),
     os_malloc_ok = True\<rparr>"

lemma still_env_tick: "tick still_env i = 122192938000000000"
  by (simp add: tick_def still_env_def os_tick_val)

lemma still_env_ok: "os_timeofday still_env i \<noteq> None" "snd (os_802_addr still_env) = 0"
  by (simp_all add: still_env_def)

lemma still_env_creates:
  "n \<le> 0x7fff \<Longrightarrow> \<exists>us s'. uuid_creates n (Suc f) still_env uuid_statics = Done us s' \<and> length us = n"
proof (cases n)
  case (Suc m)
  assume n: "n \<le> 0x7fff"
  obtain s1 where i: "uuid_init still_env uuid_statics = Done uuid_s_ok s1"
    using uuid_init_total still_env_ok by metis
  note d = uuid_init_done_state [OF i]
  show ?thesis
    using uuid_creates_same_tick [OF still_env_ok, of s1 n f] d n
    by (auto simp: Suc uuid_creates_after_init [OF _ i] still_env_tick simp del: uuid_creates.simps)
qed simp

text \<open>A creation that has a reading of the clock and an adjustment left returns.\<close>

lemma uuid_create_total:
  assumes "uuid_init_done s" "os_timeofday env (clock_reads s) \<noteq> None" "snd (os_802_addr env) = 0"
    "saved_st s = uuid_s_ok" "time_adjust s < 0x7fff"
  obtains u s' where "uuid_create (Suc f) env s = Done (Some u, uuid_s_ok) s'" "uuid_init_done s'" "saved_st s' = uuid_s_ok"
    "got_address s'" "got_address s \<longrightarrow> saved_addr s' = saved_addr s" "clock_reads s' = Suc (clock_reads s)"
    "last_tick s' = tick env (clock_reads s)" "time_adjust s' = (if last_tick s' = last_tick s then time_adjust s + 1 else 0)"
    "last_tick s \<le> last_tick s' \<longrightarrow> clock_seq s' = clock_seq s"
    "last_tick s' < last_tick s \<longrightarrow> unat (clock_seq s') \<noteq> unat (clock_seq s) mod 16384 \<and> unat (clock_seq s') < 16384"
    "\<exists>t. u = uuid_build t (clock_seq s') (saved_addr s') \<and> time_val t = (last_tick s' + unat (time_adjust s')) mod 2 ^ 64"
proof -
  obtain e sa where a: "uuid_get_address env s = ((e, uuid_s_ok), sa)" "saved_st sa = uuid_s_ok" "got_address sa"
    "saved_addr sa = e" "got_address s \<longrightarrow> saved_addr sa = saved_addr s"
  proof (cases "got_address s")
    case True
    then show thesis using assms(4) by (intro that [of "saved_addr s" s]) (simp_all add: uuid_get_address_def)
  next
    case False
    obtain ad where "uuid__get_os_address env = (ad, uuid_s_ok)"
      using assms(3) by (cases "os_802_addr env") (simp add: uuid__get_os_address_def)
    then show thesis using False assms(4)
      by (intro that [of ad "s\<lparr>got_address := True, saved_addr := ad\<rparr>"]) (simp_all add: uuid_get_address_def)
  qed
  note fr = uuid_get_address_frame [OF a(1)]
  obtain tv where tv: "os_timeofday env (clock_reads sa) = Some tv" using assms(2) fr by auto
  have adj: "time_adjust sa \<noteq> 0x7fff" using assms(5) fr by auto
  obtain sl where sl: "uuid_create_loop (Suc f) env False sa = Done () sl"
    using adj unfolding uuid_create_loop_turn [OF tv] Let_def
    by (cases "time_val (os_tick tv)" "time_val (time_last sa)" rule: linorder_cases) auto
  have g: "saved_st sl = saved_st sa" "got_address sl = got_address sa" "saved_addr sl = saved_addr sa"
    "time_now sl = os_tick tv" by (rule uuid_create_loop_done [OF sl], use tv in simp)+
  let ?t = "if time_adjust sl \<noteq> 0 then UADD_UW_2_UVLW (time_adjust sl) (time_now sl) else time_now sl"
  let ?u = "uuid_build ?t (clock_seq sl) e"
  define s' where "s' = (let s = sl\<lparr>time_last := time_now sl\<rparr> in if time_adjust s \<noteq> 0
     then s\<lparr>time_now := UADD_UW_2_UVLW (time_adjust s) (time_now s)\<rparr> else s)"
  have c: "uuid_create (Suc f) env s = Done (Some ?u, uuid_s_ok) s'"
    using a(1) sl assms(1) by (simp add: uuid_create_def UUID_VERIFY_INIT_def Let_def s'_def)
  have s': "saved_st s' = saved_st sl" "got_address s' = got_address sl" "saved_addr s' = saved_addr sl" "clock_seq s' = clock_seq sl"
    "time_adjust s' = time_adjust sl" "last_tick s' = time_val (time_now sl)" by (simp_all add: s'_def Let_def last_tick_def)
  from uuid_create_done [OF assms(1) c] obtain tv' where d: "os_timeofday env (clock_reads s) = Some tv'" "uuid_init_done s'"
    "clock_reads s' = Suc (clock_reads s)" "last_tick s' = time_val (os_tick tv')"
    "last_tick s' < last_tick s \<longrightarrow> time_adjust s' = 0 \<and> unat (clock_seq s') \<noteq> unat (clock_seq s) mod 16384 \<and> unat (clock_seq s') < 16384"
    "last_tick s \<le> last_tick s' \<longrightarrow> clock_seq s' = clock_seq s" "last_tick s < last_tick s' \<longrightarrow> time_adjust s' = 0"
    "last_tick s' = last_tick s \<longrightarrow> time_adjust s \<noteq> 0x7fff \<and> time_adjust s' = time_adjust s + 1" by blast
  have "time_val ?t = (last_tick s' + unat (time_adjust s')) mod 2 ^ 64"
    using s'(5,6) time_val_lt [of "time_now sl"] by (simp add: UADD_UW_2_UVLW_val add.commute)
  then have u: "\<exists>t. ?u = uuid_build t (clock_seq s') (saved_addr s') \<and> time_val t = (last_tick s' + unat (time_adjust s')) mod 2 ^ 64"
    using s'(3,4) g(3) a(4) by (intro exI [of _ ?t]) simp
  have "time_adjust s' = (if last_tick s' = last_tick s then time_adjust s + 1 else 0)"
    using d(5,7,8) by (cases "last_tick s'" "last_tick s" rule: linorder_cases) simp_all
  moreover have "last_tick s' = tick env (clock_reads s)" using d(1,4) by (simp add: tick_def)
  moreover have "got_address s \<longrightarrow> saved_addr s' = saved_addr s" using a(5) s'(3) g(3) by simp
  moreover have "last_tick s' < last_tick s \<longrightarrow> unat (clock_seq s') \<noteq> unat (clock_seq s) mod 16384 \<and> unat (clock_seq s') < 16384"
    using d(5) by blast
  moreover have "saved_st s' = uuid_s_ok" "got_address s'" using s'(1,2) g(1,2) a(2,3) by simp_all
  ultimately show thesis using c d(2,3,6) u by (intro that)
qed

text \<open>
  C32: Two identifiers created in a row, whatever the clock shows.  Both calls return, and the identifiers
  are the same exactly when the clock moves forward between the calls by just the number of identifiers
  the first call had reached in its tick: the adjustment is dropped although its stamps have been given
  out.  In every other case, the clock standing still, moving back or further on, they differ.  (The
  adjustment is not exhausted, and the stamps fit their 60 bits.)
\<close>

theorem uuid_create_repeats_iff:
  assumes "uuid_init_done s" "saved_st s = uuid_s_ok" "snd (os_802_addr env) = 0" "time_adjust s < 0x7ffe"
    and "os_timeofday env (clock_reads s) \<noteq> None" "os_timeofday env (Suc (clock_reads s)) \<noteq> None"
    and "tick env (clock_reads s) + 0x7fff < 2 ^ 60" "tick env (Suc (clock_reads s)) + 0x7fff < 2 ^ 60"
    and "n = (if tick env (clock_reads s) = last_tick s then unat (time_adjust s) + 1 else 0)"
  shows "\<exists>u v s1 s2. uuid_create (Suc f) env s = Done (Some u, uuid_s_ok) s1 \<and>
    uuid_create (Suc f) env s1 = Done (Some v, uuid_s_ok) s2 \<and>
    (u = v \<longleftrightarrow> 0 < n \<and> tick env (Suc (clock_reads s)) = tick env (clock_reads s) + n)"
proof -
  have adj: "time_adjust s < 0x7fff" using assms(4) by (rule order.strict_trans) simp
  obtain u s1 where c1: "uuid_create (Suc f) env s = Done (Some u, uuid_s_ok) s1" "uuid_init_done s1" "saved_st s1 = uuid_s_ok"
    "got_address s1" "clock_reads s1 = Suc (clock_reads s)" "last_tick s1 = tick env (clock_reads s)"
    "time_adjust s1 = (if last_tick s1 = last_tick s then time_adjust s + 1 else 0)"
    "\<exists>t. u = uuid_build t (clock_seq s1) (saved_addr s1) \<and> time_val t = (last_tick s1 + unat (time_adjust s1)) mod 2 ^ 64"
    by (rule uuid_create_total [OF assms(1,5,3,2) adj, of f]) (rule that; assumption)
  have a1: "unat (time_adjust s) < 0x7ffe" using assms(4) by (simp add: word_less_nat_alt)
  then have n1: "unat (time_adjust s1) = n" "n \<le> 0x7ffe" using c1(6,7) assms(9) by (auto simp: word_vals)
  then have adj1: "time_adjust s1 < 0x7fff" by (simp add: word_less_nat_alt)
  have rd: "os_timeofday env (clock_reads s1) \<noteq> None" using assms(6) c1(5) by simp
  obtain v s2 where c2: "uuid_create (Suc f) env s1 = Done (Some v, uuid_s_ok) s2"
    "got_address s1 \<longrightarrow> saved_addr s2 = saved_addr s1" "last_tick s2 = tick env (clock_reads s1)"
    "time_adjust s2 = (if last_tick s2 = last_tick s1 then time_adjust s1 + 1 else 0)"
    "last_tick s1 \<le> last_tick s2 \<longrightarrow> clock_seq s2 = clock_seq s1"
    "last_tick s2 < last_tick s1 \<longrightarrow> unat (clock_seq s2) \<noteq> unat (clock_seq s1) mod 16384 \<and> unat (clock_seq s2) < 16384"
    "\<exists>t. v = uuid_build t (clock_seq s2) (saved_addr s2) \<and> time_val t = (last_tick s2 + unat (time_adjust s2)) mod 2 ^ 64"
    by (rule uuid_create_total [OF c1(2) rd assms(3) c1(3) adj1, of f]) (rule that; assumption)
  have n2: "unat (time_adjust s2) = (if last_tick s2 = last_tick s1 then n + 1 else 0)"
    using c2(4) n1 by (auto simp: word_vals)
  obtain t where t: "u = uuid_build t (clock_seq s1) (saved_addr s1)" "time_val t = last_tick s1 + n"
    using c1(8) n1 c1(6) assms(7) by auto
  obtain t' where t': "v = uuid_build t' (clock_seq s2) (saved_addr s2)" "time_val t' = last_tick s2 + unat (time_adjust s2)"
    using c2(7) n2 n1(2) c2(3) c1(5) assms(8) by (auto split: if_splits)
  have st: "uuid_stamp u = last_tick s1 + n" "uuid_stamp v = last_tick s2 + unat (time_adjust s2)"
    using t t' n1(2) n2 c1(5,6) c2(3) assms(7,8) by (simp_all add: uuid_stamp_build)
  have "u = v \<longleftrightarrow> 0 < n \<and> last_tick s2 = last_tick s1 + n"
  proof (cases "last_tick s2 < last_tick s1")
    case True
    then have "uuid_clock_seq u \<noteq> uuid_clock_seq v" using c2(6) unfolding t(1) t'(1) uuid_clock_seq_build by auto
    then show ?thesis using True by auto
  next
    case ge: False
    show ?thesis
    proof (cases "last_tick s2 = last_tick s1 + n")
      case True
      show ?thesis
      proof (cases "n = 0")
        case True
        then show ?thesis using st n2 \<open>last_tick s2 = last_tick s1 + n\<close> by auto
      next
        case False
        then have "time_val t = time_val t'" using True t(2) t'(2) n2 by simp
        then have "t = t'" using time_ord.key_inj by simp
        then show ?thesis using True False t(1) t'(1) c1(4) c2(2,5) ge by simp
      qed
    next
      case False
      then have "uuid_stamp u \<noteq> uuid_stamp v" using st n2 by auto
      then show ?thesis using False by auto
    qed
  qed
  then show ?thesis using c1(1,5,6) c2(1,3) by (intro exI [of _ u] exI [of _ v] exI [of _ s1] exI [of _ s2]) simp
qed

lemma still_env_pair:
  obtains u v s s1 s2 where "uuid_init still_env uuid_statics = Done uuid_s_ok s"
    "uuid_create 1 still_env s = Done (Some u, uuid_s_ok) s1"
    "uuid_create 1 still_env s1 = Done (Some v, uuid_s_ok) s2"
    "last_tick s = 122192938000000000" "last_tick s1 = last_tick s" "last_tick s2 = last_tick s"
    "uuid_init_done s" "uuid_init_done s1" "time_adjust s = 0" "time_adjust s1 = 1"
proof -
  obtain s where i: "uuid_init still_env uuid_statics = Done uuid_s_ok s"
    using uuid_init_total still_env_ok by metis
  note d = uuid_init_done_state [OF i]
  obtain u s1 where c:
    "uuid_create 1 still_env s = Done (Some u, uuid_s_ok) s1" "uuid_init_done s1" "saved_st s1 = uuid_s_ok"
    "last_tick s1 = last_tick s" "time_adjust s1 = 1"
    by (rule uuid_create_same_tick [of s still_env 0]) (use d in \<open>auto simp: still_env_ok still_env_tick\<close>)
  obtain v s2 where "uuid_create 1 still_env s1 = Done (Some v, uuid_s_ok) s2" "last_tick s2 = last_tick s1"
    by (rule uuid_create_same_tick [of s1 still_env 0]) (use c d in \<open>auto simp: still_env_ok still_env_tick\<close>)
  with that [OF i c(1) this(1)] d c show ?thesis by (simp add: still_env_tick)
qed

definition repeat_env :: uuid_env where
  "repeat_env = \<lparr>os_timeofday = (\<lambda>i. Some (1000, if i < 13 then 0 else 1)), os_pid = 1,
     os_802_addr = ([1,2,3,4,5,6], 0), os_malloc_ok = True\<rparr>"

lemma repeat_env_tick: "tick repeat_env i = (if i < 13 then 122192938000000000 else 122192938000000010)"
  by (simp add: tick_def repeat_env_def os_tick_val)

text \<open>
  The tenth and the eleventh identifier created in a row are equal when a microsecond, that
  is ten ticks of the time stamp, passes between them.
\<close>

theorem uuid_create_repeats_iff_witness:
  "\<exists>s u s1 s2. uuid_create 1 repeat_env s = Done (Some u, uuid_s_ok) s1 \<and>
     uuid_create 1 repeat_env s1 = Done (Some u, uuid_s_ok) s2"
proof -
  define s where "s = uuid_statics\<lparr>uuid_init_done := True, got_address := True, time_adjust := 9,
    clock_reads := 12, time_last := os_tick (1000, 0)\<rparr>"
  have l: "last_tick s = 122192938000000000" by (simp add: s_def last_tick_def os_tick_val)
  have s: "uuid_init_done s" "saved_st s = uuid_s_ok" "snd (os_802_addr repeat_env) = 0" "time_adjust s < 0x7ffe" "clock_reads s = 12"
    "unat (time_adjust s) = 9" "os_timeofday repeat_env i \<noteq> None" for i
    by (simp_all add: s_def uuid_statics_def repeat_env_def)
  from uuid_create_repeats_iff [OF s(1-4,7,7) _ _ refl, of 0] show ?thesis
    by (simp add: repeat_env_tick s l) blast
qed

text \<open>
  C33: \<open>uuid_create\<close> can hang for ever: once 0x7fff identifiers have been created within one
  tick and the next reading still shows that tick, the loop sets \<open>got_no_time\<close>, which no
  later turn resets, so no amount of fuel lets the call return, whatever the clock does next.
\<close>

theorem uuid_create_hangs:
  assumes "\<forall>i. os_timeofday env i \<noteq> None" "snd (os_802_addr env) = 0"
    and "\<forall>i \<le> 0x8001. tick env i = tick env 0"
  shows "\<exists>us s. uuid_creates 0x7fff 1 env uuid_statics = Done us s \<and> length us = 0x7fff \<and>
    (\<forall>fuel. uuid_create fuel env s = OutOfFuel)"
proof -
  from assms(1) have all: "\<And>i. os_timeofday env i \<noteq> None" by blast
  obtain s1 where i: "uuid_init env uuid_statics = Done uuid_s_ok s1"
    using uuid_init_total all by metis
  note d = uuid_init_done_state [OF i]
  have s1: "last_tick s1 = tick env 0" "clock_reads s1 = 2" "time_adjust s1 = 0" "saved_st s1 = uuid_s_ok"
    using d assms(3) [rule_format, of 1] by simp_all
  have tk: "\<forall>j<32767. tick env (clock_reads s1 + j) = last_tick s1"
  proof (intro allI impI)
    fix j :: nat assume "j < 32767"
    then have "2 + j \<le> 32769" by simp
    from assms(3) [rule_format, OF this] show "tick env (clock_reads s1 + j) = last_tick s1"
      by (simp only: s1)
  qed
  have "unat (time_adjust s1) + 32767 \<le> 0x7fff" by (simp add: s1)
  from uuid_creates_same_tick [OF all assms(2) d(1) s1(4) tk this, of 0]
  obtain us s where r: "uuid_creates 32767 1 env s1 = Done us s" "length us = 32767" "uuid_init_done s"
    "saved_st s = uuid_s_ok" "last_tick s = last_tick s1" "unat (time_adjust s) = unat (time_adjust s1) + 32767"
    "clock_reads s = clock_reads s1 + 32767"
    unfolding One_nat_def by blast
  have "uuid_creates (Suc 32766) 1 env uuid_statics = uuid_creates (Suc 32766) 1 env s1"
    by (rule uuid_creates_after_init [OF _ i]) simp
  moreover have "Suc 32766 = 32767" by simp
  ultimately have "uuid_creates 32767 1 env uuid_statics = Done us s" by (simp only: r(1))
  moreover have "uuid_create fuel env s = OutOfFuel" for fuel
  proof (rule uuid_create_spins [OF r(3) all assms(2) r(4)])
    show "tick env (clock_reads s) = last_tick s"
      using assms(3) [rule_format, of 32769] by (simp add: r s1)
    show "time_adjust s = 0x7fff" using r(6) s1(3) by (simp flip: unat_eq_iff)
  qed
  ultimately show ?thesis using r(2) by blast
qed

theorem uuid_create_hangs_witness:
  "\<exists>us s. uuid_creates 0x7fff 1 still_env uuid_statics = Done us s \<and> length us = 0x7fff \<and>
    (\<forall>fuel. uuid_create fuel still_env s = OutOfFuel)"
  by (rule uuid_create_hangs) (simp_all add: still_env_ok still_env_tick)

text \<open>
  Every identifier created is of version 1 and variant 1 (bits 10), carries the 60 low
  bits of the adjusted time and the 14 low bits of the clock sequence, and the state keeps
  the unadjusted reading as the time of the last query.
\<close>

theorem uuid_create_format:
  assumes "uuid_init_done s" "uuid_create fuel env s = Done (Some u, st) s'"
  shows "st = uuid_s_ok \<and> drop_bit 12 (time_hi_and_version u) = 1 \<and>
    drop_bit 6 (clock_seq_hi_and_reserved u) = 2 \<and>
    uuid_stamp u = (last_tick s' + unat (time_adjust s')) mod 2 ^ 60 \<and>
    uuid_clock_seq u = unat (clock_seq s') mod 2 ^ 14 \<and>
    last_tick s' = tick env (clock_reads s)"
proof -
  have "drop_bit 12 (time_hi_and_version u) = 1" "drop_bit 6 (clock_seq_hi_and_reserved u) = 2"
    using uuid_create_cases [OF assms] uuid_build_format by metis+
  moreover obtain tv where "os_timeofday env (clock_reads s) = Some tv" "st = uuid_s_ok"
    "last_tick s' = time_val (os_tick tv)"
    "uuid_stamp u = (last_tick s' + unat (time_adjust s')) mod 2 ^ 64 mod 2 ^ 60"
    "uuid_clock_seq u = unat (clock_seq s') mod 16384"
    using uuid_create_done [OF assms] by metis
  moreover have "x mod 2 ^ 64 mod 2 ^ 60 = x mod 2 ^ 60" for x :: nat
    by (rule mod_mod_cancel) simp
  ultimately show ?thesis by (simp add: tick_def)
qed

theorem uuid_create_format_witness:
  "\<exists>s u s'. uuid_create 1 still_env s = Done (Some u, uuid_s_ok) s' \<and>
     drop_bit 12 (time_hi_and_version u) = 1 \<and> drop_bit 6 (clock_seq_hi_and_reserved u) = 2"
proof (rule still_env_pair)
  fix u v s s1 s2
  assume c: "uuid_create 1 still_env s = Done (Some u, uuid_s_ok) s1" "uuid_init_done s"
  with uuid_create_format [OF c(2,1)] show ?thesis by blast
qed

text \<open>
  \<open>uuid__get_os_time\<close> turns seconds and microseconds into 100ns ticks since 15 October
  1582 exactly: the 32-bit multiplication and the two 64-bit additions lose nothing for any
  time before the year 2106.
\<close>

theorem uuid__get_os_time_exact:
  assumes "os_timeofday env (clock_reads s) = Some (sec, usec)"
    and "0 \<le> sec" "sec < 2 ^ 32" "0 \<le> usec" "usec < 1000000"
  shows "\<exists>t. uuid__get_os_time env s = Done t (s\<lparr>clock_reads := Suc (clock_reads s)\<rparr>) \<and>
    time_val t = (nat sec * 1000000 + nat usec) * 10 + 0x01B21DD213814000"
  using assms by (simp add: uuid__get_os_time_eq os_tick_val)

theorem uuid__get_os_time_exact_witness:
  "\<exists>t. uuid__get_os_time still_env uuid_statics = Done t (uuid_statics\<lparr>clock_reads := 1\<rparr>) \<and>
    time_val t = 1000 * 10000000 + 0x01B21DD213814000"
  using uuid__get_os_time_exact [of still_env uuid_statics 1000 0] by (simp add: still_env_def)

end
