(* ===== verification/UuidCompare.thy ===== *)
theory UuidCompare
  imports UuidCreate
begin

text \<open>
  Comparing and hashing UUIDs: \<open>uuid_equal\<close>, \<open>uuid_is_nil\<close>, \<open>uuid_compare\<close> and
  \<open>uuid_hash\<close> of \<^verbatim>\<open>src/freedce/uuid/uuid.c\<close>, on an initialised module.
\<close>

definition ready_state :: uuid_state where
  "ready_state = uuid_statics\<lparr>uuid_init_done := True\<rparr>"

lemma verify_init_ready [simp]: "uuid_init_done s \<Longrightarrow> UUID_VERIFY_INIT env arg s k = k s"
  by (simp add: UUID_VERIFY_INIT_def)

lemma uuid_equal_ready:
  assumes "uuid_init_done s" "uuid_wf u" "uuid_wf v"
  shows "uuid_equal env u v s = Done (u = v, uuid_s_ok) s"
proof -
  have "take 6 (uuid_node u) = uuid_node u" "take 6 (uuid_node v) = uuid_node v"
    using assms by (simp_all add: uuid_wf_def)
  with assms show ?thesis
    by (auto simp: uuid_equal_def structure_always_known intro: uuid.equality)
qed

text \<open>
  \<open>uuid_compare\<close> is the numerical order of the identifiers read as 128-bit numbers, field
  after field: its result is the sign of the difference, it is 0 exactly for equal
  identifiers and then \<open>uuid_equal\<close> says so, swapping the arguments negates it, and it is
  transitive. Neither routine changes the state or fails.
\<close>

theorem uuid_compare_order:
  assumes "uuid_init_done s" "uuid_wf u" "uuid_wf v" "uuid_wf w"
  shows "\<exists>r. uuid_compare le env (Some u) (Some v) s = Done (r, uuid_s_ok) s \<and>
      r = sgn (int (uuid_key u) - int (uuid_key v)) \<and>
      (r = 0 \<longleftrightarrow> u = v) \<and>
      uuid_equal env u v s = Done (r = 0, uuid_s_ok) s \<and>
      uuid_compare le env (Some v) (Some u) s = Done (- r, uuid_s_ok) s \<and>
      (r \<le> 0 \<longrightarrow> uuid_compare_fields v w \<le> 0 \<longrightarrow>
        (\<exists>r'. uuid_compare le env (Some u) (Some w) s = Done (r', uuid_s_ok) s \<and> r' \<le> 0))"
  using assms uuid_ord.cmp_antisym [of u v] uuid_ord.cmp_eq [of u v] uuid_ord.cmp_key [of u v]
    uuid_ord.cmp_trans [of u v w]
  by (auto simp: uuid_compare_def structure_always_known uuid_equal_ready)

definition sample_uuid :: uuid where
  "sample_uuid = uuid_g_nil_uuid\<lparr>time_low := 7, clock_seq_hi_and_reserved := 0x80\<rparr>"

lemma sample_wf: "uuid_wf sample_uuid" "uuid_wf uuid_g_nil_uuid"
  by (simp_all add: uuid_wf_def sample_uuid_def uuid_g_nil_uuid_def)

lemma ready_init: "uuid_init_done ready_state"
  by (simp add: ready_state_def)

theorem uuid_compare_order_witness:
  "\<exists>r. uuid_compare True still_env (Some sample_uuid) (Some uuid_g_nil_uuid) ready_state
         = Done (r, uuid_s_ok) ready_state \<and> (r = 0 \<longleftrightarrow> sample_uuid = uuid_g_nil_uuid)"
  using uuid_compare_order [OF ready_init sample_wf(1) sample_wf(2) sample_wf(1)] by blast

lemma host_bytes16_inj: "host_bytes16 le a = host_bytes16 le b \<longleftrightarrow> a = b"
proof
  assume "host_bytes16 le a = host_bytes16 le b"
  then have "(ucast a :: u8) = ucast b" "(ucast (drop_bit 8 a) :: u8) = ucast (drop_bit 8 b)"
    by (auto simp: host_bytes16_def Let_def split: if_splits)
  then have "unat a mod 256 = unat b mod 256" "unat a div 256 = unat b div 256"
    using unat_u16_lt [of a] unat_u16_lt [of b]
    by (simp_all flip: unat_eq_iff add: unsigned_ucast_eq take_bit_eq_mod unat_drop_bit_div)
  then have "unat a = unat b" by (metis div_mult_mod_eq)
  then show "a = b" by (simp add: unat_eq_iff)
qed simp

lemma host_bytes32_inj: "host_bytes32 le a = host_bytes32 le b \<longleftrightarrow> a = b"
proof
  assume "host_bytes32 le a = host_bytes32 le b"
  then have "(ucast a :: u8) = ucast b" "(ucast (drop_bit 8 a) :: u8) = ucast (drop_bit 8 b)"
     "(ucast (drop_bit 16 a) :: u8) = ucast (drop_bit 16 b)" "(ucast (drop_bit 24 a) :: u8) = ucast (drop_bit 24 b)"
    by (cases le; simp add: host_bytes32_def)+
  moreover have "unat a div 16777216 < 256" "unat b div 16777216 < 256"
    using unat_u32_lt [of a] unat_u32_lt [of b] by (simp_all add: less_mult_imp_div_less)
  ultimately have e: "unat a mod 256 = unat b mod 256" "unat a div 256 mod 256 = unat b div 256 mod 256"
    "unat a div 65536 mod 256 = unat b div 65536 mod 256" "unat a div 16777216 = unat b div 16777216"
    by (simp_all only: unat_eq_iff [symmetric] unsigned_ucast_eq take_bit_eq_mod unat_drop_bit_div) simp_all
  have "unat a div 65536 div 256 = unat b div 65536 div 256" using e(4) by (simp add: div_mult2_eq [symmetric])
  with e(3) have "unat a div 65536 = unat b div 65536" by (metis div_mult_mod_eq)
  then have "unat a div 256 div 256 = unat b div 256 div 256" by (simp add: div_mult2_eq [symmetric])
  with e(2) have "unat a div 256 = unat b div 256" by (metis div_mult_mod_eq)
  with e(1) have "unat a = unat b" by (metis div_mult_mod_eq)
  then show "a = b" by (simp add: unat_eq_iff)
qed simp

lemma host_bytes_length [simp]: "length (host_bytes16 le a) = 2" "length (host_bytes32 le b) = 4"
  by (simp_all add: host_bytes16_def host_bytes32_def Let_def)

lemma uuid_bytes_inj: "uuid_bytes le u = uuid_bytes le v \<longleftrightarrow> u = v" 
  by (auto simp: uuid_bytes_def host_bytes16_inj host_bytes32_inj intro: uuid.equality)

lemma node_val_zeros: "node_val (replicate n 0) = 0"
  by (induction n) simp_all

text \<open>
  \<open>uuid_is_nil\<close> accepts exactly the nil identifier, on either byte order, and comparing
  with a NULL argument is comparing with the nil identifier, on either side.
\<close>

theorem uuid_is_nil_compare:
  assumes "uuid_init_done s" "uuid_wf u"
  shows "uuid_is_nil le env u s = Done (u = uuid_g_nil_uuid, uuid_s_ok) s \<and>
    uuid_compare le env (Some u) None s = uuid_compare le env (Some u) (Some uuid_g_nil_uuid) s \<and>
    uuid_compare le env None (Some u) s = uuid_compare le env (Some uuid_g_nil_uuid) (Some u) s"
proof -
  have nil: "uuid_wf uuid_g_nil_uuid" "uuid_key uuid_g_nil_uuid = 0"
    by (simp_all add: uuid_wf_def uuid_g_nil_uuid_def uuid_key_def node_val_zeros)
  have "uuid_key u = 0 \<longleftrightarrow> u = uuid_g_nil_uuid"
    using uuid_ord.key_inj [OF assms(2) nil(1)] nil by auto
  with assms nil uuid_ord.cmp_key show ?thesis
    by (auto simp: uuid_is_nil_def uuid_compare_def structure_always_known uuid_bytes_inj sgn_if)
qed

theorem uuid_is_nil_compare_witness:
  "uuid_is_nil True still_env sample_uuid ready_state
     = Done (sample_uuid = uuid_g_nil_uuid, uuid_s_ok) ready_state"
  using uuid_is_nil_compare [OF ready_init sample_wf(1)] by blast

section \<open>Hashing\<close>

lemma hash_sums_bound:
  "foldl (\<lambda>(c0, c1) b. let c0 = c0 + ucast b in (c0, c1 + c0)) (c0, c1) bs = (d0, d1) \<Longrightarrow>
   unat (c0 :: u16) + 255 * length bs < 65536 \<Longrightarrow>
   unat d0 = unat c0 + (\<Sum>b\<leftarrow>bs. unat (b::u8))"
proof (induction bs arbitrary: c0 c1)
  case (Cons b bs)
  let ?c = "c0 + ucast b"
  have c: "unat ?c = unat c0 + unat b"
    using Cons.prems(2) unat_u8_lt [of b]
    by (simp add: word_vals unsigned_ucast_eq take_bit_nat_eq_self)
  with Cons.IH [of ?c "c1 + ?c"] Cons.prems unat_u8_lt [of b] show ?case
    by (simp add: Let_def)
qed simp

lemma sint_eq_uint_u16: "unat (w :: u16) < 32768 \<Longrightarrow> sint w = int (unat w)"
proof -
  assume "unat w < 32768"
  then have "int (unat w) < int 32768" by (simp only: of_nat_less_iff)
  then have "uint w < 2 ^ 15" by simp
  moreover have "0 \<le> uint w" by simp
  ultimately have "signed_take_bit 15 (uint w) = uint w"
    by (intro signed_take_bit_int_eq_self) linarith+
  moreover have "sint w = signed_take_bit 15 (uint w)" unfolding sint_uint by simp
  moreover have "int (unat w) = uint w" by simp
  ultimately show ?thesis by (simp only:)
qed

lemma smod255: "(let r = a smod 255 in if r < 0 then r + 255 else r) = a mod (255 :: int)"
proof (cases "a < 0")
  case True
  have "0 \<le> - a mod 255" "- a mod 255 < 255" by simp_all
  with True zmod_zminus1_eq_if [of "- a" 255] show ?thesis
    by (auto simp add: signed_modulo_int_def Let_def)
next
  case False
  have "0 \<le> a mod 255" by simp
  with False show ?thesis by (auto simp: signed_modulo_int_def Let_def sgn_if)
qed

text \<open>
  \<open>uuid_hash\<close> returns two octets below 255 which complete the sixteen bytes of the
  identifier to a multiple of 255: the first Fletcher sum of identifier and hash is zero,
  although the second running sum may wrap around in its \<open>short\<close>.
\<close>

theorem uuid_hash_checksum:
  assumes "uuid_init_done s" "uuid_wf u"
  shows "\<exists>h. uuid_hash le env u s = Done (h, uuid_s_ok) s \<and>
    unat h div 256 < 255 \<and> unat h mod 256 < 255 \<and>
    (unat h div 256 + unat h mod 256 + (\<Sum>b\<leftarrow>uuid_bytes le u. unat b)) mod 255 = 0"
proof -
  obtain c0 c1 where c: "uuid_hash_sums (uuid_bytes le u) = (c0, c1)" by fastforce
  define S where "S = (\<Sum>b\<leftarrow>uuid_bytes le u. unat b)"
  have len: "length (uuid_bytes le u) = 16" using assms(2) by (simp add: uuid_bytes_def uuid_wf_def)
  have c0: "unat c0 = S"
    using hash_sums_bound [of 0 0 "uuid_bytes le u" c0 c1] c len by (simp add: uuid_hash_sums_def S_def)
  have "S \<le> 255 * 16"
    using sum_list_mono [of "uuid_bytes le u" unat "\<lambda>_. 255"] len unat_u8_lt
    by (simp add: S_def sum_list_triv less_Suc_eq_le [of _ 255, simplified, symmetric])
  then have s0: "sint c0 = int S" using c0 by (simp add: sint_eq_uint_u16)
  define x where "x = (- sint c1) mod 255"
  define y where "y = (sint c1 - sint c0) mod 255"
  have xy: "0 \<le> x" "x < 255" "0 \<le> y" "y < 255" by (simp_all add: x_def y_def)
  let ?h = "word_of_int (y * 256 + x) :: u16"
  have h: "unat ?h = nat y * 256 + nat x"
  proof -
    have "0 \<le> y * 256 + x" "y * 256 + x < 2 ^ 16" using xy by simp_all
    then have "unat ?h = nat (y * 256 + x)"
      by (simp only: unsigned_of_int len_of_numeral_defs take_bit_int_eq_self_iff [THEN iffD2]) (simp add: take_bit_int_eq_self)
    then show ?thesis using xy by (simp add: nat_add_distrib nat_mult_distrib)
  qed
  have "(y + x + int S) mod 255 = 0" 
  proof -
    have "((p - q) mod m + (- p) mod m + q) mod m = (p - q + - p + q) mod m" for p q m :: int
      by (metis mod_add_eq mod_add_left_eq)
    then show ?thesis by (simp add: x_def y_def s0)
  qed
  then have "(nat y + nat x + S) mod 255 = 0"
    using xy by (simp flip: of_nat_eq_iff [where ?'a = int] add: zmod_int)
  moreover have "uuid_hash le env u s = Done (?h, uuid_s_ok) s"
    using assms smod255 [of "- sint c1"] smod255 [of "sint c1 - sint c0"]
    by (simp add: uuid_hash_def structure_always_known c Let_def x_def y_def)
  moreover have "(nat y * 256 + nat x) div 256 = nat y" "(nat y * 256 + nat x) mod 256 = nat x"
    using xy by (simp_all add: nat_less_iff)
  ultimately show ?thesis using xy h by (simp add: S_def nat_less_iff)
qed

theorem uuid_hash_checksum_witness:
  "\<exists>h. uuid_hash True still_env sample_uuid ready_state = Done (h, uuid_s_ok) ready_state \<and>
    unat h mod 256 < 255"
  using uuid_hash_checksum [OF ready_init sample_wf(1)] by blast

end
