(* ===== verification/UuidString.thy ===== *)
theory UuidString
  imports UuidCompare
begin

text \<open>
  The string forms of a UUID: \<open>uuid_to_string\<close> and \<open>uuid_from_string\<close> of
  \<^verbatim>\<open>src/freedce/uuid/uuid.c\<close>, and the part of \<^verbatim>\<open>sprintf\<close> and \<^verbatim>\<open>sscanf\<close> they use.
\<close>

section \<open>String conversion\<close>

text \<open>
  What the code uses of \<^verbatim>\<open>sprintf\<close> and \<^verbatim>\<open>sscanf\<close>: \<open>%0wx\<close> prints the hexadecimal digits of an
  unsigned value padded with zeros to width \<open>w\<close>; \<open>%wx\<close> skips white space and reads at most
  \<open>w\<close> characters as \<open>strtoul\<close> in base 16 does, an optional sign and an optional \<open>0x\<close>
  included (a lone \<open>0x\<close> is a matching failure); any other character of a format matches
  itself. A C string is the list of its characters before the NUL.
\<close>

definition hexdig :: "nat \<Rightarrow> char" where
  "hexdig n = ''0123456789abcdef'' ! n"

fun hex_digits :: "nat \<Rightarrow> string" where
  "hex_digits n = (if n < 16 then [hexdig n] else hex_digits (n div 16) @ [hexdig (n mod 16)])"

declare hex_digits.simps [simp del]

definition sprintf_0x :: "nat \<Rightarrow> nat \<Rightarrow> string" where
  "sprintf_0x w n = (let d = hex_digits n in replicate (w - length d) (CHR ''0'') @ d)"

definition hex_val :: "char \<Rightarrow> nat option" where
  "hex_val c =
     (let n = (of_char c :: nat) in
      if 48 \<le> n \<and> n \<le> 57 then Some (n - 48)
      else if 97 \<le> n \<and> n \<le> 102 then Some (n - 87)
      else if 65 \<le> n \<and> n \<le> 70 then Some (n - 55)
      else None)"

definition is_xdigit :: "char \<Rightarrow> bool" where
  "is_xdigit c \<longleftrightarrow> hex_val c \<noteq> None"

definition is_space :: "char \<Rightarrow> bool" where
  "is_space c \<longleftrightarrow> (let n = (of_char c :: nat) in n = 32 \<or> (9 \<le> n \<and> n \<le> 13))"

definition hex_number :: "string \<Rightarrow> int" where
  "hex_number ds = foldl (\<lambda>a c. 16 * a + int (the (hex_val c))) 0 ds"

definition scan_sign :: "nat \<Rightarrow> string \<Rightarrow> bool \<times> nat \<times> string" where
  "scan_sign w s =
     (case s of
        c # r \<Rightarrow> if 0 < w \<and> c = CHR ''-'' then (True, w - 1, r)
                 else if 0 < w \<and> c = CHR ''+'' then (False, w - 1, r)
                 else (False, w, s)
      | [] \<Rightarrow> (False, w, s))"

definition scan_prefix :: "nat \<Rightarrow> string \<Rightarrow> nat \<times> string" where
  "scan_prefix w s =
     (case s of
        c # d # r \<Rightarrow>
          if 2 \<le> w \<and> c = CHR ''0'' \<and> (d = CHR ''x'' \<or> d = CHR ''X'') then (w - 2, r) else (w, s)
      | _ \<Rightarrow> (w, s))"

definition scan_hex :: "nat \<Rightarrow> string \<Rightarrow> (int \<times> string) option" where
  "scan_hex width s =
     (case scan_sign width (dropWhile is_space s) of (neg, w, s) \<Rightarrow>
      case scan_prefix w s of (w, s) \<Rightarrow>
        let ds = takeWhile is_xdigit (take w s); v = hex_number ds
        in if ds = [] then None else Some (if neg then - v else v, drop (length ds) s))"

datatype scan_dir = ScanHex nat | Lit char

text \<open>The values converted before the first directive that does not match.\<close>

fun sscanf :: "scan_dir list \<Rightarrow> string \<Rightarrow> int list" where
  "sscanf [] s = []"
| "sscanf (Lit c # ds) s =
     (case s of x # r \<Rightarrow> if x = c then sscanf ds r else [] | [] \<Rightarrow> [])"
| "sscanf (ScanHex w # ds) s =
     (case scan_hex w s of Some (v, r) \<Rightarrow> v # sscanf ds r | None \<Rightarrow> [])"

definition uuid_sprintf :: "uuid \<Rightarrow> string" where
  "uuid_sprintf u =
     sprintf_0x 8 (unat (time_low u)) @ ''-'' @
     sprintf_0x 4 (unat (time_mid u)) @ ''-'' @
     sprintf_0x 4 (unat (time_hi_and_version u)) @ ''-'' @
     sprintf_0x 2 (unat (clock_seq_hi_and_reserved u)) @
     sprintf_0x 2 (unat (clock_seq_low u)) @ ''-'' @
     concat (map (\<lambda>b. sprintf_0x 2 (unat b)) (take 6 (uuid_node u)))"

text \<open>\<open>want\<close> is False when the output argument is NULL.\<close>

definition uuid_to_string ::
  "uuid_env \<Rightarrow> uuid \<Rightarrow> bool \<Rightarrow> uuid_state \<Rightarrow> (string option \<times> uuid_status) run" where
  "uuid_to_string env u want s =
     UUID_VERIFY_INIT env (\<lambda>status. (None, status)) s (\<lambda>s.
       if \<not> want then Done (None, uuid_s_ok) s
       else if \<not> CHECK_STRUCTURE u then Done (None, uuid_s_bad_version) s
       else if \<not> os_malloc_ok env then Done (None, uuid_s_no_memory) s
       else Done (Some (uuid_sprintf u), uuid_s_ok) s)"

definition uuid_new_format :: "scan_dir list" where
  "uuid_new_format =
     [ScanHex 8, Lit CHR ''-'', ScanHex 4, Lit CHR ''-'', ScanHex 4, Lit CHR ''-'',
      ScanHex 2, ScanHex 2, Lit CHR ''-'',
      ScanHex 2, ScanHex 2, ScanHex 2, ScanHex 2, ScanHex 2, ScanHex 2]"

definition uuid_old_format :: "scan_dir list" where
  "uuid_old_format =
     [ScanHex 8, ScanHex 4, Lit CHR ''.'', ScanHex 2, Lit CHR ''.'', ScanHex 2, Lit CHR ''.'',
      ScanHex 2, Lit CHR ''.'', ScanHex 2, Lit CHR ''.'', ScanHex 2, Lit CHR ''.'',
      ScanHex 2, Lit CHR ''.'', ScanHex 2, Lit CHR ''.'', ScanHex 2]"

definition uuid_parse_new :: "string \<Rightarrow> uuid option" where
  "uuid_parse_new str =
     (let vs = sscanf uuid_new_format str in
      if length vs \<noteq> 11 then None
      else Some \<lparr>time_low = word_of_int (vs ! 0), time_mid = word_of_int (vs ! 1),
             time_hi_and_version = word_of_int (vs ! 2),
             clock_seq_hi_and_reserved = word_of_int (vs ! 3),
             clock_seq_low = word_of_int (vs ! 4),
             uuid_node = map word_of_int (drop 5 vs)\<rparr>)"

definition uuid_parse_old :: "string \<Rightarrow> uuid option" where
  "uuid_parse_old str =
     (let vs = sscanf uuid_old_format str in
      if length vs \<noteq> 10 then None
      else Some (uuid_of_old \<lparr>old_time_high = word_of_int (vs ! 0),
             old_time_low = word_of_int (vs ! 1), old_reserved = 0,
             old_family = word_of_int (vs ! 2), old_host = map word_of_int (drop 3 vs)\<rparr>))"

definition uuid_from_string ::
  "uuid_env \<Rightarrow> string option \<Rightarrow> uuid_state \<Rightarrow> (uuid option \<times> uuid_status) run" where
  "uuid_from_string env p s =
     UUID_VERIFY_INIT env (\<lambda>status. (None, status)) s (\<lambda>s.
       case p of
         None \<Rightarrow> Done (Some uuid_g_nil_uuid, uuid_s_ok) s
       | Some str \<Rightarrow>
           if str = [] then Done (Some uuid_g_nil_uuid, uuid_s_ok) s
           else if length str \<noteq> 37 - 1 then Done (None, uuid_s_invalid_string_uuid) s
           else case (if str ! 8 = CHR ''-'' then uuid_parse_new str else uuid_parse_old str) of
                  None \<Rightarrow> Done (None, uuid_s_invalid_string_uuid) s
                | Some u \<Rightarrow>
                    if \<not> CHECK_STRUCTURE u then Done (None, uuid_s_bad_version) s
                    else Done (Some u, uuid_s_ok) s)"

section \<open>Scanning what was printed\<close>

fun hex_fixed :: "nat \<Rightarrow> nat \<Rightarrow> string" where
  "hex_fixed 0 n = []"
| "hex_fixed (Suc w) n = hex_fixed w (n div 16) @ [hexdig (n mod 16)]"

lemma hex_fixed_length [simp]: "length (hex_fixed w n) = w"
  by (induction w arbitrary: n) simp_all

lemma hex_fixed_zero: "hex_fixed w 0 = replicate w (CHR ''0'')"
  by (induction w) (simp_all add: hexdig_def replicate_append_same)

lemma sprintf_0x_fixed: "n < 16 ^ w \<Longrightarrow> 0 < w \<Longrightarrow> sprintf_0x w n = hex_fixed w n"
proof (induction w arbitrary: n)
  case (Suc w)
  show ?case
  proof (cases "n < 16")
    case True
    then show ?thesis
      by (simp add: sprintf_0x_def hex_digits.simps [of n] hex_fixed_zero)
  next
    case False
    with Suc.prems have "0 < w" "n div 16 < 16 ^ w" by (cases w; auto)+
    with Suc.IH [of "n div 16"] have "sprintf_0x w (n div 16) = hex_fixed w (n div 16)" by simp
    with False show ?thesis by (simp add: sprintf_0x_def hex_digits.simps [of n] Let_def)
  qed
qed simp

lemma hexdig_cases: "n < 16 \<Longrightarrow> n \<in> {0,1,2,3,4,5,6,7,8,9,10,11,12,13,14,15}" for n :: nat
  by (simp add: numeral_eq_Suc less_Suc_eq)

lemma hex_val_hexdig: "n < 16 \<Longrightarrow> hex_val (hexdig n) = Some n"
  by (drule hexdig_cases) (auto simp: hexdig_def hex_val_def)

lemma hexdig_props: "n < 16 \<Longrightarrow> is_xdigit (hexdig n) \<and> \<not> is_space (hexdig n) \<and>
   hexdig n \<noteq> CHR ''-'' \<and> hexdig n \<noteq> CHR ''+'' \<and> hexdig n \<noteq> CHR ''x'' \<and> hexdig n \<noteq> CHR ''X'' \<and> hexdig n \<noteq> CHR ''.''"
  by (drule hexdig_cases, simp only: insert_iff empty_iff, elim disjE FalseE)
    (simp_all add: hexdig_def is_xdigit_def hex_val_def is_space_def)

definition plain_digits :: "string \<Rightarrow> bool" where
  "plain_digits ds \<longleftrightarrow> (\<forall>c\<in>set ds. is_xdigit c \<and> \<not> is_space c \<and>
     c \<noteq> CHR ''-'' \<and> c \<noteq> CHR ''+'' \<and> c \<noteq> CHR ''x'' \<and> c \<noteq> CHR ''X'' \<and> c \<noteq> CHR ''.'')"

lemma hex_fixed_plain: "plain_digits (hex_fixed w n)"
  by (induction w arbitrary: n) (auto simp: plain_digits_def hexdig_props)

lemma hex_number_fixed: "hex_number (hex_fixed w n) = int (n mod 16 ^ w)"
proof (induction w arbitrary: n)
  case (Suc w)
  have "n mod (16 * 16 ^ w) = 16 * (n div 16 mod 16 ^ w) + n mod 16" by (rule mod_mult2_eq)
  with Suc [of "n div 16"] show ?case
    by (simp add: hex_number_def hex_val_hexdig)
qed (simp add: hex_number_def)

lemma scan_plain:
  assumes "plain_digits ds" "length ds = w" "0 < w"
  shows "scan_hex w (ds @ rest) = Some (hex_number ds, rest)"
proof -
  obtain d ds' where ds: "ds = d # ds'" using assms(2,3) by (cases ds) auto
  have "dropWhile is_space (ds @ rest) = ds @ rest" "scan_sign w (ds @ rest) = (False, w, ds @ rest)"
    using assms(1) by (simp_all add: ds plain_digits_def scan_sign_def)
  moreover have "scan_prefix w (ds @ rest) = (w, ds @ rest)"
  proof (cases ds')
    case Nil
    with assms(2) show ?thesis by (cases rest) (simp_all add: ds scan_prefix_def)
  qed (use assms(1) in \<open>simp add: ds plain_digits_def scan_prefix_def\<close>)
  moreover have "takeWhile is_xdigit (take w (ds @ rest)) = ds"
    using assms(1,2) by (auto simp: plain_digits_def takeWhile_eq_all_conv)
  moreover have "drop (length ds) (ds @ rest) = rest" "ds \<noteq> []" by (simp_all add: ds)
  ultimately show ?thesis by (simp only: scan_hex_def prod.case Let_def if_False)
qed

lemma scan_sprintf:
  assumes "n < 16 ^ w" "0 < w"
  shows "scan_hex w (sprintf_0x w n @ rest) = Some (int n, rest)"
  using assms scan_plain [OF hex_fixed_plain hex_fixed_length]
  by (simp add: sprintf_0x_fixed hex_number_fixed)

lemmas scan_sprintf_end = scan_sprintf [where rest = "[]", simplified]

lemma sprintf_length: "n < 16 ^ w \<Longrightarrow> 0 < w \<Longrightarrow> length (sprintf_0x w n) = w"
  by (simp add: sprintf_0x_fixed)

lemma parse_sprintf: "uuid_wf u \<Longrightarrow> uuid_parse_new (uuid_sprintf u) = Some u"
proof -
  assume wf: "uuid_wf u"
  then obtain a b c d e f where n: "uuid_node u = [a, b, c, d, e, f]"
    by (auto simp: uuid_wf_def numeral_eq_Suc length_Suc_conv)
  have "sscanf uuid_new_format (uuid_sprintf u) = map int [unat (time_low u), unat (time_mid u),
     unat (time_hi_and_version u), unat (clock_seq_hi_and_reserved u), unat (clock_seq_low u),
     unat a, unat b, unat c, unat d, unat e, unat f]"
    using scan_sprintf_end [of "unat f" 2]
    by (simp add: uuid_new_format_def uuid_sprintf_def n scan_sprintf word_bounds)
  then show ?thesis by (simp add: uuid_parse_new_def n)
qed

section \<open>The round trip and the answers of the reader\<close>

lemma uuid_sprintf_shape:
  assumes "uuid_wf u"
  shows "length (uuid_sprintf u) = 36" "uuid_sprintf u ! 8 = CHR ''-''"
proof -
  obtain a b c d e f where n: "uuid_node u = [a, b, c, d, e, f]"
    using assms by (auto simp: uuid_wf_def numeral_eq_Suc length_Suc_conv)
  show "length (uuid_sprintf u) = 36"
    by (simp add: uuid_sprintf_def n sprintf_length word_bounds)
  have "length (sprintf_0x 8 (unat (time_low u))) = 8" by (simp add: sprintf_length word_bounds)
  then show "uuid_sprintf u ! 8 = CHR ''-''"
    by (simp add: uuid_sprintf_def nth_append)
qed

text \<open>
  C40: Printing an identifier and reading the string back gives the identifier: the string
  has the 36 characters the reader insists on, and every field survives.
\<close>

theorem uuid_string_round_trip:
  assumes "uuid_init_done s" "uuid_wf u" "os_malloc_ok env"
  shows "\<exists>str. uuid_to_string env u True s = Done (Some str, uuid_s_ok) s \<and> length str = 36 \<and>
    uuid_from_string env (Some str) s = Done (Some u, uuid_s_ok) s"
  using assms uuid_sprintf_shape [OF assms(2)]
  by (auto simp: uuid_to_string_def uuid_from_string_def structure_always_known parse_sprintf)

theorem uuid_string_round_trip_witness:
  "\<exists>str. uuid_to_string still_env sample_uuid True ready_state = Done (Some str, uuid_s_ok) ready_state \<and>
    uuid_from_string still_env (Some str) ready_state = Done (Some sample_uuid, uuid_s_ok) ready_state"
  using uuid_string_round_trip [OF ready_init sample_wf(1), of still_env] by (auto simp: still_env_def)

lemma parse_new_wf: "uuid_parse_new str = Some u \<Longrightarrow> uuid_wf u"
  by (auto simp: uuid_parse_new_def uuid_wf_def Let_def split: if_splits)

lemma parse_old_wf: "uuid_parse_old str = Some u \<Longrightarrow> uuid_wf u \<and> time_hi_and_version u = 0"
  by (auto simp: uuid_parse_old_def uuid_of_old_def uuid_wf_def Let_def split: if_splits)

text \<open>
  What \<open>uuid_from_string\<close> answers to any string: the nil identifier for a NULL or empty
  one, \<open>uuid_s_invalid_string_uuid\<close> and no identifier for any other that is not 36
  characters long, and otherwise either that error or a well-formed identifier, whose
  reserved halfword is zero when it was in the old format. \<open>uuid_s_bad_version\<close> is never the
  answer.
\<close>

theorem uuid_from_string_result:
  assumes "uuid_init_done s"
  shows "\<exists>r st. uuid_from_string env p s = Done (r, st) s \<and>
    (st = uuid_s_ok \<and> r \<noteq> None \<or> st = uuid_s_invalid_string_uuid \<and> r = None) \<and>
    (\<forall>u. r = Some u \<longrightarrow> uuid_wf u) \<and>
    (p = None \<or> p = Some [] \<longrightarrow> r = Some uuid_g_nil_uuid) \<and>
    (\<forall>str. p = Some str \<and> str \<noteq> [] \<and> length str \<noteq> 36 \<longrightarrow> r = None) \<and>
    (\<forall>str u. p = Some str \<and> r = Some u \<and> str \<noteq> [] \<and> str ! 8 \<noteq> CHR ''-'' \<longrightarrow> time_hi_and_version u = 0)"
proof (cases p)
  case None
  then show ?thesis using assms by (simp add: uuid_from_string_def sample_wf)
next
  case (Some str)
  let ?r = "if str ! 8 = CHR ''-'' then uuid_parse_new str else uuid_parse_old str"
  consider "str = []" | "str \<noteq> []" "length str \<noteq> 36" | "str \<noteq> []" "length str = 36" "?r = None"
    | u where "str \<noteq> []" "length str = 36" "?r = Some u" by (cases ?r) auto
  then show ?thesis
  proof cases
    case (4 u)
    then have "uuid_wf u" "str ! 8 \<noteq> CHR ''-'' \<longrightarrow> time_hi_and_version u = 0"
      using parse_new_wf parse_old_wf by (auto split: if_splits)
    with 4 Some assms show ?thesis by (simp add: uuid_from_string_def structure_always_known)
  qed (use Some assms sample_wf in \<open>simp_all add: uuid_from_string_def\<close>)
qed

theorem uuid_from_string_result_witness:
  "\<exists>r st. uuid_from_string still_env (Some ''no uuid'') ready_state = Done (r, st) ready_state \<and> r = None"
proof -
  from uuid_from_string_result [OF ready_init, of still_env "Some ''no uuid''"]
  show ?thesis by auto
qed

text \<open>
  The reader takes more than the printed form: \<open>%x\<close> of \<^verbatim>\<open>sscanf\<close> skips blanks and reads
  signs and a \<open>0x\<close>, so a string with none of the eight digits of the first field is accepted
  and stands for the negated value.
\<close>

theorem uuid_from_string_lenient:
  assumes "uuid_init_done s"
  shows "uuid_from_string env (Some ''  -0x1f4-0005-1abc-80ff-0102030405ff'') s =
    Done (Some \<lparr>time_low = 0xfffffe0c, time_mid = 5, time_hi_and_version = 0x1abc,
      clock_seq_hi_and_reserved = 0x80, clock_seq_low = 0xff, uuid_node = [1, 2, 3, 4, 5, 0xff]\<rparr>, uuid_s_ok) s"
proof -
  have "sscanf uuid_new_format ''  -0x1f4-0005-1abc-80ff-0102030405ff'' = [- 0x1f4, 5, 0x1abc, 0x80, 0xff, 1, 2, 3, 4, 5, 0xff]"
    by (simp add: uuid_new_format_def scan_hex_def scan_sign_def scan_prefix_def is_space_def is_xdigit_def hex_val_def Let_def hex_number_def)
  with assms show ?thesis
    by (simp add: uuid_from_string_def uuid_parse_new_def structure_always_known)
qed

theorem uuid_from_string_lenient_witness:
  "\<exists>u. uuid_from_string still_env (Some ''  -0x1f4-0005-1abc-80ff-0102030405ff'') ready_state = Done (Some u, uuid_s_ok) ready_state"
  using uuid_from_string_lenient [OF ready_init, of still_env] by blast

end
