(* ===== verification/CnSm.thy ===== *)
theory CnSm
  imports Prelude
begin

text \<open>
  The state machine engine of the connection protocol,
  \<^verbatim>\<open>src/freedce/ncklib/transport/cn/cnsm.c\<close>, with the event list of the control block
  (\<open>rpc_cn_sm_ctlblk_t\<close> in \<^verbatim>\<open>cnp.h\<close>, \<open>RPC_CN_SM_GET_NEXT_EVENT\<close> in \<^verbatim>\<open>cnsm.h\<close>), built
  without \<open>DEBUG\<close>.

  The engine is generic: \<open>'w\<close> is the structure the action routines work on (their
  \<open>spc_struct\<close> and everything it points to), \<open>'p\<close> the event parameter. A state table entry
  below 100 is the index of an action routine, an entry of 100 or more is the next state.
\<close>

section \<open>Results of a run\<close>

text \<open>
  \<open>Fault\<close> is an access outside an array or through a null pointer,
  \<open>Fuel\<close> a loop whose fuel is used up.
\<close>

datatype 'a cn_result = Ok 'a | Fault | Fuel

fun cn_bind :: "'a cn_result \<Rightarrow> ('a \<Rightarrow> 'b cn_result) \<Rightarrow> 'b cn_result" where
  "cn_bind (Ok x) f = f x"
| "cn_bind Fault f = Fault"
| "cn_bind Fuel f = Fuel"

lemma cn_bind_ok: "cn_bind r f = Ok y \<longleftrightarrow> (\<exists>x. r = Ok x \<and> f x = Ok y)"
  by (cases r) auto

section \<open>The control block\<close>

record 'p sm_event_entry =
  event_id :: u8
  event_param :: 'p

record 'p sm_ctlblk =
  state_tbl :: "u8 list list"
  cur_state :: u8
  cur_event :: u8
  action_status :: u32
  event_list_hindex :: u8
  event_list_tindex :: u8
  event_list_state :: u8
  event_list :: "'p sm_event_entry list"
  tbl_id :: u32

type_synonym ('p, 'w) sm_action = "'p \<Rightarrow> 'p sm_ctlblk \<Rightarrow> 'w \<Rightarrow> (u32 \<times> 'p sm_ctlblk \<times> 'w) cn_result"

abbreviation (input) RPC_C_CN_STATEBASE :: u8 where "RPC_C_CN_STATEBASE \<equiv> 100"
abbreviation (input) RPC_C_SM_CLOSED_STATE :: u8 where "RPC_C_SM_CLOSED_STATE \<equiv> 100"
abbreviation (input) RPC_C_CN_SM_EVENT_LIST_EMPTY :: u8 where "RPC_C_CN_SM_EVENT_LIST_EMPTY \<equiv> 0"
abbreviation (input) rpc_s_ok :: u32 where "rpc_s_ok \<equiv> 0"

definition rpc__cn_sm_init_event_list :: "'p sm_ctlblk \<Rightarrow> 'p sm_ctlblk" where
  "rpc__cn_sm_init_event_list sm =
     sm\<lparr>event_list_state := RPC_C_CN_SM_EVENT_LIST_EMPTY,
        event_list_hindex := 0, event_list_tindex := 0\<rparr>"

definition rpc__cn_sm_init :: "u8 list list \<Rightarrow> 'p sm_ctlblk \<Rightarrow> u32 \<Rightarrow> 'p sm_ctlblk" where
  "rpc__cn_sm_init tbl sm tid =
     rpc__cn_sm_init_event_list (sm\<lparr>state_tbl := tbl, cur_state := RPC_C_SM_CLOSED_STATE, tbl_id := tid\<rparr>)"

definition rpc__cn_sm_insert_event :: "'p sm_event_entry \<Rightarrow> 'p sm_ctlblk \<Rightarrow> 'p sm_ctlblk" where
  "rpc__cn_sm_insert_event ev sm =
     sm\<lparr>event_list := (event_list sm)[unat (event_list_tindex sm) := ev],
        event_list_tindex := (event_list_tindex sm + 1) AND (2 - 1),
        event_list_state := NOT RPC_C_CN_SM_EVENT_LIST_EMPTY\<rparr>"

definition RPC_CN_SM_GET_NEXT_EVENT :: "'p sm_ctlblk \<Rightarrow> 'p sm_event_entry option \<times> 'p sm_ctlblk" where
  "RPC_CN_SM_GET_NEXT_EVENT sm =
     (if event_list_state sm = RPC_C_CN_SM_EVENT_LIST_EMPTY then (None, sm)
      else let ev = event_list sm ! unat (event_list_hindex sm);
               h = (event_list_hindex sm + 1) AND (2 - 1);
               sm = sm\<lparr>event_list_hindex := h\<rparr>;
               sm = (if h = event_list_tindex sm
                     then sm\<lparr>event_list_state := RPC_C_CN_SM_EVENT_LIST_EMPTY\<rparr> else sm)
           in (Some ev, sm))"

section \<open>Evaluating an event\<close>

definition sm_lookup :: "'p sm_ctlblk \<Rightarrow> u8 \<Rightarrow> u8 cn_result" where
  "sm_lookup sm ev =
     (if cur_state sm < RPC_C_CN_STATEBASE \<or> ev < RPC_C_CN_STATEBASE then Fault
      else let i = unat (cur_state sm - RPC_C_CN_STATEBASE); j = unat (ev - RPC_C_CN_STATEBASE)
           in if i < length (state_tbl sm) \<and> j < length (state_tbl sm ! i)
              then Ok (state_tbl sm ! i ! j) else Fault)"

text \<open>One turn of the loop: look the event up, change state or run the action.\<close>

definition sm_turn ::
  "('p, 'w) sm_action list \<Rightarrow> 'p sm_event_entry \<Rightarrow> 'p sm_ctlblk \<Rightarrow> 'w \<Rightarrow> ('p sm_ctlblk \<times> 'w) cn_result"
where
  "sm_turn acts ev sm w =
     cn_bind (sm_lookup sm (event_id ev)) (\<lambda>a.
       if a \<ge> RPC_C_CN_STATEBASE then Ok (sm\<lparr>cur_state := a\<rparr>, w)
       else if unat a < length acts then
         cn_bind ((acts ! unat a) (event_param ev) (sm\<lparr>cur_event := event_id ev\<rparr>) w)
           (\<lambda>(st, sm, w). Ok (sm\<lparr>action_status := st\<rparr>, w))
       else Fault)"

fun sm_loop ::
  "nat \<Rightarrow> ('p, 'w) sm_action list \<Rightarrow> 'p sm_event_entry \<Rightarrow> 'p sm_ctlblk \<Rightarrow> 'w \<Rightarrow> ('p sm_ctlblk \<times> 'w) cn_result"
where
  "sm_loop 0 acts ev sm w = Fuel"
| "sm_loop (Suc fuel) acts ev sm w =
     cn_bind (sm_turn acts ev sm w) (\<lambda>(sm, w).
       case RPC_CN_SM_GET_NEXT_EVENT sm of
         (None, sm) \<Rightarrow> Ok (sm, w)
       | (Some ev, sm) \<Rightarrow> sm_loop fuel acts ev sm w)"

definition rpc__cn_sm_eval_event ::
  "nat \<Rightarrow> ('p, 'w) sm_action list \<Rightarrow> u32 \<Rightarrow> 'p \<Rightarrow> 'p sm_ctlblk \<Rightarrow> 'w \<Rightarrow> (u32 \<times> 'p sm_ctlblk \<times> 'w) cn_result"
where
  "rpc__cn_sm_eval_event fuel acts evid param sm w =
     cn_bind (sm_loop fuel acts \<lparr>event_id = ucast evid, event_param = param\<rparr>
                (sm\<lparr>action_status := rpc_s_ok\<rparr>) w)
       (\<lambda>(sm, w). Ok (action_status sm, sm, w))"

section \<open>The event list is a queue of two events\<close>

text \<open>
  The interface of a bounded queue, for any provider: \<open>ins\<close> appends while there is room and
  \<open>get\<close> takes from the front.
\<close>

locale bounded_queue =
  fixes ins :: "'e \<Rightarrow> 'q \<Rightarrow> 'q" and get :: "'q \<Rightarrow> 'e option \<times> 'q"
    and cont :: "'q \<Rightarrow> 'e list" and ok :: "'q \<Rightarrow> bool" and cap :: nat
  assumes ins_ok: "ok q \<Longrightarrow> ok (ins e q)"
    and ins_cont: "ok q \<Longrightarrow> length (cont q) < cap \<Longrightarrow> cont (ins e q) = cont q @ [e]"
    and get_ok: "ok q \<Longrightarrow> ok (snd (get q))"
    and get_none: "ok q \<Longrightarrow> cont q = [] \<Longrightarrow> get q = (None, q)"
    and get_some: "ok q \<Longrightarrow> cont q = e # es \<Longrightarrow> fst (get q) = Some e \<and> cont (snd (get q)) = es"
begin

primrec drain :: "nat \<Rightarrow> 'q \<Rightarrow> 'e list" where
  "drain 0 q = []"
| "drain (Suc n) q = (case get q of (None, q') \<Rightarrow> [] | (Some e, q') \<Rightarrow> e # drain n q')"

lemma fold_ins:
  "ok q \<Longrightarrow> length (cont q) + length es \<le> cap \<Longrightarrow>
   ok (fold ins es q) \<and> cont (fold ins es q) = cont q @ es"
  by (induction es arbitrary: q) (simp_all add: ins_ok ins_cont)

lemma drain_cont: "ok q \<Longrightarrow> length (cont q) \<le> n \<Longrightarrow> drain n q = cont q"
proof (induction n arbitrary: q)
  case (Suc n)
  show ?case
  proof (cases "cont q")
    case (Cons e es)
    with get_some [OF Suc.prems(1) Cons] Suc.IH [OF get_ok [OF Suc.prems(1)]] Suc.prems(2)
    show ?thesis by (cases "get q") auto
  qed (use Suc.prems in \<open>simp add: get_none\<close>)
qed simp

lemma fifo: "ok q \<Longrightarrow> cont q = [] \<Longrightarrow> length es \<le> cap \<Longrightarrow> drain (length es) (fold ins es q) = es"
  using fold_ins [of q es] drain_cont by simp

end

definition sm_events_ok :: "'p sm_ctlblk \<Rightarrow> bool" where
  "sm_events_ok sm \<longleftrightarrow> length (event_list sm) = 2 \<and> event_list_hindex sm \<in> {0, 1} \<and>
     event_list_tindex sm \<in> {0, 1} \<and>
     (event_list_state sm = 0 \<longrightarrow> event_list_hindex sm = event_list_tindex sm)"

definition sm_events :: "'p sm_ctlblk \<Rightarrow> 'p sm_event_entry list" where
  "sm_events sm =
     (let h = unat (event_list_hindex sm) in
      if event_list_state sm = 0 then []
      else if event_list_hindex sm = event_list_tindex sm
           then [event_list sm ! h, event_list sm ! (1 - h)]
           else [event_list sm ! h])"

interpretation smq: bounded_queue rpc__cn_sm_insert_event RPC_CN_SM_GET_NEXT_EVENT sm_events sm_events_ok 2
proof
  fix q :: "'p sm_ctlblk" and e
  assume ok: "sm_events_ok q"
  then show "sm_events_ok (rpc__cn_sm_insert_event e q)"
    by (auto simp: sm_events_ok_def rpc__cn_sm_insert_event_def)
  show "length (sm_events q) < 2 \<Longrightarrow> sm_events (rpc__cn_sm_insert_event e q) = sm_events q @ [e]"
    using ok by (auto simp: sm_events_ok_def sm_events_def rpc__cn_sm_insert_event_def split: if_splits)
  show "sm_events_ok (snd (RPC_CN_SM_GET_NEXT_EVENT q))"
    using ok by (auto simp: sm_events_ok_def RPC_CN_SM_GET_NEXT_EVENT_def Let_def)
  show "sm_events q = [] \<Longrightarrow> RPC_CN_SM_GET_NEXT_EVENT q = (None, q)"
    by (auto simp: sm_events_def RPC_CN_SM_GET_NEXT_EVENT_def Let_def split: if_splits)
  fix es
  show "sm_events q = e # es \<Longrightarrow> fst (RPC_CN_SM_GET_NEXT_EVENT q) = Some e \<and>
      sm_events (snd (RPC_CN_SM_GET_NEXT_EVENT q)) = es"
    using ok by (auto simp: sm_events_ok_def sm_events_def RPC_CN_SM_GET_NEXT_EVENT_def Let_def split: if_splits)
qed

definition zero_ctlblk :: "nat sm_ctlblk" where
  "zero_ctlblk = \<lparr>state_tbl = [], cur_state = 0, cur_event = 0, action_status = 0,
     event_list_hindex = 0, event_list_tindex = 0, event_list_state = 0,
     event_list = [\<lparr>event_id = 0, event_param = 0\<rparr>, \<lparr>event_id = 0, event_param = 0\<rparr>], tbl_id = 0\<rparr>"

text \<open>
  The event list of a control block is a queue of two: after initialisation, two inserted
  events come out in their order, and then none.
\<close>

theorem sm_event_list_fifo:
  assumes "length (event_list sm) = 2"
  shows "let q0 = rpc__cn_sm_init tbl sm tid;
             q = rpc__cn_sm_insert_event e2 (rpc__cn_sm_insert_event e1 q0);
             (r1, q1) = RPC_CN_SM_GET_NEXT_EVENT q; (r2, q2) = RPC_CN_SM_GET_NEXT_EVENT q1;
             (r3, q3) = RPC_CN_SM_GET_NEXT_EVENT q2
         in r1 = Some e1 \<and> r2 = Some e2 \<and> r3 = None"
proof -
  let ?q0 = "rpc__cn_sm_init tbl sm tid"
  have ok: "sm_events_ok ?q0" "sm_events ?q0 = []"
    using assms by (simp_all add: sm_events_ok_def sm_events_def rpc__cn_sm_init_def rpc__cn_sm_init_event_list_def)
  define q where "q = rpc__cn_sm_insert_event e2 (rpc__cn_sm_insert_event e1 ?q0)"
  from smq.fold_ins [OF ok(1), of "[e1, e2]"] ok(2) have q: "sm_events_ok q" "sm_events q = [e1, e2]"
    by (simp_all add: q_def)
  obtain r1 q1 where 1: "RPC_CN_SM_GET_NEXT_EVENT q = (r1, q1)" by fastforce
  obtain r2 q2 where 2: "RPC_CN_SM_GET_NEXT_EVENT q1 = (r2, q2)" by fastforce
  obtain r3 q3 where 3: "RPC_CN_SM_GET_NEXT_EVENT q2 = (r3, q3)" by fastforce
  have s1: "r1 = Some e1" "sm_events q1 = [e2]" "sm_events_ok q1"
    using smq.get_some [OF q] smq.get_ok [OF q(1)] 1 by simp_all
  have s2: "r2 = Some e2" "sm_events q2 = []" "sm_events_ok q2"
    using smq.get_some [OF s1(3,2)] smq.get_ok [OF s1(3)] 2 by simp_all
  have "r3 = None" using smq.get_none [OF s2(3,2)] 3 by simp
  with s1 s2 show ?thesis by (simp add: q_def [symmetric] 1 2 3)
qed

theorem sm_event_list_fifo_witness:
  "let q = rpc__cn_sm_insert_event \<lparr>event_id = 102, event_param = 2\<rparr>
             (rpc__cn_sm_insert_event \<lparr>event_id = 101, event_param = 1\<rparr> (rpc__cn_sm_init [] zero_ctlblk 5));
       (r1, q1) = RPC_CN_SM_GET_NEXT_EVENT q; (r2, q2) = RPC_CN_SM_GET_NEXT_EVENT q1;
       (r3, q3) = RPC_CN_SM_GET_NEXT_EVENT q2
   in r1 = Some \<lparr>event_id = 101, event_param = 1\<rparr> \<and> r2 = Some \<lparr>event_id = 102, event_param = 2\<rparr> \<and> r3 = None"
  using sm_event_list_fifo [of zero_ctlblk] by (simp add: zero_ctlblk_def Let_def)

text \<open>
  Without \<open>DEBUG\<close> a third event is not refused: it overwrites the first, the list then
  holds that event alone, and both earlier events are lost.
\<close>

theorem sm_event_list_overflow:
  assumes "length (event_list sm) = 2"
  shows "let q0 = rpc__cn_sm_init tbl sm tid;
             q = rpc__cn_sm_insert_event e3 (rpc__cn_sm_insert_event e2 (rpc__cn_sm_insert_event e1 q0));
             (r1, q1) = RPC_CN_SM_GET_NEXT_EVENT q
         in r1 = Some e3 \<and> fst (RPC_CN_SM_GET_NEXT_EVENT q1) = None"
  using assms
  by (simp add: rpc__cn_sm_init_def rpc__cn_sm_init_event_list_def rpc__cn_sm_insert_event_def
      RPC_CN_SM_GET_NEXT_EVENT_def Let_def)

theorem sm_event_list_overflow_witness:
  "let q = rpc__cn_sm_insert_event \<lparr>event_id = 103, event_param = 3\<rparr>
             (rpc__cn_sm_insert_event \<lparr>event_id = 102, event_param = 2\<rparr>
             (rpc__cn_sm_insert_event \<lparr>event_id = 101, event_param = 1\<rparr> (rpc__cn_sm_init [] zero_ctlblk 5)))
   in fst (RPC_CN_SM_GET_NEXT_EVENT q) = Some \<lparr>event_id = 103, event_param = 3\<rparr>"
  using sm_event_list_overflow [of zero_ctlblk "[]" 5 "\<lparr>event_id = 103, event_param = 3\<rparr>"
      "\<lparr>event_id = 102, event_param = 2\<rparr>" "\<lparr>event_id = 101, event_param = 1\<rparr>"]
  by (simp add: zero_ctlblk_def Let_def split: prod.splits)

end
