(* ===== verification/CnGrp.thy ===== *)
theory CnGrp
  imports CnSm
begin

text \<open>
  Association groups of the connection protocol: the group state machines of
  \<^verbatim>\<open>cncasgsm.c\<close> (client) and \<^verbatim>\<open>cnsasgsm.c\<close> (server), the local identifiers of
  \<^verbatim>\<open>cnid.c\<close> and the group table routines of \<^verbatim>\<open>cnassoc.c\<close> (all under
  \<^verbatim>\<open>src/freedce/ncklib/transport/cn\<close>).

  The group table is a list, NULL being the empty one; an index outside it is a \<open>Fault\<close>.
  Associations are known by an address (\<open>nat\<close>); of an association only \<open>assoc_grp_id\<close> is
  read or written here. The list \<open>grp_assoc_list\<close> is the list of those addresses in order
  (\<open>RPC_LIST_ADD_HEAD\<close> puts in front, \<open>RPC_LIST_REMOVE\<close> unlinks). RPC addresses are values of
  a type \<open>'a\<close>; the address family routines are arguments.
\<close>

section \<open>Local identifiers\<close>

record local_id =
  id_seqnum :: u16
  id_index :: u16

definition RPC_CN_LOCAL_ID_VALID :: "local_id \<Rightarrow> bool" where
  "RPC_CN_LOCAL_ID_VALID i \<longleftrightarrow> id_seqnum i \<noteq> 0"

definition RPC_CN_LOCAL_ID_EQUAL :: "local_id \<Rightarrow> local_id \<Rightarrow> bool" where
  "RPC_CN_LOCAL_ID_EQUAL a b \<longleftrightarrow> id_seqnum a = id_seqnum b \<and> id_index a = id_index b"

definition clear_local_id :: local_id where
  "clear_local_id = \<lparr>id_seqnum = 0, id_index = 0\<rparr>"

section \<open>Groups and the group table\<close>

record 'a assoc_grp =
  grp_state :: "nat sm_ctlblk"
  grp_status :: u32
  grp_flags :: u16
  grp_refcnt :: u16
  grp_address :: "'a option"
  grp_secaddr :: "'a option"
  grp_id :: local_id
  grp_max_assoc :: u16
  grp_cur_assoc :: u16
  grp_assoc_waiters :: u16
  grp_assoc_list :: "nat list"
  grp_callcnt :: u16
  grp_liveness_mntr :: "nat option"
  grp_remid :: u32
  grp_next_key_id :: u32

record 'a assoc_grp_tbl =
  grp_count :: u16
  grp_active_count :: u16
  assoc_grp_vector :: "'a assoc_grp list"
  seqnum :: u16
  assoc_grp_ids :: "nat \<Rightarrow> local_id"
  rundowns :: "(nat \<times> local_id) list"
  illegal :: "(u8 \<times> u8) list"

abbreviation (input) RPC_C_CN_ASSOC_GRP_CLIENT :: u16 where "RPC_C_CN_ASSOC_GRP_CLIENT \<equiv> 1"
abbreviation (input) RPC_C_CN_ASSOC_GRP_SERVER :: u16 where "RPC_C_CN_ASSOC_GRP_SERVER \<equiv> 2"
abbreviation (input) RPC_C_ASSOC_GRP_NEW :: u32 where "RPC_C_ASSOC_GRP_NEW \<equiv> 100"
abbreviation (input) RPC_C_ASSOC_GRP_ADD_ASSOC :: u32 where "RPC_C_ASSOC_GRP_ADD_ASSOC \<equiv> 101"
abbreviation (input) RPC_C_ASSOC_GRP_REM_ASSOC :: u32 where "RPC_C_ASSOC_GRP_REM_ASSOC \<equiv> 102"
abbreviation (input) RPC_C_ASSOC_GRP_NO_CALLS_IND :: u32 where "RPC_C_ASSOC_GRP_NO_CALLS_IND \<equiv> 103"
abbreviation (input) RPC_C_ASSOC_GRP_CLOSED :: u8 where "RPC_C_ASSOC_GRP_CLOSED \<equiv> 100"
abbreviation (input) RPC_C_ASSOC_GRP_OPEN :: u8 where "RPC_C_ASSOC_GRP_OPEN \<equiv> 101"
abbreviation (input) RPC_C_ASSOC_GRP_ACTIVE :: u8 where "RPC_C_ASSOC_GRP_ACTIVE \<equiv> 102"
abbreviation (input) RPC_C_SERVER_ASSOC_GRP_CALL_WAIT :: u8 where "RPC_C_SERVER_ASSOC_GRP_CALL_WAIT \<equiv> 103"
abbreviation (input) rpc_s_assoc_grp_not_found :: u32 where "rpc_s_assoc_grp_not_found \<equiv> 0x16c9a038"

abbreviation (input) rpc_s_unknown_error :: u32 where "rpc_s_unknown_error \<equiv> 0x16c9a0da"

text \<open>What an action routine works on: the group, and the rest of the table's world.\<close>

record 'a grp_world =
  gw_grp :: "'a assoc_grp"
  gw_ids :: "nat \<Rightarrow> local_id"
  gw_rundowns :: "(nat \<times> local_id) list"
  gw_illegal :: "(u8 \<times> u8) list"

type_synonym 'a grp_action = "(nat, 'a grp_world) sm_action"

section \<open>The client group state machine\<close>

definition ASSOC_COUNT_PRED :: "'a assoc_grp \<Rightarrow> u32" where
  "ASSOC_COUNT_PRED g = (if grp_cur_assoc g = 1 then 1 else 0)"

definition client_incr_assoc_count_action_rtn :: "'a grp_action" where
  "client_incr_assoc_count_action_rtn assoc sm w =
     (let g = gw_grp w;
          g = g\<lparr>grp_cur_assoc := grp_cur_assoc g + 1, grp_assoc_list := assoc # grp_assoc_list g\<rparr>
      in Ok (grp_status g, sm\<lparr>cur_state := RPC_C_ASSOC_GRP_ACTIVE\<rparr>, w\<lparr>gw_grp := g\<rparr>))"

definition client_decr_assoc_count_action_rtn :: "'a grp_action" where
  "client_decr_assoc_count_action_rtn assoc sm w =
     (let g = gw_grp w;
          status = ASSOC_COUNT_PRED g;
          sm = (if status = 1 then sm\<lparr>cur_state := RPC_C_ASSOC_GRP_CLOSED\<rparr>
                else sm\<lparr>cur_state := RPC_C_ASSOC_GRP_ACTIVE\<rparr>);
          w = w\<lparr>gw_ids := (gw_ids w)(assoc := clear_local_id)\<rparr>;
          g = g\<lparr>grp_cur_assoc := grp_cur_assoc g - 1,
                grp_assoc_list := remove1 assoc (grp_assoc_list g)\<rparr>
      in Ok (grp_status g, sm, w\<lparr>gw_grp := g\<rparr>))"

text \<open>
  Without \<open>PD_BUILD\<close>, which nothing in the repository defines, \<open>RPC_DCE_SVC_PRINTF\<close> is empty: the
  fatal message and its abort are compiled away, and an illegal transition only returns 0 with
  the state as it was.  The model records the message the call would print.
\<close>

definition rpc__cn_grp_sm_protocol_error :: "'a grp_action" where
  "rpc__cn_grp_sm_protocol_error assoc sm w =
     Ok (0, sm, w\<lparr>gw_illegal := gw_illegal w @ [(cur_state sm, cur_event sm)]\<rparr>)"

definition rpc_g_cn_client_grp_action_tbl :: "'a grp_action list" where
  "rpc_g_cn_client_grp_action_tbl =
     [client_incr_assoc_count_action_rtn, client_decr_assoc_count_action_rtn,
      rpc__cn_grp_sm_protocol_error]"

text \<open>Rows: closed, open, active. Columns: new, add_assoc, rem_assoc. 2 is \<open>PROTOCOL_ERROR\<close>.\<close>

definition rpc_g_cn_client_grp_sm :: "u8 list list" where
  "rpc_g_cn_client_grp_sm =
     [[RPC_C_ASSOC_GRP_OPEN, 2, 2],
      [2, 0, 2],
      [2, 0, 1]]"

section \<open>The server group state machine\<close>

definition server_refs_pred_rtn :: "'a assoc_grp \<Rightarrow> u8" where
  "server_refs_pred_rtn g = (if grp_refcnt g = 0 then 0 else 1)"

definition SERVER_REFS_PRED :: "'a assoc_grp \<Rightarrow> u32" where
  "SERVER_REFS_PRED g = (if grp_refcnt g = 0 then 0 else 1)"

definition server_assoc_count_pred_rtn :: "'a assoc_grp \<Rightarrow> u8" where
  "server_assoc_count_pred_rtn g =
     (if grp_cur_assoc g = 1 then if server_refs_pred_rtn g \<noteq> 0 then 2 else 1 else 0)"

definition SERVER_ASSOC_COUNT_PRED :: "'a assoc_grp \<Rightarrow> u32" where
  "SERVER_ASSOC_COUNT_PRED g =
     (if grp_cur_assoc g = 1
      then let status = SERVER_REFS_PRED g;
               status = (if status = 0 then 1 else status);
               status = (if status = 1 then 2 else status)
           in status
      else 0)"

definition create_group_id_action_rtn :: "'a grp_action" where
  "create_group_id_action_rtn assoc sm w =
     Ok (grp_status (gw_grp w), sm\<lparr>cur_state := RPC_C_ASSOC_GRP_OPEN\<rparr>, w)"

definition server_incr_assoc_count_action_rtn :: "'a grp_action" where
  "server_incr_assoc_count_action_rtn assoc sm w =
     (let g = gw_grp w;
          g = g\<lparr>grp_cur_assoc := grp_cur_assoc g + 1, grp_assoc_list := assoc # grp_assoc_list g\<rparr>
      in Ok (grp_status g, sm\<lparr>cur_state := RPC_C_ASSOC_GRP_ACTIVE\<rparr>, w\<lparr>gw_grp := g\<rparr>))"

definition server_decr_assoc_count_action_rtn :: "'a grp_action" where
  "server_decr_assoc_count_action_rtn assoc sm w =
     (let g = gw_grp w;
          status = SERVER_ASSOC_COUNT_PRED g;
          sm = (if status = 2 then sm\<lparr>cur_state := RPC_C_SERVER_ASSOC_GRP_CALL_WAIT\<rparr>
                else if status = 1 then sm\<lparr>cur_state := RPC_C_ASSOC_GRP_CLOSED\<rparr>
                else if status = 0 then sm\<lparr>cur_state := RPC_C_ASSOC_GRP_ACTIVE\<rparr>
                else sm);
          w = (if cur_state sm \<noteq> RPC_C_SERVER_ASSOC_GRP_CALL_WAIT
               then w\<lparr>gw_ids := (gw_ids w)(assoc := clear_local_id)\<rparr> else w);
          g = g\<lparr>grp_cur_assoc := grp_cur_assoc g - 1,
                grp_assoc_list := remove1 assoc (grp_assoc_list g)\<rparr>
      in Ok (grp_status g, sm, w\<lparr>gw_grp := g\<rparr>))"

text \<open>A NULL \<open>grp_liveness_mntr\<close> is called without a check.\<close>

definition rundown_handles_action_rtn :: "'a grp_action" where
  "rundown_handles_action_rtn assoc sm w =
     (let w = w\<lparr>gw_ids := (gw_ids w)(assoc := clear_local_id)\<rparr>;
          g = gw_grp w;
          status = SERVER_REFS_PRED g
      in if status = 0 then Ok (status, sm\<lparr>cur_state := RPC_C_ASSOC_GRP_CLOSED\<rparr>, w)
         else case grp_liveness_mntr g of
             None \<Rightarrow> Fault
           | Some f \<Rightarrow> Ok (grp_status g, sm\<lparr>cur_state := RPC_C_ASSOC_GRP_CLOSED\<rparr>,
                          w\<lparr>gw_rundowns := gw_rundowns w @ [(f, grp_id g)]\<rparr>))"

definition rpc_g_cn_server_grp_action_tbl :: "'a grp_action list" where
  "rpc_g_cn_server_grp_action_tbl =
     [create_group_id_action_rtn, server_incr_assoc_count_action_rtn,
      server_decr_assoc_count_action_rtn, rundown_handles_action_rtn,
      rpc__cn_grp_sm_protocol_error]"

text \<open>
  Rows: closed, open, active, call_wait. Columns: new, add_assoc, rem_assoc, no_calls_ind.
  4 is \<open>PROTOCOL_ERROR\<close>.
\<close>

definition rpc_g_cn_server_grp_sm :: "u8 list list" where
  "rpc_g_cn_server_grp_sm =
     [[0, 4, 4, 4],
      [4, 1, 4, 4],
      [4, 1, 2, 4],
      [4, 4, 4, 3]]"

section \<open>Identifiers and the initial table\<close>

definition rpc__cn_init_seqnum :: "u32 \<Rightarrow> 'a assoc_grp_tbl \<Rightarrow> 'a assoc_grp_tbl" where
  "rpc__cn_init_seqnum time t = t\<lparr>seqnum := ucast (time AND 0xffff)\<rparr>"

definition rpc__cn_gen_local_id :: "u32 \<Rightarrow> 'a assoc_grp_tbl \<Rightarrow> local_id \<times> 'a assoc_grp_tbl" where
  "rpc__cn_gen_local_id index t =
     (let s = seqnum t + 1; s = (if s = 0 then 1 else s)
      in (\<lparr>id_seqnum = s, id_index = ucast index\<rparr>, t\<lparr>seqnum := s\<rparr>))"

definition rpc__cn_assoc_grp_init ::
  "u32 \<Rightarrow> 'a assoc_grp_tbl \<Rightarrow> 'a assoc_grp \<times> 'a assoc_grp_tbl" where
  "rpc__cn_assoc_grp_init index t =
     (case rpc__cn_gen_local_id index t of (i, t) \<Rightarrow>
       (\<lparr>grp_state = zero_ctlblk, grp_status = 0, grp_flags = 0, grp_refcnt = 0,
         grp_address = None, grp_secaddr = None, grp_id = i, grp_max_assoc = 0xffff,
         grp_cur_assoc = 0, grp_assoc_waiters = 0, grp_assoc_list = [], grp_callcnt = 0,
         grp_liveness_mntr = None, grp_remid = 0, grp_next_key_id = 0\<rparr>, t))"

section \<open>The group table\<close>

text \<open>
  \<open>RPC_CN_ASSOC_GRP\<close>: NULL for an invalid identifier, otherwise the address of the entry
  at its index, whatever the size of the table; reading through it is then a fault when the
  index is outside.
\<close>

definition RPC_CN_ASSOC_GRP :: "local_id \<Rightarrow> nat option" where
  "RPC_CN_ASSOC_GRP i = (if RPC_CN_LOCAL_ID_VALID i then Some (unat (id_index i)) else None)"

definition grp_at :: "nat \<Rightarrow> 'a assoc_grp_tbl \<Rightarrow> 'a assoc_grp cn_result" where
  "grp_at i t = (if i < length (assoc_grp_vector t) then Ok (assoc_grp_vector t ! i) else Fault)"

definition set_grp :: "nat \<Rightarrow> 'a assoc_grp \<Rightarrow> 'a assoc_grp_tbl \<Rightarrow> 'a assoc_grp_tbl" where
  "set_grp i g t = t\<lparr>assoc_grp_vector := (assoc_grp_vector t)[i := g]\<rparr>"

text \<open>The action table \<open>rpc__cn_sm_init\<close> stored with the table id; none before that.\<close>

definition grp_action_tbl :: "u32 \<Rightarrow> 'a grp_action list" where
  "grp_action_tbl tid =
     (if tid = 6 then rpc_g_cn_client_grp_action_tbl
      else if tid = 5 then rpc_g_cn_server_grp_action_tbl else [])"

definition rpc__cn_assoc_grp_dealloc :: "local_id \<Rightarrow> 'a assoc_grp_tbl \<Rightarrow> 'a assoc_grp_tbl cn_result" where
  "rpc__cn_assoc_grp_dealloc gid t =
     (case RPC_CN_ASSOC_GRP gid of
        None \<Rightarrow> Fault
      | Some i \<Rightarrow> cn_bind (grp_at i t) (\<lambda>g.
          let g = g\<lparr>grp_remid := 0, grp_flags := 0, grp_address := None, grp_secaddr := None,
                    grp_refcnt := 0, grp_max_assoc := 0xffff, grp_cur_assoc := 0,
                    grp_assoc_waiters := 0, grp_status := rpc_s_ok, grp_next_key_id := 0,
                    grp_assoc_list := [], grp_liveness_mntr := None, grp_callcnt := 0\<rparr>
          in case rpc__cn_gen_local_id (ucast (id_index (grp_id g))) t of (j, t) \<Rightarrow>
             Ok ((set_grp i (g\<lparr>grp_id := j\<rparr>) t)\<lparr>grp_active_count := grp_active_count t - 1\<rparr>)))"

text \<open>
  \<open>RPC_CN_ASSOC_GRP_EVAL_EVENT\<close> with the group's own \<open>grp_status\<close> as the status: the event
  list holds two events, so three turns of the engine are enough.
\<close>

definition RPC_CN_ASSOC_GRP_EVAL_EVENT ::
  "nat \<Rightarrow> u32 \<Rightarrow> nat \<Rightarrow> 'a assoc_grp_tbl \<Rightarrow> 'a assoc_grp_tbl cn_result" where
  "RPC_CN_ASSOC_GRP_EVAL_EVENT i evid param t =
     cn_bind (grp_at i t) (\<lambda>g.
     cn_bind (rpc__cn_sm_eval_event 3 (grp_action_tbl (tbl_id (grp_state g))) evid param (grp_state g)
               \<lparr>gw_grp = g, gw_ids = assoc_grp_ids t, gw_rundowns = rundowns t, gw_illegal = illegal t\<rparr>)
       (\<lambda>(st, sm, w).
          let g = (gw_grp w)\<lparr>grp_state := sm, grp_status := st\<rparr>;
              t = (set_grp i g t)\<lparr>assoc_grp_ids := gw_ids w, rundowns := gw_rundowns w, illegal := gw_illegal w\<rparr>
          in if cur_state sm = RPC_C_ASSOC_GRP_CLOSED
             then rpc__cn_assoc_grp_dealloc (grp_id g) t else Ok t))"

fun grp_init_from :: "nat \<Rightarrow> nat \<Rightarrow> 'a assoc_grp_tbl \<Rightarrow> 'a assoc_grp list \<times> 'a assoc_grp_tbl" where
  "grp_init_from i 0 t = ([], t)"
| "grp_init_from i (Suc n) t =
     (case rpc__cn_assoc_grp_init (of_nat i) t of (g, t) \<Rightarrow>
      case grp_init_from (Suc i) n t of (gs, t) \<Rightarrow> (g # gs, t))"

text \<open>
  When the 16-bit count wraps around, the copy of the old table runs past the new one.
\<close>

definition rpc__cn_assoc_grp_create :: "'a assoc_grp_tbl \<Rightarrow> (local_id \<times> 'a assoc_grp_tbl) cn_result" where
  "rpc__cn_assoc_grp_create t =
     (let old_count = grp_count t; new_count = old_count + 10
      in if unat new_count < unat old_count then Fault
         else case grp_init_from (unat old_count) (unat new_count - unat old_count)
                     (t\<lparr>grp_count := new_count\<rparr>) of (gs, t) \<Rightarrow>
           let t = t\<lparr>assoc_grp_vector := assoc_grp_vector t @ gs\<rparr>
           in cn_bind (grp_at (unat old_count) t) (\<lambda>g. Ok (grp_id g, t)))"

definition find_closed :: "'a assoc_grp_tbl \<Rightarrow> nat option" where
  "find_closed t =
     (case filter (\<lambda>i. cur_state (grp_state (assoc_grp_vector t ! i)) = RPC_C_ASSOC_GRP_CLOSED)
             [0..<unat (grp_count t)] of
        [] \<Rightarrow> None | i # _ \<Rightarrow> Some i)"

definition rpc__cn_assoc_grp_alloc ::
  "('a \<Rightarrow> 'a option \<times> u32) \<Rightarrow> 'a option \<Rightarrow> u16 \<Rightarrow> u32 \<Rightarrow> 'a assoc_grp_tbl
     \<Rightarrow> (local_id \<times> u32 \<times> 'a assoc_grp_tbl) cn_result" where
  "rpc__cn_assoc_grp_alloc addr_copy rpc_addr type rem_id t =
     cn_bind (case find_closed t of
                Some i \<Rightarrow> Ok (i, t)
              | None \<Rightarrow> cn_bind (rpc__cn_assoc_grp_create t) (\<lambda>(gid, t).
                          case RPC_CN_ASSOC_GRP gid of None \<Rightarrow> Fault | Some i \<Rightarrow> Ok (i, t)))
       (\<lambda>(i, t).
     cn_bind (grp_at i t) (\<lambda>g.
       let (g, ast) = (case rpc_addr of
               None \<Rightarrow> (g, rpc_s_ok)
             | Some a \<Rightarrow> (case addr_copy a of (c, st) \<Rightarrow>
                 (g\<lparr>grp_address := c, grp_secaddr := None\<rparr>, st)))
       in if ast \<noteq> rpc_s_ok then Ok (clear_local_id, ast, set_grp i g t)
          else
            let g = g\<lparr>grp_flags := grp_flags g OR type, grp_remid := rem_id,
                      grp_state := (if type = RPC_C_CN_ASSOC_GRP_CLIENT
                         then rpc__cn_sm_init rpc_g_cn_client_grp_sm (grp_state g) 6
                         else rpc__cn_sm_init rpc_g_cn_server_grp_sm (grp_state g) 5)\<rparr>
            in cn_bind (RPC_CN_ASSOC_GRP_EVAL_EVENT i RPC_C_ASSOC_GRP_NEW 0 (set_grp i g t)) (\<lambda>t.
               let t = t\<lparr>grp_active_count := grp_active_count t + 1\<rparr>
               in cn_bind (grp_at i t) (\<lambda>g. Ok (grp_id g, grp_status g, t)))))"

definition rpc__cn_assoc_grp_add_assoc ::
  "local_id \<Rightarrow> nat \<Rightarrow> 'a assoc_grp_tbl \<Rightarrow> 'a assoc_grp_tbl cn_result" where
  "rpc__cn_assoc_grp_add_assoc gid assoc t =
     (case RPC_CN_ASSOC_GRP gid of
        None \<Rightarrow> Fault
      | Some i \<Rightarrow> RPC_CN_ASSOC_GRP_EVAL_EVENT i RPC_C_ASSOC_GRP_ADD_ASSOC assoc t)"

text \<open>The no calls indication both callers post.\<close>

definition grp_no_calls_check ::
  "nat \<Rightarrow> nat \<Rightarrow> 'a assoc_grp_tbl \<Rightarrow> 'a assoc_grp_tbl cn_result" where
  "grp_no_calls_check i assoc t =
     cn_bind (grp_at i t) (\<lambda>g.
       if grp_flags g AND RPC_C_CN_ASSOC_GRP_SERVER \<noteq> 0 \<and> grp_callcnt g = 0 \<and>
          cur_state (grp_state g) = RPC_C_SERVER_ASSOC_GRP_CALL_WAIT
       then RPC_CN_ASSOC_GRP_EVAL_EVENT i RPC_C_ASSOC_GRP_NO_CALLS_IND assoc t
       else Ok t)"

definition rpc__cn_assoc_grp_rem_assoc ::
  "local_id \<Rightarrow> nat \<Rightarrow> 'a assoc_grp_tbl \<Rightarrow> 'a assoc_grp_tbl cn_result" where
  "rpc__cn_assoc_grp_rem_assoc gid assoc t =
     (case RPC_CN_ASSOC_GRP gid of
        None \<Rightarrow> Ok t
      | Some i \<Rightarrow>
          cn_bind (RPC_CN_ASSOC_GRP_EVAL_EVENT i RPC_C_ASSOC_GRP_REM_ASSOC assoc t)
            (grp_no_calls_check i assoc))"

text \<open>The group part of \<open>rpc__cn_assoc_push_call\<close> and \<open>rpc__cn_assoc_pop_call\<close>.\<close>

definition grp_push_call :: "nat \<Rightarrow> 'a assoc_grp_tbl \<Rightarrow> (u32 \<times> 'a assoc_grp_tbl) cn_result" where
  "grp_push_call assoc t =
     (case RPC_CN_ASSOC_GRP (assoc_grp_ids t assoc) of
        None \<Rightarrow> Ok (rpc_s_unknown_error, t)
      | Some i \<Rightarrow> cn_bind (grp_at i t) (\<lambda>g.
          Ok (rpc_s_ok, set_grp i (g\<lparr>grp_callcnt := grp_callcnt g + 1\<rparr>) t)))"

definition grp_pop_call :: "nat \<Rightarrow> 'a assoc_grp_tbl \<Rightarrow> 'a assoc_grp_tbl cn_result" where
  "grp_pop_call assoc t =
     (case RPC_CN_ASSOC_GRP (assoc_grp_ids t assoc) of
        None \<Rightarrow> Ok t
      | Some i \<Rightarrow> cn_bind (grp_at i t) (\<lambda>g.
          grp_no_calls_check i assoc (set_grp i (g\<lparr>grp_callcnt := grp_callcnt g - 1\<rparr>) t)))"

section \<open>Lookups\<close>

definition grp_matches :: "u16 \<Rightarrow> 'a assoc_grp \<Rightarrow> bool" where
  "grp_matches type g \<longleftrightarrow> grp_flags g AND type \<noteq> 0 \<and> cur_state (grp_state g) = RPC_C_ASSOC_GRP_ACTIVE"

text \<open>The scan both table searches make, with the test on the address or the remote id.\<close>

fun grp_scan :: "('a assoc_grp \<Rightarrow> bool) \<Rightarrow> u16 \<Rightarrow> 'a assoc_grp list \<Rightarrow> local_id option" where
  "grp_scan test type [] = None"
| "grp_scan test type (g # gs) =
     (if grp_matches type g \<and> test g then Some (grp_id g) else grp_scan test type gs)"

definition rpc__cn_assoc_grp_lkup_by_addr ::
  "('a \<Rightarrow> 'a option \<Rightarrow> bool) \<Rightarrow> 'a option \<Rightarrow> u16 \<Rightarrow> 'a assoc_grp_tbl \<Rightarrow> local_id \<times> u32" where
  "rpc__cn_assoc_grp_lkup_by_addr addr_eq rpc_addr type t =
     (case rpc_addr of
        None \<Rightarrow> (clear_local_id, rpc_s_assoc_grp_not_found)
      | Some a \<Rightarrow>
          (case grp_scan (\<lambda>g. addr_eq a (grp_address g)) type (take (unat (grp_count t)) (assoc_grp_vector t)) of
             Some i \<Rightarrow> (i, rpc_s_ok)
           | None \<Rightarrow> (clear_local_id, rpc_s_assoc_grp_not_found)))"

definition rpc__cn_assoc_grp_lkup_by_remid ::
  "('a option \<Rightarrow> 'a option \<Rightarrow> bool) \<Rightarrow> u32 \<Rightarrow> u16 \<Rightarrow> 'a option \<Rightarrow> 'a assoc_grp_tbl \<Rightarrow> local_id \<times> u32" where
  "rpc__cn_assoc_grp_lkup_by_remid addr_eq rem_id type rpc_addr t =
     (case grp_scan (\<lambda>g. grp_remid g = rem_id \<and> addr_eq rpc_addr (grp_address g)) type
             (take (unat (grp_count t)) (assoc_grp_vector t)) of
        Some i \<Rightarrow> (i, rpc_s_ok)
      | None \<Rightarrow> (clear_local_id, rpc_s_assoc_grp_not_found))"

definition rpc__cn_assoc_grp_lkup_by_id ::
  "local_id \<Rightarrow> u16 \<Rightarrow> 'a assoc_grp_tbl \<Rightarrow> (local_id \<times> u32) cn_result" where
  "rpc__cn_assoc_grp_lkup_by_id gid type t =
     (case RPC_CN_ASSOC_GRP gid of
        None \<Rightarrow> Ok (clear_local_id, rpc_s_assoc_grp_not_found)
      | Some i \<Rightarrow> cn_bind (grp_at i t) (\<lambda>g.
          if RPC_CN_LOCAL_ID_EQUAL (grp_id g) gid \<and> grp_flags g AND type \<noteq> 0 \<and>
             cur_state (grp_state g) = RPC_C_ASSOC_GRP_ACTIVE
          then Ok (gid, rpc_s_ok) else Ok (clear_local_id, rpc_s_assoc_grp_not_found)))"

definition rpc__cn_assoc_grp_tbl_init :: "'a assoc_grp_tbl \<Rightarrow> 'a assoc_grp_tbl cn_result" where
  "rpc__cn_assoc_grp_tbl_init t =
     cn_bind (rpc__cn_assoc_grp_create (t\<lparr>grp_count := 0, grp_active_count := 0, assoc_grp_vector := [], illegal := []\<rparr>))
       (\<lambda>(gid, t). Ok t)"

section \<open>Monitoring a client\<close>

definition rpc__cn_network_mon ::
  "local_id \<Rightarrow> nat \<Rightarrow> 'a assoc_grp_tbl \<Rightarrow> (u32 \<times> 'a assoc_grp_tbl) cn_result" where
  "rpc__cn_network_mon client_h rundown t =
     cn_bind (rpc__cn_assoc_grp_lkup_by_id client_h RPC_C_CN_ASSOC_GRP_SERVER t) (\<lambda>(gid, st).
       case RPC_CN_ASSOC_GRP gid of
         None \<Rightarrow> Ok (st, t)
       | Some i \<Rightarrow> cn_bind (grp_at i t) (\<lambda>g.
           Ok (rpc_s_ok, set_grp i (g\<lparr>grp_liveness_mntr := Some rundown, grp_refcnt := grp_refcnt g + 1\<rparr>) t)))"

definition rpc__cn_network_stop_mon ::
  "local_id \<Rightarrow> 'a assoc_grp_tbl \<Rightarrow> (u32 \<times> 'a assoc_grp_tbl) cn_result" where
  "rpc__cn_network_stop_mon client_h t =
     cn_bind (rpc__cn_assoc_grp_lkup_by_id client_h RPC_C_CN_ASSOC_GRP_SERVER t) (\<lambda>(gid, st).
       case RPC_CN_ASSOC_GRP gid of
         None \<Rightarrow> Ok (st, t)
       | Some i \<Rightarrow> cn_bind (grp_at i t) (\<lambda>g.
           Ok (rpc_s_ok, set_grp i (g\<lparr>grp_refcnt := grp_refcnt g - 1\<rparr>) t)))"

section \<open>Well-formed tables\<close>

lemma eval_event_one:
  assumes "event_list_state sm = 0"
    and "sm_turn acts \<lparr>event_id = ucast ev, event_param = p\<rparr> (sm\<lparr>action_status := 0\<rparr>) w = Ok (sm', w')"
    and "event_list_state sm' = 0"
  shows "rpc__cn_sm_eval_event (Suc n) acts ev p sm w = Ok (action_status sm', sm', w')"
  using assms by (simp add: rpc__cn_sm_eval_event_def RPC_CN_SM_GET_NEXT_EVENT_def)

definition client_grp :: "'a assoc_grp \<Rightarrow> bool" where
  "client_grp g \<longleftrightarrow> grp_flags g = 1 \<and> tbl_id (grp_state g) = 6 \<and> state_tbl (grp_state g) = rpc_g_cn_client_grp_sm"

definition server_grp :: "'a assoc_grp \<Rightarrow> bool" where
  "server_grp g \<longleftrightarrow> grp_flags g = 2 \<and> tbl_id (grp_state g) = 5 \<and> state_tbl (grp_state g) = rpc_g_cn_server_grp_sm"

definition unused_grp :: "'a assoc_grp \<Rightarrow> bool" where
  "unused_grp g \<longleftrightarrow> cur_state (grp_state g) \<in> {0, RPC_C_ASSOC_GRP_CLOSED}"

definition grp_inv :: "nat \<Rightarrow> 'a assoc_grp \<Rightarrow> bool" where
  "grp_inv i g \<longleftrightarrow>
     unat (id_index (grp_id g)) = i \<and> id_seqnum (grp_id g) \<noteq> 0 \<and>
     event_list_state (grp_state g) = 0 \<and>
     unat (grp_cur_assoc g) = length (grp_assoc_list g) \<and> distinct (grp_assoc_list g) \<and>
     (grp_refcnt g \<noteq> 0 \<longrightarrow> server_grp g \<and> grp_liveness_mntr g \<noteq> None) \<and>
     (if unused_grp g then grp_flags g = 0 \<and> grp_assoc_list g = [] \<and> grp_refcnt g = 0 \<and> grp_callcnt g = 0
      else if cur_state (grp_state g) = RPC_C_ASSOC_GRP_OPEN
      then (client_grp g \<or> server_grp g) \<and> grp_assoc_list g = [] \<and> grp_refcnt g = 0
      else if cur_state (grp_state g) = RPC_C_ASSOC_GRP_ACTIVE
      then (client_grp g \<or> server_grp g) \<and> grp_assoc_list g \<noteq> []
      else cur_state (grp_state g) = RPC_C_SERVER_ASSOC_GRP_CALL_WAIT \<and> server_grp g \<and> grp_assoc_list g = [])"

lemmas grp_defs = sm_turn_def sm_lookup_def client_grp_def server_grp_def grp_action_tbl_def
  rpc_g_cn_client_grp_sm_def rpc_g_cn_server_grp_sm_def
  rpc_g_cn_client_grp_action_tbl_def rpc_g_cn_server_grp_action_tbl_def Let_def


lemma state_not_action [simp]: "\<not> (100 :: u8) \<le> 1" "\<not> (100 :: u8) \<le> 0"
  by (simp_all add: word_le_nat_alt)

lemma client_turns:
  assumes "client_grp g" "sm = grp_state g"
  defines "acts \<equiv> grp_action_tbl (tbl_id sm)"
  shows
   "cur_state sm = 100 \<Longrightarrow> sm_turn acts \<lparr>event_id = 100, event_param = a\<rparr> (sm\<lparr>action_status := 0\<rparr>) w
      = Ok (sm\<lparr>cur_state := 101, action_status := 0\<rparr>, w)"
   "cur_state sm = 101 \<Longrightarrow> sm_turn acts \<lparr>event_id = 101, event_param = a\<rparr> (sm\<lparr>action_status := 0\<rparr>) w
      = (let g = gw_grp w; g' = g\<lparr>grp_cur_assoc := grp_cur_assoc g + 1, grp_assoc_list := a # grp_assoc_list g\<rparr>
         in Ok (sm\<lparr>cur_event := 101, cur_state := 102, action_status := grp_status g\<rparr>, w\<lparr>gw_grp := g'\<rparr>))"
   "cur_state sm = 102 \<Longrightarrow> sm_turn acts \<lparr>event_id = 101, event_param = a\<rparr> (sm\<lparr>action_status := 0\<rparr>) w
      = (let g = gw_grp w; g' = g\<lparr>grp_cur_assoc := grp_cur_assoc g + 1, grp_assoc_list := a # grp_assoc_list g\<rparr>
         in Ok (sm\<lparr>cur_event := 101, cur_state := 102, action_status := grp_status g\<rparr>, w\<lparr>gw_grp := g'\<rparr>))"
   "cur_state sm = 102 \<Longrightarrow> sm_turn acts \<lparr>event_id = 102, event_param = a\<rparr> (sm\<lparr>action_status := 0\<rparr>) w
      = (let g = gw_grp w; g' = g\<lparr>grp_cur_assoc := grp_cur_assoc g - 1, grp_assoc_list := remove1 a (grp_assoc_list g)\<rparr>
         in Ok (sm\<lparr>cur_event := 102, cur_state := (if grp_cur_assoc g = 1 then 100 else 102), action_status := grp_status g\<rparr>,
                w\<lparr>gw_ids := (gw_ids w)(a := clear_local_id), gw_grp := g'\<rparr>))"
  using assms(1) unfolding acts_def assms(2)
  by (simp_all add: grp_defs client_incr_assoc_count_action_rtn_def
      client_decr_assoc_count_action_rtn_def ASSOC_COUNT_PRED_def)

lemma server_turns:
  assumes "server_grp g" "sm = grp_state g"
  defines "acts \<equiv> grp_action_tbl (tbl_id sm)"
  shows
   "cur_state sm = 100 \<Longrightarrow> sm_turn acts \<lparr>event_id = 100, event_param = a\<rparr> (sm\<lparr>action_status := 0\<rparr>) w
      = Ok (sm\<lparr>cur_event := 100, cur_state := 101, action_status := grp_status (gw_grp w)\<rparr>, w)"
   "cur_state sm = 101 \<Longrightarrow> sm_turn acts \<lparr>event_id = 101, event_param = a\<rparr> (sm\<lparr>action_status := 0\<rparr>) w
      = (let g = gw_grp w; g' = g\<lparr>grp_cur_assoc := grp_cur_assoc g + 1, grp_assoc_list := a # grp_assoc_list g\<rparr>
         in Ok (sm\<lparr>cur_event := 101, cur_state := 102, action_status := grp_status g\<rparr>, w\<lparr>gw_grp := g'\<rparr>))"
   "cur_state sm = 102 \<Longrightarrow> sm_turn acts \<lparr>event_id = 101, event_param = a\<rparr> (sm\<lparr>action_status := 0\<rparr>) w
      = (let g = gw_grp w; g' = g\<lparr>grp_cur_assoc := grp_cur_assoc g + 1, grp_assoc_list := a # grp_assoc_list g\<rparr>
         in Ok (sm\<lparr>cur_event := 101, cur_state := 102, action_status := grp_status g\<rparr>, w\<lparr>gw_grp := g'\<rparr>))"
   "cur_state sm = 102 \<Longrightarrow> sm_turn acts \<lparr>event_id = 102, event_param = a\<rparr> (sm\<lparr>action_status := 0\<rparr>) w
      = (let g = gw_grp w; g' = g\<lparr>grp_cur_assoc := grp_cur_assoc g - 1, grp_assoc_list := remove1 a (grp_assoc_list g)\<rparr>
         in Ok (sm\<lparr>cur_event := 102, cur_state := (if grp_cur_assoc g = 1 then 103 else 102), action_status := grp_status g\<rparr>,
                w\<lparr>gw_ids := (if grp_cur_assoc g = 1 then gw_ids w else (gw_ids w)(a := clear_local_id)), gw_grp := g'\<rparr>))"
   "cur_state sm = 103 \<Longrightarrow> grp_refcnt (gw_grp w) = 0 \<Longrightarrow> sm_turn acts \<lparr>event_id = 103, event_param = a\<rparr> (sm\<lparr>action_status := 0\<rparr>) w
      = Ok (sm\<lparr>cur_event := 103, cur_state := 100, action_status := 0\<rparr>, w\<lparr>gw_ids := (gw_ids w)(a := clear_local_id)\<rparr>)"
   "cur_state sm = 103 \<Longrightarrow> grp_refcnt (gw_grp w) \<noteq> 0 \<Longrightarrow> grp_liveness_mntr (gw_grp w) = Some f \<Longrightarrow>
      sm_turn acts \<lparr>event_id = 103, event_param = a\<rparr> (sm\<lparr>action_status := 0\<rparr>) w
      = Ok (sm\<lparr>cur_event := 103, cur_state := 100, action_status := grp_status (gw_grp w)\<rparr>,
            w\<lparr>gw_ids := (gw_ids w)(a := clear_local_id), gw_rundowns := gw_rundowns w @ [(f, grp_id (gw_grp w))]\<rparr>)"
  using assms(1) unfolding acts_def assms(2)
  by (simp_all add: grp_defs create_group_id_action_rtn_def server_incr_assoc_count_action_rtn_def
      server_decr_assoc_count_action_rtn_def rundown_handles_action_rtn_def SERVER_REFS_PRED_def SERVER_ASSOC_COUNT_PRED_def)

lemmas eval_tr = eval_event_one [of _ _ "100", simplified]

lemma set_grp_ids:
  "(set_grp i g t)\<lparr>assoc_grp_ids := x, rundowns := y, illegal := z\<rparr>
     = set_grp i g (t\<lparr>assoc_grp_ids := x, rundowns := y, illegal := z\<rparr>)"
  by (cases t) (simp add: set_grp_def)

text \<open>The effect of an event on a table whose group \<open>i\<close> accepts it\<close>

lemma grp_eval_turn:
  assumes "i < length (assoc_grp_vector t)" "g = assoc_grp_vector t ! i"
    and "event_list_state (grp_state g) = 0"
    and "sm_turn (grp_action_tbl (tbl_id (grp_state g))) \<lparr>event_id = ucast ev, event_param = a\<rparr> ((grp_state g)\<lparr>action_status := 0\<rparr>)
           \<lparr>gw_grp = g, gw_ids = assoc_grp_ids t, gw_rundowns = rundowns t, gw_illegal = illegal t\<rparr> = Ok (sm', w')"
    and "event_list_state sm' = 0"
  shows "RPC_CN_ASSOC_GRP_EVAL_EVENT i ev a t =
    (let t' = set_grp i ((gw_grp w')\<lparr>grp_state := sm', grp_status := action_status sm'\<rparr>)
                (t\<lparr>assoc_grp_ids := gw_ids w', rundowns := gw_rundowns w', illegal := gw_illegal w'\<rparr>)
     in if cur_state sm' = 100 then rpc__cn_assoc_grp_dealloc (grp_id (gw_grp w')) t' else Ok t')"
proof -
  have 3: "(3 :: nat) = Suc 2" by simp
  show ?thesis
    unfolding RPC_CN_ASSOC_GRP_EVAL_EVENT_def 3
    using eval_event_one [OF assms(3-5), of 2] assms(1,2)
    by (simp add: grp_at_def Let_def set_grp_ids)
qed

definition busy :: "'a assoc_grp \<Rightarrow> bool" where
  "busy g \<longleftrightarrow> \<not> unused_grp g"

definition tbl_inv :: "'a assoc_grp_tbl \<Rightarrow> bool" where
  "tbl_inv t \<longleftrightarrow> unat (grp_count t) = length (assoc_grp_vector t) \<and>
     (\<forall>i < length (assoc_grp_vector t). grp_inv i (assoc_grp_vector t ! i)) \<and>
     unat (grp_active_count t) = length (filter busy (assoc_grp_vector t)) \<and> illegal t = []"

lemma length_filter_update:
  "i < length xs \<Longrightarrow> length (filter P (xs[i := x])) + (if P (xs ! i) then 1 else 0)
     = length (filter P xs) + (if P x then 1 else 0)"
proof (induction xs arbitrary: i)
  case (Cons y ys)
  then show ?case by (cases i) auto
qed simp

lemma tbl_inv_set:
  assumes "tbl_inv t" "i < length (assoc_grp_vector t)" "grp_inv i g" "busy g = busy (assoc_grp_vector t ! i)"
  shows "tbl_inv (set_grp i g t)"
  using assms length_filter_update [OF assms(2), of busy g]
  by (auto simp: tbl_inv_def set_grp_def nth_list_update)

lemma tbl_inv_other [simp]:
  "tbl_inv (t\<lparr>assoc_grp_ids := x\<rparr>) = tbl_inv t" "tbl_inv (t\<lparr>rundowns := y\<rparr>) = tbl_inv t"
  "tbl_inv (t\<lparr>seqnum := z\<rparr>) = tbl_inv t"
  by (simp_all add: tbl_inv_def)

lemma gen_local_id:
  "rpc__cn_gen_local_id ix t = (j, t') \<Longrightarrow>
    id_seqnum j \<noteq> 0 \<and> id_index j = ucast ix \<and> t' = t\<lparr>seqnum := id_seqnum j\<rparr>"
  by (auto simp: rpc__cn_gen_local_id_def Let_def split: if_splits)

lemma dealloc_inv:
  assumes "tbl_inv t0" "i < length (assoc_grp_vector t0)" "busy (assoc_grp_vector t0 ! i)"
    and "grp_id g = grp_id (assoc_grp_vector t0 ! i)" "cur_state (grp_state g) = 100"
    and "event_list_state (grp_state g) = 0"
  shows "\<exists>t'. rpc__cn_assoc_grp_dealloc (grp_id g) (set_grp i g t0) = Ok t' \<and> tbl_inv t' \<and>
    length (assoc_grp_vector t') = length (assoc_grp_vector t0) \<and> grp_count t' = grp_count t0 \<and>
    (\<forall>j. j \<noteq> i \<longrightarrow> assoc_grp_vector t' ! j = assoc_grp_vector t0 ! j) \<and>
    cur_state (grp_state (assoc_grp_vector t' ! i)) = 100 \<and>
    assoc_grp_ids t' = assoc_grp_ids t0 \<and> rundowns t' = rundowns t0"
proof -
  let ?v = "assoc_grp_vector t0"
  have inv: "grp_inv i (?v ! i)" "unat (grp_count t0) = length ?v" "unat (grp_active_count t0) = length (filter busy ?v)"
    using assms(1,2) by (auto simp: tbl_inv_def)
  have ix: "unat (id_index (grp_id g)) = i" "RPC_CN_LOCAL_ID_VALID (grp_id g)"
    using inv(1) assms(4) by (simp_all add: grp_inv_def RPC_CN_LOCAL_ID_VALID_def)
  obtain j t1 where j: "rpc__cn_gen_local_id (ucast (id_index (grp_id g))) (set_grp i g t0) = (j, t1)" by fastforce
  note jj = gen_local_id [OF j]
  have jx: "id_index j = id_index (grp_id g)" using jj by simp
  define g' where "g' = g\<lparr>grp_remid := 0, grp_flags := 0, grp_address := None, grp_secaddr := None,
      grp_refcnt := 0, grp_max_assoc := 0xffff, grp_cur_assoc := 0, grp_assoc_waiters := 0, grp_status := 0,
      grp_next_key_id := 0, grp_assoc_list := [], grp_liveness_mntr := None, grp_callcnt := 0, grp_id := j\<rparr>"
  have g': "grp_inv i g'" "\<not> busy g'" "cur_state (grp_state g') = 100"
    using assms(5,6) ix jj jx by (simp_all add: g'_def grp_inv_def unused_grp_def busy_def)
  let ?t' = "(set_grp i g' t1)\<lparr>grp_active_count := grp_active_count t1 - 1\<rparr>"
  have d: "rpc__cn_assoc_grp_dealloc (grp_id g) (set_grp i g t0) = Ok ?t'"
    using ix assms(2) j
    by (simp add: rpc__cn_assoc_grp_dealloc_def RPC_CN_ASSOC_GRP_def grp_at_def set_grp_def g'_def Let_def)
  have "length (filter busy (?v[i := g'])) + 1 = length (filter busy ?v)"
    using length_filter_update [OF assms(2), of busy g'] assms(3) g' by simp
  then have act: "unat (grp_active_count t0 - 1) = length (filter busy (?v[i := g']))"
  proof -
    have "grp_active_count t0 \<noteq> 0" using inv(3) \<open>_ + 1 = _\<close> by auto
    then have "unat (grp_active_count t0 - 1) = unat (grp_active_count t0) - 1" by (rule unat_minus_one)
    with inv(3) \<open>_ + 1 = _\<close> show ?thesis by simp
  qed
  have "tbl_inv ?t'"
    using assms(1,2) act g'(1) jj by (auto simp: tbl_inv_def set_grp_def nth_list_update)
  with d g' jj assms(2) show ?thesis by (intro exI [of _ ?t']) (simp add: set_grp_def)
qed

text \<open>Adding an association\<close>

lemma add_step:
  assumes "tbl_inv t" "i < length (assoc_grp_vector t)" "g = assoc_grp_vector t ! i"
    "cur_state (grp_state g) = 101 \<or> cur_state (grp_state g) = 102"
    "a \<notin> set (grp_assoc_list g)" "length (grp_assoc_list g) < 65535"
  obtains t' where "RPC_CN_ASSOC_GRP_EVAL_EVENT i 101 a t = Ok t'" "tbl_inv t'"
    "cur_state (grp_state (assoc_grp_vector t' ! i)) = 102" "grp_assoc_list (assoc_grp_vector t' ! i) = a # grp_assoc_list g"
    "assoc_grp_vector t' = (assoc_grp_vector t)[i := assoc_grp_vector t' ! i]"
    "grp_callcnt (assoc_grp_vector t' ! i) = grp_callcnt g" "grp_flags (assoc_grp_vector t' ! i) = grp_flags g"
    "grp_id (assoc_grp_vector t' ! i) = grp_id g"
proof -
  have inv: "grp_inv i g" using assms by (auto simp: tbl_inv_def)
  then have k: "client_grp g \<or> server_grp g" "event_list_state (grp_state g) = 0"
    using assms(4) by (auto simp: grp_inv_def unused_grp_def)
  let ?w = "\<lparr>gw_grp = g, gw_ids = assoc_grp_ids t, gw_rundowns = rundowns t, gw_illegal = illegal t\<rparr>"
  let ?g = "g\<lparr>grp_cur_assoc := grp_cur_assoc g + 1, grp_assoc_list := a # grp_assoc_list g\<rparr>"
  let ?sm = "(grp_state g)\<lparr>cur_event := 101, cur_state := 102, action_status := grp_status g\<rparr>"
  have turn: "sm_turn (grp_action_tbl (tbl_id (grp_state g))) \<lparr>event_id = ucast (101 :: u32), event_param = a\<rparr>
      ((grp_state g)\<lparr>action_status := 0\<rparr>) ?w = Ok (?sm, ?w\<lparr>gw_grp := ?g\<rparr>)"
    using k(1) assms(4) client_turns(2,3) [of g "grp_state g" a ?w] server_turns(2,3) [of g "grp_state g" a ?w]
    by (auto simp: Let_def)
  let ?g' = "?g\<lparr>grp_state := ?sm, grp_status := grp_status g\<rparr>"
  have ev: "RPC_CN_ASSOC_GRP_EVAL_EVENT i 101 a t = Ok (set_grp i ?g' t)"
    using grp_eval_turn [OF assms(2,3) k(2) turn] k(2) by (simp add: Let_def set_grp_def)
  have "unat (grp_cur_assoc g + 1) = Suc (length (grp_assoc_list g))"
    using inv assms(6) by (simp add: grp_inv_def word_vals)
  then have inv': "grp_inv i ?g'"
    using inv k assms(4,5) by (auto simp: grp_inv_def unused_grp_def client_grp_def server_grp_def)
  have "busy ?g' = busy (assoc_grp_vector t ! i)"
    using assms(3,4) by (auto simp: busy_def unused_grp_def)
  from tbl_inv_set [OF assms(1,2) inv' this] that [OF ev] assms(2) show ?thesis
    by (simp add: set_grp_def)
qed

text \<open>Removing an association: either an association is left, or the group closes or waits\<close>

lemma rem_step:
  assumes "tbl_inv t" "i < length (assoc_grp_vector t)" "g = assoc_grp_vector t ! i"
    "cur_state (grp_state g) = 102" "a \<in> set (grp_assoc_list g)"
  obtains t' where "RPC_CN_ASSOC_GRP_EVAL_EVENT i 102 a t = Ok t'" "tbl_inv t'"
    "length (assoc_grp_vector t') = length (assoc_grp_vector t)"
    "cur_state (grp_state (assoc_grp_vector t' ! i)) =
       (if grp_assoc_list g \<noteq> [a] then 102 else if grp_flags g = 1 then 100 else 103)"
    "grp_assoc_list (assoc_grp_vector t' ! i) = remove1 a (grp_assoc_list g)"
proof -
  have inv: "grp_inv i g" using assms by (auto simp: tbl_inv_def)
  then have k: "client_grp g \<or> server_grp g" "event_list_state (grp_state g) = 0" "grp_assoc_list g \<noteq> []"
    "unat (grp_cur_assoc g) = length (grp_assoc_list g)" "distinct (grp_assoc_list g)"
    using assms(4) by (auto simp: grp_inv_def unused_grp_def)
  have nz: "grp_cur_assoc g \<noteq> 0" using k by auto
  then have cur': "unat (grp_cur_assoc g - 1) = length (remove1 a (grp_assoc_list g))"
    using k assms(5) by (simp add: unat_minus_one length_remove1)
  have one: "grp_cur_assoc g = 1 \<longleftrightarrow> grp_assoc_list g = [a]"
    using k(4) assms(5) by (cases "grp_assoc_list g") (auto simp flip: unat_eq_iff)
  let ?w = "\<lparr>gw_grp = g, gw_ids = assoc_grp_ids t, gw_rundowns = rundowns t, gw_illegal = illegal t\<rparr>"
  let ?g = "g\<lparr>grp_cur_assoc := grp_cur_assoc g - 1, grp_assoc_list := remove1 a (grp_assoc_list g)\<rparr>"
  define st where "st = (if grp_assoc_list g \<noteq> [a] then 102 else if grp_flags g = 1 then 100 else 103 :: u8)"
  define sm where "sm = (grp_state g)\<lparr>cur_event := 102, cur_state := st, action_status := grp_status g\<rparr>"
  define ids where "ids = (if st = 103 then assoc_grp_ids t else (assoc_grp_ids t)(a := clear_local_id))"
  have turn: "sm_turn (grp_action_tbl (tbl_id (grp_state g))) \<lparr>event_id = ucast (102 :: u32), event_param = a\<rparr>
      ((grp_state g)\<lparr>action_status := 0\<rparr>) ?w = Ok (sm, ?w\<lparr>gw_ids := ids, gw_grp := ?g\<rparr>)"
    using k(1)
  proof
    assume c: "client_grp g"
    then have "grp_flags g = 1" by (simp add: client_grp_def)
    with client_turns(4) [OF c refl assms(4), of a ?w] show ?thesis
      by (simp add: Let_def sm_def ids_def st_def one)
  next
    assume c: "server_grp g"
    then have "grp_flags g = 2" by (simp add: server_grp_def)
    with server_turns(4) [OF c refl assms(4), of a ?w] show ?thesis
      by (simp add: Let_def sm_def ids_def st_def one)
  qed
  define g' where "g' = ?g\<lparr>grp_state := sm, grp_status := grp_status g\<rparr>"
  have els: "event_list_state sm = 0" "cur_state sm = st" using k(2) by (simp_all add: sm_def)
  let ?t = "t\<lparr>assoc_grp_ids := ids\<rparr>"
  have ev: "RPC_CN_ASSOC_GRP_EVAL_EVENT i 102 a t =
    (if st = 100 then rpc__cn_assoc_grp_dealloc (grp_id g') (set_grp i g' ?t) else Ok (set_grp i g' ?t))"
    by (subst grp_eval_turn [OF assms(2,3) k(2) turn els(1)]) (simp add: Let_def g'_def sm_def)
  have ti: "tbl_inv ?t" using assms(1) by simp
  show ?thesis
  proof (cases "st = 100")
    case True
    have "busy (assoc_grp_vector ?t ! i)" "cur_state (grp_state g') = 100" "event_list_state (grp_state g') = 0"
      "grp_id g' = grp_id (assoc_grp_vector ?t ! i)"
      using assms(3,4) els True by (simp_all add: busy_def unused_grp_def g'_def)
    from dealloc_inv [OF ti _ this(1,4,2,3)] assms(2) obtain t' where d:
      "rpc__cn_assoc_grp_dealloc (grp_id g') (set_grp i g' ?t) = Ok t'" "tbl_inv t'"
      "length (assoc_grp_vector t') = length (assoc_grp_vector t)"
      "cur_state (grp_state (assoc_grp_vector t' ! i)) = 100" by auto
    moreover have "grp_assoc_list (assoc_grp_vector t' ! i) = []"
      using d(2,3,4) assms(2) by (auto simp: tbl_inv_def grp_inv_def unused_grp_def)
    moreover have "grp_assoc_list g = [a]" "grp_flags g = 1" using True by (auto simp: st_def split: if_splits)
    ultimately show ?thesis using that [of t'] ev True by simp
  next
    case False
    have ne: "grp_assoc_list g \<noteq> [a] \<Longrightarrow> remove1 a (grp_assoc_list g) \<noteq> []"
      using assms(5) k(3) by (cases "grp_assoc_list g"; cases "tl (grp_assoc_list g)") auto
    have "grp_inv i g'"
      using ne inv k cur' els False assms(4,5)
      by (auto simp: grp_inv_def unused_grp_def g'_def sm_def st_def client_grp_def server_grp_def
          split: if_splits)
    moreover have "busy g' = busy (assoc_grp_vector ?t ! i)"
      using assms(3,4) els False by (auto simp: busy_def unused_grp_def g'_def sm_def st_def)
    ultimately have "tbl_inv (set_grp i g' ?t)" using tbl_inv_set [OF ti] assms(2) by simp
    then show ?thesis using that [of "set_grp i g' ?t"] ev False assms(2) els
      by (simp add: set_grp_def g'_def) (simp add: st_def)
  qed
qed

lemma no_calls_step:
  assumes "tbl_inv t" "i < length (assoc_grp_vector t)"
  obtains t' where "grp_no_calls_check i a t = Ok t'" "tbl_inv t'"
    "length (assoc_grp_vector t') = length (assoc_grp_vector t)"
proof (cases "grp_flags (assoc_grp_vector t ! i) AND 2 \<noteq> 0 \<and> grp_callcnt (assoc_grp_vector t ! i) = 0 \<and>
          cur_state (grp_state (assoc_grp_vector t ! i)) = 103")
  case False
  then show ?thesis using that [of t] assms by (auto simp: grp_no_calls_check_def grp_at_def)
next
  case True
  define g where "g = assoc_grp_vector t ! i"
  have inv: "grp_inv i g" using assms by (auto simp: tbl_inv_def g_def)
  with True have k: "server_grp g" "event_list_state (grp_state g) = 0" "cur_state (grp_state g) = 103"
    "grp_refcnt g \<noteq> 0 \<longrightarrow> grp_liveness_mntr g \<noteq> None"
    by (auto simp: grp_inv_def unused_grp_def g_def)
  let ?w = "\<lparr>gw_grp = g, gw_ids = assoc_grp_ids t, gw_rundowns = rundowns t, gw_illegal = illegal t\<rparr>"
  obtain st rd where turn: "sm_turn (grp_action_tbl (tbl_id (grp_state g))) \<lparr>event_id = ucast (103 :: u32), event_param = a\<rparr>
      ((grp_state g)\<lparr>action_status := 0\<rparr>) ?w
      = Ok ((grp_state g)\<lparr>cur_event := 103, cur_state := 100, action_status := st\<rparr>,
            ?w\<lparr>gw_ids := (assoc_grp_ids t)(a := clear_local_id), gw_rundowns := rd\<rparr>)"
  proof (cases "grp_refcnt g = 0")
    case True
    with server_turns(5) [OF k(1) refl k(3), of ?w a] that [of 0 "rundowns t"] show ?thesis by simp
  next
    case False
    with k(4) obtain f where "grp_liveness_mntr g = Some f" by auto
    with server_turns(6) [OF k(1) refl k(3), of ?w f a] that False show ?thesis by simp
  qed
  let ?g = "g\<lparr>grp_state := (grp_state g)\<lparr>cur_event := 103, cur_state := 100, action_status := st\<rparr>, grp_status := st\<rparr>"
  let ?t = "t\<lparr>assoc_grp_ids := (assoc_grp_ids t)(a := clear_local_id), rundowns := rd\<rparr>"
  have ev: "RPC_CN_ASSOC_GRP_EVAL_EVENT i 103 a t = rpc__cn_assoc_grp_dealloc (grp_id ?g) (set_grp i ?g ?t)"
    using grp_eval_turn [OF assms(2) g_def k(2) turn] k(2) by (simp add: Let_def)
  have "busy g" using k(3) by (simp add: busy_def unused_grp_def)
  then have "\<exists>t'. rpc__cn_assoc_grp_dealloc (grp_id ?g) (set_grp i ?g ?t) = Ok t' \<and> tbl_inv t' \<and>
    length (assoc_grp_vector t') = length (assoc_grp_vector t)"
    using dealloc_inv [of ?t i ?g] assms k(2) by (auto simp: g_def)
  with that ev True assms(2) show ?thesis
    by (auto simp: grp_no_calls_check_def grp_at_def)
qed

section \<open>Growing the table and allocating groups\<close>

lemma grp_init_from_inv:
  "grp_init_from i n t = (gs, t') \<Longrightarrow> i + n \<le> 65536 \<Longrightarrow>
   length gs = n \<and> (\<forall>k < n. grp_inv (i + k) (gs ! k) \<and> cur_state (grp_state (gs ! k)) = 0) \<and> t' = t\<lparr>seqnum := seqnum t'\<rparr>"
proof (induction n arbitrary: i t gs t')
  case (Suc n)
  obtain g t1 where g: "rpc__cn_assoc_grp_init (of_nat i) t = (g, t1)" by fastforce
  obtain hs t2 where h: "grp_init_from (Suc i) n t1 = (hs, t2)" by fastforce
  have e: "gs = g # hs" "t' = t2" using Suc.prems(1) g h by simp_all
  obtain j where j: "rpc__cn_gen_local_id (of_nat i) t = (j, t1)"
    using g by (auto simp: rpc__cn_assoc_grp_init_def split: prod.splits)
  note jj = gen_local_id [OF j]
  have "unat (ucast (of_nat i :: u32) :: u16) = i"
    using Suc.prems(2) by (simp add: unsigned_ucast_eq unsigned_of_nat take_bit_nat_eq_self)
  then have gi: "grp_inv i g" "cur_state (grp_state g) = 0"
    using g j jj by (auto simp: rpc__cn_assoc_grp_init_def grp_inv_def zero_ctlblk_def unused_grp_def)
  from Suc.IH [OF h] Suc.prems(2) have ih: "length hs = n"
    "\<forall>k < n. grp_inv (Suc i + k) (hs ! k) \<and> cur_state (grp_state (hs ! k)) = 0" "t2 = t1\<lparr>seqnum := seqnum t2\<rparr>" by auto
  have "\<forall>k < Suc n. grp_inv (i + k) ((g # hs) ! k) \<and> cur_state (grp_state ((g # hs) ! k)) = 0"
    using ih(2) gi by (auto simp: less_Suc_eq_0_disj)
  moreover have "t2 = t\<lparr>seqnum := seqnum t2\<rparr>" using ih(3) jj by (metis assoc_grp_tbl.update_convs(4) assoc_grp_tbl.surjective)
  ultimately show ?case using e ih(1) by simp
qed simp

lemma create_step:
  assumes "tbl_inv t" "unat (grp_count t) + 10 < 65536"
  obtains gs t' where
    "rpc__cn_assoc_grp_create t = Ok (grp_id (gs ! 0), t')" "tbl_inv t'" "length gs = 10"
    "assoc_grp_vector t' = assoc_grp_vector t @ gs" "\<forall>g \<in> set gs. cur_state (grp_state g) = 0"
    "unat (grp_count t') = unat (grp_count t) + 10"
proof -
  let ?n = "unat (grp_count t)"
  have len: "?n = length (assoc_grp_vector t)" using assms(1) by (simp add: tbl_inv_def)
  have nc: "unat (grp_count t + 10) = ?n + 10" using assms(2) by (simp add: word_vals)
  obtain gs t1 where i: "grp_init_from ?n 10 (t\<lparr>grp_count := grp_count t + 10\<rparr>) = (gs, t1)" by fastforce
  from grp_init_from_inv [OF i] assms(2) have g: "length gs = 10"
    "\<forall>k < 10. grp_inv (?n + k) (gs ! k) \<and> cur_state (grp_state (gs ! k)) = 0"
    "t1 = t\<lparr>grp_count := grp_count t + 10, seqnum := seqnum t1\<rparr>" by simp_all
  let ?t = "t1\<lparr>assoc_grp_vector := assoc_grp_vector t1 @ gs\<rparr>"
  have v: "assoc_grp_vector t1 = assoc_grp_vector t" "grp_count t1 = grp_count t + 10" "grp_active_count t1 = grp_active_count t" "illegal t1 = illegal t"
    by (subst g(3), simp)+
  have "rpc__cn_assoc_grp_create t = Ok (grp_id (gs ! 0), ?t)"
    using i nc g(1) v len by (simp add: rpc__cn_assoc_grp_create_def Let_def grp_at_def nth_append)
  moreover have us: "\<forall>g \<in> set gs. cur_state (grp_state g) = 0"
    using g(1,2) by (auto simp: in_set_conv_nth)
  moreover have "filter busy gs = []"
    using us by (auto simp: filter_empty_conv busy_def unused_grp_def)
  moreover have "grp_inv k ((assoc_grp_vector t @ gs) ! k)" if "k < ?n + 10" for k
    using that assms(1) g(2) len by (cases "k < ?n") (auto simp: tbl_inv_def nth_append dest: spec [of _ "k - ?n"])
  ultimately show ?thesis
    using that [of gs ?t] assms(1) v g(1) nc len by (simp add: tbl_inv_def)
qed

lemma find_closed_some:
  "find_closed t = Some i \<Longrightarrow> i < unat (grp_count t) \<and> cur_state (grp_state (assoc_grp_vector t ! i)) = 100"
proof -
  assume "find_closed t = Some i"
  then have "i \<in> set (filter (\<lambda>i. cur_state (grp_state (assoc_grp_vector t ! i)) = 100) [0..<unat (grp_count t)])"
    unfolding find_closed_def by (cases "filter (\<lambda>i. cur_state (grp_state (assoc_grp_vector t ! i)) = 100) [0..<unat (grp_count t)]") auto
  then show ?thesis by auto
qed

text \<open>The choice of an entry in \<open>rpc__cn_assoc_grp_alloc\<close>\<close>

definition alloc_entry :: "'a assoc_grp_tbl \<Rightarrow> (nat \<times> 'a assoc_grp_tbl) cn_result" where
  "alloc_entry t = (case find_closed t of
                Some i \<Rightarrow> Ok (i, t)
              | None \<Rightarrow> cn_bind (rpc__cn_assoc_grp_create t) (\<lambda>(gid, t).
                          case RPC_CN_ASSOC_GRP gid of None \<Rightarrow> Fault | Some i \<Rightarrow> Ok (i, t)))"

lemma alloc_entry_step:
  assumes "tbl_inv t" "unat (grp_count t) + 10 < 65536"
  obtains i t' where "alloc_entry t = Ok (i, t')" "tbl_inv t'" "i < length (assoc_grp_vector t')"
    "unused_grp (assoc_grp_vector t' ! i)" "find_closed t = None \<longrightarrow> i = unat (grp_count t)"
    "length (assoc_grp_vector t') < 65536"
proof (cases "find_closed t")
  case (Some i)
  from find_closed_some [OF this] Some that [of i t] assms show ?thesis
    by (auto simp: alloc_entry_def tbl_inv_def unused_grp_def)
next
  case None
  from create_step [OF assms] obtain gs t' where c:
    "rpc__cn_assoc_grp_create t = Ok (grp_id (gs ! 0), t')" "tbl_inv t'" "length gs = 10"
    "assoc_grp_vector t' = assoc_grp_vector t @ gs" "\<forall>g \<in> set gs. cur_state (grp_state g) = 0" .
  have l: "length (assoc_grp_vector t) = unat (grp_count t)" using assms(1) by (simp add: tbl_inv_def)
  have n: "assoc_grp_vector t' ! unat (grp_count t) = gs ! 0" "unat (grp_count t) < length (assoc_grp_vector t')"
    using c(3,4) l by (simp_all add: nth_append)
  then have "grp_inv (unat (grp_count t)) (gs ! 0)" using c(2) by (metis tbl_inv_def)
  then have "RPC_CN_ASSOC_GRP (grp_id (gs ! 0)) = Some (unat (grp_count t))"
    by (simp add: grp_inv_def RPC_CN_ASSOC_GRP_def RPC_CN_LOCAL_ID_VALID_def)
  moreover have "gs ! 0 \<in> set gs" using c(3) by (intro nth_mem) simp
  ultimately show ?thesis using that [of "unat (grp_count t)" t'] c n None l assms(2)
    by (simp add: alloc_entry_def unused_grp_def)
qed

lemma alloc_unfold:
  "rpc__cn_assoc_grp_alloc addr_copy rpc_addr type rem_id t =
     cn_bind (alloc_entry t) (\<lambda>(i, t).
     cn_bind (grp_at i t) (\<lambda>g.
       let (g, ast) = (case rpc_addr of
               None \<Rightarrow> (g, 0)
             | Some a \<Rightarrow> (case addr_copy a of (c, st) \<Rightarrow>
                 (g\<lparr>grp_address := c, grp_secaddr := None\<rparr>, st)))
       in if ast \<noteq> 0 then Ok (clear_local_id, ast, set_grp i g t)
          else
            let g = g\<lparr>grp_flags := grp_flags g OR type, grp_remid := rem_id,
                      grp_state := (if type = 1
                         then rpc__cn_sm_init rpc_g_cn_client_grp_sm (grp_state g) 6
                         else rpc__cn_sm_init rpc_g_cn_server_grp_sm (grp_state g) 5)\<rparr>
            in cn_bind (RPC_CN_ASSOC_GRP_EVAL_EVENT i 100 0 (set_grp i g t)) (\<lambda>t.
               let t = t\<lparr>grp_active_count := grp_active_count t + 1\<rparr>
               in cn_bind (grp_at i t) (\<lambda>g. Ok (grp_id g, grp_status g, t)))))"
  by (simp add: rpc__cn_assoc_grp_alloc_def alloc_entry_def)

lemma new_group_step:
  assumes "tbl_inv t" "i < length (assoc_grp_vector t)" "length (assoc_grp_vector t) < 65536"
    and "unused_grp (assoc_grp_vector t ! i)" "type = 1 \<or> type = 2"
    and "g = (assoc_grp_vector t ! i)\<lparr>grp_address := ad, grp_secaddr := sa, grp_flags := type, grp_remid := rem_id,
               grp_state := (if type = 1
                         then rpc__cn_sm_init rpc_g_cn_client_grp_sm (grp_state (assoc_grp_vector t ! i)) 6
                         else rpc__cn_sm_init rpc_g_cn_server_grp_sm (grp_state (assoc_grp_vector t ! i)) 5)\<rparr>"
  obtains g' t' where "RPC_CN_ASSOC_GRP_EVAL_EVENT i 100 0 (set_grp i g t) = Ok t'"
    "tbl_inv (t'\<lparr>grp_active_count := grp_active_count t' + 1\<rparr>)"
    "length (assoc_grp_vector t') = length (assoc_grp_vector t)" "assoc_grp_vector t' ! i = g'"
    "grp_id g' = grp_id (assoc_grp_vector t ! i)" "cur_state (grp_state g') = 101" "grp_flags g' = type" "grp_remid g' = rem_id"
    "grp_address g' = ad" "assoc_grp_vector t' = (assoc_grp_vector t)[i := g']" "grp_count t' = grp_count t"
    "grp_active_count t' = grp_active_count t" "grp_callcnt g' = 0" "grp_assoc_list g' = []"
proof -
  have inv: "grp_inv i (assoc_grp_vector t ! i)" using assms(1,2) by (simp add: tbl_inv_def)
  then have idle: "grp_assoc_list (assoc_grp_vector t ! i) = []" "grp_refcnt (assoc_grp_vector t ! i) = 0"
    "grp_callcnt (assoc_grp_vector t ! i) = 0"
    using assms(4) by (simp_all add: grp_inv_def)
  have st: "cur_state (grp_state g) = 100" "event_list_state (grp_state g) = 0"
    by (simp_all add: assms(6) rpc__cn_sm_init_def rpc__cn_sm_init_event_list_def)
  have k: "type = 1 \<longrightarrow> client_grp g" "type \<noteq> 1 \<longrightarrow> server_grp g"
    using assms(5) by (auto simp: assms(6) client_grp_def server_grp_def rpc__cn_sm_init_def rpc__cn_sm_init_event_list_def)
  let ?s = "set_grp i g t"
  let ?w = "\<lparr>gw_grp = g, gw_ids = assoc_grp_ids ?s, gw_rundowns = rundowns ?s, gw_illegal = illegal ?s\<rparr>"
  obtain ce as where turn: "sm_turn (grp_action_tbl (tbl_id (grp_state g))) \<lparr>event_id = ucast (100 :: u32), event_param = 0\<rparr>
      ((grp_state g)\<lparr>action_status := 0\<rparr>) ?w = Ok ((grp_state g)\<lparr>cur_event := ce, cur_state := 101, action_status := as\<rparr>, ?w)"
  proof (cases "type = 1")
    case True
    with client_turns(1) [of g "grp_state g" 0 ?w, OF _ refl st(1)] k that [where ce = "cur_event (grp_state g)" and as = 0] show ?thesis by simp
  next
    case False
    with server_turns(1) [of g "grp_state g" 0 ?w, OF _ refl st(1)] k that [where ce = 100 and as = "grp_status g"] show ?thesis by simp
  qed
  define g' where "g' = g\<lparr>grp_state := (grp_state g)\<lparr>cur_event := ce, cur_state := 101, action_status := as\<rparr>, grp_status := as\<rparr>"
  have gi: "i < length (assoc_grp_vector ?s)" "g = assoc_grp_vector ?s ! i" using assms(2) by (simp_all add: set_grp_def)
  have ev: "RPC_CN_ASSOC_GRP_EVAL_EVENT i 100 0 ?s = Ok (set_grp i g' t)"
    using st(2) by (subst grp_eval_turn [OF gi st(2) turn]) (simp_all add: Let_def g'_def set_grp_def)
  have inv': "grp_inv i g'"
    using inv k idle assms(5) st(2)
    by (auto simp: g'_def assms(6) grp_inv_def unused_grp_def client_grp_def server_grp_def)
  have b: "busy g'" "\<not> busy (assoc_grp_vector t ! i)" using assms(4) by (simp_all add: busy_def unused_grp_def g'_def)
  have n: "length (filter busy ((assoc_grp_vector t)[i := g'])) = Suc (length (filter busy (assoc_grp_vector t)))"
    using length_filter_update [OF assms(2), of busy g'] b by simp
  moreover have "length (filter busy ((assoc_grp_vector t)[i := g'])) \<le> length (assoc_grp_vector t)"
    using length_filter_le [of busy "(assoc_grp_vector t)[i := g']"] by simp
  ultimately have "unat (grp_active_count t + 1) = length (filter busy ((assoc_grp_vector t)[i := g']))"
    using assms(1,3) by (simp add: tbl_inv_def word_vals)
  then have "tbl_inv ((set_grp i g' t)\<lparr>grp_active_count := grp_active_count (set_grp i g' t) + 1\<rparr>)"
    using assms(1,2) inv' by (auto simp: tbl_inv_def set_grp_def nth_list_update)
  with that [OF ev] assms(2) idle show ?thesis by (simp add: set_grp_def g'_def assms(6))
qed

lemma alloc_step:
  assumes "tbl_inv t" "unat (grp_count t) + 10 < 65536" "type = 1 \<or> type = 2"
  obtains gid st t' where "rpc__cn_assoc_grp_alloc addr_copy rpc_addr type rem_id t = Ok (gid, st, t')" "tbl_inv t'"
    "RPC_CN_LOCAL_ID_VALID gid \<longrightarrow> unat (id_index gid) < length (assoc_grp_vector t') \<and>
       (\<exists>g. assoc_grp_vector t' ! unat (id_index gid) = g \<and> grp_id g = gid \<and> cur_state (grp_state g) = 101 \<and>
            grp_flags g = type \<and> grp_remid g = rem_id \<and> grp_callcnt g = 0 \<and> grp_assoc_list g = [])"
    "(\<forall>a. rpc_addr = Some a \<longrightarrow> snd (addr_copy a) = 0) \<longrightarrow> RPC_CN_LOCAL_ID_VALID gid"
    "\<not> RPC_CN_LOCAL_ID_VALID gid \<longrightarrow> st \<noteq> 0"
proof -
  obtain i t1 where e: "alloc_entry t = Ok (i, t1)" "tbl_inv t1" "i < length (assoc_grp_vector t1)"
    "unused_grp (assoc_grp_vector t1 ! i)" "length (assoc_grp_vector t1) < 65536"
    using alloc_entry_step [OF assms(1,2)] by metis
  let ?g = "assoc_grp_vector t1 ! i"
  have inv: "grp_inv i ?g" using e by (simp add: tbl_inv_def)
  then have ix: "unat (id_index (grp_id ?g)) = i" "id_seqnum (grp_id ?g) \<noteq> 0" "grp_flags ?g = 0"
    using e(4) by (simp_all add: grp_inv_def)
  obtain ad sa ast where ad: "(case rpc_addr of None \<Rightarrow> (?g, 0) | Some a \<Rightarrow> (case addr_copy a of (c, st) \<Rightarrow>
      (?g\<lparr>grp_address := c, grp_secaddr := None\<rparr>, st))) = (?g\<lparr>grp_address := ad, grp_secaddr := sa\<rparr>, ast)"
    and ok: "(\<forall>a. rpc_addr = Some a \<longrightarrow> snd (addr_copy a) = 0) \<longrightarrow> ast = 0"
  proof (cases rpc_addr)
    case None
    then show ?thesis using that [where ad = "grp_address ?g" and sa = "grp_secaddr ?g" and ast = 0] by simp
  next
    case (Some a)
    then show ?thesis using that [where ad = "fst (addr_copy a)" and sa = None and ast = "snd (addr_copy a)"] by (simp split: prod.splits)
  qed
  show ?thesis
  proof (cases "ast = 0")
    case False
    have "grp_inv i (?g\<lparr>grp_address := ad, grp_secaddr := sa\<rparr>)" "busy (?g\<lparr>grp_address := ad, grp_secaddr := sa\<rparr>) = busy ?g"
      using inv e(4) by (simp_all add: grp_inv_def unused_grp_def busy_def client_grp_def server_grp_def)
    from tbl_inv_set [OF e(2,3) this] that [of clear_local_id ast] False ok show ?thesis
      by (simp add: alloc_unfold e(1) grp_at_def e(3) ad RPC_CN_LOCAL_ID_VALID_def clear_local_id_def)
  next
    case True
    define g where "g = ?g\<lparr>grp_address := ad, grp_secaddr := sa, grp_flags := type, grp_remid := rem_id,
               grp_state := (if type = 1
                         then rpc__cn_sm_init rpc_g_cn_client_grp_sm (grp_state ?g) 6
                         else rpc__cn_sm_init rpc_g_cn_server_grp_sm (grp_state ?g) 5)\<rparr>"
    from new_group_step [OF e(2,3,5,4) assms(3) g_def] obtain g' t' where n:
      "RPC_CN_ASSOC_GRP_EVAL_EVENT i 100 0 (set_grp i g t1) = Ok t'"
      "tbl_inv (t'\<lparr>grp_active_count := grp_active_count t' + 1\<rparr>)"
      "length (assoc_grp_vector t') = length (assoc_grp_vector t1)" "assoc_grp_vector t' ! i = g'"
      "grp_id g' = grp_id ?g" "cur_state (grp_state g') = 101" "grp_flags g' = type" "grp_remid g' = rem_id"
      "grp_callcnt g' = 0" "grp_assoc_list g' = []" by metis
    have "rpc__cn_assoc_grp_alloc addr_copy rpc_addr type rem_id t
      = Ok (grp_id ?g, grp_status g', t'\<lparr>grp_active_count := grp_active_count t' + 1\<rparr>)"
      using e(3) n(2-) True n(1) [unfolded g_def]
      by (simp add: alloc_unfold e(1) grp_at_def ad ix(3) Let_def cong: if_cong split del: if_split)
    from that [OF this n(2)] n e(3) ix show ?thesis by (auto simp: RPC_CN_LOCAL_ID_VALID_def)
  qed
qed

section \<open>Operations on the table, in any order\<close>

datatype 'a grp_op =
    OpAlloc "'a \<Rightarrow> 'a option \<times> u32" "'a option" u16 u32
  | OpAdd local_id nat
  | OpRem local_id nat
  | OpPush nat
  | OpPop nat
  | OpMon local_id nat
  | OpStopMon local_id

fun grp_exec :: "'a grp_op \<Rightarrow> 'a assoc_grp_tbl \<Rightarrow> 'a assoc_grp_tbl cn_result" where
  "grp_exec (OpAlloc cp ad ty rid) t = cn_bind (rpc__cn_assoc_grp_alloc cp ad ty rid t) (\<lambda>(_, _, t). Ok t)"
| "grp_exec (OpAdd gid a) t = rpc__cn_assoc_grp_add_assoc gid a t"
| "grp_exec (OpRem gid a) t = rpc__cn_assoc_grp_rem_assoc gid a t"
| "grp_exec (OpPush a) t = cn_bind (grp_push_call a t) (\<lambda>(_, t). Ok t)"
| "grp_exec (OpPop a) t = grp_pop_call a t"
| "grp_exec (OpMon gid f) t = cn_bind (rpc__cn_network_mon gid f t) (\<lambda>(_, t). Ok t)"
| "grp_exec (OpStopMon gid) t = cn_bind (rpc__cn_network_stop_mon gid t) (\<lambda>(_, t). Ok t)"

text \<open>
  What the callers guarantee: identifiers index the table, an association is added to an
  open or active group it is not on and removed from the active group it is on, the 16-bit
  counters do not wrap, and calls are popped only where they were pushed.
\<close>

definition entry :: "'a assoc_grp_tbl \<Rightarrow> local_id \<Rightarrow> 'a assoc_grp" where
  "entry t gid = assoc_grp_vector t ! unat (id_index gid)"

definition in_table :: "'a assoc_grp_tbl \<Rightarrow> local_id \<Rightarrow> bool" where
  "in_table t gid \<longleftrightarrow> RPC_CN_LOCAL_ID_VALID gid \<and> unat (id_index gid) < length (assoc_grp_vector t)"

fun grp_pre :: "'a grp_op \<Rightarrow> 'a assoc_grp_tbl \<Rightarrow> bool" where
  "grp_pre (OpAlloc cp ad ty rid) t \<longleftrightarrow> unat (grp_count t) + 10 < 65536 \<and> (ty = 1 \<or> ty = 2)"
| "grp_pre (OpAdd gid a) t \<longleftrightarrow> in_table t gid \<and> cur_state (grp_state (entry t gid)) \<in> {101, 102} \<and>
     a \<notin> set (grp_assoc_list (entry t gid)) \<and> length (grp_assoc_list (entry t gid)) < 65535"
| "grp_pre (OpRem gid a) t \<longleftrightarrow> (RPC_CN_LOCAL_ID_VALID gid \<longrightarrow>
     in_table t gid \<and> cur_state (grp_state (entry t gid)) = 102 \<and> a \<in> set (grp_assoc_list (entry t gid)))"
| "grp_pre (OpPush a) t \<longleftrightarrow> (let gid = assoc_grp_ids t a in RPC_CN_LOCAL_ID_VALID gid \<longrightarrow>
     in_table t gid \<and> busy (entry t gid))"
| "grp_pre (OpPop a) t \<longleftrightarrow> (let gid = assoc_grp_ids t a in RPC_CN_LOCAL_ID_VALID gid \<longrightarrow>
     in_table t gid \<and> busy (entry t gid))"
| "grp_pre (OpMon gid f) t \<longleftrightarrow> (RPC_CN_LOCAL_ID_VALID gid \<longrightarrow> in_table t gid)"
| "grp_pre (OpStopMon gid) t \<longleftrightarrow> (RPC_CN_LOCAL_ID_VALID gid \<longrightarrow> in_table t gid \<and>
     (grp_refcnt (entry t gid) \<noteq> 0 \<or> grp_id (entry t gid) \<noteq> gid))"

inductive grp_reach :: "'a assoc_grp_tbl \<Rightarrow> bool" where
  reach_init: "rpc__cn_assoc_grp_tbl_init t0 = Ok t \<Longrightarrow> grp_reach t"
| reach_step: "grp_reach t \<Longrightarrow> grp_pre op t \<Longrightarrow> grp_exec op t = Ok t' \<Longrightarrow> grp_reach t'"

lemma init_step:
  obtains t where "rpc__cn_assoc_grp_tbl_init t0 = Ok t" "tbl_inv t" "unat (grp_count t) = 10"
    "unat (grp_active_count t) = 0" "\<forall>g \<in> set (assoc_grp_vector t). cur_state (grp_state g) = 0"
proof -
  let ?t = "t0\<lparr>grp_count := 0, grp_active_count := 0, assoc_grp_vector := [], illegal := []\<rparr>"
  have "tbl_inv ?t" by (simp add: tbl_inv_def)
  then obtain gs t where c: "rpc__cn_assoc_grp_create ?t = Ok (grp_id (gs ! 0), t)" "tbl_inv t" "length gs = 10"
    "assoc_grp_vector t = assoc_grp_vector ?t @ gs" "\<forall>g \<in> set gs. cur_state (grp_state g) = 0"
    "unat (grp_count t) = unat (grp_count ?t) + 10"
    by (rule create_step) simp
  moreover have "filter busy gs = []" using c(5) by (auto simp: filter_empty_conv busy_def unused_grp_def)
  then have "unat (grp_active_count t) = 0" using c(2,4) by (simp add: tbl_inv_def)
  ultimately show ?thesis using that [of t] by (simp add: rpc__cn_assoc_grp_tbl_init_def)
qed

lemma grp_op_step:
  assumes "tbl_inv t" "grp_pre op t"
  shows "\<exists>t'. grp_exec op t = Ok t' \<and> tbl_inv t'"
proof (cases op)
  case (OpAlloc cp ad ty rid)
  with assms obtain gid st t' where "rpc__cn_assoc_grp_alloc cp ad ty rid t = Ok (gid, st, t')" "tbl_inv t'"
    by (metis alloc_step grp_pre.simps(1))
  then show ?thesis by (simp add: OpAlloc)
next
  case (OpAdd gid a)
  then have p: "in_table t gid" "cur_state (grp_state (entry t gid)) = 101 \<or> cur_state (grp_state (entry t gid)) = 102"
    "a \<notin> set (grp_assoc_list (entry t gid))" "length (grp_assoc_list (entry t gid)) < 65535" using assms(2) by auto
  from add_step [OF assms(1) _ entry_def p(2-4)] p(1) obtain t' where
    "RPC_CN_ASSOC_GRP_EVAL_EVENT (unat (id_index gid)) 101 a t = Ok t'" "tbl_inv t'" by (metis in_table_def)
  with p(1) show ?thesis
    by (auto simp: OpAdd rpc__cn_assoc_grp_add_assoc_def RPC_CN_ASSOC_GRP_def in_table_def)
next
  case (OpRem gid a)
  show ?thesis
  proof (cases "RPC_CN_LOCAL_ID_VALID gid")
    case True
    with OpRem assms(2) have p: "in_table t gid" "cur_state (grp_state (entry t gid)) = 102"
      "a \<in> set (grp_assoc_list (entry t gid))" by auto
    from rem_step [OF assms(1) _ entry_def p(2-3)] p(1) obtain t' where r:
      "RPC_CN_ASSOC_GRP_EVAL_EVENT (unat (id_index gid)) 102 a t = Ok t'" "tbl_inv t'"
      "length (assoc_grp_vector t') = length (assoc_grp_vector t)" by (metis in_table_def)
    from no_calls_step [OF r(2), of "unat (id_index gid)" a] r(3) p(1) obtain t'' where
      "grp_no_calls_check (unat (id_index gid)) a t' = Ok t''" "tbl_inv t''" by (metis in_table_def)
    with r True show ?thesis by (simp add: OpRem rpc__cn_assoc_grp_rem_assoc_def RPC_CN_ASSOC_GRP_def)
  qed (use assms(1) in \<open>simp add: OpRem rpc__cn_assoc_grp_rem_assoc_def RPC_CN_ASSOC_GRP_def\<close>)
next
  case (OpPush a)
  let ?gid = "assoc_grp_ids t a" and ?i = "unat (id_index (assoc_grp_ids t a))"
  let ?g = "assoc_grp_vector t ! ?i"
  show ?thesis
  proof (cases "RPC_CN_LOCAL_ID_VALID ?gid")
    case True
    with OpPush assms(2) have p: "?i < length (assoc_grp_vector t)" "busy ?g"
      by (simp_all add: in_table_def entry_def Let_def)
    have "grp_inv ?i ?g" using assms(1) p by (simp add: tbl_inv_def)
    then have "grp_inv ?i (?g\<lparr>grp_callcnt := grp_callcnt ?g + 1\<rparr>)"
      using p(2) by (auto simp: grp_inv_def unused_grp_def busy_def client_grp_def server_grp_def)
    from tbl_inv_set [OF assms(1) p(1) this] p True show ?thesis
      by (simp add: OpPush grp_push_call_def RPC_CN_ASSOC_GRP_def grp_at_def busy_def unused_grp_def)
  qed (use assms(1) in \<open>simp add: OpPush grp_push_call_def RPC_CN_ASSOC_GRP_def\<close>)
next
  case (OpPop a)
  let ?gid = "assoc_grp_ids t a" and ?i = "unat (id_index (assoc_grp_ids t a))"
  let ?g = "assoc_grp_vector t ! ?i"
  show ?thesis
  proof (cases "RPC_CN_LOCAL_ID_VALID ?gid")
    case True
    with OpPop assms(2) have p: "?i < length (assoc_grp_vector t)" "busy ?g"
      by (simp_all add: in_table_def entry_def Let_def)
    have "grp_inv ?i ?g" using assms(1) p by (simp add: tbl_inv_def)
    then have "grp_inv ?i (?g\<lparr>grp_callcnt := grp_callcnt ?g - 1\<rparr>)"
      using p(2) by (auto simp: grp_inv_def unused_grp_def busy_def client_grp_def server_grp_def)
    from tbl_inv_set [OF assms(1) p(1) this] have s: "tbl_inv (set_grp ?i (?g\<lparr>grp_callcnt := grp_callcnt ?g - 1\<rparr>) t)"
      by (simp add: busy_def unused_grp_def)
    moreover have "?i < length (assoc_grp_vector (set_grp ?i (?g\<lparr>grp_callcnt := grp_callcnt ?g - 1\<rparr>) t))"
      using p by (simp add: set_grp_def)
    ultimately obtain t'' where "grp_no_calls_check ?i a (set_grp ?i (?g\<lparr>grp_callcnt := grp_callcnt ?g - 1\<rparr>) t) = Ok t''" "tbl_inv t''"
      by (metis no_calls_step)
    with p True show ?thesis
      by (simp add: OpPop grp_pop_call_def RPC_CN_ASSOC_GRP_def grp_at_def)
  qed (use assms(1) in \<open>simp add: OpPop grp_pop_call_def RPC_CN_ASSOC_GRP_def\<close>)
next
  case (OpMon gid f)
  let ?i = "unat (id_index gid)"
  let ?g = "assoc_grp_vector t ! ?i"
  consider "\<not> RPC_CN_LOCAL_ID_VALID gid" | "RPC_CN_LOCAL_ID_VALID gid" "?i < length (assoc_grp_vector t)"
    using assms(2) OpMon by (auto simp: in_table_def)
  then show ?thesis
  proof cases
    case 2
    have inv: "grp_inv ?i ?g" using assms(1) 2 by (simp add: tbl_inv_def)
    show ?thesis
    proof (cases "RPC_CN_LOCAL_ID_EQUAL (grp_id ?g) gid \<and> grp_flags ?g AND 2 \<noteq> 0 \<and> cur_state (grp_state ?g) = 102")
      case True
      then have "server_grp ?g" using inv by (auto simp: grp_inv_def unused_grp_def client_grp_def)
      then have "grp_inv ?i (?g\<lparr>grp_liveness_mntr := Some f, grp_refcnt := grp_refcnt ?g + 1\<rparr>)"
        using inv True by (auto simp: grp_inv_def unused_grp_def server_grp_def client_grp_def)
      from tbl_inv_set [OF assms(1) 2(2) this] 2 True show ?thesis
        by (simp add: OpMon rpc__cn_network_mon_def rpc__cn_assoc_grp_lkup_by_id_def RPC_CN_ASSOC_GRP_def grp_at_def
            busy_def unused_grp_def)
    qed (use 2 assms(1) in \<open>auto simp: OpMon rpc__cn_network_mon_def rpc__cn_assoc_grp_lkup_by_id_def RPC_CN_ASSOC_GRP_def grp_at_def
         clear_local_id_def RPC_CN_LOCAL_ID_VALID_def\<close>)
  qed (use assms(1) in \<open>simp add: OpMon rpc__cn_network_mon_def rpc__cn_assoc_grp_lkup_by_id_def RPC_CN_ASSOC_GRP_def
         clear_local_id_def RPC_CN_LOCAL_ID_VALID_def\<close>)
next
  case (OpStopMon gid)
  let ?i = "unat (id_index gid)"
  let ?g = "assoc_grp_vector t ! ?i"
  consider "\<not> RPC_CN_LOCAL_ID_VALID gid" | "RPC_CN_LOCAL_ID_VALID gid" "?i < length (assoc_grp_vector t)"
    "grp_refcnt ?g \<noteq> 0 \<or> grp_id ?g \<noteq> gid"
    using assms(2) OpStopMon by (auto simp: in_table_def entry_def)
  then show ?thesis
  proof cases
    case 2
    have inv: "grp_inv ?i ?g" using assms(1) 2 by (simp add: tbl_inv_def)
    show ?thesis
    proof (cases "RPC_CN_LOCAL_ID_EQUAL (grp_id ?g) gid \<and> grp_flags ?g AND 2 \<noteq> 0 \<and> cur_state (grp_state ?g) = 102")
      case True
      then have "grp_id ?g = gid" by (auto simp: RPC_CN_LOCAL_ID_EQUAL_def)
      then have "server_grp ?g" "grp_liveness_mntr ?g \<noteq> None" using inv 2(3) by (auto simp: grp_inv_def)
      then have "grp_inv ?i (?g\<lparr>grp_refcnt := grp_refcnt ?g - 1\<rparr>)"
        using inv True by (auto simp: grp_inv_def unused_grp_def server_grp_def client_grp_def)
      from tbl_inv_set [OF assms(1) 2(2) this] 2 True show ?thesis
        by (simp add: OpStopMon rpc__cn_network_stop_mon_def rpc__cn_assoc_grp_lkup_by_id_def RPC_CN_ASSOC_GRP_def grp_at_def
            busy_def unused_grp_def)
    qed (use 2 assms(1) in \<open>auto simp: OpStopMon rpc__cn_network_stop_mon_def rpc__cn_assoc_grp_lkup_by_id_def RPC_CN_ASSOC_GRP_def grp_at_def
         clear_local_id_def RPC_CN_LOCAL_ID_VALID_def\<close>)
  qed (use assms(1) in \<open>simp add: OpStopMon rpc__cn_network_stop_mon_def rpc__cn_assoc_grp_lkup_by_id_def RPC_CN_ASSOC_GRP_def
         clear_local_id_def RPC_CN_LOCAL_ID_VALID_def\<close>)
qed

lemma grp_reach_inv: "grp_reach t \<Longrightarrow> tbl_inv t"
proof (induction rule: grp_reach.induct)
  case (reach_init t0 t)
  from init_step [of t0] obtain t' where "rpc__cn_assoc_grp_tbl_init t0 = Ok t'" "tbl_inv t'" by metis
  with reach_init show ?case by simp
next
  case (reach_step t op t')
  from grp_op_step [OF reach_step.IH reach_step.hyps(2)] reach_step.hyps(3) show ?case by auto
qed

text \<open>
  C12: which identifiers are safe, in every table the operations reach from its initialisation when
  the callers keep to \<open>grp_pre\<close>.  Nothing compares the index of an identifier with the size of the
  table: with one beyond it, that a peer may send, each of the operations reads outside the table.
  With an index inside, whatever group the entry holds and whether the identifier is still its own, the
  lookup, both monitors, and a call pushed or popped do not fault; an association that is not yet on
  an open or active group is added, and one that is on an active group is removed, without an illegal
  transition of the state machine, which ends, and the table is again one of these.
\<close>

theorem grp_index_bounds:
  assumes "grp_reach t" "RPC_CN_LOCAL_ID_VALID gid"
  shows "if unat (grp_count t) \<le> unat (id_index gid)
    then rpc__cn_assoc_grp_lkup_by_id gid ty t = Fault \<and> rpc__cn_assoc_grp_add_assoc gid a t = Fault \<and>
      rpc__cn_assoc_grp_rem_assoc gid a t = Fault \<and> rpc__cn_network_mon gid f t = Fault \<and> rpc__cn_network_stop_mon gid t = Fault \<and>
      (assoc_grp_ids t a = gid \<longrightarrow> grp_push_call a t = Fault \<and> grp_pop_call a t = Fault)
    else (\<exists>r. rpc__cn_assoc_grp_lkup_by_id gid ty t = Ok r) \<and> (\<exists>r. rpc__cn_network_mon gid f t = Ok r) \<and>
      (\<exists>r. rpc__cn_network_stop_mon gid t = Ok r) \<and>
      (assoc_grp_ids t a = gid \<longrightarrow> (\<exists>r. grp_push_call a t = Ok r) \<and> (\<exists>r. grp_pop_call a t = Ok r)) \<and>
      (cur_state (grp_state (entry t gid)) \<in> {101, 102} \<and> a \<notin> set (grp_assoc_list (entry t gid)) \<and>
         length (grp_assoc_list (entry t gid)) < 65535 \<longrightarrow>
         (\<exists>t'. rpc__cn_assoc_grp_add_assoc gid a t = Ok t' \<and> grp_reach t' \<and> illegal t' = [])) \<and>
      (cur_state (grp_state (entry t gid)) = 102 \<and> a \<in> set (grp_assoc_list (entry t gid)) \<longrightarrow>
         (\<exists>t'. rpc__cn_assoc_grp_rem_assoc gid a t = Ok t' \<and> grp_reach t' \<and> illegal t' = []))"
proof -
  have inv: "tbl_inv t" by (rule grp_reach_inv [OF assms(1)])
  then have n: "unat (grp_count t) = length (assoc_grp_vector t)" by (simp add: tbl_inv_def)
  note v = assms(2)
  have v0: "\<not> RPC_CN_LOCAL_ID_VALID clear_local_id" by (simp add: clear_local_id_def RPC_CN_LOCAL_ID_VALID_def)
  show ?thesis
  proof (cases "unat (grp_count t) \<le> unat (id_index gid)")
    case True
    then have "grp_at (unat (id_index gid)) t = Fault" using n by (simp add: grp_at_def)
    then show ?thesis using True v
      by (auto simp: rpc__cn_assoc_grp_lkup_by_id_def rpc__cn_assoc_grp_add_assoc_def rpc__cn_assoc_grp_rem_assoc_def rpc__cn_network_mon_def
          rpc__cn_network_stop_mon_def grp_push_call_def grp_pop_call_def RPC_CN_ASSOC_GRP_EVAL_EVENT_def RPC_CN_ASSOC_GRP_def)
  next
    case False
    then have i: "unat (id_index gid) < length (assoc_grp_vector t)" using n by simp
    then have g: "grp_at (unat (id_index gid)) t = Ok (entry t gid)" by (simp add: grp_at_def entry_def)
    have it: "in_table t gid" using i v by (simp add: in_table_def)
    have l: "\<exists>r. rpc__cn_assoc_grp_lkup_by_id gid ty t = Ok r"
      using g v by (simp add: rpc__cn_assoc_grp_lkup_by_id_def RPC_CN_ASSOC_GRP_def)
    have m: "\<exists>r. rpc__cn_network_mon gid f t = Ok r" "\<exists>r. rpc__cn_network_stop_mon gid t = Ok r"
      using g v v0 by (simp_all add: rpc__cn_network_mon_def rpc__cn_network_stop_mon_def rpc__cn_assoc_grp_lkup_by_id_def RPC_CN_ASSOC_GRP_def)
    have pp: "(\<exists>r. grp_push_call a t = Ok r) \<and> (\<exists>r. grp_pop_call a t = Ok r)" if e: "assoc_grp_ids t a = gid"
    proof (cases "busy (entry t gid)")
      case True
      then have "grp_pre (OpPush a) t" "grp_pre (OpPop a) t" using e it by simp_all
      from this(2) grp_op_step [OF inv, of "OpPop a"] have "\<exists>r. grp_pop_call a t = Ok r" by auto
      then show ?thesis using g v e by (simp add: grp_push_call_def RPC_CN_ASSOC_GRP_def)
    next
      case False
      then have "cur_state (grp_state (entry t gid)) \<noteq> 103" by (auto simp: busy_def unused_grp_def)
      then show ?thesis using g v e i
        by (simp add: grp_push_call_def grp_pop_call_def RPC_CN_ASSOC_GRP_def grp_no_calls_check_def grp_at_def set_grp_def)
    qed
    have st: "\<exists>t'. grp_exec op t = Ok t' \<and> grp_reach t' \<and> illegal t' = []" if p: "grp_pre op t" for op
      using grp_op_step [OF inv p] reach_step [OF assms(1) p] by (auto simp: tbl_inv_def)
    have "\<exists>t'. rpc__cn_assoc_grp_add_assoc gid a t = Ok t' \<and> grp_reach t' \<and> illegal t' = []"
      if "cur_state (grp_state (entry t gid)) \<in> {101, 102} \<and> a \<notin> set (grp_assoc_list (entry t gid)) \<and> length (grp_assoc_list (entry t gid)) < 65535"
      using st [of "OpAdd gid a"] that it by simp
    moreover have "\<exists>t'. rpc__cn_assoc_grp_rem_assoc gid a t = Ok t' \<and> grp_reach t' \<and> illegal t' = []"
      if "cur_state (grp_state (entry t gid)) = 102 \<and> a \<in> set (grp_assoc_list (entry t gid))"
      using st [of "OpRem gid a"] that it by simp
    ultimately show ?thesis unfolding if_not_P [OF False] using l m pp by blast
  qed
qed

text \<open>
  C13: In every reachable table the count is the size of the table and the active count the
  number of groups in use; a group counts exactly the associations on its list, without
  repetition; it is open or waits for calls only without associations, is active only with
  some, and only a server group has references, with a rundown routine to call.
\<close>

theorem grp_table_invariant:
  assumes "grp_reach t"
  shows "unat (grp_count t) = length (assoc_grp_vector t) \<and>
    unat (grp_active_count t) = length (filter busy (assoc_grp_vector t)) \<and>
    (\<forall>g \<in> set (assoc_grp_vector t).
       unat (grp_cur_assoc g) = length (grp_assoc_list g) \<and> distinct (grp_assoc_list g) \<and>
       (cur_state (grp_state g) = 102 \<longleftrightarrow> grp_assoc_list g \<noteq> []) \<and>
       (grp_flags g = 0 \<longleftrightarrow> unused_grp g) \<and>
       (grp_refcnt g \<noteq> 0 \<longrightarrow> grp_flags g = 2 \<and> grp_liveness_mntr g \<noteq> None))"
proof -
  from grp_reach_inv [OF assms] have i: "tbl_inv t" .
  have "unat (grp_cur_assoc g) = length (grp_assoc_list g) \<and> distinct (grp_assoc_list g) \<and>
       (cur_state (grp_state g) = 102 \<longleftrightarrow> grp_assoc_list g \<noteq> []) \<and>
       (grp_flags g = 0 \<longleftrightarrow> unused_grp g) \<and>
       (grp_refcnt g \<noteq> 0 \<longrightarrow> grp_flags g = 2 \<and> grp_liveness_mntr g \<noteq> None)"
    if "grp_inv k g" for k and g :: "'a assoc_grp"
    using that by (auto simp: grp_inv_def unused_grp_def client_grp_def server_grp_def split: if_splits)
  with i show ?thesis by (fastforce simp: tbl_inv_def in_set_conv_nth)
qed

definition empty_tbl :: "nat assoc_grp_tbl" where
  "empty_tbl = \<lparr>grp_count = 0, grp_active_count = 0, assoc_grp_vector = [], seqnum = 7,
     assoc_grp_ids = (\<lambda>_. clear_local_id), rundowns = [], illegal = []\<rparr>"

lemma init_reach: "\<exists>t. rpc__cn_assoc_grp_tbl_init empty_tbl = Ok t \<and> grp_reach t \<and> unat (grp_count t) = 10"
  using init_step [of empty_tbl] reach_init by metis

theorem grp_index_bounds_witness:
  "\<exists>t. rpc__cn_assoc_grp_tbl_init empty_tbl = Ok t \<and>
    rpc__cn_assoc_grp_lkup_by_id \<lparr>id_seqnum = 1, id_index = 10\<rparr> 2 t = Fault"
proof -
  from init_reach obtain t where t: "rpc__cn_assoc_grp_tbl_init empty_tbl = Ok t" "grp_reach t" "unat (grp_count t) = 10" by blast
  have "RPC_CN_LOCAL_ID_VALID \<lparr>id_seqnum = 1, id_index = 10\<rparr>" by (simp add: RPC_CN_LOCAL_ID_VALID_def)
  from grp_index_bounds [OF t(2) this, of 2] t show ?thesis by auto
qed

theorem grp_table_invariant_witness:
  "\<exists>t. rpc__cn_assoc_grp_tbl_init empty_tbl = Ok t \<and> unat (grp_active_count t) = length (filter busy (assoc_grp_vector t))"
  using init_reach grp_table_invariant by blast

section \<open>Groups of a grown table are not reused\<close>

fun alloc_many :: "nat \<Rightarrow> 'a assoc_grp_tbl \<Rightarrow> 'a assoc_grp_tbl cn_result" where
  "alloc_many 0 t = Ok t"
| "alloc_many (Suc k) t =
     cn_bind (rpc__cn_assoc_grp_alloc (\<lambda>a. (Some a, 0)) None 2 0 t) (\<lambda>(_, _, t). alloc_many k t)"

definition never_closed :: "'a assoc_grp_tbl \<Rightarrow> bool" where
  "never_closed t \<longleftrightarrow> tbl_inv t \<and> (\<forall>g \<in> set (assoc_grp_vector t). cur_state (grp_state g) \<in> {0, 101})"

lemma never_closed_find: "never_closed t \<Longrightarrow> find_closed t = None"
proof -
  assume n: "never_closed t"
  have "\<forall>i < unat (grp_count t). cur_state (grp_state (assoc_grp_vector t ! i)) \<noteq> 100"
  proof (intro allI impI)
    fix i assume "i < unat (grp_count t)"
    with n have "assoc_grp_vector t ! i \<in> set (assoc_grp_vector t)" by (simp add: never_closed_def tbl_inv_def)
    with n have "cur_state (grp_state (assoc_grp_vector t ! i)) \<in> {0, 101}" unfolding never_closed_def by blast
    then show "cur_state (grp_state (assoc_grp_vector t ! i)) \<noteq> 100" by auto
  qed
  then have "filter (\<lambda>i. cur_state (grp_state (assoc_grp_vector t ! i)) = 100) [0..<unat (grp_count t)] = []"
    by (auto simp: filter_empty_conv)
  then show ?thesis by (simp add: find_closed_def)
qed

lemma alloc_grows:
  assumes "never_closed t" "unat (grp_count t) + 10 < 65536"
  obtains gid st t' where "rpc__cn_assoc_grp_alloc cp None 2 0 t = Ok (gid, st, t')" "never_closed t'"
    "unat (grp_count t') = unat (grp_count t) + 10" "unat (grp_active_count t') = unat (grp_active_count t) + 1"
proof -
  have i: "tbl_inv t" using assms(1) by (simp add: never_closed_def)
  from create_step [OF i assms(2)] obtain gs t1 where c:
    "rpc__cn_assoc_grp_create t = Ok (grp_id (gs ! 0), t1)" "tbl_inv t1" "length gs = 10"
    "assoc_grp_vector t1 = assoc_grp_vector t @ gs" "\<forall>g \<in> set gs. cur_state (grp_state g) = 0"
    "unat (grp_count t1) = unat (grp_count t) + 10" .
  let ?n = "unat (grp_count t)"
  have l: "length (assoc_grp_vector t) = ?n" using i by (simp add: tbl_inv_def)
  have nn: "assoc_grp_vector t1 ! ?n = gs ! 0" "?n < length (assoc_grp_vector t1)" "length (assoc_grp_vector t1) < 65536"
    using c(3,4) l assms(2) by (simp_all add: nth_append)
  then have g0: "grp_inv ?n (gs ! 0)" using c(2) by (metis tbl_inv_def)
  then have "RPC_CN_ASSOC_GRP (grp_id (gs ! 0)) = Some ?n"
    by (simp add: grp_inv_def RPC_CN_ASSOC_GRP_def RPC_CN_LOCAL_ID_VALID_def)
  then have e: "alloc_entry t = Ok (?n, t1)"
    using never_closed_find [OF assms(1)] c(1) by (simp add: alloc_entry_def)
  have u: "unused_grp (assoc_grp_vector t1 ! ?n)" using c(3,5) nn(1) by (simp add: unused_grp_def)
  have fl: "grp_flags (gs ! 0) = 0" using g0 u nn(1) by (simp add: grp_inv_def)
  let ?g = "assoc_grp_vector t1 ! ?n"
  define g where "g = ?g\<lparr>grp_address := grp_address ?g, grp_secaddr := grp_secaddr ?g, grp_flags := 2, grp_remid := 0,
               grp_state := (if (2 :: u16) = 1
                         then rpc__cn_sm_init rpc_g_cn_client_grp_sm (grp_state ?g) 6
                         else rpc__cn_sm_init rpc_g_cn_server_grp_sm (grp_state ?g) 5)\<rparr>"
  obtain g' t' where n:
    "RPC_CN_ASSOC_GRP_EVAL_EVENT ?n 100 0 (set_grp ?n g t1) = Ok t'"
    "tbl_inv (t'\<lparr>grp_active_count := grp_active_count t' + 1\<rparr>)"
    "length (assoc_grp_vector t') = length (assoc_grp_vector t1)" "cur_state (grp_state g') = 101"
    "assoc_grp_vector t' = (assoc_grp_vector t1)[?n := g']" "grp_count t' = grp_count t1"
    by (rule new_group_step [OF c(2) nn(2,3) u disjI2 [OF refl] g_def])
  let ?t = "t'\<lparr>grp_active_count := grp_active_count t' + 1\<rparr>"
  have "\<exists>gid st. rpc__cn_assoc_grp_alloc cp None 2 0 t = Ok (gid, st, ?t)"
    using nn n(1,3) fl by (simp add: alloc_unfold e grp_at_def g_def Let_def)
  moreover have vec: "assoc_grp_vector ?t = assoc_grp_vector t @ gs[0 := g']"
    using n(5) c(4) l by (simp add: list_update_append)
  moreover have "never_closed ?t"
  proof -
    have "cur_state (grp_state h) \<in> {0, 101}" if "h \<in> set (assoc_grp_vector t @ gs[0 := g'])" for h
      using that n(4) c(5) assms(1) set_update_subset_insert [of gs 0 g'] unfolding never_closed_def set_append by blast
    with n(2) vec show ?thesis by (simp only: never_closed_def) blast
  qed
  moreover have "busy g'" "filter busy gs = []"
    using n(4) c(5) by (auto simp: filter_empty_conv busy_def unused_grp_def)
  then have "length (filter busy (gs[0 := g'])) = 1"
    using length_filter_update [of 0 gs busy g'] c(3) u nn(1) by (simp add: busy_def)
  then have "length (filter busy (assoc_grp_vector ?t)) = length (filter busy (assoc_grp_vector t)) + 1"
    by (simp add: vec)
  then have "unat (grp_active_count ?t) = unat (grp_active_count t) + 1"
    using n(2) i by (simp add: tbl_inv_def)
  ultimately show ?thesis using that n(6) c(6) by auto
qed

lemma alloc_many_grows:
  "never_closed t \<Longrightarrow> unat (grp_count t) + 10 * k < 65536 \<Longrightarrow>
   \<exists>t'. alloc_many k t = Ok t' \<and> never_closed t' \<and> unat (grp_count t') = unat (grp_count t) + 10 * k \<and>
     unat (grp_active_count t') = unat (grp_active_count t) + k"
proof (induction k arbitrary: t)
  case (Suc k)
  then have "unat (grp_count t) + 10 < 65536" by simp
  from alloc_grows [OF Suc.prems(1) this] obtain gid st t1 where
    a: "rpc__cn_assoc_grp_alloc (\<lambda>a. (Some a, 0)) None 2 0 t = Ok (gid, st, t1)" "never_closed t1"
    "unat (grp_count t1) = unat (grp_count t) + 10" "unat (grp_active_count t1) = unat (grp_active_count t) + 1" .
  from Suc.IH [OF a(2)] Suc.prems(2) a show ?case by auto
qed simp

text \<open>
  The table never hands out nine of every ten entries it creates: a new entry has state 0,
  the search for a free one looks for the closed state 100, so with no group freed each
  allocation enlarges the table by ten, and after 6552 of them the 16-bit count wraps
  around and the next allocation writes outside the new table.
\<close>

theorem grp_alloc_wastes_entries:
  assumes "rpc__cn_assoc_grp_tbl_init t0 = Ok t" "k \<le> 6552"
  shows "\<exists>t'. alloc_many k t = Ok t' \<and> unat (grp_active_count t') = k \<and>
    unat (grp_count t') = 10 + 10 * k \<and>
    (k = 6552 \<longrightarrow> rpc__cn_assoc_grp_alloc cp ad ty rid t' = Fault)"
proof -
  obtain t1 where t1: "rpc__cn_assoc_grp_tbl_init t0 = Ok t1" "tbl_inv t1" "unat (grp_count t1) = 10"
    "unat (grp_active_count t1) = 0" "\<forall>g \<in> set (assoc_grp_vector t1). cur_state (grp_state g) = 0"
    by (rule init_step)
  with assms(1) have i: "never_closed t" "unat (grp_count t) = 10" "unat (grp_active_count t) = 0"
    by (simp_all add: never_closed_def)
  from alloc_many_grows [OF i(1), of k] i assms(2) obtain t' where t':
    "alloc_many k t = Ok t'" "never_closed t'" "unat (grp_count t') = 10 + 10 * k" "unat (grp_active_count t') = k" by auto
  moreover have "rpc__cn_assoc_grp_alloc cp ad ty rid t' = Fault" if "k = 6552"
  proof -
    have "unat (grp_count t' + 10) < unat (grp_count t')" using t'(3) that by (simp add: word_vals)
    then have "rpc__cn_assoc_grp_create t' = Fault" by (simp add: rpc__cn_assoc_grp_create_def Let_def)
    then show ?thesis using never_closed_find [OF t'(2)] by (simp add: rpc__cn_assoc_grp_alloc_def)
  qed
  ultimately show ?thesis by blast
qed

theorem grp_alloc_wastes_entries_witness:
  "\<exists>t t'. rpc__cn_assoc_grp_tbl_init empty_tbl = Ok t \<and> alloc_many 3 t = Ok t' \<and>
     unat (grp_active_count t') = 3 \<and> unat (grp_count t') = 40"
proof -
  from init_reach obtain t where "rpc__cn_assoc_grp_tbl_init empty_tbl = Ok t" by blast
  with grp_alloc_wastes_entries [OF this, of 3] show ?thesis by auto
qed

section \<open>Lookups and the end of a server group\<close>

text \<open>
  Looking a group up by the identifier a peer sent: an identifier whose index lies
  outside the table is read through without a check, a group is found exactly when the
  whole identifier is its own, its type is the one asked for and it is active, and the
  answer is then the identifier itself.
\<close>

theorem grp_lkup_by_id_result:
  "(rpc__cn_assoc_grp_lkup_by_id gid type t = Fault \<longleftrightarrow>
      RPC_CN_LOCAL_ID_VALID gid \<and> length (assoc_grp_vector t) \<le> unat (id_index gid)) \<and>
   (\<forall>r st. rpc__cn_assoc_grp_lkup_by_id gid type t = Ok (r, st) \<longrightarrow>
      (if in_table t gid \<and> grp_id (entry t gid) = gid \<and> grp_matches type (entry t gid)
       then r = gid \<and> st = 0
       else r = clear_local_id \<and> st = rpc_s_assoc_grp_not_found))"
  by (auto simp: rpc__cn_assoc_grp_lkup_by_id_def RPC_CN_ASSOC_GRP_def grp_at_def in_table_def entry_def
      grp_matches_def RPC_CN_LOCAL_ID_EQUAL_def split: if_splits)

theorem grp_lkup_by_id_result_witness:
  "rpc__cn_assoc_grp_lkup_by_id \<lparr>id_seqnum = 1, id_index = 10\<rparr> 2 empty_tbl = Fault"
  using grp_lkup_by_id_result [of "\<lparr>id_seqnum = 1, id_index = 10\<rparr>" 2 empty_tbl]
  by (simp add: empty_tbl_def RPC_CN_LOCAL_ID_VALID_def)

lemma server_close_step:
  assumes "tbl_inv t" "i < length (assoc_grp_vector t)" "g = assoc_grp_vector t ! i"
    "cur_state (grp_state g) = 103" "grp_callcnt g = 0"
  shows "\<exists>t'. grp_no_calls_check i a t = Ok t' \<and> cur_state (grp_state (assoc_grp_vector t' ! i)) = 100 \<and>
    rundowns t' = rundowns t @ (if grp_refcnt g = 0 then [] else [(the (grp_liveness_mntr g), grp_id g)]) \<and>
    assoc_grp_ids t' = (assoc_grp_ids t)(a := clear_local_id)"
proof -
  have inv: "grp_inv i g" using assms by (auto simp: tbl_inv_def)
  with assms(4) have k: "server_grp g" "event_list_state (grp_state g) = 0"
    "grp_refcnt g \<noteq> 0 \<longrightarrow> grp_liveness_mntr g \<noteq> None"
    by (auto simp: grp_inv_def unused_grp_def)
  let ?w = "\<lparr>gw_grp = g, gw_ids = assoc_grp_ids t, gw_rundowns = rundowns t, gw_illegal = illegal t\<rparr>"
  define rd where "rd = rundowns t @ (if grp_refcnt g = 0 then [] else [(the (grp_liveness_mntr g), grp_id g)])"
  obtain st where turn: "sm_turn (grp_action_tbl (tbl_id (grp_state g))) \<lparr>event_id = ucast (103 :: u32), event_param = a\<rparr>
      ((grp_state g)\<lparr>action_status := 0\<rparr>) ?w
      = Ok ((grp_state g)\<lparr>cur_event := 103, cur_state := 100, action_status := st\<rparr>,
            ?w\<lparr>gw_ids := (assoc_grp_ids t)(a := clear_local_id), gw_rundowns := rd\<rparr>)"
  proof (cases "grp_refcnt g = 0")
    case True
    with server_turns(5) [OF k(1) refl assms(4), of ?w a] that [of 0] show ?thesis by (simp add: rd_def)
  next
    case False
    with k(3) obtain f where "grp_liveness_mntr g = Some f" by auto
    with server_turns(6) [OF k(1) refl assms(4), of ?w f a] that False show ?thesis by (simp add: rd_def)
  qed
  let ?g = "g\<lparr>grp_state := (grp_state g)\<lparr>cur_event := 103, cur_state := 100, action_status := st\<rparr>, grp_status := st\<rparr>"
  let ?t = "t\<lparr>assoc_grp_ids := (assoc_grp_ids t)(a := clear_local_id), rundowns := rd\<rparr>"
  have ev: "RPC_CN_ASSOC_GRP_EVAL_EVENT i 103 a t = rpc__cn_assoc_grp_dealloc (grp_id ?g) (set_grp i ?g ?t)"
    using grp_eval_turn [OF assms(2,3) k(2) turn] k(2) by (simp add: Let_def)
  have "busy g" using assms(4) by (simp add: busy_def unused_grp_def)
  then have "\<exists>t'. rpc__cn_assoc_grp_dealloc (grp_id ?g) (set_grp i ?g ?t) = Ok t' \<and>
      cur_state (grp_state (assoc_grp_vector t' ! i)) = 100 \<and> rundowns t' = rundowns ?t \<and> assoc_grp_ids t' = assoc_grp_ids ?t"
    using dealloc_inv [of ?t i ?g] assms k(2) by auto
  with ev k(1) assms show ?thesis
    by (simp add: grp_no_calls_check_def grp_at_def rd_def server_grp_def)
qed

text \<open>
  Removing the last association of a server group, on which no call runs, closes the
  group at once, clears the association's identifier and calls the registered rundown
  routine with the group's identifier exactly when the group still holds references.
\<close>

theorem grp_last_association_rundown:
  assumes "grp_reach t" "grp_pre (OpRem gid a) t" "grp_id (entry t gid) = gid" "RPC_CN_LOCAL_ID_VALID gid"
    and "grp_flags (entry t gid) = 2" "grp_assoc_list (entry t gid) = [a]" "grp_callcnt (entry t gid) = 0"
  shows "\<exists>t'. rpc__cn_assoc_grp_rem_assoc gid a t = Ok t' \<and> cur_state (grp_state (entry t' gid)) = 100 \<and>
    rundowns t' = rundowns t @ (if grp_refcnt (entry t gid) = 0 then []
                                else [(the (grp_liveness_mntr (entry t gid)), gid)]) \<and>
    assoc_grp_ids t' a = clear_local_id"
proof -
  let ?i = "unat (id_index gid)" and ?g = "entry t gid"
  have i: "tbl_inv t" by (rule grp_reach_inv [OF assms(1)])
  have p: "?i < length (assoc_grp_vector t)" "cur_state (grp_state ?g) = 102"
    using assms(2,4) by (auto simp: in_table_def)
  have inv: "grp_inv ?i ?g" using i p by (simp add: tbl_inv_def entry_def)
  then have k: "server_grp ?g" "event_list_state (grp_state ?g) = 0" "grp_cur_assoc ?g = 1"
    using assms(5,6) p(2) by (auto simp: grp_inv_def unused_grp_def client_grp_def simp flip: unat_eq_iff)
  let ?w = "\<lparr>gw_grp = ?g, gw_ids = assoc_grp_ids t, gw_rundowns = rundowns t, gw_illegal = illegal t\<rparr>"
  define sm where "sm = (grp_state ?g)\<lparr>cur_event := 102, cur_state := 103, action_status := grp_status ?g\<rparr>"
  define g' where "g' = ?g\<lparr>grp_cur_assoc := 0, grp_assoc_list := [], grp_state := sm, grp_status := grp_status ?g\<rparr>"
  have turn: "sm_turn (grp_action_tbl (tbl_id (grp_state ?g))) \<lparr>event_id = ucast (102 :: u32), event_param = a\<rparr>
      ((grp_state ?g)\<lparr>action_status := 0\<rparr>) ?w = Ok (sm, ?w\<lparr>gw_grp := ?g\<lparr>grp_cur_assoc := 0, grp_assoc_list := []\<rparr>\<rparr>)"
    using server_turns(4) [OF k(1) refl p(2), of a ?w] k(3) assms(6) by (simp add: Let_def sm_def)
  have ev: "RPC_CN_ASSOC_GRP_EVAL_EVENT ?i 102 a t = Ok (set_grp ?i g' t)"
    by (subst grp_eval_turn [OF p(1) entry_def k(2) turn]) (use k(2) in \<open>simp_all add: sm_def g'_def Let_def\<close>)
  have t1: "tbl_inv (set_grp ?i g' t)"
  proof (rule tbl_inv_set [OF i p(1)])
    show "grp_inv ?i g'" using inv k p(2) assms(6) by (auto simp: grp_inv_def unused_grp_def server_grp_def client_grp_def g'_def sm_def)
    show "busy g' = busy (assoc_grp_vector t ! ?i)" using p(2) by (simp add: busy_def unused_grp_def g'_def sm_def entry_def)
  qed
  have "assoc_grp_vector (set_grp ?i g' t) ! ?i = g'" "?i < length (assoc_grp_vector (set_grp ?i g' t))"
    using p(1) by (simp_all add: set_grp_def)
  note at = this
  have G: "cur_state (grp_state g') = 103" "grp_callcnt g' = 0" "grp_refcnt g' = grp_refcnt ?g"
    "grp_liveness_mntr g' = grp_liveness_mntr ?g" "grp_id g' = gid"
    using assms(3,7) by (simp_all add: g'_def sm_def)
  from server_close_step [OF t1 at(2) at(1) [symmetric] G(1,2), of a] obtain t' where t':
    "grp_no_calls_check ?i a (set_grp ?i g' t) = Ok t'" "cur_state (grp_state (assoc_grp_vector t' ! ?i)) = 100"
    "rundowns t' = rundowns t @ (if grp_refcnt ?g = 0 then [] else [(the (grp_liveness_mntr ?g), gid)])"
    "assoc_grp_ids t' = (assoc_grp_ids t)(a := clear_local_id)"
    unfolding G by (auto simp: set_grp_def)
  then show ?thesis
    by (intro exI [of _ t']) (simp add: rpc__cn_assoc_grp_rem_assoc_def RPC_CN_ASSOC_GRP_def assms(4) ev entry_def)
qed

theorem grp_last_association_rundown_witness:
  "\<exists>t gid t'. grp_reach t \<and> grp_assoc_list (entry t gid) = [3] \<and>
     rpc__cn_assoc_grp_rem_assoc gid 3 (t :: nat assoc_grp_tbl) = Ok t' \<and> cur_state (grp_state (entry t' gid)) = 100"
proof -
  from init_reach obtain t0 :: "nat assoc_grp_tbl" where t0: "grp_reach t0" "unat (grp_count t0) = 10" by blast
  let ?alloc = "OpAlloc (\<lambda>a. (Some a, 0)) (Some 5) 2 0 :: nat grp_op"
  have pre: "grp_pre ?alloc t0" using t0 by simp
  have c10: "unat (grp_count t0) + 10 < 65536" using t0(2) by simp
  obtain gid st t1 where al: "rpc__cn_assoc_grp_alloc (\<lambda>a. (Some a, 0)) (Some 5) 2 0 t0 = Ok (gid, st, t1)"
    "tbl_inv t1" and vec: "RPC_CN_LOCAL_ID_VALID gid \<longrightarrow> unat (id_index gid) < length (assoc_grp_vector t1) \<and>
       (\<exists>g. assoc_grp_vector t1 ! unat (id_index gid) = g \<and> grp_id g = gid \<and> cur_state (grp_state g) = 101 \<and>
            grp_flags g = 2 \<and> grp_remid g = 0 \<and> grp_callcnt g = 0 \<and> grp_assoc_list g = [])"
    and copied: "(\<forall>a. Some (5 :: nat) = Some a \<longrightarrow> snd (Some a, 0 :: u32) = 0) \<longrightarrow> RPC_CN_LOCAL_ID_VALID gid"
    by (rule alloc_step [OF grp_reach_inv [OF t0(1)] c10 disjI2 [OF refl],
          where addr_copy = "\<lambda>a. (Some a, 0)" and rpc_addr = "Some 5" and rem_id = 0])
  have valid: "RPC_CN_LOCAL_ID_VALID gid" using copied by simp
  have r1: "grp_reach t1" by (rule reach_step [OF t0(1) pre]) (simp add: al(1))
  from vec valid have e1: "unat (id_index gid) < length (assoc_grp_vector t1)"
    "grp_id (entry t1 gid) = gid" "cur_state (grp_state (entry t1 gid)) = 101"
    "grp_flags (entry t1 gid) = 2" "grp_callcnt (entry t1 gid) = 0" "grp_assoc_list (entry t1 gid) = []"
    unfolding entry_def by blast+
  have pre2: "grp_pre (OpAdd gid 3) t1" using e1 valid by (simp add: in_table_def)
  have s: "cur_state (grp_state (entry t1 gid)) = 101 \<or> cur_state (grp_state (entry t1 gid)) = 102"
    "3 \<notin> set (grp_assoc_list (entry t1 gid))" "length (grp_assoc_list (entry t1 gid)) < 65535" using e1 by simp_all
  let ?i = "unat (id_index gid)"
  obtain t2 where st: "RPC_CN_ASSOC_GRP_EVAL_EVENT ?i 101 3 t1 = Ok t2"
    "cur_state (grp_state (assoc_grp_vector t2 ! ?i)) = 102"
    "grp_assoc_list (assoc_grp_vector t2 ! ?i) = 3 # grp_assoc_list (entry t1 gid)"
    "assoc_grp_vector t2 = (assoc_grp_vector t1)[?i := assoc_grp_vector t2 ! ?i]"
    "grp_callcnt (assoc_grp_vector t2 ! ?i) = grp_callcnt (entry t1 gid)"
    "grp_flags (assoc_grp_vector t2 ! ?i) = grp_flags (entry t1 gid)"
    "grp_id (assoc_grp_vector t2 ! ?i) = grp_id (entry t1 gid)"
    by (rule add_step [OF al(2) e1(1) entry_def s])
  note ad = st [folded entry_def]
  have "grp_exec (OpAdd gid 3) t1 = Ok t2"
    using ad(1) valid by (simp add: rpc__cn_assoc_grp_add_assoc_def RPC_CN_ASSOC_GRP_def)
  from reach_step [OF r1 pre2 this] have r2: "grp_reach t2" .
  have len: "length (assoc_grp_vector t2) = length (assoc_grp_vector t1)" by (subst ad(4)) simp
  have e2: "grp_assoc_list (entry t2 gid) = [3]" "grp_callcnt (entry t2 gid) = 0" "grp_flags (entry t2 gid) = 2"
    "grp_id (entry t2 gid) = gid" using ad e1 by simp_all
  have "grp_pre (OpRem gid 3) t2" using ad(2) e2(1) e1(1) valid len by (simp add: in_table_def)
  from grp_last_association_rundown [OF r2 this e2(4) valid e2(3,1,2)] r2 e2(1) show ?thesis by blast
qed

text \<open>
  \<open>SERVER_ASSOC_COUNT_PRED\<close> is not the predicate it is documented to be: with one
  association and no server references its second test sees the value the first one just
  wrote and answers 2 instead of 1, and only then differs from \<open>server_assoc_count_pred_rtn\<close>;
  so it never answers 1 and the closing branch of the removal action is dead.
\<close>

theorem server_assoc_count_macro_differs:
  "(SERVER_ASSOC_COUNT_PRED g \<noteq> ucast (server_assoc_count_pred_rtn g) \<longleftrightarrow>
      grp_cur_assoc g = 1 \<and> grp_refcnt g = 0) \<and> SERVER_ASSOC_COUNT_PRED g \<noteq> 1"
  by (auto simp: SERVER_ASSOC_COUNT_PRED_def SERVER_REFS_PRED_def server_assoc_count_pred_rtn_def
      server_refs_pred_rtn_def Let_def)

end
