(* ===== verification/RpcClock.thy ===== *)
theory RpcClock
  imports Prelude
begin

text \<open>
  The approximate clock of the runtime: \<open>ncklib/rpc/rpcclock.c\<close>, with the types of the x86_64
  port, where \<open>unsigned long\<close> and \<open>time_t\<close> have 64 bits and \<open>rpc_clock_t\<close> has 32.  The clock
  counts ticks of a fifth of a second; a reading of \<open>gettimeofday\<close> is a pair of seconds and
  microseconds.
\<close>

section \<open>The clock\<close>

abbreviation (input) RPC_C_CLOCK_HZ :: "'a::numeral" where "RPC_C_CLOCK_HZ \<equiv> 5"

definition RPC_CLOCK_SEC :: "u32 \<Rightarrow> u32" where
  "RPC_CLOCK_SEC sec = sec * RPC_C_CLOCK_HZ"

record clock_state =
  start_sec :: int
  start_usec :: int
  clock_skew :: u32
  clock_curr :: u32
  clock_unix_curr :: u32
  long_sleep :: bool

text \<open>The local \<open>ticks\<close>: differences are \<open>long\<close>, the skew is added as a non-negative \<open>long\<close>.\<close>

definition clock_ticks :: "int \<times> int \<Rightarrow> clock_state \<Rightarrow> u64" where
  "clock_ticks tp s =
     (case tp of (tv_sec, tv_usec) \<Rightarrow>
      let ticks = word_of_int ((tv_sec - start_sec s) * RPC_C_CLOCK_HZ + uint (clock_skew s));
          (ticks, tv_usec) = (if tv_usec < start_usec s then (ticks - RPC_C_CLOCK_HZ, tv_usec + 1000000)
                              else (ticks, tv_usec))
      in ticks + word_of_int ((tv_usec - start_usec s) div (1000000 div RPC_C_CLOCK_HZ)))"

definition rpc__clock_update :: "int \<times> int \<Rightarrow> clock_state \<Rightarrow> clock_state" where
  "rpc__clock_update tp s =
     (if start_sec s = 0 then
        let (tv_sec, tv_usec) = tp;
            usec = tv_usec - 1000000 div RPC_C_CLOCK_HZ;
            (sec, usec) = (if usec < 0 then (tv_sec - 1, usec + 1000000) else (tv_sec, usec))
        in s\<lparr>start_sec := sec, start_usec := usec, clock_unix_curr := word_of_int tv_sec, clock_curr := 1\<rparr>
      else
        let ticks = clock_ticks tp s;
            curr = clock_curr s;
            s = s\<lparr>clock_unix_curr := word_of_int (fst tp)\<rparr>
        in if ticks < ucast curr \<or> ticks > ucast (curr + RPC_CLOCK_SEC 60)
           then s\<lparr>clock_skew := ucast (ucast (clock_skew s) + (ucast curr - ticks + RPC_C_CLOCK_HZ)),
                  clock_curr := curr + RPC_C_CLOCK_HZ\<rparr>
           else s\<lparr>clock_curr := ucast ticks\<rparr>)"

definition rpc__clock_stamp :: "int \<times> int \<Rightarrow> clock_state \<Rightarrow> u32 \<times> clock_state" where
  "rpc__clock_stamp tp s = (let s = (if long_sleep s then rpc__clock_update tp s else s) in (clock_curr s, s))"

definition rpc__clock_aged :: "u32 \<Rightarrow> u32 \<Rightarrow> clock_state \<Rightarrow> bool" where
  "rpc__clock_aged time interval s = (clock_curr s \<ge> time + interval)"

definition rpc__clock_unix_expired :: "u32 \<Rightarrow> clock_state \<Rightarrow> bool" where
  "rpc__clock_unix_expired time s = (clock_unix_curr s \<ge> time)"

text \<open>\<open>rpc__clock_timespec\<close>: seconds and nanoseconds.\<close>

definition rpc__clock_timespec :: "u32 \<Rightarrow> clock_state \<Rightarrow> int \<times> int" where
  "rpc__clock_timespec clock s =
     (let clock = clock - clock_skew s;
          tv_sec = start_sec s + uint (clock div RPC_C_CLOCK_HZ);
          tv_nsec = 1000 * start_usec s + uint (clock mod RPC_C_CLOCK_HZ) * (1000000000 div RPC_C_CLOCK_HZ)
      in if tv_nsec \<ge> 1000000000 then (tv_sec + 1, tv_nsec - 1000000000) else (tv_sec, tv_nsec))"

section \<open>Ticks since the start\<close>

text \<open>
  A started clock has a start time, and a reading is normalised.  \<open>elapsed\<close> counts the whole
  ticks between the start time and a reading; \<open>reading\<close> is the tick count the clock would show for
  it, the skew included.
\<close>

definition started :: "clock_state \<Rightarrow> bool" where
  "started s \<longleftrightarrow> start_sec s \<noteq> 0 \<and> 0 \<le> start_usec s \<and> start_usec s < 1000000"

definition elapsed :: "clock_state \<Rightarrow> int \<times> int \<Rightarrow> int" where
  "elapsed s tp = ((fst tp * 1000000 + snd tp) - (start_sec s * 1000000 + start_usec s)) div 200000"

definition reading :: "clock_state \<Rightarrow> int \<times> int \<Rightarrow> int" where
  "reading s tp = elapsed s tp + uint (clock_skew s)"

lemma clock_ticks_reading: "clock_ticks tp s = word_of_int (reading s tp)"
proof -
  obtain sec us where tp: "tp = (sec, us)" by fastforce
  have e: "elapsed s tp = (sec - start_sec s) * 5 + (us - start_usec s) div 200000"
  proof -
    have "(sec * 1000000 + us) - (start_sec s * 1000000 + start_usec s)
        = (us - start_usec s) + ((sec - start_sec s) * 5) * 200000" by (simp add: algebra_simps)
    then show ?thesis unfolding elapsed_def tp fst_conv snd_conv by simp
  qed
  have "us + 1000000 - start_usec s = (us - start_usec s) + 5 * 200000" by simp
  then have d: "(us + 1000000 - start_usec s) div 200000 = (us - start_usec s) div 200000 + 5" by simp
  show ?thesis unfolding reading_def e by (simp add: clock_ticks_def tp d Let_def)
qed

lemma uint_ticks:
  "0 \<le> reading s tp \<Longrightarrow> reading s tp < 2 ^ 64 \<Longrightarrow> uint (clock_ticks tp s) = reading s tp"
  by (simp add: clock_ticks_reading uint_word_of_int)

text \<open>The microseconds since the last tick.\<close>

definition tick_part :: "clock_state \<Rightarrow> int \<times> int \<Rightarrow> int" where
  "tick_part s tp = ((fst tp * 1000000 + snd tp) - (start_sec s * 1000000 + start_usec s)) mod 200000"

lemma tick_parts:
  "fst tp * 1000000 + snd tp = start_sec s * 1000000 + start_usec s + elapsed s tp * 200000 + tick_part s tp"
  "0 \<le> tick_part s tp" "tick_part s tp < 200000"
  using div_mult_mod_eq [of "(fst tp * 1000000 + snd tp) - (start_sec s * 1000000 + start_usec s)" 200000]
  by (simp_all add: elapsed_def tick_part_def)

text \<open>Without its skew an updated clock shows the ticks elapsed, whether it took the reading over or not.\<close>

lemma update_elapsed:
  assumes "started s"
  shows "clock_curr (rpc__clock_update tp s) - clock_skew (rpc__clock_update tp s) = word_of_int (elapsed s tp)"
    "start_sec (rpc__clock_update tp s) = start_sec s" "start_usec (rpc__clock_update tp s) = start_usec s"
proof -
  let ?t = "clock_ticks tp s" and ?c = "clock_curr s"
  have r: "(word_of_int (reading s tp) :: u32) = word_of_int (elapsed s tp) + clock_skew s" by (simp add: reading_def)
  have t: "(ucast ?t :: u32) = word_of_int (elapsed s tp) + clock_skew s" unfolding r [symmetric] by (simp only: clock_ticks_reading ucast_of_int)
  have k: "(ucast (ucast (clock_skew s) + (ucast ?c - ?t + 5)) :: u32) = ?c + 5 - word_of_int (elapsed s tp)"
  proof -
    have "ucast (clock_skew s) + (ucast ?c - ?t + 5) = (word_of_int (uint (clock_skew s) + uint ?c - reading s tp + 5) :: u64)"
      by (simp add: clock_ticks_reading algebra_simps)
    then have "(ucast (ucast (clock_skew s) + (ucast ?c - ?t + 5)) :: u32) = word_of_int (uint (clock_skew s) + uint ?c - reading s tp + 5)"
      by (simp only: ucast_of_int)
    then show ?thesis by (simp add: reading_def algebra_simps)
  qed
  show "clock_curr (rpc__clock_update tp s) - clock_skew (rpc__clock_update tp s) = word_of_int (elapsed s tp)"
    using assms t k by (simp add: rpc__clock_update_def started_def Let_def)
  show "start_sec (rpc__clock_update tp s) = start_sec s" "start_usec (rpc__clock_update tp s) = start_usec s"
    using assms by (simp_all add: rpc__clock_update_def started_def Let_def)
qed

text \<open>The time \<open>rpc__clock_timespec\<close> gives, in nanoseconds.\<close>

lemma timespec_ticks:
  assumes "started s" "rpc__clock_timespec clock s = (sec, nsec)"
  shows "sec * 1000000000 + nsec = start_sec s * 1000000000 + start_usec s * 1000 + uint (clock - clock_skew s) * 200000000"
    "0 \<le> nsec" "nsec < 1000000000"
proof -
  define c where "c = uint (clock - clock_skew s)"
  have dm: "uint ((clock - clock_skew s) div 5) = c div 5" "uint ((clock - clock_skew s) mod 5) = c mod 5"
    by (simp_all add: uint_div uint_mod c_def)
  have m5: "0 \<le> c mod 5" "c mod 5 < 5" "c div 5 * 5 + c mod 5 = c" by simp_all
  have st: "0 \<le> start_usec s" "start_usec s < 1000000" using assms(1) by (simp_all add: started_def)
  define n where "n = 1000 * start_usec s + c mod 5 * 200000000"
  have n: "0 \<le> n" "n < 2000000000" using st m5 unfolding n_def by linarith+
  have t: "(sec, nsec) = (if n \<ge> 1000000000 then (start_sec s + c div 5 + 1, n - 1000000000) else (start_sec s + c div 5, n))"
    unfolding assms(2) [symmetric] by (simp add: rpc__clock_timespec_def Let_def dm n_def)
  have v: "sec * 1000000000 + nsec = (start_sec s + c div 5) * 1000000000 + n" using t by (auto split: if_splits)
  then show "sec * 1000000000 + nsec = start_sec s * 1000000000 + start_usec s * 1000 + uint (clock - clock_skew s) * 200000000"
  proof -
    obtain a b where ab: "c div 5 = a" "c mod 5 = b" by blast
    have "c = a * 5 + b" using m5(3) unfolding ab by simp
    moreover assume "sec * 1000000000 + nsec = (start_sec s + c div 5) * 1000000000 + n"
    ultimately show ?thesis unfolding n_def c_def [symmetric] ab by simp
  qed
  show "0 \<le> nsec" "nsec < 1000000000" using t n by (auto split: if_splits)
qed

text \<open>A reading is in step when the clock may simply take it over.\<close>

definition in_step :: "clock_state \<Rightarrow> int \<times> int \<Rightarrow> bool" where
  "in_step s tp \<longleftrightarrow> uint (clock_curr s) \<le> reading s tp \<and> reading s tp \<le> uint (clock_curr s) + 300"

lemma update_step:
  assumes "started s" "- (2 ^ 63) \<le> reading s tp" "reading s tp < 2 ^ 63" "uint (clock_curr s) + 300 < 2 ^ 32"
  shows "rpc__clock_update tp s =
    (let s' = s\<lparr>clock_unix_curr := word_of_int (fst tp)\<rparr>
     in if in_step s tp then s'\<lparr>clock_curr := word_of_int (reading s tp)\<rparr>
        else s'\<lparr>clock_skew := word_of_int (uint (clock_skew s) + uint (clock_curr s) - reading s tp + 5),
                clock_curr := clock_curr s + 5\<rparr>)"
proof -
  let ?r = "reading s tp" and ?c = "clock_curr s"
  have c: "uint (ucast ?c :: u64) = uint ?c" by (simp add: uint_up_ucast is_up)
  have c3: "uint (ucast (?c + RPC_CLOCK_SEC 60) :: u64) = uint ?c + 300"
    using assms(4) by (simp add: uint_up_ucast is_up RPC_CLOCK_SEC_def uint_word_ariths)
  have t: "uint (clock_ticks tp s) = (if ?r < 0 then ?r + 2 ^ 64 else ?r)"
  proof (cases "?r < 0")
    case True
    have "?r mod 2 ^ 64 = (?r + 2 ^ 64) mod 2 ^ 64" by simp
    also have "\<dots> = ?r + 2 ^ 64" by (rule mod_pos_pos_trivial) (use True assms(2) in simp_all)
    finally show ?thesis using True by (simp add: clock_ticks_reading uint_word_of_int)
  qed (use uint_ticks [of s tp] assms in simp)
  have j: "(clock_ticks tp s < ucast ?c \<or> clock_ticks tp s > ucast (?c + RPC_CLOCK_SEC 60)) \<longleftrightarrow> \<not> in_step s tp"
  proof (cases "?r < 0")
    case True
    then have "\<not> in_step s tp" unfolding in_step_def using uint_u32(1) [of ?c] by linarith
    moreover have "?r + 2 ^ 64 > uint ?c + 300" using assms [unfolded pow2_vals] unfolding pow2_vals by linarith
    ultimately show ?thesis using True unfolding word_less_def c c3 t by simp
  next
    case False
    then show ?thesis unfolding word_less_def c c3 t in_step_def by auto
  qed
  have k: "(ucast (ucast (clock_skew s) + (ucast ?c - clock_ticks tp s + 5)) :: u32)
      = word_of_int (uint (clock_skew s) + uint ?c - ?r + 5)"
  proof -
    have "ucast (clock_skew s) + (ucast ?c - clock_ticks tp s + 5) = (word_of_int (uint (clock_skew s) + uint ?c - ?r + 5) :: u64)"
      by (simp add: clock_ticks_reading algebra_simps)
    then show ?thesis by (simp only: ucast_of_int)
  qed
  have r: "in_step s tp \<Longrightarrow> (ucast (clock_ticks tp s) :: u32) = word_of_int ?r"
    by (simp only: clock_ticks_reading ucast_of_int)
  show ?thesis
    using assms(1) j k r by (simp add: rpc__clock_update_def started_def Let_def)
qed


text \<open>
  An update never takes a running clock back and never moves it by more than a minute;
  when the time of day has moved in step, the clock shows the ticks elapsed since the start
  plus the skew, and otherwise exactly one second more than before.
\<close>

theorem clock_update_bounded:
  assumes "started s" "\<bar>reading s tp\<bar> < 2 ^ 63" "uint (clock_curr s) + 300 < 2 ^ 32"
  shows "let s' = rpc__clock_update tp s in
    uint (clock_curr s) \<le> uint (clock_curr s') \<and> uint (clock_curr s') \<le> uint (clock_curr s) + 300 \<and>
    uint (clock_curr s') = (if in_step s tp then elapsed s tp + uint (clock_skew s) else uint (clock_curr s) + 5) \<and>
    (in_step s tp \<longrightarrow> clock_skew s' = clock_skew s) \<and> started s'"
proof -
  have b: "- (2 ^ 63) \<le> reading s tp" "reading s tp < 2 ^ 63" using assms(2) by simp_all
  have p: "uint (clock_curr s + 5) = uint (clock_curr s) + 5"
    using assms(3) uint_u32 [of "clock_curr s"] by (simp add: uint_word_ariths)
  show ?thesis
  proof (cases "in_step s tp")
    case True
    then have r: "uint (clock_curr s) \<le> reading s tp" "reading s tp \<le> uint (clock_curr s) + 300" by (simp_all add: in_step_def)
    then have "uint (word_of_int (reading s tp) :: u32) = reading s tp"
      by (intro uint_small) (use assms(3) [unfolded pow2_vals] uint_u32(1) [of "clock_curr s"] in linarith)+
    with r True assms(1) show ?thesis
      by (simp add: update_step [OF assms(1) b assms(3)] Let_def started_def reading_def)
  next
    case False
    with p assms(1) show ?thesis by (simp add: update_step [OF assms(1) b assms(3)] Let_def started_def)
  qed
qed

text \<open>
  When the time of day is set back, the next update adjusts the skew so that the clock is
  in step again from then on: it goes on by one second and then by the time that passes.
\<close>

theorem clock_set_back:
  assumes "started s" "\<bar>reading s tp\<bar> < 2 ^ 30" "uint (clock_curr s) + 600 < 2 ^ 31" "uint (clock_skew s) < 2 ^ 30"
    and "reading s tp < uint (clock_curr s)" "0 \<le> d" "d \<le> 300" "elapsed s tp2 = elapsed s tp + d"
  shows "let s' = rpc__clock_update tp s; s'' = rpc__clock_update tp2 s' in
    uint (clock_curr s') = uint (clock_curr s) + 5 \<and> uint (clock_curr s'') = uint (clock_curr s) + 5 + d"
proof -
  let ?sk = "uint (clock_skew s) + uint (clock_curr s) - reading s tp + 5"
  define s' where "s' = rpc__clock_update tp s"
  have u: "s' = s\<lparr>clock_unix_curr := word_of_int (fst tp), clock_skew := word_of_int ?sk, clock_curr := clock_curr s + 5\<rparr>"
    unfolding s'_def by (subst update_step) (use assms in \<open>simp_all add: in_step_def Let_def\<close>)
  have p: "uint (clock_curr s + 5) = uint (clock_curr s) + 5"
    using assms(3) uint_u32 [of "clock_curr s"] by (simp add: uint_word_ariths)
  have sk: "uint (word_of_int ?sk :: u32) = ?sk"
    by (rule uint_small) (use assms [unfolded pow2_vals] uint_u32(1) [of "clock_curr s"] uint_u32(1) [of "clock_skew s"] in linarith)+
  have r: "reading s' tp2 = uint (clock_curr s) + 5 + d"
    using assms(8) sk by (simp add: u reading_def elapsed_def)
  have st: "started s'" using assms(1) by (simp add: u started_def)
  have "rpc__clock_update tp2 s' = s'\<lparr>clock_unix_curr := word_of_int (fst tp2), clock_curr := word_of_int (reading s' tp2)\<rparr>"
    by (subst update_step [OF st]) (use r p u assms uint_u32(1) [of "clock_curr s"] in \<open>simp_all add: in_step_def Let_def\<close>)
  moreover have "uint (word_of_int (reading s' tp2) :: u32) = reading s' tp2"
    by (rule uint_small) (use r assms [unfolded pow2_vals] uint_u32(1) [of "clock_curr s"] in linarith)+
  ultimately show ?thesis using u p r by (simp add: Let_def s'_def [symmetric])
qed

text \<open>
  When the time of day jumps ahead by more than a minute the clock does not get in step
  again: the 32-bit skew becomes a large positive number in the 64-bit tick count, every
  following update finds the clock out of step, and as long as the clock lags behind the
  time elapsed it advances by one second per update, however long the updates are apart.
\<close>

theorem clock_forward_jump:
  assumes "started s" "clock_skew s = 0" "elapsed s tp > uint (clock_curr s) + 300"
    and "\<forall>i < length tps. uint (clock_curr s) + 5 * (int i + 2) < elapsed s (tps ! i) \<and>
       elapsed s ((tp # tps) ! i) \<le> elapsed s (tps ! i) \<and> elapsed s (tps ! i) < 2 ^ 31"
    and "elapsed s tp < 2 ^ 31" "uint (clock_curr s) + 5 * (int (length tps) + 1) + 300 < 2 ^ 31"
  shows "uint (clock_curr (fold rpc__clock_update (tp # tps) s)) = uint (clock_curr s) + 5 * (int (length tps) + 1)"
proof -
  have "uint (clock_curr (fold rpc__clock_update tps u)) = uint (clock_curr u) + 5 * int (length tps) \<and>
      started (fold rpc__clock_update tps u)"
    if "started u" "started s" "start_sec u = start_sec s" "start_usec u = start_usec s"
      "uint (clock_skew u) = 2 ^ 32 + uint (clock_curr u) - elapsed s p" "uint (clock_curr u) < elapsed s p"
      "elapsed s p < 2 ^ 31" "uint (clock_curr u) + 5 * int (length tps) + 300 < 2 ^ 31"
      "\<forall>i < length tps. uint (clock_curr u) + 5 * (int i + 1) < elapsed s (tps ! i) \<and>
         elapsed s ((p # tps) ! i) \<le> elapsed s (tps ! i) \<and> elapsed s (tps ! i) < 2 ^ 31" for u tps p
    using that
  proof (induction tps arbitrary: u p)
    case (Cons q qs)
    note a = Cons.prems [unfolded pow2_vals]
    have q: "uint (clock_curr u) + 5 < elapsed s q" "elapsed s p \<le> elapsed s q" "elapsed s q < 2147483648"
      using a(9) by (auto dest: spec [of _ 0])
    have e: "elapsed u q = elapsed s q" by (simp add: elapsed_def a(3,4))
    have r: "reading u q = elapsed s q + 4294967296 + uint (clock_curr u) - elapsed s p"
      using a(5) by (simp add: reading_def e)
    have n: "\<not> in_step u q" unfolding in_step_def r using q a(7) by linarith
    have b: "- (2 ^ 63) \<le> reading u q" "reading u q < 2 ^ 63"
      unfolding r pow2_vals using a(6,7) q uint_u32 [of "clock_curr u"] by linarith+
    let ?u = "rpc__clock_update q u"
    have k: "uint (clock_skew u) + uint (clock_curr u) - reading u q + 5 = uint (clock_curr u) + 5 - elapsed s q"
      by (simp add: reading_def e)
    have lt: "uint (clock_curr u) + 300 < 2 ^ 32" using a(8) by simp
    have st: "?u = u\<lparr>clock_unix_curr := word_of_int (fst q),
        clock_skew := word_of_int (uint (clock_curr u) + 5 - elapsed s q), clock_curr := clock_curr u + 5\<rparr>"
      using update_step [OF a(1) b lt] unfolding Let_def if_not_P [OF n] k by simp
    have c: "uint (clock_curr u + 5) = uint (clock_curr u) + 5"
      using a(8) uint_u32 [of "clock_curr u"] by (simp add: uint_word_ariths)
    have "(word_of_int (uint (clock_curr u) + 5 - elapsed s q) :: u32) = word_of_int (4294967296 + uint (clock_curr u) + 5 - elapsed s q)"
      by simp
    also have "uint \<dots> = 4294967296 + uint (clock_curr u) + 5 - elapsed s q"
      by (rule uint_small) (use q uint_u32(1) [of "clock_curr u"] in linarith)+
    finally have sk: "uint (clock_skew ?u) = 2 ^ 32 + uint (clock_curr ?u) - elapsed s q" by (simp add: st c)
    have "uint (clock_curr (fold rpc__clock_update qs ?u)) = uint (clock_curr ?u) + 5 * int (length qs) \<and>
        started (fold rpc__clock_update qs ?u)"
    proof (rule Cons.IH [OF _ a(2) _ _ sk])
      show "\<forall>i < length qs. uint (clock_curr ?u) + 5 * (int i + 1) < elapsed s (qs ! i) \<and>
         elapsed s ((q # qs) ! i) \<le> elapsed s (qs ! i) \<and> elapsed s (qs ! i) < 2 ^ 31"
      proof (intro allI impI)
        fix i assume "i < length qs"
        with Cons.prems(9) have "Suc i < length (q # qs)" by simp
        with Cons.prems(9) show "uint (clock_curr ?u) + 5 * (int i + 1) < elapsed s (qs ! i) \<and>
         elapsed s ((q # qs) ! i) \<le> elapsed s (qs ! i) \<and> elapsed s (qs ! i) < 2 ^ 31"
          by (fastforce simp: st c)
      qed
    qed (use a q c in \<open>simp_all add: st started_def pow2_vals\<close>)
    then show ?case by (simp add: st c)
  qed (use that in simp)
  note lag = this
  let ?u = "rpc__clock_update tp s"
  note a = assms [unfolded pow2_vals]
  have r: "reading s tp = elapsed s tp" by (simp add: reading_def assms(2))
  have b: "- (2 ^ 63) \<le> reading s tp" "reading s tp < 2 ^ 63"
    unfolding r pow2_vals using a(3,5) uint_u32(1) [of "clock_curr s"] by linarith+
  have st: "?u = s\<lparr>clock_unix_curr := word_of_int (fst tp),
      clock_skew := word_of_int (uint (clock_curr s) + 5 - elapsed s tp), clock_curr := clock_curr s + 5\<rparr>"
    by (subst update_step [OF assms(1) b]) (use a in \<open>simp_all add: Let_def in_step_def r\<close>)
  have c: "uint (clock_curr s + 5) = uint (clock_curr s) + 5"
    using a(6) uint_u32 [of "clock_curr s"] by (simp add: uint_word_ariths)
  have "(word_of_int (uint (clock_curr s) + 5 - elapsed s tp) :: u32) = word_of_int (4294967296 + uint (clock_curr s) + 5 - elapsed s tp)"
    by simp
  also have "uint \<dots> = 4294967296 + uint (clock_curr s) + 5 - elapsed s tp"
    by (rule uint_small) (use a uint_u32(1) [of "clock_curr s"] in linarith)+
  finally have sk: "uint (clock_skew ?u) = 2 ^ 32 + uint (clock_curr ?u) - elapsed s tp" by (simp add: st c)
  have "uint (clock_curr (fold rpc__clock_update tps ?u)) = uint (clock_curr ?u) + 5 * int (length tps) \<and>
      started (fold rpc__clock_update tps ?u)"
    by (rule lag [OF _ assms(1) _ _ sk]) (use assms(1) a c in \<open>simp_all add: st started_def pow2_vals algebra_simps\<close>)
  then show ?thesis by (simp add: st c)
qed


definition sample_clock :: clock_state where
  "sample_clock = \<lparr>start_sec = 1000, start_usec = 300000, clock_skew = 0, clock_curr = 10, clock_unix_curr = 1001,
     long_sleep = False\<rparr>"

theorem clock_update_bounded_witness:
  "uint (clock_curr (rpc__clock_update (1010, 100000) sample_clock)) = 49"
  using clock_update_bounded [of sample_clock "(1010, 100000)"]
  by (simp add: sample_clock_def started_def reading_def elapsed_def in_step_def Let_def)

theorem clock_set_back_witness:
  "uint (clock_curr (rpc__clock_update (1001, 0) (rpc__clock_update (1000, 600000) sample_clock))) = 17"
  using clock_set_back [of sample_clock "(1000, 600000)" 2 "(1001, 0)"]
  by (simp add: sample_clock_def started_def reading_def elapsed_def Let_def)

theorem clock_forward_jump_witness:
  "uint (clock_curr (fold rpc__clock_update [(2000, 0), (2050, 0), (2100, 0)] sample_clock)) = 25"
proof -
  have "\<forall>i < length [(2050, 0), (2100, 0)]. uint (clock_curr sample_clock) + 5 * (int i + 2) < elapsed sample_clock ([(2050, 0), (2100, 0)] ! i) \<and>
     elapsed sample_clock (((2000, 0) # [(2050, 0), (2100, 0)]) ! i) \<le> elapsed sample_clock ([(2050, 0), (2100, 0)] ! i) \<and>
     elapsed sample_clock ([(2050, 0), (2100, 0)] ! i) < 2 ^ 31"
    by (auto simp: less_Suc_eq sample_clock_def elapsed_def)
  from clock_forward_jump [of sample_clock "(2000, 0)", OF _ _ _ this] show ?thesis
    by (simp add: sample_clock_def elapsed_def started_def)
qed

text \<open>
  The time \<open>rpc__clock_timespec\<close> gives for a tick count is normalised, and read as the time
  of day it shows that tick count: a sleep until then ends no earlier and no tick later.
\<close>

theorem clock_timespec_reading:
  assumes "started s" "clock_skew s \<le> clock"
  shows "let (sec, nsec) = rpc__clock_timespec clock s in
    0 \<le> nsec \<and> nsec < 1000000000 \<and> reading s (sec, nsec div 1000) = uint clock \<and>
    reading s (sec, nsec div 1000 - 1) = uint clock - 1"
proof -
  define c where "c = uint clock - uint (clock_skew s)"
  have u: "uint (clock - clock_skew s) = c" unfolding c_def by (rule uint_minus_simple_alt [THEN iffD1, OF assms(2)])
  have c0: "0 \<le> c" using assms(2) by (simp add: c_def word_le_def)
  have dm: "uint ((clock - clock_skew s) div 5) = c div 5" "uint ((clock - clock_skew s) mod 5) = c mod 5"
    by (simp_all add: uint_div uint_mod u)
  have m5: "0 \<le> c mod 5" "c mod 5 < 5" by simp_all
  define n where "n = 1000 * start_usec s + c mod 5 * 200000000"
  have n: "0 \<le> n" "n < 2000000000" using assms(1) m5 unfolding n_def started_def by linarith+
  have nd: "n div 1000 = start_usec s + c mod 5 * 200000" "(n - 1000000000) div 1000 = start_usec s + c mod 5 * 200000 - 1000000"
    by (simp_all add: n_def)
  have t: "rpc__clock_timespec clock s = (if n \<ge> 1000000000 then (start_sec s + c div 5 + 1, n - 1000000000) else (start_sec s + c div 5, n))"
    by (simp add: rpc__clock_timespec_def Let_def dm n_def)
  have cc: "c div 5 * 1000000 + c mod 5 * 200000 = c * 200000" using div_mult_mod_eq [of c 5] by linarith
  have el: "elapsed s (fst r, snd r div 1000 - k) = (c * 200000 - k) div 200000" if "r = rpc__clock_timespec clock s" for r k
  proof -
    have "fst r * 1000000 + snd r div 1000 - (start_sec s * 1000000 + start_usec s) = c * 200000"
      unfolding that t using nd cc by (cases "n \<ge> 1000000000") (simp_all add: distrib_right)
    then have "fst r * 1000000 + (snd r div 1000 - k) - (start_sec s * 1000000 + start_usec s) = c * 200000 - k" by simp
    then show ?thesis by (simp only: elapsed_def fst_conv snd_conv)
  qed
  obtain sec nsec where r: "rpc__clock_timespec clock s = (sec, nsec)" by fastforce
  have "(c * 200000 - 1) div 200000 = c - 1" by simp
  with el [OF refl, of 0] el [OF refl, of 1] have "reading s (sec, nsec div 1000) = uint clock"
    "reading s (sec, nsec div 1000 - 1) = uint clock - 1"
    by (simp_all add: r reading_def c_def)
  moreover have "0 \<le> nsec \<and> nsec < 1000000000" using r t n by (auto split: if_splits)
  ultimately show ?thesis by (simp add: r)
qed

theorem clock_timespec_reading_witness:
  "let (sec, nsec) = rpc__clock_timespec 12 sample_clock in reading sample_clock (sec, nsec div 1000) = 12"
  using clock_timespec_reading [of sample_clock 12] by (simp add: started_def sample_clock_def split: prod.splits)

text \<open>
  \<open>rpc__clock_aged\<close> says of a stamp from the past whether the interval has passed since,
  unless the sum of stamp and interval wraps around: then the stamp may be aged at once.
\<close>

theorem clock_aged_result:
  assumes "time \<le> clock_curr s"
  shows "rpc__clock_aged time interval s \<longleftrightarrow>
    uint interval \<le> uint (clock_curr s) - uint time \<or>
    uint time + uint interval \<ge> 2 ^ 32 \<and> uint time + uint interval - 2 ^ 32 \<le> uint (clock_curr s)"
proof -
  have "uint (time + interval) = (if uint time + uint interval < 2 ^ 32 then uint time + uint interval
      else uint time + uint interval - 2 ^ 32)" by (simp add: uint_plus_if_size word_size)
  then show ?thesis using uint_u32 [of "clock_curr s"] by (auto simp: rpc__clock_aged_def word_le_def)
qed

theorem clock_aged_result_witness:
  "rpc__clock_aged 10 4294967295 sample_clock"
  using clock_aged_result [of 10 sample_clock 4294967295] by (simp add: sample_clock_def)

end
