(* ===== verification/RpcList.thy ===== *)
theory RpcList
  imports Prelude "HOL-Library.Monad_Syntax"
begin

text \<open>
  Doubly linked lists and lookaside lists: the macros of \<open>ncklib/include/rpclist.h\<close> and the
  routines of \<open>ncklib/rpc/rpclist.c\<close>.

  The store maps addresses to \<open>rpc_list_t\<close> link fields; address 0 is \<open>NULL\<close>.  List heads and
  elements are both link fields, as in the code, which writes through the \<open>last\<close> pointer of
  the first element into the head.  A step that dereferences an address without a link field
  gives \<open>None\<close>; a macro that assigns through its arguments returns them beside the store.
\<close>

section \<open>The store\<close>

type_synonym addr = nat

abbreviation (input) NULL :: addr where "NULL \<equiv> 0"

record rpc_list =
  lnext :: addr
  llast :: addr

type_synonym lheap = "addr \<Rightarrow> rpc_list option"

definition link :: "addr \<Rightarrow> lheap \<Rightarrow> rpc_list option" where
  "link p h = (if p = NULL then None else h p)"

definition set_next :: "addr \<Rightarrow> addr \<Rightarrow> lheap \<Rightarrow> lheap option" where
  "set_next p v h = do { n \<leftarrow> link p h; Some (h(p \<mapsto> n\<lparr>lnext := v\<rparr>)) }"

definition set_last :: "addr \<Rightarrow> addr \<Rightarrow> lheap \<Rightarrow> lheap option" where
  "set_last p v h = do { n \<leftarrow> link p h; Some (h(p \<mapsto> n\<lparr>llast := v\<rparr>)) }"

section \<open>The macros\<close>

definition RPC_LIST_INIT :: "addr \<Rightarrow> lheap \<Rightarrow> lheap option" where
  "RPC_LIST_INIT list h = do { h \<leftarrow> set_next list NULL h; set_last list NULL h }"

definition RPC_LIST_EMPTY :: "addr \<Rightarrow> lheap \<Rightarrow> bool option" where
  "RPC_LIST_EMPTY list h = do { l \<leftarrow> link list h; Some (lnext l = NULL) }"

definition RPC_LIST_ADD :: "addr \<Rightarrow> addr \<Rightarrow> addr \<Rightarrow> lheap \<Rightarrow> lheap option" where
  "RPC_LIST_ADD list list_element insert_element h = do {
     e \<leftarrow> link list_element h;
     h \<leftarrow> set_next insert_element (lnext e) h;
     h \<leftarrow> set_last insert_element list_element h;
     e \<leftarrow> link list_element h;
     h \<leftarrow> (if lnext e = NULL then set_last list insert_element h
           else set_last (lnext e) insert_element h);
     set_next list_element insert_element h }"

definition RPC_LIST_ADD_HEAD :: "addr \<Rightarrow> addr \<Rightarrow> lheap \<Rightarrow> lheap option" where
  "RPC_LIST_ADD_HEAD list list_element h = do {
     empty \<leftarrow> RPC_LIST_EMPTY list h;
     if empty then do {
       h \<leftarrow> set_last list list_element h;
       h \<leftarrow> set_next list list_element h;
       h \<leftarrow> set_next list_element NULL h;
       set_last list_element list h }
     else do {
       l \<leftarrow> link list h;
       h \<leftarrow> set_next list_element (lnext l) h;
       h \<leftarrow> set_last list_element list h;
       l \<leftarrow> link list h;
       h \<leftarrow> set_last (lnext l) list_element h;
       set_next list list_element h } }"

definition RPC_LIST_ADD_TAIL :: "addr \<Rightarrow> addr \<Rightarrow> lheap \<Rightarrow> lheap option" where
  "RPC_LIST_ADD_TAIL list list_element h = do {
     empty \<leftarrow> RPC_LIST_EMPTY list h;
     h \<leftarrow> (if empty then do {
             h \<leftarrow> set_next list list_element h;
             set_last list_element list h }
           else do {
             l \<leftarrow> link list h;
             h \<leftarrow> set_next (llast l) list_element h;
             l \<leftarrow> link list h;
             set_last list_element (llast l) h });
     h \<leftarrow> set_last list list_element h;
     set_next list_element NULL h }"

definition RPC_LIST_REMOVE :: "addr \<Rightarrow> addr \<Rightarrow> lheap \<Rightarrow> lheap option" where
  "RPC_LIST_REMOVE list list_element h = do {
     l \<leftarrow> link list h;
     if llast l = lnext l then RPC_LIST_INIT list h
     else do {
       e \<leftarrow> link list_element h;
       h \<leftarrow> (if lnext e = NULL then set_last list (llast e) h
             else set_last (lnext e) (llast e) h);
       e \<leftarrow> link list_element h;
       set_next (llast e) (lnext e) h } }"

definition RPC_LIST_FIRST :: "addr \<Rightarrow> lheap \<Rightarrow> addr option" where
  "RPC_LIST_FIRST list h = do { l \<leftarrow> link list h; Some (lnext l) }"

definition RPC_LIST_LAST :: "addr \<Rightarrow> lheap \<Rightarrow> addr option" where
  "RPC_LIST_LAST list h = do { l \<leftarrow> link list h; Some (llast l) }"

definition RPC_LIST_NEXT :: "addr \<Rightarrow> lheap \<Rightarrow> addr option" where
  "RPC_LIST_NEXT this_element h = do {
     e \<leftarrow> link this_element h;
     if lnext e = NULL then Some NULL else Some (lnext e) }"

definition RPC_LIST_REMOVE_HEAD :: "addr \<Rightarrow> lheap \<Rightarrow> (addr \<times> lheap) option" where
  "RPC_LIST_REMOVE_HEAD list h = do {
     empty \<leftarrow> RPC_LIST_EMPTY list h;
     if empty then Some (NULL, h)
     else do {
       list_element \<leftarrow> RPC_LIST_FIRST list h;
       h \<leftarrow> RPC_LIST_REMOVE list list_element h;
       Some (list_element, h) } }"

definition RPC_LIST_REMOVE_TAIL :: "addr \<Rightarrow> lheap \<Rightarrow> (addr \<times> lheap) option" where
  "RPC_LIST_REMOVE_TAIL list h = do {
     empty \<leftarrow> RPC_LIST_EMPTY list h;
     if empty then Some (NULL, h)
     else do {
       list_element \<leftarrow> RPC_LIST_LAST list h;
       h \<leftarrow> RPC_LIST_REMOVE list list_element h;
       Some (list_element, h) } }"

text \<open>The loop of \<open>RPC_LIST_LOOKUP\<close> counts \<open>_count\<close> (an \<open>int\<close>) down to 1.\<close>

function lookup_loop :: "int \<Rightarrow> addr \<Rightarrow> lheap \<Rightarrow> addr option" where
  "lookup_loop cnt list_element h =
     (if cnt > 1 \<and> list_element \<noteq> NULL
      then do { e \<leftarrow> link list_element h; lookup_loop (cnt - 1) (lnext e) h }
      else Some list_element)"
  by pat_completeness auto
termination by (relation "measure (\<lambda>(c, _). nat c)") auto
declare lookup_loop.simps [simp del]

definition RPC_LIST_LOOKUP :: "addr \<Rightarrow> int \<Rightarrow> lheap \<Rightarrow> addr option" where
  "RPC_LIST_LOOKUP list n h = do { l \<leftarrow> link list h; lookup_loop n (lnext l) h }"

definition RPC_LIST_EXTRACT :: "addr \<Rightarrow> int \<Rightarrow> lheap \<Rightarrow> (addr \<times> lheap) option" where
  "RPC_LIST_EXTRACT list n h = do {
     list_element \<leftarrow> RPC_LIST_LOOKUP list n h;
     if list_element \<noteq> NULL then do {
       h \<leftarrow> RPC_LIST_REMOVE list list_element h;
       Some (list_element, h) }
     else Some (list_element, h) }"

text \<open>The loop of \<open>RPC_LIST_COUNT\<close> may run for ever on a cyclic store: then it has no result.\<close>

partial_function (option) count_loop :: "u32 \<Rightarrow> addr \<Rightarrow> lheap \<Rightarrow> u32 option" where
  "count_loop cnt next_element h =
     (if next_element \<noteq> NULL
      then do { e \<leftarrow> link next_element h; count_loop (cnt + 1) (lnext e) h }
      else Some cnt)"

definition RPC_LIST_COUNT :: "addr \<Rightarrow> lheap \<Rightarrow> u32 option" where
  "RPC_LIST_COUNT list h = do { l \<leftarrow> link list h; count_loop 0 (lnext l) h }"

section \<open>Well-formed lists\<close>

text \<open>
  \<open>seg h p xs q\<close>: the elements \<open>xs\<close> are linked in this order, the first one back to \<open>p\<close>, the
  last one forward to \<open>q\<close>.  \<open>dll h l xs\<close>: the head at \<open>l\<close> holds the list \<open>xs\<close>.
\<close>

definition first_or :: "addr \<Rightarrow> addr list \<Rightarrow> addr" where
  "first_or q xs = (case xs of [] \<Rightarrow> q | x # _ \<Rightarrow> x)"

definition last_or :: "addr \<Rightarrow> addr list \<Rightarrow> addr" where
  "last_or p xs = (if xs = [] then p else last xs)"

fun seg :: "lheap \<Rightarrow> addr \<Rightarrow> addr list \<Rightarrow> addr \<Rightarrow> bool" where
  "seg h p [] q \<longleftrightarrow> True"
| "seg h p (x # xs) q \<longleftrightarrow> h x = Some \<lparr>lnext = first_or q xs, llast = p\<rparr> \<and> seg h x xs q"

definition dll :: "lheap \<Rightarrow> addr \<Rightarrow> addr list \<Rightarrow> bool" where
  "dll h l xs \<longleftrightarrow> distinct (l # xs) \<and> 0 \<notin> set (l # xs) \<and>
     h l = Some \<lparr>lnext = first_or 0 xs, llast = last_or 0 xs\<rparr> \<and> seg h l xs 0"

lemma first_or_simps [simp]:
  "first_or q [] = q" "first_or q (x # xs) = x" "first_or q (xs @ ys) = first_or (first_or q ys) xs"
  by (auto simp: first_or_def split: list.splits)

lemma last_or_simps [simp]:
  "last_or p [] = p" "last_or p (x # xs) = last_or x xs" "last_or p (xs @ ys) = last_or (last_or p xs) ys"
  by (auto simp: last_or_def)

lemma first_or_in: "xs \<noteq> [] \<Longrightarrow> first_or q xs \<in> set xs" by (cases xs) auto

lemma last_or_in: "xs \<noteq> [] \<Longrightarrow> last_or p xs \<in> set xs" by (simp add: last_or_def)

lemma seg_append [simp]:
  "seg h p (xs @ ys) q \<longleftrightarrow> seg h p xs (first_or q ys) \<and> seg h (last_or p xs) ys q"
  by (induction xs arbitrary: p) auto

lemma seg_frame: "(\<And>x. x \<in> set xs \<Longrightarrow> h' x = h x) \<Longrightarrow> seg h' p xs q = seg h p xs q"
  by (induction xs arbitrary: p) auto

lemma seg_upd [simp]: "x \<notin> set xs \<Longrightarrow> seg (h(x := v)) p xs q = seg h p xs q"
  by (rule seg_frame) auto

lemma link_simp [simp]: "p \<noteq> 0 \<Longrightarrow> link p h = h p"
  by (simp add: link_def)

text \<open>Each macro on a well-formed list, as an operation on the list of its elements.\<close>

definition same_outside :: "addr set \<Rightarrow> lheap \<Rightarrow> lheap \<Rightarrow> bool" where
  "same_outside A h h' \<longleftrightarrow> (\<forall>p. p \<notin> A \<longrightarrow> h' p = h p) \<and> dom h' = dom h"

lemma seg_dom: "seg h p xs q \<Longrightarrow> x \<in> set xs \<Longrightarrow> \<exists>n. h x = Some n"
  by (induction xs arbitrary: p) auto

lemma rpc_list_collapse [simp]:
  "n\<lparr>lnext := a, llast := b\<rparr> = \<lparr>lnext = a, llast = b\<rparr>"
  "n\<lparr>llast := b, lnext := a\<rparr> = \<lparr>lnext = a, llast = b\<rparr>"
  by (cases n; simp)+

lemma first_or_nonzero: "0 \<notin> set xs \<Longrightarrow> y \<noteq> 0 \<Longrightarrow> first_or y xs \<noteq> 0"
  by (cases xs) auto

lemmas list_defs = RPC_LIST_INIT_def RPC_LIST_EMPTY_def set_next_def set_last_def

lemma add_tail_dll:
  assumes "dll h l xs" "h e = Some n" "e \<notin> set (0 # l # xs)"
  obtains h' where "RPC_LIST_ADD_TAIL l e h = Some h'" "dll h' l (xs @ [e])" "same_outside (set (l # e # xs)) h h'"
proof (cases xs rule: rev_cases)
  case Nil
  with assms show ?thesis
    by (intro that [of "h(l \<mapsto> \<lparr>lnext = e, llast = e\<rparr>, e \<mapsto> \<lparr>lnext = 0, llast = l\<rparr>)"])
      (auto simp: RPC_LIST_ADD_TAIL_def list_defs dll_def same_outside_def fun_eq_iff)
next
  case (snoc ys y)
  let ?h = "h(y \<mapsto> \<lparr>lnext = e, llast = last_or l ys\<rparr>, l \<mapsto> \<lparr>lnext = first_or y ys, llast = e\<rparr>,
              e \<mapsto> \<lparr>lnext = 0, llast = y\<rparr>)"
  have d: "dll h l (ys @ [y])" using assms(1) snoc by simp
  have ne: "first_or y ys \<noteq> 0" using d first_or_nonzero [of ys y] by (auto simp: dll_def)
  have k: "h l = Some \<lparr>lnext = first_or y ys, llast = y\<rparr>" "h y = Some \<lparr>lnext = 0, llast = last_or l ys\<rparr>"
    "l \<noteq> 0" "y \<noteq> 0" "e \<noteq> 0" "l \<noteq> y" "e \<noteq> y" "e \<noteq> l" "distinct ys" "l \<notin> set ys" "y \<notin> set ys" "e \<notin> set ys" "0 \<notin> set ys"
    "seg h l ys y"
    using d assms(3) snoc by (auto simp: dll_def)
  have "RPC_LIST_ADD_TAIL l e h = Some ?h"
    using k ne assms(2) by (simp add: RPC_LIST_ADD_TAIL_def list_defs fun_eq_iff)
  moreover have "dll ?h l (xs @ [e])" using k by (simp add: dll_def snoc)
  moreover have "same_outside (set (l # e # xs)) h ?h"
    using k assms(2) snoc by (auto simp: same_outside_def)
  ultimately show ?thesis by (rule that)
qed

lemma add_head_dll:
  assumes "dll h l xs" "h e = Some n" "e \<notin> set (0 # l # xs)"
  obtains h' where "RPC_LIST_ADD_HEAD l e h = Some h'" "dll h' l (e # xs)" "same_outside (set (l # e # xs)) h h'"
proof (cases xs)
  case Nil
  with assms show ?thesis
    by (intro that [of "h(l \<mapsto> \<lparr>lnext = e, llast = e\<rparr>, e \<mapsto> \<lparr>lnext = 0, llast = l\<rparr>)"])
      (auto simp: RPC_LIST_ADD_HEAD_def list_defs dll_def same_outside_def fun_eq_iff)
next
  case (Cons x ys)
  let ?h = "h(x \<mapsto> \<lparr>lnext = first_or 0 ys, llast = e\<rparr>, l \<mapsto> \<lparr>lnext = e, llast = last_or x ys\<rparr>,
              e \<mapsto> \<lparr>lnext = x, llast = l\<rparr>)"
  have k: "h l = Some \<lparr>lnext = x, llast = last_or x ys\<rparr>" "h x = Some \<lparr>lnext = first_or 0 ys, llast = l\<rparr>"
    "l \<noteq> 0" "x \<noteq> 0" "e \<noteq> 0" "l \<noteq> x" "e \<noteq> x" "e \<noteq> l" "distinct ys" "l \<notin> set ys" "x \<notin> set ys" "e \<notin> set ys" "0 \<notin> set ys"
    "seg h x ys 0"
    using assms(1,3) Cons by (auto simp: dll_def)
  have "RPC_LIST_ADD_HEAD l e h = Some ?h"
    using k assms(2) by (simp add: RPC_LIST_ADD_HEAD_def list_defs fun_eq_iff)
  moreover have "dll ?h l (e # xs)" using k by (simp add: dll_def Cons)
  moreover have "same_outside (set (l # e # xs)) h ?h"
    using k assms(2) Cons by (auto simp: same_outside_def)
  ultimately show ?thesis by (rule that)
qed


lemma remove_dll:
  assumes "dll h l (as @ e # bs)"
  obtains h' where "RPC_LIST_REMOVE l e h = Some h'" "dll h' l (as @ bs)" "same_outside (set (l # as @ bs)) h h'" "h' e = h e"
proof (cases "as = [] \<and> bs = []")
  case True
  with assms show ?thesis
    by (intro that [of "h(l \<mapsto> \<lparr>lnext = 0, llast = 0\<rparr>)"])
      (auto simp: RPC_LIST_REMOVE_def list_defs dll_def same_outside_def fun_eq_iff)
next
  case False
  have k: "h l = Some \<lparr>lnext = first_or e as, llast = last_or e bs\<rparr>" "h e = Some \<lparr>lnext = first_or 0 bs, llast = last_or l as\<rparr>"
    "seg h l as e" "seg h e bs 0" "distinct (l # e # as @ bs)" "0 \<notin> set (l # e # as @ bs)"
    using assms by (auto simp: dll_def)
  have ne: "first_or e as \<noteq> last_or e bs"
    using False k(5) first_or_in [of as e] last_or_in [of bs e] by (cases "as = []"; cases "bs = []") auto
  show ?thesis
  proof (cases bs rule: list.exhaust [case_names Nil Cons])
    case Nil
    with False obtain cs c where as: "as = cs @ [c]" by (cases as rule: rev_cases) auto
    let ?h = "h(l \<mapsto> \<lparr>lnext = first_or c cs, llast = c\<rparr>, c \<mapsto> \<lparr>lnext = 0, llast = last_or l cs\<rparr>)"
    have "RPC_LIST_REMOVE l e h = Some ?h"
      using k ne as Nil by (simp add: RPC_LIST_REMOVE_def list_defs)
    moreover have "dll ?h l (as @ bs)" using k as Nil by (simp add: dll_def)
    moreover have "same_outside (set (l # as @ bs)) h ?h" "?h e = h e"
      using k as Nil by (auto simp: same_outside_def)
    ultimately show ?thesis by (rule that)
  next
    case (Cons b ds)
    have hb: "h b = Some \<lparr>lnext = first_or 0 ds, llast = e\<rparr>" "b \<noteq> 0" using k Cons by auto
    show ?thesis
    proof (cases as rule: rev_cases)
      case Nil
      let ?h = "h(b \<mapsto> \<lparr>lnext = first_or 0 ds, llast = l\<rparr>, l \<mapsto> \<lparr>lnext = b, llast = last_or b ds\<rparr>)"
      have "RPC_LIST_REMOVE l e h = Some ?h"
        using k ne hb Nil Cons by (simp add: RPC_LIST_REMOVE_def list_defs)
      moreover have "dll ?h l (as @ bs)" using k hb Nil Cons by (simp add: dll_def)
      moreover have "same_outside (set (l # as @ bs)) h ?h" "?h e = h e"
        using k hb Nil Cons by (auto simp: same_outside_def)
      ultimately show ?thesis by (rule that)
    next
      case (snoc cs c)
      let ?h = "h(b \<mapsto> \<lparr>lnext = first_or 0 ds, llast = c\<rparr>, c \<mapsto> \<lparr>lnext = b, llast = last_or l cs\<rparr>)"
      have hc: "h c = Some \<lparr>lnext = e, llast = last_or l cs\<rparr>" "c \<noteq> 0" using k snoc by auto
      have "RPC_LIST_REMOVE l e h = Some ?h"
        using k ne hb hc snoc Cons by (simp add: RPC_LIST_REMOVE_def list_defs)
      moreover have "dll ?h l (as @ bs)" using k hb hc snoc Cons by (simp add: dll_def)
      moreover have "same_outside (set (l # as @ bs)) h ?h" "?h e = h e"
        using k hb hc snoc Cons by (auto simp: same_outside_def)
      ultimately show ?thesis by (rule that)
    qed
  qed
qed

lemma add_dll:
  assumes "dll h l (as @ p # bs)" "h e = Some n" "e \<notin> set (0 # l # as @ p # bs)"
  obtains h' where "RPC_LIST_ADD l p e h = Some h'" "dll h' l (as @ p # e # bs)"
    "same_outside (set (l # e # as @ p # bs)) h h'"
proof (cases bs rule: list.exhaust [case_names Nil Cons])
  case Nil
  let ?h = "h(l \<mapsto> \<lparr>lnext = first_or p as, llast = e\<rparr>, e \<mapsto> \<lparr>lnext = 0, llast = p\<rparr>, p \<mapsto> \<lparr>lnext = e, llast = last_or l as\<rparr>)"
  have k: "h l = Some \<lparr>lnext = first_or p as, llast = p\<rparr>" "h p = Some \<lparr>lnext = 0, llast = last_or l as\<rparr>"
    "seg h l as p" "distinct (l # e # p # as)" "0 \<notin> set (l # e # p # as)"
    using assms(1,3) Nil by (auto simp: dll_def)
  have "RPC_LIST_ADD l p e h = Some ?h" using k assms(2) by (simp add: RPC_LIST_ADD_def list_defs fun_eq_iff)
  moreover have "dll ?h l (as @ p # e # bs)" using k Nil by (simp add: dll_def)
  moreover have "same_outside (set (l # e # as @ p # bs)) h ?h" using k assms(2) Nil by (auto simp: same_outside_def)
  ultimately show ?thesis by (rule that)
next
  case (Cons b ds)
  let ?h = "h(b \<mapsto> \<lparr>lnext = first_or 0 ds, llast = e\<rparr>, e \<mapsto> \<lparr>lnext = b, llast = p\<rparr>, p \<mapsto> \<lparr>lnext = e, llast = last_or l as\<rparr>)"
  have k: "h l = Some \<lparr>lnext = first_or p as, llast = last_or b ds\<rparr>" "h p = Some \<lparr>lnext = b, llast = last_or l as\<rparr>"
    "h b = Some \<lparr>lnext = first_or 0 ds, llast = p\<rparr>"
    "seg h l as p" "seg h b ds 0" "distinct (l # e # p # b # as @ ds)" "0 \<notin> set (l # e # p # b # as @ ds)"
    using assms(1,3) Cons by (auto simp: dll_def)
  have "RPC_LIST_ADD l p e h = Some ?h" using k assms(2) by (simp add: RPC_LIST_ADD_def list_defs fun_eq_iff)
  moreover have "dll ?h l (as @ p # e # bs)" using k Cons by (simp add: dll_def)
  moreover have "same_outside (set (l # e # as @ p # bs)) h ?h" using k assms(2) Cons by (auto simp: same_outside_def)
  ultimately show ?thesis by (rule that)
qed

lemma init_dll:
  assumes "h l = Some n" "l \<noteq> 0"
  obtains h' where "RPC_LIST_INIT l h = Some h'" "dll h' l []" "same_outside {l} h h'"
  using assms by (intro that [of "h(l \<mapsto> \<lparr>lnext = 0, llast = 0\<rparr>)"]) (auto simp: list_defs dll_def same_outside_def)

lemma empty_dll: "dll h l xs \<Longrightarrow> RPC_LIST_EMPTY l h = Some (xs = [])"
  by (cases xs) (auto simp: list_defs dll_def)

lemma first_dll: "dll h l xs \<Longrightarrow> RPC_LIST_FIRST l h = Some (first_or 0 xs)"
  by (simp add: RPC_LIST_FIRST_def dll_def)

lemma last_dll: "dll h l xs \<Longrightarrow> RPC_LIST_LAST l h = Some (last_or 0 xs)"
  by (simp add: RPC_LIST_LAST_def dll_def)

lemma next_dll: "dll h l (as @ e # bs) \<Longrightarrow> RPC_LIST_NEXT e h = Some (first_or 0 bs)"
  by (auto simp: RPC_LIST_NEXT_def dll_def)

lemma remove_head_dll:
  assumes "dll h l xs"
  obtains h' where "RPC_LIST_REMOVE_HEAD l h = Some (first_or 0 xs, h')" "dll h' l (tl xs)"
    "same_outside (set (l # xs)) h h'"
proof (cases xs)
  case Nil
  with assms that show ?thesis by (simp add: RPC_LIST_REMOVE_HEAD_def empty_dll same_outside_def)
next
  case (Cons x ys)
  with assms have "dll h l ([] @ x # ys)" by simp
  from remove_dll [OF this] obtain h' where
    "RPC_LIST_REMOVE l x h = Some h'" "dll h' l ys" "same_outside (set (l # ys)) h h'" by auto
  with assms Cons show ?thesis
    by (intro that [of h']) (auto simp: RPC_LIST_REMOVE_HEAD_def empty_dll first_dll same_outside_def)
qed

lemma remove_tail_dll:
  assumes "dll h l xs"
  obtains h' where "RPC_LIST_REMOVE_TAIL l h = Some (last_or 0 xs, h')" "dll h' l (butlast xs)"
    "same_outside (set (l # xs)) h h'"
proof (cases xs rule: rev_cases)
  case Nil
  with assms that show ?thesis by (simp add: RPC_LIST_REMOVE_TAIL_def empty_dll same_outside_def)
next
  case (snoc ys y)
  with assms have "dll h l (ys @ y # [])" by simp
  from remove_dll [OF this] obtain h' where
    "RPC_LIST_REMOVE l y h = Some h'" "dll h' l ys" "same_outside (set (l # ys)) h h'" by auto
  with assms snoc show ?thesis
    by (intro that [of h']) (auto simp: RPC_LIST_REMOVE_TAIL_def empty_dll last_dll same_outside_def)
qed

lemma lookup_loop_seg:
  "seg h p xs 0 \<Longrightarrow> 0 \<notin> set xs \<Longrightarrow>
   lookup_loop n (first_or 0 xs) h = Some (if nat (n - 1) < length xs then xs ! nat (n - 1) else 0)"
proof (induction xs arbitrary: p n)
  case Nil
  then show ?case by (simp add: lookup_loop.simps)
next
  case (Cons x xs)
  show ?case
  proof (cases "n > 1")
    case True
    then have "nat (n - 1) = Suc (nat (n - 2))" by simp
    with Cons.IH [of x "n - 1"] Cons.prems True show ?thesis
      by (subst lookup_loop.simps) auto
  qed (use Cons.prems in \<open>simp add: lookup_loop.simps\<close>)
qed

lemma lookup_dll:
  "dll h l xs \<Longrightarrow> RPC_LIST_LOOKUP l n h = Some (if nat (n - 1) < length xs then xs ! nat (n - 1) else 0)"
  using lookup_loop_seg [of h l xs n] by (simp add: RPC_LIST_LOOKUP_def dll_def)

lemma count_loop_seg:
  "seg h p xs 0 \<Longrightarrow> 0 \<notin> set xs \<Longrightarrow> count_loop c (first_or 0 xs) h = Some (c + of_nat (length xs))"
proof (induction xs arbitrary: p c)
  case Nil
  then show ?case by (simp add: count_loop.simps)
next
  case (Cons x xs)
  then have "count_loop (c + 1) (first_or 0 xs) h = Some (c + 1 + of_nat (length xs))" by auto
  with Cons.prems show ?case by (subst count_loop.simps) (simp add: add_ac)
qed

lemma count_dll: "dll h l xs \<Longrightarrow> RPC_LIST_COUNT l h = Some (of_nat (length xs))"
  using count_loop_seg [of h l xs 0] by (simp add: RPC_LIST_COUNT_def dll_def)

section \<open>The queue interface\<close>

text \<open>
  What a client of a first-in first-out queue of store cells relies on: \<open>holds h q xs\<close> is the
  content of queue \<open>q\<close>, \<open>usable h q e\<close> that the cell \<open>e\<close> may be queued.
\<close>

locale fifo_store =
  fixes holds :: "'h \<Rightarrow> 'q \<Rightarrow> 'e list \<Rightarrow> bool" and usable :: "'h \<Rightarrow> 'q \<Rightarrow> 'e \<Rightarrow> bool" and nil :: 'e
    and put :: "'q \<Rightarrow> 'e \<Rightarrow> 'h \<Rightarrow> 'h option" and get :: "'q \<Rightarrow> 'h \<Rightarrow> ('e \<times> 'h) option"
  assumes put_holds: "holds h q xs \<Longrightarrow> usable h q e \<Longrightarrow> e \<notin> set xs \<Longrightarrow>
      \<exists>h'. put q e h = Some h' \<and> holds h' q (xs @ [e]) \<and> usable h' q = usable h q"
    and get_cons: "holds h q (x # xs) \<Longrightarrow> \<exists>h'. get q h = Some (x, h') \<and> holds h' q xs \<and> usable h' q = usable h q"
    and get_nil: "holds h q [] \<Longrightarrow> get q h = Some (nil, h)"
    and held: "holds h q xs \<Longrightarrow> distinct xs \<and> (\<forall>x \<in> set xs. usable h q x)"
    and nil_unusable: "\<not> usable h q nil"
begin

primrec put_all :: "'q \<Rightarrow> 'e list \<Rightarrow> 'h \<Rightarrow> 'h option" where
  "put_all q [] h = Some h"
| "put_all q (e # es) h = do { h \<leftarrow> put q e h; put_all q es h }"

primrec get_n :: "nat \<Rightarrow> 'q \<Rightarrow> 'h \<Rightarrow> ('e list \<times> 'h) option" where
  "get_n 0 q h = Some ([], h)"
| "get_n (Suc n) q h = do { (e, h) \<leftarrow> get q h; (es, h) \<leftarrow> get_n n q h; Some (e # es, h) }"

lemma put_all_holds:
  "holds h q xs \<Longrightarrow> \<forall>e \<in> set es. usable h q e \<Longrightarrow> distinct (xs @ es) \<Longrightarrow>
   \<exists>h'. put_all q es h = Some h' \<and> holds h' q (xs @ es) \<and> usable h' q = usable h q"
proof (induction es arbitrary: h xs)
  case (Cons e es)
  from put_holds [OF Cons.prems(1), of e] Cons.prems(2,3) obtain h1 where
    h1: "put q e h = Some h1" "holds h1 q (xs @ [e])" "usable h1 q = usable h q" by auto
  from Cons.IH [OF h1(2)] Cons.prems(2,3) h1(3) obtain h2 where
    "put_all q es h1 = Some h2" "holds h2 q ((xs @ [e]) @ es)" "usable h2 q = usable h q" by auto
  with h1(1) show ?case by auto
qed simp

lemma get_n_holds:
  "holds h q xs \<Longrightarrow> n \<le> length xs \<Longrightarrow>
   \<exists>h'. get_n n q h = Some (take n xs, h') \<and> holds h' q (drop n xs) \<and> usable h' q = usable h q"
proof (induction n arbitrary: h xs)
  case (Suc n)
  then obtain x ys where xs: "xs = x # ys" by (cases xs) auto
  from get_cons Suc.prems(1) xs obtain h1 where
    h1: "get q h = Some (x, h1)" "holds h1 q ys" "usable h1 q = usable h q" by blast
  from Suc.IH [OF h1(2)] Suc.prems(2) xs obtain h2 where
    "get_n n q h1 = Some (take n ys, h2)" "holds h2 q (drop n ys)" "usable h2 q = usable h1 q" by auto
  with h1 xs show ?case by auto
qed simp

lemma fifo_order:
  assumes "holds h q []" "\<forall>e \<in> set es. usable h q e" "distinct es"
  shows "\<exists>h1 h2. put_all q es h = Some h1 \<and> get_n (length es) q h1 = Some (es, h2) \<and> holds h2 q []"
proof -
  from put_all_holds [OF assms(1,2)] assms(3) obtain h1 where "put_all q es h = Some h1" "holds h1 q es" by auto
  with get_n_holds [of h1 q es "length es"] show ?thesis by auto
qed

end

definition list_cell :: "lheap \<Rightarrow> addr \<Rightarrow> addr \<Rightarrow> bool" where
  "list_cell h l e \<longleftrightarrow> e \<noteq> 0 \<and> e \<noteq> l \<and> h e \<noteq> None"

lemma same_outside_cell: "same_outside A h h' \<Longrightarrow> list_cell h' l = list_cell h l"
  by (auto simp: same_outside_def list_cell_def fun_eq_iff dom_def)

interpretation rl: fifo_store dll list_cell NULL RPC_LIST_ADD_TAIL RPC_LIST_REMOVE_HEAD
proof unfold_locales
  fix h :: lheap and l :: addr and xs e assume a: "dll h l xs" "list_cell h l e" "e \<notin> set xs"
  from a(2) obtain n where "h e = Some n" "e \<notin> set (0 # l # [])" by (auto simp: list_cell_def)
  with a(1,3) obtain h' where "RPC_LIST_ADD_TAIL l e h = Some h'" "dll h' l (xs @ [e])"
    "same_outside (set (l # e # xs)) h h'" by (rule_tac add_tail_dll [of h l xs e n]) auto
  with same_outside_cell show "\<exists>h'. RPC_LIST_ADD_TAIL l e h = Some h' \<and> dll h' l (xs @ [e]) \<and> list_cell h' l = list_cell h l"
    by blast
next
  fix h l x xs assume "dll h l (x # xs)"
  then obtain h' where "RPC_LIST_REMOVE_HEAD l h = Some (first_or 0 (x # xs), h')" "dll h' l (tl (x # xs))"
    "same_outside (set (l # x # xs)) h h'" by (rule remove_head_dll)
  with same_outside_cell show "\<exists>h'. RPC_LIST_REMOVE_HEAD l h = Some (x, h') \<and> dll h' l xs \<and> list_cell h' l = list_cell h l"
    by auto
next
  fix h l assume "dll h l []"
  then show "RPC_LIST_REMOVE_HEAD l h = Some (NULL, h)" by (simp add: RPC_LIST_REMOVE_HEAD_def empty_dll)
next
  fix h l xs assume "dll h l xs"
  then show "distinct xs \<and> (\<forall>x \<in> set xs. list_cell h l x)"
    using seg_dom [of h l xs 0] by (auto simp: dll_def list_cell_def intro!: Nat.gr0I)
qed (simp add: list_cell_def)

section \<open>Properties of the list macros\<close>

text \<open>
  C27: On a well-formed list with elements \<open>xs\<close> and an element that is on no list,
  \<open>RPC_LIST_ADD_HEAD\<close>, \<open>RPC_LIST_ADD_TAIL\<close> and \<open>RPC_LIST_ADD\<close> dereference no invalid pointer,
  leave the list well formed with the element at the head, the tail or behind the given
  element, and touch no other cell of the store.
\<close>

theorem rpc_list_insertions:
  assumes "dll h l xs" "list_cell h l e" "e \<notin> set xs"
  shows "(\<exists>h'. RPC_LIST_ADD_HEAD l e h = Some h' \<and> dll h' l (e # xs) \<and> same_outside (set (l # e # xs)) h h') \<and>
    (\<exists>h'. RPC_LIST_ADD_TAIL l e h = Some h' \<and> dll h' l (xs @ [e]) \<and> same_outside (set (l # e # xs)) h h') \<and>
    (\<forall>as p bs. xs = as @ p # bs \<longrightarrow>
      (\<exists>h'. RPC_LIST_ADD l p e h = Some h' \<and> dll h' l (as @ p # e # bs) \<and> same_outside (set (l # e # xs)) h h'))"
proof (intro conjI allI impI)
  from assms(2,3) obtain n where n: "h e = Some n" "e \<notin> set (0 # l # xs)" by (auto simp: list_cell_def)
  show "\<exists>h'. RPC_LIST_ADD_HEAD l e h = Some h' \<and> dll h' l (e # xs) \<and> same_outside (set (l # e # xs)) h h'"
    by (rule add_head_dll [OF assms(1) n]) blast
  show "\<exists>h'. RPC_LIST_ADD_TAIL l e h = Some h' \<and> dll h' l (xs @ [e]) \<and> same_outside (set (l # e # xs)) h h'"
    by (rule add_tail_dll [OF assms(1) n]) blast
  fix as p bs assume xs: "xs = as @ p # bs"
  show "\<exists>h'. RPC_LIST_ADD l p e h = Some h' \<and> dll h' l (as @ p # e # bs) \<and> same_outside (set (l # e # xs)) h h'"
    using assms(1) n unfolding xs by (rule_tac add_dll [of h l as p bs e n]) blast+
qed

definition sample_heap :: lheap where
  "sample_heap = [1 \<mapsto> \<lparr>lnext = 2, llast = 3\<rparr>, 2 \<mapsto> \<lparr>lnext = 3, llast = 1\<rparr>, 3 \<mapsto> \<lparr>lnext = 0, llast = 2\<rparr>,
                  4 \<mapsto> \<lparr>lnext = 9, llast = 9\<rparr>]"

lemma sample_heap_dll: "dll sample_heap 1 [2, 3]"
  by (simp add: sample_heap_def dll_def)

theorem rpc_list_insertions_witness:
  "\<exists>h'. RPC_LIST_ADD 1 2 4 sample_heap = Some h' \<and> dll h' 1 [2, 4, 3]"
proof -
  have "\<exists>h'. RPC_LIST_ADD 1 2 4 sample_heap = Some h' \<and> dll h' 1 ([] @ 2 # 4 # [3]) \<and> same_outside (set (1 # 4 # [2, 3])) sample_heap h'"
  proof (rule rpc_list_insertions [THEN conjunct2, THEN conjunct2, rule_format])
    show "dll sample_heap 1 [2, 3]" by (rule sample_heap_dll)
  qed (simp_all add: list_cell_def sample_heap_def)
  then show ?thesis by auto
qed

text \<open>
  C29: On a well-formed list with elements \<open>xs\<close>, \<open>RPC_LIST_REMOVE\<close> of an element,
  \<open>RPC_LIST_REMOVE_HEAD\<close>, \<open>RPC_LIST_REMOVE_TAIL\<close> and \<open>RPC_LIST_EXTRACT\<close> take exactly that
  element off, give \<open>NULL\<close> where there is none, leave the list well formed and touch no
  other cell; \<open>RPC_LIST_COUNT\<close> terminates with the number of elements.
\<close>

theorem rpc_list_removals:
  assumes "dll h l xs"
  shows "(\<forall>as e bs. xs = as @ e # bs \<longrightarrow>
      (\<exists>h'. RPC_LIST_REMOVE l e h = Some h' \<and> dll h' l (as @ bs) \<and> same_outside (set (l # as @ bs)) h h')) \<and>
    (\<exists>h'. RPC_LIST_REMOVE_HEAD l h = Some (if xs = [] then NULL else hd xs, h') \<and> dll h' l (tl xs)) \<and>
    (\<exists>h'. RPC_LIST_REMOVE_TAIL l h = Some (if xs = [] then NULL else last xs, h') \<and> dll h' l (butlast xs)) \<and>
    (\<exists>h'. RPC_LIST_EXTRACT l (int n) h = Some (if n - 1 < length xs then xs ! (n - 1) else NULL, h') \<and>
          dll h' l (take (n - 1) xs @ drop (Suc (n - 1)) xs)) \<and>
    RPC_LIST_COUNT l h = Some (of_nat (length xs))"
proof (intro conjI allI impI)
  fix as e bs assume xs: "xs = as @ e # bs"
  show "\<exists>h'. RPC_LIST_REMOVE l e h = Some h' \<and> dll h' l (as @ bs) \<and> same_outside (set (l # as @ bs)) h h'"
    by (rule remove_dll [OF assms [unfolded xs]]) blast
next
  have "first_or 0 xs = (if xs = [] then NULL else hd xs)" by (cases xs) auto
  then show "\<exists>h'. RPC_LIST_REMOVE_HEAD l h = Some (if xs = [] then NULL else hd xs, h') \<and> dll h' l (tl xs)"
    using remove_head_dll [OF assms] by metis
next
  show "\<exists>h'. RPC_LIST_REMOVE_TAIL l h = Some (if xs = [] then NULL else last xs, h') \<and> dll h' l (butlast xs)"
    using remove_tail_dll [OF assms] by (metis last_or_def)
next
  have n: "nat (int n - 1) = n - 1" by simp
  show "\<exists>h'. RPC_LIST_EXTRACT l (int n) h = Some (if n - 1 < length xs then xs ! (n - 1) else NULL, h') \<and>
          dll h' l (take (n - 1) xs @ drop (Suc (n - 1)) xs)"
  proof (cases "n - 1 < length xs")
    case True
    define e where "e = xs ! (n - 1)"
    have xs: "xs = take (n - 1) xs @ e # drop (Suc (n - 1)) xs" unfolding e_def by (rule id_take_nth_drop [OF True])
    have "e \<noteq> NULL" using assms True unfolding e_def dll_def by (metis list.set_intros(2) nth_mem)
    moreover obtain h' where "RPC_LIST_REMOVE l e h = Some h'" "dll h' l (take (n - 1) xs @ drop (Suc (n - 1)) xs)"
      using assms xs by (metis remove_dll)
    ultimately show ?thesis using True n by (simp add: RPC_LIST_EXTRACT_def lookup_dll [OF assms] e_def)
  qed (use assms n in \<open>simp add: RPC_LIST_EXTRACT_def lookup_dll\<close>)
next
  show "RPC_LIST_COUNT l h = Some (of_nat (length xs))" by (rule count_dll [OF assms])
qed

theorem rpc_list_removals_witness:
  "RPC_LIST_COUNT 1 sample_heap = Some 2 \<and> (\<exists>h'. RPC_LIST_REMOVE_TAIL 1 sample_heap = Some (3, h') \<and> dll h' 1 [2])"
  using rpc_list_removals [OF sample_heap_dll, of 1] by simp

section \<open>Lookaside lists\<close>

text \<open>
  \<open>rpc_list_desc_t\<close> and the part of \<open>rpc_g_lookaside_rcb\<close> the routines use.  The routines a
  descriptor names and the signals are recorded in \<open>la_log\<close>, in their order.
\<close>

record rpc_list_desc =
  list_head :: addr
  max_size :: u32
  cur_size :: u32
  element_size :: u32
  element_type :: u32
  alloc_rtn :: bool
  free_rtn :: bool
  use_global_mutex :: bool

datatype la_event = AllocRtn addr | FreeRtn addr | MemFree addr | CondSignal | CondWait

record la_state =
  la_heap :: lheap
  la_desc :: rpc_list_desc
  waiter_cnt :: u16
  max_wait_times :: u16
  la_log :: "la_event list"

text \<open>
  The environment: \<open>RPC_MEM_ALLOC\<close> (the address and the indeterminate link field of the block,
  or failure), whether the descriptor's allocation routine raises an exception, and what
  the other threads do while this one waits on the condition variable.
\<close>

record la_env =
  mem_alloc :: "la_state \<Rightarrow> (addr \<times> rpc_list) option"
  rtn_raises :: "addr \<Rightarrow> bool"
  others :: "la_state \<Rightarrow> la_state"

definition rpc__list_desc_init :: "addr \<Rightarrow> u32 \<Rightarrow> u32 \<Rightarrow> u32 \<Rightarrow> bool \<Rightarrow> bool \<Rightarrow> bool \<Rightarrow> la_state \<Rightarrow> la_state option" where
  "rpc__list_desc_init l mx sz ty alloc_r free_r has_mutex s = do {
     h \<leftarrow> RPC_LIST_INIT l (la_heap s);
     Some (s\<lparr>la_heap := h,
             la_desc := \<lparr>list_head = l, max_size = mx, cur_size = 0, element_size = sz, element_type = ty,
                        alloc_rtn = alloc_r, free_rtn = free_r, use_global_mutex = \<not> has_mutex\<rparr>\<rparr>) }"

text \<open>
  The retry loop of \<open>rpc__list_element_alloc\<close>, by the number of tries left; \<open>element\<close> is the
  variable of that name, indeterminate at the start.  An exception in the allocation
  routine frees the block and gives \<open>NULL\<close>; the fatal message that should abort the process
  then is compiled away without \<open>PD_BUILD\<close>.
\<close>

fun alloc_loop :: "la_env \<Rightarrow> bool \<Rightarrow> nat \<Rightarrow> addr \<Rightarrow> la_state \<Rightarrow> (addr \<times> la_state) option" where
  "alloc_loop env block 0 element s = Some (element, s)"
| "alloc_loop env block (Suc n) element s =
     (let d = la_desc s in
      if cur_size d > 0 then do {
        (element, h) \<leftarrow> RPC_LIST_REMOVE_HEAD (list_head d) (la_heap s);
        Some (element, s\<lparr>la_heap := h, la_desc := d\<lparr>cur_size := cur_size d - 1\<rparr>\<rparr>) }
      else case mem_alloc env s of
        None \<Rightarrow>
          if \<not> block then Some (NULL, s)
          else alloc_loop env block n NULL (others env (s\<lparr>la_log := la_log s @ [CondWait]\<rparr>))
      | Some (element, junk) \<Rightarrow>
          let s = s\<lparr>la_heap := (la_heap s)(element \<mapsto> junk)\<rparr> in
          if alloc_rtn d then
            let s = s\<lparr>la_log := la_log s @ [AllocRtn element]\<rparr> in
            if rtn_raises env element
            then Some (NULL, s\<lparr>la_heap := (la_heap s)(element := None), la_log := la_log s @ [MemFree element]\<rparr>)
            else Some (element, s)
          else Some (element, s))"

definition rpc__list_element_alloc :: "la_env \<Rightarrow> bool \<Rightarrow> addr \<Rightarrow> la_state \<Rightarrow> (addr \<times> la_state) option" where
  "rpc__list_element_alloc env block junk s = alloc_loop env block (unat (max_wait_times s)) junk s"

definition rpc__list_element_free :: "addr \<Rightarrow> la_state \<Rightarrow> la_state option" where
  "rpc__list_element_free list_element s =
     (let d = la_desc s in
      if cur_size d < max_size d then do {
        h \<leftarrow> RPC_LIST_ADD_TAIL (list_head d) list_element (la_heap s);
        let s = s\<lparr>la_heap := h, la_desc := d\<lparr>cur_size := cur_size d + 1\<rparr>\<rparr>;
        Some (if waiter_cnt s > 0 then s\<lparr>la_log := la_log s @ [CondSignal]\<rparr> else s) }
      else
        let s = (if free_rtn d then s\<lparr>la_log := la_log s @ [FreeRtn list_element]\<rparr> else s) in
        Some (s\<lparr>la_heap := (la_heap s)(list_element := None), la_log := la_log s @ [MemFree list_element]\<rparr>))"

datatype rpc_fork_stage = RPC_C_PREFORK | RPC_C_POSTFORK_PARENT | RPC_C_POSTFORK_CHILD

definition rpc__list_fork_handler :: "rpc_fork_stage \<Rightarrow> la_state \<Rightarrow> la_state" where
  "rpc__list_fork_handler stage s =
     (case stage of RPC_C_PREFORK \<Rightarrow> s | RPC_C_POSTFORK_PARENT \<Rightarrow> s
      | RPC_C_POSTFORK_CHILD \<Rightarrow> s\<lparr>waiter_cnt := 0\<rparr>)"


text \<open>
  \<open>la_ok s xs\<close>: the lookaside list holds the elements \<open>xs\<close>, counts them and is not longer
  than its maximum.  The environment gives fresh blocks and keeps the other lists well formed.
\<close>

definition la_ok :: "la_state \<Rightarrow> addr list \<Rightarrow> bool" where
  "la_ok s xs \<longleftrightarrow> dll (la_heap s) (list_head (la_desc s)) xs \<and> unat (cur_size (la_desc s)) = length xs \<and>
     cur_size (la_desc s) \<le> max_size (la_desc s)"

definition env_ok :: "la_env \<Rightarrow> bool" where
  "env_ok env \<longleftrightarrow>
     (\<forall>s e junk. mem_alloc env s = Some (e, junk) \<longrightarrow> e \<noteq> 0 \<and> la_heap s e = None) \<and>
     (\<forall>s xs. la_ok s xs \<longrightarrow> (\<exists>ys. la_ok (others env s) ys))"

lemma dll_dom: "dll h l xs \<Longrightarrow> h e = None \<Longrightarrow> e \<noteq> l \<and> e \<notin> set xs"
  using seg_dom [of h l xs 0 e] by (auto simp: dll_def)

lemma dll_upd: "dll h l xs \<Longrightarrow> e \<noteq> l \<Longrightarrow> e \<notin> set xs \<Longrightarrow> dll (h(e := v)) l xs"
  by (simp add: dll_def)

lemma la_ok_upd:
  "la_ok s xs \<Longrightarrow> e \<noteq> list_head (la_desc s) \<Longrightarrow> e \<notin> set xs \<Longrightarrow> la_ok (s\<lparr>la_heap := (la_heap s)(e := v)\<rparr>) xs"
  by (simp add: la_ok_def dll_upd)

lemma la_ok_log [simp]: "la_ok (s\<lparr>la_log := g\<rparr>) xs = la_ok s xs"
  by (simp add: la_ok_def)

lemma alloc_from_list:
  assumes "la_ok s (x # xs)"
  shows "\<exists>h. alloc_loop env block (Suc n) el s =
      Some (x, s\<lparr>la_heap := h, la_desc := (la_desc s)\<lparr>cur_size := cur_size (la_desc s) - 1\<rparr>\<rparr>) \<and>
    la_ok (s\<lparr>la_heap := h, la_desc := (la_desc s)\<lparr>cur_size := cur_size (la_desc s) - 1\<rparr>\<rparr>) xs \<and> list_cell h (list_head (la_desc s)) x"
proof -
  let ?l = "list_head (la_desc s)"
  from assms have d: "dll (la_heap s) ?l (x # xs)" "unat (cur_size (la_desc s)) = Suc (length xs)" by (simp_all add: la_ok_def)
  from rl.get_cons [OF d(1)] obtain h where
    h: "RPC_LIST_REMOVE_HEAD ?l (la_heap s) = Some (x, h)" "dll h ?l xs" "list_cell h ?l = list_cell (la_heap s) ?l" by blast
  have c: "cur_size (la_desc s) \<noteq> 0" using d(2) by auto
  then have u: "unat (cur_size (la_desc s) - 1) = length xs" using d(2) by (simp add: unat_minus_one)
  then have "cur_size (la_desc s) - 1 \<le> max_size (la_desc s)"
    using assms d(2) by (simp add: la_ok_def word_le_nat_alt)
  with h u c rl.held [OF d(1)] show ?thesis
    by (intro exI [of _ h]) (simp add: la_ok_def Let_def word_neq_0_conv [symmetric])
qed

lemma alloc_loop_ok:
  assumes "env_ok env" "la_ok s xs" "n > 0 \<or> el = 0"
  obtains e s' ys where "alloc_loop env block n el s = Some (e, s')" "la_ok s' ys" "e \<notin> set ys"
    "e \<noteq> 0 \<longrightarrow> list_cell (la_heap s') (list_head (la_desc s')) e"
  using assms(2,3)
proof (induction n arbitrary: s xs el thesis)
  case 0
  then have "la_ok s xs" "el = 0" "0 \<notin> set xs" by (auto simp: la_ok_def dll_def)
  then show ?case using "0.prems"(1) [of 0 s xs] by simp
next
  case (Suc n)
  show ?case
  proof (cases xs)
    case (Cons x ys)
    from alloc_from_list [OF Suc.prems(2) [unfolded Cons], of env block n el] Suc.prems(2) Cons show ?thesis
      by (elim exE conjE) (rule Suc.prems(1), assumption, assumption, auto simp: la_ok_def dll_def)
  next
    case Nil
    with Suc.prems(2) have c: "cur_size (la_desc s) = 0" by (simp add: la_ok_def unat_eq_0)
    have nul: "0 \<notin> set xs" using Suc.prems(2) by (simp add: la_ok_def dll_def)
    show ?thesis
    proof (cases "mem_alloc env s")
      case None
      show ?thesis
      proof (cases block)
        case True
        let ?s = "others env (s\<lparr>la_log := la_log s @ [CondWait]\<rparr>)"
        from assms(1) Suc.prems(2) obtain ys where ok: "la_ok ?s ys" unfolding env_ok_def by (metis la_ok_log)
        have st: "alloc_loop env block (Suc n) el s = alloc_loop env block n 0 ?s" using c None True by (simp add: Let_def)
        obtain e s' zs where r: "alloc_loop env block n 0 ?s = Some (e, s')" "la_ok s' zs" "e \<notin> set zs"
          "e \<noteq> 0 \<longrightarrow> list_cell (la_heap s') (list_head (la_desc s')) e" by (rule Suc.IH [OF _ ok disjI2 [OF refl]])
        show ?thesis by (rule Suc.prems(1) [OF _ r(2-4)]) (simp only: st r(1))
      qed (use c None Suc.prems nul Suc.prems(1) [of 0 s xs] in \<open>simp add: Let_def\<close>)
    next
      case (Some r)
      then obtain e junk where r: "mem_alloc env s = Some (e, junk)" by (cases r) auto
      with assms(1) have e: "e \<noteq> 0" "la_heap s e = None" unfolding env_ok_def by blast+
      have ne: "e \<noteq> list_head (la_desc s)" "e \<notin> set xs"
        using dll_dom [of "la_heap s" "list_head (la_desc s)" xs e] Suc.prems(2) e(2) by (auto simp: la_ok_def)
      let ?s = "s\<lparr>la_heap := (la_heap s)(e \<mapsto> junk)\<rparr>"
      have ok: "la_ok ?s xs" by (rule la_ok_upd [OF Suc.prems(2) ne])
      have cell: "list_cell (la_heap ?s) (list_head (la_desc ?s)) e" using e ne by (simp add: list_cell_def)
      consider "alloc_rtn (la_desc s)" "rtn_raises env e" | "alloc_rtn (la_desc s)" "\<not> rtn_raises env e" | "\<not> alloc_rtn (la_desc s)" by blast
      then show ?thesis
      proof cases
        case 1
        let ?s' = "?s\<lparr>la_log := la_log s @ [AllocRtn e]\<rparr>"
        have "la_ok (?s'\<lparr>la_heap := (la_heap ?s')(e := None)\<rparr>) xs"
          by (rule la_ok_upd) (use ok ne in simp_all)
        then show ?thesis using Suc.prems(1) [of 0 _ xs] nul c r 1 Nil by (simp add: Let_def la_ok_def)
      next
        case 2
        show ?thesis by (rule Suc.prems(1) [of e "?s\<lparr>la_log := la_log s @ [AllocRtn e]\<rparr>" xs]) (use c r 2 ok ne cell in \<open>simp_all add: Let_def list_cell_def\<close>)
      next
        case 3
        show ?thesis by (rule Suc.prems(1) [of e ?s xs]) (use c r 3 ok ne cell in \<open>simp_all add: Let_def list_cell_def\<close>)
      qed
    qed
  qed
qed


text \<open>
  Allocation from a lookaside list takes the oldest element of the list and leaves the
  heap allocator alone whenever the list is not empty, whatever else happens gives an
  element that is on no list or \<open>NULL\<close>, and keeps the list well formed, its count exact and
  within the maximum, however the other threads use it during the waits.
\<close>

theorem lookaside_alloc:
  assumes "env_ok env" "la_ok s xs" "max_wait_times s > 0"
  shows "\<exists>e s' ys. rpc__list_element_alloc env block junk s = Some (e, s') \<and> la_ok s' ys \<and> e \<notin> set ys \<and>
    (e \<noteq> NULL \<longrightarrow> list_cell (la_heap s') (list_head (la_desc s')) e) \<and>
    (xs \<noteq> [] \<longrightarrow> e = hd xs \<and> ys = tl xs \<and> la_log s' = la_log s) \<and>
    (xs = [] \<and> \<not> block \<longrightarrow> (e = NULL \<longleftrightarrow>
       (case mem_alloc env s of None \<Rightarrow> True | Some (p, _) \<Rightarrow> alloc_rtn (la_desc s) \<and> rtn_raises env p)))"
proof -
  obtain n where n: "unat (max_wait_times s) = Suc n"
    using assms(3) by (metis not0_implies_Suc unat_eq_0 word_neq_0_conv)
  show ?thesis
  proof (cases xs)
    case (Cons x ys)
    from alloc_from_list [OF assms(2) [unfolded Cons], of env block n junk] assms(2) Cons show ?thesis
      by (fastforce simp: rpc__list_element_alloc_def n la_ok_def dll_def simp del: alloc_loop.simps)
  next
    case Nil
    with assms(2) have c: "cur_size (la_desc s) = 0" by (simp add: la_ok_def unat_eq_0)
    obtain e s' ys where r: "alloc_loop env block (Suc n) junk s = Some (e, s')" "la_ok s' ys" "e \<notin> set ys"
      "e \<noteq> 0 \<longrightarrow> list_cell (la_heap s') (list_head (la_desc s')) e"
      by (rule alloc_loop_ok [OF assms(1,2), of "Suc n" junk block]) simp_all
    have "\<not> block \<longrightarrow> (e = NULL \<longleftrightarrow>
       (case mem_alloc env s of None \<Rightarrow> True | Some (p, _) \<Rightarrow> alloc_rtn (la_desc s) \<and> rtn_raises env p))"
      using r(1) c assms(1) unfolding env_ok_def by (force simp: Let_def split: option.splits if_splits)
    with r Nil show ?thesis by (auto simp: rpc__list_element_alloc_def n simp del: alloc_loop.simps)
  qed
qed

text \<open>
  Freeing an element puts it at the end of the lookaside list while there is room and
  otherwise, after the descriptor's own free routine, gives it back to the heap; the list
  stays well formed and within its maximum, and the link field of a freed block is gone.
\<close>

theorem lookaside_free:
  assumes "la_ok s xs" "list_cell (la_heap s) (list_head (la_desc s)) e" "e \<notin> set xs" "waiter_cnt s = 0"
  shows "\<exists>s'. rpc__list_element_free e s = Some s' \<and>
    (if length xs < unat (max_size (la_desc s)) then la_ok s' (xs @ [e]) \<and> la_log s' = la_log s
     else la_ok s' xs \<and> la_heap s' e = None \<and>
       la_log s' = la_log s @ (if free_rtn (la_desc s) then [FreeRtn e] else []) @ [MemFree e])"
proof -
  let ?d = "la_desc s"
  from assms(1) have d: "dll (la_heap s) (list_head ?d) xs" "unat (cur_size ?d) = length xs"
    "cur_size ?d \<le> max_size ?d" by (simp_all add: la_ok_def)
  have lt: "cur_size ?d < max_size ?d \<longleftrightarrow> length xs < unat (max_size ?d)" using d(2) by (simp add: word_less_nat_alt)
  show ?thesis
  proof (cases "cur_size ?d < max_size ?d")
    case True
    from rl.put_holds [OF d(1) assms(2,3)] obtain h where
      h: "RPC_LIST_ADD_TAIL (list_head ?d) e (la_heap s) = Some h" "dll h (list_head ?d) (xs @ [e])" by blast
    have "unat (cur_size ?d + 1) = Suc (length xs)"
      using True d(2) unat_u32_lt [of "max_size ?d"] by (simp add: word_vals word_less_nat_alt)
    moreover have "cur_size ?d + 1 \<le> max_size ?d" using True by (rule inc_le)
    ultimately show ?thesis using h True lt assms(4) by (simp add: rpc__list_element_free_def Let_def la_ok_def)
  next
    case False
    have "e \<noteq> list_head ?d" using assms(2) by (simp add: list_cell_def)
    from la_ok_upd [OF assms(1) this assms(3), of None] False lt show ?thesis
      by (auto simp: rpc__list_element_free_def Let_def la_ok_def)
  qed
qed

definition sample_la :: la_state where
  "sample_la = \<lparr>la_heap = sample_heap, la_desc = \<lparr>list_head = 1, max_size = 2, cur_size = 2, element_size = 40,
     element_type = 7, alloc_rtn = False, free_rtn = True, use_global_mutex = True\<rparr>,
     waiter_cnt = 0, max_wait_times = 5, la_log = []\<rparr>"

definition sample_env :: la_env where
  "sample_env = \<lparr>mem_alloc = (\<lambda>s. None), rtn_raises = (\<lambda>_. False), others = (\<lambda>s. s)\<rparr>"

lemma sample_la_ok: "la_ok sample_la [2, 3]" "env_ok sample_env"
  using sample_heap_dll by (auto simp: la_ok_def env_ok_def sample_la_def sample_env_def)

theorem lookaside_alloc_witness:
  "\<exists>s'. rpc__list_element_alloc sample_env True 77 sample_la = Some (2, s') \<and> la_ok s' [3]"
  using lookaside_alloc [OF sample_la_ok(2,1), of True 77] by (auto simp: sample_la_def)

theorem lookaside_free_witness:
  "\<exists>s'. rpc__list_element_free 4 sample_la = Some s' \<and> la_ok s' [2, 3] \<and> la_log s' = [FreeRtn 4, MemFree 4]"
  using lookaside_free [OF sample_la_ok(1), of 4] by (auto simp: sample_la_def sample_heap_def list_cell_def)

section \<open>Waiters\<close>

text \<open>Everything the routines of \<open>rpclist.c\<close> do to one lookaside list, by any threads, in any order\<close>

inductive la_run :: "la_env \<Rightarrow> la_state \<Rightarrow> la_state \<Rightarrow> bool" for env where
  la_start: "la_run env s s"
| la_init: "la_run env s t \<Longrightarrow> rpc__list_desc_init l mx sz ty ar fr mu t = Some u \<Longrightarrow> la_run env s u"
| la_alloc: "la_run env s t \<Longrightarrow> rpc__list_element_alloc env block junk t = Some (e, u) \<Longrightarrow> la_run env s u"
| la_free: "la_run env s t \<Longrightarrow> rpc__list_element_free e t = Some u \<Longrightarrow> la_run env s u"
| la_fork: "la_run env s t \<Longrightarrow> la_run env s (rpc__list_fork_handler stage t)"

definition unsignalled :: "la_state \<Rightarrow> bool" where
  "unsignalled s \<longleftrightarrow> waiter_cnt s = 0 \<and> CondSignal \<notin> set (la_log s)"

lemma alloc_loop_unsignalled:
  "\<forall>s. unsignalled s \<longrightarrow> unsignalled (others env s) \<Longrightarrow> unsignalled s \<Longrightarrow>
   alloc_loop env block n el s = Some (e, s') \<Longrightarrow> unsignalled s'"
proof (induction n arbitrary: s el)
  case (Suc n)
  have w: "unsignalled (others env (s\<lparr>la_log := la_log s @ [CondWait]\<rparr>))"
    using Suc.prems(1,2) by (simp add: unsignalled_def)
  show ?case
    using Suc.prems(2,3) Suc.IH [OF Suc.prems(1) w]
    by (auto simp: unsignalled_def Let_def bind_eq_Some_conv split: if_splits option.splits prod.splits)
qed simp

text \<open>
  A thread that waits for an element is never woken: no routine ever counts a waiter, so
  whatever the threads do from a state without waiters, no condition variable is signalled
  when an element is freed, and a waiting \<open>rpc__list_element_alloc\<close> sleeps its full second.
\<close>

theorem lookaside_never_signals:
  assumes "la_run env s t" "waiter_cnt s = 0" "CondSignal \<notin> set (la_log s)"
    and "\<forall>s. waiter_cnt s = 0 \<and> CondSignal \<notin> set (la_log s) \<longrightarrow>
           waiter_cnt (others env s) = 0 \<and> CondSignal \<notin> set (la_log (others env s))"
  shows "waiter_cnt t = 0 \<and> CondSignal \<notin> set (la_log t)"
proof -
  have e: "\<forall>s. unsignalled s \<longrightarrow> unsignalled (others env s)" using assms(4) by (simp add: unsignalled_def)
  from assms(1) have "unsignalled s \<longrightarrow> unsignalled t"
  proof induction
    case (la_alloc t block junk e u)
    then show ?case using alloc_loop_unsignalled [OF e] by (metis rpc__list_element_alloc_def)
  next
    case (la_free t e u)
    then show ?case
      by (auto simp: rpc__list_element_free_def unsignalled_def Let_def bind_eq_Some_conv split: if_splits)
  next
    case (la_fork t stage)
    then show ?case by (auto simp: rpc__list_fork_handler_def unsignalled_def split: rpc_fork_stage.splits)
  qed (auto simp: unsignalled_def rpc__list_desc_init_def bind_eq_Some_conv)
  with assms(2,3) show ?thesis by (simp add: unsignalled_def)
qed

theorem lookaside_never_signals_witness:
  "\<exists>s'. rpc__list_element_free 4 (sample_la\<lparr>la_desc := (la_desc sample_la)\<lparr>max_size := 3\<rparr>\<rparr>) = Some s' \<and>
     CondSignal \<notin> set (la_log s')"
proof -
  let ?s = "sample_la\<lparr>la_desc := (la_desc sample_la)\<lparr>max_size := 3\<rparr>\<rparr>"
  have "\<exists>s'. rpc__list_element_free 4 ?s = Some s'"
    by (simp add: rpc__list_element_free_def sample_la_def RPC_LIST_ADD_TAIL_def list_defs sample_heap_def Let_def)
  then obtain s' where s': "rpc__list_element_free 4 ?s = Some s'" by blast
  have "la_run sample_env ?s s'" by (rule la_free [OF la_start s'])
  from lookaside_never_signals [OF this] s' show ?thesis by (simp add: sample_la_def sample_env_def)
qed

end
