(* ===== verification/RpcTimer.thy ===== *)
theory RpcTimer
  imports RpcClock RpcList
begin

text \<open>
  The periodic routines of the runtime: \<open>ncklib/rpc/rpctimer.c\<close>.  The store maps addresses to
  \<open>rpc_timer_t\<close> records linked through their \<open>next\<close> fields; \<open>None\<close> is a dereference of an
  invalid pointer, a failed assertion, or a loop that does not end.  The fork handler and the
  start of the timer thread are not modelled; the body of the thread's loop is.
\<close>

section \<open>The state\<close>

record rpc_timer =
  t_next :: addr
  trigger :: u32
  frequency :: u32
  t_proc :: nat
  parg :: nat

type_synonym theap = "addr \<Rightarrow> rpc_timer option"

text \<open>
  The static variables; \<open>tm_world\<close> is what the routines called work on.  \<open>prods\<close> records the
  signals sent to the timer thread.
\<close>

record 'w timer_state =
  tm_heap :: theap
  running_list :: addr
  timer_head :: addr
  timer_tail :: addr
  high_trigger :: u32
  cur_trigger :: u32
  prods :: "u32 list"
  tm_clock :: clock_state
  tm_world :: 'w

definition tget :: "addr \<Rightarrow> theap \<Rightarrow> rpc_timer option" where
  "tget p h = (if p = NULL then None else h p)"

definition tset :: "addr \<Rightarrow> (rpc_timer \<Rightarrow> rpc_timer) \<Rightarrow> 'w timer_state \<Rightarrow> 'w timer_state option" where
  "tset p f s = do { x \<leftarrow> tget p (tm_heap s); Some (s\<lparr>tm_heap := (tm_heap s)(p \<mapsto> f x)\<rparr>) }"

section \<open>The routines\<close>

definition rpc__timer_init :: "int \<times> int \<Rightarrow> 'w timer_state \<Rightarrow> 'w timer_state" where
  "rpc__timer_init tp s =
     s\<lparr>running_list := NULL, timer_head := NULL, timer_tail := NULL, high_trigger := 0,
       tm_clock := rpc__clock_update tp ((tm_clock s)\<lparr>clock_curr := 0, long_sleep := False\<rparr>)\<rparr>"

definition rpc__timer_prod :: "u32 \<Rightarrow> 'w timer_state \<Rightarrow> 'w timer_state" where
  "rpc__timer_prod trig s = s\<lparr>cur_trigger := trig, prods := prods s @ [trig]\<rparr>"

text \<open>
  \<open>set_search\<close> is the loop of \<open>rpc__timer_set_int\<close> (\<open>prev_ptr\<close> and \<open>list_ptr\<close> where it stops),
  \<open>timer_enqueue\<close> all of it behind the assignments to the fields of the timer.
\<close>

partial_function (option) set_search :: "theap \<Rightarrow> u32 \<Rightarrow> addr \<Rightarrow> addr \<Rightarrow> (addr \<times> addr) option" where
  "set_search h trig prev_ptr list_ptr =
     (if list_ptr = NULL then Some (prev_ptr, NULL)
      else do {
        x \<leftarrow> tget list_ptr h;
        if trig < trigger x then Some (prev_ptr, list_ptr)
        else set_search h trig list_ptr (t_next x) })"

definition timer_enqueue :: "addr \<Rightarrow> u32 \<Rightarrow> 'w timer_state \<Rightarrow> 'w timer_state option" where
  "timer_enqueue t trig s =
     (if timer_head s \<noteq> NULL \<and> trig \<ge> high_trigger s then do {
        s \<leftarrow> tset (timer_tail s) (\<lambda>x. x\<lparr>t_next := t\<rparr>) s;
        s \<leftarrow> tset t (\<lambda>x. x\<lparr>t_next := NULL\<rparr>) s;
        Some (s\<lparr>timer_tail := t, high_trigger := trig\<rparr>) }
      else do {
        (prev_ptr, list_ptr) \<leftarrow> set_search (tm_heap s) trig NULL (timer_head s);
        if list_ptr \<noteq> NULL then
          if list_ptr = timer_head s then do {
            s \<leftarrow> tset t (\<lambda>x. x\<lparr>t_next := timer_head s\<rparr>) s;
            let s = s\<lparr>timer_head := t\<rparr>;
            Some (if cur_trigger s > trig then rpc__timer_prod trig s else s) }
          else do {
            s \<leftarrow> tset prev_ptr (\<lambda>x. x\<lparr>t_next := t\<rparr>) s;
            tset t (\<lambda>x. x\<lparr>t_next := list_ptr\<rparr>) s }
        else if timer_head s \<noteq> NULL then None
        else do {
          s \<leftarrow> tset t (\<lambda>x. x\<lparr>t_next := NULL\<rparr>) s;
          let s = s\<lparr>timer_head := t, timer_tail := t, high_trigger := trig\<rparr>;
          Some (if cur_trigger s > trig then rpc__timer_prod trig s else s) } })"

definition rpc__timer_set_int :: "addr \<Rightarrow> nat \<Rightarrow> nat \<Rightarrow> u32 \<Rightarrow> 'w timer_state \<Rightarrow> 'w timer_state option" where
  "rpc__timer_set_int t proc arg freq s = do {
     let trig = freq + clock_curr (tm_clock s);
     s \<leftarrow> tset t (\<lambda>x. x\<lparr>t_proc := proc, parg := arg, frequency := freq, trigger := trig\<rparr>) s;
     timer_enqueue t trig s }"

definition rpc__timer_set :: "addr \<Rightarrow> nat \<Rightarrow> nat \<Rightarrow> u32 \<Rightarrow> 'w timer_state \<Rightarrow> 'w timer_state option" where
  "rpc__timer_set t proc arg freq s = rpc__timer_set_int t proc arg freq s"

text \<open>
  The search loops of \<open>rpc__timer_clear\<close> and \<open>rpc__timer_adjust\<close>: the predecessor of \<open>t\<close> in the
  list from \<open>list_ptr\<close>, or nothing when \<open>t\<close> is not on it.
\<close>

partial_function (option) find_timer :: "theap \<Rightarrow> addr \<Rightarrow> addr \<Rightarrow> addr \<Rightarrow> addr option option" where
  "find_timer h t prev list_ptr =
     (if list_ptr = NULL then Some None
      else if list_ptr = t then Some (Some prev)
      else do { x \<leftarrow> tget list_ptr h; find_timer h t list_ptr (t_next x) })"

definition rpc__timer_clear :: "addr \<Rightarrow> 'w timer_state \<Rightarrow> 'w timer_state option" where
  "rpc__timer_clear t s = do {
     found \<leftarrow> find_timer (tm_heap s) t NULL (running_list s);
     case found of
       Some prev \<Rightarrow> do {
         x \<leftarrow> tget t (tm_heap s);
         if prev = NULL then Some (s\<lparr>running_list := t_next x\<rparr>)
         else tset prev (\<lambda>y. y\<lparr>t_next := t_next x\<rparr>) s }
     | None \<Rightarrow> do {
         found \<leftarrow> find_timer (tm_heap s) t NULL (timer_head s);
         case found of
           None \<Rightarrow> Some s
         | Some prev \<Rightarrow> do {
             x \<leftarrow> tget t (tm_heap s);
             if t = timer_head s then Some (s\<lparr>timer_head := t_next x\<rparr>)
             else do {
               s \<leftarrow> tset prev (\<lambda>y. y\<lparr>t_next := t_next x\<rparr>) s;
               if t_next x = NULL then do {
                 y \<leftarrow> tget prev (tm_heap s);
                 Some (s\<lparr>timer_tail := prev, high_trigger := trigger y\<rparr>) }
               else Some s } } } }"

definition rpc__timer_adjust :: "addr \<Rightarrow> u32 \<Rightarrow> 'w timer_state \<Rightarrow> 'w timer_state option" where
  "rpc__timer_adjust t freq s = do {
     found \<leftarrow> find_timer (tm_heap s) t NULL (running_list s);
     case found of
       Some _ \<Rightarrow> tset t (\<lambda>x. x\<lparr>frequency := freq\<rparr>) s
     | None \<Rightarrow> do {
         s \<leftarrow> rpc__timer_clear t s;
         s \<leftarrow> tset t (\<lambda>x. x\<lparr>frequency := freq\<rparr>) s;
         x \<leftarrow> tget t (tm_heap s);
         rpc__timer_set t (t_proc x) (parg x) (frequency x) s } }"

text \<open>
  One turn of the loop of \<open>rpc__timer_callout\<close>.  \<open>call\<close> is the call of the routine, with whatever
  the other threads do while the lock is released.  The last loop unlinks \<open>ptr\<close> wherever it
  finds it on the rest of the running list and reschedules it.
\<close>

partial_function (option) unlink_loop :: "addr \<Rightarrow> addr \<Rightarrow> 'w timer_state \<Rightarrow> 'w timer_state option" where
  "unlink_loop ptr prev s =
     (if prev = NULL then Some s
      else do {
        y \<leftarrow> tget prev (tm_heap s);
        s \<leftarrow> (if t_next y = ptr then do {
               x \<leftarrow> tget ptr (tm_heap s);
               s \<leftarrow> tset prev (\<lambda>y. y\<lparr>t_next := t_next x\<rparr>) s;
               rpc__timer_set_int ptr (t_proc x) (parg x) (frequency x) s }
             else Some s);
        y \<leftarrow> tget prev (tm_heap s);
        unlink_loop ptr (t_next y) s })"

definition callout_turn :: "(nat \<Rightarrow> nat \<Rightarrow> 'w timer_state \<Rightarrow> 'w timer_state option) \<Rightarrow> 'w timer_state \<Rightarrow> 'w timer_state option" where
  "callout_turn call s = do {
     let ptr = timer_head s;
     x \<leftarrow> tget ptr (tm_heap s);
     let s = s\<lparr>timer_head := t_next x\<rparr>;
     s \<leftarrow> tset ptr (\<lambda>x. x\<lparr>t_next := running_list s\<rparr>) s;
     let s = s\<lparr>running_list := ptr\<rparr>;
     x \<leftarrow> tget ptr (tm_heap s);
     s \<leftarrow> call (t_proc x) (parg x) s;
     if ptr = running_list s then do {
       x \<leftarrow> tget ptr (tm_heap s);
       rpc__timer_set_int ptr (t_proc x) (parg x) (frequency x) (s\<lparr>running_list := t_next x\<rparr>) }
     else unlink_loop ptr (running_list s) s }"

partial_function (option) callout_loop :: "(nat \<Rightarrow> nat \<Rightarrow> 'w timer_state \<Rightarrow> 'w timer_state option) \<Rightarrow> 'w timer_state \<Rightarrow> 'w timer_state option" where
  "callout_loop call s =
     (if timer_head s = NULL then Some s
      else do {
        x \<leftarrow> tget (timer_head s) (tm_heap s);
        if trigger x \<le> clock_curr (tm_clock s) then do { s \<leftarrow> callout_turn call s; callout_loop call s }
        else Some s })"

definition rpc__timer_callout :: "(nat \<Rightarrow> nat \<Rightarrow> 'w timer_state \<Rightarrow> 'w timer_state option) \<Rightarrow> 'w timer_state \<Rightarrow> (u32 \<times> 'w timer_state) option" where
  "rpc__timer_callout call s = do {
     s \<leftarrow> callout_loop call s;
     if timer_head s = NULL then Some (0, s)
     else do {
       x \<leftarrow> tget (timer_head s) (tm_heap s);
       Some (trigger x - clock_curr (tm_clock s), s) } }"

text \<open>One turn of \<open>timer_loop\<close>: the time it then waits until.\<close>

definition timer_loop_turn :: "(nat \<Rightarrow> nat \<Rightarrow> 'w timer_state \<Rightarrow> 'w timer_state option) \<Rightarrow> int \<times> int \<Rightarrow> 'w timer_state \<Rightarrow> ((int \<times> int) \<times> 'w timer_state) option" where
  "timer_loop_turn call tp s = do {
     let s = s\<lparr>tm_clock := rpc__clock_update tp (tm_clock s)\<rparr>;
     (next_time, s) \<leftarrow> rpc__timer_callout call s;
     let s = s\<lparr>tm_clock := (tm_clock s)\<lparr>long_sleep := next_time > RPC_CLOCK_SEC 1\<rparr>\<rparr>;
     let max_step = RPC_CLOCK_SEC 50;
     let next_time = (if next_time = 0 \<or> next_time > max_step then max_step else next_time);
     let s = s\<lparr>cur_trigger := clock_curr (tm_clock s) + next_time\<rparr>;
     Some (rpc__clock_timespec (cur_trigger s) (tm_clock s), s) }"

section \<open>Well-formed queues\<close>

text \<open>
  \<open>tseg h p xs m\<close>: from \<open>p\<close> the \<open>next\<close> pointers lead through \<open>xs\<close> to \<open>m\<close>.  \<open>timer_ok s q r\<close>: the
  queue holds the timers \<open>q\<close> in the order of their triggers, \<open>r\<close> are running, and the tail
  pointer and the high trigger are those of the last one.
\<close>

fun tseg :: "theap \<Rightarrow> addr \<Rightarrow> addr list \<Rightarrow> addr \<Rightarrow> bool" where
  "tseg h p [] m \<longleftrightarrow> p = m"
| "tseg h p (x # xs) m \<longleftrightarrow> p = x \<and> x \<noteq> 0 \<and> (\<exists>n. h x = Some n \<and> tseg h (t_next n) xs m)"

definition trig :: "theap \<Rightarrow> addr \<Rightarrow> u32" where
  "trig h x = trigger (the (h x))"

definition timer_ok :: "'w timer_state \<Rightarrow> addr list \<Rightarrow> addr list \<Rightarrow> bool" where
  "timer_ok s q r \<longleftrightarrow> tseg (tm_heap s) (timer_head s) q 0 \<and> tseg (tm_heap s) (running_list s) r 0 \<and>
     distinct (q @ r) \<and> sorted (map (trig (tm_heap s)) q) \<and>
     (q \<noteq> [] \<longrightarrow> timer_tail s = last q \<and> high_trigger s = trig (tm_heap s) (last q))"

lemma tseg_append [simp]: "tseg h p (xs @ ys) m \<longleftrightarrow> (\<exists>k. tseg h p xs k \<and> tseg h k ys m)"
  by (induction xs arbitrary: p) auto

lemma tseg_frame: "(\<And>x. x \<in> set xs \<Longrightarrow> h' x = h x) \<Longrightarrow> tseg h' p xs m = tseg h p xs m"
  by (induction xs arbitrary: p) auto

lemma tseg_upd [simp]: "x \<notin> set xs \<Longrightarrow> tseg (h(x := v)) p xs m = tseg h p xs m"
  by (rule tseg_frame) auto

lemma tseg_first: "tseg h p xs m \<Longrightarrow> p = first_or m xs"
  by (cases xs) auto

lemma tseg_nonzero: "tseg h p xs m \<Longrightarrow> x \<in> set xs \<Longrightarrow> x \<noteq> 0 \<and> (\<exists>n. h x = Some n)"
  by (induction xs arbitrary: p) auto

lemma tseg_data:
  "tseg h p xs m \<Longrightarrow> (\<And>x n. x \<in> set xs \<Longrightarrow> h x = Some n \<Longrightarrow> \<exists>n'. h' x = Some n' \<and> t_next n' = t_next n) \<Longrightarrow> tseg h' p xs m"
  by (induction xs arbitrary: p) fastforce+

lemma tget_simp [simp]: "p \<noteq> 0 \<Longrightarrow> tget p h = h p"
  by (simp add: tget_def)

lemma dropWhile_above:
  "sorted (map f q) \<Longrightarrow> x \<in> set (dropWhile (\<lambda>x. f x \<le> c) q) \<Longrightarrow> c < (f x :: 'b :: linorder)"
proof (induction q)
  case (Cons a q)
  then show ?case by (auto split: if_splits)
qed simp

lemma takeWhile_below: "x \<in> set (takeWhile (\<lambda>x. f x \<le> c) q) \<Longrightarrow> f x \<le> c"
  by (rule set_takeWhileD [THEN conjunct2])

definition tq_insert :: "theap \<Rightarrow> u32 \<Rightarrow> addr \<Rightarrow> addr list \<Rightarrow> addr list" where
  "tq_insert h tr t q = takeWhile (\<lambda>x. trig h x \<le> tr) q @ t # dropWhile (\<lambda>x. trig h x \<le> tr) q"

lemma set_search_seg:
  "tseg h p q 0 \<Longrightarrow> set_search h tr prev p =
     Some (if dropWhile (\<lambda>x. trig h x \<le> tr) q = [] then (last_or prev q, 0)
           else (last_or prev (takeWhile (\<lambda>x. trig h x \<le> tr) q), first_or 0 (dropWhile (\<lambda>x. trig h x \<le> tr) q)))"
proof (induction q arbitrary: p prev)
  case Nil
  then show ?case by (simp add: set_search.simps)
next
  case (Cons x q)
  then obtain n where n: "p = x" "x \<noteq> 0" "h x = Some n" "tseg h (t_next n) q 0" by auto
  show ?case
  proof (cases "tr < trigger n")
    case True
    with n show ?thesis by (subst set_search.simps) (auto simp: trig_def)
  next
    case False
    with n Cons.IH [OF n(4)] show ?thesis by (subst set_search.simps) (auto simp: trig_def not_less)
  qed
qed

lemma find_timer_seg:
  "tseg h p q 0 \<Longrightarrow> find_timer h t prev p =
     Some (if t \<in> set q then Some (last_or prev (takeWhile (\<lambda>x. x \<noteq> t) q)) else None)"
proof (induction q arbitrary: p prev)
  case Nil
  then show ?case by (simp add: find_timer.simps)
next
  case (Cons x q)
  then obtain n where n: "p = x" "x \<noteq> 0" "h x = Some n" "tseg h (t_next n) q 0" by auto
  with Cons.IH [OF n(4)] show ?case by (subst find_timer.simps) auto
qed

text \<open>The state after \<open>rpc__timer_set_int\<close>, with the queue split where the timer goes\<close>

definition set_state :: "'w timer_state \<Rightarrow> addr \<Rightarrow> rpc_timer \<Rightarrow> addr list \<Rightarrow> addr list \<Rightarrow> 'w timer_state" where
  "set_state s t x as bs =
     s\<lparr>tm_heap := (if as = [] then tm_heap s
                   else (tm_heap s)(last as \<mapsto> (the (tm_heap s (last as)))\<lparr>t_next := t\<rparr>))(t \<mapsto> x\<lparr>t_next := first_or 0 bs\<rparr>),
       timer_head := first_or t as, timer_tail := last_or t bs,
       high_trigger := (if bs = [] then trigger x else high_trigger s),
       cur_trigger := (if as = [] \<and> cur_trigger s > trigger x then trigger x else cur_trigger s),
       prods := (if as = [] \<and> cur_trigger s > trigger x then prods s @ [trigger x] else prods s)\<rparr>"

lemma timer_state_eqI:
  "tm_heap s = tm_heap s' \<Longrightarrow> running_list s = running_list s' \<Longrightarrow> timer_head s = timer_head s' \<Longrightarrow>
   timer_tail s = timer_tail s' \<Longrightarrow> high_trigger s = high_trigger s' \<Longrightarrow> cur_trigger s = cur_trigger s' \<Longrightarrow>
   prods s = prods s' \<Longrightarrow> tm_clock s = tm_clock s' \<Longrightarrow> tm_world s = tm_world s' \<Longrightarrow> s = (s' :: 'w timer_state)"
  by (cases s; cases s') simp

lemma timer_enqueue_state:
  fixes s :: "'w timer_state"
  assumes ok: "timer_ok s q r" and t: "tm_heap s t = Some x" "t \<noteq> 0" "t \<notin> set q"
  defines "as \<equiv> takeWhile (\<lambda>z. trig (tm_heap s) z \<le> trigger x) q" and "bs \<equiv> dropWhile (\<lambda>z. trig (tm_heap s) z \<le> trigger x) q"
  shows "timer_enqueue t (trigger x) s = Some (set_state s t x as bs)"
proof -
  let ?h = "tm_heap s"
  have seg: "tseg ?h (timer_head s) q 0" "sorted (map (trig ?h) q)" and
    tl: "q \<noteq> [] \<longrightarrow> timer_tail s = last q \<and> high_trigger s = trig ?h (last q)" using ok by (simp_all add: timer_ok_def)
  have q: "q = as @ bs" by (simp add: as_def bs_def)
  have hd: "timer_head s = first_or 0 q" by (rule tseg_first [OF seg(1)])
  have search: "set_search ?h (trigger x) 0 (timer_head s) =
      Some (if bs = [] then (last_or 0 q, 0) else (last_or 0 as, first_or 0 bs))"
    using set_search_seg [OF seg(1)] by (simp add: as_def bs_def)
  have nz: "\<And>z. z \<in> set q \<Longrightarrow> z \<noteq> 0 \<and> (\<exists>n. ?h z = Some n)" using tseg_nonzero [OF seg(1)] .
  show ?thesis
  proof (cases "q = []")
    case True
    with q have e: "as = []" "bs = []" by simp_all
    have h0: "timer_head s = 0" using hd True by simp
    show ?thesis
      using t search h0 e unfolding timer_enqueue_def
      by (simp add: Let_def tset_def rpc__timer_prod_def) (auto intro!: timer_state_eqI simp: set_state_def)
  next
    case q0: False
    then have l: "last q \<in> set q" by simp
    then have l: "last q \<in> set q" "last q \<noteq> 0" "last q \<noteq> t" using nz [OF l] t(3) by auto
    then obtain n where n: "?h (last q) = Some n" using nz by blast
    have "first_or 0 q \<in> set q" using q0 by (rule first_or_in)
    with hd nz have h0: "timer_head s \<noteq> 0" by metis
    show ?thesis
    proof (cases "trigger x \<ge> high_trigger s")
      case True
      have "as = q" unfolding as_def
      proof (rule takeWhile_eq_all_conv [THEN iffD2], rule ballI)
        fix z assume "z \<in> set q"
        then have "trig ?h z \<le> trig ?h (last q)"
          using seg(2) q0 by (induction q rule: rev_induct) (auto simp: sorted_append)
        with True tl q0 show "trig ?h z \<le> trigger x" by simp
      qed
      with q have e: "as = q" "bs = []" by simp_all
      have tail: "timer_tail s = last q" using tl q0 by simp
      show ?thesis
        using t h0 True tail q0 e l n hd unfolding timer_enqueue_def
        by (simp add: tset_def) (auto intro!: timer_state_eqI simp: set_state_def first_or_def split: list.splits)
    next
      case False
      have b0: "bs \<noteq> []"
      proof
        assume "bs = []"
        with q q0 have "last q \<in> set as" by simp
        then have "trig ?h (last q) \<le> trigger x" unfolding as_def by (rule takeWhile_below)
        with False tl q0 show False by simp
      qed
      then have fb: "first_or 0 bs \<in> set bs" by (rule first_or_in)
      then have f: "first_or 0 bs \<noteq> 0" using nz q by auto
      show ?thesis
      proof (cases "as = []")
        case True
        then have "bs = q" using q by simp
        with True tl q0 have "timer_head s = first_or 0 bs" "timer_tail s = last bs" using hd by simp_all
        then show ?thesis
          using t h0 False search f b0 True unfolding timer_enqueue_def
          by (simp add: Let_def tset_def rpc__timer_prod_def) (auto intro!: timer_state_eqI simp: set_state_def last_or_def)
      next
        case as: False
        then have "last as \<in> set q" using q by simp
        with nz t(3) have la: "last as \<noteq> 0" "last as \<noteq> t" by auto
        obtain m where m: "?h (last as) = Some m" using nz \<open>last as \<in> set q\<close> by blast
        have "timer_head s \<in> set as" using as hd q by (simp add: first_or_in)
        then have ne: "first_or 0 bs \<noteq> timer_head s" using fb ok q by (auto simp: timer_ok_def)
        have "timer_head s = first_or t as" "timer_tail s = last bs" using hd as tl q0 q b0 by (simp_all add: first_or_def split: list.splits)
        then show ?thesis
          using t h0 False search f b0 as la m ne unfolding timer_enqueue_def
          by (simp add: tset_def last_or_def) (auto intro!: timer_state_eqI simp: set_state_def last_or_def)
      qed
    qed
  qed
qed


lemma set_state_ok:
  assumes ok: "timer_ok s q r" and t: "tm_heap s t = Some x" "t \<noteq> 0" "t \<notin> set q" "t \<notin> set r"
    and q: "q = as @ bs" and as: "\<forall>z \<in> set as. trig (tm_heap s) z \<le> trigger x"
    and bs: "\<forall>z \<in> set bs. trigger x < trig (tm_heap s) z"
  shows "timer_ok (set_state s t x as bs) (as @ t # bs) r"
proof -
  let ?h = "tm_heap s" and ?s = "set_state s t x as bs"
  let ?h' = "tm_heap ?s"
  have seg: "tseg ?h (timer_head s) (as @ bs) 0" "tseg ?h (running_list s) r 0" "distinct (as @ bs @ r)"
    "sorted (map (trig ?h) (as @ bs))"
    and tl: "bs \<noteq> [] \<longrightarrow> timer_tail s = last bs \<and> high_trigger s = trig ?h (last bs)"
    using ok q by (auto simp: timer_ok_def)
  have at: "?h' t = Some (x\<lparr>t_next := first_or 0 bs\<rparr>)" by (simp add: set_state_def)
  have off: "?h' z = ?h z" if "z \<noteq> t" "as = [] \<or> z \<noteq> last as" for z using that by (auto simp: set_state_def)
  have off': "?h' z = ?h z" if "z \<noteq> t" "z \<notin> set as" for z using that off by (metis last_in_set)
  have offb: "?h' z = ?h z" if "z \<in> set bs" for z
    by (rule off') (use that t(3) q seg(3) in auto)
  have offr: "?h' z = ?h z" if "z \<in> set r" for z
    by (rule off') (use that t(4) seg(3) in auto)
  have trg: "trig ?h' z = trig ?h z" if "z \<noteq> t" for z using that by (auto simp: set_state_def trig_def)
  have trt: "trig ?h' t = trigger x" by (simp add: trig_def at)
  have hd: "timer_head ?s = first_or t as" by (simp add: set_state_def)
  obtain k where k: "tseg ?h (timer_head s) as k" "tseg ?h k bs 0" using seg(1) by auto
  have kb: "k = first_or 0 bs" by (rule tseg_first [OF k(2)])
  have b: "tseg ?h' (first_or 0 bs) bs 0"
    using k(2) unfolding kb by (subst tseg_frame [of bs ?h' ?h]) (rule offb)
  have tb: "tseg ?h' t (t # bs) 0" using b at t(2) by simp
  have a: "tseg ?h' (first_or t as) as t"
  proof (cases as rule: rev_cases)
    case (snoc cs c)
    from k(1) snoc obtain n where c: "tseg ?h (timer_head s) cs c" "c \<noteq> 0" "?h c = Some n" by auto
    have "tseg ?h' (timer_head s) cs c"
    proof (subst tseg_frame [of cs ?h' ?h])
      show "?h' z = ?h z" if "z \<in> set cs" for z
        by (rule off) (use that t(3) q snoc seg(3) in auto)
    qed (rule c(1))
    moreover have "?h' c = Some (n\<lparr>t_next := t\<rparr>)" using snoc c(3) t(3) q by (auto simp: set_state_def)
    ultimately show ?thesis using c snoc tseg_first [OF c(1)] by simp
  qed simp
  have "tseg ?h' (timer_head ?s) (as @ t # bs) 0" unfolding hd tseg_append using a tb by blast
  moreover have "tseg ?h' (running_list ?s) r 0"
  proof (subst tseg_frame [of r ?h' ?h])
    show "tseg ?h (running_list ?s) r 0" using seg(2) by (simp add: set_state_def)
  qed (rule offr)
  moreover have "distinct ((as @ t # bs) @ r)" using seg(3) t q by auto
  moreover have "sorted (map (trig ?h') (as @ t # bs))"
  proof -
    have "map (trig ?h') (as @ t # bs) = map (trig ?h) as @ trigger x # map (trig ?h) bs"
    proof -
      have "map (trig ?h') as = map (trig ?h) as" by (rule map_cong [OF refl], rule trg) (use t(3) q in auto)
      moreover have "map (trig ?h') bs = map (trig ?h) bs" by (rule map_cong [OF refl], rule trg) (use t(3) q in auto)
      ultimately show ?thesis using trt by simp
    qed
    moreover have "sorted (map (trig ?h) as @ trigger x # map (trig ?h) bs)"
      using seg(4) as bs by (auto simp: sorted_append less_imp_le)
    ultimately show ?thesis by (simp only:)
  qed
  moreover have "timer_tail ?s = last (as @ t # bs) \<and> high_trigger ?s = trig ?h' (last (as @ t # bs))"
  proof (cases "bs = []")
    case False
    then have "last bs \<noteq> t" using t(3) q by auto
    with False tl trg show ?thesis by (auto simp: set_state_def last_or_def)
  qed (use trt in \<open>auto simp: set_state_def\<close>)
  ultimately show ?thesis by (simp add: timer_ok_def)
qed

text \<open>
  What an operation leaves of the timers in \<open>A\<close>: everything but their links.
\<close>

definition timer_data :: "theap \<Rightarrow> addr \<Rightarrow> rpc_timer option" where
  "timer_data h z = map_option (\<lambda>n. n\<lparr>t_next := 0\<rparr>) (h z)"

lemma timer_data_trig: "timer_data h' z = timer_data h z \<Longrightarrow> trig h' z = trig h z"
  unfolding timer_data_def trig_def by (cases "h z"; cases "h' z") (auto, metis rpc_timer.select_convs(2) rpc_timer.surjective rpc_timer.update_convs(1))

lemma timer_set_int_ok:
  fixes s :: "'w timer_state"
  assumes ok: "timer_ok s q r" and t: "tm_heap s t = Some y" "t \<noteq> 0" "t \<notin> set q" "t \<notin> set r"
    and x_def: "x = y\<lparr>t_proc := proc, parg := arg, frequency := freq, trigger := freq + clock_curr (tm_clock s)\<rparr>"
  obtains s' where "rpc__timer_set_int t proc arg freq s = Some s'"
    "timer_ok s' (tq_insert (tm_heap s) (trigger x) t q) r"
    "timer_data (tm_heap s') t = Some (x\<lparr>t_next := 0\<rparr>)" "\<And>z. z \<noteq> t \<Longrightarrow> timer_data (tm_heap s') z = timer_data (tm_heap s) z"
    "tm_clock s' = tm_clock s" "tm_world s' = tm_world s" "running_list s' = running_list s"
    "prods s' = prods s @ (if tq_insert (tm_heap s) (trigger x) t q ! 0 = t \<and> trigger x < cur_trigger s then [trigger x] else [])"
proof -
  let ?s = "s\<lparr>tm_heap := (tm_heap s)(t \<mapsto> x)\<rparr>"
  let ?P = "\<lambda>z. trig (tm_heap s) z \<le> trigger x"
  have same: "trig (tm_heap ?s) z = trig (tm_heap s) z" if "z \<in> set q" for z using that t(3) by (auto simp: trig_def)
  have tw: "takeWhile (\<lambda>z. trig (tm_heap ?s) z \<le> trigger x) q = takeWhile ?P q"
    "dropWhile (\<lambda>z. trig (tm_heap ?s) z \<le> trigger x) q = dropWhile ?P q"
    by (rule takeWhile_cong dropWhile_cong; simp only: same)+
  have ok': "timer_ok ?s q r"
  proof -
    have "map (trig (tm_heap ?s)) q = map (trig (tm_heap s)) q" using same by simp
    moreover have "q \<noteq> [] \<longrightarrow> trig (tm_heap ?s) (last q) = trig (tm_heap s) (last q)" using same by simp
    moreover have "sorted (map (trig (tm_heap ?s)) q)"
      unfolding \<open>map (trig (tm_heap ?s)) q = map (trig (tm_heap s)) q\<close> using ok by (simp add: timer_ok_def)
    ultimately show ?thesis using ok t(3,4) unfolding timer_ok_def by simp
  qed
  have "rpc__timer_set_int t proc arg freq s = timer_enqueue t (trigger x) ?s"
    using t by (simp add: rpc__timer_set_int_def tset_def x_def Let_def)
  also have "\<dots> = Some (set_state ?s t x (takeWhile ?P q) (dropWhile ?P q))"
  proof -
    have "tm_heap ?s t = Some x" by simp
    from timer_enqueue_state [OF ok' this t(2,3)] show ?thesis unfolding tw .
  qed
  finally have run: "rpc__timer_set_int t proc arg freq s = Some (set_state ?s t x (takeWhile ?P q) (dropWhile ?P q))" .
  have srt: "sorted (map (trig (tm_heap s)) q)" using ok by (simp add: timer_ok_def)
  have mem: "z \<in> set q" if "z \<in> set (takeWhile ?P q) \<or> z \<in> set (dropWhile ?P q)" for z
    using that by (metis set_takeWhileD set_dropWhileD)
  show ?thesis
  proof (rule that [OF run])
    show "timer_ok (set_state ?s t x (takeWhile ?P q) (dropWhile ?P q)) (tq_insert (tm_heap s) (trigger x) t q) r"
      unfolding tq_insert_def
    proof (rule set_state_ok [OF ok' _ t(2-4)])
      show "\<forall>z \<in> set (takeWhile ?P q). trig (tm_heap ?s) z \<le> trigger x"
      proof
        fix z assume z: "z \<in> set (takeWhile ?P q)"
        have "trig (tm_heap s) z \<le> trigger x" by (rule takeWhile_below [OF z])
        then show "trig (tm_heap ?s) z \<le> trigger x" using same [of z] mem [of z] z by (simp only: simp_thms)
      qed
      show "\<forall>z \<in> set (dropWhile ?P q). trigger x < trig (tm_heap ?s) z"
      proof
        fix z assume z: "z \<in> set (dropWhile ?P q)"
        have "trigger x < trig (tm_heap s) z" by (rule dropWhile_above [OF srt z])
        then show "trigger x < trig (tm_heap ?s) z" using same [of z] mem [of z] z by (simp only: simp_thms)
      qed
    qed simp_all
    have last: "last (takeWhile ?P q) \<noteq> t \<and> (\<exists>n. tm_heap s (last (takeWhile ?P q)) = Some n)" if "takeWhile ?P q \<noteq> []"
    proof -
      have "last (takeWhile ?P q) \<in> set q" using that mem last_in_set by blast
      moreover from this have "\<exists>n. tm_heap s (last (takeWhile ?P q)) = Some n"
        using tseg_nonzero ok unfolding timer_ok_def by blast
      ultimately show ?thesis using t(3) by auto
    qed
    show "timer_data (tm_heap (set_state ?s t x (takeWhile ?P q) (dropWhile ?P q))) z = timer_data (tm_heap s) z" if "z \<noteq> t" for z
      using that last by (auto simp: set_state_def timer_data_def)
    have "t \<notin> set (takeWhile ?P q)" using mem t(3) by blast
    then have "takeWhile ?P q = [] \<longleftrightarrow> tq_insert (tm_heap s) (trigger x) t q ! 0 = t"
      by (cases "takeWhile ?P q") (auto simp: tq_insert_def)
    then show "prods (set_state ?s t x (takeWhile ?P q) (dropWhile ?P q)) =
       prods s @ (if tq_insert (tm_heap s) (trigger x) t q ! 0 = t \<and> trigger x < cur_trigger s then [trigger x] else [])"
      by (auto simp: set_state_def)
  qed (simp_all add: set_state_def timer_data_def)
qed


lemma takeWhile_neq [simp]: "t \<notin> set cs \<Longrightarrow> takeWhile (\<lambda>x. x \<noteq> t) (cs @ t # ds) = cs"
  by (induction cs) auto

lemma tseg_unlink:
  assumes "tseg h p (cs @ t # ds) m" "distinct (cs @ t # ds)" "cs \<noteq> []" "h t = Some x"
  obtains y where "h (last cs) = Some y" "last cs \<noteq> 0" "last cs \<noteq> t"
    "tseg (h(last cs \<mapsto> y\<lparr>t_next := t_next x\<rparr>)) p (cs @ ds) m"
proof -
  obtain bs c where cs: "cs = bs @ [c]" using assms(3) by (cases cs rule: rev_cases) auto
  with assms obtain y where y: "h c = Some y" "c \<noteq> 0" "c \<noteq> t" "tseg h p bs c" "tseg h (t_next x) ds m" by auto
  have "tseg (h(c \<mapsto> y\<lparr>t_next := t_next x\<rparr>)) p (cs @ ds) m"
    using y assms(2) cs by auto
  with y cs show ?thesis by (intro that [of y]) simp_all
qed

lemma timer_data_next: "h z = Some y \<Longrightarrow> timer_data (h(z \<mapsto> y\<lparr>t_next := v\<rparr>)) = timer_data h"
  by (auto simp: timer_data_def fun_eq_iff)

lemma trig_data: "timer_data h' = timer_data h \<Longrightarrow> trig h' = trig h"
  by (rule ext, rule timer_data_trig) simp

lemma timer_clear_running:
  assumes ok: "timer_ok s q (cs @ t # ds)"
  obtains s' where "rpc__timer_clear t s = Some s'" "timer_ok s' q (cs @ ds)"
    "timer_data (tm_heap s') = timer_data (tm_heap s)" "tm_clock s' = tm_clock s" "tm_world s' = tm_world s"
proof -
  let ?h = "tm_heap s"
  have r: "tseg ?h (running_list s) (cs @ t # ds) 0" "distinct (cs @ t # ds)" using ok by (simp_all add: timer_ok_def)
  then obtain x where x: "?h t = Some x" "t \<noteq> 0" by auto
  have find: "find_timer ?h t 0 (running_list s) = Some (Some (last_or 0 cs))"
    using find_timer_seg [OF r(1)] r(2) by simp
  show ?thesis
  proof (cases "cs = []")
    case True
    with find x have "rpc__timer_clear t s = Some (s\<lparr>running_list := t_next x\<rparr>)" by (simp add: rpc__timer_clear_def)
    then show ?thesis by (rule that) (use ok x True in \<open>auto simp: timer_ok_def\<close>)
  next
    case False
    from tseg_unlink [OF r False x(1)] obtain y where y: "?h (last cs) = Some y" "last cs \<noteq> 0" "last cs \<noteq> t"
      "tseg (?h(last cs \<mapsto> y\<lparr>t_next := t_next x\<rparr>)) (running_list s) (cs @ ds) 0" by blast
    define h' where "h' = ?h(last cs \<mapsto> y\<lparr>t_next := t_next x\<rparr>)"
    have run: "rpc__timer_clear t s = Some (s\<lparr>tm_heap := h'\<rparr>)"
      using find x y False by (simp add: rpc__timer_clear_def tset_def last_or_def h'_def)
    have d: "timer_data h' = timer_data ?h"
      unfolding h'_def by (rule timer_data_next [where h = "tm_heap s" and z = "last cs" and y = y, OF y(1)])
    have "last cs \<in> set cs" using False by simp
    then have "last cs \<notin> set q" using ok by (auto simp: timer_ok_def)
    then have q: "tseg h' (timer_head s) q 0" using ok by (simp add: timer_ok_def h'_def)
    have "distinct (q @ cs @ ds)" using ok by (auto simp: timer_ok_def)
    with ok q y(4) have "timer_ok (s\<lparr>tm_heap := h'\<rparr>) q (cs @ ds)"
      unfolding timer_ok_def h'_def [symmetric] by (simp add: trig_data [OF d])
    with run d show ?thesis by (intro that [of "s\<lparr>tm_heap := h'\<rparr>"]) simp_all
  qed
qed

lemma timer_clear_queued:
  assumes ok: "timer_ok s (cs @ t # ds) r"
  obtains s' where "rpc__timer_clear t s = Some s'" "timer_ok s' (cs @ ds) r"
    "timer_data (tm_heap s') = timer_data (tm_heap s)" "tm_clock s' = tm_clock s" "tm_world s' = tm_world s"
proof -
  let ?h = "tm_heap s"
  have q: "tseg ?h (timer_head s) (cs @ t # ds) 0" "distinct (cs @ t # ds)" and r: "tseg ?h (running_list s) r 0" "t \<notin> set r"
    using ok unfolding timer_ok_def by auto
  then obtain x where x: "?h t = Some x" "t \<noteq> 0" "tseg ?h (t_next x) ds 0" by auto
  have hd: "timer_head s = first_or t cs" using tseg_first [OF q(1)] by simp
  have find: "find_timer ?h t 0 (timer_head s) = Some (Some (last_or 0 cs))" "find_timer ?h t 0 (running_list s) = Some None"
    using find_timer_seg [OF q(1)] q(2) find_timer_seg [OF r(1)] r(2) by simp_all
  show ?thesis
  proof (cases "cs = []")
    case True
    with find x hd have "rpc__timer_clear t s = Some (s\<lparr>timer_head := t_next x\<rparr>)" by (simp add: rpc__timer_clear_def)
    then show ?thesis by (rule that) (use ok x True in \<open>auto simp: timer_ok_def\<close>)
  next
    case False
    from tseg_unlink [OF q False x(1)] obtain y where y: "?h (last cs) = Some y" "last cs \<noteq> 0" "last cs \<noteq> t"
      "tseg (?h(last cs \<mapsto> y\<lparr>t_next := t_next x\<rparr>)) (timer_head s) (cs @ ds) 0" by blast
    define h' where "h' = ?h(last cs \<mapsto> y\<lparr>t_next := t_next x\<rparr>)"
    define s' where "s' = (if ds = [] then s\<lparr>tm_heap := h', timer_tail := last cs, high_trigger := trigger y\<rparr>
                           else s\<lparr>tm_heap := h'\<rparr>)"
    have nh: "t \<noteq> timer_head s" using hd False q(2) first_or_in [of cs t] by auto
    have nx: "t_next x = 0 \<longleftrightarrow> ds = []" using x(3) tseg_nonzero [OF x(3)] by (cases ds) auto
    have run: "rpc__timer_clear t s = Some s'"
      using find x y False nh nx by (simp add: rpc__timer_clear_def tset_def last_or_def s'_def h'_def)
    have d: "timer_data h' = timer_data ?h"
      unfolding h'_def by (rule timer_data_next [where h = "tm_heap s" and z = "last cs" and y = y, OF y(1)])
    have "last cs \<in> set cs" using False by simp
    then have "last cs \<notin> set r" using ok by (auto simp: timer_ok_def)
    then have rr: "tseg h' (running_list s) r 0" using r(1) by (simp add: h'_def)
    have ty: "trigger y = trig ?h (last cs)" using y(1) by (simp add: trig_def)
    have srt: "sorted (map (trig h') (cs @ ds))" unfolding trig_data [OF d] using ok by (auto simp: timer_ok_def sorted_append)
    have tl: "ds \<noteq> [] \<Longrightarrow> timer_tail s = last ds \<and> high_trigger s = trig ?h (last ds)" using ok by (simp add: timer_ok_def)
    have di: "distinct ((cs @ ds) @ r)" using ok by (auto simp: timer_ok_def)
    have s': "tm_heap s' = h'" "timer_head s' = timer_head s" "running_list s' = running_list s"
      "timer_tail s' = last (cs @ ds)" "high_trigger s' = trig h' (last (cs @ ds))"
      "tm_clock s' = tm_clock s" "tm_world s' = tm_world s"
      using tl ty unfolding trig_data [OF d] s'_def by simp_all
    have "timer_ok s' (cs @ ds) r"
      unfolding timer_ok_def s' using y(4) [folded h'_def] rr di srt by blast
    with run d s' show ?thesis by (intro that [of s']) simp_all
  qed
qed

section \<open>Properties of the timer queue\<close>

lemma timer_set_ex:
  assumes "timer_ok s q r" "tm_heap s t = Some y" "t \<noteq> 0" "t \<notin> set q" "t \<notin> set r"
  shows "\<exists>s'. rpc__timer_set t proc arg freq s = Some s' \<and>
    timer_ok s' (tq_insert (tm_heap s) (freq + clock_curr (tm_clock s)) t q) r \<and>
    timer_data (tm_heap s') t = Some \<lparr>t_next = 0, trigger = freq + clock_curr (tm_clock s), frequency = freq, t_proc = proc, parg = arg\<rparr> \<and>
    (\<forall>z. z \<noteq> t \<longrightarrow> timer_data (tm_heap s') z = timer_data (tm_heap s) z) \<and>
    prods s' = prods s @ (if tq_insert (tm_heap s) (freq + clock_curr (tm_clock s)) t q ! 0 = t \<and>
        freq + clock_curr (tm_clock s) < cur_trigger s then [freq + clock_curr (tm_clock s)] else [])"
proof -
  let ?x = "y\<lparr>t_proc := proc, parg := arg, frequency := freq, trigger := freq + clock_curr (tm_clock s)\<rparr>"
  have e: "?x\<lparr>t_next := 0\<rparr> = \<lparr>t_next = 0, trigger = freq + clock_curr (tm_clock s), frequency = freq, t_proc = proc, parg = arg\<rparr>"
    by (cases y) simp
  have tr: "trigger ?x = freq + clock_curr (tm_clock s)" by simp
  obtain s' where "rpc__timer_set_int t proc arg freq s = Some s'"
    "timer_ok s' (tq_insert (tm_heap s) (trigger ?x) t q) r"
    "timer_data (tm_heap s') t = Some (?x\<lparr>t_next := 0\<rparr>)" "\<And>z. z \<noteq> t \<Longrightarrow> timer_data (tm_heap s') z = timer_data (tm_heap s) z"
    "tm_clock s' = tm_clock s" "tm_world s' = tm_world s" "running_list s' = running_list s"
    "prods s' = prods s @ (if tq_insert (tm_heap s) (trigger ?x) t q ! 0 = t \<and> trigger ?x < cur_trigger s then [trigger ?x] else [])"
    by (rule timer_set_int_ok [OF assms refl, where proc = proc and arg = arg and freq = freq]) blast
  then show ?thesis unfolding rpc__timer_set_def e tr by blast
qed

text \<open>
  C19: On a well-formed queue \<open>rpc__timer_set\<close> of a timer that is not queued never trips its
  assertion; it puts the timer behind every timer due at the same time or earlier and before
  the later ones, changes nothing but links of the others, and wakes the timer thread
  exactly when the timer is the first of the queue and earlier than the thread's wake-up.
\<close>

theorem timer_set_refines:
  assumes "timer_ok s q r" "tm_heap s t = Some y" "t \<noteq> 0" "t \<notin> set q" "t \<notin> set r"
  shows "\<exists>s'. rpc__timer_set t proc arg freq s = Some s' \<and>
    timer_ok s' (tq_insert (tm_heap s) (freq + clock_curr (tm_clock s)) t q) r \<and>
    timer_data (tm_heap s') t = Some \<lparr>t_next = 0, trigger = freq + clock_curr (tm_clock s), frequency = freq, t_proc = proc, parg = arg\<rparr> \<and>
    (\<forall>z. z \<noteq> t \<longrightarrow> timer_data (tm_heap s') z = timer_data (tm_heap s) z) \<and>
    prods s' = prods s @ (if tq_insert (tm_heap s) (freq + clock_curr (tm_clock s)) t q ! 0 = t \<and>
        freq + clock_curr (tm_clock s) < cur_trigger s then [freq + clock_curr (tm_clock s)] else [])"
  by (rule timer_set_ex [OF assms])

lemma timer_clear_ex:
  assumes "timer_ok s q r"
  shows "\<exists>s'. rpc__timer_clear t s = Some s' \<and> timer_ok s' (remove1 t q) (remove1 t r) \<and>
    timer_data (tm_heap s') = timer_data (tm_heap s) \<and> tm_clock s' = tm_clock s \<and> tm_world s' = tm_world s \<and>
    (t \<notin> set q \<and> t \<notin> set r \<longrightarrow> s' = s)"
proof -
  consider "t \<in> set r" "t \<notin> set q" | "t \<in> set q" "t \<notin> set r" | "t \<notin> set q" "t \<notin> set r"
    using assms by (auto simp: timer_ok_def)
  then show ?thesis
  proof cases
    case 1
    from split_list [OF 1(1)] obtain cs ds where r: "r = cs @ t # ds" by blast
    then have rm: "remove1 t r = cs @ ds" using assms by (auto simp: timer_ok_def remove1_append)
    show ?thesis unfolding rm remove1_idem [OF 1(2)]
      by (rule timer_clear_running [OF assms [unfolded r]]) (use 1 in blast)
  next
    case 2
    from split_list [OF 2(1)] obtain cs ds where q: "q = cs @ t # ds" by blast
    then have rm: "remove1 t q = cs @ ds" using assms by (auto simp: timer_ok_def remove1_append)
    show ?thesis unfolding rm remove1_idem [OF 2(2)]
      by (rule timer_clear_queued [OF assms [unfolded q]]) (use 2 in blast)
  next
    case 3
    have "tseg (tm_heap s) (timer_head s) q 0" "tseg (tm_heap s) (running_list s) r 0" using assms by (simp_all add: timer_ok_def)
    with 3 have "rpc__timer_clear t s = Some s" by (simp add: rpc__timer_clear_def find_timer_seg)
    with 3 assms show ?thesis by (simp add: remove1_idem)
  qed
qed

lemma timer_clear_ok:
  assumes "timer_ok s q r"
  obtains s' where "rpc__timer_clear t s = Some s'" "timer_ok s' (remove1 t q) (remove1 t r)"
    "timer_data (tm_heap s') = timer_data (tm_heap s)" "tm_clock s' = tm_clock s" "tm_world s' = tm_world s"
    "t \<notin> set q \<Longrightarrow> t \<notin> set r \<Longrightarrow> s' = s"
  using timer_clear_ex [OF assms] by blast

text \<open>
  C22: \<open>rpc__timer_clear\<close> takes the timer off the running list or the queue, whichever it is on,
  and does nothing when it is on neither; the rest keeps its order and the tail pointer and
  the high trigger stay those of the last timer.
\<close>

theorem timer_clear_refines:
  assumes "timer_ok s q r"
  shows "\<exists>s'. rpc__timer_clear t s = Some s' \<and> timer_ok s' (remove1 t q) (remove1 t r) \<and>
    timer_data (tm_heap s') = timer_data (tm_heap s) \<and> tm_clock s' = tm_clock s \<and> tm_world s' = tm_world s \<and>
    (t \<notin> set q \<and> t \<notin> set r \<longrightarrow> s' = s)"
  by (rule timer_clear_ex [OF assms])

text \<open>
  \<open>rpc__timer_adjust\<close> of a running timer only sets its frequency.  Any other timer is queued
  with the new frequency from now, and so is one that had been cleared.
\<close>

theorem timer_adjust_refines:
  assumes "timer_ok s q r" "tm_heap s t = Some y" "t \<noteq> 0"
  shows "\<exists>s'. rpc__timer_adjust t freq s = Some s' \<and>
    (if t \<in> set r then timer_ok s' q r \<and> tm_heap s' = (tm_heap s)(t \<mapsto> y\<lparr>frequency := freq\<rparr>)
     else timer_ok s' (tq_insert (tm_heap s) (freq + clock_curr (tm_clock s)) t (remove1 t q)) r \<and>
       timer_data (tm_heap s') t = Some (y\<lparr>t_next := 0, frequency := freq, trigger := freq + clock_curr (tm_clock s)\<rparr>))"
proof (cases "t \<in> set r")
  case True
  have seg: "tseg (tm_heap s) (running_list s) r 0" "tseg (tm_heap s) (timer_head s) q 0" "t \<notin> set q"
    using assms(1) True by (auto simp: timer_ok_def)
  have run: "rpc__timer_adjust t freq s = Some (s\<lparr>tm_heap := (tm_heap s)(t \<mapsto> y\<lparr>frequency := freq\<rparr>)\<rparr>)"
    using True assms(2,3) by (simp add: rpc__timer_adjust_def find_timer_seg [OF seg(1)] tset_def)
  define h' where "h' = (tm_heap s)(t \<mapsto> y\<lparr>frequency := freq\<rparr>)"
  have tr: "trig h' = trig (tm_heap s)" using assms(2) by (auto simp: trig_def fun_eq_iff h'_def)
  have "tseg h' (running_list s) r 0"
    by (rule tseg_data [OF seg(1)]) (use assms(2) in \<open>auto simp: h'_def\<close>)
  moreover have "tseg h' (timer_head s) q 0" using seg(2,3) by (simp add: h'_def)
  ultimately have "timer_ok (s\<lparr>tm_heap := h'\<rparr>) q r" using assms(1) by (simp add: timer_ok_def tr)
  with run True show ?thesis by (simp add: h'_def)
next
  case False
  have seg: "tseg (tm_heap s) (running_list s) r 0" using assms(1) by (simp add: timer_ok_def)
  have dist: "t \<notin> set (remove1 t q)" using assms(1) by (simp add: timer_ok_def)
  obtain s1 where s1: "rpc__timer_clear t s = Some s1" "timer_ok s1 (remove1 t q) (remove1 t r)"
    "timer_data (tm_heap s1) = timer_data (tm_heap s)" "tm_clock s1 = tm_clock s"
    using timer_clear_ex [OF assms(1), of t] by blast
  have r: "remove1 t r = r" by (rule remove1_idem [OF False])
  have "timer_data (tm_heap s1) t = timer_data (tm_heap s) t" using s1(3) by simp
  then obtain z where z: "tm_heap s1 t = Some z" "z\<lparr>t_next := 0\<rparr> = y\<lparr>t_next := 0\<rparr>"
    using assms(2) by (cases "tm_heap s1 t") (auto simp: timer_data_def)
  let ?z = "z\<lparr>frequency := freq\<rparr>"
  define s2 where "s2 = s1\<lparr>tm_heap := (tm_heap s1)(t \<mapsto> ?z)\<rparr>"
  have eq: "timer_data (tm_heap s2) w = timer_data (tm_heap s1) w" if "w \<noteq> t" for w using that by (simp add: timer_data_def s2_def)
  have tr: "trig (tm_heap s2) w = trig (tm_heap s1) w" for w using z(1) by (auto simp: trig_def s2_def)
  have ok2: "timer_ok s2 (remove1 t q) r"
  proof -
    have "trig (tm_heap s2) = trig (tm_heap s1)" using tr by (simp add: fun_eq_iff)
    moreover have "tseg (tm_heap s2) (timer_head s2) (remove1 t q) 0" "tseg (tm_heap s2) (running_list s2) r 0"
      using s1(2) dist False unfolding s2_def r by (simp_all add: timer_ok_def)
    ultimately show ?thesis using s1(2) unfolding timer_ok_def r by (simp add: s2_def)
  qed
  have t2: "tm_heap s2 t = Some ?z" by (simp add: s2_def)
  have c2: "clock_curr (tm_clock s2) = clock_curr (tm_clock s)" using s1(4) by (simp add: s2_def)
  from timer_set_ex [OF ok2 t2 assms(3) dist False, of "t_proc z" "parg z" freq] obtain s3 where
    s3: "rpc__timer_set t (t_proc z) (parg z) freq s2 = Some s3"
    "timer_ok s3 (tq_insert (tm_heap s2) (freq + clock_curr (tm_clock s)) t (remove1 t q)) r"
    "timer_data (tm_heap s3) t = Some \<lparr>t_next = 0, trigger = freq + clock_curr (tm_clock s), frequency = freq, t_proc = t_proc z, parg = parg z\<rparr>"
    unfolding c2 by blast
  have "trig (tm_heap s2) = trig (tm_heap s)" using tr trig_data [OF s1(3)] by (simp add: fun_eq_iff)
  then have ins: "tq_insert (tm_heap s2) a t (remove1 t q) = tq_insert (tm_heap s) a t (remove1 t q)" for a
    by (simp add: tq_insert_def)
  have run: "rpc__timer_adjust t freq s = Some s3"
    using s1(1) s3(1) z(1) False assms(3) by (simp add: rpc__timer_adjust_def find_timer_seg [OF seg] tset_def s2_def)
  have y: "y\<lparr>t_next := 0, frequency := freq, trigger := freq + clock_curr (tm_clock s)\<rparr>
      = \<lparr>t_next = 0, trigger = freq + clock_curr (tm_clock s), frequency = freq, t_proc = t_proc z, parg = parg z\<rparr>"
    using z(2) by (cases y; cases z) simp
  show ?thesis using run s3(2,3) False by (simp add: ins y)
qed


section \<open>The callout\<close>

text \<open>The state in which the routine of the first timer is called\<close>

definition popped :: "'w timer_state \<Rightarrow> rpc_timer \<Rightarrow> 'w timer_state" where
  "popped s n = s\<lparr>tm_heap := (tm_heap s)(timer_head s \<mapsto> n\<lparr>t_next := running_list s\<rparr>),
                  timer_head := t_next n, running_list := timer_head s\<rparr>"

lemma popped_ok:
  assumes "timer_ok s (x # q) []" "tm_heap s x = Some n"
  shows "timer_ok (popped s n) q [x]" "timer_data (tm_heap (popped s n)) = timer_data (tm_heap s)"
    "tm_heap (popped s n) x = Some (n\<lparr>t_next := 0\<rparr>)" "timer_head s = x" "x \<noteq> 0"
    "tm_clock (popped s n) = tm_clock s" "tm_world (popped s n) = tm_world s"
proof -
  have k: "timer_head s = x" "x \<noteq> 0" "x \<notin> set q" "running_list s = 0" "tseg (tm_heap s) (t_next n) q 0"
    using assms by (auto simp: timer_ok_def)
  have d: "timer_data ((tm_heap s)(x \<mapsto> n\<lparr>t_next := 0\<rparr>)) = timer_data (tm_heap s)"
    using assms(2) by (auto simp: timer_data_def fun_eq_iff)
  show "timer_ok (popped s n) q [x]"
    using assms(1) k unfolding timer_ok_def popped_def
    by (simp add: trig_data [OF d])
  show "timer_data (tm_heap (popped s n)) = timer_data (tm_heap s)" "tm_heap (popped s n) x = Some (n\<lparr>t_next := 0\<rparr>)"
    "timer_head s = x" "x \<noteq> 0" "tm_clock (popped s n) = tm_clock s" "tm_world (popped s n) = tm_world s"
    using d k by (simp_all add: popped_def)
qed

lemma callout_turn_popped:
  assumes "timer_ok s (x # q) []" "tm_heap s x = Some n" "call (t_proc n) (parg n) (popped s n) = Some s2"
  shows "callout_turn call s =
    (if x = running_list s2 then do {
       y \<leftarrow> tget x (tm_heap s2);
       rpc__timer_set_int x (t_proc y) (parg y) (frequency y) (s2\<lparr>running_list := t_next y\<rparr>) }
     else unlink_loop x (running_list s2) s2)"
proof -
  have k: "timer_head s = x" "x \<noteq> 0" using assms(1) by (auto simp: timer_ok_def)
  have p: "s\<lparr>timer_head := t_next n, tm_heap := (tm_heap s)(x \<mapsto> n\<lparr>t_next := running_list s\<rparr>), running_list := x\<rparr> = popped s n"
    using k by (auto simp: popped_def intro!: timer_state_eqI)
  have u: "callout_turn call s = do {
     s2 \<leftarrow> call (t_proc n) (parg n) (popped s n);
     if x = running_list s2 then do {
       y \<leftarrow> tget x (tm_heap s2);
       rpc__timer_set_int x (t_proc y) (parg y) (frequency y) (s2\<lparr>running_list := t_next y\<rparr>) }
     else unlink_loop x (running_list s2) s2 }"
    using k assms(2) by (simp add: callout_turn_def tset_def Let_def p)
  show ?thesis unfolding u assms(3) by simp
qed

text \<open>A routine that is still on the running list when it returns is queued again, another is not.\<close>

lemma callout_turn_requeue:
  fixes s :: "'w timer_state"
  assumes "timer_ok s (x # q) []" "tm_heap s x = Some n" "call (t_proc n) (parg n) (popped s n) = Some s2"
    and "timer_ok s2 q2 [x]" "tm_heap s2 x = Some y"
  obtains s' where "callout_turn call s = Some s'"
    "timer_ok s' (tq_insert (tm_heap s2) (frequency y + clock_curr (tm_clock s2)) x q2) []"
    "timer_data (tm_heap s') x = Some (y\<lparr>t_next := 0, trigger := frequency y + clock_curr (tm_clock s2)\<rparr>)"
    "\<And>z. z \<noteq> x \<Longrightarrow> timer_data (tm_heap s') z = timer_data (tm_heap s2) z"
    "tm_clock s' = tm_clock s2" "tm_world s' = tm_world s2"
proof -
  have k: "running_list s2 = x" "x \<noteq> 0" "x \<notin> set q2" "t_next y = 0" using assms(4,5) by (auto simp: timer_ok_def)
  let ?s = "s2\<lparr>running_list := t_next y\<rparr>"
  have ok: "timer_ok ?s q2 []" using assms(4) k by (simp add: timer_ok_def)
  have x: "tm_heap ?s x = Some y" using assms(5) by simp
  let ?y = "y\<lparr>t_proc := t_proc y, parg := parg y, frequency := frequency y, trigger := frequency y + clock_curr (tm_clock ?s)\<rparr>"
  obtain s' where s': "rpc__timer_set_int x (t_proc y) (parg y) (frequency y) ?s = Some s'"
    "timer_ok s' (tq_insert (tm_heap ?s) (trigger ?y) x q2) []"
    "timer_data (tm_heap s') x = Some (?y\<lparr>t_next := 0\<rparr>)"
    "\<And>z. z \<noteq> x \<Longrightarrow> timer_data (tm_heap s') z = timer_data (tm_heap ?s) z"
    "tm_clock s' = tm_clock ?s" "tm_world s' = tm_world ?s" "running_list s' = running_list ?s"
    "prods s' = prods ?s @ (if tq_insert (tm_heap ?s) (trigger ?y) x q2 ! 0 = x \<and> trigger ?y < cur_trigger ?s then [trigger ?y] else [])"
    by (rule timer_set_int_ok [OF ok x k(2) k(3) _ refl, where proc = "t_proc y" and arg = "parg y" and freq = "frequency y"]) simp_all
  have "callout_turn call s = Some s'"
    using s'(1) assms(5) k by (simp add: callout_turn_popped [where call = call, OF assms(1-3)])
  moreover have "?y\<lparr>t_next := 0\<rparr> = y\<lparr>t_next := 0, trigger := frequency y + clock_curr (tm_clock s2)\<rparr>" by (cases y) simp
  ultimately show ?thesis using s'(2-6) by (intro that [of s']) simp_all
qed

lemma callout_turn_gone:
  assumes "timer_ok s (x # q) []" "tm_heap s x = Some n" "call (t_proc n) (parg n) (popped s n) = Some s2" "timer_ok s2 q2 []"
  shows "callout_turn call s = Some s2"
proof -
  have "running_list s2 = 0" "x \<noteq> 0" using assms(1,4) by (auto simp: timer_ok_def)
  then show ?thesis by (simp add: callout_turn_popped [where call = call, OF assms(1-3)] unlink_loop.simps)
qed

text \<open>
  The contract of the routines a callout may run, with the other threads' doings meanwhile:
  from a state in which only the timer being called is on the running list, the call
  returns with a well-formed queue and at most that timer on the running list.
\<close>

locale timer_routines =
  fixes call :: "nat \<Rightarrow> nat \<Rightarrow> 'w timer_state \<Rightarrow> 'w timer_state option"
  assumes call_keeps: "timer_ok s q [x] \<Longrightarrow>
    \<exists>s' q' r'. call p a s = Some s' \<and> timer_ok s' q' r' \<and> (r' = [x] \<or> r' = [])"
begin

lemma turn_ok:
  assumes "timer_ok s (x # q) []"
  shows "\<exists>s' q'. callout_turn call s = Some s' \<and> timer_ok s' q' []"
proof -
  from assms obtain n where n: "tm_heap s x = Some n" by (auto simp: timer_ok_def)
  from call_keeps [OF popped_ok(1) [OF assms n], of "t_proc n" "parg n"] obtain s2 q2 r2 where
    s2: "call (t_proc n) (parg n) (popped s n) = Some s2" "timer_ok s2 q2 r2" "r2 = [x] \<or> r2 = []" by blast
  show ?thesis
  proof (cases "r2 = []")
    case True
    with s2 callout_turn_gone [where call = call, OF assms n s2(1)] show ?thesis by blast
  next
    case False
    with s2 have ok: "timer_ok s2 q2 [x]" by simp
    then obtain y where y: "tm_heap s2 x = Some y" by (auto simp: timer_ok_def)
    show ?thesis by (rule callout_turn_requeue [where call = call, OF assms n s2(1) ok y]) blast
  qed
qed

lemma loop_ok: "callout_loop call s = Some s' \<Longrightarrow> timer_ok s q [] \<Longrightarrow> \<exists>q'. timer_ok s' q' [] \<and>
    (q' \<noteq> [] \<longrightarrow> clock_curr (tm_clock s') < trig (tm_heap s') (hd q'))"
proof -
  assume ret: "callout_loop call s = Some s'" and ok: "timer_ok s q []"
  define good where "good s' \<longleftrightarrow> (\<exists>q'. timer_ok s' q' [] \<and> (q' \<noteq> [] \<longrightarrow> clock_curr (tm_clock s') < trig (tm_heap s') (hd q')))"
    for s' :: "'w timer_state"
  have "call = call \<longrightarrow> (\<forall>q. timer_ok s q [] \<longrightarrow> good s')"
  proof (rule callout_loop.raw_induct [where P = "\<lambda>c s s'. c = call \<longrightarrow> (\<forall>q. timer_ok s q [] \<longrightarrow> good s')", OF _ ret])
    fix f c s s'
    assume IH: "\<And>c s s'. f c s = Some s' \<Longrightarrow> c = call \<longrightarrow> (\<forall>q. timer_ok s q [] \<longrightarrow> good s')"
      and eq: "(if timer_head s = NULL then Some s
      else do {
        x \<leftarrow> tget (timer_head s) (tm_heap s);
        if trigger x \<le> clock_curr (tm_clock s) then do { s \<leftarrow> callout_turn c s; f c s }
        else Some s }) = Some s'"
    show "c = call \<longrightarrow> (\<forall>q. timer_ok s q [] \<longrightarrow> good s')"
    proof (intro impI allI)
      fix q assume c: "c = call" and ok: "timer_ok s q []"
      show "good s'"
      proof (cases q)
        case Nil
        then have "timer_head s = 0" using ok by (simp add: timer_ok_def)
        with eq ok Nil show ?thesis by (auto simp: good_def)
      next
        case (Cons x q1)
        with ok have hd: "timer_head s = x" "x \<noteq> 0" by (auto simp: timer_ok_def)
        obtain n where n: "tm_heap s x = Some n" using ok Cons by (auto simp: timer_ok_def)
        show ?thesis
        proof (cases "trigger n \<le> clock_curr (tm_clock s)")
          case True
          obtain s1 q2 where s1: "callout_turn call s = Some s1" "timer_ok s1 q2 []"
            using turn_ok [OF ok [unfolded Cons]] by blast
          then have "f c s1 = Some s'" using eq hd n True c by simp
          from IH [OF this] c s1(2) show ?thesis by blast
        next
          case False
          with eq hd n have "s' = s" by simp
          with ok Cons False n show ?thesis by (auto simp: good_def trig_def intro!: exI [of _ q])
        qed
      qed
    qed
  qed
  then show ?thesis using ok unfolding good_def by blast
qed

end

text \<open>
  Two kinds of routine: one that only works on its own data, and the one-shot routine, whose
  argument is its timer and which clears it (as the cancel timer of a call does).
\<close>

definition quiet :: "(nat \<Rightarrow> nat \<Rightarrow> 'w \<Rightarrow> 'w) \<Rightarrow> nat \<Rightarrow> nat \<Rightarrow> 'w timer_state \<Rightarrow> 'w timer_state option" where
  "quiet f p a s = Some (s\<lparr>tm_world := f p a (tm_world s)\<rparr>)"

definition one_shot :: "nat \<Rightarrow> nat \<Rightarrow> 'w timer_state \<Rightarrow> 'w timer_state option" where
  "one_shot p a s = rpc__timer_clear a s"

interpretation quiet: timer_routines "quiet f"
proof unfold_locales
  fix s :: "'a timer_state" and q x p a
  assume "timer_ok s q [x]"
  then have "timer_ok (s\<lparr>tm_world := f p a (tm_world s)\<rparr>) q [x]" by (simp add: timer_ok_def)
  then show "\<exists>s' q' r'. quiet f p a s = Some s' \<and> timer_ok s' q' r' \<and> (r' = [x] \<or> r' = [])" by (auto simp: quiet_def)
qed

interpretation one_shot: timer_routines one_shot
proof unfold_locales
  fix s :: "'a timer_state" and q x p a
  assume "timer_ok s q [x]"
  then obtain s' where "rpc__timer_clear a s = Some s'" "timer_ok s' (remove1 a q) (remove1 a [x])" by (rule timer_clear_ok)
  moreover have "remove1 a [x] = [x] \<or> remove1 a [x] = []" by simp
  ultimately show "\<exists>s' q' r'. one_shot p a s = Some s' \<and> timer_ok s' q' r' \<and> (r' = [x] \<or> r' = [])"
    unfolding one_shot_def by blast
qed

lemma takeWhile_filter: "sorted (map f q) \<Longrightarrow> takeWhile (\<lambda>x. f x \<le> c) q = filter (\<lambda>x. f x \<le> (c :: 'b :: linorder)) q"
proof (induction q)
  case (Cons x q)
  show ?case
  proof (cases "f x \<le> c")
    case False
    then have "filter (\<lambda>x. f x \<le> c) q = []" using Cons.prems by (fastforce simp: filter_empty_conv)
    with False show ?thesis by simp
  qed (use Cons in simp)
qed simp

lemma takeWhile_insert:
  assumes "sorted (map (trig h) q)" "now < tr" "sorted (map f (tq_insert h tr x q))" "f x = tr" "\<And>z. z \<in> set q \<Longrightarrow> f z = trig h z"
  shows "takeWhile (\<lambda>z. f z \<le> now) (tq_insert h tr x q) = takeWhile (\<lambda>z. trig h z \<le> now) q"
proof -
  have "takeWhile (\<lambda>z. f z \<le> now) (tq_insert h tr x q) = filter (\<lambda>z. f z \<le> now) (tq_insert h tr x q)"
    by (rule takeWhile_filter [OF assms(3)])
  also have "\<dots> = filter (\<lambda>z. f z \<le> now) q"
  proof -
    have x: "\<not> f x \<le> now" using assms(2,4) by simp
    have "filter P (as @ x # bs) = filter P (as @ bs)" if "\<not> P x" for P :: "addr \<Rightarrow> bool" and as bs using that by simp
    from this [of "\<lambda>z. f z \<le> now", OF x] show ?thesis unfolding tq_insert_def by (simp only: takeWhile_dropWhile_id)
  qed
  also have "\<dots> = filter (\<lambda>z. trig h z \<le> now) q" by (rule filter_cong) (simp_all add: assms(5))
  finally show ?thesis by (simp add: takeWhile_filter [OF assms(1)])
qed

lemma mset_tq_insert: "mset (tq_insert h tr x q) = add_mset x (mset q)"
  unfolding tq_insert_def by (metis mset.simps(2) mset_append takeWhile_dropWhile_id union_mset_add_mset_right)

text \<open>The timers due now, and what running them does to the routines' own data\<close>

definition due :: "'w timer_state \<Rightarrow> addr list \<Rightarrow> addr list" where
  "due s q = takeWhile (\<lambda>x. trig (tm_heap s) x \<le> clock_curr (tm_clock s)) q"

definition run_routines :: "(nat \<Rightarrow> nat \<Rightarrow> 'w \<Rightarrow> 'w) \<Rightarrow> theap \<Rightarrow> addr list \<Rightarrow> 'w \<Rightarrow> 'w" where
  "run_routines f h xs w = fold (\<lambda>x w. f (t_proc (the (h x))) (parg (the (h x))) w) xs w"

definition later :: "'w timer_state \<Rightarrow> addr \<Rightarrow> bool" where
  "later s x \<longleftrightarrow> (case tm_heap s x of None \<Rightarrow> False | Some n \<Rightarrow>
     0 < frequency n \<and> unat (frequency n) + unat (clock_curr (tm_clock s)) < 2 ^ 32)"

lemma next_0_eq:
  "n\<lparr>t_next := 0\<rparr> = m\<lparr>t_next := 0\<rparr> \<longleftrightarrow>
     trigger n = trigger m \<and> frequency n = frequency m \<and> t_proc n = t_proc m \<and> parg n = parg m"
  for n m :: rpc_timer by (cases n; cases m) auto

lemma timer_data_some: "timer_data h z = Some d \<longleftrightarrow> (\<exists>n. h z = Some n \<and> d = n\<lparr>t_next := 0\<rparr>)"
  by (auto simp: timer_data_def)

lemma timer_data_fields:
  assumes "timer_data h' z = timer_data h z"
  shows "map_option frequency (h' z) = map_option frequency (h z)" "map_option t_proc (h' z) = map_option t_proc (h z)"
    "map_option parg (h' z) = map_option parg (h z)"
  using assms unfolding timer_data_def by (cases "h z"; cases "h' z"; simp add: next_0_eq)+

lemma later_cong:
  "tm_clock s' = tm_clock s \<Longrightarrow> map_option frequency (tm_heap s' z) = map_option frequency (tm_heap s z) \<Longrightarrow> later s' z = later s z"
  unfolding later_def by (cases "tm_heap s z"; cases "tm_heap s' z") auto

lemma run_routines_cong:
  "(\<And>z. z \<in> set xs \<Longrightarrow> timer_data h' z = timer_data h z \<and> h z \<noteq> None) \<Longrightarrow> run_routines f h' xs w = run_routines f h xs w"
  unfolding run_routines_def
proof (rule fold_cong [OF refl refl])
  fix z assume d: "\<And>z. z \<in> set xs \<Longrightarrow> timer_data h' z = timer_data h z \<and> h z \<noteq> None" and z: "z \<in> set xs"
  from d [OF z] obtain n where n: "h z = Some n" "timer_data h' z = timer_data h z" by blast
  then obtain n' where "h' z = Some n'" by (cases "h' z") (auto simp: timer_data_def)
  with timer_data_fields [OF n(2)] n(1)
  show "(\<lambda>w. f (t_proc (the (h' z))) (parg (the (h' z))) w) = (\<lambda>w. f (t_proc (the (h z))) (parg (the (h z))) w)" by simp
qed

lemma later_trigger: "later s x \<Longrightarrow> tm_heap s x = Some n \<Longrightarrow> clock_curr (tm_clock s) < frequency n + clock_curr (tm_clock s)"
  unfolding later_def word_less_nat_alt by (simp add: word_vals)

lemma callout_turn_quiet:
  fixes s :: "'w timer_state"
  assumes ok: "timer_ok s (x # q1) []" and n: "tm_heap s x = Some n"
  obtains s1 where "callout_turn (quiet f) s = Some s1"
    "timer_ok s1 (tq_insert (tm_heap s) (frequency n + clock_curr (tm_clock s)) x q1) []"
    "timer_data (tm_heap s1) x = Some (n\<lparr>t_next := 0, trigger := frequency n + clock_curr (tm_clock s)\<rparr>)"
    "\<And>z. z \<noteq> x \<Longrightarrow> timer_data (tm_heap s1) z = timer_data (tm_heap s) z"
    "tm_clock s1 = tm_clock s" "tm_world s1 = f (t_proc n) (parg n) (tm_world s)"
    "trig (tm_heap s1) x = frequency n + clock_curr (tm_clock s)"
proof -
  let ?now = "clock_curr (tm_clock s)" and ?h = "tm_heap s"
  have xq: "x \<notin> set q1" using ok by (simp add: timer_ok_def)
  note p = popped_ok [OF ok n]
  let ?s2 = "(popped s n)\<lparr>tm_world := f (t_proc n) (parg n) (tm_world s)\<rparr>"
  have call: "quiet f (t_proc n) (parg n) (popped s n) = Some ?s2" by (simp add: quiet_def p)
  have ok2: "timer_ok ?s2 q1 [x]" using p(1) by (simp add: timer_ok_def)
  have x2: "tm_heap ?s2 x = Some (n\<lparr>t_next := 0\<rparr>)" using p(3) by simp
  define tr where "tr = frequency n + ?now"
  obtain s1 where s1: "callout_turn (quiet f) s = Some s1"
    "timer_ok s1 (tq_insert (tm_heap ?s2) (frequency (n\<lparr>t_next := 0\<rparr>) + clock_curr (tm_clock ?s2)) x q1) []"
    "timer_data (tm_heap s1) x = Some (n\<lparr>t_next := 0, t_next := 0, trigger := frequency (n\<lparr>t_next := 0\<rparr>) + clock_curr (tm_clock ?s2)\<rparr>)"
    "\<And>z. z \<noteq> x \<Longrightarrow> timer_data (tm_heap s1) z = timer_data (tm_heap ?s2) z"
    "tm_clock s1 = tm_clock ?s2" "tm_world s1 = tm_world ?s2"
    by (rule callout_turn_requeue [where call = "quiet f", OF ok n call ok2 x2]) blast
  have d2: "timer_data (tm_heap ?s2) = timer_data ?h" using p(2) by simp
  have t2: "trig (tm_heap ?s2) = trig ?h" by (rule trig_data [OF d2])
  let ?q = "tq_insert ?h tr x q1"
  have ok1: "timer_ok s1 ?q []" using s1(2) p(6) t2 by (simp add: tq_insert_def tr_def)
  have d1: "timer_data (tm_heap s1) x = Some (n\<lparr>t_next := 0, trigger := tr\<rparr>)" using s1(3) p(6) by (simp add: tr_def)
  have dz: "timer_data (tm_heap s1) z = timer_data ?h z" if "z \<noteq> x" for z using s1(4) [OF that] d2 by simp
  have c1: "tm_clock s1 = tm_clock s" using s1(5) p(6) by simp
  have trx: "trig (tm_heap s1) x = tr"
  proof -
    from d1 obtain m where "tm_heap s1 x = Some m" "n\<lparr>trigger := tr\<rparr>\<lparr>t_next := 0\<rparr> = m\<lparr>t_next := 0\<rparr>"
      by (cases n) (auto simp: timer_data_some)
    then show ?thesis by (simp add: next_0_eq trig_def)
  qed
  have "tm_world s1 = f (t_proc n) (parg n) (tm_world s)" using s1(6) by simp
  then show ?thesis using s1(1) ok1 d1 dz c1 trx unfolding tr_def by (intro that [of s1]) simp_all
qed

lemma callout_loop_quiet:
  fixes s :: "'w timer_state"
  assumes "timer_ok s q []" "\<forall>x \<in> set q. later s x"
  obtains s' q' where "callout_loop (quiet f) s = Some s'" "timer_ok s' q' []" "mset q' = mset q"
    "\<forall>x \<in> set q'. clock_curr (tm_clock s) < trig (tm_heap s') x"
    "tm_world s' = run_routines f (tm_heap s) (due s q) (tm_world s)" "tm_clock s' = tm_clock s"
    "\<And>z. timer_data (tm_heap s') z = (if z \<in> set (due s q)
       then map_option (\<lambda>n. n\<lparr>trigger := frequency n + clock_curr (tm_clock s)\<rparr>) (timer_data (tm_heap s) z)
       else timer_data (tm_heap s) z)"
  using assms
proof (induction "length (due s q)" arbitrary: s q thesis)
  case 0
  let ?now = "clock_curr (tm_clock s)"
  have e: "due s q = []" using 0(1) by simp
  have srt: "sorted (map (trig (tm_heap s)) q)" using "0.prems"(2) by (simp add: timer_ok_def)
  have l: "\<forall>x \<in> set q. ?now < trig (tm_heap s) x"
  proof
    fix x assume "x \<in> set q"
    with e have "x \<in> set (dropWhile (\<lambda>x. trig (tm_heap s) x \<le> ?now) q)"
      unfolding due_def by (metis append_Nil takeWhile_dropWhile_id)
    then show "?now < trig (tm_heap s) x" by (rule dropWhile_above [OF srt])
  qed
  have "callout_loop (quiet f) s = Some s"
  proof (cases q)
    case Nil
    then have "timer_head s = 0" using "0.prems"(2) by (simp add: timer_ok_def)
    then show ?thesis by (simp add: callout_loop.simps)
  next
    case (Cons x q1)
    then obtain n where n: "timer_head s = x" "x \<noteq> 0" "tm_heap s x = Some n" using "0.prems"(2) by (auto simp: timer_ok_def)
    moreover have "\<not> trigger n \<le> ?now" using l Cons n by (auto simp: trig_def)
    ultimately show ?thesis by (simp add: callout_loop.simps)
  qed
  then show ?case by (rule "0.prems"(1) [OF _ "0.prems"(2)]) (use l e in \<open>auto simp: run_routines_def\<close>)
next
  case (Suc k)
  let ?now = "clock_curr (tm_clock s)" and ?h = "tm_heap s"
  obtain x q1 where q: "q = x # q1" using Suc(2) by (cases q) (auto simp: due_def)
  have xdue: "trig ?h x \<le> ?now" using Suc(2) q by (cases "trig ?h x \<le> ?now") (auto simp: due_def)
  note ok = Suc.prems(2) [unfolded q]
  obtain n where n: "?h x = Some n" using ok by (auto simp: timer_ok_def)
  have xq: "x \<notin> set q1" using ok by (simp add: timer_ok_def)
  note p = popped_ok [OF ok n]
  define tr where "tr = frequency n + ?now"
  let ?q = "tq_insert ?h tr x q1"
  obtain s1 where s1: "callout_turn (quiet f) s = Some s1" and ok1: "timer_ok s1 ?q []"
    and d1: "timer_data (tm_heap s1) x = Some (n\<lparr>t_next := 0, trigger := tr\<rparr>)"
    and dz: "\<And>z. z \<noteq> x \<Longrightarrow> timer_data (tm_heap s1) z = timer_data ?h z"
    and c1: "tm_clock s1 = tm_clock s" and w1: "tm_world s1 = f (t_proc n) (parg n) (tm_world s)"
    and trx: "trig (tm_heap s1) x = tr"
    unfolding tr_def by (rule callout_turn_quiet [OF ok n, of f]) blast
  have trz: "trig (tm_heap s1) z = trig ?h z" if "z \<noteq> x" for z by (rule timer_data_trig [OF dz [OF that]])
  have "later s x" using Suc.prems(3) q by simp
  then have now: "?now < tr" using later_trigger [OF _ n] by (simp add: tr_def)
  have due1: "due s1 ?q = due s q1"
    unfolding due_def c1
  proof (rule takeWhile_insert)
    show "sorted (map (trig ?h) q1)" using ok by (simp add: timer_ok_def)
    show "sorted (map (trig (tm_heap s1)) ?q)" using ok1 by (simp add: timer_ok_def)
    show "trig (tm_heap s1) z = trig ?h z" if "z \<in> set q1" for z using trz that xq by metis
  qed (use now trx in simp_all)
  have due: "due s q = x # due s q1" using xdue by (simp add: due_def q)
  have xd: "x \<notin> set (due s q1)" using xq set_takeWhileD unfolding due_def by fast
  have sub: "\<exists>m. ?h z = Some m" if "z \<in> set (due s q1)" for z
  proof -
    have "z \<in> set q1" using that set_takeWhileD unfolding due_def by fast
    then show ?thesis using ok tseg_nonzero unfolding timer_ok_def by (metis list.set_intros(2))
  qed
  have lat: "\<forall>z \<in> set ?q. later s1 z"
  proof
    fix z assume "z \<in> set ?q"
    then have z: "z = x \<or> z \<in> set q1" using mset_tq_insert [of ?h tr x q1] by (metis insert_iff set_mset_add_mset_insert set_mset_mset)
    have "map_option frequency (tm_heap s1 z) = map_option frequency (?h z)"
    proof (cases "z = x")
      case True
      from d1 obtain m where "tm_heap s1 x = Some m" "n\<lparr>trigger := tr\<rparr>\<lparr>t_next := 0\<rparr> = m\<lparr>t_next := 0\<rparr>"
        by (cases n) (auto simp: timer_data_some)
      with True n show ?thesis by (simp add: next_0_eq)
    qed (rule timer_data_fields(1) [OF dz])
    from later_cong [OF c1 this] Suc.prems(3) z q show "later s1 z" by auto
  qed
  have k: "k = length (due s1 ?q)" using Suc(2) due due1 by simp
  obtain s' q' where r: "callout_loop (quiet f) s1 = Some s'" "timer_ok s' q' []" "mset q' = mset ?q"
    "\<forall>z \<in> set q'. clock_curr (tm_clock s1) < trig (tm_heap s') z"
    "tm_world s' = run_routines f (tm_heap s1) (due s1 ?q) (tm_world s1)" "tm_clock s' = tm_clock s1"
    "\<And>z. timer_data (tm_heap s') z = (if z \<in> set (due s1 ?q)
       then map_option (\<lambda>n. n\<lparr>trigger := frequency n + clock_curr (tm_clock s1)\<rparr>) (timer_data (tm_heap s1) z)
       else timer_data (tm_heap s1) z)"
    by (rule Suc(1) [OF k _ ok1 lat]) blast
  show ?case
  proof (rule Suc.prems(1) [OF _ r(2)])
    have "timer_head s = x" "x \<noteq> 0" using p(4,5) by simp_all
    then show "callout_loop (quiet f) s = Some s'"
      using n s1 r(1) xdue by (subst callout_loop.simps) (simp add: trig_def)
    show "mset q' = mset q" using r(3) by (simp add: q mset_tq_insert)
    show "\<forall>x \<in> set q'. ?now < trig (tm_heap s') x" using r(4) c1 by simp
    show "tm_world s' = run_routines f ?h (due s q) (tm_world s)"
    proof -
      have "run_routines f (tm_heap s1) (due s q1) w = run_routines f ?h (due s q1) w" for w
        by (rule run_routines_cong) (use dz xd sub in \<open>metis option.distinct(1)\<close>)
      then show ?thesis using r(5) n w1 unfolding due1 due by (simp add: run_routines_def)
    qed
    show "tm_clock s' = tm_clock s" using r(6) c1 by simp
    show "timer_data (tm_heap s') z = (if z \<in> set (due s q)
       then map_option (\<lambda>n. n\<lparr>trigger := frequency n + ?now\<rparr>) (timer_data ?h z) else timer_data ?h z)" for z
    proof (cases "z = x")
      case True
      have "timer_data ?h x = Some (n\<lparr>t_next := 0\<rparr>)" using n by (simp add: timer_data_def)
      with True d1 r(7) [of x] xd show ?thesis unfolding due1 due by (simp add: tr_def)
    next
      case False
      with dz r(7) [of z] c1 show ?thesis unfolding due1 due by simp
    qed
  qed
qed


lemma timer_callout_ex:
  assumes "timer_ok s q []" "\<forall>x \<in> set q. later s x"
  shows "\<exists>next_time s' q'. rpc__timer_callout (quiet f) s = Some (next_time, s') \<and> timer_ok s' q' [] \<and> mset q' = mset q \<and> tm_clock s' = tm_clock s \<and>
    tm_world s' = run_routines f (tm_heap s) (due s q) (tm_world s) \<and>
    (\<forall>z. timer_data (tm_heap s') z = (if z \<in> set (due s q)
       then map_option (\<lambda>n. n\<lparr>trigger := frequency n + clock_curr (tm_clock s)\<rparr>) (timer_data (tm_heap s) z)
       else timer_data (tm_heap s) z)) \<and>
    (if q = [] then next_time = 0 else next_time = trig (tm_heap s') (hd q') - clock_curr (tm_clock s)) \<and>
    (\<forall>x \<in> set q'. clock_curr (tm_clock s) < trig (tm_heap s') x \<and> trig (tm_heap s') (hd q') \<le> trig (tm_heap s') x)"
proof -
  obtain s' q' where r: "callout_loop (quiet f) s = Some s'" "timer_ok s' q' []" "mset q' = mset q"
    "\<forall>x \<in> set q'. clock_curr (tm_clock s) < trig (tm_heap s') x"
    "tm_world s' = run_routines f (tm_heap s) (due s q) (tm_world s)" "tm_clock s' = tm_clock s"
    "\<And>z. timer_data (tm_heap s') z = (if z \<in> set (due s q)
       then map_option (\<lambda>n. n\<lparr>trigger := frequency n + clock_curr (tm_clock s)\<rparr>) (timer_data (tm_heap s) z)
       else timer_data (tm_heap s) z)"
    by (rule callout_loop_quiet [OF assms, of f]) blast
  have e: "q = [] \<longleftrightarrow> q' = []" using r(3) by (metis mset_zero_iff)
  have srt: "\<forall>x \<in> set q'. trig (tm_heap s') (hd q') \<le> trig (tm_heap s') x"
    using r(2) by (cases q') (auto simp: timer_ok_def)
  have "rpc__timer_callout (quiet f) s = Some (if q = [] then 0 else trig (tm_heap s') (hd q') - clock_curr (tm_clock s), s')"
    using r(1,2,6) e by (cases q') (auto simp: rpc__timer_callout_def timer_ok_def trig_def)
  with r srt show ?thesis by auto
qed

text \<open>
  C16: When every frequency is positive and no trigger wraps around, a callout with routines
  that leave the queue alone ends: it runs each routine that is due once, in the order of
  the triggers, queues each again one frequency from now, leaves all triggers in the
  future, and returns the time until the first of them, or 0 for an empty queue.
\<close>

theorem timer_callout_runs:
  assumes "timer_ok s q []" "\<forall>x \<in> set q. later s x"
  shows "\<exists>next_time s' q'. rpc__timer_callout (quiet f) s = Some (next_time, s') \<and> timer_ok s' q' [] \<and> mset q' = mset q \<and> tm_clock s' = tm_clock s \<and>
    tm_world s' = run_routines f (tm_heap s) (due s q) (tm_world s) \<and>
    (\<forall>z. timer_data (tm_heap s') z = (if z \<in> set (due s q)
       then map_option (\<lambda>n. n\<lparr>trigger := frequency n + clock_curr (tm_clock s)\<rparr>) (timer_data (tm_heap s) z)
       else timer_data (tm_heap s) z)) \<and>
    (if q = [] then next_time = 0 else next_time = trig (tm_heap s') (hd q') - clock_curr (tm_clock s)) \<and>
    (\<forall>x \<in> set q'. clock_curr (tm_clock s) < trig (tm_heap s') x \<and> trig (tm_heap s') (hd q') \<le> trig (tm_heap s') x)"
  by (rule timer_callout_ex [OF assms])

definition sample_timers :: "nat list timer_state" where
  "sample_timers = \<lparr>tm_heap = [1 \<mapsto> \<lparr>t_next = 2, trigger = 10, frequency = 4, t_proc = 71, parg = 5\<rparr>,
       2 \<mapsto> \<lparr>t_next = 3, trigger = 12, frequency = 2, t_proc = 72, parg = 6\<rparr>,
       3 \<mapsto> \<lparr>t_next = 0, trigger = 20, frequency = 1, t_proc = 73, parg = 3\<rparr>,
       4 \<mapsto> \<lparr>t_next = 9, trigger = 0, frequency = 0, t_proc = 0, parg = 0\<rparr>],
     running_list = 0, timer_head = 1, timer_tail = 3, high_trigger = 20, cur_trigger = 10, prods = [],
     tm_clock = sample_clock\<lparr>clock_curr := 12\<rparr>, tm_world = []\<rparr>"

lemma sample_timers_ok: "timer_ok sample_timers [1, 2, 3] []"
  by (simp add: timer_ok_def sample_timers_def trig_def)

theorem timer_callout_runs_witness:
  "\<exists>next_time s'. rpc__timer_callout (quiet (\<lambda>p a w. w @ [p])) sample_timers = Some (next_time, s') \<and> tm_world s' = [71, 72]"
proof -
  have "\<forall>x \<in> set [1, 2, 3]. later sample_timers x" by (simp add: later_def sample_timers_def)
  from timer_callout_runs [OF sample_timers_ok this, of "\<lambda>p a w. w @ [p]"] show ?thesis
    by (auto simp: due_def trig_def run_routines_def sample_timers_def)
qed

theorem timer_set_refines_witness:
  "\<exists>s'. rpc__timer_set 4 70 1 3 sample_timers = Some s' \<and> timer_ok s' [1, 2, 4, 3] []"
proof -
  have "tm_heap sample_timers 4 = Some \<lparr>t_next = 9, trigger = 0, frequency = 0, t_proc = 0, parg = 0\<rparr>"
    by (simp add: sample_timers_def)
  from timer_set_refines [OF sample_timers_ok this, of 70 1 3]
  obtain s' where "rpc__timer_set 4 70 1 3 sample_timers = Some s'"
    "timer_ok s' (tq_insert (tm_heap sample_timers) (3 + clock_curr (tm_clock sample_timers)) 4 [1, 2, 3]) []" by auto
  then show ?thesis by (simp add: tq_insert_def trig_def sample_timers_def)
qed

theorem timer_clear_refines_witness:
  "\<exists>s'. rpc__timer_clear 3 sample_timers = Some s' \<and> timer_ok s' [1, 2] []"
  using timer_clear_refines [OF sample_timers_ok, of 3] by auto

theorem timer_adjust_refines_witness:
  "\<exists>s'. rpc__timer_adjust 4 1 sample_timers = Some s' \<and> timer_ok s' [1, 2, 4, 3] []"
proof -
  have "tm_heap sample_timers 4 = Some \<lparr>t_next = 9, trigger = 0, frequency = 0, t_proc = 0, parg = 0\<rparr>"
    by (simp add: sample_timers_def)
  from timer_adjust_refines [OF sample_timers_ok this, of 1]
  obtain s' where "rpc__timer_adjust 4 1 sample_timers = Some s'"
    "timer_ok s' (tq_insert (tm_heap sample_timers) (1 + clock_curr (tm_clock sample_timers)) 4 [1, 2, 3]) []" by auto
  then show ?thesis by (simp add: tq_insert_def trig_def sample_timers_def)
qed

text \<open>
  A queue that holds a due timer of frequency 0 is never worked off: the callout runs that
  routine again and again and does not return.
\<close>

theorem timer_callout_zero_frequency:
  assumes "timer_ok s q []" "x \<in> set q" "tm_heap s x = Some n" "frequency n = 0" "trigger n \<le> clock_curr (tm_clock s)"
  shows "rpc__timer_callout (quiet f) s = None"
proof -
  define stuck where "stuck s \<longleftrightarrow> (\<exists>q x n. timer_ok s q [] \<and> x \<in> set q \<and> tm_heap s x = Some n \<and> frequency n = 0 \<and>
      trigger n \<le> clock_curr (tm_clock s))" for s :: "'a timer_state"
  have turn: "\<exists>s1. callout_turn (quiet f) s = Some s1 \<and> stuck s1 \<and> timer_head s \<noteq> 0 \<and>
      (\<exists>m. tm_heap s (timer_head s) = Some m \<and> trigger m \<le> clock_curr (tm_clock s))" if st: "stuck s" for s
  proof -
    from st obtain q x n where ok: "timer_ok s q []" and x: "x \<in> set q" "tm_heap s x = Some n" "frequency n = 0"
      "trigger n \<le> clock_curr (tm_clock s)" unfolding stuck_def by blast
    then obtain y q1 where q: "q = y # q1" by (cases q) auto
    note ok = ok [unfolded q]
    obtain m where m: "tm_heap s y = Some m" "timer_head s = y" "y \<noteq> 0" using ok by (auto simp: timer_ok_def)
    have "trig (tm_heap s) y \<le> trig (tm_heap s) x" using ok x(1) q by (auto simp: timer_ok_def)
    then have ym: "trigger m \<le> clock_curr (tm_clock s)" using m(1) x(2,4) by (simp add: trig_def)
    obtain s1 where s1: "callout_turn (quiet f) s = Some s1"
      "timer_ok s1 (tq_insert (tm_heap s) (frequency m + clock_curr (tm_clock s)) y q1) []"
      "timer_data (tm_heap s1) y = Some (m\<lparr>t_next := 0, trigger := frequency m + clock_curr (tm_clock s)\<rparr>)"
      "\<And>z. z \<noteq> y \<Longrightarrow> timer_data (tm_heap s1) z = timer_data (tm_heap s) z" "tm_clock s1 = tm_clock s"
      by (rule callout_turn_quiet [OF ok m(1), of f]) blast
    have "\<exists>n1. tm_heap s1 x = Some n1 \<and> frequency n1 = 0 \<and> trigger n1 \<le> clock_curr (tm_clock s)"
    proof (cases "x = y")
      case True
      with s1(3) x(2,3) m(1) have "timer_data (tm_heap s1) x = Some (n\<lparr>trigger := clock_curr (tm_clock s)\<rparr>\<lparr>t_next := 0\<rparr>)"
        by (cases n) simp
      then obtain n1 where "tm_heap s1 x = Some n1" "n\<lparr>trigger := clock_curr (tm_clock s)\<rparr>\<lparr>t_next := 0\<rparr> = n1\<lparr>t_next := 0\<rparr>"
        by (auto simp: timer_data_some)
      with x(3) show ?thesis by (simp add: next_0_eq)
    next
      case False
      then have "timer_data (tm_heap s1) x = Some (n\<lparr>t_next := 0\<rparr>)" using s1(4) x(2) by (simp add: timer_data_def)
      then obtain n1 where "tm_heap s1 x = Some n1" "n\<lparr>t_next := 0\<rparr> = n1\<lparr>t_next := 0\<rparr>" by (auto simp: timer_data_some)
      with x(3,4) show ?thesis by (simp add: next_0_eq)
    qed
    moreover have "x \<in> set (tq_insert (tm_heap s) (frequency m + clock_curr (tm_clock s)) y q1)"
      using x(1) q mset_tq_insert [of "tm_heap s" "frequency m + clock_curr (tm_clock s)" y q1]
      by (metis mset.simps(2) set_mset_mset)
    ultimately have "stuck s1" unfolding stuck_def s1(5) using s1(2) by blast
    with s1(1) m ym show ?thesis by blast
  qed
  have "callout_loop (quiet f) s = Some s' \<Longrightarrow> \<not> stuck s" for s s'
  proof -
    assume ret: "callout_loop (quiet f) s = Some s'"
    have "quiet f = quiet f \<longrightarrow> \<not> stuck s"
    proof (rule callout_loop.raw_induct [where P = "\<lambda>c s s'. c = quiet f \<longrightarrow> \<not> stuck s", OF _ ret])
      fix g c s s'
      assume IH: "\<And>c s s'. g c s = Some s' \<Longrightarrow> c = quiet f \<longrightarrow> \<not> stuck s"
        and eq: "(if timer_head s = NULL then Some s
        else do {
          x \<leftarrow> tget (timer_head s) (tm_heap s);
          if trigger x \<le> clock_curr (tm_clock s) then do { s \<leftarrow> callout_turn c s; g c s }
          else Some s }) = Some s'"
      show "c = quiet f \<longrightarrow> \<not> stuck s"
      proof (intro impI notI)
        assume c: "c = quiet f" and "stuck s"
        from turn [OF this(2)] obtain s1 m where s1: "callout_turn (quiet f) s = Some s1" "stuck s1" "timer_head s \<noteq> 0"
          "tm_heap s (timer_head s) = Some m" "trigger m \<le> clock_curr (tm_clock s)" by blast
        with eq c have "g c s1 = Some s'" by simp
        from IH [OF this] c s1(2) show False by blast
      qed
    qed
    then show "\<not> stuck s" by simp
  qed
  moreover have "stuck s" unfolding stuck_def using assms by blast
  ultimately have "callout_loop (quiet f) s = None" by (cases "callout_loop (quiet f) s") auto
  then show ?thesis by (simp add: rpc__timer_callout_def)
qed


theorem timer_callout_zero_frequency_witness:
  "\<exists>s'. rpc__timer_set 4 70 1 0 sample_timers = Some s' \<and> rpc__timer_callout (quiet (\<lambda>_ _ w. w)) s' = None"
proof -
  have t: "tm_heap sample_timers 4 = Some \<lparr>t_next = 9, trigger = 0, frequency = 0, t_proc = 0, parg = 0\<rparr>"
    by (simp add: sample_timers_def)
  obtain s' where s': "rpc__timer_set 4 70 1 0 sample_timers = Some s'"
    "timer_ok s' (tq_insert (tm_heap sample_timers) (0 + clock_curr (tm_clock sample_timers)) 4 [1, 2, 3]) []"
    "timer_data (tm_heap s') 4 = Some \<lparr>t_next = 0, trigger = 0 + clock_curr (tm_clock sample_timers), frequency = 0, t_proc = 70, parg = 1\<rparr>"
    using timer_set_ex [OF sample_timers_ok t, of 70 1 0] by auto
  from s'(1) t have c: "tm_clock s' = tm_clock sample_timers"
    using timer_set_int_ok [OF sample_timers_ok t _ _ _ refl, of 70 1 0] by (auto simp: rpc__timer_set_def)
  from s'(3) obtain n where n: "tm_heap s' 4 = Some n" "frequency n = 0" "trigger n = clock_curr (tm_clock sample_timers)"
  proof -
    from s'(3) obtain n where "tm_heap s' 4 = Some n" and e: "n\<lparr>t_next := 0\<rparr> =
        \<lparr>t_next = 0, trigger = clock_curr (tm_clock sample_timers), frequency = 0, t_proc = 70, parg = 1\<rparr>"
      by (auto simp: timer_data_some)
    moreover from e have "frequency n = 0" "trigger n = clock_curr (tm_clock sample_timers)" by (cases n, simp)+
    ultimately show ?thesis by (intro that [of n])
  qed
  have "4 \<in> set (tq_insert (tm_heap sample_timers) (0 + clock_curr (tm_clock sample_timers)) 4 [1, 2, 3])" by (simp add: tq_insert_def)
  from timer_callout_zero_frequency [OF s'(2) this n(1,2), of "\<lambda>_ _ w. w"] n(3) c s'(1) show ?thesis by simp
qed

text \<open>
  A one-shot routine, which clears its own timer, runs and is not queued again, and the
  other timers stay as they are.
\<close>

theorem timer_one_shot:
  assumes "timer_ok s (x # q) []" "tm_heap s x = Some n" "parg n = x"
  shows "\<exists>s'. callout_turn one_shot s = Some s' \<and> timer_ok s' q [] \<and> timer_data (tm_heap s') = timer_data (tm_heap s)"
proof -
  note p = popped_ok [OF assms(1,2)]
  obtain s2 where s2: "rpc__timer_clear x (popped s n) = Some s2" "timer_ok s2 (remove1 x q) (remove1 x [x])"
    "timer_data (tm_heap s2) = timer_data (tm_heap (popped s n))"
    by (rule timer_clear_ok [OF p(1), of x]) blast
  have "x \<notin> set q" using assms(1) by (simp add: timer_ok_def)
  then have ok: "timer_ok s2 q []" using s2(2) by (simp add: remove1_idem)
  have "one_shot (t_proc n) (parg n) (popped s n) = Some s2" using s2(1) assms(3) by (simp add: one_shot_def)
  from callout_turn_gone [where call = one_shot, OF assms(1,2) this ok] ok s2(3) p(2) show ?thesis by simp
qed

theorem timer_one_shot_witness:
  "\<exists>s'. callout_turn one_shot (sample_timers\<lparr>timer_head := 3, tm_clock := sample_clock\<lparr>clock_curr := 20\<rparr>\<rparr>) = Some s' \<and> timer_ok s' [] []"
  using timer_one_shot [of "sample_timers\<lparr>timer_head := 3, tm_clock := sample_clock\<lparr>clock_curr := 20\<rparr>\<rparr>" 3 "[]"]
  by (auto simp: timer_ok_def sample_timers_def trig_def)

text \<open>
  Whatever the routines do to the queue within the contract of a routine, here setting,
  clearing and adjusting timers by one-shot routines, a callout that returns leaves a
  well-formed queue, nothing on the running list and no timer that is due.
\<close>

theorem timer_callout_keeps:
  assumes "timer_ok s q []" "rpc__timer_callout one_shot s = Some (next_time, s')"
  shows "\<exists>q'. timer_ok s' q' [] \<and> (q' \<noteq> [] \<longrightarrow> clock_curr (tm_clock s') < trig (tm_heap s') (hd q')) \<and> (q' = [] \<longrightarrow> next_time = 0)"
proof -
  obtain s1 where s1: "callout_loop one_shot s = Some s1"
    using assms(2) by (auto simp: rpc__timer_callout_def bind_eq_Some_conv)
  then have "s' = s1" "timer_head s1 = 0 \<longrightarrow> next_time = 0"
    using assms(2) by (auto simp: rpc__timer_callout_def bind_eq_Some_conv split: if_splits)
  with one_shot.loop_ok [OF s1 assms(1)] show ?thesis by (auto simp: timer_ok_def)
qed

text \<open>
  C25: How long the timer thread sleeps.  The deadline of its wait is the very moment of the tick at which
  the first timer is due, or 50 seconds after the last tick when there is none before: it lies ahead, at most 50
  seconds, the longest \<open>rpc__clock_update\<close> takes for anything but a change of the time of
  day, and no timer is due before it.  This holds also when the time of day has just been
  changed, as long as it is not set to before the start of the clock.  (Quiet routines; no wrap of the tick count.)
\<close>

theorem timer_loop_wakes:
  fixes s :: "'w timer_state" and tp
  defines "s0 \<equiv> s\<lparr>tm_clock := rpc__clock_update tp (tm_clock s)\<rparr>"
    and "now \<equiv> fst tp * 1000000000 + snd tp * 1000"
  assumes "timer_ok s q []" "\<forall>x \<in> set q. later s0 x" "unat (clock_curr (tm_clock s0)) + 250 < 2 ^ 32"
    "started (tm_clock s)" "0 \<le> elapsed (tm_clock s) tp" "elapsed (tm_clock s) tp + 250 < 2 ^ 32"
  shows "\<exists>sec nsec s' q'. timer_loop_turn (quiet f) tp s = Some ((sec, nsec), s') \<and>
    timer_ok s' q' [] \<and> mset q' = mset q \<and> clock_curr (tm_clock s') = clock_curr (tm_clock s0) \<and>
    cur_trigger s' = (if q' = [] then clock_curr (tm_clock s') + 250
                      else min (trig (tm_heap s') (hd q')) (clock_curr (tm_clock s') + 250)) \<and>
    (\<forall>x \<in> set q'. cur_trigger s' \<le> trig (tm_heap s') x) \<and>
    sec * 1000000000 + nsec = now - tick_part (tm_clock s) tp * 1000
      + (uint (cur_trigger s') - uint (clock_curr (tm_clock s'))) * 200000000 \<and>
    now < sec * 1000000000 + nsec \<and> sec * 1000000000 + nsec \<le> now + 50 * 1000000000 \<and> 0 \<le> nsec \<and> nsec < 1000000000"
proof -
  have ok: "timer_ok s0 q []" using assms(3) by (simp add: timer_ok_def s0_def)
  let ?now = "clock_curr (tm_clock s0)"
  from timer_callout_ex [OF ok assms(4), of f] obtain nt s1 q' where c:
    "rpc__timer_callout (quiet f) s0 = Some (nt, s1)" "timer_ok s1 q' []" "mset q' = mset q" "tm_clock s1 = tm_clock s0"
    "if q = [] then nt = 0 else nt = trig (tm_heap s1) (hd q') - ?now"
    "\<forall>x \<in> set q'. ?now < trig (tm_heap s1) x \<and> trig (tm_heap s1) (hd q') \<le> trig (tm_heap s1) x" by blast
  have e: "q = [] \<longleftrightarrow> q' = []" using c(3) by (metis mset_zero_iff)
  define st where "st = (if nt = 0 \<or> nt > 250 then 250 else nt)"
  define s2 where "s2 = s1\<lparr>tm_clock := (tm_clock s1)\<lparr>long_sleep := nt > RPC_CLOCK_SEC 1\<rparr>, cur_trigger := ?now + st\<rparr>"
  obtain sec nsec where ts: "rpc__clock_timespec (cur_trigger s2) (tm_clock s2) = (sec, nsec)" by fastforce
  have run: "timer_loop_turn (quiet f) tp s = Some ((sec, nsec), s2)"
    using c(1,4) ts by (simp add: timer_loop_turn_def s0_def [symmetric] Let_def RPC_CLOCK_SEC_def s2_def st_def)
  have st: "0 < unat st" "unat st \<le> 250" by (auto simp: st_def word_less_nat_alt unat_gt_0 not_less word_le_nat_alt)
  have sum: "unat (?now + st) = unat ?now + unat st" using st(2) assms(5) by (simp add: word_vals)
  have s2: "clock_curr (tm_clock s2) = ?now" "cur_trigger s2 = ?now + st" "tm_heap s2 = tm_heap s1" "clock_skew (tm_clock s2) = clock_skew (tm_clock s0)"
    "start_sec (tm_clock s2) = start_sec (tm_clock s0)" "start_usec (tm_clock s2) = start_usec (tm_clock s0)"
    using c(4) by (simp_all add: s2_def)
  have trg: "?now + st = (if q' = [] then ?now + 250 else min (trig (tm_heap s1) (hd q')) (?now + 250))"
  proof (cases "q' = []")
    case True
    then show ?thesis using c(5) e by (simp add: st_def)
  next
    case False
    then have h: "?now < trig (tm_heap s1) (hd q')" "nt = trig (tm_heap s1) (hd q') - ?now" using c(5,6) e by auto
    then have u: "unat nt = unat (trig (tm_heap s1) (hd q')) - unat ?now" by (simp add: unat_sub less_imp_le)
    moreover have "unat (?now + 250) = unat ?now + 250" using assms(5) by (simp add: word_vals)
    ultimately show ?thesis using False h by (auto simp: st_def min_def word_less_nat_alt word_le_nat_alt)
  qed
  moreover have "\<forall>x \<in> set q'. ?now + st \<le> trig (tm_heap s1) x"
  proof
    fix x assume x: "x \<in> set q'"
    then have "?now + st \<le> trig (tm_heap s1) (hd q')" unfolding trg by auto
    with c(6) x show "?now + st \<le> trig (tm_heap s1) x" by (blast intro: order.trans)
  qed
  moreover have "timer_ok s2 q' []" using c(2) by (simp add: timer_ok_def s2_def)
  ultimately have q2: "timer_ok s2 q' [] \<and> ?now + st = (if q' = [] then ?now + 250 else min (trig (tm_heap s1) (hd q')) (?now + 250)) \<and>
    (\<forall>x \<in> set q'. ?now + st \<le> trig (tm_heap s1) x)" by blast
  let ?el = "elapsed (tm_clock s) tp"
  note ue = update_elapsed [OF assms(6), of tp]
  have us: "uint (?now + st) - uint ?now = uint st" "0 < uint st" "uint st \<le> 250"
    using sum st by (simp_all only: uint_nat)
  have e1: "?now + st - clock_skew (tm_clock s0) = word_of_int (?el + uint st)"
    using ue(1) by (simp add: s0_def algebra_simps)
  have e2: "uint (word_of_int (?el + uint st) :: u32) = ?el + uint st"
    unfolding uint_word_of_int by (rule mod_pos_pos_trivial) (use us(2,3) assms(7,8) in simp_all)
  have el: "uint (?now + st - clock_skew (tm_clock s0)) = ?el + uint st" unfolding e1 e2 ..
  have started: "started (tm_clock s2)" using assms(6) s2 ue by (simp add: started_def s0_def)
  note tt = timespec_ticks [OF started ts]
  have tp: "now = start_sec (tm_clock s) * 1000000000 + start_usec (tm_clock s) * 1000 + ?el * 200000000 + tick_part (tm_clock s) tp * 1000"
    using tick_parts(1) [of tp "tm_clock s"] unfolding now_def by linarith
  have dl: "sec * 1000000000 + nsec = now - tick_part (tm_clock s) tp * 1000 + (uint (?now + st) - uint ?now) * 200000000"
    using tt(1) ue(2,3) s2 el us(1) unfolding tp by (simp add: s0_def distrib_right)
  have wait: "now < sec * 1000000000 + nsec" "sec * 1000000000 + nsec \<le> now + 50 * 1000000000"
    using dl [unfolded us(1)] us(2,3) tick_parts(2,3) [of "tm_clock s" tp] by linarith+
  show ?thesis
    by (rule exI [of _ sec], rule exI [of _ nsec], rule exI [of _ s2], rule exI [of _ q'], unfold s2, intro conjI)
      (use wait run c(3) q2 dl tt(2,3) in blast)+
qed

theorem timer_callout_keeps_witness:
  "let s = sample_timers\<lparr>tm_clock := sample_clock\<lparr>clock_curr := 5\<rparr>\<rparr> in
   rpc__timer_callout one_shot s = Some (5, s) \<and> (\<exists>q'. timer_ok s q' [] \<and> (q' \<noteq> [] \<longrightarrow> 5 < trig (tm_heap s) (hd q')))"
proof -
  define s where "s = sample_timers\<lparr>tm_clock := sample_clock\<lparr>clock_curr := 5\<rparr>\<rparr>"
  have ok: "timer_ok s [1, 2, 3] []" using sample_timers_ok by (simp add: timer_ok_def s_def)
  have c: "clock_curr (tm_clock s) = 5" by (simp add: s_def)
  have r: "rpc__timer_callout one_shot s = Some (5, s)"
    by (simp add: rpc__timer_callout_def callout_loop.simps s_def sample_timers_def)
  from timer_callout_keeps [OF ok r] r show ?thesis unfolding s_def [symmetric] Let_def c by blast
qed

theorem timer_loop_wakes_witness:
  "\<exists>sec nsec s'. timer_loop_turn (quiet (\<lambda>p a w. w @ [p])) (1003, 0) (sample_timers\<lparr>tm_clock := sample_clock\<rparr>) = Some ((sec, nsec), s') \<and>
     1003 * 1000000000 < sec * 1000000000 + nsec \<and> sec * 1000000000 + nsec \<le> 1053 * 1000000000"
proof -
  let ?s = "sample_timers\<lparr>tm_clock := sample_clock\<rparr>"
  let ?c = "rpc__clock_update (1003, 0) sample_clock"
  have "timer_ok ?s [1, 2, 3] []" using sample_timers_ok by (simp add: timer_ok_def)
  moreover have c: "clock_curr ?c = 13" by (simp add: rpc__clock_update_def clock_ticks_def sample_clock_def Let_def RPC_CLOCK_SEC_def)
  moreover from c have "\<forall>x \<in> set [1, 2, 3]. later (?s\<lparr>tm_clock := ?c\<rparr>) x" by (simp add: later_def sample_timers_def)
  moreover have "started sample_clock" "0 \<le> elapsed sample_clock (1003, 0)" "elapsed sample_clock (1003, 0) + 250 < 2 ^ 32"
    by (simp_all add: started_def elapsed_def sample_clock_def)
  ultimately show ?thesis using timer_loop_wakes [of ?s "[1, 2, 3]" "(1003, 0)" "\<lambda>p a w. w @ [p]"] by auto
qed

end
