(* ===== verification/DgRecvq.thy ===== *)
theory DgRecvq
  imports RpcList
begin

text \<open>
  The receive queue of a datagram call: \<open>ncklib/transport/dg/dgrq.c\<close>, the insertion of a fragment
  (\<open>rpc__dg_call_recvq_insert\<close>) and the fragment acknowledgement (\<open>rpc__dg_call_xmit_fack\<close>) of
  \<open>dgcall.c\<close>, and the reception of the next fragment by the call thread
  (\<open>rpc__dg_call_receive_int\<close> of \<open>dg.c\<close>) for calls without authentication.

  The store maps addresses to the \<open>rpc_dg_recvq_elt_t\<close> elements; \<open>None\<close> is a dereference of an
  invalid pointer, a write outside the selective ack mask, a division by zero, or a loop that
  does not end.
\<close>

section \<open>The state\<close>

text \<open>\<open>hdrp\<close> is \<open>None\<close> for the second and later buffers of a multi-buffer fragment.\<close>

record dg_hdr =
  hdr_flags :: u8
  hdr_fragnum :: u16
  serial_hi :: u8
  serial_lo :: u8
  hdr_len :: u16

record dg_rqe =
  rqe_next :: addr
  more_data :: addr
  hdrp :: "dg_hdr option"
  frag_len :: u32
  pkt_len :: u16

type_synonym rheap = "addr \<Rightarrow> dg_rqe option"

record dg_recvq =
  rq_head :: addr
  last_inorder :: addr
  high_rcv_frag_size :: u32
  rq_next_fragnum :: u16
  high_fragnum :: u16
  high_serial_num :: u16
  head_fragnum :: u16
  head_serial_num :: u16
  rq_window_size :: u16
  wake_thread_qsize :: u16
  max_queue_len :: u16
  queue_len :: u8
  inorder_len :: u8
  recving_frags :: bool
  all_pkts_recvd :: bool
  is_way_validated :: bool

text \<open>A fack or nocall packet: the header fields set and the body with its mask.\<close>

record dg_fack =
  fk_nocall :: bool
  fk_fragnum :: u16
  fk_len :: u16
  fk_max_tsdu :: u32
  fk_max_frag_size :: u32
  fk_serial :: u16
  fk_window :: u16
  fk_selack_len :: u16
  fk_selack :: "u32 list"

text \<open>
  The parts of a call handle these routines use.  \<open>sent_facks\<close> and \<open>freed_rqes\<close> record the
  packets sent and the calls of \<open>rpc__dg_pkt_free_rqe\<close>.
\<close>

record dg_rcall =
  rq :: dg_recvq
  rqes :: rheap
  is_server :: bool
  call_is_queued :: bool
  sock_is_private :: bool
  n_resvs :: u8
  max_resvs :: u8
  xq_max_frag_size :: u32
  max_rcv_tsdu :: u32
  call_status :: u32
  call_is_orphan :: bool
  sent_facks :: "dg_fack list"
  freed_rqes :: "addr list"

text \<open>
  What the packet pool answers: \<open>rpc__dg_pkt_is_rationing\<close> with its \<open>low_on_pkts\<close>, and the
  reservation \<open>rpc__dg_pkt_adjust_reservation\<close> leaves when it grants one.
\<close>

record pool_view =
  is_rationing :: bool
  low_on_pkts :: bool
  granted_resvs :: "u8 option"

definition RPC_DG_FRAGNUM_IS_LT :: "u16 \<Rightarrow> u16 \<Rightarrow> bool" where
  "RPC_DG_FRAGNUM_IS_LT a b \<longleftrightarrow> sint (a - b) < 0"

definition RPC_DG_FRAGNUM_IS_LTE :: "u16 \<Rightarrow> u16 \<Rightarrow> bool" where
  "RPC_DG_FRAGNUM_IS_LTE a b \<longleftrightarrow> sint (a - b) \<le> 0"

definition RPC_DG_HDR_FLAG_IS_SET :: "dg_hdr \<Rightarrow> u8 \<Rightarrow> bool" where
  "RPC_DG_HDR_FLAG_IS_SET h flag \<longleftrightarrow> hdr_flags h AND flag \<noteq> 0"

abbreviation (input) RPC_C_DG_PF_LAST_FRAG :: u8 where "RPC_C_DG_PF_LAST_FRAG \<equiv> 0x02"
abbreviation (input) RPC_C_DG_PF_FRAG :: u8 where "RPC_C_DG_PF_FRAG \<equiv> 0x04"
abbreviation (input) RPC_C_DG_PF_NO_FACK :: u8 where "RPC_C_DG_PF_NO_FACK \<equiv> 0x08"
abbreviation (input) RPC_C_DG_MAX_RECVQ_LEN :: u16 where "RPC_C_DG_MAX_RECVQ_LEN \<equiv> 96"
abbreviation (input) RPC_C_DG_MUST_RECV_FRAG_SIZE :: u32 where "RPC_C_DG_MUST_RECV_FRAG_SIZE \<equiv> 1464"

definition hdr_serial :: "dg_hdr \<Rightarrow> u16" where
  "hdr_serial h = (push_bit 8 (ucast (serial_hi h)) OR ucast (serial_lo h))"

definition rget :: "addr \<Rightarrow> rheap \<Rightarrow> dg_rqe option" where
  "rget p h = (if p = NULL then None else h p)"

definition rhdr :: "addr \<Rightarrow> rheap \<Rightarrow> dg_hdr option" where
  "rhdr p h = do { e \<leftarrow> rget p h; hdrp e }"

definition set_rqe_next :: "addr \<Rightarrow> addr \<Rightarrow> rheap \<Rightarrow> rheap option" where
  "set_rqe_next p v h = do { e \<leftarrow> rget p h; Some (h(p \<mapsto> e\<lparr>rqe_next := v\<rparr>)) }"

section \<open>Initialisation and release\<close>

definition rpc__dg_recvq_init :: "dg_recvq \<Rightarrow> dg_recvq" where
  "rpc__dg_recvq_init q =
     q\<lparr>rq_head := NULL, last_inorder := NULL, high_rcv_frag_size := 1024,
       rq_next_fragnum := 0, high_fragnum := -1, high_serial_num := -1, head_fragnum := -1,
       head_serial_num := -1, wake_thread_qsize := 6 * 1024, max_queue_len := RPC_C_DG_MAX_RECVQ_LEN,
       queue_len := 0, inorder_len := 0, recving_frags := False, all_pkts_recvd := False,
       is_way_validated := False\<rparr>"

partial_function (option) rpc__dg_recvq_free :: "dg_rcall \<Rightarrow> dg_rcall option" where
  "rpc__dg_recvq_free c =
     (if rq_head (rq c) = NULL then Some c
      else do {
        e \<leftarrow> rget (rq_head (rq c)) (rqes c);
        rpc__dg_recvq_free
          (c\<lparr>rq := (rq c)\<lparr>rq_head := rqe_next e\<rparr>, freed_rqes := freed_rqes c @ [rq_head (rq c)]\<rparr>) })"

definition RPC_DG_RECVQ_REINIT :: "dg_rcall \<Rightarrow> dg_rcall option" where
  "RPC_DG_RECVQ_REINIT c = do {
     c \<leftarrow> (if rq_head (rq c) \<noteq> NULL then rpc__dg_recvq_free c else Some c);
     Some (c\<lparr>rq := rpc__dg_recvq_init (rq c)\<rparr>) }"

section \<open>The fragment acknowledgement\<close>

text \<open>
  The bits of the selective ack mask; the difference of two 16-bit fragment numbers is an
  \<open>int\<close> in C and is then stored in 32 bits without a sign.
\<close>

definition set_mask_bit :: "u32 \<Rightarrow> u32 list \<Rightarrow> u32 list option" where
  "set_mask_bit shift m =
     (let i = unat (shift div 32)
      in if i < length m then Some (m[i := m ! i OR push_bit (unat (shift mod 32)) 1])
         else None)"

partial_function (option) selack_loop :: "rheap \<Rightarrow> u16 \<Rightarrow> addr \<Rightarrow> u32 list \<Rightarrow> u32 list option" where
  "selack_loop h nf p m =
     (if p = NULL then Some m
      else do {
        e \<leftarrow> rget p h;
        hp \<leftarrow> hdrp e;
        m \<leftarrow> set_mask_bit (ucast (hdr_fragnum hp) - ucast nf) m;
        selack_loop h nf (rqe_next e) m })"

text \<open>The mask; nothing when no later fragment has been received.\<close>

definition selack_mask :: "dg_recvq \<Rightarrow> rheap \<Rightarrow> u32 list option" where
  "selack_mask q h =
     (if RPC_DG_FRAGNUM_IS_LT (rq_next_fragnum q) (high_fragnum q) then do {
        p \<leftarrow> (if last_inorder q \<noteq> NULL then do { e \<leftarrow> rget (last_inorder q) h; Some (rqe_next e) }
             else Some (rq_head q));
        selack_loop h (rq_next_fragnum q) p
          (replicate (unat (high_fragnum q - rq_next_fragnum q) div 32 + 1) 0) }
      else Some [])"

definition fack_frag_size :: "pool_view \<Rightarrow> dg_rcall \<Rightarrow> u32 \<times> dg_rcall" where
  "fack_frag_size pv c =
     (if n_resvs c \<ge> max_resvs c then (xq_max_frag_size c, c)
      else if is_server c \<and> (n_resvs c = 0 \<or> call_is_queued c) then (RPC_C_DG_MUST_RECV_FRAG_SIZE, c)
      else case granted_resvs pv of
        Some n \<Rightarrow> (xq_max_frag_size c, c\<lparr>n_resvs := n\<rparr>)
      | None \<Rightarrow>
          if n_resvs c = 0 then (RPC_C_DG_MUST_RECV_FRAG_SIZE, c)
          else ((ucast (n_resvs c) * 4240 + 80) AND NOT 7, c))"

definition fack_window :: "pool_view \<Rightarrow> dg_rcall \<Rightarrow> u16" where
  "fack_window pv c =
     (let q = rq c;
          space = ucast (max_queue_len q) - ucast (queue_len q) :: u32;
          size = (if high_rcv_frag_size q > RPC_C_DG_MUST_RECV_FRAG_SIZE then xq_max_frag_size c
                  else RPC_C_DG_MUST_RECV_FRAG_SIZE)
      in if n_resvs c = 0 \<and> is_server c then 0
         else if is_rationing pv then 1
         else if low_on_pkts pv then 2
         else min (rq_window_size q) (ucast (drop_bit 10 (space * size))))"

text \<open>\<open>rqe\<close> is the element that induced the fack, or \<open>NULL\<close>.\<close>

definition rpc__dg_call_xmit_fack :: "pool_view \<Rightarrow> addr \<Rightarrow> bool \<Rightarrow> dg_rcall \<Rightarrow> dg_rcall option" where
  "rpc__dg_call_xmit_fack pv rqe is_nocall c = do {
     let (size, c) = fack_frag_size pv c;
     serial \<leftarrow> (if rqe \<noteq> NULL then do {
                  e \<leftarrow> rget rqe (rqes c);
                  Some (case hdrp e of None \<Rightarrow> head_serial_num (rq c) | Some h \<Rightarrow> hdr_serial h) }
                else Some (high_serial_num (rq c)));
     m \<leftarrow> selack_mask (rq c) (rqes c);
     let n = length m;
     Some (c\<lparr>sent_facks := sent_facks c @
       [\<lparr>fk_nocall = is_nocall, fk_fragnum = rq_next_fragnum (rq c) - 1,
         fk_len = (if n > 1 then 20 + of_nat ((n - 1) * 4) else 20),
         fk_max_tsdu = max_rcv_tsdu c, fk_max_frag_size = size, fk_serial = serial,
         fk_window = fack_window pv c, fk_selack_len = of_nat n,
         fk_selack = (if n = 0 then [0] else m)\<rparr>]\<rparr>) }"

section \<open>Inserting a fragment\<close>

text \<open>
  What an arriving fragment changes whether it is queued or not: the flags, the highest serial
  number and fragment size seen, and the length limit of the queue.
\<close>

definition recvq_note :: "dg_hdr \<Rightarrow> u32 \<Rightarrow> dg_rcall \<Rightarrow> dg_rcall option" where
  "recvq_note hp len c =
     (let q = rq c;
          q = q\<lparr>recving_frags := recving_frags q \<or> RPC_DG_HDR_FLAG_IS_SET hp RPC_C_DG_PF_FRAG\<rparr>;
          q = (if RPC_DG_FRAGNUM_IS_LT (high_serial_num q) (hdr_serial hp)
               then q\<lparr>high_serial_num := hdr_serial hp\<rparr> else q)
      in if len > high_rcv_frag_size q then
           let q = q\<lparr>high_rcv_frag_size := len\<rparr> in
           if n_resvs c > 0 \<and> high_rcv_frag_size q > RPC_C_DG_MUST_RECV_FRAG_SIZE
              \<and> max_queue_len q = RPC_C_DG_MAX_RECVQ_LEN then
             if min (n_resvs c) (max_resvs c) = 0 then None
             else let mql = RPC_C_DG_MAX_RECVQ_LEN div ucast (min (n_resvs c) (max_resvs c))
                  in Some (c\<lparr>rq := if ucast (queue_len q) \<le> mql \<and> inorder_len q > 0
                                   then q\<lparr>max_queue_len := mql\<rparr> else q\<rparr>)
           else Some (c\<lparr>rq := q\<rparr>)
         else Some (c\<lparr>rq := q\<rparr>))"

text \<open>The scan for the new end of the in-order fragments: \<open>last_inorder\<close>, the next fragment number and the count.\<close>

partial_function (option) inorder_scan :: "rheap \<Rightarrow> addr \<Rightarrow> addr \<Rightarrow> u16 \<Rightarrow> u8 \<Rightarrow> (addr \<times> u16 \<times> u8) option" where
  "inorder_scan h prev scan nf len =
     (if scan = NULL then Some (prev, nf, len)
      else do {
        e \<leftarrow> rget scan h;
        hp \<leftarrow> hdrp e;
        if hdr_fragnum hp = nf then inorder_scan h scan (rqe_next e) (nf + 1) (len + 1)
        else Some (prev, nf, len) })"

text \<open>The scan for the place of an out of order fragment.\<close>

partial_function (option) place_scan :: "rheap \<Rightarrow> u16 \<Rightarrow> addr \<Rightarrow> addr \<Rightarrow> (addr \<times> addr) option" where
  "place_scan h f prev scan =
     (if scan = NULL then Some (prev, NULL)
      else do {
        e \<leftarrow> rget scan h;
        hp \<leftarrow> hdrp e;
        if RPC_DG_FRAGNUM_IS_LT (hdr_fragnum hp) f then place_scan h f scan (rqe_next e)
        else Some (prev, scan) })"

definition insert_next :: "addr \<Rightarrow> u16 \<Rightarrow> dg_rcall \<Rightarrow> dg_rcall option" where
  "insert_next r f c = do {
     let q = rq c;
     (q, h) \<leftarrow> (if last_inorder q = NULL then do {
                 h \<leftarrow> set_rqe_next r (rq_head q) (rqes c);
                 Some (q\<lparr>rq_head := r, head_fragnum := f\<rparr>, h) }
               else do {
                 l \<leftarrow> rget (last_inorder q) (rqes c);
                 h \<leftarrow> set_rqe_next r (rqe_next l) (rqes c);
                 h \<leftarrow> set_rqe_next (last_inorder q) r h;
                 Some (q, h) });
     e \<leftarrow> rget r h;
     (prev, nf, len) \<leftarrow> inorder_scan h r (rqe_next e) (rq_next_fragnum q + 1) (inorder_len q + 1);
     Some (c\<lparr>rq := q\<lparr>last_inorder := prev, rq_next_fragnum := nf, inorder_len := len\<rparr>, rqes := h\<rparr>) }"

definition too_far :: "u16 \<Rightarrow> dg_recvq \<Rightarrow> bool" where
  "too_far f q \<longleftrightarrow>
     rq_head q \<noteq> NULL \<and> RPC_DG_FRAGNUM_IS_LT (head_fragnum q) (rq_next_fragnum q)
       \<and> RPC_DG_FRAGNUM_IS_LTE (head_fragnum q + max_queue_len q) f
     \<or> RPC_DG_FRAGNUM_IS_LTE (rq_next_fragnum q + max_queue_len q) f"

text \<open>The result of the insertions is whether the fragment was queued.\<close>

definition insert_later :: "addr \<Rightarrow> u16 \<Rightarrow> dg_rcall \<Rightarrow> (bool \<times> dg_rcall) option" where
  "insert_later r f c =
     (let q = rq c in
      if rq_head q = NULL then Some (True, c\<lparr>rq := q\<lparr>rq_head := r, head_fragnum := f\<rparr>\<rparr>)
      else do {
        (prev, scan) \<leftarrow>
          (if last_inorder q = NULL then Some (NULL, rq_head q)
           else do { l \<leftarrow> rget (last_inorder q) (rqes c); Some (last_inorder q, rqe_next l) });
        (prev, scan) \<leftarrow> place_scan (rqes c) f prev scan;
        dup \<leftarrow> (if scan = NULL then Some False
               else do { hp \<leftarrow> rhdr scan (rqes c); Some (f = hdr_fragnum hp) });
        if dup then Some (False, c)
        else do {
          h \<leftarrow> set_rqe_next r scan (rqes c);
          if scan = rq_head q
          then Some (True, c\<lparr>rq := q\<lparr>rq_head := r, head_fragnum := f\<rparr>, rqes := h\<rparr>)
          else do { h \<leftarrow> set_rqe_next prev r h; Some (True, c\<lparr>rqes := h\<rparr>) } } })"

definition recvq_place :: "pool_view \<Rightarrow> addr \<Rightarrow> u16 \<Rightarrow> dg_rcall \<Rightarrow> (bool \<times> dg_rcall) option" where
  "recvq_place pv r f c =
     (let q = rq c in
      if is_server c \<and> n_resvs c = 0 then Some (False, c)
      else if f = rq_next_fragnum q then
        if ucast (queue_len q) = max_queue_len q then Some (False, c)
        else if is_rationing pv \<and> (last_inorder q \<noteq> NULL \<or> \<not> is_way_validated q \<and> f \<noteq> 0)
        then Some (False, c)
        else do { c \<leftarrow> insert_next r f c; Some (True, c) }
      else if RPC_DG_FRAGNUM_IS_LT f (rq_next_fragnum q) then Some (False, c)
      else if is_rationing pv then Some (False, c)
      else if too_far f q then Some (False, c)
      else insert_later r f c)"

text \<open>The bookkeeping for a fragment that was queued.\<close>

definition recvq_account :: "u16 \<Rightarrow> dg_rcall \<Rightarrow> dg_rcall option" where
  "recvq_account f c = do {
     let q = rq c;
     let q = q\<lparr>queue_len := queue_len q + 1\<rparr>;
     let q = (if RPC_DG_FRAGNUM_IS_LT (high_fragnum q) f then q\<lparr>high_fragnum := f\<rparr> else q);
     complete \<leftarrow>
       (if last_inorder q = NULL then Some False
        else if \<not> recving_frags q then Some True
        else do {
          l \<leftarrow> rget (last_inorder q) (rqes c);
          Some (case hdrp l of None \<Rightarrow> False
                | Some hp \<Rightarrow> RPC_DG_HDR_FLAG_IS_SET hp RPC_C_DG_PF_LAST_FRAG) });
     Some (c\<lparr>rq := if complete then q\<lparr>all_pkts_recvd := True\<rparr> else q\<rparr>) }"

text \<open>The result is whether the fragment was queued and whether to wake the call thread.\<close>

definition rpc__dg_call_recvq_insert :: "pool_view \<Rightarrow> addr \<Rightarrow> dg_rcall \<Rightarrow> (bool \<times> bool \<times> dg_rcall) option" where
  "rpc__dg_call_recvq_insert pv r c = do {
     e \<leftarrow> rget r (rqes c);
     hp \<leftarrow> hdrp e;
     c \<leftarrow> recvq_note hp (frag_len e) c;
     (added, c) \<leftarrow> recvq_place pv r (hdr_fragnum hp) c;
     c \<leftarrow> (if added then recvq_account (hdr_fragnum hp) c else Some c);
     c \<leftarrow> (if recving_frags (rq c) \<and> \<not> all_pkts_recvd (rq c)
              \<and> (ucast (queue_len (rq c)) = max_queue_len (rq c)
                 \<or> \<not> RPC_DG_HDR_FLAG_IS_SET hp RPC_C_DG_PF_NO_FACK)
          then rpc__dg_call_xmit_fack pv r False c else Some c);
     let q = rq c;
     Some (added,
       \<not> sock_is_private c \<and>
         (all_pkts_recvd q \<or> ucast (queue_len q) = max_queue_len q
          \<or> high_rcv_frag_size q * ucast (inorder_len q) \<ge> ucast (wake_thread_qsize q)
          \<or> is_rationing pv \<and> inorder_len q > 0),
       c) }"

section \<open>Receiving\<close>

text \<open>
  \<open>Recv_data\<close> hands over a buffer with the length of its data, \<open>Recv_end\<close> is the end of the
  stream (data of length 0 and a good status), \<open>Recv_error\<close> a status, and \<open>Recv_wait\<close> the wait for
  the next in-order fragment, after which the call thread goes on here.
\<close>

datatype dg_received = Recv_data addr int | Recv_end | Recv_error u32 | Recv_wait

abbreviation (input) rpc_s_call_orphaned :: u32 where "rpc_s_call_orphaned \<equiv> 0x16c9a05e"

definition RPC_DG_RECVQ_IOVECTOR_SETUP :: "dg_rqe \<Rightarrow> int" where
  "RPC_DG_RECVQ_IOVECTOR_SETUP e =
     (case hdrp e of
        Some hp \<Rightarrow> uint (min (ucast (hdr_len hp)) (ucast (pkt_len e) - 80 :: u64))
      | None \<Rightarrow> uint (pkt_len e))"

definition dequeue_head :: "dg_rqe \<Rightarrow> dg_rcall \<Rightarrow> dg_rcall option" where
  "dequeue_head e c = do {
     let q = rq c;
     let r = rq_head q;
     let q = (case hdrp e of None \<Rightarrow> q | Some hp \<Rightarrow> q\<lparr>head_serial_num := hdr_serial hp\<rparr>);
     if more_data e \<noteq> NULL then do {
       h \<leftarrow> set_rqe_next (more_data e) (rqe_next e) (rqes c);
       let q = q\<lparr>rq_head := more_data e,
                 last_inorder := if last_inorder q = r then more_data e else last_inorder q\<rparr>;
       e \<leftarrow> rget r h;
       Some (c\<lparr>rq := q, rqes := h(r \<mapsto> e\<lparr>more_data := NULL\<rparr>)\<rparr>) }
     else do {
       let q = q\<lparr>rq_head := rqe_next e\<rparr>;
       q \<leftarrow> (if rq_head q \<noteq> NULL then do {
              hp \<leftarrow> rhdr (rq_head q) (rqes c);
              Some (q\<lparr>head_fragnum := hdr_fragnum hp\<rparr>) }
            else Some q);
       Some (c\<lparr>rq := q\<lparr>last_inorder := if last_inorder q = r then NULL else last_inorder q,
                       inorder_len := inorder_len q - 1, queue_len := queue_len q - 1\<rparr>\<rparr>) } }"

text \<open>The fragment in order at the head is taken.\<close>

definition receive_head :: "pool_view \<Rightarrow> dg_rcall \<Rightarrow> (dg_received \<times> dg_rcall) option" where
  "receive_head pv c = do {
     let r = rq_head (rq c);
     e \<leftarrow> rget r (rqes c);
     c \<leftarrow> dequeue_head e c;
     c \<leftarrow> (if uint (queue_len (rq c)) = uint (max_queue_len (rq c)) - 1
          then rpc__dg_call_xmit_fack pv r False c else Some c);
     e \<leftarrow> rget r (rqes c);
     Some (Recv_data r (RPC_DG_RECVQ_IOVECTOR_SETUP e), c) }"

definition rpc__dg_call_receive_int :: "pool_view \<Rightarrow> dg_rcall \<Rightarrow> (dg_received \<times> dg_rcall) option" where
  "rpc__dg_call_receive_int pv c =
     (if call_status c \<noteq> 0 then Some (Recv_error (call_status c), c)
      else if call_is_orphan c then do {
        c \<leftarrow> (if rq_head (rq c) \<noteq> NULL then rpc__dg_recvq_free c else Some c);
        Some (Recv_error rpc_s_call_orphaned, c) }
      else if all_pkts_recvd (rq c) \<and> rq_head (rq c) = NULL then Some (Recv_end, c)
      else if last_inorder (rq c) = NULL then Some (Recv_wait, c)
      else receive_head pv c)"

declare rpc__dg_recvq_free.simps [code] selack_loop.simps [code] inorder_scan.simps [code] place_scan.simps [code]

section \<open>Fragment numbers\<close>

text \<open>The distance of a fragment number from a base, modulo \<open>2 ^ 16\<close>; comparisons of numbers less than half the space apart are comparisons of distances.\<close>

definition off :: "u16 \<Rightarrow> u16 \<Rightarrow> nat" where
  "off n f = unat (f - n)"

lemma off_self [simp]: "off n n = 0" by (simp add: off_def)

lemma off_0_iff [simp]: "off n f = 0 \<longleftrightarrow> f = n"
  by (simp add: off_def unat_eq_0)

lemma off_inj: "off n f = off n g \<longleftrightarrow> f = g"
  by (simp add: off_def unat_eq_iff)

lemma off_lt: "off n f < 65536" by (simp add: off_def unat_u16_lt)

lemma int_off: "int (off n f) = uint (f - n)"
  by (simp add: off_def)

lemma sint16: "sint (x :: u16) = (if uint x < 32768 then uint x else uint x - 65536)"
proof -
  have r: "0 \<le> uint x" "uint x < 65536" using unsigned_less [where ?'a = int, of x] by simp_all
  have s: "sint x = take_bit 16 (uint x) - 65536 * of_bool (bit (uint x) 15)"
    by (simp add: sint_uint signed_take_bit_eq_take_bit_minus)
  have t: "take_bit 16 (uint x) = uint x" using r by (simp add: take_bit_int_eq_self_iff)
  show ?thesis
  proof (cases "uint x < 32768")
    case True
    then have "uint x div 32768 = 0" using r by simp
    then show ?thesis using True by (simp add: s t bit_iff_odd)
  next
    case False
    then have "uint x div 32768 = 1" using r by (intro int_div_pos_eq [where r = "uint x - 32768"]) linarith+
    then show ?thesis using False by (simp add: s t bit_iff_odd)
  qed
qed

lemma uint_sub16: "uint (a - b :: u16) = (uint a - uint b) mod 65536"
  by (simp add: uint_word_ariths)

lemma sub_sub16: "a - b = (a - n) - (b - n)" for a b n :: u16 by simp

lemma fragnum_lt:
  assumes "off n a < 32768" "off n b < 32768"
  shows "RPC_DG_FRAGNUM_IS_LT a b \<longleftrightarrow> off n a < off n b"
    and "RPC_DG_FRAGNUM_IS_LTE a b \<longleftrightarrow> off n a \<le> off n b"
proof -
  let ?x = "uint (a - n)" and ?y = "uint (b - n)"
  have x: "0 \<le> ?x" "?x < 32768" "0 \<le> ?y" "?y < 32768"
    using assms unfolding int_off [symmetric] by simp_all
  have d: "uint (a - b) = (?x - ?y) mod 65536" by (subst sub_sub16 [of a b n]) (rule uint_sub16)
  have o: "off n a < off n b \<longleftrightarrow> ?x < ?y" "off n a \<le> off n b \<longleftrightarrow> ?x \<le> ?y"
    unfolding int_off [symmetric] by simp_all
  consider "?x < ?y" | "?y \<le> ?x" by linarith
  then have s: "sint (a - b) = ?x - ?y"
  proof cases
    case 1
    then have "(?x - ?y) mod 65536 = ?x - ?y + 65536" using x
      by (smt (verit) mod_add_self2 mod_pos_pos_trivial)
    with d have "uint (a - b) = ?x - ?y + 65536" by linarith
    moreover have "\<not> ?x - ?y + 65536 < 32768" using x by linarith
    ultimately show ?thesis by (simp only: sint16) simp
  next
    case 2
    then have "(?x - ?y) mod 65536 = ?x - ?y" using x by (intro mod_pos_pos_trivial) linarith+
    with d have "uint (a - b) = ?x - ?y" by linarith
    moreover have "?x - ?y < 32768" using x by linarith
    ultimately show ?thesis by (simp only: sint16) simp
  qed
  show "RPC_DG_FRAGNUM_IS_LT a b \<longleftrightarrow> off n a < off n b" by (simp add: RPC_DG_FRAGNUM_IS_LT_def s o)
  show "RPC_DG_FRAGNUM_IS_LTE a b \<longleftrightarrow> off n a \<le> off n b" by (simp add: RPC_DG_FRAGNUM_IS_LTE_def s o)
qed

lemma off_add: "unat k \<le> off n f \<Longrightarrow> off (n + k) f = off n f - unat k"
proof -
  assume a: "unat k \<le> off n f"
  have "f - (n + k) = (f - n) - k" by simp
  then show ?thesis using a by (simp only: off_def) (simp only: unat_sub word_le_nat_alt)
qed

lemma off_sub: "off n f + unat k < 65536 \<Longrightarrow> off (n - k) f = off n f + unat k"
proof -
  assume a: "off n f + unat k < 65536"
  have "f - (n - k) = (f - n) + k" by simp
  then have "off (n - k) f = (off n f + unat k) mod 65536"
    by (simp only: off_def unat_add_mod) simp
  then show ?thesis using a by simp
qed

lemma old_fragnum: "RPC_DG_FRAGNUM_IS_LT f n \<longleftrightarrow> 32768 \<le> off n f"
  using unsigned_less [where ?'a = int, of "f - n"] int_off [of n f]
  by (auto simp: RPC_DG_FRAGNUM_IS_LT_def sint16)

section \<open>Queues in the store\<close>

fun rseg :: "rheap \<Rightarrow> addr \<Rightarrow> addr list \<Rightarrow> addr \<Rightarrow> bool" where
  "rseg h p [] q \<longleftrightarrow> p = q"
| "rseg h p (x # xs) q \<longleftrightarrow> p = x \<and> x \<noteq> NULL \<and> (\<exists>e. h x = Some e \<and> rseg h (rqe_next e) xs q)"

text \<open>The further buffers of a fragment.\<close>

fun mseg :: "rheap \<Rightarrow> addr \<Rightarrow> addr list \<Rightarrow> bool" where
  "mseg h p [] \<longleftrightarrow> p = NULL"
| "mseg h p (x # xs) \<longleftrightarrow> p = x \<and> x \<noteq> NULL \<and> (\<exists>e. h x = Some e \<and> hdrp e = None \<and> mseg h (more_data e) xs)"

text \<open>A fragment is the list of its buffers; its number stands in the header of the first.\<close>

definition fnum :: "rheap \<Rightarrow> addr list \<Rightarrow> u16" where
  "fnum h f = hdr_fragnum (the (hdrp (the (h (hd f)))))"

definition has_hdr :: "rheap \<Rightarrow> addr list \<Rightarrow> bool" where
  "has_hdr h f \<longleftrightarrow> (\<exists>e hp. h (hd f) = Some e \<and> hdrp e = Some hp)"

definition frag_ok :: "rheap \<Rightarrow> addr list \<Rightarrow> bool" where
  "frag_ok h f \<longleftrightarrow> f \<noteq> [] \<and> hd f \<noteq> NULL \<and> (\<exists>e. h (hd f) = Some e \<and> mseg h (more_data e) (tl f))"

definition end_of :: "addr \<Rightarrow> addr list list \<Rightarrow> addr" where
  "end_of p fs = (if fs = [] then p else hd (last fs))"

definition first_of :: "addr list list \<Rightarrow> addr" where
  "first_of fs = (if fs = [] then NULL else hd (hd fs))"

lemma end_of_simps [simp]:
  "end_of p [] = p" "end_of p (f # fs) = end_of (hd f) fs" "end_of p (fs @ [f]) = hd f"
  by (simp_all add: end_of_def)

lemma end_of_append: "end_of p (fs @ gs) = end_of (end_of p fs) gs"
  by (simp add: end_of_def)

lemma first_of_simps [simp]: "first_of [] = NULL" "first_of (f # fs) = hd f"
  by (simp_all add: first_of_def)

lemma first_of_append: "first_of (fs @ gs) = (if fs = [] then first_of gs else first_of fs)"
  by (simp add: first_of_def)

lemma rseg_append [simp]: "rseg h p (xs @ ys) q \<longleftrightarrow> (\<exists>r. rseg h p xs r \<and> rseg h r ys q)"
  by (induction xs arbitrary: p) auto

lemma rseg_frame: "(\<And>x. x \<in> set xs \<Longrightarrow> h' x = h x) \<Longrightarrow> rseg h' p xs q = rseg h p xs q"
  by (induction xs arbitrary: p) auto

lemma rseg_upd [simp]: "x \<notin> set xs \<Longrightarrow> rseg (h(x := v)) p xs q = rseg h p xs q"
  by (rule rseg_frame) auto

lemma mseg_frame: "(\<And>x. x \<in> set xs \<Longrightarrow> h' x = h x) \<Longrightarrow> mseg h' p xs = mseg h p xs"
  by (induction xs arbitrary: p) auto

lemma rseg_first: "rseg h p (map hd fs) NULL \<Longrightarrow> p = first_of fs"
  by (cases fs) auto

text \<open>What a change of links keeps: the headers and the buffers of every element.\<close>

definition links_only :: "rheap \<Rightarrow> rheap \<Rightarrow> bool" where
  "links_only h h' \<longleftrightarrow> (\<forall>x. \<exists>v. h' x = map_option (\<lambda>e. e\<lparr>rqe_next := v\<rparr>) (h x))"

lemma links_only_refl [simp]: "links_only h h"
proof -
  have "h x = map_option (\<lambda>e. e\<lparr>rqe_next := case h x of None \<Rightarrow> 0 | Some e \<Rightarrow> rqe_next e\<rparr>) (h x)" for x
    by (cases "h x") simp_all
  then show ?thesis unfolding links_only_def by blast
qed

lemma links_only_trans:
  assumes "links_only h h'" "links_only h' h''"
  shows "links_only h h''"
  unfolding links_only_def
proof
  fix x
  obtain v where "h' x = map_option (\<lambda>e. e\<lparr>rqe_next := v\<rparr>) (h x)" using assms(1) unfolding links_only_def by blast
  moreover obtain w where "h'' x = map_option (\<lambda>e. e\<lparr>rqe_next := w\<rparr>) (h' x)" using assms(2) unfolding links_only_def by blast
  ultimately have "h'' x = map_option (\<lambda>e. e\<lparr>rqe_next := w\<rparr>) (h x)" by (cases "h x") simp_all
  then show "\<exists>v. h'' x = map_option (\<lambda>e. e\<lparr>rqe_next := v\<rparr>) (h x)" by blast
qed

lemma links_only_set:
  assumes "set_rqe_next p v h = Some h'"
  shows "links_only h h'"
  unfolding links_only_def
proof
  fix x
  obtain e where e: "h p = Some e" "h' = h(p \<mapsto> e\<lparr>rqe_next := v\<rparr>)"
    using assms by (auto simp: set_rqe_next_def rget_def split: if_splits bind_splits)
  show "\<exists>v. h' x = map_option (\<lambda>e. e\<lparr>rqe_next := v\<rparr>) (h x)"
  proof (cases "x = p")
    case False
    obtain w where "h x = map_option (\<lambda>e. e\<lparr>rqe_next := w\<rparr>) (h x)"
      using links_only_refl [of h] unfolding links_only_def by blast
    then show ?thesis using False e by auto
  qed (use e in auto)
qed

lemma links_only_get:
  assumes "links_only h h'"
  obtains (none) "h x = None" "h' x = None"
    | (some) e v where "h x = Some e" "h' x = Some (e\<lparr>rqe_next := v\<rparr>)"
  using assms none some unfolding links_only_def by (cases "h x") (auto dest: spec [of _ x])

lemma mseg_links: "links_only h h' \<Longrightarrow> mseg h' p xs = mseg h p xs"
proof (induction xs arbitrary: p)
  case (Cons x xs)
  show ?case by (rule links_only_get [OF Cons.prems, of x]) (auto simp: Cons.IH [OF Cons.prems])
qed simp

lemma links_facts:
  assumes "links_only h h'"
  shows "frag_ok h' f = frag_ok h f" "has_hdr h' f = has_hdr h f" "fnum h' f = fnum h f"
proof -
  show "frag_ok h' f = frag_ok h f"
    by (rule links_only_get [OF assms, of "hd f"]) (auto simp: frag_ok_def mseg_links [OF assms])
  show "has_hdr h' f = has_hdr h f"
    by (rule links_only_get [OF assms, of "hd f"]) (auto simp: has_hdr_def)
  show "fnum h' f = fnum h f"
    by (rule links_only_get [OF assms, of "hd f"]) (auto simp: fnum_def)
qed

section \<open>The scans\<close>

text \<open>How many of the numbers continue \<open>n, n + 1, \<dots>\<close>.\<close>

fun run_len :: "u16 \<Rightarrow> u16 list \<Rightarrow> nat" where
  "run_len n [] = 0"
| "run_len n (f # fs) = (if f = n then Suc (run_len (n + 1) fs) else 0)"

lemma run_len_le: "run_len n ns \<le> length ns"
  by (induction n ns rule: run_len.induct) auto

lemma run_len_nth: "i < run_len n ns \<Longrightarrow> ns ! i = n + of_nat i"
proof (induction n ns arbitrary: i rule: run_len.induct)
  case (2 n f fs)
  then show ?case by (cases i) (auto split: if_splits)
qed simp

lemma rget_nz [simp]: "p \<noteq> NULL \<Longrightarrow> rget p h = h p"
  by (simp add: rget_def)

lemma inorder_scan_run:
  assumes "rseg h scan (map hd fs) NULL" "\<forall>f\<in>set fs. has_hdr h f"
  shows "inorder_scan h prev scan nf len =
    (let k = run_len nf (map (fnum h) fs) in Some (end_of prev (take k fs), nf + of_nat k, len + of_nat k))"
  using assms
proof (induction fs arbitrary: prev scan nf len)
  case Nil
  then show ?case by (subst inorder_scan.simps) simp
next
  case (Cons f fs)
  then obtain e hp where e: "scan = hd f" "scan \<noteq> NULL" "h scan = Some e" "hdrp e = Some hp"
    "rseg h (rqe_next e) (map hd fs) NULL" "fnum h f = hdr_fragnum hp"
    by (auto simp: has_hdr_def fnum_def)
  then show ?case using Cons by (subst inorder_scan.simps) (simp add: Let_def)
qed

lemma place_scan_run:
  assumes "rseg h scan (map hd fs) NULL" "\<forall>f\<in>set fs. has_hdr h f"
  shows "place_scan h n prev scan =
    (let P = \<lambda>f. RPC_DG_FRAGNUM_IS_LT (fnum h f) n
     in Some (end_of prev (takeWhile P fs), first_of (dropWhile P fs)))"
  using assms
proof (induction fs arbitrary: prev scan)
  case Nil
  then show ?case by (subst place_scan.simps) simp
next
  case (Cons f fs)
  then obtain e hp where e: "scan = hd f" "scan \<noteq> NULL" "h scan = Some e" "hdrp e = Some hp"
    "rseg h (rqe_next e) (map hd fs) NULL" "fnum h f = hdr_fragnum hp"
    by (auto simp: has_hdr_def fnum_def)
  then show ?case using Cons by (subst place_scan.simps) (simp add: Let_def)
qed

section \<open>The numbers of the fragments on a queue\<close>

text \<open>
  \<open>n\<close> is the next fragment number awaited, \<open>L\<close> the number of in-order fragments before it, \<open>ns\<close>
  are the later ones: ascending, within a window of \<open>W\<close> from the head, the last the highest received.
\<close>

definition nums_ok :: "nat \<Rightarrow> u16 \<Rightarrow> u16 \<Rightarrow> nat \<Rightarrow> u16 list \<Rightarrow> bool" where
  "nums_ok W n high L ns \<longleftrightarrow>
     sorted_wrt (<) (map (off n) ns) \<and> (\<forall>f\<in>set ns. 0 < off n f \<and> off n f + L < W) \<and>
     (\<forall>f\<in>set ns. off (n - 1) f \<le> off (n - 1) high) \<and> off (n - 1) high \<le> W \<and>
     high = (if ns = [] then n - 1 else last ns)"

lemma nums_high:
  assumes "nums_ok W n high L ns"
  shows "off (n - 1) high \<le> W" "f \<in> set ns \<Longrightarrow> off (n - 1) f \<le> off (n - 1) high"
    "high = (if ns = [] then n - 1 else last ns)"
  using assms unfolding nums_ok_def by blast+

lemma off_minus_1: "off n f < 65535 \<Longrightarrow> off (n - 1) f = off n f + 1"
  using off_sub [of n f 1] by simp

lemma off_plus: "k \<le> off n f \<Longrightarrow> off (n + of_nat k) f = off n f - k"
  using off_add [of "of_nat k" n f] off_lt [of n f] by (simp add: unat_of_nat)

lemma off_of_plus: "k < 65536 \<Longrightarrow> off n (n + of_nat k) = k"
  by (simp add: off_def unat_of_nat)

lemma nums_full:
  assumes "nums_ok W n high L ns" "L + length ns = W"
  shows "ns = []"
proof (rule ccontr)
  assume "ns \<noteq> []"
  have d: "distinct (map (off n) ns)" using assms unfolding nums_ok_def by (meson strict_sorted_iff)
  have "set (map (off n) ns) \<subseteq> {1..<W - L}" using assms(1) by (auto simp: nums_ok_def)
  then have "card (set (map (off n) ns)) \<le> W - L - 1" using card_mono [of "{1..<W - L}"] by simp
  then have "length ns \<le> W - L - 1" using d by (simp only: distinct_card length_map)
  moreover have "W - L \<noteq> 0" using assms \<open>ns \<noteq> []\<close> by auto
  ultimately show False using assms by linarith
qed

lemma nums_later:
  assumes ok: "nums_ok W n high L ns" and f: "0 < off n f" "off n f + L < W" "f \<notin> set ns" and W: "W \<le> 96"
  defines "P \<equiv> \<lambda>g. RPC_DG_FRAGNUM_IS_LT g f"
  shows "nums_ok W n (if RPC_DG_FRAGNUM_IS_LT high f then f else high) L (takeWhile P ns @ f # dropWhile P ns)"
proof -
  have P: "P g \<longleftrightarrow> off n g < off n f" if "g \<in> set ns" for g
    unfolding P_def using that ok f W by (intro fragnum_lt) (auto simp: nums_ok_def)
  have s: "sorted_wrt (<) (map (off n) ns)" using ok by (simp add: nums_ok_def)
  have t: "\<forall>g\<in>set (takeWhile P ns). off n g < off n f"
    using P set_takeWhileD by fast
  have d: "\<forall>g\<in>set (dropWhile P ns). off n f < off n g"
  proof (cases "dropWhile P ns")
    case (Cons g gs)
    have g: "g \<in> set ns" using Cons by (metis list.set_intros(1) set_dropWhileD)
    have "\<not> P g" using Cons by (metis dropWhile_eq_Cons_conv)
    then have "off n f \<le> off n g" using P [OF g] by simp
    moreover have "f \<noteq> g" using g f(3) by blast
    ultimately have fg: "off n f < off n g" using off_inj [of n f g] by linarith
    have "sorted_wrt (<) (map (off n) (takeWhile P ns @ dropWhile P ns))" using s by simp
    then have "\<forall>x\<in>set gs. off n g < off n x" unfolding Cons by (simp add: sorted_wrt_append)
    then show ?thesis using fg Cons by auto
  next
    case Nil
    show ?thesis unfolding Nil by simp
  qed
  have sd: "sorted_wrt (<) (map (off n) (takeWhile P ns @ f # dropWhile P ns))"
  proof -
    have "sorted_wrt (<) (map (off n) (takeWhile P ns) @ map (off n) (dropWhile P ns))"
      using s by (simp flip: map_append)
    then show ?thesis using t d by (auto simp: sorted_wrt_append)
  qed
  have st: "set (takeWhile P ns @ f # dropWhile P ns) = insert f (set ns)"
    using takeWhile_dropWhile_id [of P ns] by (metis Un_insert_right set_append list.simps(15))
  have hi: "off (n - 1) high < 32768" using nums_high(1) [OF ok] W by simp
  have f1: "off (n - 1) f = off n f + 1" using f W by (intro off_minus_1) simp
  have lt: "RPC_DG_FRAGNUM_IS_LT high f \<longleftrightarrow> off (n - 1) high < off (n - 1) f"
    using hi f1 f W by (intro fragnum_lt) auto
  have top: "(if RPC_DG_FRAGNUM_IS_LT high f then f else high) = last (takeWhile P ns @ f # dropWhile P ns)"
  proof (cases "dropWhile P ns")
    case Nil
    then have tk: "takeWhile P ns = ns" using takeWhile_dropWhile_id [of P ns] by simp
    have "off (n - 1) high < off (n - 1) f"
    proof (cases "ns = []")
      case False
      then have "high \<in> set ns" "off n high < off n f" using t ok unfolding tk by (auto simp: nums_ok_def)
      then show ?thesis using off_minus_1 [of n high] f1 f W by simp
    qed (use ok f1 in \<open>simp add: nums_ok_def\<close>)
    then show ?thesis unfolding Nil lt by simp
  next
    case (Cons g gs)
    have l: "last (takeWhile P ns @ f # g # gs) = last ns" "ns \<noteq> []"
      using takeWhile_dropWhile_id [of P ns] unfolding Cons by (metis last_appendR last_ConsR list.distinct(1), auto)
    then have h: "high = last ns" "high \<in> set (dropWhile P ns)" using ok takeWhile_dropWhile_id [of P ns] unfolding Cons
      by (simp add: nums_ok_def, metis (no_types) Cons last_appendR last_in_set list.distinct(1) nums_ok_def)
    then have "off n f < off n high" using d by blast
    moreover have "off n high + L < W" using h(1) l(2) ok by (simp add: nums_ok_def)
    then have "off (n - 1) high = off n high + 1" using W by (intro off_minus_1) simp
    ultimately show ?thesis unfolding Cons l(1) lt using f1 h(1) by simp
  qed
  define h2 where "h2 = (if RPC_DG_FRAGNUM_IS_LT high f then f else high)"
  show ?thesis unfolding nums_ok_def st h2_def [symmetric]
  proof (intro conjI)
    show "\<forall>g\<in>insert f (set ns). 0 < off n g \<and> off n g + L < W" using f ok by (simp add: nums_ok_def)
    show "\<forall>g\<in>insert f (set ns). off (n - 1) g \<le> off (n - 1) h2"
      using nums_high(2) [OF ok] lt by (auto simp: h2_def intro: less_imp_le order.trans)
    show "off (n - 1) h2 \<le> W" using nums_high(1) [OF ok] f1 f by (simp add: h2_def)
    show "h2 = (if takeWhile P ns @ f # dropWhile P ns = [] then n - 1 else last (takeWhile P ns @ f # dropWhile P ns))"
      unfolding h2_def top by simp
  qed (fact sd)
qed

lemma run_len_stop:
  "run_len n ns < length ns \<Longrightarrow> ns ! run_len n ns \<noteq> n + of_nat (run_len n ns)"
  by (induction n ns rule: run_len.induct) (auto simp: add.assoc)

lemma ascending_ge:
  assumes s: "sorted_wrt (<) (map (off n) ns)" and p: "\<forall>f\<in>set ns. 0 < off n f" and i: "i < length ns"
  shows "Suc i \<le> off n (ns ! i)"
  using i
proof (induction i)
  case 0
  then show ?case using p nth_mem [of 0 ns] by (simp add: Suc_le_eq)
next
  case (Suc i)
  have "off n (ns ! i) < off n (ns ! Suc i)"
    using sorted_wrt_nth_less [OF s, of i "Suc i"] Suc.prems by simp
  then show ?case using Suc by simp
qed

lemma run_len_rest:
  assumes s: "sorted_wrt (<) (map (off n) ns)" and p: "\<forall>f\<in>set ns. 0 < off n f"
    and f: "f \<in> set (drop (run_len (n + 1) ns) ns)" and l: "length ns < 65535"
  shows "Suc (run_len (n + 1) ns) < off n f"
proof -
  define k where "k = run_len (n + 1) ns"
  obtain j where j: "j < length (drop k ns)" "f = drop k ns ! j"
    using f unfolding k_def by (metis in_set_conv_nth)
  define i where "i = k + j"
  have i: "k \<le> i" "i < length ns" "f = ns ! i" "k < length ns" using j by (auto simp: i_def)
  have nk: "ns ! k \<noteq> n + 1 + of_nat k" using run_len_stop [of "n + 1" ns] i by (simp add: k_def)
  have o: "off n (n + of_nat (Suc k)) = Suc k" using i l by (intro off_of_plus) simp
  have "off n (ns ! k) \<noteq> Suc k"
  proof
    assume "off n (ns ! k) = Suc k"
    then have "off n (ns ! k) = off n (n + of_nat (Suc k))" using o by simp
    then have "ns ! k = n + of_nat (Suc k)" by (simp only: off_inj)
    then show False using nk by simp
  qed
  then have "Suc k < off n (ns ! k)" using ascending_ge [OF s p i(4)] by simp
  also have "off n (ns ! k) \<le> off n (ns ! i)"
    using sorted_wrt_nth_less [OF s, of k i] i by (cases "k = i") auto
  finally show ?thesis using i by (simp add: k_def)
qed

lemma nums_length:
  assumes "nums_ok W n high L ns"
  shows "length ns \<le> W"
proof -
  have d: "distinct (map (off n) ns)" using assms unfolding nums_ok_def by (meson strict_sorted_iff)
  have "set (map (off n) ns) \<subseteq> {..<W}" using assms by (auto simp: nums_ok_def)
  then have "card (set (map (off n) ns)) \<le> W" using card_mono [of "{..<W}"] by simp
  then show ?thesis using d by (simp only: distinct_card length_map)
qed

lemma nums_next_high:
  assumes ok: "nums_ok W n high L ns" and W: "W \<le> 96" "0 < W"
  defines "h \<equiv> if RPC_DG_FRAGNUM_IS_LT high n then n else high"
  shows "1 \<le> off (n - 1) h" "off (n - 1) h \<le> W" "f \<in> set ns \<Longrightarrow> off (n - 1) f \<le> off (n - 1) h"
proof -
  note hi = nums_high(1) [OF ok]
  have n1: "off (n - 1) n = 1" by (simp add: off_def)
  have lt: "RPC_DG_FRAGNUM_IS_LT high n \<longleftrightarrow> off (n - 1) high < 1"
    using fragnum_lt(1) [of "n - 1" high n] hi W n1 by simp
  have z: "high = n - 1 \<or> 1 \<le> off (n - 1) high" using off_0_iff [of "n - 1" high] by linarith
  show "1 \<le> off (n - 1) h" "off (n - 1) h \<le> W" using hi W n1 lt z by (auto simp: h_def)
  assume "f \<in> set ns"
  then have "off (n - 1) f \<le> off (n - 1) high" by (rule nums_high(2) [OF ok])
  then show "off (n - 1) f \<le> off (n - 1) h" using n1 lt by (auto simp: h_def)
qed

lemma nums_next:
  assumes ok: "nums_ok W n high L ns" and W: "W \<le> 96" "0 < W"
  defines "k \<equiv> run_len (n + 1) ns" and "h \<equiv> if RPC_DG_FRAGNUM_IS_LT high n then n else high"
  shows "nums_ok W (n + 1 + of_nat k) h (L + 1 + k) (drop k ns)"
proof -
  define m where "m = n + 1 + of_nat k"
  have N: "m = n + of_nat (Suc k)" by (simp add: m_def)
  have s: "sorted_wrt (<) (map (off n) ns)" and p: "\<forall>f\<in>set ns. 0 < off n f" using ok by (simp_all add: nums_ok_def)
  have k: "k \<le> length ns" unfolding k_def by (rule run_len_le)
  have rest: "Suc k < off n f" if "f \<in> set (drop k ns)" for f
    using run_len_rest [OF s p, of f] that nums_length [OF ok] W by (simp add: k_def)
  have in_ns: "f \<in> set ns" if "f \<in> set (drop k ns)" for f using that by (rule in_set_dropD)
  have f1: "off (n - 1) f = off n f + 1" if "f \<in> set ns" for f
    using that ok W by (intro off_minus_1) (auto simp: nums_ok_def)
  have offN: "off m f = off n f - Suc k" if "f \<in> set (drop k ns)" for f
    unfolding N using rest [OF that] by (intro off_plus) simp
  have off1: "off (m - 1) f = off n f - k" if "f \<in> set (drop k ns)" for f
  proof -
    have "m - 1 = n + of_nat k" by (simp add: m_def)
    then show ?thesis using rest [OF that] by (simp only:) (intro off_plus, simp)
  qed
  note hh = nums_next_high [OF ok W, folded h_def]
  have kh: "k \<le> off (n - 1) h - 1"
  proof (cases k)
    case (Suc i)
    then have i: "i < length ns" using k by simp
    show ?thesis using hh(3) [of "ns ! i"] ascending_ge [OF s p i] f1 [of "ns ! i"] i Suc by simp
  qed simp
  have offh: "off (m - 1) h = off (n - 1) h - Suc k"
  proof -
    have "m - 1 = (n - 1) + of_nat (Suc k)" by (simp add: m_def)
    then show ?thesis using kh hh(1) by (simp only:) (intro off_plus, simp)
  qed
  have sd: "sorted_wrt (<) (map (off m) (drop k ns))"
  proof -
    have "sorted_wrt (\<lambda>a b. off n a < off n b) (drop k ns)"
      using s by (simp add: sorted_wrt_map)
    then have "sorted_wrt (\<lambda>a b. off m a < off m b) (drop k ns)"
    proof (rule sorted_wrt_mono_rel [rotated])
      fix x y assume "x \<in> set (drop k ns)" "y \<in> set (drop k ns)" "off n x < off n y"
      then show "off m x < off m y" using offN [of x] offN [of y] rest [of x] by simp
    qed
    then show ?thesis by (simp add: sorted_wrt_map)
  qed
  have top: "h = (if drop k ns = [] then m - 1 else last (drop k ns))"
  proof (cases "ns = []")
    case True
    then show ?thesis using ok by (simp add: nums_ok_def h_def m_def k_def RPC_DG_FRAGNUM_IS_LT_def)
  next
    case False
    then have l: "high = last ns" "last ns \<in> set ns" using ok by (simp_all add: nums_ok_def)
    have "\<not> RPC_DG_FRAGNUM_IS_LT high n"
      using fragnum_lt(1) [of "n - 1" high n] f1 [OF l(2)] p l ok W by (auto simp: nums_ok_def off_def)
    then have hl: "h = last ns" using l(1) by (simp add: h_def)
    show ?thesis
    proof (cases "drop k ns = []")
      case True
      then have kk: "k = length ns" using k by simp
      then have "last ns = ns ! (k - 1)" "k - 1 < run_len (n + 1) ns" using False by (simp_all add: last_conv_nth k_def [symmetric])
      then have "last ns = n + 1 + of_nat (k - 1)" using run_len_nth [of "k - 1" "n + 1" ns] by simp
      moreover have "(of_nat (k - 1) :: u16) = of_nat k - 1" using False kk by (cases ns) simp_all
      ultimately show ?thesis using True hl by (simp add: m_def)
    qed (simp add: hl)
  qed
  show ?thesis unfolding nums_ok_def m_def [symmetric]
  proof (intro conjI ballI)
    show "h = (if drop k ns = [] then m - 1 else last (drop k ns))" by (rule top)
  next
    fix f assume f: "f \<in> set (drop k ns)"
    show "0 < off m f" using offN [OF f] rest [OF f] by simp
    have "off n f + L < W" using ok in_ns [OF f] by (auto simp: nums_ok_def)
    then show "off m f + (L + 1 + k) < W" using offN [OF f] rest [OF f] by simp
    show "off (m - 1) f \<le> off (m - 1) h"
      using off1 [OF f] offh hh(3) [OF in_ns [OF f]] f1 [OF in_ns [OF f]] rest [OF f] by simp
  next
    show "off (m - 1) h \<le> W" using offh hh(2) by simp
  qed (fact sd)
qed

lemma nums_not_next: "nums_ok W n high L ns \<Longrightarrow> n \<notin> set ns"
  by (auto simp: nums_ok_def)

section \<open>Linking an element in\<close>

lemma distinct_heads: "distinct (concat fs) \<Longrightarrow> \<forall>f\<in>set fs. f \<noteq> [] \<Longrightarrow> distinct (map hd fs)"
proof (induction fs)
  case (Cons f fs)
  have f: "hd f \<in> set f" using Cons.prems by simp
  have s: "set (map hd fs) \<subseteq> set (concat fs)" using Cons.prems by (auto intro!: hd_in_set)
  have "set f \<inter> set (concat fs) = {}" "distinct (concat fs)" using Cons.prems(1) by auto
  then have "hd f \<notin> set (map hd fs)" "distinct (map hd fs)" using f s Cons.IH Cons.prems(2) by (blast, simp)
  then show ?case by simp
qed simp

lemma heads_in: "\<forall>f\<in>set fs. f \<noteq> [] \<Longrightarrow> r \<notin> set (concat fs) \<Longrightarrow> r \<notin> set (map hd fs)"
  by (auto dest: hd_in_set)

lemma end_of_next:
  assumes "rseg h p (map hd (A @ B)) NULL" "A \<noteq> []"
  shows "\<exists>e. h (end_of NULL A) = Some e \<and> rqe_next e = first_of B \<and> end_of NULL A \<noteq> NULL"
proof -
  obtain A0 l where A: "A = A0 @ [l]" using assms(2) by (cases A rule: rev_cases) auto
  show ?thesis using assms(1) unfolding A by (auto dest: rseg_first)
qed

lemma link_in:
  assumes s: "rseg h p (map hd (A @ B)) NULL" and d: "distinct (map hd (A @ B))"
    and r: "r \<notin> set (map hd (A @ B))" "r \<noteq> NULL" "h r = Some e"
  shows "A = [] \<Longrightarrow> \<exists>h'. set_rqe_next r (first_of B) h = Some h' \<and> rseg h' r (r # map hd B) NULL"
    and "A \<noteq> [] \<Longrightarrow> \<exists>h1 h2. set_rqe_next r (first_of B) h = Some h1
      \<and> set_rqe_next (end_of NULL A) r h1 = Some h2 \<and> rseg h2 p (map hd A @ r # map hd B) NULL"
proof -
  let ?h1 = "h(r \<mapsto> e\<lparr>rqe_next := first_of B\<rparr>)"
  have h1: "set_rqe_next r (first_of B) h = Some ?h1" using r by (simp add: set_rqe_next_def)
  {
    assume A: "A = []"
    have "rseg h (first_of B) (map hd B) NULL" using s rseg_first [of h p B] unfolding A by simp
    then have "rseg ?h1 r (r # map hd B) NULL" using r unfolding A by simp
    then show "\<exists>h'. set_rqe_next r (first_of B) h = Some h' \<and> rseg h' r (r # map hd B) NULL"
      using h1 by blast
  }
  assume "A \<noteq> []"
  then obtain A0 l where A: "A = A0 @ [l]" by (cases A rule: rev_cases) auto
  obtain el where l: "rseg h p (map hd A0) (hd l)" "hd l \<noteq> NULL" "h (hd l) = Some el"
    "rseg h (rqe_next el) (map hd B) NULL"
    using s unfolding A by auto
  have B: "rqe_next el = first_of B" using rseg_first [OF l(4)] .
  let ?h2 = "?h1(hd l \<mapsto> el\<lparr>rqe_next := r\<rparr>)"
  have rl: "r \<noteq> hd l" using r unfolding A by auto
  have h2: "set_rqe_next (end_of NULL A) r ?h1 = Some ?h2"
    using l rl unfolding A by (simp add: set_rqe_next_def)
  have dl: "hd l \<notin> set (map hd A0)" "hd l \<notin> set (map hd B)" using d unfolding A by auto
  have dr: "r \<notin> set (map hd A0)" "r \<notin> set (map hd B)" using r unfolding A by auto
  have "rseg ?h2 p (map hd A0) (hd l)" using l dl dr by (simp del: set_map)
  moreover have "rseg ?h2 (first_of B) (map hd B) NULL" using l(4) B dl dr by (simp del: set_map)
  ultimately have "rseg ?h2 p (map hd A @ r # map hd B) NULL" using l r(2) rl unfolding A by auto
  then show "\<exists>h1 h2. set_rqe_next r (first_of B) h = Some h1
      \<and> set_rqe_next (end_of NULL A) r h1 = Some h2 \<and> rseg h2 p (map hd A @ r # map hd B) NULL"
    using h1 h2 by blast
qed

section \<open>Well-formed receive queues\<close>

text \<open>
  \<open>ins\<close> are the fragments in order, \<open>oos\<close> those behind a gap.  Only the first in-order fragment
  may have lost its header, when its first buffer has been received already.
\<close>

definition q_shape :: "rheap \<Rightarrow> addr \<Rightarrow> addr \<Rightarrow> addr list list \<Rightarrow> addr list list \<Rightarrow> bool" where
  "q_shape h first li ins oos \<longleftrightarrow>
     (\<forall>f\<in>set (ins @ oos). frag_ok h f) \<and> distinct (concat (ins @ oos)) \<and>
     rseg h first (map hd (ins @ oos)) NULL \<and> li = end_of NULL ins \<and>
     (\<forall>f\<in>set (tl ins @ oos). has_hdr h f)"

lemma q_shape_facts:
  assumes "q_shape h first li ins oos"
  shows "\<forall>f\<in>set (ins @ oos). f \<noteq> [] \<and> hd f \<noteq> NULL" "distinct (map hd (ins @ oos))"
    "li = NULL \<longleftrightarrow> ins = []" "first = first_of (ins @ oos)" "first = NULL \<longleftrightarrow> ins @ oos = []"
    "li = end_of NULL ins"
proof -
  show n: "\<forall>f\<in>set (ins @ oos). f \<noteq> [] \<and> hd f \<noteq> NULL" using assms by (auto simp: q_shape_def frag_ok_def)
  show "distinct (map hd (ins @ oos))" using assms n by (intro distinct_heads) (auto simp: q_shape_def)
  show li: "li = end_of NULL ins" using assms by (simp add: q_shape_def)
  show "li = NULL \<longleftrightarrow> ins = []" using n unfolding li by (cases ins rule: rev_cases) auto
  show f: "first = first_of (ins @ oos)" using assms rseg_first unfolding q_shape_def by blast
  show "first = NULL \<longleftrightarrow> ins @ oos = []" using n unfolding f first_of_def by (cases "ins @ oos") auto
qed

text \<open>A new element with its buffers, on no queue.\<close>

definition new_frag :: "rheap \<Rightarrow> addr list list \<Rightarrow> addr list \<Rightarrow> bool" where
  "new_frag h fs f \<longleftrightarrow> frag_ok h f \<and> has_hdr h f \<and> distinct f \<and> set f \<inter> set (concat fs) = {}
     \<and> (\<forall>e. h (hd f) = Some e \<longrightarrow> rqe_next e = NULL)"

lemma q_shape_links:
  assumes "links_only h h'" "q_shape h first li ins oos" "new_frag h (ins @ oos) f"
    and "rseg h' first' (map hd (A @ f # B)) NULL" "A @ B = ins @ oos"
    and "set (ins' @ oos') = set (A @ f # B)" "ins' @ oos' = A @ f # B" "set (tl ins') \<subseteq> set (tl ins @ oos) \<union> {f}"
    "set oos' \<subseteq> set oos \<union> {f}"
  shows "q_shape h' first' (end_of NULL ins') ins' oos'"
proof -
  note lf = links_facts [OF assms(1)]
  have "set (ins' @ oos') = insert f (set (ins @ oos))" unfolding assms(5) [symmetric] assms(6) by simp
  then have "\<forall>g\<in>set (ins' @ oos'). frag_ok h' g"
    using assms(2,3) unfolding lf q_shape_def new_frag_def by (simp only: ball_simps) blast
  moreover have "distinct (concat (ins' @ oos'))"
  proof -
    have "distinct (concat (A @ B))" "set f \<inter> set (concat (A @ B)) = {}" "distinct f"
      using assms(2,3) unfolding assms(5) q_shape_def new_frag_def by auto
    then have "distinct (concat (A @ f # B))" by auto
    then show ?thesis unfolding assms(7) .
  qed
  moreover have "\<forall>g\<in>set (tl ins' @ oos'). has_hdr h' g"
    using assms(2,3,8,9) unfolding lf q_shape_def new_frag_def by auto
  ultimately show ?thesis unfolding q_shape_def assms(7) using assms(4) by simp
qed

lemma new_frag_facts:
  assumes "new_frag h fs f" "\<forall>g\<in>set fs. g \<noteq> []"
  shows "\<exists>e hp. h (hd f) = Some e \<and> hdrp e = Some hp \<and> hdr_fragnum hp = fnum h f \<and> rqe_next e = NULL"
    "hd f \<noteq> NULL" "f \<noteq> []" "hd f \<notin> set (map hd fs)"
proof -
  show "\<exists>e hp. h (hd f) = Some e \<and> hdrp e = Some hp \<and> hdr_fragnum hp = fnum h f \<and> rqe_next e = NULL"
    using assms(1) by (auto simp: new_frag_def has_hdr_def fnum_def)
  show f: "hd f \<noteq> NULL" "f \<noteq> []" using assms(1) by (auto simp: new_frag_def frag_ok_def)
  have "hd f \<in> set f" using f(2) by simp
  then have "hd f \<notin> set (concat fs)" using assms(1) by (auto simp: new_frag_def)
  then show "hd f \<notin> set (map hd fs)" using heads_in [of fs "hd f"] assms(2) by blast
qed

lemma shape_insert:
  assumes sh: "q_shape h first li ins oos" and new: "new_frag h (ins @ oos) r"
    and AB: "A @ B = ins @ oos" and h': "links_only h h'" "rseg h' first' (map hd (A @ r # B)) NULL"
    and ins': "ins' @ oos' = A @ r # B" "set (tl ins') \<subseteq> set (tl ins @ oos) \<union> {r}" "set oos' \<subseteq> set oos \<union> {r}"
  shows "q_shape h' first' (end_of NULL ins') ins' oos'"
  using q_shape_links [OF h'(1) sh new h'(2) AB _ ins'] ins'(1) by simp

lemma insert_next_ok:
  fixes c :: dg_rcall and r :: "addr list"
  defines "q \<equiv> rq c" and "h \<equiv> rqes c"
  assumes sh: "q_shape h (rq_head q) (last_inorder q) ins oos" and new: "new_frag h (ins @ oos) r"
  defines "k \<equiv> run_len (rq_next_fragnum q + 1) (map (fnum h) oos)"
  shows "\<exists>h'. insert_next (hd r) f c =
      Some (c\<lparr>rq := q\<lparr>rq_head := first_of (ins @ r # oos), last_inorder := end_of NULL (ins @ r # take k oos),
                      rq_next_fragnum := rq_next_fragnum q + 1 + of_nat k,
                      head_fragnum := if ins = [] then f else head_fragnum q,
                      inorder_len := inorder_len q + 1 + of_nat k\<rparr>, rqes := h'\<rparr>)
    \<and> links_only h h'
    \<and> q_shape h' (first_of (ins @ r # oos)) (end_of NULL (ins @ r # take k oos)) (ins @ r # take k oos) (drop k oos)"
proof -
  note qf = q_shape_facts [OF sh]
  have ne: "\<forall>g\<in>set (ins @ oos). g \<noteq> []" using qf(1) by blast
  note nf = new_frag_facts [OF new ne]
  obtain e where e: "h (hd r) = Some e" using nf(1) by blast
  have s: "rseg h (rq_head q) (map hd (ins @ oos)) NULL" using sh by (simp add: q_shape_def)
  note li = link_in [OF s qf(2) nf(4) nf(2) e]
  have hdrs: "\<forall>g\<in>set oos. has_hdr h g" using sh by (auto simp: q_shape_def)
  have fin: "inorder_scan h' (hd r) (first_of oos) (rq_next_fragnum q + 1) (inorder_len q + 1)
      = Some (end_of NULL (ins @ r # take k oos), rq_next_fragnum q + 1 + of_nat k, inorder_len q + 1 + of_nat k)"
    "q_shape h' (first_of (ins @ r # oos)) (end_of NULL (ins @ r # take k oos)) (ins @ r # take k oos) (drop k oos)"
    if L: "links_only h h'" and R: "rseg h' (first_of (ins @ r # oos)) (map hd (ins @ r # oos)) NULL" for h'
  proof -
    obtain e' where "h' (hd r) = Some e'" "rseg h' (rqe_next e') (map hd oos) NULL" using R by auto
    then have o: "rseg h' (first_of oos) (map hd oos) NULL" using rseg_first [of h' "rqe_next e'" oos] by simp
    have hd': "\<forall>g\<in>set oos. has_hdr h' g" using hdrs links_facts(2) [OF L] by simp
    have m: "map (fnum h') oos = map (fnum h) oos" using links_facts(3) [OF L] by simp
    show "inorder_scan h' (hd r) (first_of oos) (rq_next_fragnum q + 1) (inorder_len q + 1)
      = Some (end_of NULL (ins @ r # take k oos), rq_next_fragnum q + 1 + of_nat k, inorder_len q + 1 + of_nat k)"
      unfolding inorder_scan_run [OF o hd'] m by (simp add: Let_def k_def end_of_append)
    show "q_shape h' (first_of (ins @ r # oos)) (end_of NULL (ins @ r # take k oos)) (ins @ r # take k oos) (drop k oos)"
    proof (rule shape_insert [OF sh new refl L R])
      show "(ins @ r # take k oos) @ drop k oos = ins @ r # oos" by simp
      show "set (tl (ins @ r # take k oos)) \<subseteq> set (tl ins @ oos) \<union> {r}"
        by (cases ins) (auto dest: in_set_takeD)
      show "set (drop k oos) \<subseteq> set oos \<union> {r}" by (auto dest: in_set_dropD)
    qed
  qed
  show ?thesis
  proof (cases "ins = []")
    case True
    obtain h1 where h1: "set_rqe_next (hd r) (first_of oos) h = Some h1" "rseg h1 (hd r) (hd r # map hd oos) NULL"
      using li(1) [OF True] by blast
    have lo: "links_only h h1" by (rule links_only_set [OF h1(1)])
    have rs: "rseg h1 (first_of (ins @ r # oos)) (map hd (ins @ r # oos)) NULL" using h1(2) True by simp
    have hd0: "rq_head q = first_of oos" using qf(4) True by simp
    obtain e1 where e1: "h1 (hd r) = Some e1" "rseg h1 (rqe_next e1) (map hd oos) NULL" using h1(2) by auto
    have n1: "rqe_next e1 = first_of oos" using rseg_first [OF e1(2)] .
    have l0: "last_inorder q = NULL" using qf(3) True by simp
    have "insert_next (hd r) f c =
      Some (c\<lparr>rq := q\<lparr>rq_head := first_of (ins @ r # oos), last_inorder := end_of NULL (ins @ r # take k oos),
                      rq_next_fragnum := rq_next_fragnum q + 1 + of_nat k,
                      head_fragnum := if ins = [] then f else head_fragnum q,
                      inorder_len := inorder_len q + 1 + of_nat k\<rparr>, rqes := h1\<rparr>)"
      unfolding insert_next_def Let_def q_def [symmetric] h_def [symmetric]
      using l0 hd0 h1(1) e1(1) n1 nf(2) fin(1) [OF lo rs] True by simp
    then show ?thesis using lo fin(2) [OF lo rs] by blast
  next
    case False
    obtain h1 h2 where h12: "set_rqe_next (hd r) (first_of oos) h = Some h1"
      "set_rqe_next (end_of NULL ins) (hd r) h1 = Some h2"
      "rseg h2 (rq_head q) (map hd ins @ hd r # map hd oos) NULL"
      using li(2) [OF False] by blast
    have lo: "links_only h h2"
      by (rule links_only_trans [OF links_only_set [OF h12(1)] links_only_set [OF h12(2)]])
    have hd0: "rq_head q = first_of (ins @ r # oos)" using qf(4) False by (simp add: first_of_append)
    have rs: "rseg h2 (first_of (ins @ r # oos)) (map hd (ins @ r # oos)) NULL" using h12(3) hd0 by simp
    obtain e2 where e2: "h2 (hd r) = Some e2" "rseg h2 (rqe_next e2) (map hd oos) NULL" using h12(3) by auto
    have n2: "rqe_next e2 = first_of oos" using rseg_first [OF e2(2)] .
    obtain el where el: "h (end_of NULL ins) = Some el" "rqe_next el = first_of oos" "end_of NULL ins \<noteq> NULL"
      using end_of_next [OF s False] by blast
    have l0: "last_inorder q = end_of NULL ins" by (rule qf(6))
    have "insert_next (hd r) f c = Some (c\<lparr>rq := q\<lparr>last_inorder := end_of NULL (ins @ r # take k oos),
                      rq_next_fragnum := rq_next_fragnum q + 1 + of_nat k,
                      inorder_len := inorder_len q + 1 + of_nat k\<rparr>, rqes := h2\<rparr>)"
      unfolding insert_next_def Let_def q_def [symmetric] h_def [symmetric]
      using l0 el h12(1,2) e2(1) n2 nf(2) fin(1) [OF lo rs] by simp
    moreover have "q\<lparr>last_inorder := x, rq_next_fragnum := y, inorder_len := z\<rparr> =
       q\<lparr>rq_head := first_of (ins @ r # oos), last_inorder := x, rq_next_fragnum := y,
         head_fragnum := if ins = [] then f else head_fragnum q, inorder_len := z\<rparr>" for x y z
      using hd0 False by (cases q) simp
    ultimately show ?thesis using lo fin(2) [OF lo rs] by metis
  qed
qed

lemma first_not_tail:
  assumes "distinct (map hd (A @ B))" "A \<noteq> []" "\<forall>f\<in>set (A @ B). hd f \<noteq> NULL"
  shows "first_of B \<noteq> first_of (A @ B)"
proof (cases B)
  case (Cons b bs)
  then show ?thesis using assms by (cases A) auto
next
  case Nil
  then show ?thesis using assms by (cases A) auto
qed

lemma insert_later_ok:
  fixes c :: dg_rcall and r :: "addr list" and f :: u16
  defines "q \<equiv> rq c" and "h \<equiv> rqes c"
  assumes sh: "q_shape h (rq_head q) (last_inorder q) ins oos" and new: "new_frag h (ins @ oos) r"
  defines "T \<equiv> takeWhile (\<lambda>g. RPC_DG_FRAGNUM_IS_LT (fnum h g) f) oos"
    and "D \<equiv> dropWhile (\<lambda>g. RPC_DG_FRAGNUM_IS_LT (fnum h g) f) oos"
  shows "D \<noteq> [] \<and> fnum h (hd D) = f \<Longrightarrow> insert_later (hd r) f c = Some (False, c)"
    and "\<not> (D \<noteq> [] \<and> fnum h (hd D) = f) \<Longrightarrow> \<exists>h'. insert_later (hd r) f c =
      Some (True, c\<lparr>rq := q\<lparr>rq_head := first_of (ins @ T @ r # D),
                            head_fragnum := if ins @ T = [] then f else head_fragnum q\<rparr>, rqes := h'\<rparr>)
    \<and> links_only h h' \<and> q_shape h' (first_of (ins @ T @ r # D)) (end_of NULL ins) ins (T @ r # D)"
proof -
  note qf = q_shape_facts [OF sh]
  have ne: "\<forall>g\<in>set (ins @ oos). g \<noteq> []" using qf(1) by blast
  note nf = new_frag_facts [OF new ne]
  obtain e where e: "h (hd r) = Some e" "rqe_next e = NULL" using nf(1) by blast
  have TD: "oos = T @ D" by (simp add: T_def D_def)
  have s: "rseg h (rq_head q) (map hd (ins @ oos)) NULL" using sh by (simp add: q_shape_def)
  have o: "rseg h (first_of oos) (map hd oos) NULL"
    using s rseg_first [of h _ oos] by auto
  have hdrs: "\<forall>g\<in>set oos. has_hdr h g" using sh by (auto simp: q_shape_def)
  have scan: "place_scan h f prev (first_of oos) = Some (end_of prev T, first_of D)" for prev
    unfolding place_scan_run [OF o hdrs] by (simp add: Let_def T_def D_def)
  have start: "(if last_inorder q = NULL then Some (NULL, rq_head q)
      else do { l \<leftarrow> rget (last_inorder q) h; Some (last_inorder q, rqe_next l) }) = Some (end_of NULL ins, first_of oos)"
    if "ins @ oos \<noteq> []"
  proof (cases "ins = []")
    case True
    then show ?thesis using qf(3,4) by simp
  next
    case False
    then show ?thesis using qf(3,6) end_of_next [OF s False] by auto
  qed
  have dup: "(if first_of D = NULL then Some False
      else do { hp \<leftarrow> rhdr (first_of D) h; Some (f = hdr_fragnum hp) }) = Some (D \<noteq> [] \<and> fnum h (hd D) = f)"
  proof (cases D)
    case (Cons d ds)
    have d: "d \<in> set oos" unfolding TD Cons by simp
    then have "hd d \<noteq> NULL" using qf(1) by simp
    moreover obtain ed hp where "h (hd d) = Some ed" "hdrp ed = Some hp"
      using hdrs d by (auto simp: has_hdr_def)
    ultimately show ?thesis unfolding Cons by (auto simp: rhdr_def fnum_def)
  qed simp
  have hd0: "rq_head q = NULL \<longleftrightarrow> ins @ oos = []" by (rule qf(5))
  have eq: "insert_later (hd r) f c = (if D \<noteq> [] \<and> fnum h (hd D) = f then Some (False, c)
      else do {
        h \<leftarrow> set_rqe_next (hd r) (first_of D) h;
        if first_of D = rq_head q then Some (True, c\<lparr>rq := q\<lparr>rq_head := hd r, head_fragnum := f\<rparr>, rqes := h\<rparr>)
        else do { h \<leftarrow> set_rqe_next (end_of (end_of NULL ins) T) (hd r) h; Some (True, c\<lparr>rqes := h\<rparr>) } })"
    if n: "ins @ oos \<noteq> []"
  proof -
    have n': "(rq_head q = NULL) = False" using hd0 n by blast
    show ?thesis
      unfolding insert_later_def Let_def q_def [symmetric] h_def [symmetric] n' if_False start [OF n]
        Option.bind.simps(2) prod.case scan dup ..
  qed
  {
    assume d: "D \<noteq> [] \<and> fnum h (hd D) = f"
    then have n: "ins @ oos \<noteq> []" unfolding TD by simp
    show "insert_later (hd r) f c = Some (False, c)" unfolding eq [OF n] if_P [OF d] ..
  }
  assume nd: "\<not> (D \<noteq> [] \<and> fnum h (hd D) = f)"
  have shape: "q_shape h' (first_of (ins @ T @ r # D)) (end_of NULL ins) ins (T @ r # D)"
    if L: "links_only h h'" and R: "rseg h' (first_of (ins @ T @ r # D)) (map hd ((ins @ T) @ r # D)) NULL" for h'
    by (rule shape_insert [OF sh new _ L R]) (auto simp: TD)
  have s': "rseg h (rq_head q) (map hd ((ins @ T) @ D)) NULL" using s by (simp only: TD append_assoc)
  have d': "distinct (map hd ((ins @ T) @ D))" using qf(2) by (simp only: TD append_assoc)
  have r': "hd r \<notin> set (map hd ((ins @ T) @ D))" using nf(4) unfolding TD append_assoc .
  note li = link_in [OF s' d' r' nf(2) e(1)]
  show "\<exists>h'. insert_later (hd r) f c =
      Some (True, c\<lparr>rq := q\<lparr>rq_head := first_of (ins @ T @ r # D),
                            head_fragnum := if ins @ T = [] then f else head_fragnum q\<rparr>, rqes := h'\<rparr>)
    \<and> links_only h h' \<and> q_shape h' (first_of (ins @ T @ r # D)) (end_of NULL ins) ins (T @ r # D)"
  proof (cases "ins @ oos = []")
    case True
    have i: "insert_later (hd r) f c = Some (True, c\<lparr>rq := q\<lparr>rq_head := hd r, head_fragnum := f\<rparr>\<rparr>)"
      unfolding insert_later_def Let_def q_def [symmetric] using hd0 True by simp
    have c: "c\<lparr>rq := x\<rparr> = c\<lparr>rq := x, rqes := h\<rparr>" for x unfolding h_def by simp
    have e0: "ins = []" "T = []" "D = []" using True TD by auto
    have "rseg h (first_of (ins @ T @ r # D)) (map hd ((ins @ T) @ r # D)) NULL" using e nf(2) e0 by simp
    then have "q_shape h (first_of (ins @ T @ r # D)) (end_of NULL ins) ins (T @ r # D)"
      using shape [of h] by simp
    moreover have "insert_later (hd r) f c =
      Some (True, c\<lparr>rq := q\<lparr>rq_head := first_of (ins @ T @ r # D),
                            head_fragnum := if ins @ T = [] then f else head_fragnum q\<rparr>, rqes := h\<rparr>)"
      unfolding i using c [of "q\<lparr>rq_head := hd r, head_fragnum := f\<rparr>"] e0 by simp
    ultimately show ?thesis using links_only_refl [of h] by blast
  next
    case n: False
    note eq = eq [OF n, unfolded if_not_P [OF nd] end_of_append [symmetric]]
    show ?thesis
    proof (cases "ins @ T = []")
      case True
      obtain h1 where h1: "set_rqe_next (hd r) (first_of D) h = Some h1" "rseg h1 (hd r) (hd r # map hd D) NULL"
        using li(1) [OF True] by blast
      have e0: "ins = []" "T = []" using True by simp_all
      have first: "first_of D = rq_head q" using qf(4) e0 TD by simp
      have lo: "links_only h h1" by (rule links_only_set [OF h1(1)])
      have rs: "rseg h1 (first_of (ins @ T @ r # D)) (map hd ((ins @ T) @ r # D)) NULL" using h1(2) e0 by simp
      have "insert_later (hd r) f c = Some (True, c\<lparr>rq := q\<lparr>rq_head := first_of (ins @ T @ r # D),
                            head_fragnum := if ins @ T = [] then f else head_fragnum q\<rparr>, rqes := h1\<rparr>)"
        unfolding eq using h1(1) first e0 by simp
      then show ?thesis using lo shape [OF lo rs] by blast
    next
      case False
      obtain h1 h2 where h12: "set_rqe_next (hd r) (first_of D) h = Some h1"
        "set_rqe_next (end_of NULL (ins @ T)) (hd r) h1 = Some h2"
        "rseg h2 (rq_head q) (map hd (ins @ T) @ hd r # map hd D) NULL"
        using li(2) [OF False] by blast
      have lo: "links_only h h2"
        by (rule links_only_trans [OF links_only_set [OF h12(1)] links_only_set [OF h12(2)]])
      have f1: "rq_head q = first_of ((ins @ T) @ D)" using qf(4) by (simp only: TD append_assoc)
      have hd1: "rq_head q = first_of (ins @ T @ r # D)" using f1 False by (auto simp: first_of_append)
      have "\<forall>g\<in>set ((ins @ T) @ D). hd g \<noteq> NULL" using qf(1) by (simp only: TD append_assoc) blast
      then have nfirst: "first_of D \<noteq> rq_head q" using first_not_tail [OF d' False] f1 by simp
      have rs: "rseg h2 (first_of (ins @ T @ r # D)) (map hd ((ins @ T) @ r # D)) NULL"
        using h12(3) hd1 by simp
      have "insert_later (hd r) f c = Some (True, c\<lparr>rqes := h2\<rparr>)"
        unfolding eq using h12(1,2) nfirst by simp
      moreover have "q\<lparr>rq_head := first_of (ins @ T @ r # D), head_fragnum := if ins @ T = [] then f else head_fragnum q\<rparr> = q"
        unfolding hd1 [symmetric] if_not_P [OF False] by simp
      moreover have "c\<lparr>rqes := h2\<rparr> = c\<lparr>rq := q, rqes := h2\<rparr>" unfolding q_def by simp
      ultimately show ?thesis using lo shape [OF lo rs] by (intro exI [of _ h2]) (simp only: simp_thms)
    qed
  qed
qed

section \<open>The selective ack mask\<close>

lemma unat_ucast_u16_u32: "unat (ucast (w :: u16) :: u32) = unat w"
  by (simp add: unsigned_ucast_eq take_bit_nat_eq_self order_less_trans [OF unat_u16_lt])

text \<open>The position of a bit: the distance of the fragment, unless its number is numerically smaller.\<close>

lemma shift_pos:
  assumes "unat n \<le> unat f"
  shows "unat (ucast (f :: u16) - ucast n :: u32) = off n f"
proof -
  have "unat (ucast f - ucast n :: u32) = unat f - unat n"
    using assms by (subst unat_sub) (simp_all add: word_le_nat_alt unat_ucast_u16_u32)
  moreover have "off n f = unat f - unat n"
    unfolding off_def using assms by (subst unat_sub) (simp_all add: word_le_nat_alt)
  ultimately show ?thesis by simp
qed

lemma shift_neg:
  assumes "unat f < unat (n :: u16)"
  shows "134215680 \<le> unat ((ucast (f :: u16) - ucast n :: u32) div 32)"
proof -
  have u: "uint (ucast f :: u32) = int (unat f)" "uint (ucast n :: u32) = int (unat n)"
    using arg_cong [OF unat_ucast_u16_u32 [of f], of int] arg_cong [OF unat_ucast_u16_u32 [of n], of int]
    by (simp_all only: of_nat_unat)
  have "int (unat (ucast f - ucast n :: u32)) = uint (ucast f - ucast n :: u32)" by simp
  also have "\<dots> = (int (unat f) - int (unat n)) mod 4294967296"
    unfolding uint_word_ariths u by simp
  also have "\<dots> = int (unat f) - int (unat n) + 4294967296"
  proof -
    have "int (unat f) < int (unat n)" "int (unat n) < 65536" "0 \<le> int (unat f)"
      using assms unat_u16_lt [of n] by linarith+
    then have "(int (unat f) - int (unat n) + 4294967296) mod 4294967296 = int (unat f) - int (unat n) + 4294967296"
      by (intro mod_pos_pos_trivial) linarith+
    then show ?thesis unfolding mod_add_self2 .
  qed
  finally have "int (unat (ucast f - ucast n :: u32)) = int (unat f) - int (unat n) + 4294967296" .
  then have "unat (ucast f - ucast n :: u32) \<ge> 4294901761"
    using unat_u16_lt [of n] by linarith
  then have "4294901761 div 32 \<le> unat (ucast f - ucast n :: u32) div 32" by (rule div_le_mono)
  then show ?thesis by (simp add: unat_div)
qed

definition mask_bit :: "u32 list \<Rightarrow> nat \<Rightarrow> bool" where
  "mask_bit m j \<longleftrightarrow> bit (m ! (j div 32)) (j mod 32)"

lemma set_mask_bit_ok:
  assumes "unat s = k" "k div 32 < length m"
  shows "\<exists>m'. set_mask_bit s m = Some m' \<and> length m' = length m \<and>
    (\<forall>j. j div 32 < length m \<longrightarrow> (mask_bit m' j \<longleftrightarrow> mask_bit m j \<or> j = k))"
proof -
  have u: "unat (s div 32) = k div 32" "unat (s mod 32) = k mod 32"
    using assms(1) by (simp_all add: unat_div unat_mod)
  have b: "bit (2 ^ (k mod 32) :: u32) (j mod 32) \<longleftrightarrow> j mod 32 = k mod 32" for j
    by (auto simp: bit_simps)
  have "mask_bit (m[k div 32 := m ! (k div 32) OR push_bit (k mod 32) 1]) j \<longleftrightarrow> mask_bit m j \<or> j = k"
    if "j div 32 < length m" for j
  proof (cases "j div 32 = k div 32")
    case True
    then have "j mod 32 = k mod 32 \<longleftrightarrow> j = k" by (metis div_mod_decomp)
    then show ?thesis using True assms(2) by (simp add: mask_bit_def bit_or_iff b)
  next
    case False
    then show ?thesis by (auto simp: mask_bit_def)
  qed
  then show ?thesis using assms(2) by (simp add: set_mask_bit_def Let_def u)
qed

lemma selack_loop_ok:
  assumes "rseg h p (map hd fs) NULL" "\<forall>f\<in>set fs. has_hdr h f"
    and "\<forall>f\<in>set fs. unat n \<le> unat (fnum h f) \<and> off n (fnum h f) div 32 < length m"
  shows "\<exists>m'. selack_loop h n p m = Some m' \<and> length m' = length m \<and>
    (\<forall>j. j div 32 < length m \<longrightarrow> (mask_bit m' j \<longleftrightarrow> mask_bit m j \<or> (\<exists>f\<in>set fs. off n (fnum h f) = j)))"
  using assms
proof (induction fs arbitrary: p m)
  case Nil
  then show ?case by (subst selack_loop.simps) simp
next
  case (Cons f fs)
  obtain e hp where e: "p = hd f" "p \<noteq> NULL" "h p = Some e" "hdrp e = Some hp"
    "rseg h (rqe_next e) (map hd fs) NULL" "fnum h f = hdr_fragnum hp"
    using Cons.prems by (auto simp: has_hdr_def fnum_def)
  have s: "unat (ucast (fnum h f) - ucast n :: u32) = off n (fnum h f)"
    using Cons.prems(3) by (intro shift_pos) simp
  obtain m1 where m1: "set_mask_bit (ucast (fnum h f) - ucast n) m = Some m1" "length m1 = length m"
    "\<forall>j. j div 32 < length m \<longrightarrow> (mask_bit m1 j \<longleftrightarrow> mask_bit m j \<or> j = off n (fnum h f))"
    using set_mask_bit_ok [OF s] Cons.prems(3) by fastforce
  obtain m2 where m2: "selack_loop h n (rqe_next e) m1 = Some m2" "length m2 = length m1"
    "\<forall>j. j div 32 < length m1 \<longrightarrow> (mask_bit m2 j \<longleftrightarrow> mask_bit m1 j \<or> (\<exists>f\<in>set fs. off n (fnum h f) = j))"
    using Cons.IH [OF e(5), of m1] Cons.prems(2,3) m1(2) by auto
  have "selack_loop h n p m = Some m2"
    using e m1(1) m2(1) by (subst selack_loop.simps) simp
  then show ?case using m1 m2 by auto
qed

lemma selack_loop_wild:
  assumes "rseg h p (map hd fs) NULL" "\<forall>f\<in>set fs. has_hdr h f"
    and "\<exists>f\<in>set fs. unat (fnum h f) < unat n" "length m < 134215680"
  shows "selack_loop h n p m = None"
  using assms
proof (induction fs arbitrary: p m)
  case (Cons f fs)
  obtain e hp where e: "p = hd f" "p \<noteq> NULL" "h p = Some e" "hdrp e = Some hp"
    "rseg h (rqe_next e) (map hd fs) NULL" "fnum h f = hdr_fragnum hp"
    using Cons.prems by (auto simp: has_hdr_def fnum_def)
  show ?case
  proof (cases "unat (fnum h f) < unat n")
    case True
    then have "set_mask_bit (ucast (fnum h f) - ucast n) m = None"
      using shift_neg [OF True] Cons.prems(4) by (simp add: set_mask_bit_def Let_def)
    then show ?thesis using e by (subst selack_loop.simps) simp
  next
    case False
    have l: "length m' = length m" if "set_mask_bit s m = Some m'" for s m'
      using that by (auto simp: set_mask_bit_def Let_def split: if_splits)
    have "selack_loop h n (rqe_next e) m' = None" if "set_mask_bit s m = Some m'" for s m'
      using Cons.IH [OF e(5), of m'] Cons.prems False l [OF that] by auto
    then show ?thesis using e by (subst selack_loop.simps) (auto split: bind_splits)
  qed
qed simp

section \<open>The invariant\<close>

text \<open>
  A well-formed receive queue with the fragments \<open>ins\<close> in order and \<open>oos\<close> behind a gap, all
  within a window of \<open>max_queue_len\<close> fragments from the head.
\<close>

definition rq_ok :: "dg_rcall \<Rightarrow> addr list list \<Rightarrow> addr list list \<Rightarrow> bool" where
  "rq_ok c ins oos \<longleftrightarrow>
     q_shape (rqes c) (rq_head (rq c)) (last_inorder (rq c)) ins oos \<and>
     nums_ok (unat (max_queue_len (rq c))) (rq_next_fragnum (rq c)) (high_fragnum (rq c)) (length ins) (map (fnum (rqes c)) oos) \<and>
     queue_len (rq c) = of_nat (length ins + length oos) \<and> inorder_len (rq c) = of_nat (length ins) \<and>
     length ins + length oos \<le> unat (max_queue_len (rq c)) \<and> 0 < unat (max_queue_len (rq c)) \<and>
     unat (max_queue_len (rq c)) \<le> 96 \<and>
     (\<forall>i<length ins. has_hdr (rqes c) (ins ! i) \<longrightarrow>
        fnum (rqes c) (ins ! i) = rq_next_fragnum (rq c) - of_nat (length ins - i)) \<and>
     (ins @ oos \<noteq> [] \<longrightarrow> head_fragnum (rq c) =
        (if ins = [] then fnum (rqes c) (hd oos) else rq_next_fragnum (rq c) - of_nat (length ins)))"

lemma rq_okD:
  assumes "rq_ok c ins oos"
  shows "q_shape (rqes c) (rq_head (rq c)) (last_inorder (rq c)) ins oos"
    "nums_ok (unat (max_queue_len (rq c))) (rq_next_fragnum (rq c)) (high_fragnum (rq c)) (length ins) (map (fnum (rqes c)) oos)"
    "queue_len (rq c) = of_nat (length ins + length oos)" "inorder_len (rq c) = of_nat (length ins)"
    "length ins + length oos \<le> unat (max_queue_len (rq c))" "unat (max_queue_len (rq c)) \<le> 96" "unat (max_queue_len (rq c)) \<le> 96"
    "length ins + length oos \<le> 96" "0 < unat (max_queue_len (rq c))"
  using assms by (simp_all add: rq_ok_def)

lemma rq_lens:
  assumes "rq_ok c ins oos"
  shows "unat (queue_len (rq c)) = length ins + length oos" "unat (inorder_len (rq c)) = length ins"
    "ucast (queue_len (rq c)) = max_queue_len (rq c) \<longleftrightarrow> length ins + length oos = unat (max_queue_len (rq c))"
proof -
  note d = rq_okD [OF assms]
  show q: "unat (queue_len (rq c)) = length ins + length oos"
    using d(3,8) by (simp add: unat_of_nat del: of_nat_add)
  show "unat (inorder_len (rq c)) = length ins" using d(4,8) by (simp add: unat_of_nat)
  have "unat (ucast (queue_len (rq c)) :: u16) = length ins + length oos"
    using q d(8) by (simp add: unsigned_ucast_eq take_bit_nat_eq_self)
  then show "ucast (queue_len (rq c)) = max_queue_len (rq c) \<longleftrightarrow> length ins + length oos = unat (max_queue_len (rq c))"
    using unat_eq_iff [of "ucast (queue_len (rq c)) :: u16" "max_queue_len (rq c)"] by metis
qed

lemma selack_start:
  assumes "q_shape h (rq_head q) (last_inorder q) ins oos"
  shows "(if last_inorder q \<noteq> NULL then do { e \<leftarrow> rget (last_inorder q) h; Some (rqe_next e) }
          else Some (rq_head q)) = Some (first_of oos)"
    and "rseg h (first_of oos) (map hd oos) NULL" "\<forall>f\<in>set oos. has_hdr h f"
proof -
  note qf = q_shape_facts [OF assms]
  have s: "rseg h (rq_head q) (map hd (ins @ oos)) NULL" using assms by (simp add: q_shape_def)
  show "(if last_inorder q \<noteq> NULL then do { e \<leftarrow> rget (last_inorder q) h; Some (rqe_next e) }
          else Some (rq_head q)) = Some (first_of oos)"
  proof (cases "ins = []")
    case True
    then show ?thesis using qf(3,4) by simp
  next
    case False
    then show ?thesis using qf(3,6) end_of_next [OF s False] by auto
  qed
  show "rseg h (first_of oos) (map hd oos) NULL" using s rseg_first [of h _ oos] by auto
  show "\<forall>f\<in>set oos. has_hdr h f" using assms by (auto simp: q_shape_def)
qed

text \<open>The mask names exactly the fragments behind the gap, when none has a number below the next one.\<close>

lemma selack_mask_ok:
  assumes ok: "rq_ok c ins oos"
  defines "n \<equiv> rq_next_fragnum (rq c)" and "h \<equiv> rqes c"
  shows "\<forall>f\<in>set oos. unat n \<le> unat (fnum h f) \<Longrightarrow> \<exists>m. selack_mask (rq c) h = Some m \<and> length m \<le> 4 \<and>
      length m = (if oos = [] then 0 else off n (fnum h (last oos)) div 32 + 1) \<and>
      (\<forall>f\<in>set oos. off n (fnum h f) < 32 * length m) \<and>
      (\<forall>j < 32 * length m. mask_bit m j \<longleftrightarrow> (\<exists>f\<in>set oos. off n (fnum h f) = j))"
    and "\<exists>f\<in>set oos. unat (fnum h f) < unat n \<Longrightarrow> selack_mask (rq c) h = None"
proof -
  let ?high = "high_fragnum (rq c)"
  note d = rq_okD [OF ok, folded n_def h_def]
  note st = selack_start [OF d(1)]
  have hi: "off (n - 1) ?high \<le> 96" using nums_high(1) [OF d(2)] d(7) by simp
  have n1: "off (n - 1) n = 1" by (simp add: off_def)
  have lt: "RPC_DG_FRAGNUM_IS_LT n ?high \<longleftrightarrow> 1 < off (n - 1) ?high"
    using fragnum_lt(1) [of "n - 1" n ?high] hi n1 by simp
  have oh: "unat (?high - n) = off (n - 1) ?high - 1" if "1 < off (n - 1) ?high"
    using off_plus [of 1 "n - 1" ?high] that by (simp add: off_def)
  let ?len = "unat (?high - n) div 32 + 1"
  have len: "?len \<le> 4" if "1 < off (n - 1) ?high"
    using oh [OF that] hi by simp
  have in_len: "off n (fnum h f) div 32 < ?len" "1 < off (n - 1) ?high" if "f \<in> set oos" for f
  proof -
    have "off (n - 1) (fnum h f) \<le> off (n - 1) ?high" "0 < off n (fnum h f)" "off n (fnum h f) < 96"
      using d(2,7) that by (auto simp: nums_ok_def)
    moreover have "off (n - 1) (fnum h f) = off n (fnum h f) + 1" using calculation by (intro off_minus_1) simp
    ultimately show x: "1 < off (n - 1) ?high" by linarith
    have "off n (fnum h f) \<le> unat (?high - n)"
      using oh [OF x] \<open>off (n - 1) (fnum h f) \<le> off (n - 1) ?high\<close> \<open>off (n - 1) (fnum h f) = off n (fnum h f) + 1\<close>
      by linarith
    then show "off n (fnum h f) div 32 < ?len" using div_le_mono [of "off n (fnum h f)" "unat (?high - n)" 32] by linarith
  qed
  have sm: "selack_mask (rq c) h = (if RPC_DG_FRAGNUM_IS_LT n ?high
      then selack_loop h n (first_of oos) (replicate ?len 0) else Some [])"
    unfolding selack_mask_def st(1) n_def by simp
  {
    assume a: "\<forall>f\<in>set oos. unat n \<le> unat (fnum h f)"
    show "\<exists>m. selack_mask (rq c) h = Some m \<and> length m \<le> 4 \<and>
      length m = (if oos = [] then 0 else off n (fnum h (last oos)) div 32 + 1) \<and>
      (\<forall>f\<in>set oos. off n (fnum h f) < 32 * length m) \<and>
      (\<forall>j < 32 * length m. mask_bit m j \<longleftrightarrow> (\<exists>f\<in>set oos. off n (fnum h f) = j))"
    proof (cases "1 < off (n - 1) ?high")
      case True
      have pre: "\<forall>f\<in>set oos. unat n \<le> unat (fnum h f) \<and> off n (fnum h f) div 32 < length (replicate ?len (0 :: u32))"
        using a in_len(1) by simp
      obtain m where m: "selack_loop h n (first_of oos) (replicate ?len 0) = Some m" "length m = ?len"
        "\<forall>j. j div 32 < ?len \<longrightarrow> (mask_bit m j \<longleftrightarrow> mask_bit (replicate ?len 0) j \<or> (\<exists>f\<in>set oos. off n (fnum h f) = j))"
        using selack_loop_ok [OF st(2,3) pre] by (auto simp only: length_replicate)
      have z: "\<not> mask_bit (replicate ?len 0) j" if "j div 32 < ?len" for j
        using that by (simp add: mask_bit_def del: replicate_Suc)
      have j: "j div 32 < ?len \<longleftrightarrow> j < 32 * ?len" for j by (simp add: div_less_iff_less_mult mult.commute)
      have "selack_mask (rq c) h = Some m" using sm lt True m(1) by simp
      moreover have "length m \<le> 4" using len [OF True] m(2) by simp
      moreover have "length m = (if oos = [] then 0 else off n (fnum h (last oos)) div 32 + 1)"
      proof -
        have "oos \<noteq> []" using nums_high(3) [OF d(2)] True by auto
        then show ?thesis using nums_high(3) [OF d(2)] m(2) by (simp add: off_def last_map)
      qed
      moreover have "\<forall>f\<in>set oos. off n (fnum h f) < 32 * length m"
        using in_len(1) unfolding m(2) j by blast
      moreover have "\<forall>j < 32 * length m. mask_bit m j \<longleftrightarrow> (\<exists>f\<in>set oos. off n (fnum h f) = j)"
        using m(3) z unfolding m(2) j by blast
      ultimately show ?thesis by blast
    next
      case False
      then have "oos = []" using in_len(2) by (cases oos) auto
      then show ?thesis using sm lt False by simp
    qed
  }
  assume b: "\<exists>f\<in>set oos. unat (fnum h f) < unat n"
  then have x: "1 < off (n - 1) ?high" using in_len(2) by blast
  have "length (replicate ?len (0 :: u32)) < 134215680" using len [OF x] by simp
  from selack_loop_wild [OF st(2,3) b this] show "selack_mask (rq c) h = None" using sm lt x by simp
qed

section \<open>Which fragments are queued\<close>

text \<open>
  The next fragment, while the queue is not full; a later one within \<open>max_queue_len\<close> of the first
  fragment on the queue, or of the next one when the queue begins with a gap, that is not queued yet.
\<close>

definition accepts :: "pool_view \<Rightarrow> dg_rcall \<Rightarrow> addr list list \<Rightarrow> addr list list \<Rightarrow> u16 \<Rightarrow> bool" where
  "accepts pv c ins oos f \<longleftrightarrow>
     \<not> (is_server c \<and> n_resvs c = 0) \<and>
     (if f = rq_next_fragnum (rq c) then
        length ins + length oos < unat (max_queue_len (rq c)) \<and>
        \<not> (is_rationing pv \<and> (ins \<noteq> [] \<or> \<not> is_way_validated (rq c) \<and> f \<noteq> 0))
      else off (rq_next_fragnum (rq c)) f < 32768 \<and> \<not> is_rationing pv \<and>
        off (rq_next_fragnum (rq c)) f + length ins < unat (max_queue_len (rq c)) \<and>
        f \<notin> fnum (rqes c) ` set oos)"

text \<open>The queue with the fragment \<open>r\<close>.\<close>

definition insert_frag :: "rheap \<Rightarrow> u16 \<Rightarrow> addr list \<Rightarrow> addr list list \<Rightarrow> addr list list
    \<Rightarrow> addr list list \<times> addr list list" where
  "insert_frag h n r ins oos =
     (if fnum h r = n
      then let k = run_len (n + 1) (map (fnum h) oos) in (ins @ r # take k oos, drop k oos)
      else let P = \<lambda>g. off n (fnum h g) < off n (fnum h r) in (ins, takeWhile P oos @ r # dropWhile P oos))"

lemma lte_far:
  assumes "L \<le> unat m" "unat m \<le> 96" "off n f < 32768"
  shows "RPC_DG_FRAGNUM_IS_LTE (n - of_nat L + m) f \<longleftrightarrow> unat m \<le> off n f + L"
proof -
  let ?b = "n - of_nat L"
  have uL: "unat (of_nat L :: u16) = L" using assms by (simp add: unat_of_nat)
  have bf: "off ?b f = off n f + L" using off_sub [of n f "of_nat L"] assms uL by simp
  have bm: "off ?b (?b + m) = unat m" by (simp add: off_def)
  show ?thesis
  proof (cases "off n f + L < 32768")
    case True
    then show ?thesis using fragnum_lt(2) [of ?b "?b + m" f] bf bm assms(2) by simp
  next
    case False
    have "off (?b + m) f = off ?b f - unat m" using bf False assms(2) by (intro off_add) simp
    then have "off (?b + m) f < 32768" using bf assms by simp
    then have "RPC_DG_FRAGNUM_IS_LTE (?b + m) f" using fragnum_lt(2) [of "?b + m" "?b + m" f] by simp
    then show ?thesis using False assms(2) by simp
  qed
qed

lemma too_far_iff:
  assumes ok: "rq_ok c ins oos" and f: "off (rq_next_fragnum (rq c)) f < 32768"
  shows "too_far f (rq c) \<longleftrightarrow> unat (max_queue_len (rq c)) \<le> off (rq_next_fragnum (rq c)) f + length ins"
proof -
  let ?n = "rq_next_fragnum (rq c)" and ?m = "max_queue_len (rq c)"
  note d = rq_okD [OF ok]
  note qf = q_shape_facts [OF d(1)]
  have second: "RPC_DG_FRAGNUM_IS_LTE (?n + ?m) f \<longleftrightarrow> unat ?m \<le> off ?n f"
    using lte_far [of 0 ?m ?n f] d(6) f by simp
  show ?thesis
  proof (cases "ins = []")
    case False
    have h: "head_fragnum (rq c) = ?n - of_nat (length ins)" using ok False by (simp add: rq_ok_def)
    have "off (?n - of_nat (length ins)) ?n = length ins"
      using d(8) by (simp add: off_def unat_of_nat)
    then have "RPC_DG_FRAGNUM_IS_LT (?n - of_nat (length ins)) ?n"
      using fragnum_lt(1) [of "?n - of_nat (length ins)" "?n - of_nat (length ins)" ?n] d(8) False by simp
    moreover have "rq_head (rq c) \<noteq> NULL" using qf(5) False by simp
    moreover have "length ins \<le> unat ?m" using d(5) by simp
    ultimately show ?thesis unfolding too_far_def h second using lte_far [of "length ins" ?m ?n f] d(6) f by auto
  next
    case True
    have "\<not> RPC_DG_FRAGNUM_IS_LT (head_fragnum (rq c)) ?n" if "rq_head (rq c) \<noteq> NULL"
    proof -
      have "oos \<noteq> []" using that qf(5) True by simp
      then have "hd oos \<in> set oos" by simp
      then have "off ?n (fnum (rqes c) (hd oos)) < 96"
        using d(2,6) unfolding nums_ok_def by fastforce
      moreover have "head_fragnum (rq c) = fnum (rqes c) (hd oos)"
        using ok True \<open>oos \<noteq> []\<close> by (simp add: rq_ok_def)
      ultimately show ?thesis by (simp add: old_fragnum)
    qed
    then show ?thesis unfolding too_far_def second using True by auto
  qed
qed

text \<open>Where the fragment is not queued nothing changes; where it is, the links do, and the fields named here.\<close>

lemma place_rejects:
  assumes ok: "rq_ok c ins oos" and new: "new_frag (rqes c) (ins @ oos) r"
    and rej: "\<not> accepts pv c ins oos (fnum (rqes c) r)"
  shows "recvq_place pv (hd r) (fnum (rqes c) r) c = Some (False, c)"
proof -
  let ?n = "rq_next_fragnum (rq c)" and ?f = "fnum (rqes c) r"
  note d = rq_okD [OF ok]
  note qf = q_shape_facts [OF d(1)]
  show ?thesis
  proof (cases "?f = ?n")
    case True
    have "is_server c \<and> n_resvs c = 0 \<or> ucast (queue_len (rq c)) = max_queue_len (rq c) \<or>
        is_rationing pv \<and> (last_inorder (rq c) \<noteq> NULL \<or> \<not> is_way_validated (rq c) \<and> ?f \<noteq> 0)"
      using rej True qf(3) d(5) rq_lens(3) [OF ok] by (auto simp: accepts_def)
    then show ?thesis using True by (auto simp: recvq_place_def Let_def)
  next
    case False
    show ?thesis
    proof (cases "off ?n ?f < 32768")
      case old: True
      show ?thesis
      proof (cases "(is_server c \<and> n_resvs c = 0) \<or> is_rationing pv \<or> too_far ?f (rq c)")
        case True
        then show ?thesis using False old by (auto simp: recvq_place_def Let_def old_fragnum)
      next
        case F: False
        let ?P = "\<lambda>g. RPC_DG_FRAGNUM_IS_LT (fnum (rqes c) g) ?f"
        have dup: "?f \<in> fnum (rqes c) ` set oos"
          using rej False F old too_far_iff [OF ok old] by (auto simp: accepts_def)
        have P: "?P g \<longleftrightarrow> off ?n (fnum (rqes c) g) < off ?n ?f" if "g \<in> set oos" for g
          using d(2,6) that old by (intro fragnum_lt) (auto simp: nums_ok_def)
        let ?D = "dropWhile ?P oos" and ?T = "takeWhile ?P oos"
        have D: "?D \<noteq> [] \<and> fnum (rqes c) (hd ?D) = ?f"
        proof -
          obtain g where g: "g \<in> set oos" "fnum (rqes c) g = ?f" using dup by auto
          have "g \<notin> set ?T" using P g set_takeWhileD by fastforce
          then have gD: "g \<in> set ?D" using g(1) by (metis Un_iff set_append takeWhile_dropWhile_id)
          then have ne: "?D \<noteq> []" by (metis empty_iff list.set(1))
          then have nP: "\<not> ?P (hd ?D)" by (rule hd_dropWhile)
          have hin: "hd ?D \<in> set oos" using ne by (meson hd_in_set set_dropWhileD)
          have s: "sorted_wrt (<) (map (off ?n) (map (fnum (rqes c)) (?T @ ?D)))" using d(2) by (simp add: nums_ok_def)
          have "off ?n (fnum (rqes c) (hd ?D)) \<le> off ?n (fnum (rqes c) g)"
            using s gD ne by (cases ?D) (auto simp: sorted_wrt_append)
          moreover have "off ?n ?f \<le> off ?n (fnum (rqes c) (hd ?D))" using nP P [OF hin] by simp
          ultimately have "off ?n (fnum (rqes c) (hd ?D)) = off ?n ?f" using g(2) by simp
          then show ?thesis using ne off_inj by metis
        qed
        from insert_later_ok(1) [OF d(1) new D] show ?thesis
          using False F old by (simp add: recvq_place_def Let_def old_fragnum)
      qed
    qed (use False in \<open>auto simp: recvq_place_def Let_def old_fragnum\<close>)
  qed
qed

text \<open>The stream is complete: the data in order ends with the last fragment, or is not fragmented.\<close>

definition stream_complete :: "rheap \<Rightarrow> bool \<Rightarrow> addr list list \<Rightarrow> bool" where
  "stream_complete h frags ins \<longleftrightarrow> ins \<noteq> [] \<and> (\<not> frags \<or>
     (case hdrp (the (h (end_of NULL ins))) of None \<Rightarrow> False
      | Some hp \<Rightarrow> RPC_DG_HDR_FLAG_IS_SET hp RPC_C_DG_PF_LAST_FRAG))"

lemma account_ok:
  assumes "q_shape (rqes c) (rq_head (rq c)) (last_inorder (rq c)) ins oos"
  shows "recvq_account f c = Some (c\<lparr>rq := (rq c)\<lparr>queue_len := queue_len (rq c) + 1,
     high_fragnum := if RPC_DG_FRAGNUM_IS_LT (high_fragnum (rq c)) f then f else high_fragnum (rq c),
     all_pkts_recvd := all_pkts_recvd (rq c) \<or> stream_complete (rqes c) (recving_frags (rq c)) ins\<rparr>\<rparr>)"
proof -
  note qf = q_shape_facts [OF assms]
  let ?b = "stream_complete (rqes c) (recving_frags (rq c)) ins"
  have b: "(if last_inorder (rq c) = NULL then Some False
        else if \<not> recving_frags (rq c) then Some True
        else do {
          l \<leftarrow> rget (last_inorder (rq c)) (rqes c);
          Some (case hdrp l of None \<Rightarrow> False
                | Some hp \<Rightarrow> RPC_DG_HDR_FLAG_IS_SET hp RPC_C_DG_PF_LAST_FRAG) }) = Some ?b"
  proof (cases "ins = []")
    case True
    then show ?thesis using qf(3) by (simp add: stream_complete_def)
  next
    case False
    have "rseg (rqes c) (rq_head (rq c)) (map hd (ins @ oos)) NULL" using assms by (simp add: q_shape_def)
    then obtain e where "rqes c (end_of NULL ins) = Some e" using end_of_next False by blast
    then show ?thesis using qf(3,6) False by (simp add: stream_complete_def)
  qed
  define q2 where "q2 = (rq c)\<lparr>queue_len := queue_len (rq c) + 1,
     high_fragnum := if RPC_DG_FRAGNUM_IS_LT (high_fragnum (rq c)) f then f else high_fragnum (rq c)\<rparr>"
  have v: "(let q = (rq c)\<lparr>queue_len := queue_len (rq c) + 1\<rparr>
      in if RPC_DG_FRAGNUM_IS_LT (high_fragnum q) f then q\<lparr>high_fragnum := f\<rparr> else q) = q2"
    by (simp add: q2_def Let_def)
  have q2: "last_inorder q2 = last_inorder (rq c)" "recving_frags q2 = recving_frags (rq c)" by (simp_all add: q2_def)
  have "recvq_account f c = Some (c\<lparr>rq := if ?b then q2\<lparr>all_pkts_recvd := True\<rparr> else q2\<rparr>)"
    unfolding recvq_account_def v [unfolded Let_def] Let_def q2 b Option.bind.simps(2) ..
  then show ?thesis by (simp add: q2_def)
qed

lemma take_hd_nums:
  assumes "i < k" "k = run_len (n + 1) (map (fnum h) oos)"
  shows "fnum h (oos ! i) = n + 1 + of_nat i" "i < length oos"
  using run_len_nth [of i "n + 1" "map (fnum h) oos"] run_len_le [of "n + 1" "map (fnum h) oos"] assms
  by simp_all

lemma place_next:
  assumes ok: "rq_ok c ins oos" and new: "new_frag (rqes c) (ins @ oos) r"
    and acc: "accepts pv c ins oos (fnum (rqes c) r)" and f: "fnum (rqes c) r = rq_next_fragnum (rq c)"
  defines "k \<equiv> run_len (rq_next_fragnum (rq c) + 1) (map (fnum (rqes c)) oos)"
  shows "\<exists>c1 c'. recvq_place pv (hd r) (fnum (rqes c) r) c = Some (True, c1) \<and>
    recvq_account (fnum (rqes c) r) c1 = Some c' \<and> links_only (rqes c) (rqes c') \<and>
    c' = c\<lparr>rq := rq c', rqes := rqes c'\<rparr> \<and> rq_ok c' (ins @ r # take k oos) (drop k oos) \<and>
    rq_next_fragnum (rq c') = rq_next_fragnum (rq c) + 1 + of_nat k \<and>
    rq c' = (rq c)\<lparr>rq_head := rq_head (rq c'), last_inorder := last_inorder (rq c'),
      rq_next_fragnum := rq_next_fragnum (rq c'), high_fragnum := high_fragnum (rq c'),
      head_fragnum := head_fragnum (rq c'), queue_len := queue_len (rq c) + 1,
      inorder_len := inorder_len (rq c'),
      all_pkts_recvd := all_pkts_recvd (rq c) \<or> stream_complete (rqes c') (recving_frags (rq c)) (ins @ r # take k oos)\<rparr>"
proof -
  let ?n = "rq_next_fragnum (rq c)" and ?q = "rq c" and ?h = "rqes c"
  let ?ins = "ins @ r # take k oos" and ?oos = "drop k oos"
  note d = rq_okD [OF ok]
  note qf = q_shape_facts [OF d(1)]
  obtain h' where h': "insert_next (hd r) (fnum ?h r) c =
      Some (c\<lparr>rq := ?q\<lparr>rq_head := first_of (ins @ r # oos), last_inorder := end_of NULL ?ins,
                      rq_next_fragnum := ?n + 1 + of_nat k,
                      head_fragnum := if ins = [] then fnum ?h r else head_fragnum ?q,
                      inorder_len := inorder_len ?q + 1 + of_nat k\<rparr>, rqes := h'\<rparr>)" "links_only ?h h'"
    "q_shape h' (first_of (ins @ r # oos)) (end_of NULL ?ins) ?ins ?oos"
    using insert_next_ok [OF d(1) new, where f = "fnum ?h r"] unfolding k_def by blast
  define c1 where "c1 = c\<lparr>rq := ?q\<lparr>rq_head := first_of (ins @ r # oos), last_inorder := end_of NULL ?ins,
                      rq_next_fragnum := ?n + 1 + of_nat k,
                      head_fragnum := if ins = [] then fnum ?h r else head_fragnum ?q,
                      inorder_len := inorder_len ?q + 1 + of_nat k\<rparr>, rqes := h'\<rparr>"
  have pl: "recvq_place pv (hd r) (fnum ?h r) c = Some (True, c1)"
    using acc f h'(1) rq_lens(3) [OF ok] qf(3) unfolding c1_def
    by (auto simp: recvq_place_def Let_def accepts_def)
  have s1: "q_shape (rqes c1) (rq_head (rq c1)) (last_inorder (rq c1)) ?ins ?oos"
    using h'(3) by (simp add: c1_def)
  define c' where "c' = c1\<lparr>rq := (rq c1)\<lparr>queue_len := queue_len (rq c1) + 1,
     high_fragnum := if RPC_DG_FRAGNUM_IS_LT (high_fragnum (rq c1)) (fnum ?h r) then fnum ?h r else high_fragnum (rq c1),
     all_pkts_recvd := all_pkts_recvd (rq c1) \<or> stream_complete (rqes c1) (recving_frags (rq c1)) ?ins\<rparr>\<rparr>"
  have ac: "recvq_account (fnum ?h r) c1 = Some c'" unfolding c'_def by (rule account_ok [OF s1])
  have q': "rq_head (rq c') = first_of (ins @ r # oos)" "last_inorder (rq c') = end_of NULL ?ins"
    "rq_next_fragnum (rq c') = ?n + 1 + of_nat k"
    "head_fragnum (rq c') = (if ins = [] then fnum ?h r else head_fragnum ?q)"
    "inorder_len (rq c') = inorder_len ?q + 1 + of_nat k" "queue_len (rq c') = queue_len ?q + 1"
    "high_fragnum (rq c') = (if RPC_DG_FRAGNUM_IS_LT (high_fragnum ?q) ?n then ?n else high_fragnum ?q)"
    "max_queue_len (rq c') = max_queue_len ?q" "rqes c' = h'"
    by (simp_all add: c'_def c1_def f)
  have fn: "fnum h' g = fnum ?h g" "has_hdr h' g = has_hdr ?h g" for g using links_facts [OF h'(2)] by simp_all
  have k: "k \<le> length oos" unfolding k_def using run_len_le [of "?n + 1" "map (fnum ?h) oos"] by simp
  have N: "nums_ok (unat (max_queue_len ?q)) (?n + 1 + of_nat k) (high_fragnum (rq c'))
      (length ?ins) (map (fnum h') ?oos)"
    using nums_next [OF d(2) d(6) d(9)] k unfolding q' k_def fn by (simp add: drop_map)
  have lt: "length ins + length oos < unat (max_queue_len ?q)" using acc f by (simp add: accepts_def)
  have nth: "fnum h' (?ins ! i) = ?n + 1 + of_nat k - of_nat (length ?ins - i)"
    if i: "i < length ?ins" "has_hdr h' (?ins ! i)" for i
  proof -
    have len: "length ?ins = length ins + Suc k" using k by simp
    consider "i < length ins" | "i = length ins" | j where "i = length ins + Suc j" "j < k"
      using i(1) unfolding len by (metis add_less_cancel_left less_natE linorder_neqE_nat not_less_eq add_Suc_right)
    then show ?thesis
    proof cases
      case 1
      have "fnum ?h (ins ! i) = ?n - of_nat (length ins - i)"
        using ok 1 i(2) unfolding rq_ok_def fn by (simp add: nth_append)
      moreover have "length ?ins - i = (length ins - i) + Suc k" using 1 k by simp
      ultimately show ?thesis unfolding fn using 1 by (simp add: nth_append)
    next
      case 2
      then show ?thesis unfolding fn using f k by (simp add: nth_append)
    next
      case 3
      have "?ins ! i = oos ! j" using 3 by (simp add: nth_append)
      moreover have "fnum ?h (oos ! j) = ?n + 1 + of_nat j" using take_hd_nums(1) [OF 3(2) meta_eq_to_obj_eq [OF k_def]] .
      moreover have "length ?ins - i = k - j" using 3 k by simp
      moreover have "of_nat k = (of_nat j + of_nat (k - j) :: u16)" using 3(2) by (simp flip: of_nat_add)
      ultimately show ?thesis unfolding fn by simp
    qed
  qed
  have head: "head_fragnum (rq c') = ?n + 1 + of_nat k - of_nat (length ?ins)"
  proof (cases "ins = []")
    case True
    then show ?thesis unfolding q' using f k by simp
  next
    case False
    then have "head_fragnum ?q = ?n - of_nat (length ins)" using ok by (simp add: rq_ok_def)
    then show ?thesis unfolding q' using False k by simp
  qed
  have "rq_ok c' ?ins ?oos"
    unfolding rq_ok_def
  proof (intro conjI)
    show "q_shape (rqes c') (rq_head (rq c')) (last_inorder (rq c')) ?ins ?oos" unfolding q' by (rule h'(3))
    show "nums_ok (unat (max_queue_len (rq c'))) (rq_next_fragnum (rq c')) (high_fragnum (rq c'))
        (length ?ins) (map (fnum (rqes c')) ?oos)"
      using N unfolding q'(3,8,9) .
    show "queue_len (rq c') = of_nat (length ?ins + length ?oos)" unfolding q' d(3) using k by simp
    show "inorder_len (rq c') = of_nat (length ?ins)" unfolding q' d(4) using k by simp
    show "length ?ins + length ?oos \<le> unat (max_queue_len (rq c'))" unfolding q' using lt k by simp
    show "\<forall>i<length ?ins. has_hdr (rqes c') (?ins ! i) \<longrightarrow>
        fnum (rqes c') (?ins ! i) = rq_next_fragnum (rq c') - of_nat (length ?ins - i)"
      unfolding q'(3,9) using nth by blast
    show "?ins @ ?oos \<noteq> [] \<longrightarrow> head_fragnum (rq c') =
        (if ?ins = [] then fnum (rqes c') (hd ?oos) else rq_next_fragnum (rq c') - of_nat (length ?ins))"
      unfolding q'(3) using head by simp
  qed (use d(6,9) q'(8) in simp_all)
  moreover have "c' = c\<lparr>rq := rq c', rqes := rqes c'\<rparr>" by (simp add: c'_def c1_def)
  moreover have "rq c' = (rq c)\<lparr>rq_head := rq_head (rq c'), last_inorder := last_inorder (rq c'),
      rq_next_fragnum := rq_next_fragnum (rq c'), high_fragnum := high_fragnum (rq c'),
      head_fragnum := head_fragnum (rq c'), queue_len := queue_len (rq c) + 1,
      inorder_len := inorder_len (rq c'),
      all_pkts_recvd := all_pkts_recvd (rq c) \<or> stream_complete (rqes c') (recving_frags (rq c)) ?ins\<rparr>"
    by (simp add: c'_def c1_def)
  ultimately show ?thesis using pl ac h'(2) q'(3,9) by blast
qed

lemma takeWhile_same: "(\<And>x. x \<in> set xs \<Longrightarrow> P x = Q x) \<Longrightarrow> takeWhile P xs = takeWhile Q xs \<and> dropWhile P xs = dropWhile Q xs"
  by (induction xs) auto

lemma place_later:
  assumes ok: "rq_ok c ins oos" and new: "new_frag (rqes c) (ins @ oos) r"
    and acc: "accepts pv c ins oos (fnum (rqes c) r)" and f: "fnum (rqes c) r \<noteq> rq_next_fragnum (rq c)"
  defines "P \<equiv> \<lambda>g. off (rq_next_fragnum (rq c)) (fnum (rqes c) g) < off (rq_next_fragnum (rq c)) (fnum (rqes c) r)"
  shows "\<exists>c1 c'. recvq_place pv (hd r) (fnum (rqes c) r) c = Some (True, c1) \<and>
    recvq_account (fnum (rqes c) r) c1 = Some c' \<and> links_only (rqes c) (rqes c') \<and>
    c' = c\<lparr>rq := rq c', rqes := rqes c'\<rparr> \<and> rq_ok c' ins (takeWhile P oos @ r # dropWhile P oos) \<and>
    rq_next_fragnum (rq c') = rq_next_fragnum (rq c) \<and>
    rq c' = (rq c)\<lparr>rq_head := rq_head (rq c'), last_inorder := last_inorder (rq c'),
      rq_next_fragnum := rq_next_fragnum (rq c'), high_fragnum := high_fragnum (rq c'),
      head_fragnum := head_fragnum (rq c'), queue_len := queue_len (rq c) + 1,
      inorder_len := inorder_len (rq c'),
      all_pkts_recvd := all_pkts_recvd (rq c) \<or> stream_complete (rqes c') (recving_frags (rq c)) ins\<rparr>"
proof -
  let ?n = "rq_next_fragnum (rq c)" and ?q = "rq c" and ?h = "rqes c" and ?f = "fnum (rqes c) r"
  let ?P = "\<lambda>g. RPC_DG_FRAGNUM_IS_LT (fnum ?h g) ?f"
  let ?T = "takeWhile P oos" and ?D = "dropWhile P oos"
  note d = rq_okD [OF ok]
  note qf = q_shape_facts [OF d(1)]
  have a: "off ?n ?f < 32768" "\<not> is_rationing pv" "off ?n ?f + length ins < unat (max_queue_len ?q)"
    "?f \<notin> fnum ?h ` set oos" "\<not> (is_server c \<and> n_resvs c = 0)"
    using acc f by (simp_all add: accepts_def)
  have f0: "0 < off ?n ?f" using f off_0_iff [of ?n ?f] by linarith
  have far: "\<not> too_far ?f ?q" using too_far_iff [OF ok a(1)] a(3) by simp
  have PP: "takeWhile ?P oos = ?T" "dropWhile ?P oos = ?D"
  proof -
    have "?P g \<longleftrightarrow> P g" if "g \<in> set oos" for g
      unfolding P_def using d(2,6) that a(1) by (intro fragnum_lt) (auto simp: nums_ok_def)
    from takeWhile_same [of oos ?P P, OF this] show "takeWhile ?P oos = ?T" "dropWhile ?P oos = ?D" by blast+
  qed
  have TD: "oos = ?T @ ?D" by simp
  have nd: "\<not> (?D \<noteq> [] \<and> fnum ?h (hd ?D) = ?f)"
    using a(4) by (metis hd_in_set imageI set_dropWhileD)
  obtain h' where h': "insert_later (hd r) ?f c =
      Some (True, c\<lparr>rq := ?q\<lparr>rq_head := first_of (ins @ ?T @ r # ?D),
                            head_fragnum := if ins @ ?T = [] then ?f else head_fragnum ?q\<rparr>, rqes := h'\<rparr>)"
    "links_only ?h h'" "q_shape h' (first_of (ins @ ?T @ r # ?D)) (end_of NULL ins) ins (?T @ r # ?D)"
    using insert_later_ok(2) [OF d(1) new, where f = ?f, unfolded PP, OF nd] by blast
  define c1 where "c1 = c\<lparr>rq := ?q\<lparr>rq_head := first_of (ins @ ?T @ r # ?D),
                            head_fragnum := if ins @ ?T = [] then ?f else head_fragnum ?q\<rparr>, rqes := h'\<rparr>"
  have pl: "recvq_place pv (hd r) ?f c = Some (True, c1)"
    using a(1,2,5) f far h'(1) unfolding c1_def by (simp add: recvq_place_def Let_def old_fragnum)
  have s1: "q_shape (rqes c1) (rq_head (rq c1)) (last_inorder (rq c1)) ins (?T @ r # ?D)"
    using h'(3) qf(6) by (simp add: c1_def)
  define c' where "c' = c1\<lparr>rq := (rq c1)\<lparr>queue_len := queue_len (rq c1) + 1,
     high_fragnum := if RPC_DG_FRAGNUM_IS_LT (high_fragnum (rq c1)) ?f then ?f else high_fragnum (rq c1),
     all_pkts_recvd := all_pkts_recvd (rq c1) \<or> stream_complete (rqes c1) (recving_frags (rq c1)) ins\<rparr>\<rparr>"
  have ac: "recvq_account ?f c1 = Some c'" unfolding c'_def by (rule account_ok [OF s1])
  have q': "rq_head (rq c') = first_of (ins @ ?T @ r # ?D)" "last_inorder (rq c') = last_inorder ?q"
    "rq_next_fragnum (rq c') = ?n"
    "head_fragnum (rq c') = (if ins @ ?T = [] then ?f else head_fragnum ?q)"
    "inorder_len (rq c') = inorder_len ?q" "queue_len (rq c') = queue_len ?q + 1"
    "high_fragnum (rq c') = (if RPC_DG_FRAGNUM_IS_LT (high_fragnum ?q) ?f then ?f else high_fragnum ?q)"
    "max_queue_len (rq c') = max_queue_len ?q" "rqes c' = h'"
    by (simp_all add: c'_def c1_def)
  have fn: "fnum h' g = fnum ?h g" "has_hdr h' g = has_hdr ?h g" for g using links_facts [OF h'(2)] by simp_all
  have N: "nums_ok (unat (max_queue_len ?q)) ?n (high_fragnum (rq c')) (length ins) (map (fnum h') (?T @ r # ?D))"
  proof -
    have nin: "?f \<notin> set (map (fnum ?h) oos)" using a(4) by simp
    have m: "takeWhile (\<lambda>g. RPC_DG_FRAGNUM_IS_LT g ?f) (map (fnum ?h) oos) = map (fnum ?h) ?T"
      "dropWhile (\<lambda>g. RPC_DG_FRAGNUM_IS_LT g ?f) (map (fnum ?h) oos) = map (fnum ?h) ?D"
      unfolding takeWhile_map dropWhile_map comp_def PP by simp_all
    have fe: "fnum h' = fnum ?h" using fn(1) by blast
    show ?thesis using nums_later [OF d(2) f0 a(3) nin d(6)] unfolding m q'(7) fe by simp
  qed
  have l: "length oos = length ?T + length ?D" using TD by (metis length_append)
  have lt: "length ins + length oos < unat (max_queue_len ?q)"
  proof (rule ccontr)
    assume full: "\<not> length ins + length oos < unat (max_queue_len ?q)"
    then have "length ins + length (map (fnum ?h) oos) = unat (max_queue_len ?q)" using d(5) by simp
    then have "oos = []" using nums_full [OF d(2)] by simp
    then show False using full a(3) by simp
  qed
  have head: "head_fragnum (rq c') = (if ins = [] then fnum h' (hd (?T @ r # ?D)) else ?n - of_nat (length ins))"
  proof (cases "ins = []")
    case True
    have "head_fragnum ?q = fnum ?h (hd oos)" if "?T \<noteq> []"
      using ok True that by (auto simp: rq_ok_def)
    moreover have "hd oos = hd ?T" if "?T \<noteq> []" using that by (metis TD hd_append2)
    ultimately show ?thesis using True unfolding q' fn by (cases "?T = []") simp_all
  next
    case False
    then show ?thesis using ok unfolding q' by (simp add: rq_ok_def)
  qed
  have "rq_ok c' ins (?T @ r # ?D)"
    unfolding rq_ok_def
  proof (intro conjI)
    show "q_shape (rqes c') (rq_head (rq c')) (last_inorder (rq c')) ins (?T @ r # ?D)"
      using h'(3) qf(6) unfolding q' by simp
    show "nums_ok (unat (max_queue_len (rq c'))) (rq_next_fragnum (rq c')) (high_fragnum (rq c'))
        (length ins) (map (fnum (rqes c')) (?T @ r # ?D))"
      using N unfolding q'(3,8,9) .
    show "queue_len (rq c') = of_nat (length ins + length (?T @ r # ?D))" unfolding q' d(3) using l by simp
    show "inorder_len (rq c') = of_nat (length ins)" unfolding q' d(4) ..
    show "length ins + length (?T @ r # ?D) \<le> unat (max_queue_len (rq c'))" unfolding q' using lt l by simp
    show "\<forall>i<length ins. has_hdr (rqes c') (ins ! i) \<longrightarrow>
        fnum (rqes c') (ins ! i) = rq_next_fragnum (rq c') - of_nat (length ins - i)"
      using ok unfolding q'(3,9) fn rq_ok_def by blast
    show "ins @ (?T @ r # ?D) \<noteq> [] \<longrightarrow> head_fragnum (rq c') =
        (if ins = [] then fnum (rqes c') (hd (?T @ r # ?D)) else rq_next_fragnum (rq c') - of_nat (length ins))"
      unfolding q'(3,9) using head by blast
  qed (use d(6,9) q'(8) in simp_all)
  moreover have "c' = c\<lparr>rq := rq c', rqes := rqes c'\<rparr>" by (simp add: c'_def c1_def)
  moreover have "rq c' = (rq c)\<lparr>rq_head := rq_head (rq c'), last_inorder := last_inorder (rq c'),
      rq_next_fragnum := rq_next_fragnum (rq c'), high_fragnum := high_fragnum (rq c'),
      head_fragnum := head_fragnum (rq c'), queue_len := queue_len (rq c) + 1,
      inorder_len := inorder_len (rq c'),
      all_pkts_recvd := all_pkts_recvd (rq c) \<or> stream_complete (rqes c') (recving_frags (rq c)) ins\<rparr>"
    by (simp add: c'_def c1_def)
  ultimately show ?thesis using pl ac h'(2) q'(3,9) by blast
qed

section \<open>Sending a fack\<close>

lemma fack_frag_size_eq:
  "\<exists>s n. fack_frag_size pv c = (s, c\<lparr>n_resvs := n\<rparr>)"
proof -
  have "\<exists>n. c = c\<lparr>n_resvs := n\<rparr>" by (rule exI [of _ "n_resvs c"]) simp
  then show ?thesis unfolding fack_frag_size_def by (auto split: option.splits)
qed

text \<open>What a fack tells: all before \<open>n\<close> was received, and of the later ones exactly those queued.\<close>

definition fack_tells :: "dg_rcall \<Rightarrow> addr list list \<Rightarrow> dg_fack \<Rightarrow> bool" where
  "fack_tells c oos fk \<longleftrightarrow>
     fk_fragnum fk = rq_next_fragnum (rq c) - 1 \<and>
     fk_len fk = 20 + 4 * of_nat (length (fk_selack fk) - 1) \<and>
     unat (fk_selack_len fk) \<in> {length (fk_selack fk), 0} \<and>
     (oos \<noteq> [] \<longrightarrow> unat (fk_selack_len fk) = length (fk_selack fk)) \<and>
     length (fk_selack fk) = (if oos = [] then 1 else off (rq_next_fragnum (rq c)) (fnum (rqes c) (last oos)) div 32 + 1) \<and>
     (\<forall>f\<in>set oos. off (rq_next_fragnum (rq c)) (fnum (rqes c) f) < 32 * length (fk_selack fk)) \<and>
     (\<forall>j < 32 * length (fk_selack fk). mask_bit (fk_selack fk) j \<longleftrightarrow>
        (\<exists>f\<in>set oos. off (rq_next_fragnum (rq c)) (fnum (rqes c) f) = j))"

lemma fack_tells_cong:
  assumes "rq c' = rq c" "rqes c' = rqes c"
  shows "fack_tells c' = fack_tells c"
  unfolding fack_tells_def fun_eq_iff assms by (intro allI refl)

lemma fack_ok:
  assumes ok: "rq_ok c ins oos" and r: "r = NULL \<or> rqes c r \<noteq> None"
    and n: "\<forall>f\<in>set oos. unat (rq_next_fragnum (rq c)) \<le> unat (fnum (rqes c) f)"
  shows "\<exists>fk m. rpc__dg_call_xmit_fack pv r nocall c = Some (c\<lparr>n_resvs := m, sent_facks := sent_facks c @ [fk]\<rparr>)
    \<and> fack_tells c oos fk \<and> fk_nocall fk = nocall"
proof -
  obtain s nr where s: "fack_frag_size pv c = (s, c\<lparr>n_resvs := nr\<rparr>)" using fack_frag_size_eq by blast
  obtain m where m: "selack_mask (rq c) (rqes c) = Some m" "length m \<le> 4"
    "length m = (if oos = [] then 0 else off (rq_next_fragnum (rq c)) (fnum (rqes c) (last oos)) div 32 + 1)"
    "\<forall>f\<in>set oos. off (rq_next_fragnum (rq c)) (fnum (rqes c) f) < 32 * length m"
    "\<forall>j < 32 * length m. mask_bit m j \<longleftrightarrow> (\<exists>f\<in>set oos. off (rq_next_fragnum (rq c)) (fnum (rqes c) f) = j)"
    using selack_mask_ok(1) [OF ok n] by blast
  define ser where "ser = (if r = NULL then high_serial_num (rq c)
    else case hdrp (the (rqes c r)) of None \<Rightarrow> head_serial_num (rq c) | Some h \<Rightarrow> hdr_serial h)"
  define fk where "fk = \<lparr>fk_nocall = nocall, fk_fragnum = rq_next_fragnum (rq c) - 1,
         fk_len = (if length m > 1 then 20 + of_nat ((length m - 1) * 4) else 20),
         fk_max_tsdu = max_rcv_tsdu c, fk_max_frag_size = s, fk_serial = ser,
         fk_window = fack_window pv (c\<lparr>n_resvs := nr\<rparr>), fk_selack_len = of_nat (length m),
         fk_selack = (if length m = 0 then [0] else m)\<rparr>"
  have x: "rpc__dg_call_xmit_fack pv r nocall c = Some (c\<lparr>n_resvs := nr, sent_facks := sent_facks c @ [fk]\<rparr>)"
  proof -
    define c2 where "c2 = c\<lparr>n_resvs := nr\<rparr>"
    have c2: "rq c2 = rq c" "rqes c2 = rqes c" "max_rcv_tsdu c2 = max_rcv_tsdu c" "sent_facks c2 = sent_facks c"
      by (simp_all add: c2_def)
    have r2: "(if r \<noteq> NULL then do {
            e \<leftarrow> rget r (rqes c);
            Some (case hdrp e of None \<Rightarrow> head_serial_num (rq c) | Some h \<Rightarrow> hdr_serial h) }
          else Some (high_serial_num (rq c))) = Some ser"
      using r by (cases "r = NULL") (auto simp: ser_def)
    have "rpc__dg_call_xmit_fack pv r nocall c = Some (c2\<lparr>sent_facks := sent_facks c @ [fk]\<rparr>)"
      unfolding rpc__dg_call_xmit_fack_def s Let_def prod.case c2_def [symmetric] c2 r2 m(1)
        Option.bind.simps(2) fk_def ..
    then show ?thesis by (simp add: c2_def)
  qed
  have "fack_tells c oos fk"
  proof (cases "m = []")
    case True
    then have "oos = []" using m(4) by auto
    then show ?thesis using True by (auto simp: fack_tells_def fk_def mask_bit_def less_Suc_eq_0_disj)
  next
    case False
    have l: "unat (of_nat (length m) :: u16) = length m" using m(2) by (simp add: unat_of_nat)
    have "fk_len fk = 20 + 4 * of_nat (length m - 1)" by (simp add: fk_def mult.commute)
    moreover have ne: "oos \<noteq> []" using False m(3) by auto
    ultimately show ?thesis using False m(4,5) m(3) [unfolded if_not_P [OF ne]] l by (simp add: fack_tells_def fk_def)
  qed
  moreover have "fk_nocall fk = nocall" by (simp add: fk_def)
  ultimately show ?thesis using x by blast
qed

lemma fack_wild:
  assumes ok: "rq_ok c ins oos" and n: "\<exists>f\<in>set oos. unat (fnum (rqes c) f) < unat (rq_next_fragnum (rq c))"
  shows "rpc__dg_call_xmit_fack pv r nocall c = None"
proof -
  obtain s nr where s: "fack_frag_size pv c = (s, c\<lparr>n_resvs := nr\<rparr>)" using fack_frag_size_eq by blast
  show ?thesis unfolding rpc__dg_call_xmit_fack_def s
    using selack_mask_ok(2) [OF ok n] by (auto simp: Let_def split: bind_splits)
qed

section \<open>The insertion\<close>

text \<open>The limit of the queue does not change: it has been lowered already, or the fragment is a small one.\<close>

definition limit_fixed :: "dg_rcall \<Rightarrow> u32 \<Rightarrow> bool" where
  "limit_fixed c len \<longleftrightarrow> n_resvs c = 0 \<or> len \<le> max (high_rcv_frag_size (rq c)) RPC_C_DG_MUST_RECV_FRAG_SIZE \<or>
     max_queue_len (rq c) \<noteq> RPC_C_DG_MAX_RECVQ_LEN"

lemma note_ok:
  assumes "limit_fixed c len"
  shows "\<exists>hs hr. recvq_note hp len c = Some (c\<lparr>rq := (rq c)\<lparr>
    recving_frags := recving_frags (rq c) \<or> RPC_DG_HDR_FLAG_IS_SET hp RPC_C_DG_PF_FRAG,
    high_serial_num := hs, high_rcv_frag_size := hr\<rparr>\<rparr>) \<and> hr = max (high_rcv_frag_size (rq c)) len"
proof -
  let ?q = "(rq c)\<lparr>recving_frags := recving_frags (rq c) \<or> RPC_DG_HDR_FLAG_IS_SET hp RPC_C_DG_PF_FRAG\<rparr>"
  define hs where "hs = (if RPC_DG_FRAGNUM_IS_LT (high_serial_num (rq c)) (hdr_serial hp) then hdr_serial hp else high_serial_num (rq c))"
  define q2 where "q2 = ?q\<lparr>high_serial_num := hs\<rparr>"
  have q2: "(if RPC_DG_FRAGNUM_IS_LT (high_serial_num ?q) (hdr_serial hp)
               then ?q\<lparr>high_serial_num := hdr_serial hp\<rparr> else ?q) = q2"
    by (simp add: q2_def hs_def)
  show ?thesis
  proof (cases "len > high_rcv_frag_size (rq c)")
    case True
    have "\<not> (n_resvs c > 0 \<and> len > RPC_C_DG_MUST_RECV_FRAG_SIZE \<and> max_queue_len (rq c) = RPC_C_DG_MAX_RECVQ_LEN)"
      using assms True by (auto simp: limit_fixed_def max_def word_neq_0_conv split: if_splits)
    then have "recvq_note hp len c = Some (c\<lparr>rq := q2\<lparr>high_rcv_frag_size := len\<rparr>\<rparr>)"
      unfolding recvq_note_def Let_def q2 using True by (auto simp: q2_def)
    then show ?thesis using True by (auto simp: q2_def max_def intro!: exI [of _ hs])
  next
    case False
    have "recvq_note hp len c = Some (c\<lparr>rq := q2\<rparr>)"
      unfolding recvq_note_def Let_def q2 using False by (simp add: q2_def)
    moreover have "q2 = q2\<lparr>high_rcv_frag_size := high_rcv_frag_size (rq c)\<rparr>" by (simp add: q2_def)
    ultimately have "recvq_note hp len c = Some (c\<lparr>rq := q2\<lparr>high_rcv_frag_size := high_rcv_frag_size (rq c)\<rparr>\<rparr>)" by metis
    then show ?thesis using False by (auto simp: q2_def max_def not_less intro!: exI [of _ hs])
  qed
qed

lemma rq_ok_cong:
  assumes "rq_ok c ins oos" "rqes c' = rqes c" "rq_head (rq c') = rq_head (rq c)"
    "last_inorder (rq c') = last_inorder (rq c)" "rq_next_fragnum (rq c') = rq_next_fragnum (rq c)"
    "high_fragnum (rq c') = high_fragnum (rq c)" "queue_len (rq c') = queue_len (rq c)"
    "inorder_len (rq c') = inorder_len (rq c)" "max_queue_len (rq c') = max_queue_len (rq c)"
    "head_fragnum (rq c') = head_fragnum (rq c)"
  shows "rq_ok c' ins oos"
  using assms(1) unfolding rq_ok_def assms(2-) .

text \<open>The fragment numbers do not reach the end of their range while the fragments queued are received.\<close>

definition no_wrap :: "dg_rcall \<Rightarrow> bool" where
  "no_wrap c \<longleftrightarrow> unat (rq_next_fragnum (rq c)) \<le> 65439"

lemma no_wrap_plus: "unat n + k < 65536 \<Longrightarrow> unat (n + of_nat k :: u16) = unat n + k"
  by (simp add: unat_add_mod unat_of_nat)

lemma no_wrap_fnum:
  assumes "unat n \<le> 65439" "off n f < 96"
  shows "unat f = unat n + off n f"
proof -
  have "f = n + of_nat (off n f)" by (simp add: off_def)
  moreover have "unat (n + of_nat (off n f)) = unat n + off n f"
    using assms by (intro no_wrap_plus) simp
  ultimately show ?thesis by simp
qed

lemma rq_ok_off:
  assumes "rq_ok c ins oos" "f \<in> set oos"
  shows "off (rq_next_fragnum (rq c)) (fnum (rqes c) f) < 96"
proof -
  have "off (rq_next_fragnum (rq c)) (fnum (rqes c) f) + length ins < unat (max_queue_len (rq c))"
    using rq_okD(2) [OF assms(1)] assms(2) by (simp add: nums_ok_def)
  then show ?thesis using rq_okD(6) [OF assms(1)] by linarith
qed

lemma no_wrap_ok:
  assumes "rq_ok c ins oos" "no_wrap c"
  shows "\<forall>f\<in>set oos. unat (rq_next_fragnum (rq c)) \<le> unat (fnum (rqes c) f)"
proof
  fix f assume "f \<in> set oos"
  then have "off (rq_next_fragnum (rq c)) (fnum (rqes c) f) < 96" by (rule rq_ok_off [OF assms(1)])
  from no_wrap_fnum [OF assms(2) [unfolded no_wrap_def] this]
  show "unat (rq_next_fragnum (rq c)) \<le> unat (fnum (rqes c) f)" by linarith
qed

text \<open>The numbers behind the gap after an insertion.\<close>

lemma after_next_wrap:
  assumes ok: "rq_ok c ins oos" and nw: "no_wrap c"
  defines "k \<equiv> run_len (rq_next_fragnum (rq c) + 1) (map (fnum (rqes c)) oos)"
  assumes g: "g \<in> set (drop k oos)"
  shows "unat (rq_next_fragnum (rq c) + 1 + of_nat k) \<le> unat (fnum (rqes c) g)"
proof -
  let ?n = "rq_next_fragnum (rq c)" and ?ns = "map (fnum (rqes c)) oos"
  note d = rq_okD [OF ok]
  have s: "sorted_wrt (<) (map (off ?n) ?ns)" and p: "\<forall>f\<in>set ?ns. 0 < off ?n f" using d(2) by (simp_all add: nums_ok_def)
  have gd: "fnum (rqes c) g \<in> set (drop k ?ns)" using g by (simp add: drop_map)
  have "length ?ns < 65535" using d(8) by simp
  with run_len_rest [OF s p, of "fnum (rqes c) g"] gd have "Suc k < off ?n (fnum (rqes c) g)" unfolding k_def by simp
  moreover have o: "off ?n (fnum (rqes c) g) < 96" using rq_ok_off [OF ok in_set_dropD [OF g]] .
  moreover have "unat (fnum (rqes c) g) = unat ?n + off ?n (fnum (rqes c) g)"
    using no_wrap_fnum nw o unfolding no_wrap_def by blast
  moreover have "unat (?n + of_nat (Suc k)) = unat ?n + Suc k"
    using nw calculation(1,2) unfolding no_wrap_def by (intro no_wrap_plus) linarith
  ultimately show ?thesis by (simp add: add.assoc)
qed

text \<open>A fragment that is queued, with the bookkeeping.\<close>

lemma place_accepts:
  assumes ok: "rq_ok c ins oos" and new: "new_frag (rqes c) (ins @ oos) r"
    and acc: "accepts pv c ins oos (fnum (rqes c) r)" and nw: "no_wrap c"
  shows "\<exists>c1 c' ins' oos'. insert_frag (rqes c) (rq_next_fragnum (rq c)) r ins oos = (ins', oos') \<and>
    recvq_place pv (hd r) (fnum (rqes c) r) c = Some (True, c1) \<and>
    recvq_account (fnum (rqes c) r) c1 = Some c' \<and> links_only (rqes c) (rqes c') \<and>
    c' = c\<lparr>rq := rq c', rqes := rqes c'\<rparr> \<and> rq_ok c' ins' oos' \<and>
    rq_next_fragnum (rq c') = rq_next_fragnum (rq c) + of_nat (length ins' - length ins) \<and>
    rq c' = (rq c)\<lparr>rq_head := rq_head (rq c'), last_inorder := last_inorder (rq c'),
      rq_next_fragnum := rq_next_fragnum (rq c'), high_fragnum := high_fragnum (rq c'),
      head_fragnum := head_fragnum (rq c'), queue_len := queue_len (rq c) + 1,
      inorder_len := inorder_len (rq c'),
      all_pkts_recvd := all_pkts_recvd (rq c) \<or> stream_complete (rqes c') (recving_frags (rq c)) ins'\<rparr> \<and>
    (\<forall>g\<in>set oos'. unat (rq_next_fragnum (rq c')) \<le> unat (fnum (rqes c') g))"
proof (cases "fnum (rqes c) r = rq_next_fragnum (rq c)")
  case True
  let ?k = "run_len (rq_next_fragnum (rq c) + 1) (map (fnum (rqes c)) oos)"
  have io: "insert_frag (rqes c) (rq_next_fragnum (rq c)) r ins oos = (ins @ r # take ?k oos, drop ?k oos)"
    using True by (simp add: insert_frag_def Let_def)
  have kl: "?k \<le> length oos" using run_len_le [of "rq_next_fragnum (rq c) + 1" "map (fnum (rqes c)) oos"] by simp
  have len: "length (ins @ r # take ?k oos) - length ins = Suc ?k" using kl by simp
  have N: "x + 1 + of_nat ?k = x + of_nat (length (ins @ r # take ?k oos) - length ins)" for x :: u16
    unfolding len by simp
  have W: "unat (rq_next_fragnum (rq c')) \<le> unat (fnum (rqes c') g)"
    if "links_only (rqes c) (rqes c')" "rq_next_fragnum (rq c') = rq_next_fragnum (rq c) + 1 + of_nat ?k" "g \<in> set (drop ?k oos)" for c' g
    unfolding that(2) links_facts(3) [OF that(1)] using after_next_wrap [OF ok nw that(3)] .
  from place_next [OF ok new acc True] show ?thesis
    unfolding io
    apply (elim exE conjE)
    subgoal premises p for c1 c'
      by (intro exI conjI, rule refl, rule p(1), rule p(2), rule p(3), rule p(4), rule p(5), rule p(6) [unfolded N], rule p(7),
          rule ballI, rule W [OF p(3) p(6)])
    done
next
  case False
  let ?P = "\<lambda>g. off (rq_next_fragnum (rq c)) (fnum (rqes c) g) < off (rq_next_fragnum (rq c)) (fnum (rqes c) r)"
  have io: "insert_frag (rqes c) (rq_next_fragnum (rq c)) r ins oos = (ins, takeWhile ?P oos @ r # dropWhile ?P oos)"
    using False by (simp add: insert_frag_def Let_def)
  have N: "x + of_nat (length ins - length ins) = x" for x :: u16 by simp
  have W: "\<forall>g\<in>set os. unat (rq_next_fragnum (rq c')) \<le> unat (fnum (rqes c') g)"
    if "rq_ok c' ins os" "rq_next_fragnum (rq c') = rq_next_fragnum (rq c)" for c' :: dg_rcall and os
    using no_wrap_ok [OF that(1)] that(2) nw unfolding no_wrap_def by simp
  from place_later [OF ok new acc False] show ?thesis
    unfolding io
    apply (elim exE conjE)
    subgoal premises p for c1 c'
      by (intro exI conjI, rule refl, rule p(1), rule p(2), rule p(3), rule p(4), rule p(5), rule trans [OF p(6) N [symmetric]], rule p(7),
          rule W [OF p(5) p(6)])
    done
qed

lemma links_get: "links_only h h' \<Longrightarrow> h x \<noteq> None \<Longrightarrow> h' x \<noteq> None"
  unfolding links_only_def by (metis option.map_disc_iff)

text \<open>The fields an insertion leaves behind the placement, in \<open>c2\<close>: a fack and the answer.\<close>

lemma insert_finish:
  assumes ok: "rq_ok c2 ins' oos'" and nw: "\<forall>g\<in>set oos'. unat (rq_next_fragnum (rq c2)) \<le> unat (fnum (rqes c2) g)"
    and r: "rqes c2 (hd r) \<noteq> None"
  defines "full \<equiv> length ins' + length oos' = unat (max_queue_len (rq c2))"
  shows "\<exists>c'. (if recving_frags (rq c2) \<and> \<not> all_pkts_recvd (rq c2)
              \<and> (ucast (queue_len (rq c2)) = max_queue_len (rq c2)
                 \<or> \<not> RPC_DG_HDR_FLAG_IS_SET hp RPC_C_DG_PF_NO_FACK)
          then rpc__dg_call_xmit_fack pv (hd r) False c2 else Some c2) = Some c' \<and>
     rq c' = rq c2 \<and> rqes c' = rqes c2 \<and> sock_is_private c' = sock_is_private c2 \<and>
     (if recving_frags (rq c2) \<and> \<not> all_pkts_recvd (rq c2) \<and> (full \<or> \<not> RPC_DG_HDR_FLAG_IS_SET hp RPC_C_DG_PF_NO_FACK)
      then \<exists>fk. sent_facks c' = sent_facks c2 @ [fk] \<and> fack_tells c' oos' fk \<and> \<not> fk_nocall fk
      else sent_facks c' = sent_facks c2) \<and>
     (\<exists>m. c' = c2\<lparr>n_resvs := m, sent_facks := sent_facks c'\<rparr>)"
proof -
  have q: "ucast (queue_len (rq c2)) = max_queue_len (rq c2) \<longleftrightarrow> full"
    unfolding full_def by (rule rq_lens(3) [OF ok])
  let ?b = "recving_frags (rq c2) \<and> \<not> all_pkts_recvd (rq c2) \<and> (full \<or> \<not> RPC_DG_HDR_FLAG_IS_SET hp RPC_C_DG_PF_NO_FACK)"
  show ?thesis
  proof (cases ?b)
    case True
    obtain fk m where fk: "rpc__dg_call_xmit_fack pv (hd r) False c2 = Some (c2\<lparr>n_resvs := m, sent_facks := sent_facks c2 @ [fk]\<rparr>)"
      "fack_tells c2 oos' fk" "fk_nocall fk = False"
      using fack_ok [OF ok _ nw, of "hd r" pv False] r by blast
    have "fack_tells (c2\<lparr>n_resvs := m, sent_facks := sent_facks c2 @ [fk]\<rparr>) oos' fk"
      using fk(2) by (subst fack_tells_cong [of _ c2]) simp_all
    then show ?thesis unfolding q if_P [OF True]
      by (intro exI [of _ "c2\<lparr>n_resvs := m, sent_facks := sent_facks c2 @ [fk]\<rparr>"]) (use fk in auto)
  next
    case False
    have "c2 = c2\<lparr>n_resvs := n_resvs c2, sent_facks := sent_facks c2\<rparr>" by simp
    then show ?thesis unfolding q if_not_P [OF False] by blast
  qed
qed

lemma ucast_len: "n < 256 \<Longrightarrow> ucast (of_nat n :: u8) = (of_nat n :: u32)"
  by (rule unat_eq_iff [THEN iffD1]) (simp add: unsigned_ucast_eq take_bit_nat_eq_self unat_of_nat)

text \<open>The call thread is woken: the conditions of the end of the insertion.\<close>

definition recvq_wakes :: "pool_view \<Rightarrow> dg_rcall \<Rightarrow> addr list list \<Rightarrow> addr list list \<Rightarrow> bool" where
  "recvq_wakes pv c ins oos \<longleftrightarrow> \<not> sock_is_private c \<and>
     (all_pkts_recvd (rq c) \<or> length ins + length oos = unat (max_queue_len (rq c)) \<or>
      high_rcv_frag_size (rq c) * of_nat (length ins) \<ge> ucast (wake_thread_qsize (rq c)) \<or>
      is_rationing pv \<and> ins \<noteq> [])"

text \<open>A fack is due: the stream is fragmented and not complete, and the queue is full or the sender asks.\<close>

definition fack_due :: "dg_hdr \<Rightarrow> dg_rcall \<Rightarrow> addr list list \<Rightarrow> addr list list \<Rightarrow> bool" where
  "fack_due hp c ins oos \<longleftrightarrow> recving_frags (rq c) \<and> \<not> all_pkts_recvd (rq c) \<and>
     (length ins + length oos = unat (max_queue_len (rq c)) \<or> \<not> RPC_DG_HDR_FLAG_IS_SET hp RPC_C_DG_PF_NO_FACK)"

lemma recvq_insert_ex:
  fixes pv :: pool_view
  assumes ok: "rq_ok c ins oos" and new: "new_frag (rqes c) (ins @ oos) r"
    and e: "rqes c (hd r) = Some e" "hdrp e = Some hp"
    and lim: "limit_fixed c (frag_len e)" and nw: "no_wrap c"
  defines "acc \<equiv> accepts pv c ins oos (fnum (rqes c) r)"
  defines "res \<equiv> if acc then insert_frag (rqes c) (rq_next_fragnum (rq c)) r ins oos else (ins, oos)"
  shows "\<exists>c'. rpc__dg_call_recvq_insert pv (hd r) c = Some (acc, recvq_wakes pv c' (fst res) (snd res), c') \<and>
      rq_ok c' (fst res) (snd res) \<and> links_only (rqes c) (rqes c') \<and>
      rq_next_fragnum (rq c') = rq_next_fragnum (rq c) + of_nat (length (fst res) - length ins) \<and>
      recving_frags (rq c') = (recving_frags (rq c) \<or> RPC_DG_HDR_FLAG_IS_SET hp RPC_C_DG_PF_FRAG) \<and>
      all_pkts_recvd (rq c') = (all_pkts_recvd (rq c) \<or>
        acc \<and> stream_complete (rqes c') (recving_frags (rq c')) (fst res)) \<and>
      max_queue_len (rq c') = max_queue_len (rq c) \<and>
      high_rcv_frag_size (rq c') = max (high_rcv_frag_size (rq c)) (frag_len e) \<and>
      (if fack_due hp c' (fst res) (snd res)
       then \<exists>fk. sent_facks c' = sent_facks c @ [fk] \<and> fack_tells c' (snd res) fk \<and> \<not> fk_nocall fk
       else sent_facks c' = sent_facks c) \<and>
      (\<exists>m. c' = c\<lparr>rq := rq c', rqes := rqes c', n_resvs := m, sent_facks := sent_facks c'\<rparr>)"
proof -
  let ?n = "rq_next_fragnum (rq c)" and ?f = "fnum (rqes c) r"
  define frags where "frags = (recving_frags (rq c) \<or> RPC_DG_HDR_FLAG_IS_SET hp RPC_C_DG_PF_FRAG)"
  obtain hs hr where note1: "recvq_note hp (frag_len e) c = Some (c\<lparr>rq := (rq c)\<lparr>
    recving_frags := frags, high_serial_num := hs, high_rcv_frag_size := hr\<rparr>\<rparr>)" "hr = max (high_rcv_frag_size (rq c)) (frag_len e)"
    using note_ok [OF lim, of hp] unfolding frags_def by blast
  define c1 where "c1 = c\<lparr>rq := (rq c)\<lparr>recving_frags := frags, high_serial_num := hs, high_rcv_frag_size := hr\<rparr>\<rparr>"
  have ok1: "rq_ok c1 ins oos" by (rule rq_ok_cong [OF ok]) (simp_all add: c1_def)
  have h1: "rqes c1 = rqes c" "rq_next_fragnum (rq c1) = ?n" "max_queue_len (rq c1) = max_queue_len (rq c)"
    "recving_frags (rq c1) = frags" "all_pkts_recvd (rq c1) = all_pkts_recvd (rq c)" "high_rcv_frag_size (rq c1) = hr"
    "sock_is_private c1 = sock_is_private c" "sent_facks c1 = sent_facks c" by (simp_all add: c1_def)
  have acc1: "accepts pv c1 ins oos ?f = acc" by (simp add: acc_def accepts_def c1_def)
  have new1: "new_frag (rqes c1) (ins @ oos) r" using new by (simp add: h1)
  have nw1: "no_wrap c1" using nw by (simp add: no_wrap_def h1)
  have ne: "\<forall>g\<in>set (ins @ oos). g \<noteq> []" using q_shape_facts(1) [OF rq_okD(1) [OF ok]] by blast
  note nf = new_frag_facts [OF new ne]
  have f: "?f = hdr_fragnum hp" using e by (simp add: fnum_def)
  obtain c0 c2 ins' oos' where c2: "res = (ins', oos')" "recvq_place pv (hd r) ?f c1 = Some (acc, c0)"
    "(if acc then recvq_account ?f c0 else Some c0) = Some c2" "links_only (rqes c) (rqes c2)"
    "c2 = c1\<lparr>rq := rq c2, rqes := rqes c2\<rparr>" "rq_ok c2 ins' oos'"
    "rq_next_fragnum (rq c2) = ?n + of_nat (length ins' - length ins)"
    "recving_frags (rq c2) = frags" "max_queue_len (rq c2) = max_queue_len (rq c)" "high_rcv_frag_size (rq c2) = hr"
    "all_pkts_recvd (rq c2) = (all_pkts_recvd (rq c) \<or> acc \<and> stream_complete (rqes c2) frags ins')"
    "\<forall>g\<in>set oos'. unat (rq_next_fragnum (rq c2)) \<le> unat (fnum (rqes c2) g)"
  proof (cases acc)
    case False
    then have p: "recvq_place pv (hd r) ?f c1 = Some (acc, c1)"
      using place_rejects [OF ok1 new1, of pv] acc1 unfolding h1 by simp
    show thesis
      by (rule that [of ins oos c1 c1, OF _ p])
        (use False ok1 h1 no_wrap_ok [OF ok1 nw1] in \<open>simp_all add: res_def\<close>)
  next
    case T: True
    have a: "accepts pv c1 ins oos (fnum (rqes c1) r)" using T acc1 by (simp add: h1)
    obtain c0 c2 ins' oos' where p: "insert_frag (rqes c1) (rq_next_fragnum (rq c1)) r ins oos = (ins', oos')"
      "recvq_place pv (hd r) (fnum (rqes c1) r) c1 = Some (True, c0)"
      "recvq_account (fnum (rqes c1) r) c0 = Some c2" "links_only (rqes c1) (rqes c2)"
      "c2 = c1\<lparr>rq := rq c2, rqes := rqes c2\<rparr>" "rq_ok c2 ins' oos'"
      "rq_next_fragnum (rq c2) = rq_next_fragnum (rq c1) + of_nat (length ins' - length ins)"
      "rq c2 = (rq c1)\<lparr>rq_head := rq_head (rq c2), last_inorder := last_inorder (rq c2),
        rq_next_fragnum := rq_next_fragnum (rq c2), high_fragnum := high_fragnum (rq c2),
        head_fragnum := head_fragnum (rq c2), queue_len := queue_len (rq c1) + 1,
        inorder_len := inorder_len (rq c2),
        all_pkts_recvd := all_pkts_recvd (rq c1) \<or> stream_complete (rqes c2) (recving_frags (rq c1)) ins'\<rparr>"
      "\<forall>g\<in>set oos'. unat (rq_next_fragnum (rq c2)) \<le> unat (fnum (rqes c2) g)"
      using place_accepts [OF ok1 new1 a nw1] by (elim exE conjE) (rule that)
    have g: "recving_frags (rq c2) = recving_frags (rq c1)" "max_queue_len (rq c2) = max_queue_len (rq c1)"
      "high_rcv_frag_size (rq c2) = high_rcv_frag_size (rq c1)"
      "all_pkts_recvd (rq c2) = (all_pkts_recvd (rq c1) \<or> stream_complete (rqes c2) (recving_frags (rq c1)) ins')"
      by (subst p(8), simp)+
    show thesis
    proof (rule that [of ins' oos' c0 c2])
      show "res = (ins', oos')" using p(1) T by (simp add: res_def h1)
    qed (use p(2-7,9) g T h1 in simp_all)
  qed
  have sc: "sent_facks c2 = sent_facks c" by (subst c2(5)) (simp add: h1)
  have r2: "rqes c2 (hd r) \<noteq> None" using links_get [OF c2(4)] e by simp
  obtain c' where c': "(if recving_frags (rq c2) \<and> \<not> all_pkts_recvd (rq c2)
              \<and> (ucast (queue_len (rq c2)) = max_queue_len (rq c2)
                 \<or> \<not> RPC_DG_HDR_FLAG_IS_SET hp RPC_C_DG_PF_NO_FACK)
          then rpc__dg_call_xmit_fack pv (hd r) False c2 else Some c2) = Some c'"
     "rq c' = rq c2" "rqes c' = rqes c2" "sock_is_private c' = sock_is_private c2"
     "(if fack_due hp c2 ins' oos'
      then \<exists>fk. sent_facks c' = sent_facks c2 @ [fk] \<and> fack_tells c' oos' fk \<and> \<not> fk_nocall fk
      else sent_facks c' = sent_facks c2)"
     "\<exists>m. c' = c2\<lparr>n_resvs := m, sent_facks := sent_facks c'\<rparr>"
    using insert_finish [OF c2(6,12) r2, where hp = hp and pv = pv] unfolding fack_due_def
    by - (erule exE, (erule conjE)+, rule that [unfolded fack_due_def])
  have fd: "fack_due hp c' ins' oos' = fack_due hp c2 ins' oos'" by (simp add: fack_due_def c'(2))
  have w: "(\<not> sock_is_private c' \<and>
         (all_pkts_recvd (rq c') \<or> ucast (queue_len (rq c')) = max_queue_len (rq c')
          \<or> high_rcv_frag_size (rq c') * ucast (inorder_len (rq c')) \<ge> ucast (wake_thread_qsize (rq c'))
          \<or> is_rationing pv \<and> inorder_len (rq c') > 0)) = recvq_wakes pv c' ins' oos'"
  proof -
    note d = rq_okD [OF c2(6)]
    have l: "ucast (inorder_len (rq c2)) = (of_nat (length ins') :: u32)"
      unfolding d(4) using d(8) by (intro ucast_len) simp
    have z: "inorder_len (rq c2) > 0 \<longleftrightarrow> ins' \<noteq> []"
      using rq_lens(2) [OF c2(6)] by (simp add: word_greater_zero_iff flip: unat_eq_0)
    show ?thesis unfolding recvq_wakes_def c'(2) rq_lens(3) [OF c2(6)] l z ..
  qed
  have "rpc__dg_call_recvq_insert pv (hd r) c = Some (acc, recvq_wakes pv c' ins' oos', c')"
    unfolding rpc__dg_call_recvq_insert_def rget_nz [OF nf(2)] e Option.bind.simps(2) note1(1) c1_def [symmetric]
      f [symmetric] c2(2) prod.case c2(3) c'(1) Let_def w ..
  moreover have "\<exists>m. c' = c\<lparr>rq := rq c', rqes := rqes c', n_resvs := m, sent_facks := sent_facks c'\<rparr>"
  proof -
    obtain m where "c' = c2\<lparr>n_resvs := m, sent_facks := sent_facks c'\<rparr>" using c'(6) by blast
    then have "c' = (c1\<lparr>rq := rq c2, rqes := rqes c2\<rparr>)\<lparr>n_resvs := m, sent_facks := sent_facks c'\<rparr>"
      using c2(5) by simp
    then have "c' = c\<lparr>rq := rq c2, rqes := rqes c2, n_resvs := m, sent_facks := sent_facks c'\<rparr>"
      by (simp add: c1_def)
    then show ?thesis unfolding c'(2,3) by blast
  qed
  moreover have "rq_ok c' ins' oos'" by (rule rq_ok_cong [OF c2(6)]) (simp_all add: c'(2,3))
  moreover have "links_only (rqes c) (rqes c')"
    "rq_next_fragnum (rq c') = rq_next_fragnum (rq c) + of_nat (length ins' - length ins)"
    "recving_frags (rq c') = (recving_frags (rq c) \<or> RPC_DG_HDR_FLAG_IS_SET hp RPC_C_DG_PF_FRAG)"
    "all_pkts_recvd (rq c') = (all_pkts_recvd (rq c) \<or> acc \<and> stream_complete (rqes c') (recving_frags (rq c')) ins')"
    "max_queue_len (rq c') = max_queue_len (rq c)"
    "high_rcv_frag_size (rq c') = max (high_rcv_frag_size (rq c)) (frag_len e)"
    using c2(4,7-11) note1(2) unfolding c'(2,3) frags_def by simp_all
  moreover have "if fack_due hp c' ins' oos'
      then \<exists>fk. sent_facks c' = sent_facks c @ [fk] \<and> fack_tells c' oos' fk \<and> \<not> fk_nocall fk
      else sent_facks c' = sent_facks c"
    using c'(5) unfolding fd sc .
  ultimately show ?thesis unfolding c2(1) fst_conv snd_conv by (intro exI [of _ c'] conjI)
qed

section \<open>Receiving a buffer\<close>

lemma frag_frame:
  assumes "\<forall>x\<in>set g. h' x = h x" "g \<noteq> []"
  shows "frag_ok h' g = frag_ok h g" "has_hdr h' g = has_hdr h g" "fnum h' g = fnum h g"
proof -
  have hd: "h' (hd g) = h (hd g)" using assms by simp
  have tl: "mseg h' p (tl g) = mseg h p (tl g)" for p
    using assms by (intro mseg_frame) (auto dest: list.set_sel(2))
  show "frag_ok h' g = frag_ok h g" "has_hdr h' g = has_hdr h g" "fnum h' g = fnum h g"
    unfolding frag_ok_def has_hdr_def fnum_def hd tl by simp_all
qed

lemma shape_tail:
  assumes "q_shape h first li ((b # bs) # ins) oos"
  shows "h b \<noteq> None" "b \<noteq> NULL" "first = b" "b \<notin> set (concat (ins @ oos))" "set bs \<inter> set (concat (ins @ oos)) = {}"
    "b \<notin> set bs" "distinct bs" "\<forall>g\<in>set (ins @ oos). g \<noteq> [] \<and> frag_ok h g \<and> has_hdr h g"
    "distinct (concat (ins @ oos))" "mseg h (more_data (the (h b))) bs" "li = (if ins = [] then b else end_of NULL ins)"
    "rseg h (rqe_next (the (h b))) (map hd (ins @ oos)) NULL" "li = b \<longleftrightarrow> ins = []"
proof -
  have q: "\<forall>f\<in>set (((b # bs) # ins) @ oos). frag_ok h f" "distinct (concat (((b # bs) # ins) @ oos))"
    "rseg h first (map hd (((b # bs) # ins) @ oos)) NULL" "li = end_of NULL ((b # bs) # ins)"
    "\<forall>f\<in>set (ins @ oos). has_hdr h f"
    using assms by (simp_all add: q_shape_def)
  have f: "frag_ok h (b # bs)" using q(1) by simp
  then obtain e where e: "h b = Some e" "mseg h (more_data e) bs" "b \<noteq> NULL" by (auto simp: frag_ok_def)
  show "h b \<noteq> None" "b \<noteq> NULL" "mseg h (more_data (the (h b))) bs" using e by simp_all
  show "first = b" using q(3) by simp
  show d: "b \<notin> set (concat (ins @ oos))" "set bs \<inter> set (concat (ins @ oos)) = {}" "b \<notin> set bs" "distinct bs"
    "distinct (concat (ins @ oos))"
    using q(2) by auto
  show n: "\<forall>g\<in>set (ins @ oos). g \<noteq> [] \<and> frag_ok h g \<and> has_hdr h g"
    using q(1,5) by (auto simp: frag_ok_def)
  show li: "li = (if ins = [] then b else end_of NULL ins)" using q(4) by (auto simp: end_of_def)
  show "rseg h (rqe_next (the (h b))) (map hd (ins @ oos)) NULL" using q(3) e(1) by auto
  show "li = b \<longleftrightarrow> ins = []"
  proof (cases ins rule: rev_cases)
    case (snoc xs x)
    then have "x \<in> set (ins @ oos)" by simp
    then have "x \<noteq> []" using n by blast
    then have "hd x \<in> set (concat (ins @ oos))" using snoc by simp
    then have "hd x \<noteq> b" using d(1) by blast
    then show ?thesis using li snoc by simp
  qed (use li in simp)
qed

text \<open>The shape after the first buffer of the first fragment was taken.\<close>

lemma shape_dequeue_last:
  assumes "q_shape h first li ([b] # ins) oos"
  shows "q_shape h (rqe_next (the (h b))) (if li = b then NULL else li) ins oos"
proof -
  note s = shape_tail [OF assms]
  show ?thesis unfolding q_shape_def
    using s(8,9,11,12,13) by (cases ins) (auto dest: in_set_takeD)
qed

lemma shape_dequeue_more:
  assumes sh: "q_shape h first li ((b # m # ms) # ins) oos" and e: "h b = Some e" "h m = Some em"
  defines "h' \<equiv> h(m \<mapsto> em\<lparr>rqe_next := rqe_next e\<rparr>, b \<mapsto> e\<lparr>more_data := NULL\<rparr>)"
  shows "q_shape h' m (if li = b then m else li) ((m # ms) # ins) oos"
proof -
  note s = shape_tail [OF sh]
  have bm: "b \<noteq> m" "m \<notin> set ms" "b \<notin> set ms" using s(6,7) by auto
  have same: "h' x = h x" if "x \<noteq> b" "x \<noteq> m" for x using that by (simp add: h'_def)
  have m0: "m \<noteq> NULL" "mseg h (more_data em) ms" using s(10) e by auto
  have hm: "h' m = Some (em\<lparr>rqe_next := rqe_next e\<rparr>)" using bm by (simp add: h'_def)
  have "\<And>x. x \<in> set ms \<Longrightarrow> h' x = h x" using bm same by metis
  from mseg_frame [where h' = h' and h = h and xs = ms, OF this] have ms: "mseg h' (more_data em) ms" using m0(2) by blast
  have fm: "frag_ok h' (m # ms)" using hm ms m0(1) by (simp add: frag_ok_def)
  have out: "\<forall>x\<in>set g. h' x = h x" if "g \<in> set (ins @ oos)" for g
  proof
    fix x assume "x \<in> set g"
    then have "x \<in> set (concat (ins @ oos))" using that by auto
    then have "x \<noteq> b" "x \<noteq> m" using s(4,5) by auto
    then show "h' x = h x" by (rule same)
  qed
  have fr: "frag_ok h' g" "has_hdr h' g" if "g \<in> set (ins @ oos)" for g
    using frag_frame [OF out [OF that]] s(8) that by simp_all
  have rs: "rseg h' (rqe_next e) (map hd (ins @ oos)) NULL"
  proof -
    have "rseg h (rqe_next e) (map hd (ins @ oos)) NULL" using s(12) e by simp
    moreover have "h' x = h x" if x: "x \<in> set (map hd (ins @ oos))" for x
    proof -
      obtain g where "g \<in> set (ins @ oos)" "x = hd g" using x by auto
      then show ?thesis using out [of g] s(8) by simp
    qed
    ultimately show ?thesis using rseg_frame [of "map hd (ins @ oos)" h' h] by blast
  qed
  have "distinct (concat (((m # ms) # ins) @ oos))" using s(5,7,9) by auto
  moreover have "(if li = b then m else li) = end_of NULL ((m # ms) # ins)"
    using s(11,13) by (auto simp: end_of_def)
  ultimately show ?thesis unfolding q_shape_def using fm fr rs hm m0(1) by auto
qed

lemma nums_less: "nums_ok W n high L ns \<Longrightarrow> L' \<le> L \<Longrightarrow> nums_ok W n high L' ns"
  by (auto simp: nums_ok_def intro: le_less_trans)

text \<open>What a dequeue keeps of the queue's fields.\<close>

definition rq_kept :: "dg_recvq \<Rightarrow> dg_recvq \<Rightarrow> bool" where
  "rq_kept q q' \<longleftrightarrow> (\<exists>a b c d e f. q' = q\<lparr>rq_head := a, last_inorder := b, head_fragnum := c,
     head_serial_num := d, queue_len := e, inorder_len := f\<rparr>)"

lemma rq_kept_fields:
  assumes "rq_kept q q'"
  shows "rq_next_fragnum q' = rq_next_fragnum q" "max_queue_len q' = max_queue_len q"
    "recving_frags q' = recving_frags q" "all_pkts_recvd q' = all_pkts_recvd q"
    "high_rcv_frag_size q' = high_rcv_frag_size q" "is_way_validated q' = is_way_validated q"
    "high_fragnum q' = high_fragnum q"
  using assms by (auto simp: rq_kept_def)

lemma dequeue_ok:
  assumes ok: "rq_ok c ((b # bs) # ins) oos" and e: "rqes c b = Some e"
  shows "\<exists>c1. dequeue_head e c = Some c1 \<and> rq_ok c1 (if bs = [] then ins else bs # ins) oos \<and>
    c1 = c\<lparr>rq := rq c1, rqes := rqes c1\<rparr> \<and>
    rq_kept (rq c) (rq c1) \<and>
    rqes c1 b = Some (e\<lparr>more_data := NULL\<rparr>) \<and>
    (\<forall>x. map_option hdrp (rqes c1 x) = map_option hdrp (rqes c x)) \<and>
    (\<forall>x. x \<notin> set (b # bs) \<longrightarrow> rqes c1 x = rqes c x)"
proof -
  let ?h = "rqes c" and ?q = "rq c" and ?n = "rq_next_fragnum (rq c)"
  note d = rq_okD [OF ok]
  note s = shape_tail [OF d(1)]
  have hd0: "rq_head ?q = b" by (rule s(3))
  define q1 where "q1 = (case hdrp e of None \<Rightarrow> ?q | Some hp \<Rightarrow> ?q\<lparr>head_serial_num := hdr_serial hp\<rparr>)"
  have q1: "q1 = ?q\<lparr>head_serial_num := head_serial_num q1\<rparr>" unfolding q1_def by (cases "hdrp e") simp_all
  have q1f: "rq_head q1 = rq_head ?q" "last_inorder q1 = last_inorder ?q" "inorder_len q1 = inorder_len ?q"
    "queue_len q1 = queue_len ?q" "head_fragnum q1 = head_fragnum ?q" "rq_next_fragnum q1 = ?n"
    "high_fragnum q1 = high_fragnum ?q" "max_queue_len q1 = max_queue_len ?q"
    by (subst q1, simp)+
  have num: "fnum ?h (ins ! i) = ?n - of_nat (length ins - i)" if "i < length ins" "has_hdr ?h (ins ! i)" for i
  proof -
    have "\<forall>i<length ((b # bs) # ins). has_hdr ?h (((b # bs) # ins) ! i) \<longrightarrow>
        fnum ?h (((b # bs) # ins) ! i) = ?n - of_nat (length ((b # bs) # ins) - i)"
      using ok by (simp add: rq_ok_def)
    from this [rule_format, of "Suc i"] show ?thesis using that by simp
  qed
  show ?thesis
  proof (cases bs)
    case Nil
    have m0: "more_data e = NULL" using s(10) e Nil by simp
    have sh1: "q_shape ?h (rqe_next e) (if last_inorder ?q = b then NULL else last_inorder ?q) ins oos"
      using shape_dequeue_last [of ?h "rq_head ?q" "last_inorder ?q" b ins oos] d(1) Nil e by simp
    note qf = q_shape_facts [OF sh1]
    define hf where "hf = (if ins @ oos = [] then head_fragnum ?q else fnum ?h (hd (ins @ oos)))"
    define q2 where "q2 = q1\<lparr>rq_head := rqe_next e, head_fragnum := hf,
      last_inorder := if last_inorder ?q = b then NULL else last_inorder ?q,
      inorder_len := inorder_len ?q - 1, queue_len := queue_len ?q - 1\<rparr>"
    have "dequeue_head e c = Some (c\<lparr>rq := q2\<rparr>)"
    proof (cases "ins @ oos = []")
      case True
      then have "rqe_next e = NULL" using qf(5) by blast
      then have "dequeue_head e c = Some (c\<lparr>rq := q1\<lparr>rq_head := NULL,
          last_inorder := if last_inorder ?q = b then NULL else last_inorder ?q,
          inorder_len := inorder_len ?q - 1, queue_len := queue_len ?q - 1\<rparr>\<rparr>)"
        unfolding dequeue_head_def Let_def q1_def [symmetric] using m0 hd0 by (simp add: q1f)
      moreover have "q1\<lparr>rq_head := NULL, last_inorder := x, inorder_len := y, queue_len := z\<rparr>
          = q1\<lparr>rq_head := NULL, head_fragnum := head_fragnum q1, last_inorder := x, inorder_len := y, queue_len := z\<rparr>" for x y z
        by simp
      ultimately show ?thesis using True \<open>rqe_next e = NULL\<close> by (simp add: q2_def hf_def q1f)
    next
      case False
      let ?g = "hd (ins @ oos)"
      have g: "?g \<in> set (ins @ oos)" using False by (rule hd_in_set)
      have g1: "has_hdr ?h ?g" "hd ?g \<noteq> NULL" using s(8) qf(1) g by blast+
      have nx: "rqe_next e = hd ?g" using qf(4) unfolding first_of_def if_not_P [OF False] .
      obtain eg hp where eg: "?h (hd ?g) = Some eg" "hdrp eg = Some hp" using g1(1) unfolding has_hdr_def by blast
      have fg: "fnum ?h ?g = hdr_fragnum hp" using eg by (simp add: fnum_def)
      have rh: "rhdr (rqe_next e) ?h = Some hp" unfolding nx rhdr_def rget_nz [OF g1(2)] eg by (simp add: eg)
      have nz: "rqe_next e \<noteq> NULL" using nx g1(2) by simp
      have hfe: "hf = hdr_fragnum hp" unfolding hf_def if_not_P [OF False] fg ..
      show ?thesis
        unfolding dequeue_head_def Let_def q1_def [symmetric] using m0 hd0 rh nz
        by (simp add: q2_def hfe q1f)
    qed
    moreover have "rq_ok (c\<lparr>rq := q2\<rparr>) ins oos"
      unfolding rq_ok_def
    proof (intro conjI)
      show "q_shape (rqes (c\<lparr>rq := q2\<rparr>)) (rq_head (rq (c\<lparr>rq := q2\<rparr>))) (last_inorder (rq (c\<lparr>rq := q2\<rparr>))) ins oos"
        using sh1 by (simp add: q2_def)
      show "nums_ok (unat (max_queue_len (rq (c\<lparr>rq := q2\<rparr>)))) (rq_next_fragnum (rq (c\<lparr>rq := q2\<rparr>)))
          (high_fragnum (rq (c\<lparr>rq := q2\<rparr>))) (length ins) (map (fnum (rqes (c\<lparr>rq := q2\<rparr>))) oos)"
        using nums_less [OF d(2), of "length ins"] by (simp add: q2_def q1f)
      show "ins @ oos \<noteq> [] \<longrightarrow> head_fragnum (rq (c\<lparr>rq := q2\<rparr>)) = (if ins = []
          then fnum (rqes (c\<lparr>rq := q2\<rparr>)) (hd oos) else rq_next_fragnum (rq (c\<lparr>rq := q2\<rparr>)) - of_nat (length ins))"
      proof (cases ins)
        case (Cons g gs)
        then show ?thesis using num [of 0] s(8) by (simp add: q2_def hf_def q1f)
      qed (simp add: q2_def hf_def q1f)
    qed (use d num in \<open>simp_all add: q2_def q1f\<close>)
    moreover have "rq_kept ?q q2"
    proof -
      have "q2 = ?q\<lparr>rq_head := rqe_next e, last_inorder := if last_inorder ?q = b then NULL else last_inorder ?q,
          head_fragnum := hf, head_serial_num := head_serial_num q1, queue_len := queue_len ?q - 1,
          inorder_len := inorder_len ?q - 1\<rparr>"
        unfolding q2_def by (subst (1) q1) simp
      then show ?thesis unfolding rq_kept_def by (intro exI)
    qed
    ultimately show ?thesis
    proof (intro exI conjI)
      assume a: "dequeue_head e c = Some (c\<lparr>rq := q2\<rparr>)" "rq_ok (c\<lparr>rq := q2\<rparr>) ins oos" "rq_kept ?q q2"
      show "dequeue_head e c = Some (c\<lparr>rq := q2\<rparr>)" by (rule a(1))
      show "rq_ok (c\<lparr>rq := q2\<rparr>) (if bs = [] then ins else bs # ins) oos" using a(2) Nil by simp
      show "rq_kept ?q (rq (c\<lparr>rq := q2\<rparr>))" using a(3) by simp
      show "rqes (c\<lparr>rq := q2\<rparr>) b = Some (e\<lparr>more_data := NULL\<rparr>)" using m0 e by simp
    qed simp_all
  next
    case (Cons m ms)
    have ms: "mseg ?h (more_data e) (m # ms)" using s(10) e Cons by simp
    then obtain em where em: "?h m = Some em" "hdrp em = None" "more_data e = m" "m \<noteq> NULL" by auto
    have bm: "b \<noteq> m" using s(6) Cons by auto
    define h' where "h' = ?h(m \<mapsto> em\<lparr>rqe_next := rqe_next e\<rparr>, b \<mapsto> e\<lparr>more_data := NULL\<rparr>)"
    have sh1: "q_shape h' m (if last_inorder ?q = b then m else last_inorder ?q) ((m # ms) # ins) oos"
      using shape_dequeue_more [of ?h "rq_head ?q" "last_inorder ?q" b m ms ins oos e em] d(1) Cons e em(1)
      unfolding h'_def by simp
    define q2 where "q2 = q1\<lparr>rq_head := m, last_inorder := if last_inorder ?q = b then m else last_inorder ?q\<rparr>"
    let ?c = "c\<lparr>rq := q2, rqes := h'\<rparr>"
    have "set_rqe_next m (rqe_next e) ?h = Some (?h(m \<mapsto> em\<lparr>rqe_next := rqe_next e\<rparr>))"
      using em by (simp add: set_rqe_next_def)
    then have dq: "dequeue_head e c = Some ?c"
      unfolding dequeue_head_def Let_def q1_def [symmetric] using em hd0 e bm s(2)
      by (simp add: q1f q2_def h'_def rget_def)
    have hs: "map_option hdrp (h' x) = map_option hdrp (?h x)" for x
      using em e by (simp add: h'_def)
    have out: "h' x = ?h x" if "x \<notin> set (b # bs)" for x using that Cons by (simp add: h'_def)
    have fr: "frag_ok h' g = frag_ok ?h g" "has_hdr h' g = has_hdr ?h g" "fnum h' g = fnum ?h g" if "g \<in> set (ins @ oos)" for g
    proof -
      have "\<forall>x\<in>set g. h' x = ?h x" using that s(4,5) by (intro ballI out) auto
      then show "frag_ok h' g = frag_ok ?h g" "has_hdr h' g = has_hdr ?h g" "fnum h' g = fnum ?h g"
        using frag_frame [of g h' ?h] s(8) that by simp_all
    qed
    have N: "map (fnum h') oos = map (fnum ?h) oos" using fr(3) by simp
    have nohdr: "\<not> has_hdr h' (m # ms)" using em bm by (simp add: has_hdr_def h'_def)
    have "rq_ok ?c ((m # ms) # ins) oos"
      unfolding rq_ok_def
    proof (intro conjI)
      show "q_shape (rqes ?c) (rq_head (rq ?c)) (last_inorder (rq ?c)) ((m # ms) # ins) oos"
        using sh1 by (simp add: q2_def)
      show "nums_ok (unat (max_queue_len (rq ?c))) (rq_next_fragnum (rq ?c))
          (high_fragnum (rq ?c)) (length ((m # ms) # ins)) (map (fnum (rqes ?c)) oos)"
        using d(2) unfolding N [symmetric] by (simp add: q2_def q1f)
      show "\<forall>i<length ((m # ms) # ins). has_hdr (rqes ?c) (((m # ms) # ins) ! i) \<longrightarrow>
          fnum (rqes ?c) (((m # ms) # ins) ! i) = rq_next_fragnum (rq ?c) - of_nat (length ((m # ms) # ins) - i)"
      proof (intro allI impI)
        fix i assume i: "i < length ((m # ms) # ins)" "has_hdr (rqes ?c) (((m # ms) # ins) ! i)"
        then obtain j where j: "i = Suc j" using nohdr by (cases i) auto
        have "ins ! j \<in> set (ins @ oos)" using i(1) j by simp
        then show "fnum (rqes ?c) (((m # ms) # ins) ! i) = rq_next_fragnum (rq ?c) - of_nat (length ((m # ms) # ins) - i)"
          using num [of j] i j fr [of "ins ! j"] by (simp add: q2_def q1f)
      qed
      show "((m # ms) # ins) @ oos \<noteq> [] \<longrightarrow> head_fragnum (rq ?c) = (if (m # ms) # ins = []
          then fnum (rqes ?c) (hd oos) else rq_next_fragnum (rq ?c) - of_nat (length ((m # ms) # ins)))"
        using ok by (simp add: rq_ok_def q2_def q1f)
    qed (use d in \<open>simp_all add: q2_def q1f\<close>)
    moreover have "rq_kept ?q q2"
    proof -
      have "q2 = ?q\<lparr>rq_head := m, last_inorder := if last_inorder ?q = b then m else last_inorder ?q,
          head_fragnum := head_fragnum ?q, head_serial_num := head_serial_num q1, queue_len := queue_len ?q,
          inorder_len := inorder_len ?q\<rparr>"
        unfolding q2_def by (subst (1) q1) simp
      then show ?thesis unfolding rq_kept_def by (intro exI)
    qed
    ultimately show ?thesis
    proof (intro exI conjI)
      assume a: "rq_ok ?c ((m # ms) # ins) oos" "rq_kept ?q q2"
      show "dequeue_head e c = Some ?c" by (rule dq)
      show "rq_ok ?c (if bs = [] then ins else bs # ins) oos" using a(1) Cons by simp
      show "rq_kept ?q (rq ?c)" using a(2) by simp
      show "rqes ?c b = Some (e\<lparr>more_data := NULL\<rparr>)" by (simp add: h'_def)
      show "\<forall>x. map_option hdrp (rqes ?c x) = map_option hdrp (?h x)" using hs by simp
      show "\<forall>x. x \<notin> set (b # bs) \<longrightarrow> rqes ?c x = ?h x" using out by simp
    qed simp_all
  qed
qed

lemma fack_full:
  assumes "rq_ok c ins oos"
  shows "uint (queue_len (rq c)) = uint (max_queue_len (rq c)) - 1 \<longleftrightarrow>
    Suc (length ins + length oos) = unat (max_queue_len (rq c))"
proof -
  have "int (unat (queue_len (rq c))) = uint (queue_len (rq c))"
    "int (unat (max_queue_len (rq c))) = uint (max_queue_len (rq c))" by simp_all
  then show ?thesis using rq_lens(1) [OF assms] by linarith
qed

text \<open>Taking a buffer leaves the others of the queue and their numbers as they are.\<close>

lemma dequeue_nums:
  assumes ok: "rq_ok c ((b # bs) # ins1) oos" and e: "rqes c b = Some e"
  obtains c1 where "dequeue_head e c = Some c1" "rq_ok c1 (if bs = [] then ins1 else bs # ins1) oos"
    "c1 = c\<lparr>rq := rq c1, rqes := rqes c1\<rparr>" "rq_kept (rq c) (rq c1)"
    "rqes c1 b = Some (e\<lparr>more_data := NULL\<rparr>)"
    "\<forall>x. map_option hdrp (rqes c1 x) = map_option hdrp (rqes c x)"
    "\<forall>x. x \<notin> set (b # bs) \<longrightarrow> rqes c1 x = rqes c x" "\<forall>f\<in>set oos. fnum (rqes c1) f = fnum (rqes c) f"
proof -
  note s = shape_tail [OF rq_okD(1) [OF ok]]
  obtain c1 where c1: "dequeue_head e c = Some c1" "rq_ok c1 (if bs = [] then ins1 else bs # ins1) oos"
    "c1 = c\<lparr>rq := rq c1, rqes := rqes c1\<rparr>" "rq_kept (rq c) (rq c1)"
    "rqes c1 b = Some (e\<lparr>more_data := NULL\<rparr>)"
    "\<forall>x. map_option hdrp (rqes c1 x) = map_option hdrp (rqes c x)"
    "\<forall>x. x \<notin> set (b # bs) \<longrightarrow> rqes c1 x = rqes c x"
    using dequeue_ok [OF ok e] by (elim exE conjE) (rule that)
  have "\<forall>f\<in>set oos. fnum (rqes c1) f = fnum (rqes c) f"
  proof
    fix f assume f: "f \<in> set oos"
    have "\<forall>x\<in>set f. rqes c1 x = rqes c x"
    proof
      fix x assume "x \<in> set f"
      then have "x \<in> set (concat (ins1 @ oos))" using f by auto
      then have "x \<notin> set (b # bs)" using s(4,5) by auto
      then show "rqes c1 x = rqes c x" using c1(7) by blast
    qed
    then show "fnum (rqes c1) f = fnum (rqes c) f" using frag_frame(3) [of f "rqes c1" "rqes c"] s(8) f by simp
  qed
  with c1 show thesis by (rule that)
qed

lemma receive_gen:
  assumes ok: "rq_ok c ins oos" and st: "call_status c = 0" "\<not> call_is_orphan c" and i: "ins = (b # bs) # ins1"
    and nw: "Suc (length (if bs = [] then ins1 else bs # ins1) + length oos) = unat (max_queue_len (rq c)) \<longrightarrow>
      (\<forall>f\<in>set oos. unat (rq_next_fragnum (rq c)) \<le> unat (fnum (rqes c) f))"
  shows "\<exists>c' len. rpc__dg_call_receive_int pv c = Some (Recv_data b len, c') \<and>
      len = RPC_DG_RECVQ_IOVECTOR_SETUP (the (rqes c b)) \<and>
      rq_ok c' (if bs = [] then ins1 else bs # ins1) oos \<and> rq_kept (rq c) (rq c') \<and>
      (\<forall>x. map_option hdrp (rqes c' x) = map_option hdrp (rqes c x)) \<and>
      (\<forall>x. x \<notin> set (b # bs) \<longrightarrow> rqes c' x = rqes c x) \<and>
      (if Suc (length (if bs = [] then ins1 else bs # ins1) + length oos) = unat (max_queue_len (rq c))
       then \<exists>fk. sent_facks c' = sent_facks c @ [fk] \<and> fack_tells c' oos fk else sent_facks c' = sent_facks c) \<and>
      (\<exists>m. c' = c\<lparr>rq := rq c', rqes := rqes c', n_resvs := m, sent_facks := sent_facks c'\<rparr>)"
proof -
  note d = rq_okD [OF ok]
  note qf = q_shape_facts [OF d(1)]
  note s = shape_tail [OF d(1) [unfolded i]]
  obtain e where e: "rqes c b = Some e" using s(1) by blast
  let ?ins = "if bs = [] then ins1 else bs # ins1"
  obtain c1 where c1: "dequeue_head e c = Some c1" "rq_ok c1 ?ins oos"
    "c1 = c\<lparr>rq := rq c1, rqes := rqes c1\<rparr>" "rq_kept (rq c) (rq c1)"
    "rqes c1 b = Some (e\<lparr>more_data := NULL\<rparr>)"
    "\<forall>x. map_option hdrp (rqes c1 x) = map_option hdrp (rqes c x)"
    "\<forall>x. x \<notin> set (b # bs) \<longrightarrow> rqes c1 x = rqes c x" "\<forall>f\<in>set oos. fnum (rqes c1) f = fnum (rqes c) f"
    using dequeue_nums [OF ok [unfolded i] e] .
  note kf = rq_kept_fields [OF c1(4)]
  have sc: "sent_facks c1 = sent_facks c" by (subst c1(3)) simp
  let ?full = "Suc (length ?ins + length oos) = unat (max_queue_len (rq c))"
  obtain c' where c': "(if uint (queue_len (rq c1)) = uint (max_queue_len (rq c1)) - 1
      then rpc__dg_call_xmit_fack pv b False c1 else Some c1) = Some c'"
    "rq c' = rq c1" "rqes c' = rqes c1" "\<exists>m. c' = c1\<lparr>n_resvs := m, sent_facks := sent_facks c'\<rparr>"
    "if ?full then \<exists>fk. sent_facks c' = sent_facks c1 @ [fk] \<and> fack_tells c' oos fk else sent_facks c' = sent_facks c1"
  proof (cases ?full)
    case True
    obtain fk m where fk: "rpc__dg_call_xmit_fack pv b False c1 = Some (c1\<lparr>n_resvs := m, sent_facks := sent_facks c1 @ [fk]\<rparr>)"
      "fack_tells c1 oos fk"
    proof -
      have nw1: "\<forall>f\<in>set oos. unat (rq_next_fragnum (rq c1)) \<le> unat (fnum (rqes c1) f)"
        using mp [OF nw True] c1(8) kf(1) by simp
      show thesis using fack_ok [OF c1(2) _ nw1, of b pv False] c1(5) that by blast
    qed
    have t: "fack_tells (c1\<lparr>n_resvs := m, sent_facks := sent_facks c1 @ [fk]\<rparr>) oos fk"
      using fk(2) by (subst fack_tells_cong [of _ c1]) simp_all
    show thesis
    proof (rule that [of "c1\<lparr>n_resvs := m, sent_facks := sent_facks c1 @ [fk]\<rparr>"])
      show "if ?full then \<exists>fka. sent_facks (c1\<lparr>n_resvs := m, sent_facks := sent_facks c1 @ [fk]\<rparr>) = sent_facks c1 @ [fka] \<and>
          fack_tells (c1\<lparr>n_resvs := m, sent_facks := sent_facks c1 @ [fk]\<rparr>) oos fka
        else sent_facks (c1\<lparr>n_resvs := m, sent_facks := sent_facks c1 @ [fk]\<rparr>) = sent_facks c1"
        unfolding if_P [OF True] using t by simp
    qed (use fk(1) fack_full [OF c1(2)] True kf(2) in auto)
  next
    case False
    have nf: "\<not> uint (queue_len (rq c1)) = uint (max_queue_len (rq c1)) - 1"
      using False fack_full [OF c1(2)] kf(2) by simp
    have m: "\<exists>m. c1 = c1\<lparr>n_resvs := m, sent_facks := sent_facks c1\<rparr>"
      by (rule exI [of _ "n_resvs c1"]) simp
    show thesis
      by (rule that [of c1, unfolded if_not_P [OF False] if_not_P [OF nf], OF refl refl refl m refl])
  qed
  have io: "RPC_DG_RECVQ_IOVECTOR_SETUP (e\<lparr>more_data := NULL\<rparr>) = RPC_DG_RECVQ_IOVECTOR_SETUP e"
    by (simp add: RPC_DG_RECVQ_IOVECTOR_SETUP_def split: option.split)
  have nz: "rq_head (rq c) = b" "b \<noteq> NULL" "last_inorder (rq c) \<noteq> NULL" using s(2,3) qf(3) i by simp_all
  have "rpc__dg_call_receive_int pv c = Some (Recv_data b (RPC_DG_RECVQ_IOVECTOR_SETUP e), c')"
    unfolding rpc__dg_call_receive_int_def receive_head_def Let_def nz(1) rget_nz [OF nz(2)] e Option.bind.simps(2) c1(1) c'(1,3) c1(5) io
    using st nz(2,3) by simp
  moreover have "\<exists>m. c' = c\<lparr>rq := rq c', rqes := rqes c', n_resvs := m, sent_facks := sent_facks c'\<rparr>"
  proof -
    obtain m where "c' = c1\<lparr>n_resvs := m, sent_facks := sent_facks c'\<rparr>" using c'(4) by blast
    then have "c' = (c\<lparr>rq := rq c1, rqes := rqes c1\<rparr>)\<lparr>n_resvs := m, sent_facks := sent_facks c'\<rparr>"
      using c1(3) by simp
    then have "c' = c\<lparr>rq := rq c', rqes := rqes c', n_resvs := m, sent_facks := sent_facks c'\<rparr>" unfolding c'(2,3) .
    then show ?thesis ..
  qed
  moreover have "rq_ok c' ?ins oos" by (rule rq_ok_cong [OF c1(2)]) (simp_all add: c'(2,3))
  moreover note c1(4,6,7) [folded c'(2,3)]
  moreover note c'(5) [unfolded sc]
  ultimately show "\<exists>c' len. rpc__dg_call_receive_int pv c = Some (Recv_data b len, c') \<and>
      len = RPC_DG_RECVQ_IOVECTOR_SETUP (the (rqes c b)) \<and>
      rq_ok c' ?ins oos \<and> rq_kept (rq c) (rq c') \<and>
      (\<forall>x. map_option hdrp (rqes c' x) = map_option hdrp (rqes c x)) \<and>
      (\<forall>x. x \<notin> set (b # bs) \<longrightarrow> rqes c' x = rqes c x) \<and>
      (if ?full then \<exists>fk. sent_facks c' = sent_facks c @ [fk] \<and> fack_tells c' oos fk else sent_facks c' = sent_facks c) \<and>
      (\<exists>m. c' = c\<lparr>rq := rq c', rqes := rqes c', n_resvs := m, sent_facks := sent_facks c'\<rparr>)"
    by (intro exI [of _ c'] exI [of _ "RPC_DG_RECVQ_IOVECTOR_SETUP e"] conjI)
      (assumption | simp only: e option.sel)+
qed

text \<open>The fack is fatal when a number queued has wrapped around.\<close>

lemma receive_wild:
  assumes ok: "rq_ok c ((b # bs) # ins1) oos" and st: "call_status c = 0" "\<not> call_is_orphan c"
    and full: "Suc (length (if bs = [] then ins1 else bs # ins1) + length oos) = unat (max_queue_len (rq c))"
    and w: "\<exists>f\<in>set oos. unat (fnum (rqes c) f) < unat (rq_next_fragnum (rq c))"
  shows "rpc__dg_call_receive_int pv c = None"
proof -
  note d = rq_okD [OF ok]
  note s = shape_tail [OF d(1)]
  obtain e where e: "rqes c b = Some e" using s(1) by blast
  obtain c1 where c1: "dequeue_head e c = Some c1" "rq_ok c1 (if bs = [] then ins1 else bs # ins1) oos" "rq_kept (rq c) (rq c1)"
    "\<forall>f\<in>set oos. fnum (rqes c1) f = fnum (rqes c) f" by (rule dequeue_nums [OF ok e])
  note kf = rq_kept_fields [OF c1(3)]
  have "\<exists>f\<in>set oos. unat (fnum (rqes c1) f) < unat (rq_next_fragnum (rq c1))" using w c1(4) kf(1) by auto
  then have x: "rpc__dg_call_xmit_fack pv b False c1 = None" by (rule fack_wild [OF c1(2)])
  have f: "uint (queue_len (rq c1)) = uint (max_queue_len (rq c1)) - 1" using fack_full [OF c1(2)] full kf(2) by simp
  have nz: "rq_head (rq c) = b" "b \<noteq> NULL" "last_inorder (rq c) \<noteq> NULL" using s(2,3) q_shape_facts(3) [OF d(1)] by simp_all
  show ?thesis
    unfolding rpc__dg_call_receive_int_def receive_head_def Let_def nz(1) rget_nz [OF nz(2)] e Option.bind.simps(2) c1(1) if_P [OF f] x
    using st nz(2,3) by simp
qed

lemma receive_ex:
  assumes ok: "rq_ok c ins oos" and st: "call_status c = 0" "\<not> call_is_orphan c"
    and nw: "\<forall>f\<in>set oos. unat (rq_next_fragnum (rq c)) \<le> unat (fnum (rqes c) f)"
  shows "ins = [] \<Longrightarrow> rpc__dg_call_receive_int pv c =
      Some (if all_pkts_recvd (rq c) \<and> oos = [] then Recv_end else Recv_wait, c)"
    and "ins = (b # bs) # ins1 \<Longrightarrow> \<exists>c' len. rpc__dg_call_receive_int pv c = Some (Recv_data b len, c') \<and>
      len = RPC_DG_RECVQ_IOVECTOR_SETUP (the (rqes c b)) \<and>
      rq_ok c' (if bs = [] then ins1 else bs # ins1) oos \<and> rq_kept (rq c) (rq c') \<and>
      (\<forall>x. map_option hdrp (rqes c' x) = map_option hdrp (rqes c x)) \<and>
      (\<forall>x. x \<notin> set (b # bs) \<longrightarrow> rqes c' x = rqes c x) \<and>
      (if Suc (length (if bs = [] then ins1 else bs # ins1) + length oos) = unat (max_queue_len (rq c))
       then \<exists>fk. sent_facks c' = sent_facks c @ [fk] \<and> fack_tells c' oos fk else sent_facks c' = sent_facks c) \<and>
      (\<exists>m. c' = c\<lparr>rq := rq c', rqes := rqes c', n_resvs := m, sent_facks := sent_facks c'\<rparr>)"
proof -
  assume i: "ins = []"
  note d = rq_okD [OF ok]
  have "rq_head (rq c) = NULL \<longleftrightarrow> oos = []" "last_inorder (rq c) = NULL" using q_shape_facts(3,5) [OF d(1)] i by simp_all
  then show "rpc__dg_call_receive_int pv c =
    Some (if all_pkts_recvd (rq c) \<and> oos = [] then Recv_end else Recv_wait, c)"
    unfolding rpc__dg_call_receive_int_def receive_head_def using st by simp
qed (rule receive_gen [OF ok st _ impI [OF nw]], assumption)

section \<open>A stream of fragments\<close>

text \<open>
  The events of a call: a fragment arrives in newly allocated elements (their contents in \<open>h0\<close>)
  and is inserted; the call thread receives a buffer.  The run gives the buffers handed over.
\<close>

datatype rq_event = Arrive pool_view "addr list" | Receive pool_view

fun rq_run :: "rheap \<Rightarrow> rq_event list \<Rightarrow> dg_rcall \<Rightarrow> (addr list \<times> dg_rcall) option" where
  "rq_run h0 [] c = Some ([], c)"
| "rq_run h0 (Arrive pv f # es) c = do {
     (added, wake, c) \<leftarrow> rpc__dg_call_recvq_insert pv (hd f)
       (c\<lparr>rqes := \<lambda>x. if x \<in> set f then h0 x else rqes c x\<rparr>);
     rq_run h0 es c }"
| "rq_run h0 (Receive pv # es) c = do {
     (d, c) \<leftarrow> rpc__dg_call_receive_int pv c;
     (out, c) \<leftarrow> rq_run h0 es c;
     Some (case d of Recv_data b len \<Rightarrow> b # out | _ \<Rightarrow> out, c) }"

fun arrivals :: "rq_event list \<Rightarrow> addr list list" where
  "arrivals [] = []"
| "arrivals (Arrive pv f # es) = f # arrivals es"
| "arrivals (Receive pv # es) = arrivals es"

text \<open>An arriving fragment: a header on its first buffer only, no successor, and not a large one.\<close>

definition arrival_ok :: "rheap \<Rightarrow> addr list \<Rightarrow> bool" where
  "arrival_ok h0 f \<longleftrightarrow> new_frag h0 [] f \<and>
     (\<forall>e. h0 (hd f) = Some e \<longrightarrow> frag_len e \<le> RPC_C_DG_MUST_RECV_FRAG_SIZE)"

lemma rq_ok_frame:
  assumes ok: "rq_ok c ins oos" and h': "\<forall>x\<in>set (concat (ins @ oos)). h' x = rqes c x"
  shows "rq_ok (c\<lparr>rqes := h'\<rparr>) ins oos"
proof -
  let ?h = "rqes c"
  note d = rq_okD [OF ok]
  have ne: "\<forall>g\<in>set (ins @ oos). g \<noteq> []" using q_shape_facts(1) [OF d(1)] by blast
  have same: "frag_ok h' g = frag_ok ?h g" "has_hdr h' g = has_hdr ?h g" "fnum h' g = fnum ?h g"
    if "g \<in> set (ins @ oos)" for g
  proof -
    have "\<forall>x\<in>set g. h' x = ?h x" using h' that by auto
    then show "frag_ok h' g = frag_ok ?h g" "has_hdr h' g = has_hdr ?h g" "fnum h' g = fnum ?h g"
      using frag_frame [of g h' ?h] ne that by simp_all
  qed
  have heads: "\<And>x. x \<in> set (map hd (ins @ oos)) \<Longrightarrow> h' x = ?h x"
  proof -
    fix x assume "x \<in> set (map hd (ins @ oos))"
    then obtain g where g: "g \<in> set (ins @ oos)" "x = hd g" by auto
    then have "x \<in> set (concat (ins @ oos))" using ne by (auto intro: bexI [of _ g])
    then show "h' x = ?h x" using h' by blast
  qed
  have N: "map (fnum h') oos = map (fnum ?h) oos" using same(3) by simp
  have tl: "set (tl ins @ oos) \<subseteq> set (ins @ oos)" by (cases ins) auto
  have "rseg ?h (rq_head (rq c)) (map hd (ins @ oos)) NULL" using d(1) by (simp add: q_shape_def)
  then have rs: "rseg h' (rq_head (rq c)) (map hd (ins @ oos)) NULL"
    using rseg_frame [of "map hd (ins @ oos)" h' ?h] heads by blast
  have "\<forall>g\<in>set (tl ins @ oos). has_hdr h' g"
  proof
    fix g assume g: "g \<in> set (tl ins @ oos)"
    then have "has_hdr ?h g" using d(1) by (simp add: q_shape_def)
    then show "has_hdr h' g" using same(2) [of g] g tl by blast
  qed
  then have sh: "q_shape h' (rq_head (rq c)) (last_inorder (rq c)) ins oos"
    using d(1) same(1) rs unfolding q_shape_def by blast
  have hd: "fnum h' (hd oos) = fnum ?h (hd oos)" if "oos \<noteq> []" using same(3) [of "hd oos"] that by simp
  let ?c = "c\<lparr>rqes := h'\<rparr>"
  show ?thesis unfolding rq_ok_def
  proof (intro conjI)
    show "\<forall>i<length ins. has_hdr (rqes ?c) (ins ! i) \<longrightarrow>
        fnum (rqes ?c) (ins ! i) = rq_next_fragnum (rq ?c) - of_nat (length ins - i)"
      using ok same unfolding rq_ok_def by simp
    show "ins @ oos \<noteq> [] \<longrightarrow> head_fragnum (rq ?c) =
        (if ins = [] then fnum (rqes ?c) (hd oos) else rq_next_fragnum (rq ?c) - of_nat (length ins))"
      using ok hd unfolding rq_ok_def by auto
    show "nums_ok (unat (max_queue_len (rq ?c))) (rq_next_fragnum (rq ?c)) (high_fragnum (rq ?c))
        (length ins) (map (fnum (rqes ?c)) oos)"
      using d(2) unfolding N [symmetric] by simp
  qed (use d sh in simp_all)
qed

lemma fnum_hdrs: "map_option hdrp (h' (hd f)) = map_option hdrp (h (hd f)) \<Longrightarrow> fnum h' f = fnum h f"
  unfolding fnum_def by (cases "h (hd f)"; cases "h' (hd f)") auto

lemma links_hdrs:
  assumes "links_only h h'"
  shows "map_option hdrp (h' x) = map_option hdrp (h x)"
  by (rule links_only_get [OF assms, of x]) auto

text \<open>
  \<open>fs\<close> are the fragments put in order so far: what was handed over and what waits in order are
  their buffers, and they are numbered from 0.
\<close>

definition stream_inv :: "rheap \<Rightarrow> dg_rcall \<Rightarrow> addr list \<Rightarrow> addr list list \<Rightarrow> addr list list \<Rightarrow> addr list list \<Rightarrow> addr list list \<Rightarrow> bool" where
  "stream_inv h0 c out F fs ins oos \<longleftrightarrow>
     rq_ok c ins oos \<and> out @ concat ins = concat fs \<and> rq_next_fragnum (rq c) = of_nat (length fs) \<and>
     (\<forall>i<length fs. fnum h0 (fs ! i) = of_nat i) \<and> set (fs @ oos) \<subseteq> set F \<and> distinct (fs @ oos) \<and>
     (\<forall>f\<in>set F. map_option hdrp (rqes c (hd f)) = map_option hdrp (h0 (hd f))) \<and>
     call_status c = 0 \<and> \<not> call_is_orphan c"

text \<open>At most one fack is sent, which tells what is there.\<close>

definition new_fack :: "dg_rcall \<Rightarrow> dg_rcall \<Rightarrow> addr list list \<Rightarrow> bool" where
  "new_fack c c' oos \<longleftrightarrow> sent_facks c' = sent_facks c \<or> (\<exists>fk. sent_facks c' = sent_facks c @ [fk] \<and> fack_tells c' oos fk)"

lemma stream_inv_small:
  assumes "stream_inv h0 c out F fs ins oos" "length F \<le> 65439"
  shows "no_wrap c" "length fs \<le> length F"
proof -
  have "distinct fs" "set fs \<subseteq> set F" using assms(1) by (auto simp: stream_inv_def)
  then have "length fs \<le> card (set F)" using card_mono [of "set F" "set fs"] by (simp add: distinct_card)
  then show l: "length fs \<le> length F" using card_length [of F] by simp
  then show "no_wrap c" using assms by (simp add: stream_inv_def no_wrap_def unat_of_nat)
qed

lemma stream_receive:
  assumes inv: "stream_inv h0 c out F fs ins oos" and F: "no_wrap c"
  shows "\<exists>d c' ins'. rpc__dg_call_receive_int pv c = Some (d, c') \<and>
    stream_inv h0 c' (out @ (case d of Recv_data b len \<Rightarrow> [b] | _ \<Rightarrow> [])) F fs ins' oos \<and> new_fack c c' oos"
proof -
  have i: "rq_ok c ins oos" "out @ concat ins = concat fs" "call_status c = 0" "\<not> call_is_orphan c"
    using inv by (simp_all add: stream_inv_def)
  have nw: "\<forall>f\<in>set oos. unat (rq_next_fragnum (rq c)) \<le> unat (fnum (rqes c) f)"
    by (rule no_wrap_ok [OF i(1) F])
  note ex = receive_ex [OF i(1,3,4) nw]
  show ?thesis
  proof (cases ins)
    case Nil
    obtain d where d: "rpc__dg_call_receive_int pv c = Some (d, c)" "d = Recv_end \<or> d = Recv_wait"
      using ex(1) [OF Nil, of pv] by (metis (full_types))
    have "out @ (case d of Recv_data b len \<Rightarrow> [b] | _ \<Rightarrow> []) = out" using d(2) by auto
    then show ?thesis using d(1) inv by (metis new_fack_def)
  next
    case (Cons f ins1)
    have "f \<noteq> []" using q_shape_facts(1) [OF rq_okD(1) [OF i(1)]] Cons by simp
    then obtain b bs where f: "f = b # bs" by (cases f) auto
    obtain c' len m where c': "rpc__dg_call_receive_int pv c = Some (Recv_data b len, c')"
      "rq_ok c' (if bs = [] then ins1 else bs # ins1) oos" "rq_kept (rq c) (rq c')"
      "\<forall>x. map_option hdrp (rqes c' x) = map_option hdrp (rqes c x)"
      "c' = c\<lparr>rq := rq c', rqes := rqes c', n_resvs := m, sent_facks := sent_facks c'\<rparr>" "new_fack c c' oos"
      using ex(2) [of b bs ins1 pv] Cons f unfolding new_fack_def by metis
    have s: "call_status c' = call_status c" "call_is_orphan c' = call_is_orphan c" by (subst c'(5), simp)+
    have o: "(out @ [b]) @ concat (if bs = [] then ins1 else bs # ins1) = concat fs"
      using i(2) Cons f by (cases bs) simp_all
    have "stream_inv h0 c' (out @ [b]) F fs (if bs = [] then ins1 else bs # ins1) oos"
      using inv c'(2,4) o s rq_kept_fields(1) [OF c'(3)] unfolding stream_inv_def by simp
    then show ?thesis using c'(1,6) by (intro exI [of _ "Recv_data b len"] exI [of _ c'] exI conjI) simp_all
  qed
qed

lemma stream_arrive:
  assumes inv: "stream_inv h0 c out F fs ins oos" and F: "no_wrap c" "\<forall>f\<in>set F. f \<noteq> []"
    and r: "arrival_ok h0 r" and d: "distinct (concat (F @ [r]))"
  shows "\<exists>a w c' fs' ins' oos'. rpc__dg_call_recvq_insert pv (hd r)
      (c\<lparr>rqes := \<lambda>x. if x \<in> set r then h0 x else rqes c x\<rparr>) = Some (a, w, c') \<and>
    stream_inv h0 c' out (F @ [r]) fs' ins' oos' \<and> new_fack c c' oos' \<and> set (fs @ oos) \<subseteq> set (fs' @ oos')"
proof -
  define h1 where "h1 = (\<lambda>x. if x \<in> set r then h0 x else rqes c x)"
  define c0 where "c0 = c\<lparr>rqes := h1\<rparr>"
  have i: "rq_ok c ins oos" "out @ concat ins = concat fs" "call_status c = 0" "\<not> call_is_orphan c"
    "rq_next_fragnum (rq c) = of_nat (length fs)" "\<forall>i<length fs. fnum h0 (fs ! i) = of_nat i"
    "set (fs @ oos) \<subseteq> set F" "distinct (fs @ oos)"
    "\<forall>f\<in>set F. map_option hdrp (rqes c (hd f)) = map_option hdrp (h0 (hd f))"
    using inv by (simp_all add: stream_inv_def)
  have rF: "set r \<inter> set (concat F) = {}" using d by auto
  have qF: "set (concat (ins @ oos)) \<subseteq> set (concat F)"
  proof -
    have "set (concat ins) \<subseteq> set (concat fs)" unfolding i(2) [symmetric] by simp
    moreover have "set (concat fs) \<subseteq> set (concat F)" "set (concat oos) \<subseteq> set (concat F)" using i(7) by auto
    ultimately show ?thesis by simp
  qed
  have rne: "r \<noteq> []" "hd r \<in> set r" using r by (auto simp: arrival_ok_def new_frag_def frag_ok_def)
  have ok0: "rq_ok c0 ins oos" unfolding c0_def
  proof (rule rq_ok_frame [OF i(1)], rule ballI)
    fix x assume "x \<in> set (concat (ins @ oos))"
    then have "x \<notin> set r" using qF rF by blast
    then show "h1 x = rqes c x" by (simp add: h1_def)
  qed
  have f0: "rqes c0 = h1" "rq c0 = rq c" by (simp_all add: c0_def)
  have new: "new_frag (rqes c0) (ins @ oos) r"
  proof -
    have "\<forall>x\<in>set r. h1 x = h0 x" by (simp add: h1_def)
    note same = frag_frame [OF this rne(1)]
    have "set r \<inter> set (concat (ins @ oos)) = {}" using rF qF by blast
    then show ?thesis
      using r same rne(2) unfolding arrival_ok_def new_frag_def f0 by (simp add: h1_def)
  qed
  obtain e hp where e: "rqes c0 (hd r) = Some e" "hdrp e = Some hp"
    using new by (auto simp: new_frag_def has_hdr_def)
  have lim: "limit_fixed c0 (frag_len e)"
  proof -
    have "h0 (hd r) = Some e" using e(1) rne(2) by (simp add: f0 h1_def)
    then have "frag_len e \<le> 1464" using r by (simp add: arrival_ok_def)
    then show ?thesis by (simp add: limit_fixed_def le_max_iff_disj)
  qed
  have hdr0: "map_option hdrp (h1 (hd f)) = map_option hdrp (h0 (hd f))" if "f \<in> set (F @ [r])" for f
  proof (cases "f = r")
    case False
    then have "f \<in> set F" using that by simp
    moreover then have "hd f \<in> set (concat F)" using F(2) by (auto intro: bexI [of _ f])
    ultimately show ?thesis using i(9) rF by (auto simp: h1_def)
  qed (use rne in \<open>simp add: h1_def\<close>)
  have nw: "no_wrap c0" using F(1) by (simp add: no_wrap_def f0)
  define acc where "acc = accepts pv c0 ins oos (fnum (rqes c0) r)"
  define res where "res = (if acc then insert_frag (rqes c0) (rq_next_fragnum (rq c0)) r ins oos else (ins, oos))"
  obtain w c' m where c': "rpc__dg_call_recvq_insert pv (hd r) c0 = Some (acc, w, c')"
    "rq_ok c' (fst res) (snd res)" "links_only (rqes c0) (rqes c')"
    "rq_next_fragnum (rq c') = rq_next_fragnum (rq c0) + of_nat (length (fst res) - length ins)"
    "c' = c0\<lparr>rq := rq c', rqes := rqes c', n_resvs := m, sent_facks := sent_facks c'\<rparr>" "new_fack c0 c' (snd res)"
    using recvq_insert_ex [OF ok0 new e lim nw, of pv, folded acc_def, folded res_def] unfolding new_fack_def by metis
  have fk: "new_fack c c' (snd res)" using c'(6) by (simp add: new_fack_def c0_def)
  have s: "call_status c' = call_status c" "call_is_orphan c' = call_is_orphan c"
    by (subst c'(5), simp add: c0_def)+
  have hdr': "\<forall>f\<in>set (F @ [r]). map_option hdrp (rqes c' (hd f)) = map_option hdrp (h0 (hd f))"
    using links_hdrs [OF c'(3)] hdr0 by (simp add: f0)
  have fn: "fnum (rqes c0) f = fnum h0 f" if "f \<in> set (F @ [r])" for f
    using fnum_hdrs [of "rqes c0" f h0] hdr0 [OF that] by (simp add: f0)
  have rnew: "r \<notin> set (fs @ oos)"
  proof
    assume "r \<in> set (fs @ oos)"
    then have "r \<in> set F" using i(7) by blast
    then have "hd r \<in> set (concat F)" using rne(2) by auto
    then show False using rF rne(2) by blast
  qed
  have "\<exists>fs'. stream_inv h0 c' out (F @ [r]) fs' (fst res) (snd res) \<and> set (fs @ oos) \<subseteq> set (fs' @ snd res)"
  proof (cases acc)
    case False
    then have "stream_inv h0 c' out (F @ [r]) fs ins oos"
      unfolding stream_inv_def using c'(2,4) i hdr' s by (auto simp: res_def f0)
    then show ?thesis using False by (auto simp: res_def)
  next
    case acc: True
    show ?thesis
    proof (cases "fnum (rqes c0) r = rq_next_fragnum (rq c0)")
      case True
      define k where "k = run_len (rq_next_fragnum (rq c0) + 1) (map (fnum (rqes c0)) oos)"
      have io: "res = (ins @ r # take k oos, drop k oos)"
        using acc True by (simp add: res_def insert_frag_def k_def Let_def)
      have kl: "k \<le> length oos" unfolding k_def using run_len_le [of "rq_next_fragnum (rq c0) + 1" "map (fnum (rqes c0)) oos"] by simp
      let ?fs = "fs @ r # take k oos"
      have num: "fnum h0 (?fs ! j) = of_nat j" if j: "j < length ?fs" for j
      proof -
        consider "j < length fs" | "j = length fs" | l where "j = length fs + Suc l" "l < k"
          using j kl by (metis (no_types) add_less_cancel_left length_append length_Cons length_take less_natE
            linorder_neqE_nat min.absorb2 not_less_eq add_Suc_right)
        then show ?thesis
        proof cases
          case 1
          then show ?thesis using i(6) by (simp add: nth_append)
        next
          case 2
          then show ?thesis using True fn [of r] i(5) by (simp add: nth_append f0)
        next
          case 3
          have n: "fnum (rqes c0) (oos ! l) = rq_next_fragnum (rq c0) + 1 + of_nat l" "l < length oos"
            using take_hd_nums [OF 3(2) k_def] by blast+
          have "oos ! l \<in> set (F @ [r])" using i(7) nth_mem [OF n(2)] by auto
          then show ?thesis using 3 n fn [of "oos ! l"] i(5) by (simp add: nth_append f0 ac_simps)
        qed
      qed
      have "stream_inv h0 c' out (F @ [r]) ?fs (fst res) (snd res)"
        unfolding stream_inv_def
      proof (intro conjI)
        show "out @ concat (fst res) = concat ?fs" unfolding io fst_conv using i(2) by simp
        show "rq_next_fragnum (rq c') = of_nat (length ?fs)"
          unfolding c'(4) io fst_conv using i(5) kl by (simp add: f0)
        show "set (?fs @ snd res) \<subseteq> set (F @ [r])"
          unfolding io snd_conv using i(7) by (auto dest: in_set_takeD in_set_dropD)
        have "distinct (take k oos @ drop k oos)" "set (take k oos @ drop k oos) = set oos"
          using i(8) by (simp, simp only: append_take_drop_id)
        then show "distinct (?fs @ snd res)"
          unfolding io snd_conv using i(8) rnew by (auto simp del: append_take_drop_id)
        show "rq_ok c' (fst res) (snd res)" by (rule c'(2))
        show "\<forall>f\<in>set (F @ [r]). map_option hdrp (rqes c' (hd f)) = map_option hdrp (h0 (hd f))" by (rule hdr')
        show "\<forall>j<length ?fs. fnum h0 (?fs ! j) = of_nat j" using num by blast
      qed (use i s in simp_all)
      moreover have "set (fs @ oos) \<subseteq> set (?fs @ snd res)" unfolding io snd_conv
        using arg_cong [OF append_take_drop_id [of k oos], of set] unfolding set_append list.set by blast
      ultimately show ?thesis by blast
    next
      case False
      define P where "P = (\<lambda>g. off (rq_next_fragnum (rq c0)) (fnum (rqes c0) g) < off (rq_next_fragnum (rq c0)) (fnum (rqes c0) r))"
      have io: "res = (ins, takeWhile P oos @ r # dropWhile P oos)"
        using acc False by (simp add: res_def insert_frag_def P_def Let_def)
      have st: "set (snd res) = insert r (set oos)" "distinct (snd res)"
      proof -
        have td: "takeWhile P oos @ dropWhile P oos = oos" by simp
        show "set (snd res) = insert r (set oos)" unfolding io snd_conv
          using arg_cong [OF td, of set] unfolding set_append list.set by blast
        have "distinct (takeWhile P oos @ dropWhile P oos)" using i(8) unfolding td by simp
        moreover have "r \<notin> set (takeWhile P oos @ dropWhile P oos)" using rnew unfolding td by simp
        ultimately show "distinct (snd res)" unfolding io snd_conv by (auto simp del: takeWhile_dropWhile_id)
      qed
      have "stream_inv h0 c' out (F @ [r]) fs (fst res) (snd res)"
        unfolding stream_inv_def
      proof (intro conjI)
        show "out @ concat (fst res) = concat fs" unfolding io fst_conv by (rule i(2))
        show "rq_next_fragnum (rq c') = of_nat (length fs)"
          unfolding c'(4) io fst_conv using i(5) by (simp add: f0)
        show "set (fs @ snd res) \<subseteq> set (F @ [r])" using i(7) st(1) by auto
        show "distinct (fs @ snd res)" using i(8) st rnew by auto
        show "rq_ok c' (fst res) (snd res)" by (rule c'(2))
        show "\<forall>f\<in>set (F @ [r]). map_option hdrp (rqes c' (hd f)) = map_option hdrp (h0 (hd f))" by (rule hdr')
      qed (use i s in simp_all)
      moreover have "set (fs @ oos) \<subseteq> set (fs @ snd res)" using st(1) by auto
      ultimately show ?thesis by blast
    qed
  qed
  then show ?thesis using c'(1) fk unfolding c0_def h1_def by blast
qed

lemma stream_run:
  assumes inv: "stream_inv h0 c out F fs ins oos" and F: "length F + length (arrivals evs) \<le> 65439" "\<forall>f\<in>set F. f \<noteq> []"
    and r: "\<forall>f\<in>set (arrivals evs). arrival_ok h0 f" and d: "distinct (concat (F @ arrivals evs))"
  shows "\<exists>more c' fs' ins' oos'. rq_run h0 evs c = Some (more, c') \<and>
    stream_inv h0 c' (out @ more) (F @ arrivals evs) fs' ins' oos'"
  using assms
proof (induction evs arbitrary: c out F fs ins oos)
  case Nil
  have "rq_run h0 [] c = Some ([], c)" "stream_inv h0 c (out @ []) (F @ arrivals []) fs ins oos"
    using Nil.prems(1) by simp_all
  then show ?case by (intro exI conjI)
next
  case (Cons ev evs)
  show ?case
  proof (cases ev)
    case (Arrive pv f)
    have d: "distinct (concat ((F @ [f]) @ arrivals evs))" using Cons.prems(5) Arrive by simp
    have ok: "arrival_ok h0 f" using Cons.prems(4) Arrive by simp
    then have ne: "f \<noteq> []" by (simp add: arrival_ok_def new_frag_def frag_ok_def)
    have F: "length F \<le> 65439" using Cons.prems(2) by simp
    have f: "arrival_ok h0 f" "distinct (concat (F @ [f]))" "no_wrap c" "f \<noteq> []"
      using ok ne d stream_inv_small(1) [OF Cons.prems(1) F] unfolding concat_append distinct_append by simp_all
    obtain a w c1 fs1 ins1 oos1 where 1: "rpc__dg_call_recvq_insert pv (hd f)
      (c\<lparr>rqes := \<lambda>x. if x \<in> set f then h0 x else rqes c x\<rparr>) = Some (a, w, c1)"
      "stream_inv h0 c1 out (F @ [f]) fs1 ins1 oos1"
      using stream_arrive [OF Cons.prems(1) f(3) Cons.prems(3) f(1,2)] by blast
    obtain more c2 fs2 ins2 oos2 where 2: "rq_run h0 evs c1 = Some (more, c2)"
      "stream_inv h0 c2 (out @ more) ((F @ [f]) @ arrivals evs) fs2 ins2 oos2"
    proof -
      have "length (F @ [f]) + length (arrivals evs) \<le> 65439" "\<forall>g\<in>set (F @ [f]). g \<noteq> []"
        "\<forall>f\<in>set (arrivals evs). arrival_ok h0 f"
        using Cons.prems(2-4) Arrive f(4) by simp_all
      from Cons.IH [OF 1(2) this d] that show thesis by blast
    qed
    have "rq_run h0 (ev # evs) c = Some (more, c2)" using 1(1) 2(1) Arrive by simp
    moreover have "F @ arrivals (ev # evs) = (F @ [f]) @ arrivals evs" using Arrive by simp
    ultimately show ?thesis using 2(2) by metis
  next
    case (Receive pv)
    have F: "length F \<le> 65439" using Cons.prems(2) by simp
    obtain d c1 ins1 where 1: "rpc__dg_call_receive_int pv c = Some (d, c1)"
      "stream_inv h0 c1 (out @ (case d of Recv_data b len \<Rightarrow> [b] | _ \<Rightarrow> [])) F fs ins1 oos"
      using stream_receive [OF Cons.prems(1) stream_inv_small(1) [OF Cons.prems(1) F]] by blast
    have pre: "length F + length (arrivals evs) \<le> 65439" "\<forall>f\<in>set (arrivals evs). arrival_ok h0 f"
      "distinct (concat (F @ arrivals evs))"
      using Cons.prems(2,4,5) Receive by simp_all
    obtain more c2 fs2 ins2 oos2 where 2: "rq_run h0 evs c1 = Some (more, c2)"
      "stream_inv h0 c2 ((out @ (case d of Recv_data b len \<Rightarrow> [b] | _ \<Rightarrow> [])) @ more) (F @ arrivals evs) fs2 ins2 oos2"
      using Cons.IH [OF 1(2) pre(1) Cons.prems(3) pre(2,3)] by blast
    have "rq_run h0 (ev # evs) c = Some ((case d of Recv_data b len \<Rightarrow> [b] | _ \<Rightarrow> []) @ more, c2)"
      using 1(1) 2(1) Receive by (cases d) simp_all
    moreover have "arrivals (ev # evs) = arrivals evs" using Receive by simp
    ultimately show ?thesis using 2(2) by (metis append_assoc)
  qed
qed

section \<open>The properties\<close>

text \<open>Concrete calls for the witnesses: fragment \<open>n\<close> lies at address \<open>n + 1\<close>.\<close>

definition calm :: pool_view where
  "calm = \<lparr>is_rationing = False, low_on_pkts = False, granted_resvs = None\<rparr>"

definition frag_at :: "u16 \<Rightarrow> u32 \<Rightarrow> addr \<Rightarrow> dg_rqe" where
  "frag_at f len next = \<lparr>rqe_next = next, more_data = NULL,
     hdrp = Some \<lparr>hdr_flags = RPC_C_DG_PF_FRAG OR RPC_C_DG_PF_NO_FACK, hdr_fragnum = f,
       serial_hi = 0, serial_lo = 0, hdr_len = 920\<rparr>, frag_len = len, pkt_len = 1000\<rparr>"

definition blank_recvq :: dg_recvq where
  "blank_recvq = \<lparr>rq_head = 0, last_inorder = 0, high_rcv_frag_size = 0,
     rq_next_fragnum = 0, high_fragnum = 0, high_serial_num = 0, head_fragnum = 0, head_serial_num = 0,
     rq_window_size = 32, wake_thread_qsize = 0, max_queue_len = 0, queue_len = 0, inorder_len = 0,
     recving_frags = False, all_pkts_recvd = False, is_way_validated = False\<rparr>"

definition new_call :: dg_rcall where
  "new_call = \<lparr>rq = rpc__dg_recvq_init blank_recvq,
     rqes = Map.empty, is_server = True, call_is_queued = False, sock_is_private = False, n_resvs = 2,
     max_resvs = 2, xq_max_frag_size = 8560, max_rcv_tsdu = 8560, call_status = 0, call_is_orphan = False,
     sent_facks = [], freed_rqes = []\<rparr>"

lemma recvq_init_ok:
  assumes "rq c = rpc__dg_recvq_init q"
  shows "rq_ok c [] []"
  using assms by (simp add: rq_ok_def rpc__dg_recvq_init_def q_shape_def nums_ok_def off_def)

definition sample_call :: "u16 \<Rightarrow> u16 \<Rightarrow> dg_rcall" where
  "sample_call n m = new_call\<lparr>
     rq := blank_recvq\<lparr>rq_head := 1, last_inorder := 1, rq_next_fragnum := n + 1, high_fragnum := n + 2,
       head_fragnum := n, max_queue_len := m, queue_len := 2, inorder_len := 1, recving_frags := True\<rparr>,
     rqes := [1 \<mapsto> frag_at n 1000 3, 3 \<mapsto> frag_at (n + 2) 1000 NULL]\<rparr>"

lemma sample_call_ok: "rq_ok (sample_call 0 96) [[1]] [[3]]" "rq_ok (sample_call 65534 96) [[1]] [[3]]"
  by (simp_all add: rq_ok_def sample_call_def new_call_def blank_recvq_def q_shape_def nums_ok_def off_def
      frag_ok_def has_hdr_def fnum_def frag_at_def)

text \<open>
  C5: The data of a call is delivered in order and exactly once.  Whatever fragments arrive, in
  any order, duplicated or beyond the window, however the packet pool rations and whenever the
  call thread receives, the buffers handed over are those of a sequence of distinct arrived
  fragments numbered 0, 1, 2, and so on, in this order; no step fails.  (Below the wrap-around of the
  fragment numbers, and for fragments that do not change the length limit of the queue.)
\<close>

theorem recvq_delivers_stream:
  assumes "rq c = rpc__dg_recvq_init q" "call_status c = 0" "\<not> call_is_orphan c"
    and "\<forall>f\<in>set (arrivals evs). arrival_ok h0 f" "distinct (concat (arrivals evs))" "length (arrivals evs) \<le> 65439"
  shows "\<exists>taken c' fs rest. rq_run h0 evs c = Some (taken, c') \<and> taken @ rest = concat fs \<and>
    set fs \<subseteq> set (arrivals evs) \<and> distinct fs \<and> map (fnum h0) fs = map of_nat [0..<length fs]"
proof -
  have "stream_inv h0 c [] [] [] [] []"
    using recvq_init_ok [OF assms(1)] assms(1-3) by (simp add: stream_inv_def rpc__dg_recvq_init_def)
  from stream_run [OF this, of evs] assms(4-6)
  obtain taken c' fs ins oos where r: "rq_run h0 evs c = Some (taken, c')" "stream_inv h0 c' taken (arrivals evs) fs ins oos"
    by auto
  then have "map (fnum h0) fs = map of_nat [0..<length fs]"
    by (intro nth_equalityI) (simp_all add: stream_inv_def)
  then show ?thesis using r by (intro exI [of _ taken] exI [of _ c'] exI [of _ fs] exI [of _ "concat ins"])
    (auto simp: stream_inv_def)
qed

definition demo_heap :: rheap where
  "demo_heap = [1 \<mapsto> frag_at 0 1000 NULL, 2 \<mapsto> frag_at 1 1000 NULL, 3 \<mapsto> frag_at 2 1000 NULL, 4 \<mapsto> frag_at 1 1000 NULL]"

text \<open>Fragments 2, 0, 1 and 1 again arrive, then four receptions.\<close>

lemma recvq_delivers_stream_witness:
  "\<exists>taken c' fs rest. rq_run demo_heap ([Arrive calm [3], Arrive calm [1], Receive calm, Arrive calm [2],
       Arrive calm [4], Receive calm, Receive calm, Receive calm]) new_call = Some (taken, c') \<and>
     taken @ rest = concat fs \<and> set fs \<subseteq> {[1], [2], [3], [4]} \<and> distinct fs \<and>
     map (fnum demo_heap) fs = map of_nat [0..<length fs]"
proof -
  let ?evs = "[Arrive calm [3], Arrive calm [1], Receive calm, Arrive calm [2],
       Arrive calm [4], Receive calm, Receive calm, Receive calm]"
  have s: "set (arrivals ?evs) = {[1], [2], [3], [4]}" by auto
  have "\<exists>taken c' fs rest. rq_run demo_heap ?evs new_call = Some (taken, c') \<and> taken @ rest = concat fs \<and>
    set fs \<subseteq> set (arrivals ?evs) \<and> distinct fs \<and> map (fnum demo_heap) fs = map of_nat [0..<length fs]"
    by (rule recvq_delivers_stream [where q = blank_recvq])
      (simp_all add: new_call_def arrival_ok_def new_frag_def frag_ok_def has_hdr_def demo_heap_def frag_at_def)
  then show ?thesis unfolding s .
qed

text \<open>
  C6: Inserting a fragment.  It is queued exactly when \<open>accepts\<close> says so: the next fragment while
  there is room, a later one inside the window that is not there yet, never an old one, one of a
  server call without reservation, or, when packets are rationed, one that is not needed at once.
  The links built are those of the queue with the fragment at its place, the next fragment moves
  on over the fragments that were waiting for it, a fragment not queued changes no link, and the
  stream is complete when the data in order ends with the last fragment.
\<close>

theorem recvq_insert_refines:
  assumes "rq_ok c ins oos" "new_frag (rqes c) (ins @ oos) r"
    and "rqes c (hd r) = Some e" "hdrp e = Some hp" "limit_fixed c (frag_len e)" "no_wrap c"
  shows "\<exists>wake c' ins' oos'. rpc__dg_call_recvq_insert pv (hd r) c
        = Some (accepts pv c ins oos (fnum (rqes c) r), wake, c') \<and>
      (ins', oos') = (if accepts pv c ins oos (fnum (rqes c) r)
        then insert_frag (rqes c) (rq_next_fragnum (rq c)) r ins oos else (ins, oos)) \<and>
      rq_ok c' ins' oos' \<and> links_only (rqes c) (rqes c') \<and>
      rq_next_fragnum (rq c') = rq_next_fragnum (rq c) + of_nat (length ins' - length ins) \<and>
      all_pkts_recvd (rq c') = (all_pkts_recvd (rq c) \<or> accepts pv c ins oos (fnum (rqes c) r) \<and>
        stream_complete (rqes c') (recving_frags (rq c')) ins')"
  using recvq_insert_ex [OF assms, of pv]
  by (elim exE conjE) (intro exI conjI, assumption, rule prod.collapse, assumption+)

definition sample_arrival :: dg_rcall where
  "sample_arrival = (sample_call 0 96)\<lparr>rqes := (rqes (sample_call 0 96))(2 := Some (frag_at 1 1000 NULL))\<rparr>"

lemma sample_arrival_ok:
  "rq_ok sample_arrival [[1]] [[3]]" "new_frag (rqes sample_arrival) ([[1]] @ [[3]]) [2]"
  "rqes sample_arrival (hd [2]) = Some (frag_at 1 1000 NULL)" "limit_fixed sample_arrival (frag_len (frag_at 1 1000 NULL))"
  "hdrp (frag_at 1 1000 NULL) = Some \<lparr>hdr_flags = RPC_C_DG_PF_FRAG OR RPC_C_DG_PF_NO_FACK, hdr_fragnum = 1,
       serial_hi = 0, serial_lo = 0, hdr_len = 920\<rparr>"
  "no_wrap sample_arrival" "rq_next_fragnum (rq sample_arrival) = 1" "fnum (rqes sample_arrival) [2] = 1"
  "map (fnum (rqes sample_arrival)) [[3]] = [2]"
proof -
  show "rq_ok sample_arrival [[1]] [[3]]" unfolding sample_arrival_def
    by (rule rq_ok_frame [OF sample_call_ok(1)]) simp
qed (simp_all add: sample_arrival_def sample_call_def new_call_def blank_recvq_def new_frag_def frag_ok_def
  has_hdr_def frag_at_def fnum_def limit_fixed_def no_wrap_def)

text \<open>Fragment 1 arrives where 0 and 2 are queued: then all are in order.\<close>

lemma recvq_insert_refines_witness:
  "\<exists>wake c'. rpc__dg_call_recvq_insert calm 2 sample_arrival = Some (True, wake, c') \<and>
     rq_ok c' [[1], [2], [3]] [] \<and> rq_next_fragnum (rq c') = 3"
proof -
  note s = sample_arrival_ok
  have a: "accepts calm sample_arrival [[1]] [[3]] 1"
    unfolding accepts_def s(7) by (simp add: sample_arrival_def sample_call_def new_call_def blank_recvq_def calm_def)
  have i: "insert_frag (rqes sample_arrival) 1 [2] [[1]] [[3]] = ([[1], [2], [3]], [])"
    unfolding insert_frag_def s(8,9) by (simp add: Let_def)
  from recvq_insert_refines [OF s(1,2,3,5,4,6), of calm]
  show ?thesis using a i unfolding s(7,8) by auto
qed

text \<open>
  C26: What an insertion answers.  A fack is sent exactly when the stream is fragmented, not complete,
  and the queue is full or the sender asked; it tells exactly the fragments received.  The call
  thread is woken exactly when it does not use a private socket and the stream is complete, the queue
  is full, enough data is in order, or packets are rationed and there is data.  The limit of the
  queue stays, and the largest fragment seen is remembered.
\<close>

theorem recvq_insert_answers:
  assumes "rq_ok c ins oos" "new_frag (rqes c) (ins @ oos) r"
    and "rqes c (hd r) = Some e" "hdrp e = Some hp" "limit_fixed c (frag_len e)" "no_wrap c"
  shows "\<exists>added wake c' ins' oos'. rpc__dg_call_recvq_insert pv (hd r) c = Some (added, wake, c') \<and> rq_ok c' ins' oos' \<and>
      wake = recvq_wakes pv c' ins' oos' \<and>
      (if fack_due hp c' ins' oos'
       then \<exists>fk. sent_facks c' = sent_facks c @ [fk] \<and> fack_tells c' oos' fk \<and> \<not> fk_nocall fk
       else sent_facks c' = sent_facks c) \<and>
      recving_frags (rq c') = (recving_frags (rq c) \<or> RPC_DG_HDR_FLAG_IS_SET hp RPC_C_DG_PF_FRAG) \<and>
      max_queue_len (rq c') = max_queue_len (rq c) \<and>
      high_rcv_frag_size (rq c') = max (high_rcv_frag_size (rq c)) (frag_len e)"
  using recvq_insert_ex [OF assms, of pv]
  by (elim exE conjE) (intro exI conjI, assumption, assumption, rule refl, assumption+)

lemma recvq_insert_answers_witness:
  "\<exists>added wake c' ins' oos'. rpc__dg_call_recvq_insert calm 2 sample_arrival = Some (added, wake, c') \<and>
     rq_ok c' ins' oos' \<and> wake = recvq_wakes calm c' ins' oos' \<and> max_queue_len (rq c') = 96 \<and>
     recving_frags (rq c')"
proof -
  note s = sample_arrival_ok
  have m: "max_queue_len (rq sample_arrival) = 96" "recving_frags (rq sample_arrival)"
    by (simp_all add: sample_arrival_def sample_call_def)
  from recvq_insert_answers [OF s(1,2,3,5,4,6), of calm] show ?thesis
    unfolding m list.sel by (elim exE conjE) (intro exI conjI, assumption, assumption, assumption, assumption, simp add: m(2))
qed

lemma recvq_free_all:
  "rseg (rqes c) (rq_head (rq c)) xs NULL \<Longrightarrow>
    rpc__dg_recvq_free c = Some (c\<lparr>rq := (rq c)\<lparr>rq_head := NULL\<rparr>, freed_rqes := freed_rqes c @ xs\<rparr>)"
proof (induction xs arbitrary: c)
  case Nil
  then have h: "rq_head (rq c) = NULL" by simp
  then have "c\<lparr>rq := (rq c)\<lparr>rq_head := NULL\<rparr>\<rparr> = c" by (metis dg_rcall.surjective dg_rcall.update_convs(1) dg_recvq.surjective dg_recvq.update_convs(1))
  then show ?case using h by (subst rpc__dg_recvq_free.simps) simp
next
  case (Cons x xs)
  then obtain e where e: "rq_head (rq c) = x" "x \<noteq> NULL" "rqes c x = Some e" "rseg (rqes c) (rqe_next e) xs NULL" by auto
  let ?c = "c\<lparr>rq := (rq c)\<lparr>rq_head := rqe_next e\<rparr>, freed_rqes := freed_rqes c @ [x]\<rparr>"
  have "rpc__dg_recvq_free ?c = Some (?c\<lparr>rq := (rq ?c)\<lparr>rq_head := NULL\<rparr>, freed_rqes := freed_rqes ?c @ xs\<rparr>)"
    by (rule Cons.IH) (use e(4) in simp)
  then show ?case using e(1-3) by (subst rpc__dg_recvq_free.simps) (simp add: rget_nz)
qed

text \<open>
  C17: Receiving, on every branch.  A call that has failed reports its status and is left as it is.
  An orphaned call reports \<open>rpc_s_call_orphaned\<close> and gives back every fragment of its queue, once each
  and in order.  Otherwise, when nothing is in order the call thread waits, or learns the end of a
  stream that is complete; and when something is, it gets the first buffer of the first fragment in
  order, with the length of its data, and the rest of the fragment or the next one is at the head of a
  well-formed queue.  A fack goes out exactly when this leaves room for one fragment; if then the number of
  a queued fragment has wrapped around zero, it writes outside its mask: the result is \<open>None\<close>.
\<close>

theorem recvq_receive:
  assumes "rq_ok c ins oos"
  shows "if call_status c \<noteq> 0 then rpc__dg_call_receive_int pv c = Some (Recv_error (call_status c), c)
    else if call_is_orphan c then rpc__dg_call_receive_int pv c = Some (Recv_error rpc_s_call_orphaned,
      c\<lparr>rq := (rq c)\<lparr>rq_head := NULL\<rparr>, freed_rqes := freed_rqes c @ map hd (ins @ oos)\<rparr>)
    else case ins of
      [] \<Rightarrow> rpc__dg_call_receive_int pv c = Some (if all_pkts_recvd (rq c) \<and> oos = [] then Recv_end else Recv_wait, c)
    | f # ins1 \<Rightarrow> let ins' = (if tl f = [] then ins1 else tl f # ins1);
          full = (Suc (length ins' + length oos) = unat (max_queue_len (rq c)))
        in if full \<and> (\<exists>g\<in>set oos. unat (fnum (rqes c) g) < unat (rq_next_fragnum (rq c))) then rpc__dg_call_receive_int pv c = None
           else \<exists>c'. rpc__dg_call_receive_int pv c
              = Some (Recv_data (hd f) (RPC_DG_RECVQ_IOVECTOR_SETUP (the (rqes c (hd f)))), c') \<and>
            rq_ok c' ins' oos \<and> rq_kept (rq c) (rq c') \<and>
            (if full then \<exists>fk. sent_facks c' = sent_facks c @ [fk] \<and> fack_tells c' oos fk else sent_facks c' = sent_facks c)"
proof -
  note d = rq_okD [OF assms(1)]
  note qf = q_shape_facts [OF d(1)]
  consider (error) "call_status c \<noteq> 0" | (orphan) "call_status c = 0" "call_is_orphan c"
    | (empty) "call_status c = 0" "\<not> call_is_orphan c" "ins = []"
    | (data) b bs ins1 where "call_status c = 0" "\<not> call_is_orphan c" "ins = (b # bs) # ins1"
    using qf(1) by (cases ins) (auto, metis list.exhaust)
  then show ?thesis
  proof cases
    case error
    then show ?thesis by (simp add: rpc__dg_call_receive_int_def)
  next
    case orphan
    have s: "rseg (rqes c) (rq_head (rq c)) (map hd (ins @ oos)) NULL" using d(1) by (simp add: q_shape_def)
    have "rpc__dg_recvq_free c = Some c" if "rq_head (rq c) = NULL" using that by (subst rpc__dg_recvq_free.simps) simp
    then have "(if rq_head (rq c) \<noteq> NULL then rpc__dg_recvq_free c else Some c) = rpc__dg_recvq_free c" by simp
    then show ?thesis using orphan recvq_free_all [OF s] by (simp add: rpc__dg_call_receive_int_def)
  next
    case empty
    have "rq_head (rq c) = NULL \<longleftrightarrow> oos = []" "last_inorder (rq c) = NULL" using qf(3,5) empty(3) by simp_all
    then show ?thesis using empty by (simp add: rpc__dg_call_receive_int_def)
  next
    case data
    have n: "\<not> call_status c \<noteq> 0" using data(1) by simp
    show ?thesis unfolding if_not_P [OF n] if_not_P [OF data(2)] data(3) list.case list.sel
    proof -
      let ?ins = "if bs = [] then ins1 else bs # ins1"
      let ?full = "Suc (length ?ins + length oos) = unat (max_queue_len (rq c))"
      let ?w = "\<exists>g\<in>set oos. unat (fnum (rqes c) g) < unat (rq_next_fragnum (rq c))"
      show "let ins' = ?ins; full = (Suc (length ins' + length oos) = unat (max_queue_len (rq c))) in
        if full \<and> ?w then rpc__dg_call_receive_int pv c = None
        else \<exists>c'. rpc__dg_call_receive_int pv c = Some (Recv_data b (RPC_DG_RECVQ_IOVECTOR_SETUP (the (rqes c b))), c') \<and>
          rq_ok c' ins' oos \<and> rq_kept (rq c) (rq c') \<and>
          (if full then \<exists>fk. sent_facks c' = sent_facks c @ [fk] \<and> fack_tells c' oos fk else sent_facks c' = sent_facks c)"
        unfolding Let_def
      proof (cases "?full \<and> ?w")
        case True
        show "if ?full \<and> ?w then rpc__dg_call_receive_int pv c = None
          else \<exists>c'. rpc__dg_call_receive_int pv c = Some (Recv_data b (RPC_DG_RECVQ_IOVECTOR_SETUP (the (rqes c b))), c') \<and>
          rq_ok c' ?ins oos \<and> rq_kept (rq c) (rq c') \<and>
          (if ?full then \<exists>fk. sent_facks c' = sent_facks c @ [fk] \<and> fack_tells c' oos fk else sent_facks c' = sent_facks c)"
          unfolding if_P [OF True] using receive_wild [OF assms [unfolded data(3)] data(1,2)] True by blast
      next
        case False
        then have nw: "?full \<longrightarrow> (\<forall>g\<in>set oos. unat (rq_next_fragnum (rq c)) \<le> unat (fnum (rqes c) g))" by (auto simp: not_less)
        show "if ?full \<and> ?w then rpc__dg_call_receive_int pv c = None
          else \<exists>c'. rpc__dg_call_receive_int pv c = Some (Recv_data b (RPC_DG_RECVQ_IOVECTOR_SETUP (the (rqes c b))), c') \<and>
          rq_ok c' ?ins oos \<and> rq_kept (rq c) (rq c') \<and>
          (if ?full then \<exists>fk. sent_facks c' = sent_facks c @ [fk] \<and> fack_tells c' oos fk else sent_facks c' = sent_facks c)"
          unfolding if_not_P [OF False] using receive_gen [OF assms data(1-3) nw, of pv] by blast
      qed
    qed
  qed
qed

lemma recvq_receive_witness:
  "\<exists>c'. rpc__dg_call_receive_int calm (sample_call 0 96) = Some (Recv_data 1 920, c') \<and> rq_ok c' [] [[3]]"
proof -
  have s: "call_status (sample_call 0 96) = 0" "\<not> call_is_orphan (sample_call 0 96)" "no_wrap (sample_call 0 96)"
    "RPC_DG_RECVQ_IOVECTOR_SETUP (the (rqes (sample_call 0 96) 1)) = 920"
    by (simp_all add: sample_call_def new_call_def blank_recvq_def no_wrap_def RPC_DG_RECVQ_IOVECTOR_SETUP_def frag_at_def)
  with recvq_receive [OF sample_call_ok(1), of calm] no_wrap_ok [OF sample_call_ok(1) s(3)] show ?thesis by auto
qed

text \<open>
  C30: A fack tells the sender exactly which fragments are there: the one before the next, and in the
  selective mask those queued beyond it.  This holds as long as no queued number has wrapped around
  past the next one; when one has, the shift is a negative difference taken as unsigned and the mask
  bit is set far outside the mask.
\<close>

theorem fack_selective_ack:
  assumes "rq_ok c ins oos" "r = NULL \<or> rqes c r \<noteq> None"
  shows "if \<forall>f\<in>set oos. unat (rq_next_fragnum (rq c)) \<le> unat (fnum (rqes c) f)
    then \<exists>fk m. rpc__dg_call_xmit_fack pv r nocall c = Some (c\<lparr>n_resvs := m, sent_facks := sent_facks c @ [fk]\<rparr>)
      \<and> fack_tells c oos fk \<and> fk_nocall fk = nocall
    else rpc__dg_call_xmit_fack pv r nocall c = None"
  using fack_ok [OF assms, of pv nocall] fack_wild [OF assms(1), of pv r nocall]
  by (auto simp: not_le)

lemma fack_selective_ack_witness:
  "(\<exists>fk m. rpc__dg_call_xmit_fack calm NULL False (sample_call 0 96)
      = Some ((sample_call 0 96)\<lparr>n_resvs := m, sent_facks := sent_facks (sample_call 0 96) @ [fk]\<rparr>) \<and> fk_fragnum fk = 0) \<and>
   rpc__dg_call_xmit_fack calm NULL False (sample_call 65534 96) = None"
proof -
  have n: "\<forall>f\<in>set [[3]]. unat (rq_next_fragnum (rq (sample_call 0 96))) \<le> unat (fnum (rqes (sample_call 0 96)) f)"
    "\<not> (\<forall>f\<in>set [[3]]. unat (rq_next_fragnum (rq (sample_call 65534 96))) \<le> unat (fnum (rqes (sample_call 65534 96)) f))"
    "rq_next_fragnum (rq (sample_call 0 96)) = 1"
    by (simp_all add: sample_call_def new_call_def blank_recvq_def fnum_def frag_at_def)
  have "\<exists>fk m. rpc__dg_call_xmit_fack calm NULL False (sample_call 0 96)
      = Some ((sample_call 0 96)\<lparr>n_resvs := m, sent_facks := sent_facks (sample_call 0 96) @ [fk]\<rparr>) \<and> fk_fragnum fk = 0"
    using fack_selective_ack [OF sample_call_ok(1) disjI1 [OF refl], of calm False]
    unfolding if_P [OF n(1)] unfolding fack_tells_def n(3) by (elim exE conjE) (intro exI conjI, assumption, simp)
  moreover have "rpc__dg_call_xmit_fack calm NULL False (sample_call 65534 96) = None"
    using fack_selective_ack [OF sample_call_ok(2), of NULL calm False] unfolding if_not_P [OF n(2)] by simp
  ultimately show ?thesis by simp
qed

end
