(* ===== verification/DgStall.thy ===== *)
theory DgStall
  imports DgRecvq
begin

text \<open>
  The receive queue of \<open>dgrq.c\<close> and \<open>dgcall.c\<close> when it is full and the fragment the call waits for
  is not on it: the state, what can still happen in it, and a run that leads to it, in which the limit of the
  queue is lowered while fragments from beyond the new limit are queued.  Kept in a theory of its own
  because it evaluates some fifty insertions.
\<close>

section \<open>A full queue with a gap at its head\<close>

text \<open>The elements \<open>xs\<close> are linked from \<open>p\<close> on; their numbers lie behind \<open>n\<close>, up to \<open>high\<close>.\<close>

fun waiting_chain :: "rheap \<Rightarrow> u16 \<Rightarrow> u16 \<Rightarrow> addr \<Rightarrow> addr list \<Rightarrow> bool" where
  "waiting_chain h n high p [] \<longleftrightarrow> p = NULL"
| "waiting_chain h n high p (x # xs) \<longleftrightarrow> p = x \<and> x \<noteq> NULL \<and>
     (case h x of None \<Rightarrow> False
      | Some e \<Rightarrow> (case hdrp e of None \<Rightarrow> False
         | Some hp \<Rightarrow> n < hdr_fragnum hp \<and> hdr_fragnum hp \<le> high \<and> waiting_chain h n high (rqe_next e) xs))"

definition stalled :: "dg_rcall \<Rightarrow> addr list \<Rightarrow> bool" where
  "stalled c xs \<longleftrightarrow> call_status c = 0 \<and> \<not> call_is_orphan c \<and> 0 < max_resvs c \<and> last_inorder (rq c) = NULL \<and>
     inorder_len (rq c) = 0 \<and> ucast (queue_len (rq c)) = max_queue_len (rq c) \<and> xs \<noteq> [] \<and>
     waiting_chain (rqes c) (rq_next_fragnum (rq c)) (high_fragnum (rq c)) (rq_head (rq c)) xs"

text \<open>What does not change any more.\<close>

definition rq_core :: "dg_recvq \<Rightarrow> addr \<times> addr \<times> u16 \<times> u16 \<times> u16 \<times> u8 \<times> u8" where
  "rq_core q = (rq_head q, last_inorder q, rq_next_fragnum q, high_fragnum q, max_queue_len q, queue_len q, inorder_len q)"

lemma waiting_frame: "(\<And>x. x \<in> set xs \<Longrightarrow> h' x = h x) \<Longrightarrow> waiting_chain h' n high p xs = waiting_chain h n high p xs"
  by (induction xs arbitrary: p) (auto split: option.splits)

lemma stalled_cong:
  assumes "stalled c xs" "rq_core (rq c') = rq_core (rq c)" "\<And>x. x \<in> set xs \<Longrightarrow> rqes c' x = rqes c x"
    "call_status c' = call_status c" "call_is_orphan c' = call_is_orphan c" "max_resvs c' = max_resvs c"
  shows "stalled c' xs"
  using assms waiting_frame [OF assms(3)] by (simp add: stalled_def rq_core_def)

lemma waiting_chain_facts:
  assumes "waiting_chain h n high p xs"
  shows "rseg h p (map hd (map (\<lambda>x. [x]) xs)) NULL" "\<forall>f\<in>set (map (\<lambda>x. [x]) xs). has_hdr h f"
    "\<forall>f\<in>set (map (\<lambda>x. [x]) xs). n < fnum h f \<and> fnum h f \<le> high" "p = NULL \<longleftrightarrow> xs = []"
  using assms by (induction xs arbitrary: p) (auto simp: has_hdr_def fnum_def split: option.splits)

lemma stalled_mask:
  assumes "stalled c xs"
  shows "\<exists>m. selack_mask (rq c) (rqes c) = Some m"
proof (cases "RPC_DG_FRAGNUM_IS_LT (rq_next_fragnum (rq c)) (high_fragnum (rq c))")
  case True
  let ?n = "rq_next_fragnum (rq c)" and ?high = "high_fragnum (rq c)"
  let ?m = "replicate (unat (?high - ?n) div 32 + 1) (0 :: u32)"
  have w: "waiting_chain (rqes c) ?n ?high (rq_head (rq c)) xs" "last_inorder (rq c) = NULL" using assms by (simp_all add: stalled_def)
  note f = waiting_chain_facts [OF w(1)]
  have "unat ?n \<le> unat (fnum (rqes c) g) \<and> off ?n (fnum (rqes c) g) div 32 < length ?m" if g: "g \<in> set (map (\<lambda>x. [x]) xs)" for g
  proof -
    have b: "?n \<le> fnum (rqes c) g" "fnum (rqes c) g \<le> ?high" using f(3) g by auto
    then have "off ?n (fnum (rqes c) g) \<le> unat (?high - ?n)"
      by (simp add: off_def unat_sub word_le_nat_alt)
    then have "off ?n (fnum (rqes c) g) div 32 \<le> unat (?high - ?n) div 32" by (rule div_le_mono)
    then show ?thesis using b(1) by (simp add: word_le_nat_alt)
  qed
  then have "\<forall>g\<in>set (map (\<lambda>x. [x]) xs). unat ?n \<le> unat (fnum (rqes c) g) \<and> off ?n (fnum (rqes c) g) div 32 < length ?m" by blast
  from selack_loop_ok [OF f(1,2) this] show ?thesis using True w(2) by (simp add: selack_mask_def del: replicate_Suc) blast
qed (simp add: selack_mask_def)

lemma stalled_fack:
  assumes "stalled c xs" "rget r (rqes c) = Some e"
  shows "\<exists>m fk. rpc__dg_call_xmit_fack pv r b c = Some (c\<lparr>n_resvs := m, sent_facks := fk\<rparr>)"
proof -
  let ?p = "fack_frag_size pv c"
  have "snd ?p = c\<lparr>n_resvs := n_resvs (snd ?p)\<rparr>" by (simp add: fack_frag_size_def split: option.split)
  then obtain s m where f: "?p = (s, c\<lparr>n_resvs := m\<rparr>)" by (metis prod.collapse)
  let ?c = "c\<lparr>n_resvs := m\<rparr>"
  obtain k where "selack_mask (rq c) (rqes c) = Some k" using stalled_mask [OF assms(1)] by blast
  then have k: "selack_mask (rq ?c) (rqes ?c) = Some k" by simp
  have r: "r \<noteq> NULL" "rget r (rqes ?c) = Some e" using assms(2) by (auto simp: rget_def split: if_splits)
  show ?thesis
    unfolding rpc__dg_call_xmit_fack_def Let_def f prod.case if_P [OF r(1)] r(2) k Option.bind.simps(2)
    by (rule exI)+ (rule refl)
qed

lemma stalled_note:
  assumes "stalled c xs"
  shows "\<exists>q. recvq_note hp len c = Some (c\<lparr>rq := q\<rparr>) \<and> rq_core q = rq_core (rq c)"
proof -
  have "inorder_len (rq c) = 0" "max_resvs c \<noteq> 0" using assms by (auto simp: stalled_def)
  moreover from this have "0 < n_resvs c \<Longrightarrow> min (n_resvs c) (max_resvs c) \<noteq> 0" by (auto simp: min_def)
  ultimately show ?thesis
    by (simp add: recvq_note_def Let_def rq_core_def)
      ((intro conjI impI; (rule exI, rule conjI, rule refl, simp)))
qed

text \<open>The next fragment, and one before it, are refused.\<close>

lemma stalled_insert:
  assumes s: "stalled c xs" and r: "rget r (rqes c) = Some e" "hdrp e = Some hp"
    and n: "hdr_fragnum hp = rq_next_fragnum (rq c) \<or> RPC_DG_FRAGNUM_IS_LT (hdr_fragnum hp) (rq_next_fragnum (rq c))"
  shows "\<exists>wake c'. rpc__dg_call_recvq_insert pv r c = Some (False, wake, c') \<and> stalled c' xs \<and>
    rq_core (rq c') = rq_core (rq c) \<and> rqes c' = rqes c"
proof -
  from stalled_note [OF s] obtain q where q: "recvq_note hp (frag_len e) c = Some (c\<lparr>rq := q\<rparr>)" "rq_core q = rq_core (rq c)" by blast
  let ?c = "c\<lparr>rq := q\<rparr>"
  have s1: "stalled ?c xs" by (rule stalled_cong [OF s]) (simp_all add: q(2))
  then have full: "ucast (queue_len q) = max_queue_len q" by (simp add: stalled_def)
  have "rq_next_fragnum q = rq_next_fragnum (rq c)" using q(2) by (simp add: rq_core_def)
  then have p: "recvq_place pv r (hdr_fragnum hp) ?c = Some (False, ?c)"
    using n full by (auto simp: recvq_place_def Let_def)
  have r1: "rget r (rqes ?c) = Some e" using r(1) by simp
  from stalled_fack [OF s1 r1, of pv False] obtain m fk where
    f: "rpc__dg_call_xmit_fack pv r False ?c = Some (?c\<lparr>n_resvs := m, sent_facks := fk\<rparr>)" by blast
  obtain m' fk' where x: "(if recving_frags q \<and> \<not> all_pkts_recvd q \<and> (ucast (queue_len q) = max_queue_len q
                 \<or> \<not> RPC_DG_HDR_FLAG_IS_SET hp RPC_C_DG_PF_NO_FACK)
          then rpc__dg_call_xmit_fack pv r False ?c else Some ?c) = Some (?c\<lparr>n_resvs := m', sent_facks := fk'\<rparr>)"
  proof (cases "recving_frags q \<and> \<not> all_pkts_recvd q \<and> (ucast (queue_len q) = max_queue_len q \<or> \<not> RPC_DG_HDR_FLAG_IS_SET hp RPC_C_DG_PF_NO_FACK)")
    case True
    then show ?thesis using f that by simp
  next
    case False
    show ?thesis by (rule that [where m' = "n_resvs c" and fk' = "sent_facks c"], subst if_not_P [OF False], simp)
  qed
  let ?d = "?c\<lparr>n_resvs := m', sent_facks := fk'\<rparr>"
  have "stalled ?d xs" by (rule stalled_cong [OF s1]) simp_all
  then show ?thesis using r q p x by (simp add: rpc__dg_call_recvq_insert_def Let_def)
qed

lemma stalled_receive:
  assumes "stalled c xs"
  shows "rpc__dg_call_receive_int pv c = Some (Recv_wait, c)"
proof -
  have w: "waiting_chain (rqes c) (rq_next_fragnum (rq c)) (high_fragnum (rq c)) (rq_head (rq c)) xs" "xs \<noteq> []"
    using assms by (simp_all add: stalled_def)
  have "rq_head (rq c) \<noteq> NULL" using waiting_chain_facts(4) [OF w(1)] w(2) by simp
  then show ?thesis using assms by (simp add: stalled_def rpc__dg_call_receive_int_def)
qed

text \<open>An event that brings only the next fragment, or an older one, in elements that are not queued.\<close>

fun resent :: "rheap \<Rightarrow> u16 \<Rightarrow> addr list \<Rightarrow> rq_event \<Rightarrow> bool" where
  "resent h0 n xs (Receive pv) \<longleftrightarrow> True"
| "resent h0 n xs (Arrive pv f) \<longleftrightarrow> f \<noteq> [] \<and> set f \<inter> set xs = {} \<and> hd f \<noteq> NULL \<and>
     (case h0 (hd f) of None \<Rightarrow> False
      | Some e \<Rightarrow> (case hdrp e of None \<Rightarrow> False
         | Some hp \<Rightarrow> hdr_fragnum hp = n \<or> RPC_DG_FRAGNUM_IS_LT (hdr_fragnum hp) n))"

text \<open>
  C35: A full queue that lacks the fragment the call waits for is stuck.  Nothing is in order, so that
  nothing is handed over however often the call thread asks, and the missing fragment, the next
  one, is refused however often it is sent again, because the queue is full; whatever the pool answers,
  the queue stays as it is.  (Nothing but retransmissions of that fragment and older ones arrives.)  The
  run of the witness leads there: fragments 0, 95 down to 50 and 3 arrive, 3 being the first large one,
  which lowers the limit of the queue from 96 to 48; fragment 0 is taken and 2 arrives.
\<close>

theorem recvq_stall:
  assumes "stalled c xs" "\<forall>e\<in>set evs. resent h0 (rq_next_fragnum (rq c)) xs e"
  shows "\<exists>c'. rq_run h0 evs c = Some ([], c') \<and> stalled c' xs \<and> rq_core (rq c') = rq_core (rq c)"
  using assms
proof (induction evs arbitrary: c)
  case Nil
  then show ?case by simp
next
  case (Cons ev evs)
  show ?case
  proof (cases ev)
    case (Receive pv)
    from Cons.IH [OF Cons.prems(1)] Cons.prems(2) show ?thesis using stalled_receive [OF Cons.prems(1)] Receive by auto
  next
    case (Arrive pv f)
    then have "resent h0 (rq_next_fragnum (rq c)) xs (Arrive pv f)" using Cons.prems(2) by simp
    then obtain e hp where f: "f \<noteq> []" "set f \<inter> set xs = {}" "hd f \<noteq> NULL" "h0 (hd f) = Some e" "hdrp e = Some hp"
      "hdr_fragnum hp = rq_next_fragnum (rq c) \<or> RPC_DG_FRAGNUM_IS_LT (hdr_fragnum hp) (rq_next_fragnum (rq c))"
      by (auto split: option.splits)
    let ?c = "c\<lparr>rqes := \<lambda>x. if x \<in> set f then h0 x else rqes c x\<rparr>"
    have s: "stalled ?c xs" by (rule stalled_cong [OF Cons.prems(1)]) (use f(2) in auto)
    have r: "rget (hd f) (rqes ?c) = Some e" using f(1,3,4) by simp
    have n: "hdr_fragnum hp = rq_next_fragnum (rq ?c) \<or> RPC_DG_FRAGNUM_IS_LT (hdr_fragnum hp) (rq_next_fragnum (rq ?c))" using f(6) by simp
    from stalled_insert [OF s r f(5) n, of pv] obtain wake c1 where c1: "rpc__dg_call_recvq_insert pv (hd f) ?c = Some (False, wake, c1)"
      "stalled c1 xs" "rq_core (rq c1) = rq_core (rq c)" by auto
    have "rq_next_fragnum (rq c1) = rq_next_fragnum (rq c)" using c1(3) by (simp add: rq_core_def)
    then have "\<forall>e\<in>set evs. resent h0 (rq_next_fragnum (rq c1)) xs e" using Cons.prems(2) by simp
    from Cons.IH [OF c1(2) this] show ?thesis using c1(1,3) Arrive by simp
  qed
qed

section \<open>A run into it\<close>

text \<open>Fragment \<open>n\<close> lies at address \<open>n + 1\<close>; fragment 3 is a large one.\<close>

definition stall_heap :: rheap where
  "stall_heap p = (if p = NULL then None else Some (frag_at (of_nat p - 1) (if p = 4 then 2000 else 1000) NULL))"

definition stall_events :: "rq_event list" where
  "stall_events = Arrive calm [1] # map (\<lambda>p. Arrive calm [p]) (rev [51..<97]) @
     [Arrive calm [4], Receive calm, Arrive calm [3]]"

lemma stall_reached:
  "case rq_run stall_heap stall_events new_call of None \<Rightarrow> False
   | Some (taken, c) \<Rightarrow> taken = [1] \<and> rq_next_fragnum (rq c) = 1 \<and> queue_len (rq c) = 48 \<and> stalled c (3 # 4 # [51..<97])"
  unfolding stall_events_def by code_simp

text \<open>Fragment 1 is sent ten times, and the call thread asks after each.\<close>

theorem recvq_stall_witness:
  "\<exists>c c'. rq_run stall_heap stall_events new_call = Some ([1], c) \<and> queue_len (rq c) = 48 \<and>
    rq_run stall_heap (concat (replicate 10 [Arrive calm [2], Receive calm])) c = Some ([], c') \<and> stalled c' (3 # 4 # [51..<97])"
proof -
  from stall_reached obtain c where c: "rq_run stall_heap stall_events new_call = Some ([1], c)" "rq_next_fragnum (rq c) = 1"
    "queue_len (rq c) = 48" "stalled c (3 # 4 # [51..<97])" by (auto split: option.splits)
  have "\<forall>e\<in>set (concat (replicate 10 [Arrive calm [2], Receive calm])). resent stall_heap (rq_next_fragnum (rq c)) (3 # 4 # [51..<97]) e"
    unfolding c(2) by (simp add: stall_heap_def frag_at_def)
  from recvq_stall [OF c(4) this] show ?thesis using c(1,3) by blast
qed

end
