(* ===== verification/Chains.thy ===== *)
theory Chains
  imports RpcList
begin

text \<open>
  Singly linked chains of records in a store: \<open>nseg nx h p xs q\<close> says that from \<open>p\<close> the link \<open>nx\<close>
  leads through the records at \<open>xs\<close> to \<open>q\<close>.  The queues of the datagram protocol and the lists of
  its packet pool are chains that end with \<open>NULL\<close>.
\<close>

fun nseg :: "('r \<Rightarrow> addr) \<Rightarrow> (addr \<Rightarrow> 'r option) \<Rightarrow> addr \<Rightarrow> addr list \<Rightarrow> addr \<Rightarrow> bool" where
  "nseg nx h p [] q \<longleftrightarrow> p = q"
| "nseg nx h p (x # xs) q \<longleftrightarrow> p = x \<and> x \<noteq> NULL \<and> (\<exists>e. h x = Some e \<and> nseg nx h (nx e) xs q)"

definition first_addr :: "addr list \<Rightarrow> addr" where
  "first_addr xs = (if xs = [] then NULL else hd xs)"

definition last_addr :: "addr list \<Rightarrow> addr" where
  "last_addr xs = (if xs = [] then NULL else last xs)"

lemma first_addr_simps [simp]: "first_addr [] = NULL" "first_addr (x # xs) = x"
  "first_addr (xs @ ys) = (if xs = [] then first_addr ys else first_addr xs)"
  by (simp_all add: first_addr_def)

lemma last_addr_simps [simp]: "last_addr [] = NULL" "last_addr (xs @ [x]) = x"
  "last_addr (xs @ ys) = (if ys = [] then last_addr xs else last_addr ys)"
  by (simp_all add: last_addr_def)

lemma nseg_append [simp]: "nseg nx h p (xs @ ys) q \<longleftrightarrow> (\<exists>r. nseg nx h p xs r \<and> nseg nx h r ys q)"
  by (induction xs arbitrary: p) auto

lemma nseg_cong: "(\<And>x. x \<in> set xs \<Longrightarrow> map_option nx (h' x) = map_option nx (h x)) \<Longrightarrow> nseg nx h' p xs q = nseg nx h p xs q"
proof (induction xs arbitrary: p)
  case (Cons x xs)
  have "map_option nx (h' x) = map_option nx (h x)" using Cons.prems by simp
  then show ?case using Cons.IH Cons.prems by (cases "h x"; cases "h' x") auto
qed simp

lemma nseg_upd [simp]: "x \<notin> set xs \<Longrightarrow> nseg nx (h(x := v)) p xs q = nseg nx h p xs q"
  by (rule nseg_cong) auto

lemma nseg_first: "nseg nx h p xs NULL \<Longrightarrow> p = first_addr xs"
  by (cases xs) auto

lemma nseg_elem: "nseg nx h p xs q \<Longrightarrow> x \<in> set xs \<Longrightarrow> x \<noteq> NULL \<and> (\<exists>e. h x = Some e)"
  by (induction xs arbitrary: p) auto

lemma nseg_split:
  assumes "nseg nx h p (xs @ x # ys) q"
  shows "\<exists>e. h x = Some e \<and> nseg nx h p xs x \<and> nseg nx h (nx e) ys q \<and> x \<noteq> NULL"
  using assms by auto

text \<open>A record put behind the last one, and one taken out: the only links that change are those given.\<close>

lemma nseg_snoc:
  assumes "nseg nx h p xs NULL" "distinct xs" "x \<notin> set xs" "x \<noteq> NULL"
    and same: "\<And>y. y \<in> set (butlast xs) \<Longrightarrow> map_option nx (h' y) = map_option nx (h y)"
    and new: "map_option nx (h' x) = Some NULL" and tail: "xs \<noteq> [] \<Longrightarrow> map_option nx (h' (last xs)) = Some x"
  shows "nseg nx h' (if xs = [] then x else p) (xs @ [x]) NULL"
proof (cases xs rule: rev_cases)
  case Nil
  then show ?thesis using new assms(4) by auto
next
  case (snoc ys t)
  have "nseg nx h p ys t" "t \<noteq> NULL" using assms(1) unfolding snoc by auto
  moreover have "nseg nx h' p ys t = nseg nx h p ys t" by (rule nseg_cong, rule same) (simp add: snoc)
  ultimately have "nseg nx h' p ys t" by simp
  then show ?thesis using new tail assms(4) \<open>t \<noteq> NULL\<close> snoc by auto
qed

lemma nseg_unlink:
  assumes "nseg nx h p (xs @ x # ys) q" "h x = Some e"
    and same: "\<And>y. y \<in> set (butlast xs) \<union> set ys \<Longrightarrow> map_option nx (h' y) = map_option nx (h y)"
    and prev: "xs \<noteq> [] \<Longrightarrow> map_option nx (h' (last xs)) = Some (nx e)"
  shows "nseg nx h' (if xs = [] then nx e else p) (xs @ ys) q"
proof -
  have s: "nseg nx h p xs x" "nseg nx h (nx e) ys q" using assms(1,2) by auto
  have "nseg nx h' (nx e) ys q = nseg nx h (nx e) ys q" by (rule nseg_cong, rule same) simp
  with s(2) have y: "nseg nx h' (nx e) ys q" by simp
  show ?thesis
  proof (cases xs rule: rev_cases)
    case (snoc zs z)
    have "nseg nx h p zs z" "z \<noteq> NULL" using s(1) unfolding snoc by auto
    moreover have "nseg nx h' p zs z = nseg nx h p zs z" by (rule nseg_cong, rule same) (simp add: snoc)
    ultimately have "nseg nx h' p zs z" by simp
    then show ?thesis using y prev \<open>z \<noteq> NULL\<close> snoc by auto
  qed (use y in simp)
qed

lemma nseg_NULL_iff: "nseg nx h p xs NULL \<Longrightarrow> p = NULL \<longleftrightarrow> xs = []"
  by (cases xs) auto

lemma last_addr_NULL_iff: "NULL \<notin> set xs \<Longrightarrow> last_addr xs = NULL \<longleftrightarrow> xs = []"
  by (cases xs rule: rev_cases) (auto simp: last_addr_def)

end
