(* ===== verification/DgXmitq.thy ===== *)
theory DgXmitq
  imports DgRecvq RpcClock Chains
begin

text \<open>
  The transmit queue of a datagram call: \<open>ncklib/transport/dg/dgxq.c\<close>, and of \<open>dgcall.c\<close> the blast
  (\<open>rpc__dg_call_xmit\<close>), the retransmission timer and the final push.  Without authentication.

  The queue is linked through a store of elements; an element given back to the packet pool
  leaves the store, so that \<open>None\<close> is also a use of a freed element.
\<close>

section \<open>The state\<close>

text \<open>
  \<open>xqe_body\<close> are the bytes in the packet of the element, \<open>xqe_more\<close> those of the elements of its
  \<open>more_data\<close> chain, which belong to it alone.
\<close>

record dg_xqe =
  xqe_next :: addr
  next_rexmit :: addr
  xqe_frag_len :: u32
  xqe_flags :: u16
  xqe_fragnum :: u32
  xqe_serial :: u16
  xqe_in_cwindow :: bool
  xqe_body :: "u8 list"
  xqe_more :: "u8 list list"

type_synonym xheap = "addr \<Rightarrow> dg_xqe option"

text \<open>Of the prototype header \<open>hdr\<close> the packet type and sequence number are kept from call to call.\<close>

record dg_xmitq =
  xq_head :: addr
  first_unsent :: addr
  xq_tail :: addr
  rexmitq :: addr
  part_xqe :: addr
  xq_ptype :: u8
  xq_seq :: u32
  awaiting_ack_timestamp :: u32
  xq_timestamp :: u32
  rexmit_timeout :: u32
  base_flags :: u16
  base_flags2 :: u16
  xq_next_fragnum :: u16
  next_serial_num :: u16
  last_fack_serial :: u16
  xq_window_size :: u16
  cwindow_size :: u16
  xq_rcv_tsdu :: u32
  max_snd_tsdu :: u32
  max_frag_size :: u32
  snd_frag_size :: u32
  blast_size :: u8
  max_blast_size :: u8
  xq_timer :: u16
  xq_timer_throttle :: u16
  high_cwindow :: u8
  freqs_out :: u8
  xq_push :: bool
  awaiting_ack :: bool
  first_fack_seen :: bool

text \<open>A packet handed to the socket.\<close>

record dg_pkt =
  dp_hdr :: dg_hdr
  dp_ptype :: u8
  dp_flags2 :: u8
  dp_seq :: u32
  dp_body :: "u8 list"

datatype dg_call_state = Cs_init | Cs_xmit | Cs_recv | Cs_final | Cs_idle | Cs_orphan

text \<open>
  The parts of a call handle used when sending.  \<open>xc_now\<close> is what \<open>gettimeofday\<close> would return,
  \<open>sent_pkts\<close> records the packets sent and \<open>xc_signals\<close> the signals to the call thread.
\<close>

record dg_xcall =
  xq :: dg_xmitq
  xqes :: xheap
  xc_state :: dg_call_state
  xc_status :: u32
  xc_is_server :: bool
  xc_is_private :: bool
  xc_is_cbk :: bool
  sock_disabled :: bool
  xc_high_seq :: u32
  com_timeout_knob :: nat
  xc_last_rcv :: u32
  xc_n_resvs :: u8
  xc_max_resvs :: u8
  xc_now :: "int \<times> int"
  xc_clock :: clock_state
  xc_signals :: nat
  sent_pkts :: "dg_pkt list"

abbreviation (input) RPC_C_DG_PF_MAYBE :: u16 where "RPC_C_DG_PF_MAYBE \<equiv> 0x10"
abbreviation (input) RPC_C_DG_PF_IDEMPOTENT :: u16 where "RPC_C_DG_PF_IDEMPOTENT \<equiv> 0x20"
abbreviation (input) XF_LAST_FRAG :: u16 where "XF_LAST_FRAG \<equiv> 0x02"
abbreviation (input) XF_FRAG :: u16 where "XF_FRAG \<equiv> 0x04"
abbreviation (input) XF_NO_FACK :: u16 where "XF_NO_FACK \<equiv> 0x08"
abbreviation (input) RPC_C_DG_PT_REQUEST :: u8 where "RPC_C_DG_PT_REQUEST \<equiv> 0"
abbreviation (input) RPC_C_DG_PT_RESPONSE :: u8 where "RPC_C_DG_PT_RESPONSE \<equiv> 2"
abbreviation (input) rpc_s_call_faulted :: u32 where "rpc_s_call_faulted \<equiv> 0x16c9a014"
abbreviation (input) rpc_s_comm_failure :: u32 where "rpc_s_comm_failure \<equiv> 0x16c9a016"
abbreviation (input) rpc_s_socket_failure :: u32 where "rpc_s_socket_failure \<equiv> 0x16c9a0df"

definition RPC_DG_FLAG_IS_SET :: "u16 \<Rightarrow> u16 \<Rightarrow> bool" where
  "RPC_DG_FLAG_IS_SET flags flag \<longleftrightarrow> flags AND flag \<noteq> 0"

definition xget :: "addr \<Rightarrow> xheap \<Rightarrow> dg_xqe option" where
  "xget p h = (if p = NULL then None else h p)"

definition xset :: "addr \<Rightarrow> (dg_xqe \<Rightarrow> dg_xqe) \<Rightarrow> dg_xcall \<Rightarrow> dg_xcall option" where
  "xset p f c = do { e \<leftarrow> xget p (xqes c); Some (c\<lparr>xqes := (xqes c)(p \<mapsto> f e)\<rparr>) }"

text \<open>\<open>rpc__clock_stamp\<close> may bring the clock up to date.\<close>

definition call_stamp :: "dg_xcall \<Rightarrow> u32 \<times> dg_xcall" where
  "call_stamp c = (case rpc__clock_stamp (xc_now c) (xc_clock c) of (t, s) \<Rightarrow> (t, c\<lparr>xc_clock := s\<rparr>))"

definition rpc__dg_call_signal :: "dg_xcall \<Rightarrow> dg_xcall" where
  "rpc__dg_call_signal c = c\<lparr>xc_signals := xc_signals c + 1\<rparr>"

definition rpc__dg_call_signal_failure :: "u32 \<Rightarrow> dg_xcall \<Rightarrow> dg_xcall" where
  "rpc__dg_call_signal_failure stcode c =
     rpc__dg_call_signal (if xc_status c = 0 then c\<lparr>xc_status := stcode\<rparr> else c)"

text \<open>\<open>rpc__dg_pkt_free_xqe\<close> as far as the queue is concerned: the element must not be used any more.\<close>

definition free_xqe :: "addr \<Rightarrow> dg_xcall \<Rightarrow> dg_xcall option" where
  "free_xqe p c = do { e \<leftarrow> xget p (xqes c); Some (c\<lparr>xqes := (xqes c)(p := None)\<rparr>) }"

section \<open>Initialisation and release\<close>

definition rpc__dg_xmitq_reinit :: "dg_xmitq \<Rightarrow> dg_xmitq" where
  "rpc__dg_xmitq_reinit q =
     q\<lparr>xq_head := NULL, first_unsent := NULL, xq_tail := NULL, part_xqe := NULL, rexmitq := NULL,
       xq_next_fragnum := 0, next_serial_num := 0, last_fack_serial := -1, cwindow_size := 0,
       xq_window_size := 8, blast_size := 0, freqs_out := 0, xq_push := False, awaiting_ack := False,
       rexmit_timeout := RPC_CLOCK_SEC 2, first_fack_seen := True\<rparr>"

definition rpc__dg_xmitq_init :: "dg_xmitq \<Rightarrow> dg_xmitq" where
  "rpc__dg_xmitq_init q =
     (rpc__dg_xmitq_reinit q)\<lparr>xq_rcv_tsdu := 1024, max_snd_tsdu := 1024, max_frag_size := 1024,
       snd_frag_size := 1024, max_blast_size := 4, xq_timer := 8, xq_timer_throttle := 1,
       high_cwindow := 0\<rparr>"

partial_function (option) xmitq_free_loop :: "dg_xcall \<Rightarrow> dg_xcall option" where
  "xmitq_free_loop c =
     (if xq_head (xq c) = NULL then Some c
      else do {
        e \<leftarrow> xget (xq_head (xq c)) (xqes c);
        c \<leftarrow> free_xqe (xq_head (xq c)) (c\<lparr>xq := (xq c)\<lparr>xq_head := xqe_next e\<rparr>\<rparr>);
        xmitq_free_loop c })"

definition rpc__dg_xmitq_free :: "dg_xcall \<Rightarrow> dg_xcall option" where
  "rpc__dg_xmitq_free c = do {
     c \<leftarrow> xmitq_free_loop (c\<lparr>xq := (xq c)\<lparr>awaiting_ack := False\<rparr>\<rparr>);
     Some (c\<lparr>xq := (xq c)\<lparr>first_unsent := NULL, xq_tail := NULL, rexmitq := NULL, blast_size := 0\<rparr>\<rparr>) }"

definition RPC_DG_XMITQ_REINIT :: "dg_xcall \<Rightarrow> dg_xcall option" where
  "RPC_DG_XMITQ_REINIT c = do {
     c \<leftarrow> (if xq_head (xq c) \<noteq> NULL then rpc__dg_xmitq_free c else Some c);
     Some (c\<lparr>xq := rpc__dg_xmitq_reinit (xq c)\<rparr>) }"

definition xq_com_timeout_params :: "u32 list" where
  "xq_com_timeout_params = map RPC_CLOCK_SEC [1, 2, 4, 8, 15, 30, 2 * 30, 4 * 30, 8 * 30, 16 * 30, 0]"

definition rpc__dg_xmitq_awaiting_ack_tmo :: "dg_xmitq \<Rightarrow> nat \<Rightarrow> clock_state \<Rightarrow> bool option" where
  "rpc__dg_xmitq_awaiting_ack_tmo q knob clk =
     (if knob < length xq_com_timeout_params then
        Some (awaiting_ack q \<and> rpc__clock_aged (awaiting_ack_timestamp q) (xq_com_timeout_params ! knob) clk
              \<and> knob \<noteq> 10)
      else None)"

section \<open>Appending the partial fragment\<close>

definition rpc__dg_xmitq_append_pp :: "dg_xcall \<Rightarrow> dg_xcall option" where
  "rpc__dg_xmitq_append_pp c =
     (let x = part_xqe (xq c); num = xq_next_fragnum (xq c) in
      if x = NULL then Some c
      else do {
        c \<leftarrow> xset x (\<lambda>e. e\<lparr>xqe_frag_len := of_nat (length (xqe_body e) + length (concat (xqe_more e))),
               xqe_next := NULL, xqe_fragnum := ucast num, xqe_flags := 0\<rparr>) c;
        let c = c\<lparr>xq := (xq c)\<lparr>xq_next_fragnum := num + 1\<rparr>\<rparr>;
        c \<leftarrow> (if xq_head (xq c) = NULL
             then Some (c\<lparr>xq := (xq c)\<lparr>xq_head := x, xq_tail := x, first_unsent := x\<rparr>\<rparr>)
             else do {
               c \<leftarrow> xset (xq_tail (xq c)) (\<lambda>e. e\<lparr>xqe_next := x\<rparr>) c;
               let c = c\<lparr>xq := (xq c)\<lparr>xq_tail := x\<rparr>\<rparr>;
               Some (if first_unsent (xq c) = NULL then c\<lparr>xq := (xq c)\<lparr>first_unsent := x\<rparr>\<rparr> else c) });
        let c = (if num = 0 \<and> \<not> xq_push (xq c) \<and> xq_ptype (xq c) = RPC_C_DG_PT_REQUEST
                    \<and> \<not> RPC_DG_FLAG_IS_SET (base_flags (xq c)) RPC_C_DG_PF_MAYBE
                 then c\<lparr>xq := (xq c)\<lparr>base_flags := base_flags (xq c) AND NOT RPC_C_DG_PF_IDEMPOTENT\<rparr>\<rparr> else c);
        let c = (if \<not> xq_push (xq c) then c\<lparr>xq := (xq c)\<lparr>base_flags := base_flags (xq c) OR XF_FRAG\<rparr>\<rparr> else c);
        Some (c\<lparr>xq := (xq c)\<lparr>part_xqe := NULL\<rparr>\<rparr>) })"

section \<open>Sending\<close>

text \<open>The bytes of the I/O vector after the header: none when the first element is empty.\<close>

definition frag_body :: "dg_xqe \<Rightarrow> u8 list" where
  "frag_body e = (if xqe_body e = [] then [] else xqe_body e @ concat (xqe_more e))"

definition frag_iovlen :: "dg_xqe \<Rightarrow> nat" where
  "frag_iovlen e = (if xqe_body e = [] then 1 else 2 + length (xqe_more e))"

text \<open>
  One element.  The two assertions are on the number of buffers (at most two and the header) and
  on the length; the result of \<open>sendmsg\<close> does not change the queue.
\<close>

definition rpc__dg_xmitq_elt_xmit :: "addr \<Rightarrow> dg_xcall \<Rightarrow> dg_xcall option" where
  "rpc__dg_xmitq_elt_xmit x c =
     (if sock_disabled c then Some (rpc__dg_call_signal_failure rpc_s_socket_failure c)
      else do {
        e \<leftarrow> xget x (xqes c);
        let q = xq c;
        let serial = next_serial_num q;
        let flags = (ucast (base_flags q OR xqe_flags e) :: u8);
        let seq = (if xq_ptype q = RPC_C_DG_PT_RESPONSE then xc_high_seq c else xq_seq q);
        let flags = (if xq_push q \<and> x = xq_tail q \<and> RPC_DG_FLAG_IS_SET (base_flags q) XF_FRAG
                     then flags OR RPC_C_DG_PF_LAST_FRAG OR RPC_C_DG_PF_NO_FACK else flags);
        let (now, ca) = call_stamp c;
        let c = (if \<not> awaiting_ack q
                    \<and> (\<not> RPC_DG_FLAG_IS_SET (base_flags q) XF_FRAG \<or> flags AND RPC_C_DG_PF_LAST_FRAG \<noteq> 0
                       \<or> flags AND RPC_C_DG_PF_NO_FACK = 0)
                 then ca\<lparr>xq := (xq ca)\<lparr>awaiting_ack := True, awaiting_ack_timestamp := now\<rparr>\<rparr>
                 else c);
        let body = frag_body e;
        if frag_iovlen e > 3 \<or> xqe_frag_len e \<noteq> 0 \<and> length body \<noteq> unat (xqe_frag_len e) then None
        else do {
          let (now, c) = call_stamp c;
          Some (c\<lparr>xq := (xq c)\<lparr>next_serial_num := serial + 1, xq_timestamp := now\<rparr>,
            xqes := (xqes c)(x \<mapsto> e\<lparr>xqe_serial := serial, xqe_frag_len := ucast (of_nat (length body) :: u16)\<rparr>),
            sent_pkts := sent_pkts c @
              [\<lparr>dp_hdr = \<lparr>hdr_flags = flags, hdr_fragnum = ucast (xqe_fragnum e),
                  serial_hi = ucast (drop_bit 8 serial), serial_lo = ucast serial,
                  hdr_len = of_nat (length body)\<rparr>,
                dp_ptype = xq_ptype q, dp_flags2 = ucast (base_flags2 q), dp_seq = seq,
                dp_body = body\<rparr>]\<rparr>) } })"

definition window_size_to_freqs_out :: "u8 list" where
  "window_size_to_freqs_out = [0, 1, 2, 2, 2, 3, 3, 3, 3, 3, 4, 4, 4, 4, 4, 4, 4]"

text \<open>One packet of a blast: \<open>ask\<close> when it is one that asks for a fack, if the stream is fragmented.\<close>

definition xmit_one :: "bool \<Rightarrow> addr \<Rightarrow> dg_xcall \<Rightarrow> dg_xcall option" where
  "xmit_one ask xqe c =
     (let frag = RPC_DG_FLAG_IS_SET (base_flags (xq c)) XF_FRAG in do {
        c \<leftarrow> (if frag then
               if ask then do {
                 c \<leftarrow> xset xqe (\<lambda>e. e\<lparr>xqe_flags := xqe_flags e AND NOT XF_NO_FACK\<rparr>) c;
                 Some (c\<lparr>xq := (xq c)\<lparr>freqs_out := freqs_out (xq c) + 1\<rparr>\<rparr>) }
               else xset xqe (\<lambda>e. e\<lparr>xqe_flags := xqe_flags e OR XF_NO_FACK\<rparr>) c
             else Some (c\<lparr>xq := (xq c)\<lparr>freqs_out := freqs_out (xq c) + 1\<rparr>\<rparr>));
        c \<leftarrow> xset xqe (\<lambda>e. e\<lparr>xqe_in_cwindow := True\<rparr>) c;
        rpc__dg_xmitq_elt_xmit xqe c })"

text \<open>
  \<open>n\<close> packets are left of the blast, \<open>rexmiting\<close> says whether \<open>xqe\<close> is on the retransmission queue.
  The result is \<open>num_sent - 1\<close>, the number of packets sent.
\<close>

fun xmit_loop :: "nat \<Rightarrow> nat \<Rightarrow> nat \<Rightarrow> addr \<Rightarrow> bool \<Rightarrow> dg_xcall \<Rightarrow> (nat \<times> dg_xcall) option" where
  "xmit_loop 0 blast extra xqe rexmiting c = Some (blast, c)"
| "xmit_loop (Suc n) blast extra xqe rexmiting c =
     (let num_sent = blast - n;
          (xqe, rexmiting) = (if xqe = NULL \<and> rexmiting then (first_unsent (xq c), False) else (xqe, rexmiting))
      in if xqe = NULL then Some (num_sent - 1, c)
         else do {
           c \<leftarrow> xmit_one (num_sent = extra \<or> num_sent = blast) xqe c;
           e \<leftarrow> xget xqe (xqes c);
           if rexmiting then xmit_loop n blast extra (next_rexmit e) True c
           else xmit_loop n blast extra (xqe_next e) False (c\<lparr>xq := (xq c)\<lparr>first_unsent := xqe_next e\<rparr>\<rparr>) })"

definition rpc__dg_call_xmit :: "dg_xcall \<Rightarrow> dg_xcall option" where
  "rpc__dg_call_xmit c =
     (let q = xq c;
          blast = unat (blast_size q);
          freqs_total = (if xq_window_size q > 16 then ucast (xq_window_size q div 4)
                         else window_size_to_freqs_out ! unat (xq_window_size q));
          extra_fack = (if uint freqs_total - uint (freqs_out q) > 1 then blast div 2 else 0)
      in do {
        (n, c) \<leftarrow> xmit_loop blast blast extra_fack (rexmitq q) True c;
        let q = xq c;
        let q = q\<lparr>cwindow_size := cwindow_size q + of_nat n\<rparr>;
        let q = (if cwindow_size q > ucast (high_cwindow q) then q\<lparr>high_cwindow := ucast (cwindow_size q)\<rparr> else q);
        let (now, c) = call_stamp c;
        Some (c\<lparr>xq := q\<lparr>xq_timestamp := now, rexmitq := NULL, blast_size := 0\<rparr>\<rparr>) })"

definition RPC_DG_CALL_READY_TO_SEND :: "dg_xcall \<Rightarrow> bool" where
  "RPC_DG_CALL_READY_TO_SEND c \<longleftrightarrow> blast_size (xq c) > 0"

definition RPC_DG_START_XMIT :: "dg_xcall \<Rightarrow> dg_xcall option" where
  "RPC_DG_START_XMIT c =
     (if xc_state c = Cs_final then rpc__dg_call_xmit c else Some (rpc__dg_call_signal c))"

text \<open>An element that has to be sent again leaves the congestion window.\<close>

definition leave_cwindow :: "addr \<Rightarrow> dg_xcall \<Rightarrow> dg_xcall option" where
  "leave_cwindow x c = do {
     e \<leftarrow> xget x (xqes c);
     if xqe_in_cwindow e then do {
       c \<leftarrow> xset x (\<lambda>e. e\<lparr>xqe_in_cwindow := False\<rparr>) c;
       let c = c\<lparr>xq := (xq c)\<lparr>cwindow_size := cwindow_size (xq c) - 1\<rparr>\<rparr>;
       Some (if \<not> RPC_DG_FLAG_IS_SET (xqe_flags e) XF_NO_FACK \<or> RPC_DG_FLAG_IS_SET (xqe_flags e) XF_LAST_FRAG
             then c\<lparr>xq := (xq c)\<lparr>freqs_out := freqs_out (xq c) - 1\<rparr>\<rparr> else c) }
     else Some c }"

text \<open>The timer; nothing happens unless something is on the queue and the retransmission time is over.\<close>

definition rpc__dg_call_xmitq_timer :: "dg_xcall \<Rightarrow> dg_xcall option" where
  "rpc__dg_call_xmitq_timer c =
     (let x = xq_head (xq c) in
      if xc_status c \<noteq> 0 \<and> xc_status c \<noteq> rpc_s_call_faulted then Some c
      else if x = NULL \<or> \<not> rpc__clock_aged (xq_timestamp (xq c)) (rexmit_timeout (xq c)) (xc_clock c) then Some c
      else do {
        tmo \<leftarrow> rpc__dg_xmitq_awaiting_ack_tmo (xq c) (com_timeout_knob c) (xc_clock c);
        if tmo then Some (rpc__dg_call_signal_failure rpc_s_comm_failure c)
        else do {
          c \<leftarrow> (if x \<noteq> first_unsent (xq c)
               then xset x (\<lambda>e. e\<lparr>next_rexmit := NULL\<rparr>) (c\<lparr>xq := (xq c)\<lparr>rexmitq := x\<rparr>\<rparr>)
               else Some c);
          let c = c\<lparr>xq := (xq c)\<lparr>rexmit_timeout := min (RPC_CLOCK_SEC 8) (push_bit 1 (rexmit_timeout (xq c)))\<rparr>\<rparr>;
          c \<leftarrow> leave_cwindow x c;
          RPC_DG_START_XMIT (c\<lparr>xq := (xq c)\<lparr>blast_size := 1\<rparr>\<rparr>) } })"

partial_function (option) restart_loop :: "addr \<Rightarrow> addr \<Rightarrow> u32 \<Rightarrow> dg_xcall \<Rightarrow> (u32 \<times> dg_xcall) option" where
  "restart_loop x tail cnt c =
     (if x = NULL \<or> x = first_unsent (xq c) then Some (cnt, c)
      else do {
        c \<leftarrow> leave_cwindow x c;
        c \<leftarrow> (if cnt + 1 = 1 then Some (c\<lparr>xq := (xq c)\<lparr>rexmitq := x\<rparr>\<rparr>)
             else xset tail (\<lambda>e. e\<lparr>next_rexmit := x\<rparr>) c);
        c \<leftarrow> xset x (\<lambda>e. e\<lparr>next_rexmit := NULL\<rparr>) c;
        e \<leftarrow> xget x (xqes c);
        restart_loop (xqe_next e) x (cnt + 1) c })"

definition rpc__dg_xmitq_restart :: "dg_xcall \<Rightarrow> dg_xcall option" where
  "rpc__dg_xmitq_restart c =
     (if RPC_DG_CALL_READY_TO_SEND c then RPC_DG_START_XMIT c
      else do {
        (cnt, c) \<leftarrow> restart_loop (xq_head (xq c)) NULL 0 c;
        let cnt = (if cnt = 0 \<and> first_unsent (xq c) \<noteq> NULL then 1 else cnt);
        let c = c\<lparr>xq := (xq c)\<lparr>blast_size := ucast (min cnt 2)\<rparr>\<rparr>;
        if RPC_DG_CALL_READY_TO_SEND c then RPC_DG_START_XMIT c else Some c })"

text \<open>
  The final push.  \<open>push_turn\<close> is a turn of its loop: the result is whether all has been sent;
  otherwise the call waits for a network event and goes on with another turn.
\<close>

definition push_turn :: "dg_xcall \<Rightarrow> (bool \<times> dg_xcall) option" where
  "push_turn c = do {
     c \<leftarrow> (if RPC_DG_CALL_READY_TO_SEND c then rpc__dg_call_xmit c else Some c);
     Some (first_unsent (xq c) = NULL, c) }"

definition rpc__dg_call_xmitq_push :: "dg_xcall \<Rightarrow> (bool \<times> dg_xcall) option" where
  "rpc__dg_call_xmitq_push c = do {
     let q = xq c;
     let q = (if xq_head q = NULL then q\<lparr>blast_size := 1\<rparr>
              else if freqs_out q = 0 then q\<lparr>blast_size := 2\<rparr> else q);
     c \<leftarrow> rpc__dg_xmitq_append_pp (c\<lparr>xq := q\<lparr>xq_push := True\<rparr>\<rparr>);
     push_turn c }"

declare xmitq_free_loop.simps [code] restart_loop.simps [code]

section \<open>Queues of elements\<close>

text \<open>The queues are chains through one of the two links, \<open>xqe_next\<close> or \<open>next_rexmit\<close>.\<close>

text \<open>Counting when one element of the queue changes.\<close>

lemma length_filter_upd:
  assumes "distinct xs" "x \<in> set xs" "\<And>y. y \<in> set xs \<Longrightarrow> y \<noteq> x \<Longrightarrow> P' y = P y"
  shows "length (filter P' xs) + (if P x then 1 else 0) = length (filter P xs) + (if P' x then 1 else 0)"
proof -
  obtain ys zs where xs: "xs = ys @ x # zs" using split_list [OF assms(2)] by blast
  then have "filter P' ys = filter P ys" "filter P' zs = filter P zs" using assms by (auto intro!: filter_cong)
  then show ?thesis unfolding xs by simp
qed

definition xelt :: "xheap \<Rightarrow> addr \<Rightarrow> dg_xqe" where "xelt h x = the (h x)"
definition xnum :: "xheap \<Rightarrow> addr \<Rightarrow> nat" where "xnum h x = unat (xqe_fragnum (xelt h x))"
definition xin :: "xheap \<Rightarrow> addr \<Rightarrow> bool" where "xin h x = xqe_in_cwindow (xelt h x)"
definition xask :: "xheap \<Rightarrow> addr \<Rightarrow> bool" where "xask h x = (\<not> RPC_DG_FLAG_IS_SET (xqe_flags (xelt h x)) XF_NO_FACK)"

lemma xelt_upd [simp]: "xelt (h(x \<mapsto> e)) y = (if y = x then e else xelt h y)"
  by (simp add: xelt_def)

text \<open>An element that can be sent: at most two buffers, and the length noted for it.\<close>

definition xqe_ok :: "dg_xqe \<Rightarrow> bool" where
  "xqe_ok e \<longleftrightarrow> length (xqe_body e) \<le> 4240 \<and> length (xqe_more e) \<le> 1 \<and> (\<forall>b\<in>set (xqe_more e). length b \<le> 4240) \<and>
     (xqe_body e = [] \<longrightarrow> xqe_more e = [])"

lemma xqe_ok_facts:
  assumes "xqe_ok e"
  shows "frag_iovlen e \<le> 3" "frag_body e = xqe_body e @ concat (xqe_more e)" "length (frag_body e) \<le> 8480"
proof -
  show b: "frag_body e = xqe_body e @ concat (xqe_more e)" using assms by (auto simp: frag_body_def xqe_ok_def)
  show "frag_iovlen e \<le> 3" using assms by (auto simp: frag_iovlen_def xqe_ok_def)
  show "length (frag_body e) \<le> 8480" using assms unfolding b xqe_ok_def by (cases "xqe_more e") auto
qed

definition xlen_ok :: "dg_xqe \<Rightarrow> bool" where
  "xlen_ok e \<longleftrightarrow> xqe_ok e \<and> xqe_frag_len e = of_nat (length (frag_body e)) \<and> \<not> RPC_DG_FLAG_IS_SET (xqe_flags e) XF_LAST_FRAG"

text \<open>
  \<open>xq_base c T s u k\<close>: \<open>T\<close> fragments have been put on the queue; \<open>s\<close> are those sent and not
  acknowledged, \<open>u\<close> those not sent yet.  The counts of the congestion window and of the facks
  asked for are right, but for \<open>k\<close> packets sent that are still to be counted.
\<close>

definition xq_base :: "dg_xcall \<Rightarrow> nat \<Rightarrow> addr list \<Rightarrow> addr list \<Rightarrow> nat \<Rightarrow> bool" where
  "xq_base c T s u k \<longleftrightarrow>
     nseg xqe_next (xqes c) (xq_head (xq c)) (s @ u) NULL \<and> distinct (s @ u) \<and>
     first_unsent (xq c) = first_addr u \<and> xq_tail (xq c) = last_addr (s @ u) \<and>
     (\<forall>x\<in>set (s @ u). xlen_ok (xelt (xqes c) x)) \<and>
     sorted_wrt (<) (map (xnum (xqes c)) s) \<and> (\<forall>x\<in>set s. xnum (xqes c) x + length u < T) \<and>
     map (xnum (xqes c)) u = [T - length u..<T] \<and> length u \<le> T \<and> T < 65536 \<and>
     xq_next_fragnum (xq c) = of_nat T \<and>
     cwindow_size (xq c) + of_nat k = of_nat (length (filter (xin (xqes c)) (s @ u))) \<and>
     freqs_out (xq c) = of_nat (length (filter (\<lambda>x. xin (xqes c) x \<and> xask (xqes c) x) (s @ u))) \<and>
     (\<forall>x\<in>set u. \<not> xin (xqes c) x) \<and>
     (RPC_DG_FLAG_IS_SET (base_flags (xq c)) XF_FRAG \<or> (\<forall>x\<in>set (s @ u). xask (xqes c) x))"

lemma xq_baseD:
  assumes "xq_base c T s u k"
  shows "nseg xqe_next (xqes c) (xq_head (xq c)) (s @ u) NULL" "distinct (s @ u)"
    "first_unsent (xq c) = first_addr u" "xq_tail (xq c) = last_addr (s @ u)"
    "\<forall>x\<in>set (s @ u). xlen_ok (xelt (xqes c) x)"
    "sorted_wrt (<) (map (xnum (xqes c)) s)" "\<forall>x\<in>set s. xnum (xqes c) x + length u < T"
    "map (xnum (xqes c)) u = [T - length u..<T]" "length u \<le> T" "T < 65536"
    "xq_next_fragnum (xq c) = of_nat T"
    "cwindow_size (xq c) + of_nat k = of_nat (length (filter (xin (xqes c)) (s @ u)))"
    "freqs_out (xq c) = of_nat (length (filter (\<lambda>x. xin (xqes c) x \<and> xask (xqes c) x) (s @ u)))"
    "\<forall>x\<in>set u. \<not> xin (xqes c) x"
    "RPC_DG_FLAG_IS_SET (base_flags (xq c)) XF_FRAG \<or> (\<forall>x\<in>set (s @ u). xask (xqes c) x)"
  using assms unfolding xq_base_def by - ((elim conjE)?, assumption)+

lemma xq_base_elem:
  assumes "xq_base c T s u k" "x \<in> set (s @ u)"
  shows "\<exists>e. xget x (xqes c) = Some e \<and> xqes c x = Some e \<and> xelt (xqes c) x = e \<and> x \<noteq> NULL \<and> xlen_ok e"
proof -
  obtain e where e: "xqes c x = Some e" "x \<noteq> NULL" using nseg_elem [OF xq_baseD(1) [OF assms(1)] assms(2)] by blast
  moreover have "xlen_ok (xelt (xqes c) x)" using xq_baseD(5) [OF assms(1)] assms(2) by blast
  ultimately show ?thesis by (simp add: xget_def xelt_def)
qed

section \<open>Sending one element\<close>

text \<open>What sending leaves alone.\<close>

definition q_core :: "dg_xmitq \<Rightarrow> dg_xmitq" where
  "q_core q = q\<lparr>next_serial_num := 0, xq_timestamp := 0, awaiting_ack := False, awaiting_ack_timestamp := 0\<rparr>"

lemma q_core_fields:
  assumes "q_core q' = q_core q"
  shows "xq_head q' = xq_head q" "first_unsent q' = first_unsent q" "xq_tail q' = xq_tail q" "rexmitq q' = rexmitq q"
    "part_xqe q' = part_xqe q" "xq_next_fragnum q' = xq_next_fragnum q" "cwindow_size q' = cwindow_size q"
    "freqs_out q' = freqs_out q" "base_flags q' = base_flags q" "xq_push q' = xq_push q" "xq_ptype q' = xq_ptype q"
    "blast_size q' = blast_size q" "xq_window_size q' = xq_window_size q" "high_cwindow q' = high_cwindow q"
    "snd_frag_size q' = snd_frag_size q" "rexmit_timeout q' = rexmit_timeout q"
  using arg_cong [OF assms, of xq_head] arg_cong [OF assms, of first_unsent] arg_cong [OF assms, of xq_tail]
    arg_cong [OF assms, of rexmitq] arg_cong [OF assms, of part_xqe] arg_cong [OF assms, of xq_next_fragnum]
    arg_cong [OF assms, of cwindow_size] arg_cong [OF assms, of freqs_out] arg_cong [OF assms, of base_flags]
    arg_cong [OF assms, of xq_push] arg_cong [OF assms, of xq_ptype] arg_cong [OF assms, of blast_size]
    arg_cong [OF assms, of xq_window_size] arg_cong [OF assms, of high_cwindow] arg_cong [OF assms, of snd_frag_size]
    arg_cong [OF assms, of rexmit_timeout]
  by (simp_all add: q_core_def)

definition xc_core :: "dg_xcall \<Rightarrow> dg_call_state \<times> bool \<times> bool \<times> bool \<times> bool \<times> nat \<times> u8 \<times> u8" where
  "xc_core c = (xc_state c, xc_is_server c, xc_is_private c, xc_is_cbk c, sock_disabled c, com_timeout_knob c,
     xc_n_resvs c, xc_max_resvs c)"

lemma call_stamp_eq:
  "\<exists>t s. call_stamp c = (t, c\<lparr>xc_clock := s\<rparr>)"
  unfolding call_stamp_def by (cases "rpc__clock_stamp (xc_now c) (xc_clock c)") (auto intro: exI)

lemma flag_bit: "w AND 2 \<noteq> 0 \<longleftrightarrow> bit w 1" "w AND 4 \<noteq> 0 \<longleftrightarrow> bit w 2" "w AND 8 \<noteq> 0 \<longleftrightarrow> bit w 3"
  for w :: "'a::len word"
  using and_exp_eq_0_iff_not_bit [of w 1] and_exp_eq_0_iff_not_bit [of w 2] and_exp_eq_0_iff_not_bit [of w 3] by simp_all

lemma flag_is_set_bit: "RPC_DG_FLAG_IS_SET w 2 \<longleftrightarrow> bit w 1" "RPC_DG_FLAG_IS_SET w 4 \<longleftrightarrow> bit w 2"
  "RPC_DG_FLAG_IS_SET w 8 \<longleftrightarrow> bit w 3"
  by (simp_all only: RPC_DG_FLAG_IS_SET_def flag_bit)

text \<open>The packet for an element, with the flags of the queue at that time.\<close>

definition pkt_for :: "dg_xcall \<Rightarrow> addr \<Rightarrow> dg_pkt \<Rightarrow> bool" where
  "pkt_for c x p \<longleftrightarrow>
     dp_body p = frag_body (xelt (xqes c) x) \<and> hdr_fragnum (dp_hdr p) = of_nat (xnum (xqes c) x) \<and>
     hdr_len (dp_hdr p) = of_nat (length (dp_body p)) \<and>
     (bit (hdr_flags (dp_hdr p)) 1 \<longleftrightarrow> bit (base_flags (xq c)) 1 \<or>
        xq_push (xq c) \<and> x = xq_tail (xq c) \<and> bit (base_flags (xq c)) 2)"

lemma xlen_unat: "xlen_ok e \<Longrightarrow> unat (xqe_frag_len e) = length (frag_body e)"
proof -
  assume ok: "xlen_ok e"
  have "unat (of_nat n :: u32) = n" if "n \<le> 8480" for n
    using that by (simp add: unsigned_of_nat take_bit_nat_eq_self)
  from this [OF xqe_ok_facts(3)] ok show ?thesis unfolding xlen_ok_def by metis
qed

lemma elt_xmit_ok:
  assumes "xget x (xqes c) = Some e" "xlen_ok e"
  shows "\<exists>c' ps. rpc__dg_xmitq_elt_xmit x c = Some c' \<and>
    xqes c' = (xqes c)(x \<mapsto> if sock_disabled c then e else e\<lparr>xqe_serial := next_serial_num (xq c)\<rparr>) \<and>
    q_core (xq c') = q_core (xq c) \<and> xc_core c' = xc_core c \<and> (sock_disabled c \<or> xc_status c' = xc_status c) \<and>
    sent_pkts c' = sent_pkts c @ ps \<and> list_all2 (pkt_for c) (if sock_disabled c then [] else [x]) ps"
proof (cases "sock_disabled c")
  case True
  have "xqes c = (xqes c)(x \<mapsto> e)" using assms(1) by (auto simp: xget_def fun_eq_iff split: if_splits)
  with True show ?thesis
    by (simp add: rpc__dg_xmitq_elt_xmit_def rpc__dg_call_signal_failure_def rpc__dg_call_signal_def xc_core_def)
next
  case False
  have x: "xqes c x = Some e" "xelt (xqes c) x = e" using assms(1) by (auto simp: xget_def xelt_def split: if_splits)
  note ok = assms(2) [unfolded xlen_ok_def]
  have f: "frag_iovlen e \<le> 3" "length (frag_body e) = unat (xqe_frag_len e)"
    using ok xqe_ok_facts [of e] xlen_unat [OF assms(2)] by simp_all
  have nl: "\<not> bit (xqe_flags e) 1" using ok flag_is_set_bit by metis
  obtain t s where st: "call_stamp c = (t, c\<lparr>xc_clock := s\<rparr>)" using call_stamp_eq by blast
  define fl where "fl = (if xq_push (xq c) \<and> x = xq_tail (xq c) \<and> RPC_DG_FLAG_IS_SET (base_flags (xq c)) XF_FRAG
     then (ucast (base_flags (xq c) OR xqe_flags e) :: u8) OR RPC_C_DG_PF_LAST_FRAG OR RPC_C_DG_PF_NO_FACK
     else ucast (base_flags (xq c) OR xqe_flags e))"
  define b where "b = (\<not> awaiting_ack (xq c) \<and> (\<not> RPC_DG_FLAG_IS_SET (base_flags (xq c)) XF_FRAG \<or>
    fl AND RPC_C_DG_PF_LAST_FRAG \<noteq> 0 \<or> fl AND RPC_C_DG_PF_NO_FACK = 0))"
  define c1 where "c1 = (if b then (c\<lparr>xc_clock := s\<rparr>)\<lparr>xq := (xq (c\<lparr>xc_clock := s\<rparr>))\<lparr>awaiting_ack := True, awaiting_ack_timestamp := t\<rparr>\<rparr> else c)"
  have c1: "xqes c1 = xqes c" "sent_pkts c1 = sent_pkts c" "xc_core c1 = xc_core c" "q_core (xq c1) = q_core (xq c)" "xc_status c1 = xc_status c"
    by (simp_all add: c1_def xc_core_def q_core_def)
  obtain t' s' where st': "call_stamp c1 = (t', c1\<lparr>xc_clock := s'\<rparr>)" using call_stamp_eq by blast
  define p where "p = \<lparr>dp_hdr = \<lparr>hdr_flags = fl, hdr_fragnum = ucast (xqe_fragnum e),
                  serial_hi = ucast (drop_bit 8 (next_serial_num (xq c))), serial_lo = ucast (next_serial_num (xq c)),
                  hdr_len = of_nat (length (frag_body e))\<rparr>,
                dp_ptype = xq_ptype (xq c), dp_flags2 = ucast (base_flags2 (xq c)),
                dp_seq = (if xq_ptype (xq c) = RPC_C_DG_PT_RESPONSE then xc_high_seq c else xq_seq (xq c)),
                dp_body = frag_body e\<rparr>"
  have r: "rpc__dg_xmitq_elt_xmit x c = Some (c1\<lparr>xc_clock := s', xq := (xq c1)\<lparr>next_serial_num := next_serial_num (xq c) + 1, xq_timestamp := t'\<rparr>,
            xqes := (xqes c)(x \<mapsto> e\<lparr>xqe_serial := next_serial_num (xq c), xqe_frag_len := ucast (of_nat (length (frag_body e)) :: u16)\<rparr>),
            sent_pkts := sent_pkts c @ [p]\<rparr>)"
    unfolding rpc__dg_xmitq_elt_xmit_def Let_def if_not_P [OF False] assms(1) Option.bind.simps(2) st prod.case
      fl_def [symmetric] b_def [symmetric] c1_def [symmetric] st' using f by (simp add: c1(1,2) p_def)
  have fb: "bit fl 1 \<longleftrightarrow> bit (base_flags (xq c)) 1 \<or> xq_push (xq c) \<and> x = xq_tail (xq c) \<and> bit (base_flags (xq c)) 2"
    using nl by (auto simp: fl_def flag_is_set_bit bit_simps)
  have "pkt_for c x p" using fb x(2)
    by (simp add: pkt_for_def p_def xnum_def)
  moreover have "e\<lparr>xqe_serial := n, xqe_frag_len := ucast (of_nat (length (frag_body e)) :: u16)\<rparr> = e\<lparr>xqe_serial := n\<rparr>" for n
  proof -
    have "length (frag_body e) \<le> 8480" using ok xqe_ok_facts(3) by blast
    then have "(ucast (of_nat (length (frag_body e)) :: u16) :: u32) = of_nat (length (frag_body e))"
      by (simp add: word_unat_eq_iff unsigned_ucast_eq unsigned_of_nat take_bit_nat_eq_self)
    then show ?thesis unfolding conjunct1 [OF conjunct2 [OF ok], symmetric] by simp
  qed
  ultimately show ?thesis unfolding r using False c1
    by - (rule exI, rule exI [of _ "[p]"], intro conjI, rule refl, simp_all add: q_core_def xc_core_def)
qed


text \<open>What does not change when elements are sent: the links, the numbers and the data.\<close>

definition xfix :: "dg_xqe \<Rightarrow> dg_xqe" where
  "xfix e = e\<lparr>xqe_flags := 0, xqe_serial := 0, xqe_in_cwindow := False\<rparr>"

definition same_elts :: "xheap \<Rightarrow> xheap \<Rightarrow> bool" where
  "same_elts h h' \<longleftrightarrow> (\<forall>x. map_option xfix (h' x) = map_option xfix (h x))"

lemma same_elts_refl [simp]: "same_elts h h"
  and same_elts_trans: "same_elts h h' \<Longrightarrow> same_elts h' h'' \<Longrightarrow> same_elts h h''"
  by (simp_all add: same_elts_def)

lemma same_elts_upd: "h x = Some e \<Longrightarrow> xfix e' = xfix e \<Longrightarrow> same_elts h (h(x \<mapsto> e'))"
  by (simp add: same_elts_def)

lemma xfix_fields:
  assumes "xfix e' = xfix e"
  shows "xqe_next e' = xqe_next e" "next_rexmit e' = next_rexmit e" "xqe_fragnum e' = xqe_fragnum e"
    "frag_body e' = frag_body e" "xqe_ok e' = xqe_ok e" "xqe_frag_len e' = xqe_frag_len e"
  using arg_cong [OF assms, of xqe_next] arg_cong [OF assms, of next_rexmit] arg_cong [OF assms, of xqe_fragnum]
    arg_cong [OF assms, of xqe_body] arg_cong [OF assms, of xqe_more] arg_cong [OF assms, of xqe_frag_len]
  by (simp_all add: xfix_def frag_body_def xqe_ok_def)

lemma same_elts_elt:
  assumes "same_elts h h'" "h x = Some e"
  shows "\<exists>e'. h' x = Some e' \<and> xfix e' = xfix e"
  using assms(1) [unfolded same_elts_def, rule_format, of x] assms(2) by (cases "h' x") auto

lemma same_elts_nseg:
  assumes "same_elts h h'"
  shows "nseg xqe_next h' p xs q = nseg xqe_next h p xs q" "nseg next_rexmit h' p xs q = nseg next_rexmit h p xs q"
proof -
  have "map_option xqe_next (h' x) = map_option xqe_next (h x) \<and> map_option next_rexmit (h' x) = map_option next_rexmit (h x)" for x
  proof (cases "h x")
    case None
    then show ?thesis using assms [unfolded same_elts_def, rule_format, of x] by simp
  next
    case (Some e)
    obtain e' where "h' x = Some e'" "xfix e' = xfix e" using same_elts_elt [OF assms Some] by blast
    with xfix_fields(1,2) [OF this(2)] Some show ?thesis by simp
  qed
  then show "nseg xqe_next h' p xs q = nseg xqe_next h p xs q" "nseg next_rexmit h' p xs q = nseg next_rexmit h p xs q"
    by - (rule nseg_cong, simp)+
qed

lemma same_elts_xelt:
  assumes "same_elts h h'" "h x = Some e"
  shows "xfix (xelt h' x) = xfix (xelt h x)" "xnum h' x = xnum h x" "frag_body (xelt h' x) = frag_body (xelt h x)"
    "xqe_ok (xelt h' x) = xqe_ok (xelt h x)" "xqe_frag_len (xelt h' x) = xqe_frag_len (xelt h x)"
proof -
  obtain e' where e': "h' x = Some e'" "xfix e' = xfix e" using same_elts_elt [OF assms] by blast
  note f = xfix_fields [OF e'(2)]
  show "xfix (xelt h' x) = xfix (xelt h x)" "xnum h' x = xnum h x" "frag_body (xelt h' x) = frag_body (xelt h x)"
    "xqe_ok (xelt h' x) = xqe_ok (xelt h x)" "xqe_frag_len (xelt h' x) = xqe_frag_len (xelt h x)"
    using e' assms(2) f by (simp_all add: xelt_def xnum_def)
qed

lemma xmit_one_effect:
  assumes e: "xget x (xqes c) = Some e" and ok: "xlen_ok e"
  shows "\<exists>c' e' ps. xmit_one ask x c = Some c' \<and> xqes c' = (xqes c)(x \<mapsto> e') \<and> xfix e' = xfix e \<and> xlen_ok e' \<and>
    xqe_in_cwindow e' \<and>
    (RPC_DG_FLAG_IS_SET (base_flags (xq c)) XF_FRAG \<or> xqe_flags e' = xqe_flags e) \<and>
    q_core (xq c') = q_core ((xq c)\<lparr>freqs_out := freqs_out (xq c) +
      (if RPC_DG_FLAG_IS_SET (base_flags (xq c)) XF_FRAG \<and> RPC_DG_FLAG_IS_SET (xqe_flags e') XF_NO_FACK then 0 else 1)\<rparr>) \<and>
    (RPC_DG_FLAG_IS_SET (base_flags (xq c)) XF_FRAG \<longrightarrow> (RPC_DG_FLAG_IS_SET (xqe_flags e') XF_NO_FACK \<longleftrightarrow> \<not> ask)) \<and>
    xc_core c' = xc_core c \<and> (sock_disabled c \<or> xc_status c' = xc_status c) \<and>
    sent_pkts c' = sent_pkts c @ ps \<and> list_all2 (pkt_for c) (if sock_disabled c then [] else [x]) ps"
proof -
  let ?frag = "RPC_DG_FLAG_IS_SET (base_flags (xq c)) XF_FRAG"
  have x: "xqes c x = Some e" "x \<noteq> NULL" "xelt (xqes c) x = e"
    using e by (auto simp: xget_def xelt_def split: if_splits)
  define fl where "fl = (if ?frag then if ask then xqe_flags e AND NOT XF_NO_FACK else xqe_flags e OR XF_NO_FACK else xqe_flags e)"
  define e1 where "e1 = e\<lparr>xqe_flags := fl, xqe_in_cwindow := True\<rparr>"
  define q1 where "q1 = (if ?frag \<and> \<not> ask then xq c else (xq c)\<lparr>freqs_out := freqs_out (xq c) + 1\<rparr>)"
  define c1 where "c1 = c\<lparr>xq := q1, xqes := (xqes c)(x \<mapsto> e1)\<rparr>"
  have bit: "bit fl 3 = (if ?frag then \<not> ask else bit (xqe_flags e) 3)" "bit fl 1 = bit (xqe_flags e) 1"
    by (auto simp: fl_def bit_simps)
  have ok1: "xlen_ok e1" using ok bit(2) by (simp add: xlen_ok_def e1_def xqe_ok_def frag_body_def flag_is_set_bit)
  have xo: "xmit_one ask x c = rpc__dg_xmitq_elt_xmit x c1"
    using e x(1,2) by (simp add: xmit_one_def Let_def xset_def c1_def q1_def e1_def fl_def xget_def)
  have c1: "xget x (xqes c1) = Some e1" "sent_pkts c1 = sent_pkts c" "xc_core c1 = xc_core c" "xc_status c1 = xc_status c"
    "sock_disabled c1 = sock_disabled c" "xq c1 = q1"
    using x(2) by (simp_all add: c1_def xget_def xc_core_def)
  have pf: "pkt_for c1 = pkt_for c"
  proof (intro ext)
    fix y p
    have q: "base_flags q1 = base_flags (xq c)" "xq_push q1 = xq_push (xq c)" "xq_tail q1 = xq_tail (xq c)" by (simp_all add: q1_def)
    have "frag_body (xelt (xqes c1) y) = frag_body (xelt (xqes c) y)" "xnum (xqes c1) y = xnum (xqes c) y"
      using x(3) by (simp_all add: c1_def e1_def frag_body_def xnum_def)
    then show "pkt_for c1 y p = pkt_for c y p" by (simp add: pkt_for_def c1(6) q)
  qed
  define e2 where "e2 = (if sock_disabled c then e1 else e1\<lparr>xqe_serial := next_serial_num q1\<rparr>)"
  obtain c' ps where c': "rpc__dg_xmitq_elt_xmit x c1 = Some c'" "xqes c' = (xqes c1)(x \<mapsto> e2)"
    "q_core (xq c') = q_core q1" "xc_core c' = xc_core c" "sock_disabled c \<or> xc_status c' = xc_status c"
    "sent_pkts c' = sent_pkts c @ ps" "list_all2 (pkt_for c) (if sock_disabled c then [] else [x]) ps"
    using elt_xmit_ok [OF c1(1) ok1] unfolding c1 pf e2_def by blast
  have e2: "xqe_flags e2 = fl" "xqe_in_cwindow e2" "xfix e2 = xfix e" "xlen_ok e2"
    using ok1 by (simp_all add: e2_def e1_def xfix_def xlen_ok_def xqe_ok_def frag_body_def)
  have h: "xqes c' = (xqes c)(x \<mapsto> e2)" using c'(2) by (simp add: c1_def)
  have q: "q1 = (xq c)\<lparr>freqs_out := freqs_out (xq c) + (if ?frag \<and> RPC_DG_FLAG_IS_SET fl XF_NO_FACK then 0 else 1)\<rparr>"
    using bit(1) by (auto simp: q1_def flag_is_set_bit)
  have n: "?frag \<longrightarrow> (RPC_DG_FLAG_IS_SET fl XF_NO_FACK \<longleftrightarrow> \<not> ask)" using bit(1) by (auto simp: flag_is_set_bit)
  have n2: "?frag \<or> xqe_flags e2 = xqe_flags e" using e2(1) by (auto simp: fl_def)
  show ?thesis
    unfolding xo by (rule exI [of _ c'], rule exI [of _ e2], rule exI [of _ ps], unfold e2(1), intro conjI)
      (rule c'(1) h e2(2-4) n2 [unfolded e2(1)] c'(3) [unfolded q] n c'(4-7))+
qed

text \<open>The fields a blast does not touch.\<close>

definition q_rest :: "dg_xmitq \<Rightarrow> dg_xmitq" where
  "q_rest q = q_core (q\<lparr>freqs_out := 0, first_unsent := 0\<rparr>)"

lemma q_rest_core: "q_core q' = q_core q \<Longrightarrow> q_rest q' = q_rest q"
proof -
  assume a: "q_core q' = q_core q"
  have "q_rest r = (q_core r)\<lparr>freqs_out := 0, first_unsent := 0\<rparr>" for r by (simp add: q_rest_def q_core_def)
  then show ?thesis using a by simp
qed

lemma q_rest_fields:
  assumes "q_rest q' = q_rest q"
  shows "xq_head q' = xq_head q" "xq_tail q' = xq_tail q" "rexmitq q' = rexmitq q"
    "part_xqe q' = part_xqe q" "xq_next_fragnum q' = xq_next_fragnum q" "cwindow_size q' = cwindow_size q"
    "base_flags q' = base_flags q" "xq_push q' = xq_push q" "xq_ptype q' = xq_ptype q"
    "blast_size q' = blast_size q" "xq_window_size q' = xq_window_size q" "high_cwindow q' = high_cwindow q"
    "snd_frag_size q' = snd_frag_size q" "rexmit_timeout q' = rexmit_timeout q"
  using q_core_fields [OF assms [unfolded q_rest_def]] by simp_all

lemma xq_base_frame:
  assumes base: "xq_base c T s u k" and same: "same_elts (xqes c) (xqes c')"
    and q: "xq_head (xq c') = xq_head (xq c)" "xq_tail (xq c') = xq_tail (xq c)"
      "xq_next_fragnum (xq c') = xq_next_fragnum (xq c)" "base_flags (xq c') = base_flags (xq c)"
    and su: "s @ u = s' @ u'" "length u' \<le> length u" and f: "first_unsent (xq c') = first_addr u'"
    and ok: "\<forall>x\<in>set (s @ u). xlen_ok (xelt (xqes c') x)"
    and cw: "cwindow_size (xq c') + of_nat k' = of_nat (length (filter (xin (xqes c')) (s @ u)))"
    and fo: "freqs_out (xq c') = of_nat (length (filter (\<lambda>x. xin (xqes c') x \<and> xask (xqes c') x) (s @ u)))"
    and un: "\<forall>x\<in>set u'. \<not> xin (xqes c') x"
    and fr: "RPC_DG_FLAG_IS_SET (base_flags (xq c)) XF_FRAG \<or> (\<forall>x\<in>set (s @ u). xask (xqes c') x)"
  shows "xq_base c' T s' u' k'"
proof -
  note b = xq_baseD [OF base]
  obtain m where m: "s' = s @ m" "u = m @ u'"
  proof -
    have "length s \<le> length s'" using arg_cong [OF su(1), of length] su(2) by simp
    then have "s = take (length s) s'" "take (length s) (s' @ u') = take (length s) s'"
      using arg_cong [OF su(1), of "take (length s)"] by simp_all
    then have "s' = s @ drop (length s) s'" by (metis append_take_drop_id)
    moreover from this su(1) have "u = drop (length s) s' @ u'" by (metis append.assoc same_append_eq)
    ultimately show thesis by (rule that)
  qed
  have num: "xnum (xqes c') x = xnum (xqes c) x" if "x \<in> set (s @ u)" for x
    using xq_base_elem [OF base that] same_elts_xelt(2) [OF same] by blast
  have l: "T - length u' = T - length u + length m" using m(2) b(9) by simp
  have nu: "map (xnum (xqes c)) m = [T - length u..<T - length u']" "map (xnum (xqes c)) u' = [T - length u'..<T]"
  proof -
    have e: "map (xnum (xqes c)) m @ map (xnum (xqes c)) u' = [T - length u..<T - length u'] @ [T - length u'..<T]"
      using b(8,9) m(2) l upt_add_eq_append [of "T - length u" "T - length u'" "length u'"] by simp
    then show "map (xnum (xqes c)) m = [T - length u..<T - length u']" "map (xnum (xqes c)) u' = [T - length u'..<T]"
      using l by (simp_all add: append_eq_append_conv)
  qed
  have ns: "sorted_wrt (<) (map (xnum (xqes c)) s') \<and> (\<forall>x\<in>set s'. xnum (xqes c) x + length u' < T)"
  proof
    have "\<forall>y\<in>set (map (xnum (xqes c)) m). T - length u \<le> y \<and> y < T - length u'" unfolding nu by simp
    then have mm: "\<forall>y\<in>set m. T - length u \<le> xnum (xqes c) y \<and> xnum (xqes c) y < T - length u'" by simp
    have mx: "sorted_wrt (<) (map (xnum (xqes c)) m)" unfolding nu by simp
    show "sorted_wrt (<) (map (xnum (xqes c)) s')"
      unfolding m(1) map_append sorted_wrt_append using b(6,7,9) mx mm by fastforce
    show "\<forall>x\<in>set s'. xnum (xqes c) x + length u' < T"
      unfolding m(1) using b(7,9) mm m(2) by fastforce
  qed
  have n2: "map (xnum (xqes c')) s' = map (xnum (xqes c)) s'" "map (xnum (xqes c')) u' = map (xnum (xqes c)) u'"
    using m num by auto
  have n3: "\<forall>x\<in>set s'. xnum (xqes c') x = xnum (xqes c) x" using m num by auto
  show ?thesis unfolding xq_base_def q su(1) [symmetric] n2
    using same_elts_nseg(1) [OF same] b(1,2,4,9-11) ns nu(2) n3 f ok cw fo un fr m(2) by simp
qed

lemma xmit_one_ok:
  assumes base: "xq_base c T s u k" and x: "x \<in> set s \<and> \<not> xin (xqes c) x \<and> s' = s \<and> u' = u \<or> u = x # u' \<and> s' = s @ [x]"
  shows "\<exists>c' ps. xmit_one ask x c = Some c' \<and>
    xq_base (c'\<lparr>xq := (xq c')\<lparr>first_unsent := first_addr u'\<rparr>\<rparr>) T s' u' (Suc k) \<and>
    first_unsent (xq c') = first_unsent (xq c) \<and>
    same_elts (xqes c) (xqes c') \<and> (\<forall>y. y \<noteq> x \<longrightarrow> xqes c' y = xqes c y) \<and>
    (\<forall>y. xin (xqes c') y \<longleftrightarrow> xin (xqes c) y \<or> y = x) \<and> q_rest (xq c') = q_rest (xq c) \<and> xc_core c' = xc_core c \<and> (sock_disabled c \<or> xc_status c' = xc_status c) \<and>
    sent_pkts c' = sent_pkts c @ ps \<and> list_all2 (pkt_for c) (if sock_disabled c then [] else [x]) ps"
proof -
  let ?frag = "RPC_DG_FLAG_IS_SET (base_flags (xq c)) XF_FRAG"
  note b = xq_baseD [OF base]
  have xs: "x \<in> set (s @ u)" and nx: "\<not> xin (xqes c) x" using x b(14) by auto
  obtain e where e: "xget x (xqes c) = Some e" "xqes c x = Some e" "xelt (xqes c) x = e" "xlen_ok e"
    using xq_base_elem [OF base xs] by blast
  obtain c' e' ps where c': "xmit_one ask x c = Some c'" "xqes c' = (xqes c)(x \<mapsto> e')" "xfix e' = xfix e" "xlen_ok e'"
    "xqe_in_cwindow e'" "?frag \<or> xqe_flags e' = xqe_flags e"
    "q_core (xq c') = q_core ((xq c)\<lparr>freqs_out := freqs_out (xq c) +
      (if ?frag \<and> RPC_DG_FLAG_IS_SET (xqe_flags e') XF_NO_FACK then 0 else 1)\<rparr>)"
    "xc_core c' = xc_core c" "sock_disabled c \<or> xc_status c' = xc_status c"
    "sent_pkts c' = sent_pkts c @ ps" "list_all2 (pkt_for c) (if sock_disabled c then [] else [x]) ps"
    using xmit_one_effect [OF e(1,4), of ask] by (elim exE conjE) (rule that)
  note q = q_core_fields [OF c'(7), simplified]
  let ?h = "xqes c'"
  have same: "same_elts (xqes c) ?h" unfolding c'(2) using e(2) c'(3) by (rule same_elts_upd)
  have oth: "\<forall>y. y \<noteq> x \<longrightarrow> ?h y = xqes c y" by (simp add: c'(2))
  have el: "xelt ?h y = (if y = x then e' else xelt (xqes c) y)" for y by (simp add: c'(2))
  have xi: "\<forall>y. xin ?h y \<longleftrightarrow> xin (xqes c) y \<or> y = x" using c'(5) by (simp add: xin_def el)
  have fr: "?frag \<or> (\<forall>y\<in>set (s @ u). xask ?h y)"
    using b(15) c'(6) e(3) xs by (auto simp: xask_def el)
  have ax: "(if ?frag \<and> RPC_DG_FLAG_IS_SET (xqe_flags e') XF_NO_FACK then 0 else 1 :: u8) = (if xask ?h x then 1 else 0)"
    using fr bspec [of "set (s @ u)" "xask ?h", OF _ xs] by (auto simp: xask_def el)
  have cw: "length (filter (xin ?h) (s @ u)) = Suc (length (filter (xin (xqes c)) (s @ u)))"
    using length_filter_upd [OF b(2) xs, of "xin ?h" "xin (xqes c)"] nx c'(5) by (simp add: xin_def el)
  have fo: "length (filter (\<lambda>y. xin ?h y \<and> xask ?h y) (s @ u)) =
      length (filter (\<lambda>y. xin (xqes c) y \<and> xask (xqes c) y) (s @ u)) + (if xask ?h x then 1 else 0)"
    using length_filter_upd [OF b(2) xs, of "\<lambda>y. xin ?h y \<and> xask ?h y" "\<lambda>y. xin (xqes c) y \<and> xask (xqes c) y"]
      nx c'(5) by (simp add: xin_def xask_def el)
  have su: "s @ u = s' @ u'" "length u' \<le> length u" using x by auto
  have un: "\<forall>y\<in>set u'. \<not> xin ?h y" using x b(2,14) by (auto simp: xin_def el)
  let ?c = "c'\<lparr>xq := (xq c')\<lparr>first_unsent := first_addr u'\<rparr>\<rparr>"
  have "xq_base ?c T s' u' (Suc k)"
  proof (rule xq_base_frame [OF base _ _ _ _ _ su])
    show "cwindow_size (xq ?c) + of_nat (Suc k) = of_nat (length (filter (xin (xqes ?c)) (s @ u)))"
      using b(12) q(7) by (simp add: cw add.left_commute del: filter_append)
    show "freqs_out (xq ?c) = of_nat (length (filter (\<lambda>x. xin (xqes ?c) x \<and> xask (xqes ?c) x) (s @ u)))"
      using b(13) q(8) ax by (simp add: fo del: filter_append)
    show "\<forall>y\<in>set (s @ u). xlen_ok (xelt (xqes ?c) y)" using b(5) c'(4) by (simp add: el)
  qed (use same q un fr in simp_all)
  moreover have "q_rest (xq c') = q_rest (xq c)" using q_rest_core [OF c'(7)] by (simp add: q_rest_def)
  ultimately show ?thesis using c'(1,8-11) q(2) same oth xi
    by (intro exI [of _ c'] exI [of _ ps] conjI) simp_all
qed

section \<open>A blast\<close>

text \<open>The packets sent for the elements \<open>xs\<close>, and what a blast keeps.\<close>

definition sends :: "dg_xcall \<Rightarrow> addr list \<Rightarrow> dg_pkt list \<Rightarrow> bool" where
  "sends c xs ps \<longleftrightarrow> list_all2 (pkt_for c) (if sock_disabled c then [] else xs) ps"

definition blast_frame :: "dg_xcall \<Rightarrow> dg_xcall \<Rightarrow> bool" where
  "blast_frame c c' \<longleftrightarrow> same_elts (xqes c) (xqes c') \<and> q_rest (xq c') = q_rest (xq c) \<and> xc_core c' = xc_core c \<and>
     (sock_disabled c \<or> xc_status c' = xc_status c)"

lemma xc_core_fields: "xc_core c' = xc_core c \<Longrightarrow> sock_disabled c' = sock_disabled c \<and> xc_state c' = xc_state c \<and>
    com_timeout_knob c' = com_timeout_knob c \<and> xc_n_resvs c' = xc_n_resvs c \<and> xc_max_resvs c' = xc_max_resvs c"
  by (simp add: xc_core_def)

lemma blast_frame_trans: "blast_frame c c1 \<Longrightarrow> blast_frame c1 c2 \<Longrightarrow> blast_frame c c2"
  using same_elts_trans xc_core_fields unfolding blast_frame_def by metis

lemma pkt_for_frame:
  assumes "blast_frame c c'"
  shows "pkt_for c' = pkt_for c"
proof (intro ext)
  fix x p
  note f = assms [unfolded blast_frame_def]
  note q = q_rest_fields [OF conjunct1 [OF conjunct2 [OF f]]]
  have "xnum (xqes c') x = xnum (xqes c) x \<and> frag_body (xelt (xqes c') x) = frag_body (xelt (xqes c) x)"
  proof (cases "xqes c x")
    case None
    then have "xqes c' x = None" using f by (simp add: same_elts_def) (metis map_option_is_None)
    with None show ?thesis by (simp add: xnum_def xelt_def)
  next
    case (Some e)
    with same_elts_xelt [OF conjunct1 [OF f]] show ?thesis by blast
  qed
  then show "pkt_for c' x p = pkt_for c x p" using q by (simp add: pkt_for_def)
qed

lemma sends_frame: "blast_frame c c' \<Longrightarrow> sends c' = sends c"
proof -
  assume a: "blast_frame c c'"
  then have "sock_disabled c' = sock_disabled c" unfolding blast_frame_def by (blast dest: xc_core_fields)
  then show ?thesis unfolding sends_def pkt_for_frame [OF a] by simp
qed

lemma sends_append: "sends c xs ps \<Longrightarrow> sends c ys qs \<Longrightarrow> sends c (xs @ ys) (ps @ qs)"
  by (auto simp: sends_def list_all2_appendI)

lemma xmit_one_step:
  assumes base: "xq_base c T s u k" and x: "x \<in> set s \<and> \<not> xin (xqes c) x \<and> s' = s \<and> u' = u \<or> u = x # u' \<and> s' = s @ [x]"
  shows "\<exists>c' ps. xmit_one ask x c = Some c' \<and> first_unsent (xq c') = first_unsent (xq c) \<and>
    xq_base (c'\<lparr>xq := (xq c')\<lparr>first_unsent := first_addr u'\<rparr>\<rparr>) T s' u' (Suc k) \<and>
    blast_frame c c' \<and> (\<forall>y. y \<noteq> x \<longrightarrow> xqes c' y = xqes c y) \<and>
    (\<forall>y. xin (xqes c') y \<longleftrightarrow> xin (xqes c) y \<or> y = x) \<and>
    sent_pkts c' = sent_pkts c @ ps \<and> sends c [x] ps"
  using xmit_one_ok [OF assms, of ask] unfolding blast_frame_def sends_def
  by (elim exE conjE) (intro exI conjI, assumption+)

lemma blast_frame_unsent:
  "blast_frame c c' \<Longrightarrow> blast_frame c (c'\<lparr>xq := (xq c')\<lparr>first_unsent := p\<rparr>\<rparr>)"
  by (simp add: blast_frame_def q_rest_def q_core_def xc_core_def)

lemma xmit_loop_regular:
  assumes "xq_base c T s u k" "n \<le> blast"
  shows "\<exists>c' ps. xmit_loop n blast extra (first_unsent (xq c)) False c = Some (blast - (n - length u), c') \<and>
    xq_base c' T (s @ take n u) (drop n u) (k + min n (length u)) \<and> blast_frame c c' \<and>
    (\<forall>y. xin (xqes c') y \<longleftrightarrow> xin (xqes c) y \<or> y \<in> set (take n u)) \<and>
    sent_pkts c' = sent_pkts c @ ps \<and> sends c (take n u) ps"
  using assms
proof (induction n arbitrary: c s u k)
  case 0
  then show ?case by (intro exI [of _ c] exI [of _ "[]"]) (simp add: sends_def blast_frame_def)
next
  case (Suc n)
  note b = xq_baseD [OF Suc.prems(1)]
  show ?case
  proof (cases u)
    case Nil
    with b(3) Suc.prems show ?thesis
      by (intro exI [of _ c] exI [of _ "[]"]) (simp add: sends_def blast_frame_def Let_def Suc_diff_Suc [symmetric])
  next
    case (Cons x u')
    obtain e where e: "xget x (xqes c) = Some e" "xqes c x = Some e" "x \<noteq> NULL"
      using xq_base_elem [OF Suc.prems(1), of x] Cons by auto
    let ?ask = "blast - n = extra \<or> blast - n = blast"
    obtain c1 ps where c1: "xmit_one ?ask x c = Some c1" "first_unsent (xq c1) = first_unsent (xq c)"
      "xq_base (c1\<lparr>xq := (xq c1)\<lparr>first_unsent := first_addr u'\<rparr>\<rparr>) T (s @ [x]) u' (Suc k)"
      "blast_frame c c1" "\<forall>y. xin (xqes c1) y \<longleftrightarrow> xin (xqes c) y \<or> y = x" "sent_pkts c1 = sent_pkts c @ ps" "sends c [x] ps"
      using xmit_one_step [OF Suc.prems(1) disjI2, of x u' "s @ [x]" ?ask] Cons by auto
    let ?c = "c1\<lparr>xq := (xq c1)\<lparr>first_unsent := first_addr u'\<rparr>\<rparr>"
    have fc: "blast_frame c ?c" using c1(4) by (rule blast_frame_unsent)
    obtain e1 where e1: "xqes c1 x = Some e1" "xfix e1 = xfix e"
      using same_elts_elt [of "xqes c" "xqes c1" x e] c1(4) e(2) unfolding blast_frame_def by blast
    have nx: "xqe_next e1 = first_addr u'"
    proof -
      have "nseg xqe_next (xqes c) (xq_head (xq c)) (s @ x # u') NULL" using b(1) Cons by simp
      then have "nseg xqe_next (xqes c) (xqe_next e) u' NULL" using e(2) by auto
      then have "xqe_next e = first_addr u'" by (rule nseg_first)
      then show ?thesis using xfix_fields(1) [OF e1(2)] by simp
    qed
    obtain c2 qs where c2: "xmit_loop n blast extra (first_unsent (xq ?c)) False ?c = Some (blast - (n - length u'), c2)"
      "xq_base c2 T ((s @ [x]) @ take n u') (drop n u') (Suc k + min n (length u'))" "blast_frame ?c c2"
      "\<forall>y. xin (xqes c2) y \<longleftrightarrow> xin (xqes ?c) y \<or> y \<in> set (take n u')" "sent_pkts c2 = sent_pkts ?c @ qs" "sends ?c (take n u') qs"
      using Suc.IH [OF c1(3)] Suc.prems(2) by auto
    have g: "xget x (xqes c1) = Some e1" using e1(1) e(3) by (simp add: xget_def)
    have "xmit_loop (Suc n) blast extra (first_unsent (xq c)) False c = xmit_loop n blast extra (first_addr u') False ?c"
      using b(3) Cons e(3) c1(1) g nx by (simp add: Let_def)
    also have "\<dots> = Some (blast - (Suc n - length u), c2)" using c2(1) Cons by simp
    finally have r: "xmit_loop (Suc n) blast extra (first_unsent (xq c)) False c = Some (blast - (Suc n - length u), c2)" .
    show ?thesis
    proof (intro exI conjI)
      show "sends c (take (Suc n) u) (ps @ qs)"
        using sends_append [OF c1(7), of "take n u'" qs] c2(6) sends_frame [OF fc] Cons by simp
      show "sent_pkts c2 = sent_pkts c @ ps @ qs" using c1(6) c2(5) by simp
    qed (use r c2(2,4) Cons c1(5) blast_frame_trans [OF fc c2(3)] in simp_all)
  qed
qed

lemma xmit_loop_switch: "xmit_loop n blast extra NULL True c = xmit_loop n blast extra (first_unsent (xq c)) False c"
  by (cases n) (simp_all add: Let_def)

lemma xmit_loop_all:
  assumes "xq_base c T s u k" "n \<le> blast" "nseg next_rexmit (xqes c) p r NULL" "distinct r" "set r \<subseteq> set s"
    "\<forall>x\<in>set r. \<not> xin (xqes c) x"
  shows "\<exists>c' ps. xmit_loop n blast extra p True c = Some (blast - (n - length (r @ u)), c') \<and>
    xq_base c' T (s @ take (n - length r) u) (drop (n - length r) u) (k + min n (length (r @ u))) \<and> blast_frame c c' \<and>
    (\<forall>y. xin (xqes c') y \<longleftrightarrow> xin (xqes c) y \<or> y \<in> set (take n (r @ u))) \<and>
    sent_pkts c' = sent_pkts c @ ps \<and> sends c (take n (r @ u)) ps"
  using assms
proof (induction r arbitrary: c k n p)
  case Nil
  then have "xmit_loop n blast extra p True c = xmit_loop n blast extra (first_unsent (xq c)) False c"
    using xmit_loop_switch by simp
  then show ?case using xmit_loop_regular [OF Nil.prems(1,2), of extra] by (elim exE conjE) (intro exI conjI, simp_all)
next
  case (Cons x r)
  show ?case
  proof (cases n)
    case 0
    then show ?thesis using Cons.prems by (intro exI [of _ c] exI [of _ "[]"]) (simp add: sends_def blast_frame_def)
  next
    case (Suc m)
    obtain e where e: "xqes c x = Some e" "x \<noteq> NULL" "p = x" "nseg next_rexmit (xqes c) (next_rexmit e) r NULL"
      using Cons.prems(3) by auto
    let ?ask = "blast - m = extra \<or> blast - m = blast"
    have xs: "x \<in> set s \<and> \<not> xin (xqes c) x \<and> s = s \<and> u = u" using Cons.prems(5,6) by simp
    obtain c1 ps where c1: "xmit_one ?ask x c = Some c1" "first_unsent (xq c1) = first_unsent (xq c)"
      "xq_base (c1\<lparr>xq := (xq c1)\<lparr>first_unsent := first_addr u\<rparr>\<rparr>) T s u (Suc k)"
      "blast_frame c c1" "\<forall>y. xin (xqes c1) y \<longleftrightarrow> xin (xqes c) y \<or> y = x" "sent_pkts c1 = sent_pkts c @ ps" "sends c [x] ps"
      using xmit_one_step [OF Cons.prems(1) disjI1 [OF xs], of ?ask] by auto
    have same: "c1\<lparr>xq := (xq c1)\<lparr>first_unsent := first_addr u\<rparr>\<rparr> = c1"
      using c1(2) xq_baseD(3) [OF Cons.prems(1)] by simp
    obtain e1 where e1: "xqes c1 x = Some e1" "xfix e1 = xfix e"
      using same_elts_elt [of "xqes c" "xqes c1" x e] c1(4) e(1) unfolding blast_frame_def by blast
    have nx: "next_rexmit e1 = next_rexmit e" using xfix_fields(2) [OF e1(2)] .
    have g: "xget x (xqes c1) = Some e1" using e1(1) e(2) by (simp add: xget_def)
    have sg: "nseg next_rexmit (xqes c1) (next_rexmit e) r NULL"
      using same_elts_nseg(2) [OF conjunct1 [OF c1(4) [unfolded blast_frame_def]]] e(4) by blast
    have nin: "\<forall>y\<in>set r. \<not> xin (xqes c1) y"
    proof
      fix y assume y: "y \<in> set r"
      then have "y \<noteq> x" using Cons.prems(4) by auto
      then show "\<not> xin (xqes c1) y" using c1(5) Cons.prems(6) y by simp
    qed
    obtain c2 qs where c2: "xmit_loop m blast extra (next_rexmit e) True c1 = Some (blast - (m - length (r @ u)), c2)"
      "xq_base c2 T (s @ take (m - length r) u) (drop (m - length r) u) (Suc k + min m (length (r @ u)))" "blast_frame c1 c2"
      "\<forall>y. xin (xqes c2) y \<longleftrightarrow> xin (xqes c1) y \<or> y \<in> set (take m (r @ u))"
      "sent_pkts c2 = sent_pkts c1 @ qs" "sends c1 (take m (r @ u)) qs"
      using Cons.IH [OF c1(3) [unfolded same] _ sg, of m] Cons.prems(2,4,5) Suc nin by auto
    have "xmit_loop n blast extra p True c = xmit_loop m blast extra (next_rexmit e) True c1"
      using e(2,3) c1(1) g nx Suc by (simp add: Let_def)
    also have "\<dots> = Some (blast - (n - length ((x # r) @ u)), c2)" using c2(1) Suc by simp
    finally have "xmit_loop n blast extra p True c = Some (blast - (n - length ((x # r) @ u)), c2)" .
    moreover have "sends c (take n ((x # r) @ u)) (ps @ qs)"
      using sends_append [OF c1(7), of "take m (r @ u)" qs] c2(6) sends_frame [OF c1(4)] Suc by simp
    moreover have "\<forall>y. xin (xqes c2) y \<longleftrightarrow> xin (xqes c) y \<or> y \<in> set (take n ((x # r) @ u))"
      using c2(4) c1(5) Suc by auto
    ultimately show ?thesis using c2(2,5) c1(6) blast_frame_trans [OF c1(4) c2(3)] Suc
      by (intro exI [of _ c2] exI [of _ "ps @ qs"] conjI) simp_all
  qed
qed

text \<open>\<open>r\<close> are the elements to be sent again, none of them in the congestion window.\<close>

definition xq_ok :: "dg_xcall \<Rightarrow> nat \<Rightarrow> addr list \<Rightarrow> addr list \<Rightarrow> addr list \<Rightarrow> bool" where
  "xq_ok c T s u r \<longleftrightarrow> xq_base c T s u 0 \<and> nseg next_rexmit (xqes c) (rexmitq (xq c)) r NULL \<and> distinct r \<and>
     set r \<subseteq> set s \<and> (\<forall>x\<in>set r. \<not> xin (xqes c) x)"

lemma xq_okD:
  assumes "xq_ok c T s u r"
  shows "xq_base c T s u 0" "nseg next_rexmit (xqes c) (rexmitq (xq c)) r NULL" "distinct r" "set r \<subseteq> set s"
    "\<forall>x\<in>set r. \<not> xin (xqes c) x"
  using assms by (simp_all add: xq_ok_def)

lemma xq_base_cong:
  assumes "xqes c' = xqes c" "xq_head (xq c') = xq_head (xq c)" "first_unsent (xq c') = first_unsent (xq c)"
    "xq_tail (xq c') = xq_tail (xq c)" "xq_next_fragnum (xq c') = xq_next_fragnum (xq c)"
    "base_flags (xq c') = base_flags (xq c)" "freqs_out (xq c') = freqs_out (xq c)"
    "cwindow_size (xq c') + of_nat k' = cwindow_size (xq c) + of_nat k"
  shows "xq_base c' T s u k' = xq_base c T s u k"
  unfolding xq_base_def assms ..

text \<open>What a blast changes of the queue, the congestion window counted.\<close>

definition xmit_frame :: "dg_xcall \<Rightarrow> dg_xcall \<Rightarrow> bool" where
  "xmit_frame c c' \<longleftrightarrow> same_elts (xqes c) (xqes c') \<and> part_xqe (xq c') = part_xqe (xq c) \<and>
     xq_push (xq c') = xq_push (xq c) \<and> base_flags (xq c') = base_flags (xq c) \<and> xq_tail (xq c') = xq_tail (xq c) \<and>
     xc_core c' = xc_core c \<and> snd_frag_size (xq c') = snd_frag_size (xq c) \<and> (sock_disabled c \<or> xc_status c' = xc_status c)"

lemma call_xmit_ex:
  assumes ok: "xq_ok c T s u r" and n: "n = unat (blast_size (xq c))"
  shows "\<exists>c' ps. rpc__dg_call_xmit c = Some c' \<and> xq_ok c' T (s @ take (n - length r) u) (drop (n - length r) u) [] \<and>
    xmit_frame c c' \<and> blast_size (xq c') = 0 \<and> sent_pkts c' = sent_pkts c @ ps \<and> sends c (take n (r @ u)) ps \<and>
    (\<forall>y. xin (xqes c') y \<longleftrightarrow> xin (xqes c) y \<or> y \<in> set (take n (r @ u)))"
proof -
  note d = xq_okD [OF ok]
  let ?extra = "if uint (if xq_window_size (xq c) > 16 then ucast (xq_window_size (xq c) div 4)
                         else window_size_to_freqs_out ! unat (xq_window_size (xq c))) - uint (freqs_out (xq c)) > 1 then n div 2 else 0"
  obtain c1 ps where c1: "xmit_loop n n ?extra (rexmitq (xq c)) True c = Some (n - (n - length (r @ u)), c1)"
    "xq_base c1 T (s @ take (n - length r) u) (drop (n - length r) u) (min n (length (r @ u)))" "blast_frame c c1"
    "\<forall>y. xin (xqes c1) y \<longleftrightarrow> xin (xqes c) y \<or> y \<in> set (take n (r @ u))"
    "sent_pkts c1 = sent_pkts c @ ps" "sends c (take n (r @ u)) ps"
    using xmit_loop_all [OF d(1) order_refl d(2-5), of n ?extra] unfolding add_0 by blast
  let ?k = "n - (n - length (r @ u))"
  have k: "?k = min n (length (r @ u))" by simp
  define q1 where "q1 = (xq c1)\<lparr>cwindow_size := cwindow_size (xq c1) + of_nat ?k\<rparr>"
  define q2 where "q2 = (if cwindow_size q1 > ucast (high_cwindow q1) then q1\<lparr>high_cwindow := ucast (cwindow_size q1)\<rparr> else q1)"
  obtain t cs where st: "call_stamp c1 = (t, c1\<lparr>xc_clock := cs\<rparr>)" using call_stamp_eq by blast
  define c2 where "c2 = c1\<lparr>xc_clock := cs, xq := q2\<lparr>xq_timestamp := t, rexmitq := NULL, blast_size := 0\<rparr>\<rparr>"
  have r: "rpc__dg_call_xmit c = Some c2"
    unfolding rpc__dg_call_xmit_def Let_def n [symmetric] c1(1) Option.bind.simps(2) prod.case st
      q1_def [symmetric] q2_def [symmetric] c2_def ..
  have c2: "xqes c2 = xqes c1" "xc_core c2 = xc_core c1" "sent_pkts c2 = sent_pkts c1" "xc_status c2 = xc_status c1"
    "xq c2 = q2\<lparr>xq_timestamp := t, rexmitq := NULL, blast_size := 0\<rparr>"
    by (simp_all add: c2_def xc_core_def)
  have q: "xq_head (xq c2) = xq_head (xq c1)" "first_unsent (xq c2) = first_unsent (xq c1)" "xq_tail (xq c2) = xq_tail (xq c1)"
    "xq_next_fragnum (xq c2) = xq_next_fragnum (xq c1)" "base_flags (xq c2) = base_flags (xq c1)" "freqs_out (xq c2) = freqs_out (xq c1)"
    "cwindow_size (xq c2) = cwindow_size (xq c1) + of_nat ?k" "rexmitq (xq c2) = NULL" "blast_size (xq c2) = 0"
    "part_xqe (xq c2) = part_xqe (xq c1)" "xq_push (xq c2) = xq_push (xq c1)" "snd_frag_size (xq c2) = snd_frag_size (xq c1)"
    by (simp_all add: c2(5) q2_def q1_def)
  have "xq_base c2 T (s @ take (n - length r) u) (drop (n - length r) u) 0"
    using c1(2) xq_base_cong [OF c2(1) q(1-6), of 0 ?k] q(7) unfolding k by simp
  then have "xq_ok c2 T (s @ take (n - length r) u) (drop (n - length r) u) []"
    unfolding xq_ok_def q(8) by simp
  moreover have "xmit_frame c c2" using c1(3) q_rest_fields [of "xq c1" "xq c"] q c2
    by (simp add: xmit_frame_def blast_frame_def)
  ultimately show ?thesis using r c1(4-6) c2(1,3) q(9) by (intro exI [of _ c2] exI [of _ ps]) simp
qed

section \<open>Appending\<close>

text \<open>Elements that differ only in their links.\<close>

definition relinked :: "xheap \<Rightarrow> xheap \<Rightarrow> addr \<Rightarrow> bool" where
  "relinked h h' y \<longleftrightarrow> (\<exists>v w. xelt h' y = (xelt h y)\<lparr>xqe_next := v, next_rexmit := w\<rparr>)"

lemma relinked_refl: "h' y = h y \<Longrightarrow> relinked h h' y"
  unfolding relinked_def by (rule exI [of _ "xqe_next (xelt h y)"], rule exI [of _ "next_rexmit (xelt h y)"]) (simp add: xelt_def)

lemma relinkedI:
  "xelt h' y = (xelt h y)\<lparr>xqe_next := v\<rparr> \<Longrightarrow> relinked h h' y"
  "xelt h' y = (xelt h y)\<lparr>next_rexmit := w\<rparr> \<Longrightarrow> relinked h h' y"
  unfolding relinked_def
  by (rule exI [of _ v], rule exI [of _ "next_rexmit (xelt h y)"], simp)
    (rule exI [of _ "xqe_next (xelt h y)"], rule exI [of _ w], simp)

lemma relinked_facts:
  assumes "relinked h h' y"
  shows "xnum h' y = xnum h y" "xin h' y = xin h y" "xask h' y = xask h y" "xlen_ok (xelt h' y) = xlen_ok (xelt h y)"
    "frag_body (xelt h' y) = frag_body (xelt h y)" "xqe_serial (xelt h' y) = xqe_serial (xelt h y)"
  using assms by (auto simp: relinked_def xnum_def xin_def xask_def xlen_ok_def xqe_ok_def frag_body_def)

lemma relinked_lists:
  assumes "\<forall>y\<in>set xs. relinked h h' y"
  shows "map (xnum h') xs = map (xnum h) xs" "filter (xin h') xs = filter (xin h) xs"
    "filter (\<lambda>x. xin h' x \<and> xask h' x) xs = filter (\<lambda>x. xin h x \<and> xask h x) xs"
  using assms relinked_facts [of h h'] by (auto intro!: filter_cong)

lemma append_pp_ex:
  assumes ok: "xq_ok c T s u r" and x: "part_xqe (xq c) = x" "x \<noteq> NULL" "xqes c x = Some e" "xqe_ok e"
    and fresh: "\<not> xqe_in_cwindow e" "x \<notin> set (s @ u)" and T: "Suc T < 65536"
  shows "\<exists>c'. rpc__dg_xmitq_append_pp c = Some c' \<and> xq_ok c' (Suc T) s (u @ [x]) r \<and> part_xqe (xq c') = NULL \<and>
    xnum (xqes c') x = T \<and> frag_body (xelt (xqes c') x) = frag_body e \<and>
    (\<forall>y. y \<noteq> x \<longrightarrow> relinked (xqes c) (xqes c') y \<and> (xqes c' y = None \<longleftrightarrow> xqes c y = None)) \<and>
    xc_core c' = xc_core c \<and> xc_status c' = xc_status c \<and> sent_pkts c' = sent_pkts c \<and>
    xq_push (xq c') = xq_push (xq c) \<and> blast_size (xq c') = blast_size (xq c) \<and>
    RPC_DG_FLAG_IS_SET (base_flags (xq c')) XF_FRAG = (RPC_DG_FLAG_IS_SET (base_flags (xq c)) XF_FRAG \<or> \<not> xq_push (xq c)) \<and>
    snd_frag_size (xq c') = snd_frag_size (xq c) \<and> (xq_push (xq c) \<longrightarrow> base_flags (xq c') = base_flags (xq c))"
proof -
  note d = xq_okD [OF ok]
  note b = xq_baseD [OF d(1)]
  let ?h = "xqes c" and ?q = "xq c"
  define e1 where "e1 = e\<lparr>xqe_frag_len := of_nat (length (xqe_body e) + length (concat (xqe_more e))),
               xqe_next := NULL, xqe_fragnum := ucast (xq_next_fragnum ?q), xqe_flags := 0\<rparr>"
  define t where "t = last_addr (s @ u)"
  define h2 where "h2 = (if s @ u = [] then ?h(x \<mapsto> e1) else ?h(x \<mapsto> e1, t \<mapsto> (xelt ?h t)\<lparr>xqe_next := x\<rparr>))"
  define bf where "bf = (let b1 = (if xq_next_fragnum ?q = 0 \<and> \<not> xq_push ?q \<and> xq_ptype ?q = RPC_C_DG_PT_REQUEST
                    \<and> \<not> RPC_DG_FLAG_IS_SET (base_flags ?q) RPC_C_DG_PF_MAYBE
                 then base_flags ?q AND NOT RPC_C_DG_PF_IDEMPOTENT else base_flags ?q) in if \<not> xq_push ?q then b1 OR XF_FRAG else b1)"
  define q2 where "q2 = ?q\<lparr>xq_next_fragnum := xq_next_fragnum ?q + 1, xq_head := (if s @ u = [] then x else xq_head ?q),
    xq_tail := x, first_unsent := (if u = [] then x else first_unsent ?q), base_flags := bf, part_xqe := NULL\<rparr>"
  define c2 where "c2 = c\<lparr>xq := q2, xqes := h2\<rparr>"
  have hn: "xq_head ?q = NULL \<longleftrightarrow> s @ u = []" using nseg_first [OF b(1)] nseg_elem [OF b(1)] by (cases "s @ u") auto
  have un: "first_unsent ?q = NULL \<longleftrightarrow> u = []" using b(3) nseg_elem [OF b(1)] by (cases u) auto
  have t: "t \<in> set (s @ u) \<and> t \<noteq> x \<and> t \<noteq> NULL \<and> ?h t = Some (xelt ?h t)" if "s @ u \<noteq> []"
  proof -
    have "t \<in> set (s @ u)" using last_in_set [OF that] unfolding t_def last_addr_def if_not_P [OF that] .
    then show ?thesis using fresh(2) xq_base_elem [OF d(1)] by metis
  qed
  have r: "rpc__dg_xmitq_append_pp c = Some c2"
  proof -
    define c0 where "c0 = c\<lparr>xq := ?q\<lparr>xq_next_fragnum := xq_next_fragnum ?q + 1\<rparr>, xqes := ?h(x \<mapsto> e1)\<rparr>"
    define c1 where "c1 = c\<lparr>xq := ?q\<lparr>xq_next_fragnum := xq_next_fragnum ?q + 1, xq_head := (if s @ u = [] then x else xq_head ?q),
      xq_tail := x, first_unsent := (if u = [] then x else first_unsent ?q)\<rparr>, xqes := h2\<rparr>"
    have A: "xset x (\<lambda>e. e\<lparr>xqe_frag_len := of_nat (length (xqe_body e) + length (concat (xqe_more e))),
               xqe_next := NULL, xqe_fragnum := ucast (xq_next_fragnum ?q), xqe_flags := 0\<rparr>) c = Some (c\<lparr>xqes := ?h(x \<mapsto> e1)\<rparr>)"
      using x by (simp add: xset_def xget_def e1_def)
    have B: "(if xq_head (xq c0) = NULL
             then Some (c0\<lparr>xq := (xq c0)\<lparr>xq_head := x, xq_tail := x, first_unsent := x\<rparr>\<rparr>)
             else do {
               c \<leftarrow> xset (xq_tail (xq c0)) (\<lambda>e. e\<lparr>xqe_next := x\<rparr>) c0;
               let c = c\<lparr>xq := (xq c)\<lparr>xq_tail := x\<rparr>\<rparr>;
               Some (if first_unsent (xq c) = NULL then c\<lparr>xq := (xq c)\<lparr>first_unsent := x\<rparr>\<rparr> else c) }) = Some c1"
    proof (cases "s @ u = []")
      case True
      then show ?thesis using hn by (simp add: c0_def c1_def h2_def)
    next
      case False
      have tl: "xq_tail ?q = t" using b(4) t_def by simp
      have h: "xq_head ?q \<noteq> NULL" using hn False by blast
      have X: "xset t (\<lambda>e. e\<lparr>xqe_next := x\<rparr>) c0 = Some (c0\<lparr>xqes := h2\<rparr>)"
        unfolding h2_def if_not_P [OF False] using t [OF False] by (simp add: xset_def xget_def c0_def)
      show ?thesis using False h un X tl unfolding c1_def if_not_P [OF False] by (simp add: c0_def)
    qed
    have if_flags: "(if P then d\<lparr>xq := (xq d)\<lparr>base_flags := w\<rparr>\<rparr> else d) =
        d\<lparr>xq := (xq d)\<lparr>base_flags := (if P then w else base_flags (xq d))\<rparr>\<rparr>" for P w and d :: dg_xcall by simp
    have c0: "(c\<lparr>xqes := ?h(x \<mapsto> e1)\<rparr>)\<lparr>xq := (xq (c\<lparr>xqes := ?h(x \<mapsto> e1)\<rparr>))\<lparr>xq_next_fragnum := xq_next_fragnum ?q + 1\<rparr>\<rparr> = c0"
      by (simp add: c0_def)
    show ?thesis
      unfolding rpc__dg_xmitq_append_pp_def Let_def x(1) if_not_P [OF x(2)] A Option.bind.simps(2) c0 
      unfolding B [unfolded Let_def] Option.bind.simps(2) if_flags
      by (simp add: c1_def c2_def q2_def bf_def Let_def cong: if_cong)
  qed
  have rl: "relinked ?h h2 y \<and> (h2 y = None \<longleftrightarrow> ?h y = None)" if "y \<noteq> x" for y
  proof (cases "s @ u \<noteq> [] \<and> y = t")
    case True
    then have "h2 y = Some ((xelt ?h y)\<lparr>xqe_next := x\<rparr>)" unfolding h2_def by (metis fun_upd_same)
    moreover have "?h y \<noteq> None" using t True by (metis option.distinct(1))
    ultimately show ?thesis using relinkedI(1) [where h' = h2 and y = y and h = ?h and v = x] by (simp add: xelt_def)
  next
    case False
    then have "h2 y = ?h y" using that by (auto simp: h2_def)
    then show ?thesis using relinked_refl by simp
  qed
  have rs: "\<forall>y\<in>set (s @ u). relinked ?h h2 y" using rl fresh(2) by metis
  then have rs': "\<forall>y\<in>set s. relinked ?h h2 y" "\<forall>y\<in>set u. relinked ?h h2 y" by auto
  have h2x: "h2 x = Some e1" using t by (auto simp: h2_def)
  have bit: "bit bf 2 \<longleftrightarrow> bit (base_flags ?q) 2 \<or> \<not> xq_push ?q" by (auto simp: bf_def Let_def bit_simps)
  have bp: "xq_push ?q \<Longrightarrow> bf = base_flags ?q" by (simp add: bf_def)
  have num: "unat (of_nat T :: u16) = T" using T by (simp add: unsigned_of_nat take_bit_nat_eq_self)
  have xn: "xnum h2 x = T" unfolding xnum_def xelt_def h2x e1_def using b(11) num take_bit_nat_eq_self [of T 32] T
    by (simp add: unsigned_ucast_eq)
  have x1: "xlen_ok e1" "frag_body e1 = frag_body e" "\<not> xin h2 x" "xask h2 x"
    using xqe_ok_facts(2) [OF x(4)] x(4) fresh(1)
    by (simp_all add: xlen_ok_def e1_def xqe_ok_def frag_body_def xin_def xask_def xelt_def h2x RPC_DG_FLAG_IS_SET_def)
  have seg: "nseg xqe_next h2 (xq_head q2) (s @ u @ [x]) NULL"
  proof (cases "s @ u = []")
    case True
    then show ?thesis using h2x x(2) by (simp add: q2_def e1_def)
  next
    case False
    then obtain xs where xs: "s @ u = xs @ [t]" by (metis t_def last_addr_def append_butlast_last_id)
    have dt: "t \<notin> set xs" "x \<notin> set xs" using b(2) fresh(2) unfolding xs by auto
    have "h2 = ?h(x \<mapsto> e1, t \<mapsto> (xelt ?h t)\<lparr>xqe_next := x\<rparr>)" unfolding h2_def if_not_P [OF False] ..
    moreover have "nseg xqe_next ?h (xq_head ?q) (xs @ [t]) NULL" using b(1) unfolding xs .
    ultimately have "nseg xqe_next h2 (xq_head ?q) (xs @ [t]) x"
      using dt t [OF False] by (auto simp del: fun_upd_apply) (auto)
    moreover have "nseg xqe_next h2 x [x] NULL" using h2x x(2) by (simp add: e1_def)
    moreover have "xq_head q2 = xq_head ?q" unfolding q2_def if_not_P [OF False] by simp
    ultimately show ?thesis unfolding append.assoc [symmetric] xs nseg_append by metis
  qed
  have rex: "nseg next_rexmit h2 (rexmitq q2) r NULL"
  proof -
    have "map_option next_rexmit (h2 y) = map_option next_rexmit (?h y)" if "y \<in> set r" for y
    proof -
      have y: "y \<in> set (s @ u)" "y \<noteq> x" using that d(4) fresh(2) by auto
      then show ?thesis using t by (auto simp: h2_def)
    qed
    then have "nseg next_rexmit h2 (rexmitq ?q) r NULL = nseg next_rexmit ?h (rexmitq ?q) r NULL" by (rule nseg_cong)
    then show ?thesis using d(2) by (simp add: q2_def)
  qed
  have "xq_base c2 (Suc T) s (u @ [x]) 0" unfolding xq_base_def
  proof (intro conjI)
    show "map (xnum (xqes c2)) (u @ [x]) = [Suc T - length (u @ [x])..<Suc T]"
      using b(8,9) relinked_lists(1) [OF rs'(2)] xn by (simp add: c2_def Suc_diff_le)
    show "\<forall>y\<in>set (s @ u @ [x]). xlen_ok (xelt (xqes c2) y)"
    proof -
      have "xlen_ok (xelt h2 y)" if "y \<in> set (s @ u)" for y
        using bspec [OF b(5) that] relinked_facts(4) [OF bspec [OF rs that]] by simp
      then show ?thesis using x1(1) h2x by (auto simp: c2_def xelt_def)
    qed
    show "\<forall>y\<in>set s. xnum (xqes c2) y + length (u @ [x]) < Suc T"
      using b(7) relinked_facts(1) [OF bspec [OF rs'(1)]] by (auto simp: c2_def)
    show "\<forall>y\<in>set (u @ [x]). \<not> xin (xqes c2) y" using b(14) relinked_facts(2) [OF bspec [OF rs'(2)]] x1(3) by (auto simp: c2_def)
    show "RPC_DG_FLAG_IS_SET (base_flags (xq c2)) XF_FRAG \<or> (\<forall>y\<in>set (s @ u @ [x]). xask (xqes c2) y)"
      using b(15) relinked_facts(3) [OF bspec [OF rs]] x1(4) bit by (auto simp: c2_def q2_def flag_is_set_bit)
    show "nseg xqe_next (xqes c2) (xq_head (xq c2)) (s @ u @ [x]) NULL" using seg by (simp add: c2_def del: nseg_append)
    show "cwindow_size (xq c2) + of_nat 0 = of_nat (length (filter (xin (xqes c2)) (s @ u @ [x])))"
      using b(12) relinked_lists(2) [OF rs'(1)] relinked_lists(2) [OF rs'(2)] x1(3) by (simp add: c2_def q2_def)
    show "freqs_out (xq c2) = of_nat (length (filter (\<lambda>x. xin (xqes c2) x \<and> xask (xqes c2) x) (s @ u @ [x])))"
      using b(13) relinked_lists(3) [OF rs'(1)] relinked_lists(3) [OF rs'(2)] x1(3) by (simp add: c2_def q2_def)
    show "sorted_wrt (<) (map (xnum (xqes c2)) s)" 
      using b(6) unfolding relinked_lists(1) [OF rs'(1), symmetric] by (simp add: c2_def)
  qed (use b(2-4,9,11) fresh(2) T in \<open>simp_all add: c2_def q2_def last_addr_def\<close>)
  moreover have "\<forall>y\<in>set r. \<not> xin h2 y" using d(4,5) relinked_facts(2) [OF bspec [OF rs'(1)]] by blast
  ultimately have "xq_ok c2 (Suc T) s (u @ [x]) r" using rex d(3,4) unfolding xq_ok_def by (simp add: c2_def)
  then show ?thesis using r rl xn x1(2) bit h2x bp
    by (intro exI [of _ c2] conjI) (simp_all add: c2_def q2_def xc_core_def flag_is_set_bit xelt_def)
qed

section \<open>Sending again\<close>

text \<open>What leaving the congestion window keeps.\<close>

definition q_win :: "dg_xmitq \<Rightarrow> dg_xmitq" where
  "q_win q = q\<lparr>cwindow_size := 0, freqs_out := 0\<rparr>"

lemma q_win_fields:
  assumes "q_win q' = q_win q"
  shows "xq_head q' = xq_head q" "xq_tail q' = xq_tail q" "rexmitq q' = rexmitq q" "first_unsent q' = first_unsent q"
    "part_xqe q' = part_xqe q" "xq_next_fragnum q' = xq_next_fragnum q"
    "base_flags q' = base_flags q" "xq_push q' = xq_push q" "blast_size q' = blast_size q"
    "snd_frag_size q' = snd_frag_size q" "xq_timestamp q' = xq_timestamp q" "rexmit_timeout q' = rexmit_timeout q"
    "awaiting_ack q' = awaiting_ack q"
  using arg_cong [OF assms, of xq_head] arg_cong [OF assms, of first_unsent] arg_cong [OF assms, of xq_tail]
    arg_cong [OF assms, of rexmitq] arg_cong [OF assms, of part_xqe] arg_cong [OF assms, of xq_next_fragnum]
    arg_cong [OF assms, of base_flags] arg_cong [OF assms, of xq_push] arg_cong [OF assms, of blast_size]
    arg_cong [OF assms, of snd_frag_size] arg_cong [OF assms, of xq_timestamp] arg_cong [OF assms, of rexmit_timeout]
    arg_cong [OF assms, of awaiting_ack]
  by (simp_all add: q_win_def)

lemma leave_cwindow_ex:
  assumes base: "xq_base c T s u k" and x: "x \<in> set (s @ u)"
  shows "\<exists>c'. leave_cwindow x c = Some c' \<and> xq_base c' T s u k \<and> \<not> xin (xqes c') x \<and> same_elts (xqes c) (xqes c') \<and>
    (\<forall>y. y \<noteq> x \<longrightarrow> xqes c' y = xqes c y) \<and> q_win (xq c') = q_win (xq c) \<and> c' = c\<lparr>xq := xq c', xqes := xqes c'\<rparr> \<and>
    xelt (xqes c') x = (xelt (xqes c) x)\<lparr>xqe_in_cwindow := False\<rparr>"
proof -
  note b = xq_baseD [OF base]
  obtain e where e: "xget x (xqes c) = Some e" "xqes c x = Some e" "xelt (xqes c) x = e" "x \<noteq> NULL" "xlen_ok e"
    using xq_base_elem [OF base x] by blast
  show ?thesis
  proof (cases "xqe_in_cwindow e")
    case False
    then have "e\<lparr>xqe_in_cwindow := False\<rparr> = e" by simp
    then show ?thesis using False e base by (intro exI [of _ c]) (simp add: leave_cwindow_def xin_def)
  next
    case True
    define e' where "e' = e\<lparr>xqe_in_cwindow := False\<rparr>"
    define q' where "q' = (xq c)\<lparr>cwindow_size := cwindow_size (xq c) - 1, freqs_out := freqs_out (xq c) - (if xask (xqes c) x then 1 else 0)\<rparr>"
    define c' where "c' = c\<lparr>xq := q', xqes := (xqes c)(x \<mapsto> e')\<rparr>"
    have nl: "\<not> RPC_DG_FLAG_IS_SET (xqe_flags e) XF_LAST_FRAG" using e(5) by (simp add: xlen_ok_def)
    have r: "leave_cwindow x c = Some c'"
      using e(1-4) True nl by (simp add: leave_cwindow_def xset_def c'_def q'_def e'_def xask_def)
    let ?h = "xqes c'"
    have h: "?h = (xqes c)(x \<mapsto> e')" by (simp add: c'_def)
    have el: "xelt ?h y = (if y = x then e' else xelt (xqes c) y)" for y by (simp add: h)
    have same: "same_elts (xqes c) ?h" unfolding h using e(2) by (rule same_elts_upd) (simp add: e'_def xfix_def)
    have ask: "xask ?h y = xask (xqes c) y" for y by (simp add: xask_def el e'_def e(3))
    have xn: "\<not> xin ?h x" by (simp add: xin_def el e'_def)
    have wo: "y \<noteq> x \<Longrightarrow> xin ?h y = xin (xqes c) y" for y by (simp add: xin_def el)
    have wx: "xin (xqes c) x" using True e(3) by (simp add: xin_def)
    have cw: "Suc (length (filter (xin ?h) (s @ u))) = length (filter (xin (xqes c)) (s @ u))"
      using length_filter_upd [OF b(2) x, of "xin ?h" "xin (xqes c)"] True e(3) by (simp add: xin_def el e'_def)
    have fo: "length (filter (\<lambda>y. xin ?h y \<and> xask ?h y) (s @ u)) + (if xask (xqes c) x then 1 else 0) =
        length (filter (\<lambda>y. xin (xqes c) y \<and> xask (xqes c) y) (s @ u))"
      using length_filter_upd [OF b(2) x, of "\<lambda>y. xin ?h y \<and> xask ?h y" "\<lambda>y. xin (xqes c) y \<and> xask (xqes c) y"]
        wx xn wo by (simp add: ask del: filter_append)
    have "xq_base c' T s u k"
    proof (rule xq_base_frame [OF base same])
      show "cwindow_size (xq c') + of_nat k = of_nat (length (filter (xin ?h) (s @ u)))"
        using b(12) by (simp add: cw [symmetric] c'_def q'_def algebra_simps del: filter_append)
      show "freqs_out (xq c') = of_nat (length (filter (\<lambda>x. xin ?h x \<and> xask ?h x) (s @ u)))"
        using b(13) by (simp add: fo [symmetric] c'_def q'_def del: filter_append)
      show "\<forall>y\<in>set (s @ u). xlen_ok (xelt ?h y)"
        using b(5) e(5) by (simp add: el e'_def xlen_ok_def xqe_ok_def frag_body_def)
      show "\<forall>y\<in>set u. \<not> xin ?h y" using b(14) by (simp add: xin_def el e'_def)
    qed (use b(3,15) ask in \<open>simp_all add: c'_def q'_def\<close>)
    moreover have "\<not> xin ?h x" by (simp add: xin_def el e'_def)
    moreover have "c' = c\<lparr>xq := xq c', xqes := xqes c'\<rparr>" "q_win (xq c') = q_win (xq c)" by (simp_all add: c'_def q'_def q_win_def)
    moreover have "xelt ?h x = (xelt (xqes c) x)\<lparr>xqe_in_cwindow := False\<rparr>" by (simp add: el e'_def e(3))
    ultimately show ?thesis using r same h by (intro exI [of _ c'] conjI) simp_all
  qed
qed

text \<open>The numbers and the data of the elements, which never change on the queue.\<close>

definition same_data :: "xheap \<Rightarrow> xheap \<Rightarrow> bool" where
  "same_data h h' \<longleftrightarrow> (\<forall>y. (h' y = None \<longleftrightarrow> h y = None) \<and> (h y \<noteq> None \<longrightarrow> xnum h' y = xnum h y \<and>
     frag_body (xelt h' y) = frag_body (xelt h y)))"

lemma same_data_refl [simp]: "same_data h h"
  and same_data_trans [trans]: "same_data h h' \<Longrightarrow> same_data h' h'' \<Longrightarrow> same_data h h''"
  by (simp_all add: same_data_def)

lemma same_elts_data: "same_elts h h' \<Longrightarrow> same_data h h'"
  unfolding same_data_def using same_elts_xelt(2,3) by (metis map_option_is_None not_None_eq same_elts_def)

lemma same_data_upd: "h x = Some e \<Longrightarrow> xqe_fragnum e' = xqe_fragnum e \<Longrightarrow> frag_body e' = frag_body e \<Longrightarrow> same_data h (h(x \<mapsto> e'))"
  by (simp add: same_data_def xnum_def) (simp add: xelt_def)

text \<open>What the timer and the retransmissions change of a call.\<close>

definition call_frame :: "dg_xcall \<Rightarrow> dg_xcall \<Rightarrow> bool" where
  "call_frame c c' \<longleftrightarrow> same_data (xqes c) (xqes c') \<and> part_xqe (xq c') = part_xqe (xq c) \<and>
     xq_push (xq c') = xq_push (xq c) \<and> base_flags (xq c') = base_flags (xq c) \<and> xq_tail (xq c') = xq_tail (xq c) \<and>
     snd_frag_size (xq c') = snd_frag_size (xq c) \<and>
     xc_core c' = xc_core c \<and> (sock_disabled c \<or> xc_status c' = xc_status c)"

lemma call_frame_refl [simp]: "call_frame c c"
  by (simp add: call_frame_def)

lemma call_frame_trans: "call_frame c c1 \<Longrightarrow> call_frame c1 c2 \<Longrightarrow> call_frame c c2"
  unfolding call_frame_def using same_data_trans xc_core_fields by metis

text \<open>Elements with the same numbers and data are sent in the same packets.\<close>

lemma call_frame_pkt:
  assumes "call_frame c c'" "xqes c x \<noteq> None"
  shows "pkt_for c' x p = pkt_for c x p"
  using assms by (simp add: call_frame_def same_data_def pkt_for_def)

lemma call_frame_sends:
  assumes "call_frame c c'" "\<forall>x\<in>set xs. xqes c x \<noteq> None"
  shows "sends c' xs ps = sends c xs ps"
proof -
  have "list_all2 (pkt_for c') xs ps = list_all2 (pkt_for c) xs ps"
    using assms call_frame_pkt by (intro list.rel_cong) auto
  moreover have "sock_disabled c' = sock_disabled c" using assms(1) xc_core_fields unfolding call_frame_def by blast
  ultimately show ?thesis by (simp add: sends_def)
qed

lemma xq_base_rexmit:
  assumes "xqes c x = Some e"
  shows "xq_base (c\<lparr>xqes := (xqes c)(x \<mapsto> e\<lparr>next_rexmit := w\<rparr>)\<rparr>) T s u k = xq_base c T s u k"
proof -
  let ?h = "xqes c" and ?h' = "(xqes c)(x \<mapsto> e\<lparr>next_rexmit := w\<rparr>)"
  have e: "xelt ?h x = e" using assms by (simp add: xelt_def)
  have f: "xnum ?h' = xnum ?h" "xin ?h' = xin ?h" "xask ?h' = xask ?h"
    using e by (simp_all add: fun_eq_iff xnum_def xin_def xask_def)
  have l: "xlen_ok (xelt ?h' y) = xlen_ok (xelt ?h y)" for y
    using e by (simp add: xlen_ok_def xqe_ok_def frag_body_def)
  have n: "nseg xqe_next ?h' p xs q = nseg xqe_next ?h p xs q" for p xs q
    by (rule nseg_cong) (simp add: assms)
  show ?thesis unfolding xq_base_def by (simp add: f l n del: fun_upd_apply xelt_upd nseg_append filter_append)
qed

lemma start_xmit_ex:
  assumes ok: "xq_ok c T s u r" and n: "n = unat (blast_size (xq c))"
  shows "\<exists>c' ps. RPC_DG_START_XMIT c = Some c' \<and> call_frame c c' \<and> sent_pkts c' = sent_pkts c @ ps \<and>
    (if xc_state c = Cs_final
     then xq_ok c' T (s @ take (n - length r) u) (drop (n - length r) u) [] \<and> blast_size (xq c') = 0 \<and>
       sends c (take n (r @ u)) ps \<and> (\<forall>y. xin (xqes c') y \<longleftrightarrow> xin (xqes c) y \<or> y \<in> set (take n (r @ u)))
     else ps = [] \<and> c' = rpc__dg_call_signal c)"
proof (cases "xc_state c = Cs_final")
  case True
  obtain c' ps where c': "rpc__dg_call_xmit c = Some c'"
    "xq_ok c' T (s @ take (n - length r) u) (drop (n - length r) u) []" "xmit_frame c c'" "blast_size (xq c') = 0"
    "sent_pkts c' = sent_pkts c @ ps" "sends c (take n (r @ u)) ps"
    "\<forall>y. xin (xqes c') y \<longleftrightarrow> xin (xqes c) y \<or> y \<in> set (take n (r @ u))"
    using call_xmit_ex [OF assms] by blast
  have "call_frame c c'" using c'(3) same_elts_data by (auto simp: xmit_frame_def call_frame_def)
  then show ?thesis using True c' by (auto simp: RPC_DG_START_XMIT_def)
next
  case False
  then show ?thesis
    by (intro exI [of _ "rpc__dg_call_signal c"] exI [of _ "[]"])
      (simp add: RPC_DG_START_XMIT_def call_frame_def rpc__dg_call_signal_def xc_core_def)
qed

lemma xq_ok_signal [simp]: "xq_ok (rpc__dg_call_signal c) T s u r = xq_ok c T s u r"
  by (simp add: xq_ok_def xq_base_def rpc__dg_call_signal_def)

lemma xq_ok_cong:
  assumes "xqes c' = xqes c" "xq_head (xq c') = xq_head (xq c)" "first_unsent (xq c') = first_unsent (xq c)"
    "xq_tail (xq c') = xq_tail (xq c)" "xq_next_fragnum (xq c') = xq_next_fragnum (xq c)"
    "base_flags (xq c') = base_flags (xq c)" "freqs_out (xq c') = freqs_out (xq c)"
    "cwindow_size (xq c') = cwindow_size (xq c)" "rexmitq (xq c') = rexmitq (xq c)"
  shows "xq_ok c' T s u r = xq_ok c T s u r"
  unfolding xq_ok_def assms(1,9) using xq_base_cong [OF assms(1-7), of 0 0] assms(8) by simp

section \<open>The retransmission timer\<close>

lemma xmitq_timer_ex:
  assumes ok: "xq_ok c T s u r" and st: "xc_status c = 0 \<or> xc_status c = rpc_s_call_faulted"
    and ne: "s @ u \<noteq> []" and aged: "rpc__clock_aged (xq_timestamp (xq c)) (rexmit_timeout (xq c)) (xc_clock c)"
    and tmo: "rpc__dg_xmitq_awaiting_ack_tmo (xq c) (com_timeout_knob c) (xc_clock c) = Some False"
  shows "\<exists>c' ps. rpc__dg_call_xmitq_timer c = Some c' \<and> call_frame c c' \<and> sent_pkts c' = sent_pkts c @ ps \<and>
    (if xc_state c = Cs_final
     then xq_ok c' T (if s = [] then take 1 u else s) (if s = [] then drop 1 u else u) [] \<and> blast_size (xq c') = 0 \<and>
       sends c (take 1 (s @ u)) ps
     else ps = [] \<and> xq_ok c' T s u (take 1 s) \<and> blast_size (xq c') = 1 \<and> xc_signals c' = xc_signals c + 1)"
proof -
  note d = xq_okD [OF ok]
  note b = xq_baseD [OF d(1)]
  define x where "x = hd (s @ u)"
  have x: "xq_head (xq c) = x" "x \<in> set (s @ u)" 
    using nseg_first [OF b(1)] ne hd_in_set [OF ne] by (auto simp: x_def first_addr_def)
  obtain e where e: "xget x (xqes c) = Some e" "xqes c x = Some e" "xelt (xqes c) x = e" "x \<noteq> NULL"
    using xq_base_elem [OF d(1) x(2)] by blast
  have fu: "x = first_unsent (xq c) \<longleftrightarrow> s = []"
    using b(2) b(3) e(4) ne unfolding x_def by (cases s; cases u) auto
  define c1 where "c1 = (if s = [] then c else c\<lparr>xq := (xq c)\<lparr>rexmitq := x\<rparr>, xqes := (xqes c)(x \<mapsto> e\<lparr>next_rexmit := NULL\<rparr>)\<rparr>)"
  define c2 where "c2 = c1\<lparr>xq := (xq c1)\<lparr>rexmit_timeout := min (RPC_CLOCK_SEC 8) (push_bit 1 (rexmit_timeout (xq c1)))\<rparr>\<rparr>"
  have c1: "(if x \<noteq> first_unsent (xq c)
               then xset x (\<lambda>e. e\<lparr>next_rexmit := NULL\<rparr>) (c\<lparr>xq := (xq c)\<lparr>rexmitq := x\<rparr>\<rparr>)
               else Some c) = Some c1"
    using e(1) unfolding c1_def fu by (simp add: xset_def)
  have c2: "xqes c2 = xqes c1" "xq_head (xq c2) = xq_head (xq c1)" "first_unsent (xq c2) = first_unsent (xq c1)"
    "xq_tail (xq c2) = xq_tail (xq c1)" "xq_next_fragnum (xq c2) = xq_next_fragnum (xq c1)"
    "base_flags (xq c2) = base_flags (xq c1)" "freqs_out (xq c2) = freqs_out (xq c1)" "cwindow_size (xq c2) = cwindow_size (xq c1)"
    by (simp_all add: c2_def)
  have base1: "xq_base c1 T s u 0"
  proof (cases "s = []")
    case False
    have "xq_base (c\<lparr>xqes := (xqes c)(x \<mapsto> e\<lparr>next_rexmit := NULL\<rparr>)\<rparr>) T s u 0" using xq_base_rexmit [OF e(2)] d(1) by simp
    then show ?thesis using False xq_base_cong [of c1 "c\<lparr>xqes := (xqes c)(x \<mapsto> e\<lparr>next_rexmit := NULL\<rparr>)\<rparr>" 0 0] by (simp add: c1_def)
  qed (use d(1) in \<open>simp add: c1_def\<close>)
  then have "xq_base c2 T s u 0" using xq_base_cong [OF c2(1-7), of 0 0] c2(8) by simp
  then obtain c3 where c3: "leave_cwindow x c2 = Some c3" "xq_base c3 T s u 0" "\<not> xin (xqes c3) x" "same_elts (xqes c2) (xqes c3)"
    "\<forall>y. y \<noteq> x \<longrightarrow> xqes c3 y = xqes c2 y" "q_win (xq c3) = q_win (xq c2)" "c3 = c2\<lparr>xq := xq c3, xqes := xqes c3\<rparr>"
    using leave_cwindow_ex [OF _ x(2)] by blast
  note q3 = q_win_fields [OF c3(6)]
  define c4 where "c4 = c3\<lparr>xq := (xq c3)\<lparr>blast_size := 1\<rparr>\<rparr>"
  have r0: "r = []" if "s = []" using that d(4) by simp
  have rex: "nseg next_rexmit (xqes c3) (rexmitq (xq c3)) (take 1 s) NULL"
  proof (cases "s = []")
    case True
    then show ?thesis using same_elts_nseg(2) [OF c3(4)] r0 d(2) q3(3) c2(1) by (simp add: c1_def c2_def)
  next
    case False
    then have "take 1 s = [x]" by (cases s) (simp_all add: x_def)
    moreover have "nseg next_rexmit (xqes c2) x [x] NULL" using False e(4) by (simp add: c2(1) c1_def)
    ultimately show ?thesis unfolding same_elts_nseg(2) [OF c3(4)] using q3(3) False by (simp add: c1_def c2_def)
  qed
  have "xq_ok c3 T s u (take 1 s)"
    unfolding xq_ok_def using c3(2) rex b(2) c3(3) by (cases s) (auto simp: x_def)
  then have ok4: "xq_ok c4 T s u (take 1 s)" using xq_ok_cong [of c4 c3] by (simp add: c4_def)
  have "same_data (xqes c) (xqes c1)" using same_data_upd [of "xqes c" x e, OF e(2)] by (auto simp: c1_def frag_body_def)
  then have "same_data (xqes c) (xqes c4)" using same_data_trans [OF _ same_elts_data [OF c3(4)], of "xqes c"] c2(1) by (simp add: c4_def)
  moreover have "xc_core c3 = xc_core c" "xc_status c3 = xc_status c" "sent_pkts c3 = sent_pkts c" "xc_signals c3 = xc_signals c"
    by (subst c3(7), simp add: c2_def c1_def xc_core_def)+
  ultimately have fr: "call_frame c c4" "sent_pkts c4 = sent_pkts c" "xc_signals c4 = xc_signals c" "xc_state c4 = xc_state c"
    using q3 by (simp_all add: call_frame_def c4_def c2_def c1_def xc_core_def)
  obtain c5 ps where c5: "RPC_DG_START_XMIT c4 = Some c5" "call_frame c4 c5" "sent_pkts c5 = sent_pkts c @ ps"
    "if xc_state c = Cs_final
     then xq_ok c5 T (s @ take (1 - length (take 1 s)) u) (drop (1 - length (take 1 s)) u) [] \<and> blast_size (xq c5) = 0 \<and>
       sends c4 (take 1 (take 1 s @ u)) ps \<and>
       (\<forall>y. xin (xqes c5) y \<longleftrightarrow> xin (xqes c4) y \<or> y \<in> set (take 1 (take 1 s @ u)))
     else ps = [] \<and> c5 = rpc__dg_call_signal c4"
  proof -
    have "1 = unat (blast_size (xq c4))" by (simp add: c4_def)
    from start_xmit_ex [OF ok4 this] fr(2,4) show thesis unfolding fr by (elim exE conjE) (rule that)
  qed
  have r: "rpc__dg_call_xmitq_timer c = RPC_DG_START_XMIT c4"
    unfolding rpc__dg_call_xmitq_timer_def Let_def x(1) c1 tmo Option.bind.simps(2) c2_def [symmetric]
    using st e(4) aged by (auto simp: c3(1) c4_def)
  have sd: "sends c4 (take 1 (take 1 s @ u)) ps = sends c (take 1 (s @ u)) ps"
    using call_frame_sends [OF fr(1), of "[x]"] e(2) ne by (cases s; cases u) (auto simp: x_def)
  have k: "s @ take (1 - length (take 1 s)) u = (if s = [] then take 1 u else s)"
    "drop (1 - length (take 1 s)) u = (if s = [] then drop 1 u else u)" by (cases s; simp)+
  have bl: "blast_size (xq (rpc__dg_call_signal c4)) = 1" "xc_signals (rpc__dg_call_signal c4) = xc_signals c + 1"
    using fr(3) by (simp_all add: c4_def rpc__dg_call_signal_def)
  show ?thesis
  proof (intro exI conjI)
    show "rpc__dg_call_xmitq_timer c = Some c5" using r c5(1) by simp
    show "call_frame c c5" using call_frame_trans [OF fr(1) c5(2)] .
    show "if xc_state c = Cs_final
      then xq_ok c5 T (if s = [] then take 1 u else s) (if s = [] then drop 1 u else u) [] \<and> blast_size (xq c5) = 0 \<and>
        sends c (take 1 (s @ u)) ps
      else ps = [] \<and> xq_ok c5 T s u (take 1 s) \<and> blast_size (xq c5) = 1 \<and> xc_signals c5 = xc_signals c + 1"
    proof (cases "xc_state c = Cs_final")
      case True
      then show ?thesis using c5(4) unfolding k sd by simp
    next
      case False
      then have "ps = []" "c5 = rpc__dg_call_signal c4" using c5(4) by simp_all
      then show ?thesis using False bl ok4 by simp
    qed
  qed (rule c5(3))
qed

section \<open>Restarting transmission\<close>

lemma last_addr_single [simp]: "last_addr [x] = x"
  by (simp add: last_addr_def)

lemma xq_base_length: "xq_base c T s u k \<Longrightarrow> length s \<le> T"
proof -
  assume a: "xq_base c T s u k"
  note b = xq_baseD [OF a]
  have "distinct (map (xnum (xqes c)) s)" using b(6) strict_sorted_iff by blast
  then have "length s = card (set (map (xnum (xqes c)) s))" using distinct_card by fastforce
  also have "\<dots> \<le> card {..<T}" using b(7) by (intro card_mono) auto
  finally show ?thesis by simp
qed

definition q_rex :: "dg_xmitq \<Rightarrow> dg_xmitq" where
  "q_rex q = q\<lparr>cwindow_size := 0, freqs_out := 0, rexmitq := NULL\<rparr>"

lemma q_rex_fields:
  assumes "q_rex q' = q_rex q"
  shows "xq_head q' = xq_head q" "xq_tail q' = xq_tail q" "first_unsent q' = first_unsent q"
    "part_xqe q' = part_xqe q" "base_flags q' = base_flags q" "xq_push q' = xq_push q" "blast_size q' = blast_size q"
    "xq_next_fragnum q' = xq_next_fragnum q" "snd_frag_size q' = snd_frag_size q"
  using arg_cong [OF assms, of xq_head] arg_cong [OF assms, of first_unsent] arg_cong [OF assms, of xq_tail]
    arg_cong [OF assms, of part_xqe] arg_cong [OF assms, of xq_next_fragnum] arg_cong [OF assms, of snd_frag_size]
    arg_cong [OF assms, of base_flags] arg_cong [OF assms, of xq_push] arg_cong [OF assms, of blast_size]
  by (simp_all add: q_rex_def)

lemma q_rex_win: "q_win q' = q_win q \<Longrightarrow> q_rex q' = q_rex q"
proof -
  assume a: "q_win q' = q_win q"
  have "q_rex r = (q_win r)\<lparr>rexmitq := NULL\<rparr>" for r by (simp add: q_rex_def q_win_def)
  then show ?thesis using a by simp
qed

text \<open>Linking one element into the retransmission list.\<close>

lemma rexmit_link:
  assumes base: "xq_base c T s u 0" and x: "x \<in> set s" "x \<notin> set d" "set d \<subseteq> set s" "distinct d"
    and seg: "d \<noteq> [] \<Longrightarrow> nseg next_rexmit (xqes c) (rexmitq (xq c)) d NULL"
  shows "\<exists>c'. (do { c \<leftarrow> (if d = [] then Some (c\<lparr>xq := (xq c)\<lparr>rexmitq := x\<rparr>\<rparr>)
             else xset (last_addr d) (\<lambda>e. e\<lparr>next_rexmit := x\<rparr>) c);
        xset x (\<lambda>e. e\<lparr>next_rexmit := NULL\<rparr>) c }) = Some c' \<and> xq_base c' T s u 0 \<and>
      nseg next_rexmit (xqes c') (rexmitq (xq c')) (d @ [x]) NULL \<and> (\<forall>y. xin (xqes c') y = xin (xqes c) y) \<and>
      same_data (xqes c) (xqes c') \<and> q_rex (xq c') = q_rex (xq c) \<and> c' = c\<lparr>xq := xq c', xqes := xqes c'\<rparr> \<and>
      (\<forall>y\<in>set (s @ u). xqe_next (xelt (xqes c') y) = xqe_next (xelt (xqes c) y)) \<and>
      (\<forall>y. xqe_serial (xelt (xqes c') y) = xqe_serial (xelt (xqes c) y))"
proof -
  have el: "\<exists>e. xget y (xqes c) = Some e \<and> xqes c y = Some e \<and> xelt (xqes c) y = e \<and> y \<noteq> NULL" if "y \<in> set s" for y
    using xq_base_elem [OF base, of y] that by auto
  obtain c1 where c1: "(if d = [] then Some (c\<lparr>xq := (xq c)\<lparr>rexmitq := x\<rparr>\<rparr>)
             else xset (last_addr d) (\<lambda>e. e\<lparr>next_rexmit := x\<rparr>) c) = Some c1" "xq_base c1 T s u 0"
    "nseg next_rexmit (xqes c1) (rexmitq (xq c1)) d x" "\<forall>y. xin (xqes c1) y = xin (xqes c) y"
    "same_data (xqes c) (xqes c1)" "q_rex (xq c1) = q_rex (xq c)" "c1 = c\<lparr>xq := xq c1, xqes := xqes c1\<rparr>"
    "\<forall>y\<in>set (s @ u). xqe_next (xelt (xqes c1) y) = xqe_next (xelt (xqes c) y)"
    "\<forall>y. xqe_serial (xelt (xqes c1) y) = xqe_serial (xelt (xqes c) y)"
  proof (cases "d = []")
    case True
    then show ?thesis using base xq_base_cong [of "c\<lparr>xq := (xq c)\<lparr>rexmitq := x\<rparr>\<rparr>" c 0 0]
      by (intro that [of "c\<lparr>xq := (xq c)\<lparr>rexmitq := x\<rparr>\<rparr>"]) (simp_all add: q_rex_def)
  next
    case False
    then obtain d' t where d: "d = d' @ [t]" by (metis append_butlast_last_id)
    obtain e where e: "xget t (xqes c) = Some e" "xqes c t = Some e" "xelt (xqes c) t = e" "t \<noteq> NULL" using el [of t] x(3) d by auto
    define c1 where "c1 = c\<lparr>xqes := (xqes c)(t \<mapsto> e\<lparr>next_rexmit := x\<rparr>)\<rparr>"
    show ?thesis
    proof (rule that [of c1])
      show "(if d = [] then Some (c\<lparr>xq := (xq c)\<lparr>rexmitq := x\<rparr>\<rparr>) else xset (last_addr d) (\<lambda>e. e\<lparr>next_rexmit := x\<rparr>) c) = Some c1"
        using e d by (simp add: xset_def c1_def)
      show "xq_base c1 T s u 0" unfolding c1_def using xq_base_rexmit [OF e(2)] base by simp
      show "nseg next_rexmit (xqes c1) (rexmitq (xq c1)) d x" using seg [OF False] x(4) e d by (auto simp: c1_def)
      show "same_data (xqes c) (xqes c1)" unfolding c1_def using same_data_upd [of "xqes c" t e, OF e(2)] by (simp add: frag_body_def)
    qed (use e in \<open>simp_all add: c1_def xin_def\<close>)
  qed
  obtain e where e: "xget x (xqes c1) = Some e" "xqes c1 x = Some e" "xelt (xqes c1) x = e" "x \<noteq> NULL"
    using xq_base_elem [OF c1(2), of x] x(1) by auto
  define c2 where "c2 = c1\<lparr>xqes := (xqes c1)(x \<mapsto> e\<lparr>next_rexmit := NULL\<rparr>)\<rparr>"
  show ?thesis
  proof (intro exI [of _ c2] conjI)
    show "(do { c \<leftarrow> (if d = [] then Some (c\<lparr>xq := (xq c)\<lparr>rexmitq := x\<rparr>\<rparr>)
             else xset (last_addr d) (\<lambda>e. e\<lparr>next_rexmit := x\<rparr>) c);
        xset x (\<lambda>e. e\<lparr>next_rexmit := NULL\<rparr>) c }) = Some c2"
      unfolding c1(1) using e by (simp add: xset_def c2_def)
    show "xq_base c2 T s u 0" unfolding c2_def using xq_base_rexmit [OF e(2)] c1(2) by simp
    show "nseg next_rexmit (xqes c2) (rexmitq (xq c2)) (d @ [x]) NULL" using c1(3) e(4) x(2) by (simp add: c2_def)
    show "\<forall>y. xin (xqes c2) y = xin (xqes c) y" using c1(4) [rule_format, of x] c1(4) e(3) by (simp add: c2_def xin_def)
    have "same_data (xqes c1) (xqes c2)" unfolding c2_def using same_data_upd [of "xqes c1" x e, OF e(2)] by (simp add: frag_body_def)
    with c1(5) show "same_data (xqes c) (xqes c2)" by (rule same_data_trans)
    show "q_rex (xq c2) = q_rex (xq c)" using c1(6) by (simp add: c2_def)
    show "c2 = c\<lparr>xq := xq c2, xqes := xqes c2\<rparr>" unfolding c2_def by (subst c1(7)) (subst (2) c1(7), simp)
    show "\<forall>y\<in>set (s @ u). xqe_next (xelt (xqes c2) y) = xqe_next (xelt (xqes c) y)" using c1(8) e(3) by (auto simp: c2_def)
    show "\<forall>y. xqe_serial (xelt (xqes c2) y) = xqe_serial (xelt (xqes c) y)" using c1(9) [rule_format, of x] c1(9) e(3) by (simp add: c2_def)
  qed
qed

lemma leave_cwindow_rex:
  assumes "xq_base c T s u 0" "x \<in> set s" "d \<noteq> [] \<Longrightarrow> nseg next_rexmit (xqes c) (rexmitq (xq c)) d NULL"
  shows "\<exists>c'. leave_cwindow x c = Some c' \<and> xq_base c' T s u 0 \<and> \<not> xin (xqes c') x \<and>
    (\<forall>y. xin (xqes c') y \<longrightarrow> xin (xqes c) y) \<and> same_data (xqes c) (xqes c') \<and> q_rex (xq c') = q_rex (xq c) \<and>
    (d \<noteq> [] \<longrightarrow> nseg next_rexmit (xqes c') (rexmitq (xq c')) d NULL) \<and> c' = c\<lparr>xq := xq c', xqes := xqes c'\<rparr>"
proof -
  have x: "x \<in> set (s @ u)" using assms(2) by simp
  obtain c' where c': "leave_cwindow x c = Some c'" "xq_base c' T s u 0" "\<not> xin (xqes c') x" "same_elts (xqes c) (xqes c')"
    "\<forall>y. y \<noteq> x \<longrightarrow> xqes c' y = xqes c y" "q_win (xq c') = q_win (xq c)" "c' = c\<lparr>xq := xq c', xqes := xqes c'\<rparr>"
    using leave_cwindow_ex [OF assms(1) x] by blast
  have "\<forall>y. xin (xqes c') y \<longrightarrow> xin (xqes c) y" using c'(3,5) by (metis xin_def xelt_def)
  then show ?thesis using c' same_elts_data [OF c'(4)] q_rex_win [OF c'(6)] assms(3) q_win_fields(3) [OF c'(6)] same_elts_nseg(2) [OF c'(4)]
    by (intro exI [of _ c'] conjI) simp_all
qed

lemma restart_loop_ex:
  assumes "xq_base c T (d @ rest) u 0" "x = first_addr (rest @ u)" "tail = last_addr d" "cnt = of_nat (length d)"
    "d \<noteq> [] \<Longrightarrow> nseg next_rexmit (xqes c) (rexmitq (xq c)) d NULL" "\<forall>y\<in>set d. \<not> xin (xqes c) y"
  shows "\<exists>c'. restart_loop x tail cnt c = Some (of_nat (length (d @ rest)), c') \<and> xq_base c' T (d @ rest) u 0 \<and>
    (d @ rest \<noteq> [] \<longrightarrow> nseg next_rexmit (xqes c') (rexmitq (xq c')) (d @ rest) NULL) \<and>
    (\<forall>y\<in>set (d @ rest). \<not> xin (xqes c') y) \<and> same_data (xqes c) (xqes c') \<and> q_rex (xq c') = q_rex (xq c) \<and>
    c' = c\<lparr>xq := xq c', xqes := xqes c'\<rparr> \<and> (d @ rest = [] \<longrightarrow> c' = c)"
  using assms
proof (induction rest arbitrary: c d x tail cnt)
  case Nil
  have "x = NULL \<or> x = first_unsent (xq c)" using Nil xq_baseD(3) [OF Nil(1)] by simp
  then show ?case using Nil by (intro exI [of _ c]) (simp add: restart_loop.simps)
next
  case (Cons y rest)
  note b = xq_baseD [OF Cons.prems(1)]
  have x: "x = y" "y \<in> set (d @ y # rest)" using Cons.prems(2) by simp_all
  obtain e where e: "xget y (xqes c) = Some e" "y \<noteq> NULL" using xq_base_elem [OF Cons.prems(1), of y] by auto
  have nu: "y \<noteq> first_unsent (xq c)" using b(2,3) e(2) by (cases u) auto
  have len: "length d < 65536" using xq_base_length [OF Cons.prems(1)] b(10) by simp
  have cnt: "cnt + 1 = 1 \<longleftrightarrow> d = []"
  proof -
    have "cnt = 0 \<longleftrightarrow> length d = 0" unfolding Cons.prems(4) using len of_nat_inverse [of "length d" "0 :: u32"] by auto
    then show ?thesis by simp
  qed
  obtain c1 where c1: "leave_cwindow y c = Some c1" "xq_base c1 T (d @ y # rest) u 0" "\<not> xin (xqes c1) y"
    "\<forall>z. xin (xqes c1) z \<longrightarrow> xin (xqes c) z" "same_data (xqes c) (xqes c1)" "q_rex (xq c1) = q_rex (xq c)"
    "d \<noteq> [] \<longrightarrow> nseg next_rexmit (xqes c1) (rexmitq (xq c1)) d NULL" "c1 = c\<lparr>xq := xq c1, xqes := xqes c1\<rparr>"
    using leave_cwindow_rex [OF Cons.prems(1) x(2), of d] Cons.prems(5) by blast
  have dd: "y \<notin> set d" "set d \<subseteq> set (d @ y # rest)" "distinct d" using b(2) by auto
  obtain c2 where c2: "(do { c \<leftarrow> (if d = [] then Some (c1\<lparr>xq := (xq c1)\<lparr>rexmitq := y\<rparr>\<rparr>)
             else xset (last_addr d) (\<lambda>e. e\<lparr>next_rexmit := y\<rparr>) c1);
        xset y (\<lambda>e. e\<lparr>next_rexmit := NULL\<rparr>) c }) = Some c2" "xq_base c2 T (d @ y # rest) u 0"
      "nseg next_rexmit (xqes c2) (rexmitq (xq c2)) (d @ [y]) NULL" "\<forall>z. xin (xqes c2) z = xin (xqes c1) z"
      "same_data (xqes c1) (xqes c2)" "q_rex (xq c2) = q_rex (xq c1)" "c2 = c1\<lparr>xq := xq c2, xqes := xqes c2\<rparr>"
    using rexmit_link [OF c1(2) x(2) dd] c1(7) by blast
  obtain e2 where e2: "xget y (xqes c2) = Some e2" "xqes c2 y = Some e2" using xq_base_elem [OF c2(2), of y] by auto
  have nx: "xqe_next e2 = first_addr (rest @ u)"
  proof -
    have "nseg xqe_next (xqes c2) (xq_head (xq c2)) (d @ y # (rest @ u)) NULL" using xq_baseD(1) [OF c2(2)] by simp
    from nseg_split [OF this] have "nseg xqe_next (xqes c2) (xqe_next e2) (rest @ u) NULL"
      using e2(2) by (auto simp del: nseg_append)
    then show ?thesis by (rule nseg_first)
  qed
  have step: "restart_loop x tail cnt c = restart_loop (xqe_next e2) y (cnt + 1) c2"
  proof -
    obtain c1' where m: "(if cnt + 1 = 1 then Some (c1\<lparr>xq := (xq c1)\<lparr>rexmitq := y\<rparr>\<rparr>)
        else xset (last_addr d) (\<lambda>e. e\<lparr>next_rexmit := y\<rparr>) c1) = Some c1'" "xset y (\<lambda>e. e\<lparr>next_rexmit := NULL\<rparr>) c1' = Some c2"
      using c2(1) unfolding cnt by (auto simp: bind_eq_Some_conv)
    show ?thesis unfolding x(1) Cons.prems(3)
      by (subst restart_loop.simps)
        (use nu e(2) in \<open>simp only: c1(1) m e2(1) Option.bind.simps(2) if_False de_Morgan_disj not_False_eq_True simp_thms\<close>)
  qed
  have "\<exists>c'. restart_loop (xqe_next e2) y (cnt + 1) c2 = Some (of_nat (length ((d @ [y]) @ rest)), c') \<and> xq_base c' T ((d @ [y]) @ rest) u 0 \<and>
    ((d @ [y]) @ rest \<noteq> [] \<longrightarrow> nseg next_rexmit (xqes c') (rexmitq (xq c')) ((d @ [y]) @ rest) NULL) \<and>
    (\<forall>y\<in>set ((d @ [y]) @ rest). \<not> xin (xqes c') y) \<and> same_data (xqes c2) (xqes c') \<and> q_rex (xq c') = q_rex (xq c2) \<and>
    c' = c2\<lparr>xq := xq c', xqes := xqes c'\<rparr> \<and> ((d @ [y]) @ rest = [] \<longrightarrow> c' = c2)"
  proof (rule Cons.IH)
    show "\<forall>z\<in>set (d @ [y]). \<not> xin (xqes c2) z" using c2(4) c1(3,4) Cons.prems(6) by auto
    show "cnt + 1 = of_nat (length (d @ [y]))" using Cons.prems(4) by simp
  qed (use c2(2,3) nx in simp_all)
  then obtain c' where c': "restart_loop (xqe_next e2) y (cnt + 1) c2 = Some (of_nat (length (d @ y # rest)), c')"
    "xq_base c' T (d @ y # rest) u 0" "nseg next_rexmit (xqes c') (rexmitq (xq c')) (d @ y # rest) NULL"
    "\<forall>z\<in>set (d @ y # rest). \<not> xin (xqes c') z" "same_data (xqes c2) (xqes c')" "q_rex (xq c') = q_rex (xq c2)"
    "c' = c2\<lparr>xq := xq c', xqes := xqes c'\<rparr>" by auto
  have "c' = c\<lparr>xq := xq c', xqes := xqes c'\<rparr>"
    by (subst c'(7), subst c2(7), subst c1(8), simp)
  moreover have "same_data (xqes c) (xqes c')" using c1(5) c2(5) c'(5) same_data_trans by blast
  ultimately show ?case using c' step c1(6) c2(6) by (intro exI [of _ c']) simp
qed

text \<open>How many packets a restart sends.\<close>

definition restart_blast :: "addr list \<Rightarrow> addr list \<Rightarrow> nat" where
  "restart_blast s u = (if s = [] then min 1 (length u) else min 2 (length s))"

lemma xmitq_restart_ex:
  assumes ok: "xq_ok c T s u r" and idle: "blast_size (xq c) = 0" and n: "n = restart_blast s u"
  shows "\<exists>c' ps. rpc__dg_xmitq_restart c = Some c' \<and> call_frame c c' \<and> sent_pkts c' = sent_pkts c @ ps \<and>
    (if s @ u = [] \<or> xc_state c \<noteq> Cs_final
     then ps = [] \<and> xq_ok c' T s u s \<and> blast_size (xq c') = of_nat n
     else xq_ok c' T (if s = [] then take 1 u else s) (if s = [] then drop 1 u else u) [] \<and> blast_size (xq c') = 0 \<and>
       sends c (take n (s @ u)) ps \<and> (\<forall>y\<in>set (s @ u). xin (xqes c') y \<longleftrightarrow> y \<in> set (take n (s @ u)))) \<and>
    (s @ u \<noteq> [] \<and> xc_state c \<noteq> Cs_final \<longrightarrow> xc_signals c' = xc_signals c + 1) \<and>
    (xc_state c \<noteq> Cs_final \<longrightarrow> (\<forall>y\<in>set (s @ u). \<not> xin (xqes c') y))"
proof -
  note d = xq_okD [OF ok]
  note b = xq_baseD [OF d(1)]
  have x: "xq_head (xq c) = first_addr (s @ u)" using nseg_first [OF b(1)] .
  obtain c1 where c1: "restart_loop (xq_head (xq c)) NULL 0 c = Some (of_nat (length s), c1)" "xq_base c1 T s u 0"
    "s \<noteq> [] \<longrightarrow> nseg next_rexmit (xqes c1) (rexmitq (xq c1)) s NULL" "\<forall>y\<in>set s. \<not> xin (xqes c1) y"
    "same_data (xqes c) (xqes c1)" "q_rex (xq c1) = q_rex (xq c)" "c1 = c\<lparr>xq := xq c1, xqes := xqes c1\<rparr>" "s = [] \<longrightarrow> c1 = c"
    using restart_loop_ex [of c T "[]" s u "xq_head (xq c)" NULL 0] d(1) x by auto
  note q1 = q_rex_fields [OF c1(6)]
  have len: "length s < 65536" using xq_base_length [OF d(1)] b(10) by simp
  define m where "m = (if (of_nat (length s) :: u32) = 0 \<and> first_unsent (xq c1) \<noteq> NULL then 1 else of_nat (length s) :: u32)"
  have fu: "first_unsent (xq c1) = NULL \<longleftrightarrow> u = []"
    using xq_baseD(3) [OF c1(2)] nseg_elem [OF xq_baseD(1) [OF c1(2)]] by (cases u) auto
  have ls: "unat (of_nat (length s) :: u32) = length s" using len by (simp add: unsigned_of_nat take_bit_nat_eq_self)
  have um: "unat m = (if s = [] then min 1 (length u) else length s)"
  proof -
    have "(of_nat (length s) :: u32) = 0 \<longleftrightarrow> s = []" using ls by auto
    then show ?thesis using ls fu unfolding m_def by (cases u) auto
  qed
  have mb: "(ucast (min m 2) :: u8) = of_nat n" "n < 256" "unat (of_nat n :: u8) = n"
  proof -
    have "unat (min m 2) = n" using um n unfolding restart_blast_def by (auto simp: min_def word_le_nat_alt)
    then have "of_nat (unat (min m 2)) = (of_nat n :: u32)" by simp
    then have "min m 2 = of_nat n" by (simp add: of_nat_unat)
    moreover show k: "n < 256" using n unfolding restart_blast_def by auto
    ultimately show "(ucast (min m 2) :: u8) = of_nat n"
      by (simp add: word_unat_eq_iff unsigned_ucast_eq unsigned_of_nat take_bit_nat_eq_self)
    show "unat (of_nat n :: u8) = n" using k by (simp add: unsigned_of_nat take_bit_nat_eq_self)
  qed
  define c2 where "c2 = c1\<lparr>xq := (xq c1)\<lparr>blast_size := of_nat n\<rparr>\<rparr>"
  have "xq_ok c1 T s u s"
    unfolding xq_ok_def using c1(2-4) b(2) by (cases "s = []") (use c1(8) d in auto)
  then have ok2: "xq_ok c2 T s u s" using xq_ok_cong [of c2 c1] by (simp add: c2_def)
  have f1: "xc_core c1 = xc_core c" "xc_status c1 = xc_status c" "sent_pkts c1 = sent_pkts c"
    by (subst c1(7), simp add: xc_core_def)+
  then have fr: "call_frame c c2" "sent_pkts c2 = sent_pkts c" "xc_state c2 = xc_state c" "blast_size (xq c2) = of_nat n"
    using q1 c1(5) by (simp_all add: call_frame_def c2_def xc_core_def)
  have xi: "\<forall>y\<in>set (s @ u). \<not> xin (xqes c2) y"
    using c1(4) xq_baseD(14) [OF c1(2)] by (auto simp: c2_def)
  have sg: "xc_signals (rpc__dg_call_signal c2) = xc_signals c + 1"
    unfolding rpc__dg_call_signal_def c2_def by (subst c1(7)) simp
  have nz: "n = 0 \<longleftrightarrow> s @ u = []" unfolding n restart_blast_def by (cases u) auto
  have rdy: "RPC_DG_CALL_READY_TO_SEND c2 \<longleftrightarrow> s @ u \<noteq> []"
    unfolding RPC_DG_CALL_READY_TO_SEND_def fr(4) nz [symmetric] using mb(3) by (metis unat_eq_zero word_neq_0_conv)
  have r: "rpc__dg_xmitq_restart c = (if s @ u \<noteq> [] then RPC_DG_START_XMIT c2 else Some c2)"
    using idle unfolding rpc__dg_xmitq_restart_def c1(1) RPC_DG_CALL_READY_TO_SEND_def [of c]
    unfolding Option.bind.simps(2) prod.case Let_def m_def [symmetric] mb(1) c2_def [symmetric] rdy by simp
  show ?thesis
  proof (cases "s @ u = []")
    case True
    then show ?thesis using r fr ok2 by (intro exI [of _ c2] exI [of _ "[]"]) auto
  next
    case False
    have nn: "n = unat (blast_size (xq c2))" using fr(4) mb(3) by simp
    obtain c3 ps where c3: "RPC_DG_START_XMIT c2 = Some c3" "call_frame c2 c3" "sent_pkts c3 = sent_pkts c @ ps"
      "if xc_state c = Cs_final
       then xq_ok c3 T (s @ take (n - length s) u) (drop (n - length s) u) [] \<and> blast_size (xq c3) = 0 \<and> sends c2 (take n (s @ u)) ps \<and>
         (\<forall>y. xin (xqes c3) y \<longleftrightarrow> xin (xqes c2) y \<or> y \<in> set (take n (s @ u)))
       else ps = [] \<and> c3 = rpc__dg_call_signal c2"
      using start_xmit_ex [OF ok2 nn] fr(2,3) by auto
    have k: "s @ take (n - length s) u = (if s = [] then take 1 u else s)" "drop (n - length s) u = (if s = [] then drop 1 u else u)"
      unfolding n restart_blast_def by (cases u; cases s; simp)+
    have sd: "sends c2 (take n (s @ u)) ps = sends c (take n (s @ u)) ps"
      by (rule call_frame_sends [OF fr(1)]) (use xq_base_elem [OF d(1)] in_set_takeD in \<open>metis option.distinct(1)\<close>)
    have bl: "blast_size (xq (rpc__dg_call_signal c2)) = of_nat n" using fr(4) by (simp add: rpc__dg_call_signal_def)
    show ?thesis
    proof (intro exI conjI)
      show "rpc__dg_xmitq_restart c = Some c3" using r False c3(1) by simp
      show "call_frame c c3" using call_frame_trans [OF fr(1) c3(2)] .
      show "if s @ u = [] \<or> xc_state c \<noteq> Cs_final
         then ps = [] \<and> xq_ok c3 T s u s \<and> blast_size (xq c3) = of_nat n
         else xq_ok c3 T (if s = [] then take 1 u else s) (if s = [] then drop 1 u else u) [] \<and> blast_size (xq c3) = 0 \<and>
           sends c (take n (s @ u)) ps \<and> (\<forall>y\<in>set (s @ u). xin (xqes c3) y \<longleftrightarrow> y \<in> set (take n (s @ u)))"
        using c3(4) False bl ok2 xi unfolding k sd by (cases "xc_state c = Cs_final") auto
      show "s @ u \<noteq> [] \<and> xc_state c \<noteq> Cs_final \<longrightarrow> xc_signals c3 = xc_signals c + 1" using c3(4) sg by auto
      show "xc_state c \<noteq> Cs_final \<longrightarrow> (\<forall>y\<in>set (s @ u). \<not> xin (xqes c3) y)"
        using c3(4) xi by (auto simp: rpc__dg_call_signal_def)
    qed (rule c3(3))
  qed
qed

section \<open>Releasing the queue\<close>

lemma xmitq_free_loop_ex:
  assumes "nseg xqe_next (xqes c) (xq_head (xq c)) xs NULL" "distinct xs"
  shows "xmitq_free_loop c = Some (c\<lparr>xq := (xq c)\<lparr>xq_head := NULL\<rparr>, xqes := (\<lambda>y. if y \<in> set xs then None else xqes c y)\<rparr>)"
  using assms
proof (induction xs arbitrary: c)
  case Nil
  then show ?case by (simp add: xmitq_free_loop.simps)
next
  case (Cons x xs)
  then obtain e where e: "xq_head (xq c) = x" "x \<noteq> NULL" "xqes c x = Some e" "nseg xqe_next (xqes c) (xqe_next e) xs NULL" by auto
  let ?c = "c\<lparr>xq := (xq c)\<lparr>xq_head := xqe_next e\<rparr>, xqes := (xqes c)(x := None)\<rparr>"
  have "xmitq_free_loop c = xmitq_free_loop ?c"
    by (subst xmitq_free_loop.simps) (use e in \<open>simp add: xget_def free_xqe_def\<close>)
  also have "\<dots> = Some (?c\<lparr>xq := (xq ?c)\<lparr>xq_head := NULL\<rparr>, xqes := (\<lambda>y. if y \<in> set xs then None else xqes ?c y)\<rparr>)"
    by (rule Cons.IH) (use Cons.prems(2) e(4) nseg_upd [of x xs xqe_next "xqes c" None] in \<open>simp_all del: fun_upd_apply\<close>)
  finally show ?case by (simp add: fun_eq_iff)
qed

lemma xmitq_free_ex:
  assumes ok: "xq_ok c T s u r"
  shows "\<exists>c'. rpc__dg_xmitq_free c = Some c' \<and> xqes c' = (\<lambda>y. if y \<in> set (s @ u) then None else xqes c y) \<and>
    xq_head (xq c') = NULL \<and> first_unsent (xq c') = NULL \<and> xq_tail (xq c') = NULL \<and> rexmitq (xq c') = NULL \<and>
    \<not> awaiting_ack (xq c') \<and> blast_size (xq c') = 0 \<and> sent_pkts c' = sent_pkts c \<and> xc_core c' = xc_core c"
proof -
  note b = xq_baseD [OF xq_okD(1) [OF ok]]
  let ?c = "c\<lparr>xq := (xq c)\<lparr>awaiting_ack := False\<rparr>\<rparr>"
  have "xmitq_free_loop ?c = Some (?c\<lparr>xq := (xq ?c)\<lparr>xq_head := NULL\<rparr>, xqes := (\<lambda>y. if y \<in> set (s @ u) then None else xqes ?c y)\<rparr>)"
    by (rule xmitq_free_loop_ex) (use b(1,2) in simp_all)
  then show ?thesis by (simp add: rpc__dg_xmitq_free_def xc_core_def cong: if_cong)
qed

section \<open>Fragments and packets\<close>

text \<open>What the elements carry, and what a packet carries.\<close>

definition frags :: "xheap \<Rightarrow> addr list \<Rightarrow> (nat \<times> u8 list) list" where
  "frags h xs = map (\<lambda>x. (xnum h x, frag_body (xelt h x))) xs"

definition pkt_frag :: "dg_pkt \<Rightarrow> nat \<times> u8 list" where
  "pkt_frag p = (unat (hdr_fragnum (dp_hdr p)), dp_body p)"

lemma frags_simps [simp]: "frags h [] = []" "frags h (x # xs) = (xnum h x, frag_body (xelt h x)) # frags h xs"
  "frags h (xs @ ys) = frags h xs @ frags h ys" "length (frags h xs) = length xs" "frags h (take n xs) = take n (frags h xs)"
  "frags h (drop n xs) = drop n (frags h xs)"
  by (simp_all add: frags_def take_map drop_map)

lemma frags_cong: "(\<And>x. x \<in> set xs \<Longrightarrow> xnum h' x = xnum h x \<and> frag_body (xelt h' x) = frag_body (xelt h x)) \<Longrightarrow> frags h' xs = frags h xs"
  by (simp add: frags_def)

lemma frags_same_data: "same_data h h' \<Longrightarrow> (\<And>x. x \<in> set xs \<Longrightarrow> h x \<noteq> None) \<Longrightarrow> frags h' xs = frags h xs"
  by (rule frags_cong) (auto simp: same_data_def)

lemma xq_base_frags:
  assumes "xq_base c T s u k" "call_frame c c'"
  shows "frags (xqes c') (s @ u) = frags (xqes c) (s @ u)"
proof (rule frags_same_data)
  show "same_data (xqes c) (xqes c')" using assms(2) by (simp add: call_frame_def)
  show "xqes c x \<noteq> None" if "x \<in> set (s @ u)" for x using xq_base_elem [OF assms(1) that] by auto
qed

lemma xq_base_num: "xq_base c T s u k \<Longrightarrow> x \<in> set (s @ u) \<Longrightarrow> xnum (xqes c) x < T"
proof -
  assume a: "xq_base c T s u k" "x \<in> set (s @ u)"
  note b = xq_baseD [OF a(1)]
  show ?thesis
  proof (cases "x \<in> set s")
    case True
    then show ?thesis using b(7) by (auto dest!: bspec)
  next
    case False
    then have "xnum (xqes c) x \<in> set (map (xnum (xqes c)) u)" using a(2) by auto
    then show ?thesis unfolding b(8) by simp
  qed
qed

lemma sends_pkt_frag:
  assumes "xq_base c T s u k" "sends c xs ps" "set xs \<subseteq> set (s @ u)"
  shows "map pkt_frag ps = (if sock_disabled c then [] else frags (xqes c) xs)"
proof (cases "sock_disabled c")
  case True
  then show ?thesis using assms(2) by (simp add: sends_def)
next
  case False
  have "list_all2 (pkt_for c) xs ps" using assms(2) False by (simp add: sends_def)
  then have "map pkt_frag ps = frags (xqes c) xs" using assms(3)
  proof (induction rule: list_all2_induct)
    case (Cons x xs p ps)
    have "xnum (xqes c) x < 65536" using xq_base_num [OF assms(1), of x] Cons.prems xq_baseD(10) [OF assms(1)] by auto
    then have "unat (of_nat (xnum (xqes c) x) :: u16) = xnum (xqes c) x" by (simp add: unsigned_of_nat take_bit_nat_eq_self)
    then show ?case using Cons by (simp add: pkt_frag_def pkt_for_def)
  qed simp
  with False show ?thesis by simp
qed

lemma sends_last:
  assumes "sends c xs ps" "p \<in> set ps"
  shows "\<exists>x\<in>set xs. bit (hdr_flags (dp_hdr p)) 1 \<longleftrightarrow> bit (base_flags (xq c)) 1 \<or> xq_push (xq c) \<and> x = xq_tail (xq c) \<and> bit (base_flags (xq c)) 2"
proof -
  have "list_all2 (pkt_for c) (if sock_disabled c then [] else xs) ps" using assms(1) by (simp add: sends_def)
  then obtain i where "i < length ps" "ps ! i = p" "i < length xs" "pkt_for c (xs ! i) p"
    using assms(2) by (auto simp: in_set_conv_nth list_all2_conv_all_nth split: if_splits)
  then show ?thesis by (intro bexI [of _ "xs ! i"]) (simp_all add: pkt_for_def)
qed

section \<open>The final push\<close>

lemma xq_base_all_sent: "xq_base c T s u k \<Longrightarrow> first_unsent (xq c) = NULL \<longleftrightarrow> u = []"
  using xq_baseD(3) [of c T s u k] xq_base_elem [of c T s u k "hd u"] by (cases u) auto

lemma push_turn_ex:
  assumes ok: "xq_ok c T s u r" and n: "n = unat (blast_size (xq c))"
  shows "\<exists>c' ps. push_turn c = Some (length u \<le> n - length r, c') \<and>
    xq_ok c' T (s @ take (n - length r) u) (drop (n - length r) u) (if n = 0 then r else []) \<and> call_frame c c' \<and>
    sent_pkts c' = sent_pkts c @ ps \<and> sends c (take n (r @ u)) ps"
proof (cases "n = 0")
  case True
  then have "\<not> RPC_DG_CALL_READY_TO_SEND c" using n by (simp add: RPC_DG_CALL_READY_TO_SEND_def unat_0_iff)
  moreover have "first_unsent (xq c) = NULL \<longleftrightarrow> u = []"
    using xq_base_all_sent [OF xq_okD(1) [OF ok]] .
  ultimately show ?thesis using True ok
    by (intro exI [of _ c] exI [of _ "[]"]) (auto simp: push_turn_def sends_def)
next
  case False
  then have "blast_size (xq c) \<noteq> 0" using n by auto
  then have "RPC_DG_CALL_READY_TO_SEND c" by (simp add: RPC_DG_CALL_READY_TO_SEND_def word_neq_0_conv)
  moreover obtain c' ps where c': "rpc__dg_call_xmit c = Some c'"
    "xq_ok c' T (s @ take (n - length r) u) (drop (n - length r) u) []" "xmit_frame c c'" "blast_size (xq c') = 0"
    "sent_pkts c' = sent_pkts c @ ps" "sends c (take n (r @ u)) ps"
    using call_xmit_ex [OF assms] by blast
  moreover have "first_unsent (xq c') = NULL \<longleftrightarrow> length u \<le> n - length r"
    using xq_base_all_sent [OF xq_okD(1) [OF c'(2)]] by simp
  moreover have "call_frame c c'" using c'(3) same_elts_data by (auto simp: xmit_frame_def call_frame_def)
  ultimately show ?thesis using False
    by (intro exI [of _ c'] exI [of _ ps]) (simp add: push_turn_def)
qed

text \<open>The size of the blast of the last push.\<close>

definition push_blast :: "dg_xmitq \<Rightarrow> nat" where
  "push_blast q = (if xq_head q = NULL then 1 else if freqs_out q = 0 then 2 else unat (blast_size q))"

lemma xmitq_push_ex:
  assumes ok: "xq_ok c T s u r" and x: "part_xqe (xq c) = x" "x \<noteq> NULL" "xqes c x = Some e" "xqe_ok e"
    and fresh: "\<not> xqe_in_cwindow e" "x \<notin> set (s @ u)" and T: "Suc T < 65536" and n: "n = push_blast (xq c)"
  shows "\<exists>c1 c' ps. rpc__dg_call_xmitq_push c = Some (length (u @ [x]) \<le> n - length r, c') \<and>
    xq_ok c1 (Suc T) s (u @ [x]) r \<and> xq_push (xq c1) \<and> xq_tail (xq c1) = x \<and> sent_pkts c1 = sent_pkts c \<and>
    frags (xqes c1) (s @ u @ [x]) = frags (xqes c) (s @ u) @ [(T, frag_body e)] \<and>
    base_flags (xq c1) = base_flags (xq c) \<and>
    xq_ok c' (Suc T) (s @ take (n - length r) (u @ [x])) (drop (n - length r) (u @ [x])) (if n = 0 then r else []) \<and>
    call_frame c1 c' \<and> sent_pkts c' = sent_pkts c @ ps \<and> sends c1 (take n (r @ u @ [x])) ps \<and> xc_core c' = xc_core c \<and>
    snd_frag_size (xq c') = snd_frag_size (xq c)"
proof -
  define q where "q = (if xq_head (xq c) = NULL then (xq c)\<lparr>blast_size := 1\<rparr>
              else if freqs_out (xq c) = 0 then (xq c)\<lparr>blast_size := 2\<rparr> else xq c)"
  define c0 where "c0 = c\<lparr>xq := q\<lparr>xq_push := True\<rparr>\<rparr>"
  have c0: "xqes c0 = xqes c" "xq_head (xq c0) = xq_head (xq c)" "first_unsent (xq c0) = first_unsent (xq c)"
    "xq_tail (xq c0) = xq_tail (xq c)" "xq_next_fragnum (xq c0) = xq_next_fragnum (xq c)"
    "base_flags (xq c0) = base_flags (xq c)" "freqs_out (xq c0) = freqs_out (xq c)"
    "cwindow_size (xq c0) = cwindow_size (xq c)" "rexmitq (xq c0) = rexmitq (xq c)"
    "part_xqe (xq c0) = x" "xq_push (xq c0)" "unat (blast_size (xq c0)) = n" "sent_pkts c0 = sent_pkts c" "xc_core c0 = xc_core c"
    "snd_frag_size (xq c0) = snd_frag_size (xq c)"
    using x(1) n by (simp_all add: c0_def q_def push_blast_def xc_core_def)
  have ok0: "xq_ok c0 T s u r" using xq_ok_cong [OF c0(1-9)] ok by simp
  obtain c1 where c1: "rpc__dg_xmitq_append_pp c0 = Some c1" "xq_ok c1 (Suc T) s (u @ [x]) r"
    "xnum (xqes c1) x = T" "frag_body (xelt (xqes c1) x) = frag_body e" "\<forall>y. y \<noteq> x \<longrightarrow> relinked (xqes c) (xqes c1) y"
    "xc_core c1 = xc_core c0" "sent_pkts c1 = sent_pkts c" "xq_push (xq c1)" "unat (blast_size (xq c1)) = n"
    "base_flags (xq c1) = base_flags (xq c)" "snd_frag_size (xq c1) = snd_frag_size (xq c)"
  proof -
    have xe: "xqes c0 x = Some e" using x(3) c0(1) by simp
    obtain c1 where a: "rpc__dg_xmitq_append_pp c0 = Some c1" "xq_ok c1 (Suc T) s (u @ [x]) r"
      "xnum (xqes c1) x = T" "frag_body (xelt (xqes c1) x) = frag_body e" "\<forall>y. y \<noteq> x \<longrightarrow> relinked (xqes c0) (xqes c1) y"
      "xc_core c1 = xc_core c0" "sent_pkts c1 = sent_pkts c0" "xq_push (xq c1) = xq_push (xq c0)" "blast_size (xq c1) = blast_size (xq c0)"
      "xq_push (xq c0) \<longrightarrow> base_flags (xq c1) = base_flags (xq c0)" "snd_frag_size (xq c1) = snd_frag_size (xq c0)"
      using append_pp_ex [OF ok0 c0(10) x(2) xe x(4) fresh T] by blast
    show thesis by (rule that [of c1]) (use a c0 in simp_all)
  qed
  obtain c' ps where c': "push_turn c1 = Some (length (u @ [x]) \<le> n - length r, c')"
    "xq_ok c' (Suc T) (s @ take (n - length r) (u @ [x])) (drop (n - length r) (u @ [x])) (if n = 0 then r else [])"
    "call_frame c1 c'" "sent_pkts c' = sent_pkts c1 @ ps" "sends c1 (take n (r @ u @ [x])) ps"
    using push_turn_ex [OF c1(2) c1(9) [symmetric]] by auto
  have "rpc__dg_call_xmitq_push c = push_turn c1"
    unfolding rpc__dg_call_xmitq_push_def Let_def q_def [symmetric] c0_def [symmetric] c1(1) by simp
  moreover have "frags (xqes c1) (s @ u) = frags (xqes c) (s @ u)"
    using fresh(2) c1(5) relinked_facts(1,5) by (intro frags_cong) metis
  moreover have "xq_tail (xq c1) = x" using xq_baseD(4) [OF xq_okD(1) [OF c1(2)]] by simp
  moreover have "xc_core c' = xc_core c" "snd_frag_size (xq c') = snd_frag_size (xq c)"
    using c'(3) c1(6,11) c0(14) by (simp_all add: call_frame_def)
  ultimately show ?thesis using c' c1 by (intro exI [of _ c1] exI [of _ c'] exI [of _ ps]) simp
qed

section \<open>Properties\<close>

text \<open>
  A call for the witnesses: four fragments have been put on the queue, the first has been
  acknowledged, the second is to be sent again, the third is in the congestion window and the
  fourth is unsent; an element to be appended is at hand.
\<close>

definition sample_elt :: "addr \<Rightarrow> u32 \<Rightarrow> bool \<Rightarrow> u8 list \<Rightarrow> dg_xqe" where
  "sample_elt nx num win body = \<lparr>xqe_next = nx, next_rexmit = NULL, xqe_frag_len = of_nat (length body), xqe_flags = 0,
     xqe_fragnum = num, xqe_serial = 0, xqe_in_cwindow = win, xqe_body = body, xqe_more = []\<rparr>"

definition sample_xmitq :: dg_xmitq where
  "sample_xmitq = \<lparr>xq_head = 0x20, first_unsent = 0x40, xq_tail = 0x40, rexmitq = 0x20, part_xqe = 0x50,
     xq_ptype = 0, xq_seq = 7, awaiting_ack_timestamp = 0, xq_timestamp = 0, rexmit_timeout = 10,
     base_flags = XF_FRAG, base_flags2 = 0, xq_next_fragnum = 4, next_serial_num = 3, last_fack_serial = 1,
     xq_window_size = 8, cwindow_size = 1, xq_rcv_tsdu = 1024, max_snd_tsdu = 1024, max_frag_size = 1024,
     snd_frag_size = 1024, blast_size = 2, max_blast_size = 4, xq_timer = 8, xq_timer_throttle = 1,
     high_cwindow = 2, freqs_out = 1, xq_push = False, awaiting_ack = False, first_fack_seen = False\<rparr>"

definition sample_clock :: clock_state where
  "sample_clock = \<lparr>start_sec = 1000, start_usec = 0, clock_skew = 0, clock_curr = 100, clock_unix_curr = 1020, long_sleep = False\<rparr>"

definition sample_xcall :: dg_xcall where
  "sample_xcall = \<lparr>xq = sample_xmitq,
     xqes = Map.empty(0x20 \<mapsto> sample_elt 0x30 1 False [1], 0x30 \<mapsto> sample_elt 0x40 2 True [2, 2],
       0x40 \<mapsto> sample_elt 0 3 False [3], 0x50 \<mapsto> sample_elt 0x20 9 False [4, 4]),
     xc_state = Cs_final, xc_status = 0, xc_is_server = False, xc_is_private = True, xc_is_cbk = False,
     sock_disabled = False, xc_high_seq = 0, com_timeout_knob = 5, xc_last_rcv = 0, xc_n_resvs = 4, xc_max_resvs = 4,
     xc_now = (1020, 0), xc_clock = sample_clock, xc_signals = 0, sent_pkts = []\<rparr>"

lemma sample_xcall_ok: "xq_ok sample_xcall 4 [0x20, 0x30] [0x40] [0x20]"
proof -
  have h: "xqes sample_xcall = Map.empty(0x20 \<mapsto> sample_elt 0x30 1 False [1], 0x30 \<mapsto> sample_elt 0x40 2 True [2, 2],
       0x40 \<mapsto> sample_elt 0 3 False [3], 0x50 \<mapsto> sample_elt 0x20 9 False [4, 4])" "xq sample_xcall = sample_xmitq"
    by (simp_all add: sample_xcall_def)
  have k: "[3..<4] = [3 :: nat]" by simp
  show ?thesis unfolding xq_ok_def xq_base_def h
    by (simp add: sample_xmitq_def sample_elt_def xnum_def xin_def xask_def xlen_ok_def xqe_ok_def frag_body_def last_addr_def
        RPC_DG_FLAG_IS_SET_def k)
qed

text \<open>
  C9: A blast.  On a well-formed queue with the blast size \<open>n\<close>, \<open>rpc__dg_call_xmit\<close> sends one
  packet each for the first \<open>n\<close> of the elements to be sent again, followed by those not sent
  before, in this order, with their numbers and data; the latter pass from the unsent to the
  unacknowledged part, the retransmission list is emptied, and the queue is well formed again, the
  counts of the congestion window and of the facks asked for included.
\<close>

theorem xmit_blast:
  assumes "xq_ok c T s u r" "\<not> sock_disabled c" "n = unat (blast_size (xq c))"
  shows "\<exists>c' ps. rpc__dg_call_xmit c = Some c' \<and> xq_ok c' T (s @ take (n - length r) u) (drop (n - length r) u) [] \<and>
    blast_size (xq c') = 0 \<and> sent_pkts c' = sent_pkts c @ ps \<and> map pkt_frag ps = take n (frags (xqes c) (r @ u)) \<and>
    frags (xqes c') (s @ u) = frags (xqes c) (s @ u)"
proof -
  note base = xq_okD(1) [OF assms(1)]
  obtain c' ps where c': "rpc__dg_call_xmit c = Some c'"
    "xq_ok c' T (s @ take (n - length r) u) (drop (n - length r) u) []" "xmit_frame c c'" "blast_size (xq c') = 0"
    "sent_pkts c' = sent_pkts c @ ps" "sends c (take n (r @ u)) ps"
    using call_xmit_ex [OF assms(1,3)] by blast
  have "call_frame c c'" using c'(3) same_elts_data by (auto simp: xmit_frame_def call_frame_def)
  then have "frags (xqes c') (s @ u) = frags (xqes c) (s @ u)" by (rule xq_base_frags [OF base])
  moreover have "set (take n (r @ u)) \<subseteq> set (s @ u)" using xq_okD(4) [OF assms(1)] set_take_subset [of n "r @ u"] by auto
  then have "map pkt_frag ps = frags (xqes c) (take n (r @ u))" using sends_pkt_frag [OF base c'(6)] assms(2) by simp
  then have "map pkt_frag ps = take n (frags (xqes c) (r @ u))" by (simp only: frags_simps(5))
  ultimately show ?thesis using c' by blast
qed

lemma sample_facts:
  "\<not> sock_disabled sample_xcall" "unat (blast_size (xq sample_xcall)) = 2" "sent_pkts sample_xcall = []"
  "frags (xqes sample_xcall) [0x20, 0x30, 0x40] = [(1, [1]), (2, [2, 2]), (3, [3])]" "xc_state sample_xcall = Cs_final"
  "xc_status sample_xcall = 0" "part_xqe (xq sample_xcall) = 0x50"
  "xqes sample_xcall 0x50 = Some (sample_elt 0x20 9 False [4, 4])"
  by (simp_all add: sample_xcall_def sample_xmitq_def frags_def xnum_def sample_elt_def frag_body_def)

lemma xmit_blast_witness:
  "\<exists>c' ps. rpc__dg_call_xmit sample_xcall = Some c' \<and> sent_pkts c' = ps \<and> map pkt_frag ps = [(1, [1]), (3, [3])]"
  using xmit_blast [OF sample_xcall_ok sample_facts(1) sample_facts(2) [symmetric]] sample_facts(3,4) by auto

text \<open>
  C20: Appending the partial fragment to a well-formed queue gives it the next number, at the end
  of the unsent part, and keeps the queue well formed; the other elements, what has been sent and
  the retransmission list stay as they are.  The stream is marked as fragmented unless this is the
  last push.
\<close>

theorem xmit_append:
  assumes "xq_ok c T s u r" "part_xqe (xq c) = x" "x \<noteq> NULL" "xqes c x = Some e" "xqe_ok e"
    "\<not> xqe_in_cwindow e" "x \<notin> set (s @ u)" "Suc T < 65536"
  shows "\<exists>c'. rpc__dg_xmitq_append_pp c = Some c' \<and> xq_ok c' (Suc T) s (u @ [x]) r \<and> part_xqe (xq c') = NULL \<and>
    frags (xqes c') (s @ u @ [x]) = frags (xqes c) (s @ u) @ [(T, frag_body e)] \<and> sent_pkts c' = sent_pkts c \<and>
    RPC_DG_FLAG_IS_SET (base_flags (xq c')) XF_FRAG = (RPC_DG_FLAG_IS_SET (base_flags (xq c)) XF_FRAG \<or> \<not> xq_push (xq c))"
proof -
  obtain c' where c': "rpc__dg_xmitq_append_pp c = Some c'" "xq_ok c' (Suc T) s (u @ [x]) r" "part_xqe (xq c') = NULL"
    "xnum (xqes c') x = T" "frag_body (xelt (xqes c') x) = frag_body e" "\<forall>y. y \<noteq> x \<longrightarrow> relinked (xqes c) (xqes c') y"
    "sent_pkts c' = sent_pkts c"
    "RPC_DG_FLAG_IS_SET (base_flags (xq c')) XF_FRAG = (RPC_DG_FLAG_IS_SET (base_flags (xq c)) XF_FRAG \<or> \<not> xq_push (xq c))"
    using append_pp_ex [OF assms] by blast
  moreover have "frags (xqes c') (s @ u) = frags (xqes c) (s @ u)"
    using assms(7) c'(6) relinked_facts(1,5) by (intro frags_cong) metis
  ultimately show ?thesis by (intro exI [of _ c']) simp
qed

lemma xmit_append_witness:
  "\<exists>c'. rpc__dg_xmitq_append_pp sample_xcall = Some c' \<and>
    frags (xqes c') [0x20, 0x30, 0x40, 0x50] = [(1, [1]), (2, [2, 2]), (3, [3]), (4, [4, 4])]"
proof -
  have e: "xqe_ok (sample_elt 0x20 9 False [4, 4])" "\<not> xqe_in_cwindow (sample_elt 0x20 9 False [4, 4])"
    "frag_body (sample_elt 0x20 9 False [4, 4]) = [4, 4]"
    by (simp_all add: sample_elt_def xqe_ok_def frag_body_def)
  show ?thesis using xmit_append [OF sample_xcall_ok sample_facts(7) _ sample_facts(8) e(1,2)] sample_facts(4) e(3) by auto
qed

text \<open>
  C18: The retransmission timer.  When something is on the queue, its last transmission is old
  enough and the peer has not been silent for too long, the timer sends exactly one packet, for the
  oldest fragment not acknowledged, sent before or not (in the final state of the call; in the
  others it prepares this for the call thread and wakes it).  So a fragment that is lost is sent
  again until it is acknowledged.
\<close>

theorem xmit_timer_oldest:
  assumes "xq_ok c T s u r" "s @ u \<noteq> []" "\<not> sock_disabled c" "xc_status c = 0 \<or> xc_status c = rpc_s_call_faulted"
    "rpc__clock_aged (xq_timestamp (xq c)) (rexmit_timeout (xq c)) (xc_clock c)"
    "rpc__dg_xmitq_awaiting_ack_tmo (xq c) (com_timeout_knob c) (xc_clock c) = Some False"
  shows "\<exists>c' ps. rpc__dg_call_xmitq_timer c = Some c' \<and> sent_pkts c' = sent_pkts c @ ps \<and>
    frags (xqes c') (s @ u) = frags (xqes c) (s @ u) \<and>
    (if xc_state c = Cs_final
     then xq_ok c' T (if s = [] then take 1 u else s) (if s = [] then drop 1 u else u) [] \<and>
       map pkt_frag ps = [hd (frags (xqes c) (s @ u))]
     else ps = [] \<and> xq_ok c' T s u (take 1 s) \<and> blast_size (xq c') = 1 \<and> xc_signals c' = xc_signals c + 1)"
proof -
  note base = xq_okD(1) [OF assms(1)]
  obtain c' ps where c': "rpc__dg_call_xmitq_timer c = Some c'" "call_frame c c'" "sent_pkts c' = sent_pkts c @ ps"
    "if xc_state c = Cs_final
     then xq_ok c' T (if s = [] then take 1 u else s) (if s = [] then drop 1 u else u) [] \<and> blast_size (xq c') = 0 \<and>
       sends c (take 1 (s @ u)) ps
     else ps = [] \<and> xq_ok c' T s u (take 1 s) \<and> blast_size (xq c') = 1 \<and> xc_signals c' = xc_signals c + 1"
    using xmitq_timer_ex [OF assms(1,4,2,5,6)] by blast
  have "set (take 1 (s @ u)) \<subseteq> set (s @ u)" by (rule set_take_subset)
  then have "sends c (take 1 (s @ u)) ps \<longrightarrow> map pkt_frag ps = frags (xqes c) (take 1 (s @ u))"
    using sends_pkt_frag [OF base] assms(3) by simp
  moreover have "frags (xqes c) (take 1 (s @ u)) = [hd (frags (xqes c) (s @ u))]" using assms(2) by (cases "s @ u") (simp_all del: frags_simps(3))
  ultimately show ?thesis using c' xq_base_frags [OF base c'(2)]
    by (intro exI [of _ c'] exI [of _ ps] conjI) (auto split: if_splits)
qed

lemma xmit_timer_oldest_witness:
  "\<exists>c' ps. rpc__dg_call_xmitq_timer sample_xcall = Some c' \<and> sent_pkts c' = ps \<and> map pkt_frag ps = [(1, [1])]"
proof -
  have a: "rpc__clock_aged (xq_timestamp (xq sample_xcall)) (rexmit_timeout (xq sample_xcall)) (xc_clock sample_xcall)"
    "rpc__dg_xmitq_awaiting_ack_tmo (xq sample_xcall) (com_timeout_knob sample_xcall) (xc_clock sample_xcall) = Some False"
    by (simp_all add: sample_xcall_def sample_xmitq_def sample_clock_def rpc__clock_aged_def rpc__dg_xmitq_awaiting_ack_tmo_def xq_com_timeout_params_def)
  show ?thesis using xmit_timer_oldest [OF sample_xcall_ok _ sample_facts(1) disjI1 [OF sample_facts(6)] a] sample_facts(3-5) by auto
qed

text \<open>
  C24: Restarting.  When loss has to be inferred and no blast is pending, everything sent and not
  acknowledged leaves the congestion window, and the first one or two of these fragments, or the first
  unsent one when all have been acknowledged, are the blast; a blast that is pending is left as it is,
  and nothing leaves the window.  In the final state the blast is sent at once: its
  fragments are the only ones that join the window.  Otherwise nothing is sent: the fragments wait on the
  retransmission queue, and the call thread is woken when the blast is not empty.
\<close>

theorem xmit_restart:
  assumes "xq_ok c T s u r" "\<not> sock_disabled c"
    and "pending = (blast_size (xq c) \<noteq> 0)" "q = (if pending then r else s)"
    and "n = (if pending then unat (blast_size (xq c)) else if s = [] then min 1 (length u) else min 2 (length s))"
  shows "\<exists>c' ps. rpc__dg_xmitq_restart c = Some c' \<and> sent_pkts c' = sent_pkts c @ ps \<and>
    frags (xqes c') (s @ u) = frags (xqes c) (s @ u) \<and>
    (if xc_state c = Cs_final
     then map pkt_frag ps = take n (frags (xqes c) (q @ u)) \<and> blast_size (xq c') = 0 \<and>
       xq_ok c' T (s @ take (n - length q) u) (drop (n - length q) u) [] \<and>
       (\<forall>y\<in>set (s @ u). xin (xqes c') y \<longleftrightarrow> pending \<and> xin (xqes c) y \<or> y \<in> set (take n (q @ u)))
     else ps = [] \<and> unat (blast_size (xq c')) = n \<and> xq_ok c' T s u q \<and>
       (n \<noteq> 0 \<longrightarrow> xc_signals c' = xc_signals c + 1) \<and>
       (\<forall>y\<in>set (s @ u). xin (xqes c') y \<longleftrightarrow> pending \<and> xin (xqes c) y))"
proof (cases pending)
  case True
  note base = xq_okD(1) [OF assms(1)]
  have n: "q = r" "n = unat (blast_size (xq c))" "RPC_DG_CALL_READY_TO_SEND c"
    using True assms(3-5) by (simp_all add: RPC_DG_CALL_READY_TO_SEND_def word_gt_0)
  obtain c' ps where c': "RPC_DG_START_XMIT c = Some c'" "call_frame c c'" "sent_pkts c' = sent_pkts c @ ps"
    "if xc_state c = Cs_final
     then xq_ok c' T (s @ take (n - length r) u) (drop (n - length r) u) [] \<and> blast_size (xq c') = 0 \<and>
       sends c (take n (r @ u)) ps \<and> (\<forall>y. xin (xqes c') y \<longleftrightarrow> xin (xqes c) y \<or> y \<in> set (take n (r @ u)))
     else ps = [] \<and> c' = rpc__dg_call_signal c"
    using start_xmit_ex [OF assms(1) n(2)] by blast
  have sub: "set (take n (r @ u)) \<subseteq> set (s @ u)" using set_take_subset [of n "r @ u"] xq_okD(4) [OF assms(1)] by auto
  have "map pkt_frag ps = take n (frags (xqes c) (r @ u))" if "xc_state c = Cs_final"
  proof -
    have "sends c (take n (r @ u)) ps" using c'(4) that by (simp only: if_True simp_thms)
    from sends_pkt_frag [OF base this sub] assms(2) show ?thesis by (simp only: if_False frags_simps(5))
  qed
  note sent = this
  have sig: "xqes (rpc__dg_call_signal c) = xqes c" "xq (rpc__dg_call_signal c) = xq c" "xc_signals (rpc__dg_call_signal c) = xc_signals c + 1"
    by (simp_all add: rpc__dg_call_signal_def)
  show ?thesis
  proof (intro exI conjI)
    show "rpc__dg_xmitq_restart c = Some c'" using n(3) c'(1) by (simp add: rpc__dg_xmitq_restart_def)
    show "sent_pkts c' = sent_pkts c @ ps" by (rule c'(3))
    show "frags (xqes c') (s @ u) = frags (xqes c) (s @ u)" by (rule xq_base_frags [OF base c'(2)])
    show "if xc_state c = Cs_final
     then map pkt_frag ps = take n (frags (xqes c) (q @ u)) \<and> blast_size (xq c') = 0 \<and>
       xq_ok c' T (s @ take (n - length q) u) (drop (n - length q) u) [] \<and>
       (\<forall>y\<in>set (s @ u). xin (xqes c') y \<longleftrightarrow> pending \<and> xin (xqes c) y \<or> y \<in> set (take n (q @ u)))
     else ps = [] \<and> unat (blast_size (xq c')) = n \<and> xq_ok c' T s u q \<and>
       (n \<noteq> 0 \<longrightarrow> xc_signals c' = xc_signals c + 1) \<and>
       (\<forall>y\<in>set (s @ u). xin (xqes c') y \<longleftrightarrow> pending \<and> xin (xqes c) y)"
    proof (cases "xc_state c = Cs_final")
      case True
      then show ?thesis using c'(4) sent [OF True] \<open>pending\<close> unfolding n(1) if_P [OF True] by blast
    next
      case False
      have "ps = []" "c' = rpc__dg_call_signal c" using c'(4) unfolding if_not_P [OF False] by blast+
      then show ?thesis using \<open>pending\<close> sig n(2) assms(1) unfolding n(1) if_not_P [OF False] by simp
    qed
  qed
next
  case False
  note base = xq_okD(1) [OF assms(1)]
  let ?n = "restart_blast s u"
  have n: "q = s" "n = ?n" "blast_size (xq c) = 0"
    using False assms(3-5) by (simp_all add: restart_blast_def)
  obtain c' ps where c': "rpc__dg_xmitq_restart c = Some c'" "call_frame c c'" "sent_pkts c' = sent_pkts c @ ps"
    "if s @ u = [] \<or> xc_state c \<noteq> Cs_final
     then ps = [] \<and> xq_ok c' T s u s \<and> blast_size (xq c') = of_nat ?n
     else xq_ok c' T (if s = [] then take 1 u else s) (if s = [] then drop 1 u else u) [] \<and> blast_size (xq c') = 0 \<and>
       sends c (take ?n (s @ u)) ps \<and> (\<forall>y\<in>set (s @ u). xin (xqes c') y \<longleftrightarrow> y \<in> set (take ?n (s @ u)))"
    "s @ u \<noteq> [] \<and> xc_state c \<noteq> Cs_final \<longrightarrow> xc_signals c' = xc_signals c + 1"
    "xc_state c \<noteq> Cs_final \<longrightarrow> (\<forall>y\<in>set (s @ u). \<not> xin (xqes c') y)"
    using xmitq_restart_ex [OF assms(1) n(3) refl] by blast
  have sub: "set (take ?n (s @ u)) \<subseteq> set (s @ u)" by (rule set_take_subset)
  have k: "s @ take (n - length s) u = (if s = [] then take 1 u else s)" "drop (n - length s) u = (if s = [] then drop 1 u else u)"
    "unat (of_nat n :: u8) = n" "n \<noteq> 0 \<Longrightarrow> s @ u \<noteq> []"
    unfolding n restart_blast_def by (cases u; cases s; simp add: unsigned_of_nat take_bit_nat_eq_self min_def)+
  show ?thesis
  proof (intro exI conjI)
    show "rpc__dg_xmitq_restart c = Some c'" by (rule c'(1))
    show "sent_pkts c' = sent_pkts c @ ps" by (rule c'(3))
    show "frags (xqes c') (s @ u) = frags (xqes c) (s @ u)" by (rule xq_base_frags [OF base c'(2)])
    show "if xc_state c = Cs_final
     then map pkt_frag ps = take n (frags (xqes c) (q @ u)) \<and> blast_size (xq c') = 0 \<and>
       xq_ok c' T (s @ take (n - length q) u) (drop (n - length q) u) [] \<and>
       (\<forall>y\<in>set (s @ u). xin (xqes c') y \<longleftrightarrow> pending \<and> xin (xqes c) y \<or> y \<in> set (take n (q @ u)))
     else ps = [] \<and> unat (blast_size (xq c')) = n \<and> xq_ok c' T s u q \<and>
       (n \<noteq> 0 \<longrightarrow> xc_signals c' = xc_signals c + 1) \<and>
       (\<forall>y\<in>set (s @ u). xin (xqes c') y \<longleftrightarrow> pending \<and> xin (xqes c) y)"
    proof (cases "s @ u \<noteq> [] \<and> xc_state c = Cs_final")
      case True
      then have f: "\<not> (s @ u = [] \<or> xc_state c \<noteq> Cs_final)" by simp
      from c'(4) [unfolded if_not_P [OF f]] have sent: "sends c (take ?n (s @ u)) ps" by blast
      have "map pkt_frag ps = take n (frags (xqes c) (s @ u))"
        using sends_pkt_frag [OF base sent sub] assms(2) n(2) by (simp only: if_False frags_simps(5))
      then show ?thesis using c'(4) False unfolding if_not_P [OF f] if_P [OF conjunct2 [OF True]] n(1) k(1,2) n(2) [symmetric] by blast
    next
      case e: False
      then have f: "s @ u = [] \<or> xc_state c \<noteq> Cs_final" by blast
      have g: "ps = []" "xq_ok c' T s u s" "blast_size (xq c') = of_nat n" using c'(4) n(2) unfolding if_P [OF f] by blast+
      show ?thesis
      proof (cases "s @ u = []")
        case True
        then have "n = 0" using n(2) by (simp add: restart_blast_def)
        then show ?thesis using g True n(1) by simp
      next
        case ne: False
        then have "xc_state c \<noteq> Cs_final" using f by blast
        then show ?thesis using g c'(5,6) ne False k(3) n(1) by simp
      qed
    qed
  qed
qed

lemma xmit_restart_witness:
  "\<exists>c' ps. rpc__dg_xmitq_restart (sample_xcall\<lparr>xq := sample_xmitq\<lparr>blast_size := 0\<rparr>\<rparr>) = Some c' \<and> sent_pkts c' = ps \<and>
    map pkt_frag ps = [(1, [1]), (2, [2, 2])]"
proof -
  let ?c = "sample_xcall\<lparr>xq := sample_xmitq\<lparr>blast_size := 0\<rparr>\<rparr>"
  have q: "xq sample_xcall = sample_xmitq" "xqes ?c = xqes sample_xcall" "xc_state ?c = Cs_final" "\<not> sock_disabled ?c" "sent_pkts ?c = []"
    by (simp_all add: sample_xcall_def)
  have "xq_ok ?c 4 [0x20, 0x30] [0x40] [0x20]"
    using sample_xcall_ok xq_ok_cong [of ?c sample_xcall 4 "[0x20, 0x30]" "[0x40]" "[0x20]"] q(1) by simp
  from xmit_restart [OF this q(4) refl refl refl] show ?thesis using q sample_facts(4) by auto
qed

text \<open>
  C23: The final push appends the partial fragment and sends a blast at once; it answers that all
  has been sent exactly when the blast reaches the end of the queue.  Of the packets of the final
  push exactly those for the last fragment of the stream carry the last-fragment flag, when the
  stream is fragmented.
\<close>

theorem xmit_push:
  assumes "xq_ok c T s u r" "part_xqe (xq c) = x" "x \<noteq> NULL" "xqes c x = Some e" "xqe_ok e"
    "\<not> xqe_in_cwindow e" "x \<notin> set (s @ u)" "Suc T < 65536" "n = push_blast (xq c)" "\<not> sock_disabled c"
    "RPC_DG_FLAG_IS_SET (base_flags (xq c)) XF_FRAG" "\<not> RPC_DG_FLAG_IS_SET (base_flags (xq c)) XF_LAST_FRAG"
  shows "\<exists>c' ps. rpc__dg_call_xmitq_push c = Some (Suc (length u) \<le> n - length r, c') \<and>
    xq_ok c' (Suc T) (s @ take (n - length r) (u @ [x])) (drop (n - length r) (u @ [x])) (if n = 0 then r else []) \<and>
    sent_pkts c' = sent_pkts c @ ps \<and> map pkt_frag ps = take n (frags (xqes c) (r @ u) @ [(T, frag_body e)]) \<and>
    (\<forall>p\<in>set ps. bit (hdr_flags (dp_hdr p)) 1 \<longleftrightarrow> fst (pkt_frag p) = T)"
proof -
  obtain c1 c' ps where c': "rpc__dg_call_xmitq_push c = Some (length (u @ [x]) \<le> n - length r, c')"
    "xq_ok c1 (Suc T) s (u @ [x]) r" "xq_push (xq c1)" "xq_tail (xq c1) = x"
    "frags (xqes c1) (s @ u @ [x]) = frags (xqes c) (s @ u) @ [(T, frag_body e)]" "base_flags (xq c1) = base_flags (xq c)"
    "xq_ok c' (Suc T) (s @ take (n - length r) (u @ [x])) (drop (n - length r) (u @ [x])) (if n = 0 then r else [])"
    "sent_pkts c' = sent_pkts c @ ps" "sends c1 (take n (r @ u @ [x])) ps" "xc_core c' = xc_core c" "call_frame c1 c'"
    using xmitq_push_ex [OF assms(1-9)] by blast
  note base = xq_okD(1) [OF assms(1)] and base1 = xq_okD(1) [OF c'(2)]
  have rs: "set r \<subseteq> set s" using xq_okD(4) [OF assms(1)] .
  have sub: "set (take n (r @ u @ [x])) \<subseteq> set (s @ u @ [x])" using set_take_subset [of n "r @ u @ [x]"] rs by auto
  have dis: "\<not> sock_disabled c1" using c'(10,11) assms(10) by (simp add: call_frame_def xc_core_def)
  have xx: "(xnum (xqes c1) x, frag_body (xelt (xqes c1) x)) = (T, frag_body e)" using c'(5) by simp
  have su: "frags (xqes c1) s @ frags (xqes c1) u = frags (xqes c) s @ frags (xqes c) u" using c'(5) by simp
  have "\<forall>y\<in>set s. xnum (xqes c1) y = xnum (xqes c) y \<and> frag_body (xelt (xqes c1) y) = frag_body (xelt (xqes c) y)"
    "frags (xqes c1) u = frags (xqes c) u"
    using su by (auto simp: frags_def append_eq_append_conv)
  then have fr: "frags (xqes c1) (r @ u @ [x]) = frags (xqes c) (r @ u) @ [(T, frag_body e)]"
    using rs xx by (auto simp: frags_def)
  have mp: "map pkt_frag ps = take n (frags (xqes c) (r @ u) @ [(T, frag_body e)])"
    using sends_pkt_frag [OF base1 c'(9) sub] dis fr by (simp only: if_False frags_simps(5))
  have "bit (hdr_flags (dp_hdr p)) 1 \<longleftrightarrow> fst (pkt_frag p) = T" if p: "p \<in> set ps" for p
  proof -
    have l2: "list_all2 (pkt_for c1) (take n (r @ u @ [x])) ps" using c'(9) dis by (simp add: sends_def)
    then obtain i where i: "i < length ps" "ps ! i = p" "i < length (take n (r @ u @ [x]))" "pkt_for c1 (take n (r @ u @ [x]) ! i) p"
      using p by (auto simp: in_set_conv_nth list_all2_conv_all_nth)
    define y where "y = take n (r @ u @ [x]) ! i"
    have y: "y \<in> set (s @ u @ [x])" "pkt_for c1 y p" using sub nth_mem [OF i(3)] i(4) by (auto simp: y_def)
    have f: "fst (pkt_frag p) = xnum (xqes c1) y"
    proof -
      have "xnum (xqes c1) y < 65536" using xq_base_num [OF base1 y(1)] assms(8) by simp
      then show ?thesis using y(2) by (simp add: pkt_for_def pkt_frag_def unsigned_of_nat take_bit_nat_eq_self)
    qed
    have "xnum (xqes c1) y = T \<longleftrightarrow> y = x"
    proof
      assume t: "xnum (xqes c1) y = T"
      show "y = x"
      proof (rule ccontr)
        assume "y \<noteq> x"
        then have "y \<in> set (s @ u)" using y(1) by simp
        then have "(T, frag_body (xelt (xqes c1) y)) \<in> set (frags (xqes c) (s @ u))"
          using t su [symmetric] by (auto simp: frags_def)
        then obtain z where "z \<in> set (s @ u)" "xnum (xqes c) z = T" by (auto simp: frags_def)
        then show False using xq_base_num [OF base] by blast
      qed
    qed (use xx in simp)
    moreover have "bit (base_flags (xq c)) 2" "\<not> bit (base_flags (xq c)) 1" using assms(11,12) by (simp_all add: flag_is_set_bit)
    ultimately show ?thesis using y(2) c'(3,4,6) f by (simp add: pkt_for_def)
  qed
  then show ?thesis using c'(1,7,8) mp by (intro exI [of _ c'] exI [of _ ps]) simp
qed

lemma xmit_push_witness:
  "\<exists>c' ps. rpc__dg_call_xmitq_push sample_xcall = Some (False, c') \<and> sent_pkts c' = ps \<and> map pkt_frag ps = [(1, [1]), (3, [3])]"
proof -
  have e: "xqe_ok (sample_elt 0x20 9 False [4, 4])" "\<not> xqe_in_cwindow (sample_elt 0x20 9 False [4, 4])"
    by (simp_all add: sample_elt_def xqe_ok_def frag_body_def)
  have "push_blast (xq sample_xcall) = 2" "RPC_DG_FLAG_IS_SET (base_flags (xq sample_xcall)) XF_FRAG"
    "\<not> RPC_DG_FLAG_IS_SET (base_flags (xq sample_xcall)) XF_LAST_FRAG"
    by (simp_all add: sample_xcall_def sample_xmitq_def push_blast_def RPC_DG_FLAG_IS_SET_def)
  then show ?thesis
    using xmit_push [OF sample_xcall_ok sample_facts(7) _ sample_facts(8) e(1,2) _ _ _ sample_facts(1), of 2] sample_facts(3,4) by auto
qed

text \<open>
  C31: Reinitialising a queue gives every element on it back exactly once and no other, and leaves
  an empty well-formed queue, on which the next stream starts with the number 0.
\<close>

theorem xmit_reinit:
  assumes "xq_ok c T s u r"
  shows "\<exists>c'. RPC_DG_XMITQ_REINIT c = Some c' \<and> xqes c' = (\<lambda>y. if y \<in> set (s @ u) then None else xqes c y) \<and>
    xq_ok c' 0 [] [] [] \<and> sent_pkts c' = sent_pkts c"
proof -
  note base = xq_okD(1) [OF assms]
  have re: "xq_ok (d\<lparr>xq := rpc__dg_xmitq_reinit q\<rparr>) 0 [] [] []" for d q
    by (simp add: xq_ok_def xq_base_def rpc__dg_xmitq_reinit_def last_addr_def)
  show ?thesis
  proof (cases "s @ u = []")
    case True
    then have "xq_head (xq c) = NULL" using nseg_first [OF xq_baseD(1) [OF base]] by simp
    then show ?thesis using True re [of "xq c" c] by (simp add: RPC_DG_XMITQ_REINIT_def)
  next
    case False
    then have h: "xq_head (xq c) \<noteq> NULL" using nseg_first [OF xq_baseD(1) [OF base]] xq_base_elem [OF base hd_in_set [OF False]] False
      by (auto simp: first_addr_def)
    obtain c1 where "rpc__dg_xmitq_free c = Some c1" "xqes c1 = (\<lambda>y. if y \<in> set (s @ u) then None else xqes c y)"
      "sent_pkts c1 = sent_pkts c" using xmitq_free_ex [OF assms] by blast
    then show ?thesis using h re [of "xq c1" c1]
      by (intro exI [of _ "c1\<lparr>xq := rpc__dg_xmitq_reinit (xq c1)\<rparr>"]) (simp add: RPC_DG_XMITQ_REINIT_def)
  qed
qed

lemma xmit_reinit_witness:
  "\<exists>c'. RPC_DG_XMITQ_REINIT sample_xcall = Some c' \<and> xqes c' 0x20 = None \<and> xqes c' 0x40 = None \<and> xqes c' 0x50 \<noteq> None"
  using xmit_reinit [OF sample_xcall_ok] sample_facts(8) by auto

end
