(* ===== verification/DgFack.thy ===== *)
theory DgFack
  imports DgXmitq
begin

text \<open>
  The acknowledgements at the sender: \<open>rpc__dg_fack_common\<close>, \<open>do_fack_body\<close> and
  \<open>do_selective_ack\<close> of \<open>ncklib/transport/dg/dglsn.c\<close>, the processing of fack and nocall packets on
  the transmit queue of a call.

  \<open>None\<close> is here also the \<open>abort\<close> of \<open>CHECK_INITIALIZED\<close> and a read of the selective ack mask
  beyond the words the packet has.
\<close>

section \<open>The packet\<close>

text \<open>
  The fields read: of the header, swapped already, the fragment number and the length of the body;
  the body as it is in the packet, \<open>fp_foreign\<close> when its integers have the other byte order.
\<close>

record dg_fackpkt =
  fp_fragnum :: u16
  fp_len :: u16
  fp_foreign :: bool
  fp_vers :: u8
  fp_window :: u16
  fp_max_tsdu :: u32
  fp_max_frag_size :: u32
  fp_serial :: u16
  fp_selack_len :: u16
  fp_selack :: "u32 list"

definition SWAB_16 :: "u16 \<Rightarrow> u16" where
  "SWAB_16 w = drop_bit 8 w OR push_bit 8 w"

definition SWAB_32 :: "u32 \<Rightarrow> u32" where
  "SWAB_32 w = drop_bit 24 w OR (drop_bit 8 w AND 0x0000ff00) OR (push_bit 8 w AND 0x00ff0000) OR push_bit 24 w"

definition local16 :: "dg_fackpkt \<Rightarrow> u16 \<Rightarrow> u16" where
  "local16 f w = (if fp_foreign f then SWAB_16 w else w)"

definition local32 :: "dg_fackpkt \<Rightarrow> u32 \<Rightarrow> u32" where
  "local32 f w = (if fp_foreign f then SWAB_32 w else w)"

definition RPC_DG_SERIAL_IS_LT :: "u16 \<Rightarrow> u16 \<Rightarrow> bool" where
  "RPC_DG_SERIAL_IS_LT a b \<longleftrightarrow> sint (a - b) < 0"

definition RPC_DG_SERIAL_IS_LTE :: "u16 \<Rightarrow> u16 \<Rightarrow> bool" where
  "RPC_DG_SERIAL_IS_LTE a b \<longleftrightarrow> sint (a - b) \<le> 0"

definition RPC_DG_FRAG_SIZE_TO_NUM_PKTS :: "u32 \<Rightarrow> u32" where
  "RPC_DG_FRAG_SIZE_TO_NUM_PKTS frag_size =
     (let body = (ucast frag_size :: u64) - 80; n = (ucast (body div 4240) :: u32)
      in if body > ucast n * 4240 then n + 1 else n)"

text \<open>
  The blast that induced the fack: \<open>lfs\<close> is \<open>last_fack_serial\<close>, the result is the new \<open>curr_serial\<close>
  and \<open>window_incr\<close>.  The comparison with the successor is done in more than 16 bits.
\<close>

definition TRACK_CURRENT_BLAST :: "u16 \<Rightarrow> dg_xqe \<Rightarrow> bool \<Rightarrow> u16 \<times> u32 \<Rightarrow> u16 \<times> u32" where
  "TRACK_CURRENT_BLAST lfs e lost si =
     (let (curr, incr) = si;
          ser = xqe_serial e;
          asks = \<not> RPC_DG_FLAG_IS_SET (xqe_flags e) XF_NO_FACK \<and> ser \<noteq> lfs
      in if uint ser = uint curr + 1 then (ser, if asks then 0 else if \<not> lost then incr + 1 else incr)
         else if RPC_DG_SERIAL_IS_LT curr ser \<and> RPC_DG_SERIAL_IS_LTE ser lfs
         then (ser, if lost \<or> asks then 0 else 1)
         else (curr, incr))"

section \<open>The selective acknowledgement\<close>

text \<open>The local variables of \<open>do_selective_ack\<close>, with the counters passed by reference.\<close>

record selack_st =
  sa_call :: dg_xcall
  sa_prev :: addr
  sa_curr :: addr
  sa_rtail :: addr
  sa_serial :: u16
  sa_incr :: u32
  sa_rcnt :: u32

definition FRAG_GOT_ACKED :: "u32 \<Rightarrow> bool" where
  "FRAG_GOT_ACKED m \<longleftrightarrow> m AND 1 \<noteq> 0"

text \<open>A fragment acknowledged: it leaves the counts and the queue.\<close>

definition selack_acked :: "selack_st \<Rightarrow> selack_st option" where
  "selack_acked st =
     (let x = sa_curr st; c = sa_call st in do {
        e \<leftarrow> xget x (xqes c);
        let (ser, incr) = TRACK_CURRENT_BLAST (last_fack_serial (xq c)) e False (sa_serial st, sa_incr st);
        let c = (if xqe_in_cwindow e
                 then c\<lparr>xq := (xq c)\<lparr>cwindow_size := cwindow_size (xq c) - 1,
                        freqs_out := (if \<not> RPC_DG_FLAG_IS_SET (xqe_flags e) XF_NO_FACK \<or> RPC_DG_FLAG_IS_SET (xqe_flags e) XF_LAST_FRAG
                                      then freqs_out (xq c) - 1 else freqs_out (xq c))\<rparr>\<rparr>
                 else c);
        let next = xqe_next e;
        c \<leftarrow> (if x = xq_head (xq c) then Some (c\<lparr>xq := (xq c)\<lparr>xq_head := next\<rparr>\<rparr>)
             else xset (sa_prev st) (\<lambda>e. e\<lparr>xqe_next := next\<rparr>) c);
        let c = (if x = xq_tail (xq c) then c\<lparr>xq := (xq c)\<lparr>xq_tail := sa_prev st\<rparr>\<rparr> else c);
        c \<leftarrow> free_xqe x c;
        Some (st\<lparr>sa_call := c, sa_curr := next, sa_serial := ser, sa_incr := incr\<rparr>) })"

text \<open>Putting the current fragment at the end of the retransmission list.\<close>

definition rexmit_enqueue :: "selack_st \<Rightarrow> selack_st option" where
  "rexmit_enqueue st =
     (let x = sa_curr st; c = sa_call st in do {
        c \<leftarrow> (if rexmitq (xq c) = NULL then Some (c\<lparr>xq := (xq c)\<lparr>rexmitq := x\<rparr>\<rparr>)
             else xset (sa_rtail st) (\<lambda>e. e\<lparr>next_rexmit := x\<rparr>) c);
        c \<leftarrow> xset x (\<lambda>e. e\<lparr>next_rexmit := NULL\<rparr>) c;
        Some (st\<lparr>sa_call := c, sa_rtail := x, sa_rcnt := sa_rcnt st + 1\<rparr>) })"

text \<open>A fragment not acknowledged: lost if it was sent before the one that induced the fack.\<close>

definition selack_missing :: "u16 \<Rightarrow> selack_st \<Rightarrow> selack_st option" where
  "selack_missing fragnum st =
     (let x = sa_curr st; c = sa_call st in do {
        e \<leftarrow> xget x (xqes c);
        st \<leftarrow> (if RPC_DG_SERIAL_IS_LT (xqe_serial e) (last_fack_serial (xq c)) then do {
                let (ser, incr) = TRACK_CURRENT_BLAST (last_fack_serial (xq c)) e True (sa_serial st, sa_incr st);
                let asks = (\<not> RPC_DG_FLAG_IS_SET (xqe_flags e) XF_NO_FACK);
                let incr = (if xqe_in_cwindow e \<and> asks \<and> RPC_DG_FRAGNUM_IS_LT (ucast (xqe_fragnum e)) fragnum then 0 else incr);
                c \<leftarrow> (if xqe_in_cwindow e then do {
                       c \<leftarrow> xset x (\<lambda>e. e\<lparr>xqe_in_cwindow := False\<rparr>) c;
                       Some (c\<lparr>xq := (xq c)\<lparr>cwindow_size := cwindow_size (xq c) - 1,
                               freqs_out := (if asks then freqs_out (xq c) - 1 else freqs_out (xq c))\<rparr>\<rparr>) }
                     else Some c);
                rexmit_enqueue (st\<lparr>sa_call := c, sa_serial := ser, sa_incr := incr\<rparr>) }
              else Some st);
        e \<leftarrow> xget x (xqes (sa_call st));
        Some (st\<lparr>sa_prev := x, sa_curr := xqe_next e\<rparr>) })"

text \<open>
  The bits of one word, \<open>n\<close> of them left, \<open>final\<close> says whether it is the last; \<open>num\<close> is \<open>selack_fragnum\<close>.
\<close>

fun selack_bits :: "nat \<Rightarrow> u32 \<Rightarrow> bool \<Rightarrow> u16 \<Rightarrow> u32 \<Rightarrow> selack_st \<Rightarrow> (u32 \<times> selack_st) option" where
  "selack_bits 0 m final fragnum num st = Some (num, st)"
| "selack_bits (Suc n) m final fragnum num st =
     (if m = 0 \<and> final \<or> sa_curr st = NULL then Some (num, st)
      else do {
        e \<leftarrow> xget (sa_curr st) (xqes (sa_call st));
        st \<leftarrow> (if num \<noteq> xqe_fragnum e then Some st
              else if FRAG_GOT_ACKED m then selack_acked st
              else selack_missing fragnum st);
        selack_bits n (drop_bit 1 m) final fragnum (num + 1) st })"

text \<open>The words of the mask: \<open>n\<close> are left of \<open>len\<close>.\<close>

fun selack_words :: "nat \<Rightarrow> nat \<Rightarrow> dg_fackpkt \<Rightarrow> u32 \<Rightarrow> selack_st \<Rightarrow> selack_st option" where
  "selack_words 0 len f num st = Some st"
| "selack_words (Suc n) len f num st =
     (let i = len - Suc n in
      if i < length (fp_selack f) then do {
        (num, st) \<leftarrow> selack_bits 32 (local32 f (fp_selack f ! i)) (n = 0) (fp_fragnum f) num st;
        if sa_curr st = NULL then Some st else selack_words n len f num st }
      else None)"

text \<open>The rest of what has been sent: again what is older than the fack.\<close>

partial_function (option) selack_rest :: "selack_st \<Rightarrow> selack_st option" where
  "selack_rest st =
     (let x = sa_curr st; c = sa_call st in
      if x = first_unsent (xq c) then Some st
      else do {
        e \<leftarrow> xget x (xqes c);
        st \<leftarrow> (if RPC_DG_SERIAL_IS_LTE (xqe_serial e) (last_fack_serial (xq c)) then do {
                c \<leftarrow> leave_cwindow x c;
                rexmit_enqueue (st\<lparr>sa_call := c\<rparr>) }
              else Some st);
        e \<leftarrow> xget x (xqes (sa_call st));
        selack_rest (st\<lparr>sa_curr := xqe_next e\<rparr>) })"

text \<open>The result holds the call and the two counters.\<close>

definition do_selective_ack :: "dg_fackpkt \<Rightarrow> u16 \<Rightarrow> u32 \<Rightarrow> dg_xcall \<Rightarrow> (u32 \<times> u32 \<times> dg_xcall) option" where
  "do_selective_ack f curr_serial incr c =
     (if xq_head (xq c) = NULL then Some (incr, 0, c)
      else
        let len = unat (local16 f (fp_selack_len f)) in do {
        st \<leftarrow> selack_words len len f (ucast (fp_fragnum f) + 1)
               \<lparr>sa_call = c, sa_prev = NULL, sa_curr = xq_head (xq c), sa_rtail = NULL, sa_serial = curr_serial,
                sa_incr = incr, sa_rcnt = 0\<rparr>;
        st \<leftarrow> selack_rest st;
        Some (sa_incr st, sa_rcnt st, sa_call st) })"

section \<open>The fack\<close>

text \<open>
  \<open>do_fack_body\<close>.  Here \<open>granted_resvs\<close> is what the packet pool answers to the request of
  \<open>resv\<close> packets.
\<close>

definition fack_snd_frag_size :: "dg_fackpkt \<Rightarrow> dg_xmitq \<Rightarrow> u32" where
  "fack_snd_frag_size f q =
     (let our_min = min (max_snd_tsdu q) (max_frag_size q);
          fsize = min our_min (min (local32 f (fp_max_tsdu f)) (local32 f (fp_max_frag_size f))) AND NOT 7
      in if fsize = 0 then 1024 else fsize)"

definition fack_set_frag_size :: "pool_view \<Rightarrow> u32 \<Rightarrow> dg_xcall \<Rightarrow> dg_xcall" where
  "fack_set_frag_size pv fsize c =
     (if xc_n_resvs c \<ge> xc_max_resvs c then c\<lparr>xq := (xq c)\<lparr>snd_frag_size := fsize\<rparr>\<rparr>
      else if xq_push (xq c) then c
      else if ucast (xc_n_resvs c) = RPC_DG_FRAG_SIZE_TO_NUM_PKTS fsize then c\<lparr>xq := (xq c)\<lparr>snd_frag_size := fsize\<rparr>\<rparr>
      else case granted_resvs pv of
        Some n \<Rightarrow> c\<lparr>xq := (xq c)\<lparr>snd_frag_size := fsize\<rparr>, xc_n_resvs := n\<rparr>
      | None \<Rightarrow> c)"

definition do_fack_body :: "pool_view \<Rightarrow> dg_fackpkt \<Rightarrow> u16 \<Rightarrow> u32 \<Rightarrow> dg_xcall \<Rightarrow> (u32 \<times> u32 \<times> dg_xcall) option" where
  "do_fack_body pv f curr_serial incr c =
     (if fp_vers f \<noteq> 1 then Some (incr, 0, c)
      else
        let c = c\<lparr>xq := (xq c)\<lparr>xq_window_size := local16 f (fp_window f)\<rparr>\<rparr>;
            fsize = fack_snd_frag_size f (xq c) in do {
        (incr, rcnt, c) \<leftarrow> (if fp_len f > 12 then do_selective_ack f curr_serial incr c else Some (incr, 0, c));
        let c = fack_set_frag_size pv fsize c;
        let q = xq c;
        if xq_window_size q > 2 then
          if snd_frag_size q = 0 then None
          else Some (incr, rcnt, c\<lparr>xq := q\<lparr>xq_window_size := ucast (push_bit 10 (ucast (xq_window_size q) :: u32) div snd_frag_size q)\<rparr>\<rparr>)
        else Some (incr, rcnt, c) })"

text \<open>The fragments before the one named, and it: off the queue.\<close>

partial_function (option) fack_inclusive :: "dg_fackpkt \<Rightarrow> bool \<Rightarrow> u16 \<Rightarrow> u32 \<Rightarrow> dg_xcall \<Rightarrow> (u16 \<times> u32 \<times> dg_xcall) option" where
  "fack_inclusive f using_selacks curr_serial incr c =
     (let x = xq_head (xq c) in
      if x = first_unsent (xq c) then Some (curr_serial, incr, c)
      else do {
        e \<leftarrow> xget x (xqes c);
        if \<not> RPC_DG_FRAGNUM_IS_LTE (ucast (xqe_fragnum e)) (fp_fragnum f) then Some (curr_serial, incr, c)
        else do {
          let (ser, incr) = (if using_selacks then TRACK_CURRENT_BLAST (last_fack_serial (xq c)) e False (curr_serial, incr)
                             else (curr_serial, incr + 1));
          let c = (if xqe_in_cwindow e
                   then c\<lparr>xq := (xq c)\<lparr>cwindow_size := cwindow_size (xq c) - 1,
                          freqs_out := (if \<not> RPC_DG_FLAG_IS_SET (xqe_flags e) XF_NO_FACK then freqs_out (xq c) - 1
                                        else freqs_out (xq c))\<rparr>\<rparr>
                   else c);
          c \<leftarrow> free_xqe x (c\<lparr>xq := (xq c)\<lparr>xq_head := xqe_next e\<rparr>\<rparr>);
          fack_inclusive f using_selacks ser incr c } })"

text \<open>
  The adjustment of the limit of the blast size; the throttle is incremented once by the
  comparison of \<open>MIN\<close> and once more by its result.
\<close>

definition raise_throttle :: "dg_xmitq \<Rightarrow> dg_xmitq" where
  "raise_throttle q =
     q\<lparr>xq_timer_throttle := (if xq_timer_throttle q + 1 < 1000 then xq_timer_throttle q + 2 else 1000)\<rparr>"

definition fack_adjust :: "u32 \<Rightarrow> dg_xmitq \<Rightarrow> dg_xmitq" where
  "fack_adjust rexmit_cnt q =
     (let q = (if rexmit_cnt > 0 then
                 let q = (if max_blast_size q > 4 then raise_throttle (q\<lparr>max_blast_size := max_blast_size q - 2\<rparr>) else q)
                 in q\<lparr>xq_timer := xq_timer_throttle q * 8, high_cwindow := 0\<rparr>
               else if xq_timer q \<noteq> 0 then q\<lparr>xq_timer := xq_timer q - 1\<rparr> else q)
      in if xq_timer q = 0 then
           if ucast (high_cwindow q) < xq_window_size q
           then q\<lparr>max_blast_size := (if uint (max_blast_size q) + 2 < 8 then max_blast_size q + 2 else 8),
                  xq_timer := xq_timer_throttle q * 8\<rparr>
           else let q = raise_throttle q in q\<lparr>xq_timer := xq_timer_throttle q * 8, high_cwindow := 0\<rparr>
         else q)"

text \<open>The size of the next blast before it is cut down to what is ready.\<close>

definition fack_blast :: "u32 \<Rightarrow> dg_xmitq \<Rightarrow> int" where
  "fack_blast incr q =
     (let b = uint (max (min (ucast (blast_size q) + 2 * incr) (ucast (max_blast_size q))) 2) in
      if uint (cwindow_size q) + b > uint (xq_window_size q)
      then max (uint (xq_window_size q) - uint (cwindow_size q)) 0 else b)"

text \<open>What is ready: the result is \<open>unsigned32\<close>, the fragment number is converted to \<open>signed16\<close>.\<close>

definition fack_ready :: "u32 \<Rightarrow> dg_xcall \<Rightarrow> u32 option" where
  "fack_ready rexmit_cnt c =
     (if first_unsent (xq c) = NULL then Some rexmit_cnt
      else do {
        e \<leftarrow> xget (first_unsent (xq c)) (xqes c);
        Some (rexmit_cnt + word_of_int (uint (xq_next_fragnum (xq c)) - sint (ucast (xqe_fragnum e) :: u16))) })"

text \<open>The result says whether there is data to be sent.\<close>

definition rpc__dg_fack_common :: "pool_view \<Rightarrow> dg_fackpkt \<Rightarrow> dg_xcall \<Rightarrow> (bool \<times> dg_xcall) option" where
  "rpc__dg_fack_common pv f c = do {
     let (now, c) = call_stamp c;
     let c = c\<lparr>xc_last_rcv := now\<rparr>;
     let first_fack = (\<not> first_fack_seen (xq c));
     let using_selacks = (fp_len f > 12 \<and> fp_vers f = 1);
     let curr_serial = (if using_selacks then last_fack_serial (xq c) else 0);
     let c = c\<lparr>xq := (xq c)\<lparr>first_fack_seen := True, awaiting_ack := False, rexmitq := NULL,
               last_fack_serial := (if using_selacks then local16 f (fp_serial f) else last_fack_serial (xq c))\<rparr>\<rparr>;
     (curr_serial, incr, c) \<leftarrow> fack_inclusive f using_selacks curr_serial 0 c;
     let c = (if xq_head (xq c) = NULL then c\<lparr>xq := (xq c)\<lparr>xq_tail := NULL\<rparr>\<rparr> else c);
     (incr, rcnt, c) \<leftarrow>
       (if fp_len f > 0 then if using_selacks then do_fack_body pv f curr_serial incr c else None
        else Some (incr, 0, c));
     let blast = fack_blast incr (xq c);
     let c = c\<lparr>xq := fack_adjust rcnt (xq c)\<rparr>;
     ready \<leftarrow> fack_ready rcnt c;
     let c = c\<lparr>xq := (xq c)\<lparr>blast_size := (if ready < word_of_int blast then ucast ready else word_of_int blast)\<rparr>\<rparr>;
     let sent_data = RPC_DG_CALL_READY_TO_SEND c;
     c \<leftarrow> (if \<not> xc_is_private c
             \<and> (sent_data \<or> first_fack \<and> xq_next_fragnum (xq c) = 1 \<and> \<not> xc_is_cbk c \<and> xc_state c = Cs_xmit)
          then RPC_DG_START_XMIT c else Some c);
     Some (sent_data, if xq_window_size (xq c) > 0 then c\<lparr>xq := (xq c)\<lparr>rexmit_timeout := RPC_CLOCK_SEC 2\<rparr>\<rparr> else c) }"

declare selack_rest.simps [code] fack_inclusive.simps [code]

section \<open>Removing an element\<close>

lemma relinked_cong: "xelt h' y = xelt h y \<Longrightarrow> relinked h h' y"
  unfolding relinked_def by (rule exI [of _ "xqe_next (xelt h y)"], rule exI [of _ "next_rexmit (xelt h y)"]) simp

lemma xq_remove:
  assumes base: "xq_base c T (a @ x # b) u 0"
    and h: "xqes c' = (if a = [] then xqes c
      else (xqes c)(last a \<mapsto> (xelt (xqes c) (last a))\<lparr>xqe_next := first_addr (b @ u)\<rparr>))(x := None)"
    and hd: "xq_head (xq c') = (if a = [] then first_addr (b @ u) else xq_head (xq c))"
    and q: "xq_tail (xq c') = last_addr (a @ b @ u)" "first_unsent (xq c') = first_unsent (xq c)"
      "xq_next_fragnum (xq c') = xq_next_fragnum (xq c)" "base_flags (xq c') = base_flags (xq c)"
      "cwindow_size (xq c') = cwindow_size (xq c) - (if xin (xqes c) x then 1 else 0)"
      "freqs_out (xq c') = freqs_out (xq c) - (if xin (xqes c) x \<and> xask (xqes c) x then 1 else 0)"
  shows "xq_base c' T (a @ b) u 0" "\<forall>y. y \<noteq> x \<longrightarrow> relinked (xqes c) (xqes c') y"
    "\<forall>y. y \<noteq> x \<longrightarrow> (xqes c' y = None \<longleftrightarrow> xqes c y = None)" "\<forall>y. y \<noteq> x \<longrightarrow> y \<notin> set a \<longrightarrow> xqes c' y = xqes c y"
    "\<forall>y. y \<noteq> x \<longrightarrow> next_rexmit (xelt (xqes c') y) = next_rexmit (xelt (xqes c) y)"
proof -
  note d = xq_baseD [OF base]
  let ?h = "xqes c" and ?h' = "xqes c'"
  have dx: "x \<notin> set (a @ b @ u)" "distinct (a @ b @ u)" using d(2) by auto
  have seg: "nseg xqe_next ?h (xq_head (xq c)) a x" "nseg xqe_next ?h (xqe_next (xelt ?h x)) (b @ u) NULL"
  proof -
    have "nseg xqe_next ?h (xq_head (xq c)) (a @ x # (b @ u)) NULL" using d(1) by simp
    from nseg_split [OF this] show "nseg xqe_next ?h (xq_head (xq c)) a x" "nseg xqe_next ?h (xqe_next (xelt ?h x)) (b @ u) NULL"
      by (auto simp: xelt_def simp del: nseg_append)
  qed
  have nx: "xqe_next (xelt ?h x) = first_addr (b @ u)" using nseg_first [OF seg(2)] .
  have la: "last a \<in> set a \<and> last a \<noteq> x \<and> ?h (last a) = Some (xelt ?h (last a)) \<and> last a \<noteq> NULL" if "a \<noteq> []"
    using xq_base_elem [OF base, of "last a"] that dx by auto
  show rl: "\<forall>y. y \<noteq> x \<longrightarrow> relinked ?h ?h' y"
  proof (intro allI impI)
    fix y assume y: "y \<noteq> x"
    show "relinked ?h ?h' y"
    proof (cases "a \<noteq> [] \<and> y = last a")
      case True
      then have "xelt ?h' y = (xelt ?h y)\<lparr>xqe_next := first_addr (b @ u)\<rparr>" using y by (simp add: h xelt_def)
      then show ?thesis by (rule relinkedI(1))
    next
      case False
      then have "xelt ?h' y = xelt ?h y" using y by (auto simp: h xelt_def)
      then show ?thesis by (rule relinked_cong)
    qed
  qed
  show "\<forall>y. y \<noteq> x \<longrightarrow> (?h' y = None \<longleftrightarrow> ?h y = None)" using la by (auto simp: h)
  show "\<forall>y. y \<noteq> x \<longrightarrow> y \<notin> set a \<longrightarrow> ?h' y = ?h y" using la by (auto simp: h)
  show "\<forall>y. y \<noteq> x \<longrightarrow> next_rexmit (xelt ?h' y) = next_rexmit (xelt ?h y)" using la by (auto simp: h xelt_def)
  have seg': "nseg xqe_next ?h' (xq_head (xq c')) (a @ b @ u) NULL"
  proof (cases "a = []")
    case True
    then show ?thesis using seg(2) nx dx nseg_upd [of x "b @ u" xqe_next ?h None] by (simp add: h hd del: nseg_append fun_upd_apply)
  next
    case False
    then obtain a' where a': "a = a' @ [last a]" by (metis append_butlast_last_id)
    define t where "t = last a"
    have t: "?h t = Some (xelt ?h t)" "t \<noteq> NULL" "t \<noteq> x" "t \<notin> set (b @ u)" "t \<notin> set a'" "x \<notin> set a'" "a = a' @ [t]"
      using la [OF False] dx a' unfolding t_def [symmetric] by (auto simp: )
    have h'': "?h' = (?h(t \<mapsto> (xelt ?h t)\<lparr>xqe_next := first_addr (b @ u)\<rparr>))(x := None)" using False by (simp add: h t_def)
    have "nseg xqe_next ?h (xq_head (xq c)) a' t" using seg(1) unfolding t(7) by auto
    then have "nseg xqe_next ?h' (xq_head (xq c)) a' t" unfolding h'' using t by (simp del: fun_upd_apply)
    moreover have "nseg xqe_next ?h' t [t] (first_addr (b @ u))" using t(2,3) by (simp add: h'')
    moreover have "nseg xqe_next ?h' (first_addr (b @ u)) (b @ u) NULL" unfolding h'' using seg(2) nx dx t(4) by (simp del: nseg_append fun_upd_apply)
    moreover have "xq_head (xq c') = xq_head (xq c)" unfolding hd if_not_P [OF False] ..
    ultimately show ?thesis unfolding t(7) append.assoc nseg_append by metis
  qed
  have rs: "\<forall>y\<in>set (a @ b @ u). relinked ?h ?h' y" using rl dx(1) by metis
  have rs': "\<forall>y\<in>set (a @ b). relinked ?h ?h' y" "\<forall>y\<in>set u. relinked ?h ?h' y" using rs by auto
  show "xq_base c' T (a @ b) u 0" unfolding xq_base_def
  proof (intro conjI)
    show "nseg xqe_next ?h' (xq_head (xq c')) ((a @ b) @ u) NULL" using seg' by (simp only: append.assoc)
    show "\<forall>y\<in>set ((a @ b) @ u). xlen_ok (xelt ?h' y)"
      using d(5) relinked_facts(4) [OF bspec [OF rs]] by auto
    have "sorted_wrt (<) (map (xnum ?h) (a @ b))" using d(6) by (auto simp: sorted_wrt_append)
    then show "sorted_wrt (<) (map (xnum ?h') (a @ b))" unfolding relinked_lists(1) [OF rs'(1), symmetric] .
    show "\<forall>y\<in>set (a @ b). xnum ?h' y + length u < T"
      using d(7) relinked_facts(1) [OF bspec [OF rs'(1)]] by auto
    show "map (xnum ?h') u = [T - length u..<T]" using d(8) relinked_lists(1) [OF rs'(2)] by simp
    show "\<forall>y\<in>set u. \<not> xin ?h' y" using d(14) relinked_facts(2) [OF bspec [OF rs'(2)]] by auto
    show "RPC_DG_FLAG_IS_SET (base_flags (xq c')) XF_FRAG \<or> (\<forall>y\<in>set ((a @ b) @ u). xask ?h' y)"
      using d(15) relinked_facts(3) [OF bspec [OF rs]] q(4) by auto
    show "cwindow_size (xq c') + of_nat 0 = of_nat (length (filter (xin ?h') ((a @ b) @ u)))"
      using d(12) q(5) relinked_lists(2) [OF rs] by simp
    show "freqs_out (xq c') = of_nat (length (filter (\<lambda>x. xin ?h' x \<and> xask ?h' x) ((a @ b) @ u)))"
      using d(13) q(6) relinked_lists(3) [OF rs] by simp
  qed (use d(3,9-11) dx(2) q in simp_all)
qed

section \<open>The inclusive part\<close>

text \<open>The fragments a fack names, before wrap-around is excluded.\<close>

definition named :: "xheap \<Rightarrow> u16 \<Rightarrow> addr \<Rightarrow> bool" where
  "named h n x \<longleftrightarrow> RPC_DG_FRAGNUM_IS_LTE (of_nat (xnum h x)) n"

text \<open>While the head is taken off, the tail is only put right at the end.\<close>

definition tailed :: "dg_xcall \<Rightarrow> addr list \<Rightarrow> dg_xcall" where
  "tailed c xs = c\<lparr>xq := (xq c)\<lparr>xq_tail := last_addr xs\<rparr>\<rparr>"

lemma tailed_simps [simp]: "xqes (tailed c xs) = xqes c" "xq_head (xq (tailed c xs)) = xq_head (xq c)"
  "first_unsent (xq (tailed c xs)) = first_unsent (xq c)" "xq_tail (xq (tailed c xs)) = last_addr xs"
  "xq_next_fragnum (xq (tailed c xs)) = xq_next_fragnum (xq c)" "base_flags (xq (tailed c xs)) = base_flags (xq c)"
  "cwindow_size (xq (tailed c xs)) = cwindow_size (xq c)" "freqs_out (xq (tailed c xs)) = freqs_out (xq c)"
  by (simp_all add: tailed_def)

definition q_inc :: "dg_xmitq \<Rightarrow> dg_xmitq" where
  "q_inc q = q\<lparr>xq_head := NULL, cwindow_size := 0, freqs_out := 0\<rparr>"

lemma q_inc_fields:
  assumes "q_inc q' = q_inc q"
  shows "xq_tail q' = xq_tail q" "rexmitq q' = rexmitq q" "first_unsent q' = first_unsent q"
    "part_xqe q' = part_xqe q" "xq_next_fragnum q' = xq_next_fragnum q" "base_flags q' = base_flags q" "xq_push q' = xq_push q"
    "blast_size q' = blast_size q" "last_fack_serial q' = last_fack_serial q" "max_blast_size q' = max_blast_size q"
    "snd_frag_size q' = snd_frag_size q" "max_snd_tsdu q' = max_snd_tsdu q" "max_frag_size q' = max_frag_size q"
  using arg_cong [OF assms, of xq_tail] arg_cong [OF assms, of first_unsent] arg_cong [OF assms, of rexmitq]
    arg_cong [OF assms, of part_xqe] arg_cong [OF assms, of xq_next_fragnum] arg_cong [OF assms, of base_flags]
    arg_cong [OF assms, of xq_push] arg_cong [OF assms, of blast_size] arg_cong [OF assms, of last_fack_serial]
    arg_cong [OF assms, of max_blast_size] arg_cong [OF assms, of snd_frag_size] arg_cong [OF assms, of max_snd_tsdu]
    arg_cong [OF assms, of max_frag_size]
  by (simp_all add: q_inc_def)

lemma ucast_of_unat: "(ucast w :: 'b::len word) = of_nat (unat w)"
  by simp

lemma fack_inclusive_ex:
  assumes "xq_base (tailed c (s @ u)) T s u 0"
  shows "\<exists>ser' incr' c'. fack_inclusive f us ser incr c = Some (ser', incr', c') \<and>
    xq_base (tailed c' (dropWhile (named (xqes c) (fp_fragnum f)) s @ u)) T (dropWhile (named (xqes c) (fp_fragnum f)) s) u 0 \<and>
    xqes c' = (\<lambda>y. if y \<in> set (takeWhile (named (xqes c) (fp_fragnum f)) s) then None else xqes c y) \<and>
    q_inc (xq c') = q_inc (xq c) \<and> c' = c\<lparr>xq := xq c', xqes := xqes c'\<rparr>"
  using assms
proof (induction s arbitrary: c ser incr)
  case Nil
  then have "xq_head (xq c) = first_unsent (xq c)"
    using nseg_first [OF xq_baseD(1) [OF Nil]] xq_baseD(3) [OF Nil] by simp
  then show ?case using Nil
    by (intro exI [of _ ser] exI [of _ incr] exI [of _ c]) (simp add: fack_inclusive.simps Let_def)
next
  case (Cons x s)
  note d = xq_baseD [OF Cons.prems]
  have x: "xq_head (xq c) = x" using nseg_first [OF d(1)] by simp
  obtain e where e: "xget x (xqes c) = Some e" "xqes c x = Some e" "xelt (xqes c) x = e" "x \<noteq> NULL"
    using xq_base_elem [OF Cons.prems, of x] by auto
  have nu: "x \<noteq> first_unsent (xq c)" using d(2,3) e(4) by (cases u) auto
  have nm: "RPC_DG_FRAGNUM_IS_LTE (ucast (xqe_fragnum e)) (fp_fragnum f) \<longleftrightarrow> named (xqes c) (fp_fragnum f) x"
    by (simp add: named_def xnum_def e(3))
  show ?case
  proof (cases "named (xqes c) (fp_fragnum f) x")
    case False
    have "fack_inclusive f us ser incr c = Some (ser, incr, c)"
      by (subst fack_inclusive.simps) (simp add: Let_def x nu e(1) nm False)
    then show ?thesis using False Cons.prems by (intro exI [of _ ser] exI [of _ incr] exI [of _ c]) simp
  next
    case True
    define si where "si = (if us then TRACK_CURRENT_BLAST (last_fack_serial (xq c)) e False (ser, incr) else (ser, incr + 1))"
    define c0 where "c0 = (if xqe_in_cwindow e
                   then c\<lparr>xq := (xq c)\<lparr>cwindow_size := cwindow_size (xq c) - 1,
                          freqs_out := (if \<not> RPC_DG_FLAG_IS_SET (xqe_flags e) XF_NO_FACK then freqs_out (xq c) - 1
                                        else freqs_out (xq c))\<rparr>\<rparr>
                   else c)"
    have c0: "xqes c0 = xqes c" "xq_head (xq c0) = x" by (simp_all add: c0_def x)
    define c1 where "c1 = c0\<lparr>xq := (xq c0)\<lparr>xq_head := xqe_next e\<rparr>, xqes := (xqes c)(x := None)\<rparr>"
    have nx: "xqe_next e = first_addr (s @ u)"
    proof -
      have "nseg xqe_next (xqes c) (xq_head (xq c)) ([] @ x # (s @ u)) NULL" using d(1) by simp
      from nseg_split [OF this] have "nseg xqe_next (xqes c) (xqe_next e) (s @ u) NULL"
        using e(2) by (auto simp del: nseg_append)
      then show ?thesis by (rule nseg_first)
    qed
    have b1: "xq_base (tailed c1 (s @ u)) T s u 0"
      using xq_remove(1) [of "tailed c ((x # s) @ u)" T "[]" x s u "tailed c1 (s @ u)"] Cons.prems nx e(3)
      by (auto simp: c1_def c0_def xin_def xask_def)
    have step: "fack_inclusive f us ser incr c = fack_inclusive f us (fst si) (snd si) c1"
      by (subst fack_inclusive.simps)
        (simp add: Let_def x nu e(1,4) nm True si_def [symmetric] c0_def [symmetric] free_xqe_def c0(1) c1_def xget_def e(2) split_beta)
    have k1: "q_inc (xq c1) = q_inc (xq c)" "c1 = c\<lparr>xq := xq c1, xqes := xqes c1\<rparr>" "xqes c1 = (xqes c)(x := None)"
      by (simp_all add: c1_def c0_def q_inc_def)
    have same: "\<forall>y\<in>set s. named (xqes c1) (fp_fragnum f) y = named (xqes c) (fp_fragnum f) y"
      using d(2) by (auto simp: k1(3) named_def xnum_def xelt_def)
    then have w: "dropWhile (named (xqes c1) (fp_fragnum f)) s = dropWhile (named (xqes c) (fp_fragnum f)) s"
      "takeWhile (named (xqes c1) (fp_fragnum f)) s = takeWhile (named (xqes c) (fp_fragnum f)) s"
      using dropWhile_cong [OF refl, of s "named (xqes c1) (fp_fragnum f)"] takeWhile_cong [OF refl, of s "named (xqes c1) (fp_fragnum f)"] by blast+
    obtain ser' incr' c' where c': "fack_inclusive f us (fst si) (snd si) c1 = Some (ser', incr', c')"
      "xq_base (tailed c' (dropWhile (named (xqes c) (fp_fragnum f)) s @ u)) T (dropWhile (named (xqes c) (fp_fragnum f)) s) u 0"
      "xqes c' = (\<lambda>y. if y \<in> set (takeWhile (named (xqes c) (fp_fragnum f)) s) then None else xqes c1 y)"
      "q_inc (xq c') = q_inc (xq c1)" "c' = c1\<lparr>xq := xq c', xqes := xqes c'\<rparr>"
      using Cons.IH [OF b1, of "fst si" "snd si"] unfolding w by blast
    have "c' = c\<lparr>xq := xq c', xqes := xqes c'\<rparr>" by (subst c'(5), subst k1(2), simp)
    moreover have "xqes c' = (\<lambda>y. if y \<in> set (takeWhile (named (xqes c) (fp_fragnum f)) (x # s)) then None else xqes c y)"
      using True by (simp add: c'(3) k1(3) fun_eq_iff)
    ultimately show ?thesis using c' step k1(1) True
      by (intro exI [of _ ser'] exI [of _ incr'] exI [of _ c']) simp
  qed
qed

section \<open>One fragment of the selective part\<close>

text \<open>Number, data and serial number of the elements stay.\<close>

definition same_info :: "xheap \<Rightarrow> xheap \<Rightarrow> addr \<Rightarrow> bool" where
  "same_info h h' y \<longleftrightarrow> (h' y = None \<longleftrightarrow> h y = None) \<and> xnum h' y = xnum h y \<and>
     frag_body (xelt h' y) = frag_body (xelt h y) \<and> xqe_serial (xelt h' y) = xqe_serial (xelt h y)"

lemma same_info_refl [simp]: "same_info h h y" by (simp add: same_info_def)
lemma same_info_trans: "same_info h h1 y \<Longrightarrow> same_info h1 h2 y \<Longrightarrow> same_info h h2 y" by (simp add: same_info_def)

definition q_sel :: "dg_xmitq \<Rightarrow> dg_xmitq" where
  "q_sel q = q\<lparr>xq_head := NULL, xq_tail := NULL, cwindow_size := 0, freqs_out := 0, rexmitq := NULL\<rparr>"

lemma q_sel_fields:
  assumes "q_sel q' = q_sel q"
  shows "first_unsent q' = first_unsent q" "part_xqe q' = part_xqe q" "xq_next_fragnum q' = xq_next_fragnum q"
    "base_flags q' = base_flags q" "xq_push q' = xq_push q" "blast_size q' = blast_size q"
    "last_fack_serial q' = last_fack_serial q" "max_blast_size q' = max_blast_size q"
    "snd_frag_size q' = snd_frag_size q" "max_snd_tsdu q' = max_snd_tsdu q" "max_frag_size q' = max_frag_size q"
    "xq_window_size q' = xq_window_size q"
  using arg_cong [OF assms, of first_unsent] arg_cong [OF assms, of part_xqe] arg_cong [OF assms, of xq_next_fragnum]
    arg_cong [OF assms, of base_flags] arg_cong [OF assms, of xq_push] arg_cong [OF assms, of blast_size]
    arg_cong [OF assms, of last_fack_serial] arg_cong [OF assms, of max_blast_size] arg_cong [OF assms, of snd_frag_size]
    arg_cong [OF assms, of max_snd_tsdu] arg_cong [OF assms, of max_frag_size] arg_cong [OF assms, of xq_window_size]
  by (simp_all add: q_sel_def)

lemma q_sel_rex: "q_rex q' = q_rex q \<Longrightarrow> q_sel q' = q_sel q"
proof -
  assume a: "q_rex q' = q_rex q"
  have "q_sel r = (q_rex r)\<lparr>xq_head := NULL, xq_tail := NULL\<rparr>" for r by (simp add: q_rex_def q_sel_def)
  then show ?thesis using a by simp
qed

text \<open>What a step of the selective part keeps, but for the elements \<open>X\<close> it frees.\<close>

definition sel_frame :: "addr set \<Rightarrow> dg_xcall \<Rightarrow> dg_xcall \<Rightarrow> bool" where
  "sel_frame X c c' \<longleftrightarrow> (\<forall>y\<in>X. xqes c' y = None) \<and> (\<forall>y. y \<notin> X \<longrightarrow> same_info (xqes c) (xqes c') y) \<and>
     q_sel (xq c') = q_sel (xq c) \<and> c' = c\<lparr>xq := xq c', xqes := xqes c'\<rparr>"

lemma sel_frame_refl [simp]: "sel_frame {} c c"
  by (simp add: sel_frame_def)

lemma sel_frame_trans:
  assumes "sel_frame X c c1" "sel_frame Y c1 c2"
  shows "sel_frame (X \<union> Y) c c2"
proof -
  note a = assms(1) [unfolded sel_frame_def] and b = assms(2) [unfolded sel_frame_def]
  have e: "c1 = c\<lparr>xq := xq c1, xqes := xqes c1\<rparr>" "c2 = c1\<lparr>xq := xq c2, xqes := xqes c2\<rparr>" using a b by blast+
  have "c2 = c\<lparr>xq := xq c2, xqes := xqes c2\<rparr>" by (subst e(2), subst e(1), simp)
  moreover have "\<forall>y\<in>X \<union> Y. xqes c2 y = None" using a b by (auto simp: same_info_def)
  moreover have "\<forall>y. y \<notin> X \<union> Y \<longrightarrow> same_info (xqes c) (xqes c2) y" using a b same_info_trans by blast
  ultimately show ?thesis using a b by (simp add: sel_frame_def)
qed

text \<open>The queue together with the retransmission list under construction.\<close>

definition rex_inv :: "nat \<Rightarrow> addr list \<Rightarrow> addr list \<Rightarrow> addr list \<Rightarrow> selack_st \<Rightarrow> bool" where
  "rex_inv T s u r st \<longleftrightarrow> xq_base (sa_call st) T s u 0 \<and>
     nseg next_rexmit (xqes (sa_call st)) (rexmitq (xq (sa_call st))) r NULL \<and> distinct r \<and> set r \<subseteq> set s \<and>
     sa_rtail st = last_addr r \<and> (\<forall>y\<in>set r. \<not> xin (xqes (sa_call st)) y)"

lemma rex_invD:
  assumes "rex_inv T s u r st"
  shows "xq_base (sa_call st) T s u 0" "nseg next_rexmit (xqes (sa_call st)) (rexmitq (xq (sa_call st))) r NULL"
    "distinct r" "set r \<subseteq> set s" "sa_rtail st = last_addr r" "\<forall>y\<in>set r. \<not> xin (xqes (sa_call st)) y"
  using assms by (simp_all add: rex_inv_def)

lemma rexmit_enqueue_ex:
  assumes inv: "rex_inv T s u r st" and x: "sa_curr st = x" "x \<in> set s" "x \<notin> set r" "\<not> xin (xqes (sa_call st)) x"
  shows "\<exists>st'. rexmit_enqueue st = Some st' \<and> rex_inv T s u (r @ [x]) st' \<and> sel_frame {} (sa_call st) (sa_call st') \<and>
    sa_curr st' = sa_curr st \<and> sa_prev st' = sa_prev st \<and>
    (\<forall>y\<in>set (s @ u). xqe_next (xelt (xqes (sa_call st')) y) = xqe_next (xelt (xqes (sa_call st)) y))"
proof -
  note d = rex_invD [OF inv]
  let ?c = "sa_call st"
  have rn: "rexmitq (xq ?c) = NULL \<longleftrightarrow> r = []"
    using nseg_first [OF d(2)] nseg_elem [OF d(2)] by (cases r) auto
  obtain c' where c': "(do { c \<leftarrow> (if r = [] then Some (?c\<lparr>xq := (xq ?c)\<lparr>rexmitq := x\<rparr>\<rparr>)
             else xset (last_addr r) (\<lambda>e. e\<lparr>next_rexmit := x\<rparr>) ?c);
        xset x (\<lambda>e. e\<lparr>next_rexmit := NULL\<rparr>) c }) = Some c'" "xq_base c' T s u 0"
      "nseg next_rexmit (xqes c') (rexmitq (xq c')) (r @ [x]) NULL" "\<forall>y. xin (xqes c') y = xin (xqes ?c) y"
      "same_data (xqes ?c) (xqes c')" "q_rex (xq c') = q_rex (xq ?c)" "c' = ?c\<lparr>xq := xq c', xqes := xqes c'\<rparr>"
      "\<forall>y\<in>set (s @ u). xqe_next (xelt (xqes c') y) = xqe_next (xelt (xqes ?c) y)"
      "\<forall>y. xqe_serial (xelt (xqes c') y) = xqe_serial (xelt (xqes ?c) y)"
    using rexmit_link [OF d(1) x(2,3) d(4,3)] d(2) by blast
  let ?st = "st\<lparr>sa_call := c', sa_rtail := x, sa_rcnt := sa_rcnt st + 1\<rparr>"
  have r: "rexmit_enqueue st = Some ?st"
    using c'(1) unfolding rexmit_enqueue_def Let_def x(1) rn d(5) by (auto simp: bind_eq_Some_conv)
  have "same_info (xqes ?c) (xqes c') y" for y
  proof (cases "xqes ?c y = None")
    case True
    then have "xqes c' y = None" using c'(5) by (simp add: same_data_def)
    then show ?thesis using True by (simp add: same_info_def xnum_def xelt_def)
  next
    case False
    then show ?thesis using c'(5,9) by (simp add: same_info_def same_data_def)
  qed
  then have "sel_frame {} ?c c'" using q_sel_rex [OF c'(6)] c'(7) by (simp add: sel_frame_def)
  moreover have "rex_inv T s u (r @ [x]) ?st" using c'(2-4) d(3-6) x by (auto simp: rex_inv_def)
  ultimately show ?thesis using r c'(8) by (intro exI [of _ ?st]) simp
qed

text \<open>\<open>a\<close> has been looked at and kept, \<open>b\<close> is still to be looked at.\<close>

definition sel_inv :: "nat \<Rightarrow> addr list \<Rightarrow> addr list \<Rightarrow> addr list \<Rightarrow> addr list \<Rightarrow> selack_st \<Rightarrow> bool" where
  "sel_inv T a b u r st \<longleftrightarrow> rex_inv T (a @ b) u r st \<and> set r \<subseteq> set a \<and>
     sa_curr st = first_addr (b @ u) \<and> sa_prev st = last_addr a"

lemma sel_invD:
  assumes "sel_inv T a b u r st"
  shows "rex_inv T (a @ b) u r st" "set r \<subseteq> set a" "sa_curr st = first_addr (b @ u)" "sa_prev st = last_addr a"
    "xq_base (sa_call st) T (a @ b) u 0"
  using assms rex_invD(1) [of T "a @ b" u r st] by (simp_all add: sel_inv_def)

lemma xq_base_next:
  assumes "xq_base c T (a @ x # b) u k"
  shows "xqe_next (xelt (xqes c) x) = first_addr (b @ u)" "xq_head (xq c) = x \<longleftrightarrow> a = []"
    "xq_tail (xq c) = x \<longleftrightarrow> b @ u = []"
proof -
  note d = xq_baseD [OF assms]
  have "nseg xqe_next (xqes c) (xq_head (xq c)) (a @ x # (b @ u)) NULL" using d(1) by simp
  from nseg_split [OF this] have "nseg xqe_next (xqes c) (xqe_next (xelt (xqes c) x)) (b @ u) NULL"
    by (auto simp: xelt_def simp del: nseg_append)
  then show "xqe_next (xelt (xqes c) x) = first_addr (b @ u)" by (rule nseg_first)
  have "xq_head (xq c) = hd (a @ [x])" using nseg_first [OF d(1)] by (cases a) (simp_all add: first_addr_def)
  then show "xq_head (xq c) = x \<longleftrightarrow> a = []" using d(2) by (cases a) auto
  have "xq_tail (xq c) = (if b @ u = [] then x else last (b @ u))" using d(4) by (auto simp: last_addr_def)
  moreover have "b @ u \<noteq> [] \<longrightarrow> last (b @ u) \<noteq> x" using d(2) last_in_set [of "b @ u"] by auto
  ultimately show "xq_tail (xq c) = x \<longleftrightarrow> b @ u = []" by auto
qed

lemma selack_acked_ex:
  assumes inv: "sel_inv T a (x # b) u r st"
  shows "\<exists>st'. selack_acked st = Some st' \<and> sel_inv T a b u r st' \<and> sel_frame {x} (sa_call st) (sa_call st')"
proof -
  note i = sel_invD [OF inv] and ri = rex_invD [OF sel_invD(1) [OF inv]]
  let ?c = "sa_call st"
  have x: "sa_curr st = x" using i(3) by simp
  obtain e where e: "xget x (xqes ?c) = Some e" "xqes ?c x = Some e" "xelt (xqes ?c) x = e" "x \<noteq> NULL" "xlen_ok e"
    using xq_base_elem [OF i(5), of x] by auto
  note nx = xq_base_next [OF i(5)]
  have dx: "x \<notin> set a" using xq_baseD(2) [OF i(5)] by auto
  have pv: "sa_prev st = last a \<and> last a \<noteq> x \<and> xqes ?c (last a) = Some (xelt (xqes ?c) (last a)) \<and> last a \<noteq> NULL" if "a \<noteq> []"
    using xq_base_elem [OF i(5), of "last a"] that dx i(4) by (auto simp: last_addr_def)
  have nl: "\<not> RPC_DG_FLAG_IS_SET (xqe_flags e) XF_LAST_FRAG" using e(5) by (simp add: xlen_ok_def)
  obtain ser incr where si: "TRACK_CURRENT_BLAST (last_fack_serial (xq ?c)) e False (sa_serial st, sa_incr st) = (ser, incr)" by fastforce
  define c0 where "c0 = (if xqe_in_cwindow e
                 then ?c\<lparr>xq := (xq ?c)\<lparr>cwindow_size := cwindow_size (xq ?c) - 1,
                        freqs_out := (if \<not> RPC_DG_FLAG_IS_SET (xqe_flags e) XF_NO_FACK \<or> RPC_DG_FLAG_IS_SET (xqe_flags e) XF_LAST_FRAG
                                      then freqs_out (xq ?c) - 1 else freqs_out (xq ?c))\<rparr>\<rparr>
                 else ?c)"
  have c0: "xqes c0 = xqes ?c" "xq_head (xq c0) = xq_head (xq ?c)" "xq_tail (xq c0) = xq_tail (xq ?c)" by (simp_all add: c0_def)
  define h1 where "h1 = (if a = [] then xqes ?c else (xqes ?c)(last a \<mapsto> (xelt (xqes ?c) (last a))\<lparr>xqe_next := first_addr (b @ u)\<rparr>))"
  define q1 where "q1 = (if a = [] then (xq c0)\<lparr>xq_head := first_addr (b @ u)\<rparr> else xq c0)"
  define c1 where "c1 = c0\<lparr>xq := q1, xqes := h1\<rparr>"
  define c2 where "c2 = c1\<lparr>xq := (if b @ u = [] then q1\<lparr>xq_tail := sa_prev st\<rparr> else q1)\<rparr>"
  define c3 where "c3 = c2\<lparr>xqes := h1(x := None)\<rparr>"
  have s1: "(if x = xq_head (xq c0) then Some (c0\<lparr>xq := (xq c0)\<lparr>xq_head := first_addr (b @ u)\<rparr>\<rparr>)
             else xset (sa_prev st) (\<lambda>e. e\<lparr>xqe_next := first_addr (b @ u)\<rparr>) c0) = Some c1"
  proof (cases "a = []")
    case True
    then show ?thesis using nx(2) c0 by (auto simp: c1_def q1_def h1_def)
  next
    case False
    have "xget (last a) (xqes c0) = Some (xelt (xqes ?c) (last a))" using pv [OF False] c0(1) by (simp add: xget_def)
    then show ?thesis using nx(2) c0 pv [OF False] False by (simp add: c1_def q1_def h1_def xset_def)
  qed
  have s2: "(if x = xq_tail (xq c1) then c1\<lparr>xq := (xq c1)\<lparr>xq_tail := sa_prev st\<rparr>\<rparr> else c1) = c2"
    using nx(3) c0(3) by (auto simp: c2_def c1_def q1_def)
  have h1x: "h1 x = Some e" using e(2) pv by (auto simp: h1_def)
  then have s3: "free_xqe x c2 = Some c3" using e(4) by (simp add: free_xqe_def xget_def c3_def c2_def c1_def)
  let ?st = "st\<lparr>sa_call := c3, sa_curr := first_addr (b @ u), sa_serial := ser, sa_incr := incr\<rparr>"
  have r: "selack_acked st = Some ?st"
    unfolding selack_acked_def Let_def x e(1) Option.bind.simps(2) si prod.case c0_def [symmetric] nx(1) [unfolded e(3)] s1 s2 s3 ..
  have b3: "xq_base c3 T (a @ b) u 0" and rel: "\<forall>y. y \<noteq> x \<longrightarrow> relinked (xqes ?c) (xqes c3) y"
    "\<forall>y. y \<noteq> x \<longrightarrow> (xqes c3 y = None \<longleftrightarrow> xqes ?c y = None)"
    "\<forall>y. y \<noteq> x \<longrightarrow> next_rexmit (xelt (xqes c3) y) = next_rexmit (xelt (xqes ?c) y)"
  proof -
    have h: "xqes c3 = (if a = [] then xqes ?c
      else (xqes ?c)(last a \<mapsto> (xelt (xqes ?c) (last a))\<lparr>xqe_next := first_addr (b @ u)\<rparr>))(x := None)" by (simp add: c3_def h1_def)
    have tl: "xq_tail (xq c3) = last_addr (a @ b @ u)"
      using xq_baseD(4) [OF i(5)] i(4) c0(3) by (auto simp: c3_def c2_def q1_def last_addr_def)
    show "xq_base c3 T (a @ b) u 0" "\<forall>y. y \<noteq> x \<longrightarrow> relinked (xqes ?c) (xqes c3) y"
      "\<forall>y. y \<noteq> x \<longrightarrow> (xqes c3 y = None \<longleftrightarrow> xqes ?c y = None)"
      "\<forall>y. y \<noteq> x \<longrightarrow> next_rexmit (xelt (xqes c3) y) = next_rexmit (xelt (xqes ?c) y)"
      by (rule xq_remove [OF i(5) h _ tl]; use nl e(3) in \<open>simp add: c3_def c2_def q1_def c0_def xin_def xask_def\<close>)+
  qed
  have fr: "sel_frame {x} ?c c3"
  proof -
    have "q_sel (xq c3) = q_sel (xq ?c)" "c3 = ?c\<lparr>xq := xq c3, xqes := xqes c3\<rparr>"
      by (simp_all add: c3_def c2_def c1_def q1_def c0_def q_sel_def)
    moreover have "same_info (xqes ?c) (xqes c3) y" if "y \<noteq> x" for y
      using rel(1,2) that relinked_facts [of "xqes ?c" "xqes c3" y] by (simp add: same_info_def)
    ultimately show ?thesis by (simp add: sel_frame_def c3_def)
  qed
  have rr: "\<forall>y\<in>set r. y \<noteq> x" using i(2) dx by auto
  have "map_option next_rexmit (xqes c3 y) = map_option next_rexmit (xqes ?c y)" if "y \<in> set r" for y
  proof -
    have "y \<noteq> x" using rr that by blast
    then have "xqes c3 y = None \<longleftrightarrow> xqes ?c y = None" "next_rexmit (xelt (xqes c3) y) = next_rexmit (xelt (xqes ?c) y)" using rel by blast+
    then show ?thesis by (cases "xqes c3 y"; cases "xqes ?c y") (simp_all add: xelt_def)
  qed
  then have sg: "nseg next_rexmit (xqes c3) p r NULL = nseg next_rexmit (xqes ?c) p r NULL" for p by (rule nseg_cong)
  have rx: "rexmitq (xq c3) = rexmitq (xq ?c)" by (simp add: c3_def c2_def q1_def c0_def)
  have nin: "\<forall>y\<in>set r. \<not> xin (xqes c3) y" using rr rel(1) relinked_facts(2) ri(6) by metis
  have "sel_inv T a b u r ?st"
    using b3 ri(3,5) i(2,4) sg ri(2) rx nin by (auto simp: sel_inv_def rex_inv_def)
  then show ?thesis using r fr by (intro exI [of _ ?st]) simp
qed

lemma leave_cwindow_rex_inv:
  assumes inv: "rex_inv T s u r st" and x: "x \<in> set s" "x \<notin> set r"
  shows "\<exists>c'. leave_cwindow x (sa_call st) = Some c' \<and> rex_inv T s u r (st\<lparr>sa_call := c', sa_serial := ser, sa_incr := incr\<rparr>) \<and>
    \<not> xin (xqes c') x \<and> sel_frame {} (sa_call st) c' \<and> (\<forall>y. xqe_next (xelt (xqes c') y) = xqe_next (xelt (xqes (sa_call st)) y))"
proof -
  note d = rex_invD [OF inv]
  have xs: "x \<in> set (s @ u)" using x(1) by simp
  obtain c' where c': "leave_cwindow x (sa_call st) = Some c'" "xq_base c' T s u 0" "\<not> xin (xqes c') x" "same_elts (xqes (sa_call st)) (xqes c')"
    "\<forall>y. y \<noteq> x \<longrightarrow> xqes c' y = xqes (sa_call st) y" "q_win (xq c') = q_win (xq (sa_call st))"
    "c' = (sa_call st)\<lparr>xq := xq c', xqes := xqes c'\<rparr>" "xelt (xqes c') x = (xelt (xqes (sa_call st)) x)\<lparr>xqe_in_cwindow := False\<rparr>"
    using leave_cwindow_ex [OF d(1) xs] by blast
  have el: "xelt (xqes c') y = (if y = x then (xelt (xqes (sa_call st)) x)\<lparr>xqe_in_cwindow := False\<rparr> else xelt (xqes (sa_call st)) y)" for y
    using c'(5,8) by (simp add: xelt_def)
  have "xqes c' y = None \<longleftrightarrow> xqes (sa_call st) y = None" for y
    using c'(4) by (simp add: same_elts_def) (metis map_option_is_None)
  then have info: "same_info (xqes (sa_call st)) (xqes c') y" for y
    by (simp add: same_info_def xnum_def el frag_body_def)
  have nin: "\<forall>y\<in>set r. \<not> xin (xqes c') y" using d(6) x(2) by (auto simp: xin_def el)
  have "rex_inv T s u r (st\<lparr>sa_call := c', sa_serial := ser, sa_incr := incr\<rparr>)"
    using c'(2) d(2-5) nin same_elts_nseg(2) [OF c'(4)] q_win_fields(3) [OF c'(6)] by (simp add: rex_inv_def)
  moreover have "sel_frame {} (sa_call st) c'"
    using info q_sel_rex [OF q_rex_win [OF c'(6)]] c'(7) by (simp add: sel_frame_def)
  moreover have "\<forall>y. xqe_next (xelt (xqes c') y) = xqe_next (xelt (xqes (sa_call st)) y)" by (simp add: el)
  ultimately show ?thesis using c'(1,3) by (intro exI [of _ c']) simp
qed

definition lost :: "dg_xcall \<Rightarrow> addr \<Rightarrow> bool" where
  "lost c x \<longleftrightarrow> RPC_DG_SERIAL_IS_LT (xqe_serial (xelt (xqes c) x)) (last_fack_serial (xq c))"

lemma selack_missing_ex:
  assumes inv: "sel_inv T a (x # b) u r st"
  shows "\<exists>st'. selack_missing n st = Some st' \<and> sel_inv T (a @ [x]) b u (if lost (sa_call st) x then r @ [x] else r) st' \<and>
    sel_frame {} (sa_call st) (sa_call st')"
proof -
  note i = sel_invD [OF inv]
  let ?c = "sa_call st"
  have x: "sa_curr st = x" using i(3) by simp
  obtain e where e: "xget x (xqes ?c) = Some e" "xqes ?c x = Some e" "xelt (xqes ?c) x = e" "x \<noteq> NULL" "xlen_ok e"
    using xq_base_elem [OF i(5), of x] by auto
  have nl: "\<not> RPC_DG_FLAG_IS_SET (xqe_flags e) XF_LAST_FRAG" using e(5) by (simp add: xlen_ok_def)
  note nx = xq_base_next [OF i(5)]
  have xr: "x \<in> set (a @ x # b)" "x \<notin> set r" using xq_baseD(2) [OF i(5)] i(2) by auto
  have li: "lost ?c x \<longleftrightarrow> RPC_DG_SERIAL_IS_LT (xqe_serial e) (last_fack_serial (xq ?c))" by (simp add: lost_def e(3))
  have a1: "(a @ [x]) @ b = a @ x # b" by simp
  show ?thesis
  proof (cases "lost ?c x")
    case False
    let ?st = "st\<lparr>sa_prev := x, sa_curr := xqe_next e\<rparr>"
    have "selack_missing n st = Some ?st" using False e(1) by (simp add: selack_missing_def Let_def x li)
    moreover have "sel_inv T (a @ [x]) b u r ?st"
      using i(1,2) nx(1) e(3) by (auto simp: sel_inv_def rex_inv_def)
    ultimately show ?thesis using False by (intro exI [of _ ?st]) simp
  next
    case True
    obtain ser incr where si: "TRACK_CURRENT_BLAST (last_fack_serial (xq ?c)) e True (sa_serial st, sa_incr st) = (ser, incr)" by fastforce
    define asks where "asks = (\<not> RPC_DG_FLAG_IS_SET (xqe_flags e) XF_NO_FACK)"
    define incr' where "incr' = (if xqe_in_cwindow e \<and> asks \<and> RPC_DG_FRAGNUM_IS_LT (ucast (xqe_fragnum e)) n then 0 else incr)"
    have lc: "(if xqe_in_cwindow e then do {
                       c \<leftarrow> xset x (\<lambda>e. e\<lparr>xqe_in_cwindow := False\<rparr>) ?c;
                       Some (c\<lparr>xq := (xq c)\<lparr>cwindow_size := cwindow_size (xq c) - 1,
                               freqs_out := (if asks then freqs_out (xq c) - 1 else freqs_out (xq c))\<rparr>\<rparr>) }
                     else Some ?c) = leave_cwindow x ?c"
      using e(1) nl by (simp add: leave_cwindow_def xset_def asks_def)
    obtain c1 where c1: "leave_cwindow x ?c = Some c1" "rex_inv T (a @ x # b) u r (st\<lparr>sa_call := c1, sa_serial := ser, sa_incr := incr'\<rparr>)"
      "\<not> xin (xqes c1) x" "sel_frame {} ?c c1" "\<forall>y. xqe_next (xelt (xqes c1) y) = xqe_next (xelt (xqes ?c) y)"
      using leave_cwindow_rex_inv [OF i(1) xr, where ser = ser and incr = incr'] by blast
    let ?st1 = "st\<lparr>sa_call := c1, sa_serial := ser, sa_incr := incr'\<rparr>"
    obtain st2 where st2: "rexmit_enqueue ?st1 = Some st2" "rex_inv T (a @ x # b) u (r @ [x]) st2" "sel_frame {} c1 (sa_call st2)"
      "sa_curr st2 = x" "sa_prev st2 = sa_prev st"
      "\<forall>y\<in>set ((a @ x # b) @ u). xqe_next (xelt (xqes (sa_call st2)) y) = xqe_next (xelt (xqes c1) y)"
      using rexmit_enqueue_ex [OF c1(2) _ xr] c1(3) x by auto
    obtain e2 where e2: "xget x (xqes (sa_call st2)) = Some e2" "xelt (xqes (sa_call st2)) x = e2"
      using xq_base_elem [OF rex_invD(1) [OF st2(2)], of x] by auto
    have n2: "xqe_next e2 = first_addr (b @ u)" using e2(2) st2(6) c1(5) nx(1) by simp
    let ?st = "st2\<lparr>sa_prev := x, sa_curr := xqe_next e2\<rparr>"
    have "selack_missing n st = Some ?st"
      unfolding selack_missing_def Let_def x e(1) Option.bind.simps(2) if_P [OF True [unfolded li]] si prod.case
        asks_def [symmetric] incr'_def [symmetric] lc c1(1) st2(1) e2(1) ..
    moreover have "sel_inv T (a @ [x]) b u (r @ [x]) ?st"
      using st2(2) i(2) n2 by (auto simp: sel_inv_def rex_inv_def)
    moreover have "sel_frame {} ?c (sa_call st2)" using sel_frame_trans [OF c1(4) st2(3)] by simp
    ultimately show ?thesis using True by (intro exI [of _ ?st]) simp
  qed
qed

section \<open>The words of the mask\<close>

text \<open>How many bits of a word are looked at: all but in the last, where the rest is 0.\<close>

fun used_bits :: "nat \<Rightarrow> u32 \<Rightarrow> bool \<Rightarrow> nat" where
  "used_bits 0 m final = 0"
| "used_bits (Suc n) m final = (if m = 0 \<and> final then 0 else Suc (used_bits n (drop_bit 1 m) final))"

text \<open>The fragments of \<open>b\<close> looked at with the \<open>k\<close> bits from the number \<open>N\<close> on, and which of them are acknowledged.\<close>

definition seen :: "dg_xcall \<Rightarrow> nat \<Rightarrow> nat \<Rightarrow> addr list \<Rightarrow> addr list" where
  "seen c N k b = takeWhile (\<lambda>y. xnum (xqes c) y < N + k) b"

definition bit_acked :: "dg_xcall \<Rightarrow> nat \<Rightarrow> u32 \<Rightarrow> addr \<Rightarrow> bool" where
  "bit_acked c N m y \<longleftrightarrow> bit m (xnum (xqes c) y - N)"

text \<open>The result of looking at \<open>p\<close>, the beginning of what is left.\<close>

definition sel_result :: "nat \<Rightarrow> addr list \<Rightarrow> addr list \<Rightarrow> addr list \<Rightarrow> addr list \<Rightarrow> addr list \<Rightarrow> (addr \<Rightarrow> bool) \<Rightarrow>
    dg_xcall \<Rightarrow> selack_st \<Rightarrow> bool" where
  "sel_result T a p b u r ak c st' \<longleftrightarrow>
     sel_inv T (a @ filter (\<lambda>y. \<not> ak y) p) b u (r @ filter (\<lambda>y. \<not> ak y \<and> lost c y) p) st' \<and>
     sel_frame (set (filter ak p)) c (sa_call st')"

lemma sel_frame_lost:
  assumes "sel_frame X c c'" "y \<notin> X"
  shows "xnum (xqes c') y = xnum (xqes c) y" "lost c' y = lost c y"
proof -
  have i: "same_info (xqes c) (xqes c') y" "q_sel (xq c') = q_sel (xq c)" using assms by (simp_all add: sel_frame_def)
  show "xnum (xqes c') y = xnum (xqes c) y" "lost c' y = lost c y"
    using i(1) q_sel_fields(7) [OF i(2)] by (simp_all add: same_info_def lost_def)
qed

lemma sel_result_cong:
  assumes "\<And>y. y \<in> set p \<Longrightarrow> ak y = ak' y"
  shows "sel_result T a p b u r ak c st = sel_result T a p b u r ak' c st"
proof -
  have "filter (\<lambda>y. \<not> ak y) p = filter (\<lambda>y. \<not> ak' y) p" "filter ak p = filter ak' p"
    "filter (\<lambda>y. \<not> ak y \<and> lost c y) p = filter (\<lambda>y. \<not> ak' y \<and> lost c y) p"
    using assms by (auto intro!: filter_cong)
  then show ?thesis by (simp add: sel_result_def)
qed

lemma sel_result_refl: "sel_inv T a b u r st \<Longrightarrow> sel_result T a [] b u r ak (sa_call st) st"
  by (simp add: sel_result_def)

text \<open>Looking at one fragment and then at others.\<close>

lemma sel_result_trans:
  assumes "sel_result T a p b u r ak c st1" "sel_result T (a @ filter (\<lambda>y. \<not> ak y) p) p' b' u (r @ filter (\<lambda>y. \<not> ak y \<and> lost c y) p) ak' (sa_call st1) st2"
    and "\<forall>y\<in>set p'. ak' y = ak y" "set p \<inter> set p' = {}"
  shows "sel_result T a (p @ p') b' u r ak c st2"
proof -
  note f = assms(1,2) [unfolded sel_result_def]
  have l: "\<forall>y\<in>set p'. lost (sa_call st1) y = lost c y" using sel_frame_lost(2) [OF conjunct2 [OF f(1)]] assms(4) by auto
  have e: "filter (\<lambda>y. \<not> ak' y) p' = filter (\<lambda>y. \<not> ak y) p'" "filter ak' p' = filter ak p'"
    "filter (\<lambda>y. \<not> ak' y \<and> lost (sa_call st1) y) p' = filter (\<lambda>y. \<not> ak y \<and> lost c y) p'"
    using l assms(3) by (auto intro!: filter_cong)
  show ?thesis using f(2) sel_frame_trans [OF conjunct2 [OF f(1)] conjunct2 [OF f(2)]] unfolding e
    by (simp add: sel_result_def Un_commute)
qed

lemma sel_result_one:
  assumes inv: "sel_inv T a (x # b) u r st"
  shows "\<exists>st'. (if ak then selack_acked st else selack_missing n st) = Some st' \<and> sel_result T a [x] b u r (\<lambda>_. ak) (sa_call st) st'"
proof (cases ak)
  case True
  then show ?thesis using selack_acked_ex [OF inv] by (auto simp: sel_result_def)
next
  case False
  obtain st' where "selack_missing n st = Some st'" "sel_inv T (a @ [x]) b u (if lost (sa_call st) x then r @ [x] else r) st'"
    "sel_frame {} (sa_call st) (sa_call st')" using selack_missing_ex [OF inv] by blast
  then show ?thesis using False by (intro exI [of _ st']) (simp add: sel_result_def split: if_splits)
qed

lemma bit_drop1: "bit (drop_bit 1 m) k = bit m (Suc k)" for m :: "'a::len word"
  by (simp add: bit_simps)

lemma of_nat_num: "N < 65536 \<Longrightarrow> (of_nat N :: u32) = f \<longleftrightarrow> N = unat f"
proof -
  assume "N < 65536"
  then have "unat (of_nat N :: u32) = N" by (simp add: unsigned_of_nat take_bit_nat_eq_self)
  then show ?thesis using unat_eq_iff [of "of_nat N :: u32" f] by simp
qed

lemma selack_bits_ex:
  assumes "sel_inv T a b u r st" "\<forall>y\<in>set b. N \<le> xnum (xqes (sa_call st)) y" "N + used_bits n m final \<le> T - length u"
  shows "\<exists>num' st'. selack_bits n m final f (of_nat N) st = Some (num', st') \<and>
    (sa_curr st' \<noteq> NULL \<longrightarrow> num' = of_nat (N + used_bits n m final)) \<and>
    sel_result T a (seen (sa_call st) N (used_bits n m final) b) (drop (length (seen (sa_call st) N (used_bits n m final) b)) b)
      u r (bit_acked (sa_call st) N m) (sa_call st) st'"
  using assms
proof (induction n arbitrary: m N a b r st)
  case 0
  then have "seen (sa_call st) N 0 b = []" by (cases b) (auto simp: seen_def)
  then show ?case using 0 sel_result_refl by (intro exI [of _ "of_nat N"] exI [of _ st]) simp
next
  case (Suc n)
  let ?c = "sa_call st"
  note i = sel_invD [OF Suc.prems(1)]
  note d = xq_baseD [OF i(5)]
  show ?case
  proof (cases "m = 0 \<and> final \<or> sa_curr st = NULL")
    case True
    have "seen ?c N (used_bits (Suc n) m final) b = []"
    proof (cases "m = 0 \<and> final")
      case True
      then show ?thesis using Suc.prems(2) by (cases b) (auto simp: seen_def)
    next
      case False
      then have "sa_curr st = NULL" using True by blast
      then have "first_addr (b @ u) = NULL" using i(3) by simp
      then have "b = []" using xq_base_elem [OF i(5), of "hd b"] by (cases b) auto
      then show ?thesis by (simp add: seen_def)
    qed
    then show ?thesis using True Suc.prems sel_result_refl
      by (intro exI [of _ "of_nat N"] exI [of _ st]) auto
  next
    case False
    then have u1: "used_bits (Suc n) m final = Suc (used_bits n (drop_bit 1 m) final)" by auto
    let ?k = "used_bits n (drop_bit 1 m) final"
    define x where "x = sa_curr st"
    have N: "Suc N + ?k \<le> T - length u" "N < 65536" using Suc.prems(3) u1 d(10) by simp_all
    have ne: "b @ u \<noteq> []" using False i(3) by auto
    then have xin: "x \<in> set ((a @ b) @ u)" using hd_in_set [OF ne] i(3) by (auto simp: x_def first_addr_def)
    obtain e where e: "xget x (xqes ?c) = Some e" "xelt (xqes ?c) x = e" using xq_base_elem [OF i(5) xin] by auto
    have eq: "of_nat N \<noteq> xqe_fragnum e \<longleftrightarrow> N \<noteq> xnum (xqes ?c) x" using of_nat_num [OF N(2)] e(2) by (simp add: xnum_def)
    have step: "selack_bits (Suc n) m final f (of_nat N) st = do {
        st \<leftarrow> (if N \<noteq> xnum (xqes ?c) x then Some st else if bit m 0 then selack_acked st else selack_missing f st);
        selack_bits n (drop_bit 1 m) final f (of_nat (Suc N)) st }"
    proof -
      have n1: "of_nat N + 1 = (of_nat (Suc N) :: u32)" by simp
      have f: "FRAG_GOT_ACKED m = bit m 0" using and_exp_eq_0_iff_not_bit [of m 0] by (simp add: FRAG_GOT_ACKED_def)
      show ?thesis unfolding selack_bits.simps x_def [symmetric] e(1) Option.bind.simps(2) n1 f eq
        using False by (auto simp: x_def)
    qed
    have dr: "bit_acked c' (Suc N) (drop_bit 1 m) y = bit_acked ?c N m y" if "xnum (xqes c') y = xnum (xqes ?c) y" "N < xnum (xqes ?c) y" for c' y
      unfolding bit_acked_def that(1) bit_drop1 using Suc_diff_Suc [OF that(2)] by simp
    show ?thesis
    proof (cases "N = xnum (xqes ?c) x")
      case True
      have bx: "\<exists>b'. b = x # b'"
      proof (cases b)
        case Nil
        then have "x \<in> set u" using ne i(3) by (simp add: x_def first_addr_def)
        then have "xnum (xqes ?c) x \<in> set (map (xnum (xqes ?c)) u)" by simp
        then show ?thesis unfolding d(8) using True Suc.prems(3) u1 by simp
      next
        case (Cons y b')
        then show ?thesis using i(3) by (simp add: x_def)
      qed
      then obtain b' where b: "b = x # b'" by blast
      have gt: "\<forall>y\<in>set b'. N < xnum (xqes ?c) y" using d(6) True unfolding b by (auto simp: sorted_wrt_append)
      obtain st1 where st1: "(if bit m 0 then selack_acked st else selack_missing f st) = Some st1"
        "sel_result T a [x] b' u r (\<lambda>_. bit m 0) ?c st1"
        using sel_result_one [OF Suc.prems(1) [unfolded b]] by blast
      have fr: "sel_frame (set (filter (\<lambda>_. bit m 0) [x])) ?c (sa_call st1)" using st1(2) by (simp add: sel_result_def)
      have xb: "x \<notin> set b'" using d(2) unfolding b by auto
      have nm: "xnum (xqes (sa_call st1)) y = xnum (xqes ?c) y" if "y \<in> set b'" for y
      proof -
        have "y \<notin> set (filter (\<lambda>_. bit m 0) [x])" using that xb by auto
        then show ?thesis by (rule sel_frame_lost(1) [OF fr])
      qed
      have inv1: "sel_inv T (a @ filter (\<lambda>y. \<not> bit m 0) [x]) b' u (r @ filter (\<lambda>y. \<not> bit m 0 \<and> lost ?c y) [x]) st1"
        using st1(2) by (simp add: sel_result_def)
      have ge: "\<forall>y\<in>set b'. Suc N \<le> xnum (xqes (sa_call st1)) y" using gt nm by auto
      obtain num' st' where st': "selack_bits n (drop_bit 1 m) final f (of_nat (Suc N)) st1 = Some (num', st')"
        "sa_curr st' \<noteq> NULL \<longrightarrow> num' = of_nat (Suc N + ?k)"
        "sel_result T (a @ filter (\<lambda>y. \<not> bit m 0) [x]) (seen (sa_call st1) (Suc N) ?k b') (drop (length (seen (sa_call st1) (Suc N) ?k b')) b')
          u (r @ filter (\<lambda>y. \<not> bit m 0 \<and> lost ?c y) [x]) (bit_acked (sa_call st1) (Suc N) (drop_bit 1 m)) (sa_call st1) st'"
        using Suc.IH [OF inv1 ge N(1)] by blast
      have sn: "seen (sa_call st1) (Suc N) ?k b' = seen ?c (Suc N) ?k b'"
        unfolding seen_def by (rule takeWhile_cong) (use nm in auto)
      have b0: "bit_acked ?c N m x \<longleftrightarrow> bit m 0" using True by (simp add: bit_acked_def)
      have sub: "set (seen ?c (Suc N) ?k b') \<subseteq> set b'" unfolding seen_def by (auto dest: set_takeWhileD)
      have s1: "sel_result T a [x] b' u r (bit_acked ?c N m) ?c st1"
        using st1(2) sel_result_cong [of "[x]" "bit_acked ?c N m" "\<lambda>_. bit m 0"] b0 by simp
      have fe: "filter (\<lambda>y. \<not> bit m 0) [x] = filter (\<lambda>y. \<not> bit_acked ?c N m y) [x]"
        "filter (\<lambda>y. \<not> bit m 0 \<and> lost ?c y) [x] = filter (\<lambda>y. \<not> bit_acked ?c N m y \<and> lost ?c y) [x]"
        using b0 by simp_all
      have "sel_result T a ([x] @ seen ?c (Suc N) ?k b') (drop (length (seen ?c (Suc N) ?k b')) b') u r (bit_acked ?c N m) ?c st'"
      proof (rule sel_result_trans [OF s1])
        show "sel_result T (a @ filter (\<lambda>y. \<not> bit_acked ?c N m y) [x]) (seen ?c (Suc N) ?k b') (drop (length (seen ?c (Suc N) ?k b')) b')
          u (r @ filter (\<lambda>y. \<not> bit_acked ?c N m y \<and> lost ?c y) [x]) (bit_acked (sa_call st1) (Suc N) (drop_bit 1 m)) (sa_call st1) st'"
          using st'(3) unfolding sn fe .
        show "\<forall>y\<in>set (seen ?c (Suc N) ?k b'). bit_acked (sa_call st1) (Suc N) (drop_bit 1 m) y = bit_acked ?c N m y"
          using dr nm gt sub by blast
        show "set [x] \<inter> set (seen ?c (Suc N) ?k b') = {}" using xb sub by auto
      qed
      moreover have "seen ?c N (Suc ?k) b = [x] @ seen ?c (Suc N) ?k b'" using True by (simp add: seen_def b)
      ultimately show ?thesis using st'(1,2) step True st1(1) unfolding u1
        by (intro exI [of _ num'] exI [of _ st']) (simp add: b)
    next
      case False
      have ge: "\<forall>y\<in>set b. Suc N \<le> xnum (xqes ?c) y"
      proof (cases b)
        case (Cons y b')
        then have "y = x" using i(3) by (simp add: x_def)
        then have "N < xnum (xqes ?c) y" using False Suc.prems(2) Cons by force
        moreover have "\<forall>z\<in>set b'. xnum (xqes ?c) y < xnum (xqes ?c) z" using d(6) unfolding Cons by (auto simp: sorted_wrt_append)
        ultimately show ?thesis unfolding Cons by force
      qed simp
      obtain num' st' where st': "selack_bits n (drop_bit 1 m) final f (of_nat (Suc N)) st = Some (num', st')"
        "sa_curr st' \<noteq> NULL \<longrightarrow> num' = of_nat (Suc N + ?k)"
        "sel_result T a (seen ?c (Suc N) ?k b) (drop (length (seen ?c (Suc N) ?k b)) b)
          u r (bit_acked ?c (Suc N) (drop_bit 1 m)) ?c st'"
        using Suc.IH [OF Suc.prems(1) ge N(1)] by blast
      have sn: "seen ?c (Suc N) ?k b = seen ?c N (Suc ?k) b" by (simp add: seen_def)
      have sub: "set (seen ?c N (Suc ?k) b) \<subseteq> set b" unfolding seen_def by (auto dest: set_takeWhileD)
      have "\<forall>y\<in>set (seen ?c N (Suc ?k) b). bit_acked ?c (Suc N) (drop_bit 1 m) y = bit_acked ?c N m y"
        using dr [OF refl] ge sub by (auto simp: Suc_le_eq)
      then have "sel_result T a (seen ?c N (Suc ?k) b) (drop (length (seen ?c N (Suc ?k) b)) b) u r (bit_acked ?c N m) ?c st'"
        using st'(3) sel_result_cong [of "seen ?c N (Suc ?k) b" "bit_acked ?c (Suc N) (drop_bit 1 m)" "bit_acked ?c N m"] unfolding sn by blast
      then show ?thesis using st'(1,2) step False unfolding u1
        by (intro exI [of _ num'] exI [of _ st']) simp
    qed
  qed
qed

lemma used_bits_all [simp]: "used_bits n m False = n"
  by (induction n arbitrary: m) auto

lemma used_bits_le: "used_bits n m final \<le> n"
  by (induction n arbitrary: m) auto

text \<open>The number of bits looked at in a whole mask.\<close>

fun cover :: "u32 list \<Rightarrow> nat" where
  "cover [] = 0"
| "cover (m # ms) = used_bits 32 m (ms = []) + cover ms"

definition mask_acked :: "dg_xcall \<Rightarrow> nat \<Rightarrow> u32 list \<Rightarrow> addr \<Rightarrow> bool" where
  "mask_acked c N ms y \<longleftrightarrow> mask_bit ms (xnum (xqes c) y - N)"

lemma mask_bit_Cons: "k < 32 \<Longrightarrow> mask_bit (m # ms) k = bit m k" "mask_bit (m # ms) (32 + k) = mask_bit ms k"
  by (simp_all add: mask_bit_def div_add_self1)

lemma takeWhile_weaker: "(\<And>x. Q x \<Longrightarrow> P x) \<Longrightarrow> takeWhile P xs = takeWhile Q xs @ takeWhile P (drop (length (takeWhile Q xs)) xs)"
  by (induction xs) auto

lemma seen_add: "seen c N (k + K) b = seen c N k b @ seen c (N + k) K (drop (length (seen c N k b)) b)"
  unfolding seen_def add.assoc [symmetric] by (rule takeWhile_weaker) simp

lemma seen_rest:
  assumes "sorted_wrt (<) (map (xnum (xqes c)) b)" "y \<in> set (drop (length (seen c N k b)) b)"
  shows "N + k \<le> xnum (xqes c) y"
  using assms
proof (induction b)
  case (Cons x b)
  then show ?case by (cases "xnum (xqes c) x < N + k") (auto simp: seen_def)
qed simp

lemma seen_frame:
  assumes "sel_frame X c c'" "X \<inter> set b = {}"
  shows "seen c' N k b = seen c N k b" "\<forall>y\<in>set b. mask_acked c' N ms y = mask_acked c N ms y"
proof -
  have "xnum (xqes c') y = xnum (xqes c) y" if "y \<in> set b" for y
    using sel_frame_lost(1) [OF assms(1)] that assms(2) by blast
  then show "seen c' N k b = seen c N k b" "\<forall>y\<in>set b. mask_acked c' N ms y = mask_acked c N ms y"
    unfolding seen_def mask_acked_def by (auto intro!: takeWhile_cong)
qed

lemma selack_words_ex:
  assumes "sel_inv T a b u r st" "\<forall>y\<in>set b. N \<le> xnum (xqes (sa_call st)) y" "N + cover ws \<le> T - length u"
    and "n \<le> len" "len \<le> length (fp_selack f)" "ws = map (local32 f) (drop (len - n) (take len (fp_selack f)))"
  shows "\<exists>st'. selack_words n len f (of_nat N) st = Some st' \<and>
    sel_result T a (seen (sa_call st) N (cover ws) b) (drop (length (seen (sa_call st) N (cover ws) b)) b)
      u r (mask_acked (sa_call st) N ws) (sa_call st) st'"
  using assms
proof (induction n arbitrary: N a b r st ws)
  case 0
  then have "ws = []" by simp
  moreover have "seen (sa_call st) N 0 b = []" using 0(2) by (cases b) (auto simp: seen_def)
  ultimately show ?case using 0 sel_result_refl by (intro exI [of _ st]) simp
next
  case (Suc n)
  let ?c = "sa_call st" and ?i = "len - Suc n"
  note i = sel_invD [OF Suc.prems(1)]
  note d = xq_baseD [OF i(5)]
  define m where "m = local32 f (fp_selack f ! ?i)"
  define ws' where "ws' = map (local32 f) (drop (len - n) (take len (fp_selack f)))"
  have il: "?i < length (fp_selack f)" "?i < len" using Suc.prems(4,5) by simp_all
  have ws: "ws = m # ws'"
  proof -
    have "drop ?i (take len (fp_selack f)) = take len (fp_selack f) ! ?i # drop (Suc ?i) (take len (fp_selack f))"
      using il by (intro Cons_nth_drop_Suc [symmetric]) simp
    moreover have "Suc ?i = len - n" using Suc.prems(4) by simp
    ultimately show ?thesis unfolding Suc.prems(6) m_def ws'_def using il by simp
  qed
  have l: "length ws' = n" using Suc.prems(4,5) by (simp add: ws'_def)
  then have fin: "(n = 0) = (ws' = [])" by auto
  define k where "k = used_bits 32 m (n = 0)"
  have cv: "cover ws = k + cover ws'" unfolding ws k_def fin by simp
  have k32: "k \<le> 32" "n \<noteq> 0 \<Longrightarrow> k = 32" using used_bits_le [of 32 m] by (auto simp: k_def)
  have srt: "sorted_wrt (<) (map (xnum (xqes ?c)) b)" using d(6) by (auto simp: sorted_wrt_append)
  define p where "p = seen ?c N k b"
  have psub: "set p \<subseteq> set b" unfolding p_def seen_def by (auto dest: set_takeWhileD)
  have pn: "\<forall>y\<in>set p. N \<le> xnum (xqes ?c) y \<and> xnum (xqes ?c) y < N + k"
    using Suc.prems(2) psub unfolding p_def seen_def by (auto dest: set_takeWhileD)
  obtain num' st1 where st1: "selack_bits 32 m (n = 0) (fp_fragnum f) (of_nat N) st = Some (num', st1)"
    "sa_curr st1 \<noteq> NULL \<longrightarrow> num' = of_nat (N + k)"
    "sel_result T a p (drop (length p) b) u r (bit_acked ?c N m) ?c st1"
    using selack_bits_ex [OF Suc.prems(1,2), of 32 m "n = 0" "fp_fragnum f"] Suc.prems(3) cv unfolding k_def p_def by auto
  have pa: "\<forall>y\<in>set p. bit_acked ?c N m y = mask_acked ?c N ws y"
    using pn k32(1) unfolding ws bit_acked_def mask_acked_def by (auto simp: mask_bit_Cons(1))
  then have st1': "sel_result T a p (drop (length p) b) u r (mask_acked ?c N ws) ?c st1"
    using st1(3) sel_result_cong [of p "bit_acked ?c N m" "mask_acked ?c N ws"] by blast
  have step: "selack_words (Suc n) len f (of_nat N) st = (if sa_curr st1 = NULL then Some st1 else selack_words n len f num' st1)"
    using il(1) st1(1) by (simp add: Let_def m_def)
  have inv1: "sel_inv T (a @ filter (\<lambda>y. \<not> mask_acked ?c N ws y) p) (drop (length p) b) u
      (r @ filter (\<lambda>y. \<not> mask_acked ?c N ws y \<and> lost ?c y) p) st1"
    and fr1: "sel_frame (set (filter (mask_acked ?c N ws) p)) ?c (sa_call st1)" using st1' by (simp_all add: sel_result_def)
  have all: "seen ?c N (cover ws) b = p @ seen ?c (N + k) (cover ws') (drop (length p) b)" unfolding cv p_def by (rule seen_add)
  show ?case
  proof (cases "sa_curr st1 = NULL")
    case True
    then have "first_addr (drop (length p) b @ u) = NULL" using sel_invD(3) [OF inv1] by simp
    then have "drop (length p) b = []"
      using xq_base_elem [OF sel_invD(5) [OF inv1], of "hd (drop (length p) b)"] by (cases "drop (length p) b") auto
    then have "seen ?c (N + k) (cover ws') (drop (length p) b) = []" by (simp add: seen_def)
    then show ?thesis using True step st1' all by (intro exI [of _ st1]) simp
  next
    case False
    have dis: "set (filter (mask_acked ?c N ws) p) \<inter> set (drop (length p) b) = {}"
    proof -
      have "b = p @ drop (length p) b" unfolding p_def seen_def using takeWhile_eq_take [of _ b] by (metis append_take_drop_id)
      moreover have "distinct b" using d(2) by simp
      ultimately show ?thesis by (metis distinct_append disjoint_iff filter_is_subset subsetD)
    qed
    have ge: "\<forall>y\<in>set (drop (length p) b). N + k \<le> xnum (xqes (sa_call st1)) y"
    proof
      fix y assume y: "y \<in> set (drop (length p) b)"
      then have "xnum (xqes (sa_call st1)) y = xnum (xqes ?c) y" using sel_frame_lost(1) [OF fr1] dis by blast
      moreover have "N + k \<le> xnum (xqes ?c) y" using seen_rest [OF srt] y unfolding p_def by blast
      ultimately show "N + k \<le> xnum (xqes (sa_call st1)) y" by simp
    qed
    obtain st' where st': "selack_words n len f (of_nat (N + k)) st1 = Some st'"
      "sel_result T (a @ filter (\<lambda>y. \<not> mask_acked ?c N ws y) p) (seen (sa_call st1) (N + k) (cover ws') (drop (length p) b))
        (drop (length (seen (sa_call st1) (N + k) (cover ws') (drop (length p) b))) (drop (length p) b))
        u (r @ filter (\<lambda>y. \<not> mask_acked ?c N ws y \<and> lost ?c y) p) (mask_acked (sa_call st1) (N + k) ws') (sa_call st1) st'"
      using Suc.IH [OF inv1 ge _ _ Suc.prems(5) ws'_def] Suc.prems(3,4) cv by auto
    define p' where "p' = seen ?c (N + k) (cover ws') (drop (length p) b)"
    have p': "seen (sa_call st1) (N + k) (cover ws') (drop (length p) b) = p'" unfolding p'_def by (rule seen_frame(1) [OF fr1 dis])
    have p'sub: "set p' \<subseteq> set (drop (length p) b)" unfolding p'_def seen_def by (auto dest: set_takeWhileD)
    have "sel_result T a (p @ p') (drop (length p') (drop (length p) b)) u r (mask_acked ?c N ws) ?c st'"
    proof (rule sel_result_trans [OF st1' st'(2) [unfolded p']])
      show "\<forall>y\<in>set p'. mask_acked (sa_call st1) (N + k) ws' y = mask_acked ?c N ws y"
      proof
        fix y assume y: "y \<in> set p'"
        then have yb: "y \<in> set (drop (length p) b)" using p'sub by blast
        have nz: "n \<noteq> 0"
        proof
          assume "n = 0"
          then have "p' = takeWhile (\<lambda>y. xnum (xqes ?c) y < N + k) (drop (length p) b)" using fin by (simp add: p'_def seen_def)
          moreover have "\<forall>y\<in>set (drop (length p) b). \<not> xnum (xqes ?c) y < N + k" using seen_rest [OF srt] unfolding p_def by force
          ultimately have "p' = []" by (cases "drop (length p) b") simp_all
          then show False using y by simp
        qed
        have "N + 32 \<le> xnum (xqes ?c) y" using seen_rest [OF srt, of y N k] yb k32(2) [OF nz] unfolding p_def by simp
        then have "xnum (xqes ?c) y - N = 32 + (xnum (xqes ?c) y - (N + 32))" by simp
        then have "mask_bit ws (xnum (xqes ?c) y - N) = mask_bit ws' (xnum (xqes ?c) y - (N + 32))" unfolding ws using mask_bit_Cons(2) by metis
        then show "mask_acked (sa_call st1) (N + k) ws' y = mask_acked ?c N ws y"
          using seen_frame(2) [OF fr1 dis] yb k32(2) [OF nz] by (auto simp: mask_acked_def)
      qed
      have "set p \<inter> set (drop (length p) b) = {}"
      proof -
        have "b = p @ drop (length p) b" unfolding p_def seen_def using takeWhile_eq_take [of _ b] by (metis append_take_drop_id)
        moreover have "distinct b" using d(2) by simp
        ultimately show ?thesis by (metis distinct_append)
      qed
      then show "set p \<inter> set p' = {}" using p'sub by blast
    qed
    then show ?thesis using st'(1) step False st1(2) unfolding all p'_def [symmetric]
      by (intro exI [of _ st']) (simp add: add.commute)
  qed
qed

section \<open>The whole selective part\<close>

definition late :: "dg_xcall \<Rightarrow> addr \<Rightarrow> bool" where
  "late c x \<longleftrightarrow> RPC_DG_SERIAL_IS_LTE (xqe_serial (xelt (xqes c) x)) (last_fack_serial (xq c))"

lemma sel_frame_late:
  assumes "sel_frame X c c'" "y \<notin> X"
  shows "late c' y = late c y"
proof -
  have i: "same_info (xqes c) (xqes c') y" "q_sel (xq c') = q_sel (xq c)" using assms by (simp_all add: sel_frame_def)
  show ?thesis using i(1) q_sel_fields(7) [OF i(2)] by (simp add: same_info_def late_def)
qed

lemma selack_rest_ex:
  assumes "rex_inv T (a @ b) u r st" "set r \<subseteq> set a" "sa_curr st = first_addr (b @ u)"
  shows "\<exists>st'. selack_rest st = Some st' \<and> rex_inv T (a @ b) u (r @ filter (late (sa_call st)) b) st' \<and>
    sel_frame {} (sa_call st) (sa_call st')"
  using assms
proof (induction b arbitrary: a r st)
  case Nil
  then have "sa_curr st = first_unsent (xq (sa_call st))" using xq_baseD(3) [OF rex_invD(1) [OF Nil(1)]] by simp
  then show ?case using Nil by (intro exI [of _ st]) (simp add: selack_rest.simps Let_def)
next
  case (Cons x b)
  let ?c = "sa_call st"
  note ri = rex_invD [OF Cons.prems(1)]
  note d = xq_baseD [OF ri(1)]
  have x: "sa_curr st = x" using Cons.prems(3) by simp
  obtain e where e: "xget x (xqes ?c) = Some e" "xqes ?c x = Some e" "xelt (xqes ?c) x = e" "x \<noteq> NULL"
    using xq_base_elem [OF ri(1), of x] by auto
  have nu: "x \<noteq> first_unsent (xq ?c)" using d(2,3) e(4) by (cases u) auto
  have xr: "x \<in> set (a @ x # b)" "x \<notin> set r" using d(2) Cons.prems(2) by auto
  have lt: "RPC_DG_SERIAL_IS_LTE (xqe_serial e) (last_fack_serial (xq ?c)) = late ?c x" by (simp add: late_def e(3))
  obtain st1 where st1: "(if late ?c x then do { c \<leftarrow> leave_cwindow x ?c; rexmit_enqueue (st\<lparr>sa_call := c\<rparr>) } else Some st) = Some st1"
    "rex_inv T (a @ x # b) u (if late ?c x then r @ [x] else r) st1" "sel_frame {} ?c (sa_call st1)"
    "xqe_next (xelt (xqes (sa_call st1)) x) = xqe_next e"
  proof (cases "late ?c x")
    case False
    then show ?thesis using Cons.prems(1) e(3) by (intro that [of st]) simp_all
  next
    case True
    obtain c1 where c1: "leave_cwindow x ?c = Some c1"
      "rex_inv T (a @ x # b) u r (st\<lparr>sa_call := c1, sa_serial := sa_serial st, sa_incr := sa_incr st\<rparr>)"
      "\<not> xin (xqes c1) x" "sel_frame {} ?c c1" "\<forall>y. xqe_next (xelt (xqes c1) y) = xqe_next (xelt (xqes ?c) y)"
      using leave_cwindow_rex_inv [OF Cons.prems(1) xr, where ser = "sa_serial st" and incr = "sa_incr st"] by blast
    have e1: "st\<lparr>sa_call := c1, sa_serial := sa_serial st, sa_incr := sa_incr st\<rparr> = st\<lparr>sa_call := c1\<rparr>" by simp
    obtain st2 where st2: "rexmit_enqueue (st\<lparr>sa_call := c1\<rparr>) = Some st2" "rex_inv T (a @ x # b) u (r @ [x]) st2" "sel_frame {} c1 (sa_call st2)"
      "\<forall>y\<in>set ((a @ x # b) @ u). xqe_next (xelt (xqes (sa_call st2)) y) = xqe_next (xelt (xqes c1) y)"
      using rexmit_enqueue_ex [OF c1(2) [unfolded e1] _ xr] c1(3) x by auto
    show ?thesis
      by (rule that [of st2]) (use True c1 st2 sel_frame_trans [OF c1(4) st2(3)] e(3) in auto)
  qed
  obtain e2 where e2: "xget x (xqes (sa_call st1)) = Some e2" "xelt (xqes (sa_call st1)) x = e2"
    using xq_base_elem [OF rex_invD(1) [OF st1(2)], of x] by auto
  have n2: "xqe_next e2 = first_addr (b @ u)" using xq_base_next(1) [OF ri(1)] st1(4) e2(2) e(3) by simp
  let ?st1 = "st1\<lparr>sa_curr := xqe_next e2\<rparr>"
  have step: "selack_rest st = selack_rest ?st1"
    by (subst selack_rest.simps) (simp add: Let_def x nu e(1) lt st1(1) e2(1))
  have inv1: "rex_inv T ((a @ [x]) @ b) u (if late ?c x then r @ [x] else r) ?st1" using st1(2) by (simp add: rex_inv_def)
  have "set (if late ?c x then r @ [x] else r) \<subseteq> set (a @ [x])" "sa_curr ?st1 = first_addr (b @ u)" using Cons.prems(2) n2 by auto
  then obtain st' where st': "selack_rest ?st1 = Some st'"
    "rex_inv T ((a @ [x]) @ b) u ((if late ?c x then r @ [x] else r) @ filter (late (sa_call ?st1)) b) st'"
    "sel_frame {} (sa_call ?st1) (sa_call st')"
    using Cons.IH [OF inv1] by blast
  have "filter (late (sa_call ?st1)) b = filter (late ?c) b" using sel_frame_late [OF st1(3)] by (auto intro!: filter_cong)
  then have "rex_inv T (a @ x # b) u (r @ filter (late ?c) (x # b)) st'" using st'(2) by (auto split: if_splits)
  moreover have "sel_frame {} ?c (sa_call st')" using sel_frame_trans [OF st1(3), of "{}" "sa_call st'"] st'(3) by simp
  ultimately show ?case using step st'(1) by (intro exI [of _ st']) simp
qed

text \<open>Which of the fragments sent are sent again.\<close>

definition again :: "dg_xcall \<Rightarrow> nat \<Rightarrow> nat \<Rightarrow> addr \<Rightarrow> bool" where
  "again c N k y \<longleftrightarrow> (if xnum (xqes c) y < N + k then lost c y else late c y)"

lemma filter_seen:
  assumes "sorted_wrt (<) (map (xnum (xqes c)) b)"
  shows "seen c N k b = filter (\<lambda>y. xnum (xqes c) y < N + k) b"
    "drop (length (seen c N k b)) b = filter (\<lambda>y. \<not> xnum (xqes c) y < N + k) b"
proof -
  let ?P = "\<lambda>y. xnum (xqes c) y < N + k"
  have "takeWhile ?P b = filter ?P b \<and> dropWhile ?P b = filter (\<lambda>y. \<not> ?P y) b"
    using assms
  proof (induction b)
    case (Cons x b)
    show ?case
    proof (cases "?P x")
      case False
      then have "\<forall>y\<in>set b. \<not> ?P y" using Cons.prems by auto
      then show ?thesis using False by simp
    qed (use Cons in simp)
  qed simp
  then show "seen c N k b = filter ?P b" "drop (length (seen c N k b)) b = filter (\<lambda>y. \<not> ?P y) b"
    unfolding seen_def dropWhile_eq_drop by blast+
qed

text \<open>When no fragment in flight was received in order the number named is 0xFFFF, and no bit matches.\<close>

lemma selack_bits_skip:
  assumes "xq_base (sa_call st) T s u 0" "sa_curr st = first_addr (s @ u)" "65536 \<le> N" "N + n < 2 ^ 32"
  shows "\<exists>N'. selack_bits n m final f (of_nat N) st = Some (of_nat N', st) \<and> N' \<le> N + n \<and> 65536 \<le> N'"
  using assms(3,4)
proof (induction n arbitrary: N m)
  case 0
  then show ?case by (intro exI [of _ N]) simp
next
  case (Suc n)
  show ?case
  proof (cases "m = 0 \<and> final \<or> sa_curr st = NULL")
    case True
    then show ?thesis using Suc.prems by (intro exI [of _ N]) auto
  next
    case False
    have ne: "s @ u \<noteq> []" using False assms(2) by auto
    have xin: "sa_curr st \<in> set (s @ u)" using hd_in_set [OF ne] ne assms(2) by (simp add: first_addr_def)
    obtain e where e: "xget (sa_curr st) (xqes (sa_call st)) = Some e" "xelt (xqes (sa_call st)) (sa_curr st) = e"
      using xq_base_elem [OF assms(1) xin] by blast
    have "xnum (xqes (sa_call st)) (sa_curr st) < 65536" using xq_base_num [OF assms(1) xin] xq_baseD(10) [OF assms(1)] by simp
    then have "unat (xqe_fragnum e) < 65536" using e(2) by (simp add: xnum_def)
    moreover have "unat (of_nat N :: u32) = N" using Suc.prems(2) by (simp add: unsigned_of_nat take_bit_nat_eq_self)
    ultimately have nf: "of_nat N \<noteq> xqe_fragnum e" using Suc.prems(1) by auto
    have n1: "of_nat N + 1 = (of_nat (Suc N) :: u32)" by simp
    have "selack_bits (Suc n) m final f (of_nat N) st = selack_bits n (drop_bit 1 m) final f (of_nat (Suc N)) st"
      unfolding selack_bits.simps e(1) Option.bind.simps(2) n1 using nf False by auto
    moreover obtain N' where "selack_bits n (drop_bit 1 m) final f (of_nat (Suc N)) st = Some (of_nat N', st)" "N' \<le> Suc N + n" "65536 \<le> N'"
      using Suc.IH [of "Suc N" "drop_bit 1 m"] Suc.prems by auto
    ultimately show ?thesis by (intro exI [of _ N']) simp
  qed
qed

lemma selack_words_skip:
  assumes "xq_base (sa_call st) T s u 0" "sa_curr st = first_addr (s @ u)" "65536 \<le> N" "N + 32 * n < 2 ^ 32"
    "n \<le> len" "len \<le> length (fp_selack f)"
  shows "selack_words n len f (of_nat N) st = Some st"
  using assms(3-5)
proof (induction n arbitrary: N)
  case (Suc n)
  have "N + 32 < 2 ^ 32" using Suc.prems(2) by simp
  from selack_bits_skip [OF assms(1,2) Suc.prems(1) this, of "local32 f (fp_selack f ! (len - Suc n))" "n = 0" "fp_fragnum f"]
  obtain N' where "selack_bits 32 (local32 f (fp_selack f ! (len - Suc n))) (n = 0) (fp_fragnum f) (of_nat N) st = Some (of_nat N', st)"
    "N' \<le> N + 32" "65536 \<le> N'" by blast
  moreover have "len - Suc n < length (fp_selack f)" using Suc.prems(3) assms(6) by simp
  ultimately show ?case using Suc.IH [of N'] Suc.prems(2,3) by (simp add: Let_def)
qed simp

text \<open>The words of the mask, and the fragments it acknowledges.\<close>

definition fack_words :: "dg_fackpkt \<Rightarrow> u32 list" where
  "fack_words f = map (local32 f) (take (unat (local16 f (fp_selack_len f))) (fp_selack f))"

definition sel_cover :: "dg_fackpkt \<Rightarrow> nat" where
  "sel_cover f = (if fp_fragnum f = -1 then 0 else cover (fack_words f))"

definition sel_acked :: "dg_fackpkt \<Rightarrow> nat \<Rightarrow> bool" where
  "sel_acked f n \<longleftrightarrow> n < unat (fp_fragnum f) + 1 + sel_cover f \<and> fp_fragnum f \<noteq> -1 \<and> mask_bit (fack_words f) (n - (unat (fp_fragnum f) + 1))"

definition fack_again :: "dg_fackpkt \<Rightarrow> dg_xcall \<Rightarrow> addr \<Rightarrow> bool" where
  "fack_again f c y \<longleftrightarrow> (if fp_fragnum f = -1 then late c y else again c (unat (fp_fragnum f) + 1) (sel_cover f) y)"

lemma do_selective_ack_ex:
  assumes base: "xq_base c T b u 0" and r0: "rexmitq (xq c) = NULL"
    and len: "unat (local16 f (fp_selack_len f)) \<le> length (fp_selack f)"
    and hon: "fp_fragnum f \<noteq> -1 \<Longrightarrow> (\<forall>y\<in>set b. unat (fp_fragnum f) < xnum (xqes c) y) \<and> unat (fp_fragnum f) + 1 + sel_cover f \<le> T - length u"
  shows "\<exists>incr' rcnt c'. do_selective_ack f ser incr c = Some (incr', rcnt, c') \<and>
    xq_ok c' T (filter (\<lambda>y. \<not> sel_acked f (xnum (xqes c) y)) b) u
      (filter (\<lambda>y. \<not> sel_acked f (xnum (xqes c) y) \<and> fack_again f c y) b) \<and>
    sel_frame (set (filter (\<lambda>y. sel_acked f (xnum (xqes c) y)) b)) c c'"
proof -
  note d = xq_baseD [OF base]
  define ak where "ak = (\<lambda>y. sel_acked f (xnum (xqes c) y))"
  define len' where "len' = unat (local16 f (fp_selack_len f))"
  define N where "N = unat (fp_fragnum f) + 1"
  have ss: "sorted_wrt (<) (map (xnum (xqes c)) b)" using d(6) .
  have nf: "(ucast (fp_fragnum f) + 1 :: u32) = of_nat N" by (simp add: N_def)
  have lt: "len' < 65536" unfolding len'_def by (rule unat_u16_lt)
  define st0 where "st0 = \<lparr>sa_call = c, sa_prev = NULL, sa_curr = xq_head (xq c), sa_rtail = NULL, sa_serial = ser,
                sa_incr = incr, sa_rcnt = 0\<rparr>"
  have hd: "xq_head (xq c) = first_addr (b @ u)" using nseg_first [OF d(1)] .
  have inv0: "sel_inv T [] b u [] st0" using base r0 hd by (simp add: sel_inv_def rex_inv_def st0_def)
  have c0: "sa_call st0 = c" "sa_curr st0 = first_addr (b @ u)" by (simp_all add: st0_def hd)
  have "\<exists>st1 b1 p. selack_words len' len' f (ucast (fp_fragnum f) + 1) st0 = Some st1 \<and>
      rex_inv T (filter (\<lambda>y. \<not> ak y) p @ b1) u
        (filter (\<lambda>y. \<not> ak y \<and> fack_again f c y) p) st1 \<and>
      sel_frame (set (filter ak p)) c (sa_call st1) \<and> sa_curr st1 = first_addr (b1 @ u) \<and>
      b = p @ b1 \<and> (\<forall>y\<in>set b1. \<not> ak y \<and> fack_again f c y = late c y)"
  proof (cases "fp_fragnum f = -1")
    case True
    then have N: "N = 65536" by (simp add: N_def unsigned_minus_1_eq_mask mask_eq_exp_minus_1)
    have "selack_words len' len' f (of_nat N) st0 = Some st0"
      by (rule selack_words_skip [of st0 T b u]) (use base c0 N lt len len'_def in simp_all)
    moreover have "\<forall>y\<in>set b. \<not> ak y \<and> fack_again f c y = late c y" using True by (simp add: ak_def sel_acked_def fack_again_def)
    ultimately show ?thesis using inv0 c0 unfolding nf
      by (intro exI [of _ st0] exI [of _ b] exI [of _ "[]"]) (auto simp: sel_inv_def)
  next
    case False
    note h = hon [OF False]
    define ws where "ws = fack_words f"
    have ws: "ws = map (local32 f) (drop (len' - len') (take len' (fp_selack f)))" by (simp add: ws_def fack_words_def len'_def)
    have cv: "sel_cover f = cover ws" using False by (simp add: sel_cover_def ws_def)
    have a: "\<forall>y\<in>set b. N \<le> xnum (xqes (sa_call st0)) y" "N + cover ws \<le> T - length u" using h cv by (auto simp: c0 N_def)
    define p where "p = seen c N (cover ws) b"
    obtain st1 where st1: "selack_words len' len' f (of_nat N) st0 = Some st1"
      "sel_result T [] p (drop (length p) b) u [] (mask_acked c N ws) c st1"
      using selack_words_ex [OF inv0 a order_refl _ ws] len unfolding len'_def [symmetric] c0(1) p_def by blast
    have fs: "p = filter (\<lambda>y. xnum (xqes c) y < N + cover ws) b" "drop (length p) b = filter (\<lambda>y. \<not> xnum (xqes c) y < N + cover ws) b"
      using filter_seen [OF ss] by (simp_all add: p_def)
    have pb: "b = p @ drop (length p) b" unfolding p_def seen_def using takeWhile_eq_take [of _ b] by (metis append_take_drop_id)
    have pk: "\<forall>y\<in>set p. mask_acked c N ws y = ak y \<and> fack_again f c y = lost c y"
      using fs(1) False by (auto simp: ak_def sel_acked_def mask_acked_def ws_def cv N_def fack_again_def again_def)
    have e: "filter (\<lambda>y. \<not> mask_acked c N ws y) p = filter (\<lambda>y. \<not> ak y) p" "filter (mask_acked c N ws) p = filter ak p"
      "filter (\<lambda>y. \<not> mask_acked c N ws y \<and> lost c y) p = filter (\<lambda>y. \<not> ak y \<and> fack_again f c y) p"
      using pk by (auto intro!: filter_cong)
    have rest: "\<forall>y\<in>set (drop (length p) b). \<not> ak y \<and> fack_again f c y = late c y"
      unfolding fs(2) using False by (auto simp: ak_def sel_acked_def cv N_def fack_again_def again_def)
    show ?thesis using st1 pb rest unfolding nf sel_result_def sel_inv_def e
      by (intro exI [of _ st1] exI [of _ "drop (length p) b"] exI [of _ p] conjI) simp_all
  qed
  then obtain st1 b1 p where st1: "selack_words len' len' f (ucast (fp_fragnum f) + 1) st0 = Some st1"
    "rex_inv T (filter (\<lambda>y. \<not> ak y) p @ b1) u (filter (\<lambda>y. \<not> ak y \<and> fack_again f c y) p) st1"
    "sel_frame (set (filter ak p)) c (sa_call st1)" "sa_curr st1 = first_addr (b1 @ u)" "b = p @ b1"
    "\<forall>y\<in>set b1. \<not> ak y \<and> fack_again f c y = late c y" by blast
  have "set (filter (\<lambda>y. \<not> ak y \<and> fack_again f c y) p) \<subseteq> set (filter (\<lambda>y. \<not> ak y) p)" by auto
  then obtain st2 where st2: "selack_rest st1 = Some st2"
    "rex_inv T (filter (\<lambda>y. \<not> ak y) p @ b1) u (filter (\<lambda>y. \<not> ak y \<and> fack_again f c y) p @ filter (late (sa_call st1)) b1) st2"
    "sel_frame {} (sa_call st1) (sa_call st2)"
    using selack_rest_ex [OF st1(2) _ st1(4)] by blast
  have dis: "set (filter ak p) \<inter> set b1 = {}" using d(2) st1(5) by auto
  have "filter (late (sa_call st1)) b1 = filter (\<lambda>y. \<not> ak y \<and> fack_again f c y) b1"
    using st1(6) sel_frame_late [OF st1(3)] dis by (auto intro!: filter_cong)
  moreover have "b1 = filter (\<lambda>y. \<not> ak y) b1" "filter ak b1 = []" using st1(6) by (simp_all add: filter_empty_conv)
  ultimately have inv2: "rex_inv T (filter (\<lambda>y. \<not> ak y) b) u (filter (\<lambda>y. \<not> ak y \<and> fack_again f c y) b) st2"
    and fb: "filter ak p = filter ak b" using st2(2) st1(5) by simp_all
  have fr: "sel_frame (set (filter ak b)) c (sa_call st2)" using sel_frame_trans [OF st1(3) st2(3)] unfolding fb by simp
  have ok: "xq_ok (sa_call st2) T (filter (\<lambda>y. \<not> ak y) b) u (filter (\<lambda>y. \<not> ak y \<and> fack_again f c y) b)"
    using rex_invD [OF inv2] by (simp add: xq_ok_def)
  show ?thesis
  proof (cases "xq_head (xq c) = NULL")
    case True
    then have "b @ u = []" using hd xq_base_elem [OF base, of "hd (b @ u)"] by (cases "b @ u") (auto simp: first_addr_def split: if_splits)
    then have "do_selective_ack f ser incr c = Some (incr, 0, c)" "b = []" "u = []" using True by (simp_all add: do_selective_ack_def)
    then show ?thesis using base r0 by (simp add: xq_ok_def)
  next
    case False
    have "do_selective_ack f ser incr c = Some (sa_incr st2, sa_rcnt st2, sa_call st2)"
      unfolding do_selective_ack_def Let_def if_not_P [OF False] len'_def [symmetric] st0_def [symmetric] st1(1) Option.bind.simps(2) st2(1) ..
    then show ?thesis using ok fr unfolding ak_def
      by (intro exI [of _ "sa_incr st2"] exI [of _ "sa_rcnt st2"] exI [of _ "sa_call st2"]) simp
  qed
qed

section \<open>The whole fack\<close>

text \<open>The numbers a fack acknowledges.\<close>

definition fack_acked :: "dg_fackpkt \<Rightarrow> nat \<Rightarrow> bool" where
  "fack_acked f n \<longleftrightarrow> fp_fragnum f \<noteq> -1 \<and> (n \<le> unat (fp_fragnum f) \<or> fp_len f > 0 \<and> sel_acked f n)"

text \<open>
  A fack as a receiver sends it: without a body, or with one that has a mask (which can be empty);
  it has not looked beyond what has been sent.  \<open>S\<close> is the number of fragments sent.
\<close>

definition fack_honest :: "dg_fackpkt \<Rightarrow> nat \<Rightarrow> bool" where
  "fack_honest f S \<longleftrightarrow> (fp_len f = 0 \<or> fp_len f > 12 \<and> fp_vers f = 1) \<and>
     unat (local16 f (fp_selack_len f)) \<le> length (fp_selack f) \<and>
     (fp_fragnum f = -1 \<or> unat (fp_fragnum f) + 1 + (if fp_len f = 0 then 0 else sel_cover f) \<le> S)"

lemma named_iff:
  assumes "xnum h y < 32767" "fp_fragnum f = -1 \<or> unat (fp_fragnum f) < 32767"
  shows "named h (fp_fragnum f) y \<longleftrightarrow> fp_fragnum f \<noteq> -1 \<and> xnum h y \<le> unat (fp_fragnum f)"
proof -
  let ?a = "of_nat (xnum h y) :: u16" and ?b = "fp_fragnum f"
  have a: "uint ?a = int (xnum h y)" using assms(1) by (simp add: unsigned_of_nat take_bit_nat_eq_self)
  define d where "d = (uint ?a - uint ?b) mod 65536"
  have s: "sint (?a - ?b) = (if (uint ?a - uint ?b) mod 65536 < 32768 then (uint ?a - uint ?b) mod 65536 else (uint ?a - uint ?b) mod 65536 - 65536)"
    unfolding sint16 uint_sub16 ..
  have nm: "named h (fp_fragnum f) y \<longleftrightarrow> d = 0 \<or> 32768 \<le> d"
    unfolding named_def RPC_DG_FRAGNUM_IS_LTE_def s d_def [symmetric] using pos_mod_bound [of 65536 "uint ?a - uint ?b"] pos_mod_sign [of 65536 "uint ?a - uint ?b"]
    by (auto simp: d_def [symmetric])
  show ?thesis
  proof (cases "?b = -1")
    case True
    then have "uint ?b = 65535" by (simp add: unsigned_minus_1_eq_mask mask_eq_exp_minus_1)
    then have "uint ?a - uint ?b = (int (xnum h y) + 1) - 65536" using a by simp
    then have "(uint ?a - uint ?b) mod 65536 = (int (xnum h y) + 1) mod 65536" by (simp only: minus_mod_self2)
    also have "\<dots> = int (xnum h y) + 1" using assms(1) by (intro mod_pos_pos_trivial) simp_all
    finally have "(uint ?a - uint ?b) mod 65536 = int (xnum h y) + 1" .
    then show ?thesis using True nm assms(1) by (simp add: d_def)
  next
    case False
    then have b: "uint ?b = int (unat ?b)" "unat ?b < 32767" using assms(2) by simp_all
    define m n where "m = unat ?b" and "n = xnum h y"
    have mn: "uint ?b = int m" "m < 32767" "n < 32767" "unat ?b = m" "xnum h y = n" using b assms(1) by (simp_all add: m_def n_def)
    have "d = (if m \<le> n then int n - int m else int n - int m + 65536)"
    proof (cases "m \<le> n")
      case True
      then show ?thesis unfolding d_def a unfolding mn(1,5) using mn(2,3) by (simp add: mod_pos_pos_trivial)
    next
      case False
      have "(int n - int m) mod 65536 = (int n - int m + 65536) mod 65536" by (simp only: mod_add_self2)
      also have "\<dots> = int n - int m + 65536" using False mn(2) by (intro mod_pos_pos_trivial) simp_all
      finally show ?thesis unfolding d_def a unfolding mn(1,5) using False by simp
    qed
    then show ?thesis unfolding nm mn(4,5) using False mn(2,3) by (auto split: if_splits)
  qed
qed

lemma dropWhile_filter:
  assumes "sorted_wrt (<) (map g xs)" "\<And>x. x \<in> set xs \<Longrightarrow> P x \<longleftrightarrow> (g x :: nat) \<le> k \<and> B"
  shows "dropWhile P xs = filter (\<lambda>x. \<not> P x) xs" "takeWhile P xs = filter P xs"
proof -
  have "dropWhile P xs = filter (\<lambda>x. \<not> P x) xs \<and> takeWhile P xs = filter P xs"
    using assms
  proof (induction xs)
    case (Cons x xs)
    show ?case
    proof (cases "P x")
      case False
      then have "\<forall>y\<in>set xs. \<not> P y" using Cons.prems by fastforce
      then show ?thesis using False by simp
    next
      case True
      then show ?thesis using Cons.IH Cons.prems by simp
    qed
  qed simp
  then show "dropWhile P xs = filter (\<lambda>x. \<not> P x) xs" "takeWhile P xs = filter P xs" by blast+
qed

lemma fack_adjust_fields:
  "xq_head (fack_adjust k q) = xq_head q" "first_unsent (fack_adjust k q) = first_unsent q" "xq_tail (fack_adjust k q) = xq_tail q"
  "xq_next_fragnum (fack_adjust k q) = xq_next_fragnum q" "base_flags (fack_adjust k q) = base_flags q"
  "freqs_out (fack_adjust k q) = freqs_out q" "cwindow_size (fack_adjust k q) = cwindow_size q" "rexmitq (fack_adjust k q) = rexmitq q"
  "part_xqe (fack_adjust k q) = part_xqe q" "xq_push (fack_adjust k q) = xq_push q" "snd_frag_size (fack_adjust k q) = snd_frag_size q"
  "xq_window_size (fack_adjust k q) = xq_window_size q" "blast_size (fack_adjust k q) = blast_size q"
  by (simp_all add: fack_adjust_def raise_throttle_def Let_def)

lemma fack_set_frag_size_fields:
  "xqes (fack_set_frag_size pv z c) = xqes c" "xq_head (xq (fack_set_frag_size pv z c)) = xq_head (xq c)"
  "first_unsent (xq (fack_set_frag_size pv z c)) = first_unsent (xq c)" "xq_tail (xq (fack_set_frag_size pv z c)) = xq_tail (xq c)"
  "xq_next_fragnum (xq (fack_set_frag_size pv z c)) = xq_next_fragnum (xq c)" "base_flags (xq (fack_set_frag_size pv z c)) = base_flags (xq c)"
  "freqs_out (xq (fack_set_frag_size pv z c)) = freqs_out (xq c)" "cwindow_size (xq (fack_set_frag_size pv z c)) = cwindow_size (xq c)"
  "rexmitq (xq (fack_set_frag_size pv z c)) = rexmitq (xq c)" "part_xqe (xq (fack_set_frag_size pv z c)) = part_xqe (xq c)"
  "xq_push (xq (fack_set_frag_size pv z c)) = xq_push (xq c)" "z \<noteq> 0 \<Longrightarrow> snd_frag_size (xq c) \<noteq> 0 \<Longrightarrow> snd_frag_size (xq (fack_set_frag_size pv z c)) \<noteq> 0"
  "sent_pkts (fack_set_frag_size pv z c) = sent_pkts c" "xc_state (fack_set_frag_size pv z c) = xc_state c"
  "sock_disabled (fack_set_frag_size pv z c) = sock_disabled c" "xc_is_private (fack_set_frag_size pv z c) = xc_is_private c"
  by (simp_all add: fack_set_frag_size_def split: option.splits)

text \<open>What a fack leaves alone; \<open>X\<close> are the elements freed.\<close>

definition fack_frame :: "addr set \<Rightarrow> dg_xcall \<Rightarrow> dg_xcall \<Rightarrow> bool" where
  "fack_frame X c c' \<longleftrightarrow> (\<forall>y\<in>X. xqes c' y = None) \<and> (\<forall>y. y \<notin> X \<longrightarrow> same_info (xqes c) (xqes c') y) \<and>
     part_xqe (xq c') = part_xqe (xq c) \<and> xq_push (xq c') = xq_push (xq c) \<and> base_flags (xq c') = base_flags (xq c) \<and>
     first_unsent (xq c') = first_unsent (xq c) \<and> xq_next_fragnum (xq c') = xq_next_fragnum (xq c) \<and>
     sent_pkts c' = sent_pkts c \<and> xc_state c' = xc_state c \<and> sock_disabled c' = sock_disabled c \<and>
     xc_is_private c' = xc_is_private c \<and> xc_is_cbk c' = xc_is_cbk c \<and> xc_status c' = xc_status c \<and> xc_signals c' = xc_signals c \<and>
     com_timeout_knob c' = com_timeout_knob c"

lemma fack_frame_trans:
  assumes "fack_frame X c c1" "fack_frame Y c1 c2"
  shows "fack_frame (X \<union> Y) c c2"
proof -
  note a = assms(1) [unfolded fack_frame_def] and b = assms(2) [unfolded fack_frame_def]
  have "\<forall>y\<in>X \<union> Y. xqes c2 y = None" using a b by (auto simp: same_info_def)
  moreover have "\<forall>y. y \<notin> X \<union> Y \<longrightarrow> same_info (xqes c) (xqes c2) y" using a b same_info_trans by blast
  ultimately show ?thesis using a b by (simp add: fack_frame_def)
qed

lemma sel_frame_fack: "sel_frame X c c' \<Longrightarrow> fack_frame X c c'"
proof -
  assume a: "sel_frame X c c'"
  then have q: "q_sel (xq c') = q_sel (xq c)" and e: "c' = c\<lparr>xq := xq c', xqes := xqes c'\<rparr>" by (simp_all add: sel_frame_def)
  have "sent_pkts c' = sent_pkts c \<and> xc_state c' = xc_state c \<and> sock_disabled c' = sock_disabled c \<and>
     xc_is_private c' = xc_is_private c \<and> xc_is_cbk c' = xc_is_cbk c \<and> xc_status c' = xc_status c \<and> xc_signals c' = xc_signals c \<and>
     com_timeout_knob c' = com_timeout_knob c"
    by (subst (1 2 3 4 5 6 7 8) e) simp
  then show ?thesis using a q_sel_fields [OF q] by (simp add: fack_frame_def sel_frame_def)
qed

lemma fack_snd_frag_size_nz: "fack_snd_frag_size f q \<noteq> 0"
  by (simp add: fack_snd_frag_size_def Let_def)

lemma do_fack_body_ex:
  assumes base: "xq_base c T b u 0" and r0: "rexmitq (xq c) = NULL" and v: "fp_vers f = 1" "fp_len f > 12"
    and sz: "snd_frag_size (xq c) \<noteq> 0"
    and len: "unat (local16 f (fp_selack_len f)) \<le> length (fp_selack f)"
    and hon: "fp_fragnum f \<noteq> -1 \<Longrightarrow> (\<forall>y\<in>set b. unat (fp_fragnum f) < xnum (xqes c) y) \<and> unat (fp_fragnum f) + 1 + sel_cover f \<le> T - length u"
  shows "\<exists>incr' rcnt c'. do_fack_body pv f ser incr c = Some (incr', rcnt, c') \<and>
    xq_ok c' T (filter (\<lambda>y. \<not> sel_acked f (xnum (xqes c) y)) b) u
      (filter (\<lambda>y. \<not> sel_acked f (xnum (xqes c) y) \<and> fack_again f c y) b) \<and>
    fack_frame (set (filter (\<lambda>y. sel_acked f (xnum (xqes c) y)) b)) c c' \<and> snd_frag_size (xq c') \<noteq> 0"
proof -
  define c0 where "c0 = c\<lparr>xq := (xq c)\<lparr>xq_window_size := local16 f (fp_window f)\<rparr>\<rparr>"
  have c0: "xqes c0 = xqes c" "rexmitq (xq c0) = NULL" "last_fack_serial (xq c0) = last_fack_serial (xq c)" "snd_frag_size (xq c0) \<noteq> 0"
    using r0 sz by (simp_all add: c0_def)
  have b0: "xq_base c0 T b u 0" using base xq_base_cong [of c0 c 0 0] by (simp add: c0_def)
  have ag: "fack_again f c0 = fack_again f c" 
    by (rule ext) (simp add: c0(1,3) fack_again_def again_def lost_def late_def)
  obtain incr' rcnt c1 where c1: "do_selective_ack f ser incr c0 = Some (incr', rcnt, c1)"
    "xq_ok c1 T (filter (\<lambda>y. \<not> sel_acked f (xnum (xqes c) y)) b) u
      (filter (\<lambda>y. \<not> sel_acked f (xnum (xqes c) y) \<and> fack_again f c y) b)"
    "sel_frame (set (filter (\<lambda>y. sel_acked f (xnum (xqes c) y)) b)) c0 c1"
    using do_selective_ack_ex [OF b0 c0(2) len, of ser incr] hon unfolding c0(1) ag by blast
  define z where "z = fack_snd_frag_size f (xq c0)"
  have zn: "z \<noteq> 0" unfolding z_def by (rule fack_snd_frag_size_nz)
  define c2 where "c2 = fack_set_frag_size pv z c1"
  have "q_sel (xq c1) = q_sel (xq c0)" using c1(3) by (simp add: sel_frame_def)
  then have s1: "snd_frag_size (xq c1) \<noteq> 0" using c0(4) q_sel_fields(9) by metis
  then have s2: "snd_frag_size (xq c2) \<noteq> 0" unfolding c2_def using fack_set_frag_size_fields(12) [OF zn] by blast
  define c3 where "c3 = (if xq_window_size (xq c2) > 2 then c2\<lparr>xq := (xq c2)\<lparr>xq_window_size := ucast (push_bit 10 (ucast (xq_window_size (xq c2)) :: u32) div snd_frag_size (xq c2))\<rparr>\<rparr> else c2)"
  have r: "do_fack_body pv f ser incr c = Some (incr', rcnt, c3)"
    using v c1(1) s2 unfolding do_fack_body_def Let_def c0_def [symmetric] z_def [symmetric]
    by (simp add: c2_def [symmetric] c3_def)
  have ok3: "xq_ok c3 T s' u r' = xq_ok c1 T s' u r'" for s' r'
    by (rule xq_ok_cong) (simp_all add: c3_def c2_def fack_set_frag_size_fields)
  have f0: "fack_frame {} c c0" by (simp add: fack_frame_def c0_def)
  have f3: "fack_frame {} c1 c3"
    unfolding fack_frame_def c3_def c2_def fack_set_frag_size_def by (simp split: option.splits) auto
  have "fack_frame (set (filter (\<lambda>y. sel_acked f (xnum (xqes c) y)) b)) c c3"
    using fack_frame_trans [OF fack_frame_trans [OF f0 sel_frame_fack [OF c1(3)]] f3] by simp
  then show ?thesis using r c1(2) s2 unfolding ok3 [symmetric]
    by (intro exI [of _ incr'] exI [of _ rcnt] exI [of _ c3]) (simp add: c3_def)
qed

section \<open>The next blast\<close>

lemma fack_blast_bounds:
  "0 \<le> fack_blast i q" "fack_blast i q \<le> 255"
  "fack_blast i q = 0 \<or> uint (cwindow_size q) + fack_blast i q \<le> uint (xq_window_size q)"
proof -
  define b where "b = max (min (ucast (blast_size q) + 2 * i) (ucast (max_blast_size q))) (2 :: u32)"
  have m: "uint (ucast (max_blast_size q) :: u32) \<le> 255"
    using uint_lt2p [of "max_blast_size q"] by (simp add: unsigned_ucast_eq take_bit_int_eq_self)
  have "uint (min (ucast (blast_size q) + 2 * i) (ucast (max_blast_size q)) :: u32) \<le> 255"
    using m by (auto simp: min_def word_le_def)
  then have b: "uint b \<le> 255" unfolding b_def by (auto simp: max_def word_le_def)
  have f: "fack_blast i q = (if uint (cwindow_size q) + uint b > uint (xq_window_size q)
      then max (uint (xq_window_size q) - uint (cwindow_size q)) 0 else uint b)"
    by (simp add: fack_blast_def b_def Let_def)
  show "0 \<le> fack_blast i q" "fack_blast i q \<le> 255"
    "fack_blast i q = 0 \<or> uint (cwindow_size q) + fack_blast i q \<le> uint (xq_window_size q)"
    using b unfolding f by (auto simp: max_def)
qed

text \<open>The blast size stored, \<open>ready\<close> packets being at hand.\<close>

definition next_blast :: "u32 \<Rightarrow> int \<Rightarrow> u8" where
  "next_blast ready blast = (if ready < word_of_int blast then ucast ready else word_of_int blast)"

lemma next_blast_le:
  assumes "0 \<le> b" "b \<le> 255"
  shows "uint (next_blast ready b) \<le> b"
proof -
  have w: "uint (word_of_int b :: u32) = b" "uint (word_of_int b :: u8) = b" using assms by (simp_all add: unsigned_of_int take_bit_int_eq_self)
  show ?thesis
  proof (cases "ready < word_of_int b")
    case True
    then have "uint ready < b" unfolding word_less_def w .
    moreover have "uint (ucast ready :: u8) = uint ready" using calculation assms by (simp add: unsigned_ucast_eq take_bit_int_eq_self)
    ultimately show ?thesis using True by (simp add: next_blast_def)
  next
    case False
    then show ?thesis using w by (simp add: next_blast_def)
  qed
qed

lemma next_blast_window:
  assumes "b = fack_blast i q" "cwindow_size q' = cwindow_size q" "xq_window_size q' = xq_window_size q"
  shows "next_blast ready b = 0 \<or> uint (cwindow_size q') + uint (next_blast ready b) \<le> uint (xq_window_size q')"
proof -
  have le: "uint (next_blast ready b) \<le> b" using next_blast_le fack_blast_bounds(1,2) [of i q] assms(1) by blast
  show ?thesis
  proof (cases "b = 0")
    case True
    then have "uint (next_blast ready b) = 0" using le by simp
    then show ?thesis by (simp add: uint_0_iff)
  next
    case False
    then have "uint (cwindow_size q) + b \<le> uint (xq_window_size q)" using fack_blast_bounds(3) [of i q] assms(1) by simp
    then show ?thesis using le assms(2,3) by simp
  qed
qed

lemma fack_ready_ex: "xq_base c T s u k \<Longrightarrow> \<exists>n. fack_ready rc c = Some n"
proof -
  assume a: "xq_base c T s u k"
  show ?thesis
  proof (cases u)
    case Nil
    then show ?thesis using xq_base_all_sent [OF a] by (simp add: fack_ready_def)
  next
    case (Cons x u')
    then have "first_unsent (xq c) = x" using xq_baseD(3) [OF a] by simp
    moreover obtain e where "xget x (xqes c) = Some e" using xq_base_elem [OF a, of x] Cons by auto
    ultimately show ?thesis by (simp add: fack_ready_def)
  qed
qed

text \<open>Which of the fragments left are to be sent again.\<close>

definition fack_resend :: "dg_fackpkt \<Rightarrow> dg_xcall \<Rightarrow> addr \<Rightarrow> bool" where
  "fack_resend f c y \<longleftrightarrow> fp_len f > 0 \<and> fack_again f (c\<lparr>xq := (xq c)\<lparr>last_fack_serial := local16 f (fp_serial f)\<rparr>\<rparr>) y"

lemma fack_again_cong:
  assumes "xnum (xqes c') y = xnum (xqes c) y" "xqe_serial (xelt (xqes c') y) = xqe_serial (xelt (xqes c) y)"
    "last_fack_serial (xq c') = last_fack_serial (xq c)"
  shows "fack_again f c' y = fack_again f c y"
  unfolding fack_again_def again_def lost_def late_def assms ..

text \<open>The condition for starting the transmission at once.\<close>

definition fack_starts :: "dg_xcall \<Rightarrow> bool \<Rightarrow> bool" where
  "fack_starts c sent \<longleftrightarrow> \<not> xc_is_private c \<and>
     (sent \<or> \<not> first_fack_seen (xq c) \<and> xq_next_fragnum (xq c) = 1 \<and> \<not> xc_is_cbk c \<and> xc_state c = Cs_xmit)"

lemma fack_common_ex:
  assumes ok: "xq_ok c T s u r" and hon: "fack_honest f (T - length u)" and T: "T \<le> 32767" and sz: "snd_frag_size (xq c) \<noteq> 0"
  shows "\<exists>c1. rpc__dg_fack_common pv f c = (do {
        c2 \<leftarrow> (if fack_starts c (blast_size (xq c1) > 0) then RPC_DG_START_XMIT c1 else Some c1);
        Some (blast_size (xq c1) > 0, if xq_window_size (xq c2) > 0 then c2\<lparr>xq := (xq c2)\<lparr>rexmit_timeout := RPC_CLOCK_SEC 2\<rparr>\<rparr> else c2) }) \<and>
    xq_ok c1 T (filter (\<lambda>y. \<not> fack_acked f (xnum (xqes c) y)) s) u
      (filter (\<lambda>y. \<not> fack_acked f (xnum (xqes c) y) \<and> fack_resend f c y) s) \<and>
    fack_frame (set (filter (\<lambda>y. fack_acked f (xnum (xqes c) y)) s)) c c1 \<and> snd_frag_size (xq c1) \<noteq> 0 \<and>
    (blast_size (xq c1) = 0 \<or> uint (cwindow_size (xq c1)) + uint (blast_size (xq c1)) \<le> uint (xq_window_size (xq c1)))"
proof -
  note base = xq_okD(1) [OF ok]
  note d = xq_baseD [OF base]
  let ?us = "fp_len f > 12 \<and> fp_vers f = 1"
  obtain t cs where st: "call_stamp c = (t, c\<lparr>xc_clock := cs\<rparr>)" using call_stamp_eq by blast
  define c0 where "c0 = c\<lparr>xc_clock := cs, xc_last_rcv := t, xq := (xq c)\<lparr>first_fack_seen := True, awaiting_ack := False, rexmitq := NULL,
               last_fack_serial := (if ?us then local16 f (fp_serial f) else last_fack_serial (xq c))\<rparr>\<rparr>"
  define ser where "ser = (if ?us then last_fack_serial (xq c) else 0)"
  have h0: "xqes c0 = xqes c" by (simp add: c0_def)
  have t0: "tailed c0 (s @ u) = c0" using d(4) by (simp add: tailed_def c0_def)
  have b0: "xq_base c0 T s u 0" using base xq_base_cong [of c0 c 0 0] by (simp add: c0_def)
  define ak where "ak = (\<lambda>y. fack_acked f (xnum (xqes c) y))"
  let ?nm = "named (xqes c) (fp_fragnum f)"
  have small: "\<forall>y\<in>set s. xnum (xqes c) y < 32767" using d(7) T by fastforce
  have fs: "fp_fragnum f = -1 \<or> unat (fp_fragnum f) < 32767" using hon T by (auto simp: fack_honest_def)
  have nm: "?nm y \<longleftrightarrow> fp_fragnum f \<noteq> -1 \<and> xnum (xqes c) y \<le> unat (fp_fragnum f)" if "y \<in> set s" for y
    using named_iff [OF _ fs, of "xqes c" y] small that by simp
  define s1 where "s1 = dropWhile ?nm s"
  have s1: "s1 = filter (\<lambda>y. \<not> ?nm y) s" "takeWhile ?nm s = filter ?nm s"
    using dropWhile_filter [OF d(6), of ?nm "unat (fp_fragnum f)" "fp_fragnum f \<noteq> -1"] nm unfolding s1_def by blast+
  obtain ser' incr' c1 where c1: "fack_inclusive f ?us ser 0 c0 = Some (ser', incr', c1)"
    "xq_base (tailed c1 (s1 @ u)) T s1 u 0" "xqes c1 = (\<lambda>y. if y \<in> set (filter ?nm s) then None else xqes c y)"
    "q_inc (xq c1) = q_inc (xq c0)" "c1 = c0\<lparr>xq := xq c1, xqes := xqes c1\<rparr>"
    using fack_inclusive_ex [of c0 s u T f ?us ser 0] b0 unfolding t0 h0 unfolding s1_def [symmetric] s1(2) by blast
  note q1 = q_inc_fields [OF c1(4)]
  define c2 where "c2 = (if xq_head (xq c1) = NULL then c1\<lparr>xq := (xq c1)\<lparr>xq_tail := NULL\<rparr>\<rparr> else c1)"
  have hd1: "xq_head (xq c1) = NULL \<longleftrightarrow> s1 @ u = []"
    using nseg_first [OF xq_baseD(1) [OF c1(2)]] xq_base_elem [OF c1(2), of "hd (s1 @ u)"]
    by (cases "s1 @ u") (auto simp: first_addr_def split: if_splits)
  have c2: "c2 = tailed c1 (s1 @ u)"
  proof (cases "s1 @ u = []")
    case True
    then show ?thesis using hd1 by (simp add: c2_def tailed_def)
  next
    case False
    have "xq_tail (xq c1) = last_addr (s @ u)" using q1(1) d(4) by (simp add: c0_def)
    moreover have "last_addr (s @ u) = last_addr (s1 @ u)"
    proof -
      have "s = takeWhile ?nm s @ s1" by (simp add: s1_def)
      then have "s @ u = takeWhile ?nm s @ (s1 @ u)" by simp
      then show ?thesis using False by (metis last_addr_simps(3))
    qed
    ultimately show ?thesis using False hd1 by (simp add: c2_def tailed_def)
  qed
  have b2: "xq_base c2 T s1 u 0" using c1(2) unfolding c2 .
  have h2: "xqes c2 = (\<lambda>y. if y \<in> set (filter ?nm s) then None else xqes c y)" by (simp add: c2 c1(3))
  have x2: "xnum (xqes c2) y = xnum (xqes c) y" "xqe_serial (xelt (xqes c2) y) = xqe_serial (xelt (xqes c) y)" if "y \<in> set s1" for y
    using that unfolding s1(1) by (simp_all add: h2 xnum_def xelt_def)
  have q2: "rexmitq (xq c2) = NULL" "snd_frag_size (xq c2) \<noteq> 0" "last_fack_serial (xq c2) = last_fack_serial (xq c0)"
    using q1 sz by (simp_all add: c2 tailed_def c0_def)
  have f2: "fack_frame (set (filter ?nm s)) c c2"
  proof -
    have "sent_pkts c1 = sent_pkts c0 \<and> xc_state c1 = xc_state c0 \<and> sock_disabled c1 = sock_disabled c0 \<and>
      xc_is_private c1 = xc_is_private c0 \<and> xc_is_cbk c1 = xc_is_cbk c0 \<and> xc_status c1 = xc_status c0 \<and> xc_signals c1 = xc_signals c0 \<and>
      com_timeout_knob c1 = com_timeout_knob c0"
      by (subst (1 2 3 4 5 6 7 8) c1(5)) simp
    then show ?thesis using q1 by (simp add: fack_frame_def c2 tailed_def c0_def c1(3) same_info_def xnum_def xelt_def)
  qed
  have "\<exists>incr'' rcnt c3. (if fp_len f > 0 then if ?us then do_fack_body pv f ser' incr' c2 else None else Some (incr', 0, c2)) = Some (incr'', rcnt, c3) \<and>
      xq_ok c3 T (filter (\<lambda>y. \<not> ak y) s) u (filter (\<lambda>y. \<not> ak y \<and> fack_resend f c y) s) \<and>
      fack_frame (set (filter ak s)) c c3 \<and> snd_frag_size (xq c3) \<noteq> 0"
  proof (cases "fp_len f > 0")
    case False
    then have "fp_len f = 0" by (simp add: word_neq_0_conv [symmetric])
    then have a: "ak y = ?nm y" if "y \<in> set s" for y using nm [OF that] by (simp add: ak_def fack_acked_def)
    have e: "filter (\<lambda>y. \<not> ak y) s = s1" "filter ak s = filter ?nm s" "filter (\<lambda>y. \<not> ak y \<and> fack_resend f c y) s = []"
      using a False unfolding s1(1) by (auto intro!: filter_cong simp: fack_resend_def filter_empty_conv)
    have "xq_ok c2 T s1 u []" using b2 q2(1) by (simp add: xq_ok_def)
    then show ?thesis using False f2 q2(2) unfolding e by simp
  next
    case True
    then have us: "fp_len f > 12" "fp_vers f = 1" using hon by (auto simp: fack_honest_def)
    have len: "unat (local16 f (fp_selack_len f)) \<le> length (fp_selack f)" using hon by (simp add: fack_honest_def)
    have "(\<forall>y\<in>set s1. unat (fp_fragnum f) < xnum (xqes c2) y) \<and> unat (fp_fragnum f) + 1 + sel_cover f \<le> T - length u" if "fp_fragnum f \<noteq> -1"
    proof
      show "\<forall>y\<in>set s1. unat (fp_fragnum f) < xnum (xqes c2) y" using that nm x2(1) unfolding s1(1) by auto
      show "unat (fp_fragnum f) + 1 + sel_cover f \<le> T - length u" using hon that True word_neq_0_conv [of "fp_len f"] by (auto simp: fack_honest_def)
    qed
    from do_fack_body_ex [OF b2 q2(1) us(2,1) q2(2) len this, of pv ser' incr']
    obtain incr'' rcnt c3 where c3: "do_fack_body pv f ser' incr' c2 = Some (incr'', rcnt, c3)"
      "xq_ok c3 T (filter (\<lambda>y. \<not> sel_acked f (xnum (xqes c2) y)) s1) u
        (filter (\<lambda>y. \<not> sel_acked f (xnum (xqes c2) y) \<and> fack_again f c2 y) s1)"
      "fack_frame (set (filter (\<lambda>y. sel_acked f (xnum (xqes c2) y)) s1)) c2 c3" "snd_frag_size (xq c3) \<noteq> 0" by blast
    have ag: "fack_again f c2 y = fack_resend f c y" if "y \<in> set s1" for y
    proof -
      let ?c = "c\<lparr>xq := (xq c)\<lparr>last_fack_serial := local16 f (fp_serial f)\<rparr>\<rparr>"
      have "fack_again f c2 y = fack_again f ?c y"
        by (rule fack_again_cong) (use x2 [OF that] us q2(3) in \<open>simp_all add: c0_def\<close>)
      then show ?thesis using True by (simp add: fack_resend_def)
    qed
    have sk: "sel_acked f (xnum (xqes c2) y) = ak y" if "y \<in> set s1" for y
      using that nm [of y] x2(1) [OF that] True unfolding s1(1) by (auto simp: ak_def fack_acked_def sel_acked_def)
    have na: "?nm y \<Longrightarrow> ak y" if "y \<in> set s" for y using nm [OF that] by (simp add: ak_def fack_acked_def)
    have e1: "filter (\<lambda>y. \<not> sel_acked f (xnum (xqes c2) y)) s1 = filter (\<lambda>y. \<not> ak y) s"
    proof -
      have "filter (\<lambda>y. \<not> sel_acked f (xnum (xqes c2) y)) s1 = filter (\<lambda>y. \<not> ak y) s1" using sk by (intro filter_cong) auto
      also have "\<dots> = filter (\<lambda>y. \<not> ak y) s" unfolding s1(1) filter_filter using na by (intro filter_cong) auto
      finally show ?thesis .
    qed
    have e2: "filter (\<lambda>y. \<not> sel_acked f (xnum (xqes c2) y) \<and> fack_again f c2 y) s1 = filter (\<lambda>y. \<not> ak y \<and> fack_resend f c y) s"
    proof -
      have "filter (\<lambda>y. \<not> sel_acked f (xnum (xqes c2) y) \<and> fack_again f c2 y) s1 = filter (\<lambda>y. \<not> ak y \<and> fack_resend f c y) s1"
        using sk ag by (intro filter_cong) auto
      also have "\<dots> = filter (\<lambda>y. \<not> ak y \<and> fack_resend f c y) s" unfolding s1(1) filter_filter using na by (intro filter_cong) auto
      finally show ?thesis .
    qed
    have e3: "set (filter ?nm s) \<union> set (filter (\<lambda>y. sel_acked f (xnum (xqes c2) y)) s1) = set (filter ak s)"
    proof -
      have "set (filter (\<lambda>y. sel_acked f (xnum (xqes c2) y)) s1) = set (filter ak s1)" using sk by auto
      then show ?thesis unfolding s1(1) using na by auto
    qed
    show ?thesis using True us c3(1,4) c3(2) [unfolded e1 e2] fack_frame_trans [OF f2 c3(3)] unfolding e3
      by (intro exI [of _ incr''] exI [of _ rcnt] exI [of _ c3]) simp
  qed
  then obtain incr'' rcnt c3 where c3: "(if fp_len f > 0 then if ?us then do_fack_body pv f ser' incr' c2 else None else Some (incr', 0, c2)) = Some (incr'', rcnt, c3)"
      "xq_ok c3 T (filter (\<lambda>y. \<not> ak y) s) u (filter (\<lambda>y. \<not> ak y \<and> fack_resend f c y) s)"
      "fack_frame (set (filter ak s)) c c3" "snd_frag_size (xq c3) \<noteq> 0" by blast
  define c4 where "c4 = c3\<lparr>xq := fack_adjust rcnt (xq c3)\<rparr>"
  have ok4: "xq_ok c4 T s' u r' = xq_ok c3 T s' u r'" for s' r'
    by (rule xq_ok_cong) (simp_all add: c4_def fack_adjust_fields)
  obtain ready where rd: "fack_ready rcnt c4 = Some ready" using fack_ready_ex [OF xq_okD(1) [OF c3(2) [folded ok4]]] by blast
  define c5 where "c5 = c4\<lparr>xq := (xq c4)\<lparr>blast_size := next_blast ready (fack_blast incr'' (xq c3))\<rparr>\<rparr>"
  have ok5: "xq_ok c5 T s' u r' = xq_ok c3 T s' u r'" for s' r'
    unfolding ok4 [symmetric] by (rule xq_ok_cong) (simp_all add: c5_def)
  have f5: "fack_frame (set (filter ak s)) c c5" "snd_frag_size (xq c5) \<noteq> 0"
    using c3(3,4) by (simp_all add: fack_frame_def c5_def c4_def fack_adjust_fields)
  have w5: "blast_size (xq c5) = 0 \<or> uint (cwindow_size (xq c5)) + uint (blast_size (xq c5)) \<le> uint (xq_window_size (xq c5))"
    using next_blast_window [OF refl, of "xq c5" "xq c3" ready incr''] by (simp add: c5_def c4_def fack_adjust_fields)
  have "rpc__dg_fack_common pv f c = (do {
        c2 \<leftarrow> (if fack_starts c (blast_size (xq c5) > 0) then RPC_DG_START_XMIT c5 else Some c5);
        Some (blast_size (xq c5) > 0, if xq_window_size (xq c2) > 0 then c2\<lparr>xq := (xq c2)\<lparr>rexmit_timeout := RPC_CLOCK_SEC 2\<rparr>\<rparr> else c2) })"
  proof -
    have A: "rpc__dg_fack_common pv f c = (do {
       (curr_serial, incr, c') \<leftarrow> fack_inclusive f ?us ser 0 c0;
       let c' = (if xq_head (xq c') = NULL then c'\<lparr>xq := (xq c')\<lparr>xq_tail := NULL\<rparr>\<rparr> else c');
       (incr, rcnt, c') \<leftarrow>
         (if fp_len f > 0 then if ?us then do_fack_body pv f curr_serial incr c' else None else Some (incr, 0, c'));
       let blast = fack_blast incr (xq c');
       let c' = c'\<lparr>xq := fack_adjust rcnt (xq c')\<rparr>;
       ready \<leftarrow> fack_ready rcnt c';
       let c' = c'\<lparr>xq := (xq c')\<lparr>blast_size := next_blast ready blast\<rparr>\<rparr>;
       let sent_data = RPC_DG_CALL_READY_TO_SEND c';
       c2 \<leftarrow> (if \<not> xc_is_private c'
             \<and> (sent_data \<or> \<not> first_fack_seen (xq c) \<and> xq_next_fragnum (xq c') = 1 \<and> \<not> xc_is_cbk c' \<and> xc_state c' = Cs_xmit)
          then RPC_DG_START_XMIT c' else Some c');
       Some (sent_data, if xq_window_size (xq c2) > 0 then c2\<lparr>xq := (xq c2)\<lparr>rexmit_timeout := RPC_CLOCK_SEC 2\<rparr>\<rparr> else c2) })"
      unfolding rpc__dg_fack_common_def Let_def st prod.case ser_def c0_def next_blast_def by simp
    have fst: "fack_starts c b \<longleftrightarrow> \<not> xc_is_private c5 \<and>
       (b \<or> \<not> first_fack_seen (xq c) \<and> xq_next_fragnum (xq c5) = 1 \<and> \<not> xc_is_cbk c5 \<and> xc_state c5 = Cs_xmit)" for b
      using f5(1) by (simp add: fack_starts_def fack_frame_def)
    show ?thesis
      unfolding A c1(1) Option.bind.simps(2) prod.case Let_def c2_def [symmetric] c3(1) c4_def [symmetric] rd c5_def [symmetric]
        RPC_DG_CALL_READY_TO_SEND_def fst ..
  qed
  then show ?thesis using c3(2) f5 w5 unfolding ok5 [symmetric] ak_def by blast
qed

lemma fack_frame_frags:
  assumes "fack_frame X c c'" "set xs \<inter> X = {}"
  shows "frags (xqes c') xs = frags (xqes c) xs"
  using assms by (intro frags_cong) (auto simp: fack_frame_def same_info_def)

lemma fack_effect_ex:
  assumes ok: "xq_ok c T s u r" and hon: "fack_honest f (T - length u)" and T: "T \<le> 32767" and sz: "snd_frag_size (xq c) \<noteq> 0"
    and s': "s' = filter (\<lambda>y. \<not> fack_acked f (xnum (xqes c) y)) s"
    and r': "r' = filter (\<lambda>y. \<not> fack_acked f (xnum (xqes c) y) \<and> fack_resend f c y) s"
  shows "\<exists>c' n ps. rpc__dg_fack_common pv f c = Some (n > 0, c') \<and> n < 256 \<and>
    frags (xqes c') (s' @ u) = frags (xqes c) (s' @ u) \<and> (\<forall>y\<in>set s - set s'. xqes c' y = None) \<and>
    (\<forall>y. y \<notin> set s - set s' \<longrightarrow> (xqes c' y = None \<longleftrightarrow> xqes c y = None)) \<and>
    sent_pkts c' = sent_pkts c @ ps \<and> snd_frag_size (xq c') \<noteq> 0 \<and> part_xqe (xq c') = part_xqe (xq c) \<and>
    xq_push (xq c') = xq_push (xq c) \<and> base_flags (xq c') = base_flags (xq c) \<and>
    sock_disabled c' = sock_disabled c \<and> xc_state c' = xc_state c \<and> xc_is_private c' = xc_is_private c \<and>
    com_timeout_knob c' = com_timeout_knob c \<and>
    (if fack_starts c (n > 0) \<and> xc_state c = Cs_final
     then xq_ok c' T (s' @ take (n - length r') u) (drop (n - length r') u) [] \<and> blast_size (xq c') = 0 \<and>
       map pkt_frag ps = (if sock_disabled c then [] else take n (frags (xqes c) (r' @ u)))
     else ps = [] \<and> xq_ok c' T s' u r' \<and> n = unat (blast_size (xq c')) \<and>
       (n = 0 \<or> uint (cwindow_size (xq c')) + int n \<le> uint (xq_window_size (xq c'))))"
proof -
  note d = xq_baseD [OF xq_okD(1) [OF ok]]
  obtain c1 where c1: "rpc__dg_fack_common pv f c = (do {
        c2 \<leftarrow> (if fack_starts c (blast_size (xq c1) > 0) then RPC_DG_START_XMIT c1 else Some c1);
        Some (blast_size (xq c1) > 0, if xq_window_size (xq c2) > 0 then c2\<lparr>xq := (xq c2)\<lparr>rexmit_timeout := RPC_CLOCK_SEC 2\<rparr>\<rparr> else c2) })"
    "xq_ok c1 T s' u r'" "fack_frame (set (filter (\<lambda>y. fack_acked f (xnum (xqes c) y)) s)) c c1" "snd_frag_size (xq c1) \<noteq> 0"
    "blast_size (xq c1) = 0 \<or> uint (cwindow_size (xq c1)) + uint (blast_size (xq c1)) \<le> uint (xq_window_size (xq c1))"
    using fack_common_ex [OF ok hon T sz, of pv] unfolding s' r' by blast
  have X: "set (filter (\<lambda>y. fack_acked f (xnum (xqes c) y)) s) = set s - set s'" unfolding s' by auto
  note fr = c1(3) [unfolded X]
  have gone: "\<forall>y\<in>set s - set s'. xqes c1 y = None" "\<forall>y. y \<notin> set s - set s' \<longrightarrow> (xqes c1 y = None \<longleftrightarrow> xqes c y = None)"
    "xc_state c1 = xc_state c" "sent_pkts c1 = sent_pkts c" "sock_disabled c1 = sock_disabled c" "xc_is_private c1 = xc_is_private c"
    "part_xqe (xq c1) = part_xqe (xq c)" "xq_push (xq c1) = xq_push (xq c)" "base_flags (xq c1) = base_flags (xq c)"
    "com_timeout_knob c1 = com_timeout_knob c"
    using fr by (simp_all add: fack_frame_def same_info_def)
  have fg: "frags (xqes c1) (s' @ u) = frags (xqes c) (s' @ u)" "frags (xqes c1) (r' @ u) = frags (xqes c) (r' @ u)"
    by (rule fack_frame_frags [OF fr]; use d(2) in \<open>auto simp: s' r'\<close>)+
  define n where "n = unat (blast_size (xq c1))"
  have n: "n < 256" "blast_size (xq c1) > 0 \<longleftrightarrow> n > 0" "uint (blast_size (xq c1)) = int n" "blast_size (xq c1) = 0 \<longleftrightarrow> n = 0"
    using unsigned_less [of "blast_size (xq c1)"] unat_0_iff [of "blast_size (xq c1)"] by (auto simp: n_def word_neq_0_conv [symmetric])
  define fin where "fin = (\<lambda>c2 :: dg_xcall. if xq_window_size (xq c2) > 0 then c2\<lparr>xq := (xq c2)\<lparr>rexmit_timeout := RPC_CLOCK_SEC 2\<rparr>\<rparr> else c2)"
  have fin: "xqes (fin c2) = xqes c2" "sent_pkts (fin c2) = sent_pkts c2" "xc_state (fin c2) = xc_state c2" "sock_disabled (fin c2) = sock_disabled c2"
    "xc_is_private (fin c2) = xc_is_private c2" "snd_frag_size (xq (fin c2)) = snd_frag_size (xq c2)" "part_xqe (xq (fin c2)) = part_xqe (xq c2)"
    "xq_push (xq (fin c2)) = xq_push (xq c2)" "base_flags (xq (fin c2)) = base_flags (xq c2)" "blast_size (xq (fin c2)) = blast_size (xq c2)"
    "com_timeout_knob (fin c2) = com_timeout_knob c2"
    "cwindow_size (xq (fin c2)) = cwindow_size (xq c2)" "xq_window_size (xq (fin c2)) = xq_window_size (xq c2)" for c2
    by (simp_all add: fin_def)
  have okf: "xq_ok (fin c2) T a b e = xq_ok c2 T a b e" for c2 a b e
    by (rule xq_ok_cong) (simp_all add: fin_def)
  show ?thesis
  proof (cases "fack_starts c (n > 0) \<and> xc_state c = Cs_final")
    case True
    obtain c2 ps where c2: "rpc__dg_call_xmit c1 = Some c2" "xq_ok c2 T (s' @ take (n - length r') u) (drop (n - length r') u) []"
      "xmit_frame c1 c2" "blast_size (xq c2) = 0" "sent_pkts c2 = sent_pkts c1 @ ps" "sends c1 (take n (r' @ u)) ps"
      using call_xmit_ex [OF c1(2) n_def] by blast
    have cf: "call_frame c1 c2" using c2(3) same_elts_data by (auto simp: xmit_frame_def call_frame_def)
    have sx: "RPC_DG_START_XMIT c1 = Some c2" using True gone(3) c2(1) by (simp add: RPC_DG_START_XMIT_def)
    have r: "rpc__dg_fack_common pv f c = Some (n > 0, fin c2)" unfolding c1(1) n(2) using True sx by (simp add: fin_def)
    have sz2: "snd_frag_size (xq c2) \<noteq> 0" using c2(3) c1(4) by (simp add: xmit_frame_def)
    have k: "xc_state c2 = xc_state c" "sock_disabled c2 = sock_disabled c" "xc_is_private c2 = xc_is_private c" "part_xqe (xq c2) = part_xqe (xq c)"
      "xq_push (xq c2) = xq_push (xq c)" "base_flags (xq c2) = base_flags (xq c)" "\<forall>y. xqes c2 y = None \<longleftrightarrow> xqes c1 y = None"
      "com_timeout_knob c2 = com_timeout_knob c"
      using cf gone by (simp_all add: call_frame_def xc_core_def same_data_def)
    have "frags (xqes c2) (s' @ u) = frags (xqes c) (s' @ u)" using xq_base_frags [OF xq_okD(1) [OF c1(2)] cf] fg(1) by simp
    moreover have "map pkt_frag ps = (if sock_disabled c then [] else take n (frags (xqes c) (r' @ u)))"
    proof -
      have "set (take n (r' @ u)) \<subseteq> set (s' @ u)" using xq_okD(4) [OF c1(2)] set_take_subset [of n "r' @ u"] by auto
      from sends_pkt_frag [OF xq_okD(1) [OF c1(2)] c2(6) this] show ?thesis unfolding gone(5) fg(2) [symmetric] frags_simps(5) .
    qed
    ultimately show ?thesis using r True c2(2,4,5) k gone sz2 n(1)
      by (intro exI [of _ "fin c2"] exI [of _ n] exI [of _ ps]) (simp add: fin okf)
  next
    case False
    obtain c2 where c2: "(if fack_starts c (n > 0) then RPC_DG_START_XMIT c1 else Some c1) = Some c2" "c2 = c1 \<or> c2 = rpc__dg_call_signal c1"
    proof (cases "fack_starts c (n > 0)")
      case True
      then have "xc_state c1 \<noteq> Cs_final" using False gone(3) by simp
      then show ?thesis using True by (intro that [of "rpc__dg_call_signal c1"]) (simp_all add: RPC_DG_START_XMIT_def)
    next
      case False
      then show ?thesis by (intro that [of c1]) simp_all
    qed
    have r: "rpc__dg_fack_common pv f c = Some (n > 0, fin c2)" unfolding c1(1) n(2) c2(1) by (simp add: fin_def)
    have k: "xqes c2 = xqes c1" "xq c2 = xq c1" "sent_pkts c2 = sent_pkts c" "xc_state c2 = xc_state c" "sock_disabled c2 = sock_disabled c"
      "xc_is_private c2 = xc_is_private c" "com_timeout_knob c2 = com_timeout_knob c"
      using c2(2) gone by (auto simp: rpc__dg_call_signal_def)
    have o2: "xq_ok c2 T s' u r'" using c1(2) c2(2) by auto
    show ?thesis
      by (rule exI [of _ "fin c2"], rule exI [of _ n], rule exI [of _ "[]"], unfold if_not_P [OF False])
        (use r o2 k gone c1(4,5) fg n in \<open>simp add: fin okf n_def [symmetric]\<close>)
  qed
qed

section \<open>Properties\<close>

text \<open>
  C7: Processing a fack.  A fack that does not claim what has not been sent takes exactly the
  fragments it acknowledges off the queue and gives exactly these back; the others keep their
  numbers and data, in order.  Those found lost by their serial numbers form the retransmission
  list, the counts of the congestion window and of the facks asked for are right again, and the
  blast prepared fits into the receiver's window.  When the call is in its final state and the
  socket is shared, the blast is sent at once.  (\<open>fack_acked\<close> shows that a fack naming 0xFFFF, the
  one for the first fragment lost, acknowledges nothing, whatever its mask says.)
\<close>

theorem fack_processing:
  assumes "xq_ok c T s u r" "fack_honest f (T - length u)" "T \<le> 32767" "snd_frag_size (xq c) \<noteq> 0"
    "s' = filter (\<lambda>y. \<not> fack_acked f (xnum (xqes c) y)) s"
    "r' = filter (\<lambda>y. \<not> fack_acked f (xnum (xqes c) y) \<and> fack_resend f c y) s"
  shows "\<exists>c' n ps. rpc__dg_fack_common pv f c = Some (n > 0, c') \<and> sent_pkts c' = sent_pkts c @ ps \<and>
    frags (xqes c') (s' @ u) = frags (xqes c) (s' @ u) \<and> (\<forall>y\<in>set s - set s'. xqes c' y = None) \<and>
    (\<forall>y. y \<notin> set s - set s' \<longrightarrow> (xqes c' y = None \<longleftrightarrow> xqes c y = None)) \<and>
    (if fack_starts c (n > 0) \<and> xc_state c = Cs_final
     then xq_ok c' T (s' @ take (n - length r') u) (drop (n - length r') u) [] \<and> blast_size (xq c') = 0 \<and>
       map pkt_frag ps = (if sock_disabled c then [] else take n (frags (xqes c) (r' @ u)))
     else ps = [] \<and> xq_ok c' T s' u r' \<and> n = unat (blast_size (xq c')) \<and>
       (n = 0 \<or> uint (cwindow_size (xq c')) + int n \<le> uint (xq_window_size (xq c'))))"
  using fack_effect_ex [OF assms, of pv] by (elim exE conjE) (intro exI conjI, assumption+)

definition sample_fack :: dg_fackpkt where
  "sample_fack = \<lparr>fp_fragnum = 0, fp_len = 20, fp_foreign = False, fp_vers = 1, fp_window = 8, fp_max_tsdu = 1024,
     fp_max_frag_size = 1024, fp_serial = 2, fp_selack_len = 1, fp_selack = [2]\<rparr>"

lemma sample_fack_words: "fack_words sample_fack = [2]"
  by (simp add: fack_words_def sample_fack_def local16_def local32_def)

lemma sample_fack_cover: "sel_cover sample_fack = 2"
proof -
  have "used_bits 32 2 True = 2" by (simp add: numeral_eq_Suc)
  moreover have "fp_fragnum sample_fack \<noteq> -1" by (simp add: sample_fack_def)
  ultimately show ?thesis by (simp add: sel_cover_def sample_fack_words)
qed

lemma sample_fack_honest: "fack_honest sample_fack 3"
  by (simp add: fack_honest_def sample_fack_cover) (simp add: sample_fack_def local16_def)

lemma sample_fack_acked: "fack_acked sample_fack 1 = False" "fack_acked sample_fack 2 = True"
  using sample_fack_words sample_fack_cover
  by (simp_all add: fack_acked_def sel_acked_def mask_bit_def sample_fack_def)

lemma fack_processing_witness:
  "\<exists>sent c'. rpc__dg_fack_common calm sample_fack sample_xcall = Some (sent, c') \<and> sent_pkts c' = [] \<and> xqes c' 0x30 = None \<and>
    xq_ok c' 4 [0x20] [0x40] [0x20] \<and> frags (xqes c') [0x20, 0x40] = [(1, [1]), (3, [3])]"
proof -
  have x: "xnum (xqes sample_xcall) 0x20 = 1" "xnum (xqes sample_xcall) 0x30 = 2"
    "frags (xqes sample_xcall) [0x20, 0x40] = [(1, [1]), (3, [3])]"
    using sample_facts(4) by simp_all
  have re: "fack_resend sample_fack sample_xcall 0x20"
    using x(1) sample_fack_cover by (simp add: fack_resend_def fack_again_def again_def lost_def RPC_DG_SERIAL_IS_LT_def)
      (simp add: sample_xcall_def sample_elt_def sample_fack_def local16_def)
  have sr: "[0x20] = filter (\<lambda>y. \<not> fack_acked sample_fack (xnum (xqes sample_xcall) y)) [0x20, 0x30]"
    "[0x20] = filter (\<lambda>y. \<not> fack_acked sample_fack (xnum (xqes sample_xcall) y) \<and> fack_resend sample_fack sample_xcall y) [0x20, 0x30]"
    using x re sample_fack_acked by simp_all
  have sz: "snd_frag_size (xq sample_xcall) \<noteq> 0" "\<not> fack_starts sample_xcall b" for b
    by (simp_all add: sample_xcall_def sample_xmitq_def fack_starts_def)
  have hon: "fack_honest sample_fack (4 - length [0x40 :: addr])" using sample_fack_honest by simp
  from fack_processing [OF sample_xcall_ok hon _ sz(1) sr, of calm] sample_facts(3) x(3) sz(2)
  show ?thesis by (auto split: if_splits)
qed

text \<open>
  C38: A fack or nocall packet with a body of one to twelve bytes, or whose body has another version,
  stops the process: \<open>CHECK_INITIALIZED\<close> finds that the serial number was never set, and aborts,
  before the version test that is meant to ignore such a body.
\<close>

theorem fack_old_body_aborts:
  assumes "fp_len f > 0" "\<not> (fp_len f > 12 \<and> fp_vers f = 1)"
  shows "rpc__dg_fack_common pv f c = None"
proof -
  have "x \<bind> (\<lambda>(a, b, c). None) = None" for x :: "(u16 \<times> u32 \<times> dg_xcall) option" by (cases x) auto
  then show ?thesis unfolding rpc__dg_fack_common_def Let_def if_P [OF assms(1)] if_not_P [OF assms(2)]
    by (cases "call_stamp c") simp
qed

lemma fack_old_body_aborts_witness:
  "rpc__dg_fack_common calm (sample_fack\<lparr>fp_len := 12\<rparr>) sample_xcall = None"
  by (rule fack_old_body_aborts) (simp_all add: sample_fack_def)

end
