(* ===== verification/DgLink.thy ===== *)
theory DgLink
  imports DgFack
begin

text \<open>
  The sender (\<open>DgXmitq\<close>, \<open>DgFack\<close>) and the receiver (\<open>DgRecvq\<close>) of one stream, joined by a network
  that may lose, repeat and reorder packets.  The steps run the routines of the code; the records
  of the packets sent are what the network can deliver.  At most 32767 fragments of at most 1464
  bytes.
\<close>

section \<open>The two ends of a stream\<close>

text \<open>
  \<open>lk_app\<close> are the fragments the sender's client has appended, \<open>lk_arrived\<close> the packets that
  arrived, each with the buffers it was received into, \<open>lk_mem\<close> the contents these had on arrival,
  and \<open>lk_taken\<close> the buffers the call thread of the receiver has got.
\<close>

record dg_link =
  lk_snd :: dg_xcall
  lk_rcv :: dg_rcall
  lk_app :: "u8 list list"
  lk_arrived :: "(addr list \<times> dg_pkt) list"
  lk_mem :: rheap
  lk_taken :: "addr list"

text \<open>A fack as the sender gets it, its body in either byte order.\<close>

definition fack_pkt :: "dg_fack \<Rightarrow> dg_fackpkt \<Rightarrow> bool" where
  "fack_pkt fk f \<longleftrightarrow> fp_fragnum f = fk_fragnum fk \<and> fp_len f = fk_len fk \<and> fp_vers f = 1 \<and>
     local16 f (fp_window f) = fk_window fk \<and> local32 f (fp_max_tsdu f) = fk_max_tsdu fk \<and>
     local32 f (fp_max_frag_size f) = fk_max_frag_size fk \<and> local16 f (fp_serial f) = fk_serial fk \<and>
     local16 f (fp_selack_len f) = fk_selack_len fk \<and> map (local32 f) (fp_selack f) = fk_selack fk"

text \<open>The packet \<open>p\<close> in new buffers \<open>r\<close>.\<close>

definition carries :: "rheap \<Rightarrow> addr list \<Rightarrow> dg_pkt \<Rightarrow> bool" where
  "carries h r p \<longleftrightarrow> arrival_ok h r \<and> (\<exists>e. h (hd r) = Some e \<and> hdrp e = Some (dp_hdr p))"

text \<open>The client has filled a new element.\<close>

definition filled :: "addr \<Rightarrow> dg_xqe \<Rightarrow> dg_xcall \<Rightarrow> dg_xcall" where
  "filled x e c = c\<lparr>xq := (xq c)\<lparr>part_xqe := x\<rparr>, xqes := (xqes c)(x \<mapsto> e)\<rparr>"

definition fillable :: "addr \<Rightarrow> dg_xqe \<Rightarrow> dg_link \<Rightarrow> bool" where
  "fillable x e l \<longleftrightarrow> x \<noteq> NULL \<and> xqes (lk_snd l) x = None \<and> xqe_ok e \<and> \<not> xqe_in_cwindow e \<and> length (lk_app l) < 32767"

text \<open>The receiver with the buffers \<open>r\<close> for a packet.\<close>

definition buffered :: "rheap \<Rightarrow> addr list \<Rightarrow> dg_rcall \<Rightarrow> dg_rcall" where
  "buffered h r c = c\<lparr>rqes := \<lambda>x. if x \<in> set r then h x else rqes c x\<rparr>"

definition receivable :: "rheap \<Rightarrow> addr list \<Rightarrow> dg_pkt \<Rightarrow> dg_link \<Rightarrow> bool" where
  "receivable h r p l \<longleftrightarrow> p \<in> set (sent_pkts (lk_snd l)) \<and> carries h r p \<and>
     set r \<inter> set (concat (map fst (lk_arrived l))) = {}"

text \<open>
  The steps: the routines of the sender, in any order, the clock going on, and those of the receiver.
  The network delivers any packet sent, at any time and any number of times, or never.
\<close>

inductive link_step :: "dg_link \<Rightarrow> dg_link \<Rightarrow> bool" where
  append: "fillable x e l \<Longrightarrow> rpc__dg_xmitq_append_pp (filled x e (lk_snd l)) = Some c \<Longrightarrow>
    link_step l (l\<lparr>lk_snd := c, lk_app := lk_app l @ [frag_body e]\<rparr>)"
| push: "fillable x e l \<Longrightarrow> rpc__dg_call_xmitq_push (filled x e (lk_snd l)) = Some (b, c) \<Longrightarrow>
    link_step l (l\<lparr>lk_snd := c, lk_app := lk_app l @ [frag_body e]\<rparr>)"
| xmit: "rpc__dg_call_xmit (lk_snd l) = Some c \<Longrightarrow> link_step l (l\<lparr>lk_snd := c\<rparr>)"
| timer: "rpc__dg_call_xmitq_timer (lk_snd l) = Some c \<Longrightarrow> link_step l (l\<lparr>lk_snd := c\<rparr>)"
| restart: "rpc__dg_xmitq_restart (lk_snd l) = Some c \<Longrightarrow> link_step l (l\<lparr>lk_snd := c\<rparr>)"
| tick: "link_step l (l\<lparr>lk_snd := (lk_snd l)\<lparr>xc_now := now, xc_clock := clk\<rparr>\<rparr>)"
| fack: "fk \<in> set (sent_facks (lk_rcv l)) \<Longrightarrow> fack_pkt fk f \<Longrightarrow> rpc__dg_fack_common pv f (lk_snd l) = Some (b, c) \<Longrightarrow>
    link_step l (l\<lparr>lk_snd := c\<rparr>)"
| arrive: "receivable h r p l \<Longrightarrow> rpc__dg_call_recvq_insert pv (hd r) (buffered h r (lk_rcv l)) = Some (a, w, c) \<Longrightarrow>
    link_step l (l\<lparr>lk_rcv := c, lk_arrived := lk_arrived l @ [(r, p)],
      lk_mem := \<lambda>x. if x \<in> set r then h x else lk_mem l x\<rparr>)"
| receive: "rpc__dg_call_receive_int pv (lk_rcv l) = Some (d, c) \<Longrightarrow>
    link_step l (l\<lparr>lk_rcv := c, lk_taken := lk_taken l @ (case d of Recv_data b len \<Rightarrow> [b] | _ \<Rightarrow> [])\<rparr>)"

text \<open>A new call: both queues as their initialisations leave them.\<close>

definition link_init :: "dg_link \<Rightarrow> bool" where
  "link_init l \<longleftrightarrow> (\<exists>q. xq (lk_snd l) = rpc__dg_xmitq_reinit q) \<and> sent_pkts (lk_snd l) = [] \<and>
     snd_frag_size (xq (lk_snd l)) \<noteq> 0 \<and> com_timeout_knob (lk_snd l) < 11 \<and>
     (\<exists>q. rq (lk_rcv l) = rpc__dg_recvq_init q) \<and> call_status (lk_rcv l) = 0 \<and> \<not> call_is_orphan (lk_rcv l) \<and>
     sent_facks (lk_rcv l) = [] \<and> lk_app l = [] \<and> lk_arrived l = [] \<and> lk_taken l = []"

inductive link_reach :: "dg_link \<Rightarrow> bool" where
  init: "link_init l \<Longrightarrow> link_reach l"
| step: "link_reach l \<Longrightarrow> link_step l l' \<Longrightarrow> link_reach l'"

section \<open>The invariant\<close>

text \<open>The numbers of the fragments received.\<close>

definition rcv_nums :: "rheap \<Rightarrow> addr list list \<Rightarrow> nat set" where
  "rcv_nums h fs = (\<lambda>f. unat (fnum h f)) ` set fs"

text \<open>
  A fack in the network: whatever the sender makes of it, it claims nothing that has not been sent
  and acknowledges only what is in \<open>R\<close>.  \<open>S\<close> is the number of fragments sent.
\<close>

definition fack_sound :: "nat set \<Rightarrow> nat \<Rightarrow> dg_fack \<Rightarrow> bool" where
  "fack_sound R S fk \<longleftrightarrow> (\<forall>f. fack_pkt fk f \<longrightarrow> fack_honest f S \<and> (\<forall>n. fack_acked f n \<longrightarrow> n \<in> R))"

definition snd_inv :: "u8 list list \<Rightarrow> nat set \<Rightarrow> dg_xcall \<Rightarrow> addr list \<Rightarrow> addr list \<Rightarrow> addr list \<Rightarrow> bool" where
  "snd_inv app R c s u r \<longleftrightarrow> xq_ok c (length app) s u r \<and> length app \<le> 32767 \<and> snd_frag_size (xq c) \<noteq> 0 \<and>
     com_timeout_knob c < 11 \<and>
     (\<forall>x\<in>set (s @ u). frag_body (xelt (xqes c) x) = app ! xnum (xqes c) x) \<and>
     (\<forall>p\<in>set (sent_pkts c). fst (pkt_frag p) + length u < length app \<and> dp_body p = app ! fst (pkt_frag p)) \<and>
     (\<forall>n. n + length u < length app \<longrightarrow> n \<in> R \<or> n \<in> xnum (xqes c) ` set s)"

definition rcv_inv :: "dg_link \<Rightarrow> addr list list \<Rightarrow> addr list list \<Rightarrow> addr list list \<Rightarrow> bool" where
  "rcv_inv l fs ins oos \<longleftrightarrow>
     stream_inv (lk_mem l) (lk_rcv l) (lk_taken l) (map fst (lk_arrived l)) fs ins oos \<and>
     distinct (concat (map fst (lk_arrived l))) \<and>
     (\<forall>(f, p)\<in>set (lk_arrived l). f \<noteq> [] \<and> fnum (lk_mem l) f = hdr_fragnum (dp_hdr p) \<and> p \<in> set (sent_pkts (lk_snd l)))"

definition link_inv :: "dg_link \<Rightarrow> addr list \<Rightarrow> addr list \<Rightarrow> addr list \<Rightarrow> addr list list \<Rightarrow> addr list list \<Rightarrow> addr list list \<Rightarrow> bool" where
  "link_inv l s u r fs ins oos \<longleftrightarrow>
     snd_inv (lk_app l) (rcv_nums (lk_mem l) (fs @ oos)) (lk_snd l) s u r \<and> rcv_inv l fs ins oos \<and>
     (\<forall>fk\<in>set (sent_facks (lk_rcv l)). fack_sound (rcv_nums (lk_mem l) (fs @ oos)) (length (lk_app l) - length u) fk)"

lemma snd_invD:
  assumes "snd_inv app R c s u r"
  shows "xq_ok c (length app) s u r" "length app \<le> 32767" "snd_frag_size (xq c) \<noteq> 0" "com_timeout_knob c < 11"
    "\<forall>x\<in>set (s @ u). frag_body (xelt (xqes c) x) = app ! xnum (xqes c) x"
    "\<forall>p\<in>set (sent_pkts c). fst (pkt_frag p) + length u < length app \<and> dp_body p = app ! fst (pkt_frag p)"
    "\<forall>n. n + length u < length app \<longrightarrow> n \<in> R \<or> n \<in> xnum (xqes c) ` set s"
  using assms unfolding snd_inv_def by blast+

lemma sent_below:
  assumes "xq_base c T s u k" "x \<in> set s"
  shows "xnum (xqes c) x + length u < T"
  using xq_baseD(7) [OF assms(1)] assms(2) by blast

lemma unsent_from:
  assumes "xq_base c T s u k" "x \<in> set u"
  shows "T \<le> xnum (xqes c) x + length u"
proof -
  have "xnum (xqes c) x \<in> set [T - length u..<T]"
    using assms(2) unfolding xq_baseD(8) [OF assms(1), symmetric] by simp
  then have "T - length u \<le> xnum (xqes c) x" by simp
  then show ?thesis by arith
qed

lemma snd_inv_step:
  assumes inv: "snd_inv app R c s u r" and ok: "xq_ok c' (length app) s1 u1 r1"
    and q: "snd_frag_size (xq c') \<noteq> 0" "com_timeout_knob c' < 11"
    and sub: "set (s1 @ u1) \<subseteq> set (s @ u)" "frags (xqes c') (s1 @ u1) = frags (xqes c) (s1 @ u1)"
    and gone: "\<forall>x\<in>set (s @ u) - set (s1 @ u1). xnum (xqes c) x \<in> R"
    and ps: "sent_pkts c' = sent_pkts c @ ps" "set (map pkt_frag ps) \<subseteq> set (frags (xqes c) s1)" and len: "length u1 \<le> length u"
  shows "snd_inv app R c' s1 u1 r1"
proof -
  note d = snd_invD [OF inv]
  have same: "xnum (xqes c') x = xnum (xqes c) x" "frag_body (xelt (xqes c') x) = frag_body (xelt (xqes c) x)" if "x \<in> set (s1 @ u1)" for x
    using sub(2) that by (auto simp: frags_def)
  have body: "frag_body (xelt (xqes c') x) = app ! xnum (xqes c') x" if "x \<in> set (s1 @ u1)" for x
    using d(5) sub(1) same [OF that] that by auto
  have new: "fst (pkt_frag p) + length u1 < length app \<and> dp_body p = app ! fst (pkt_frag p)" if pp: "p \<in> set ps" for p
  proof -
    obtain x where x: "x \<in> set s1" "pkt_frag p = (xnum (xqes c) x, frag_body (xelt (xqes c) x))"
    proof -
      have "pkt_frag p \<in> set (frags (xqes c) s1)" using ps(2) pp by auto
      then show thesis using that unfolding frags_def by auto
    qed
    then show ?thesis using sent_below [OF xq_okD(1) [OF ok] x(1)] body [of x] same [of x] by (auto simp: pkt_frag_def)
  qed
  have old: "fst (pkt_frag p) + length u1 < length app \<and> dp_body p = app ! fst (pkt_frag p)" if "p \<in> set (sent_pkts c)" for p
    using d(6) len that by fastforce
  have kept: "n \<in> R \<or> n \<in> xnum (xqes c') ` set s1" if n: "n + length u1 < length app" for n
  proof -
    have "n \<in> R \<or> n \<in> xnum (xqes c) ` set (s @ u)"
    proof (cases "n + length u < length app")
      case True
      then show ?thesis using d(7) by auto
    next
      case False
      then have "n \<in> set [length app - length u..<length app]" using n by simp
      then show ?thesis unfolding xq_baseD(8) [OF xq_okD(1) [OF d(1)], symmetric] by auto
    qed
    moreover have "n \<in> R \<or> n \<in> xnum (xqes c') ` set s1" if x: "n = xnum (xqes c) x" "x \<in> set (s @ u)" for x
    proof (cases "x \<in> set (s1 @ u1)")
      case True
      then have "x \<notin> set u1" using unsent_from [OF xq_okD(1) [OF ok], of x] same(1) [of x] n x(1) by auto
      then have "x \<in> set s1" using True by simp
      moreover have "n = xnum (xqes c') x" using same(1) [OF True] x(1) by simp
      ultimately show ?thesis by blast
    qed (use gone x in blast)
    ultimately show ?thesis by blast
  qed
  show ?thesis unfolding snd_inv_def
    using ok d(2) q body new old kept ps(1) by auto
qed

lemma snd_inv_frame:
  assumes inv: "snd_inv app R c s u r" and fr: "call_frame c c'" and ok: "xq_ok c' (length app) s1 u1 r1"
    and eq: "s1 @ u1 = s @ u" and ps: "sent_pkts c' = sent_pkts c @ ps" "sends c xs ps" "set xs \<subseteq> set s1" and len: "length u1 \<le> length u"
  shows "snd_inv app R c' s1 u1 r1"
proof (rule snd_inv_step [OF inv ok _ _ _ _ _ ps(1) _ len])
  note d = snd_invD [OF inv] and base = xq_okD(1) [OF snd_invD(1) [OF inv]]
  show "snd_frag_size (xq c') \<noteq> 0" using fr d(3) by (simp add: call_frame_def)
  show "com_timeout_knob c' < 11" using fr d(4) by (simp add: call_frame_def xc_core_def)
  show "frags (xqes c') (s1 @ u1) = frags (xqes c) (s1 @ u1)" using xq_base_frags [OF base fr] unfolding eq .
  have "set s1 \<subseteq> set (s @ u)" unfolding eq [symmetric] by simp
  then have "map pkt_frag ps = (if sock_disabled c then [] else frags (xqes c) xs)" using ps(2,3) by (intro sends_pkt_frag [OF base]) auto
  then show "set (map pkt_frag ps) \<subseteq> set (frags (xqes c) s1)" using ps(3) by (auto simp: frags_def)
qed (use eq in simp_all)

text \<open>The sender goes on: at least \<open>S\<close> fragments have been sent, and no packet is taken back.\<close>

definition snd_next :: "u8 list list \<Rightarrow> nat set \<Rightarrow> dg_xcall \<Rightarrow> nat \<Rightarrow> dg_xcall \<Rightarrow> bool" where
  "snd_next app R c S c' \<longleftrightarrow> (\<exists>s1 u1 r1. snd_inv app R c' s1 u1 r1 \<and> S \<le> length app - length u1) \<and>
     set (sent_pkts c) \<subseteq> set (sent_pkts c')"

lemma snd_nextI: "snd_inv app R c' s1 u1 r1 \<Longrightarrow> length u1 \<le> length u \<Longrightarrow> sent_pkts c' = sent_pkts c @ ps \<Longrightarrow> snd_next app R c (length app - length u) c'"
  unfolding snd_next_def by (intro conjI exI) (assumption, simp_all)

lemma snd_final:
  assumes inv: "snd_inv app R c s u r" and fr: "call_frame c c'" "sent_pkts c' = sent_pkts c @ ps"
    and fin: "xq_ok c' (length app) (if s = [] then take 1 u else s) (if s = [] then drop 1 u else u) []" "sends c (take n (s @ u)) ps"
    and n: "s = [] \<longrightarrow> n \<le> 1" "s \<noteq> [] \<longrightarrow> n \<le> length s"
  shows "snd_next app R c (length app - length u) c'"
proof -
  let ?s1 = "if s = [] then take 1 u else s" and ?u1 = "if s = [] then drop 1 u else u"
  have xs: "set (take n (s @ u)) \<subseteq> set ?s1"
    using n set_take_subset [of n s] set_take_subset_set_take [of n 1 u] by (cases "s = []") auto
  have "snd_inv app R c' ?s1 ?u1 []" by (rule snd_inv_frame [OF inv fr(1) fin(1) _ fr(2) fin(2) xs]) auto
  then show ?thesis by (rule snd_nextI [OF _ _ fr(2)]) simp
qed

lemma snd_same:
  assumes "snd_inv app R c s u r" "call_frame c c'" "sent_pkts c' = sent_pkts c @ []" "xq_ok c' (length app) s u r1"
  shows "snd_next app R c (length app - length u) c'"
  by (rule snd_nextI [OF snd_inv_frame [OF assms(1,2,4) refl assms(3), of "[]"] _ assms(3)]) (simp_all add: sends_def)

lemma snd_xmit:
  assumes inv: "snd_inv app R c s u r"
  shows "\<exists>c'. rpc__dg_call_xmit c = Some c' \<and> snd_next app R c (length app - length u) c'"
proof -
  note ok = snd_invD(1) [OF inv]
  define n where "n = unat (blast_size (xq c))"
  obtain c' ps where c': "rpc__dg_call_xmit c = Some c'" "xq_ok c' (length app) (s @ take (n - length r) u) (drop (n - length r) u) []"
    "xmit_frame c c'" "sent_pkts c' = sent_pkts c @ ps" "sends c (take n (r @ u)) ps"
    using call_xmit_ex [OF ok n_def] by blast
  have fr: "call_frame c c'" using c'(3) same_elts_data by (auto simp: xmit_frame_def call_frame_def)
  have xs: "set (take n (r @ u)) \<subseteq> set (s @ take (n - length r) u)" using xq_okD(4) [OF ok] set_take_subset [of n r] by auto
  have "snd_inv app R c' (s @ take (n - length r) u) (drop (n - length r) u) []"
    by (rule snd_inv_frame [OF inv fr c'(2) _ c'(4,5) xs]) simp_all
  then show ?thesis using snd_nextI [OF _ _ c'(4)] c'(1) by (metis diff_le_self length_drop)
qed

lemma snd_restart:
  assumes inv: "snd_inv app R c s u r"
  shows "\<exists>c'. rpc__dg_xmitq_restart c = Some c' \<and> snd_next app R c (length app - length u) c'"
proof (cases "blast_size (xq c) = 0")
  case True
  obtain c' ps where c': "rpc__dg_xmitq_restart c = Some c'" "call_frame c c'" "sent_pkts c' = sent_pkts c @ ps"
    "if s @ u = [] \<or> xc_state c \<noteq> Cs_final
     then ps = [] \<and> xq_ok c' (length app) s u s \<and> blast_size (xq c') = of_nat (restart_blast s u)
     else xq_ok c' (length app) (if s = [] then take 1 u else s) (if s = [] then drop 1 u else u) [] \<and> blast_size (xq c') = 0 \<and>
       sends c (take (restart_blast s u) (s @ u)) ps"
    using xmitq_restart_ex [OF snd_invD(1) [OF inv] True refl] by (elim exE conjE) (rule that, auto split: if_splits)
  have "s = [] \<longrightarrow> restart_blast s u \<le> 1" "s \<noteq> [] \<longrightarrow> restart_blast s u \<le> length s" by (simp_all add: restart_blast_def)
  then have "snd_next app R c (length app - length u) c'"
    using snd_final [OF inv c'(2,3), of "restart_blast s u"] snd_same [OF inv c'(2)] c'(3,4) by (metis append_Nil2)
  then show ?thesis using c'(1) by blast
next
  case False
  then have rdy: "RPC_DG_CALL_READY_TO_SEND c" by (simp add: RPC_DG_CALL_READY_TO_SEND_def word_neq_0_conv)
  have "\<exists>c'. RPC_DG_START_XMIT c = Some c' \<and> snd_next app R c (length app - length u) c'"
  proof (cases "xc_state c = Cs_final")
    case True
    then show ?thesis using snd_xmit [OF inv] by (simp add: RPC_DG_START_XMIT_def)
  next
    case False
    obtain c' ps where c': "RPC_DG_START_XMIT c = Some c'" "call_frame c c'" "sent_pkts c' = sent_pkts c @ ps"
      "ps = [] \<and> c' = rpc__dg_call_signal c"
      using start_xmit_ex [OF snd_invD(1) [OF inv] refl] False by auto
    have "xq_ok c' (length app) s u r" using c'(4) snd_invD(1) [OF inv] by simp
    then have "snd_next app R c (length app - length u) c'" using snd_same [OF inv c'(2)] c'(3,4) by simp
    then show ?thesis using c'(1) by blast
  qed
  then show ?thesis using rdy by (simp add: rpc__dg_xmitq_restart_def)
qed

lemma snd_self: "snd_inv app R c s u r \<Longrightarrow> xq c' = xq c \<Longrightarrow> xqes c' = xqes c \<Longrightarrow> sent_pkts c' = sent_pkts c \<Longrightarrow>
    com_timeout_knob c' = com_timeout_knob c \<Longrightarrow> snd_next app R c (length app - length u) c'"
  unfolding snd_next_def by (rule conjI, rule exI [of _ s], rule exI [of _ u], rule exI [of _ r])
    (simp_all add: snd_inv_def xq_ok_def xq_base_def)

lemma snd_timer:
  assumes inv: "snd_inv app R c s u r"
  shows "\<exists>c'. rpc__dg_call_xmitq_timer c = Some c' \<and> snd_next app R c (length app - length u) c'"
proof -
  note ok = snd_invD(1) [OF inv]
  obtain b where b: "rpc__dg_xmitq_awaiting_ack_tmo (xq c) (com_timeout_knob c) (xc_clock c) = Some b"
    using snd_invD(4) [OF inv] by (simp add: rpc__dg_xmitq_awaiting_ack_tmo_def xq_com_timeout_params_def)
  have self: "snd_next app R c (length app - length u) c" by (rule snd_self [OF inv refl refl refl refl])
  consider "xc_status c \<noteq> 0 \<and> xc_status c \<noteq> rpc_s_call_faulted"
    | "xq_head (xq c) = NULL \<or> \<not> rpc__clock_aged (xq_timestamp (xq c)) (rexmit_timeout (xq c)) (xc_clock c)" "xc_status c = 0 \<or> xc_status c = rpc_s_call_faulted"
    | "xq_head (xq c) \<noteq> NULL" "rpc__clock_aged (xq_timestamp (xq c)) (rexmit_timeout (xq c)) (xc_clock c)"
      "xc_status c = 0 \<or> xc_status c = rpc_s_call_faulted" by blast
  then show ?thesis
  proof cases
    case 3
    show ?thesis
    proof (cases b)
      case True
      then have "rpc__dg_call_xmitq_timer c = Some (rpc__dg_call_signal_failure rpc_s_comm_failure c)"
        using 3 b by (auto simp: rpc__dg_call_xmitq_timer_def)
      moreover have "snd_next app R c (length app - length u) (rpc__dg_call_signal_failure rpc_s_comm_failure c)"
        by (rule snd_self [OF inv]) (simp_all add: rpc__dg_call_signal_failure_def rpc__dg_call_signal_def)
      ultimately show ?thesis by blast
    next
      case False
      have b0: "rpc__dg_xmitq_awaiting_ack_tmo (xq c) (com_timeout_knob c) (xc_clock c) = Some False" using b False by simp
      have ne: "s @ u \<noteq> []" using 3(1) nseg_first [OF xq_baseD(1) [OF xq_okD(1) [OF ok]]] by auto
      obtain c' ps where c': "rpc__dg_call_xmitq_timer c = Some c'" "call_frame c c'" "sent_pkts c' = sent_pkts c @ ps"
        "if xc_state c = Cs_final
         then xq_ok c' (length app) (if s = [] then take 1 u else s) (if s = [] then drop 1 u else u) [] \<and> blast_size (xq c') = 0 \<and>
           sends c (take 1 (s @ u)) ps
         else ps = [] \<and> xq_ok c' (length app) s u (take 1 s) \<and> blast_size (xq c') = 1 \<and> xc_signals c' = xc_signals c + 1"
        using xmitq_timer_ex [OF ok 3(3) ne 3(2) b0] by blast
      have "s \<noteq> [] \<longrightarrow> 1 \<le> length s" by (cases s) auto
      then have "snd_next app R c (length app - length u) c'"
        using snd_final [OF inv c'(2,3), of 1] snd_same [OF inv c'(2)] c'(3,4) by (metis append_Nil2 order_refl)
      then show ?thesis using c'(1) by blast
    qed
  qed (use self in \<open>auto simp: rpc__dg_call_xmitq_timer_def\<close>)
qed

lemma filled_ok:
  assumes "xq_ok c T s u r" "x \<notin> set (s @ u)"
  shows "xq_ok (filled x e c) T s u r"
proof -
  have r: "x \<notin> set r" using assms xq_okD(4) [OF assms(1)] by auto
  have x: "xelt ((xqes c)(x \<mapsto> e)) y = xelt (xqes c) y" "xnum ((xqes c)(x \<mapsto> e)) y = xnum (xqes c) y"
    "xin ((xqes c)(x \<mapsto> e)) y = xin (xqes c) y" "xask ((xqes c)(x \<mapsto> e)) y = xask (xqes c) y" if "y \<in> set (s @ u)" for y
    using assms(2) that by (auto simp: xnum_def xin_def xask_def)
  have m: "map (xnum ((xqes c)(x \<mapsto> e))) s = map (xnum (xqes c)) s" "map (xnum ((xqes c)(x \<mapsto> e))) u = map (xnum (xqes c)) u"
    "filter (xin ((xqes c)(x \<mapsto> e))) (s @ u) = filter (xin (xqes c)) (s @ u)"
    "filter (\<lambda>y. xin ((xqes c)(x \<mapsto> e)) y \<and> xask ((xqes c)(x \<mapsto> e)) y) (s @ u) = filter (\<lambda>y. xin (xqes c) y \<and> xask (xqes c) y) (s @ u)"
    using x by (auto intro!: filter_cong simp del: filter_append)
  have b: "\<forall>y\<in>set (s @ u). xlen_ok (xelt ((xqes c)(x \<mapsto> e)) y)" "\<forall>y\<in>set s. xnum ((xqes c)(x \<mapsto> e)) y + length u < T"
    "\<forall>y\<in>set u. \<not> xin ((xqes c)(x \<mapsto> e)) y" "\<forall>y\<in>set r. \<not> xin ((xqes c)(x \<mapsto> e)) y"
    "RPC_DG_FLAG_IS_SET (base_flags (xq c)) XF_FRAG \<or> (\<forall>y\<in>set (s @ u). xask ((xqes c)(x \<mapsto> e)) y)"
    using x xq_baseD(5,7,14,15) [OF xq_okD(1) [OF assms(1)]] xq_okD(4,5) [OF assms(1)] by auto
  have n: "nseg xqe_next ((xqes c)(x \<mapsto> e)) p (s @ u) NULL = nseg xqe_next (xqes c) p (s @ u) NULL"
    "nseg next_rexmit ((xqes c)(x \<mapsto> e)) p r NULL = nseg next_rexmit (xqes c) p r NULL" for p
    by (rule nseg_upd [OF assms(2)], rule nseg_upd [OF r])
  have f: "xqes (filled x e c) = (xqes c)(x \<mapsto> e)" "xq_head (xq (filled x e c)) = xq_head (xq c)"
    "first_unsent (xq (filled x e c)) = first_unsent (xq c)" "xq_tail (xq (filled x e c)) = xq_tail (xq c)"
    "xq_next_fragnum (xq (filled x e c)) = xq_next_fragnum (xq c)" "cwindow_size (xq (filled x e c)) = cwindow_size (xq c)"
    "freqs_out (xq (filled x e c)) = freqs_out (xq c)" "base_flags (xq (filled x e c)) = base_flags (xq c)"
    "rexmitq (xq (filled x e c)) = rexmitq (xq c)"
    by (simp_all add: filled_def)
  note d = xq_baseD [OF xq_okD(1) [OF assms(1)]]
  show ?thesis unfolding xq_ok_def xq_base_def f m n
    by (intro conjI; (fact d | fact b | fact xq_okD [OF assms(1)]))
qed

lemma snd_inv_appended:
  assumes inv: "snd_inv app R c s u r" and ok: "xq_ok c1 (Suc (length app)) s (u @ [x]) r" and T: "length app < 32767"
    and fr: "frags (xqes c1) (s @ u @ [x]) = frags (xqes c) (s @ u) @ [(length app, b)]"
    and q: "sent_pkts c1 = sent_pkts c" "snd_frag_size (xq c1) = snd_frag_size (xq c)" "com_timeout_knob c1 = com_timeout_knob c"
  shows "snd_inv (app @ [b]) R c1 s (u @ [x]) r"
proof -
  note d = snd_invD [OF inv] and base = xq_okD(1) [OF snd_invD(1) [OF inv]]
  have f: "frags (xqes c1) (s @ u) = frags (xqes c) (s @ u)" "xnum (xqes c1) x = length app" "frag_body (xelt (xqes c1) x) = b"
    using fr by (simp_all add: append_eq_append_conv)
  have y: "xnum (xqes c1) y = xnum (xqes c) y" "frag_body (xelt (xqes c1) y) = frag_body (xelt (xqes c) y)" if "y \<in> set (s @ u)" for y
    using f(1) that unfolding frags_def map_eq_conv by blast+
  have "frag_body (xelt (xqes c1) y) = (app @ [b]) ! xnum (xqes c1) y" if "y \<in> set (s @ u @ [x])" for y
  proof (cases "y \<in> set (s @ u)")
    case True
    then show ?thesis using y [OF True] d(5) xq_base_num [OF base True] by (simp add: nth_append)
  qed (use that f in simp)
  moreover have "xnum (xqes c1) ` set s = xnum (xqes c) ` set s" using y(1) by (intro image_cong) auto
  ultimately show ?thesis using ok T d(3,4,6,7) q by (fastforce simp add: snd_inv_def nth_append)
qed

lemma fresh_elt: "snd_inv app R c s u r \<Longrightarrow> xqes c x = None \<Longrightarrow> x \<notin> set (s @ u)"
  using xq_base_elem [OF xq_okD(1) [OF snd_invD(1)]] by fastforce

lemma filled_simps [simp]:
  "part_xqe (xq (filled x e c)) = x" "xqes (filled x e c) x = Some e" "sent_pkts (filled x e c) = sent_pkts c"
  "snd_frag_size (xq (filled x e c)) = snd_frag_size (xq c)" "com_timeout_knob (filled x e c) = com_timeout_knob c"
  "xc_core (filled x e c) = xc_core c"
  by (simp_all add: filled_def xc_core_def)

lemma filled_frags: "x \<notin> set ys \<Longrightarrow> frags (xqes (filled x e c)) ys = frags (xqes c) ys"
  by (auto simp: frags_def filled_def xnum_def)

lemma snd_append:
  assumes inv: "snd_inv app R c s u r" and x: "x \<noteq> NULL" "xqes c x = None" "xqe_ok e" "\<not> xqe_in_cwindow e" "length app < 32767"
  shows "\<exists>c'. rpc__dg_xmitq_append_pp (filled x e c) = Some c' \<and> snd_next (app @ [frag_body e]) R c (length app - length u) c'"
proof -
  have fr: "x \<notin> set (s @ u)" by (rule fresh_elt [OF inv x(2)])
  obtain c' where c': "rpc__dg_xmitq_append_pp (filled x e c) = Some c'" "xq_ok c' (Suc (length app)) s (u @ [x]) r"
    "xnum (xqes c') x = length app" "frag_body (xelt (xqes c') x) = frag_body e"
    "\<forall>y. y \<noteq> x \<longrightarrow> relinked (xqes (filled x e c)) (xqes c') y" "xc_core c' = xc_core c" "sent_pkts c' = sent_pkts c"
    "snd_frag_size (xq c') = snd_frag_size (xq c)"
    using append_pp_ex [OF filled_ok [OF snd_invD(1) [OF inv] fr] filled_simps(1) x(1) filled_simps(2) x(3,4) fr] x(5) by auto
  have "frags (xqes c') (s @ u) = frags (xqes (filled x e c)) (s @ u)"
    using fr c'(5) relinked_facts(1,5) by (intro frags_cong) metis
  then have "frags (xqes c') (s @ u @ [x]) = frags (xqes c) (s @ u) @ [(length app, frag_body e)]"
    using filled_frags [OF fr] c'(3,4) by simp
  then have "snd_inv (app @ [frag_body e]) R c' s (u @ [x]) r"
    by (rule snd_inv_appended [OF inv c'(2) x(5) _ c'(7,8)]) (use c'(6) in \<open>simp add: xc_core_def\<close>)
  then have "snd_next (app @ [frag_body e]) R c (length app - length u) c'"
    unfolding snd_next_def using c'(7) by (intro conjI exI) (assumption, simp_all)
  then show ?thesis using c'(1) by blast
qed

lemma snd_push:
  assumes inv: "snd_inv app R c s u r" and x: "x \<noteq> NULL" "xqes c x = None" "xqe_ok e" "\<not> xqe_in_cwindow e" "length app < 32767"
  shows "\<exists>b c'. rpc__dg_call_xmitq_push (filled x e c) = Some (b, c') \<and> snd_next (app @ [frag_body e]) R c (length app - length u) c'"
proof -
  have fr: "x \<notin> set (s @ u)" by (rule fresh_elt [OF inv x(2)])
  define n where "n = push_blast (xq (filled x e c))"
  have T: "Suc (length app) < 65536" using x(5) by simp
  obtain c1 c' ps where c': "rpc__dg_call_xmitq_push (filled x e c) = Some (length (u @ [x]) \<le> n - length r, c')"
    "xq_ok c1 (Suc (length app)) s (u @ [x]) r" "sent_pkts c1 = sent_pkts (filled x e c)"
    "frags (xqes c1) (s @ u @ [x]) = frags (xqes (filled x e c)) (s @ u) @ [(length app, frag_body e)]"
    "xq_ok c' (Suc (length app)) (s @ take (n - length r) (u @ [x])) (drop (n - length r) (u @ [x])) (if n = 0 then r else [])"
    "call_frame c1 c'" "sent_pkts c' = sent_pkts (filled x e c) @ ps" "sends c1 (take n (r @ u @ [x])) ps"
    "xc_core c' = xc_core (filled x e c)" "snd_frag_size (xq c') = snd_frag_size (xq (filled x e c))"
    using xmitq_push_ex [OF filled_ok [OF snd_invD(1) [OF inv] fr] filled_simps(1) x(1) filled_simps(2) x(3,4) fr T n_def] by blast
  have q1: "snd_frag_size (xq c1) = snd_frag_size (xq c)" "com_timeout_knob c1 = com_timeout_knob c"
    using c'(6,9,10) unfolding call_frame_def by (simp_all add: xc_core_def filled_def)
  have inv1: "snd_inv (app @ [frag_body e]) R c1 s (u @ [x]) r"
    by (rule snd_inv_appended [OF inv c'(2) x(5) _ _ q1]) (use c'(3,4) filled_frags [OF fr] in simp_all)
  have xs: "set (take n (r @ u @ [x])) \<subseteq> set (s @ take (n - length r) (u @ [x]))"
    using xq_okD(4) [OF c'(2)] set_take_subset [of n r] by auto
  have "snd_inv (app @ [frag_body e]) R c' (s @ take (n - length r) (u @ [x])) (drop (n - length r) (u @ [x])) (if n = 0 then r else [])"
  proof (rule snd_inv_frame [OF inv1 c'(6) _ _ _ c'(8) xs])
    show "(s @ take (n - length r) (u @ [x])) @ drop (n - length r) (u @ [x]) = s @ u @ [x]" by (simp only: append_assoc append_take_drop_id)
  qed (use c'(3,5,7) in simp_all)
  then have "snd_next (app @ [frag_body e]) R c (length app - length u) c'"
    unfolding snd_next_def using c'(7) by (intro conjI exI) (assumption, simp_all)
  then show ?thesis using c'(1) by blast
qed

lemma snd_fack:
  assumes inv: "snd_inv app R c s u r" and hon: "fack_honest f (length app - length u)" and ack: "\<forall>n. fack_acked f n \<longrightarrow> n \<in> R"
  shows "\<exists>b c'. rpc__dg_fack_common pv f c = Some (b, c') \<and> snd_next app R c (length app - length u) c'"
proof -
  note d = snd_invD [OF inv]
  define s' where "s' = filter (\<lambda>y. \<not> fack_acked f (xnum (xqes c) y)) s"
  define r' where "r' = filter (\<lambda>y. \<not> fack_acked f (xnum (xqes c) y) \<and> fack_resend f c y) s"
  obtain c' n ps where c': "rpc__dg_fack_common pv f c = Some (n > 0, c')" "frags (xqes c') (s' @ u) = frags (xqes c) (s' @ u)"
    "sent_pkts c' = sent_pkts c @ ps" "snd_frag_size (xq c') \<noteq> 0" "com_timeout_knob c' = com_timeout_knob c"
    "if fack_starts c (n > 0) \<and> xc_state c = Cs_final
     then xq_ok c' (length app) (s' @ take (n - length r') u) (drop (n - length r') u) [] \<and> blast_size (xq c') = 0 \<and>
       map pkt_frag ps = (if sock_disabled c then [] else take n (frags (xqes c) (r' @ u)))
     else ps = [] \<and> xq_ok c' (length app) s' u r' \<and> n = unat (blast_size (xq c')) \<and>
       (n = 0 \<or> uint (cwindow_size (xq c')) + int n \<le> uint (xq_window_size (xq c')))"
    using fack_effect_ex [OF d(1) hon d(2,3) s'_def r'_def, of pv] by blast
  have gone: "\<forall>x\<in>set (s @ u) - set (s' @ u). xnum (xqes c) x \<in> R" using ack by (auto simp: s'_def)
  have knob: "com_timeout_knob c' < 11" using c'(5) d(4) by simp
  have "snd_next app R c (length app - length u) c'"
  proof (cases "fack_starts c (n > 0) \<and> xc_state c = Cs_final")
    case True
    let ?s1 = "s' @ take (n - length r') u" and ?u1 = "drop (n - length r') u"
    have e: "?s1 @ ?u1 = s' @ u" by simp
    from c'(6) [unfolded if_P [OF True]]
    have ok: "xq_ok c' (length app) ?s1 ?u1 []" and ps: "map pkt_frag ps = (if sock_disabled c then [] else take n (frags (xqes c) (r' @ u)))"
      by blast+
    have "set (take n (r' @ u)) \<subseteq> set ?s1" using set_take_subset [of n r'] by (auto simp: r'_def s'_def)
    then have "set (map pkt_frag ps) \<subseteq> set (frags (xqes c) ?s1)" unfolding ps frags_simps(5) [symmetric] by (auto simp: frags_def)
    then have "snd_inv app R c' ?s1 ?u1 []"
      by (intro snd_inv_step [OF inv ok c'(4) knob _ _ _ c'(3)], unfold e) (use gone c'(2) in \<open>auto simp: s'_def\<close>)
    then show ?thesis by (rule snd_nextI [OF _ _ c'(3)]) simp
  next
    case False
    from c'(6) [unfolded if_not_P [OF False]] have ok: "xq_ok c' (length app) s' u r'" and ps: "ps = []" by blast+
    have "snd_inv app R c' s' u r'"
      by (rule snd_inv_step [OF inv ok c'(4) knob _ c'(2) gone c'(3)]) (auto simp: ps s'_def)
    then show ?thesis by (rule snd_nextI [OF _ _ c'(3)]) simp
  qed
  then show ?thesis using c'(1) by blast
qed

section \<open>The facks of the receiver\<close>

lemma used_bits_bound: "(\<And>i. k \<le> i \<Longrightarrow> \<not> bit m i) \<Longrightarrow> used_bits n m True \<le> k"
proof (induction n arbitrary: m k)
  case (Suc n)
  show ?case
  proof (cases "m = 0")
    case False
    then have "k \<noteq> 0" using Suc.prems by (auto intro: ccontr bit_word_eqI)
    then have "used_bits n (drop_bit 1 m) True \<le> k - 1" using Suc.prems by (intro Suc.IH) (simp add: bit_drop_bit_eq)
    then show ?thesis using False \<open>k \<noteq> 0\<close> by simp
  qed simp
qed simp

lemma cover_bound:
  assumes "ms \<noteq> []" "\<forall>j < 32 * length ms. mask_bit ms j \<longrightarrow> j < k" "32 * (length ms - 1) \<le> k"
  shows "cover ms \<le> k"
  using assms
proof (induction ms arbitrary: k)
  case (Cons m ms)
  show ?case
  proof (cases "ms = []")
    case True
    have "used_bits 32 m True \<le> k"
    proof (rule used_bits_bound)
      fix i assume i: "k \<le> i"
      show "\<not> bit m i"
      proof
        assume b: "bit m i"
        then have "i < 32" using bit_imp_le_length [OF b] by simp
        then show False using Cons.prems(2) True i b by (auto simp: mask_bit_def)
      qed
    qed
    then show ?thesis using True by simp
  next
    case False
    then have k: "32 \<le> k" using Cons.prems(3) by (cases ms) auto
    have "cover ms \<le> k - 32"
    proof (rule Cons.IH [OF False])
      show "\<forall>j < 32 * length ms. mask_bit ms j \<longrightarrow> j < k - 32"
      proof (intro allI impI)
        fix j assume "j < 32 * length ms" "mask_bit ms j"
        then show "j < k - 32" using Cons.prems(2) [rule_format, of "32 + j"] by (simp add: mask_bit_Cons)
      qed
      show "32 * (length ms - 1) \<le> k - 32" using Cons.prems(3) False by (cases ms) auto
    qed
    then show ?thesis using False k used_bits_le [of 32 m False] by simp
  qed
qed simp

text \<open>
  What the receiver sends tells the truth: \<open>N\<close> fragments are in order, the mask names those behind
  the gap, and it ends with the last of them.
\<close>

lemma fack_tells_sound:
  assumes tell: "fack_tells c oos fk" and n: "rq_next_fragnum (rq c) = of_nat N" "N \<le> S" "S \<le> 32767"
    and R: "\<forall>n<N. n \<in> R" "\<forall>f\<in>set oos. unat (fnum (rqes c) f) \<in> R"
    and oos: "\<forall>f\<in>set oos. off (of_nat N) (fnum (rqes c) f) < 96 \<and> unat (fnum (rqes c) f) < S" 
    and top: "\<forall>f\<in>set oos. off (of_nat N) (fnum (rqes c) f) \<le> off (of_nat N) (fnum (rqes c) (last oos))"
  shows "fack_sound R S fk"
  unfolding fack_sound_def
proof (intro allI impI)
  fix f assume pk: "fack_pkt fk f"
  let ?o = "\<lambda>g. off (of_nat N) (fnum (rqes c) g)"
  let ?m = "fk_selack fk"
  have t: "fk_fragnum fk = of_nat N - 1" "fk_len fk = 20 + 4 * of_nat (length ?m - 1)"
    "unat (fk_selack_len fk) \<in> {length ?m, 0}" "length ?m = (if oos = [] then 1 else ?o (last oos) div 32 + 1)"
    "\<forall>j < 32 * length ?m. mask_bit ?m j \<longleftrightarrow> (\<exists>f\<in>set oos. ?o f = j)"
    using tell unfolding fack_tells_def n(1) by blast+
  have NU: "unat (of_nat N :: u16) = N" using n by (simp add: unat_of_nat)
  have num: "unat (fnum (rqes c) g) = N + ?o g" if "g \<in> set oos" for g
    using no_wrap_fnum [of "of_nat N" "fnum (rqes c) g"] oos that n NU by simp
  have ml: "length ?m \<le> 4"
  proof (cases "oos = []")
    case False
    then have "?o (last oos) < 96" using oos last_in_set by blast
    then show ?thesis using t(4) False by simp
  qed (use t(4) in simp)
  have fl: "fp_len f > 12"
  proof -
    have "length ?m = 1 \<or> length ?m = 2 \<or> length ?m = 3 \<or> length ?m = 4" 
    proof -
      have "1 \<le> length ?m" by (subst t(4)) simp
      then show ?thesis using ml by arith
    qed
    moreover have "fp_len f = 20 + 4 * of_nat (length ?m - 1)" using pk t(2) by (simp add: fack_pkt_def)
    ultimately show ?thesis by (elim disjE) simp_all
  qed
  have w: "fack_words f = take (unat (fk_selack_len fk)) ?m" "unat (local16 f (fp_selack_len f)) \<le> length (fp_selack f)"
  proof -
    have l: "length (fp_selack f) = length ?m" using pk unfolding fack_pkt_def by (metis length_map)
    have "unat (fk_selack_len fk) \<le> length ?m" using t(3) by auto
    then show "fack_words f = take (unat (fk_selack_len fk)) ?m" "unat (local16 f (fp_selack_len f)) \<le> length (fp_selack f)"
      using pk l by (simp_all add: fack_pkt_def fack_words_def take_map [symmetric])
  qed
  have words: "fack_words f = ?m \<or> fack_words f = []" using t(3) w(1) by auto
  define top where "top = (if oos = [] then 0 else ?o (last oos) + 1)"
  have topS: "N + top \<le> S"
    using oos num last_in_set [of oos] n(2) by (auto simp: top_def Suc_le_eq)
  have mtop: "?o g < top" if "g \<in> set oos" for g using top that by (auto simp: top_def less_Suc_eq_le)
  have tlen: "top \<le> 32 * length ?m" 
  proof (cases "oos = []")
    case False
    then have e: "length ?m = ?o (last oos) div 32 + 1" "top = ?o (last oos) + 1" using t(4) by (simp_all add: top_def)
    show ?thesis unfolding e using dividend_less_times_div [of 32 "?o (last oos)"] by simp
  qed (simp add: top_def)
  have cov: "cover (fack_words f) \<le> top"
  proof (cases "fack_words f = []")
    case False
    then have "fack_words f = ?m" using words by blast
    moreover have "cover ?m \<le> top"
    proof (rule cover_bound)
      show "?m \<noteq> []" using t(4) by (cases "oos = []") auto
      show "32 * (length ?m - 1) \<le> top"
      proof (cases "oos = []")
        case False
        then have e: "length ?m = ?o (last oos) div 32 + 1" "top = ?o (last oos) + 1" using t(4) by (simp_all add: top_def)
        show ?thesis unfolding e by simp
      qed (use t(4) in simp)
    qed (use t(5) mtop in blast)
    ultimately show ?thesis by simp
  qed simp
  have z: "N = 0 \<longleftrightarrow> fp_fragnum f = -1"
  proof -
    have "fp_fragnum f = of_nat N - 1" using pk t(1) by (simp add: fack_pkt_def)
    moreover have "(of_nat N :: u16) = 0 \<longleftrightarrow> N = 0" using unat_0_iff [of "of_nat N :: u16"] NU by simp
    moreover have "x - 1 = -1 \<longleftrightarrow> x = 0" for x :: u16 by (simp add: diff_eq_eq)
    ultimately show ?thesis by simp
  qed
  have fn: "unat (fp_fragnum f) + 1 = N" if "N \<noteq> 0"
  proof -
    have "of_nat (N - 1) = (of_nat N - 1 :: u16)" using that by (simp add: of_nat_diff)
    then have "fp_fragnum f = of_nat (N - 1)" using pk t(1) by (simp add: fack_pkt_def)
    moreover have "unat (of_nat (N - 1) :: u16) = N - 1" using n(2,3) by (simp add: unat_of_nat del: of_nat_diff)
    ultimately show ?thesis using that by (metis Suc_diff_1 Suc_eq_plus1 neq0_conv)
  qed
  show "fack_honest f S \<and> (\<forall>n. fack_acked f n \<longrightarrow> n \<in> R)"
  proof (intro conjI allI impI)
    show "fack_honest f S" unfolding fack_honest_def
    proof (intro conjI)
      show "fp_len f = 0 \<or> 12 < fp_len f \<and> fp_vers f = 1" using fl pk by (simp add: fack_pkt_def)
      show "fp_fragnum f = - 1 \<or> unat (fp_fragnum f) + 1 + (if fp_len f = 0 then 0 else sel_cover f) \<le> S"
      proof (cases "N = 0")
        case False
        have "(if fp_len f = 0 then 0 else sel_cover f) \<le> top" using cov by (simp add: sel_cover_def)
        then show ?thesis using topS fn [OF False] by linarith
      qed (use z in blast)
    qed (fact w(2))
    fix n assume a: "fack_acked f n"
    then have N: "N \<noteq> 0" using z by (simp add: fack_acked_def)
    show "n \<in> R"
    proof (cases "n < N")
      case False
      then have s: "sel_acked f n" using a fn [OF N] by (auto simp: fack_acked_def)
      define j where "j = n - N"
      have j: "mask_bit (fack_words f) j" "j < cover (fack_words f)"
        using s fn [OF N] False z N by (auto simp: sel_acked_def sel_cover_def j_def)
      then have "fack_words f = ?m" using words by auto
      moreover have "j < 32 * length ?m" using j(2) cov tlen by linarith
      ultimately obtain g where "g \<in> set oos" "?o g = j" using j(1) t(5) by auto
      then show ?thesis using num R(2) False by (auto simp: j_def)
    qed (use R in blast)
  qed
qed

lemma stream_invD:
  assumes "stream_inv h0 c out F fs ins oos"
  shows "rq_ok c ins oos" "out @ concat ins = concat fs" "rq_next_fragnum (rq c) = of_nat (length fs)"
    "\<forall>i<length fs. fnum h0 (fs ! i) = of_nat i" "set (fs @ oos) \<subseteq> set F"
    "\<forall>f\<in>set F. fnum (rqes c) f = fnum h0 f" "call_status c = 0" "\<not> call_is_orphan c"
  using assms fnum_hdrs unfolding stream_inv_def by blast+

lemma stream_inv_mem:
  assumes "\<forall>f\<in>set F. h' (hd f) = h (hd f)"
  shows "stream_inv h' c out F fs ins oos = stream_inv h c out F fs ins oos"
proof (cases "set (fs @ oos) \<subseteq> set F")
  case True
  have "fnum h' f = fnum h f" if "f \<in> set F" for f using assms that by (intro fnum_hdrs) simp
  moreover have "fs ! i \<in> set F" if "i < length fs" for i using True nth_mem [OF that] by auto
  ultimately show ?thesis using assms by (auto simp: stream_inv_def)
qed (auto simp: stream_inv_def)

text \<open>The receiver is within the bounds: it has nothing that was not sent.\<close>

lemma stream_within:
  assumes inv: "stream_inv h0 c out F fs ins oos" and F: "\<forall>f\<in>set F. unat (fnum h0 f) < S" and S: "S \<le> 32767"
  shows "length fs \<le> S" "no_wrap c" "i < length fs \<Longrightarrow> unat (fnum h0 (fs ! i)) = i"
proof -
  note d = stream_invD [OF inv]
  show le: "length fs \<le> S"
  proof (rule ccontr)
    assume "\<not> length fs \<le> S"
    then have l: "S < length fs" by simp
    then have "fs ! S \<in> set F" using d(5) nth_mem [OF l] by auto
    then have "unat (of_nat S :: u16) < S" using F d(4) l by fastforce
    then show False using S by (simp add: unat_of_nat)
  qed
  then show "no_wrap c" using S d(3) by (simp add: no_wrap_def unat_of_nat)
  show "i < length fs \<Longrightarrow> unat (fnum h0 (fs ! i)) = i" using d(4) le S by (simp add: unat_of_nat)
qed

lemma stream_fack_sound:
  assumes inv: "stream_inv h0 c out F fs ins oos" and F: "\<forall>f\<in>set F. unat (fnum h0 f) < S" and S: "S \<le> 32767"
    and t: "fack_tells c oos fk"
  shows "fack_sound (rcv_nums h0 (fs @ oos)) S fk"
proof -
  note d = stream_invD [OF inv]
  note w = stream_within [OF inv F S]
  let ?n = "of_nat (length fs) :: u16"
  have fn: "fnum (rqes c) f = fnum h0 f" "f \<in> set F" if "f \<in> set oos" for f using d(5,6) that by auto
  have offs: "off ?n (fnum (rqes c) f) < 96" if "f \<in> set oos" for f using rq_ok_off [OF d(1) that] unfolding d(3) .
  note nums = rq_okD(2) [OF d(1), unfolded d(3)]
  show ?thesis
  proof (rule fack_tells_sound [OF t d(3) w(1) S])
    show "\<forall>n<length fs. n \<in> rcv_nums h0 (fs @ oos)"
      unfolding rcv_nums_def using w(3) by (auto simp: image_iff) (metis UnI1 nth_mem)
    show "\<forall>f\<in>set oos. unat (fnum (rqes c) f) \<in> rcv_nums h0 (fs @ oos)" using fn(1) by (auto simp: rcv_nums_def)
    show "\<forall>f\<in>set oos. off ?n (fnum (rqes c) f) < 96 \<and> unat (fnum (rqes c) f) < S" using offs fn F by auto
    show "\<forall>f\<in>set oos. off ?n (fnum (rqes c) f) \<le> off ?n (fnum (rqes c) (last oos))"
    proof
      fix f assume f: "f \<in> set oos"
      then have ne: "oos \<noteq> []" by auto
      then have l: "last oos \<in> set oos" by simp
      have "high_fragnum (rq c) = fnum (rqes c) (last oos)" using nums_high(3) [OF nums] ne by (simp add: last_map)
      then have "off (?n - 1) (fnum (rqes c) f) \<le> off (?n - 1) (fnum (rqes c) (last oos))"
        using nums_high(2) [OF nums, of "fnum (rqes c) f"] f by simp
      moreover have "off (?n - 1) (fnum (rqes c) g) = off ?n (fnum (rqes c) g) + 1" if "g \<in> set oos" for g
        using offs [OF that] by (intro off_minus_1) simp
      ultimately show "off ?n (fnum (rqes c) f) \<le> off ?n (fnum (rqes c) (last oos))" using f l by simp
    qed
  qed
qed

lemma fack_sound_mono: "fack_sound R S fk \<Longrightarrow> R \<subseteq> R' \<Longrightarrow> S \<le> S' \<Longrightarrow> fack_sound R' S' fk"
  unfolding fack_sound_def fack_honest_def by (meson in_mono le_trans)

lemma snd_inv_mono: "snd_inv app R c s u r \<Longrightarrow> R \<subseteq> R' \<Longrightarrow> snd_inv app R' c s u r"
  unfolding snd_inv_def by blast

section \<open>The steps keep the invariant\<close>

lemma link_invD:
  assumes "link_inv l s u r fs ins oos"
  shows "snd_inv (lk_app l) (rcv_nums (lk_mem l) (fs @ oos)) (lk_snd l) s u r" "rcv_inv l fs ins oos"
    "\<forall>fk\<in>set (sent_facks (lk_rcv l)). fack_sound (rcv_nums (lk_mem l) (fs @ oos)) (length (lk_app l) - length u) fk"
    "stream_inv (lk_mem l) (lk_rcv l) (lk_taken l) (map fst (lk_arrived l)) fs ins oos"
    "distinct (concat (map fst (lk_arrived l)))" "\<forall>f\<in>set (map fst (lk_arrived l)). f \<noteq> []"
    "\<forall>f\<in>set (map fst (lk_arrived l)). unat (fnum (lk_mem l) f) < length (lk_app l) - length u"
    "length (lk_app l) - length u \<le> 32767"
proof -
  show 1: "snd_inv (lk_app l) (rcv_nums (lk_mem l) (fs @ oos)) (lk_snd l) s u r" and 2: "rcv_inv l fs ins oos"
    and "\<forall>fk\<in>set (sent_facks (lk_rcv l)). fack_sound (rcv_nums (lk_mem l) (fs @ oos)) (length (lk_app l) - length u) fk"
    using assms unfolding link_inv_def by blast+
  show "stream_inv (lk_mem l) (lk_rcv l) (lk_taken l) (map fst (lk_arrived l)) fs ins oos"
    "distinct (concat (map fst (lk_arrived l)))" "\<forall>f\<in>set (map fst (lk_arrived l)). f \<noteq> []"
    using 2 unfolding rcv_inv_def by auto
  show "\<forall>f\<in>set (map fst (lk_arrived l)). unat (fnum (lk_mem l) f) < length (lk_app l) - length u"
    using 2 snd_invD(6) [OF 1] by (fastforce simp: rcv_inv_def pkt_frag_def)
  show "length (lk_app l) - length u \<le> 32767" using snd_invD(2) [OF 1] by simp
qed

lemma link_snd_step:
  assumes inv: "link_inv l s u r fs ins oos"
    and nx: "snd_next (lk_app l @ bs) (rcv_nums (lk_mem l) (fs @ oos)) (lk_snd l) (length (lk_app l) - length u) c'"
  shows "\<exists>s1 u1 r1. link_inv (l\<lparr>lk_snd := c', lk_app := lk_app l @ bs\<rparr>) s1 u1 r1 fs ins oos"
proof -
  note d = link_invD [OF inv]
  obtain s1 u1 r1 where n: "snd_inv (lk_app l @ bs) (rcv_nums (lk_mem l) (fs @ oos)) c' s1 u1 r1"
    "length (lk_app l) - length u \<le> length (lk_app l @ bs) - length u1" "set (sent_pkts (lk_snd l)) \<subseteq> set (sent_pkts c')"
    using nx unfolding snd_next_def by blast
  have "rcv_inv (l\<lparr>lk_snd := c', lk_app := lk_app l @ bs\<rparr>) fs ins oos" using d(2) n(3) by (auto simp: rcv_inv_def)
  moreover have "\<forall>fk\<in>set (sent_facks (lk_rcv l)). fack_sound (rcv_nums (lk_mem l) (fs @ oos)) (length (lk_app l @ bs) - length u1) fk"
    using d(3) fack_sound_mono [OF _ subset_refl n(2)] by blast
  ultimately show ?thesis using n(1) by (intro exI [of _ s1] exI [of _ u1] exI [of _ r1]) (simp add: link_inv_def)
qed

text \<open>The receiver takes a step; \<open>l1\<close> has the packet that arrived, if one did.\<close>

lemma link_rcv_step:
  assumes inv: "link_inv l s u r fs ins oos" and l1: "lk_snd l1 = lk_snd l" "lk_app l1 = lk_app l"
    and st: "rcv_inv l1 fs' ins' oos'" "new_fack (lk_rcv l) (lk_rcv l1) oos'"
    and R: "rcv_nums (lk_mem l) (fs @ oos) \<subseteq> rcv_nums (lk_mem l1) (fs' @ oos')"
  shows "link_inv l1 s u r fs' ins' oos'"
proof -
  note d = link_invD [OF inv]
  let ?S = "length (lk_app l) - length u" and ?R = "rcv_nums (lk_mem l1) (fs' @ oos')"
  have snd: "snd_inv (lk_app l1) ?R (lk_snd l1) s u r" unfolding l1 by (rule snd_inv_mono [OF d(1) R])
  have F: "\<forall>f\<in>set (map fst (lk_arrived l1)). unat (fnum (lk_mem l1) f) < ?S"
    using st(1) snd_invD(6) [OF snd] unfolding l1 by (fastforce simp: rcv_inv_def pkt_frag_def l1)
  have inv1: "stream_inv (lk_mem l1) (lk_rcv l1) (lk_taken l1) (map fst (lk_arrived l1)) fs' ins' oos'"
    using st(1) by (simp add: rcv_inv_def)
  have "fack_sound ?R ?S fk" if "fk \<in> set (sent_facks (lk_rcv l1))" for fk
  proof (cases "fk \<in> set (sent_facks (lk_rcv l))")
    case True
    then show ?thesis using d(3) fack_sound_mono [OF _ R order_refl] by blast
  next
    case False
    then have "fack_tells (lk_rcv l1) oos' fk" using st(2) that by (auto simp: new_fack_def)
    then show ?thesis by (rule stream_fack_sound [OF inv1 F d(8)])
  qed
  then show ?thesis using snd st(1) by (simp add: link_inv_def l1)
qed

lemma link_receive:
  assumes inv: "link_inv l s u r fs ins oos"
  shows "\<exists>d c. rpc__dg_call_receive_int pv (lk_rcv l) = Some (d, c) \<and> (\<exists>ins'. link_inv
    (l\<lparr>lk_rcv := c, lk_taken := lk_taken l @ (case d of Recv_data b len \<Rightarrow> [b] | _ \<Rightarrow> [])\<rparr>) s u r fs ins' oos)"
proof -
  note d = link_invD [OF inv]
  obtain x c ins' where c: "rpc__dg_call_receive_int pv (lk_rcv l) = Some (x, c)"
    "stream_inv (lk_mem l) c (lk_taken l @ (case x of Recv_data b len \<Rightarrow> [b] | _ \<Rightarrow> [])) (map fst (lk_arrived l)) fs ins' oos"
    "new_fack (lk_rcv l) c oos"
    using stream_receive [OF d(4) stream_within(2) [OF d(4,7,8)]] by blast
  have "link_inv (l\<lparr>lk_rcv := c, lk_taken := lk_taken l @ (case x of Recv_data b len \<Rightarrow> [b] | _ \<Rightarrow> [])\<rparr>) s u r fs ins' oos"
    by (rule link_rcv_step [OF inv]) (use c d(2) in \<open>simp_all add: rcv_inv_def\<close>)
  then show ?thesis using c(1) by blast
qed

lemma arrival_frame:
  assumes "arrival_ok h r" "\<forall>x\<in>set r. h' x = h x"
  shows "arrival_ok h' r"
proof -
  have ne: "r \<noteq> []" using assms(1) by (auto simp: arrival_ok_def new_frag_def frag_ok_def)
  then have "h' (hd r) = h (hd r)" using assms(2) by simp
  then show ?thesis using assms(1) frag_frame [OF assms(2) ne] by (simp add: arrival_ok_def new_frag_def)
qed

lemma link_arrive:
  assumes inv: "link_inv l s u r fs ins oos" and ok: "receivable h f p l"
  defines "m \<equiv> \<lambda>x. if x \<in> set f then h x else lk_mem l x"
  shows "\<exists>a w c. rpc__dg_call_recvq_insert pv (hd f) (buffered h f (lk_rcv l)) = Some (a, w, c) \<and> (\<exists>fs' ins' oos'. link_inv
    (l\<lparr>lk_rcv := c, lk_arrived := lk_arrived l @ [(f, p)], lk_mem := m\<rparr>) s u r fs' ins' oos')"
proof -
  note d = link_invD [OF inv]
  let ?F = "map fst (lk_arrived l)"
  have p: "p \<in> set (sent_pkts (lk_snd l))" "arrival_ok h f" "set f \<inter> set (concat ?F) = {}" "hdrp (the (h (hd f))) = Some (dp_hdr p)"
    using ok by (auto simp: receivable_def carries_def)
  have fne: "f \<noteq> []" "distinct f" using p(2) by (auto simp: arrival_ok_def new_frag_def frag_ok_def)
  have am: "arrival_ok m f" by (rule arrival_frame [OF p(2)]) (simp add: m_def)
  have old: "m (hd g) = lk_mem l (hd g)" if "g \<in> set ?F" for g
  proof -
    have "hd g \<in> set g" using d(6) that by (intro hd_in_set) blast
    then have "hd g \<in> set (concat ?F)" using that unfolding set_concat by blast
    then show ?thesis using p(3) by (auto simp: m_def)
  qed
  have inv0: "stream_inv m (lk_rcv l) (lk_taken l) ?F fs ins oos"
    using d(4) stream_inv_mem [of ?F m "lk_mem l"] old by blast
  have dist: "distinct (concat (?F @ [f]))" using d(5) p(3) fne(2) by auto
  have buf: "buffered h f (lk_rcv l) = (lk_rcv l)\<lparr>rqes := \<lambda>x. if x \<in> set f then m x else rqes (lk_rcv l) x\<rparr>"
    unfolding buffered_def m_def by (rule arg_cong [where f = "\<lambda>g. (lk_rcv l)\<lparr>rqes := g\<rparr>"]) auto
  obtain a w c fs' ins' oos' where c: "rpc__dg_call_recvq_insert pv (hd f) (buffered h f (lk_rcv l)) = Some (a, w, c)"
    "stream_inv m c (lk_taken l) (?F @ [f]) fs' ins' oos'" "new_fack (lk_rcv l) c oos'" "set (fs @ oos) \<subseteq> set (fs' @ oos')"
    using stream_arrive [OF inv0 stream_within(2) [OF d(4,7,8)] d(6) am dist] unfolding buf by blast
  have fn: "fnum m f = hdr_fragnum (dp_hdr p)" using p(4) fne by (simp add: fnum_def m_def)
  have fo: "fnum m g = fnum (lk_mem l) g" if "g \<in> set ?F" for g using old [OF that] by (simp add: fnum_def)
  let ?l = "l\<lparr>lk_rcv := c, lk_arrived := lk_arrived l @ [(f, p)], lk_mem := m\<rparr>"
  have each: "fst x \<noteq> [] \<and> fnum m (fst x) = hdr_fragnum (dp_hdr (snd x)) \<and> snd x \<in> set (sent_pkts (lk_snd l))"
    if "x \<in> set (lk_arrived l @ [(f, p)])" for x
  proof (cases "x \<in> set (lk_arrived l)")
    case True
    then have "fst x \<in> set ?F" by simp
    then show ?thesis using True d(2) fo by (auto simp: rcv_inv_def case_prod_beta)
  next
    case False
    then show ?thesis using that fn fne(1) p(1) by simp
  qed
  have "rcv_inv ?l fs' ins' oos'"
    using c(2) dist each by (simp add: rcv_inv_def case_prod_beta del: concat_append)
  moreover have "rcv_nums (lk_mem l) (fs @ oos) \<subseteq> rcv_nums m (fs' @ oos')"
  proof -
    have "unat (fnum (lk_mem l) g) = unat (fnum m g)" if "g \<in> set (fs @ oos)" for g
      using fo [OF subsetD [OF stream_invD(5) [OF d(4)] that]] by simp
    then have "rcv_nums (lk_mem l) (fs @ oos) = rcv_nums m (fs @ oos)"
      unfolding rcv_nums_def by (intro image_cong refl)
    then show ?thesis using c(4) by (auto simp: rcv_nums_def)
  qed
  ultimately have "link_inv ?l s u r fs' ins' oos'" using c(3) by (intro link_rcv_step [OF inv]) simp_all
  then show ?thesis using c(1) by blast
qed

lemma link_init_inv:
  assumes "link_init l"
  shows "link_inv l [] [] [] [] [] []"
proof -
  obtain q q' where i: "xq (lk_snd l) = rpc__dg_xmitq_reinit q" "rq (lk_rcv l) = rpc__dg_recvq_init q'"
    "sent_pkts (lk_snd l) = []" "snd_frag_size (xq (lk_snd l)) \<noteq> 0" "com_timeout_knob (lk_snd l) < 11" "call_status (lk_rcv l) = 0"
    "\<not> call_is_orphan (lk_rcv l)" "sent_facks (lk_rcv l) = []" "lk_app l = []" "lk_arrived l = []" "lk_taken l = []"
    using assms unfolding link_init_def by blast
  have "xq_ok (lk_snd l) 0 [] [] []" by (simp add: xq_ok_def xq_base_def rpc__dg_xmitq_reinit_def last_addr_def i(1))
  moreover have "rq_ok (lk_rcv l) [] []" by (rule recvq_init_ok [OF i(2)])
  ultimately show ?thesis using i
    by (simp add: link_inv_def snd_inv_def rcv_inv_def stream_inv_def rpc__dg_recvq_init_def)
qed

lemma link_step_inv:
  assumes "link_inv l s u r fs ins oos" "link_step l l'"
  shows "\<exists>s u r fs ins oos. link_inv l' s u r fs ins oos"
  using assms(2)
proof (cases rule: link_step.cases)
  case (append x e c)
  obtain c' where "rpc__dg_xmitq_append_pp (filled x e (lk_snd l)) = Some c'"
    "snd_next (lk_app l @ [frag_body e]) (rcv_nums (lk_mem l) (fs @ oos)) (lk_snd l) (length (lk_app l) - length u) c'"
    using snd_append [OF link_invD(1) [OF assms(1)], of x e] append(2) by (auto simp: fillable_def)
  then show ?thesis using link_snd_step [OF assms(1)] append(1,3) by (simp, blast)
next
  case (push x e b c)
  obtain b' c' where "rpc__dg_call_xmitq_push (filled x e (lk_snd l)) = Some (b', c')"
    "snd_next (lk_app l @ [frag_body e]) (rcv_nums (lk_mem l) (fs @ oos)) (lk_snd l) (length (lk_app l) - length u) c'"
    using snd_push [OF link_invD(1) [OF assms(1)], of x e] push(2) by (auto simp: fillable_def)
  then show ?thesis using link_snd_step [OF assms(1)] push(1,3) by (simp, blast)
next
  case (xmit c)
  then show ?thesis using snd_xmit [OF link_invD(1) [OF assms(1)]] link_snd_step [OF assms(1), of "[]"] by (simp, blast)
next
  case (timer c)
  then show ?thesis using snd_timer [OF link_invD(1) [OF assms(1)]] link_snd_step [OF assms(1), of "[]"] by (simp, blast)
next
  case (restart c)
  then show ?thesis using snd_restart [OF link_invD(1) [OF assms(1)]] link_snd_step [OF assms(1), of "[]"] by (simp, blast)
next
  case (tick clk now)
  have "snd_next (lk_app l) (rcv_nums (lk_mem l) (fs @ oos)) (lk_snd l) (length (lk_app l) - length u)
    ((lk_snd l)\<lparr>xc_now := now, xc_clock := clk\<rparr>)"
    by (rule snd_self [OF link_invD(1) [OF assms(1)]]) simp_all
  then show ?thesis using tick link_snd_step [OF assms(1), of "[]"] by (simp, blast)
next
  case (fack fk f pv b c)
  then have "fack_honest f (length (lk_app l) - length u)" "\<forall>n. fack_acked f n \<longrightarrow> n \<in> rcv_nums (lk_mem l) (fs @ oos)"
    using link_invD(3) [OF assms(1)] unfolding fack_sound_def by blast+
  then obtain b' c' where "rpc__dg_fack_common pv f (lk_snd l) = Some (b', c')"
    "snd_next (lk_app l) (rcv_nums (lk_mem l) (fs @ oos)) (lk_snd l) (length (lk_app l) - length u) c'"
    using snd_fack [OF link_invD(1) [OF assms(1)]] by blast
  then show ?thesis using fack link_snd_step [OF assms(1), of "[]"] by (simp, blast)
next
  case (arrive h f p pv a w c)
  then show ?thesis using link_arrive [OF assms(1) arrive(2), of pv] by (simp, blast)
next
  case (receive pv d c)
  then show ?thesis using link_receive [OF assms(1), of pv] by (simp, blast)
qed

lemma link_reach_inv: "link_reach l \<Longrightarrow> \<exists>s u r fs ins oos. link_inv l s u r fs ins oos"
proof (induction rule: link_reach.induct)
  case (init l)
  then show ?case using link_init_inv by blast
next
  case (step l l')
  then show ?case using link_step_inv by blast
qed

text \<open>The data of a fragment received.\<close>

definition lk_data :: "dg_link \<Rightarrow> addr list \<Rightarrow> u8 list" where
  "lk_data l f = dp_body (the (map_of (lk_arrived l) f))"

lemma link_data:
  assumes "link_inv l s u r fs ins oos"
  shows "map (lk_data l) fs = take (length fs) (lk_app l)" "length fs \<le> length (lk_app l)"
proof -
  note d = link_invD [OF assms]
  note w = stream_within [OF d(4,7,8)]
  show le: "length fs \<le> length (lk_app l)" using w(1) by simp
  have "lk_data l (fs ! i) = lk_app l ! i" if i: "i < length fs" for i
  proof -
    have "fs ! i \<in> fst ` set (lk_arrived l)" using stream_invD(5) [OF d(4)] nth_mem [OF i] by auto
    then obtain p where p: "map_of (lk_arrived l) (fs ! i) = Some p" by (metis map_of_eq_None_iff not_None_eq)
    then have "(fs ! i, p) \<in> set (lk_arrived l)" by (rule map_of_SomeD)
    then have m: "fnum (lk_mem l) (fs ! i) = hdr_fragnum (dp_hdr p)" "p \<in> set (sent_pkts (lk_snd l))"
      using d(2) by (auto simp: rcv_inv_def)
    then have "fst (pkt_frag p) = i" using w(3) [OF i] by (simp add: pkt_frag_def)
    then show ?thesis using snd_invD(6) [OF d(1)] m(2) p by (auto simp: lk_data_def)
  qed
  then show "map (lk_data l) fs = take (length fs) (lk_app l)" using le by (intro nth_equalityI) simp_all
qed

text \<open>When the sender's queue is empty, all has been received, and in order.\<close>

lemma link_complete:
  assumes inv: "link_inv l s u r fs ins oos" and e: "xq_head (xq (lk_snd l)) = NULL"
  shows "length fs = length (lk_app l)"
proof (rule ccontr)
  note d = link_invD [OF inv]
  note w = stream_within [OF d(4,7,8)]
  note ok = xq_okD(1) [OF snd_invD(1) [OF d(1)]]
  have su: "s = [] \<and> u = []"
  proof (rule ccontr)
    assume "\<not> (s = [] \<and> u = [])"
    then have ne: "s @ u \<noteq> []" by simp
    have "xq_head (xq (lk_snd l)) = hd (s @ u)" using nseg_first [OF xq_baseD(1) [OF ok]] unfolding first_addr_def if_not_P [OF ne] .
    then show False using e xq_base_elem [OF ok hd_in_set [OF ne]] by auto
  qed
  assume "length fs \<noteq> length (lk_app l)"
  then have "length fs < length (lk_app l)" using link_data(2) [OF inv] by simp
  then have "length fs \<in> rcv_nums (lk_mem l) (fs @ oos)" using snd_invD(7) [OF d(1)] su by auto
  then obtain f where f: "f \<in> set (fs @ oos)" "unat (fnum (lk_mem l) f) = length fs" unfolding rcv_nums_def by (elim imageE) simp
  have "f \<notin> set fs" using w(3) f(2) by (auto simp: in_set_conv_nth)
  then have fo: "f \<in> set oos" using f(1) by simp
  have "fnum (lk_mem l) f = of_nat (length fs)" using f(2) by (metis of_nat_unat ucast_id)
  then have "fnum (rqes (lk_rcv l)) f = rq_next_fragnum (rq (lk_rcv l))"
    using stream_invD(3,6) [OF d(4)] subsetD [OF stream_invD(5) [OF d(4)], of f] fo by (simp del: set_map)
  then show False using nums_not_next [OF rq_okD(2) [OF stream_invD(1) [OF d(4)]]] fo by (auto simp: image_iff)
qed

section \<open>Properties\<close>

text \<open>
  C1: Reliable delivery over a network that loses, repeats and reorders packets.  In every state that
  the two ends of a stream can reach, what the receiving thread has got so far is the beginning of
  the data the sender's client appended, in order and once; and no fragment appended is ever lost:
  each is delivered or in order at the receiver, waits there behind a gap, or is still on the sender's
  queue, from which it can be sent again.  When that queue is empty, the receiver has everything.
\<close>

theorem link_reliable:
  assumes "link_reach l"
  shows "\<exists>fs oos rest s u r. lk_taken l @ rest = concat fs \<and> map (lk_data l) fs = take (length fs) (lk_app l) \<and>
    set (fs @ oos) \<subseteq> fst ` set (lk_arrived l) \<and> xq_ok (lk_snd l) (length (lk_app l)) s u r \<and>
    (\<forall>x\<in>set (s @ u). frag_body (xelt (xqes (lk_snd l)) x) = lk_app l ! xnum (xqes (lk_snd l)) x) \<and>
    {..<length (lk_app l)} \<subseteq> {..<length fs} \<union> rcv_nums (lk_mem l) oos \<union> xnum (xqes (lk_snd l)) ` set (s @ u) \<and>
    (xq_head (xq (lk_snd l)) = NULL \<longrightarrow> length fs = length (lk_app l))"
proof -
  obtain s u r fs ins oos where inv: "link_inv l s u r fs ins oos" using link_reach_inv [OF assms] by blast
  note d = link_invD [OF inv]
  note sd = snd_invD [OF d(1)]
  have "n \<in> {..<length fs} \<union> rcv_nums (lk_mem l) oos \<union> xnum (xqes (lk_snd l)) ` set (s @ u)" if n: "n < length (lk_app l)" for n
  proof (cases "n + length u < length (lk_app l)")
    case True
    then have "n \<in> rcv_nums (lk_mem l) fs \<union> rcv_nums (lk_mem l) oos \<or> n \<in> xnum (xqes (lk_snd l)) ` set s"
      using sd(7) by (auto simp: rcv_nums_def)
    moreover have "rcv_nums (lk_mem l) fs \<subseteq> {..<length fs}"
      using stream_within(3) [OF d(4,7,8)] by (auto simp: rcv_nums_def in_set_conv_nth)
    ultimately show ?thesis by auto
  next
    case False
    then have "n \<in> set [length (lk_app l) - length u..<length (lk_app l)]" using n by simp
    then show ?thesis unfolding xq_baseD(8) [OF xq_okD(1) [OF sd(1)], symmetric] by auto
  qed
  then have cov: "{..<length (lk_app l)} \<subseteq> {..<length fs} \<union> rcv_nums (lk_mem l) oos \<union> xnum (xqes (lk_snd l)) ` set (s @ u)" by blast
  have sub: "set (fs @ oos) \<subseteq> fst ` set (lk_arrived l)" using stream_invD(5) [OF d(4)] by simp
  show ?thesis
    by (rule exI [of _ fs], rule exI [of _ oos], rule exI [of _ "concat ins"], rule exI [of _ s], rule exI [of _ u], rule exI [of _ r])
      (intro conjI impI; (fact stream_invD(2) [OF d(4)] | fact link_data(1) [OF inv] | fact sub | fact sd(1) | fact sd(5) | fact cov
        | erule link_complete [OF inv]))
qed

definition sample_link :: dg_link where
  "sample_link = \<lparr>lk_snd = sample_xcall\<lparr>xq := rpc__dg_xmitq_reinit sample_xmitq, xqes := Map.empty, sent_pkts := []\<rparr>,
     lk_rcv = new_call\<lparr>rq := rpc__dg_recvq_init blank_recvq\<rparr>, lk_app = [], lk_arrived = [], lk_mem = Map.empty, lk_taken = []\<rparr>"

lemma sample_link_init: "link_init sample_link"
  unfolding link_init_def sample_link_def
  by (intro conjI, rule exI [of _ sample_xmitq])
    (simp_all add: sample_xcall_def sample_xmitq_def rpc__dg_xmitq_reinit_def new_call_def, rule exI [of _ blank_recvq], simp)

lemma sample_link_push: "\<exists>l. link_reach l \<and> lk_app l = [[7, 7]]"
proof -
  let ?e = "sample_elt 0x20 9 False [7, 7]"
  have f: "fillable 0x20 ?e sample_link" "lk_app sample_link = []" "frag_body ?e = [7, 7]"
    by (simp_all add: fillable_def sample_link_def sample_elt_def xqe_ok_def frag_body_def)
  obtain b c where "rpc__dg_call_xmitq_push (filled 0x20 ?e (lk_snd sample_link)) = Some (b, c)"
    using snd_push [OF link_invD(1) [OF link_init_inv [OF sample_link_init]], of "0x20" ?e] f(1,2) by (auto simp: fillable_def)
  from link_reach.step [OF link_reach.init [OF sample_link_init] link_step.push [OF f(1) this]]
  show ?thesis using f(2,3) by (intro exI conjI) (assumption, simp)
qed

lemma link_reliable_witness:
  "\<exists>l fs oos. lk_app l = [[7, 7]] \<and> map (lk_data l) fs = take (length fs) [[7, 7]] \<and>
    {0} \<subseteq> {..<length fs} \<union> rcv_nums (lk_mem l) oos \<union> xnum (xqes (lk_snd l)) ` {x. xqes (lk_snd l) x \<noteq> None}"
proof -
  obtain l where l: "link_reach l" "lk_app l = [[7, 7]]" using sample_link_push by blast
  from link_reliable [OF l(1)] obtain fs oos s u r where f: "map (lk_data l) fs = take (length fs) (lk_app l)"
    "xq_ok (lk_snd l) (length (lk_app l)) s u r"
    "{..<length (lk_app l)} \<subseteq> {..<length fs} \<union> rcv_nums (lk_mem l) oos \<union> xnum (xqes (lk_snd l)) ` set (s @ u)"
    by (elim exE conjE) (rule that)
  have "set (s @ u) \<subseteq> {x. xqes (lk_snd l) x \<noteq> None}" using xq_base_elem [OF xq_okD(1) [OF f(2)]] by auto
  then have im: "xnum (xqes (lk_snd l)) ` set (s @ u) \<subseteq> xnum (xqes (lk_snd l)) ` {x. xqes (lk_snd l) x \<noteq> None}" by (rule image_mono)
  have "{0} \<subseteq> {..<length (lk_app l)}" using l(2) by simp
  then have "{0} \<subseteq> {..<length fs} \<union> rcv_nums (lk_mem l) oos \<union> xnum (xqes (lk_snd l)) ` {x. xqes (lk_snd l) x \<noteq> None}"
    using f(3) im by blast
  then show ?thesis using f(1) l(2) by (intro exI [of _ l] exI [of _ fs] exI [of _ oos]) simp
qed

text \<open>
  C2: The composed system never goes wrong.  In every reachable state every routine that can run
  returns: no invalid pointer is followed, no element of the store is used after it was given back,
  no array is left, and no loop runs forever, whatever the network delivers and the packet pool answers.
\<close>

theorem link_never_faults:
  assumes "link_reach l"
  shows "rpc__dg_call_xmit (lk_snd l) \<noteq> None \<and> rpc__dg_call_xmitq_timer (lk_snd l) \<noteq> None \<and> rpc__dg_xmitq_restart (lk_snd l) \<noteq> None \<and>
    (fillable x e l \<longrightarrow> rpc__dg_xmitq_append_pp (filled x e (lk_snd l)) \<noteq> None \<and>
       rpc__dg_call_xmitq_push (filled x e (lk_snd l)) \<noteq> None) \<and>
    (\<forall>fk\<in>set (sent_facks (lk_rcv l)). fack_pkt fk f \<longrightarrow> rpc__dg_fack_common pv f (lk_snd l) \<noteq> None) \<and>
    (receivable h b p l \<longrightarrow> rpc__dg_call_recvq_insert pv (hd b) (buffered h b (lk_rcv l)) \<noteq> None) \<and>
    rpc__dg_call_receive_int pv (lk_rcv l) \<noteq> None"
proof -
  obtain s u r fs ins oos where inv: "link_inv l s u r fs ins oos" using link_reach_inv [OF assms] by blast
  note d = link_invD [OF inv]
  have "rpc__dg_fack_common pv f (lk_snd l) \<noteq> None" if "fk \<in> set (sent_facks (lk_rcv l))" "fack_pkt fk f" for fk
    using snd_fack [OF d(1), of f pv] d(3) that unfolding fack_sound_def by blast
  moreover have "rpc__dg_xmitq_append_pp (filled x e (lk_snd l)) \<noteq> None \<and> rpc__dg_call_xmitq_push (filled x e (lk_snd l)) \<noteq> None"
    if "fillable x e l"
    using snd_append [OF d(1), of x e] snd_push [OF d(1), of x e] that by (auto simp: fillable_def)
  moreover have "rpc__dg_call_recvq_insert pv (hd b) (buffered h b (lk_rcv l)) \<noteq> None" if "receivable h b p l"
    using link_arrive [OF inv that, of pv] by auto
  moreover have "rpc__dg_call_xmit (lk_snd l) \<noteq> None" "rpc__dg_call_xmitq_timer (lk_snd l) \<noteq> None" "rpc__dg_xmitq_restart (lk_snd l) \<noteq> None"
    "rpc__dg_call_receive_int pv (lk_rcv l) \<noteq> None"
    using snd_xmit [OF d(1)] snd_timer [OF d(1)] snd_restart [OF d(1)] link_receive [OF inv, of pv] by auto
  ultimately show ?thesis by blast
qed

lemma link_never_faults_witness:
  "\<exists>l :: dg_link. lk_app l = [[7, 7]] \<and> rpc__dg_call_xmitq_timer (lk_snd l) \<noteq> None \<and> rpc__dg_call_receive_int calm (lk_rcv l) \<noteq> None \<and>
     rpc__dg_xmitq_append_pp (filled 0x10 (sample_elt 0x20 9 False [7]) (lk_snd sample_link)) \<noteq> None"
proof -
  obtain l where l: "link_reach l" "lk_app l = [[7, 7]]" using sample_link_push by blast
  have f: "fillable 0x10 (sample_elt 0x20 9 False [7]) sample_link"
    by (simp add: fillable_def sample_link_def sample_elt_def xqe_ok_def)
  note x = link_never_faults [OF l(1), THEN conjunct2]
  have a: "rpc__dg_call_xmitq_timer (lk_snd l) \<noteq> None" by (rule x [THEN conjunct1])
  have b: "rpc__dg_call_receive_int calm (lk_rcv l) \<noteq> None"
    by (rule x [THEN conjunct2, THEN conjunct2, THEN conjunct2, THEN conjunct2, THEN conjunct2])
  have c: "rpc__dg_xmitq_append_pp (filled 0x10 (sample_elt 0x20 9 False [7]) (lk_snd sample_link)) \<noteq> None"
    by (rule link_never_faults [OF link_reach.init [OF sample_link_init], THEN conjunct2, THEN conjunct2, THEN conjunct2, THEN conjunct1,
        rule_format, OF f, THEN conjunct1])
  show ?thesis by (rule exI [of _ l]) (intro conjI l(2) a b c)
qed

end
