(* ===== verification/DgPool.thy ===== *)
theory DgPool
  imports Chains DgXmitq
begin

text \<open>
  The packet pool of the datagram protocol, \<open>transport/dg/dgpkt.c\<close> with \<open>include/dgpkt.h\<close>: the free
  list, the allocation and release of transmit and receive queue elements, the reservations of calls
  and the two lists of calls that wait, for a packet or for a reservation.

  The global \<open>rpc_g_dg_pkt_pool\<close> is \<open>dg_pool\<close>, with the stores of what it points to: elements, call
  handles and socket pool elements.  Each routine holds the lock of the pool.  Where a call has to
  wait the routine returns that it waits, and a second definition goes on with the status of the
  wait.  Where \<open>scan_waiter_lists\<close> gives the lock up to lock a waiter, the parameter \<open>conc\<close> is
  what the other threads do.  An assertion that fails and an invalid pointer are \<open>None\<close>.
\<close>

section \<open>The state\<close>

text \<open>
  The members of the union all start with the link: \<open>u.next\<close>, \<open>xqe.next\<close> and \<open>rqe.next\<close> are the
  same word.  \<open>pe_sock_ref\<close> is \<open>u.rqe.sock_ref\<close>.
\<close>

record pool_elt =
  pe_next :: addr
  pe_more_data :: addr
  pe_frag_len :: u32
  pe_flags :: u16
  pe_body_len :: u16
  pe_serial_num :: u16
  pe_in_cwindow :: bool
  pe_hdrp :: addr
  pe_sock_ref :: addr
  is_on_free_list :: bool

record pool_sock =
  is_private :: bool
  sk_xqe :: addr
  sk_rqe :: addr
  rqe_available :: bool

text \<open>
  \<open>pc_peer\<close> is \<open>cbk_scall\<close> of a client and \<open>cbk_ccall\<close> of a server call, \<open>pc_way\<close> is
  \<open>h->is_WAY_binding\<close> of a client call, \<open>pc_signals\<close> counts the signals given to the call.
\<close>

record pool_call =
  pc_is_server :: bool
  pc_is_cbk :: bool
  pc_peer :: addr
  pc_way :: u8
  pc_n_resvs :: u8
  pc_n_resvs_wait :: u8
  is_in_pkt_chain :: bool
  pkt_chain :: addr
  pc_xq_head :: addr
  pc_sock_ref :: addr
  pc_refcnt :: u8
  pc_signals :: nat

record dg_pool =
  max_pkt_count :: u32
  pkt_count :: u32
  reservations :: u32
  srv_resv_avail :: u32
  max_resv_pkt :: u32
  active_rqes :: u32
  active_xqes :: u32
  failed_alloc_rqe :: u32
  blocked_alloc_xqe :: u32
  free_count :: u32
  pl_is_rationing :: bool
  pl_low_on_pkts :: bool
  free_list :: addr
  free_list_tail :: addr
  pkt_waiters_head :: addr
  pkt_waiters_tail :: addr
  rsv_waiters_head :: addr
  rsv_waiters_tail :: addr
  elts :: "addr \<Rightarrow> pool_elt option"
  calls :: "addr \<Rightarrow> pool_call option"
  socks :: "addr \<Rightarrow> pool_sock option"

definition RPC_C_DG_PKT_MAX :: u32 where "RPC_C_DG_PKT_MAX = 100000"
definition RPC_C_DG_PKT_INIT_CNT :: u32 where "RPC_C_DG_PKT_INIT_CNT = 48"
definition RPC_C_DG_PKT_INIT_SERVER_RESVS :: u32 where "RPC_C_DG_PKT_INIT_SERVER_RESVS = 5"
definition RPC_C_DG_MAX_NUM_PKTS_IN_FRAG :: u32 where "RPC_C_DG_MAX_NUM_PKTS_IN_FRAG = 2"

lemmas pool_consts = RPC_C_DG_PKT_MAX_def RPC_C_DG_PKT_INIT_CNT_def RPC_C_DG_PKT_INIT_SERVER_RESVS_def
  RPC_C_DG_MAX_NUM_PKTS_IN_FRAG_def

definition eget :: "addr \<Rightarrow> dg_pool \<Rightarrow> pool_elt option" where
  "eget x p = (if x = NULL then None else elts p x)"

definition eset :: "addr \<Rightarrow> (pool_elt \<Rightarrow> pool_elt) \<Rightarrow> dg_pool \<Rightarrow> dg_pool option" where
  "eset x f p = do { e \<leftarrow> eget x p; Some (p\<lparr>elts := (elts p)(x \<mapsto> f e)\<rparr>) }"

definition cget :: "addr \<Rightarrow> dg_pool \<Rightarrow> pool_call option" where
  "cget x p = (if x = NULL then None else calls p x)"

definition cset :: "addr \<Rightarrow> (pool_call \<Rightarrow> pool_call) \<Rightarrow> dg_pool \<Rightarrow> dg_pool option" where
  "cset x f p = do { c \<leftarrow> cget x p; Some (p\<lparr>calls := (calls p)(x \<mapsto> f c)\<rparr>) }"

definition skget :: "addr \<Rightarrow> dg_pool \<Rightarrow> pool_sock option" where
  "skget x p = (if x = NULL then None else socks p x)"

definition skset :: "addr \<Rightarrow> (pool_sock \<Rightarrow> pool_sock) \<Rightarrow> dg_pool \<Rightarrow> dg_pool option" where
  "skset x f p = do { k \<leftarrow> skget x p; Some (p\<lparr>socks := (socks p)(x \<mapsto> f k)\<rparr>) }"

section \<open>Rationing\<close>

definition RPC_DG_PKT_RATIONING :: "dg_pool \<Rightarrow> bool" where
  "RPC_DG_PKT_RATIONING p \<longleftrightarrow> free_count p + pkt_count p \<le> reservations p"

definition RESERVATION_AVAILABLE :: "u32 \<Rightarrow> dg_pool \<Rightarrow> bool" where
  "RESERVATION_AVAILABLE n p \<longleftrightarrow> free_count p + pkt_count p \<ge> reservations p + n"

definition SRV_RESERVATION_AVAILABLE :: "pool_call \<Rightarrow> dg_pool \<Rightarrow> bool" where
  "SRV_RESERVATION_AVAILABLE c p \<longleftrightarrow> pc_is_server c \<and> srv_resv_avail p > 0"

definition UPDATE_RATIONING_STATE :: "dg_pool \<Rightarrow> dg_pool" where
  "UPDATE_RATIONING_STATE p = p\<lparr>pl_is_rationing := RPC_DG_PKT_RATIONING p,
     pl_low_on_pkts := RPC_DG_PKT_RATIONING p \<or> free_count p + pkt_count p \<le> 2 * reservations p\<rparr>"

definition rpc__dg_pkt_is_rationing :: "dg_pool \<Rightarrow> bool \<times> bool" where
  "rpc__dg_pkt_is_rationing p = (pl_is_rationing p, pl_low_on_pkts p)"

section \<open>References to calls\<close>

text \<open>
  The releasing macros of \<open>dgccall.h\<close> and \<open>dgscall.h\<close>, which agree but for the routine that frees a
  handle nobody refers to.
\<close>

definition RPC_DG_CALL_REFERENCE :: "addr \<Rightarrow> dg_pool \<Rightarrow> dg_pool option" where
  "RPC_DG_CALL_REFERENCE x p = do {
     c \<leftarrow> cget x p;
     if pc_refcnt c < 255 then cset x (pc_refcnt_update (\<lambda>n. n + 1)) p else None }"

definition RPC_DG_CALL_RELEASE_NO_UNLOCK :: "addr \<Rightarrow> dg_pool \<Rightarrow> dg_pool option" where
  "RPC_DG_CALL_RELEASE_NO_UNLOCK x p = do {
     c \<leftarrow> cget x p;
     if pc_refcnt c > 1 then cset x (pc_refcnt_update (\<lambda>n. n - 1)) p else None }"

definition RPC_DG_CALL_RELEASE :: "addr \<Rightarrow> dg_pool \<Rightarrow> dg_pool option" where
  "RPC_DG_CALL_RELEASE x p = do {
     c \<leftarrow> cget x p;
     if pc_refcnt c = 0 then None
     else if pc_refcnt c = 1 then Some (p\<lparr>calls := (calls p)(x := None)\<rparr>)
     else cset x (pc_refcnt_update (\<lambda>n. n - 1)) p }"

section \<open>The waiting calls\<close>

text \<open>The two lists, whose heads and tails \<open>dequeue_pool_waiter\<close> is given.\<close>

datatype waitq = Pkt_waiters | Rsv_waiters

fun wq_head :: "waitq \<Rightarrow> dg_pool \<Rightarrow> addr" where
  "wq_head Pkt_waiters p = pkt_waiters_head p"
| "wq_head Rsv_waiters p = rsv_waiters_head p"

fun wq_tail :: "waitq \<Rightarrow> dg_pool \<Rightarrow> addr" where
  "wq_tail Pkt_waiters p = pkt_waiters_tail p"
| "wq_tail Rsv_waiters p = rsv_waiters_tail p"

fun set_wq_head :: "waitq \<Rightarrow> addr \<Rightarrow> dg_pool \<Rightarrow> dg_pool" where
  "set_wq_head Pkt_waiters x p = p\<lparr>pkt_waiters_head := x\<rparr>"
| "set_wq_head Rsv_waiters x p = p\<lparr>rsv_waiters_head := x\<rparr>"

fun set_wq_tail :: "waitq \<Rightarrow> addr \<Rightarrow> dg_pool \<Rightarrow> dg_pool" where
  "set_wq_tail Pkt_waiters x p = p\<lparr>pkt_waiters_tail := x\<rparr>"
| "set_wq_tail Rsv_waiters x p = p\<lparr>rsv_waiters_tail := x\<rparr>"

text \<open>The block of both waiting loops that queues the call, unless it is queued already.\<close>

definition enqueue_pool_waiter :: "addr \<Rightarrow> waitq \<Rightarrow> dg_pool \<Rightarrow> dg_pool option" where
  "enqueue_pool_waiter x w p = do {
     c \<leftarrow> cget x p;
     if is_in_pkt_chain c then Some p
     else do {
       p \<leftarrow> (if wq_head w p = NULL then Some (set_wq_head w x p)
            else cset (wq_tail w p) (pkt_chain_update (\<lambda>_. x)) p);
       let p = set_wq_tail w x p;
       p \<leftarrow> cset x (\<lambda>c. c\<lparr>pkt_chain := NULL, is_in_pkt_chain := True\<rparr>) p;
       RPC_DG_CALL_REFERENCE x p } }"

text \<open>Taking \<open>x\<close>, whose predecessor is \<open>prev\<close>, out of the list, as two routines do.\<close>

definition unlink_waiter :: "waitq \<Rightarrow> addr \<Rightarrow> addr \<Rightarrow> dg_pool \<Rightarrow> dg_pool option" where
  "unlink_waiter w prev x p = do {
     c \<leftarrow> cget x p;
     p \<leftarrow> (if prev = NULL then Some (set_wq_head w (pkt_chain c) p)
          else cset prev (pkt_chain_update (\<lambda>_. pkt_chain c)) p);
     c \<leftarrow> cget x p;
     Some (if pkt_chain c = NULL then set_wq_tail w prev p else p) }"

partial_function (option) dequeue_loop :: "addr \<Rightarrow> waitq \<Rightarrow> addr \<Rightarrow> addr \<Rightarrow> dg_pool \<Rightarrow> dg_pool option" where
  "dequeue_loop call w waiter prev p =
     (if waiter = NULL then Some p
      else if waiter = call then do {
        p \<leftarrow> unlink_waiter w prev call p;
        p \<leftarrow> cset call (is_in_pkt_chain_update (\<lambda>_. False)) p;
        RPC_DG_CALL_RELEASE_NO_UNLOCK call p }
      else do { c \<leftarrow> cget waiter p; dequeue_loop call w (pkt_chain c) waiter p })"

definition dequeue_pool_waiter :: "addr \<Rightarrow> waitq \<Rightarrow> dg_pool \<Rightarrow> dg_pool option" where
  "dequeue_pool_waiter call w p = dequeue_loop call w (wq_head w p) NULL p"

definition pool_call_signal :: "addr \<Rightarrow> dg_pool \<Rightarrow> dg_pool option" where
  "pool_call_signal x p = cset x (pc_signals_update Suc) p"

text \<open>The search of \<open>scan_waiter_lists\<close> for a server call that one of the set aside reservations suits.\<close>

partial_function (option) scan_servers :: "addr \<Rightarrow> addr \<Rightarrow> dg_pool \<Rightarrow> (addr \<times> dg_pool) option" where
  "scan_servers waiter prev p =
     (if waiter = NULL then Some (NULL, p)
      else do {
        c \<leftarrow> cget waiter p;
        if pc_is_server c \<and> max_resv_pkt p + 1 \<ge> ucast (pc_n_resvs_wait c)
        then do { p \<leftarrow> unlink_waiter Rsv_waiters prev waiter p; Some (waiter, p) }
        else scan_servers (pkt_chain c) waiter p })"

text \<open>The waiter that can go on, taken off its list, or \<open>NULL\<close>.\<close>

definition scan_pick :: "dg_pool \<Rightarrow> (addr \<times> dg_pool) option" where
  "scan_pick p =
     (if rsv_waiters_head p \<noteq> NULL then do {
        c \<leftarrow> cget (rsv_waiters_head p) p;
        if RESERVATION_AVAILABLE (ucast (pc_n_resvs_wait c)) p
        then Some (rsv_waiters_head p, p\<lparr>rsv_waiters_head := pkt_chain c\<rparr>)
        else if srv_resv_avail p > 0 then scan_servers (rsv_waiters_head p) NULL p
        else Some (NULL, p) }
      else if pkt_waiters_head p \<noteq> NULL \<and> \<not> RPC_DG_PKT_RATIONING p then do {
        c \<leftarrow> cget (pkt_waiters_head p) p;
        Some (pkt_waiters_head p, p\<lparr>pkt_waiters_head := pkt_chain c\<rparr>) }
      else Some (NULL, p))"

definition scan_waiter_lists :: "(dg_pool \<Rightarrow> dg_pool) \<Rightarrow> addr \<Rightarrow> dg_pool \<Rightarrow> dg_pool option" where
  "scan_waiter_lists conc call p = do {
     (waiter, p) \<leftarrow> scan_pick p;
     if waiter = NULL then Some p
     else do {
       p \<leftarrow> cset waiter (is_in_pkt_chain_update (\<lambda>_. False)) p;
       let p = (if call \<noteq> waiter then conc p else p);
       p \<leftarrow> pool_call_signal waiter p;
       if call \<noteq> waiter then RPC_DG_CALL_RELEASE waiter p
       else RPC_DG_CALL_RELEASE_NO_UNLOCK waiter p } }"

section \<open>Starting up and forking\<close>

text \<open>The answers of \<open>RPC_MEM_ALLOC\<close> are the list \<open>news\<close>; the fields of \<open>blank\<close> are what the memory held.\<close>

fun pool_fill :: "addr list \<Rightarrow> pool_elt \<Rightarrow> nat \<Rightarrow> dg_pool \<Rightarrow> dg_pool option" where
  "pool_fill news blank 0 p = Some p"
| "pool_fill [] blank (Suc n) p = None"
| "pool_fill (x # news) blank (Suc n) p =
     (if x = NULL then None
      else pool_fill news blank n (p\<lparr>elts := (elts p)(x \<mapsto> blank\<lparr>pe_next := free_list p, is_on_free_list := True\<rparr>),
        free_list := x, free_list_tail := (if free_list_tail p = NULL then x else free_list_tail p),
        free_count := free_count p + 1, pkt_count := pkt_count p - 1\<rparr>))"

definition rpc__dg_pkt_pool_init :: "addr list \<Rightarrow> pool_elt \<Rightarrow> dg_pool \<Rightarrow> dg_pool option" where
  "rpc__dg_pkt_pool_init news blank p =
     (let p = p\<lparr>max_pkt_count := RPC_C_DG_PKT_MAX, pkt_count := RPC_C_DG_PKT_MAX, active_rqes := 0, active_xqes := 0,
            free_count := 0, free_list := NULL, free_list_tail := NULL,
            max_resv_pkt := RPC_C_DG_MAX_NUM_PKTS_IN_FRAG,
            reservations := RPC_C_DG_MAX_NUM_PKTS_IN_FRAG
              + (RPC_C_DG_MAX_NUM_PKTS_IN_FRAG + 1) * RPC_C_DG_PKT_INIT_SERVER_RESVS,
            srv_resv_avail := RPC_C_DG_PKT_INIT_SERVER_RESVS,
            pkt_waiters_head := NULL, rsv_waiters_head := NULL\<rparr>
      in pool_fill news blank (unat (min RPC_C_DG_PKT_INIT_CNT (pkt_count p))) p)"

text \<open>In the child the packets of the free list are given back and the whole structure is cleared.\<close>

datatype fork_stage = RPC_C_PREFORK | RPC_C_POSTFORK_PARENT | RPC_C_POSTFORK_CHILD

fun fork_free :: "nat \<Rightarrow> addr \<Rightarrow> dg_pool \<Rightarrow> dg_pool option" where
  "fork_free 0 x p = Some p"
| "fork_free (Suc n) x p = do { e \<leftarrow> eget x p; fork_free n (pe_next e) (p\<lparr>elts := (elts p)(x := None)\<rparr>) }"

definition pool_zero :: "dg_pool \<Rightarrow> dg_pool" where
  "pool_zero p = p\<lparr>max_pkt_count := 0, pkt_count := 0, reservations := 0, srv_resv_avail := 0, max_resv_pkt := 0,
     active_rqes := 0, active_xqes := 0, failed_alloc_rqe := 0, blocked_alloc_xqe := 0, free_count := 0,
     pl_is_rationing := False, pl_low_on_pkts := False, free_list := NULL, free_list_tail := NULL,
     pkt_waiters_head := NULL, pkt_waiters_tail := NULL, rsv_waiters_head := NULL, rsv_waiters_tail := NULL\<rparr>"

definition rpc__dg_pkt_pool_fork_handler :: "fork_stage \<Rightarrow> dg_pool \<Rightarrow> dg_pool option" where
  "rpc__dg_pkt_pool_fork_handler stage p =
     (case stage of
        RPC_C_PREFORK \<Rightarrow> Some p
      | RPC_C_POSTFORK_PARENT \<Rightarrow> Some p
      | RPC_C_POSTFORK_CHILD \<Rightarrow> do { p \<leftarrow> fork_free (unat (free_count p)) (free_list p) p; Some (pool_zero p) })"

section \<open>Packets\<close>

text \<open>
  Taking the head of the free list and putting a packet at its tail.  \<open>new\<close> is what
  \<open>RPC_MEM_ALLOC\<close> answers, \<open>blank\<close> what that memory holds.
\<close>

definition free_list_get :: "dg_pool \<Rightarrow> (addr \<times> dg_pool) option" where
  "free_list_get p =
     (if free_list p = NULL then Some (NULL, p)
      else do {
        e \<leftarrow> eget (free_list p) p;
        Some (free_list p, p\<lparr>free_list := pe_next e, free_count := free_count p - 1,
          free_list_tail := (if pe_next e = NULL then NULL else free_list_tail p)\<rparr>) })"

definition free_list_put :: "addr \<Rightarrow> dg_pool \<Rightarrow> dg_pool option" where
  "free_list_put x p = do {
     p \<leftarrow> (if free_list p = NULL then Some (p\<lparr>free_list := x, free_list_tail := x\<rparr>)
          else do { p \<leftarrow> eset (free_list_tail p) (pe_next_update (\<lambda>_. x)) p; Some (p\<lparr>free_list_tail := x\<rparr>) });
     p \<leftarrow> eset x (\<lambda>e. e\<lparr>pe_next := NULL, is_on_free_list := True\<rparr>) p;
     Some (p\<lparr>free_count := free_count p + 1\<rparr>) }"

definition pkt_alloc :: "addr \<Rightarrow> pool_elt \<Rightarrow> dg_pool \<Rightarrow> (addr \<times> dg_pool) option" where
  "pkt_alloc new blank p =
     (if free_list p = NULL \<and> free_count p \<noteq> 0 then None
      else if free_list p = NULL \<and> pkt_count p = 0 then Some (NULL, p)
      else do {
        (x, p) \<leftarrow> (if free_list p \<noteq> NULL then free_list_get p
                 else Some (new, p\<lparr>elts := (if new = NULL then elts p else (elts p)(new \<mapsto> blank)), pkt_count := pkt_count p - 1\<rparr>));
        p \<leftarrow> eset x (is_on_free_list_update (\<lambda>_. False)) p;
        Some (x, UPDATE_RATIONING_STATE p) })"

text \<open>The loop that sets reservations aside for servers again.\<close>

function reclaim_resvs :: "dg_pool \<Rightarrow> dg_pool" where
  "reclaim_resvs p =
     (if RESERVATION_AVAILABLE (max_resv_pkt p + 1) p \<and> srv_resv_avail p < RPC_C_DG_PKT_INIT_SERVER_RESVS
      then reclaim_resvs (p\<lparr>reservations := reservations p + (max_resv_pkt p + 1), srv_resv_avail := srv_resv_avail p + 1\<rparr>)
      else p)"
  by pat_completeness auto
termination
proof (relation "measure (\<lambda>p. 5 - unat (srv_resv_avail p))")
  fix p assume "RESERVATION_AVAILABLE (max_resv_pkt p + 1) p \<and> srv_resv_avail p < RPC_C_DG_PKT_INIT_SERVER_RESVS"
  then have "unat (srv_resv_avail p) < 5" by (simp add: RPC_C_DG_PKT_INIT_SERVER_RESVS_def word_less_nat_alt)
  moreover from this have "unat (srv_resv_avail p + 1) = unat (srv_resv_avail p) + 1" by (simp add: unat_add_mod)
  ultimately show "(p\<lparr>reservations := reservations p + (max_resv_pkt p + 1), srv_resv_avail := srv_resv_avail p + 1\<rparr>, p)
    \<in> measure (\<lambda>p. 5 - unat (srv_resv_avail p))" by simp
qed simp

declare reclaim_resvs.simps [simp del]

text \<open>What freeing a packet or a reservation does next: \<open>call\<close> is the handle the caller has locked.\<close>

definition pkt_free :: "(dg_pool \<Rightarrow> dg_pool) \<Rightarrow> addr \<Rightarrow> addr \<Rightarrow> dg_pool \<Rightarrow> dg_pool option" where
  "pkt_free conc x call p = do {
     e \<leftarrow> eget x p;
     if is_on_free_list e then Some p
     else do {
       p \<leftarrow> free_list_put x p;
       let p = reclaim_resvs p;
       p \<leftarrow> (if RPC_DG_PKT_RATIONING p then
               if call = NULL then Some p
               else do {
                 c \<leftarrow> cget call p;
                 if is_in_pkt_chain c \<and> pc_xq_head c = NULL
                 then do { p \<leftarrow> dequeue_pool_waiter call Pkt_waiters p; pool_call_signal call p }
                 else Some p }
             else if rsv_waiters_head p \<noteq> NULL \<or> pkt_waiters_head p \<noteq> NULL then scan_waiter_lists conc call p
             else Some p);
       Some (UPDATE_RATIONING_STATE p) } }"

section \<open>Reservations\<close>

text \<open>The call has (not) got the reservation, or waits for it.\<close>

datatype resv_result = Resv bool | Resv_wait

text \<open>What follows the loop.\<close>

definition adjust_leave :: "addr \<Rightarrow> bool \<Rightarrow> dg_pool \<Rightarrow> (resv_result \<times> dg_pool) option" where
  "adjust_leave call got_it p = do {
     c \<leftarrow> cget call p;
     p \<leftarrow> (if is_in_pkt_chain c then dequeue_pool_waiter call Rsv_waiters p else Some p);
     let p = (if got_it then UPDATE_RATIONING_STATE p else p);
     p \<leftarrow> (if got_it \<and> pc_is_cbk c then cset (pc_peer c) (pc_n_resvs_update (\<lambda>_. pc_n_resvs c)) p else Some p);
     Some (Resv got_it, p) }"

text \<open>A turn of the loop.\<close>

definition adjust_turn :: "addr \<Rightarrow> u32 \<Rightarrow> u32 \<Rightarrow> bool \<Rightarrow> dg_pool \<Rightarrow> (resv_result \<times> dg_pool) option" where
  "adjust_turn call nreq how_many block p = do {
     c \<leftarrow> cget call p;
     if RESERVATION_AVAILABLE how_many p then do {
       p \<leftarrow> cset call (pc_n_resvs_update (\<lambda>_. ucast nreq)) (p\<lparr>reservations := reservations p + how_many\<rparr>);
       adjust_leave call True p }
     else if pc_n_resvs c = 0 \<and> SRV_RESERVATION_AVAILABLE c p \<and> max_resv_pkt p + 1 \<ge> how_many then do {
       p \<leftarrow> cset call (pc_n_resvs_update (\<lambda>_. ucast (max_resv_pkt p))) (p\<lparr>srv_resv_avail := srv_resv_avail p - 1\<rparr>);
       adjust_leave call True p }
     else if \<not> block then Some (Resv False, p)
     else do {
       p \<leftarrow> cset call (pc_n_resvs_wait_update (\<lambda>_. ucast how_many)) p;
       p \<leftarrow> enqueue_pool_waiter call Rsv_waiters p;
       Some (Resv_wait, p) } }"

definition how_many :: "u32 \<Rightarrow> pool_call \<Rightarrow> u32" where
  "how_many nreq c = nreq - ucast (pc_n_resvs c) + (if pc_n_resvs c = 0 then 1 else 0)"

definition rpc__dg_pkt_adjust_reservation :: "addr \<Rightarrow> u32 \<Rightarrow> bool \<Rightarrow> dg_pool \<Rightarrow> (resv_result \<times> dg_pool) option" where
  "rpc__dg_pkt_adjust_reservation call nreq block p = do {
     c \<leftarrow> cget call p;
     k \<leftarrow> skget (pc_sock_ref c) p;
     if \<not> pc_is_cbk c \<and> \<not> pc_is_server c \<and> pc_way c \<noteq> 0 then do {
       p \<leftarrow> cset call (pc_n_resvs_update (\<lambda>_. pc_way c)) p;
       Some (Resv (ucast (pc_way c) \<ge> nreq), p) }
     else do {
       p \<leftarrow> (if pc_is_cbk c then do {
              d \<leftarrow> cget (pc_peer c) p;
              cset call (pc_n_resvs_update (\<lambda>_. pc_n_resvs d)) p }
            else Some p);
       c \<leftarrow> cget call p;
       if nreq \<le> ucast (pc_n_resvs c) then Some (Resv True, p)
       else adjust_turn call nreq (how_many nreq c) block p } }"

text \<open>The blocked call wakes up, with the status \<open>rpc__dg_call_wait\<close> has left.\<close>

definition adjust_woken :: "addr \<Rightarrow> u32 \<Rightarrow> u32 \<Rightarrow> u32 \<Rightarrow> dg_pool \<Rightarrow> (resv_result \<times> dg_pool) option" where
  "adjust_woken call nreq how st p = (if st = 0 then adjust_turn call nreq how True p else adjust_leave call False p)"

definition rpc__dg_pkt_cancel_reservation :: "(dg_pool \<Rightarrow> dg_pool) \<Rightarrow> addr \<Rightarrow> dg_pool \<Rightarrow> dg_pool option" where
  "rpc__dg_pkt_cancel_reservation conc call p = do {
     c \<leftarrow> cget call p;
     if pc_n_resvs c = 0 then Some p
     else if pc_is_cbk c \<or> \<not> pc_is_server c \<and> pc_way c \<noteq> 0 then cset call (pc_n_resvs_update (\<lambda>_. 0)) p
     else do {
       p \<leftarrow> cset call (pc_n_resvs_update (\<lambda>_. 0)) (p\<lparr>reservations := reservations p - (ucast (pc_n_resvs c) + 1)\<rparr>);
       let p = reclaim_resvs p;
       p \<leftarrow> (if rsv_waiters_head p \<noteq> NULL \<or> pkt_waiters_head p \<noteq> NULL then scan_waiter_lists conc call p else Some p);
       Some (UPDATE_RATIONING_STATE p) } }"

text \<open>The product and the sums are those of 32 bits.  The first of the pair is \<open>*status\<close>, which is \<open>rpc_s_ok\<close>.\<close>

definition rpc_mgmt_set_max_concurrency :: "u32 \<Rightarrow> u32 \<Rightarrow> dg_pool \<Rightarrow> u32 \<times> dg_pool" where
  "rpc_mgmt_set_max_concurrency max_client_calls max_server_calls p =
     (let new_max = (max_resv_pkt p + 1) * (max_client_calls + max_server_calls) + RPC_C_DG_MAX_NUM_PKTS_IN_FRAG
      in (0, if new_max > max_pkt_count p
             then p\<lparr>pkt_count := pkt_count p + (new_max - max_pkt_count p), max_pkt_count := new_max\<rparr>
             else p))"

definition rpc_mgmt_get_max_concurrency :: "dg_pool \<Rightarrow> u32" where
  "rpc_mgmt_get_max_concurrency p = (max_pkt_count p - RPC_C_DG_MAX_NUM_PKTS_IN_FRAG) div (max_resv_pkt p + 1)"

section \<open>Queue elements\<close>

definition xqe_reset :: "pool_elt \<Rightarrow> pool_elt" where
  "xqe_reset e = e\<lparr>pe_next := NULL, pe_more_data := NULL, pe_frag_len := 0, pe_flags := 0, pe_body_len := 0,
     pe_serial_num := 0, pe_in_cwindow := False\<rparr>"

definition rqe_reset :: "pool_elt \<Rightarrow> pool_elt" where
  "rqe_reset e = e\<lparr>pe_next := NULL, pe_more_data := NULL, pe_frag_len := 0, pe_hdrp := NULL\<rparr>"

definition rpc_s_coding_error :: u32 where "rpc_s_coding_error = 0x16c9a01a"

text \<open>The element, an error status, or the call waits for a packet or for the reservation it needs first.\<close>

datatype xqe_result = Xqe addr | Xqe_error u32 | Xqe_wait | Xqe_wait_resv

definition xqe_turn :: "addr \<Rightarrow> addr \<Rightarrow> pool_elt \<Rightarrow> dg_pool \<Rightarrow> (xqe_result \<times> dg_pool) option" where
  "xqe_turn call new blank p = do {
     c \<leftarrow> cget call p;
     if RPC_DG_PKT_RATIONING p \<and> pc_xq_head c \<noteq> NULL then do {
       p \<leftarrow> enqueue_pool_waiter call Pkt_waiters (p\<lparr>blocked_alloc_xqe := blocked_alloc_xqe p + 1\<rparr>);
       Some (Xqe_wait, p) }
     else do {
       p \<leftarrow> (if is_in_pkt_chain c then dequeue_pool_waiter call Pkt_waiters p else Some p);
       (x, p) \<leftarrow> pkt_alloc new blank p;
       if x = NULL then Some (Xqe_error rpc_s_coding_error, p)
       else do {
         p \<leftarrow> eset x xqe_reset (p\<lparr>active_xqes := active_xqes p + 1\<rparr>);
         Some (Xqe x, p) } } }"

definition xqe_resv_done :: "addr \<Rightarrow> addr \<Rightarrow> pool_elt \<Rightarrow> resv_result \<times> dg_pool \<Rightarrow> (xqe_result \<times> dg_pool) option" where
  "xqe_resv_done call new blank r =
     (case fst r of Resv _ \<Rightarrow> xqe_turn call new blank (snd r) | Resv_wait \<Rightarrow> Some (Xqe_wait_resv, snd r))"

definition rpc__dg_pkt_alloc_xqe :: "addr \<Rightarrow> addr \<Rightarrow> pool_elt \<Rightarrow> dg_pool \<Rightarrow> (xqe_result \<times> dg_pool) option" where
  "rpc__dg_pkt_alloc_xqe call new blank p = do {
     c \<leftarrow> cget call p;
     k \<leftarrow> skget (pc_sock_ref c) p;
     if is_private k \<and> sk_xqe k \<noteq> NULL then do {
       p \<leftarrow> skset (pc_sock_ref c) (sk_xqe_update (\<lambda>_. NULL)) p;
       p \<leftarrow> eset (sk_xqe k) xqe_reset p;
       Some (Xqe (sk_xqe k), p) }
     else if is_private k \<and> pc_n_resvs c = 0 then do {
       r \<leftarrow> rpc__dg_pkt_adjust_reservation call 1 True p;
       xqe_resv_done call new blank r }
     else xqe_turn call new blank p }"

text \<open>The call wakes up from its wait for a packet, or for the reservation.\<close>

definition xqe_woken :: "addr \<Rightarrow> addr \<Rightarrow> pool_elt \<Rightarrow> u32 \<Rightarrow> dg_pool \<Rightarrow> (xqe_result \<times> dg_pool) option" where
  "xqe_woken call new blank st p =
     (if st \<noteq> 0 then do {
        c \<leftarrow> cget call p;
        p \<leftarrow> (if is_in_pkt_chain c then dequeue_pool_waiter call Pkt_waiters p else Some p);
        Some (Xqe_error st, p) }
      else xqe_turn call new blank p)"

definition xqe_resv_woken :: "addr \<Rightarrow> addr \<Rightarrow> pool_elt \<Rightarrow> u32 \<Rightarrow> u32 \<Rightarrow> dg_pool \<Rightarrow> (xqe_result \<times> dg_pool) option" where
  "xqe_resv_woken call new blank how st p = do {
     r \<leftarrow> adjust_woken call 1 how st p; xqe_resv_done call new blank r }"

text \<open>\<open>Rqe NULL\<close> is the failure.\<close>

datatype rqe_result = Rqe addr | Rqe_wait_resv

definition rqe_take :: "addr \<Rightarrow> pool_elt \<Rightarrow> dg_pool \<Rightarrow> (rqe_result \<times> dg_pool) option" where
  "rqe_take new blank p = do {
     (x, p) \<leftarrow> pkt_alloc new blank p;
     if x = NULL then Some (Rqe NULL, p\<lparr>failed_alloc_rqe := failed_alloc_rqe p + 1\<rparr>)
     else do {
       p \<leftarrow> eset x (\<lambda>e. rqe_reset (e\<lparr>pe_sock_ref := NULL\<rparr>)) (p\<lparr>active_rqes := active_rqes p + 1\<rparr>);
       Some (Rqe x, p) } }"

definition rqe_resv_done :: "addr \<Rightarrow> pool_elt \<Rightarrow> resv_result \<times> dg_pool \<Rightarrow> (rqe_result \<times> dg_pool) option" where
  "rqe_resv_done new blank r = (case fst r of Resv _ \<Rightarrow> rqe_take new blank (snd r) | Resv_wait \<Rightarrow> Some (Rqe_wait_resv, snd r))"

definition rpc__dg_pkt_alloc_rqe :: "addr \<Rightarrow> addr \<Rightarrow> pool_elt \<Rightarrow> dg_pool \<Rightarrow> (rqe_result \<times> dg_pool) option" where
  "rpc__dg_pkt_alloc_rqe ccall new blank p =
     (if ccall = NULL then rqe_take new blank p
      else do {
        c \<leftarrow> cget ccall p;
        k \<leftarrow> skget (pc_sock_ref c) p;
        if rqe_available k then do {
          p \<leftarrow> skset (pc_sock_ref c) (rqe_available_update (\<lambda>_. False)) p;
          p \<leftarrow> eset (sk_rqe k) rqe_reset p;
          Some (Rqe (sk_rqe k), p) }
        else if pc_n_resvs c = 0 then do {
          r \<leftarrow> rpc__dg_pkt_adjust_reservation ccall 1 True p;
          rqe_resv_done new blank r }
        else rqe_take new blank p })"

definition rqe_resv_woken :: "addr \<Rightarrow> addr \<Rightarrow> pool_elt \<Rightarrow> u32 \<Rightarrow> u32 \<Rightarrow> dg_pool \<Rightarrow> (rqe_result \<times> dg_pool) option" where
  "rqe_resv_woken ccall new blank how st p = do { r \<leftarrow> adjust_woken ccall 1 how st p; rqe_resv_done new blank r }"

text \<open>Giving back the packets of a fragment, chained by \<open>more_data\<close>.\<close>

partial_function (option) free_xqe_loop :: "(dg_pool \<Rightarrow> dg_pool) \<Rightarrow> addr \<Rightarrow> addr \<Rightarrow> dg_pool \<Rightarrow> dg_pool option" where
  "free_xqe_loop conc x call p = do {
     e \<leftarrow> eget x p;
     p \<leftarrow> pkt_free conc x call (p\<lparr>active_xqes := active_xqes p - 1\<rparr>);
     if pe_more_data e = NULL then Some p else free_xqe_loop conc (pe_more_data e) call p }"

definition rpc__dg_pkt_free_xqe :: "(dg_pool \<Rightarrow> dg_pool) \<Rightarrow> addr \<Rightarrow> addr \<Rightarrow> dg_pool \<Rightarrow> dg_pool option" where
  "rpc__dg_pkt_free_xqe conc x call p = do {
     c \<leftarrow> cget call p;
     k \<leftarrow> (if pc_sock_ref c = NULL then Some None else map_option Some (skget (pc_sock_ref c) p));
     if (case k of None \<Rightarrow> False | Some k \<Rightarrow> is_private k \<and> sk_xqe k = NULL) then do {
       p \<leftarrow> skset (pc_sock_ref c) (sk_xqe_update (\<lambda>_. x)) p;
       e \<leftarrow> eget x p;
       if pe_more_data e = NULL then Some p
       else do {
         p \<leftarrow> eset x (pe_more_data_update (\<lambda>_. NULL)) p;
         free_xqe_loop conc (pe_more_data e) call p } }
     else free_xqe_loop conc x call p }"

partial_function (option) free_rqe_loop :: "(dg_pool \<Rightarrow> dg_pool) \<Rightarrow> addr \<Rightarrow> addr \<Rightarrow> dg_pool \<Rightarrow> dg_pool option" where
  "free_rqe_loop conc x call p = do {
     e \<leftarrow> eget x p;
     p \<leftarrow> (if pe_sock_ref e \<noteq> NULL then do {
            p \<leftarrow> skset (pe_sock_ref e) (rqe_available_update (\<lambda>_. True)) p;
            eset x (pe_more_data_update (\<lambda>_. NULL)) p }
          else pkt_free conc x call (p\<lparr>active_rqes := active_rqes p - 1\<rparr>));
     if pe_more_data e = NULL then Some p else free_rqe_loop conc (pe_more_data e) call p }"

definition rpc__dg_pkt_free_rqe :: "(dg_pool \<Rightarrow> dg_pool) \<Rightarrow> addr \<Rightarrow> addr \<Rightarrow> dg_pool \<Rightarrow> dg_pool option" where
  "rpc__dg_pkt_free_rqe conc x call p = do {
     e \<leftarrow> eget x p;
     if pe_sock_ref e \<noteq> NULL then do {
       p \<leftarrow> skset (pe_sock_ref e) (rqe_available_update (\<lambda>_. True)) p;
       if pe_more_data e = NULL then Some p
       else do {
         k \<leftarrow> skget (pe_sock_ref e) p;
         p \<leftarrow> eset (sk_rqe k) (pe_more_data_update (\<lambda>_. NULL)) p;
         free_rqe_loop conc (pe_more_data e) call p } }
     else free_rqe_loop conc x call p }"

definition rpc__dg_pkt_free_rqe_for_stub :: "(dg_pool \<Rightarrow> dg_pool) \<Rightarrow> addr \<Rightarrow> dg_pool \<Rightarrow> dg_pool option" where
  "rpc__dg_pkt_free_rqe_for_stub conc x p = rpc__dg_pkt_free_rqe conc x NULL p"

end
