(* ===== verification/DgPoolInv.thy ===== *)
theory DgPoolInv
  imports DgPool
begin

text \<open>
  Correctness of the packet pool: the invariant \<open>pool_ok\<close> (the free list, the number of packets, the
  reservations, the lists of waiting calls and their references, the elements kept by private
  sockets), that every operation of \<open>DgPool\<close> keeps it, and what each does on each of its branches.
\<close>

section \<open>The invariant\<close>

text \<open>What a call that owns its reservation holds of the pool: its packets and one for the stub.\<close>

definition owner :: "pool_call \<Rightarrow> bool" where
  "owner c \<longleftrightarrow> \<not> pc_is_cbk c \<and> (pc_is_server c \<or> pc_way c = 0)"

definition held :: "pool_call \<Rightarrow> nat" where
  "held c = (if owner c \<and> pc_n_resvs c \<noteq> 0 then unat (pc_n_resvs c) + 1 else 0)"

definition all_held :: "(addr \<Rightarrow> pool_call option) \<Rightarrow> nat" where
  "all_held m = (\<Sum>x\<in>dom m. held (the (m x)))"

definition avail :: "dg_pool \<Rightarrow> nat" where
  "avail p = unat (free_count p) + unat (pkt_count p)"

text \<open>\<open>fs\<close> are the packets of the free list; a packet is on it just when it is marked so.\<close>

definition free_chain :: "dg_pool \<Rightarrow> addr list \<Rightarrow> bool" where
  "free_chain p fs \<longleftrightarrow> nseg pe_next (elts p) (free_list p) fs NULL \<and> distinct fs \<and> free_list_tail p = last_addr fs \<and>
     free_count p = of_nat (length fs)"

definition free_ok :: "dg_pool \<Rightarrow> addr list \<Rightarrow> bool" where
  "free_ok p fs \<longleftrightarrow> free_chain p fs \<and> unat (free_count p) = length fs \<and>
     (\<forall>x e. elts p x = Some e \<longrightarrow> (is_on_free_list e \<longleftrightarrow> x \<in> set fs))"

text \<open>No packet is lost, and the counters stay far below the wrap-around.\<close>

definition counts_ok :: "dg_pool \<Rightarrow> bool" where
  "counts_ok p \<longleftrightarrow> avail p + unat (active_rqes p) + unat (active_xqes p) = unat (max_pkt_count p) \<and>
     unat (max_pkt_count p) < 2 ^ 31"

text \<open>
  Every reservation is the listener's, set aside for a server, or held by a call, but for \<open>lk\<close>
  that have leaked: nobody will give them back.
\<close>

definition resvs_ok :: "nat \<Rightarrow> dg_pool \<Rightarrow> bool" where
  "resvs_ok lk p \<longleftrightarrow> finite (dom (calls p)) \<and> max_resv_pkt p = 2 \<and> unat (srv_resv_avail p) \<le> 5 \<and>
     unat (reservations p) = lk + 2 + 3 * unat (srv_resv_avail p) + all_held (calls p) \<and>
     unat (reservations p) \<le> unat (max_pkt_count p)"

text \<open>\<open>ws\<close> are the calls on a waiting list; a call is on at most one, and knows it.\<close>

definition wait_ok :: "dg_pool \<Rightarrow> waitq \<Rightarrow> addr list \<Rightarrow> bool" where
  "wait_ok p w ws \<longleftrightarrow> nseg pkt_chain (calls p) (wq_head w p) ws NULL \<and> distinct ws \<and>
     (ws \<noteq> [] \<longrightarrow> wq_tail w p = last ws)"

definition waiters_ok :: "dg_pool \<Rightarrow> (waitq \<Rightarrow> addr list) \<Rightarrow> bool" where
  "waiters_ok p W \<longleftrightarrow> (\<forall>w. wait_ok p w (W w)) \<and> set (W Pkt_waiters) \<inter> set (W Rsv_waiters) = {} \<and>
     (\<forall>x c. calls p x = Some c \<longrightarrow> (is_in_pkt_chain c \<longleftrightarrow> (\<exists>w. x \<in> set (W w))))"

text \<open>A call is referred to by its thread, and by the list it is on.\<close>

definition refs_ok :: "dg_pool \<Rightarrow> bool" where
  "refs_ok p \<longleftrightarrow> (\<forall>x c. calls p x = Some c \<longrightarrow> (if is_in_pkt_chain c then 1 else 0) < pc_refcnt c)"

text \<open>The element a private socket keeps is in use.\<close>

definition in_use :: "dg_pool \<Rightarrow> addr \<Rightarrow> bool" where
  "in_use p x \<longleftrightarrow> x \<noteq> NULL \<and> (\<exists>e. elts p x = Some e \<and> \<not> is_on_free_list e)"

definition socks_ok :: "dg_pool \<Rightarrow> bool" where
  "socks_ok p \<longleftrightarrow> (\<forall>k s. socks p k = Some s \<longrightarrow> (sk_xqe s \<noteq> NULL \<longrightarrow> in_use p (sk_xqe s)) \<and> (sk_rqe s \<noteq> NULL \<longrightarrow> in_use p (sk_rqe s)))"

definition pool_ok :: "nat \<Rightarrow> dg_pool \<Rightarrow> addr list \<Rightarrow> (waitq \<Rightarrow> addr list) \<Rightarrow> bool" where
  "pool_ok lk p fs W \<longleftrightarrow> free_ok p fs \<and> counts_ok p \<and> resvs_ok lk p \<and> waiters_ok p W \<and> refs_ok p \<and> socks_ok p"

lemma avail_words:
  assumes "counts_ok p" "resvs_ok lk p"
  shows "unat (free_count p + pkt_count p) = avail p" "avail p < 2 ^ 31"
    "RPC_DG_PKT_RATIONING p \<longleftrightarrow> avail p \<le> unat (reservations p)"
    "unat n < 2 ^ 31 \<Longrightarrow> RESERVATION_AVAILABLE n p \<longleftrightarrow> unat (reservations p) + unat n \<le> avail p"
proof -
  have b: "avail p < 2 ^ 31" using assms by (simp add: counts_ok_def)
  show "avail p < 2 ^ 31" by (fact b)
  show s: "unat (free_count p + pkt_count p) = avail p" using b by (simp add: avail_def unat_add_mod)
  show "RPC_DG_PKT_RATIONING p \<longleftrightarrow> avail p \<le> unat (reservations p)"
    unfolding RPC_DG_PKT_RATIONING_def word_le_nat_alt s ..
  have r: "unat (reservations p) < 2 ^ 31" using assms by (simp add: counts_ok_def resvs_ok_def)
  show "RESERVATION_AVAILABLE n p \<longleftrightarrow> unat (reservations p) + unat n \<le> avail p" if "unat n < 2 ^ 31"
    unfolding RESERVATION_AVAILABLE_def word_le_nat_alt s using that r by (simp add: unat_add_mod)
qed

lemma all_held_upd:
  assumes "finite (dom m)" "m x = Some c"
  shows "all_held (m(x \<mapsto> c')) + held c = all_held m + held c'"
proof -
  let ?r = "\<Sum>y\<in>dom m - {x}. held (the (m y))"
  have x: "x \<in> dom m" using assms(2) by auto
  have "dom (m(x \<mapsto> c')) = dom m" using x by auto
  then have "all_held (m(x \<mapsto> c')) = held c' + (\<Sum>y\<in>dom m - {x}. held (the ((m(x \<mapsto> c')) y)))"
    unfolding all_held_def using sum.remove [OF assms(1) x, of "\<lambda>y. held (the ((m(x \<mapsto> c')) y))"] by simp
  moreover have "(\<Sum>y\<in>dom m - {x}. held (the ((m(x \<mapsto> c')) y))) = ?r" by (rule sum.cong) auto
  moreover have "all_held m = held c + ?r"
    unfolding all_held_def using sum.remove [OF assms(1) x, of "\<lambda>y. held (the (m y))"] assms(2) by simp
  ultimately show ?thesis by simp
qed

lemma all_held_same [simp]:
  assumes "m x = Some c" "held c' = held c"
  shows "all_held (m(x \<mapsto> c')) = all_held m"
  unfolding all_held_def using assms by (intro sum.cong) auto


section \<open>The waiting lists\<close>

text \<open>
  \<open>plain\<close> forgets what the lists do to a call: its link, and the reference they hold.  \<open>pool_core\<close>
  is the pool without the calls and the lists.
\<close>

definition plain :: "pool_call \<Rightarrow> pool_call" where
  "plain c = c\<lparr>pkt_chain := NULL, is_in_pkt_chain := False, pc_refcnt := pc_refcnt c - (if is_in_pkt_chain c then 1 else 0)\<rparr>"

definition pool_core :: "dg_pool \<Rightarrow> dg_pool" where
  "pool_core p = p\<lparr>calls := Map.empty, pkt_waiters_head := NULL, pkt_waiters_tail := NULL, rsv_waiters_head := NULL, rsv_waiters_tail := NULL\<rparr>"

definition pool_plain :: "dg_pool \<Rightarrow> addr \<Rightarrow> pool_call option" where
  "pool_plain p = map_option plain \<circ> calls p"

lemma pool_core_fields:
  fixes p p' :: dg_pool
  assumes "pool_core p' = pool_core p"
  shows "max_pkt_count p' = max_pkt_count p" "pkt_count p' = pkt_count p" "reservations p' = reservations p"
    "srv_resv_avail p' = srv_resv_avail p" "max_resv_pkt p' = max_resv_pkt p" "active_rqes p' = active_rqes p"
    "active_xqes p' = active_xqes p" "free_count p' = free_count p" "free_list p' = free_list p"
    "free_list_tail p' = free_list_tail p" "elts p' = elts p" "socks p' = socks p"
    "failed_alloc_rqe p' = failed_alloc_rqe p" "blocked_alloc_xqe p' = blocked_alloc_xqe p"
    "pl_is_rationing p' = pl_is_rationing p" "pl_low_on_pkts p' = pl_low_on_pkts p"
  using assms unfolding pool_core_def by (cases p; cases p'; simp)+

lemma core_ok:
  assumes "pool_core p' = pool_core p"
  shows "free_ok p' fs = free_ok p fs" "counts_ok p' = counts_ok p" "avail p' = avail p" "socks_ok p' = socks_ok p"
  unfolding socks_ok_def in_use_def free_ok_def free_chain_def counts_ok_def avail_def pool_core_fields [OF assms] by (rule refl)+

lemma plain_fields [simp]:
  "pc_is_server (plain c) = pc_is_server c" "pc_is_cbk (plain c) = pc_is_cbk c" "pc_peer (plain c) = pc_peer c"
  "pc_way (plain c) = pc_way c" "pc_n_resvs (plain c) = pc_n_resvs c" "pc_n_resvs_wait (plain c) = pc_n_resvs_wait c"
  "pc_xq_head (plain c) = pc_xq_head c" "pc_sock_ref (plain c) = pc_sock_ref c" "pc_signals (plain c) = pc_signals c"
  by (simp_all add: plain_def)

lemma held_plain [simp]: "held (plain c) = held c"
  by (simp add: held_def owner_def)

lemma plain_all_held:
  assumes "pool_plain p' = pool_plain p"
  shows "dom (calls p') = dom (calls p)" "all_held (calls p') = all_held (calls p)"
proof -
  have c: "map_option plain (calls p' x) = map_option plain (calls p x)" for x
    using assms by (metis comp_apply pool_plain_def)
  show d: "dom (calls p') = dom (calls p)"
  proof (rule set_eqI)
    fix x show "x \<in> dom (calls p') \<longleftrightarrow> x \<in> dom (calls p)" using c [of x] by (cases "calls p' x"; cases "calls p x") auto
  qed
  show "all_held (calls p') = all_held (calls p)" unfolding all_held_def d
  proof (rule sum.cong [OF refl])
    fix x assume "x \<in> dom (calls p)"
    then obtain a b where "calls p x = Some a" "calls p' x = Some b" using d by (metis domD)
    then show "held (the (calls p' x)) = held (the (calls p x))" using c [of x] held_plain by (metis option.sel option.simps(9))
  qed
qed

lemma core_resvs:
  assumes "pool_core p' = pool_core p" "pool_plain p' = pool_plain p"
  shows "resvs_ok lk p' = resvs_ok lk p"
  unfolding resvs_ok_def pool_core_fields [OF assms(1)] plain_all_held [OF assms(2)] ..

lemma wq_simps [simp]:
  "wq_head w (set_wq_head w' x p) = (if w = w' then x else wq_head w p)" "wq_tail w (set_wq_head w' x p) = wq_tail w p"
  "wq_tail w (set_wq_tail w' x p) = (if w = w' then x else wq_tail w p)" "wq_head w (set_wq_tail w' x p) = wq_head w p"
  "calls (set_wq_head w' x p) = calls p" "calls (set_wq_tail w' x p) = calls p"
  "pool_core (set_wq_head w' x p) = pool_core p" "pool_core (set_wq_tail w' x p) = pool_core p"
  "wq_head w (p\<lparr>calls := m\<rparr>) = wq_head w p" "wq_tail w (p\<lparr>calls := m\<rparr>) = wq_tail w p"
  "pool_core (p\<lparr>calls := m\<rparr>) = pool_core p"
  by (cases w; cases w'; simp add: pool_core_def)+

lemma cget_wq [simp]: "cget x (set_wq_head w y p) = cget x p" "cget x (set_wq_tail w y p) = cget x p"
  by (simp_all add: cget_def)

text \<open>A list that \<open>x\<close> has joined, or left.\<close>

lemma waiters_join:
  assumes ok: "waiters_ok p W" and c: "calls p x = Some c" "\<not> is_in_pkt_chain c" "x \<noteq> NULL"
    and m: "calls p' = (if W w = [] then calls p else (calls p)(last (W w) \<mapsto> z\<lparr>pkt_chain := x\<rparr>))
      (x \<mapsto> c\<lparr>pkt_chain := NULL, is_in_pkt_chain := True, pc_refcnt := pc_refcnt c + 1\<rparr>)"
    and z: "W w \<noteq> [] \<Longrightarrow> calls p (last (W w)) = Some z"
    and q: "wq_head w p' = (if W w = [] then x else wq_head w p)" "wq_tail w p' = x"
      "\<And>v. v \<noteq> w \<Longrightarrow> wq_head v p' = wq_head v p \<and> wq_tail v p' = wq_tail v p"
  shows "waiters_ok p' (W(w := W w @ [x]))" "pool_plain p' = pool_plain p"
proof -
  note ok = ok [unfolded waiters_ok_def]
  have xn: "x \<notin> set (W v)" for v using ok c(1,2) by blast
  have disj: "set (W v) \<inter> set (W w) = {}" if "v \<noteq> w" for v using ok that by (cases v; cases w) auto
  have lw: "W w \<noteq> [] \<Longrightarrow> last (W w) \<in> set (W w)" by simp
  have wait: "wait_ok p' v ((W(w := W w @ [x])) v)" for v
  proof (cases "v = w")
    case True
    have w: "nseg pkt_chain (calls p) (wq_head w p) (W w) NULL" "distinct (W w)" using ok by (auto simp: wait_ok_def)
    have "nseg pkt_chain (calls p') (if W w = [] then x else wq_head w p) (W w @ [x]) NULL"
    proof (rule nseg_snoc [OF w xn c(3)])
      fix y assume y: "y \<in> set (butlast (W w))"
      then have "y \<noteq> x" "W w \<noteq> []" using xn [of w] by (auto dest: in_set_butlastD)
      moreover have "y \<noteq> last (W w)" using y w(2) \<open>W w \<noteq> []\<close> by (metis distinct_butlast append_butlast_last_id not_distinct_conv_prefix)
      ultimately show "map_option pkt_chain (calls p' y) = map_option pkt_chain (calls p y)" by (simp add: m)
    next
      show "map_option pkt_chain (calls p' x) = Some NULL" by (simp add: m)
    next
      assume "W w \<noteq> []"
      then show "map_option pkt_chain (calls p' (last (W w))) = Some x" using xn [of w] lw by (auto simp: m)
    qed
    then show ?thesis using True w(2) xn [of w] q by (simp add: wait_ok_def)
  next
    case False
    have w: "nseg pkt_chain (calls p) (wq_head v p) (W v) NULL" "distinct (W v)" "W v \<noteq> [] \<longrightarrow> wq_tail v p = last (W v)"
      using ok by (auto simp: wait_ok_def)
    have "nseg pkt_chain (calls p') (wq_head v p) (W v) NULL = nseg pkt_chain (calls p) (wq_head v p) (W v) NULL"
    proof (rule nseg_cong)
      fix y assume "y \<in> set (W v)"
      then have "y \<noteq> x" "W w \<noteq> [] \<Longrightarrow> y \<noteq> last (W w)" using xn [of v] disj [OF False] lw by auto
      then show "map_option pkt_chain (calls p' y) = map_option pkt_chain (calls p y)" by (simp add: m)
    qed
    then show ?thesis using False w q(3) [OF False] by (simp add: wait_ok_def)
  qed
  have set: "(\<exists>v. y \<in> set ((W(w := W w @ [x])) v)) \<longleftrightarrow> y = x \<or> (\<exists>v. y \<in> set (W v))" for y by auto
  have mem: "is_in_pkt_chain d \<longleftrightarrow> (\<exists>v. y \<in> set ((W(w := W w @ [x])) v))" if d: "calls p' y = Some d" for y d
  proof (cases "y = x")
    case False
    then obtain d0 where "calls p y = Some d0" "is_in_pkt_chain d0 = is_in_pkt_chain d"
      using d z by (auto simp: m split: if_splits)
    then show ?thesis unfolding set using ok False by blast
  qed (use d set m in auto)
  have "set ((W(w := W w @ [x])) Pkt_waiters) \<inter> set ((W(w := W w @ [x])) Rsv_waiters) = {}"
    using ok xn [of Pkt_waiters] xn [of Rsv_waiters] by (cases w) auto
  then show "waiters_ok p' (W(w := W w @ [x]))" unfolding waiters_ok_def using wait mem by blast
  have "map_option plain (calls p' y) = map_option plain (calls p y)" for y
    using c z by (auto simp: m plain_def)
  then show "pool_plain p' = pool_plain p" by (simp add: pool_plain_def fun_eq_iff)
qed

lemma waiters_leave:
  assumes ok: "waiters_ok p W" and W: "W w = xs @ x # ys" and c: "calls p x = Some c"
    and m: "calls p' = (if xs = [] then calls p else (calls p)(last xs \<mapsto> z\<lparr>pkt_chain := pkt_chain c\<rparr>))
      (x \<mapsto> c\<lparr>is_in_pkt_chain := False\<rparr>)"
    and z: "xs \<noteq> [] \<Longrightarrow> calls p (last xs) = Some z"
    and q: "wq_head w p' = (if xs = [] then pkt_chain c else wq_head w p)"
      "ys \<noteq> [] \<Longrightarrow> wq_tail w p' = wq_tail w p" "ys = [] \<Longrightarrow> xs \<noteq> [] \<Longrightarrow> wq_tail w p' = last xs"
      "\<And>v. v \<noteq> w \<Longrightarrow> wq_head v p' = wq_head v p \<and> wq_tail v p' = wq_tail v p"
  shows "waiters_ok p' (W(w := xs @ ys))" "y \<noteq> x \<Longrightarrow> pool_plain p' y = pool_plain p y"
proof -
  note ok = ok [unfolded waiters_ok_def]
  have disj: "set (W v) \<inter> set (W w) = {}" if "v \<noteq> w" for v using ok that by (cases v; cases w) auto
  have dw: "distinct (xs @ x # ys)" using ok W unfolding wait_ok_def by metis
  have lw: "xs \<noteq> [] \<Longrightarrow> last xs \<in> set xs" by simp
  have lx: "xs \<noteq> [] \<Longrightarrow> last xs \<noteq> x" using dw lw by auto
  have wait: "wait_ok p' v ((W(w := xs @ ys)) v)" for v
  proof (cases "v = w")
    case True
    have w: "nseg pkt_chain (calls p) (wq_head w p) (xs @ x # ys) NULL" "wq_tail w p = last (xs @ x # ys)"
      using ok W unfolding wait_ok_def by (metis, metis Nil_is_append_conv list.distinct(1))
    have "nseg pkt_chain (calls p') (if xs = [] then pkt_chain c else wq_head w p) (xs @ ys) NULL"
    proof (rule nseg_unlink [OF w(1) c])
      fix y assume y: "y \<in> set (butlast xs) \<union> set ys"
      then have "y \<noteq> x" using dw by (auto dest: in_set_butlastD)
      moreover have "xs \<noteq> [] \<Longrightarrow> y \<noteq> last xs"
        using y dw lw by (cases xs rule: rev_cases) auto
      ultimately show "map_option pkt_chain (calls p' y) = map_option pkt_chain (calls p y)" by (simp add: m)
    next
      assume "xs \<noteq> []"
      then show "map_option pkt_chain (calls p' (last xs)) = Some (pkt_chain c)" using lx by (simp add: m)
    qed
    then show ?thesis using True dw q(1-3) w(2) by (cases "ys = []") (simp_all add: wait_ok_def)
  next
    case False
    have w: "nseg pkt_chain (calls p) (wq_head v p) (W v) NULL" "distinct (W v)" "W v \<noteq> [] \<longrightarrow> wq_tail v p = last (W v)"
      using ok by (auto simp: wait_ok_def)
    have "nseg pkt_chain (calls p') (wq_head v p) (W v) NULL = nseg pkt_chain (calls p) (wq_head v p) (W v) NULL"
    proof (rule nseg_cong)
      fix y assume "y \<in> set (W v)"
      then have "y \<noteq> x" "xs \<noteq> [] \<Longrightarrow> y \<noteq> last xs" using disj [OF False] lw W by auto
      then show "map_option pkt_chain (calls p' y) = map_option pkt_chain (calls p y)" by (simp add: m)
    qed
    then show ?thesis using False w q(4) [OF False] by (simp add: wait_ok_def)
  qed
  have xn: "\<And>v. v \<noteq> w \<Longrightarrow> x \<notin> set (W v)" using disj W by auto
  have set: "(\<exists>v. y \<in> set ((W(w := xs @ ys)) v)) \<longleftrightarrow> y \<noteq> x \<and> (\<exists>v. y \<in> set (W v))" for y
  proof (cases "y = x")
    case True
    then show ?thesis using xn dw by auto
  next
    case False
    then have "y \<in> set ((W(w := xs @ ys)) v) \<longleftrightarrow> y \<in> set (W v)" for v using W by simp
    then show ?thesis using False by blast
  qed
  have mem: "is_in_pkt_chain d \<longleftrightarrow> (\<exists>v. y \<in> set ((W(w := xs @ ys)) v))" if d: "calls p' y = Some d" for y d
  proof (cases "y = x")
    case False
    then obtain d0 where "calls p y = Some d0" "is_in_pkt_chain d0 = is_in_pkt_chain d"
      using d z by (auto simp: m split: if_splits)
    then show ?thesis unfolding set using ok False by blast
  qed (use d set m in auto)
  have "set ((W(w := xs @ ys)) Pkt_waiters) \<inter> set ((W(w := xs @ ys)) Rsv_waiters) = {}"
    using ok W by (cases w) auto
  then show "waiters_ok p' (W(w := xs @ ys))" unfolding waiters_ok_def using wait mem by blast
  show "y \<noteq> x \<Longrightarrow> pool_plain p' y = pool_plain p y" using z by (auto simp: m plain_def pool_plain_def)
qed

lemmas bind_simps = Option.bind.simps

lemma enqueue_ok:
  assumes ok: "waiters_ok p W" and c: "cget x p = Some c" "\<not> is_in_pkt_chain c" "pc_refcnt c < 255"
  shows "\<exists>p'. enqueue_pool_waiter x w p = Some p' \<and> waiters_ok p' (W(w := W w @ [x])) \<and> pool_core p' = pool_core p \<and>
    pool_plain p' = pool_plain p \<and> (refs_ok p \<longrightarrow> refs_ok p')"
proof -
  have x: "x \<noteq> NULL" "calls p x = Some c" using c(1) by (auto simp: cget_def split: if_splits)
  have w: "nseg pkt_chain (calls p) (wq_head w p) (W w) NULL" "distinct (W w)" "W w \<noteq> [] \<longrightarrow> wq_tail w p = last (W w)"
    using ok by (auto simp: waiters_ok_def wait_ok_def)
  have xn: "x \<notin> set (W w)" using ok c(2) x(2) unfolding waiters_ok_def by blast
  have h: "wq_head w p = NULL \<longleftrightarrow> W w = []" using nseg_NULL_iff [OF w(1)] .
  have lx: "W w \<noteq> [] \<Longrightarrow> last (W w) \<noteq> x" using xn last_in_set by metis
  obtain z where z: "W w \<noteq> [] \<Longrightarrow> calls p (last (W w)) = Some z \<and> last (W w) \<noteq> NULL \<and> last (W w) \<noteq> x"
    using lx nseg_elem [OF w(1), of "last (W w)"] xn by (cases "W w = []") auto
  define m where "m = (if W w = [] then calls p else (calls p)(last (W w) \<mapsto> z\<lparr>pkt_chain := x\<rparr>))"
  define p1 where "p1 = (if W w = [] then set_wq_head w x p else p\<lparr>calls := m\<rparr>)"
  define p' where "p' = (set_wq_tail w x p1)\<lparr>calls := m(x \<mapsto> c\<lparr>pkt_chain := NULL, is_in_pkt_chain := True, pc_refcnt := pc_refcnt c + 1\<rparr>)\<rparr>"
  have s: "(if wq_head w p = NULL then Some (set_wq_head w x p)
      else cset (wq_tail w p) (pkt_chain_update (\<lambda>_. x)) p) = Some p1"
    using h z w(3) by (auto simp: p1_def m_def cset_def cget_def)
  have m1: "calls p1 = m" by (simp add: p1_def m_def)
  have mx: "m x = Some c" using z x(2) by (auto simp: m_def)
  have r: "pc_refcnt_update (\<lambda>n. n + 1) (c\<lparr>pkt_chain := NULL, is_in_pkt_chain := True\<rparr>) =
    c\<lparr>pkt_chain := NULL, is_in_pkt_chain := True, pc_refcnt := pc_refcnt c + 1\<rparr>" by (cases c) simp
  have e: "enqueue_pool_waiter x w p = Some p'"
    unfolding enqueue_pool_waiter_def c(1) bind_simps s using c(2,3) x m1 mx
    by (simp add: cset_def cget_def RPC_DG_CALL_REFERENCE_def p'_def r)
  have core: "pool_core p' = pool_core p" by (simp add: p'_def p1_def)
  have q: "wq_head w p' = (if W w = [] then x else wq_head w p)" "wq_tail w p' = x"
    "\<And>v. v \<noteq> w \<Longrightarrow> wq_head v p' = wq_head v p \<and> wq_tail v p' = wq_tail v p"
    by (simp_all add: p'_def p1_def)
  have m: "calls p' = (if W w = [] then calls p else (calls p)(last (W w) \<mapsto> z\<lparr>pkt_chain := x\<rparr>))
    (x \<mapsto> c\<lparr>pkt_chain := NULL, is_in_pkt_chain := True, pc_refcnt := pc_refcnt c + 1\<rparr>)"
    by (simp add: p'_def m_def)
  have "refs_ok p'" if r: "refs_ok p" unfolding refs_ok_def
  proof (intro allI impI)
    fix y d assume d: "calls p' y = Some d"
    show "(if is_in_pkt_chain d then 1 else 0) < pc_refcnt d"
    proof (cases "y = x")
      case True
      have "0 < pc_refcnt c" using r c(2) x(2) unfolding refs_ok_def by fastforce
      then have "1 < pc_refcnt c + 1" using c(3) by (simp add: word_less_nat_alt unat_add_mod)
      then show ?thesis using d True by (auto simp: m)
    next
      case False
      then obtain d0 where "calls p y = Some d0" "is_in_pkt_chain d0 = is_in_pkt_chain d" "pc_refcnt d0 = pc_refcnt d"
        using d z by (auto simp: m split: if_splits)
      then show ?thesis using r unfolding refs_ok_def by metis
    qed
  qed
  then show ?thesis using e core waiters_join [OF ok x(2) c(2) x(1) m conjunct1 [OF z] q] by blast
qed

text \<open>Taking \<open>x\<close> out and clearing its flag, which keeps the reference.\<close>

lemma unlink_ok:
  assumes ok: "waiters_ok p W" and W: "W w = xs @ x # ys" and c: "calls p x = Some c"
  shows "\<exists>p1. unlink_waiter w (last_addr xs) x p = Some p1 \<and> calls p1 x = Some c \<and>
    (\<forall>p2. p2 = p1\<lparr>calls := (calls p1)(x \<mapsto> c\<lparr>is_in_pkt_chain := False\<rparr>)\<rparr> \<longrightarrow>
      waiters_ok p2 (W(w := xs @ ys)) \<and> pool_core p2 = pool_core p \<and> (\<forall>y. y \<noteq> x \<longrightarrow> pool_plain p2 y = pool_plain p y) \<and>
      (refs_ok p \<longrightarrow> refs_ok p2))"
proof -
  have w: "nseg pkt_chain (calls p) (wq_head w p) (xs @ x # ys) NULL" "distinct (xs @ x # ys)" "wq_tail w p = last (xs @ x # ys)"
    using ok W unfolding waiters_ok_def wait_ok_def by (metis, metis, metis Nil_is_append_conv list.distinct(1))
  have n: "pkt_chain c = NULL \<longleftrightarrow> ys = []" "x \<noteq> NULL"
    using w(1) c nseg_NULL_iff [of pkt_chain "calls p" "pkt_chain c" ys] by auto
  have lx: "xs \<noteq> [] \<Longrightarrow> last xs \<noteq> x" using w(2) last_in_set [of xs] by auto
  obtain z where z: "xs \<noteq> [] \<Longrightarrow> calls p (last xs) = Some z \<and> last xs \<noteq> NULL \<and> last xs \<noteq> x"
    using lx nseg_elem [OF w(1), of "last xs"] w(2) by (cases "xs = []") auto
  define p0 where "p0 = (if xs = [] then set_wq_head w (pkt_chain c) p
    else p\<lparr>calls := (calls p)(last xs \<mapsto> z\<lparr>pkt_chain := pkt_chain c\<rparr>)\<rparr>)"
  define p1 where "p1 = (if ys = [] then set_wq_tail w (last_addr xs) p0 else p0)"
  have la: "last_addr xs = NULL \<longleftrightarrow> xs = []" using z by (auto simp: last_addr_def)
  have s: "(if last_addr xs = NULL then Some (set_wq_head w (pkt_chain c) p)
      else cset (last_addr xs) (pkt_chain_update (\<lambda>_. pkt_chain c)) p) = Some p0"
    using la z by (auto simp: p0_def cset_def cget_def last_addr_def)
  have cx0: "cget x p = Some c" using c n by (simp add: cget_def)
  have cx: "calls p0 x = Some c" using z c by (auto simp: p0_def)
  have "unlink_waiter w (last_addr xs) x p = Some p1"
    unfolding unlink_waiter_def cx0 bind_simps s using cx n by (simp add: cget_def p1_def)
  moreover have "calls p1 x = Some c" using cx by (simp add: p1_def)
  moreover have "waiters_ok p2 (W(w := xs @ ys)) \<and> pool_core p2 = pool_core p \<and> (\<forall>y. y \<noteq> x \<longrightarrow> pool_plain p2 y = pool_plain p y) \<and>
      (refs_ok p \<longrightarrow> refs_ok p2)"
    if p2: "p2 = p1\<lparr>calls := (calls p1)(x \<mapsto> c\<lparr>is_in_pkt_chain := False\<rparr>)\<rparr>" for p2
  proof -
    have m: "calls p2 = (if xs = [] then calls p else (calls p)(last xs \<mapsto> z\<lparr>pkt_chain := pkt_chain c\<rparr>))
      (x \<mapsto> c\<lparr>is_in_pkt_chain := False\<rparr>)" by (simp add: p2 p1_def p0_def)
    have q: "wq_head w p2 = (if xs = [] then pkt_chain c else wq_head w p)"
      "ys \<noteq> [] \<Longrightarrow> wq_tail w p2 = wq_tail w p" "ys = [] \<Longrightarrow> xs \<noteq> [] \<Longrightarrow> wq_tail w p2 = last xs"
      "\<And>v. v \<noteq> w \<Longrightarrow> wq_head v p2 = wq_head v p \<and> wq_tail v p2 = wq_tail v p"
      by (simp_all add: p2 p1_def p0_def last_addr_def)
    have "refs_ok p2" if r: "refs_ok p" unfolding refs_ok_def
    proof (intro allI impI)
      fix y d assume d: "calls p2 y = Some d"
      show "(if is_in_pkt_chain d then 1 else 0) < pc_refcnt d"
      proof (cases "y = x")
        case True
        have "0 < pc_refcnt c" using r c unfolding refs_ok_def by (metis order_less_trans word_gt_0 word_neq_0_conv)
        then show ?thesis using d True by (auto simp: m)
      next
        case False
        then obtain d0 where "calls p y = Some d0" "is_in_pkt_chain d0 = is_in_pkt_chain d" "pc_refcnt d0 = pc_refcnt d"
          using d z by (auto simp: m split: if_splits)
        then show ?thesis using r unfolding refs_ok_def by metis
      qed
    qed
    then show ?thesis using waiters_leave [OF ok W c m conjunct1 [OF z] q] by (simp add: p2 p1_def p0_def)
  qed
  ultimately show ?thesis by blast
qed

text \<open>Giving the list's reference up.\<close>

lemma release_ok:
  assumes c: "calls p x = Some c" "x \<noteq> NULL" "(if is_in_pkt_chain c then 2 else 1) < pc_refcnt c"
  shows "RPC_DG_CALL_RELEASE_NO_UNLOCK x p = Some (p\<lparr>calls := (calls p)(x \<mapsto> c\<lparr>pc_refcnt := pc_refcnt c - 1\<rparr>)\<rparr>)"
    "RPC_DG_CALL_RELEASE x p = Some (p\<lparr>calls := (calls p)(x \<mapsto> c\<lparr>pc_refcnt := pc_refcnt c - 1\<rparr>)\<rparr>)"
    "refs_ok p \<Longrightarrow> refs_ok (p\<lparr>calls := (calls p)(x \<mapsto> c\<lparr>pc_refcnt := pc_refcnt c - 1\<rparr>)\<rparr>)"
proof -
  have u: "pc_refcnt_update (\<lambda>n. n - 1) c = c\<lparr>pc_refcnt := pc_refcnt c - 1\<rparr>" by (cases c) simp
  have r: "1 < unat (pc_refcnt c)" "is_in_pkt_chain c \<Longrightarrow> 2 < unat (pc_refcnt c)"
    using c(3) by (auto simp: word_less_nat_alt split: if_splits)
  then have n: "pc_refcnt c \<noteq> 0" "pc_refcnt c \<noteq> 1" "1 < pc_refcnt c" by (auto simp: word_less_nat_alt)
  show "RPC_DG_CALL_RELEASE_NO_UNLOCK x p = Some (p\<lparr>calls := (calls p)(x \<mapsto> c\<lparr>pc_refcnt := pc_refcnt c - 1\<rparr>)\<rparr>)"
    "RPC_DG_CALL_RELEASE x p = Some (p\<lparr>calls := (calls p)(x \<mapsto> c\<lparr>pc_refcnt := pc_refcnt c - 1\<rparr>)\<rparr>)"
    using c n by (simp_all add: RPC_DG_CALL_RELEASE_NO_UNLOCK_def RPC_DG_CALL_RELEASE_def cget_def cset_def u)
  have "unat (pc_refcnt c - 1) = unat (pc_refcnt c) - 1" using n(1) by (simp add: unat_sub word_le_nat_alt Suc_leI unat_gt_0)
  then have "(if is_in_pkt_chain c then 1 else 0) < pc_refcnt c - 1" using r by (auto simp: word_less_nat_alt)
  then show "refs_ok p \<Longrightarrow> refs_ok (p\<lparr>calls := (calls p)(x \<mapsto> c\<lparr>pc_refcnt := pc_refcnt c - 1\<rparr>)\<rparr>)"
    by (auto simp: refs_ok_def)
qed

lemma waiters_cong:
  assumes ok: "waiters_ok p W" and c: "calls p x = Some c"
    and m: "calls p' = (calls p)(x \<mapsto> d)" "pkt_chain d = pkt_chain c" "is_in_pkt_chain d = is_in_pkt_chain c"
    and q: "\<And>w. wq_head w p' = wq_head w p" "\<And>w. wq_tail w p' = wq_tail w p"
  shows "waiters_ok p' W"
proof -
  have n: "nseg pkt_chain (calls p') h xs NULL = nseg pkt_chain (calls p) h xs NULL" for h xs
    by (rule nseg_cong) (use c m in simp)
  have "is_in_pkt_chain e \<longleftrightarrow> (\<exists>w. y \<in> set (W w))" if e: "calls p' y = Some e" for y e
  proof (cases "y = x")
    case True
    then show ?thesis using e c m ok by (auto simp: waiters_ok_def)
  next
    case False
    then show ?thesis using e m(1) ok by (auto simp: waiters_ok_def)
  qed
  then show ?thesis using ok unfolding waiters_ok_def wait_ok_def n q by blast
qed

lemma dequeue_loop_unfold:
  assumes "nseg pkt_chain (calls p) wtr (zs @ x # ys) NULL" "x \<notin> set zs" "prev = last_addr us"
  shows "dequeue_loop x w wtr prev p = do {
    p \<leftarrow> unlink_waiter w (last_addr (us @ zs)) x p;
    p \<leftarrow> cset x (is_in_pkt_chain_update (\<lambda>_. False)) p;
    RPC_DG_CALL_RELEASE_NO_UNLOCK x p }"
  using assms
proof (induction zs arbitrary: wtr prev us)
  case Nil
  then show ?case by (subst dequeue_loop.simps) auto
next
  case (Cons z zs)
  from Cons.prems obtain c where c: "wtr = z" "z \<noteq> NULL" "calls p z = Some c" "nseg pkt_chain (calls p) (pkt_chain c) (zs @ x # ys) NULL"
    by auto
  have "dequeue_loop x w wtr prev p = dequeue_loop x w (pkt_chain c) z p"
    using c Cons.prems(2) by (subst dequeue_loop.simps) (simp add: cget_def)
  also have "\<dots> = do {
    p \<leftarrow> unlink_waiter w (last_addr ((us @ [z]) @ zs)) x p;
    p \<leftarrow> cset x (is_in_pkt_chain_update (\<lambda>_. False)) p;
    RPC_DG_CALL_RELEASE_NO_UNLOCK x p }"
    by (rule Cons.IH [OF c(4)]) (use Cons.prems(2) in simp_all)
  finally show ?case by simp
qed

lemma dequeue_loop_absent:
  "nseg pkt_chain (calls p) wtr zs NULL \<Longrightarrow> x \<notin> set zs \<Longrightarrow> dequeue_loop x w wtr prev p = Some p"
proof (induction zs arbitrary: wtr prev)
  case Nil
  then show ?case by (simp add: dequeue_loop.simps)
next
  case (Cons z zs)
  then show ?case by (subst dequeue_loop.simps) (auto simp: cget_def)
qed

lemma waiter_dequeue_ok:
  assumes ok: "waiters_ok p W" "refs_ok p"
  shows "\<exists>p'. dequeue_pool_waiter x w p = Some p' \<and> waiters_ok p' (W(w := remove1 x (W w))) \<and> refs_ok p' \<and>
    pool_core p' = pool_core p \<and> pool_plain p' = pool_plain p"
proof (cases "x \<in> set (W w)")
  case False
  have "nseg pkt_chain (calls p) (wq_head w p) (W w) NULL" using ok(1) by (simp add: waiters_ok_def wait_ok_def)
  then have "dequeue_pool_waiter x w p = Some p" unfolding dequeue_pool_waiter_def using False by (rule dequeue_loop_absent)
  then show ?thesis using ok False by (simp add: remove1_idem)
next
  case True
  then obtain xs ys where W: "W w = xs @ x # ys" "x \<notin> set xs" by (meson split_list_first)
  have n: "nseg pkt_chain (calls p) (wq_head w p) (xs @ x # ys) NULL"
    using ok(1) W(1) unfolding waiters_ok_def wait_ok_def by metis
  then obtain c where c: "calls p x = Some c" "x \<noteq> NULL" by auto
  have i: "is_in_pkt_chain c" using ok(1) c(1) True unfolding waiters_ok_def by blast
  then have r: "1 < pc_refcnt c" using ok(2) c(1) unfolding refs_ok_def by fastforce
  from unlink_ok [OF ok(1) W(1) c(1)] obtain p1 where p1: "unlink_waiter w (last_addr xs) x p = Some p1" "calls p1 x = Some c"
    and p2: "\<And>p2. p2 = p1\<lparr>calls := (calls p1)(x \<mapsto> c\<lparr>is_in_pkt_chain := False\<rparr>)\<rparr> \<Longrightarrow>
      waiters_ok p2 (W(w := xs @ ys)) \<and> pool_core p2 = pool_core p \<and> (\<forall>y. y \<noteq> x \<longrightarrow> pool_plain p2 y = pool_plain p y) \<and> refs_ok p2"
    using ok(2) by blast
  define q where "q = p1\<lparr>calls := (calls p1)(x \<mapsto> c\<lparr>is_in_pkt_chain := False\<rparr>)\<rparr>"
  note q = p2 [OF q_def]
  let ?c = "c\<lparr>is_in_pkt_chain := False\<rparr>"
  define p' where "p' = q\<lparr>calls := (calls q)(x \<mapsto> ?c\<lparr>pc_refcnt := pc_refcnt ?c - 1\<rparr>)\<rparr>"
  have qx: "calls q x = Some ?c" by (simp add: q_def)
  have s: "cset x (is_in_pkt_chain_update (\<lambda>_. False)) p1 = Some q" using p1(2) c(2) by (simp add: cset_def cget_def q_def)
  have rl: "RPC_DG_CALL_RELEASE_NO_UNLOCK x q = Some p'" "refs_ok p'"
    unfolding p'_def using release_ok [OF qx c(2)] r q by simp_all
  have "dequeue_pool_waiter x w p = Some p'"
    unfolding dequeue_pool_waiter_def using dequeue_loop_unfold [OF n W(2), of NULL "[]" w] p1(1) s rl(1) by simp
  moreover have "waiters_ok p' (W(w := remove1 x (W w)))"
  proof -
    have "remove1 x (W w) = xs @ ys" using W by (simp add: remove1_append)
    then show ?thesis using waiters_cong [OF conjunct1 [OF q] qx, of p'] by (simp add: p'_def)
  qed
  moreover have "pool_core p' = pool_core p" using q by (simp add: p'_def)
  moreover have "pool_plain p' = pool_plain p"
  proof
    fix y show "pool_plain p' y = pool_plain p y"
    proof (cases "y = x")
      case True
      then show ?thesis using c i by (simp add: pool_plain_def p'_def plain_def)
    next
      case False
      then show ?thesis using q by (simp add: pool_plain_def p'_def)
    qed
  qed
  ultimately show ?thesis using rl(2) by blast
qed

lemma unat_ucast_u8 [simp]: "unat (ucast (w :: u8) :: u32) = unat w"
  using unat_u8_lt [of w] by (simp add: unsigned_ucast_eq take_bit_nat_eq_self_iff)

text \<open>
  The call that can go on: the first that waits for a reservation, if there are packets for it, or
  the first server call that one of the reservations set aside suits; only if none waits for a
  reservation, and packets are not rationed, the first that waits for a packet.
\<close>

definition next_waiter :: "dg_pool \<Rightarrow> (waitq \<Rightarrow> addr list) \<Rightarrow> addr option" where
  "next_waiter p W =
     (if W Rsv_waiters \<noteq> [] then
        if unat (reservations p) + unat (pc_n_resvs_wait (the (calls p (hd (W Rsv_waiters))))) \<le> avail p
        then Some (hd (W Rsv_waiters))
        else if srv_resv_avail p = 0 then None
        else find (\<lambda>x. pc_is_server (the (calls p x)) \<and> pc_n_resvs_wait (the (calls p x)) \<le> 3) (W Rsv_waiters)
      else if W Pkt_waiters \<noteq> [] \<and> unat (reservations p) < avail p then Some (hd (W Pkt_waiters))
      else None)"

definition serving :: "(waitq \<Rightarrow> addr list) \<Rightarrow> waitq" where
  "serving W = (if W Rsv_waiters \<noteq> [] then Rsv_waiters else Pkt_waiters)"

text \<open>What is left once \<open>x\<close> is taken off list \<open>w\<close> and its flag cleared.\<close>

definition taken_off :: "dg_pool \<Rightarrow> (waitq \<Rightarrow> addr list) \<Rightarrow> waitq \<Rightarrow> addr \<Rightarrow> dg_pool \<Rightarrow> bool" where
  "taken_off p W w x p1 \<longleftrightarrow> (\<exists>c. calls p x = Some c \<and> x \<noteq> NULL \<and> calls p1 x = Some c \<and>
    (\<forall>p2. p2 = p1\<lparr>calls := (calls p1)(x \<mapsto> c\<lparr>is_in_pkt_chain := False\<rparr>)\<rparr> \<longrightarrow>
      waiters_ok p2 (W(w := remove1 x (W w))) \<and> pool_core p2 = pool_core p \<and> (\<forall>y. y \<noteq> x \<longrightarrow> pool_plain p2 y = pool_plain p y) \<and>
      (refs_ok p \<longrightarrow> refs_ok p2)))"

lemma taken_head:
  assumes ok: "waiters_ok p W" and W: "W w = x # ys"
  shows "\<exists>c. cget x p = Some c \<and> wq_head w p = x \<and> taken_off p W w x (set_wq_head w (pkt_chain c) p)"
proof -
  have n: "nseg pkt_chain (calls p) (wq_head w p) (x # ys) NULL" "distinct (x # ys)" "wq_tail w p = last (x # ys)"
    using ok W unfolding waiters_ok_def wait_ok_def by (metis, metis, metis list.distinct(1))
  then obtain c where c: "calls p x = Some c" "x \<noteq> NULL" "wq_head w p = x" by auto
  let ?p1 = "set_wq_head w (pkt_chain c) p"
  have "waiters_ok p2 (W(w := [] @ ys)) \<and> pool_core p2 = pool_core p \<and> (\<forall>y. y \<noteq> x \<longrightarrow> pool_plain p2 y = pool_plain p y) \<and>
      (refs_ok p \<longrightarrow> refs_ok p2)"
    if p2: "p2 = ?p1\<lparr>calls := (calls ?p1)(x \<mapsto> c\<lparr>is_in_pkt_chain := False\<rparr>)\<rparr>" for p2
  proof -
    have "refs_ok p2" if r: "refs_ok p"
    proof -
      have "0 < pc_refcnt c" using r c(1) unfolding refs_ok_def by (metis order_less_trans word_gt_0 word_neq_0_conv)
      then show ?thesis using r by (auto simp: refs_ok_def p2)
    qed
    moreover have "waiters_ok p2 (W(w := [] @ ys))" "\<And>y. y \<noteq> x \<Longrightarrow> pool_plain p2 y = pool_plain p y"
      using waiters_leave [of p W w "[]" x ys c p2] ok W c(1) n(3) by (simp_all add: p2)
    ultimately show ?thesis by (simp add: p2)
  qed
  then show ?thesis using c W by (auto simp: taken_off_def cget_def)
qed

lemma taken_unlinked:
  assumes ok: "waiters_ok p W" and W: "W w = xs @ x # ys"
  shows "\<exists>p1. unlink_waiter w (last_addr xs) x p = Some p1 \<and> taken_off p W w x p1"
proof -
  have n: "nseg pkt_chain (calls p) (wq_head w p) (xs @ x # ys) NULL" "distinct (xs @ x # ys)"
    using ok W unfolding waiters_ok_def wait_ok_def by (metis, metis)
  then obtain c where c: "calls p x = Some c" "x \<noteq> NULL" by auto
  have "remove1 x (W w) = xs @ ys" using W n(2) by (simp add: remove1_append)
  then show ?thesis using unlink_ok [OF ok W c(1)] c unfolding taken_off_def by auto
qed

lemma scan_servers_ok:
  assumes ok: "waiters_ok p W" and W: "W Rsv_waiters = xs @ ys" and m: "max_resv_pkt p = 2"
    and n: "nseg pkt_chain (calls p) wtr ys NULL"
  shows "case find (\<lambda>x. pc_is_server (the (calls p x)) \<and> pc_n_resvs_wait (the (calls p x)) \<le> 3) ys of
      None \<Rightarrow> scan_servers wtr (last_addr xs) p = Some (NULL, p)
    | Some x \<Rightarrow> \<exists>p1. scan_servers wtr (last_addr xs) p = Some (x, p1) \<and> taken_off p W Rsv_waiters x p1"
  using W n
proof (induction ys arbitrary: wtr xs)
  case Nil
  then show ?case by (simp add: scan_servers.simps)
next
  case (Cons y ys)
  from Cons.prems(2) obtain c where c: "wtr = y" "y \<noteq> NULL" "calls p y = Some c" "nseg pkt_chain (calls p) (pkt_chain c) ys NULL"
    by auto
  have le: "(3::u32) \<ge> ucast (pc_n_resvs_wait c) \<longleftrightarrow> pc_n_resvs_wait c \<le> 3"
    by (simp add: word_le_nat_alt)
  show ?case
  proof (cases "pc_is_server c \<and> pc_n_resvs_wait c \<le> 3")
    case True
    obtain p1 where p1: "unlink_waiter Rsv_waiters (last_addr xs) y p = Some p1" "taken_off p W Rsv_waiters y p1"
      using taken_unlinked [OF ok Cons.prems(1)] by blast
    then have "scan_servers wtr (last_addr xs) p = Some (y, p1)"
      using c True le m by (subst scan_servers.simps) (simp add: cget_def)
    then show ?thesis using p1(2) True c by simp
  next
    case False
    have sc: "scan_servers wtr (last_addr xs) p = scan_servers (pkt_chain c) (last_addr (xs @ [y])) p"
      using c False le m by (subst scan_servers.simps) (auto simp: cget_def)
    have fd: "find (\<lambda>x. pc_is_server (the (calls p x)) \<and> pc_n_resvs_wait (the (calls p x)) \<le> 3) (y # ys) =
      find (\<lambda>x. pc_is_server (the (calls p x)) \<and> pc_n_resvs_wait (the (calls p x)) \<le> 3) ys"
      using False c(3) by auto
    show ?thesis unfolding sc fd by (rule Cons.IH [OF _ c(4)]) (simp add: Cons.prems(1))
  qed
qed

lemma scan_pick_ok:
  assumes ok: "pool_ok lk p fs W"
  shows "case next_waiter p W of None \<Rightarrow> scan_pick p = Some (NULL, p)
    | Some x \<Rightarrow> \<exists>p1. scan_pick p = Some (x, p1) \<and> taken_off p W (serving W) x p1"
proof -
  have k: "counts_ok p" "resvs_ok lk p" "waiters_ok p W" using ok by (simp_all add: pool_ok_def)
  note a = avail_words [OF k(1,2)]
  have n: "nseg pkt_chain (calls p) (wq_head w p) (W w) NULL" for w using k(3) by (simp add: waiters_ok_def wait_ok_def)
  have h: "rsv_waiters_head p = NULL \<longleftrightarrow> W Rsv_waiters = []" "pkt_waiters_head p = NULL \<longleftrightarrow> W Pkt_waiters = []"
    using nseg_NULL_iff [OF n [of Rsv_waiters]] nseg_NULL_iff [OF n [of Pkt_waiters]] by simp_all
  show ?thesis
  proof (cases "W Rsv_waiters")
    case (Cons x xs)
    from taken_head [OF k(3) Cons] obtain c where c: "cget x p = Some c" "rsv_waiters_head p = x"
      "taken_off p W Rsv_waiters x (p\<lparr>rsv_waiters_head := pkt_chain c\<rparr>)" by auto
    have cx: "calls p x = Some c" "x \<noteq> NULL" using c(1) by (auto simp: cget_def split: if_splits)
    have s: "serving W = Rsv_waiters" using Cons by (simp add: serving_def)
    have u: "unat (ucast (pc_n_resvs_wait c) :: u32) = unat (pc_n_resvs_wait c)" by simp
    have "unat (ucast (pc_n_resvs_wait c) :: u32) < 2 ^ 31" using unat_u8_lt [of "pc_n_resvs_wait c"] u by simp
    note ra = a(4) [OF this, unfolded u]
    show ?thesis
    proof (cases "unat (reservations p) + unat (pc_n_resvs_wait c) \<le> avail p")
      case True
      then have "scan_pick p = Some (x, p\<lparr>rsv_waiters_head := pkt_chain c\<rparr>)" using c cx ra by (simp add: scan_pick_def)
      then show ?thesis using True Cons cx c(3) s by (simp add: next_waiter_def)
    next
      case False
      show ?thesis
      proof (cases "srv_resv_avail p = 0")
        case True
        then have "scan_pick p = Some (NULL, p)" using c cx ra False by (simp add: scan_pick_def)
        then show ?thesis using True False Cons cx by (simp add: next_waiter_def)
      next
        case srv: False
        then have e: "scan_pick p = scan_servers x (last_addr []) p" using c cx ra False by (simp add: scan_pick_def word_gt_0)
        have nw: "next_waiter p W = find (\<lambda>x. pc_is_server (the (calls p x)) \<and> pc_n_resvs_wait (the (calls p x)) \<le> 3) (W Rsv_waiters)"
          using srv False Cons cx by (simp add: next_waiter_def)
        have "max_resv_pkt p = 2" using k(2) by (simp add: resvs_ok_def)
        then show ?thesis unfolding e nw s
          using scan_servers_ok [OF k(3), of "[]" "W Rsv_waiters" x] n [of Rsv_waiters] c(2) by simp
      qed
    qed
  next
    case Nil
    then have s: "serving W = Pkt_waiters" by (simp add: serving_def)
    show ?thesis
    proof (cases "W Pkt_waiters")
      case (Cons x xs)
      from taken_head [OF k(3) Cons] obtain c where c: "cget x p = Some c" "pkt_waiters_head p = x"
        "taken_off p W Pkt_waiters x (p\<lparr>pkt_waiters_head := pkt_chain c\<rparr>)" by auto
      have cx: "x \<noteq> NULL" using c(1) by (auto simp: cget_def split: if_splits)
      show ?thesis using Nil Cons c cx h a(3) s by (auto simp: scan_pick_def next_waiter_def)
    next
      case pkt: Nil
      then show ?thesis using Nil h by (simp add: scan_pick_def next_waiter_def)
    qed
  qed
qed

lemma held_cong:
  assumes "\<And>y. map_option held (m' y) = map_option held (m y)"
  shows "dom m' = dom m" "all_held m' = all_held m"
proof -
  show d: "dom m' = dom m"
  proof (rule set_eqI)
    fix x show "x \<in> dom m' \<longleftrightarrow> x \<in> dom m" using assms [of x] by (cases "m' x"; cases "m x") auto
  qed
  have "held (the (m' x)) = held (the (m x))" if "x \<in> dom m" for x
    using assms [of x] that by (cases "m' x"; cases "m x") auto
  then show "all_held m' = all_held m" unfolding all_held_def d by (intro sum.cong) auto
qed

lemma resvs_cong:
  assumes "pool_core p' = pool_core p" "\<And>y. map_option held (calls p' y) = map_option held (calls p y)"
  shows "resvs_ok lk p' = resvs_ok lk p"
  unfolding resvs_ok_def pool_core_fields [OF assms(1)] held_cong [OF assms(2)] ..

lemma plain_held:
  assumes "pool_plain p' y = pool_plain p y"
  shows "map_option held (calls p' y) = map_option held (calls p y)"
proof -
  have "map_option held (map_option plain (calls q y)) = map_option held (calls q y)" for q
    by (cases "calls q y") simp_all
  then show ?thesis using assms unfolding pool_plain_def comp_def by metis
qed

text \<open>The references of the calls, without those of the waiting lists.\<close>

definition same_refs :: "dg_pool \<Rightarrow> dg_pool \<Rightarrow> bool" where
  "same_refs p p' \<longleftrightarrow> (\<forall>x c. calls p x = Some c \<longrightarrow> (\<exists>c'. calls p' x = Some c' \<and> pc_refcnt (plain c') = pc_refcnt (plain c)))"

lemma same_refs_refl [simp]: "same_refs p p"
  by (simp add: same_refs_def)

lemma same_refs_trans: "same_refs p q \<Longrightarrow> same_refs q r \<Longrightarrow> same_refs p r"
  unfolding same_refs_def by metis

lemma plain_same_refs: "(\<And>y. map_option (pc_refcnt \<circ> plain) (calls p' y) = map_option (pc_refcnt \<circ> plain) (calls p y)) \<Longrightarrow> same_refs p p'"
  unfolding same_refs_def
proof (intro allI impI)
  fix x c assume a: "\<And>y. map_option (pc_refcnt \<circ> plain) (calls p' y) = map_option (pc_refcnt \<circ> plain) (calls p y)"
    and "calls p x = Some c"
  then show "\<exists>c'. calls p' x = Some c' \<and> pc_refcnt (plain c') = pc_refcnt (plain c)"
    using a [of x] by (cases "calls p' x") simp_all
qed

lemma pool_plain_same_refs: "pool_plain p' = pool_plain p \<Longrightarrow> same_refs p p'"
proof (rule plain_same_refs)
  fix y assume "pool_plain p' = pool_plain p"
  then have "map_option pc_refcnt (pool_plain p' y) = map_option pc_refcnt (pool_plain p y)" by simp
  then show "map_option (pc_refcnt \<circ> plain) (calls p' y) = map_option (pc_refcnt \<circ> plain) (calls p y)"
    by (simp add: pool_plain_def option.map_comp)
qed

text \<open>What the other threads may do while the lock is given up.\<close>

definition leaks :: "bool \<Rightarrow> nat \<Rightarrow> nat \<Rightarrow> bool" where
  "leaks exact k k' \<longleftrightarrow> k \<le> k' \<and> (exact \<longrightarrow> k' = k)"

lemma leaks_refl [simp]: "leaks exact k k" by (simp add: leaks_def)

lemma leaks_trans: "leaks exact k l \<Longrightarrow> leaks exact l m \<Longrightarrow> leaks exact k m" by (auto simp: leaks_def)

definition conc_ok :: "bool \<Rightarrow> (dg_pool \<Rightarrow> dg_pool) \<Rightarrow> bool" where
  "conc_ok exact conc \<longleftrightarrow> (\<forall>lk p fs W. pool_ok lk p fs W \<longrightarrow>
     (\<exists>k fs' W'. leaks exact lk k \<and> pool_ok k (conc p) fs' W') \<and> same_refs p (conc p))"

lemma conc_ok_id [simp]: "conc_ok exact id" "conc_ok exact (\<lambda>p. p)"
  using leaks_refl same_refs_refl unfolding conc_ok_def id_apply by blast+

lemma wake_ok:
  assumes ok: "pool_ok lk q fs W" and c: "calls q x = Some c" "x \<noteq> NULL" "(if is_in_pkt_chain c then 2 else 1) < pc_refcnt c"
  shows "\<exists>q1 q2. pool_call_signal x q = Some q1 \<and> RPC_DG_CALL_RELEASE x q1 = Some q2 \<and> RPC_DG_CALL_RELEASE_NO_UNLOCK x q1 = Some q2 \<and>
    pool_ok lk q2 fs W \<and> pool_core q2 = pool_core q \<and>
    calls q2 = (calls q)(x \<mapsto> c\<lparr>pc_signals := Suc (pc_signals c), pc_refcnt := pc_refcnt c - 1\<rparr>)"
proof -
  let ?c1 = "c\<lparr>pc_signals := Suc (pc_signals c)\<rparr>"
  let ?c2 = "?c1\<lparr>pc_refcnt := pc_refcnt ?c1 - 1\<rparr>"
  define q1 where "q1 = q\<lparr>calls := (calls q)(x \<mapsto> ?c1)\<rparr>"
  define q2 where "q2 = q1\<lparr>calls := (calls q1)(x \<mapsto> ?c2)\<rparr>"
  have u: "pc_signals_update Suc c = ?c1" by (cases c) simp
  have s: "pool_call_signal x q = Some q1" using c by (simp add: pool_call_signal_def cset_def cget_def q1_def u)
  have x1: "calls q1 x = Some ?c1" by (simp add: q1_def)
  have r: "(if is_in_pkt_chain ?c1 then 2 else 1) < pc_refcnt ?c1" using c(3) by simp
  note rel = release_ok [OF x1 c(2) r, folded q2_def]
  have k: "free_ok q fs" "counts_ok q" "resvs_ok lk q" "waiters_ok q W" "refs_ok q" "socks_ok q" using ok by (simp_all add: pool_ok_def)
  have m: "calls q2 = (calls q)(x \<mapsto> ?c2)" by (simp add: q2_def q1_def)
  have core: "pool_core q2 = pool_core q" by (simp add: q2_def q1_def)
  have "refs_ok q1" using k(5) c(1) by (auto simp: refs_ok_def q1_def)
  then have "refs_ok q2" by (rule rel(3))
  moreover have "waiters_ok q2 W" by (rule waiters_cong [OF k(4) c(1) m]) (simp_all add: q2_def q1_def)
  moreover have "resvs_ok lk q2"
    using resvs_cong [OF core] k(3) c(1) by (auto simp: m held_def owner_def)
  ultimately have "pool_ok lk q2 fs W" unfolding pool_ok_def using k core_ok [OF core] by simp
  then show ?thesis using s rel(1,2) core m by auto
qed

text \<open>One scan: nothing, or one call taken off its list, signalled and let go.\<close>

lemma scan_none:
  assumes "pool_ok lk p fs W" "next_waiter p W = None"
  shows "scan_waiter_lists conc call p = Some p"
  using scan_pick_ok [OF assms(1)] assms(2) by (simp add: scan_waiter_lists_def)

lemma scan_some:
  assumes ok: "pool_ok lk p fs W" and nw: "next_waiter p W = Some x"
  shows "\<exists>p2. calls p2 x = map_option (\<lambda>c. c\<lparr>is_in_pkt_chain := False\<rparr>) (calls p x) \<and> calls p x \<noteq> None \<and> x \<noteq> NULL \<and>
    pool_ok lk p2 fs (W(serving W := remove1 x (W (serving W)))) \<and> pool_core p2 = pool_core p \<and>
    (\<forall>y. y \<noteq> x \<longrightarrow> pool_plain p2 y = pool_plain p y) \<and>
    scan_waiter_lists conc call p = (let q = (if call \<noteq> x then conc p2 else p2) in do {
      q \<leftarrow> pool_call_signal x q;
      if call \<noteq> x then RPC_DG_CALL_RELEASE x q else RPC_DG_CALL_RELEASE_NO_UNLOCK x q })"
proof -
  from scan_pick_ok [OF ok] nw obtain p1 where p1: "scan_pick p = Some (x, p1)" "taken_off p W (serving W) x p1" by auto
  then obtain c where c: "calls p x = Some c" "x \<noteq> NULL" "calls p1 x = Some c" and
    p2: "\<And>p2. p2 = p1\<lparr>calls := (calls p1)(x \<mapsto> c\<lparr>is_in_pkt_chain := False\<rparr>)\<rparr> \<Longrightarrow>
      waiters_ok p2 (W(serving W := remove1 x (W (serving W)))) \<and> pool_core p2 = pool_core p \<and>
      (\<forall>y. y \<noteq> x \<longrightarrow> pool_plain p2 y = pool_plain p y) \<and> (refs_ok p \<longrightarrow> refs_ok p2)"
    unfolding taken_off_def by blast
  have k: "free_ok p fs" "counts_ok p" "resvs_ok lk p" "refs_ok p" "socks_ok p" using ok by (simp_all add: pool_ok_def)
  define q where "q = p1\<lparr>calls := (calls p1)(x \<mapsto> c\<lparr>is_in_pkt_chain := False\<rparr>)\<rparr>"
  note q = p2 [OF q_def]
  have core: "pool_core q = pool_core p" using q by blast
  have h: "map_option held (calls q y) = map_option held (calls p y)" for y
  proof (cases "y = x")
    case True
    then show ?thesis using c by (simp add: q_def held_def owner_def)
  qed (use q in \<open>blast intro: plain_held\<close>)
  have "pool_ok lk q fs (W(serving W := remove1 x (W (serving W))))"
    unfolding pool_ok_def using core_ok [OF core] resvs_cong [OF core h] k q by simp
  moreover have "cset x (is_in_pkt_chain_update (\<lambda>_. False)) p1 = Some q" using c by (simp add: cset_def cget_def q_def)
  then have "scan_waiter_lists conc call p = (let q = (if call \<noteq> x then conc q else q) in do {
      q \<leftarrow> pool_call_signal x q;
      if call \<noteq> x then RPC_DG_CALL_RELEASE x q else RPC_DG_CALL_RELEASE_NO_UNLOCK x q })"
    using p1(1) c(2) by (simp add: scan_waiter_lists_def)
  ultimately show ?thesis using q c by (intro exI [of _ q]) (simp add: q_def)
qed

lemma next_waiter_in: "next_waiter p W = Some x \<Longrightarrow> x \<in> set (W (serving W))"
  by (auto simp: next_waiter_def serving_def find_Some_iff split: if_splits)

lemma pool_okD:
  assumes "pool_ok lk p fs W"
  shows "free_ok p fs" "counts_ok p" "resvs_ok lk p" "waiters_ok p W" "refs_ok p" "socks_ok p"
  using assms by (simp_all add: pool_ok_def)

lemma conc_okD: "conc_ok exact conc \<Longrightarrow> pool_ok lk p fs W \<Longrightarrow>
  \<exists>k gs V. leaks exact lk k \<and> pool_ok k (if b then conc p else p) gs V \<and> same_refs p (if b then conc p else p)"
  unfolding conc_ok_def using leaks_refl same_refs_refl by (cases b) (simp only: if_True, blast, simp only: if_False, blast)

lemma scan_cases:
  assumes ok: "pool_ok lk p fs W" and nw: "next_waiter p W = Some x" and conc: "conc_ok exact conc"
  shows "\<exists>c p2 q c'. calls p x = Some c \<and> is_in_pkt_chain c \<and>
    calls p2 x = Some (c\<lparr>is_in_pkt_chain := False\<rparr>) \<and> pool_core p2 = pool_core p \<and> (\<forall>y. y \<noteq> x \<longrightarrow> pool_plain p2 y = pool_plain p y) \<and>
    pool_ok lk p2 fs (W(serving W := remove1 x (W (serving W)))) \<and> q = (if call \<noteq> x then conc p2 else p2) \<and>
    calls q x = Some c' \<and> pc_refcnt (plain c') = pc_refcnt c \<and>
    (\<forall>k gs V. pool_ok k q gs V \<longrightarrow> (\<exists>p'. scan_waiter_lists conc call p = Some p' \<and> pool_ok k p' gs V \<and> pool_core p' = pool_core q \<and>
      calls p' = (calls q)(x \<mapsto> c'\<lparr>pc_signals := Suc (pc_signals c'), pc_refcnt := pc_refcnt c' - 1\<rparr>)))"
proof -
  from scan_some [OF ok nw, of conc call] obtain c p2 where c: "calls p x = Some c" "x \<noteq> NULL" and
    p2: "calls p2 x = Some (c\<lparr>is_in_pkt_chain := False\<rparr>)" "pool_ok lk p2 fs (W(serving W := remove1 x (W (serving W))))"
      "pool_core p2 = pool_core p" "\<forall>y. y \<noteq> x \<longrightarrow> pool_plain p2 y = pool_plain p y" and
    s: "scan_waiter_lists conc call p = (let q = (if call \<noteq> x then conc p2 else p2) in do {
      q \<leftarrow> pool_call_signal x q;
      if call \<noteq> x then RPC_DG_CALL_RELEASE x q else RPC_DG_CALL_RELEASE_NO_UNLOCK x q })" by auto
  have i: "is_in_pkt_chain c" "1 < pc_refcnt c"
  proof -
    show "is_in_pkt_chain c" using pool_okD(4) [OF ok] c(1) next_waiter_in [OF nw] unfolding waiters_ok_def by blast
    then show "1 < pc_refcnt c" using pool_okD(5) [OF ok] c(1) unfolding refs_ok_def by fastforce
  qed
  define q where "q = (if call \<noteq> x then conc p2 else p2)"
  have refs: "refs_ok q" "same_refs p2 q"
    using conc_okD [OF conc p2(2), of "call \<noteq> x"] pool_okD(5) unfolding q_def by blast+
  then obtain c' where c': "calls q x = Some c'" "pc_refcnt (plain c') = pc_refcnt c"
    using p2(1) unfolding same_refs_def by (fastforce simp: plain_def)
  have r: "(if is_in_pkt_chain c' then 2 else 1) < pc_refcnt c'"
  proof (cases "is_in_pkt_chain c'")
    case True
    have "1 < pc_refcnt c'" using refs(1) c'(1) True unfolding refs_ok_def by fastforce
    moreover have "1 < pc_refcnt c' - 1" using c'(2) True i(2) by (simp add: plain_def)
    ultimately have "1 < unat (pc_refcnt c')" "1 < unat (pc_refcnt c') - 1"
      by (simp_all add: word_less_nat_alt unat_sub word_le_nat_alt)
    then show ?thesis using True by (simp add: word_less_nat_alt)
  qed (use c'(2) i(2) in \<open>simp add: plain_def\<close>)
  have "\<exists>p'. scan_waiter_lists conc call p = Some p' \<and> pool_ok k p' gs V \<and> pool_core p' = pool_core q \<and>
      calls p' = (calls q)(x \<mapsto> c'\<lparr>pc_signals := Suc (pc_signals c'), pc_refcnt := pc_refcnt c' - 1\<rparr>)"
    if g: "pool_ok k q gs V" for k gs V
  proof -
    from wake_ok [OF g c'(1) c(2) r] obtain q1 q2 where "pool_call_signal x q = Some q1" "RPC_DG_CALL_RELEASE x q1 = Some q2"
      "RPC_DG_CALL_RELEASE_NO_UNLOCK x q1 = Some q2" "pool_ok k q2 gs V" "pool_core q2 = pool_core q"
      "calls q2 = (calls q)(x \<mapsto> c'\<lparr>pc_signals := Suc (pc_signals c'), pc_refcnt := pc_refcnt c' - 1\<rparr>)" by blast
    then show ?thesis unfolding s q_def [symmetric] Let_def by simp
  qed
  then show ?thesis using c(1) i(1) p2 q_def c' by blast
qed

lemma scan_wakes:
  assumes ok: "pool_ok lk p fs W" and nw: "next_waiter p W = Some x"
  shows "\<exists>p' c. scan_waiter_lists id call p = Some p' \<and> pool_ok lk p' fs (W(serving W := remove1 x (W (serving W)))) \<and>
    pool_core p' = pool_core p \<and> pool_plain p x = Some c \<and> pool_plain p' = (pool_plain p)(x \<mapsto> c\<lparr>pc_signals := Suc (pc_signals c)\<rparr>)"
proof -
  from scan_cases [OF ok nw conc_ok_id(1) [of True], of call] obtain c p2 q c' where q: "q = (if call \<noteq> x then id p2 else p2)" and c: "calls p x = Some c" "is_in_pkt_chain c"
    "calls p2 x = Some (c\<lparr>is_in_pkt_chain := False\<rparr>)" "pool_core p2 = pool_core p" "\<forall>y. y \<noteq> x \<longrightarrow> pool_plain p2 y = pool_plain p y"
    "pool_ok lk p2 fs (W(serving W := remove1 x (W (serving W))))" "calls q x = Some c'" and
    p': "\<And>k gs V. pool_ok k q gs V \<Longrightarrow> \<exists>p'. scan_waiter_lists id call p = Some p' \<and> pool_ok k p' gs V \<and> pool_core p' = pool_core q \<and>
      calls p' = (calls q)(x \<mapsto> c'\<lparr>pc_signals := Suc (pc_signals c'), pc_refcnt := pc_refcnt c' - 1\<rparr>)" by blast
  have q: "q = p2" using q by simp
  note c = c [unfolded q] and p' = p' [unfolded q]
  from p' [OF c(6)] obtain p' where s: "scan_waiter_lists id call p = Some p'" "pool_ok lk p' fs (W(serving W := remove1 x (W (serving W))))"
    "pool_core p' = pool_core p2" and
    m: "calls p' = (calls p2)(x \<mapsto> c'\<lparr>pc_signals := Suc (pc_signals c'), pc_refcnt := pc_refcnt c' - 1\<rparr>)" by blast
  have c': "c' = c\<lparr>is_in_pkt_chain := False\<rparr>" using c(3,7) by simp
  have "pool_plain p' = (pool_plain p)(x \<mapsto> (plain c)\<lparr>pc_signals := Suc (pc_signals (plain c))\<rparr>)"
  proof
    fix y show "pool_plain p' y = ((pool_plain p)(x \<mapsto> (plain c)\<lparr>pc_signals := Suc (pc_signals (plain c))\<rparr>)) y"
    proof (cases "y = x")
      case True
      then show ?thesis using m c(2) by (simp add: pool_plain_def c' plain_def)
    next
      case False
      then show ?thesis using c(5) m by (simp add: pool_plain_def)
    qed
  qed
  moreover have "pool_plain p x = Some (plain c)" using c(1) by (simp add: pool_plain_def)
  ultimately show ?thesis using s c(4) by auto
qed

lemma scan_ok:
  assumes ok: "pool_ok lk p fs W" and conc: "conc_ok exact conc"
  shows "\<exists>p' k fs' W'. scan_waiter_lists conc call p = Some p' \<and> pool_ok k p' fs' W' \<and> leaks exact lk k \<and> same_refs p p'"
proof (cases "next_waiter p W")
  case None
  then show ?thesis using scan_none [OF ok None, of conc call] ok leaks_refl same_refs_refl by blast
next
  case (Some x)
  from scan_cases [OF ok Some conc, of call] obtain c p2 q c' where c: "calls p x = Some c" "is_in_pkt_chain c"
    "calls p2 x = Some (c\<lparr>is_in_pkt_chain := False\<rparr>)" "\<forall>y. y \<noteq> x \<longrightarrow> pool_plain p2 y = pool_plain p y"
    "pool_ok lk p2 fs (W(serving W := remove1 x (W (serving W))))" "q = (if call \<noteq> x then conc p2 else p2)"
    "calls q x = Some c'" "pc_refcnt (plain c') = pc_refcnt c" and
    p': "\<And>k gs V. pool_ok k q gs V \<Longrightarrow> \<exists>p'. scan_waiter_lists conc call p = Some p' \<and> pool_ok k p' gs V \<and> pool_core p' = pool_core q \<and>
      calls p' = (calls q)(x \<mapsto> c'\<lparr>pc_signals := Suc (pc_signals c'), pc_refcnt := pc_refcnt c' - 1\<rparr>)" by blast
  from conc_okD [OF conc c(5), of "call \<noteq> x"] obtain k gs V where q: "pool_ok k q gs V" "same_refs p2 q" "leaks exact lk k"
    unfolding c(6) by blast
  from p' [OF q(1)] obtain p' where s: "scan_waiter_lists conc call p = Some p'" "pool_ok k p' gs V" and
    m: "calls p' = (calls q)(x \<mapsto> c'\<lparr>pc_signals := Suc (pc_signals c'), pc_refcnt := pc_refcnt c' - 1\<rparr>)" by blast
  have "same_refs p p'" unfolding same_refs_def
  proof (intro allI impI)
    fix y d assume d: "calls p y = Some d"
    show "\<exists>d'. calls p' y = Some d' \<and> pc_refcnt (plain d') = pc_refcnt (plain d)"
    proof (cases "y = x")
      case True
      have "plain (c'\<lparr>pc_signals := Suc (pc_signals c'), pc_refcnt := pc_refcnt c' - 1\<rparr>) =
        (plain c')\<lparr>pc_signals := Suc (pc_signals c'), pc_refcnt := pc_refcnt (plain c') - 1\<rparr>"
        by (simp add: plain_def)
      then show ?thesis using True d c(1,2,8) m by (simp add: plain_def)
    next
      case False
      then have "pool_plain p2 y = pool_plain p y" using c(4) by blast
      then obtain d2 where "calls p2 y = Some d2" "plain d2 = plain d" using d by (cases "calls p2 y") (auto simp: pool_plain_def)
      then show ?thesis using q(2) m False unfolding same_refs_def by (metis fun_upd_other)
    qed
  qed
  then show ?thesis using s q(3) by blast
qed

section \<open>The free list\<close>

lemma free_list_get_chain:
  assumes "free_chain p (x # fs)"
  shows "\<exists>p'. free_list_get p = Some (x, p') \<and> free_chain p' fs \<and> elts p' = elts p \<and> free_count p' = free_count p - 1 \<and>
    p' = p\<lparr>free_list := free_list p', free_count := free_count p', free_list_tail := free_list_tail p'\<rparr>"
proof -
  have n: "nseg pe_next (elts p) (free_list p) (x # fs) NULL" "distinct (x # fs)" "free_list_tail p = last_addr (x # fs)"
    "free_count p = of_nat (length (x # fs))" using assms by (simp_all add: free_chain_def)
  then obtain e where e: "free_list p = x" "x \<noteq> NULL" "elts p x = Some e" "nseg pe_next (elts p) (pe_next e) fs NULL" by auto
  define p' where "p' = p\<lparr>free_list := pe_next e, free_count := free_count p - 1,
    free_list_tail := (if pe_next e = NULL then NULL else free_list_tail p)\<rparr>"
  have "free_list_get p = Some (x, p')" using e by (simp add: free_list_get_def eget_def p'_def)
  moreover have "free_chain p' fs"
    using n e nseg_NULL_iff [OF e(4)] by (simp add: free_chain_def p'_def last_addr_def)
  ultimately show ?thesis by (intro exI [of _ p']) (simp add: p'_def)
qed

lemma free_list_put_chain:
  assumes "free_chain p fs" "x \<noteq> NULL" "x \<notin> set fs" "elts p x = Some e"
  shows "\<exists>p'. free_list_put x p = Some p' \<and> free_chain p' (fs @ [x]) \<and> elts p' x = Some (e\<lparr>pe_next := NULL, is_on_free_list := True\<rparr>) \<and>
    (\<forall>y. y \<noteq> x \<longrightarrow> map_option (pe_next_update (\<lambda>_. NULL)) (elts p' y) = map_option (pe_next_update (\<lambda>_. NULL)) (elts p y)) \<and>
    (\<forall>y. y \<noteq> x \<and> y \<notin> set fs \<longrightarrow> elts p' y = elts p y) \<and> free_count p' = free_count p + 1 \<and>
    p' = p\<lparr>elts := elts p', free_list := free_list p', free_count := free_count p', free_list_tail := free_list_tail p'\<rparr>"
proof -
  have n: "nseg pe_next (elts p) (free_list p) fs NULL" "distinct fs" "free_list_tail p = last_addr fs"
    "free_count p = of_nat (length fs)" using assms(1) by (simp_all add: free_chain_def)
  have h: "free_list p = NULL \<longleftrightarrow> fs = []" using nseg_NULL_iff [OF n(1)] .
  have lx: "fs \<noteq> [] \<Longrightarrow> last fs \<noteq> x" using assms(3) last_in_set [of fs] by metis
  obtain t where t: "fs \<noteq> [] \<Longrightarrow> elts p (last fs) = Some t \<and> last fs \<noteq> NULL"
    using nseg_elem [OF n(1), of "last fs"] by (cases "fs = []") auto
  define m where "m = (if fs = [] then elts p else (elts p)(last fs \<mapsto> t\<lparr>pe_next := x\<rparr>))(x \<mapsto> e\<lparr>pe_next := NULL, is_on_free_list := True\<rparr>)"
  define p' where "p' = p\<lparr>elts := m, free_list := (if fs = [] then x else free_list p), free_list_tail := x, free_count := free_count p + 1\<rparr>"
  have "free_list_put x p = Some p'"
    using h t lx assms(2,4) n(3) by (cases "fs = []") (simp_all add: free_list_put_def eset_def eget_def p'_def m_def last_addr_def)
  moreover have "free_chain p' (fs @ [x])"
  proof -
    have "nseg pe_next m (if fs = [] then x else free_list p) (fs @ [x]) NULL"
    proof (rule nseg_snoc [OF n(1,2) assms(3,2)])
      fix y assume y: "y \<in> set (butlast fs)"
      then have "fs \<noteq> []" "y \<noteq> x" using assms(3) by (auto dest: in_set_butlastD)
      moreover have "y \<noteq> last fs" using y n(2) by (cases fs rule: rev_cases) auto
      ultimately show "map_option pe_next (m y) = map_option pe_next (elts p y)" by (simp add: m_def)
    next
      show "map_option pe_next (m x) = Some NULL" by (simp add: m_def)
    next
      assume "fs \<noteq> []"
      then show "map_option pe_next (m (last fs)) = Some x" using lx by (simp add: m_def)
    qed
    then show ?thesis using n assms(3) by (simp add: free_chain_def p'_def)
  qed
  moreover have "map_option (pe_next_update (\<lambda>_. NULL)) (m y) = map_option (pe_next_update (\<lambda>_. NULL)) (elts p y)" if "y \<noteq> x" for y
    using that t by (simp add: m_def)
  moreover have "m y = elts p y" if "y \<noteq> x \<and> y \<notin> set fs" for y
    using that by (auto simp: m_def)
  ultimately show ?thesis by (intro exI [of _ p']) (simp add: p'_def, simp add: m_def)
qed

lemma map_option_dom: "map_option f (m' y) = map_option f (m y) \<Longrightarrow> y \<in> dom m' \<longleftrightarrow> y \<in> dom m"
  by (cases "m' y"; cases "m y") (simp_all add: domIff)

definition pool_cell :: "dg_pool \<Rightarrow> unit \<Rightarrow> addr \<Rightarrow> bool" where
  "pool_cell p u x \<longleftrightarrow> x \<noteq> NULL \<and> x \<in> dom (elts p)"

lemma pool_cell_same: "dom (elts p') = dom (elts p) \<Longrightarrow> pool_cell p' u = pool_cell p u"
  by (simp add: pool_cell_def fun_eq_iff del: domIff)

interpretation pf: fifo_store "\<lambda>p u fs. free_chain p fs" pool_cell NULL "\<lambda>u. free_list_put" "\<lambda>u. free_list_get"
proof unfold_locales
  fix p :: dg_pool and u :: unit and fs x assume a: "free_chain p fs" "pool_cell p u x" "x \<notin> set fs"
  then obtain e where e: "elts p x = Some e" "x \<noteq> NULL" by (auto simp: pool_cell_def)
  from free_list_put_chain [OF a(1) e(2) a(3) e(1)] obtain p' where p': "free_list_put x p = Some p'" "free_chain p' (fs @ [x])"
    "elts p' x = Some (e\<lparr>pe_next := NULL, is_on_free_list := True\<rparr>)"
    "\<forall>y. y \<noteq> x \<longrightarrow> map_option (pe_next_update (\<lambda>_. NULL)) (elts p' y) = map_option (pe_next_update (\<lambda>_. NULL)) (elts p y)" by blast
  have "dom (elts p') = dom (elts p)"
  proof (rule set_eqI)
    fix y show "y \<in> dom (elts p') \<longleftrightarrow> y \<in> dom (elts p)"
    proof (cases "y = x")
      case False
      show ?thesis by (rule map_option_dom [where f = "pe_next_update (\<lambda>_. NULL)"]) (use p'(4) False in blast)
    qed (use p'(3) e(1) in blast)
  qed
  then show "\<exists>p'. free_list_put x p = Some p' \<and> free_chain p' (fs @ [x]) \<and> pool_cell p' u = pool_cell p u"
    using p' pool_cell_same by blast
next
  fix p :: dg_pool and u :: unit and x fs assume "free_chain p (x # fs)"
  from free_list_get_chain [OF this] obtain p' where "free_list_get p = Some (x, p')" "free_chain p' fs" "elts p' = elts p" by blast
  then show "\<exists>p'. free_list_get p = Some (x, p') \<and> free_chain p' fs \<and> pool_cell p' u = pool_cell p u"
    using pool_cell_same [of p' p] by auto
next
  fix p :: dg_pool and u :: unit assume "free_chain p []"
  then show "free_list_get p = Some (NULL, p)" by (simp add: free_chain_def free_list_get_def)
next
  fix p :: dg_pool and u :: unit and fs assume "free_chain p fs"
  then have n: "nseg pe_next (elts p) (free_list p) fs NULL" "distinct fs" by (simp_all add: free_chain_def)
  show "distinct fs \<and> (\<forall>x\<in>set fs. pool_cell p u x)" using n(2) nseg_elem [OF n(1)] by (auto simp: pool_cell_def)
next
  fix p :: dg_pool and u :: unit show "\<not> pool_cell p u NULL" by (simp add: pool_cell_def)
qed

text \<open>\<open>pool_rest\<close> is the pool without the packets.\<close>

definition pool_rest :: "dg_pool \<Rightarrow> dg_pool" where
  "pool_rest p = p\<lparr>elts := Map.empty, free_list := NULL, free_list_tail := NULL, free_count := 0, pkt_count := 0,
     pl_is_rationing := False, pl_low_on_pkts := False\<rparr>"

lemma pool_rest_fields:
  fixes p p' :: dg_pool
  assumes "pool_rest p' = pool_rest p"
  shows "max_pkt_count p' = max_pkt_count p" "reservations p' = reservations p"
    "srv_resv_avail p' = srv_resv_avail p" "max_resv_pkt p' = max_resv_pkt p" "active_rqes p' = active_rqes p"
    "active_xqes p' = active_xqes p" "failed_alloc_rqe p' = failed_alloc_rqe p" "blocked_alloc_xqe p' = blocked_alloc_xqe p"
    "pkt_waiters_head p' = pkt_waiters_head p" "pkt_waiters_tail p' = pkt_waiters_tail p"
    "rsv_waiters_head p' = rsv_waiters_head p" "rsv_waiters_tail p' = rsv_waiters_tail p"
    "calls p' = calls p" "socks p' = socks p"
  using assms unfolding pool_rest_def by (cases p; cases p'; simp)+

lemma waiters_same:
  assumes "calls p' = calls p" "pkt_waiters_head p' = pkt_waiters_head p" "pkt_waiters_tail p' = pkt_waiters_tail p"
    "rsv_waiters_head p' = rsv_waiters_head p" "rsv_waiters_tail p' = rsv_waiters_tail p"
  shows "waiters_ok p' W = waiters_ok p W" "refs_ok p' = refs_ok p" "same_refs p p'"
proof -
  have "wq_head w p' = wq_head w p" "wq_tail w p' = wq_tail w p" for w using assms by (cases w; simp)+
  then show "waiters_ok p' W = waiters_ok p W" "refs_ok p' = refs_ok p" "same_refs p p'"
    unfolding waiters_ok_def wait_ok_def refs_ok_def same_refs_def assms(1) by auto
qed

lemma update_fields [simp]:
  "elts (UPDATE_RATIONING_STATE p) = elts p" "calls (UPDATE_RATIONING_STATE p) = calls p" "socks (UPDATE_RATIONING_STATE p) = socks p"
  "free_ok (UPDATE_RATIONING_STATE p) fs = free_ok p fs" "avail (UPDATE_RATIONING_STATE p) = avail p"
  "pool_rest (UPDATE_RATIONING_STATE p) = pool_rest p"
  "counts_ok (UPDATE_RATIONING_STATE p) = counts_ok p" "resvs_ok lk (UPDATE_RATIONING_STATE p) = resvs_ok lk p"
  "reservations (UPDATE_RATIONING_STATE p) = reservations p"
  "same_refs q (UPDATE_RATIONING_STATE p) = same_refs q p" "socks_ok (UPDATE_RATIONING_STATE p) = socks_ok p"
  by (simp_all add: socks_ok_def in_use_def UPDATE_RATIONING_STATE_def free_ok_def free_chain_def avail_def pool_rest_def counts_ok_def resvs_ok_def
      same_refs_def)

lemma update_waiters [simp]:
  "waiters_ok (UPDATE_RATIONING_STATE p) W = waiters_ok p W" "refs_ok (UPDATE_RATIONING_STATE p) = refs_ok p"
  by (rule waiters_same; simp add: UPDATE_RATIONING_STATE_def)+

lemma pool_ok_update [simp]: "pool_ok lk (UPDATE_RATIONING_STATE p) fs W = pool_ok lk p fs W"
  by (simp add: pool_ok_def)

lemma update_flags:
  "pl_is_rationing (UPDATE_RATIONING_STATE p) = RPC_DG_PKT_RATIONING (UPDATE_RATIONING_STATE p)"
  by (simp add: UPDATE_RATIONING_STATE_def RPC_DG_PKT_RATIONING_def)

lemma free_chain_NULL: "free_chain p fs \<Longrightarrow> free_list p = NULL \<longleftrightarrow> fs = []"
  unfolding free_chain_def using nseg_NULL_iff by blast

lemma pkt_alloc_none:
  assumes "pool_ok lk p fs W" "avail p = 0"
  shows "pkt_alloc new blank p = Some (NULL, p)"
proof -
  have "free_count p = 0" "pkt_count p = 0" using assms(2) by (simp_all add: avail_def unat_eq_0)
  moreover have "free_list p = NULL"
    using free_chain_NULL [of p fs] pool_okD(1) [OF assms(1)] calculation by (auto simp: free_ok_def)
  ultimately show ?thesis by (simp add: pkt_alloc_def)
qed

lemma pkt_alloc_ok:
  assumes ok: "pool_ok lk p fs W" and av: "0 < avail p" and new: "fs = [] \<Longrightarrow> new \<noteq> NULL \<and> elts p new = None"
  shows "\<exists>p' e x. pkt_alloc new blank p = Some (x, p') \<and> x = (if fs = [] then new else hd fs) \<and> x \<noteq> NULL \<and> free_ok p' (tl fs) \<and>
    elts p' x = Some e \<and> \<not> is_on_free_list e \<and> x \<notin> set (tl fs) \<and> avail p' + 1 = avail p \<and> pool_rest p' = pool_rest p \<and>
    (\<forall>y. y \<noteq> x \<longrightarrow> elts p' y = elts p y) \<and> pl_is_rationing p' = RPC_DG_PKT_RATIONING p'"
proof -
  have f: "free_chain p fs" "unat (free_count p) = length fs" "\<forall>x e. elts p x = Some e \<longrightarrow> (is_on_free_list e \<longleftrightarrow> x \<in> set fs)"
    using pool_okD(1) [OF ok] by (simp_all add: free_ok_def)
  note h = free_chain_NULL [OF f(1)]
  show ?thesis
  proof (cases fs)
    case (Cons x gs)
    from free_list_get_chain [OF f(1) [unfolded Cons]] obtain p1 where p1: "free_list_get p = Some (x, p1)" "free_chain p1 gs"
      "elts p1 = elts p" "free_count p1 = free_count p - 1"
      "p1 = p\<lparr>free_list := free_list p1, free_count := free_count p1, free_list_tail := free_list_tail p1\<rparr>" by blast
    obtain e where e: "elts p x = Some e" "x \<noteq> NULL" "x \<notin> set gs" "distinct gs" using f(1) unfolding Cons free_chain_def by auto
    define p2 where "p2 = p1\<lparr>elts := (elts p1)(x \<mapsto> e\<lparr>is_on_free_list := False\<rparr>)\<rparr>"
    have s: "eset x (is_on_free_list_update (\<lambda>_. False)) p1 = Some p2" using e p1(3) by (simp add: eset_def eget_def p2_def)
    have fc: "unat (free_count p1) = length gs" "unat (free_count p) = length gs + 1"
      using f(2) p1(4) Cons by (simp_all add: unat_sub word_le_nat_alt)
    have pk: "pkt_count p1 = pkt_count p" "pool_rest p1 = pool_rest p" by (subst p1(5), simp add: pool_rest_def)+
    have "nseg pe_next (elts p2) (free_list p2) gs NULL"
      using p1(2) e(3) by (simp add: p2_def free_chain_def)
    then have "free_ok p2 gs"
      using p1(2,3) fc(1) f(3) Cons e by (auto simp: free_ok_def free_chain_def p2_def)
    moreover have "avail p2 + 1 = avail p" using fc pk by (simp add: avail_def p2_def)
    moreover have "pkt_alloc new blank p = Some (x, UPDATE_RATIONING_STATE p2)"
      using h Cons p1(1) s by (simp add: pkt_alloc_def)
    ultimately show ?thesis using Cons e pk(2) p1(3)
      by (intro exI [of _ "UPDATE_RATIONING_STATE p2"] exI [of _ "e\<lparr>is_on_free_list := False\<rparr>"] exI [of _ x])
        (simp add: update_flags, simp add: p2_def pool_rest_def)
  next
    case Nil
    note new = new [OF Nil]
    have fc: "free_count p = 0" "free_list p = NULL" using f(2) h Nil by (simp_all add: unat_eq_0)
    then have pk: "0 < unat (pkt_count p)" using av by (simp add: avail_def)
    then have pn: "pkt_count p \<noteq> 0" by auto
    define p2 where "p2 = p\<lparr>elts := (elts p)(new \<mapsto> blank\<lparr>is_on_free_list := False\<rparr>), pkt_count := pkt_count p - 1\<rparr>"
    have s: "eset new (is_on_free_list_update (\<lambda>_. False)) (p\<lparr>elts := (elts p)(new \<mapsto> blank), pkt_count := pkt_count p - 1\<rparr>) = Some p2"
      using new by (simp add: eset_def eget_def p2_def)
    have "free_ok p2 []" using f Nil by (auto simp: free_ok_def free_chain_def p2_def)
    moreover have "avail p2 + 1 = avail p" using pk fc pn by (simp add: avail_def p2_def unat_sub word_le_nat_alt)
    moreover have "pkt_alloc new blank p = Some (new, UPDATE_RATIONING_STATE p2)"
      using fc pn new s by (simp add: pkt_alloc_def)
    ultimately show ?thesis using Nil new
      by (intro exI [of _ "UPDATE_RATIONING_STATE p2"] exI [of _ "blank\<lparr>is_on_free_list := False\<rparr>"] exI [of _ new])
        (simp add: update_flags, simp add: p2_def pool_rest_def)
  qed
qed

text \<open>The packet becomes an element in use.\<close>

lemma free_ok_upd: "free_ok p fs \<Longrightarrow> x \<notin> set fs \<Longrightarrow> \<not> is_on_free_list e \<Longrightarrow> free_ok (p\<lparr>elts := (elts p)(x \<mapsto> e)\<rparr>) fs"
  by (auto simp: free_ok_def free_chain_def split: if_splits)

lemma free_ok_active [simp]: "free_ok (p\<lparr>active_xqes := n, elts := m\<rparr>) fs = free_ok (p\<lparr>elts := m\<rparr>) fs"
  "free_ok (p\<lparr>active_rqes := n, elts := m\<rparr>) fs = free_ok (p\<lparr>elts := m\<rparr>) fs"
  by (simp_all add: free_ok_def free_chain_def)

lemma in_use_ok:
  assumes ok: "pool_ok lk p fs W" and p1: "free_ok p1 (tl fs)" "avail p1 + 1 = avail p" "pool_rest p1 = pool_rest p" "x \<notin> set (tl fs)"
    "elts p1 x = Some e" "\<forall>y. y \<noteq> x \<longrightarrow> elts p1 y = elts p y" "x \<noteq> NULL" and e': "\<not> is_on_free_list e'"
    and p2: "p2 = p1\<lparr>active_xqes := active_xqes p1 + 1, elts := (elts p1)(x \<mapsto> e')\<rparr> \<or>
      p2 = p1\<lparr>active_rqes := active_rqes p1 + 1, elts := (elts p1)(x \<mapsto> e')\<rparr>"
  shows "pool_ok lk p2 (tl fs) W" "same_refs p p2" "avail p2 + 1 = avail p" "calls p2 = calls p" "reservations p2 = reservations p"
    "elts p2 = (elts p1)(x \<mapsto> e')"
proof -
  note k = pool_okD [OF ok] and r = pool_rest_fields [OF p1(3)]
  have f: "free_ok p2 (tl fs)" using free_ok_upd [OF p1(1,4) e'] p2 by (elim disjE) simp_all
  have a: "avail p2 = avail p1" using p2 by (auto simp: avail_def)
  then show "avail p2 + 1 = avail p" using p1(2) by simp
  show "calls p2 = calls p" "reservations p2 = reservations p" "elts p2 = (elts p1)(x \<mapsto> e')" using p2 r by auto
  have "counts_ok p2" using k(2) a p1(2) p2 r unfolding counts_ok_def by (auto simp: unat_add_mod)
  moreover have "resvs_ok lk p2" using k(3) p2 r unfolding resvs_ok_def by auto
  moreover have same: "calls p2 = calls p" "pkt_waiters_head p2 = pkt_waiters_head p" "pkt_waiters_tail p2 = pkt_waiters_tail p"
    "rsv_waiters_head p2 = rsv_waiters_head p" "rsv_waiters_tail p2 = rsv_waiters_tail p" using p2 r by auto
  moreover have "in_use p2 y" if "in_use p y" for y
  proof -
    have "elts p2 = (elts p1)(x \<mapsto> e')" using p2 by auto
    then show ?thesis using that e' p1(6,7) unfolding in_use_def by (cases "y = x") auto
  qed
  then have "socks_ok p2" using k(6) p2 r(14) unfolding socks_ok_def by (metis dg_pool.select_convs(21) dg_pool.surjective dg_pool.update_convs(6,7,19))
  ultimately show "pool_ok lk p2 (tl fs) W" "same_refs p p2"
    unfolding pool_ok_def using f k(4,5) waiters_same [OF same] by simp_all
qed

section \<open>Reservations\<close>

text \<open>Only the two counters of reservations change.\<close>

definition resv_only :: "dg_pool \<Rightarrow> dg_pool \<Rightarrow> bool" where
  "resv_only p p' \<longleftrightarrow> p' = p\<lparr>reservations := reservations p', srv_resv_avail := srv_resv_avail p'\<rparr>"

lemma resv_only_trans: "resv_only p q \<Longrightarrow> resv_only q r \<Longrightarrow> resv_only p r"
  unfolding resv_only_def by (cases p; cases q; cases r) simp

lemma resv_only_fields:
  fixes p p' :: dg_pool
  assumes "resv_only p p'"
  shows "max_pkt_count p' = max_pkt_count p" "max_resv_pkt p' = max_resv_pkt p" "free_list p' = free_list p"
    "pkt_waiters_head p' = pkt_waiters_head p" "pkt_waiters_tail p' = pkt_waiters_tail p" "rsv_waiters_head p' = rsv_waiters_head p"
    "rsv_waiters_tail p' = rsv_waiters_tail p" "calls p' = calls p" "socks p' = socks p" "elts p' = elts p"
    "avail p' = avail p" "counts_ok p' = counts_ok p" "free_ok p' fs = free_ok p fs" "socks_ok p' = socks_ok p"
    "active_xqes p' = active_xqes p" "active_rqes p' = active_rqes p"
proof -
  from assms obtain r s where p': "p' = p\<lparr>reservations := r, srv_resv_avail := s\<rparr>" unfolding resv_only_def by blast
  show "max_pkt_count p' = max_pkt_count p" "max_resv_pkt p' = max_resv_pkt p" "free_list p' = free_list p"
    "pkt_waiters_head p' = pkt_waiters_head p" "pkt_waiters_tail p' = pkt_waiters_tail p" "rsv_waiters_head p' = rsv_waiters_head p"
    "rsv_waiters_tail p' = rsv_waiters_tail p" "calls p' = calls p" "socks p' = socks p" "elts p' = elts p"
    "avail p' = avail p" "counts_ok p' = counts_ok p" "free_ok p' fs = free_ok p fs" "socks_ok p' = socks_ok p"
    "active_xqes p' = active_xqes p" "active_rqes p' = active_rqes p"
    unfolding p' by (simp_all add: socks_ok_def in_use_def avail_def counts_ok_def free_ok_def free_chain_def)
qed

lemma reclaim_count:
  fixes s d :: nat
  assumes "s < 5" "3 \<le> d"
  shows "s + 1 + min (5 - (s + 1)) ((d - 3) div 3) = s + min (5 - s) (d div 3)"
proof -
  have "d div 3 = (d - 3) div 3 + 1" using assms(2) by (simp add: le_div_geq)
  moreover have "5 - s = (5 - (s + 1)) + 1" using assms(1) by simp
  ultimately show ?thesis by (simp add: min_def)
qed

text \<open>As many reservations as there are packets for are set aside again, up to five.\<close>

lemma reclaim_ok:
  assumes "counts_ok p" "resvs_ok lk p"
  shows "resv_only p (reclaim_resvs p) \<and> resvs_ok lk (reclaim_resvs p) \<and>
    unat (srv_resv_avail (reclaim_resvs p)) = unat (srv_resv_avail p) + min (5 - unat (srv_resv_avail p)) ((avail p - unat (reservations p)) div 3)"
  using assms
proof (induction p rule: reclaim_resvs.induct)
  case (1 p)
  have m: "max_resv_pkt p = 2" "unat (srv_resv_avail p) \<le> 5" using 1(3) by (simp_all add: resvs_ok_def)
  have three: "unat (2 + 1 :: u32) = 3" by simp
  have r: "RESERVATION_AVAILABLE (max_resv_pkt p + 1) p \<longleftrightarrow> unat (reservations p) + 3 \<le> avail p"
    unfolding m using avail_words(4) [OF 1(2,3), of "2 + 1"] three by simp
  have s: "srv_resv_avail p < RPC_C_DG_PKT_INIT_SERVER_RESVS \<longleftrightarrow> unat (srv_resv_avail p) < 5"
    by (simp add: RPC_C_DG_PKT_INIT_SERVER_RESVS_def word_less_nat_alt)
  show ?case
  proof (cases "unat (reservations p) + 3 \<le> avail p \<and> unat (srv_resv_avail p) < 5")
    case False
    then have "reclaim_resvs p = p" using r s by (subst reclaim_resvs.simps) auto
    moreover have "5 - unat (srv_resv_avail p) = 0 \<or> (avail p - unat (reservations p)) div 3 = 0" using False m by auto
    then have "min (5 - unat (srv_resv_avail p)) ((avail p - unat (reservations p)) div 3) = 0" by linarith
    ultimately show ?thesis using 1(3) by (simp add: resv_only_def)
  next
    case True
    let ?p = "p\<lparr>reservations := reservations p + (max_resv_pkt p + 1), srv_resv_avail := srv_resv_avail p + 1\<rparr>"
    have e: "reclaim_resvs p = reclaim_resvs ?p" using True r s by (subst reclaim_resvs.simps) simp
    have b: "avail p < 2 ^ 31" "avail p \<le> unat (max_pkt_count p)" using avail_words(2) [OF 1(2,3)] 1(2) by (simp_all add: counts_ok_def)
    have res: "unat (reservations ?p) = unat (reservations p) + 3" using True b m by (simp add: unat_add_mod)
    have srv: "unat (srv_resv_avail ?p) = unat (srv_resv_avail p) + 1" using True by (simp add: unat_add_mod)
    have only: "resv_only p ?p" by (simp add: resv_only_def)
    have "counts_ok ?p" using resv_only_fields(12) [OF only] 1(2) by simp
    moreover have "resvs_ok lk ?p" using 1(3) True b unfolding resvs_ok_def res srv by simp
    ultimately have IH: "resv_only ?p (reclaim_resvs ?p)" "resvs_ok lk (reclaim_resvs ?p)"
      "unat (srv_resv_avail (reclaim_resvs ?p)) = unat (srv_resv_avail ?p) + min (5 - unat (srv_resv_avail ?p)) ((avail ?p - unat (reservations ?p)) div 3)"
      using 1(1) True r s by blast+
    have av: "avail ?p = avail p" by (rule resv_only_fields(11) [OF only])
    have "unat (srv_resv_avail p) < 5" "3 \<le> avail p - unat (reservations p)" using True by linarith+
    note reclaim_count [OF this]
    then have "unat (srv_resv_avail (reclaim_resvs ?p)) =
      unat (srv_resv_avail p) + min (5 - unat (srv_resv_avail p)) ((avail p - unat (reservations p)) div 3)"
      unfolding IH(3) srv res av by (simp only: diff_diff_left)
    then show ?thesis unfolding e using IH(1,2) resv_only_trans [OF only] by blast
  qed
qed

lemma reclaim_pool_ok:
  assumes "pool_ok lk p fs W"
  shows "pool_ok lk (reclaim_resvs p) fs W" "resv_only p (reclaim_resvs p)"
proof -
  note k = pool_okD [OF assms]
  have r: "resv_only p (reclaim_resvs p)" "resvs_ok lk (reclaim_resvs p)" using reclaim_ok [OF k(2,3)] by blast+
  note f = resv_only_fields [OF r(1)]
  show "pool_ok lk (reclaim_resvs p) fs W" unfolding pool_ok_def f(12,13,14) using k r waiters_same [OF f(8,4-7)] by simp
  show "resv_only p (reclaim_resvs p)" by (fact r(1))
qed

text \<open>A change of one call that only touches what it holds.\<close>

definition with_resvs :: "u8 \<Rightarrow> pool_call \<Rightarrow> pool_call" where
  "with_resvs n c = c\<lparr>pc_n_resvs := n\<rparr>"

lemma call_upd_leak:
  assumes ok: "pool_ok lk p fs W" and c: "calls p x = Some c"
    and p': "p' = p\<lparr>calls := (calls p)(x \<mapsto> d), reservations := r, srv_resv_avail := s\<rparr>"
    and d: "pkt_chain d = pkt_chain c" "is_in_pkt_chain d = is_in_pkt_chain c" "pc_refcnt d = pc_refcnt c"
    and r: "unat s \<le> 5" "unat r + held c + 3 * unat (srv_resv_avail p) + lk = unat (reservations p) + held d + 3 * unat s + k"
      "unat r \<le> unat (max_pkt_count p)"
  shows "pool_ok k p' fs W" "same_refs p p'"
proof -
  note ko = pool_okD [OF ok]
  have m: "calls p' = (calls p)(x \<mapsto> d)" by (simp add: p')
  have w: "wq_head v p' = wq_head v p" "wq_tail v p' = wq_tail v p" for v by (cases v; simp add: p')+
  have "waiters_ok p' W" by (rule waiters_cong [OF ko(4) c m d(1,2) w])
  moreover have "refs_ok p'" unfolding refs_ok_def
  proof (intro allI impI)
    fix y e assume "calls p' y = Some e"
    then show "(if is_in_pkt_chain e then 1 else 0) < pc_refcnt e"
      using ko(5) c d unfolding refs_ok_def m by (cases "y = x") auto
  qed
  moreover have "dom (calls p') = dom (calls p)" using c by (auto simp: m)
  then have "resvs_ok k p'"
    using ko(3) all_held_upd [of "calls p" x c d] c r unfolding resvs_ok_def m by (simp add: p')
  moreover have "free_ok p' fs = free_ok p fs" "counts_ok p' = counts_ok p" "socks_ok p' = socks_ok p"
    by (simp_all add: p' socks_ok_def in_use_def free_ok_def free_chain_def counts_ok_def avail_def)
  ultimately have "free_ok p' fs" "counts_ok p'" "resvs_ok k p'" "waiters_ok p' W" "refs_ok p'" "socks_ok p'" using ko(1,2,6) by blast+
  then show "pool_ok k p' fs W" by (simp add: pool_ok_def)
  show "same_refs p p'" unfolding same_refs_def m using c d by (simp add: plain_def)
qed

lemma call_upd_ok:
  assumes ok: "pool_ok lk p fs W" and c: "calls p x = Some c"
    and p': "p' = p\<lparr>calls := (calls p)(x \<mapsto> d), reservations := r, srv_resv_avail := s\<rparr>"
    and d: "pkt_chain d = pkt_chain c" "is_in_pkt_chain d = is_in_pkt_chain c" "pc_refcnt d = pc_refcnt c"
    and r: "unat s \<le> 5" "unat r + held c + 3 * unat (srv_resv_avail p) = unat (reservations p) + held d + 3 * unat s"
      "unat r \<le> unat (max_pkt_count p)"
  shows "pool_ok lk p' fs W" "same_refs p p'"
  using call_upd_leak [OF ok c p' d r(1) _ r(3), of lk] r(2) by simp_all

text \<open>The packets are as before.\<close>

definition same_pkts :: "dg_pool \<Rightarrow> dg_pool \<Rightarrow> bool" where
  "same_pkts p p' \<longleftrightarrow> elts p' = elts p \<and> socks p' = socks p \<and> avail p' = avail p"

lemma same_pkts_refl [simp]: "same_pkts p p" by (simp add: same_pkts_def)

lemma same_pkts_trans: "same_pkts p q \<Longrightarrow> same_pkts q r \<Longrightarrow> same_pkts p r" by (simp add: same_pkts_def)

lemma same_pkts_update [simp]: "same_pkts p (UPDATE_RATIONING_STATE q) = same_pkts p q" by (simp add: same_pkts_def)

lemma core_pool_ok:
  assumes "pool_ok lk p fs W" "pool_core p' = pool_core p" "pool_plain p' = pool_plain p" "waiters_ok p' W'" "refs_ok p'"
  shows "pool_ok lk p' fs W'" "same_refs p p'" "same_pkts p p'" "reservations p' = reservations p"
  using assms pool_okD [OF assms(1)] core_ok [OF assms(2)] core_resvs [OF assms(2,3)] pool_core_fields [OF assms(2)]
    pool_plain_same_refs [OF assms(3)]
  by (simp_all add: pool_ok_def same_pkts_def)

lemma cget_iff: "cget x p = Some c \<longleftrightarrow> x \<noteq> NULL \<and> calls p x = Some c"
  by (auto simp: cget_def)

lemma enqueue_pool_ok:
  assumes ok: "pool_ok lk p fs W" and c: "cget x p = Some c" "\<not> is_in_pkt_chain c \<Longrightarrow> pc_refcnt c < 255"
  shows "\<exists>p'. enqueue_pool_waiter x w p = Some p' \<and> pool_ok lk p' fs (if is_in_pkt_chain c then W else W(w := W w @ [x])) \<and>
    same_refs p p' \<and> same_pkts p p' \<and> pool_plain p' = pool_plain p \<and> reservations p' = reservations p"
proof (cases "is_in_pkt_chain c")
  case True
  then show ?thesis using ok c(1) by (simp add: enqueue_pool_waiter_def)
next
  case False
  from enqueue_ok [OF pool_okD(4) [OF ok] c(1) False c(2) [OF False]] obtain p' where
    "enqueue_pool_waiter x w p = Some p'" "waiters_ok p' (W(w := W w @ [x]))" "pool_core p' = pool_core p"
    "pool_plain p' = pool_plain p" "refs_ok p'" using pool_okD(5) [OF ok] by blast
  then show ?thesis using False core_pool_ok [OF ok] by simp
qed

lemma dequeue_pool_ok:
  assumes ok: "pool_ok lk p fs W"
  shows "\<exists>p'. dequeue_pool_waiter x w p = Some p' \<and> pool_ok lk p' fs (W(w := remove1 x (W w))) \<and>
    same_refs p p' \<and> same_pkts p p' \<and> pool_plain p' = pool_plain p \<and> reservations p' = reservations p"
proof -
  from waiter_dequeue_ok [OF pool_okD(4,5) [OF ok]] obtain p' where "dequeue_pool_waiter x w p = Some p'"
    "waiters_ok p' (W(w := remove1 x (W w)))" "refs_ok p'" "pool_core p' = pool_core p" "pool_plain p' = pool_plain p" by blast
  then show ?thesis using core_pool_ok [OF ok] by blast
qed

lemma leave_queue_ok:
  assumes ok: "pool_ok lk p fs W" and c: "calls p x = Some c"
  shows "\<exists>p'. (if is_in_pkt_chain c then dequeue_pool_waiter x w p else Some p) = Some p' \<and> pool_ok lk p' fs (W(w := remove1 x (W w))) \<and>
    same_refs p p' \<and> same_pkts p p' \<and> pool_plain p' = pool_plain p \<and> reservations p' = reservations p"
proof (cases "is_in_pkt_chain c")
  case False
  then have "x \<notin> set (W w)" using pool_okD(4) [OF ok] c unfolding waiters_ok_def by blast
  then show ?thesis using ok False by (simp add: remove1_idem)
qed (use dequeue_pool_ok [OF ok] in simp)

lemma adjust_leave_ok:
  assumes ok: "pool_ok lk p fs W" and c: "cget x p = Some c" "\<not> pc_is_cbk c"
  shows "\<exists>p'. adjust_leave x got p = Some (Resv got, p') \<and> pool_ok lk p' fs (W(Rsv_waiters := remove1 x (W Rsv_waiters))) \<and>
    same_refs p p' \<and> same_pkts p p' \<and> pool_plain p' = pool_plain p \<and> reservations p' = reservations p"
proof -
  have cx: "calls p x = Some c" using c(1) by (simp add: cget_iff)
  from leave_queue_ok [OF ok cx, of Rsv_waiters] obtain p' where
    "(if is_in_pkt_chain c then dequeue_pool_waiter x Rsv_waiters p else Some p) = Some p'"
    "pool_ok lk p' fs (W(Rsv_waiters := remove1 x (W Rsv_waiters)))" "same_refs p p'" "same_pkts p p'"
    "pool_plain p' = pool_plain p" "reservations p' = reservations p" by blast
  then show ?thesis using c
    by (intro exI [of _ "if got then UPDATE_RATIONING_STATE p' else p'"]) (simp add: adjust_leave_def pool_plain_def)
qed

text \<open>What the code asks for covers what the call will hold.\<close>

lemma how_many_val:
  assumes "unat (pc_n_resvs c) < unat nreq" "unat nreq < 256" "owner c"
  shows "unat (how_many nreq c) = unat nreq - unat (pc_n_resvs c) + (if pc_n_resvs c = 0 then 1 else 0)"
    "held c + unat (how_many nreq c) = held (c\<lparr>pc_n_resvs := ucast nreq\<rparr>)" "unat (how_many nreq c) \<le> 256"
proof -
  have s: "unat (nreq - ucast (pc_n_resvs c)) = unat nreq - unat (pc_n_resvs c)"
    using assms(1) by (simp add: unat_sub word_le_nat_alt)
  show v: "unat (how_many nreq c) = unat nreq - unat (pc_n_resvs c) + (if pc_n_resvs c = 0 then 1 else 0)"
    using assms(2) s by (simp add: how_many_def unat_add_mod)
  have n: "unat (ucast nreq :: u8) = unat nreq" using assms(2) by (simp add: unsigned_ucast_eq take_bit_nat_eq_self_iff)
  then have "(ucast nreq :: u8) \<noteq> 0" using assms(1) by (metis less_nat_zero_code unat_0)
  moreover have "owner (c\<lparr>pc_n_resvs := ucast nreq\<rparr>)" using assms(3) by (simp add: owner_def)
  ultimately show "held c + unat (how_many nreq c) = held (c\<lparr>pc_n_resvs := ucast nreq\<rparr>)"
    unfolding v using assms(1,3) n by (auto simp: held_def)
  show "unat (how_many nreq c) \<le> 256" unfolding v using assms(1,2) by auto
qed

lemma held_nil: "pc_n_resvs c = 0 \<Longrightarrow> held c = 0"
  by (simp add: held_def)

text \<open>A turn for a call that owns its reservation: which branch is taken, and what it leaves.\<close>

definition resv_branch :: "dg_pool \<Rightarrow> pool_call \<Rightarrow> u32 \<Rightarrow> nat" where
  "resv_branch p c how = (if unat (reservations p) + unat how \<le> avail p then 1
     else if pc_n_resvs c = 0 \<and> pc_is_server c \<and> srv_resv_avail p \<noteq> 0 \<and> unat how \<le> 3 then 2 else 0)"

definition resv_gained :: "dg_pool \<Rightarrow> pool_call \<Rightarrow> u32 \<Rightarrow> u8" where
  "resv_gained p c nreq = (if resv_branch p c (how_many nreq c) = 1 then ucast nreq else 2)"

lemma resv_upd_order:
  fixes p :: dg_pool
  shows "p\<lparr>reservations := r, calls := m\<rparr> = p\<lparr>calls := m, reservations := r, srv_resv_avail := srv_resv_avail p\<rparr>"
    "p\<lparr>srv_resv_avail := s, calls := m\<rparr> = p\<lparr>calls := m, reservations := reservations p, srv_resv_avail := s\<rparr>"
  by (cases p, simp)+

lemma adjust_turn_granted:
  assumes ok: "pool_ok lk p fs W" and c: "cget x p = Some c" "owner c" and n: "unat (pc_n_resvs c) < unat nreq" "unat nreq < 256"
    and br: "resv_branch p c (how_many nreq c) \<noteq> 0"
  shows "\<exists>p'. adjust_turn x nreq (how_many nreq c) block p = Some (Resv True, p') \<and>
    pool_ok lk p' fs (W(Rsv_waiters := remove1 x (W Rsv_waiters))) \<and> same_refs p p' \<and> same_pkts p p' \<and>
    pool_plain p' = (pool_plain p)(x \<mapsto> (plain c)\<lparr>pc_n_resvs := resv_gained p c nreq\<rparr>)"
proof -
  note k = pool_okD [OF ok]
  have cx: "calls p x = Some c" "x \<noteq> NULL" using c(1) by (simp_all add: cget_iff)
  note hm = how_many_val [OF n c(2)]
  have ra: "RESERVATION_AVAILABLE (how_many nreq c) p \<longleftrightarrow> unat (reservations p) + unat (how_many nreq c) \<le> avail p"
    by (rule avail_words(4) [OF k(2,3)]) (use hm(3) in simp)
  have m: "max_resv_pkt p = 2" "unat (srv_resv_avail p) \<le> 5" "unat (reservations p) \<le> unat (max_pkt_count p)"
    "avail p \<le> unat (max_pkt_count p)" "unat (max_pkt_count p) < 2 ^ 31"
    using k(2,3) by (simp_all add: resvs_ok_def counts_ok_def)
  let ?d = "c\<lparr>pc_n_resvs := resv_gained p c nreq\<rparr>"
  have upd: "pc_n_resvs_update (\<lambda>_. v) c = c\<lparr>pc_n_resvs := v\<rparr>" for v by simp
  have "\<exists>r s. let p1 = p\<lparr>calls := (calls p)(x \<mapsto> ?d), reservations := r, srv_resv_avail := s\<rparr> in
      unat s \<le> 5 \<and> unat r + held c + 3 * unat (srv_resv_avail p) = unat (reservations p) + held ?d + 3 * unat s \<and>
      unat r \<le> unat (max_pkt_count p) \<and> adjust_turn x nreq (how_many nreq c) block p = adjust_leave x True p1"
  proof (cases "unat (reservations p) + unat (how_many nreq c) \<le> avail p")
    case True
    have g: "resv_gained p c nreq = ucast nreq" using True by (simp add: resv_gained_def resv_branch_def)
    have r: "unat (reservations p + how_many nreq c) = unat (reservations p) + unat (how_many nreq c)"
      using True m(4,5) by (simp add: unat_add_mod)
    have "adjust_turn x nreq (how_many nreq c) block p = adjust_leave x True
      (p\<lparr>calls := (calls p)(x \<mapsto> ?d), reservations := reservations p + how_many nreq c, srv_resv_avail := srv_resv_avail p\<rparr>)"
      using True ra cx g unfolding resv_upd_order [symmetric] by (simp add: adjust_turn_def cget_def cset_def)
    then show ?thesis using r hm(2) m True g
      by (rule_tac exI [of _ "reservations p + how_many nreq c"], rule_tac exI [of _ "srv_resv_avail p"]) (simp add: Let_def)
  next
    case False
    then have b: "pc_n_resvs c = 0" "pc_is_server c" "srv_resv_avail p \<noteq> 0" "unat (how_many nreq c) \<le> 3"
      using br by (auto simp: resv_branch_def split: if_splits)
    have g: "resv_gained p c nreq = 2" using False by (simp add: resv_gained_def resv_branch_def)
    have s: "unat (srv_resv_avail p - 1) = unat (srv_resv_avail p) - 1" "0 < unat (srv_resv_avail p)"
      using b(3) by (simp_all add: unat_sub word_le_nat_alt unat_gt_0 Suc_leI)
    have h3: "max_resv_pkt p + 1 \<ge> how_many nreq c" using b(4) m(1) by (simp add: word_le_nat_alt)
    have "SRV_RESERVATION_AVAILABLE c p" using b by (simp add: SRV_RESERVATION_AVAILABLE_def word_gt_0)
    then have "adjust_turn x nreq (how_many nreq c) block p = adjust_leave x True
      (p\<lparr>calls := (calls p)(x \<mapsto> ?d), reservations := reservations p, srv_resv_avail := srv_resv_avail p - 1\<rparr>)"
      using False ra cx g b(1) h3 m(1) unfolding resv_upd_order [symmetric] by (simp add: adjust_turn_def cget_def cset_def)
    moreover have "held ?d = 3" using c(2) g by (simp add: held_def owner_def)
    ultimately show ?thesis using s m held_nil [OF b(1)]
      by (rule_tac exI [of _ "reservations p"], rule_tac exI [of _ "srv_resv_avail p - 1"]) (simp add: Let_def resv_upd_order, arith)
  qed
  then obtain r s where rs: "unat s \<le> 5"
      "unat r + held c + 3 * unat (srv_resv_avail p) = unat (reservations p) + held ?d + 3 * unat s" "unat r \<le> unat (max_pkt_count p)"
    and t: "adjust_turn x nreq (how_many nreq c) block p =
      adjust_leave x True (p\<lparr>calls := (calls p)(x \<mapsto> ?d), reservations := r, srv_resv_avail := s\<rparr>)" by (auto simp: Let_def)
  define p1 where "p1 = p\<lparr>calls := (calls p)(x \<mapsto> ?d), reservations := r, srv_resv_avail := s\<rparr>"
  have p1: "pool_ok lk p1 fs W" "same_refs p p1" using call_upd_ok [OF ok cx(1) p1_def _ _ _ rs] by simp_all
  have s1: "same_pkts p p1" "cget x p1 = Some ?d" "\<not> pc_is_cbk ?d" using cx c(2) by (simp_all add: p1_def same_pkts_def avail_def cget_def owner_def)
  from adjust_leave_ok [OF p1(1) s1(2,3), of True] obtain p' where p': "adjust_leave x True p1 = Some (Resv True, p')"
    "pool_ok lk p' fs (W(Rsv_waiters := remove1 x (W Rsv_waiters)))" "same_refs p1 p'" "same_pkts p1 p'" "pool_plain p' = pool_plain p1" by blast
  have "pool_plain p1 = (pool_plain p)(x \<mapsto> (plain c)\<lparr>pc_n_resvs := resv_gained p c nreq\<rparr>)"
    by (simp add: p1_def pool_plain_def fun_eq_iff plain_def)
  then show ?thesis using t p' same_refs_trans [OF p1(2)] same_pkts_trans [OF s1(1)] by (auto simp: p1_def)
qed

lemma adjust_turn_denied:
  assumes ok: "pool_ok lk p fs W" and c: "cget x p = Some c" "owner c" and n: "unat (pc_n_resvs c) < unat nreq" "unat nreq < 256"
    and br: "resv_branch p c (how_many nreq c) = 0"
  shows "adjust_turn x nreq (how_many nreq c) False p = Some (Resv False, p)"
    "(\<not> is_in_pkt_chain c \<Longrightarrow> pc_refcnt c < 255) \<Longrightarrow> \<exists>p'. adjust_turn x nreq (how_many nreq c) True p = Some (Resv_wait, p') \<and>
      pool_ok lk p' fs (if is_in_pkt_chain c then W else W(Rsv_waiters := W Rsv_waiters @ [x])) \<and> same_refs p p' \<and> same_pkts p p' \<and>
      pool_plain p' = (pool_plain p)(x \<mapsto> (plain c)\<lparr>pc_n_resvs_wait := ucast (how_many nreq c)\<rparr>)"
proof -
  note k = pool_okD [OF ok]
  have cx: "calls p x = Some c" "x \<noteq> NULL" using c(1) by (simp_all add: cget_iff)
  note hm = how_many_val [OF n c(2)]
  have "RESERVATION_AVAILABLE (how_many nreq c) p \<longleftrightarrow> unat (reservations p) + unat (how_many nreq c) \<le> avail p"
    by (rule avail_words(4) [OF k(2,3)]) (use hm(3) in simp)
  then have ra: "\<not> RESERVATION_AVAILABLE (how_many nreq c) p" using br by (auto simp: resv_branch_def split: if_splits)
  have "max_resv_pkt p = 2" using k(3) by (simp add: resvs_ok_def)
  then have srv: "\<not> (pc_n_resvs c = 0 \<and> SRV_RESERVATION_AVAILABLE c p \<and> max_resv_pkt p + 1 \<ge> how_many nreq c)"
    using br by (auto simp: resv_branch_def SRV_RESERVATION_AVAILABLE_def word_le_nat_alt word_gt_0 split: if_splits)
  show "adjust_turn x nreq (how_many nreq c) False p = Some (Resv False, p)"
    unfolding adjust_turn_def c(1) bind_simps using ra srv by auto
  assume ref: "\<not> is_in_pkt_chain c \<Longrightarrow> pc_refcnt c < 255"
  let ?d = "c\<lparr>pc_n_resvs_wait := ucast (how_many nreq c)\<rparr>"
  define p1 where "p1 = p\<lparr>calls := (calls p)(x \<mapsto> ?d), reservations := reservations p, srv_resv_avail := srv_resv_avail p\<rparr>"
  have hd: "held ?d = held c" by (simp add: held_def owner_def)
  have p1: "pool_ok lk p1 fs W" "same_refs p p1" using call_upd_ok [OF ok cx(1) p1_def] hd k(3) by (simp_all add: resvs_ok_def)
  have s1: "same_pkts p p1" "cget x p1 = Some ?d" using cx by (simp_all add: p1_def same_pkts_def avail_def cget_def)
  from enqueue_pool_ok [OF p1(1) s1(2), of Rsv_waiters] ref obtain p' where p': "enqueue_pool_waiter x Rsv_waiters p1 = Some p'"
    "pool_ok lk p' fs (if is_in_pkt_chain c then W else W(Rsv_waiters := W Rsv_waiters @ [x]))" "same_refs p1 p'" "same_pkts p1 p'"
    "pool_plain p' = pool_plain p1" by auto
  have "cset x (pc_n_resvs_wait_update (\<lambda>_. ucast (how_many nreq c))) p = Some p1" using cx by (simp add: cset_def cget_def p1_def)
  then have "adjust_turn x nreq (how_many nreq c) True p = Some (Resv_wait, p')"
    unfolding adjust_turn_def c(1) bind_simps using ra srv p'(1) by auto
  moreover have "pool_plain p1 = (pool_plain p)(x \<mapsto> (plain c)\<lparr>pc_n_resvs_wait := ucast (how_many nreq c)\<rparr>)"
    by (simp add: p1_def pool_plain_def fun_eq_iff plain_def)
  ultimately show "\<exists>p'. adjust_turn x nreq (how_many nreq c) True p = Some (Resv_wait, p') \<and>
      pool_ok lk p' fs (if is_in_pkt_chain c then W else W(Rsv_waiters := W Rsv_waiters @ [x])) \<and> same_refs p p' \<and> same_pkts p p' \<and>
      pool_plain p' = (pool_plain p)(x \<mapsto> (plain c)\<lparr>pc_n_resvs_wait := ucast (how_many nreq c)\<rparr>)"
    using p' same_refs_trans [OF p1(2)] same_pkts_trans [OF s1(1)] by auto
qed

text \<open>Making a reservation: the branches for a call that owns it.\<close>

lemma adjust_owner:
  assumes "cget x p = Some c" "owner c" "skget (pc_sock_ref c) p = Some k"
  shows "rpc__dg_pkt_adjust_reservation x nreq block p =
    (if nreq \<le> ucast (pc_n_resvs c) then Some (Resv True, p) else adjust_turn x nreq (how_many nreq c) block p)"
  using assms by (auto simp: rpc__dg_pkt_adjust_reservation_def owner_def)

lemma adjust_turn_safe:
  assumes ok: "pool_ok lk p fs W" and c: "cget x p = Some c" "owner c" "\<not> is_in_pkt_chain c \<Longrightarrow> pc_refcnt c < 255"
    and n: "unat (pc_n_resvs c) < unat nreq" "unat nreq < 256"
  shows "\<exists>r p' W'. adjust_turn x nreq (how_many nreq c) block p = Some (r, p') \<and> pool_ok lk p' fs W' \<and> same_refs p p' \<and> same_pkts p p'"
proof (cases "resv_branch p c (how_many nreq c) = 0")
  case False
  then show ?thesis using adjust_turn_granted [OF ok c(1,2) n] by blast
next
  case True
  note d = adjust_turn_denied [OF ok c(1,2) n True]
  show ?thesis
  proof (cases block)
    case True
    then show ?thesis using d(2) [OF c(3)] by simp blast
  next
    case False
    then show ?thesis using d(1) ok by auto
  qed
qed

lemma le_ucast_u8: "nreq \<le> ucast (n :: u8) \<longleftrightarrow> unat (nreq :: u32) \<le> unat n"
  by (simp add: word_le_nat_alt)

lemma adjust_owner_safe:
  assumes ok: "pool_ok lk p fs W" and c: "cget x p = Some c" "owner c" "\<not> is_in_pkt_chain c \<Longrightarrow> pc_refcnt c < 255"
    and k: "skget (pc_sock_ref c) p = Some k" and n: "unat nreq < 256"
  shows "\<exists>r p' W'. rpc__dg_pkt_adjust_reservation x nreq block p = Some (r, p') \<and> pool_ok lk p' fs W' \<and> same_refs p p' \<and> same_pkts p p'"
proof (cases "nreq \<le> ucast (pc_n_resvs c)")
  case True
  then show ?thesis using ok adjust_owner [OF c(1,2) k] by auto
next
  case False
  then have "unat (pc_n_resvs c) < unat nreq" by (simp add: le_ucast_u8)
  then show ?thesis using adjust_turn_safe [OF ok c _ n] False adjust_owner [OF c(1,2) k] by simp
qed

text \<open>
  What follows the loop, for any call.  A callback hands its reservation on to the call it belongs to;
  what that call held before and the pool does not get back leaks.
\<close>

lemma adjust_leave_any:
  assumes ok: "pool_ok lk p fs W" and c: "cget x p = Some c"
    and d: "pc_is_cbk c \<Longrightarrow> got \<Longrightarrow> cget (pc_peer c) p = Some d"
    and k: "k + (if got \<and> pc_is_cbk c then held (d\<lparr>pc_n_resvs := pc_n_resvs c\<rparr>) else 0) = lk + (if got \<and> pc_is_cbk c then held d else 0)"
  shows "\<exists>p'. adjust_leave x got p = Some (Resv got, p') \<and> pool_ok k p' fs (W(Rsv_waiters := remove1 x (W Rsv_waiters))) \<and>
    same_refs p p' \<and> same_pkts p p'"
proof -
  have cx: "calls p x = Some c" using c by (simp add: cget_iff)
  from leave_queue_ok [OF ok cx, of Rsv_waiters] obtain q where
    q: "(if is_in_pkt_chain c then dequeue_pool_waiter x Rsv_waiters p else Some p) = Some q"
    "pool_ok lk q fs (W(Rsv_waiters := remove1 x (W Rsv_waiters)))" "same_refs p q" "same_pkts p q" "pool_plain q = pool_plain p" by blast
  let ?q = "if got then UPDATE_RATIONING_STATE q else q"
  have uq: "pool_ok lk ?q fs (W(Rsv_waiters := remove1 x (W Rsv_waiters)))" "same_refs p ?q" "same_pkts p ?q" "calls ?q = calls q"
    using q by (simp_all add: UPDATE_RATIONING_STATE_def same_refs_def same_pkts_def avail_def)
      (metis (no_types) pool_ok_update UPDATE_RATIONING_STATE_def)
  show ?thesis
  proof (cases "got \<and> pc_is_cbk c")
    case False
    then show ?thesis using uq q(1) c k by (cases got; intro exI [of _ ?q]) (auto simp: adjust_leave_def)
  next
    case True
    then have dp: "calls p (pc_peer c) = Some d" "pc_peer c \<noteq> NULL" using d by (simp_all add: cget_iff)
    have "pool_plain q (pc_peer c) = Some (plain d)" using q(5) dp(1) by (simp add: pool_plain_def)
    then obtain e where e: "calls q (pc_peer c) = Some e" "plain e = plain d" by (auto simp: pool_plain_def)
    have he: "held e = held d" "held (e\<lparr>pc_n_resvs := v\<rparr>) = held (d\<lparr>pc_n_resvs := v\<rparr>)" for v
    proof -
      show "held e = held d" using held_plain [of e] held_plain [of d] e(2) by simp
      have "owner e = owner d" using plain_fields(1,2,4) [of e] plain_fields(1,2,4) [of d] e(2) by (simp add: owner_def)
      then show "held (e\<lparr>pc_n_resvs := v\<rparr>) = held (d\<lparr>pc_n_resvs := v\<rparr>)" by (simp add: held_def owner_def)
    qed
    have eq: "calls ?q (pc_peer c) = Some e" using e(1) uq(4) by simp
    define r where "r = ?q\<lparr>calls := (calls ?q)(pc_peer c \<mapsto> e\<lparr>pc_n_resvs := pc_n_resvs c\<rparr>), reservations := reservations ?q, srv_resv_avail := srv_resv_avail ?q\<rparr>"
    have r: "pool_ok k r fs (W(Rsv_waiters := remove1 x (W Rsv_waiters)))" "same_refs ?q r"
      using call_upd_leak [OF uq(1) eq r_def, of k] k True he pool_okD(3) [OF uq(1)] by (simp_all add: resvs_ok_def)
    have "same_pkts ?q r" by (simp add: r_def same_pkts_def avail_def)
    moreover have "cset (pc_peer c) (pc_n_resvs_update (\<lambda>_. pc_n_resvs c)) ?q = Some r"
      using eq dp(2) by (simp add: cset_def cget_def r_def)
    then have "adjust_leave x got p = Some (Resv got, r)"
      unfolding adjust_leave_def c bind_simps q(1) Let_def using True by simp
    ultimately show ?thesis using r same_refs_trans [OF uq(2)] same_pkts_trans [OF uq(3)] by blast
  qed
qed

text \<open>
  A turn for any call, that had \<open>n0\<close> packets reserved when it asked.  Nothing leaks if neither its
  reservation nor that of the call it belongs to has changed since.
\<close>

definition undisturbed :: "pool_call \<Rightarrow> pool_call \<Rightarrow> u8 \<Rightarrow> bool" where
  "undisturbed c d n0 \<longleftrightarrow> pc_n_resvs c = n0 \<and> (pc_is_cbk c \<longrightarrow> owner d \<and> pc_n_resvs d = n0)"

definition may_ask :: "pool_call \<Rightarrow> pool_call \<Rightarrow> u8 \<Rightarrow> dg_pool \<Rightarrow> bool" where
  "may_ask c d n0 p \<longleftrightarrow> (if pc_is_cbk c then cget (pc_peer c) p = Some d \<and> n0 \<le> pc_n_resvs d else owner c \<and> n0 \<le> pc_n_resvs c)"

lemma how_many_unat:
  assumes "unat n0 < unat nreq" "unat nreq < 256"
  shows "unat (how_many nreq (c\<lparr>pc_n_resvs := n0\<rparr>)) = unat nreq - unat n0 + (if n0 = 0 then 1 else 0)"
proof -
  have s: "unat (nreq - ucast n0) = unat nreq - unat n0" using assms(1) by (simp add: unat_sub word_le_nat_alt)
  then show ?thesis using assms(2) by (simp add: how_many_def unat_add_mod)
qed

lemma held_val: "held c = (if owner c \<and> pc_n_resvs c \<noteq> 0 then unat (pc_n_resvs c) + 1 else 0)" by (simp add: held_def)

lemma ucast_small: "unat (n :: u32) < 256 \<Longrightarrow> unat (ucast n :: u8) = unat n"
  by (simp add: unsigned_ucast_eq take_bit_nat_eq_self_iff)

lemma turn_any:
  assumes ok: "pool_ok lk p fs W" and c: "cget x p = Some c" "\<not> is_in_pkt_chain c \<Longrightarrow> pc_refcnt c < 255"
    and m: "may_ask c d n0 p" and n: "unat n0 < unat nreq" "unat nreq < 256"
    and how: "how = how_many nreq (c\<lparr>pc_n_resvs := n0\<rparr>)"
  shows "\<exists>r p' k W'. adjust_turn x nreq how block p = Some (r, p') \<and> pool_ok k p' fs W' \<and> leaks (undisturbed c d n0) lk k \<and>
    same_refs p p' \<and> same_pkts p p'"
proof -
  note ko = pool_okD [OF ok]
  have cx: "calls p x = Some c" "x \<noteq> NULL" using c(1) by (simp_all add: cget_iff)
  have hv: "unat how = unat nreq - unat n0 + (if n0 = 0 then 1 else 0)" unfolding how by (rule how_many_unat [OF n])
  have un: "unat (ucast nreq :: u8) = unat nreq" by (rule ucast_small [OF n(2)])
  then have unz: "(ucast nreq :: u8) \<noteq> 0" using n(1) by (metis less_nat_zero_code unat_0)
  have ra: "RESERVATION_AVAILABLE how p \<longleftrightarrow> unat (reservations p) + unat how \<le> avail p"
    by (rule avail_words(4) [OF ko(2,3)]) (use hv n in auto)
  have b: "max_resv_pkt p = 2" "unat (srv_resv_avail p) \<le> 5" "unat (reservations p) \<le> unat (max_pkt_count p)"
    "avail p \<le> unat (max_pkt_count p)" "unat (max_pkt_count p) < 2 ^ 31"
    using ko(2,3) by (simp_all add: resvs_ok_def counts_ok_def)
  text \<open>A grant: \<open>g\<close> packets are reserved now, and the call is off the list.\<close>
  have granted: "\<exists>r p' k W'. adjust_leave x True (p\<lparr>calls := (calls p)(x \<mapsto> c\<lparr>pc_n_resvs := g\<rparr>), reservations := rr, srv_resv_avail := s\<rparr>) = Some (r, p') \<and>
      pool_ok k p' fs W' \<and> leaks (undisturbed c d n0) lk k \<and> same_refs p p' \<and> same_pkts p p'"
    if rs: "unat s \<le> 5" "unat rr \<le> unat (max_pkt_count p)" "unat rr + 3 * unat (srv_resv_avail p) = unat (reservations p) + 3 * unat s + i"
      and g: "g \<noteq> 0" "unat g + 1 \<le> i + (if n0 = 0 then 0 else unat n0 + 1)" "undisturbed c d n0 \<Longrightarrow> unat g + 1 = i + (if n0 = 0 then 0 else unat n0 + 1)"
    for g rr s i
  proof -
    let ?c = "c\<lparr>pc_n_resvs := g\<rparr>"
    define p1 where "p1 = p\<lparr>calls := (calls p)(x \<mapsto> ?c), reservations := rr, srv_resv_avail := s\<rparr>"
    have s1: "same_pkts p p1" "cget x p1 = Some ?c" using cx by (simp_all add: p1_def same_pkts_def avail_def cget_def)
    show ?thesis
    proof (cases "pc_is_cbk c")
      case False
      then have o: "owner c" "n0 \<le> pc_n_resvs c" using m by (simp_all add: may_ask_def)
      have hd: "held ?c = unat g + 1" using o(1) g(1) by (simp add: held_def owner_def)
      have hc: "(if n0 = 0 then 0 else unat n0 + 1) \<le> held c" using o by (auto simp: held_def word_le_nat_alt unat_eq_0 [symmetric])
      define k where "k = lk + i + held c - (unat g + 1)"
      have kk: "k + unat g + 1 = lk + i + held c" using g(2) hc by (simp add: k_def)
      have p1: "pool_ok k p1 fs W" "same_refs p p1"
        using call_upd_leak [OF ok cx(1) p1_def _ _ _ rs(1) _ rs(2), of k] rs(3) hd kk by simp_all
      have "leaks (undisturbed c d n0) lk k" using g(2,3) hc kk o(1) by (auto simp: leaks_def undisturbed_def held_def split: if_splits)
      moreover from adjust_leave_any [OF p1(1) s1(2), of True] False obtain p' where "adjust_leave x True p1 = Some (Resv True, p')"
        "pool_ok k p' fs (W(Rsv_waiters := remove1 x (W Rsv_waiters)))" "same_refs p1 p'" "same_pkts p1 p'" by auto
      ultimately show ?thesis unfolding p1_def [symmetric] using same_refs_trans [OF p1(2)] same_pkts_trans [OF s1(1)] by blast
    next
      case True
      then have dp: "cget (pc_peer c) p = Some d" "n0 \<le> pc_n_resvs d" using m by (simp_all add: may_ask_def)
      have z: "held c = 0" "held ?c = 0" using True by (simp_all add: held_def owner_def)
      have p1: "pool_ok (lk + i) p1 fs W" "same_refs p p1"
        using call_upd_leak [OF ok cx(1) p1_def _ _ _ rs(1) _ rs(2), of "lk + i"] rs(3) z by simp_all
      define e where "e = (if pc_peer c = x then ?c else d)"
      have e: "cget (pc_peer c) p1 = Some e" using dp(1) by (simp add: p1_def cget_def e_def split: if_splits)
      have he: "held (e\<lparr>pc_n_resvs := g\<rparr>) = (if owner e then unat g + 1 else 0)" using g(1) by (simp add: held_def owner_def)
      have oe: "owner e \<Longrightarrow> e = d" "pc_peer c = x \<Longrightarrow> d = c" using True cx dp(1) by (auto simp: e_def owner_def cget_iff split: if_splits)
      have hc: "owner e \<Longrightarrow> (if n0 = 0 then 0 else unat n0 + 1) \<le> held e"
        using dp(2) oe(1) by (auto simp: held_def word_le_nat_alt unat_eq_0 [symmetric])
      define k where "k = lk + i + held e - held (e\<lparr>pc_n_resvs := g\<rparr>)"
      have kk: "k + held (e\<lparr>pc_n_resvs := g\<rparr>) = lk + i + held e" using g(2) hc he by (cases "owner e") (simp_all add: k_def)
      have lk: "leaks (undisturbed c d n0) lk k" unfolding leaks_def
      proof
        show "lk \<le> k" using kk g(2) hc he by (cases "owner e") auto
        show "undisturbed c d n0 \<longrightarrow> k = lk"
        proof
          assume u: "undisturbed c d n0"
          then have od: "owner d" "pc_n_resvs d = n0" using True by (simp_all add: undisturbed_def)
          then have ed: "e = d" using oe(2) True by (auto simp: e_def owner_def)
          have "held d = (if n0 = 0 then 0 else unat n0 + 1)" using od by (simp add: held_val)
          then show "k = lk" using kk he g(3) [OF u] od(1) ed by simp
        qed
      qed
      from adjust_leave_any [OF p1(1) s1(2), of True e k] e kk True obtain p' where "adjust_leave x True p1 = Some (Resv True, p')"
        "pool_ok k p' fs (W(Rsv_waiters := remove1 x (W Rsv_waiters)))" "same_refs p1 p'" "same_pkts p1 p'" by auto
      then show ?thesis unfolding p1_def [symmetric] using lk same_refs_trans [OF p1(2)] same_pkts_trans [OF s1(1)] by blast
    qed
  qed
  consider (free) "unat (reservations p) + unat how \<le> avail p"
    | (srv) "\<not> unat (reservations p) + unat how \<le> avail p" "pc_n_resvs c = 0" "pc_is_server c" "srv_resv_avail p \<noteq> 0" "unat how \<le> 3"
    | (no) "\<not> unat (reservations p) + unat how \<le> avail p" "\<not> (pc_n_resvs c = 0 \<and> pc_is_server c \<and> srv_resv_avail p \<noteq> 0 \<and> unat how \<le> 3)"
    by argo
  then show ?thesis
  proof cases
    case free
    have r: "unat (reservations p + how) = unat (reservations p) + unat how" using free b(4,5) by (simp add: unat_add_mod)
    have "adjust_turn x nreq how block p = adjust_leave x True
        (p\<lparr>calls := (calls p)(x \<mapsto> c\<lparr>pc_n_resvs := ucast nreq\<rparr>), reservations := reservations p + how, srv_resv_avail := srv_resv_avail p\<rparr>)"
      using free ra cx unfolding resv_upd_order [symmetric] by (simp add: adjust_turn_def cget_def cset_def)
    moreover have "unat (ucast nreq :: u8) + 1 = unat how + (if n0 = 0 then 0 else unat n0 + 1)" using hv un n(1) by auto
    ultimately show ?thesis using granted [of "srv_resv_avail p" "reservations p + how" "unat how" "ucast nreq"] r b free unz by auto
  next
    case srv
    have t: "unat (srv_resv_avail p - 1) + 1 = unat (srv_resv_avail p)"
      using srv(4) by (simp add: unat_sub word_le_nat_alt unat_gt_0 Suc_leI)
    have h3: "max_resv_pkt p + 1 \<ge> how" using srv(5) b(1) by (simp add: word_le_nat_alt)
    have "SRV_RESERVATION_AVAILABLE c p" using srv by (simp add: SRV_RESERVATION_AVAILABLE_def word_gt_0)
    then have "adjust_turn x nreq how block p = adjust_leave x True
      (p\<lparr>calls := (calls p)(x \<mapsto> c\<lparr>pc_n_resvs := 2\<rparr>), reservations := reservations p, srv_resv_avail := srv_resv_avail p - 1\<rparr>)"
      using srv ra cx h3 b(1) unfolding resv_upd_order [symmetric] by (simp add: adjust_turn_def cget_def cset_def)
    moreover have "undisturbed c d n0 \<Longrightarrow> n0 = 0" using srv(2) by (simp add: undisturbed_def)
    ultimately show ?thesis using granted [of "srv_resv_avail p - 1" "reservations p" 3 2] t b by auto
  next
    case no
    have srv: "\<not> (pc_n_resvs c = 0 \<and> SRV_RESERVATION_AVAILABLE c p \<and> max_resv_pkt p + 1 \<ge> how)"
      using no(2) b(1) by (auto simp: SRV_RESERVATION_AVAILABLE_def word_le_nat_alt word_gt_0)
    show ?thesis
    proof (cases block)
      case False
      then have "adjust_turn x nreq how block p = Some (Resv False, p)"
        unfolding adjust_turn_def c(1) bind_simps using ra no(1) srv by auto
      then show ?thesis using ok by auto
    next
      case True
      let ?d = "c\<lparr>pc_n_resvs_wait := ucast how\<rparr>"
      define p1 where "p1 = p\<lparr>calls := (calls p)(x \<mapsto> ?d), reservations := reservations p, srv_resv_avail := srv_resv_avail p\<rparr>"
      have hd: "held ?d = held c" by (simp add: held_def owner_def)
      have p1: "pool_ok lk p1 fs W" "same_refs p p1" using call_upd_ok [OF ok cx(1) p1_def] hd ko(3) by (simp_all add: resvs_ok_def)
      have s1: "same_pkts p p1" "cget x p1 = Some ?d" using cx by (simp_all add: p1_def same_pkts_def avail_def cget_def)
      from enqueue_pool_ok [OF p1(1) s1(2), of Rsv_waiters] c(2) obtain p' W' where p': "enqueue_pool_waiter x Rsv_waiters p1 = Some p'"
        "pool_ok lk p' fs W'" "same_refs p1 p'" "same_pkts p1 p'" by auto
      have "cset x (pc_n_resvs_wait_update (\<lambda>_. ucast how)) p = Some p1" using cx by (simp add: cset_def cget_def p1_def)
      then have "adjust_turn x nreq how block p = Some (Resv_wait, p')"
        unfolding adjust_turn_def c(1) bind_simps using ra no(1) srv p'(1) True by auto
      then show ?thesis using p' same_refs_trans [OF p1(2)] same_pkts_trans [OF s1(1)] leaks_refl by blast
    qed
  qed
qed

lemma woken_any:
  assumes ok: "pool_ok lk p fs W" and c: "cget x p = Some c" "\<not> is_in_pkt_chain c \<Longrightarrow> pc_refcnt c < 255"
    and m: "may_ask c d n0 p" and n: "unat n0 < unat nreq" "unat nreq < 256"
    and how: "how = how_many nreq (c\<lparr>pc_n_resvs := n0\<rparr>)"
  shows "\<exists>r p' k W'. adjust_woken x nreq how st p = Some (r, p') \<and> pool_ok k p' fs W' \<and> leaks (undisturbed c d n0) lk k \<and>
    same_refs p p' \<and> same_pkts p p'"
proof (cases "st = 0")
  case True
  then show ?thesis using turn_any [OF assms] by (simp add: adjust_woken_def)
next
  case False
  from adjust_leave_any [OF ok c(1), of False d lk] show ?thesis using False by (simp add: adjust_woken_def) (blast intro: leaks_refl)
qed

text \<open>A call that inherits its reservation: WAY bindings only copy it.\<close>

lemma adjust_way:
  assumes ok: "pool_ok lk p fs W" and c: "cget x p = Some c" "\<not> pc_is_cbk c" "\<not> pc_is_server c" "pc_way c \<noteq> 0"
    and k: "skget (pc_sock_ref c) p = Some k"
  shows "\<exists>p'. rpc__dg_pkt_adjust_reservation x nreq block p = Some (Resv (nreq \<le> ucast (pc_way c)), p') \<and> pool_ok lk p' fs W \<and>
    same_refs p p' \<and> same_pkts p p' \<and> reservations p' = reservations p"
proof -
  have cx: "calls p x = Some c" "x \<noteq> NULL" using c(1) by (simp_all add: cget_iff)
  let ?d = "c\<lparr>pc_n_resvs := pc_way c\<rparr>"
  define p1 where "p1 = p\<lparr>calls := (calls p)(x \<mapsto> ?d), reservations := reservations p, srv_resv_avail := srv_resv_avail p\<rparr>"
  have "held c = 0" "held ?d = 0" using c by (simp_all add: held_def owner_def)
  then have "pool_ok lk p1 fs W" "same_refs p p1" using call_upd_ok [OF ok cx(1) p1_def] pool_okD(3) [OF ok] by (simp_all add: resvs_ok_def)
  moreover have "rpc__dg_pkt_adjust_reservation x nreq block p = Some (Resv (nreq \<le> ucast (pc_way c)), p1)"
    using c cx k by (simp add: rpc__dg_pkt_adjust_reservation_def cset_def p1_def)
  ultimately show ?thesis by (intro exI [of _ p1]) (simp add: p1_def same_pkts_def avail_def)
qed

text \<open>A request of any call: a callback takes over the reservation of the call it belongs to first.\<close>

lemma adjust_any:
  assumes ok: "pool_ok lk p fs W" and c: "cget x p = Some c" "\<not> is_in_pkt_chain c \<Longrightarrow> pc_refcnt c < 255"
    and d: "pc_is_cbk c \<Longrightarrow> cget (pc_peer c) p = Some d" and k: "skget (pc_sock_ref c) p = Some kk" and n: "unat nreq < 256"
  shows "\<exists>r p' k W'. rpc__dg_pkt_adjust_reservation x nreq block p = Some (r, p') \<and> pool_ok k p' fs W' \<and>
    leaks (pc_is_cbk c \<longrightarrow> owner d) lk k \<and> same_refs p p' \<and> same_pkts p p'"
proof -
  consider (way) "\<not> pc_is_cbk c" "\<not> pc_is_server c" "pc_way c \<noteq> 0" | (own) "owner c" | (cbk) "pc_is_cbk c" by (auto simp: owner_def)
  then show ?thesis
  proof cases
    case way
    from adjust_way [OF ok c(1) way k, of nreq block] show ?thesis using leaks_refl by blast
  next
    case own
    show ?thesis
    proof (cases "nreq \<le> ucast (pc_n_resvs c)")
      case True
      then show ?thesis using ok adjust_owner [OF c(1) own k] by auto
    next
      case False
      then have "unat (pc_n_resvs c) < unat nreq" by (simp add: le_ucast_u8)
      moreover have "may_ask c d (pc_n_resvs c) p" "undisturbed c d (pc_n_resvs c)" using own by (simp_all add: may_ask_def undisturbed_def owner_def)
      ultimately have "\<exists>r p' k W'. adjust_turn x nreq (how_many nreq c) block p = Some (r, p') \<and> pool_ok k p' fs W' \<and>
          leaks True lk k \<and> same_refs p p' \<and> same_pkts p p'"
        using turn_any [OF ok c, of d "pc_n_resvs c" nreq "how_many nreq c" block] n by simp
      then show ?thesis unfolding adjust_owner [OF c(1) own k] if_not_P [OF False] by (auto simp: leaks_def)
    qed
  next
    case cbk
    have cx: "calls p x = Some c" "x \<noteq> NULL" using c(1) by (simp_all add: cget_iff)
    let ?c = "c\<lparr>pc_n_resvs := pc_n_resvs d\<rparr>"
    define p1 where "p1 = p\<lparr>calls := (calls p)(x \<mapsto> ?c), reservations := reservations p, srv_resv_avail := srv_resv_avail p\<rparr>"
    have "held c = 0" "held ?c = 0" using cbk by (simp_all add: held_def owner_def)
    then have p1: "pool_ok lk p1 fs W" "same_refs p p1"
      using call_upd_ok [OF ok cx(1) p1_def] pool_okD(3) [OF ok] by (simp_all add: resvs_ok_def)
    have s1: "same_pkts p p1" "cget x p1 = Some ?c" using cx by (simp_all add: p1_def same_pkts_def avail_def cget_def)
    define e where "e = (if pc_peer c = x then ?c else d)"
    have e: "cget (pc_peer c) p1 = Some e" "pc_n_resvs e = pc_n_resvs d" using d [OF cbk] by (auto simp: p1_def cget_def e_def split: if_splits)
    have s: "rpc__dg_pkt_adjust_reservation x nreq block p =
        (if nreq \<le> ucast (pc_n_resvs d) then Some (Resv True, p1) else adjust_turn x nreq (how_many nreq ?c) block p1)"
      using c(1) d [OF cbk] k cx cbk by (simp add: rpc__dg_pkt_adjust_reservation_def cset_def cget_def p1_def)
    show ?thesis
    proof (cases "nreq \<le> ucast (pc_n_resvs d)")
      case True
      then show ?thesis using s p1 s1 leaks_refl by auto
    next
      case False
      then have lt: "unat (pc_n_resvs d) < unat nreq" by (simp add: le_ucast_u8)
      have m: "may_ask ?c e (pc_n_resvs d) p1" using cbk e by (simp add: may_ask_def)
      have "owner d \<Longrightarrow> undisturbed ?c e (pc_n_resvs d)" using cbk e d [OF cbk] cx by (auto simp: undisturbed_def e_def owner_def cget_iff split: if_splits)
      then have lk: "leaks (undisturbed ?c e (pc_n_resvs d)) lk k \<Longrightarrow> leaks (pc_is_cbk c \<longrightarrow> owner d) lk k" for k
        using cbk by (auto simp: leaks_def)
      have rf: "\<not> is_in_pkt_chain ?c \<Longrightarrow> pc_refcnt ?c < 255" using c(2) by simp
      from turn_any [OF p1(1) s1(2) rf m lt n, of "how_many nreq ?c" block] obtain r p' k W' where
        "adjust_turn x nreq (how_many nreq ?c) block p1 = Some (r, p')" "pool_ok k p' fs W'" "leaks (undisturbed ?c e (pc_n_resvs d)) lk k"
        "same_refs p1 p'" "same_pkts p1 p'" by auto
      then show ?thesis using s False lk same_refs_trans [OF p1(2)] same_pkts_trans [OF s1(1)] by auto
    qed
  qed
qed

section \<open>Elements\<close>

text \<open>What \<open>RPC_MEM_ALLOC\<close> answers when the free list is empty.\<close>

definition fresh :: "addr \<Rightarrow> dg_pool \<Rightarrow> bool" where
  "fresh x p \<longleftrightarrow> x \<noteq> NULL \<and> elts p x = None"

lemma fresh_same: "same_pkts p p' \<Longrightarrow> fresh x p' = fresh x p"
  by (simp add: fresh_def same_pkts_def)

lemma xqe_take_ok:
  assumes ok: "pool_ok lk p fs W" and av: "0 < avail p" and new: "fresh new p"
  shows "\<exists>x p1 p'. pkt_alloc new blank p = Some (x, p1) \<and> x = (if fs = [] then new else hd fs) \<and> x \<noteq> NULL \<and>
    eset x xqe_reset (p1\<lparr>active_xqes := active_xqes p1 + 1\<rparr>) = Some p' \<and> pool_ok lk p' (tl fs) W \<and> same_refs p p' \<and>
    in_use p' x \<and> avail p' + 1 = avail p \<and> calls p' = calls p \<and> reservations p' = reservations p"
    "\<exists>x p1 p'. pkt_alloc new blank p = Some (x, p1) \<and> x = (if fs = [] then new else hd fs) \<and> x \<noteq> NULL \<and>
    eset x (\<lambda>e. rqe_reset (e\<lparr>pe_sock_ref := NULL\<rparr>)) (p1\<lparr>active_rqes := active_rqes p1 + 1\<rparr>) = Some p' \<and> pool_ok lk p' (tl fs) W \<and> same_refs p p' \<and>
    in_use p' x \<and> avail p' + 1 = avail p \<and> calls p' = calls p \<and> reservations p' = reservations p"
proof -
  from pkt_alloc_ok [OF ok av, of new blank] new obtain p1 e x where a: "pkt_alloc new blank p = Some (x, p1)"
    "x = (if fs = [] then new else hd fs)" "x \<noteq> NULL" "free_ok p1 (tl fs)" "elts p1 x = Some e" "\<not> is_on_free_list e"
    "x \<notin> set (tl fs)" "avail p1 + 1 = avail p" "pool_rest p1 = pool_rest p" "\<forall>y. y \<noteq> x \<longrightarrow> elts p1 y = elts p y"
    unfolding fresh_def by blast
  define px where "px = p1\<lparr>active_xqes := active_xqes p1 + 1, elts := (elts p1)(x \<mapsto> xqe_reset e)\<rparr>"
  define pr where "pr = p1\<lparr>active_rqes := active_rqes p1 + 1, elts := (elts p1)(x \<mapsto> rqe_reset (e\<lparr>pe_sock_ref := NULL\<rparr>))\<rparr>"
  have nf: "\<not> is_on_free_list (xqe_reset e)" "\<not> is_on_free_list (rqe_reset (e\<lparr>pe_sock_ref := NULL\<rparr>))"
    using a(6) by (simp_all add: xqe_reset_def rqe_reset_def)
  have "eset x xqe_reset (p1\<lparr>active_xqes := active_xqes p1 + 1\<rparr>) = Some px" using a(3,5) by (simp add: eset_def eget_def px_def)
  moreover have "in_use px x" using nf(1) a(3) by (simp add: in_use_def px_def)
  moreover note in_use_ok [OF ok a(4,8,9,7,5,10,3) nf(1) disjI1 [OF px_def]]
  ultimately show "\<exists>x p1 p'. pkt_alloc new blank p = Some (x, p1) \<and> x = (if fs = [] then new else hd fs) \<and> x \<noteq> NULL \<and>
    eset x xqe_reset (p1\<lparr>active_xqes := active_xqes p1 + 1\<rparr>) = Some p' \<and> pool_ok lk p' (tl fs) W \<and> same_refs p p' \<and>
    in_use p' x \<and> avail p' + 1 = avail p \<and> calls p' = calls p \<and> reservations p' = reservations p" using a(1-3) by blast
  have "eset x (\<lambda>e. rqe_reset (e\<lparr>pe_sock_ref := NULL\<rparr>)) (p1\<lparr>active_rqes := active_rqes p1 + 1\<rparr>) = Some pr"
    using a(3,5) by (simp add: eset_def eget_def pr_def)
  moreover have "in_use pr x" using nf(2) a(3) by (simp add: in_use_def pr_def)
  moreover note in_use_ok [OF ok a(4,8,9,7,5,10,3) nf(2) disjI2 [OF pr_def]]
  ultimately show "\<exists>x p1 p'. pkt_alloc new blank p = Some (x, p1) \<and> x = (if fs = [] then new else hd fs) \<and> x \<noteq> NULL \<and>
    eset x (\<lambda>e. rqe_reset (e\<lparr>pe_sock_ref := NULL\<rparr>)) (p1\<lparr>active_rqes := active_rqes p1 + 1\<rparr>) = Some p' \<and> pool_ok lk p' (tl fs) W \<and> same_refs p p' \<and>
    in_use p' x \<and> avail p' + 1 = avail p \<and> calls p' = calls p \<and> reservations p' = reservations p" using a(1-3) by blast
qed

lemma blocked_ok:
  "pool_ok lk p fs W \<Longrightarrow> pool_ok lk (p\<lparr>blocked_alloc_xqe := n\<rparr>) fs W" "pool_ok lk p fs W \<Longrightarrow> pool_ok lk (p\<lparr>failed_alloc_rqe := n\<rparr>) fs W"
proof -
  have "pool_ok lk q fs W" if ok: "pool_ok lk p fs W" and q: "q = p\<lparr>blocked_alloc_xqe := n\<rparr> \<or> q = p\<lparr>failed_alloc_rqe := n\<rparr>" for q
  proof -
    note k = pool_okD [OF ok]
    have "calls q = calls p" "pkt_waiters_head q = pkt_waiters_head p" "pkt_waiters_tail q = pkt_waiters_tail p"
      "rsv_waiters_head q = rsv_waiters_head p" "rsv_waiters_tail q = rsv_waiters_tail p" using q by auto
    note w = waiters_same [OF this]
    have "free_ok q fs = free_ok p fs" "counts_ok q = counts_ok p" "resvs_ok lk q = resvs_ok lk p" "socks_ok q = socks_ok p"
      using q by (elim disjE; simp add: free_ok_def free_chain_def counts_ok_def avail_def resvs_ok_def socks_ok_def in_use_def)+
    then show ?thesis using k w(1,2) by (simp add: pool_ok_def)
  qed
  then show "pool_ok lk p fs W \<Longrightarrow> pool_ok lk (p\<lparr>blocked_alloc_xqe := n\<rparr>) fs W" "pool_ok lk p fs W \<Longrightarrow> pool_ok lk (p\<lparr>failed_alloc_rqe := n\<rparr>) fs W"
    by blast+
qed

text \<open>
  A turn of \<open>rpc__dg_pkt_alloc_xqe\<close>: a call with packets on its queue waits while packets are
  rationed; otherwise it gets the head of the free list, or a new packet, and fails only when none
  is left at all.
\<close>

lemma xqe_turn_ok:
  assumes ok: "pool_ok lk p fs W" and c: "cget x p = Some c" "\<not> is_in_pkt_chain c \<Longrightarrow> pc_refcnt c < 255" and new: "fresh new p"
  shows "avail p \<le> unat (reservations p) \<Longrightarrow> pc_xq_head c \<noteq> NULL \<Longrightarrow> \<exists>p'. xqe_turn x new blank p = Some (Xqe_wait, p') \<and>
      pool_ok lk p' fs (if is_in_pkt_chain c then W else W(Pkt_waiters := W Pkt_waiters @ [x])) \<and> same_refs p p' \<and> same_pkts p p'"
    "\<not> (avail p \<le> unat (reservations p) \<and> pc_xq_head c \<noteq> NULL) \<Longrightarrow> 0 < avail p \<Longrightarrow>
      \<exists>p'. xqe_turn x new blank p = Some (Xqe (if fs = [] then new else hd fs), p') \<and> pool_ok lk p' (tl fs) (W(Pkt_waiters := remove1 x (W Pkt_waiters))) \<and>
        same_refs p p' \<and> in_use p' (if fs = [] then new else hd fs) \<and> avail p' + 1 = avail p \<and> pool_plain p' = pool_plain p"
    "\<not> (avail p \<le> unat (reservations p) \<and> pc_xq_head c \<noteq> NULL) \<Longrightarrow> avail p = 0 \<Longrightarrow>
      \<exists>p'. xqe_turn x new blank p = Some (Xqe_error rpc_s_coding_error, p') \<and> pool_ok lk p' fs (W(Pkt_waiters := remove1 x (W Pkt_waiters))) \<and> same_refs p p' \<and> same_pkts p p'"
proof -
  note rat = avail_words(3) [OF pool_okD(2,3) [OF ok]]
  have cx: "calls p x = Some c" using c(1) by (simp add: cget_iff)
  show "\<exists>p'. xqe_turn x new blank p = Some (Xqe_wait, p') \<and>
      pool_ok lk p' fs (if is_in_pkt_chain c then W else W(Pkt_waiters := W Pkt_waiters @ [x])) \<and> same_refs p p' \<and> same_pkts p p'"
    if w: "avail p \<le> unat (reservations p)" "pc_xq_head c \<noteq> NULL"
  proof -
    let ?q = "p\<lparr>blocked_alloc_xqe := blocked_alloc_xqe p + 1\<rparr>"
    have q: "pool_ok lk ?q fs W" "cget x ?q = Some c" using blocked_ok(1) [OF ok] c(1) by (simp_all add: cget_iff)
    have sq: "same_refs p ?q" "same_pkts p ?q" by (simp_all add: same_refs_def same_pkts_def avail_def)
    from enqueue_pool_ok [OF q, of Pkt_waiters] c(2) obtain p' where "enqueue_pool_waiter x Pkt_waiters ?q = Some p'"
      "pool_ok lk p' fs (if is_in_pkt_chain c then W else W(Pkt_waiters := W Pkt_waiters @ [x]))" "same_refs ?q p'" "same_pkts ?q p'" by auto
    then show ?thesis using w rat c(1) same_refs_trans [OF sq(1)] same_pkts_trans [OF sq(2)] by (simp add: xqe_turn_def)
  qed
  assume nw: "\<not> (avail p \<le> unat (reservations p) \<and> pc_xq_head c \<noteq> NULL)"
  from leave_queue_ok [OF ok cx, of Pkt_waiters] obtain q where
    q: "(if is_in_pkt_chain c then dequeue_pool_waiter x Pkt_waiters p else Some p) = Some q"
      "pool_ok lk q fs (W(Pkt_waiters := remove1 x (W Pkt_waiters)))" "same_refs p q" "same_pkts p q" "pool_plain q = pool_plain p" by blast
  have av: "avail q = avail p" using q(4) by (simp add: same_pkts_def)
  have t: "xqe_turn x new blank p = do {
      (y, p) \<leftarrow> pkt_alloc new blank q;
      if y = NULL then Some (Xqe_error rpc_s_coding_error, p)
      else do { p \<leftarrow> eset y xqe_reset (p\<lparr>active_xqes := active_xqes p + 1\<rparr>); Some (Xqe y, p) } }"
    unfolding xqe_turn_def c(1) bind_simps q(1) using nw rat by auto
  show "\<exists>p'. xqe_turn x new blank p = Some (Xqe (if fs = [] then new else hd fs), p') \<and> pool_ok lk p' (tl fs) (W(Pkt_waiters := remove1 x (W Pkt_waiters))) \<and>
        same_refs p p' \<and> in_use p' (if fs = [] then new else hd fs) \<and> avail p' + 1 = avail p \<and> pool_plain p' = pool_plain p" if a: "0 < avail p"
  proof -
    from xqe_take_ok(1) [OF q(2), of new blank] a av new fresh_same [OF q(4)] obtain y p1 p' where "pkt_alloc new blank q = Some (y, p1)"
      "y = (if fs = [] then new else hd fs)" "y \<noteq> NULL" "eset y xqe_reset (p1\<lparr>active_xqes := active_xqes p1 + 1\<rparr>) = Some p'"
      "pool_ok lk p' (tl fs) (W(Pkt_waiters := remove1 x (W Pkt_waiters)))" "same_refs q p'" "in_use p' y" "avail p' + 1 = avail q" "calls p' = calls q" by auto
    moreover from this(9) q(5) have "pool_plain p' = pool_plain p" by (simp add: pool_plain_def)
    ultimately show ?thesis using t av same_refs_trans [OF q(3)] by auto
  qed
  show "\<exists>p'. xqe_turn x new blank p = Some (Xqe_error rpc_s_coding_error, p') \<and> pool_ok lk p' fs (W(Pkt_waiters := remove1 x (W Pkt_waiters))) \<and> same_refs p p' \<and> same_pkts p p'"
    if a: "avail p = 0"
    using t pkt_alloc_none [OF q(2)] av a q by auto
qed

lemma rqe_take_ok:
  assumes ok: "pool_ok lk p fs W" and new: "fresh new p"
  shows "0 < avail p \<Longrightarrow> \<exists>p'. rqe_take new blank p = Some (Rqe (if fs = [] then new else hd fs), p') \<and> pool_ok lk p' (tl fs) W \<and>
      same_refs p p' \<and> in_use p' (if fs = [] then new else hd fs) \<and> avail p' + 1 = avail p"
    "avail p = 0 \<Longrightarrow> \<exists>p'. rqe_take new blank p = Some (Rqe NULL, p') \<and> pool_ok lk p' fs W \<and> same_refs p p' \<and> same_pkts p p'"
proof -
  show "\<exists>p'. rqe_take new blank p = Some (Rqe (if fs = [] then new else hd fs), p') \<and> pool_ok lk p' (tl fs) W \<and>
      same_refs p p' \<and> in_use p' (if fs = [] then new else hd fs) \<and> avail p' + 1 = avail p" if "0 < avail p"
    using xqe_take_ok(2) [OF ok that new, of blank] unfolding rqe_take_def by auto
  show "\<exists>p'. rqe_take new blank p = Some (Rqe NULL, p') \<and> pool_ok lk p' fs W \<and> same_refs p p' \<and> same_pkts p p'" if "avail p = 0"
    using pkt_alloc_none [OF ok that] blocked_ok(2) [OF ok] by (simp add: rqe_take_def same_refs_def same_pkts_def avail_def)
qed

text \<open>An element its owner gives back: in use, and not one that a private socket keeps.\<close>

definition returnable :: "dg_pool \<Rightarrow> addr \<Rightarrow> bool" where
  "returnable p x \<longleftrightarrow> in_use p x \<and> (\<forall>k s. socks p k = Some s \<longrightarrow> sk_xqe s \<noteq> x \<and> sk_rqe s \<noteq> x)"

text \<open>One element fewer of its kind.\<close>

definition one_less :: "dg_pool \<Rightarrow> dg_pool \<Rightarrow> bool" where
  "one_less p q \<longleftrightarrow> active_xqes p \<noteq> 0 \<and> q = p\<lparr>active_xqes := active_xqes p - 1\<rparr> \<or>
     active_rqes p \<noteq> 0 \<and> q = p\<lparr>active_rqes := active_rqes p - 1\<rparr>"

lemma one_less_fields:
  fixes p q :: dg_pool
  assumes "one_less p q"
  shows "elts q = elts p" "calls q = calls p" "socks q = socks p" "avail q = avail p" "free_ok q fs = free_ok p fs"
    "resvs_ok lk q = resvs_ok lk p" "max_pkt_count q = max_pkt_count p" "reservations q = reservations p"
    "pkt_waiters_head q = pkt_waiters_head p" "pkt_waiters_tail q = pkt_waiters_tail p"
    "rsv_waiters_head q = rsv_waiters_head p" "rsv_waiters_tail q = rsv_waiters_tail p"
    "unat (active_rqes q) + unat (active_xqes q) + 1 = unat (active_rqes p) + unat (active_xqes p)"
    "srv_resv_avail q = srv_resv_avail p" "free_chain q fs = free_chain p fs"
proof -
  from assms have q: "\<exists>a b. q = p\<lparr>active_rqes := a, active_xqes := b\<rparr> \<and> unat a + unat b + 1 = unat (active_rqes p) + unat (active_xqes p)"
  proof (unfold one_less_def, elim disjE conjE)
    assume a: "active_xqes p \<noteq> 0" "q = p\<lparr>active_xqes := active_xqes p - 1\<rparr>"
    then have "unat (active_xqes p - 1) + 1 = unat (active_xqes p)" by (simp add: unat_sub word_le_nat_alt unat_gt_0 Suc_leI)
    then show ?thesis using a by (intro exI [of _ "active_rqes p"] exI [of _ "active_xqes p - 1"]) (cases p, simp)
  next
    assume a: "active_rqes p \<noteq> 0" "q = p\<lparr>active_rqes := active_rqes p - 1\<rparr>"
    then have "unat (active_rqes p - 1) + 1 = unat (active_rqes p)" by (simp add: unat_sub word_le_nat_alt unat_gt_0 Suc_leI)
    then show ?thesis using a by (rule_tac exI [of _ "active_rqes p - 1"], rule_tac exI [of _ "active_xqes p"]) (cases p, simp)
  qed
  then show "elts q = elts p" "calls q = calls p" "socks q = socks p" "avail q = avail p" "free_ok q fs = free_ok p fs"
    "resvs_ok lk q = resvs_ok lk p" "max_pkt_count q = max_pkt_count p" "reservations q = reservations p"
    "pkt_waiters_head q = pkt_waiters_head p" "pkt_waiters_tail q = pkt_waiters_tail p"
    "rsv_waiters_head q = rsv_waiters_head p" "rsv_waiters_tail q = rsv_waiters_tail p"
    "unat (active_rqes q) + unat (active_xqes q) + 1 = unat (active_rqes p) + unat (active_xqes p)"
    "srv_resv_avail q = srv_resv_avail p" "free_chain q fs = free_chain p fs"
    by (auto simp: avail_def free_ok_def free_chain_def resvs_ok_def)
qed

lemma free_put_ok:
  assumes ok: "pool_ok lk p fs W" and x: "returnable p x" and ol: "one_less p p1"
  shows "\<exists>e q. eget x p1 = Some e \<and> \<not> is_on_free_list e \<and> free_list_put x p1 = Some q \<and> pool_ok lk q (fs @ [x]) W \<and> same_refs p q \<and>
    calls q = calls p \<and> socks q = socks p \<and> avail q = avail p + 1 \<and> reservations q = reservations p \<and>
    srv_resv_avail q = srv_resv_avail p \<and> (\<forall>y. in_use p y \<and> y \<noteq> x \<longrightarrow> elts q y = elts p y) \<and>
    active_xqes q = active_xqes p1 \<and> active_rqes q = active_rqes p1"
proof -
  note k = pool_okD [OF ok] and f1 = one_less_fields [OF ol]
  obtain e where e: "elts p x = Some e" "\<not> is_on_free_list e" "x \<noteq> NULL" using x by (auto simp: returnable_def in_use_def)
  have xn: "x \<notin> set fs" using k(1) e by (auto simp: free_ok_def)
  have fc: "free_chain p1 fs" "unat (free_count p1) = length fs" using k(1) f1(5,15) by (auto simp: free_ok_def)
  from free_list_put_chain [OF fc(1) e(3) xn, of e] e f1(1) obtain q where q: "free_list_put x p1 = Some q" "free_chain q (fs @ [x])"
    "elts q x = Some (e\<lparr>pe_next := NULL, is_on_free_list := True\<rparr>)"
    "\<And>y. y \<noteq> x \<Longrightarrow> map_option (pe_next_update (\<lambda>_. NULL)) (elts q y) = map_option (pe_next_update (\<lambda>_. NULL)) (elts p y)"
    "free_count q = free_count p1 + 1"
    "q = p1\<lparr>elts := elts q, free_list := free_list q, free_count := free_count q, free_list_tail := free_list_tail q\<rparr>"
    "\<And>y. y \<noteq> x \<Longrightarrow> y \<notin> set fs \<Longrightarrow> elts q y = elts p y" by auto
  have marks: "is_on_free_list d \<longleftrightarrow> y \<in> set (fs @ [x])" if d: "elts q y = Some d" for y d
  proof (cases "y = x")
    case True
    then have "d = e\<lparr>pe_next := NULL, is_on_free_list := True\<rparr>" using d q(3) by simp
    then show ?thesis using True by simp
  next
    case False
    then obtain d0 where "elts p y = Some d0" "is_on_free_list d0 = is_on_free_list d"
      using q(4) [OF False] d by (cases "elts p y") (auto, metis pool_elt.ext_inject pool_elt.surjective pool_elt.update_convs(1))
    then show ?thesis using k(1) False by (auto simp: free_ok_def)
  qed
  have used: "in_use q y" if "in_use p y" "y \<noteq> x" for y
  proof -
    from that(1) obtain d where d: "elts p y = Some d" "\<not> is_on_free_list d" "y \<noteq> NULL" by (auto simp: in_use_def)
    have "y \<in> dom (elts q) \<longleftrightarrow> y \<in> dom (elts p)"
      by (rule map_option_dom [where f = "pe_next_update (\<lambda>_. NULL)"]) (rule q(4) [OF that(2)])
    then have "y \<in> dom (elts q)" using d(1) by blast
    then obtain d' where d': "elts q y = Some d'" by blast
    moreover have "y \<notin> set fs" using k(1) d by (auto simp: free_ok_def)
    ultimately show ?thesis using marks [OF d'] that(2) d(3) by (simp add: in_use_def)
  qed
  obtain m l c t where qf: "q = p1\<lparr>elts := m, free_list := l, free_count := c, free_list_tail := t\<rparr>" using q(6) by blast
  have same: "calls q = calls p1" "socks q = socks p1" "pkt_count q = pkt_count p1" "active_rqes q = active_rqes p1"
    "active_xqes q = active_xqes p1" "max_pkt_count q = max_pkt_count p1" "reservations q = reservations p1"
    "srv_resv_avail q = srv_resv_avail p1" "resvs_ok lk q = resvs_ok lk p1"
    "pkt_waiters_head q = pkt_waiters_head p1" "pkt_waiters_tail q = pkt_waiters_tail p1" "rsv_waiters_head q = rsv_waiters_head p1"
    "rsv_waiters_tail q = rsv_waiters_tail p1"
    unfolding qf by (simp_all add: resvs_ok_def)
  have b: "avail p + unat (active_rqes p) + unat (active_xqes p) = unat (max_pkt_count p)" "unat (max_pkt_count p) < 2 ^ 31"
    using k(2) by (simp_all add: counts_ok_def)
  have fcb: "unat (free_count p1) < 2 ^ 31" using b f1(4) by (simp add: avail_def)
  then have uf: "unat (free_count q) = length fs + 1" unfolding q(5) using fc(2) by (simp add: unat_add_mod)
  have av: "avail q = avail p + 1" using uf fc(2) same(3) f1(4) by (simp add: avail_def)
  have "counts_ok q" using b av f1(7,13) same unfolding counts_ok_def by simp
  moreover have "free_ok q (fs @ [x])" using q(2) uf marks by (simp add: free_ok_def)
  moreover have "resvs_ok lk q" using k(3) f1(6) same by simp
  moreover have w: "calls q = calls p" "pkt_waiters_head q = pkt_waiters_head p" "pkt_waiters_tail q = pkt_waiters_tail p"
    "rsv_waiters_head q = rsv_waiters_head p" "rsv_waiters_tail q = rsv_waiters_tail p" using same f1 by simp_all
  moreover have "socks_ok q" using k(6) used x same(2) f1(3) unfolding socks_ok_def returnable_def by metis
  ultimately have "pool_ok lk q (fs @ [x]) W" "same_refs p q" unfolding pool_ok_def using k(4,5) waiters_same [OF w] by simp_all
  moreover have "elts q y = elts p y" if "in_use p y \<and> y \<noteq> x" for y
  proof -
    have "y \<notin> set fs" using that k(1) by (auto simp: in_use_def free_ok_def)
    then show ?thesis using q(7) that by blast
  qed
  moreover have "eget x p1 = Some e" using e f1(1) by (simp add: eget_def)
  ultimately show ?thesis using q(1) e(2) w(1) same f1 av by auto
qed

text \<open>The part both ways of giving something back share.\<close>

definition wake_scan :: "(dg_pool \<Rightarrow> dg_pool) \<Rightarrow> addr \<Rightarrow> dg_pool \<Rightarrow> dg_pool option" where
  "wake_scan conc call q = (if rsv_waiters_head q \<noteq> NULL \<or> pkt_waiters_head q \<noteq> NULL then scan_waiter_lists conc call q else Some q)"

lemma heads_NULL:
  assumes "pool_ok lk q fs W"
  shows "rsv_waiters_head q = NULL \<longleftrightarrow> W Rsv_waiters = []" "pkt_waiters_head q = NULL \<longleftrightarrow> W Pkt_waiters = []"
proof -
  have n: "nseg pkt_chain (calls q) (wq_head w q) (W w) NULL" for w
    using pool_okD(4) [OF assms] by (simp add: waiters_ok_def wait_ok_def)
  show "rsv_waiters_head q = NULL \<longleftrightarrow> W Rsv_waiters = []" "pkt_waiters_head q = NULL \<longleftrightarrow> W Pkt_waiters = []"
    using nseg_NULL_iff [OF n [of Rsv_waiters]] nseg_NULL_iff [OF n [of Pkt_waiters]] by simp_all
qed

lemma wake_scan_none:
  assumes "pool_ok lk q fs W" "next_waiter q W = None"
  shows "wake_scan conc call q = Some q"
  using scan_none [OF assms] by (simp add: wake_scan_def)

lemma wake_scan_some:
  assumes "pool_ok lk q fs W" "next_waiter q W = Some y"
  shows "wake_scan conc call q = scan_waiter_lists conc call q"
proof -
  have "W Rsv_waiters \<noteq> [] \<or> W Pkt_waiters \<noteq> []" using assms(2) by (auto simp: next_waiter_def split: if_splits)
  then show ?thesis using heads_NULL [OF assms(1)] by (simp add: wake_scan_def)
qed

lemma wake_scan_ok:
  assumes "pool_ok lk q fs W" "conc_ok exact conc"
  shows "\<exists>p' k fs' W'. wake_scan conc call q = Some p' \<and> pool_ok k p' fs' W' \<and> leaks exact lk k \<and> same_refs q p'"
proof (cases "rsv_waiters_head q \<noteq> NULL \<or> pkt_waiters_head q \<noteq> NULL")
  case True
  then show ?thesis using scan_ok [OF assms, of call] by (simp add: wake_scan_def)
next
  case False
  then have "wake_scan conc call q = Some q" by (simp add: wake_scan_def)
  then show ?thesis using assms(1) leaks_refl same_refs_refl by blast
qed

text \<open>Who is woken: the outcome of \<open>wake_scan\<close>, when nothing else runs.\<close>

definition woken :: "dg_pool \<Rightarrow> (waitq \<Rightarrow> addr list) \<Rightarrow> (waitq \<Rightarrow> addr list) \<Rightarrow> dg_pool \<Rightarrow> bool" where
  "woken q W W' p' \<longleftrightarrow> (case next_waiter q W of
     None \<Rightarrow> W' = W \<and> pool_plain p' = pool_plain q
   | Some y \<Rightarrow> W' = W(serving W := remove1 y (W (serving W))) \<and>
       (\<exists>c. pool_plain q y = Some c \<and> pool_plain p' = (pool_plain q)(y \<mapsto> c\<lparr>pc_signals := Suc (pc_signals c)\<rparr>)))"

lemma wake_scan_woken:
  assumes "pool_ok lk q fs W"
  shows "\<exists>p' W'. wake_scan id call q = Some p' \<and> pool_ok lk p' fs W' \<and> pool_core p' = pool_core q \<and> woken q W W' p'"
proof (cases "next_waiter q W")
  case None
  then show ?thesis using wake_scan_none [OF assms None, of id call] assms
    by (intro exI [of _ q] exI [of _ W]) (simp add: woken_def)
next
  case (Some y)
  then show ?thesis using wake_scan_some [OF assms Some, of id call] scan_wakes [OF assms Some, of call]
    by (fastforce simp: woken_def)
qed

lemma signal_ok:
  assumes ok: "pool_ok lk p fs W" and c: "cget x p = Some c"
  shows "\<exists>p'. pool_call_signal x p = Some p' \<and> pool_ok lk p' fs W \<and> same_refs p p' \<and> pool_core p' = pool_core p \<and>
    pool_plain p' = (pool_plain p)(x \<mapsto> (plain c)\<lparr>pc_signals := Suc (pc_signals c)\<rparr>)"
proof -
  have cx: "calls p x = Some c" "x \<noteq> NULL" using c by (simp_all add: cget_iff)
  let ?d = "c\<lparr>pc_signals := Suc (pc_signals c)\<rparr>"
  define p1 where "p1 = p\<lparr>calls := (calls p)(x \<mapsto> ?d), reservations := reservations p, srv_resv_avail := srv_resv_avail p\<rparr>"
  have u: "pc_signals_update Suc c = ?d" by (cases c) simp
  have "held ?d = held c" by (simp add: held_def owner_def)
  then have "pool_ok lk p1 fs W" "same_refs p p1" using call_upd_ok [OF ok cx(1) p1_def] pool_okD(3) [OF ok] by (simp_all add: resvs_ok_def)
  moreover have "pool_call_signal x p = Some p1" using cx by (simp add: pool_call_signal_def cset_def cget_def p1_def u)
  moreover have "pool_core p1 = pool_core p" "pool_plain p1 = (pool_plain p)(x \<mapsto> (plain c)\<lparr>pc_signals := Suc (pc_signals c)\<rparr>)"
    by (simp_all add: p1_def pool_core_def pool_plain_def fun_eq_iff plain_def)
  ultimately show ?thesis by blast
qed

lemma pkt_free_step:
  assumes ok: "pool_ok lk p fs W" and x: "returnable p x" and ol: "one_less p p1" and call: "call = NULL \<or> cget call p \<noteq> None"
  shows "\<exists>q. pool_ok lk q (fs @ [x]) W \<and> same_refs p q \<and> calls q = calls p \<and> socks q = socks p \<and> avail q = avail p + 1 \<and>
    (\<forall>y. in_use p y \<and> y \<noteq> x \<longrightarrow> elts q y = elts p y) \<and> active_xqes q = active_xqes p1 \<and> active_rqes q = active_rqes p1 \<and>
    unat (srv_resv_avail q) = unat (srv_resv_avail p) + min (5 - unat (srv_resv_avail p)) ((avail p + 1 - unat (reservations p)) div 3) \<and>
    pkt_free conc x call p1 = map_option UPDATE_RATIONING_STATE (if RPC_DG_PKT_RATIONING q then
        if call \<noteq> NULL \<and> is_in_pkt_chain (the (calls p call)) \<and> pc_xq_head (the (calls p call)) = NULL
        then do { q \<leftarrow> dequeue_pool_waiter call Pkt_waiters q; pool_call_signal call q } else Some q
      else wake_scan conc call q)"
proof -
  from free_put_ok [OF ok x ol] obtain e q0 where q0: "eget x p1 = Some e" "\<not> is_on_free_list e" "free_list_put x p1 = Some q0"
    "pool_ok lk q0 (fs @ [x]) W" "same_refs p q0" "calls q0 = calls p" "socks q0 = socks p" "avail q0 = avail p + 1"
    "reservations q0 = reservations p" "srv_resv_avail q0 = srv_resv_avail p"
    "\<forall>y. in_use p y \<and> y \<noteq> x \<longrightarrow> elts q0 y = elts p y" "active_xqes q0 = active_xqes p1" "active_rqes q0 = active_rqes p1" by blast
  define q where "q = reclaim_resvs q0"
  have q: "pool_ok lk q (fs @ [x]) W" "resv_only q0 q" using reclaim_pool_ok [OF q0(4)] by (simp_all add: q_def)
  note f = resv_only_fields [OF q(2)]
  have sr: "same_refs p q" using q0(5) f(8) by (simp add: same_refs_def)
  have srv: "unat (srv_resv_avail q) = unat (srv_resv_avail p) + min (5 - unat (srv_resv_avail p)) ((avail p + 1 - unat (reservations p)) div 3)"
    using reclaim_ok [OF pool_okD(2,3) [OF q0(4)]] unfolding q_def [symmetric] q0(8-10) by blast
  have cg: "cget call q = cget call p" using f(8) q0(6) by (simp add: cget_def)
  have "pkt_free conc x call p1 = map_option UPDATE_RATIONING_STATE (if RPC_DG_PKT_RATIONING q then
        if call \<noteq> NULL \<and> is_in_pkt_chain (the (calls p call)) \<and> pc_xq_head (the (calls p call)) = NULL
        then do { q \<leftarrow> dequeue_pool_waiter call Pkt_waiters q; pool_call_signal call q } else Some q
      else wake_scan conc call q)"
  proof -
    have b: "(m \<bind> (\<lambda>p. Some (UPDATE_RATIONING_STATE p))) = map_option UPDATE_RATIONING_STATE m" for m
      by (cases m) simp_all
    have "pkt_free conc x call p1 = map_option UPDATE_RATIONING_STATE (if RPC_DG_PKT_RATIONING q then
        if call = NULL then Some q
        else do {
          c \<leftarrow> cget call q;
          if is_in_pkt_chain c \<and> pc_xq_head c = NULL
          then do { q \<leftarrow> dequeue_pool_waiter call Pkt_waiters q; pool_call_signal call q } else Some q }
      else wake_scan conc call q)"
      unfolding pkt_free_def q0(1) bind_simps if_not_P [OF q0(2)] q0(3) Let_def q_def [symmetric] wake_scan_def b ..
    also have "(if call = NULL then Some q
        else do {
          c \<leftarrow> cget call q;
          if is_in_pkt_chain c \<and> pc_xq_head c = NULL
          then do { q \<leftarrow> dequeue_pool_waiter call Pkt_waiters q; pool_call_signal call q } else Some q }) =
      (if call \<noteq> NULL \<and> is_in_pkt_chain (the (calls p call)) \<and> pc_xq_head (the (calls p call)) = NULL
        then do { q \<leftarrow> dequeue_pool_waiter call Pkt_waiters q; pool_call_signal call q } else Some q)"
      using call cg by (auto simp: cget_def)
    finally show ?thesis .
  qed
  moreover have "calls q = calls p" "socks q = socks p" "avail q = avail p + 1" "active_xqes q = active_xqes p1" "active_rqes q = active_rqes p1"
    "\<forall>y. in_use p y \<and> y \<noteq> x \<longrightarrow> elts q y = elts p y"
    unfolding f using q0(6-8,11-13) by blast+
  ultimately show ?thesis using q(1) sr srv by blast
qed

text \<open>Giving a packet back keeps the pool well formed, whatever the other threads do meanwhile.\<close>

lemma self_wake_ok:
  assumes ok: "pool_ok lk q fs W" and c: "cget x q = Some c"
  shows "\<exists>p' d. (do { q \<leftarrow> dequeue_pool_waiter x Pkt_waiters q; pool_call_signal x q }) = Some p' \<and>
    pool_ok lk p' fs (W(Pkt_waiters := remove1 x (W Pkt_waiters))) \<and> same_refs q p' \<and> pool_plain q x = Some d \<and>
    pool_plain p' = (pool_plain q)(x \<mapsto> d\<lparr>pc_signals := Suc (pc_signals d)\<rparr>) \<and> same_pkts q p' \<and> reservations p' = reservations q"
proof -
  from dequeue_pool_ok [OF ok, of x Pkt_waiters] obtain q1 where q1: "dequeue_pool_waiter x Pkt_waiters q = Some q1"
    "pool_ok lk q1 fs (W(Pkt_waiters := remove1 x (W Pkt_waiters)))" "same_refs q q1" "same_pkts q q1" "pool_plain q1 = pool_plain q"
    "reservations q1 = reservations q" by blast
  have "pool_plain q x = Some (plain c)" using c by (simp add: cget_iff pool_plain_def)
  then obtain c1 where c1: "calls q1 x = Some c1" "plain c1 = plain c"
    using q1(5) by (auto simp: pool_plain_def fun_eq_iff) (metis map_option_eq_Some)
  then have "cget x q1 = Some c1" using c by (simp add: cget_iff)
  from signal_ok [OF q1(2) this] obtain p' where p': "pool_call_signal x q1 = Some p'"
    "pool_ok lk p' fs (W(Pkt_waiters := remove1 x (W Pkt_waiters)))" "same_refs q1 p'" "pool_core p' = pool_core q1"
    "pool_plain p' = (pool_plain q1)(x \<mapsto> (plain c1)\<lparr>pc_signals := Suc (pc_signals c1)\<rparr>)" by blast
  have "pc_signals c1 = pc_signals (plain c)" using c1(2) by (metis plain_fields(9))
  moreover have "same_pkts q1 p'" "reservations p' = reservations q1"
    using pool_core_fields [OF p'(4)] core_ok(3) [OF p'(4)] by (simp_all add: same_pkts_def)
  ultimately show ?thesis using q1 p' same_refs_trans [OF q1(3)] same_pkts_trans [OF q1(4)] c1(2) \<open>pool_plain q x = Some (plain c)\<close>
    by (intro exI [of _ p'] exI [of _ "plain c"]) simp
qed

lemma pkt_free_ok:
  assumes ok: "pool_ok lk p fs W" and x: "returnable p x" and ol: "one_less p p1" and call: "call = NULL \<or> cget call p \<noteq> None"
    and conc: "conc_ok exact conc"
  shows "\<exists>p' k fs' W'. pkt_free conc x call p1 = Some p' \<and> pool_ok k p' fs' W' \<and> leaks exact lk k \<and> same_refs p p'"
proof -
  from pkt_free_step [OF ok x ol call, of conc] obtain q where q: "pool_ok lk q (fs @ [x]) W" "same_refs p q" "calls q = calls p" and
    s: "pkt_free conc x call p1 = map_option UPDATE_RATIONING_STATE (if RPC_DG_PKT_RATIONING q then
        if call \<noteq> NULL \<and> is_in_pkt_chain (the (calls p call)) \<and> pc_xq_head (the (calls p call)) = NULL
        then do { q \<leftarrow> dequeue_pool_waiter call Pkt_waiters q; pool_call_signal call q } else Some q
      else wake_scan conc call q)" by blast
  consider (self) "RPC_DG_PKT_RATIONING q" "call \<noteq> NULL \<and> is_in_pkt_chain (the (calls p call)) \<and> pc_xq_head (the (calls p call)) = NULL"
    | (idle) "RPC_DG_PKT_RATIONING q" "\<not> (call \<noteq> NULL \<and> is_in_pkt_chain (the (calls p call)) \<and> pc_xq_head (the (calls p call)) = NULL)"
    | (scan) "\<not> RPC_DG_PKT_RATIONING q" by blast
  then show ?thesis
  proof cases
    case self
    then obtain c where "cget call q = Some c" using call q(3) by (auto simp: cget_def)
    from self_wake_ok [OF q(1) this] obtain p' where "(do { q \<leftarrow> dequeue_pool_waiter call Pkt_waiters q; pool_call_signal call q }) = Some p'"
      "pool_ok lk p' (fs @ [x]) (W(Pkt_waiters := remove1 call (W Pkt_waiters)))" "same_refs q p'" by blast
    then show ?thesis using s self same_refs_trans [OF q(2)]
      by (intro exI [of _ "UPDATE_RATIONING_STATE p'"] exI [of _ lk] exI [of _ "fs @ [x]"] exI [of _ "W(Pkt_waiters := remove1 call (W Pkt_waiters))"]) simp
  next
    case idle
    then show ?thesis using s q
      by (intro exI [of _ "UPDATE_RATIONING_STATE q"] exI [of _ lk] exI [of _ "fs @ [x]"] exI [of _ W]) auto
  next
    case scan
    from wake_scan_ok [OF q(1) conc, of call] obtain p' k gs V where "wake_scan conc call q = Some p'" "pool_ok k p' gs V" "same_refs q p'" "leaks exact lk k"
      by blast
    then show ?thesis using s scan same_refs_trans [OF q(2)]
      by (intro exI [of _ "UPDATE_RATIONING_STATE p'"] exI [of _ k] exI [of _ gs] exI [of _ V]) simp
  qed
qed

end
