(* ===== verification/DgPoolRun.thy ===== *)
theory DgPoolRun
  imports DgPoolInv
begin

text \<open>
  The remaining operations of the packet pool: giving reservations up, changing the number of packets,
  starting and forking, giving back fragments, allocating elements.  \<open>pool_run\<close> is what the threads
  of the process do to the pool, in any order; every such run keeps the invariant.
\<close>


section \<open>Cancelling and resizing\<close>

lemma cancel_step:
  assumes ok: "pool_ok lk p fs W" and c: "cget x p = Some c" "owner c" "pc_n_resvs c \<noteq> 0"
  shows "\<exists>q. pool_ok lk q fs W \<and> same_refs p q \<and> same_pkts p q \<and> pool_plain q = (pool_plain p)(x \<mapsto> (plain c)\<lparr>pc_n_resvs := 0\<rparr>) \<and>
    unat (srv_resv_avail q) = unat (srv_resv_avail p)
      + min (5 - unat (srv_resv_avail p)) ((avail p - (unat (reservations p) - (unat (pc_n_resvs c) + 1))) div 3) \<and>
    rpc__dg_pkt_cancel_reservation conc x p = map_option UPDATE_RATIONING_STATE (wake_scan conc x q)"
proof -
  note k = pool_okD [OF ok]
  have cx: "calls p x = Some c" "x \<noteq> NULL" using c(1) by (simp_all add: cget_iff)
  let ?d = "c\<lparr>pc_n_resvs := 0\<rparr>" and ?h = "ucast (pc_n_resvs c) + 1 :: u32"
  have hh: "held c = unat (pc_n_resvs c) + 1" "held ?d = 0" using c(2,3) by (simp_all add: held_def)
  have h: "unat ?h = unat (pc_n_resvs c) + 1" using unat_u8_lt [of "pc_n_resvs c"] by (simp add: unat_add_mod)
  have fin: "finite (dom (calls p))" "unat (reservations p) \<le> unat (max_pkt_count p)" "unat (srv_resv_avail p) \<le> 5"
    "unat (reservations p) = lk + 2 + 3 * unat (srv_resv_avail p) + all_held (calls p)" using k(3) by (simp_all add: resvs_ok_def)
  have le: "held c \<le> all_held (calls p)" using all_held_upd [OF fin(1) cx(1), of ?d] hh(2) by simp
  have r: "unat (reservations p - ?h) = unat (reservations p) - (unat (pc_n_resvs c) + 1)"
    using le fin(4) hh(1) h by (simp add: unat_sub word_le_nat_alt)
  define p1 where "p1 = p\<lparr>calls := (calls p)(x \<mapsto> ?d), reservations := reservations p - ?h, srv_resv_avail := srv_resv_avail p\<rparr>"
  have p1: "pool_ok lk p1 fs W" "same_refs p p1"
    using call_upd_ok [OF ok cx(1) p1_def] fin le r hh by simp_all
  have s1: "same_pkts p p1" by (simp add: p1_def same_pkts_def avail_def)
  define q where "q = reclaim_resvs p1"
  have q: "pool_ok lk q fs W" "resv_only p1 q" using reclaim_pool_ok [OF p1(1)] by (simp_all add: q_def)
  note f = resv_only_fields [OF q(2)]
  have "unat (srv_resv_avail q) = unat (srv_resv_avail p) + min (5 - unat (srv_resv_avail p)) ((avail p - (unat (reservations p) - (unat (pc_n_resvs c) + 1))) div 3)"
    using reclaim_ok [OF pool_okD(2,3) [OF p1(1)]] s1 r unfolding q_def [symmetric] by (simp add: p1_def same_pkts_def)
  moreover have "rpc__dg_pkt_cancel_reservation conc x p = map_option UPDATE_RATIONING_STATE (wake_scan conc x q)"
  proof -
    have b: "(m \<bind> (\<lambda>p. Some (UPDATE_RATIONING_STATE p))) = map_option UPDATE_RATIONING_STATE m" for m
      by (cases m) simp_all
    have o: "\<not> (pc_is_cbk c \<or> \<not> pc_is_server c \<and> pc_way c \<noteq> 0)" using c(2) by (simp add: owner_def)
    have s: "cset x (pc_n_resvs_update (\<lambda>_. 0)) (p\<lparr>reservations := reservations p - ?h\<rparr>) = Some p1"
      using cx by (simp add: cset_def cget_def p1_def resv_upd_order)
    show ?thesis
      unfolding rpc__dg_pkt_cancel_reservation_def c(1) bind_simps if_not_P [OF c(3)] if_not_P [OF o] s Let_def q_def [symmetric]
        wake_scan_def b ..
  qed
  moreover have "pool_plain q = (pool_plain p)(x \<mapsto> (plain c)\<lparr>pc_n_resvs := 0\<rparr>)"
    using f(8) by (simp add: pool_plain_def p1_def fun_eq_iff plain_def)
  moreover have "same_pkts p q" using s1 f(9,10,11) by (simp add: same_pkts_def)
  moreover have "same_refs p q" using p1(2) f(8) by (simp add: same_refs_def)
  ultimately show ?thesis using q(1) by blast
qed

lemma cancel_ok:
  assumes ok: "pool_ok lk p fs W" and c: "cget x p = Some c" and conc: "conc_ok exact conc"
  shows "\<exists>p' l fs' W'. rpc__dg_pkt_cancel_reservation conc x p = Some p' \<and> pool_ok l p' fs' W' \<and> leaks exact lk l \<and> same_refs p p'"
proof -
  have cx: "calls p x = Some c" "x \<noteq> NULL" using c by (simp_all add: cget_iff)
  consider "pc_n_resvs c = 0" | "pc_n_resvs c \<noteq> 0" "owner c" | "pc_n_resvs c \<noteq> 0" "\<not> owner c" by blast
  then show ?thesis
  proof cases
    case 1
    then have "rpc__dg_pkt_cancel_reservation conc x p = Some p" using c by (simp add: rpc__dg_pkt_cancel_reservation_def)
    then show ?thesis using ok leaks_refl same_refs_refl by blast
  next
    case 2
    from cancel_step [OF ok c 2(2,1), of conc] obtain q where q: "pool_ok lk q fs W" "same_refs p q"
      "rpc__dg_pkt_cancel_reservation conc x p = map_option UPDATE_RATIONING_STATE (wake_scan conc x q)" by blast
    from wake_scan_ok [OF q(1) conc, of x] obtain p' l gs V where "wake_scan conc x q = Some p'" "pool_ok l p' gs V" "leaks exact lk l" "same_refs q p'" by blast
    then show ?thesis using q same_refs_trans [OF q(2)]
      by (intro exI [of _ "UPDATE_RATIONING_STATE p'"] exI [of _ l] exI [of _ gs] exI [of _ V]) simp
  next
    case 3
    let ?d = "c\<lparr>pc_n_resvs := 0\<rparr>"
    define p1 where "p1 = p\<lparr>calls := (calls p)(x \<mapsto> ?d), reservations := reservations p, srv_resv_avail := srv_resv_avail p\<rparr>"
    have "held ?d = held c" using 3 by (simp add: held_def owner_def)
    then have "pool_ok lk p1 fs W" "same_refs p p1" using call_upd_ok [OF ok cx(1) p1_def] pool_okD(3) [OF ok] by (simp_all add: resvs_ok_def)
    moreover have "rpc__dg_pkt_cancel_reservation conc x p = Some p1"
      using 3 c cx by (auto simp: rpc__dg_pkt_cancel_reservation_def owner_def cset_def cget_def p1_def)
    ultimately show ?thesis using leaks_refl by blast
  qed
qed

text \<open>The pool grows by packets that may be allocated.\<close>

lemma set_max_ok:
  assumes ok: "pool_ok lk p fs W" and n: "3 * (unat a + unat b) + 2 < 2 ^ 31"
  shows "pool_ok lk (snd (rpc_mgmt_set_max_concurrency a b p)) fs W" "same_refs p (snd (rpc_mgmt_set_max_concurrency a b p))"
    "unat (max_pkt_count (snd (rpc_mgmt_set_max_concurrency a b p))) = max (unat (max_pkt_count p)) (3 * (unat a + unat b) + 2)"
    "avail (snd (rpc_mgmt_set_max_concurrency a b p)) = avail p + (3 * (unat a + unat b) + 2 - unat (max_pkt_count p))"
proof -
  note k = pool_okD [OF ok]
  have m: "max_resv_pkt p = 2" "unat (reservations p) \<le> unat (max_pkt_count p)" using k(3) by (simp_all add: resvs_ok_def)
  let ?n = "(max_resv_pkt p + 1) * (a + b) + RPC_C_DG_MAX_NUM_PKTS_IN_FRAG"
  have ab: "unat (a + b) = unat a + unat b" using n by (simp add: unat_add_mod)
  have n1: "unat ?n = 3 * (unat a + unat b) + 2"
    using n m(1) ab by (simp add: RPC_C_DG_MAX_NUM_PKTS_IN_FRAG_def unat_add_mod unat_mult_mod)
  have gt: "?n > max_pkt_count p \<longleftrightarrow> 3 * (unat a + unat b) + 2 > unat (max_pkt_count p)" by (simp only: word_less_nat_alt n1)
  have cnt: "avail p + unat (active_rqes p) + unat (active_xqes p) = unat (max_pkt_count p)" "unat (max_pkt_count p) < 2 ^ 31"
    using k(2) by (simp_all add: counts_ok_def)
  have "pool_ok lk (snd (rpc_mgmt_set_max_concurrency a b p)) fs W \<and> same_refs p (snd (rpc_mgmt_set_max_concurrency a b p)) \<and>
    unat (max_pkt_count (snd (rpc_mgmt_set_max_concurrency a b p))) = max (unat (max_pkt_count p)) (3 * (unat a + unat b) + 2) \<and>
    avail (snd (rpc_mgmt_set_max_concurrency a b p)) = avail p + (3 * (unat a + unat b) + 2 - unat (max_pkt_count p))"
  proof (cases "3 * (unat a + unat b) + 2 > unat (max_pkt_count p)")
    case False
    then show ?thesis using gt ok by (simp add: rpc_mgmt_set_max_concurrency_def Let_def)
  next
    case True
    define q where "q = p\<lparr>pkt_count := pkt_count p + (?n - max_pkt_count p), max_pkt_count := ?n\<rparr>"
    have e: "snd (rpc_mgmt_set_max_concurrency a b p) = q" using True gt by (simp add: rpc_mgmt_set_max_concurrency_def Let_def q_def)
    have d: "unat (?n - max_pkt_count p) = 3 * (unat a + unat b) + 2 - unat (max_pkt_count p)"
      using True n1 by (simp add: unat_sub word_le_nat_alt)
    have pc: "unat (pkt_count q) = unat (pkt_count p) + (3 * (unat a + unat b) + 2 - unat (max_pkt_count p))"
      using cnt n True d by (simp add: q_def unat_add_mod avail_def)
    have av: "avail q = avail p + (3 * (unat a + unat b) + 2 - unat (max_pkt_count p))"
      unfolding avail_def pc by (simp add: q_def)
    have mx: "unat (max_pkt_count q) = 3 * (unat a + unat b) + 2" using n1 by (simp add: q_def)
    have "counts_ok q" unfolding counts_ok_def av mx using cnt n True by (simp add: q_def)
    moreover have "resvs_ok lk q" unfolding resvs_ok_def mx using k(3) True by (simp add: q_def resvs_ok_def)
    moreover have "free_ok q fs = free_ok p fs" "socks_ok q = socks_ok p"
      by (simp_all add: q_def free_ok_def free_chain_def socks_ok_def in_use_def)
    moreover have "waiters_ok q W = waiters_ok p W" "refs_ok q = refs_ok p" "same_refs p q"
      by (rule waiters_same; simp add: q_def)+
    ultimately have "pool_ok lk q fs W" "same_refs p q" using k by (simp_all add: pool_ok_def)
    then show ?thesis unfolding e using av mx True by simp
  qed
  then show "pool_ok lk (snd (rpc_mgmt_set_max_concurrency a b p)) fs W" "same_refs p (snd (rpc_mgmt_set_max_concurrency a b p))"
    "unat (max_pkt_count (snd (rpc_mgmt_set_max_concurrency a b p))) = max (unat (max_pkt_count p)) (3 * (unat a + unat b) + 2)"
    "avail (snd (rpc_mgmt_set_max_concurrency a b p)) = avail p + (3 * (unat a + unat b) + 2 - unat (max_pkt_count p))" by blast+
qed

lemma get_max_val:
  assumes "pool_ok lk p fs W"
  shows "unat (rpc_mgmt_get_max_concurrency p) = (unat (max_pkt_count p) - 2) div 3"
proof -
  have m: "max_resv_pkt p = 2" "2 \<le> unat (max_pkt_count p)" using pool_okD(3) [OF assms] by (simp_all add: resvs_ok_def)
  have "unat (max_pkt_count p - 2) = unat (max_pkt_count p) - 2" using m(2) by (simp add: unat_sub word_le_nat_alt)
  then show ?thesis using m(1) by (simp add: rpc_mgmt_get_max_concurrency_def RPC_C_DG_MAX_NUM_PKTS_IN_FRAG_def unat_div)
qed


section \<open>Starting up and forking\<close>

lemma pool_fill_ok:
  assumes "free_ok p fs" "distinct news" "\<forall>x\<in>set news. fresh x p" "n \<le> length news" "n \<le> unat (pkt_count p)" "length fs + n < 2 ^ 31"
  shows "\<exists>p'. pool_fill news blank n p = Some p' \<and> free_ok p' (rev (take n news) @ fs) \<and> avail p' = avail p \<and> pool_rest p' = pool_rest p \<and>
    (\<forall>x. x \<notin> set (take n news) \<longrightarrow> elts p' x = elts p x)"
  using assms
proof (induction n arbitrary: p fs news)
  case (Suc n)
  then obtain x xs where news: "news = x # xs" by (cases news) auto
  have f: "nseg pe_next (elts p) (free_list p) fs NULL" "distinct fs" "free_list_tail p = last_addr fs"
    "free_count p = of_nat (length fs)" "unat (free_count p) = length fs"
    "\<And>x e. elts p x = Some e \<Longrightarrow> is_on_free_list e \<longleftrightarrow> x \<in> set fs"
    using Suc.prems(1) unfolding free_ok_def free_chain_def by blast+
  have x: "x \<noteq> NULL" "elts p x = None" "x \<notin> set xs" using Suc.prems(2,3) news by (simp_all add: fresh_def)
  have xn: "x \<notin> set fs" using nseg_elem [OF f(1), of x] x(2) by auto
  have h: "free_list_tail p = NULL \<longleftrightarrow> fs = []" unfolding f(3)
    using nseg_elem [OF f(1)] by (cases fs rule: rev_cases) (auto simp: last_addr_def)
  let ?e = "blank\<lparr>pe_next := free_list p, is_on_free_list := True\<rparr>"
  define q where "q = p\<lparr>elts := (elts p)(x \<mapsto> ?e), free_list := x,
    free_list_tail := (if free_list_tail p = NULL then x else free_list_tail p), free_count := free_count p + 1, pkt_count := pkt_count p - 1\<rparr>"
  have c: "unat (free_count p + 1) = length fs + 1" using f(5) Suc.prems(6) by (simp add: unat_add_mod)
  have pc: "unat (pkt_count p - 1) = unat (pkt_count p) - 1" using Suc.prems(5) by (simp add: unat_sub word_le_nat_alt)
  have "free_chain q (x # fs)"
    unfolding free_chain_def using f x xn h by (simp add: q_def last_addr_def)
  moreover have "is_on_free_list d \<longleftrightarrow> y \<in> set (x # fs)" if "elts q y = Some d" for y d
    using that f(6) [of y d] xn by (cases "y = x") (auto simp: q_def)
  ultimately have fq: "free_ok q (x # fs)" using c by (simp add: free_ok_def q_def)
  have fr: "\<forall>y\<in>set xs. fresh y q" using Suc.prems(3) x(3) news by (auto simp: fresh_def q_def)
  have d: "distinct xs" "n \<le> length xs" "n \<le> unat (pkt_count q)" "length (x # fs) + n < 2 ^ 31"
    using Suc.prems(2,4,5,6) news pc by (simp_all add: q_def)
  from Suc.IH [OF fq d(1) fr d(2-4)] obtain p' where p': "pool_fill xs blank n q = Some p'"
    "free_ok p' (rev (take n xs) @ x # fs)" "avail p' = avail q" "pool_rest p' = pool_rest q" "\<forall>y. y \<notin> set (take n xs) \<longrightarrow> elts p' y = elts q y"
    by blast
  have "avail q = avail p" using c pc f(5) Suc.prems(5) by (simp add: avail_def q_def)
  moreover have "pool_rest q = pool_rest p" by (simp add: q_def pool_rest_def)
  moreover have "elts q y = elts p y" if "y \<noteq> x" for y using that by (simp add: q_def)
  moreover have "pool_fill news blank (Suc n) p = pool_fill xs blank n q" using x(1) news by (simp add: q_def)
  ultimately show ?case using p' news by (intro exI [of _ p']) simp
qed simp

text \<open>The pool as the loader leaves it: no packets, calls or sockets.\<close>

definition pool_blank :: "dg_pool \<Rightarrow> bool" where
  "pool_blank p \<longleftrightarrow> elts p = Map.empty \<and> calls p = Map.empty \<and> socks p = Map.empty"

lemma pool_init_ok:
  assumes b: "pool_blank p" and n: "distinct news" "NULL \<notin> set news" "length news = 48"
  shows "\<exists>p'. rpc__dg_pkt_pool_init news blank p = Some p' \<and> pool_ok 0 p' (rev news) (\<lambda>_. []) \<and> avail p' = 100000 \<and>
    max_pkt_count p' = 100000 \<and> reservations p' = 17 \<and> srv_resv_avail p' = 5 \<and> calls p' = Map.empty \<and> socks p' = Map.empty \<and>
    (\<forall>x. x \<notin> set news \<longrightarrow> elts p' x = None)"
proof -
  define q where "q = p\<lparr>max_pkt_count := RPC_C_DG_PKT_MAX, pkt_count := RPC_C_DG_PKT_MAX, active_rqes := 0, active_xqes := 0,
            free_count := 0, free_list := NULL, free_list_tail := NULL,
            max_resv_pkt := RPC_C_DG_MAX_NUM_PKTS_IN_FRAG,
            reservations := RPC_C_DG_MAX_NUM_PKTS_IN_FRAG
              + (RPC_C_DG_MAX_NUM_PKTS_IN_FRAG + 1) * RPC_C_DG_PKT_INIT_SERVER_RESVS,
            srv_resv_avail := RPC_C_DG_PKT_INIT_SERVER_RESVS,
            pkt_waiters_head := NULL, rsv_waiters_head := NULL\<rparr>"
  have c48: "unat (min RPC_C_DG_PKT_INIT_CNT (pkt_count q)) = 48" by (simp add: q_def pool_consts min_def)
  have e: "rpc__dg_pkt_pool_init news blank p = pool_fill news blank 48 q"
    unfolding rpc__dg_pkt_pool_init_def Let_def q_def [symmetric] c48 ..
  have f: "free_ok q []" using b by (simp add: free_ok_def free_chain_def q_def pool_blank_def last_addr_def)
  have "\<forall>x\<in>set news. x \<noteq> NULL" using n(2) by metis
  then have fr: "\<forall>x\<in>set news. fresh x q" using b by (simp add: fresh_def q_def pool_blank_def)
  have av: "avail q = 100000" by (simp add: avail_def q_def pool_consts)
  have "(48 :: nat) \<le> unat (pkt_count q)" by (simp add: q_def pool_consts)
  from pool_fill_ok [OF f n(1) fr _ this, of blank] n(3) obtain p' where p': "pool_fill news blank 48 q = Some p'"
    "free_ok p' (rev (take 48 news) @ [])" "avail p' = avail q" "pool_rest p' = pool_rest q"
    "\<forall>x. x \<notin> set (take 48 news) \<longrightarrow> elts p' x = elts q x" by auto
  note r = pool_rest_fields [OF p'(4)]
  have "counts_ok p'" unfolding counts_ok_def p'(3) av r by (simp add: q_def pool_consts)
  moreover have "resvs_ok 0 p'" unfolding resvs_ok_def r using b by (simp add: q_def pool_consts pool_blank_def all_held_def)
  moreover have h: "wq_head w p' = NULL" for w using r by (cases w) (simp_all add: q_def)
  have "waiters_ok p' (\<lambda>_. [])" unfolding waiters_ok_def wait_ok_def using h r b by (simp add: q_def pool_blank_def)
  moreover have "refs_ok p'" "socks_ok p'" using r b by (simp_all add: refs_ok_def socks_ok_def q_def pool_blank_def)
  ultimately have "pool_ok 0 p' (rev news) (\<lambda>_. [])" using p'(2) n(3) by (simp add: pool_ok_def)
  moreover have "max_pkt_count p' = 100000" "reservations p' = 17" "srv_resv_avail p' = 5" "calls p' = Map.empty" "socks p' = Map.empty"
    using r b by (simp_all add: q_def pool_consts pool_blank_def)
  moreover have "\<forall>x. x \<notin> set news \<longrightarrow> elts p' x = None" using p'(5) n(3) b by (simp add: q_def pool_blank_def)
  ultimately show ?thesis using e p'(1,3) av by auto
qed

lemma fork_free_ok:
  "nseg pe_next (elts p) x fs NULL \<Longrightarrow> distinct fs \<Longrightarrow>
   \<exists>m. fork_free (length fs) x p = Some (p\<lparr>elts := m\<rparr>) \<and> (\<forall>y. m y = (if y \<in> set fs then None else elts p y))"
proof (induction fs arbitrary: x p)
  case Nil
  then show ?case by (intro exI [of _ "elts p"]) simp
next
  case (Cons y fs)
  then obtain e where e: "x = y" "y \<noteq> NULL" "elts p y = Some e" "nseg pe_next (elts p) (pe_next e) fs NULL" "y \<notin> set fs" by auto
  let ?q = "p\<lparr>elts := (elts p)(y := None)\<rparr>"
  have "nseg pe_next (elts ?q) (pe_next e) fs NULL" using e(4,5) by simp
  from Cons.IH [OF this] Cons.prems(2) obtain m where m: "fork_free (length fs) (pe_next e) ?q = Some (?q\<lparr>elts := m\<rparr>)"
    "\<forall>z. m z = (if z \<in> set fs then None else elts ?q z)" by auto
  have "\<forall>z. m z = (if z \<in> set (y # fs) then None else elts p z)" using m(2) by auto
  moreover have "fork_free (length (y # fs)) x p = Some (p\<lparr>elts := m\<rparr>)" using m(1) e(1-3) by (simp add: eget_def)
  ultimately show ?case by blast
qed


section \<open>Giving fragments back\<close>

text \<open>The other threads leave the elements \<open>xs\<close> alone, and give back only what is theirs.\<close>

definition leaves :: "addr list \<Rightarrow> (dg_pool \<Rightarrow> dg_pool) \<Rightarrow> bool" where
  "leaves xs conc \<longleftrightarrow> (\<forall>q. (\<forall>x\<in>set xs. elts (conc q) x = elts q x \<and> (returnable q x \<longrightarrow> returnable (conc q) x)) \<and>
     (\<forall>n\<le>length xs. (n \<le> unat (active_xqes q) \<longrightarrow> n \<le> unat (active_xqes (conc q))) \<and>
       (n \<le> unat (active_rqes q) \<longrightarrow> n \<le> unat (active_rqes (conc q)))) \<and>
     (\<forall>k. map_option sk_rqe (socks (conc q) k) = map_option sk_rqe (socks q k)))"

lemma leaves_id [simp]: "leaves xs id"
  by (simp add: leaves_def)

lemma leaves_tl: "leaves (x # xs) conc \<Longrightarrow> leaves xs conc"
  by (simp add: leaves_def)

text \<open>What survives when another packet is given back.\<close>

definition spared :: "addr list \<Rightarrow> dg_pool \<Rightarrow> dg_pool \<Rightarrow> bool" where
  "spared xs p p' \<longleftrightarrow> (\<forall>x\<in>set xs. elts p' x = elts p x \<and> (returnable p x \<longrightarrow> returnable p' x)) \<and>
     (\<forall>n\<le>length xs. (n \<le> unat (active_xqes p) \<longrightarrow> n \<le> unat (active_xqes p')) \<and>
       (n \<le> unat (active_rqes p) \<longrightarrow> n \<le> unat (active_rqes p'))) \<and>
     (\<forall>k. map_option sk_rqe (socks p' k) = map_option sk_rqe (socks p k))"

lemma spared_core:
  assumes "pool_core p' = pool_core p"
  shows "spared xs p p'"
  using pool_core_fields [OF assms] by (simp add: spared_def returnable_def in_use_def)

lemma spared_trans: "spared xs p q \<Longrightarrow> spared xs q r \<Longrightarrow> spared xs p r"
  unfolding spared_def by (metis (no_types, lifting))

lemma spared_update [simp]: "spared xs p (UPDATE_RATIONING_STATE q) = spared xs p q"
  by (simp add: spared_def returnable_def in_use_def UPDATE_RATIONING_STATE_def)

lemma spared_leaves: "leaves xs conc \<Longrightarrow> spared xs q (conc q)"
  by (simp add: leaves_def spared_def)

lemma scan_spared:
  assumes ok: "pool_ok lk p fs W" and conc: "conc_ok exact conc" "leaves xs conc" and s: "scan_waiter_lists conc call p = Some p'"
  shows "spared xs p p'"
proof (cases "next_waiter p W")
  case None
  then show ?thesis using scan_none [OF ok None, of conc call] s spared_core by auto
next
  case (Some x)
  from scan_cases [OF ok Some conc(1), of call] obtain p2 q c' where p2: "pool_core p2 = pool_core p"
    "pool_ok lk p2 fs (W(serving W := remove1 x (W (serving W))))" "q = (if call \<noteq> x then conc p2 else p2)" and
    p': "\<And>k gs V. pool_ok k q gs V \<Longrightarrow> \<exists>p'. scan_waiter_lists conc call p = Some p' \<and> pool_ok k p' gs V \<and> pool_core p' = pool_core q \<and>
      calls p' = (calls q)(x \<mapsto> c'\<lparr>pc_signals := Suc (pc_signals c'), pc_refcnt := pc_refcnt c' - 1\<rparr>)" by blast
  from conc_okD [OF conc(1) p2(2), of "call \<noteq> x"] obtain l gs V where "pool_ok l q gs V" unfolding p2(3) by blast
  from p' [OF this] s have "pool_core p' = pool_core q" by auto
  moreover have "spared xs p2 q" unfolding p2(3) using spared_leaves [OF conc(2)] spared_core [of p2 p2] by simp
  ultimately show ?thesis using spared_core [OF p2(1)] spared_core spared_trans by blast
qed

lemma pkt_free_spared:
  assumes ok: "pool_ok lk p fs W" and x: "returnable p x" and ol: "one_less p p1" and call: "call = NULL \<or> cget call p \<noteq> None"
    and conc: "conc_ok exact conc" "leaves xs conc" and xs: "x \<notin> set xs" "\<forall>y\<in>set xs. in_use p y"
    and s: "pkt_free conc x call p1 = Some p'"
  shows "\<forall>y\<in>set xs. elts p' y = elts p y \<and> (returnable p y \<longrightarrow> returnable p' y)"
    "\<forall>n\<le>length xs. (n \<le> unat (active_xqes p1) \<longrightarrow> n \<le> unat (active_xqes p')) \<and> (n \<le> unat (active_rqes p1) \<longrightarrow> n \<le> unat (active_rqes p'))"
    "\<forall>k. map_option sk_rqe (socks p' k) = map_option sk_rqe (socks p k)"
proof -
  from pkt_free_step [OF ok x ol call, of conc] obtain q where q: "pool_ok lk q (fs @ [x]) W" "calls q = calls p" "socks q = socks p"
    "\<forall>y. in_use p y \<and> y \<noteq> x \<longrightarrow> elts q y = elts p y" "active_xqes q = active_xqes p1" "active_rqes q = active_rqes p1" and
    f: "pkt_free conc x call p1 = map_option UPDATE_RATIONING_STATE (if RPC_DG_PKT_RATIONING q then
        if call \<noteq> NULL \<and> is_in_pkt_chain (the (calls p call)) \<and> pc_xq_head (the (calls p call)) = NULL
        then do { q \<leftarrow> dequeue_pool_waiter call Pkt_waiters q; pool_call_signal call q } else Some q
      else wake_scan conc call q)" by blast
  have "spared xs q p'"
  proof (cases "RPC_DG_PKT_RATIONING q")
    case True
    show ?thesis
    proof (cases "call \<noteq> NULL \<and> is_in_pkt_chain (the (calls p call)) \<and> pc_xq_head (the (calls p call)) = NULL")
      case self: True
      from waiter_dequeue_ok [OF pool_okD(4,5) [OF q(1)], of call Pkt_waiters] obtain q1 where
        q1: "dequeue_pool_waiter call Pkt_waiters q = Some q1" "pool_core q1 = pool_core q" by blast
      then obtain p2 where p2: "pool_call_signal call q1 = Some p2" "p' = UPDATE_RATIONING_STATE p2"
        using f s True self by (cases "pool_call_signal call q1") auto
      then have "pool_core p2 = pool_core q1" by (auto simp: pool_call_signal_def cset_def bind_eq_Some_conv)
      then show ?thesis using p2(2) q1(2) spared_core by simp
    next
      case False
      then show ?thesis using f s True spared_core [of q q] by auto
    qed
  next
    case False
    then obtain p2 where "wake_scan conc call q = Some p2" "p' = UPDATE_RATIONING_STATE p2"
      using f s by (cases "wake_scan conc call q") auto
    then show ?thesis using scan_spared [OF q(1) conc] spared_core [of q q] by (auto simp: wake_scan_def split: if_splits)
  qed
  moreover have "returnable p y \<longrightarrow> returnable q y" "elts q y = elts p y" if "y \<in> set xs" for y
  proof -
    have y: "in_use p y" "y \<noteq> x" using xs that by auto
    then show "elts q y = elts p y" using q(4) by blast
    then show "returnable p y \<longrightarrow> returnable q y" using q(3) by (simp add: returnable_def in_use_def)
  qed
  ultimately show "\<forall>y\<in>set xs. elts p' y = elts p y \<and> (returnable p y \<longrightarrow> returnable p' y)"
    "\<forall>n\<le>length xs. (n \<le> unat (active_xqes p1) \<longrightarrow> n \<le> unat (active_xqes p')) \<and> (n \<le> unat (active_rqes p1) \<longrightarrow> n \<le> unat (active_rqes p'))"
    "\<forall>k. map_option sk_rqe (socks p' k) = map_option sk_rqe (socks p k)"
    unfolding spared_def q(3,5,6) by auto
qed

text \<open>A fragment: packets chained by \<open>more_data\<close> that can be given back.\<close>

definition fragment :: "dg_pool \<Rightarrow> addr \<Rightarrow> addr list \<Rightarrow> bool" where
  "fragment p x xs \<longleftrightarrow> nseg pe_more_data (elts p) x xs NULL \<and> distinct xs \<and> (\<forall>y\<in>set xs. returnable p y)"

lemma one_less_xqe: "0 < unat (active_xqes p) \<Longrightarrow> one_less p (p\<lparr>active_xqes := active_xqes p - 1\<rparr>)"
  by (auto simp: one_less_def)

lemma one_less_rqe: "0 < unat (active_rqes p) \<Longrightarrow> one_less p (p\<lparr>active_rqes := active_rqes p - 1\<rparr>)"
  by (auto simp: one_less_def)

lemma free_xqe_loop_ok:
  assumes "pool_ok lk p fs W" "fragment p x (x # xs)" "Suc (length xs) \<le> unat (active_xqes p)" "call = NULL \<or> cget call p \<noteq> None"
    "conc_ok exact conc" "leaves (x # xs) conc"
  shows "\<exists>p' l fs' W'. free_xqe_loop conc x call p = Some p' \<and> pool_ok l p' fs' W' \<and> leaks exact lk l \<and> same_refs p p'"
  using assms
proof (induction xs arbitrary: x p lk fs W)
  case (Cons y ys)
  from Cons.prems(2) obtain e where e: "elts p x = Some e" "x \<noteq> NULL" "x \<notin> set (y # ys)" "pe_more_data e = y" "y \<noteq> NULL"
    "nseg pe_more_data (elts p) y (y # ys) NULL" "distinct (y # ys)" "\<forall>z\<in>set (y # ys). returnable p z" "returnable p x"
    by (auto simp: fragment_def)
  have ol: "one_less p (p\<lparr>active_xqes := active_xqes p - 1\<rparr>)" using Cons.prems(3) by (intro one_less_xqe) simp
  from pkt_free_ok [OF Cons.prems(1) e(9) ol Cons.prems(4,5)] obtain p' l gs V where
    p': "pkt_free conc x call (p\<lparr>active_xqes := active_xqes p - 1\<rparr>) = Some p'" "pool_ok l p' gs V" "same_refs p p'" "leaks exact lk l" by blast
  have use: "\<forall>z\<in>set (y # ys). in_use p z" using e(8) by (simp add: returnable_def)
  note sp = pkt_free_spared [OF Cons.prems(1) e(9) ol Cons.prems(4,5) leaves_tl [OF Cons.prems(6)] e(3) use p'(1)]
  have "unat (active_xqes p - 1) = unat (active_xqes p) - 1" using Cons.prems(3) by (simp add: unat_sub word_le_nat_alt)
  then have act: "Suc (length ys) \<le> unat (active_xqes p')" using sp(2) Cons.prems(3) by simp
  have same: "\<And>z. z \<in> set (y # ys) \<Longrightarrow> elts p' z = elts p z" using sp(1) by blast
  have "nseg pe_more_data (elts p') y (y # ys) NULL = nseg pe_more_data (elts p) y (y # ys) NULL"
    by (rule nseg_cong) (simp add: same)
  then have frag: "fragment p' y (y # ys)" using e(6-8) sp(1) by (simp add: fragment_def)
  have call: "call = NULL \<or> cget call p' \<noteq> None" using Cons.prems(4) p'(3) by (auto simp: cget_def same_refs_def split: if_splits)
  from Cons.IH [OF p'(2) frag act call Cons.prems(5) leaves_tl [OF Cons.prems(6)]] obtain p2 l' gs V where
    "free_xqe_loop conc y call p' = Some p2" "pool_ok l' p2 gs V" "leaks exact l l'" "same_refs p' p2" by blast
  moreover have "free_xqe_loop conc x call p = free_xqe_loop conc y call p'"
    using e(1,2,4,5) p'(1) by (subst free_xqe_loop.simps) (simp add: eget_def)
  ultimately show ?case using same_refs_trans [OF p'(3)] leaks_trans [OF p'(4)] by auto
next
  case Nil
  from Nil.prems(2) obtain e where e: "elts p x = Some e" "x \<noteq> NULL" "pe_more_data e = NULL" "returnable p x" by (auto simp: fragment_def)
  have ol: "one_less p (p\<lparr>active_xqes := active_xqes p - 1\<rparr>)" using Nil.prems(3) by (intro one_less_xqe) simp
  from pkt_free_ok [OF Nil.prems(1) e(4) ol Nil.prems(4,5)] obtain p' l gs V where
    "pkt_free conc x call (p\<lparr>active_xqes := active_xqes p - 1\<rparr>) = Some p'" "pool_ok l p' gs V" "leaks exact lk l" "same_refs p p'" by blast
  then show ?case using e by (subst free_xqe_loop.simps) (simp add: eget_def, blast)
qed

text \<open>
  A received fragment: packets of the pool, and packets of private sockets, which become available
  there again.
\<close>

definition rqe_back :: "dg_pool \<Rightarrow> addr \<Rightarrow> bool" where
  "rqe_back p y \<longleftrightarrow> in_use p y \<and> (\<exists>e. elts p y = Some e \<and>
     (if pe_sock_ref e = NULL then returnable p y else (\<exists>k. socks p (pe_sock_ref e) = Some k \<and> sk_rqe k = y)))"

definition rqe_fragment :: "dg_pool \<Rightarrow> addr \<Rightarrow> addr list \<Rightarrow> bool" where
  "rqe_fragment p x xs \<longleftrightarrow> nseg pe_more_data (elts p) x xs NULL \<and> distinct xs \<and> (\<forall>y\<in>set xs. rqe_back p y)"

lemma rqe_back_same:
  assumes "elts p' y = elts p y" "returnable p y \<longrightarrow> returnable p' y" "\<forall>k. map_option sk_rqe (socks p' k) = map_option sk_rqe (socks p k)"
    "rqe_back p y"
  shows "rqe_back p' y"
proof -
  from assms(4) obtain e where e: "in_use p y" "elts p y = Some e"
    "if pe_sock_ref e = NULL then returnable p y else (\<exists>k. socks p (pe_sock_ref e) = Some k \<and> sk_rqe k = y)" by (auto simp: rqe_back_def)
  have u: "in_use p' y" using e(1) assms(1) by (simp add: in_use_def)
  show ?thesis
  proof (cases "pe_sock_ref e = NULL")
    case True
    then show ?thesis using e assms(1,2) u by (simp add: rqe_back_def)
  next
    case False
    then obtain k where "socks p (pe_sock_ref e) = Some k" "sk_rqe k = y" using e(3) by auto
    then obtain k' where "socks p' (pe_sock_ref e) = Some k'" "sk_rqe k' = y" using assms(3) [rule_format, of "pe_sock_ref e"] by auto
    then show ?thesis using e assms(1) u False by (simp add: rqe_back_def)
  qed
qed

text \<open>A change of one socket and of one element in use, which stays in use.\<close>

lemma sock_elt_ok:
  assumes ok: "pool_ok lk p fs W" and k: "socks p s = Some k" and x: "in_use p x" and e': "\<not> is_on_free_list e'"
    and k': "sk_xqe k' \<noteq> NULL \<longrightarrow> in_use p (sk_xqe k')" "sk_rqe k' \<noteq> NULL \<longrightarrow> in_use p (sk_rqe k')"
    and q: "q = p\<lparr>socks := (socks p)(s \<mapsto> k'), elts := (elts p)(x \<mapsto> e')\<rparr>"
  shows "pool_ok lk q fs W" "same_refs p q" "in_use q z = in_use p z" "avail q = avail p"
proof -
  note h = pool_okD [OF ok]
  have xn: "x \<notin> set fs" "x \<noteq> NULL" using x h(1) by (auto simp: in_use_def free_ok_def)
  have u: "in_use q z = in_use p z" for z using x e' xn by (auto simp: in_use_def q)
  then show "in_use q z = in_use p z" .
  have same: "calls q = calls p" "pkt_waiters_head q = pkt_waiters_head p" "pkt_waiters_tail q = pkt_waiters_tail p"
    "rsv_waiters_head q = rsv_waiters_head p" "rsv_waiters_tail q = rsv_waiters_tail p" by (simp_all add: q)
  have "counts_ok q = counts_ok p" "resvs_ok lk q = resvs_ok lk p" "avail q = avail p" by (simp_all add: q counts_ok_def resvs_ok_def avail_def)
  moreover have "free_ok q fs = free_ok (p\<lparr>elts := (elts p)(x \<mapsto> e')\<rparr>) fs" by (simp add: q free_ok_def free_chain_def)
  then have "free_ok q fs" using free_ok_upd [OF h(1) xn(1) e'] by simp
  moreover have "socks_ok q" unfolding socks_ok_def u using h(6) k' by (simp add: q socks_ok_def)
  ultimately show "pool_ok lk q fs W" "same_refs p q" "avail q = avail p"
    unfolding pool_ok_def using h waiters_same [OF same] by simp_all
qed

lemma sock_ok:
  assumes ok: "pool_ok lk p fs W" and k: "socks p s = Some k" and x: "in_use p x"
    and k': "sk_xqe k' \<noteq> NULL \<longrightarrow> in_use p (sk_xqe k')" "sk_rqe k' \<noteq> NULL \<longrightarrow> in_use p (sk_rqe k')"
    and q: "q = p\<lparr>socks := (socks p)(s \<mapsto> k')\<rparr>"
  shows "pool_ok lk q fs W" "same_refs p q"
proof -
  from x obtain e where e: "elts p x = Some e" "\<not> is_on_free_list e" by (auto simp: in_use_def)
  have "q = p\<lparr>socks := (socks p)(s \<mapsto> k'), elts := (elts p)(x \<mapsto> e)\<rparr>" using e(1) by (simp add: q fun_upd_idem)
  from sock_elt_ok [OF ok k x e(2) k' this] show "pool_ok lk q fs W" "same_refs p q" by blast+
qed

text \<open>Marking a private element available, and cutting its chain, concerns nothing else.\<close>

lemma available_ok:
  assumes ok: "pool_ok lk p fs W" and k: "socks p s = Some k" "s \<noteq> NULL" and y: "in_use p y" "elts p y = Some e"
  shows "\<exists>p1 p2. skset s (rqe_available_update (\<lambda>_. True)) p = Some p1 \<and>
    skget s p1 = Some (k\<lparr>rqe_available := True\<rparr>) \<and>
    eset y (pe_more_data_update (\<lambda>_. NULL)) p1 = Some p2 \<and> pool_ok lk p1 fs W \<and> pool_ok lk p2 fs W \<and> same_refs p p1 \<and> same_refs p p2 \<and>
    elts p1 = elts p \<and> active_rqes p2 = active_rqes p \<and> calls p2 = calls p \<and>
    (\<forall>z. z \<noteq> y \<longrightarrow> elts p2 z = elts p z \<and> (returnable p z \<longrightarrow> returnable p2 z)) \<and>
    (\<forall>t. map_option sk_rqe (socks p2 t) = map_option sk_rqe (socks p t))"
proof -
  let ?k = "k\<lparr>rqe_available := True\<rparr>"
  define p1 where "p1 = p\<lparr>socks := (socks p)(s \<mapsto> ?k)\<rparr>"
  define p2 where "p2 = p\<lparr>socks := (socks p)(s \<mapsto> ?k), elts := (elts p)(y \<mapsto> e\<lparr>pe_more_data := NULL\<rparr>)\<rparr>"
  have e: "y \<noteq> NULL" "\<not> is_on_free_list (e\<lparr>pe_more_data := NULL\<rparr>)" using y by (auto simp: in_use_def)
  have kk: "sk_xqe ?k \<noteq> NULL \<longrightarrow> in_use p (sk_xqe ?k)" "sk_rqe ?k \<noteq> NULL \<longrightarrow> in_use p (sk_rqe ?k)"
    using pool_okD(6) [OF ok] k(1) by (auto simp: socks_ok_def)
  note ok1 = sock_ok [OF ok k(1) y(1) kk p1_def] and ok2 = sock_elt_ok [OF ok k(1) y(1) e(2) kk p2_def]
  have r: "returnable p2 z" if "returnable p z" for z
    using that k(1) unfolding returnable_def ok2(3) by (auto simp: p2_def)
  have "skset s (rqe_available_update (\<lambda>_. True)) p = Some p1" "skget s p1 = Some ?k"
    using k by (simp_all add: skset_def skget_def p1_def)
  moreover have "eset y (pe_more_data_update (\<lambda>_. NULL)) p1 = Some p2" using y(2) e(1) by (simp add: eset_def eget_def p1_def p2_def)
  moreover have "\<forall>z. z \<noteq> y \<longrightarrow> elts p2 z = elts p z \<and> (returnable p z \<longrightarrow> returnable p2 z)" using r by (simp add: p2_def)
  moreover have "\<forall>t. map_option sk_rqe (socks p2 t) = map_option sk_rqe (socks p t)" using k(1) by (simp add: p2_def)
  moreover have "active_rqes p2 = active_rqes p" "calls p2 = calls p" "elts p1 = elts p" by (simp_all add: p1_def p2_def)
  moreover note ok1 ok2(1,2)
  ultimately show ?thesis by (rule_tac exI [of _ p1], rule_tac exI [of _ p2]) (intro conjI; assumption)
qed


definition pooled :: "dg_pool \<Rightarrow> addr list \<Rightarrow> nat" where
  "pooled p xs = length (filter (\<lambda>y. pe_sock_ref (the (elts p y)) = NULL) xs)"

lemma pooled_le: "pooled p xs \<le> length xs"
  by (simp add: pooled_def)

lemma pooled_cong: "(\<And>y. y \<in> set xs \<Longrightarrow> elts p' y = elts p y) \<Longrightarrow> pooled p' xs = pooled p xs"
  unfolding pooled_def by (metis (mono_tags, lifting) filter_cong)

text \<open>One turn of the loop over a received fragment.\<close>

lemma free_rqe_turn:
  assumes ok: "pool_ok lk p fs W" and f: "rqe_fragment p x (x # xs)" "pooled p (x # xs) \<le> unat (active_rqes p)"
    and call: "call = NULL \<or> cget call p \<noteq> None" and conc: "conc_ok exact conc" "leaves (x # xs) conc"
  shows "\<exists>e p' l gs V. elts p x = Some e \<and> x \<noteq> NULL \<and> pool_ok l p' gs V \<and> leaks exact lk l \<and> same_refs p p' \<and> pooled p' xs \<le> unat (active_rqes p') \<and>
    (\<forall>y\<in>set xs. elts p' y = elts p y \<and> rqe_back p' y) \<and>
    free_rqe_loop conc x call p = (if pe_more_data e = NULL then Some p' else free_rqe_loop conc (pe_more_data e) call p')"
proof -
  have bk: "rqe_back p x" "\<forall>y\<in>set xs. rqe_back p y" "x \<notin> set xs" using f(1) by (auto simp: rqe_fragment_def)
  then obtain e where e: "elts p x = Some e" "x \<noteq> NULL" "in_use p x"
    "if pe_sock_ref e = NULL then returnable p x else (\<exists>k. socks p (pe_sock_ref e) = Some k \<and> sk_rqe k = x)"
    by (auto simp: rqe_back_def in_use_def)
  have use: "\<forall>y\<in>set xs. in_use p y" using bk(2) by (simp add: rqe_back_def)
  show ?thesis
  proof (cases "pe_sock_ref e = NULL")
    case True
    have pl: "pooled p (x # xs) = pooled p xs + 1" using e(1) True by (simp add: pooled_def)
    have ol: "one_less p (p\<lparr>active_rqes := active_rqes p - 1\<rparr>)" using f(2) pl by (intro one_less_rqe) simp
    have rx: "returnable p x" using e(4) True by simp
    from pkt_free_ok [OF ok rx ol call conc(1)] obtain p' l gs V where
      p': "pkt_free conc x call (p\<lparr>active_rqes := active_rqes p - 1\<rparr>) = Some p'" "pool_ok l p' gs V" "leaks exact lk l" "same_refs p p'" by blast
    note sp = pkt_free_spared [OF ok rx ol call conc(1) leaves_tl [OF conc(2)] bk(3) use p'(1)]
    have "unat (active_rqes p - 1) = unat (active_rqes p) - 1" using f(2) pl by (simp add: unat_sub word_le_nat_alt)
    then have "pooled p xs \<le> unat (active_rqes p')" using sp(2) f(2) pl pooled_le [of p xs] by simp
    moreover have same: "\<And>y. y \<in> set xs \<Longrightarrow> elts p' y = elts p y" using sp(1) by blast
    moreover have "rqe_back p' y" if "y \<in> set xs" for y
      by (rule rqe_back_same [OF same [OF that] _ sp(3)]) (use sp(1) bk(2) that in blast)+
    moreover have "free_rqe_loop conc x call p = (if pe_more_data e = NULL then Some p' else free_rqe_loop conc (pe_more_data e) call p')"
      using e(1,2) True p'(1) by (subst free_rqe_loop.simps) (simp add: eget_def)
    ultimately show ?thesis using e(1,2) p' pooled_cong [of xs p' p] by (intro exI [of _ e] exI [of _ p'] exI [of _ l] exI [of _ gs] exI [of _ V]) simp
  next
    case False
    then obtain k where k: "socks p (pe_sock_ref e) = Some k" "sk_rqe k = x" using e(4) by auto
    from available_ok [OF ok k(1) False e(3,1)] obtain p1 p2 where p2: "skset (pe_sock_ref e) (rqe_available_update (\<lambda>_. True)) p = Some p1"
      "eset x (pe_more_data_update (\<lambda>_. NULL)) p1 = Some p2" "pool_ok lk p2 fs W" "same_refs p p2" "active_rqes p2 = active_rqes p"
      "\<forall>z. z \<noteq> x \<longrightarrow> elts p2 z = elts p z \<and> (returnable p z \<longrightarrow> returnable p2 z)"
      "\<forall>t. map_option sk_rqe (socks p2 t) = map_option sk_rqe (socks p t)" by blast
    have pl: "pooled p (x # xs) = pooled p xs" using e(1) False by (simp add: pooled_def)
    have ne: "y \<noteq> x" if "y \<in> set xs" for y using that bk(3) by auto
    then have same: "\<And>y. y \<in> set xs \<Longrightarrow> elts p2 y = elts p y" using p2(6) by blast
    have "rqe_back p2 y" if "y \<in> set xs" for y
      by (rule rqe_back_same [OF same [OF that] _ p2(7)]) (use p2(6) ne bk(2) that in blast)+
    moreover have "free_rqe_loop conc x call p = (if pe_more_data e = NULL then Some p2 else free_rqe_loop conc (pe_more_data e) call p2)"
      using e(1,2) False p2(1,2) by (subst free_rqe_loop.simps) (simp add: eget_def)
    moreover have "pooled p2 xs \<le> unat (active_rqes p2)" using pooled_cong [of xs p2 p] same f(2) pl p2(5) by simp
    ultimately show ?thesis using e(1,2) p2(3,4) same by (intro exI [of _ e] exI [of _ p2] exI [of _ lk] exI [of _ fs] exI [of _ W]) simp
  qed
qed

lemma rqe_fragment_tl:
  assumes "rqe_fragment p x (x # y # ys)" "elts p x = Some e" "\<forall>z\<in>set (y # ys). elts p' z = elts p z \<and> rqe_back p' z"
  shows "rqe_fragment p' y (y # ys)" "pe_more_data e = y" "y \<noteq> NULL"
proof -
  have n: "nseg pe_more_data (elts p) (pe_more_data e) (y # ys) NULL" "distinct (y # ys)" "pe_more_data e = y" "y \<noteq> NULL"
    using assms(1,2) by (auto simp: rqe_fragment_def)
  have same: "\<And>z. z \<in> set (y # ys) \<Longrightarrow> elts p' z = elts p z" using assms(3) by blast
  have "nseg pe_more_data (elts p') y (y # ys) NULL = nseg pe_more_data (elts p) y (y # ys) NULL"
    by (rule nseg_cong) (simp add: same)
  then show "rqe_fragment p' y (y # ys)" using n assms(3) unfolding rqe_fragment_def by blast
  show "pe_more_data e = y" "y \<noteq> NULL" by (fact n)+
qed

lemma free_rqe_loop_ok:
  assumes "pool_ok lk p fs W" "rqe_fragment p x (x # xs)" "pooled p (x # xs) \<le> unat (active_rqes p)" "call = NULL \<or> cget call p \<noteq> None"
    "conc_ok exact conc" "leaves (x # xs) conc"
  shows "\<exists>p' l fs' W'. free_rqe_loop conc x call p = Some p' \<and> pool_ok l p' fs' W' \<and> leaks exact lk l \<and> same_refs p p'"
  using assms
proof (induction xs arbitrary: x p lk fs W)
  case Nil
  from free_rqe_turn [OF Nil.prems] obtain e p' l gs V where "elts p x = Some e" "pool_ok l p' gs V" "leaks exact lk l" "same_refs p p'"
    "free_rqe_loop conc x call p = (if pe_more_data e = NULL then Some p' else free_rqe_loop conc (pe_more_data e) call p')" by blast
  moreover from this(1) Nil.prems(2) have "pe_more_data e = NULL" by (auto simp: rqe_fragment_def)
  ultimately show ?case by auto
next
  case (Cons y ys)
  from free_rqe_turn [OF Cons.prems] obtain e p' l gs V where p': "elts p x = Some e" "pool_ok l p' gs V" "same_refs p p'"
    "pooled p' (y # ys) \<le> unat (active_rqes p')" "\<forall>z\<in>set (y # ys). elts p' z = elts p z \<and> rqe_back p' z"
    "free_rqe_loop conc x call p = (if pe_more_data e = NULL then Some p' else free_rqe_loop conc (pe_more_data e) call p')" "leaks exact lk l" by blast
  note t = rqe_fragment_tl [OF Cons.prems(2) p'(1,5)]
  have call: "call = NULL \<or> cget call p' \<noteq> None" using Cons.prems(4) p'(3) by (auto simp: cget_def same_refs_def split: if_splits)
  from Cons.IH [OF p'(2) t(1) p'(4) call Cons.prems(5) leaves_tl [OF Cons.prems(6)]] obtain p2 l' gs V where
    "free_rqe_loop conc y call p' = Some p2" "pool_ok l' p2 gs V" "leaks exact l l'" "same_refs p' p2" by blast
  then show ?case using p'(6) t(2,3) same_refs_trans [OF p'(3)] leaks_trans [OF p'(7)] by auto
qed

lemma free_rqe_ok:
  assumes ok: "pool_ok lk p fs W" and f: "rqe_fragment p x (x # xs)" "pooled p (x # xs) \<le> unat (active_rqes p)"
    and call: "call = NULL \<or> cget call p \<noteq> None" and conc: "conc_ok exact conc" "leaves (x # xs) conc"
  shows "\<exists>p' l fs' W'. rpc__dg_pkt_free_rqe conc x call p = Some p' \<and> pool_ok l p' fs' W' \<and> leaks exact lk l \<and> same_refs p p'"
proof -
  have bk: "rqe_back p x" "x \<notin> set xs" "\<forall>y\<in>set xs. rqe_back p y" using f(1) by (auto simp: rqe_fragment_def)
  then obtain e where e: "elts p x = Some e" "x \<noteq> NULL" "in_use p x"
    "if pe_sock_ref e = NULL then returnable p x else (\<exists>k. socks p (pe_sock_ref e) = Some k \<and> sk_rqe k = x)"
    by (auto simp: rqe_back_def in_use_def)
  have eg: "eget x p = Some e" using e by (simp add: eget_def)
  show ?thesis
  proof (cases "pe_sock_ref e = NULL")
    case True
    then have "rpc__dg_pkt_free_rqe conc x call p = free_rqe_loop conc x call p" using eg by (simp add: rpc__dg_pkt_free_rqe_def)
    then show ?thesis using free_rqe_loop_ok [OF ok f call conc] by simp
  next
    case False
    then obtain k where k: "socks p (pe_sock_ref e) = Some k" "sk_rqe k = x" using e(4) by auto
    from available_ok [OF ok k(1) False e(3,1)] obtain p1 p2 where p2: "skset (pe_sock_ref e) (rqe_available_update (\<lambda>_. True)) p = Some p1"
      "skget (pe_sock_ref e) p1 = Some (k\<lparr>rqe_available := True\<rparr>)"
      "eset x (pe_more_data_update (\<lambda>_. NULL)) p1 = Some p2" "pool_ok lk p1 fs W" "pool_ok lk p2 fs W" "same_refs p p1" "same_refs p p2"
      "active_rqes p2 = active_rqes p" "\<forall>z. z \<noteq> x \<longrightarrow> elts p2 z = elts p z \<and> (returnable p z \<longrightarrow> returnable p2 z)"
      "\<forall>t. map_option sk_rqe (socks p2 t) = map_option sk_rqe (socks p t)" "calls p2 = calls p" by blast
    have s: "rpc__dg_pkt_free_rqe conc x call p = (if pe_more_data e = NULL then Some p1 else free_rqe_loop conc (pe_more_data e) call p2)"
      using eg False p2(1-3) k(2) by (simp add: rpc__dg_pkt_free_rqe_def)
    show ?thesis
    proof (cases xs)
      case Nil
      then have "pe_more_data e = NULL" using f(1) e(1) by (auto simp: rqe_fragment_def)
      then have "rpc__dg_pkt_free_rqe conc x call p = Some p1" using s by simp
      then show ?thesis using p2(4,6) leaks_refl by blast
    next
      case (Cons y ys)
      have ne: "z \<noteq> x" if "z \<in> set xs" for z using that bk(2) by auto
      then have same: "\<And>z. z \<in> set xs \<Longrightarrow> elts p2 z = elts p z" using p2(9) by blast
      have "rqe_back p2 z" if "z \<in> set xs" for z
        by (rule rqe_back_same [OF same [OF that] _ p2(10)]) (use p2(9) ne bk(3) that in blast)+
      then have "\<forall>z\<in>set (y # ys). elts p2 z = elts p z \<and> rqe_back p2 z" using same Cons by simp
      note t = rqe_fragment_tl [OF f(1) [unfolded Cons] e(1) this]
      have "pooled p2 (y # ys) = pooled p (x # xs)" using pooled_cong [of xs p2 p] same e(1) False Cons by (simp add: pooled_def)
      then have "pooled p2 (y # ys) \<le> unat (active_rqes p2)" using f(2) p2(8) by simp
      moreover have "call = NULL \<or> cget call p2 \<noteq> None" using call p2(11) by (auto simp: cget_def)
      ultimately obtain p' l gs V where "free_rqe_loop conc y call p2 = Some p'" "pool_ok l p' gs V" "leaks exact lk l" "same_refs p2 p'"
        using free_rqe_loop_ok [OF p2(5) t(1) _ _ conc(1)] leaves_tl [OF conc(2)] Cons by blast
      then show ?thesis using s t(2,3) same_refs_trans [OF p2(7)] by auto
    qed
  qed
qed

lemma free_xqe_ok:
  assumes ok: "pool_ok lk p fs W" and f: "fragment p x (x # xs)" "length (x # xs) \<le> unat (active_xqes p)"
    and c: "cget call p = Some c" "pc_sock_ref c \<noteq> NULL \<Longrightarrow> socks p (pc_sock_ref c) \<noteq> None" and conc: "conc_ok exact conc" "leaves (x # xs) conc"
  shows "\<exists>p' l fs' W'. rpc__dg_pkt_free_xqe conc x call p = Some p' \<and> pool_ok l p' fs' W' \<and> leaks exact lk l \<and> same_refs p p'"
proof (cases "pc_sock_ref c \<noteq> NULL \<and> is_private (the (socks p (pc_sock_ref c))) \<and> sk_xqe (the (socks p (pc_sock_ref c))) = NULL")
  case False
  have "rpc__dg_pkt_free_xqe conc x call p = free_xqe_loop conc x call p"
    using c False by (auto simp: rpc__dg_pkt_free_xqe_def skget_def)
  then show ?thesis using free_xqe_loop_ok [OF ok f(1) _ _ conc] f(2) c(1) by simp
next
  case True
  then obtain k where k: "socks p (pc_sock_ref c) = Some k" "is_private k" "sk_xqe k = NULL" "pc_sock_ref c \<noteq> NULL" using c(2) by auto
  from f(1) obtain e where e: "elts p x = Some e" "x \<noteq> NULL" "returnable p x" "x \<notin> set xs" by (auto simp: fragment_def)
  let ?k = "k\<lparr>sk_xqe := x\<rparr>"
  define p1 where "p1 = p\<lparr>socks := (socks p)(pc_sock_ref c \<mapsto> ?k)\<rparr>"
  define p2 where "p2 = p\<lparr>socks := (socks p)(pc_sock_ref c \<mapsto> ?k), elts := (elts p)(x \<mapsto> e\<lparr>pe_more_data := NULL\<rparr>)\<rparr>"
  have ex: "\<not> is_on_free_list (e\<lparr>pe_more_data := NULL\<rparr>)" "in_use p x" using e by (auto simp: returnable_def in_use_def)
  have kk: "sk_xqe ?k \<noteq> NULL \<longrightarrow> in_use p (sk_xqe ?k)" "sk_rqe ?k \<noteq> NULL \<longrightarrow> in_use p (sk_rqe ?k)"
    using pool_okD(6) [OF ok] k(1) ex(2) by (auto simp: socks_ok_def)
  note ok1 = sock_ok [OF ok k(1) ex(2) kk p1_def] and ok2 = sock_elt_ok [OF ok k(1) ex(2,1) kk p2_def]
  have s: "rpc__dg_pkt_free_xqe conc x call p = (if pe_more_data e = NULL then Some p1 else free_xqe_loop conc (pe_more_data e) call p2)"
    using c(1) k e(1,2) by (simp add: rpc__dg_pkt_free_xqe_def skget_def skset_def eget_def eset_def p1_def p2_def)
  show ?thesis
  proof (cases xs)
    case Nil
    then have "pe_more_data e = NULL" using f(1) e(1) by (auto simp: fragment_def)
    then have "rpc__dg_pkt_free_xqe conc x call p = Some p1" using s by simp
    then show ?thesis using ok1 leaks_refl by blast
  next
    case (Cons y ys)
    have n: "nseg pe_more_data (elts p) (pe_more_data e) (y # ys) NULL" "distinct (y # ys)" "pe_more_data e = y" "y \<noteq> NULL"
      "\<forall>z\<in>set (y # ys). returnable p z" using f(1) e(1) Cons by (auto simp: fragment_def)
    have ne: "\<And>z. z \<in> set (y # ys) \<Longrightarrow> z \<noteq> x" using e(4) Cons by auto
    have same: "\<And>z. z \<in> set (y # ys) \<Longrightarrow> elts p2 z = elts p z" using ne by (simp add: p2_def)
    have "nseg pe_more_data (elts p2) y (y # ys) NULL = nseg pe_more_data (elts p) y (y # ys) NULL"
      by (rule nseg_cong) (simp add: same)
    moreover have "returnable p2 z" if z: "z \<in> set (y # ys)" for z
    proof -
      have rz: "in_use p z" "\<And>t s. socks p t = Some s \<Longrightarrow> sk_xqe s \<noteq> z \<and> sk_rqe s \<noteq> z"
        using bspec [OF n(5) z] unfolding returnable_def by blast+
      have "sk_xqe s \<noteq> z \<and> sk_rqe s \<noteq> z" if "socks p2 t = Some s" for t s
        using that rz(2) [of t s] rz(2) [OF k(1)] ne [OF z] by (auto simp: p2_def split: if_splits)
      then show ?thesis using rz(1) unfolding returnable_def ok2(3) by blast
    qed
    ultimately have "fragment p2 y (y # ys)" using n unfolding fragment_def by blast
    moreover have "Suc (length ys) \<le> unat (active_xqes p2)" using f(2) Cons by (simp add: p2_def)
    moreover have "call = NULL \<or> cget call p2 \<noteq> None" using c(1) by (auto simp: cget_def p2_def)
    ultimately obtain p' l gs V where "free_xqe_loop conc y call p2 = Some p'" "pool_ok l p' gs V" "leaks exact lk l" "same_refs p2 p'"
      using free_xqe_loop_ok [where p = p2 and x = y and xs = ys and fs = fs and W = W and lk = lk, OF _ _ _ _ conc(1)] ok2(1) leaves_tl [OF conc(2)] Cons by blast
    then show ?thesis using s n(3,4) same_refs_trans [OF ok2(2)] by auto
  qed
qed


section \<open>Allocating\<close>

lemma base_ref:
  assumes "pc_refcnt (plain c) < 255"
  shows "\<not> is_in_pkt_chain c \<Longrightarrow> pc_refcnt c < 255"
  using assms by (simp add: plain_def)

lemma xqe_turn_safe:
  assumes ok: "pool_ok lk p fs W" and c: "cget x p = Some c" "pc_refcnt (plain c) < 255" and new: "fresh new p"
  shows "\<exists>r p' fs' W'. xqe_turn x new blank p = Some (r, p') \<and> pool_ok lk p' fs' W' \<and> same_refs p p'"
proof -
  note t = xqe_turn_ok [OF ok c(1) base_ref [OF c(2)] new, of blank]
  consider "avail p \<le> unat (reservations p)" "pc_xq_head c \<noteq> NULL"
    | "\<not> (avail p \<le> unat (reservations p) \<and> pc_xq_head c \<noteq> NULL)" "0 < avail p"
    | "\<not> (avail p \<le> unat (reservations p) \<and> pc_xq_head c \<noteq> NULL)" "avail p = 0" by blast
  then show ?thesis
  proof cases
    case 1
    then show ?thesis using t(1) by blast
  next
    case 2
    then show ?thesis using t(2) by blast
  next
    case 3
    then show ?thesis using t(3) by blast
  qed
qed

lemma rqe_take_safe:
  assumes "pool_ok lk p fs W" "fresh new p"
  shows "\<exists>r p' fs' W'. rqe_take new blank p = Some (r, p') \<and> pool_ok lk p' fs' W' \<and> same_refs p p'"
  using rqe_take_ok [OF assms, of blank] by (cases "avail p = 0") (blast, blast)

lemma same_refs_call:
  assumes "same_refs p p'" "cget x p = Some c" "pc_refcnt (plain c) < 255"
  shows "\<exists>c'. cget x p' = Some c' \<and> pc_refcnt (plain c') < 255"
  using assms unfolding same_refs_def cget_iff by metis

lemma xqe_resv_done_safe:
  assumes c: "cget x p = Some c" "pc_refcnt (plain c) < 255" and new: "fresh new p"
    and r: "pool_ok lk p' fs W" "same_refs p p'" "same_pkts p p'"
  shows "\<exists>res q fs' W'. xqe_resv_done x new blank (rr, p') = Some (res, q) \<and> pool_ok lk q fs' W' \<and> same_refs p q"
proof (cases rr)
  case (Resv b)
  from same_refs_call [OF r(2) c] obtain c' where "cget x p' = Some c'" "pc_refcnt (plain c') < 255" by blast
  from xqe_turn_safe [OF r(1) this, of new blank] new fresh_same [OF r(3)] show ?thesis
    using Resv same_refs_trans [OF r(2)] by (auto simp: xqe_resv_done_def)
qed (use r in \<open>auto simp: xqe_resv_done_def\<close>)

lemma rqe_resv_done_safe:
  assumes new: "fresh new p" and r: "pool_ok lk p' fs W" "same_refs p p'" "same_pkts p p'"
  shows "\<exists>res q fs' W'. rqe_resv_done new blank (rr, p') = Some (res, q) \<and> pool_ok lk q fs' W' \<and> same_refs p q"
proof (cases rr)
  case (Resv b)
  from rqe_take_safe [OF r(1), of new blank] new fresh_same [OF r(3)] show ?thesis
    using Resv same_refs_trans [OF r(2)] by (auto simp: rqe_resv_done_def)
qed (use r in \<open>auto simp: rqe_resv_done_def\<close>)

text \<open>A private socket keeps an element for its call.\<close>

lemma alloc_xqe_kept:
  assumes ok: "pool_ok lk p fs W" and c: "cget x p = Some c" and k: "skget (pc_sock_ref c) p = Some k"
    and kept: "is_private k" "sk_xqe k \<noteq> NULL"
  shows "\<exists>q. rpc__dg_pkt_alloc_xqe x new blank p = Some (Xqe (sk_xqe k), q) \<and> pool_ok lk q fs W \<and> same_refs p q \<and> avail q = avail p"
proof -
  have sk: "socks p (pc_sock_ref c) = Some k" "pc_sock_ref c \<noteq> NULL" using k by (auto simp: skget_def split: if_splits)
  have u: "in_use p (sk_xqe k)" using pool_okD(6) [OF ok] sk(1) kept(2) by (simp add: socks_ok_def)
  then obtain e where e: "elts p (sk_xqe k) = Some e" "\<not> is_on_free_list e" by (auto simp: in_use_def)
  let ?k = "k\<lparr>sk_xqe := NULL\<rparr>"
  define q where "q = p\<lparr>socks := (socks p)(pc_sock_ref c \<mapsto> ?k), elts := (elts p)(sk_xqe k \<mapsto> xqe_reset e)\<rparr>"
  have kk: "sk_xqe ?k \<noteq> NULL \<longrightarrow> in_use p (sk_xqe ?k)" "sk_rqe ?k \<noteq> NULL \<longrightarrow> in_use p (sk_rqe ?k)"
    using pool_okD(6) [OF ok] sk(1) by (auto simp: socks_ok_def)
  have "\<not> is_on_free_list (xqe_reset e)" using e(2) by (simp add: xqe_reset_def)
  note q = sock_elt_ok [OF ok sk(1) u this kk q_def]
  have "rpc__dg_pkt_alloc_xqe x new blank p = Some (Xqe (sk_xqe k), q)"
    using c k kept sk e by (simp add: rpc__dg_pkt_alloc_xqe_def skset_def eset_def eget_def q_def)
  moreover have "avail q = avail p" by (simp add: q_def avail_def)
  ultimately show ?thesis using q by blast
qed

text \<open>A private socket keeps an element for its call; else the call needs a reservation.\<close>

lemma leaks_mono: "leaks e k l \<Longrightarrow> (exact \<Longrightarrow> e) \<Longrightarrow> leaks exact k l"
  by (auto simp: leaks_def)

lemma alloc_xqe_safe:
  assumes ok: "pool_ok lk p fs W" and c: "cget x p = Some c" "pc_refcnt (plain c) < 255" and k: "skget (pc_sock_ref c) p = Some k"
    and d: "is_private k \<Longrightarrow> pc_n_resvs c = 0 \<Longrightarrow> pc_is_cbk c \<Longrightarrow> cget (pc_peer c) p = Some d \<and> (exact \<longrightarrow> owner d)" and new: "fresh new p"
  shows "\<exists>r p' l fs' W'. rpc__dg_pkt_alloc_xqe x new blank p = Some (r, p') \<and> pool_ok l p' fs' W' \<and> leaks exact lk l \<and> same_refs p p'"
proof -
  have sk: "socks p (pc_sock_ref c) = Some k" "pc_sock_ref c \<noteq> NULL" using k by (auto simp: skget_def split: if_splits)
  consider (kept) "is_private k" "sk_xqe k \<noteq> NULL" | (resv) "is_private k" "sk_xqe k = NULL" "pc_n_resvs c = 0"
    | (turn) "\<not> (is_private k \<and> sk_xqe k \<noteq> NULL)" "\<not> (is_private k \<and> pc_n_resvs c = 0)" by blast
  then show ?thesis
  proof cases
    case kept
    then show ?thesis using alloc_xqe_kept [OF ok c(1) k] leaks_refl by blast
  next
    case resv
    from adjust_any [OF ok c(1) base_ref [OF c(2)] _ k, of d 1 True] d [OF resv(1,3)] obtain r p' l V where
      p': "rpc__dg_pkt_adjust_reservation x 1 True p = Some (r, p')" "pool_ok l p' fs V" "same_refs p p'" "same_pkts p p'"
        "leaks (pc_is_cbk c \<longrightarrow> owner d) lk l" by auto
    have "leaks exact lk l" by (rule leaks_mono [OF p'(5)]) (use d [OF resv(1,3)] in blast)
    moreover have "rpc__dg_pkt_alloc_xqe x new blank p = xqe_resv_done x new blank (r, p')"
      using c(1) k resv p'(1) by (simp add: rpc__dg_pkt_alloc_xqe_def)
    ultimately show ?thesis using xqe_resv_done_safe [OF c new p'(2-4), of blank r] by metis
  next
    case turn
    have "rpc__dg_pkt_alloc_xqe x new blank p = xqe_turn x new blank p" using c(1) k turn by (auto simp: rpc__dg_pkt_alloc_xqe_def)
    then show ?thesis using xqe_turn_safe [OF ok c new, of blank] leaks_refl by metis
  qed
qed

lemma alloc_rqe_safe:
  assumes ok: "pool_ok lk p fs W" and c: "x \<noteq> NULL \<Longrightarrow> cget x p = Some c \<and> pc_refcnt (plain c) < 255 \<and> skget (pc_sock_ref c) p = Some k \<and>
      (pc_n_resvs c = 0 \<longrightarrow> pc_is_cbk c \<longrightarrow> cget (pc_peer c) p = Some d \<and> (exact \<longrightarrow> owner d)) \<and> (rqe_available k \<longrightarrow> sk_rqe k \<noteq> NULL)" and new: "fresh new p"
  shows "\<exists>r p' l fs' W'. rpc__dg_pkt_alloc_rqe x new blank p = Some (r, p') \<and> pool_ok l p' fs' W' \<and> leaks exact lk l \<and> same_refs p p'"
proof (cases "x = NULL")
  case True
  then have "rpc__dg_pkt_alloc_rqe x new blank p = rqe_take new blank p" by (simp add: rpc__dg_pkt_alloc_rqe_def)
  then show ?thesis using rqe_take_safe [OF ok new, of blank] leaks_refl by metis
next
  case False
  from c [OF False] have c: "cget x p = Some c" "pc_refcnt (plain c) < 255" and k: "skget (pc_sock_ref c) p = Some k"
    and d: "pc_n_resvs c = 0 \<Longrightarrow> pc_is_cbk c \<Longrightarrow> cget (pc_peer c) p = Some d \<and> (exact \<longrightarrow> owner d)" and kr: "rqe_available k \<Longrightarrow> sk_rqe k \<noteq> NULL" by blast+
  have sk: "socks p (pc_sock_ref c) = Some k" "pc_sock_ref c \<noteq> NULL" using k by (auto simp: skget_def split: if_splits)
  consider (kept) "rqe_available k" | (resv) "\<not> rqe_available k" "pc_n_resvs c = 0" | (turn) "\<not> rqe_available k" "pc_n_resvs c \<noteq> 0" by blast
  then show ?thesis
  proof cases
    case kept
    have u: "in_use p (sk_rqe k)" using pool_okD(6) [OF ok] sk(1) kr [OF kept] by (simp add: socks_ok_def)
    then obtain e where e: "elts p (sk_rqe k) = Some e" "\<not> is_on_free_list e" by (auto simp: in_use_def)
    let ?k = "k\<lparr>rqe_available := False\<rparr>"
    define q where "q = p\<lparr>socks := (socks p)(pc_sock_ref c \<mapsto> ?k), elts := (elts p)(sk_rqe k \<mapsto> rqe_reset e)\<rparr>"
    have kk: "sk_xqe ?k \<noteq> NULL \<longrightarrow> in_use p (sk_xqe ?k)" "sk_rqe ?k \<noteq> NULL \<longrightarrow> in_use p (sk_rqe ?k)"
      using pool_okD(6) [OF ok] sk(1) by (auto simp: socks_ok_def)
    have "\<not> is_on_free_list (rqe_reset e)" using e(2) by (simp add: rqe_reset_def)
    note q = sock_elt_ok [OF ok sk(1) u this kk q_def]
    have "rpc__dg_pkt_alloc_rqe x new blank p = Some (Rqe (sk_rqe k), q)"
      using c(1) k kept sk e False kr by (simp add: rpc__dg_pkt_alloc_rqe_def skset_def eset_def eget_def q_def)
    then show ?thesis using q leaks_refl by blast
  next
    case resv
    from adjust_any [OF ok c(1) base_ref [OF c(2)] _ k, of d 1 True] d [OF resv(2)] obtain r p' l V where
      p': "rpc__dg_pkt_adjust_reservation x 1 True p = Some (r, p')" "pool_ok l p' fs V" "same_refs p p'" "same_pkts p p'"
        "leaks (pc_is_cbk c \<longrightarrow> owner d) lk l" by auto
    have "leaks exact lk l" by (rule leaks_mono [OF p'(5)]) (use d [OF resv(2)] in blast)
    moreover have "rpc__dg_pkt_alloc_rqe x new blank p = rqe_resv_done new blank (r, p')"
      using c(1) k resv p'(1) False by (simp add: rpc__dg_pkt_alloc_rqe_def)
    ultimately show ?thesis using rqe_resv_done_safe [OF new p'(2-4), of blank r] by metis
  next
    case turn
    have "rpc__dg_pkt_alloc_rqe x new blank p = rqe_take new blank p" using c(1) k turn False by (simp add: rpc__dg_pkt_alloc_rqe_def)
    then show ?thesis using rqe_take_safe [OF ok new, of blank] leaks_refl by metis
  qed
qed

text \<open>Going on after a wait for a packet, and for the reservation of one packet.\<close>

lemma woken_safe:
  assumes ok: "pool_ok lk p fs W" and c: "cget x p = Some c" "pc_refcnt (plain c) < 255" and new: "fresh new p"
  shows "\<exists>r p' fs' W'. xqe_woken x new blank st p = Some (r, p') \<and> pool_ok lk p' fs' W' \<and> same_refs p p'"
proof (cases "st = 0")
  case True
  then show ?thesis using xqe_turn_safe [OF ok c new] by (simp add: xqe_woken_def)
next
  case False
  have "calls p x = Some c" using c(1) by (simp add: cget_iff)
  from leave_queue_ok [OF ok this, of Pkt_waiters] obtain q where
    q: "(if is_in_pkt_chain c then dequeue_pool_waiter x Pkt_waiters p else Some p) = Some q"
    "pool_ok lk q fs (W(Pkt_waiters := remove1 x (W Pkt_waiters)))" "same_refs p q" by blast
  have "xqe_woken x new blank st p = Some (Xqe_error st, q)"
    unfolding xqe_woken_def c(1) bind_simps q(1) using False by simp
  then show ?thesis using q(2,3) by blast
qed

lemma resv_woken_safe:
  assumes ok: "pool_ok lk p fs W" and c: "cget x p = Some c" "pc_refcnt (plain c) < 255" and m: "may_ask c d 0 p"
    and e: "exact \<Longrightarrow> undisturbed c d 0" and new: "fresh new p"
  shows "\<exists>r p' l fs' W'. xqe_resv_woken x new blank (how_many 1 (c\<lparr>pc_n_resvs := 0\<rparr>)) st p = Some (r, p') \<and> pool_ok l p' fs' W' \<and> leaks exact lk l \<and> same_refs p p'"
    "\<exists>r p' l fs' W'. rqe_resv_woken x new blank (how_many 1 (c\<lparr>pc_n_resvs := 0\<rparr>)) st p = Some (r, p') \<and> pool_ok l p' fs' W' \<and> leaks exact lk l \<and> same_refs p p'"
proof -
  from woken_any [OF ok c(1) base_ref [OF c(2)] m _ _ refl, of 1 st] obtain r p' l V where
    p': "adjust_woken x 1 (how_many 1 (c\<lparr>pc_n_resvs := 0\<rparr>)) st p = Some (r, p')" "pool_ok l p' fs V" "same_refs p p'" "same_pkts p p'"
      "leaks (undisturbed c d 0) lk l" by auto
  have l: "leaks exact lk l" by (rule leaks_mono [OF p'(5)]) (rule e)
  show "\<exists>r p' l fs' W'. xqe_resv_woken x new blank (how_many 1 (c\<lparr>pc_n_resvs := 0\<rparr>)) st p = Some (r, p') \<and> pool_ok l p' fs' W' \<and> leaks exact lk l \<and> same_refs p p'"
    using xqe_resv_done_safe [OF c new p'(2-4), of blank r] p'(1) l by (simp add: xqe_resv_woken_def) blast
  show "\<exists>r p' l fs' W'. rqe_resv_woken x new blank (how_many 1 (c\<lparr>pc_n_resvs := 0\<rparr>)) st p = Some (r, p') \<and> pool_ok l p' fs' W' \<and> leaks exact lk l \<and> same_refs p p'"
    using rqe_resv_done_safe [OF new p'(2-4), of blank r] p'(1) l by (simp add: rqe_resv_woken_def) blast
qed


section \<open>Runs\<close>

text \<open>
  A call whose thread runs, with fewer than 255 references besides that of a waiting list.
\<close>

definition live_call :: "addr \<Rightarrow> dg_pool \<Rightarrow> pool_call \<Rightarrow> bool" where
  "live_call x p c \<longleftrightarrow> cget x p = Some c \<and> pc_refcnt (plain c) < 255"

text \<open>
  Who may ask for a reservation: any call; a callback's peer, the call it belongs to, exists.  And who
  may go on after waiting for one: a call that had \<open>n0\<close> packets reserved when it asked, and nobody has
  given those up meanwhile.  In an exact run the reservation is still the one it was when the call
  asked, and callbacks are not nested.
\<close>

definition asks :: "bool \<Rightarrow> addr \<Rightarrow> dg_pool \<Rightarrow> pool_call \<Rightarrow> pool_call \<Rightarrow> bool" where
  "asks exact x q c d \<longleftrightarrow> live_call x q c \<and> (pc_is_cbk c \<longrightarrow> cget (pc_peer c) q = Some d \<and> (exact \<longrightarrow> owner d))"

definition resumes :: "bool \<Rightarrow> addr \<Rightarrow> dg_pool \<Rightarrow> pool_call \<Rightarrow> pool_call \<Rightarrow> u8 \<Rightarrow> bool" where
  "resumes exact x q c d n0 \<longleftrightarrow> live_call x q c \<and> may_ask c d n0 q \<and> (exact \<longrightarrow> undisturbed c d n0)"

text \<open>
  What the threads of the process do to the pool, one routine after another, with any answers of the
  allocator and of the waits.  \<open>conc\<close>, what happens while a routine has given the lock up, is again a
  run.  A call that goes on after a wait for a reservation asks for the number of packets it found
  missing before the wait.  Transmit queues, calls and sockets, a private one with its two elements,
  come from the rest of the protocol.
\<close>

inductive pool_run :: "bool \<Rightarrow> dg_pool \<Rightarrow> dg_pool \<Rightarrow> bool" for exact where
  stop: "pool_run exact p p"
| alloc_xqe: "pool_run exact p q \<Longrightarrow> live_call x q c \<Longrightarrow> skget (pc_sock_ref c) q = Some k \<Longrightarrow>
    (is_private k \<and> pc_n_resvs c = 0 \<longrightarrow> asks exact x q c d) \<Longrightarrow> fresh new q \<Longrightarrow>
    rpc__dg_pkt_alloc_xqe x new blank q = Some (xr, q') \<Longrightarrow> pool_run exact p q'"
| xqe_woken: "pool_run exact p q \<Longrightarrow> live_call x q c \<Longrightarrow> fresh new q \<Longrightarrow> xqe_woken x new blank st q = Some (xr, q') \<Longrightarrow>
    pool_run exact p q'"
| xqe_resv_woken: "pool_run exact p q \<Longrightarrow> resumes exact x q c d 0 \<Longrightarrow> fresh new q \<Longrightarrow>
    xqe_resv_woken x new blank (how_many 1 (c\<lparr>pc_n_resvs := 0\<rparr>)) st q = Some (xr, q') \<Longrightarrow> pool_run exact p q'"
| alloc_rqe: "pool_run exact p q \<Longrightarrow> (x \<noteq> NULL \<longrightarrow> live_call x q c \<and> skget (pc_sock_ref c) q = Some k \<and>
      (pc_n_resvs c = 0 \<longrightarrow> asks exact x q c d) \<and> (rqe_available k \<longrightarrow> sk_rqe k \<noteq> NULL)) \<Longrightarrow> fresh new q \<Longrightarrow>
    rpc__dg_pkt_alloc_rqe x new blank q = Some (rr, q') \<Longrightarrow> pool_run exact p q'"
| rqe_resv_woken: "pool_run exact p q \<Longrightarrow> resumes exact x q c d 0 \<Longrightarrow> fresh new q \<Longrightarrow>
    rqe_resv_woken x new blank (how_many 1 (c\<lparr>pc_n_resvs := 0\<rparr>)) st q = Some (rr, q') \<Longrightarrow> pool_run exact p q'"
| adjust: "pool_run exact p q \<Longrightarrow> asks exact x q c d \<Longrightarrow> skget (pc_sock_ref c) q = Some k \<Longrightarrow> unat nreq < 256 \<Longrightarrow>
    rpc__dg_pkt_adjust_reservation x nreq block q = Some (r, q') \<Longrightarrow> pool_run exact p q'"
| adjust_woken: "pool_run exact p q \<Longrightarrow> resumes exact x q c d n0 \<Longrightarrow> unat n0 < unat nreq \<Longrightarrow> unat nreq < 256 \<Longrightarrow>
    adjust_woken x nreq (how_many nreq (c\<lparr>pc_n_resvs := n0\<rparr>)) st q = Some (r, q') \<Longrightarrow> pool_run exact p q'"
| cancel: "pool_run exact p q \<Longrightarrow> (\<forall>s. pool_run exact s (conc s)) \<Longrightarrow> rpc__dg_pkt_cancel_reservation conc x q = Some q' \<Longrightarrow>
    pool_run exact p q'"
| free_xqe: "pool_run exact p q \<Longrightarrow> (\<forall>s. pool_run exact s (conc s)) \<Longrightarrow> leaves (x # xs) conc \<Longrightarrow> fragment q x (x # xs) \<Longrightarrow>
    length (x # xs) \<le> unat (active_xqes q) \<Longrightarrow> cget y q = Some c \<Longrightarrow> (pc_sock_ref c \<noteq> NULL \<longrightarrow> socks q (pc_sock_ref c) \<noteq> None) \<Longrightarrow>
    rpc__dg_pkt_free_xqe conc x y q = Some q' \<Longrightarrow> pool_run exact p q'"
| free_rqe: "pool_run exact p q \<Longrightarrow> (\<forall>s. pool_run exact s (conc s)) \<Longrightarrow> leaves (x # xs) conc \<Longrightarrow> rqe_fragment q x (x # xs) \<Longrightarrow>
    pooled q (x # xs) \<le> unat (active_rqes q) \<Longrightarrow> y = NULL \<or> cget y q \<noteq> None \<Longrightarrow>
    rpc__dg_pkt_free_rqe conc x y q = Some q' \<Longrightarrow> pool_run exact p q'"
| resize: "pool_run exact p q \<Longrightarrow> 3 * (unat a + unat b) + 2 < 2 ^ 31 \<Longrightarrow> pool_run exact p (snd (rpc_mgmt_set_max_concurrency a b q))"
| queue: "pool_run exact p q \<Longrightarrow> cset x (pc_xq_head_update (\<lambda>_. h)) q = Some q' \<Longrightarrow> pool_run exact p q'"
| new_call: "pool_run exact p q \<Longrightarrow> x \<noteq> NULL \<Longrightarrow> calls q x = None \<Longrightarrow> pc_n_resvs c = 0 \<Longrightarrow> \<not> is_in_pkt_chain c \<Longrightarrow> 0 < pc_refcnt c \<Longrightarrow>
    pool_run exact p (q\<lparr>calls := (calls q)(x \<mapsto> c)\<rparr>)"
| new_socket: "pool_run exact p q \<Longrightarrow> socks q s = None \<Longrightarrow> fresh a q \<Longrightarrow> fresh b q \<Longrightarrow> a \<noteq> b \<Longrightarrow> \<not> is_on_free_list ea \<Longrightarrow> \<not> is_on_free_list eb \<Longrightarrow>
    sk_xqe k = a \<Longrightarrow> sk_rqe k = b \<Longrightarrow> pool_run exact p (q\<lparr>elts := (elts q)(a \<mapsto> ea, b \<mapsto> eb), socks := (socks q)(s \<mapsto> k)\<rparr>)"
| shared_socket: "pool_run exact p q \<Longrightarrow> socks q s = None \<Longrightarrow> sk_xqe k = NULL \<Longrightarrow> sk_rqe k = NULL \<Longrightarrow>
    pool_run exact p (q\<lparr>socks := (socks q)(s \<mapsto> k)\<rparr>)"

definition kept :: "bool \<Rightarrow> dg_pool \<Rightarrow> dg_pool \<Rightarrow> bool" where
  "kept exact p q \<longleftrightarrow> (\<forall>lk fs W. pool_ok lk p fs W \<longrightarrow> (\<exists>l fs' W'. leaks exact lk l \<and> pool_ok l q fs' W') \<and> same_refs p q)"

lemma kept_refl [simp]: "kept exact p p"
  unfolding kept_def using leaks_refl same_refs_refl by blast

lemma kept_step:
  assumes "kept exact p q" and "\<And>lk fs W. pool_ok lk q fs W \<Longrightarrow> \<exists>l fs' W'. pool_ok l q' fs' W' \<and> leaks exact lk l \<and> same_refs q q'"
  shows "kept exact p q'"
  unfolding kept_def
proof (intro allI impI)
  fix lk fs W assume "pool_ok lk p fs W"
  then obtain l gs V where q: "leaks exact lk l" "pool_ok l q gs V" "same_refs p q" using assms(1) unfolding kept_def by blast
  from assms(2) [OF q(2)] obtain m hs U where "pool_ok m q' hs U" "leaks exact l m" "same_refs q q'" by blast
  then show "(\<exists>l fs' W'. leaks exact lk l \<and> pool_ok l q' fs' W') \<and> same_refs p q'"
    using leaks_trans [OF q(1)] same_refs_trans [OF q(3)] by blast
qed

lemma kept_same:
  assumes "kept exact p q" and "\<And>lk fs W. pool_ok lk q fs W \<Longrightarrow> pool_ok lk q' fs W \<and> same_refs q q'"
  shows "kept exact p q'"
  by (rule kept_step [OF assms(1)]) (use assms(2) leaks_refl in blast)

lemma kept_conc: "(\<forall>s. pool_run exact s (conc s) \<and> kept exact s (conc s)) \<Longrightarrow> conc_ok exact conc"
  unfolding conc_ok_def kept_def by blast

lemma queue_ok:
  assumes ok: "pool_ok lk q fs W" and s: "cset x (pc_xq_head_update (\<lambda>_. h)) q = Some q'"
  shows "pool_ok lk q' fs W" "same_refs q q'"
proof -
  from s obtain c where c: "calls q x = Some c" "q' = q\<lparr>calls := (calls q)(x \<mapsto> c\<lparr>pc_xq_head := h\<rparr>)\<rparr>"
    by (auto simp: cset_def cget_def bind_eq_Some_conv split: if_splits)
  have q': "q' = q\<lparr>calls := (calls q)(x \<mapsto> c\<lparr>pc_xq_head := h\<rparr>), reservations := reservations q, srv_resv_avail := srv_resv_avail q\<rparr>"
    using c(2) by simp
  have "held (c\<lparr>pc_xq_head := h\<rparr>) = held c" by (simp add: held_def owner_def)
  then show "pool_ok lk q' fs W" "same_refs q q'" using call_upd_ok [OF ok c(1) q'] pool_okD(3) [OF ok] by (simp_all add: resvs_ok_def)
qed

lemma new_call_ok:
  assumes ok: "pool_ok lk q fs W" and x: "x \<noteq> NULL" "calls q x = None" and c: "pc_n_resvs c = 0" "\<not> is_in_pkt_chain c" "0 < pc_refcnt c"
  shows "pool_ok lk (q\<lparr>calls := (calls q)(x \<mapsto> c)\<rparr>) fs W" "same_refs q (q\<lparr>calls := (calls q)(x \<mapsto> c)\<rparr>)"
proof -
  note k = pool_okD [OF ok]
  let ?q = "q\<lparr>calls := (calls q)(x \<mapsto> c)\<rparr>"
  have w: "wait_ok q w (W w)" "\<And>y. y \<in> set (W w) \<Longrightarrow> calls q y \<noteq> None" for w
    using k(4) nseg_elem [of pkt_chain "calls q" "wq_head w q" "W w" NULL] by (auto simp: waiters_ok_def wait_ok_def)
  have xn: "x \<notin> set (W w)" for w using w(2) x(2) by blast
  have "wait_ok ?q w (W w)" for w using w(1) [of w] xn [of w] by (simp add: wait_ok_def)
  moreover have "is_in_pkt_chain d \<longleftrightarrow> (\<exists>w. y \<in> set (W w))" if "calls ?q y = Some d" for y d
    using that k(4) xn c(2) by (cases "y = x") (auto simp: waiters_ok_def)
  ultimately have "waiters_ok ?q W" using k(4) unfolding waiters_ok_def by blast
  moreover have "refs_ok ?q" using k(5) c by (auto simp: refs_ok_def)
  moreover have "all_held ((calls q)(x \<mapsto> c)) = all_held (calls q)"
  proof -
    have d: "dom ((calls q)(x \<mapsto> c)) = insert x (dom (calls q))" "x \<notin> dom (calls q)" using x(2) by auto
    have "(\<Sum>y\<in>dom (calls q). held (the (((calls q)(x \<mapsto> c)) y))) = (\<Sum>y\<in>dom (calls q). held (the (calls q y)))"
      by (rule sum.cong) (use d in auto)
    moreover have "finite (dom (calls q))" using k(3) by (simp add: resvs_ok_def)
    ultimately show ?thesis unfolding all_held_def d(1) using d(2) held_nil [OF c(1)] by simp
  qed
  then have "resvs_ok lk ?q" using k(3) by (simp add: resvs_ok_def)
  moreover have "free_ok ?q fs = free_ok q fs" "counts_ok ?q = counts_ok q" "socks_ok ?q = socks_ok q"
    by (simp_all add: free_ok_def free_chain_def counts_ok_def avail_def socks_ok_def in_use_def)
  ultimately show "pool_ok lk ?q fs W" using k unfolding pool_ok_def by blast
  show "same_refs q ?q" using x(2) by (auto simp: same_refs_def)
qed

lemma new_socket_ok:
  assumes ok: "pool_ok lk q fs W" and s: "socks q s = None" and ab: "fresh a q" "fresh b q" "a \<noteq> b"
    and e: "\<not> is_on_free_list ea" "\<not> is_on_free_list eb" and k: "sk_xqe k = a" "sk_rqe k = b"
    and q': "q' = q\<lparr>elts := (elts q)(a \<mapsto> ea, b \<mapsto> eb), socks := (socks q)(s \<mapsto> k)\<rparr>"
  shows "pool_ok lk q' fs W" "same_refs q q'"
proof -
  note h = pool_okD [OF ok]
  have n: "nseg pe_next (elts q) (free_list q) fs NULL" using h(1) by (simp add: free_ok_def free_chain_def)
  have ns: "a \<notin> set fs" "b \<notin> set fs" using nseg_elem [OF n, of a] nseg_elem [OF n, of b] ab by (auto simp: fresh_def)
  have f0: "free_ok (q\<lparr>elts := (elts q)(a \<mapsto> ea)\<rparr>) fs" by (rule free_ok_upd [OF h(1) ns(1) e(1)])
  have "free_ok (q\<lparr>elts := (elts q)(a \<mapsto> ea, b \<mapsto> eb)\<rparr>) fs" using free_ok_upd [OF f0 ns(2) e(2)] by simp
  moreover have "free_ok q' fs = free_ok (q\<lparr>elts := (elts q)(a \<mapsto> ea, b \<mapsto> eb)\<rparr>) fs" by (simp add: q' free_ok_def free_chain_def)
  ultimately have "free_ok q' fs" by blast
  moreover have "counts_ok q' = counts_ok q" "resvs_ok lk q' = resvs_ok lk q" by (simp_all add: q' counts_ok_def resvs_ok_def avail_def)
  moreover have u: "in_use q' z" if "in_use q z \<or> z = a \<or> z = b" for z using that e ab by (auto simp: in_use_def q' fresh_def)
  have "socks_ok q'" unfolding socks_ok_def
  proof (intro allI impI)
    fix t l assume "socks q' t = Some l"
    then show "(sk_xqe l \<noteq> NULL \<longrightarrow> in_use q' (sk_xqe l)) \<and> (sk_rqe l \<noteq> NULL \<longrightarrow> in_use q' (sk_rqe l))"
      using h(6) k u by (cases "t = s") (auto simp: q' socks_ok_def)
  qed
  moreover have same: "calls q' = calls q" "pkt_waiters_head q' = pkt_waiters_head q" "pkt_waiters_tail q' = pkt_waiters_tail q"
    "rsv_waiters_head q' = rsv_waiters_head q" "rsv_waiters_tail q' = rsv_waiters_tail q" by (simp_all add: q')
  ultimately show "pool_ok lk q' fs W" "same_refs q q'" unfolding pool_ok_def using h waiters_same [OF same] by simp_all
qed

lemma shared_socket_ok:
  assumes ok: "pool_ok lk q fs W" and s: "socks q s = None" and k: "sk_xqe k = NULL" "sk_rqe k = NULL"
    and q': "q' = q\<lparr>socks := (socks q)(s \<mapsto> k)\<rparr>"
  shows "pool_ok lk q' fs W" "same_refs q q'"
proof -
  note h = pool_okD [OF ok]
  have "free_ok q' fs = free_ok q fs" "counts_ok q' = counts_ok q" "resvs_ok lk q' = resvs_ok lk q"
    by (simp_all add: q' free_ok_def free_chain_def counts_ok_def resvs_ok_def avail_def)
  moreover have "socks_ok q'" using h(6) k by (simp add: q' socks_ok_def in_use_def)
  moreover have same: "calls q' = calls q" "pkt_waiters_head q' = pkt_waiters_head q" "pkt_waiters_tail q' = pkt_waiters_tail q"
    "rsv_waiters_head q' = rsv_waiters_head q" "rsv_waiters_tail q' = rsv_waiters_tail q" by (simp_all add: q')
  ultimately show "pool_ok lk q' fs W" "same_refs q q'" unfolding pool_ok_def using h waiters_same [OF same] by simp_all
qed

lemma adjust_safe:
  assumes ok: "pool_ok lk q fs W" and a: "asks exact x q c d" and k: "skget (pc_sock_ref c) q = Some k" and n: "unat nreq < 256"
  shows "\<exists>r q' l fs' W'. rpc__dg_pkt_adjust_reservation x nreq block q = Some (r, q') \<and> pool_ok l q' fs' W' \<and> leaks exact lk l \<and> same_refs q q'"
proof -
  have c: "cget x q = Some c" "pc_refcnt (plain c) < 255" "pc_is_cbk c \<Longrightarrow> cget (pc_peer c) q = Some d"
    "exact \<Longrightarrow> pc_is_cbk c \<longrightarrow> owner d" using a by (simp_all add: asks_def live_call_def)
  from adjust_any [OF ok c(1) base_ref [OF c(2)] c(3) k n, of block] show ?thesis using leaks_mono [OF _ c(4)] by blast
qed

lemma adjust_woken_safe:
  assumes ok: "pool_ok lk q fs W" and a: "resumes exact x q c d n0" and n: "unat n0 < unat nreq" "unat nreq < 256"
  shows "\<exists>r q' l fs' W'. adjust_woken x nreq (how_many nreq (c\<lparr>pc_n_resvs := n0\<rparr>)) st q = Some (r, q') \<and>
    pool_ok l q' fs' W' \<and> leaks exact lk l \<and> same_refs q q'"
proof -
  have c: "cget x q = Some c" "pc_refcnt (plain c) < 255" "may_ask c d n0 q" "exact \<Longrightarrow> undisturbed c d n0"
    using a by (simp_all add: resumes_def live_call_def)
  from woken_any [OF ok c(1) base_ref [OF c(2)] c(3) n refl, of st] show ?thesis using leaks_mono [OF _ c(4)] by blast
qed

lemma run_kept: "pool_run exact p q \<Longrightarrow> kept exact p q"
proof (induction rule: pool_run.induct)
  case (alloc_xqe p q x c k d new blank xr q')
  have l: "cget x q = Some c" "pc_refcnt (plain c) < 255" using alloc_xqe.hyps(2) by (simp_all add: live_call_def)
  have d: "is_private k \<Longrightarrow> pc_n_resvs c = 0 \<Longrightarrow> pc_is_cbk c \<Longrightarrow> cget (pc_peer c) q = Some d \<and> (exact \<longrightarrow> owner d)"
    using alloc_xqe.hyps(4) by (simp add: asks_def)
  show ?case using alloc_xqe_safe [OF _ l alloc_xqe.hyps(3) d alloc_xqe.hyps(5)] alloc_xqe.hyps(6)
    by (intro kept_step [OF alloc_xqe.IH]) (metis option.inject prod.inject)
next
  case (xqe_woken p q x c new blank st xr q')
  then show ?case using woken_safe [of _ q _ _ x c new blank st] leaks_refl
    by (intro kept_step [OF xqe_woken.IH]) (metis live_call_def option.inject prod.inject)
next
  case (xqe_resv_woken p q x c d new blank st xr q')
  have a: "cget x q = Some c" "pc_refcnt (plain c) < 255" "may_ask c d 0 q" "exact \<Longrightarrow> undisturbed c d 0"
    using xqe_resv_woken.hyps(2) by (simp_all add: resumes_def live_call_def)
  show ?case using resv_woken_safe(1) [OF _ a xqe_resv_woken.hyps(3)] xqe_resv_woken.hyps(4)
    by (intro kept_step [OF xqe_resv_woken.IH]) (metis option.inject prod.inject)
next
  case (alloc_rqe p q x c k d new blank rr q')
  have a: "x \<noteq> NULL \<Longrightarrow> cget x q = Some c \<and> pc_refcnt (plain c) < 255 \<and> skget (pc_sock_ref c) q = Some k \<and>
      (pc_n_resvs c = 0 \<longrightarrow> pc_is_cbk c \<longrightarrow> cget (pc_peer c) q = Some d \<and> (exact \<longrightarrow> owner d)) \<and> (rqe_available k \<longrightarrow> sk_rqe k \<noteq> NULL)"
    using alloc_rqe.hyps(2) by (auto simp: asks_def live_call_def)
  show ?case using alloc_rqe_safe [OF _ a alloc_rqe.hyps(3)] alloc_rqe.hyps(4)
    by (intro kept_step [OF alloc_rqe.IH]) (metis option.inject prod.inject)
next
  case (rqe_resv_woken p q x c d new blank st rr q')
  have a: "cget x q = Some c" "pc_refcnt (plain c) < 255" "may_ask c d 0 q" "exact \<Longrightarrow> undisturbed c d 0"
    using rqe_resv_woken.hyps(2) by (simp_all add: resumes_def live_call_def)
  show ?case using resv_woken_safe(2) [OF _ a rqe_resv_woken.hyps(3)] rqe_resv_woken.hyps(4)
    by (intro kept_step [OF rqe_resv_woken.IH]) (metis option.inject prod.inject)
next
  case (adjust p q x c d k nreq block r q')
  show ?case using adjust_safe [OF _ adjust.hyps(2-4)] adjust.hyps(5)
    by (intro kept_step [OF adjust.IH]) (metis option.inject prod.inject)
next
  case (adjust_woken p q x c d n0 nreq st r q')
  show ?case using adjust_woken_safe [OF _ adjust_woken.hyps(2-4)] adjust_woken.hyps(5)
    by (intro kept_step [OF adjust_woken.IH]) (metis option.inject prod.inject)
next
  case (cancel p q conc x q')
  then have conc: "conc_ok exact conc" by (intro kept_conc) blast
  obtain c where c: "cget x q = Some c" using cancel.hyps(2) by (auto simp: rpc__dg_pkt_cancel_reservation_def bind_eq_Some_conv)
  show ?case using cancel_ok [OF _ c conc] cancel.hyps(2) by (intro kept_step [OF cancel.IH(1)]) fastforce
next
  case (free_xqe p q conc x xs y c q')
  then have conc: "conc_ok exact conc" by (intro kept_conc) blast
  show ?case using free_xqe_ok [OF _ free_xqe.hyps(3-5) _ conc free_xqe.hyps(2)] free_xqe.hyps(6,7)
    by (intro kept_step [OF free_xqe.IH(1)]) fastforce
next
  case (free_rqe p q conc x xs y q')
  then have conc: "conc_ok exact conc" by (intro kept_conc) blast
  show ?case using free_rqe_ok [OF _ free_rqe.hyps(3-5) conc free_rqe.hyps(2)] free_rqe.hyps(6)
    by (intro kept_step [OF free_rqe.IH(1)]) fastforce
next
  case (resize p q a b)
  show ?case using set_max_ok(1,2) [OF _ resize.hyps(2)] by (intro kept_same [OF resize.IH]) blast
next
  case (queue p q x h q')
  show ?case using queue_ok [OF _ queue.hyps(2)] by (intro kept_same [OF queue.IH]) blast
next
  case (new_call p q x c)
  show ?case using new_call_ok [OF _ new_call.hyps(2-6)] by (intro kept_same [OF new_call.IH]) blast
next
  case (new_socket p q s a b ea eb k)
  show ?case using new_socket_ok [OF _ new_socket.hyps(2-9) refl] by (intro kept_same [OF new_socket.IH]) blast
next
  case (shared_socket p q s k)
  show ?case using shared_socket_ok [OF _ shared_socket.hyps(2-4) refl] by (intro kept_same [OF shared_socket.IH]) blast
qed simp

section \<open>Who is woken\<close>


text \<open>The choice of the waiter depends on the counters and on what is plain in the calls.\<close>

lemma next_waiter_cong:
  assumes "reservations p' = reservations p" "avail p' = avail p" "srv_resv_avail p' = srv_resv_avail p"
    and c: "\<And>x. map_option (\<lambda>c. (pc_is_server c, pc_n_resvs_wait c)) (calls p' x) = map_option (\<lambda>c. (pc_is_server c, pc_n_resvs_wait c)) (calls p x)"
    and W: "\<And>w x. x \<in> set (W w) \<Longrightarrow> calls p x \<noteq> None"
  shows "next_waiter p' W = next_waiter p W"
proof -
  have f: "pc_is_server (the (calls p' x)) = pc_is_server (the (calls p x)) \<and> pc_n_resvs_wait (the (calls p' x)) = pc_n_resvs_wait (the (calls p x))"
    if "x \<in> set (W w)" for x w
    using W [OF that] c [of x] by (cases "calls p' x"; cases "calls p x") auto
  have "find (\<lambda>x. pc_is_server (the (calls p' x)) \<and> pc_n_resvs_wait (the (calls p' x)) \<le> 3) (W Rsv_waiters) =
      find (\<lambda>x. pc_is_server (the (calls p x)) \<and> pc_n_resvs_wait (the (calls p x)) \<le> 3) (W Rsv_waiters)"
    by (rule find_cong [OF refl]) (simp add: f [of _ Rsv_waiters])
  moreover have "W Rsv_waiters \<noteq> [] \<Longrightarrow> pc_n_resvs_wait (the (calls p' (hd (W Rsv_waiters)))) = pc_n_resvs_wait (the (calls p (hd (W Rsv_waiters))))"
    using f [of "hd (W Rsv_waiters)" Rsv_waiters] by simp
  ultimately show ?thesis unfolding next_waiter_def assms(1-3) by (cases "W Rsv_waiters = []") simp_all
qed

lemma waiters_calls:
  assumes "pool_ok lk p fs W" "x \<in> set (W w)"
  shows "\<exists>c. cget x p = Some c \<and> is_in_pkt_chain c"
proof -
  have "nseg pkt_chain (calls p) (wq_head w p) (W w) NULL" using pool_okD(4) [OF assms(1)] by (simp add: waiters_ok_def wait_ok_def)
  from nseg_elem [OF this assms(2)] obtain c where c: "calls p x = Some c" "x \<noteq> NULL" by blast
  then show ?thesis using pool_okD(4) [OF assms(1)] assms(2) by (auto simp: waiters_ok_def cget_iff)
qed

text \<open>The outcome of a scan, stated over the pool it leaves.\<close>

definition wakes :: "dg_pool \<Rightarrow> (addr \<Rightarrow> pool_call option) \<Rightarrow> (waitq \<Rightarrow> addr list) \<Rightarrow> (waitq \<Rightarrow> addr list) \<Rightarrow> bool" where
  "wakes p' m W W' \<longleftrightarrow> (case next_waiter p' W of
     None \<Rightarrow> W' = W \<and> pool_plain p' = m
   | Some y \<Rightarrow> W' = W(serving W := remove1 y (W (serving W))) \<and>
       (\<exists>c. m y = Some c \<and> pool_plain p' = m(y \<mapsto> c\<lparr>pc_signals := Suc (pc_signals c)\<rparr>)))"

lemma plain_same_waiting:
  assumes "pool_plain p' = pool_plain q \<or> (\<exists>y c. pool_plain q y = Some c \<and> pool_plain p' = (pool_plain q)(y \<mapsto> c\<lparr>pc_signals := Suc (pc_signals c)\<rparr>))"
  shows "map_option (\<lambda>c. (pc_is_server c, pc_n_resvs_wait c)) (calls p' x) = map_option (\<lambda>c. (pc_is_server c, pc_n_resvs_wait c)) (calls q x)"
proof -
  have g: "map_option (\<lambda>c. (pc_is_server c, pc_n_resvs_wait c)) (calls r x) = map_option (\<lambda>c. (pc_is_server c, pc_n_resvs_wait c)) (pool_plain r x)" for r
    by (cases "calls r x") (simp_all add: pool_plain_def)
  show ?thesis unfolding g using assms by auto
qed

lemma woken_wakes:
  assumes q: "pool_ok lk q fs W" and p': "pool_core p' = pool_core q" and w: "woken q W W' p'"
  shows "wakes (UPDATE_RATIONING_STATE p') (pool_plain q) W W'"
proof -
  have "pool_plain p' = pool_plain q \<or> (\<exists>y c. pool_plain q y = Some c \<and> pool_plain p' = (pool_plain q)(y \<mapsto> c\<lparr>pc_signals := Suc (pc_signals c)\<rparr>))"
    using w by (cases "next_waiter q W") (auto simp: woken_def)
  note s = plain_same_waiting [OF this]
  have "next_waiter (UPDATE_RATIONING_STATE p') W = next_waiter q W"
  proof (rule next_waiter_cong)
    show "map_option (\<lambda>c. (pc_is_server c, pc_n_resvs_wait c)) (calls (UPDATE_RATIONING_STATE p') x) =
        map_option (\<lambda>c. (pc_is_server c, pc_n_resvs_wait c)) (calls q x)" for x
      using s by (simp add: UPDATE_RATIONING_STATE_def)
    show "calls q x \<noteq> None" if "x \<in> set (W w)" for w x
      using waiters_calls [OF q that] by (auto simp: cget_iff)
  qed (use pool_core_fields [OF p'] core_ok(3) [OF p'] in \<open>simp_all add: UPDATE_RATIONING_STATE_def avail_def\<close>)
  moreover have "pool_plain (UPDATE_RATIONING_STATE p') = pool_plain p'" by (simp add: pool_plain_def)
  ultimately show ?thesis using w unfolding wakes_def woken_def by (cases "next_waiter q W") simp_all
qed

text \<open>A packet comes back.\<close>

lemma pkt_free_wakes:
  assumes ok: "pool_ok lk p fs W" and x: "returnable p x" and ol: "one_less p p1" and call: "cget call p = Some c"
  shows "\<exists>p' W'. pkt_free id x call p1 = Some p' \<and> pool_ok lk p' (fs @ [x]) W' \<and> avail p' = avail p + 1 \<and>
    unat (srv_resv_avail p') = unat (srv_resv_avail p) + min (5 - unat (srv_resv_avail p)) ((avail p + 1 - unat (reservations p)) div 3) \<and>
    (if avail p' \<le> unat (reservations p') then
       if is_in_pkt_chain c \<and> pc_xq_head c = NULL
       then W' = W(Pkt_waiters := remove1 call (W Pkt_waiters)) \<and>
         pool_plain p' = (pool_plain p)(call \<mapsto> (plain c)\<lparr>pc_signals := Suc (pc_signals c)\<rparr>)
       else W' = W \<and> pool_plain p' = pool_plain p
     else wakes p' (pool_plain p) W W')"
proof -
  have cc: "calls p call = Some c" "call \<noteq> NULL" using call by (simp_all add: cget_iff)
  from pkt_free_step [OF ok x ol, of call id] call obtain q where q: "pool_ok lk q (fs @ [x]) W" "calls q = calls p" "avail q = avail p + 1"
    "unat (srv_resv_avail q) = unat (srv_resv_avail p) + min (5 - unat (srv_resv_avail p)) ((avail p + 1 - unat (reservations p)) div 3)" and
    s: "pkt_free id x call p1 = map_option UPDATE_RATIONING_STATE (if RPC_DG_PKT_RATIONING q then
        if call \<noteq> NULL \<and> is_in_pkt_chain (the (calls p call)) \<and> pc_xq_head (the (calls p call)) = NULL
        then do { q \<leftarrow> dequeue_pool_waiter call Pkt_waiters q; pool_call_signal call q } else Some q
      else wake_scan id call q)" by auto
  note rat = avail_words(3) [OF pool_okD(2,3) [OF q(1)]]
  have pl: "pool_plain q = pool_plain p" using q(2) by (simp add: pool_plain_def)
  have srvU: "srv_resv_avail (UPDATE_RATIONING_STATE r) = srv_resv_avail r" "pool_plain (UPDATE_RATIONING_STATE r) = pool_plain r" for r
    by (simp_all add: UPDATE_RATIONING_STATE_def pool_plain_def)
  consider (self) "avail q \<le> unat (reservations q)" "is_in_pkt_chain c" "pc_xq_head c = NULL"
    | (idle) "avail q \<le> unat (reservations q)" "\<not> (is_in_pkt_chain c \<and> pc_xq_head c = NULL)"
    | (scan) "\<not> avail q \<le> unat (reservations q)" by metis
  then show ?thesis
  proof cases
    case self
    have "cget call q = Some c" using cc q(2) by (simp add: cget_def)
    have pq: "pool_plain p call = Some (plain c)" using cc by (simp add: pool_plain_def)
    from waiter_dequeue_ok [OF pool_okD(4,5) [OF q(1)], of call Pkt_waiters] obtain q1 where q1: "dequeue_pool_waiter call Pkt_waiters q = Some q1"
      "pool_core q1 = pool_core q" by blast
    from self_wake_ok [OF q(1) \<open>cget call q = Some c\<close>] obtain p' d where
      p': "(do { q \<leftarrow> dequeue_pool_waiter call Pkt_waiters q; pool_call_signal call q }) = Some p'"
      "pool_ok lk p' (fs @ [x]) (W(Pkt_waiters := remove1 call (W Pkt_waiters)))" "pool_plain q call = Some d"
      "pool_plain p' = (pool_plain q)(call \<mapsto> d\<lparr>pc_signals := Suc (pc_signals d)\<rparr>)" "same_pkts q p'" "reservations p' = reservations q" by blast
    have d: "d = plain c" using p'(3) pl pq by simp
    have "srv_resv_avail p' = srv_resv_avail q"
      using p'(1) q1 pool_core_fields(4) [OF q1(2)] by (auto simp: pool_call_signal_def cset_def bind_eq_Some_conv)
    then show ?thesis using s self p' q rat cc pl d
      by (intro exI [of _ "UPDATE_RATIONING_STATE p'"] exI [of _ "W(Pkt_waiters := remove1 call (W Pkt_waiters))"])
        (simp add: srvU same_pkts_def)
  next
    case idle
    then show ?thesis using s q rat cc pl
      by (intro exI [of _ "UPDATE_RATIONING_STATE q"] exI [of _ W]) (auto simp: srvU)
  next
    case scan
    from wake_scan_woken [OF q(1), of call] obtain p' W' where p': "wake_scan id call q = Some p'" "pool_ok lk p' (fs @ [x]) W'"
      "pool_core p' = pool_core q" "woken q W W' p'" by blast
    have "wakes (UPDATE_RATIONING_STATE p') (pool_plain p) W W'" using woken_wakes [OF q(1) p'(3,4)] pl by simp
    then show ?thesis using s scan rat p' q pool_core_fields [OF p'(3)] core_ok(3) [OF p'(3)]
      by (intro exI [of _ "UPDATE_RATIONING_STATE p'"] exI [of _ W']) (simp add: srvU)
  qed
qed

end
