(* ===== verification/DgPoolProps.thy ===== *)
theory DgPoolProps
  imports DgPoolRun
begin

text \<open>
  The properties of the packet pool (\<open>transport/dg/dgpkt.c\<close>): what holds after any run of the
  threads of a process, that no routine faults, and what each routine does, with sample pools on
  which they are applied.
\<close>

section \<open>Correctness\<close>



definition blank_elt :: pool_elt where
  "blank_elt = \<lparr>pe_next = 0, pe_more_data = 0, pe_frag_len = 0, pe_flags = 0, pe_body_len = 0, pe_serial_num = 0,
     pe_in_cwindow = False, pe_hdrp = 0, pe_sock_ref = 0, is_on_free_list = False\<rparr>"

definition blank_pool :: dg_pool where
  "blank_pool = \<lparr>max_pkt_count = 0, pkt_count = 0, reservations = 0, srv_resv_avail = 0, max_resv_pkt = 0, active_rqes = 0,
     active_xqes = 0, failed_alloc_rqe = 0, blocked_alloc_xqe = 0, free_count = 0, pl_is_rationing = False,
     pl_low_on_pkts = False, free_list = 0, free_list_tail = 0, pkt_waiters_head = 0, pkt_waiters_tail = 0,
     rsv_waiters_head = 0, rsv_waiters_tail = 0, elts = Map.empty, calls = Map.empty, socks = Map.empty\<rparr>"

lemma blank_pool_blank: "pool_blank blank_pool" "distinct [1..<49]" "NULL \<notin> set [1..<49]" "length [1..<49] = 48"
  by (simp_all add: pool_blank_def blank_pool_def)



text \<open>
  C8: asking for a reservation of more packets than the call has.  It is granted when the packets not
  reserved cover what is missing (and one for the stub, the first time); else a server's first
  reservation is taken from those set aside; else the call is refused, or waits at the end of the
  list.  A reservation held is never given up for another.
\<close>

theorem pool_reservation:
  assumes ok: "pool_ok lk p fs W" and c: "live_call x p c" "owner c" "\<not> is_in_pkt_chain c" and k: "skget (pc_sock_ref c) p = Some k"
    and n: "unat (pc_n_resvs c) < unat nreq" "unat nreq < 256"
    and how: "how = unat nreq - unat (pc_n_resvs c) + (if pc_n_resvs c = 0 then 1 else 0)"
  shows "\<exists>r p' W'. rpc__dg_pkt_adjust_reservation x nreq block p = Some (r, p') \<and> pool_ok lk p' fs W' \<and> avail p' = avail p \<and>
    (if unat (reservations p) + how \<le> avail p then
       r = Resv True \<and> W' = W \<and> pool_plain p' = (pool_plain p)(x \<mapsto> (plain c)\<lparr>pc_n_resvs := ucast nreq\<rparr>)
     else if pc_n_resvs c = 0 \<and> pc_is_server c \<and> srv_resv_avail p \<noteq> 0 \<and> how \<le> 3 then
       r = Resv True \<and> W' = W \<and> pool_plain p' = (pool_plain p)(x \<mapsto> (plain c)\<lparr>pc_n_resvs := 2\<rparr>)
     else if block then
       r = Resv_wait \<and> W' = W(Rsv_waiters := W Rsv_waiters @ [x]) \<and>
       pool_plain p' = (pool_plain p)(x \<mapsto> (plain c)\<lparr>pc_n_resvs_wait := of_nat how\<rparr>)
     else r = Resv False \<and> p' = p)"
proof -
  have cg: "cget x p = Some c" "pc_refcnt (plain c) < 255" using c(1) by (simp_all add: live_call_def)
  have s: "rpc__dg_pkt_adjust_reservation x nreq block p = adjust_turn x nreq (how_many nreq c) block p"
    using adjust_owner [OF cg(1) c(2) k] n(1) by (simp add: le_ucast_u8)
  have h: "unat (how_many nreq c) = how" using how_many_val(1) [OF n c(2)] how by simp
  have u: "ucast (how_many nreq c) = (of_nat how :: u8)" unfolding h [symmetric] by (rule of_nat_unat [symmetric])
  have xn: "x \<notin> set (W Rsv_waiters)" using pool_okD(4) [OF ok] c(3) cg(1) unfolding waiters_ok_def cget_iff by blast
  have W: "W(Rsv_waiters := remove1 x (W Rsv_waiters)) = W" using xn by (simp add: remove1_idem)
  show ?thesis
  proof (cases "resv_branch p c (how_many nreq c) = 0")
    case False
    from adjust_turn_granted [OF ok cg(1) c(2) n False, of block] W obtain p' where
      "adjust_turn x nreq (how_many nreq c) block p = Some (Resv True, p')" "pool_ok lk p' fs W" "same_pkts p p'"
      "pool_plain p' = (pool_plain p)(x \<mapsto> (plain c)\<lparr>pc_n_resvs := resv_gained p c nreq\<rparr>)" by auto
    then show ?thesis unfolding s using False
      by (intro exI [of _ "Resv True"] exI [of _ p'] exI [of _ W]) (auto simp: h same_pkts_def resv_gained_def resv_branch_def split: if_splits)
  next
    case True
    note d = adjust_turn_denied [OF ok cg(1) c(2) n True]
    have br: "\<not> unat (reservations p) + how \<le> avail p" "\<not> (pc_n_resvs c = 0 \<and> pc_is_server c \<and> srv_resv_avail p \<noteq> 0 \<and> how \<le> 3)"
      using True by (auto simp: resv_branch_def h split: if_splits)
    show ?thesis
    proof (cases block)
      case False
      then show ?thesis unfolding s using d(1) ok br
        by (intro exI [of _ "Resv False"] exI [of _ p] exI [of _ W]) auto
    next
      case True
      from d(2) base_ref [OF cg(2)] c(3) obtain p' where "adjust_turn x nreq (how_many nreq c) True p = Some (Resv_wait, p')"
        "pool_ok lk p' fs (W(Rsv_waiters := W Rsv_waiters @ [x]))" "same_pkts p p'"
        "pool_plain p' = (pool_plain p)(x \<mapsto> (plain c)\<lparr>pc_n_resvs_wait := of_nat how\<rparr>)" using u by auto
      then show ?thesis unfolding s using True br
        by (intro exI [of _ Resv_wait] exI [of _ p'] exI [of _ "W(Rsv_waiters := W Rsv_waiters @ [x])"]) (auto simp: same_pkts_def)
    qed
  qed
qed

text \<open>A pool with a shared socket and one call on it.\<close>

definition sample_pcall :: "bool \<Rightarrow> u8 \<Rightarrow> pool_call" where
  "sample_pcall srv n = \<lparr>pc_is_server = srv, pc_is_cbk = False, pc_peer = 0, pc_way = 0, pc_n_resvs = n, pc_n_resvs_wait = 0,
     is_in_pkt_chain = False, pkt_chain = 0, pc_xq_head = 0, pc_sock_ref = 7, pc_refcnt = 1, pc_signals = 0\<rparr>"

definition sample_sock :: pool_sock where
  "sample_sock = \<lparr>is_private = False, sk_xqe = 0, sk_rqe = 0, rqe_available = False\<rparr>"

definition started :: dg_pool where
  "started = the (rpc__dg_pkt_pool_init [1..<49] blank_elt blank_pool)"

definition sample_pool :: "bool \<Rightarrow> dg_pool" where
  "sample_pool srv = started\<lparr>socks := [7 \<mapsto> sample_sock], calls := [100 \<mapsto> sample_pcall srv 0]\<rparr>"

lemma started_ok:
  "pool_ok 0 started (rev [1..<49]) (\<lambda>_. [])" "avail started = 100000" "reservations started = 17" "srv_resv_avail started = 5"
  "calls started = Map.empty" "socks started = Map.empty" "max_pkt_count started = 100000" "\<forall>x. x \<notin> set [1..<49] \<longrightarrow> elts started x = None"
  using pool_init_ok [OF blank_pool_blank, of blank_elt] unfolding started_def by auto

lemma sample_pool_ok:
  "pool_ok 0 (sample_pool srv) (rev [1..<49]) (\<lambda>_. [])" "avail (sample_pool srv) = 100000" "reservations (sample_pool srv) = 17"
  "srv_resv_avail (sample_pool srv) = 5"
proof -
  have q: "pool_ok 0 (started\<lparr>socks := (socks started)(7 \<mapsto> sample_sock)\<rparr>) (rev [1..<49]) (\<lambda>_. [])" (is "pool_ok 0 ?q _ _")
    by (rule shared_socket_ok [OF started_ok(1) _ _ _ refl]) (simp_all add: started_ok sample_sock_def)
  have "pool_ok 0 (?q\<lparr>calls := (calls ?q)(100 \<mapsto> sample_pcall srv 0)\<rparr>) (rev [1..<49]) (\<lambda>_. [])"
    by (rule new_call_ok [OF q]) (simp_all add: started_ok sample_pcall_def)
  then show "pool_ok 0 (sample_pool srv) (rev [1..<49]) (\<lambda>_. [])" by (simp add: sample_pool_def started_ok)
  show "avail (sample_pool srv) = 100000" "reservations (sample_pool srv) = 17" "srv_resv_avail (sample_pool srv) = 5"
    using started_ok(2-4) by (simp_all add: sample_pool_def avail_def)
qed

lemma sample_pool_call:
  "live_call 100 (sample_pool srv) (sample_pcall srv 0)" "skget 7 (sample_pool srv) = Some sample_sock" "owner (sample_pcall srv 0)"
  "\<not> is_in_pkt_chain (sample_pcall srv 0)" "pc_sock_ref (sample_pcall srv 0) = 7" "pc_n_resvs (sample_pcall srv 0) = 0"
  by (simp_all add: live_call_def cget_def skget_def sample_pool_def sample_pcall_def sample_sock_def owner_def plain_def)

lemma sample_fresh: "49 \<le> x \<Longrightarrow> fresh x (sample_pool srv)"
  using started_ok(8) by (auto simp: fresh_def sample_pool_def)


theorem pool_reservation_witness:
  "\<exists>p' W'. rpc__dg_pkt_adjust_reservation 100 2 True (sample_pool False) = Some (Resv True, p') \<and> pool_ok 0 p' (rev [1..<49]) W'"
  using pool_reservation [OF sample_pool_ok(1) sample_pool_call(1,3,4), of False sample_sock 2 3 True] sample_pool_call(2,5,6)
  by (auto simp: sample_pool_ok)

text \<open>
  C15: giving a reservation up returns its packets and the one for the stub, part of which is set aside
  for servers again; then at most one waiting call is woken.
\<close>

theorem pool_cancel:
  assumes ok: "pool_ok lk p fs W" and c: "cget x p = Some c" "owner c" "pc_n_resvs c \<noteq> 0"
  shows "\<exists>p' W'. rpc__dg_pkt_cancel_reservation id x p = Some p' \<and> pool_ok lk p' fs W' \<and> avail p' = avail p \<and>
    unat (srv_resv_avail p') = unat (srv_resv_avail p)
      + min (5 - unat (srv_resv_avail p)) ((avail p - (unat (reservations p) - (unat (pc_n_resvs c) + 1))) div 3) \<and>
    wakes p' ((pool_plain p)(x \<mapsto> (plain c)\<lparr>pc_n_resvs := 0\<rparr>)) W W'"
proof -
  from cancel_step [OF ok c, of id] obtain q where q: "pool_ok lk q fs W" "same_pkts p q"
    "pool_plain q = (pool_plain p)(x \<mapsto> (plain c)\<lparr>pc_n_resvs := 0\<rparr>)"
    "unat (srv_resv_avail q) = unat (srv_resv_avail p)
      + min (5 - unat (srv_resv_avail p)) ((avail p - (unat (reservations p) - (unat (pc_n_resvs c) + 1))) div 3)"
    "rpc__dg_pkt_cancel_reservation id x p = map_option UPDATE_RATIONING_STATE (wake_scan id x q)" by blast
  from wake_scan_woken [OF q(1), of x] obtain p' W' where p': "wake_scan id x q = Some p'" "pool_ok lk p' fs W'"
    "pool_core p' = pool_core q" "woken q W W' p'" by blast
  have "wakes (UPDATE_RATIONING_STATE p') ((pool_plain p)(x \<mapsto> (plain c)\<lparr>pc_n_resvs := 0\<rparr>)) W W'"
    using woken_wakes [OF q(1) p'(3,4)] q(3) by simp
  moreover have "srv_resv_avail (UPDATE_RATIONING_STATE p') = srv_resv_avail q"
    using pool_core_fields(4) [OF p'(3)] by (simp add: UPDATE_RATIONING_STATE_def)
  ultimately show ?thesis using q p' core_ok(3) [OF p'(3)]
    by (intro exI [of _ "UPDATE_RATIONING_STATE p'"] exI [of _ W']) (simp add: same_pkts_def)
qed

text \<open>
  C10: a packet given back goes to the end of the free list, and reservations are set aside for servers
  again as far as there are packets for them.  If packets are rationed still, only the call whose
  packet it is can be woken, when it waits with an empty queue; else at most one waiter is: the first
  for a reservation if that can be granted now, or a server call that one of those set aside suits,
  and only without such waiters the first that waits for a packet.
\<close>

theorem pool_free_wakes:
  assumes ok: "pool_ok lk p fs W" and x: "returnable p x" and ol: "one_less p p1" and call: "cget call p = Some c"
  shows "\<exists>p' W'. pkt_free id x call p1 = Some p' \<and> pool_ok lk p' (fs @ [x]) W' \<and> avail p' = avail p + 1 \<and>
    unat (srv_resv_avail p') = unat (srv_resv_avail p) + min (5 - unat (srv_resv_avail p)) ((avail p + 1 - unat (reservations p)) div 3) \<and>
    (if avail p' \<le> unat (reservations p') then
       if is_in_pkt_chain c \<and> pc_xq_head c = NULL
       then W' = W(Pkt_waiters := remove1 call (W Pkt_waiters)) \<and>
         pool_plain p' = (pool_plain p)(call \<mapsto> (plain c)\<lparr>pc_signals := Suc (pc_signals c)\<rparr>)
       else W' = W \<and> pool_plain p' = pool_plain p
     else wakes p' (pool_plain p) W W')"
  by (rule pkt_free_wakes [OF ok x ol call])

text \<open>
  C34: a reservation is granted twice.  A call waits for its first reservation, of \<open>nreq\<close> packets, and
  meanwhile another thread grants it one (the listener asks for the call without blocking, when it
  answers with a fack): the call holds \<open>pc_n_resvs c\<close> packets when it goes on.  It takes what it found
  missing before it waited, all \<open>nreq\<close> and the one for the stub, again, and the reservation it held is
  overwritten.  When the call then gives its reservation up, the first grant stays in the count: all
  the packets of it, and the one for the stub, have leaked.
\<close>

theorem pool_double_grant:
  assumes ok: "pool_ok lk p fs W" and c: "live_call x p c" "owner c" "pc_n_resvs c \<noteq> 0"
    and n: "0 < unat nreq" "unat nreq < 256" and room: "unat (reservations p) + unat nreq + 1 \<le> avail p"
  shows "\<exists>p' d W'. adjust_woken x nreq (how_many nreq (c\<lparr>pc_n_resvs := 0\<rparr>)) 0 p = Some (Resv True, p') \<and>
    unat (reservations p') = unat (reservations p) + unat nreq + 1 \<and> cget x p' = Some d \<and> unat (pc_n_resvs d) = unat nreq \<and>
    pool_ok (lk + unat (pc_n_resvs c) + 1) p' fs W' \<and>
    (\<exists>q V. rpc__dg_pkt_cancel_reservation id x p' = Some q \<and> pool_ok (lk + unat (pc_n_resvs c) + 1) q fs V)"
proof -
  note ko = pool_okD [OF ok]
  have cx: "cget x p = Some c" "calls p x = Some c" "x \<noteq> NULL" "pc_refcnt (plain c) < 255" using c(1) by (simp_all add: live_call_def cget_iff)
  let ?how = "how_many nreq (c\<lparr>pc_n_resvs := 0\<rparr>)" and ?c = "c\<lparr>pc_n_resvs := ucast nreq\<rparr>" and ?l = "lk + unat (pc_n_resvs c) + 1"
  have "unat (0 :: u8) < unat nreq" using n(1) by simp
  from how_many_unat [OF this n(2), of c] have hv: "unat ?how = unat nreq + 1" by simp
  have un: "unat (ucast nreq :: u8) = unat nreq" by (rule ucast_small [OF n(2)])
  then have unz: "(ucast nreq :: u8) \<noteq> 0" using n(1) by (metis less_numeral_extra(3) unat_0)
  have ra: "RESERVATION_AVAILABLE ?how p"
    by (subst avail_words(4) [OF ko(2,3)]) (use hv n room in simp_all)
  have b: "unat (srv_resv_avail p) \<le> 5" "avail p \<le> unat (max_pkt_count p)" "unat (max_pkt_count p) < 2 ^ 31"
    using ko(2,3) by (simp_all add: resvs_ok_def counts_ok_def)
  have r: "unat (reservations p + ?how) = unat (reservations p) + unat nreq + 1" using hv room b by (simp add: unat_add_mod)
  define p1 where "p1 = p\<lparr>calls := (calls p)(x \<mapsto> ?c), reservations := reservations p + ?how, srv_resv_avail := srv_resv_avail p\<rparr>"
  have h: "held c = unat (pc_n_resvs c) + 1" "held ?c = unat nreq + 1" using c(2,3) un unz by (simp_all add: held_def owner_def)
  have p1: "pool_ok ?l p1 fs W"
    using call_upd_leak(1) [OF ok cx(2) p1_def, of ?l] b r h room by simp
  have c1: "cget x p1 = Some ?c" "\<not> pc_is_cbk ?c" using cx c(2) by (simp_all add: p1_def cget_def owner_def)
  from adjust_leave_ok [OF p1 c1, of True] obtain p' where
    p': "adjust_leave x True p1 = Some (Resv True, p')" "pool_ok ?l p' fs (W(Rsv_waiters := remove1 x (W Rsv_waiters)))"
      "pool_plain p' = pool_plain p1" "reservations p' = reservations p1" by blast
  have t: "adjust_woken x nreq ?how 0 p = Some (Resv True, p')"
    using ra cx p'(1) unfolding p1_def resv_upd_order [symmetric] by (simp add: adjust_woken_def adjust_turn_def cget_def cset_def)
  have "pool_plain p' x = Some (plain ?c)" using p'(3) by (simp add: pool_plain_def p1_def)
  then obtain d where d: "calls p' x = Some d" "plain d = plain ?c" by (auto simp: pool_plain_def)
  have nd: "pc_n_resvs d = ucast nreq" using plain_fields(5) [of d] plain_fields(5) [of ?c] d(2) by simp
  have od: "owner d" using plain_fields(1,2,4) [of d] plain_fields(1,2,4) [of ?c] d(2) c(2) by (simp add: owner_def)
  have cd: "cget x p' = Some d" "pc_n_resvs d \<noteq> 0" using d(1) cx(3) nd unz by (simp_all add: cget_iff)
  from cancel_step [OF p'(2) cd(1) od cd(2), of id] obtain q where q: "pool_ok ?l q fs (W(Rsv_waiters := remove1 x (W Rsv_waiters)))"
    "rpc__dg_pkt_cancel_reservation id x p' = map_option UPDATE_RATIONING_STATE (wake_scan id x q)" by blast
  from wake_scan_woken [OF q(1), of x] obtain p2 V where "wake_scan id x q = Some p2" "pool_ok ?l p2 fs V" by blast
  then have "\<exists>q V. rpc__dg_pkt_cancel_reservation id x p' = Some q \<and> pool_ok ?l q fs V" using q(2) by auto
  moreover have "unat (reservations p') = unat (reservations p) + unat nreq + 1" using p'(4) r by (simp add: p1_def)
  ultimately show ?thesis using t p'(2) cd(1) nd un by auto
qed

section \<open>Allocation\<close>

text \<open>
  C14: allocating a packet for the transmit queue, once the call has its reservation.  A private socket
  hands out the packet it keeps.  Otherwise a call that has packets queued waits for its turn while
  packets are rationed; a call with an empty queue, or any call while they are not, takes the head of
  the free list, or a new packet, and it fails only if there is none.
\<close>

theorem pool_alloc_xqe:
  assumes ok: "pool_ok lk p fs W" and c: "live_call x p c" and k: "skget (pc_sock_ref c) p = Some k" and new: "fresh new p"
    and r: "is_private k \<longrightarrow> sk_xqe k \<noteq> NULL \<or> pc_n_resvs c \<noteq> 0"
  shows "\<exists>r p' fs' W'. rpc__dg_pkt_alloc_xqe x new blank p = Some (r, p') \<and> pool_ok lk p' fs' W' \<and>
    (if is_private k \<and> sk_xqe k \<noteq> NULL then r = Xqe (sk_xqe k) \<and> fs' = fs \<and> W' = W \<and> avail p' = avail p
     else if avail p \<le> unat (reservations p) \<and> pc_xq_head c \<noteq> NULL then
       r = Xqe_wait \<and> fs' = fs \<and> W' = (if is_in_pkt_chain c then W else W(Pkt_waiters := W Pkt_waiters @ [x])) \<and> avail p' = avail p
     else W' = W(Pkt_waiters := remove1 x (W Pkt_waiters)) \<and>
       (if avail p = 0 then r = Xqe_error rpc_s_coding_error \<and> fs' = fs \<and> avail p' = 0
        else r = Xqe (if fs = [] then new else hd fs) \<and> fs' = tl fs \<and> in_use p' (if fs = [] then new else hd fs) \<and>
          avail p' + 1 = avail p))"
proof -
  have cg: "cget x p = Some c" "pc_refcnt (plain c) < 255" using c by (simp_all add: live_call_def)
  note t = xqe_turn_ok [OF ok cg(1) base_ref [OF cg(2)] new, of blank]
  show ?thesis
  proof (cases "is_private k \<and> sk_xqe k \<noteq> NULL")
    case True
    then obtain q where "rpc__dg_pkt_alloc_xqe x new blank p = Some (Xqe (sk_xqe k), q)" "pool_ok lk q fs W" "avail q = avail p"
      using alloc_xqe_kept [OF ok cg(1) k] by blast
    then show ?thesis using True by auto
  next
    case False
    then have a: "rpc__dg_pkt_alloc_xqe x new blank p = xqe_turn x new blank p" using cg(1) k r by (auto simp: rpc__dg_pkt_alloc_xqe_def)
    show ?thesis
    proof (cases "avail p \<le> unat (reservations p) \<and> pc_xq_head c \<noteq> NULL")
      case True
      then obtain p' where "xqe_turn x new blank p = Some (Xqe_wait, p')"
        "pool_ok lk p' fs (if is_in_pkt_chain c then W else W(Pkt_waiters := W Pkt_waiters @ [x]))" "same_pkts p p'" using t(1) by blast
      then show ?thesis unfolding a if_not_P [OF False] if_P [OF True] by (auto simp: same_pkts_def)
    next
      case nw: False
      show ?thesis
      proof (cases "avail p = 0")
        case True
        then obtain p' where "xqe_turn x new blank p = Some (Xqe_error rpc_s_coding_error, p')"
          "pool_ok lk p' fs (W(Pkt_waiters := remove1 x (W Pkt_waiters)))" "same_pkts p p'" using t(3) nw by blast
        then show ?thesis unfolding a if_not_P [OF False] if_not_P [OF nw] using True by (auto simp: same_pkts_def)
      next
        case av: False
        then obtain p' where "xqe_turn x new blank p = Some (Xqe (if fs = [] then new else hd fs), p')"
          "pool_ok lk p' (tl fs) (W(Pkt_waiters := remove1 x (W Pkt_waiters)))" "in_use p' (if fs = [] then new else hd fs)" "avail p' + 1 = avail p"
          using t(2) nw by blast
        then show ?thesis unfolding a if_not_P [OF False] if_not_P [OF nw] if_not_P [OF av] by blast
      qed
    qed
  qed
qed

theorem pool_alloc_xqe_witness:
  "\<exists>p'. rpc__dg_pkt_alloc_xqe 100 60 blank_elt (sample_pool True) = Some (Xqe 48, p') \<and> avail p' = 99999"
  using pool_alloc_xqe [OF sample_pool_ok(1) sample_pool_call(1), where srv1 = True and k = sample_sock and new = 60 and blank = blank_elt] sample_pool_call(2,5)
    sample_fresh [of 60 True]
  by (auto simp: sample_pool_ok sample_sock_def sample_pcall_def hd_rev)

text \<open>
  C37: a call whose wait for its reservation is cut short (\<open>st\<close> is not 0) still gets a packet: the
  outcome of \<open>rpc__dg_pkt_adjust_reservation\<close> is not looked at, and the call has no reservation after it.
\<close>

theorem pool_unreserved_alloc:
  assumes ok: "pool_ok lk p fs W" and c: "live_call x p c" "owner c" "pc_n_resvs c = 0" "pc_xq_head c = NULL"
    and av: "0 < avail p" and new: "fresh new p" and st: "st \<noteq> 0"
  shows "\<exists>p' d W'. xqe_resv_woken x new blank how st p = Some (Xqe (if fs = [] then new else hd fs), p') \<and> pool_ok lk p' (tl fs) W' \<and>
    cget x p' = Some d \<and> pc_n_resvs d = 0 \<and> avail p' + 1 = avail p"
proof -
  have cg: "cget x p = Some c" "pc_refcnt (plain c) < 255" using c(1) by (simp_all add: live_call_def)
  have "\<not> pc_is_cbk c" using c(2) by (simp add: owner_def)
  from adjust_leave_ok [OF ok cg(1) this, of False] obtain q where
    q: "adjust_leave x False p = Some (Resv False, q)" "pool_ok lk q fs (W(Rsv_waiters := remove1 x (W Rsv_waiters)))" "same_refs p q" "same_pkts p q"
    "pool_plain q = pool_plain p" by auto
  have "pool_plain q x = Some (plain c)" using q(5) cg(1) by (simp add: pool_plain_def cget_iff)
  then obtain d where d: "calls q x = Some d" "plain d = plain c" by (auto simp: pool_plain_def)
  have dq: "cget x q = Some d" "pc_refcnt (plain d) < 255" using d cg by (simp_all add: cget_iff)
  have pd: "pc_xq_head d = NULL" "pc_n_resvs d = 0" using plain_fields(5,7) [of d] plain_fields(5,7) [of c] d(2) c(3,4) by simp_all
  have "avail q = avail p" "fresh new q" using q(4) new fresh_same [OF q(4)] by (simp_all add: same_pkts_def)
  with xqe_turn_ok(2) [OF q(2) dq(1) base_ref [OF dq(2)], of new blank] av pd(1) obtain p' V where
    p': "xqe_turn x new blank q = Some (Xqe (if fs = [] then new else hd fs), p')" "pool_ok lk p' (tl fs) V" "avail p' + 1 = avail q"
    "pool_plain p' = pool_plain q" by auto
  have "pool_plain p' x = Some (plain d)" using p'(4) d(1) by (simp add: pool_plain_def)
  then obtain e where e: "calls p' x = Some e" "plain e = plain d" by (auto simp: pool_plain_def)
  have "pc_n_resvs e = 0" using plain_fields(5) [of e] plain_fields(5) [of d] e(2) pd(2) by simp
  moreover have "cget x p' = Some e" using e(1) cg(1) by (simp add: cget_iff)
  moreover have "xqe_resv_woken x new blank how st p = xqe_turn x new blank q"
    using q(1) st by (simp add: xqe_resv_woken_def adjust_woken_def xqe_resv_done_def)
  ultimately show ?thesis using p' \<open>avail q = avail p\<close> by auto
qed

theorem pool_unreserved_alloc_witness:
  "\<exists>p' d. xqe_resv_woken 100 60 blank_elt 2 1 (sample_pool False) = Some (Xqe 48, p') \<and> cget 100 p' = Some d \<and> pc_n_resvs d = 0"
proof -
  have f: "fresh 60 (sample_pool False)" "0 < avail (sample_pool False)" "pc_xq_head (sample_pcall False 0) = NULL" "(1 :: u32) \<noteq> 0"
    using sample_fresh [of 60 False] sample_pool_ok(2) by (simp_all add: sample_pcall_def)
  from pool_unreserved_alloc [OF sample_pool_ok(1) sample_pool_call(1,3,6) f(3,2,1,4), of blank_elt 2] show ?thesis by (auto simp: hd_rev)
qed

section \<open>The lists and the size of the pool\<close>

text \<open>
  C21: \<open>dequeue_pool_waiter\<close>, which searches the list with a pointer behind and mends head, tail or the
  link before, is the removal of the call from the list; it forgets the reference of the list and
  changes nothing else, and a call that is not on the list is left alone.
\<close>

theorem pool_dequeue:
  assumes "pool_ok lk p fs W"
  shows "\<exists>p'. dequeue_pool_waiter x w p = Some p' \<and> pool_ok lk p' fs (W(w := remove1 x (W w))) \<and> pool_plain p' = pool_plain p \<and>
    reservations p' = reservations p \<and> avail p' = avail p"
  using dequeue_pool_ok [OF assms, of x w] by (auto simp: same_pkts_def)

theorem pool_dequeue_witness: "\<exists>p'. dequeue_pool_waiter 100 Pkt_waiters (sample_pool True) = Some p' \<and> avail p' = 100000"
  using pool_dequeue [OF sample_pool_ok(1), of 100 Pkt_waiters True] sample_pool_ok(2) by auto

text \<open>
  C28: \<open>rpc_mgmt_get_max_concurrency\<close> answers what \<open>rpc_mgmt_set_max_concurrency\<close> was given, or what it
  answered before, if that is more.
\<close>

theorem pool_max_concurrency:
  assumes ok: "pool_ok lk p fs W" and n: "3 * (unat a + unat b) + 2 < 2 ^ 31"
  shows "fst (rpc_mgmt_set_max_concurrency a b p) = 0 \<and> pool_ok lk (snd (rpc_mgmt_set_max_concurrency a b p)) fs W \<and>
    unat (rpc_mgmt_get_max_concurrency (snd (rpc_mgmt_set_max_concurrency a b p))) = max (unat (rpc_mgmt_get_max_concurrency p)) (unat a + unat b)"
proof -
  note s = set_max_ok [OF assms]
  have d: "(max m (3 * k + 2) - 2) div 3 = max ((m - 2) div 3) k" for m k :: nat
    by (cases "m \<le> 3 * k + 2") (simp_all add: max_def div_le_mono, linarith+)
  have "fst (rpc_mgmt_set_max_concurrency a b p) = 0" by (simp add: rpc_mgmt_set_max_concurrency_def Let_def)
  then show ?thesis using s(1) d unfolding get_max_val [OF s(1)] get_max_val [OF ok] s(3) by simp
qed

theorem pool_max_concurrency_witness:
  "unat (rpc_mgmt_get_max_concurrency (snd (rpc_mgmt_set_max_concurrency 40000 10000 (sample_pool True)))) =
    max (unat (rpc_mgmt_get_max_concurrency (sample_pool True))) 50000"
  using pool_max_concurrency [OF sample_pool_ok(1), of 40000 10000 True] by simp

text \<open>
  C39: what \<open>rpc_mgmt_set_max_concurrency\<close> does to any request: the sum, the product by 3 and the sum
  of it and 2 are those of 32 bits.  The pool grows to \<open>n\<close> packets, that can be allocated, if \<open>n\<close> is more
  than it had, nothing else changes, and the status is \<open>rpc_s_ok\<close> always: a request of
  1431655766 calls, for which \<open>n\<close> is 4, has no effect and reports success.
\<close>

theorem pool_set_max_wraps:
  assumes "pool_ok lk p fs W"
  shows "let n = (3 * ((unat a + unat b) mod 2 ^ 32) + 2) mod 2 ^ 32 in
    \<exists>q. rpc_mgmt_set_max_concurrency a b p = (0, q) \<and>
      unat (max_pkt_count q) = max (unat (max_pkt_count p)) n \<and>
      unat (pkt_count q) = unat (pkt_count p) + (n - unat (max_pkt_count p)) \<and>
      q = p\<lparr>pkt_count := pkt_count q, max_pkt_count := max_pkt_count q\<rparr>"
proof -
  define n where "n = (3 * ((unat a + unat b) mod 2 ^ 32) + 2) mod 2 ^ 32"
  have m: "max_resv_pkt p = 2" "avail p \<le> unat (max_pkt_count p)" "unat (max_pkt_count p) < 2 ^ 31"
    using pool_okD(2,3) [OF assms] by (simp_all add: resvs_ok_def counts_ok_def)
  let ?n = "(max_resv_pkt p + 1) * (a + b) + RPC_C_DG_MAX_NUM_PKTS_IN_FRAG"
  have e: "(3 * (x mod k) + 2) mod k = (3 * x + 2) mod k" for x k :: nat by (metis mod_add_left_eq mod_mult_right_eq)
  have v: "unat ?n = n" unfolding m(1) RPC_C_DG_MAX_NUM_PKTS_IN_FRAG_def n_def e
    by (simp add: unat_word_ariths mod_simps)
  have gt: "?n > max_pkt_count p \<longleftrightarrow> n > unat (max_pkt_count p)" by (simp only: word_less_nat_alt v)
  have nb: "n < 2 ^ 32" by (simp add: n_def)
  show ?thesis unfolding n_def [symmetric] Let_def
  proof (cases "n > unat (max_pkt_count p)")
    case False
    then show "\<exists>q. rpc_mgmt_set_max_concurrency a b p = (0, q) \<and> unat (max_pkt_count q) = max (unat (max_pkt_count p)) n \<and>
      unat (pkt_count q) = unat (pkt_count p) + (n - unat (max_pkt_count p)) \<and> q = p\<lparr>pkt_count := pkt_count q, max_pkt_count := max_pkt_count q\<rparr>"
      using gt by (intro exI [of _ p]) (simp add: rpc_mgmt_set_max_concurrency_def Let_def)
  next
    case True
    have d: "unat (?n - max_pkt_count p) = n - unat (max_pkt_count p)" using True v by (simp add: unat_sub word_le_nat_alt)
    have "unat (pkt_count p) \<le> unat (max_pkt_count p)" using m(2) by (simp add: avail_def)
    then have "unat (pkt_count p + (?n - max_pkt_count p)) = unat (pkt_count p) + (n - unat (max_pkt_count p))"
      using d nb True by (simp add: unat_add_mod)
    then show "\<exists>q. rpc_mgmt_set_max_concurrency a b p = (0, q) \<and> unat (max_pkt_count q) = max (unat (max_pkt_count p)) n \<and>
      unat (pkt_count q) = unat (pkt_count p) + (n - unat (max_pkt_count p)) \<and> q = p\<lparr>pkt_count := pkt_count q, max_pkt_count := max_pkt_count q\<rparr>"
      using True gt v
      by (intro exI [of _ "p\<lparr>pkt_count := pkt_count p + (?n - max_pkt_count p), max_pkt_count := ?n\<rparr>"])
        (simp add: rpc_mgmt_set_max_concurrency_def Let_def)
  qed
qed

theorem pool_set_max_wraps_witness:
  "\<exists>q. rpc_mgmt_set_max_concurrency 1431655766 0 (sample_pool True) = (0, q) \<and> max_pkt_count q = 100000 \<and> pkt_count q = pkt_count (sample_pool True)"
proof -
  have m: "max_pkt_count (sample_pool True) = 100000" using started_ok(7) by (simp add: sample_pool_def)
  from pool_set_max_wraps [OF sample_pool_ok(1), of 1431655766 0 True] obtain q where
    "rpc_mgmt_set_max_concurrency 1431655766 0 (sample_pool True) = (0, q)" "unat (max_pkt_count q) = 100000"
    "unat (pkt_count q) = unat (pkt_count (sample_pool True))" unfolding Let_def m by auto
  then show ?thesis by (simp add: word_unat_eq_iff)
qed

text \<open>
  in the child of a fork just the packets of the free list are given back, each once, and every
  counter, list and limit is cleared.
\<close>

theorem pool_fork:
  assumes ok: "pool_ok lk p fs W"
  shows "\<exists>p'. rpc__dg_pkt_pool_fork_handler RPC_C_POSTFORK_CHILD p = Some p' \<and>
    (\<forall>x. elts p' x = (if x \<in> set fs then None else elts p x)) \<and> p' = pool_zero (p\<lparr>elts := elts p'\<rparr>)"
proof -
  have f: "nseg pe_next (elts p) (free_list p) fs NULL" "distinct fs" "unat (free_count p) = length fs"
    using pool_okD(1) [OF ok] unfolding free_ok_def free_chain_def by blast+
  from fork_free_ok [OF f(1,2)] obtain m where m: "fork_free (length fs) (free_list p) p = Some (p\<lparr>elts := m\<rparr>)"
    "\<forall>y. m y = (if y \<in> set fs then None else elts p y)" by blast
  have "elts (pool_zero (p\<lparr>elts := m\<rparr>)) = m" by (simp add: pool_zero_def)
  then show ?thesis using m f(3) by (simp add: rpc__dg_pkt_pool_fork_handler_def)
qed

theorem pool_fork_witness:
  "\<exists>p'. rpc__dg_pkt_pool_fork_handler RPC_C_POSTFORK_CHILD (sample_pool True) = Some p' \<and> elts p' 48 = None \<and> free_count p' = 0"
proof -
  from pool_fork [OF sample_pool_ok(1), of True] obtain p' where p': "rpc__dg_pkt_pool_fork_handler RPC_C_POSTFORK_CHILD (sample_pool True) = Some p'"
    "\<forall>x. elts p' x = (if x \<in> set (rev [1..<49]) then None else elts (sample_pool True) x)" "p' = pool_zero ((sample_pool True)\<lparr>elts := elts p'\<rparr>)" by blast
  have "free_count p' = 0" using arg_cong [OF p'(3), of free_count] by (simp add: pool_zero_def)
  then show ?thesis using p'(1,2) by simp
qed

section \<open>Waiting calls\<close>

lemma all_held_plain: "all_held (calls p) = all_held (pool_plain p)"
  by (rule held_cong(2)) (simp add: pool_plain_def option.map_comp comp_def)

lemma plain_upd_held:
  assumes "pool_ok lk p fs W" "pool_plain p y = Some c" "pool_plain q = (pool_plain p)(y \<mapsto> d)"
  shows "all_held (calls q) + held c = all_held (calls p) + held d"
proof -
  have "finite (dom (pool_plain p))" using pool_okD(3) [OF assms(1)] by (simp add: resvs_ok_def pool_plain_def)
  from all_held_upd [OF this assms(2), of d] show ?thesis unfolding all_held_plain assms(3) .
qed

lemma held_signals [simp]: "held (c\<lparr>pc_signals := n\<rparr>) = held c"
  by (simp add: held_def owner_def)

lemma signals_held:
  assumes "pool_ok lk p fs W" "pool_plain p' = pool_plain p \<or> (\<exists>y c n. pool_plain p y = Some c \<and> pool_plain p' = (pool_plain p)(y \<mapsto> c\<lparr>pc_signals := n\<rparr>))"
  shows "all_held (calls p') = all_held (calls p)"
  using assms(2)
proof
  assume "\<exists>y c n. pool_plain p y = Some c \<and> pool_plain p' = (pool_plain p)(y \<mapsto> c\<lparr>pc_signals := n\<rparr>)"
  then obtain y c n where "pool_plain p y = Some c" "pool_plain p' = (pool_plain p)(y \<mapsto> c\<lparr>pc_signals := n\<rparr>)" by blast
  from plain_upd_held [OF assms(1) this] show ?thesis by simp
qed (simp add: all_held_plain)

text \<open>
  C11: which waiting call is served by a packet given back, and what it gets.  With no call waiting for
  a reservation, and nothing happening while the lock is given up (\<open>id\<close>): if packets are not rationed
  any more after it, the first call that waits for a packet is signalled and taken off the list.
  When a call goes on after the signal, in whatever well-formed pool \<open>q\<close> the other threads have left
  by then: it waits again, at the end of the list, if packets are rationed and it has packets queued;
  otherwise it takes the head of the free list, or a new packet, and is off the list; it gets an error
  only if all packets are in use.
\<close>

theorem pool_waiter_served:
  assumes ok: "pool_ok lk p fs W" and x: "returnable p x" and ol: "one_less p p1" and call: "cget call p = Some c"
    and W: "W Rsv_waiters = []" "W Pkt_waiters = y # ys" and y: "live_call y p d"
  shows "(\<exists>p' W' e. pkt_free id x call p1 = Some p' \<and> pool_ok lk p' (fs @ [x]) W' \<and> cget y p' = Some e \<and>
      (unat (reservations p') < avail p' \<longrightarrow> W' Pkt_waiters = ys \<and> pc_signals e = Suc (pc_signals d) \<and> \<not> is_in_pkt_chain e)) \<and>
    (\<forall>l q gs V e z. pool_ok l q gs V \<and> live_call y q e \<and> fresh z q \<longrightarrow>
      (\<exists>r q' gs' V'. xqe_woken y z blank 0 q = Some (r, q') \<and> pool_ok l q' gs' V' \<and>
        (if avail q \<le> unat (reservations q) \<and> pc_xq_head e \<noteq> NULL then
           r = Xqe_wait \<and> gs' = gs \<and> V' = (if is_in_pkt_chain e then V else V(Pkt_waiters := V Pkt_waiters @ [y]))
         else V' = V(Pkt_waiters := remove1 y (V Pkt_waiters)) \<and>
           (if avail q = 0 then r = Xqe_error rpc_s_coding_error \<and> gs' = gs
            else r = Xqe (if gs = [] then z else hd gs) \<and> gs' = tl gs \<and> avail q' + 1 = avail q))))"
proof (intro conjI allI impI)
  have dy: "calls p y = Some d" "pc_refcnt (plain d) < 255" "y \<noteq> NULL" using y by (simp_all add: live_call_def cget_iff)
  from pkt_free_wakes [OF ok x ol call] obtain p' W' where
    p': "pkt_free id x call p1 = Some p'" "pool_ok lk p' (fs @ [x]) W'" and
    w: "if avail p' \<le> unat (reservations p') then
       if is_in_pkt_chain c \<and> pc_xq_head c = NULL
       then W' = W(Pkt_waiters := remove1 call (W Pkt_waiters)) \<and>
         pool_plain p' = (pool_plain p)(call \<mapsto> (plain c)\<lparr>pc_signals := Suc (pc_signals c)\<rparr>)
       else W' = W \<and> pool_plain p' = pool_plain p
     else wakes p' (pool_plain p) W W'" by blast
  have pc: "pool_plain p call = Some (plain c)" "pool_plain p y = Some (plain d)" using call dy(1) by (simp_all add: pool_plain_def cget_iff)
  show "\<exists>p' W' e. pkt_free id x call p1 = Some p' \<and> pool_ok lk p' (fs @ [x]) W' \<and> cget y p' = Some e \<and>
      (unat (reservations p') < avail p' \<longrightarrow> W' Pkt_waiters = ys \<and> pc_signals e = Suc (pc_signals d) \<and> \<not> is_in_pkt_chain e)"
  proof (cases "unat (reservations p') < avail p'")
    case False
    then have "pool_plain p' y \<noteq> None" using w pc(2) by (auto split: if_splits)
    then obtain e where "calls p' y = Some e" by (auto simp: pool_plain_def)
    then show ?thesis using p' False dy(3) by (intro exI [of _ p'] exI [of _ W'] exI [of _ e]) (simp add: cget_iff)
  next
    case True
    then have w: "wakes p' (pool_plain p) W W'" using w by simp
    have nw: "next_waiter p' W = Some y" using W True by (simp add: next_waiter_def)
    have sv: "serving W = Pkt_waiters" using W(1) by (simp add: serving_def)
    have W': "W' = W(Pkt_waiters := ys)" and pl: "pool_plain p' = (pool_plain p)(y \<mapsto> (plain d)\<lparr>pc_signals := Suc (pc_signals d)\<rparr>)"
      using w nw sv W(2) pc(2) by (simp_all add: wakes_def)
    then have "pool_plain p' y = Some ((plain d)\<lparr>pc_signals := Suc (pc_signals d)\<rparr>)" by simp
    then obtain e where e: "calls p' y = Some e" "plain e = (plain d)\<lparr>pc_signals := Suc (pc_signals d)\<rparr>" by (auto simp: pool_plain_def)
    have "distinct (W Pkt_waiters)" using pool_okD(4) [OF ok] by (simp add: waiters_ok_def wait_ok_def)
    then have "y \<notin> set (W' v)" for v using W W' by (cases v) simp_all
    then have "\<not> is_in_pkt_chain e" using pool_okD(4) [OF p'(2)] e(1) unfolding waiters_ok_def by blast
    moreover have "pc_signals e = Suc (pc_signals d)" using plain_fields(9) [of e] e(2) by simp
    moreover have "W' Pkt_waiters = ys" using W' by simp
    ultimately show ?thesis using p' e(1) dy(3) by (intro exI [of _ p'] exI [of _ W'] exI [of _ e]) (simp add: cget_iff)
  qed
next
  fix l q gs V e z
  assume a: "pool_ok l q gs V \<and> live_call y q e \<and> fresh z q"
  then have h: "pool_ok l q gs V" "cget y q = Some e" "fresh z q" "pc_refcnt (plain e) < 255" by (simp_all add: live_call_def)
  have xw: "xqe_woken y z blank 0 q = xqe_turn y z blank q" by (simp add: xqe_woken_def)
  note t = xqe_turn_ok [OF h(1,2) base_ref [OF h(4)] h(3), of blank]
  show "\<exists>r q' gs' V'. xqe_woken y z blank 0 q = Some (r, q') \<and> pool_ok l q' gs' V' \<and>
        (if avail q \<le> unat (reservations q) \<and> pc_xq_head e \<noteq> NULL then
           r = Xqe_wait \<and> gs' = gs \<and> V' = (if is_in_pkt_chain e then V else V(Pkt_waiters := V Pkt_waiters @ [y]))
         else V' = V(Pkt_waiters := remove1 y (V Pkt_waiters)) \<and>
           (if avail q = 0 then r = Xqe_error rpc_s_coding_error \<and> gs' = gs
            else r = Xqe (if gs = [] then z else hd gs) \<and> gs' = tl gs \<and> avail q' + 1 = avail q))"
  proof (cases "avail q \<le> unat (reservations q) \<and> pc_xq_head e \<noteq> NULL")
    case True
    then show ?thesis unfolding xw if_P [OF True] using t(1) by blast
  next
    case nw: False
    show ?thesis
    proof (cases "avail q = 0")
      case True
      then show ?thesis unfolding xw if_not_P [OF nw] if_P [OF True] using t(3) nw True by blast
    next
      case False
      then show ?thesis unfolding xw if_not_P [OF nw] if_not_P [OF False] using t(2) nw False by blast
    qed
  qed
qed

text \<open>
  C36: at most one waiting call is woken when a reservation is given up.  Two calls that wait for the
  packets it sets free, and fit in them together, are not both woken: the second is left on the list
  and is not signalled, although what it waits for is there even after the first has its share.
\<close>

theorem pool_cancel_wakes_one:
  assumes ok: "pool_ok lk p fs W" and c: "cget x p = Some c" "owner c" "pc_n_resvs c \<noteq> 0" "x \<notin> set (W Rsv_waiters)"
    and W: "W Rsv_waiters = y1 # y2 # ys" and d: "cget y1 p = Some d1" "cget y2 p = Some d2" and av: "srv_resv_avail p = 5"
    and room: "unat (reservations p) + unat (pc_n_resvs_wait d1) + unat (pc_n_resvs_wait d2) \<le> avail p + unat (pc_n_resvs c) + 1"
  shows "\<exists>p' W'. rpc__dg_pkt_cancel_reservation id x p = Some p' \<and> pool_ok lk p' fs W' \<and> W' Rsv_waiters = y2 # ys \<and>
    pool_plain p' y2 = pool_plain p y2 \<and>
    unat (reservations p') + unat (pc_n_resvs_wait d1) + unat (pc_n_resvs_wait d2) \<le> avail p'"
proof -
  from cancel_step [OF ok c(1-3), of id] av obtain q where q: "pool_ok lk q fs W" "same_pkts p q"
    "pool_plain q = (pool_plain p)(x \<mapsto> (plain c)\<lparr>pc_n_resvs := 0\<rparr>)" "unat (srv_resv_avail q) = 5"
    "rpc__dg_pkt_cancel_reservation id x p = map_option UPDATE_RATIONING_STATE (wake_scan id x q)" by auto
  have n: "x \<noteq> y1" "x \<noteq> y2" "y1 \<noteq> y2" using c(4) W pool_okD(4) [OF ok] by (auto simp: waiters_ok_def wait_ok_def dest: spec [of _ Rsv_waiters])
  have px: "pool_plain p x = Some (plain c)" using c(1) by (simp add: pool_plain_def cget_iff)
  have hd: "held (plain c) = unat (pc_n_resvs c) + 1" "held ((plain c)\<lparr>pc_n_resvs := 0\<rparr>) = 0"
    using c(2,3) by (simp_all add: held_def owner_def)
  have rq: "unat (reservations q) + unat (pc_n_resvs c) + 1 = unat (reservations p)"
    using pool_okD(3) [OF q(1)] pool_okD(3) [OF ok] plain_upd_held [OF ok px q(3)] hd q(4) av by (simp add: resvs_ok_def)
  have aq: "avail q = avail p" using q(2) by (simp add: same_pkts_def)
  have py: "pool_plain q y1 = Some (plain d1)" using n(1) d(1) q(3) by (simp add: pool_plain_def cget_iff)
  then obtain e where e: "calls q y1 = Some e" "plain e = plain d1" by (auto simp: pool_plain_def)
  have "pc_n_resvs_wait e = pc_n_resvs_wait d1" using plain_fields(6) [of e] plain_fields(6) [of d1] e(2) by simp
  then have nw: "next_waiter q W = Some y1" using e(1) W rq aq room by (simp add: next_waiter_def)
  from wake_scan_woken [OF q(1), of x] obtain p' W' where p': "wake_scan id x q = Some p'" "pool_ok lk p' fs W'"
    "pool_core p' = pool_core q" "woken q W W' p'" by blast
  have W': "W' = W(Rsv_waiters := y2 # ys)" using p'(4) nw W by (simp add: woken_def serving_def)
  have "pool_plain p' y2 = pool_plain q y2" using p'(4) nw n(3) by (auto simp: woken_def)
  then have "pool_plain p' y2 = pool_plain p y2" using q(3) n(2) by simp
  moreover have "unat (reservations p') + unat (pc_n_resvs_wait d1) + unat (pc_n_resvs_wait d2) \<le> avail p'"
    using room rq aq pool_core_fields(3) [OF p'(3)] core_ok(3) [OF p'(3)] by simp
  ultimately show ?thesis using q(5) p'(1,2) W'
    by (intro exI [of _ "UPDATE_RATIONING_STATE p'"] exI [of _ W']) (simp add: pool_plain_def)
qed

section \<open>Sample pools\<close>

text \<open>A packet is in use.\<close>

definition busy_pool :: "bool \<Rightarrow> dg_pool" where
  "busy_pool srv = (sample_pool srv)\<lparr>elts := (elts (sample_pool srv))(50 \<mapsto> blank_elt), active_xqes := 1, max_pkt_count := 100001\<rparr>"

lemma busy_ok:
  "pool_ok 0 (busy_pool srv) (rev [1..<49]) (\<lambda>_. [])" "avail (busy_pool srv) = 100000" "reservations (busy_pool srv) = 17"
  "srv_resv_avail (busy_pool srv) = 5" "cget 100 (busy_pool srv) = Some (sample_pcall srv 0)" "returnable (busy_pool srv) 50"
  "one_less (busy_pool srv) ((busy_pool srv)\<lparr>active_xqes := 0\<rparr>)"
proof -
  note k = pool_okD [OF sample_pool_ok(1) [of srv]]
  let ?p = "sample_pool srv" and ?q = "busy_pool srv"
  have "free_ok (?p\<lparr>elts := (elts ?p)(50 \<mapsto> blank_elt)\<rparr>) (rev [1..<49])"
    by (rule free_ok_upd [OF k(1)]) (simp_all add: blank_elt_def)
  moreover have "free_ok ?q (rev [1..<49]) = free_ok (?p\<lparr>elts := (elts ?p)(50 \<mapsto> blank_elt)\<rparr>) (rev [1..<49])"
    by (simp add: busy_pool_def free_ok_def free_chain_def)
  ultimately have f: "free_ok ?q (rev [1..<49])" by blast
  show av: "avail ?q = 100000" "reservations ?q = 17" "srv_resv_avail ?q = 5"
    using sample_pool_ok [of srv] by (simp_all add: busy_pool_def avail_def)
  have m: "max_pkt_count ?p = 100000" using started_ok(7) by (simp add: sample_pool_def)
  have "unat (active_rqes ?p) = 0" using k(2) sample_pool_ok(2) [of srv] m by (simp add: counts_ok_def)
  then have "counts_ok ?q" unfolding counts_ok_def av by (simp add: busy_pool_def)
  moreover have "resvs_ok 0 ?q" using k(3) by (simp add: resvs_ok_def busy_pool_def m)
  moreover have "socks_ok ?q" by (simp add: socks_ok_def busy_pool_def sample_pool_def sample_sock_def)
  moreover have "waiters_ok ?q (\<lambda>_. []) = waiters_ok ?p (\<lambda>_. [])" "refs_ok ?q = refs_ok ?p"
    by (rule waiters_same; simp add: busy_pool_def)+
  ultimately show "pool_ok 0 ?q (rev [1..<49]) (\<lambda>_. [])" using f k(4,5) by (simp add: pool_ok_def)
  show "cget 100 ?q = Some (sample_pcall srv 0)" using sample_pool_call(1) [of srv] by (simp add: busy_pool_def live_call_def cget_def)
  show "returnable ?q 50" by (auto simp: returnable_def in_use_def busy_pool_def blank_elt_def sample_pool_def sample_sock_def split: if_splits)
  show "one_less ?q (?q\<lparr>active_xqes := 0\<rparr>)" by (simp add: one_less_def busy_pool_def)
qed

text \<open>And the call waits for one.\<close>

lemma waiting_pool:
  "\<exists>p c. pool_ok 0 p (rev [1..<49]) ((\<lambda>_. [])(Pkt_waiters := [100])) \<and> cget 100 p = Some c \<and> live_call 100 p c \<and> avail p = 100000 \<and>
    reservations p = 17 \<and> srv_resv_avail p = 5 \<and> returnable p 50 \<and> one_less p (p\<lparr>active_xqes := 0\<rparr>)"
proof -
  let ?q = "busy_pool True"
  note b = busy_ok [of True]
  have "\<not> is_in_pkt_chain (sample_pcall True 0)" "pc_refcnt (sample_pcall True 0) < 255" by (simp_all add: sample_pcall_def)
  from enqueue_ok [OF pool_okD(4) [OF b(1)] b(5) this, of Pkt_waiters] obtain p where p: "waiters_ok p ((\<lambda>_. [])(Pkt_waiters := [100]))"
    "pool_core p = pool_core ?q" "pool_plain p = pool_plain ?q" "refs_ok p" using pool_okD(5) [OF b(1)] by auto
  note f = pool_core_fields [OF p(2)]
  have "pool_plain p 100 = Some (plain (sample_pcall True 0))" using b(5) p(3) by (simp add: pool_plain_def cget_iff)
  then obtain c where c: "calls p 100 = Some c" "plain c = plain (sample_pcall True 0)" by (auto simp: pool_plain_def)
  have "pool_ok 0 p (rev [1..<49]) ((\<lambda>_. [])(Pkt_waiters := [100]))" using core_pool_ok(1) [OF b(1) p(2,3,1,4)] .
  moreover have "returnable p 50" using b(6) f by (simp add: returnable_def in_use_def)
  moreover have "one_less p (p\<lparr>active_xqes := 0\<rparr>)" using f by (simp add: one_less_def busy_pool_def)
  moreover have "live_call 100 p c" using c by (simp add: live_call_def cget_iff) (simp add: plain_def sample_pcall_def)
  ultimately show ?thesis using c(1) core_ok(3) [OF p(2)] b f by (intro exI [of _ p] exI [of _ c]) (simp add: cget_iff)
qed

text \<open>The call holds a reservation of two packets.\<close>

definition resv_pool :: "bool \<Rightarrow> dg_pool" where
  "resv_pool srv = (sample_pool srv)\<lparr>calls := (calls (sample_pool srv))(100 \<mapsto> sample_pcall srv 2), reservations := 20, srv_resv_avail := 5\<rparr>"

lemma resv_pool_ok:
  "pool_ok 0 (resv_pool srv) (rev [1..<49]) (\<lambda>_. [])" "cget 100 (resv_pool srv) = Some (sample_pcall srv 2)" "owner (sample_pcall srv 2)"
proof -
  have "held (sample_pcall srv 0) = 0" "held (sample_pcall srv 2) = 3" "calls (sample_pool srv) 100 = Some (sample_pcall srv 0)"
    "max_pkt_count (sample_pool srv) = 100000"
    using started_ok(7) by (simp_all add: held_def owner_def sample_pcall_def sample_pool_def)
  then show "pool_ok 0 (resv_pool srv) (rev [1..<49]) (\<lambda>_. [])"
    by (intro call_upd_ok(1) [OF sample_pool_ok(1) _ resv_pool_def]) (simp_all add: sample_pool_ok sample_pcall_def)
  show "cget 100 (resv_pool srv) = Some (sample_pcall srv 2)" "owner (sample_pcall srv 2)"
    by (simp_all add: cget_def resv_pool_def owner_def sample_pcall_def)
qed

text \<open>22 packets, all of them reserved, 5 by call 100; the calls 200 and 300 wait for two each.\<close>

definition full_pool :: dg_pool where
  "full_pool = \<lparr>max_pkt_count = 100000, pkt_count = 22, reservations = 22, srv_resv_avail = 5, max_resv_pkt = 2, active_rqes = 99978,
     active_xqes = 0, failed_alloc_rqe = 0, blocked_alloc_xqe = 0, free_count = 0, pl_is_rationing = True,
     pl_low_on_pkts = True, free_list = 0, free_list_tail = 0, pkt_waiters_head = 0, pkt_waiters_tail = 0,
     rsv_waiters_head = 200, rsv_waiters_tail = 300, elts = Map.empty,
     calls = [100 \<mapsto> sample_pcall False 4,
       200 \<mapsto> (sample_pcall False 0)\<lparr>pc_n_resvs_wait := 2, is_in_pkt_chain := True, pkt_chain := 300, pc_refcnt := 2\<rparr>,
       300 \<mapsto> (sample_pcall False 0)\<lparr>pc_n_resvs_wait := 2, is_in_pkt_chain := True, pc_refcnt := 2\<rparr>], socks = Map.empty\<rparr>"

lemma full_pool_ok: "pool_ok 0 full_pool [] ((\<lambda>_. [])(Rsv_waiters := [200, 300]))"
  unfolding pool_ok_def
proof (intro conjI)
  show "free_ok full_pool []" by (simp add: free_ok_def free_chain_def full_pool_def last_addr_def)
  show "counts_ok full_pool" by (simp add: counts_ok_def avail_def full_pool_def)
  have "dom (calls full_pool) = {100, 200, 300}" by (auto simp: full_pool_def)
  then have "all_held (calls full_pool) = 5" by (simp add: all_held_def full_pool_def held_def owner_def sample_pcall_def)
  then show "resvs_ok 0 full_pool" by (simp add: resvs_ok_def full_pool_def)
  have "wait_ok full_pool w (((\<lambda>_. [])(Rsv_waiters := [200, 300])) w)" for w
    by (cases w) (simp_all add: wait_ok_def full_pool_def sample_pcall_def)
  then show "waiters_ok full_pool ((\<lambda>_. [])(Rsv_waiters := [200, 300]))"
    by (auto simp: waiters_ok_def full_pool_def sample_pcall_def split: if_splits)
  show "refs_ok full_pool" by (simp add: refs_ok_def full_pool_def sample_pcall_def)
  show "socks_ok full_pool" by (simp add: socks_ok_def full_pool_def)
qed

theorem pool_free_wakes_witness:
  "\<exists>p'. pkt_free id 50 100 ((busy_pool True)\<lparr>active_xqes := 0\<rparr>) = Some p' \<and> avail p' = 100001"
  using pool_free_wakes [OF busy_ok(1,6,7,5), of True] busy_ok(2) [of True] by auto

theorem pool_waiter_served_witness:
  "\<exists>p p' fs W e q. pool_ok 0 p fs W \<and> W Pkt_waiters = [100] \<and> pkt_free id 50 100 (p\<lparr>active_xqes := 0\<rparr>) = Some p' \<and>
    cget 100 p' = Some e \<and> xqe_woken 100 60 blank_elt 0 (sample_pool True) = Some (Xqe 48, q)"
proof -
  from waiting_pool obtain p c where p: "pool_ok 0 p (rev [1..<49]) ((\<lambda>_. [])(Pkt_waiters := [100]))" "cget 100 p = Some c" "live_call 100 p c"
    "returnable p 50" "one_less p (p\<lparr>active_xqes := 0\<rparr>)" by blast
  have w: "((\<lambda>_. [])(Pkt_waiters := [100 :: addr])) Rsv_waiters = []" "((\<lambda>_. [])(Pkt_waiters := [100 :: addr])) Pkt_waiters = 100 # []" by simp_all
  note t = pool_waiter_served [OF p(1,4,5,2) w p(3), of blank_elt]
  from conjunct1 [OF t] obtain p' e where "pkt_free id 50 100 (p\<lparr>active_xqes := 0\<rparr>) = Some p'" "cget 100 p' = Some e" by blast
  moreover have "\<not> (avail (sample_pool True) \<le> unat (reservations (sample_pool True)) \<and> pc_xq_head (sample_pcall True 0) \<noteq> NULL)"
    "avail (sample_pool True) \<noteq> 0" using sample_pool_ok(2) [of True] by (simp_all add: sample_pcall_def)
  with conjunct2 [OF t, rule_format, of 0 "sample_pool True" "rev [1..<49]" "\<lambda>_. []" "sample_pcall True 0" 60] sample_pool_ok(1) [of True]
    sample_pool_call(1) [of True] sample_fresh [of 60 True]
  obtain q where "xqe_woken 100 60 blank_elt 0 (sample_pool True) = Some (Xqe 48, q)" by (auto simp: hd_rev)
  ultimately show ?thesis using p(1) w(2) by blast
qed

theorem pool_cancel_witness:
  "\<exists>p'. rpc__dg_pkt_cancel_reservation id 100 (resv_pool True) = Some p' \<and> avail p' = avail (resv_pool True)"
  using pool_cancel [OF resv_pool_ok(1-3), of True] by (auto simp: sample_pcall_def)

theorem pool_double_grant_witness:
  "\<exists>p' W'. adjust_woken 100 2 (how_many 2 (sample_pcall True 0)) 0 (resv_pool True) = Some (Resv True, p') \<and>
    unat (reservations p') = 23 \<and> pool_ok 3 p' (rev [1..<49]) W'"
proof -
  have p: "live_call 100 (resv_pool True) (sample_pcall True 2)" "pc_n_resvs (sample_pcall True 2) \<noteq> 0" "(sample_pcall True 2)\<lparr>pc_n_resvs := 0\<rparr> = sample_pcall True 0"
    "reservations (resv_pool True) = 20" "avail (resv_pool True) = 100000" "unat (pc_n_resvs (sample_pcall True 2)) = 2"
    using resv_pool_ok(2) [of True] sample_pool_ok(2) [of True] by (simp_all add: live_call_def sample_pcall_def plain_def resv_pool_def avail_def)
  from pool_double_grant [OF resv_pool_ok(1) p(1) resv_pool_ok(3) p(2), of 2] p(3-5) obtain p' W' where
    "adjust_woken 100 2 (how_many 2 (sample_pcall True 0)) 0 (resv_pool True) = Some (Resv True, p')" "unat (reservations p') = 23"
    "pool_ok (0 + unat (pc_n_resvs (sample_pcall True 2)) + 1) p' (rev [1..<49]) W'" by auto
  moreover have "0 + unat (pc_n_resvs (sample_pcall True 2)) + 1 = 3" using p(6) by simp
  ultimately show ?thesis by metis
qed

theorem pool_cancel_wakes_one_witness:
  "\<exists>p' W'. rpc__dg_pkt_cancel_reservation id 100 full_pool = Some p' \<and> pool_ok 0 p' [] W' \<and> W' Rsv_waiters = [300] \<and>
    unat (reservations p') + 2 + 2 \<le> avail p'"
proof -
  let ?W = "(\<lambda>_. [])(Rsv_waiters := [200, 300 :: addr])" and ?d = "\<lambda>n. (sample_pcall False 0)\<lparr>pc_n_resvs_wait := 2, is_in_pkt_chain := True, pkt_chain := n, pc_refcnt := 2\<rparr>"
  have "cget 100 full_pool = Some (sample_pcall False 4)" "owner (sample_pcall False 4)" "pc_n_resvs (sample_pcall False 4) \<noteq> 0"
    "100 \<notin> set (?W Rsv_waiters)" "?W Rsv_waiters = 200 # 300 # []" "cget 200 full_pool = Some (?d 300)" "cget 300 full_pool = Some (?d 0)"
    "srv_resv_avail full_pool = 5"
    "unat (reservations full_pool) + unat (pc_n_resvs_wait (?d 300)) + unat (pc_n_resvs_wait (?d 0)) \<le> avail full_pool + unat (pc_n_resvs (sample_pcall False 4)) + 1"
    by (simp_all add: cget_def full_pool_def sample_pcall_def owner_def avail_def)
  from pool_cancel_wakes_one [OF full_pool_ok this] show ?thesis by auto
qed

end
